(* ===== verification/SR_Prelude.thy ===== *)
theory SR_Prelude
  imports Main "HOL-Library.Word" "HOL-Library.Signed_Division"
begin

unbundle bit_operations_syntax

text \<open>
  Shared vocabulary of the Sharp Runtime development: the fixed-width integer aliases of
  \<^verbatim>\<open>SharpRuntimeHelper.hpp\<close>, the exceptions the modelled code throws, a result type for
  code that may throw, strict weak orders, and generic facts on lists, options and words that the component
  theories use.
\<close>

section \<open>Types\<close>

text \<open>
  \<^verbatim>\<open>bytecs\<close>, \<^verbatim>\<open>uintcs\<close> and \<^verbatim>\<open>ulongcs\<close> are words. \<^verbatim>\<open>intcs\<close> quantities that are lengths,
  indices or counts are \<open>int\<close>; where a 32-bit or 64-bit signed computation can wrap it is written
  on words and read back with \<open>sint\<close>.
\<close>

type_synonym bytecs = "8 word"
type_synonym uintcs = "32 word"
type_synonym ulongcs = "64 word"
type_synonym intcs = int

text \<open>A raw pointer to a byte buffer: \<open>None\<close> is \<^verbatim>\<open>nullptr\<close>.\<close>

type_synonym buffer = "bytecs list option"

text \<open>
  The exceptions of the modelled code. An argument exception carries its \<^verbatim>\<open>paramName\<close>,
  \<open>InvalidOperationException\<close> its message.
\<close>

datatype exn =
    ArgumentException string
  | ArgumentNullException string
  | ArgumentOutOfRangeException string
  | InvalidOperationException string
  | FormatException
  | OverflowException
  | OutOfMemoryException
  | ObjectDisposedException string
  | SemaphoreFullException
  | SynchronizationLockException string
  | LockRecursionException string
  | NotSupportedException string
  | OperationCanceledException
  | NullReferenceException
  | DecoderFallbackException "bytecs list" intcs
  | EncoderFallbackException uintcs intcs
  | IOException string
  | EndOfStreamException

type_synonym 'a res = "exn + 'a"

definition bind_res :: "'a res \<Rightarrow> ('a \<Rightarrow> 'b res) \<Rightarrow> 'b res" where
  "bind_res r f = (case r of Inl e \<Rightarrow> Inl e | Inr x \<Rightarrow> f x)"

definition INTCS_MAX :: int where
  "INTCS_MAX = 2147483647"

definition INTCS_MIN :: int where
  "INTCS_MIN = - 2147483648"

definition LONGCS_MAX :: int where
  "LONGCS_MAX = 9223372036854775807"

definition LONGCS_MIN :: int where
  "LONGCS_MIN = - 9223372036854775808"

section \<open>Collections of facts\<close>

named_theorems res_simps \<open>evaluation of computations that may throw\<close>

section \<open>Results\<close>

lemma bind_res_Inl [simp, res_simps]: "bind_res (Inl e) f = Inl e"
  by (simp add: bind_res_def)

lemma bind_res_Inr [simp, res_simps]: "bind_res (Inr x) f = f x"
  by (simp add: bind_res_def)

lemma bind_res_eq_Inr: "bind_res r f = Inr y \<longleftrightarrow> (\<exists>x. r = Inr x \<and> f x = Inr y)"
  by (cases r) auto

lemma bind_res_eq_Inl: "bind_res r f = Inl e \<longleftrightarrow> r = Inl e \<or> (\<exists>x. r = Inr x \<and> f x = Inl e)"
  by (cases r) auto

lemmas res_cases = bind_res_eq_Inr bind_res_eq_Inl

section \<open>Arithmetic\<close>

lemma mod_add3: "(b mod k + a mod k + x) mod k = (b + (a + x)) mod (k :: nat)"
  by (metis add.assoc mod_add_cong mod_mod_trivial)

section \<open>Lists\<close>

text \<open>Turns a bounded universal statement into one that \<open>simp add: upt_rec\<close> evaluates.\<close>

lemma all_less_upt: "(\<forall>n<k::nat. P n) \<longleftrightarrow> list_all P [0..<k]"
  by (auto simp: list_all_iff)

section \<open>Words\<close>

lemma unat_byte_bound: "unat (x :: bytecs) \<le> 255"
  using unsigned_less [of x, where ?'a = nat] by simp

lemma unat_byte_less [simp]: "unat (x :: bytecs) < 256"
  using unat_byte_bound [of x] by simp

lemma unat_add_small:
  fixes x y :: "'a::len word"
  assumes "unat x + unat y < 2 ^ LENGTH('a)"
  shows "unat (x + y) = unat x + unat y"
  using assms by (simp add: unat_word_ariths)

lemma unat_ucast_up:
  assumes "LENGTH('a::len) \<le> LENGTH('b::len)"
  shows "unat (ucast (x :: 'a word) :: 'b word) = unat x"
proof -
  have "unat x < 2 ^ LENGTH('b)"
    by (rule less_le_trans [OF unsigned_less]) (simp add: assms power_increasing)
  then show ?thesis
    by (simp add: unsigned_ucast_eq take_bit_nat_eq_self)
qed

lemma of_nat_word_ge:
  assumes "n < 2 ^ LENGTH('a::len)" and "m < 2 ^ LENGTH('a)"
  shows "(of_nat m :: 'a word) \<le> of_nat n \<longleftrightarrow> m \<le> n"
  using assms by (simp add: word_le_nat_alt unsigned_of_nat take_bit_nat_eq_self)

lemma bit_push_bit_1_iff:
  "bit (push_bit 1 (x :: 'a::len word)) k \<longleftrightarrow> 0 < k \<and> k < LENGTH('a) \<and> bit x (k - 1)"
  by (simp only: bit_push_bit_iff possible_bit_word) (cases k, auto)

lemma bit_drop_bit_1_iff: "bit (drop_bit 1 (x :: 'a::len word)) k \<longleftrightarrow> bit x (Suc k)"
  by (simp only: bit_drop_bit_eq comp_apply) simp

text \<open>Shifting and combining disjoint fields is addition.\<close>

lemma nat_shift_or:
  assumes "n < 2 ^ k"
  shows "push_bit k m OR n = m * 2 ^ k + (n :: nat)"
proof -
  have "push_bit k m AND n = 0"
  proof (rule bit_eqI)
    fix j
    have "take_bit k n = n" using assms by (simp add: take_bit_nat_eq_self)
    then have "bit n j \<Longrightarrow> j < k" by (metis bit_take_bit_iff)
    then show "bit (push_bit k m AND n) j \<longleftrightarrow> bit 0 j" by (auto simp: bit_simps)
  qed
  then show ?thesis by (simp add: disjunctive_add_eq_or [symmetric] push_bit_eq_mult)
qed

lemma unat_shift:
  fixes x :: uintcs
  assumes "unat x * 2 ^ k < 2 ^ 32"
  shows "unat (push_bit k x) = unat x * 2 ^ k"
proof -
  have "unat (push_bit k x) = take_bit 32 (push_bit k (unat x))"
    by (simp only: unsigned_push_bit_eq) simp
  also have "\<dots> = unat x * 2 ^ k" using assms by (simp add: push_bit_eq_mult take_bit_nat_eq_self)
  finally show ?thesis .
qed

lemma unat_shift_or:
  fixes x y :: uintcs
  assumes "unat y < 2 ^ k" and "unat x * 2 ^ k < 2 ^ 32"
  shows "unat (push_bit k x OR y) = unat x * 2 ^ k + unat y"
  using nat_shift_or [OF assms(1), of "unat x"] unat_shift [OF assms(2)]
  by (simp only: unsigned_or_eq push_bit_eq_mult [of k "unat x"])

lemma unat_ucast_byte: "unat (ucast (b :: bytecs) :: uintcs) = unat b"
  by (simp add: unsigned_ucast_eq take_bit_nat_eq_self unat_byte_less less_le_trans [OF unat_byte_less])

lemma ucast_byte_of: "unat (ucast (w :: uintcs) :: bytecs) = unat w mod 256"
  by (simp add: unsigned_ucast_eq take_bit_eq_mod)

section \<open>Comparers\<close>

text \<open>A strict weak order: what the containers and heap algorithms of the C++ library require of a comparer.\<close>

definition strict_weak_order :: "('a \<Rightarrow> 'a \<Rightarrow> bool) \<Rightarrow> bool" where
  "strict_weak_order lt \<longleftrightarrow> (\<forall>x y. lt x y \<longrightarrow> \<not> lt y x) \<and> (\<forall>x y z. lt x y \<longrightarrow> lt x z \<or> lt z y)"

lemma strict_weak_asym: "strict_weak_order lt \<Longrightarrow> lt x y \<Longrightarrow> \<not> lt y x"
  unfolding strict_weak_order_def by blast

lemma strict_weak_trans: "strict_weak_order lt \<Longrightarrow> lt x y \<Longrightarrow> lt y z \<Longrightarrow> lt x z"
  unfolding strict_weak_order_def by blast

lemma strict_weak_neg_trans: "strict_weak_order lt \<Longrightarrow> \<not> lt x y \<Longrightarrow> \<not> lt y z \<Longrightarrow> \<not> lt x z"
  unfolding strict_weak_order_def by blast

section \<open>Little-endian values\<close>

fun le_value :: "bytecs list \<Rightarrow> nat" where
  "le_value [] = 0"
| "le_value (x # xs) = unat x + 256 * le_value xs"

lemma le_value_append: "le_value (xs @ ys) = le_value xs + 256 ^ length xs * le_value ys"
  by (induction xs) (simp_all add: algebra_simps)

end
