(* ===== verification/Hashing_Base.thy ===== *)
theory Hashing_Base
  imports SR_Prelude
begin

unbundle bit_operations_syntax

text \<open>
  The common part of \<^verbatim>\<open>System::IO::Hashing\<close>: argument validation
  (\<^verbatim>\<open>HashingArgumentValidation.hpp\<close>), byte order (\<^verbatim>\<open>HashingByteOrder.hpp\<close>) and the abstract
  base class \<^verbatim>\<open>NonCryptographicHashAlgorithm\<close>. A derived class is a record of its virtual members;
  the locale \<open>hash_algorithm\<close> is the contract a derived class owes, and the facts every caller of
  the base class gets from it are proved inside it once.
\<close>

section \<open>Argument validation\<close>

definition ThrowNegativeLength :: "'a res" where
  "ThrowNegativeLength = Inl (ArgumentOutOfRangeException ''length'')"

definition ThrowNullSource :: "'a res" where
  "ThrowNullSource = Inl (ArgumentNullException ''source'')"

definition ThrowNullDestination :: "'a res" where
  "ThrowNullDestination = Inl (ArgumentNullException ''destination'')"

definition ThrowDestinationTooShort :: "'a res" where
  "ThrowDestinationTooShort = Inl (ArgumentException ''destination'')"

definition ValidateLength :: "intcs \<Rightarrow> unit res" where
  "ValidateLength len = (if len < 0 then ThrowNegativeLength else Inr ())"

definition ValidateSource :: "buffer \<Rightarrow> intcs \<Rightarrow> unit res" where
  "ValidateSource source len =
     bind_res (ValidateLength len)
       (\<lambda>_. if len > 0 \<and> source = None then ThrowNullSource else Inr ())"

definition ValidateDestination :: "buffer \<Rightarrow> intcs \<Rightarrow> intcs \<Rightarrow> unit res" where
  "ValidateDestination destination destinationLength requiredLength =
     (if destinationLength < requiredLength then ThrowDestinationTooShort
      else if destination = None then ThrowNullDestination
      else Inr ())"

definition TryValidateDestination :: "buffer \<Rightarrow> intcs \<Rightarrow> intcs \<Rightarrow> bool res" where
  "TryValidateDestination destination destinationLength requiredLength =
     (if destinationLength < requiredLength then Inr False
      else if destination = None then ThrowNullDestination
      else Inr True)"

definition ValidateNonNullDestination :: "buffer \<Rightarrow> unit res" where
  "ValidateNonNullDestination destination =
     (if destination = None then ThrowNullDestination else Inr ())"

text \<open>
  The bytes a validated call reads: the first \<open>len\<close> bytes behind the pointer. \<open>len\<close> larger than the
  real buffer is outside the contract of a raw pointer: \<open>source_fits\<close> excludes it where it matters.
\<close>

definition source_bytes :: "buffer \<Rightarrow> intcs \<Rightarrow> bytecs list" where
  "source_bytes source len = take (nat len) (case source of None \<Rightarrow> [] | Some bs \<Rightarrow> bs)"

definition source_fits :: "buffer \<Rightarrow> intcs \<Rightarrow> bool" where
  "source_fits source len \<longleftrightarrow> nat len \<le> length (case source of None \<Rightarrow> [] | Some bs \<Rightarrow> bs)"

text \<open>Writing a block of bytes at the start of a destination buffer.\<close>

definition write_front :: "buffer \<Rightarrow> bytecs list \<Rightarrow> buffer" where
  "write_front destination bs = map_option (\<lambda>d. bs @ drop (length bs) d) destination"

section \<open>Byte order\<close>

text \<open>The first four (eight) bytes of the argument are read, as through the C++ pointer.\<close>

definition ReadUInt32LittleEndian :: "bytecs list \<Rightarrow> uintcs" where
  "ReadUInt32LittleEndian source =
     (ucast (source ! 0) OR push_bit 8 (ucast (source ! 1))) OR
     push_bit 16 (ucast (source ! 2)) OR push_bit 24 (ucast (source ! 3))"

definition ReadUInt64LittleEndian :: "bytecs list \<Rightarrow> ulongcs" where
  "ReadUInt64LittleEndian source =
     ucast (ReadUInt32LittleEndian source) OR
     push_bit 32 (ucast (ReadUInt32LittleEndian (drop 4 source)))"

definition WriteUInt64LittleEndian :: "ulongcs \<Rightarrow> bytecs list" where
  "WriteUInt64LittleEndian v = map (\<lambda>i. ucast (drop_bit (8 * i) v)) [0..<8]"

definition WriteUInt32BigEndian :: "uintcs \<Rightarrow> bytecs list" where
  "WriteUInt32BigEndian v =
     [ucast (drop_bit 24 v), ucast (drop_bit 16 v), ucast (drop_bit 8 v), ucast v]"

section \<open>The abstract base class\<close>

text \<open>
  The virtual members of a derived class over its state \<open>'s\<close>. \<^verbatim>\<open>GetCurrentHashCore\<close> and
  \<^verbatim>\<open>GetHashAndResetCore\<close> return the bytes they store through their destination pointer.
\<close>

record 's NonCryptographicHashAlgorithm =
  hashLengthInBytes :: intcs
  vAppend :: "'s \<Rightarrow> buffer \<Rightarrow> intcs \<Rightarrow> 's res"
  vReset :: "'s \<Rightarrow> 's"
  vGetCurrentHashCore :: "'s \<Rightarrow> bytecs list"
  vGetHashAndResetCore :: "'s \<Rightarrow> bytecs list \<times> 's"

definition NonCryptographicHashAlgorithm_ctor :: "intcs \<Rightarrow> intcs res" where
  "NonCryptographicHashAlgorithm_ctor len =
     (if len < 1 then Inl (ArgumentOutOfRangeException ''hashLengthInBytes'') else Inr len)"

text \<open>The default implementation of the virtual \<^verbatim>\<open>GetHashAndResetCore\<close>.\<close>

definition GetHashAndResetCore_default ::
  "('s \<Rightarrow> bytecs list) \<Rightarrow> ('s \<Rightarrow> 's) \<Rightarrow> 's \<Rightarrow> bytecs list \<times> 's" where
  "GetHashAndResetCore_default core rst s = (core s, rst s)"

definition AppendVector :: "'s NonCryptographicHashAlgorithm \<Rightarrow> 's \<Rightarrow> bytecs list \<Rightarrow> 's res" where
  "AppendVector vt s source = vAppend vt s (Some source) (int (length source))"

text \<open>
  \<^verbatim>\<open>Append(Stream&)\<close>: \<open>rd st n\<close> is the virtual \<^verbatim>\<open>Stream::Read\<close> of at most \<open>n\<close> bytes, with the
  stream's next state. A stream that never runs dry keeps the loop running: \<open>None\<close>.
\<close>

partial_function (option) AppendStream ::
  "'s NonCryptographicHashAlgorithm \<Rightarrow> ('t \<Rightarrow> nat \<Rightarrow> bytecs list \<times> 't) \<Rightarrow> 's \<Rightarrow> 't \<Rightarrow> ('s \<times> 't) res option"
where
  "AppendStream vt rd s st =
     (case rd st 65536 of (chunk, st') \<Rightarrow>
        if length chunk > 0 then
          (case vAppend vt s (Some chunk) (int (length chunk)) of
             Inl e \<Rightarrow> Some (Inl e)
           | Inr s' \<Rightarrow> AppendStream vt rd s' st')
        else Some (Inr (s, st')))"

definition GetCurrentHash :: "'s NonCryptographicHashAlgorithm \<Rightarrow> 's \<Rightarrow> bytecs list" where
  "GetCurrentHash vt s = vGetCurrentHashCore vt s"

definition TryGetCurrentHash ::
  "'s NonCryptographicHashAlgorithm \<Rightarrow> 's \<Rightarrow> buffer \<Rightarrow> intcs \<Rightarrow> (bool \<times> intcs \<times> buffer) res" where
  "TryGetCurrentHash vt s destination destinationLength =
     bind_res (TryValidateDestination destination destinationLength (hashLengthInBytes vt))
       (\<lambda>ok. if \<not> ok then Inr (False, 0, destination)
             else Inr (True, hashLengthInBytes vt, write_front destination (vGetCurrentHashCore vt s)))"

definition GetCurrentHashInto ::
  "'s NonCryptographicHashAlgorithm \<Rightarrow> 's \<Rightarrow> buffer \<Rightarrow> intcs \<Rightarrow> (intcs \<times> buffer) res" where
  "GetCurrentHashInto vt s destination destinationLength =
     bind_res (ValidateDestination destination destinationLength (hashLengthInBytes vt))
       (\<lambda>_. Inr (hashLengthInBytes vt, write_front destination (vGetCurrentHashCore vt s)))"

definition GetHashAndReset :: "'s NonCryptographicHashAlgorithm \<Rightarrow> 's \<Rightarrow> bytecs list \<times> 's" where
  "GetHashAndReset vt s = vGetHashAndResetCore vt s"

definition TryGetHashAndReset ::
  "'s NonCryptographicHashAlgorithm \<Rightarrow> 's \<Rightarrow> buffer \<Rightarrow> intcs \<Rightarrow> (bool \<times> intcs \<times> buffer \<times> 's) res" where
  "TryGetHashAndReset vt s destination destinationLength =
     bind_res (TryValidateDestination destination destinationLength (hashLengthInBytes vt))
       (\<lambda>ok. if \<not> ok then Inr (False, 0, destination, s)
             else case vGetHashAndResetCore vt s of (h, s') \<Rightarrow>
                    Inr (True, hashLengthInBytes vt, write_front destination h, s'))"

definition GetHashAndResetInto ::
  "'s NonCryptographicHashAlgorithm \<Rightarrow> 's \<Rightarrow> buffer \<Rightarrow> intcs \<Rightarrow> (intcs \<times> buffer \<times> 's) res" where
  "GetHashAndResetInto vt s destination destinationLength =
     bind_res (ValidateDestination destination destinationLength (hashLengthInBytes vt))
       (\<lambda>_. case vGetHashAndResetCore vt s of (h, s') \<Rightarrow>
              Inr (hashLengthInBytes vt, write_front destination h, s'))"

text \<open>Any sequence of vector appends, as a caller that feeds data chunk by chunk issues them.\<close>

fun AppendAll :: "'s NonCryptographicHashAlgorithm \<Rightarrow> 's \<Rightarrow> bytecs list list \<Rightarrow> 's res" where
  "AppendAll vt s [] = Inr s"
| "AppendAll vt s (c # cs) = bind_res (AppendVector vt s c) (\<lambda>s'. AppendAll vt s' cs)"

text \<open>
  What a stream delivers: the non-empty results of successive reads, up to the empty read that
  ends the loop of \<open>AppendStream\<close>.
\<close>

inductive yields :: "('t \<Rightarrow> nat \<Rightarrow> bytecs list \<times> 't) \<Rightarrow> 't \<Rightarrow> bytecs list list \<Rightarrow> 't \<Rightarrow> bool"
  for rd where
  dry: "rd st 65536 = ([], st') \<Longrightarrow> yields rd st [] st'"
| more: "rd st 65536 = (c, st') \<Longrightarrow> c \<noteq> [] \<Longrightarrow> yields rd st' cs st'' \<Longrightarrow> yields rd st (c # cs) st''"

section \<open>Facts on validation and buffers\<close>

lemmas validation_defs = ValidateLength_def ValidateSource_def ValidateDestination_def
  TryValidateDestination_def ValidateNonNullDestination_def ThrowNegativeLength_def
  ThrowNullSource_def ThrowNullDestination_def ThrowDestinationTooShort_def

lemma ValidateSource_cases:
  "ValidateSource source len =
     (if len < 0 then Inl (ArgumentOutOfRangeException ''length'')
      else if len > 0 \<and> source = None then Inl (ArgumentNullException ''source'')
      else Inr ())"
  by (auto simp: validation_defs)

lemma source_bytes_zero [simp]: "source_bytes source 0 = []"
  by (simp add: source_bytes_def)

lemma source_bytes_vector [simp]: "source_bytes (Some bs) (int (length bs)) = bs"
  by (simp add: source_bytes_def)

lemma source_fits_vector [simp]: "source_fits (Some bs) (int (length bs))"
  by (simp add: source_fits_def)

lemma source_bytes_length: "source_fits source len \<Longrightarrow> length (source_bytes source len) = nat len"
  by (simp add: source_fits_def source_bytes_def)

lemma source_bytes_None [simp]: "source_bytes None len = []"
  by (simp add: source_bytes_def)

lemma write_front_None [simp]: "write_front None bs = None"
  by (simp add: write_front_def)

lemma write_front_Some [simp]: "write_front (Some d) bs = Some (bs @ drop (length bs) d)"
  by (simp add: write_front_def)

lemma length_WriteUInt32BigEndian [simp]: "length (WriteUInt32BigEndian v) = 4"
  by (simp add: WriteUInt32BigEndian_def)

lemma length_WriteUInt64LittleEndian [simp]: "length (WriteUInt64LittleEndian v) = 8"
  by (simp add: WriteUInt64LittleEndian_def)

lemma yields_AppendStream_unfold:
  "rd st 65536 = (c, st') \<Longrightarrow> c \<noteq> [] \<Longrightarrow>
   AppendStream vt rd s st =
     (case vAppend vt s (Some c) (int (length c)) of
        Inl e \<Rightarrow> Some (Inl e) | Inr s' \<Rightarrow> AppendStream vt rd s' st')"
  by (subst AppendStream.simps) simp

section \<open>The contract of a derived class\<close>

text \<open>
  \<open>rep c bs s\<close>: the object in state \<open>s\<close>, configured by \<open>c\<close> (a seed, a parameter set), has
  absorbed exactly the bytes \<open>bs\<close> since its construction or its last reset. \<open>digest c bs\<close> is what
  the algorithm is specified to return for them.
\<close>

locale hash_algorithm =
  fixes vt :: "'s NonCryptographicHashAlgorithm"
    and rep :: "'c \<Rightarrow> bytecs list \<Rightarrow> 's \<Rightarrow> bool"
    and digest :: "'c \<Rightarrow> bytecs list \<Rightarrow> bytecs list"
  assumes append_validates:
      "ValidateSource source len = Inl e \<Longrightarrow> vAppend vt s source len = Inl e"
    and append_rep:
      "rep c bs s \<Longrightarrow> ValidateSource source len = Inr () \<Longrightarrow> source_fits source len \<Longrightarrow>
       \<exists>s'. vAppend vt s source len = Inr s' \<and> rep c (bs @ source_bytes source len) s'"
    and reset_rep: "rep c bs s \<Longrightarrow> rep c [] (vReset vt s)"
    and core_digest: "rep c bs s \<Longrightarrow> length bs < 2 ^ 64 \<Longrightarrow> vGetCurrentHashCore vt s = digest c bs"
    and core_length: "int (length (vGetCurrentHashCore vt s)) = hashLengthInBytes vt"
    and reset_core: "vGetHashAndResetCore vt s = (vGetCurrentHashCore vt s, vReset vt s)"
begin

lemma append_vector_rep:
  assumes "rep c bs s"
  shows "\<exists>s'. AppendVector vt s xs = Inr s' \<and> rep c (bs @ xs) s'"
  using append_rep [OF assms, of "Some xs" "int (length xs)"]
  by (simp add: AppendVector_def ValidateSource_cases)

lemma append_all_rep:
  "rep c bs s \<Longrightarrow> \<exists>s'. AppendAll vt s cs = Inr s' \<and> rep c (bs @ concat cs) s'"
proof (induction cs arbitrary: bs s)
  case Nil
  then show ?case by simp
next
  case (Cons x cs)
  from append_vector_rep [OF Cons.prems]
  obtain s1 where s1: "AppendVector vt s x = Inr s1" "rep c (bs @ x) s1"
    by blast
  with Cons.IH [OF s1(2)] show ?case by simp
qed

text \<open>The hash of any chunking is the digest of the concatenation.\<close>

lemma append_all_hash:
  assumes "rep c [] s" and "length (concat cs) < 2 ^ 64"
  shows "\<exists>s'. AppendAll vt s cs = Inr s' \<and> GetCurrentHash vt s' = digest c (concat cs)"
  using append_all_rep [OF assms(1), of cs] core_digest assms(2)
  by (auto simp: GetCurrentHash_def)

text \<open>\<^verbatim>\<open>GetHashAndReset\<close> returns the digest and leaves an object that starts over.\<close>

lemma hash_and_reset_restarts:
  assumes "rep c bs s" and "length bs < 2 ^ 64" and "length (concat cs) < 2 ^ 64"
  shows "\<exists>s' s''. GetHashAndReset vt s = (digest c bs, s') \<and>
           AppendAll vt s' cs = Inr s'' \<and> GetCurrentHash vt s'' = digest c (concat cs)"
proof -
  have "GetHashAndReset vt s = (digest c bs, vReset vt s)"
    using assms core_digest by (simp add: GetHashAndReset_def reset_core)
  with append_all_hash [OF reset_rep [OF assms(1)] assms(3)] show ?thesis
    by blast
qed

text \<open>Every outcome of the destination-writing doors.\<close>

lemma try_get_current_hash_cases:
  "TryGetCurrentHash vt s destination n =
     (if n < hashLengthInBytes vt then Inr (False, 0, destination)
      else case destination of
             None \<Rightarrow> Inl (ArgumentNullException ''destination'')
           | Some d \<Rightarrow> Inr (True, hashLengthInBytes vt,
               Some (GetCurrentHash vt s @ drop (nat (hashLengthInBytes vt)) d)))"
  using core_length [of s, symmetric]
  by (auto simp: TryGetCurrentHash_def validation_defs GetCurrentHash_def split: option.splits)

lemma append_stream_rep:
  "yields rd st cs st' \<Longrightarrow> rep c bs s \<Longrightarrow>
   \<exists>s'. AppendStream vt rd s st = Some (Inr (s', st')) \<and> rep c (bs @ concat cs) s'"
proof (induction arbitrary: bs s rule: yields.induct)
  case (dry st st')
  then show ?case by (subst AppendStream.simps) simp
next
  case (more st x st' cs st'')
  from append_vector_rep [OF more.prems, of x]
  obtain s1 where s1: "vAppend vt s (Some x) (int (length x)) = Inr s1" "rep c (bs @ x) s1"
    by (auto simp: AppendVector_def)
  with more.IH [OF s1(2)] show ?case
    by (simp add: yields_AppendStream_unfold [of rd, OF more.hyps(1,2)])
qed

end

end
