(* ===== verification/Hash_Adler32.thy ===== *)
theory Hash_Adler32
  imports Hashing_Base
begin

unbundle bit_operations_syntax

text \<open>
  \<^verbatim>\<open>Adler32.cpp\<close>: the blockwise update that defers the modulo for \<open>NMax\<close> bytes, and the class
  around it. The update is shown to compute the Adler-32 checksum of RFC 1950, which reduces
  after every byte: the 32-bit accumulators never wrap within a block.
\<close>

section \<open>Model\<close>

definition ModBase :: uintcs where
  "ModBase = 65521"

definition NMax :: nat where
  "NMax = 5552"

text \<open>The inner loop over one block.\<close>

fun Adler32_block :: "uintcs \<Rightarrow> uintcs \<Rightarrow> bytecs list \<Rightarrow> uintcs \<times> uintcs" where
  "Adler32_block s1 s2 [] = (s1, s2)"
| "Adler32_block s1 s2 (x # xs) = Adler32_block (s1 + ucast x) (s2 + (s1 + ucast x)) xs"

text \<open>The outer loop: a block of at most \<open>NMax\<close> bytes, then both sums modulo \<open>ModBase\<close>.\<close>

function Adler32_blocks :: "uintcs \<Rightarrow> uintcs \<Rightarrow> bytecs list \<Rightarrow> uintcs \<times> uintcs" where
  "Adler32_blocks s1 s2 src =
     (if length src > 0 then
        let k = (if length src < NMax then length src else NMax) in
        case Adler32_block s1 s2 (take k src) of
          (t1, t2) \<Rightarrow> Adler32_blocks (t1 mod ModBase) (t2 mod ModBase) (drop k src)
      else (s1, s2))"
  by pat_completeness auto
termination
  by (relation "measure (\<lambda>(s1, s2, src). length src)") (auto simp: NMax_def)

declare Adler32_blocks.simps [simp del]

definition Adler32_Update :: "uintcs \<Rightarrow> buffer \<Rightarrow> intcs \<Rightarrow> uintcs res" where
  "Adler32_Update adler source len =
     bind_res (ValidateSource source len)
       (\<lambda>_. if len = 0 then Inr adler
            else let s1 = adler AND 0xFFFF;
                     s2 = drop_bit 16 adler AND 0xFFFF
                 in case Adler32_blocks s1 s2 (source_bytes source len) of
                      (t1, t2) \<Rightarrow> Inr (push_bit 16 t2 OR t1))"

definition Adler32_InitialState :: uintcs where
  "Adler32_InitialState = 1"

record Adler32 =
  a32_adler :: uintcs

definition Adler32_ctor :: Adler32 where
  "Adler32_ctor = \<lparr>a32_adler = Adler32_InitialState\<rparr>"

definition Adler32_Clone :: "Adler32 \<Rightarrow> Adler32" where
  "Adler32_Clone h = \<lparr>a32_adler = a32_adler h\<rparr>"

definition Adler32_Append :: "Adler32 \<Rightarrow> buffer \<Rightarrow> intcs \<Rightarrow> Adler32 res" where
  "Adler32_Append h source len =
     bind_res (Adler32_Update (a32_adler h) source len) (\<lambda>a. Inr (h\<lparr>a32_adler := a\<rparr>))"

definition Adler32_Reset :: "Adler32 \<Rightarrow> Adler32" where
  "Adler32_Reset h = h\<lparr>a32_adler := Adler32_InitialState\<rparr>"

definition Adler32_GetCurrentHashCore :: "Adler32 \<Rightarrow> bytecs list" where
  "Adler32_GetCurrentHashCore h = WriteUInt32BigEndian (a32_adler h)"

definition Adler32_GetHashAndResetCore :: "Adler32 \<Rightarrow> bytecs list \<times> Adler32" where
  "Adler32_GetHashAndResetCore h =
     (WriteUInt32BigEndian (a32_adler h), h\<lparr>a32_adler := Adler32_InitialState\<rparr>)"

definition Adler32_vtable :: "Adler32 NonCryptographicHashAlgorithm" where
  "Adler32_vtable =
     \<lparr>hashLengthInBytes = 4, vAppend = Adler32_Append, vReset = Adler32_Reset,
      vGetCurrentHashCore = Adler32_GetCurrentHashCore,
      vGetHashAndResetCore = Adler32_GetHashAndResetCore\<rparr>"

definition Adler32_HashToUInt32 :: "buffer \<Rightarrow> intcs \<Rightarrow> uintcs res" where
  "Adler32_HashToUInt32 source len = Adler32_Update Adler32_InitialState source len"

definition Adler32_Hash :: "buffer \<Rightarrow> intcs \<Rightarrow> bytecs list res" where
  "Adler32_Hash source len =
     bind_res (Adler32_HashToUInt32 source len) (\<lambda>a. Inr (WriteUInt32BigEndian a))"

definition Adler32_TryHash :: "buffer \<Rightarrow> intcs \<Rightarrow> buffer \<Rightarrow> intcs \<Rightarrow> (bool \<times> intcs \<times> buffer) res" where
  "Adler32_TryHash source len destination destinationLength =
     bind_res (TryValidateDestination destination destinationLength 4)
       (\<lambda>ok. if \<not> ok then Inr (False, 0, destination)
             else bind_res (Adler32_HashToUInt32 source len)
                    (\<lambda>a. Inr (True, 4, write_front destination (WriteUInt32BigEndian a))))"

definition Adler32_HashInto :: "buffer \<Rightarrow> intcs \<Rightarrow> buffer \<Rightarrow> intcs \<Rightarrow> (intcs \<times> buffer) res" where
  "Adler32_HashInto source len destination destinationLength =
     bind_res (ValidateDestination destination destinationLength 4)
       (\<lambda>_. bind_res (Adler32_HashToUInt32 source len)
              (\<lambda>a. Inr (4, write_front destination (WriteUInt32BigEndian a))))"

section \<open>Specification: RFC 1950\<close>

fun adler_step :: "nat \<times> nat \<Rightarrow> bytecs \<Rightarrow> nat \<times> nat" where
  "adler_step (a, b) x = ((a + unat x) mod 65521, (b + a + unat x) mod 65521)"

definition adler_sums :: "nat \<times> nat \<Rightarrow> bytecs list \<Rightarrow> nat \<times> nat" where
  "adler_sums = foldl adler_step"

definition adler_spec :: "bytecs list \<Rightarrow> nat" where
  "adler_spec bs = (case adler_sums (1, 0) bs of (a, b) \<Rightarrow> b * 65536 + a)"

text \<open>The same block without reduction and without wrap-around.\<close>

fun block_nat :: "nat \<Rightarrow> nat \<Rightarrow> bytecs list \<Rightarrow> nat \<times> nat" where
  "block_nat a b [] = (a, b)"
| "block_nat a b (x # xs) = block_nat (a + unat x) (b + (a + unat x)) xs"

text \<open>The digest of the class, and the states it goes through.\<close>

definition adler_digest :: "unit \<Rightarrow> bytecs list \<Rightarrow> bytecs list" where
  "adler_digest c bs = WriteUInt32BigEndian (of_nat (adler_spec bs))"

definition adler_rep :: "unit \<Rightarrow> bytecs list \<Rightarrow> Adler32 \<Rightarrow> bool" where
  "adler_rep c bs h \<longleftrightarrow> a32_adler h = of_nat (adler_spec bs)"

section \<open>A block does not wrap\<close>

lemma block_nat_mono: "a \<le> fst (block_nat a b xs) \<and> b \<le> snd (block_nat a b xs)"
  by (induction a b xs rule: block_nat.induct) auto

lemma block_nat_bound:
  "fst (block_nat a b xs) \<le> a + 255 * length xs \<and>
   2 * snd (block_nat a b xs) \<le> 2 * b + 2 * (length xs * a) + 255 * (length xs * (length xs + 1))"
proof (induction a b xs rule: block_nat.induct)
  case (1 a b)
  then show ?case by simp
next
  case (2 a b x xs)
  let ?n = "length xs"
  from "2.IH" have ih: "fst (block_nat (a + unat x) (b + (a + unat x)) xs) \<le> a + unat x + 255 * ?n"
    "2 * snd (block_nat (a + unat x) (b + (a + unat x)) xs)
       \<le> 2 * (b + (a + unat x)) + 2 * (?n * (a + unat x)) + 255 * (?n * (?n + 1))"
    by auto
  define p where "p = ?n * unat x"
  have "p \<le> 255 * ?n"
    using unat_byte_bound [of x] by (simp add: p_def)
  moreover have "?n * (a + unat x) = ?n * a + p"
    by (simp add: p_def distrib_left)
  ultimately show ?case
    using ih unat_byte_bound [of x] by simp
qed

text \<open>The bound the comment on \<^verbatim>\<open>NMax\<close> states: a block that starts reduced fits 32 bits.\<close>

lemma block_nat_fits:
  assumes "a < 65521" and "b < 65521" and "length xs \<le> NMax"
  shows "fst (block_nat a b xs) < 2 ^ 32 \<and> snd (block_nat a b xs) < 2 ^ 32"
proof -
  let ?n = "length xs"
  have n: "?n \<le> 5552" using assms(3) by (simp add: NMax_def)
  have "?n * a \<le> 5552 * 65520"
    using n assms(1) by (intro mult_le_mono) simp_all
  moreover have "?n * (?n + 1) \<le> 5552 * 5553"
    using n by (intro mult_le_mono) simp_all
  ultimately show ?thesis
    using block_nat_bound [of a b xs] assms(1,2) n by simp
qed

lemma Adler32_block_nat:
  assumes "fst (block_nat (unat s1) (unat s2) xs) < 2 ^ 32"
    and "snd (block_nat (unat s1) (unat s2) xs) < 2 ^ 32"
  shows "map_prod unat unat (Adler32_block s1 s2 xs) = block_nat (unat s1) (unat s2) xs"
  using assms
proof (induction s1 s2 xs rule: Adler32_block.induct)
  case (1 s1 s2)
  then show ?case by simp
next
  case (2 s1 s2 x xs)
  let ?r = "block_nat (unat s1 + unat x) (unat s2 + (unat s1 + unat x)) xs"
  have le: "unat s1 + unat x \<le> fst ?r" "unat s2 + (unat s1 + unat x) \<le> snd ?r"
    using block_nat_mono by blast+
  with "2.prems" have "unat s1 + unat x < 2 ^ 32" "unat s2 + (unat s1 + unat x) < 2 ^ 32"
    by auto
  then have s: "unat (s1 + ucast x) = unat s1 + unat x"
    "unat (s2 + (s1 + ucast x)) = unat s2 + (unat s1 + unat x)"
    by (simp_all add: unat_add_small unat_ucast_up)
  show ?case
    using "2.IH" "2.prems" by (simp add: s)
qed

lemma adler_sums_block_nat:
  "adler_sums (a mod 65521, b mod 65521) xs = map_prod (\<lambda>n. n mod 65521) (\<lambda>n. n mod 65521) (block_nat a b xs)"
proof (induction a b xs rule: block_nat.induct)
  case (1 a b)
  then show ?case by (simp add: adler_sums_def)
next
  case (2 a b x xs)
  have "(b mod 65521 + a mod 65521 + unat x) mod 65521 = (b + (a + unat x)) mod 65521"
    by (rule mod_add3)
  with "2.IH" show ?case by (simp add: adler_sums_def mod_simps)
qed

section \<open>The blockwise update is the bytewise one\<close>

lemma adler_sums_lt:
  "fst ab < 65521 \<Longrightarrow> snd ab < 65521 \<Longrightarrow> fst (adler_sums ab xs) < 65521 \<and> snd (adler_sums ab xs) < 65521"
proof (induction xs arbitrary: ab)
  case Nil
  then show ?case by (simp add: adler_sums_def)
next
  case (Cons x xs)
  then show ?case by (cases ab) (simp add: adler_sums_def)
qed

lemma unat_mod_ModBase: "unat (t mod ModBase) = unat t mod 65521"
  by (simp add: unat_mod ModBase_def)

lemma Adler32_blocks_sums:
  assumes "unat s1 < 65521" and "unat s2 < 65521"
  shows "map_prod unat unat (Adler32_blocks s1 s2 src) = adler_sums (unat s1, unat s2) src"
  using assms
proof (induction s1 s2 src rule: Adler32_blocks.induct)
  case (1 s1 s2 src)
  define k where "k = (if length src < NMax then length src else NMax)"
  obtain t1 t2 where t: "Adler32_block s1 s2 (take k src) = (t1, t2)" by fastforce
  show ?case
  proof (cases "length src > 0")
    case False
    then show ?thesis by (subst Adler32_blocks.simps) (simp add: adler_sums_def)
  next
    case True
    have "length (take k src) \<le> NMax" by (auto simp: k_def)
    from block_nat_fits [OF "1.prems" this]
    have eq: "block_nat (unat s1) (unat s2) (take k src) = (unat t1, unat t2)"
      using Adler32_block_nat [of s1 s2 "take k src"] t by simp
    have step: "adler_sums (unat s1, unat s2) (take k src) = (unat t1 mod 65521, unat t2 mod 65521)"
      using adler_sums_block_nat [of "unat s1" "unat s2" "take k src"] eq "1.prems" by simp
    have ih: "map_prod unat unat (Adler32_blocks (t1 mod ModBase) (t2 mod ModBase) (drop k src))
        = adler_sums (unat t1 mod 65521, unat t2 mod 65521) (drop k src)"
      using "1.IH" [OF True k_def t [symmetric]] by (simp add: unat_mod_ModBase)
    have "adler_sums (unat s1, unat s2) src
        = adler_sums (adler_sums (unat s1, unat s2) (take k src)) (drop k src)"
      by (simp add: adler_sums_def flip: foldl_append)
    with step ih True t show ?thesis
      by (simp add: Adler32_blocks.simps [of s1 s2 src] k_def [symmetric])
  qed
qed

section \<open>The class implements the checksum\<close>

lemma adler_sums_01_lt: "adler_sums (1, 0) bs = (a, b) \<Longrightarrow> a < 65521 \<and> b < 65521"
  using adler_sums_lt [of "(1, 0)" bs] by simp

text \<open>Packing and unpacking the two sums: \<^verbatim>\<open>(s2 << 16) | s1\<close>, \<^verbatim>\<open>adler & 0xFFFF\<close>, \<^verbatim>\<open>adler >> 16\<close>.\<close>

lemma pack_sums:
  assumes "unat t1 < 65536" and "unat t2 < 65536"
  shows "push_bit 16 t2 OR t1 = (of_nat (unat t2 * 65536 + unat t1) :: uintcs)"
proof -
  have "push_bit 16 t2 OR t1 = push_bit 16 t2 + t1"
  proof (rule disjunctive_add [symmetric])
    fix n
    have "t1 = take_bit 16 t1"
      using assms(1) by (simp add: word_unat_eq_iff unsigned_take_bit_eq take_bit_nat_eq_self)
    then have "bit t1 n \<Longrightarrow> n < 16"
      by (metis bit_take_bit_iff)
    then show "\<not> bit (push_bit 16 t2) n \<or> \<not> bit t1 n"
      by (auto simp: bit_simps)
  qed
  also have "\<dots> = of_nat (unat t2 * 65536 + unat t1)"
    by (simp add: push_bit_eq_mult)
  finally show ?thesis .
qed

lemma unpack_sums:
  assumes "a < 65536" and "b < 65536"
  shows "unat ((of_nat (b * 65536 + a) :: uintcs) AND 0xFFFF) = a"
    and "unat (drop_bit 16 (of_nat (b * 65536 + a) :: uintcs) AND 0xFFFF) = b"
proof -
  have w: "unat (of_nat (b * 65536 + a) :: uintcs) = b * 65536 + a"
    using assms by (simp add: unsigned_of_nat take_bit_nat_eq_self del: of_nat_add of_nat_mult)
  have m: "(w :: uintcs) AND 0xFFFF = take_bit 16 w" for w
    by (simp add: take_bit_eq_mask mask_numeral)
  show "unat ((of_nat (b * 65536 + a) :: uintcs) AND 0xFFFF) = a"
    using assms by (simp only: m unsigned_take_bit_eq w) (simp add: take_bit_eq_mod)
  show "unat (drop_bit 16 (of_nat (b * 65536 + a) :: uintcs) AND 0xFFFF) = b"
    using assms by (simp only: m unsigned_take_bit_eq unsigned_drop_bit_eq w)
      (simp add: take_bit_eq_mod drop_bit_eq_div)
qed

lemma Adler32_Update_spec:
  assumes "ValidateSource source len = Inr ()"
  shows "Adler32_Update (of_nat (adler_spec bs)) source len
       = Inr (of_nat (adler_spec (bs @ source_bytes source len)))"
proof (cases "len = 0")
  case True
  then show ?thesis using assms by (simp add: Adler32_Update_def)
next
  case False
  define x where "x = source_bytes source len"
  obtain a b where ab: "adler_sums (1, 0) bs = (a, b)" by fastforce
  define w where "w = (of_nat (b * 65536 + a) :: uintcs)"
  obtain t1 t2 where t: "Adler32_blocks (w AND 0xFFFF) (drop_bit 16 w AND 0xFFFF) x = (t1, t2)"
    by fastforce
  have lt: "a < 65521" "b < 65521" using adler_sums_01_lt [OF ab] by auto
  then have s: "unat (w AND 0xFFFF) = a" "unat (drop_bit 16 w AND 0xFFFF) = b"
    using unpack_sums [of a b] by (simp_all add: w_def)
  have sums: "adler_sums (1, 0) (bs @ x) = (unat t1, unat t2)"
    using Adler32_blocks_sums [of "w AND 0xFFFF" "drop_bit 16 w AND 0xFFFF" x] lt s ab t
    by (simp add: adler_sums_def)
  then have "unat t1 < 65536" "unat t2 < 65536"
    using adler_sums_01_lt [OF sums] by auto
  then have "push_bit 16 t2 OR t1 = (of_nat (adler_spec (bs @ x)) :: uintcs)"
    by (simp only: pack_sums adler_spec_def sums prod.case)
  moreover have "of_nat (adler_spec bs) = w"
    by (simp only: adler_spec_def ab prod.case w_def)
  ultimately show ?thesis
    using assms False t by (simp add: Adler32_Update_def Let_def flip: x_def)
qed

interpretation adler: hash_algorithm Adler32_vtable adler_rep adler_digest
proof
  fix source len e s
  assume "ValidateSource source len = Inl e"
  then show "vAppend Adler32_vtable s source len = Inl e"
    by (simp add: Adler32_vtable_def Adler32_Append_def Adler32_Update_def)
next
  fix c bs s source len
  assume "adler_rep c bs s" and "ValidateSource source len = Inr ()"
  then show "\<exists>s'. vAppend Adler32_vtable s source len = Inr s' \<and>
      adler_rep c (bs @ source_bytes source len) s'"
    by (simp add: Adler32_vtable_def Adler32_Append_def adler_rep_def Adler32_Update_spec)
next
  fix c bs s
  assume "adler_rep c bs s"
  show "adler_rep c [] (vReset Adler32_vtable s)"
    by (simp add: Adler32_vtable_def Adler32_Reset_def adler_rep_def adler_spec_def adler_sums_def
        Adler32_InitialState_def)
next
  fix c bs s
  assume "adler_rep c bs s"
  then show "vGetCurrentHashCore Adler32_vtable s = adler_digest c bs"
    by (simp add: Adler32_vtable_def Adler32_GetCurrentHashCore_def adler_rep_def adler_digest_def)
qed (simp_all add: Adler32_vtable_def Adler32_GetCurrentHashCore_def Adler32_GetHashAndResetCore_def
      Adler32_Reset_def)

lemma adler_rep_ctor: "adler_rep () [] Adler32_ctor"
  by (simp add: adler_rep_def Adler32_ctor_def Adler32_InitialState_def adler_spec_def adler_sums_def)

section \<open>Properties\<close>

text \<open>
  C28. Streaming Adler-32: whatever the chunking, feeding the chunks to a fresh \<^verbatim>\<open>Adler32\<close> object
  succeeds and \<^verbatim>\<open>GetCurrentHash\<close> is the big-endian RFC 1950 checksum of the concatenation; the
  one-shot \<^verbatim>\<open>Hash\<close> returns the same bytes. The blockwise modulo of \<^verbatim>\<open>Update\<close> is therefore exact.
\<close>

theorem adler32_streaming:
  assumes "length (concat chunks) < 2 ^ 64"
  shows "(\<exists>h. AppendAll Adler32_vtable Adler32_ctor chunks = Inr h \<and>
            GetCurrentHash Adler32_vtable h = WriteUInt32BigEndian (of_nat (adler_spec (concat chunks)))) \<and>
         Adler32_Hash (Some (concat chunks)) (int (length (concat chunks))) =
            Inr (WriteUInt32BigEndian (of_nat (adler_spec (concat chunks))))"
proof
  show "\<exists>h. AppendAll Adler32_vtable Adler32_ctor chunks = Inr h \<and>
            GetCurrentHash Adler32_vtable h = WriteUInt32BigEndian (of_nat (adler_spec (concat chunks)))"
    using adler.append_all_hash [OF adler_rep_ctor assms] by (simp add: adler_digest_def)
  have init: "Adler32_InitialState = of_nat (adler_spec [])"
    by (simp add: Adler32_InitialState_def adler_spec_def adler_sums_def)
  show "Adler32_Hash (Some (concat chunks)) (int (length (concat chunks))) =
            Inr (WriteUInt32BigEndian (of_nat (adler_spec (concat chunks))))"
    by (simp add: Adler32_Hash_def Adler32_HashToUInt32_def init Adler32_Update_spec ValidateSource_cases)
qed

theorem adler32_streaming_witness:
  "Adler32_Hash (Some [97, 98, 99]) 3 = Inr [0x02, 0x4d, 0x01, 0x27]"
  using adler32_streaming [of "[[97], [98, 99]]"]
  by (simp add: adler_spec_def adler_sums_def WriteUInt32BigEndian_def)

end
