(* ===== verification/Crc_Core.thy ===== *)
theory Crc_Core
  imports SR_Prelude
begin

unbundle bit_operations_syntax

text \<open>
  Cyclic redundancy checks at any word width: the bitwise shift registers that define them, in
  both bit orders, and the algebra (linearity over exclusive or, bit reversal) that relates a
  lookup table to them. The 32-bit and the 64-bit code of the repository are instances.
\<close>

section \<open>The bitwise registers\<close>

definition msb_shift :: "'a::len word \<Rightarrow> 'a word \<Rightarrow> 'a word" where
  "msb_shift poly r = (if bit r (LENGTH('a) - 1) then push_bit 1 r XOR poly else push_bit 1 r)"

definition lsb_shift :: "'a::len word \<Rightarrow> 'a word \<Rightarrow> 'a word" where
  "lsb_shift rpoly r = (if bit r 0 then drop_bit 1 r XOR rpoly else drop_bit 1 r)"

definition crc_byte_forward :: "'a::len word \<Rightarrow> 'a word \<Rightarrow> bytecs \<Rightarrow> 'a word" where
  "crc_byte_forward poly crc x = (msb_shift poly ^^ 8) (crc XOR push_bit (LENGTH('a) - 8) (ucast x))"

definition bit_reverse :: "'a::len word \<Rightarrow> 'a word" where
  "bit_reverse w = horner_sum of_bool 2 (rev (map (bit w) [0..<LENGTH('a)]))"

definition crc_byte_reflected :: "'a::len word \<Rightarrow> 'a word \<Rightarrow> bytecs \<Rightarrow> 'a word" where
  "crc_byte_reflected poly crc x = (lsb_shift (bit_reverse poly) ^^ 8) (crc XOR ucast x)"

text \<open>The bitwise CRC register after a message.\<close>

definition crc_register :: "bool \<Rightarrow> 'a::len word \<Rightarrow> 'a word \<Rightarrow> bytecs list \<Rightarrow> 'a word" where
  "crc_register reflect poly v bs =
     foldl (if reflect then crc_byte_reflected poly else crc_byte_forward poly) v bs"

lemma crc_register_append:
  "crc_register r p v (xs @ ys) = crc_register r p (crc_register r p v xs) ys"
  by (simp add: crc_register_def)

section \<open>Linearity\<close>

lemma funpow_xor:
  fixes f :: "'a::len word \<Rightarrow> 'a word"
  assumes "\<And>x y. f (x XOR y) = f x XOR f y"
  shows "(f ^^ n) (x XOR y) = (f ^^ n) x XOR (f ^^ n) y"
  by (induction n) (simp_all add: assms)

lemma funpow_8: "(f ^^ 8) x = f (f (f (f (f (f (f (f x)))))))"
  by (simp add: eval_nat_numeral)

lemma msb_shift_xor: "msb_shift poly (x XOR y) = msb_shift poly x XOR msb_shift poly y"
  by (rule bit_word_eqI) (auto simp: msb_shift_def bit_simps)

lemma lsb_shift_xor: "lsb_shift p (x XOR y) = lsb_shift p x XOR lsb_shift p y"
  by (rule bit_word_eqI) (auto simp: lsb_shift_def bit_simps)

lemma msb_shift_0 [simp]: "msb_shift poly 0 = 0"
  by (simp add: msb_shift_def)

lemma lsb_shift_0 [simp]: "lsb_shift p 0 = 0"
  by (simp add: lsb_shift_def)

lemmas msb_pow_xor = funpow_xor [of "msb_shift poly" for poly, OF msb_shift_xor]
lemmas lsb_pow_xor = funpow_xor [of "lsb_shift p" for p, OF lsb_shift_xor]

lemma msb_pow_0 [simp]: "(msb_shift poly ^^ n) 0 = 0"
  by (induction n) simp_all

lemma lsb_pow_0 [simp]: "(lsb_shift p ^^ n) 0 = 0"
  by (induction n) simp_all

section \<open>Shifting without feedback\<close>

lemma msb_pow_plain:
  fixes x :: "'a::len word"
  assumes "n \<le> LENGTH('a)" and "\<And>k. bit x k \<Longrightarrow> k + n < LENGTH('a)"
  shows "(msb_shift poly ^^ n) x = push_bit n x"
  using assms
proof (induction n arbitrary: x)
  case 0
  then show ?case by simp
next
  case (Suc n)
  have "\<not> bit x (LENGTH('a) - 1)"
  proof
    assume "bit x (LENGTH('a) - 1)"
    from Suc.prems(2) [OF this] show False by simp
  qed
  then have s: "msb_shift poly x = push_bit 1 x" by (simp add: msb_shift_def)
  have "k + n < LENGTH('a)" if "bit (push_bit 1 x) k" for k
    using that Suc.prems(2) [of "k - 1"] by (auto simp only: bit_push_bit_1_iff) auto
  then have "(msb_shift poly ^^ n) (push_bit 1 x) = push_bit n (push_bit 1 x)"
    using Suc.prems(1) by (intro Suc.IH) auto
  then show ?case
    by (simp only: funpow_Suc_right comp_apply s push_bit_push_bit) simp
qed

lemma lsb_pow_plain:
  fixes x :: "'a::len word"
  assumes "\<And>k. bit x k \<Longrightarrow> n \<le> k"
  shows "(lsb_shift p ^^ n) x = drop_bit n x"
  using assms
proof (induction n arbitrary: x)
  case 0
  then show ?case by simp
next
  case (Suc n)
  have "\<not> bit x 0"
  proof
    assume "bit x 0"
    from Suc.prems [OF this] show False by simp
  qed
  then have s: "lsb_shift p x = drop_bit 1 x" by (simp add: lsb_shift_def)
  have "n \<le> k" if "bit (drop_bit 1 x) k" for k
    using that Suc.prems [of "Suc k"] by (simp only: bit_drop_bit_1_iff) simp
  then have "(lsb_shift p ^^ n) (drop_bit 1 x) = drop_bit n (drop_bit 1 x)"
    by (rule Suc.IH)
  then show ?case
    by (simp only: funpow_Suc_right comp_apply s drop_bit_drop_bit) simp
qed

section \<open>Bit reversal\<close>

lemma bit_bit_reverse_iff:
  "bit (bit_reverse (w :: 'a::len word)) n \<longleftrightarrow> n < LENGTH('a) \<and> bit w (LENGTH('a) - 1 - n)"
  by (auto simp: bit_reverse_def bit_horner_sum_bit_word_iff rev_nth)

lemma bit_reverse_bit_reverse [simp]: "bit_reverse (bit_reverse w) = w"
  by (rule bit_word_eqI) (auto simp: bit_bit_reverse_iff)

lemma bit_reverse_msb_shift:
  fixes r :: "'a::len word"
  shows "bit_reverse (msb_shift poly (bit_reverse r)) = lsb_shift (bit_reverse poly) r"
proof (rule bit_word_eqI)
  fix n assume n: "n < LENGTH('a)"
  have top: "bit (bit_reverse r) (LENGTH('a) - 1) = bit r 0"
    by (simp add: bit_bit_reverse_iff)
  have "bit (push_bit 1 (bit_reverse r)) (LENGTH('a) - 1 - n) = bit (drop_bit 1 r) n"
    using n bit_imp_le_length [of r "Suc n"]
    by (auto simp only: bit_push_bit_1_iff bit_drop_bit_1_iff bit_bit_reverse_iff)
      (auto simp: Suc_diff_Suc)
  then show "bit (bit_reverse (msb_shift poly (bit_reverse r))) n
      = bit (lsb_shift (bit_reverse poly) r) n"
    using n by (simp add: bit_bit_reverse_iff msb_shift_def lsb_shift_def top bit_xor_iff)
qed

lemma bit_reverse_msb_pow:
  "bit_reverse ((msb_shift poly ^^ n) (bit_reverse r)) = (lsb_shift (bit_reverse poly) ^^ n) r"
proof (induction n)
  case 0
  then show ?case by simp
next
  case (Suc n)
  have "bit_reverse (msb_shift poly ((msb_shift poly ^^ n) (bit_reverse r)))
      = lsb_shift (bit_reverse poly) (bit_reverse ((msb_shift poly ^^ n) (bit_reverse r)))"
    using bit_reverse_msb_shift [of poly "bit_reverse ((msb_shift poly ^^ n) (bit_reverse r))"]
    by simp
  then show ?case by (simp add: Suc.IH)
qed

text \<open>One stage of the in-register reversal swaps neighbouring groups of \<open>m\<close> bits.\<close>

definition swap_pos :: "nat \<Rightarrow> nat \<Rightarrow> nat" where
  "swap_pos m n = (if even (n div m) then n + m else n - m)"

lemma swap_stage:
  fixes w hi lo :: "'a::len word"
  assumes m: "0 < m" "2 * m dvd LENGTH('a)"
    and hi: "\<forall>n<LENGTH('a). bit hi n \<longleftrightarrow> odd (n div m)"
    and lo: "\<forall>n<LENGTH('a). bit lo n \<longleftrightarrow> even (n div m)"
    and n: "n < LENGTH('a)"
  shows "bit (drop_bit m (w AND hi) OR push_bit m (w AND lo)) n \<longleftrightarrow> bit w (swap_pos m n)"
proof (cases "even (n div m)")
  case True
  obtain q where q: "LENGTH('a) = 2 * m * q" using m(2) by (auto elim: dvdE)
  have "n div m < 2 * q"
    using n m(1) q by (simp add: less_mult_imp_div_less mult.commute mult.left_commute)
  with True have "n div m + 1 < 2 * q"
    by (metis Suc_eq_plus1 Suc_lessI even_Suc dvd_triv_left)
  then have "(n + m) div m < 2 * q" using m(1) by (simp add: div_add_self2)
  then have "n + m < LENGTH('a)"
    using q m(1) by (metis div_less_iff_less_mult mult.commute mult.left_commute)
  moreover have "m \<le> n \<Longrightarrow> odd ((n - m) div m)"
    using True m(1) by (metis even_Suc le_div_geq)
  ultimately show ?thesis using True m(1) hi lo n
    by (auto simp: bit_simps swap_pos_def add.commute [of m] div_add_self2)
next
  case False
  then have "m \<le> n" using m(1) by (metis div_less even_zero linorder_not_le)
  moreover have "even ((n - m) div m)" using False m(1) \<open>m \<le> n\<close> by (metis even_Suc le_div_geq)
  moreover have "even ((n + m) div m)" using False m(1) by (simp add: div_add_self2)
  ultimately show ?thesis using False hi lo n
    by (auto simp: bit_simps swap_pos_def add.commute [of m] dest: bit_imp_le_length)
qed

section \<open>Lookup tables\<close>

text \<open>What entry \<open>i\<close> of a correct table holds.\<close>

definition forward_entry :: "'a::len word \<Rightarrow> nat \<Rightarrow> 'a word" where
  "forward_entry poly i = (msb_shift poly ^^ 8) (push_bit (LENGTH('a) - 8) (of_nat i))"

definition reflected_entry :: "'a::len word \<Rightarrow> nat \<Rightarrow> 'a word" where
  "reflected_entry poly i = (lsb_shift (bit_reverse poly) ^^ 8) (of_nat i)"

lemma crc_byte_forward_table:
  fixes crc :: "'a::len word"
  assumes len: "8 \<le> LENGTH('a)"
    and idx: "i = unat (ucast (drop_bit (LENGTH('a) - 8) crc XOR ucast x) :: bytecs)"
  shows "crc_byte_forward poly crc x = forward_entry poly i XOR push_bit 8 crc"
proof -
  let ?k = "LENGTH('a) - 8"
  have i: "(of_nat i :: 'a word) = ucast (ucast (drop_bit ?k crc XOR ucast x) :: bytecs)"
    by (simp add: idx)
  have split: "crc XOR push_bit ?k (ucast x) = push_bit ?k (of_nat i) XOR take_bit ?k crc"
    by (rule bit_word_eqI) (use len in \<open>auto simp: i bit_simps\<close>)
  have "(msb_shift poly ^^ 8) (take_bit ?k crc) = push_bit 8 (take_bit ?k crc)"
    by (rule msb_pow_plain) (use len in \<open>auto simp: bit_simps\<close>)
  also have "\<dots> = push_bit 8 crc"
    by (rule bit_word_eqI) (auto simp: bit_simps)
  finally show ?thesis
    by (simp only: crc_byte_forward_def split msb_pow_xor forward_entry_def)
qed

lemma crc_byte_reflected_table:
  fixes crc :: "'a::len word"
  assumes len: "8 \<le> LENGTH('a)"
    and idx: "i = unat (ucast (crc XOR ucast x) :: bytecs)"
  shows "crc_byte_reflected poly crc x = reflected_entry poly i XOR drop_bit 8 crc"
proof -
  let ?y = "crc XOR ucast x"
  have i: "(of_nat i :: 'a word) = ucast (ucast ?y :: bytecs)"
    by (simp add: idx)
  have split: "?y = of_nat i XOR push_bit 8 (drop_bit 8 crc)"
    by (rule bit_word_eqI) (use len in \<open>auto simp: i bit_simps dest: bit_imp_le_length\<close>)
  have "(lsb_shift (bit_reverse poly) ^^ 8) (push_bit 8 (drop_bit 8 crc))
      = drop_bit 8 (push_bit 8 (drop_bit 8 crc))"
    by (rule lsb_pow_plain) (auto simp: bit_simps)
  also have "\<dots> = drop_bit 8 crc"
    by (rule bit_word_eqI) (auto simp: bit_simps dest: bit_imp_le_length)
  finally show ?thesis
    by (simp only: crc_byte_reflected_def split lsb_pow_xor reflected_entry_def)
qed

text \<open>Filling a forward table by doubling: row \<open>i\<close> from the rows below it.\<close>

definition forward_row :: "('a::len word \<Rightarrow> 'a word) \<Rightarrow> 'a word list \<times> 'a word \<Rightarrow> nat \<Rightarrow> 'a word list \<times> 'a word" where
  "forward_row f st i =
     (case st of (table, crc) \<Rightarrow>
        let crc' = f crc in (foldl (\<lambda>t j. t[i + j := crc' XOR t ! j]) table [0..<i], crc'))"

lemma forward_row_fill:
  fixes table :: "'a::len word list"
  assumes "m \<le> i" and "2 * i \<le> length table"
  shows "length (foldl (\<lambda>t j. t[i + j := c XOR t ! j]) table [0..<m]) = length table \<and>
         (\<forall>k<length table. foldl (\<lambda>t j. t[i + j := c XOR t ! j]) table [0..<m] ! k =
            (if i \<le> k \<and> k < i + m then c XOR table ! (k - i) else table ! k))"
  using assms(1)
proof (induction m)
  case 0
  then show ?case by auto
next
  case (Suc m)
  let ?t = "foldl (\<lambda>t j. t[i + j := c XOR t ! j]) table [0..<m]"
  from Suc have len: "length ?t = length table"
    and nth: "\<And>k. k < length table \<Longrightarrow>
      ?t ! k = (if i \<le> k \<and> k < i + m then c XOR table ! (k - i) else table ! k)"
    by auto
  have "?t ! m = table ! m" using nth [of m] Suc.prems assms(2) by simp
  then show ?case
    using len nth Suc.prems assms(2) by (auto simp: nth_list_update)
qed

lemma forward_entry_pow2:
  fixes poly :: "'a::len word"
  assumes "8 \<le> LENGTH('a)" and "m < 8"
  shows "forward_entry poly (2 ^ m) = (msb_shift poly ^^ Suc m) (2 ^ (LENGTH('a) - 1))"
proof -
  let ?L = "LENGTH('a)"
  have "(push_bit (?L - 8) (of_nat (2 ^ m)) :: 'a word) = 2 ^ (?L - 8 + m)"
    by (simp add: push_bit_eq_mult power_add ac_simps)
  moreover have "(msb_shift poly ^^ (7 - m)) ((2 :: 'a word) ^ (?L - 8 + m))
      = push_bit (7 - m) (2 ^ (?L - 8 + m))"
    by (rule msb_pow_plain) (use assms in \<open>auto simp: bit_simps\<close>)
  moreover have "push_bit (7 - m) ((2 :: 'a word) ^ (?L - 8 + m)) = 2 ^ (?L - 1)"
    using assms by (simp add: push_bit_eq_mult flip: power_add)
  moreover have "(msb_shift poly ^^ 8) x = (msb_shift poly ^^ Suc m) ((msb_shift poly ^^ (7 - m)) x)" for x
  proof -
    have "8 = Suc m + (7 - m)" using assms(2) by simp
    then show ?thesis by (metis comp_apply funpow_add)
  qed
  ultimately show ?thesis by (simp only: forward_entry_def)
qed

lemma forward_entry_add:
  fixes poly :: "'a::len word"
  assumes "8 \<le> LENGTH('a)" and "m < 8" and "j < 2 ^ m"
  shows "forward_entry poly (2 ^ m + j) = forward_entry poly (2 ^ m) XOR forward_entry poly j"
proof -
  have "(of_nat (2 ^ m + j) :: 'a word) = of_nat (2 ^ m) XOR of_nat j"
  proof -
    have "(of_nat j :: 'a word) = take_bit m (of_nat j)"
      using assms(3) by (simp add: take_bit_of_nat take_bit_nat_eq_self flip: of_nat_take_bit)
    then have "bit (of_nat j :: 'a word) n \<Longrightarrow> n < m" for n
      by (metis bit_take_bit_iff)
    then have dis: "(2 ^ m :: 'a word) AND of_nat j = 0"
      by (intro bit_word_eqI) (auto simp: bit_simps)
    have "(of_nat (2 ^ m + j) :: 'a word) = 2 ^ m + of_nat j" by simp
    also have "\<dots> = 2 ^ m XOR of_nat j"
      using dis by (rule disjunctive_add_eq_xor)
    finally show ?thesis by simp
  qed
  then show ?thesis
    by (simp only: forward_entry_def push_bit_xor msb_pow_xor)
qed

lemma forward_rows:
  fixes poly :: "'a::len word"
  assumes "8 \<le> LENGTH('a)" and "m \<le> 8"
  shows "case foldl (forward_row (msb_shift poly)) (replicate 256 0, 2 ^ (LENGTH('a) - 1))
                (map (\<lambda>k. 2 ^ k) [0..<m]) of
           (t, c) \<Rightarrow> length t = 256 \<and> c = (msb_shift poly ^^ m) (2 ^ (LENGTH('a) - 1)) \<and>
                     (\<forall>j<2 ^ m. t ! j = forward_entry poly j)"
  using assms(2)
proof (induction m)
  case 0
  then show ?case by (simp add: forward_entry_def msb_pow_0)
next
  case (Suc m)
  obtain t c where tc: "foldl (forward_row (msb_shift poly)) (replicate 256 0, 2 ^ (LENGTH('a) - 1))
      (map (\<lambda>k. 2 ^ k) [0..<m]) = (t, c)" by fastforce
  from Suc tc have len: "length t = 256" and c: "c = (msb_shift poly ^^ m) (2 ^ (LENGTH('a) - 1))"
    and nth: "\<And>j. j < 2 ^ m \<Longrightarrow> t ! j = forward_entry poly j" by auto
  let ?c = "msb_shift poly c"
  let ?u = "foldl (\<lambda>t j. t[2 ^ m + j := ?c XOR t ! j]) t [0..<2 ^ m]"
  have m: "m < 8" using Suc.prems by simp
  have two: "2 * (2 :: nat) ^ m \<le> 256"
    using power_increasing [of "Suc m" 8 "2 :: nat"] Suc.prems by simp
  have u: "length ?u = 256" and unth: "\<And>k. k < 256 \<Longrightarrow>
      ?u ! k = (if 2 ^ m \<le> k \<and> k < 2 ^ m + 2 ^ m then ?c XOR t ! (k - 2 ^ m) else t ! k)"
    using forward_row_fill [of "2 ^ m" "2 ^ m" t ?c] two len by auto
  have cc: "?c = forward_entry poly (2 ^ m)"
    by (simp add: c forward_entry_pow2 [OF assms(1) m])
  have "?u ! k = forward_entry poly k" if "k < 2 ^ Suc m" for k
  proof (cases "k < 2 ^ m")
    case True
    then show ?thesis using unth [of k] nth two by simp
  next
    case False
    then have "forward_entry poly k = ?c XOR forward_entry poly (k - 2 ^ m)"
      using forward_entry_add [OF assms(1) m, of "k - 2 ^ m" poly] that cc by simp
    then show ?thesis using unth [of k] nth [of "k - 2 ^ m"] False that two by simp
  qed
  moreover have "foldl (forward_row (msb_shift poly)) (replicate 256 0, 2 ^ (LENGTH('a) - 1))
      (map (\<lambda>k. 2 ^ k) [0..<Suc m]) = (?u, ?c)"
    using tc by (simp add: forward_row_def [of _ "(t, c)"] Let_def)
  ultimately show ?case
    using u c by simp
qed

lemma foldl_update_nth:
  assumes "n \<le> length t" and "k < length t"
  shows "foldl (\<lambda>t i. t[i := g i]) t [m..<n] ! k = (if m \<le> k \<and> k < n then g k else t ! k)"
proof -
  have "n \<le> length t \<Longrightarrow> length (foldl (\<lambda>t i. t[i := g i]) t [m..<n]) = length t \<and>
    (\<forall>k<length t. foldl (\<lambda>t i. t[i := g i]) t [m..<n] ! k = (if m \<le> k \<and> k < n then g k else t ! k))"
    for n
  proof (induction n)
    case 0
    then show ?case by simp
  next
    case (Suc n)
    then show ?case by (auto simp: nth_list_update less_Suc_eq)
  qed
  with assms show ?thesis by simp
qed

section \<open>The contract of a table generator\<close>

text \<open>
  A table generator is correct when every entry of both bit orders is the register after eight
  shifts of its index. The byte loops over such a table then compute the bitwise register.
\<close>

locale crc_tables =
  fixes generate :: "'a::len word \<Rightarrow> bool \<Rightarrow> 'a word list"
  assumes width: "8 \<le> LENGTH('a)"
    and forward: "i < 256 \<Longrightarrow> generate poly False ! i = forward_entry poly i"
    and reflected: "i < 256 \<Longrightarrow> generate poly True ! i = reflected_entry poly i"
begin

lemma byte_forward:
  "generate poly False ! unat (ucast (drop_bit (LENGTH('a) - 8) crc XOR ucast x) :: bytecs) XOR push_bit 8 crc
   = crc_byte_forward poly crc x"
  by (simp only: forward [OF unat_byte_less] crc_byte_forward_table [OF width refl])

lemma byte_reflected:
  "generate poly True ! unat (ucast (crc XOR ucast x) :: bytecs) XOR drop_bit 8 crc
   = crc_byte_reflected poly crc x"
  by (simp only: reflected [OF unat_byte_less] crc_byte_reflected_table [OF width refl])

end

end
