(* ===== verification/Hash_Crc32.thy ===== *)
theory Hash_Crc32
  imports Hashing_Base Crc_Core
begin

unbundle bit_operations_syntax

text \<open>
  \<^verbatim>\<open>Crc32ParameterSet.cpp\<close> and \<^verbatim>\<open>Crc32.cpp\<close>: bit reversal, generation of the 256-entry lookup
  tables in both bit orders, the table-driven update, and the class. The reference is the bitwise shift register; the table-driven code computes
  it for every polynomial and both bit orders.
\<close>

section \<open>Model: 32-bit parameter sets\<close>

definition Crc32_ReverseBits :: "uintcs \<Rightarrow> uintcs" where
  "Crc32_ReverseBits v0 =
     (let v1 = drop_bit 1 (v0 AND 0xAAAAAAAA) OR push_bit 1 (v0 AND 0x55555555);
          v2 = drop_bit 2 (v1 AND 0xCCCCCCCC) OR push_bit 2 (v1 AND 0x33333333);
          v3 = drop_bit 4 (v2 AND 0xF0F0F0F0) OR push_bit 4 (v2 AND 0x0F0F0F0F)
      in push_bit 24 (v3 AND 0x000000FF) OR push_bit 8 (v3 AND 0x0000FF00) OR
         drop_bit 8 (v3 AND 0x00FF0000) OR drop_bit 24 (v3 AND 0xFF000000))"

text \<open>The shift of one bit that both table loops perform.\<close>

definition Crc32_shift :: "uintcs \<Rightarrow> uintcs \<Rightarrow> uintcs" where
  "Crc32_shift polynomial r =
     (if r AND 0x80000000 \<noteq> 0 then push_bit 1 r XOR polynomial else push_bit 1 r)"

text \<open>
  The forward table: \<open>i\<close> runs over the powers of two below 256, the inner loop over \<open>j < i\<close>.
\<close>

definition Crc32_forward_row :: "uintcs \<Rightarrow> uintcs list \<times> uintcs \<Rightarrow> nat \<Rightarrow> uintcs list \<times> uintcs" where
  "Crc32_forward_row polynomial st i =
     (case st of (table, crc) \<Rightarrow>
        let crc' = Crc32_shift polynomial crc
        in (foldl (\<lambda>t j. t[i + j := crc' XOR t ! j]) table [0..<i], crc'))"

definition Crc32_GenerateLookupTable :: "uintcs \<Rightarrow> bool \<Rightarrow> uintcs list" where
  "Crc32_GenerateLookupTable polynomial reflectInput =
     (if \<not> reflectInput then
        fst (foldl (Crc32_forward_row polynomial) (replicate 256 0, 0x80000000)
               (map (\<lambda>k. 2 ^ k) [0..<8]))
      else
        foldl (\<lambda>t i. t[i := Crc32_ReverseBits
                 ((Crc32_shift polynomial ^^ 8) (Crc32_ReverseBits (of_nat i)))])
          (replicate 256 0) [1..<256])"

record Crc32ParameterSet =
  p32_polynomial :: uintcs
  p32_initialValue :: uintcs
  p32_finalXorValue :: uintcs
  p32_reflectValues :: bool
  p32_lookupTable :: "uintcs list"

definition Crc32ParameterSet_Create :: "uintcs \<Rightarrow> uintcs \<Rightarrow> uintcs \<Rightarrow> bool \<Rightarrow> Crc32ParameterSet" where
  "Crc32ParameterSet_Create polynomial initialValue finalXorValue reflectValues =
     \<lparr>p32_polynomial = polynomial, p32_initialValue = initialValue,
      p32_finalXorValue = finalXorValue, p32_reflectValues = reflectValues,
      p32_lookupTable = Crc32_GenerateLookupTable polynomial reflectValues\<rparr>"

definition getCrc32Property :: Crc32ParameterSet where
  "getCrc32Property = Crc32ParameterSet_Create 0x04c11db7 0xffffffff 0xffffffff True"

definition getCrc32CProperty :: Crc32ParameterSet where
  "getCrc32CProperty = Crc32ParameterSet_Create 0x1edc6f41 0xffffffff 0xffffffff True"

text \<open>The two byte loops of \<^verbatim>\<open>Update\<close>; \<open>unat (ucast _ :: bytecs)\<close> is the truncated table index.\<close>

definition Crc32_byte_reflected :: "uintcs list \<Rightarrow> uintcs \<Rightarrow> bytecs \<Rightarrow> uintcs" where
  "Crc32_byte_reflected table crc x =
     (let idx = (ucast (crc XOR ucast x) :: bytecs) in table ! unat idx XOR drop_bit 8 crc)"

definition Crc32_byte_forward :: "uintcs list \<Rightarrow> uintcs \<Rightarrow> bytecs \<Rightarrow> uintcs" where
  "Crc32_byte_forward table crc x =
     (let idx = (ucast (drop_bit 24 crc XOR ucast x) :: bytecs) in table ! unat idx XOR push_bit 8 crc)"

definition Crc32ParameterSet_Update :: "Crc32ParameterSet \<Rightarrow> uintcs \<Rightarrow> buffer \<Rightarrow> intcs \<Rightarrow> uintcs res" where
  "Crc32ParameterSet_Update ps v source len =
     bind_res (ValidateSource source len)
       (\<lambda>_. Inr (foldl (if p32_reflectValues ps then Crc32_byte_reflected (p32_lookupTable ps)
                        else Crc32_byte_forward (p32_lookupTable ps))
                   v (source_bytes source len)))"

definition Crc32ParameterSet_Finalize :: "Crc32ParameterSet \<Rightarrow> uintcs \<Rightarrow> uintcs" where
  "Crc32ParameterSet_Finalize ps v = v XOR p32_finalXorValue ps"

definition Crc32_crc_bytes :: "Crc32ParameterSet \<Rightarrow> uintcs \<Rightarrow> bytecs list" where
  "Crc32_crc_bytes ps crc =
     (if p32_reflectValues ps
      then [ucast crc, ucast (drop_bit 8 crc), ucast (drop_bit 16 crc), ucast (drop_bit 24 crc)]
      else [ucast (drop_bit 24 crc), ucast (drop_bit 16 crc), ucast (drop_bit 8 crc), ucast crc])"

definition Crc32ParameterSet_WriteCrcToSpan :: "Crc32ParameterSet \<Rightarrow> uintcs \<Rightarrow> buffer \<Rightarrow> buffer res" where
  "Crc32ParameterSet_WriteCrcToSpan ps crc destination =
     bind_res (ValidateNonNullDestination destination)
       (\<lambda>_. Inr (write_front destination (Crc32_crc_bytes ps crc)))"

section \<open>Model: the class Crc32\<close>

record Crc32 =
  c32_crc :: uintcs
  c32_parameterSet :: Crc32ParameterSet

definition Crc32_ctor_default :: Crc32 where
  "Crc32_ctor_default =
     \<lparr>c32_crc = p32_initialValue getCrc32Property, c32_parameterSet = getCrc32Property\<rparr>"

text \<open>A \<^verbatim>\<open>shared_ptr\<close> argument is an \<open>option\<close>: \<open>None\<close> is the null pointer.\<close>

definition Crc32_ctor :: "Crc32ParameterSet option \<Rightarrow> Crc32 res" where
  "Crc32_ctor parameterSet =
     (case parameterSet of
        None \<Rightarrow> Inl (ArgumentNullException ''parameterSet'')
      | Some ps \<Rightarrow> Inr \<lparr>c32_crc = p32_initialValue ps, c32_parameterSet = ps\<rparr>)"

definition Crc32_Clone :: "Crc32 \<Rightarrow> Crc32" where
  "Crc32_Clone h = \<lparr>c32_crc = c32_crc h, c32_parameterSet = c32_parameterSet h\<rparr>"

definition Crc32_Append :: "Crc32 \<Rightarrow> buffer \<Rightarrow> intcs \<Rightarrow> Crc32 res" where
  "Crc32_Append h source len =
     bind_res (Crc32ParameterSet_Update (c32_parameterSet h) (c32_crc h) source len)
       (\<lambda>crc. Inr (h\<lparr>c32_crc := crc\<rparr>))"

definition Crc32_Reset :: "Crc32 \<Rightarrow> Crc32" where
  "Crc32_Reset h = h\<lparr>c32_crc := p32_initialValue (c32_parameterSet h)\<rparr>"

definition Crc32_GetCurrentHashCore :: "Crc32 \<Rightarrow> bytecs list" where
  "Crc32_GetCurrentHashCore h =
     Crc32_crc_bytes (c32_parameterSet h) (Crc32ParameterSet_Finalize (c32_parameterSet h) (c32_crc h))"

definition Crc32_GetHashAndResetCore :: "Crc32 \<Rightarrow> bytecs list \<times> Crc32" where
  "Crc32_GetHashAndResetCore h =
     (Crc32_crc_bytes (c32_parameterSet h) (Crc32ParameterSet_Finalize (c32_parameterSet h) (c32_crc h)),
      h\<lparr>c32_crc := p32_initialValue (c32_parameterSet h)\<rparr>)"

definition Crc32_GetCurrentHashAsUInt32 :: "Crc32 \<Rightarrow> uintcs" where
  "Crc32_GetCurrentHashAsUInt32 h = Crc32ParameterSet_Finalize (c32_parameterSet h) (c32_crc h)"

definition Crc32_vtable :: "Crc32 NonCryptographicHashAlgorithm" where
  "Crc32_vtable =
     \<lparr>hashLengthInBytes = 4, vAppend = Crc32_Append, vReset = Crc32_Reset,
      vGetCurrentHashCore = Crc32_GetCurrentHashCore,
      vGetHashAndResetCore = Crc32_GetHashAndResetCore\<rparr>"

text \<open>The default-parameter overload complements the register instead of calling \<^verbatim>\<open>Finalize\<close>.\<close>

definition Crc32_HashToUInt32_default :: "buffer \<Rightarrow> intcs \<Rightarrow> uintcs res" where
  "Crc32_HashToUInt32_default source len =
     bind_res (Crc32ParameterSet_Update getCrc32Property (p32_initialValue getCrc32Property) source len)
       (\<lambda>crc. Inr (NOT crc))"

definition Crc32_HashToUInt32 :: "Crc32ParameterSet option \<Rightarrow> buffer \<Rightarrow> intcs \<Rightarrow> uintcs res" where
  "Crc32_HashToUInt32 parameterSet source len =
     (case parameterSet of
        None \<Rightarrow> Inl (ArgumentNullException ''parameterSet'')
      | Some ps \<Rightarrow>
          bind_res (Crc32ParameterSet_Update ps (p32_initialValue ps) source len)
            (\<lambda>crc. Inr (Crc32ParameterSet_Finalize ps crc)))"

text \<open>\<^verbatim>\<open>Hash(parameterSet, ...)\<close>; a null set is rejected by \<^verbatim>\<open>HashToUInt32\<close> before it is used.\<close>

definition Crc32_Hash :: "Crc32ParameterSet option \<Rightarrow> buffer \<Rightarrow> intcs \<Rightarrow> bytecs list res" where
  "Crc32_Hash parameterSet source len =
     bind_res (Crc32_HashToUInt32 parameterSet source len)
       (\<lambda>hash. Inr (Crc32_crc_bytes (the parameterSet) hash))"

definition Crc32_HashInto ::
  "Crc32ParameterSet option \<Rightarrow> buffer \<Rightarrow> intcs \<Rightarrow> buffer \<Rightarrow> intcs \<Rightarrow> (intcs \<times> buffer) res" where
  "Crc32_HashInto parameterSet source len destination destinationLength =
     bind_res (ValidateDestination destination destinationLength 4)
       (\<lambda>_. bind_res (Crc32_HashToUInt32 parameterSet source len)
          (\<lambda>hash. bind_res (Crc32ParameterSet_WriteCrcToSpan (the parameterSet) hash destination)
             (\<lambda>d. Inr (4, d))))"

definition Crc32_TryHash ::
  "Crc32ParameterSet option \<Rightarrow> buffer \<Rightarrow> intcs \<Rightarrow> buffer \<Rightarrow> intcs \<Rightarrow> (bool \<times> intcs \<times> buffer) res" where
  "Crc32_TryHash parameterSet source len destination destinationLength =
     bind_res (TryValidateDestination destination destinationLength 4)
       (\<lambda>ok. if \<not> ok then Inr (False, 0, destination)
             else bind_res (Crc32_HashToUInt32 parameterSet source len)
               (\<lambda>hash. bind_res (Crc32ParameterSet_WriteCrcToSpan (the parameterSet) hash destination)
                  (\<lambda>d. Inr (True, 4, d))))"

text \<open>The overloads without a parameter set use the default one.\<close>

definition Crc32_Hash_default :: "buffer \<Rightarrow> intcs \<Rightarrow> bytecs list res" where
  "Crc32_Hash_default source len = Crc32_Hash (Some getCrc32Property) source len"

definition Crc32_HashInto_default :: "buffer \<Rightarrow> intcs \<Rightarrow> buffer \<Rightarrow> intcs \<Rightarrow> (intcs \<times> buffer) res" where
  "Crc32_HashInto_default source len destination destinationLength =
     Crc32_HashInto (Some getCrc32Property) source len destination destinationLength"

definition Crc32_TryHash_default :: "buffer \<Rightarrow> intcs \<Rightarrow> buffer \<Rightarrow> intcs \<Rightarrow> (bool \<times> intcs \<times> buffer) res" where
  "Crc32_TryHash_default source len destination destinationLength =
     Crc32_TryHash (Some getCrc32Property) source len destination destinationLength"

text \<open>The specified digest, and the states that have absorbed \<open>bs\<close> under a parameter set.\<close>

definition crc32_spec :: "Crc32ParameterSet \<Rightarrow> bytecs list \<Rightarrow> uintcs" where
  "crc32_spec ps bs =
     crc_register (p32_reflectValues ps) (p32_polynomial ps) (p32_initialValue ps) bs XOR p32_finalXorValue ps"

definition crc32_wf :: "Crc32ParameterSet \<Rightarrow> bool" where
  "crc32_wf ps \<longleftrightarrow> p32_lookupTable ps = Crc32_GenerateLookupTable (p32_polynomial ps) (p32_reflectValues ps)"

definition crc32_rep :: "Crc32ParameterSet \<Rightarrow> bytecs list \<Rightarrow> Crc32 \<Rightarrow> bool" where
  "crc32_rep ps bs h \<longleftrightarrow> crc32_wf ps \<and> c32_parameterSet h = ps \<and>
     c32_crc h = crc_register (p32_reflectValues ps) (p32_polynomial ps) (p32_initialValue ps) bs"

definition crc32_digest :: "Crc32ParameterSet \<Rightarrow> bytecs list \<Rightarrow> bytecs list" where
  "crc32_digest ps bs = Crc32_crc_bytes ps (crc32_spec ps bs)"

section \<open>Bit reversal and the shift\<close>

lemma mask32_m1_hi: "\<forall>n<32. bit (0xAAAAAAAA :: uintcs) n \<longleftrightarrow> odd (n div 1)"
  by (simp add: all_less_upt upt_rec)

lemma mask32_m1_lo: "\<forall>n<32. bit (0x55555555 :: uintcs) n \<longleftrightarrow> even (n div 1)"
  by (simp add: all_less_upt upt_rec)

lemma mask32_m2_hi: "\<forall>n<32. bit (0xCCCCCCCC :: uintcs) n \<longleftrightarrow> odd (n div 2)"
  by (simp add: all_less_upt upt_rec)

lemma mask32_m2_lo: "\<forall>n<32. bit (0x33333333 :: uintcs) n \<longleftrightarrow> even (n div 2)"
  by (simp add: all_less_upt upt_rec)

lemma mask32_m4_hi: "\<forall>n<32. bit (0xF0F0F0F0 :: uintcs) n \<longleftrightarrow> odd (n div 4)"
  by (simp add: all_less_upt upt_rec)

lemma mask32_m4_lo: "\<forall>n<32. bit (0x0F0F0F0F :: uintcs) n \<longleftrightarrow> even (n div 4)"
  by (simp add: all_less_upt upt_rec)

lemma mask32_b0: "\<forall>n<32. bit (0x000000FF :: uintcs) n \<longleftrightarrow> n < 8"
  by (simp add: all_less_upt upt_rec)

lemma mask32_b1: "\<forall>n<32. bit (0x0000FF00 :: uintcs) n \<longleftrightarrow> 8 \<le> n \<and> n < 16"
  by (simp add: all_less_upt upt_rec)

lemma mask32_b2: "\<forall>n<32. bit (0x00FF0000 :: uintcs) n \<longleftrightarrow> 16 \<le> n \<and> n < 24"
  by (simp add: all_less_upt upt_rec)

lemma mask32_b3: "\<forall>n<32. bit (0xFF000000 :: uintcs) n \<longleftrightarrow> 24 \<le> n"
  by (simp add: all_less_upt upt_rec)

lemmas mask32_bytes = mask32_b0 mask32_b1 mask32_b2 mask32_b3

lemma bswap32_stage:
  assumes n: "n < 32"
  shows "bit (push_bit 24 (v AND 0x000000FF) OR push_bit 8 (v AND 0x0000FF00) OR
         drop_bit 8 (v AND 0x00FF0000) OR drop_bit 24 (v AND 0xFF000000) :: uintcs) n
       \<longleftrightarrow> bit v (24 - 8 * (n div 8) + n mod 8)"
proof -
  consider "n < 8" | "8 \<le> n" "n < 16" | "16 \<le> n" "n < 24" | "24 \<le> n" by linarith
  then show ?thesis
  proof cases
    case 1
    then show ?thesis using mask32_bytes by (auto simp: bit_simps add.commute)
  next
    case 2
    then have "n div 8 = 1" "n mod 8 = n - 8" by (auto simp: div_nat_eqI mod_if)
    then show ?thesis using 2 mask32_bytes by (auto simp: bit_simps add.commute)
  next
    case 3
    then have "n div 8 = 2" "n mod 8 = n - 16" by (auto simp: div_nat_eqI mod_if)
    then show ?thesis using 3 mask32_bytes by (auto simp: bit_simps add.commute)
  next
    case 4
    then have "n div 8 = 3" "n mod 8 = n - 24" using n by (auto simp: div_nat_eqI mod_if)
    then show ?thesis using 4 n mask32_bytes by (auto simp: bit_simps)
  qed
qed

lemma swap32_positions:
  "\<forall>n<32. 24 - 8 * (n div 8) + n mod 8 < 32 \<and> swap_pos 4 (24 - 8 * (n div 8) + n mod 8) < 32 \<and>
     swap_pos 2 (swap_pos 4 (24 - 8 * (n div 8) + n mod 8)) < 32 \<and>
     swap_pos 1 (swap_pos 2 (swap_pos 4 (24 - 8 * (n div 8) + n mod 8))) = 31 - n"
  by code_simp

lemma word_length32: "LENGTH(32) = 32"
  by simp

text \<open>The side conditions of the three group swaps of \<^verbatim>\<open>ReverseBits\<close>.\<close>

lemma swap_sizes32: "0 < (1 :: nat)" "2 * 1 dvd (32 :: nat)" "0 < (2 :: nat)" "2 * 2 dvd (32 :: nat)"
    "0 < (4 :: nat)" "2 * 4 dvd (32 :: nat)"
  by simp_all

lemmas swap32_1 = swap_stage [where ?'a = 32 and m = 1, unfolded word_length32,
    OF swap_sizes32(1,2) mask32_m1_hi mask32_m1_lo]
lemmas swap32_2 = swap_stage [where ?'a = 32 and m = 2, unfolded word_length32,
    OF swap_sizes32(3,4) mask32_m2_hi mask32_m2_lo]
lemmas swap32_4 = swap_stage [where ?'a = 32 and m = 4, unfolded word_length32,
    OF swap_sizes32(5,6) mask32_m4_hi mask32_m4_lo]

lemma Crc32_ReverseBits_eq: "Crc32_ReverseBits w = bit_reverse w"
proof (rule bit_word_eqI)
  fix n assume "n < LENGTH(32)"
  then have n: "n < 32" by simp
  define p where "p = 24 - 8 * (n div 8) + n mod 8"
  have pos: "p < 32" "swap_pos 4 p < 32" "swap_pos 2 (swap_pos 4 p) < 32"
    "swap_pos 1 (swap_pos 2 (swap_pos 4 p)) = 31 - n"
    using swap32_positions n by (simp_all only: p_def)
  have "bit (Crc32_ReverseBits w) n = bit w (31 - n)"
    by (simp only: Crc32_ReverseBits_def Let_def bswap32_stage [OF n, folded p_def]
        swap32_4 [OF pos(1)] swap32_2 [OF pos(2)] swap32_1 [OF pos(3)] pos(4))
  then show "bit (Crc32_ReverseBits w) n = bit (bit_reverse w) n"
    using n by (simp add: bit_bit_reverse_iff)
qed

lemma Crc32_shift_eq: "Crc32_shift poly = msb_shift poly"
proof
  fix r
  have "(r AND 0x80000000 \<noteq> (0 :: uintcs)) \<longleftrightarrow> bit r 31"
    using and_exp_eq_0_iff_not_bit [of r 31] by simp
  then show "Crc32_shift poly r = msb_shift poly r"
    by (simp add: Crc32_shift_def msb_shift_def)
qed

section \<open>The tables are correct\<close>

lemma Crc32_forward_row_eq: "Crc32_forward_row poly = forward_row (msb_shift poly)"
  by (auto simp: fun_eq_iff Crc32_forward_row_def forward_row_def Crc32_shift_eq split: prod.splits)

interpretation crc32: crc_tables Crc32_GenerateLookupTable
proof
  fix i :: nat and poly :: uintcs
  assume i: "i < 256"
  have t: "case foldl (forward_row (msb_shift poly)) (replicate 256 0, 2 ^ 31) (map (\<lambda>k. 2 ^ k) [0..<8]) of
      (t, c) \<Rightarrow> (\<forall>j<2 ^ 8. t ! j = forward_entry poly j)"
    using forward_rows [of 8 poly] by (simp add: case_prod_beta)
  then show "Crc32_GenerateLookupTable poly False ! i = forward_entry poly i"
    using i by (simp add: Crc32_GenerateLookupTable_def Crc32_forward_row_eq case_prod_beta
        del: upt_conv_Cons)
  show "Crc32_GenerateLookupTable poly True ! i = reflected_entry poly i"
    using i by (cases i) (simp_all add: Crc32_GenerateLookupTable_def foldl_update_nth Crc32_ReverseBits_eq
        Crc32_shift_eq bit_reverse_msb_pow reflected_entry_def)
qed simp

section \<open>The class computes the bitwise register\<close>

lemma Crc32_bytes_eq:
  "Crc32_byte_reflected (Crc32_GenerateLookupTable poly True) = crc_byte_reflected poly"
  "Crc32_byte_forward (Crc32_GenerateLookupTable poly False) = crc_byte_forward poly"
  using crc32.byte_reflected [of poly] crc32.byte_forward [of poly]
  by (simp_all add: fun_eq_iff Crc32_byte_reflected_def Crc32_byte_forward_def)

lemma Crc32_Update_spec:
  assumes "crc32_wf ps" and "ValidateSource source len = Inr ()"
  shows "Crc32ParameterSet_Update ps v source len =
    Inr (crc_register (p32_reflectValues ps) (p32_polynomial ps) v (source_bytes source len))"
  using assms by (simp add: Crc32ParameterSet_Update_def crc32_wf_def crc_register_def Crc32_bytes_eq)

lemma crc32_wf_Create [simp]: "crc32_wf (Crc32ParameterSet_Create p i x r)"
  by (simp add: crc32_wf_def Crc32ParameterSet_Create_def)

lemma length_Crc32_crc_bytes [simp]: "length (Crc32_crc_bytes ps crc) = 4"
  by (simp add: Crc32_crc_bytes_def)

interpretation crc32_class: hash_algorithm Crc32_vtable crc32_rep crc32_digest
proof
  fix source len e s
  assume "ValidateSource source len = Inl e"
  then show "vAppend Crc32_vtable s source len = Inl e"
    by (simp add: Crc32_vtable_def Crc32_Append_def Crc32ParameterSet_Update_def)
next
  fix c bs s source len
  assume "crc32_rep c bs s" and "ValidateSource source len = Inr ()"
  then show "\<exists>s'. vAppend Crc32_vtable s source len = Inr s' \<and>
      crc32_rep c (bs @ source_bytes source len) s'"
    by (simp add: Crc32_vtable_def Crc32_Append_def crc32_rep_def Crc32_Update_spec crc_register_append)
next
  fix c bs s
  assume "crc32_rep c bs s"
  then show "crc32_rep c [] (vReset Crc32_vtable s)"
    by (simp add: Crc32_vtable_def Crc32_Reset_def crc32_rep_def crc_register_def)
next
  fix c bs s
  assume "crc32_rep c bs s"
  then show "vGetCurrentHashCore Crc32_vtable s = crc32_digest c bs"
    by (simp add: Crc32_vtable_def Crc32_GetCurrentHashCore_def crc32_rep_def crc32_digest_def
        crc32_spec_def Crc32ParameterSet_Finalize_def)
qed (simp_all add: Crc32_vtable_def Crc32_GetCurrentHashCore_def Crc32_GetHashAndResetCore_def
      Crc32_Reset_def)

lemma crc32_rep_ctor:
  "crc32_wf ps \<Longrightarrow> Crc32_ctor (Some ps) = Inr h \<Longrightarrow> crc32_rep ps [] h"
  by (auto simp: crc32_rep_def Crc32_ctor_def crc_register_def)

lemma Crc32_HashToUInt32_spec:
  "crc32_wf ps \<Longrightarrow> Crc32_HashToUInt32 (Some ps) (Some bs) (int (length bs)) = Inr (crc32_spec ps bs)"
  by (simp add: Crc32_HashToUInt32_def Crc32_Update_spec ValidateSource_cases crc32_spec_def
      Crc32ParameterSet_Finalize_def)

text \<open>The IEEE polynomial in the reflected order.\<close>

lemma bit_reverse_ieee: "bit_reverse (0x04c11db7 :: uintcs) = 0xEDB88320"
  by (simp add: bit_reverse_def upt_rec)

section \<open>Properties\<close>

text \<open>
  C26. CRC-32, for every polynomial, initial value, final mask and bit order: the table-driven code,
  with the 256-entry table that \<^verbatim>\<open>GenerateLookupTable\<close> built, returns the remainder of the bitwise
  shift register. It holds for the one-shot \<^verbatim>\<open>HashToUInt32\<close> and for an object fed chunk by chunk,
  however the message is cut.
\<close>

theorem crc32_table_is_bitwise:
  assumes "length (concat chunks) < 2 ^ 64"
  shows "let ps = Crc32ParameterSet_Create poly ini fx reflect;
             crc = crc_register reflect poly ini (concat chunks) XOR fx
         in Crc32_HashToUInt32 (Some ps) (Some (concat chunks)) (int (length (concat chunks))) = Inr crc \<and>
            (\<exists>h h'. Crc32_ctor (Some ps) = Inr h \<and> AppendAll Crc32_vtable h chunks = Inr h' \<and>
               GetCurrentHash Crc32_vtable h' = Crc32_crc_bytes ps crc)"
proof -
  let ?ps = "Crc32ParameterSet_Create poly ini fx reflect"
  have spec: "crc32_spec ?ps bs = crc_register reflect poly ini bs XOR fx" for bs
    by (simp add: crc32_spec_def Crc32ParameterSet_Create_def)
  obtain h where h: "Crc32_ctor (Some ?ps) = Inr h" by (simp add: Crc32_ctor_def)
  from crc32_class.append_all_hash [OF crc32_rep_ctor [OF crc32_wf_Create h] assms] h
  show ?thesis
    by (simp add: Let_def Crc32_HashToUInt32_spec spec crc32_digest_def)
qed

text \<open>The catalogue's check value: the bytes of ``123456789'' under the IEEE polynomial.\<close>

theorem crc32_table_is_bitwise_witness:
  "Crc32_HashToUInt32 (Some (Crc32ParameterSet_Create 0x04c11db7 0xffffffff 0xffffffff True))
     (Some [0x31, 0x32, 0x33, 0x34, 0x35, 0x36, 0x37, 0x38, 0x39]) 9 = Inr 0xCBF43926"
proof -
  have "crc_register True 0x04c11db7 0xffffffff [0x31, 0x32, 0x33, 0x34, 0x35, 0x36, 0x37, 0x38, 0x39]
      XOR 0xffffffff = (0xCBF43926 :: uintcs)"
    by (simp add: crc_register_def crc_byte_reflected_def bit_reverse_ieee funpow_8 lsb_shift_def)
  then show ?thesis
    using crc32_table_is_bitwise [of "[[0x31, 0x32, 0x33, 0x34], [0x35, 0x36, 0x37, 0x38, 0x39]]"
        "0x04c11db7" "0xffffffff" "0xffffffff" True]
    by (simp add: Let_def)
qed

text \<open>
  The parameterless \<^verbatim>\<open>HashToUInt32(source, length)\<close> complements the register instead of calling
  \<^verbatim>\<open>Finalize\<close>; it returns what the overload with the default set returns on every input, errors
  included.
\<close>

theorem crc32_default_overload_agrees:
  "Crc32_HashToUInt32_default source len = Crc32_HashToUInt32 (Some getCrc32Property) source len"
proof -
  have "(0xffffffff :: uintcs) = - 1" by simp
  then have "NOT v = v XOR 0xffffffff" for v :: uintcs
    by (simp only: bit.xor_one_right)
  then show ?thesis
    by (simp add: Crc32_HashToUInt32_default_def Crc32_HashToUInt32_def Crc32ParameterSet_Finalize_def
        getCrc32Property_def Crc32ParameterSet_Create_def)
qed

end
