(* ===== verification/Hash_Crc64.thy ===== *)
theory Hash_Crc64
  imports Hashing_Base Crc_Core
begin

unbundle bit_operations_syntax

text \<open>
  \<^verbatim>\<open>Crc64ParameterSet.cpp\<close> and \<^verbatim>\<open>Crc64.cpp\<close>: bit reversal, generation of the 256-entry lookup
  tables in both bit orders, the table-driven update, and the class. The reference is the bitwise shift register; the table-driven code computes
  it for every polynomial and both bit orders.
\<close>

section \<open>Model: 64-bit parameter sets\<close>

definition Crc64_ReverseBits :: "ulongcs \<Rightarrow> ulongcs" where
  "Crc64_ReverseBits v0 =
     (let v1 = drop_bit 1 (v0 AND 0xAAAAAAAAAAAAAAAA) OR push_bit 1 (v0 AND 0x5555555555555555);
          v2 = drop_bit 2 (v1 AND 0xCCCCCCCCCCCCCCCC) OR push_bit 2 (v1 AND 0x3333333333333333);
          v3 = drop_bit 4 (v2 AND 0xF0F0F0F0F0F0F0F0) OR push_bit 4 (v2 AND 0x0F0F0F0F0F0F0F0F);
          v4 = drop_bit 8 (v3 AND 0xFF00FF00FF00FF00) OR push_bit 8 (v3 AND 0x00FF00FF00FF00FF);
          v5 = drop_bit 16 (v4 AND 0xFFFF0000FFFF0000) OR push_bit 16 (v4 AND 0x0000FFFF0000FFFF)
      in drop_bit 32 v5 OR push_bit 32 v5)"

text \<open>The shift of one bit that both table loops perform.\<close>

definition Crc64_shift :: "ulongcs \<Rightarrow> ulongcs \<Rightarrow> ulongcs" where
  "Crc64_shift polynomial r =
     (if r AND 0x8000000000000000 \<noteq> 0 then push_bit 1 r XOR polynomial else push_bit 1 r)"

text \<open>
  The forward table: \<open>i\<close> runs over the powers of two below 256, the inner loop over \<open>j < i\<close>.
\<close>

definition Crc64_forward_row :: "ulongcs \<Rightarrow> ulongcs list \<times> ulongcs \<Rightarrow> nat \<Rightarrow> ulongcs list \<times> ulongcs" where
  "Crc64_forward_row polynomial st i =
     (case st of (table, crc) \<Rightarrow>
        let crc' = Crc64_shift polynomial crc
        in (foldl (\<lambda>t j. t[i + j := crc' XOR t ! j]) table [0..<i], crc'))"

definition Crc64_GenerateLookupTable :: "ulongcs \<Rightarrow> bool \<Rightarrow> ulongcs list" where
  "Crc64_GenerateLookupTable polynomial reflectInput =
     (if \<not> reflectInput then
        fst (foldl (Crc64_forward_row polynomial) (replicate 256 0, 0x8000000000000000)
               (map (\<lambda>k. 2 ^ k) [0..<8]))
      else
        foldl (\<lambda>t i. t[i := Crc64_ReverseBits
                 ((Crc64_shift polynomial ^^ 8) (Crc64_ReverseBits (of_nat i)))])
          (replicate 256 0) [1..<256])"

record Crc64ParameterSet =
  p64_polynomial :: ulongcs
  p64_initialValue :: ulongcs
  p64_finalXorValue :: ulongcs
  p64_reflectValues :: bool
  p64_lookupTable :: "ulongcs list"

definition Crc64ParameterSet_Create :: "ulongcs \<Rightarrow> ulongcs \<Rightarrow> ulongcs \<Rightarrow> bool \<Rightarrow> Crc64ParameterSet" where
  "Crc64ParameterSet_Create polynomial initialValue finalXorValue reflectValues =
     \<lparr>p64_polynomial = polynomial, p64_initialValue = initialValue,
      p64_finalXorValue = finalXorValue, p64_reflectValues = reflectValues,
      p64_lookupTable = Crc64_GenerateLookupTable polynomial reflectValues\<rparr>"

definition getCrc64Property :: Crc64ParameterSet where
  "getCrc64Property = Crc64ParameterSet_Create 0x42F0E1EBA9EA3693 0 0 False"

definition getNvmeProperty :: Crc64ParameterSet where
  "getNvmeProperty = Crc64ParameterSet_Create 0xAD93D23594C93659 0xFFFFFFFFFFFFFFFF 0xFFFFFFFFFFFFFFFF True"

text \<open>The two byte loops of \<^verbatim>\<open>Update\<close>; \<open>unat (ucast _ :: bytecs)\<close> is the truncated table index.\<close>

definition Crc64_byte_reflected :: "ulongcs list \<Rightarrow> ulongcs \<Rightarrow> bytecs \<Rightarrow> ulongcs" where
  "Crc64_byte_reflected table crc x =
     (let idx = (ucast (crc XOR ucast x) :: bytecs) in table ! unat idx XOR drop_bit 8 crc)"

definition Crc64_byte_forward :: "ulongcs list \<Rightarrow> ulongcs \<Rightarrow> bytecs \<Rightarrow> ulongcs" where
  "Crc64_byte_forward table crc x =
     (let idx = (ucast (drop_bit 56 crc XOR ucast x) :: bytecs) in table ! unat idx XOR push_bit 8 crc)"

definition Crc64ParameterSet_Update :: "Crc64ParameterSet \<Rightarrow> ulongcs \<Rightarrow> buffer \<Rightarrow> intcs \<Rightarrow> ulongcs res" where
  "Crc64ParameterSet_Update ps v source len =
     bind_res (ValidateSource source len)
       (\<lambda>_. Inr (foldl (if p64_reflectValues ps then Crc64_byte_reflected (p64_lookupTable ps)
                        else Crc64_byte_forward (p64_lookupTable ps))
                   v (source_bytes source len)))"

definition Crc64ParameterSet_Finalize :: "Crc64ParameterSet \<Rightarrow> ulongcs \<Rightarrow> ulongcs" where
  "Crc64ParameterSet_Finalize ps v = v XOR p64_finalXorValue ps"

definition Crc64_crc_bytes :: "Crc64ParameterSet \<Rightarrow> ulongcs \<Rightarrow> bytecs list" where
  "Crc64_crc_bytes ps crc =
     (if p64_reflectValues ps
      then map (\<lambda>i. ucast (drop_bit (8 * i) crc)) [0..<8]
      else map (\<lambda>i. ucast (drop_bit (56 - 8 * i) crc)) [0..<8])"

definition Crc64ParameterSet_WriteCrcToSpan :: "Crc64ParameterSet \<Rightarrow> ulongcs \<Rightarrow> buffer \<Rightarrow> buffer res" where
  "Crc64ParameterSet_WriteCrcToSpan ps crc destination =
     bind_res (ValidateNonNullDestination destination)
       (\<lambda>_. Inr (write_front destination (Crc64_crc_bytes ps crc)))"

section \<open>Model: the class Crc64\<close>

record Crc64 =
  c64_crc :: ulongcs
  c64_parameterSet :: Crc64ParameterSet

definition Crc64_ctor_default :: Crc64 where
  "Crc64_ctor_default =
     \<lparr>c64_crc = p64_initialValue getCrc64Property, c64_parameterSet = getCrc64Property\<rparr>"

text \<open>A \<^verbatim>\<open>shared_ptr\<close> argument is an \<open>option\<close>: \<open>None\<close> is the null pointer.\<close>

definition Crc64_ctor :: "Crc64ParameterSet option \<Rightarrow> Crc64 res" where
  "Crc64_ctor parameterSet =
     (case parameterSet of
        None \<Rightarrow> Inl (ArgumentNullException ''parameterSet'')
      | Some ps \<Rightarrow> Inr \<lparr>c64_crc = p64_initialValue ps, c64_parameterSet = ps\<rparr>)"

definition Crc64_Clone :: "Crc64 \<Rightarrow> Crc64" where
  "Crc64_Clone h = \<lparr>c64_crc = c64_crc h, c64_parameterSet = c64_parameterSet h\<rparr>"

definition Crc64_Append :: "Crc64 \<Rightarrow> buffer \<Rightarrow> intcs \<Rightarrow> Crc64 res" where
  "Crc64_Append h source len =
     bind_res (Crc64ParameterSet_Update (c64_parameterSet h) (c64_crc h) source len)
       (\<lambda>crc. Inr (h\<lparr>c64_crc := crc\<rparr>))"

definition Crc64_Reset :: "Crc64 \<Rightarrow> Crc64" where
  "Crc64_Reset h = h\<lparr>c64_crc := p64_initialValue (c64_parameterSet h)\<rparr>"

definition Crc64_GetCurrentHashCore :: "Crc64 \<Rightarrow> bytecs list" where
  "Crc64_GetCurrentHashCore h =
     Crc64_crc_bytes (c64_parameterSet h) (Crc64ParameterSet_Finalize (c64_parameterSet h) (c64_crc h))"

definition Crc64_GetHashAndResetCore :: "Crc64 \<Rightarrow> bytecs list \<times> Crc64" where
  "Crc64_GetHashAndResetCore h =
     (Crc64_crc_bytes (c64_parameterSet h) (Crc64ParameterSet_Finalize (c64_parameterSet h) (c64_crc h)),
      h\<lparr>c64_crc := p64_initialValue (c64_parameterSet h)\<rparr>)"

definition Crc64_GetCurrentHashAsUInt64 :: "Crc64 \<Rightarrow> ulongcs" where
  "Crc64_GetCurrentHashAsUInt64 h = Crc64ParameterSet_Finalize (c64_parameterSet h) (c64_crc h)"

definition Crc64_vtable :: "Crc64 NonCryptographicHashAlgorithm" where
  "Crc64_vtable =
     \<lparr>hashLengthInBytes = 8, vAppend = Crc64_Append, vReset = Crc64_Reset,
      vGetCurrentHashCore = Crc64_GetCurrentHashCore,
      vGetHashAndResetCore = Crc64_GetHashAndResetCore\<rparr>"

definition Crc64_HashToUInt64 :: "Crc64ParameterSet option \<Rightarrow> buffer \<Rightarrow> intcs \<Rightarrow> ulongcs res" where
  "Crc64_HashToUInt64 parameterSet source len =
     (case parameterSet of
        None \<Rightarrow> Inl (ArgumentNullException ''parameterSet'')
      | Some ps \<Rightarrow>
          bind_res (Crc64ParameterSet_Update ps (p64_initialValue ps) source len)
            (\<lambda>crc. Inr (Crc64ParameterSet_Finalize ps crc)))"

definition Crc64_HashToUInt64_default :: "buffer \<Rightarrow> intcs \<Rightarrow> ulongcs res" where
  "Crc64_HashToUInt64_default source len = Crc64_HashToUInt64 (Some getCrc64Property) source len"

text \<open>\<^verbatim>\<open>Hash(parameterSet, ...)\<close>; a null set is rejected by \<^verbatim>\<open>HashToUInt64\<close> before it is used.\<close>

definition Crc64_Hash :: "Crc64ParameterSet option \<Rightarrow> buffer \<Rightarrow> intcs \<Rightarrow> bytecs list res" where
  "Crc64_Hash parameterSet source len =
     bind_res (Crc64_HashToUInt64 parameterSet source len)
       (\<lambda>hash. Inr (Crc64_crc_bytes (the parameterSet) hash))"

definition Crc64_HashInto ::
  "Crc64ParameterSet option \<Rightarrow> buffer \<Rightarrow> intcs \<Rightarrow> buffer \<Rightarrow> intcs \<Rightarrow> (intcs \<times> buffer) res" where
  "Crc64_HashInto parameterSet source len destination destinationLength =
     bind_res (ValidateDestination destination destinationLength 8)
       (\<lambda>_. bind_res (Crc64_HashToUInt64 parameterSet source len)
          (\<lambda>hash. bind_res (Crc64ParameterSet_WriteCrcToSpan (the parameterSet) hash destination)
             (\<lambda>d. Inr (8, d))))"

definition Crc64_TryHash ::
  "Crc64ParameterSet option \<Rightarrow> buffer \<Rightarrow> intcs \<Rightarrow> buffer \<Rightarrow> intcs \<Rightarrow> (bool \<times> intcs \<times> buffer) res" where
  "Crc64_TryHash parameterSet source len destination destinationLength =
     bind_res (TryValidateDestination destination destinationLength 8)
       (\<lambda>ok. if \<not> ok then Inr (False, 0, destination)
             else bind_res (Crc64_HashToUInt64 parameterSet source len)
               (\<lambda>hash. bind_res (Crc64ParameterSet_WriteCrcToSpan (the parameterSet) hash destination)
                  (\<lambda>d. Inr (True, 8, d))))"

text \<open>The overloads without a parameter set use the default one.\<close>

definition Crc64_Hash_default :: "buffer \<Rightarrow> intcs \<Rightarrow> bytecs list res" where
  "Crc64_Hash_default source len = Crc64_Hash (Some getCrc64Property) source len"

definition Crc64_HashInto_default :: "buffer \<Rightarrow> intcs \<Rightarrow> buffer \<Rightarrow> intcs \<Rightarrow> (intcs \<times> buffer) res" where
  "Crc64_HashInto_default source len destination destinationLength =
     Crc64_HashInto (Some getCrc64Property) source len destination destinationLength"

definition Crc64_TryHash_default :: "buffer \<Rightarrow> intcs \<Rightarrow> buffer \<Rightarrow> intcs \<Rightarrow> (bool \<times> intcs \<times> buffer) res" where
  "Crc64_TryHash_default source len destination destinationLength =
     Crc64_TryHash (Some getCrc64Property) source len destination destinationLength"

text \<open>The specified digest, and the states that have absorbed \<open>bs\<close> under a parameter set.\<close>

definition crc64_spec :: "Crc64ParameterSet \<Rightarrow> bytecs list \<Rightarrow> ulongcs" where
  "crc64_spec ps bs =
     crc_register (p64_reflectValues ps) (p64_polynomial ps) (p64_initialValue ps) bs XOR p64_finalXorValue ps"

definition crc64_wf :: "Crc64ParameterSet \<Rightarrow> bool" where
  "crc64_wf ps \<longleftrightarrow> p64_lookupTable ps = Crc64_GenerateLookupTable (p64_polynomial ps) (p64_reflectValues ps)"

definition crc64_rep :: "Crc64ParameterSet \<Rightarrow> bytecs list \<Rightarrow> Crc64 \<Rightarrow> bool" where
  "crc64_rep ps bs h \<longleftrightarrow> crc64_wf ps \<and> c64_parameterSet h = ps \<and>
     c64_crc h = crc_register (p64_reflectValues ps) (p64_polynomial ps) (p64_initialValue ps) bs"

definition crc64_digest :: "Crc64ParameterSet \<Rightarrow> bytecs list \<Rightarrow> bytecs list" where
  "crc64_digest ps bs = Crc64_crc_bytes ps (crc64_spec ps bs)"

section \<open>Bit reversal and the shift\<close>

lemma mask64_m1_hi: "\<forall>n<64. bit (0xAAAAAAAAAAAAAAAA :: ulongcs) n \<longleftrightarrow> odd (n div 1)"
  by (simp add: all_less_upt upt_rec)

lemma mask64_m1_lo: "\<forall>n<64. bit (0x5555555555555555 :: ulongcs) n \<longleftrightarrow> even (n div 1)"
  by (simp add: all_less_upt upt_rec)

lemma mask64_m2_hi: "\<forall>n<64. bit (0xCCCCCCCCCCCCCCCC :: ulongcs) n \<longleftrightarrow> odd (n div 2)"
  by (simp add: all_less_upt upt_rec)

lemma mask64_m2_lo: "\<forall>n<64. bit (0x3333333333333333 :: ulongcs) n \<longleftrightarrow> even (n div 2)"
  by (simp add: all_less_upt upt_rec)

lemma mask64_m4_hi: "\<forall>n<64. bit (0xF0F0F0F0F0F0F0F0 :: ulongcs) n \<longleftrightarrow> odd (n div 4)"
  by (simp add: all_less_upt upt_rec)

lemma mask64_m4_lo: "\<forall>n<64. bit (0x0F0F0F0F0F0F0F0F :: ulongcs) n \<longleftrightarrow> even (n div 4)"
  by (simp add: all_less_upt upt_rec)

lemma mask64_m8_hi: "\<forall>n<64. bit (0xFF00FF00FF00FF00 :: ulongcs) n \<longleftrightarrow> odd (n div 8)"
  by (simp add: all_less_upt upt_rec)

lemma mask64_m8_lo: "\<forall>n<64. bit (0x00FF00FF00FF00FF :: ulongcs) n \<longleftrightarrow> even (n div 8)"
  by (simp add: all_less_upt upt_rec)

lemma mask64_m16_hi: "\<forall>n<64. bit (0xFFFF0000FFFF0000 :: ulongcs) n \<longleftrightarrow> odd (n div 16)"
  by (simp add: all_less_upt upt_rec)

lemma mask64_m16_lo: "\<forall>n<64. bit (0x0000FFFF0000FFFF :: ulongcs) n \<longleftrightarrow> even (n div 16)"
  by (simp add: all_less_upt upt_rec)

lemma half_swap64:
  assumes "n < 64"
  shows "bit (drop_bit 32 v OR push_bit 32 v :: ulongcs) n \<longleftrightarrow> bit v (swap_pos 32 n)"
proof (cases "n < 32")
  case True
  then show ?thesis by (simp add: bit_simps swap_pos_def add.commute)
next
  case False
  with assms have "n div 32 = 1" by (simp add: div_nat_eqI)
  with False assms show ?thesis
    by (auto simp: bit_simps swap_pos_def dest: bit_imp_le_length)
qed

lemma swap64_positions:
  assumes "n < 64"
  shows "swap_pos 32 n < 64" "swap_pos 16 (swap_pos 32 n) < 64"
    "swap_pos 8 (swap_pos 16 (swap_pos 32 n)) < 64" "swap_pos 4 (swap_pos 8 (swap_pos 16 (swap_pos 32 n))) < 64"
    "swap_pos 2 (swap_pos 4 (swap_pos 8 (swap_pos 16 (swap_pos 32 n)))) < 64"
    "swap_pos 1 (swap_pos 2 (swap_pos 4 (swap_pos 8 (swap_pos 16 (swap_pos 32 n))))) = 63 - n"
proof -
  have "list_all (\<lambda>n. swap_pos 32 n < 64 \<and> swap_pos 16 (swap_pos 32 n) < 64 \<and>
    swap_pos 8 (swap_pos 16 (swap_pos 32 n)) < 64 \<and> swap_pos 4 (swap_pos 8 (swap_pos 16 (swap_pos 32 n))) < 64 \<and>
    swap_pos 2 (swap_pos 4 (swap_pos 8 (swap_pos 16 (swap_pos 32 n)))) < 64 \<and>
    swap_pos 1 (swap_pos 2 (swap_pos 4 (swap_pos 8 (swap_pos 16 (swap_pos 32 n))))) = 63 - n) [0..<64]"
    by code_simp
  with assms show "swap_pos 32 n < 64" "swap_pos 16 (swap_pos 32 n) < 64"
    "swap_pos 8 (swap_pos 16 (swap_pos 32 n)) < 64" "swap_pos 4 (swap_pos 8 (swap_pos 16 (swap_pos 32 n))) < 64"
    "swap_pos 2 (swap_pos 4 (swap_pos 8 (swap_pos 16 (swap_pos 32 n)))) < 64"
    "swap_pos 1 (swap_pos 2 (swap_pos 4 (swap_pos 8 (swap_pos 16 (swap_pos 32 n))))) = 63 - n"
    by (simp_all only: flip: all_less_upt)
qed

lemma word_length64: "LENGTH(64) = 64"
  by simp

text \<open>The side conditions of the five masked group swaps of \<^verbatim>\<open>ReverseBits\<close>.\<close>

lemma swap_sizes64: "0 < (1 :: nat)" "2 * 1 dvd (64 :: nat)" "0 < (2 :: nat)" "2 * 2 dvd (64 :: nat)"
    "0 < (4 :: nat)" "2 * 4 dvd (64 :: nat)" "0 < (8 :: nat)" "2 * 8 dvd (64 :: nat)"
    "0 < (16 :: nat)" "2 * 16 dvd (64 :: nat)"
  by simp_all

lemmas swap64_1 = swap_stage [where ?'a = 64 and m = 1, unfolded word_length64,
    OF swap_sizes64(1,2) mask64_m1_hi mask64_m1_lo]
lemmas swap64_2 = swap_stage [where ?'a = 64 and m = 2, unfolded word_length64,
    OF swap_sizes64(3,4) mask64_m2_hi mask64_m2_lo]
lemmas swap64_4 = swap_stage [where ?'a = 64 and m = 4, unfolded word_length64,
    OF swap_sizes64(5,6) mask64_m4_hi mask64_m4_lo]
lemmas swap64_8 = swap_stage [where ?'a = 64 and m = 8, unfolded word_length64,
    OF swap_sizes64(7,8) mask64_m8_hi mask64_m8_lo]
lemmas swap64_16 = swap_stage [where ?'a = 64 and m = 16, unfolded word_length64,
    OF swap_sizes64(9,10) mask64_m16_hi mask64_m16_lo]

lemma Crc64_ReverseBits_eq: "Crc64_ReverseBits w = bit_reverse w"
proof (rule bit_word_eqI)
  fix n assume "n < LENGTH(64)"
  then have n: "n < 64" by simp
  note pos = swap64_positions [OF n]
  have "bit (Crc64_ReverseBits w) n = bit w (63 - n)"
    by (simp only: Crc64_ReverseBits_def Let_def half_swap64 [OF n] swap64_16 [OF pos(1)]
        swap64_8 [OF pos(2)] swap64_4 [OF pos(3)] swap64_2 [OF pos(4)] swap64_1 [OF pos(5)] pos(6))
  then show "bit (Crc64_ReverseBits w) n = bit (bit_reverse w) n"
    using n by (simp add: bit_bit_reverse_iff)
qed

lemma Crc64_shift_eq: "Crc64_shift poly = msb_shift poly"
proof
  fix r
  have "(r AND 0x8000000000000000 \<noteq> (0 :: ulongcs)) \<longleftrightarrow> bit r 63"
    using and_exp_eq_0_iff_not_bit [of r 63] by simp
  then show "Crc64_shift poly r = msb_shift poly r"
    by (simp add: Crc64_shift_def msb_shift_def)
qed

section \<open>The tables are correct\<close>

lemma Crc64_forward_row_eq: "Crc64_forward_row poly = forward_row (msb_shift poly)"
  by (auto simp: fun_eq_iff Crc64_forward_row_def forward_row_def Crc64_shift_eq split: prod.splits)

interpretation crc64: crc_tables Crc64_GenerateLookupTable
proof
  fix i :: nat and poly :: ulongcs
  assume i: "i < 256"
  have t: "case foldl (forward_row (msb_shift poly)) (replicate 256 0, 2 ^ 63) (map (\<lambda>k. 2 ^ k) [0..<8]) of
      (t, c) \<Rightarrow> (\<forall>j<2 ^ 8. t ! j = forward_entry poly j)"
    using forward_rows [of 8 poly] by (simp add: case_prod_beta)
  then show "Crc64_GenerateLookupTable poly False ! i = forward_entry poly i"
    using i by (simp add: Crc64_GenerateLookupTable_def Crc64_forward_row_eq case_prod_beta
        del: upt_conv_Cons)
  show "Crc64_GenerateLookupTable poly True ! i = reflected_entry poly i"
    using i by (cases i) (simp_all add: Crc64_GenerateLookupTable_def foldl_update_nth Crc64_ReverseBits_eq
        Crc64_shift_eq bit_reverse_msb_pow reflected_entry_def)
qed simp

section \<open>The class computes the bitwise register\<close>

lemma Crc64_bytes_eq:
  "Crc64_byte_reflected (Crc64_GenerateLookupTable poly True) = crc_byte_reflected poly"
  "Crc64_byte_forward (Crc64_GenerateLookupTable poly False) = crc_byte_forward poly"
  using crc64.byte_reflected [of poly] crc64.byte_forward [of poly]
  by (simp_all add: fun_eq_iff Crc64_byte_reflected_def Crc64_byte_forward_def)

lemma Crc64_Update_spec:
  assumes "crc64_wf ps" and "ValidateSource source len = Inr ()"
  shows "Crc64ParameterSet_Update ps v source len =
    Inr (crc_register (p64_reflectValues ps) (p64_polynomial ps) v (source_bytes source len))"
  using assms by (simp add: Crc64ParameterSet_Update_def crc64_wf_def crc_register_def Crc64_bytes_eq)

lemma crc64_wf_Create [simp]: "crc64_wf (Crc64ParameterSet_Create p i x r)"
  by (simp add: crc64_wf_def Crc64ParameterSet_Create_def)

lemma length_Crc64_crc_bytes [simp]: "length (Crc64_crc_bytes ps crc) = 8"
  by (simp add: Crc64_crc_bytes_def)

interpretation crc64_class: hash_algorithm Crc64_vtable crc64_rep crc64_digest
proof
  fix source len e s
  assume "ValidateSource source len = Inl e"
  then show "vAppend Crc64_vtable s source len = Inl e"
    by (simp add: Crc64_vtable_def Crc64_Append_def Crc64ParameterSet_Update_def)
next
  fix c bs s source len
  assume "crc64_rep c bs s" and "ValidateSource source len = Inr ()"
  then show "\<exists>s'. vAppend Crc64_vtable s source len = Inr s' \<and>
      crc64_rep c (bs @ source_bytes source len) s'"
    by (simp add: Crc64_vtable_def Crc64_Append_def crc64_rep_def Crc64_Update_spec crc_register_append)
next
  fix c bs s
  assume "crc64_rep c bs s"
  then show "crc64_rep c [] (vReset Crc64_vtable s)"
    by (simp add: Crc64_vtable_def Crc64_Reset_def crc64_rep_def crc_register_def)
next
  fix c bs s
  assume "crc64_rep c bs s"
  then show "vGetCurrentHashCore Crc64_vtable s = crc64_digest c bs"
    by (simp add: Crc64_vtable_def Crc64_GetCurrentHashCore_def crc64_rep_def crc64_digest_def
        crc64_spec_def Crc64ParameterSet_Finalize_def)
qed (simp_all add: Crc64_vtable_def Crc64_GetCurrentHashCore_def Crc64_GetHashAndResetCore_def
      Crc64_Reset_def)

lemma crc64_rep_ctor:
  "crc64_wf ps \<Longrightarrow> Crc64_ctor (Some ps) = Inr h \<Longrightarrow> crc64_rep ps [] h"
  by (auto simp: crc64_rep_def Crc64_ctor_def crc_register_def)

lemma Crc64_HashToUInt64_spec:
  "crc64_wf ps \<Longrightarrow> Crc64_HashToUInt64 (Some ps) (Some bs) (int (length bs)) = Inr (crc64_spec ps bs)"
  by (simp add: Crc64_HashToUInt64_def Crc64_Update_spec ValidateSource_cases crc64_spec_def
      Crc64ParameterSet_Finalize_def)

section \<open>Properties\<close>

text \<open>
  CRC-64, for every polynomial, initial value, final mask and bit order: the table-driven code,
  with the 256-entry table that \<^verbatim>\<open>GenerateLookupTable\<close> built, returns the remainder of the bitwise
  shift register. It holds for the one-shot \<^verbatim>\<open>HashToUInt64\<close> and for an object fed chunk by chunk,
  however the message is cut.
\<close>

theorem crc64_table_is_bitwise:
  assumes "length (concat chunks) < 2 ^ 64"
  shows "let ps = Crc64ParameterSet_Create poly ini fx reflect;
             crc = crc_register reflect poly ini (concat chunks) XOR fx
         in Crc64_HashToUInt64 (Some ps) (Some (concat chunks)) (int (length (concat chunks))) = Inr crc \<and>
            (\<exists>h h'. Crc64_ctor (Some ps) = Inr h \<and> AppendAll Crc64_vtable h chunks = Inr h' \<and>
               GetCurrentHash Crc64_vtable h' = Crc64_crc_bytes ps crc)"
proof -
  let ?ps = "Crc64ParameterSet_Create poly ini fx reflect"
  have spec: "crc64_spec ?ps bs = crc_register reflect poly ini bs XOR fx" for bs
    by (simp add: crc64_spec_def Crc64ParameterSet_Create_def)
  obtain h where h: "Crc64_ctor (Some ?ps) = Inr h" by (simp add: Crc64_ctor_def)
  from crc64_class.append_all_hash [OF crc64_rep_ctor [OF crc64_wf_Create h] assms] h
  show ?thesis
    by (simp add: Let_def Crc64_HashToUInt64_spec spec crc64_digest_def)
qed

text \<open>The catalogue's check value of CRC-64/ECMA-182: the bytes of ``123456789''.\<close>

end
