(* ===== verification/Block_Buffer.thy ===== *)
theory Block_Buffer
  imports Hashing_Base
begin

unbundle bit_operations_syntax

text \<open>
  What the two xxHash classes share: cutting a message into fixed-size blocks with an unprocessed
  tail, the algebra that makes block processing independent of how the message arrives, and
  little-endian loads and rotations as numbers.
\<close>

section \<open>Blocks and tail of a message\<close>

function run_blocks :: "nat \<Rightarrow> ('l \<Rightarrow> bytecs list \<Rightarrow> 'l) \<Rightarrow> 'l \<Rightarrow> bytecs list \<Rightarrow> 'l \<times> bytecs list" where
  "run_blocks B f l bs =
     (if 0 < B \<and> B \<le> length bs then run_blocks B f (f l (take B bs)) (drop B bs) else (l, bs))"
  by pat_completeness auto
termination
  by (relation "measure (\<lambda>(B, f, l, bs). length bs)") auto

declare run_blocks.simps [simp del]

lemma run_blocks_short [simp]: "length bs < B \<Longrightarrow> run_blocks B f l bs = (l, bs)"
  by (subst run_blocks.simps) simp

lemma run_blocks_block [simp]:
  "0 < B \<Longrightarrow> length x = B \<Longrightarrow> run_blocks B f l (x @ bs) = run_blocks B f (f l x) bs"
  by (subst run_blocks.simps) simp

lemma run_blocks_tail: "0 < B \<Longrightarrow> length (snd (run_blocks B f l bs)) < B"
  by (induction B f l bs rule: run_blocks.induct) (subst run_blocks.simps, auto)

lemma run_blocks_append:
  "run_blocks B f l (xs @ ys) = (case run_blocks B f l xs of (l', t) \<Rightarrow> run_blocks B f l' (t @ ys))"
proof (induction B f l xs rule: run_blocks.induct)
  case (1 B f l xs)
  show ?case
  proof (cases "0 < B \<and> B \<le> length xs")
    case True
    have "run_blocks B f l (xs @ ys) = run_blocks B f (f l (take B xs)) (drop B xs @ ys)"
      using True by (subst run_blocks.simps) auto
    moreover have "run_blocks B f l xs = run_blocks B f (f l (take B xs)) (drop B xs)"
      using True by (subst run_blocks.simps) auto
    ultimately show ?thesis using "1.IH" [OF True] by simp
  next
    case False
    then show ?thesis by (subst (2) run_blocks.simps) auto
  qed
qed

section \<open>Loads and rotations\<close>

lemma take_drop_4:
  assumes "4 \<le> length bs"
  shows "take 4 bs = [bs ! 0, bs ! 1, bs ! 2, bs ! 3]"
  using assms by (intro nth_equalityI) (auto simp: less_Suc_eq numeral_eq_Suc)

lemma ReadUInt32LittleEndian_value:
  assumes "4 \<le> length bs"
  shows "unat (ReadUInt32LittleEndian bs) = le_value (take 4 bs)"
proof -
  let ?a = "bs ! 0" let ?b = "bs ! 1" let ?c = "bs ! 2" let ?d = "bs ! 3"
  have ab: "ucast ?a OR push_bit 8 (ucast ?b) = ucast ?a + push_bit 8 (ucast ?b :: uintcs)"
    by (rule disjunctive_add [symmetric]) (auto simp: bit_simps dest: bit_imp_le_length)
  have cd: "push_bit 16 (ucast ?c) OR push_bit 24 (ucast ?d) = push_bit 16 (ucast ?c) + push_bit 24 (ucast ?d :: uintcs)"
    by (rule disjunctive_add [symmetric]) (auto simp: bit_simps dest: bit_imp_le_length)
  have "ReadUInt32LittleEndian bs = (ucast ?a OR push_bit 8 (ucast ?b)) + (push_bit 16 (ucast ?c) OR push_bit 24 (ucast ?d))"
    unfolding ReadUInt32LittleEndian_def
    by (rule disjunctive_add [symmetric]) (auto simp: bit_simps dest: bit_imp_le_length)
  also have "\<dots> = of_nat (le_value (take 4 bs))"
    by (simp only: ab cd) (simp add: take_drop_4 [OF assms] push_bit_eq_mult)
  finally have "ReadUInt32LittleEndian bs = of_nat (le_value (take 4 bs))" .
  moreover have "le_value (take 4 bs) < 2 ^ 32"
    using unat_byte_bound [of ?a] unat_byte_bound [of ?b] unat_byte_bound [of ?c] unat_byte_bound [of ?d]
    by (simp add: take_drop_4 [OF assms])
  ultimately show ?thesis
    by (simp add: unsigned_of_nat take_bit_nat_eq_self)
qed

lemma ReadUInt64LittleEndian_value:
  assumes "8 \<le> length bs"
  shows "unat (ReadUInt64LittleEndian bs) = le_value (take 8 bs)"
proof -
  let ?l = "ReadUInt32LittleEndian bs" let ?h = "ReadUInt32LittleEndian (drop 4 bs)"
  have "ReadUInt64LittleEndian bs = ucast ?l + push_bit 32 (ucast ?h)"
    unfolding ReadUInt64LittleEndian_def
    by (rule disjunctive_add [symmetric]) (auto simp: bit_simps dest: bit_imp_le_length)
  also have "\<dots> = of_nat (unat ?l + 2 ^ 32 * unat ?h)"
    by (simp add: push_bit_eq_mult)
  finally have "ReadUInt64LittleEndian bs = of_nat (unat ?l + 2 ^ 32 * unat ?h)" .
  moreover have "unat ?l < 2 ^ 32" "unat ?h < 2 ^ 32"
    using unsigned_less [of ?l] unsigned_less [of ?h] by simp_all
  ultimately have "unat (ReadUInt64LittleEndian bs) = unat ?l + 2 ^ 32 * unat ?h"
    by (simp add: unsigned_of_nat take_bit_nat_eq_self del: of_nat_add of_nat_mult)
  also have "\<dots> = le_value (take 4 bs @ take 4 (drop 4 bs))"
    using assms by (simp add: ReadUInt32LittleEndian_value le_value_append)
  also have "take 4 bs @ take 4 (drop 4 bs) = take 8 bs"
    using take_add [of 4 4 bs] by simp
  finally show ?thesis .
qed

text \<open>The shift pair \<^verbatim>\<open>(v << n) | (v >> (w - n))\<close> is the rotation of the library.\<close>

lemma rotl_shifts:
  fixes v :: "'a::len word"
  assumes "0 < n" and "n < LENGTH('a)"
  shows "push_bit n v OR drop_bit (LENGTH('a) - n) v = word_rotl n v"
proof (rule bit_word_eqI)
  fix k assume k: "k < LENGTH('a)"
  show "bit (push_bit n v OR drop_bit (LENGTH('a) - n) v) k = bit (word_rotl n v) k"
  proof (cases "n \<le> k")
    case True
    then have "(k + (LENGTH('a) - n)) mod LENGTH('a) = k - n"
      using k assms by (simp add: mod_if)
    with True k assms show ?thesis
      by (auto simp: bit_simps dest: bit_imp_le_length)
  next
    case False
    with k assms show ?thesis
      by (auto simp: bit_simps add.commute)
  qed
qed

end
