(* ===== verification/Hash_XxHash32.thy ===== *)
theory Hash_XxHash32
  imports Block_Buffer
begin

unbundle bit_operations_syntax

text \<open>
  \<^verbatim>\<open>XxHash32.cpp\<close>: four lanes over 16-byte blocks, a partial-block buffer and the running length.
  The reference is xxHash32 of the whole message; an object fed in pieces returns it.
\<close>

section \<open>Model\<close>

definition XxHash32_Prime1 :: uintcs where "XxHash32_Prime1 = 0x9E3779B1"
definition XxHash32_Prime2 :: uintcs where "XxHash32_Prime2 = 0x85EBCA77"
definition XxHash32_Prime3 :: uintcs where "XxHash32_Prime3 = 0xC2B2AE3D"
definition XxHash32_Prime4 :: uintcs where "XxHash32_Prime4 = 0x27D4EB2F"
definition XxHash32_Prime5 :: uintcs where "XxHash32_Prime5 = 0x165667B1"

record XxHash32 =
  x32_seed :: uintcs
  x32_v1 :: uintcs
  x32_v2 :: uintcs
  x32_v3 :: uintcs
  x32_v4 :: uintcs
  x32_totalLength :: ulongcs
  x32_buf :: "bytecs list"
  x32_bufLen :: nat

definition rotl32 :: "uintcs \<Rightarrow> nat \<Rightarrow> uintcs" where
  "rotl32 v n = push_bit n v OR drop_bit (32 - n) v"

definition XxHash32_round :: "uintcs \<Rightarrow> uintcs \<Rightarrow> uintcs" where
  "XxHash32_round acc input = rotl32 (acc + input * XxHash32_Prime2) 13 * XxHash32_Prime1"

definition XxHash32_initState :: "XxHash32 \<Rightarrow> XxHash32" where
  "XxHash32_initState h =
     h\<lparr>x32_v1 := x32_seed h + XxHash32_Prime1 + XxHash32_Prime2,
       x32_v2 := x32_seed h + XxHash32_Prime2,
       x32_v3 := x32_seed h,
       x32_v4 := x32_seed h - XxHash32_Prime1\<rparr>"

text \<open>\<^verbatim>\<open>block + k\<close> is \<open>drop k block\<close>.\<close>

definition XxHash32_processBlock :: "XxHash32 \<Rightarrow> bytecs list \<Rightarrow> XxHash32" where
  "XxHash32_processBlock h block =
     h\<lparr>x32_v1 := XxHash32_round (x32_v1 h) (ReadUInt32LittleEndian block),
       x32_v2 := XxHash32_round (x32_v2 h) (ReadUInt32LittleEndian (drop 4 block)),
       x32_v3 := XxHash32_round (x32_v3 h) (ReadUInt32LittleEndian (drop 8 block)),
       x32_v4 := XxHash32_round (x32_v4 h) (ReadUInt32LittleEndian (drop 12 block))\<rparr>"

text \<open>The seed is cast from \<^verbatim>\<open>intcs\<close>; the fields the constructor does not set have initialisers.\<close>

definition XxHash32_ctor :: "intcs \<Rightarrow> XxHash32" where
  "XxHash32_ctor seed =
     XxHash32_initState
       \<lparr>x32_seed = word_of_int seed, x32_v1 = 0, x32_v2 = 0, x32_v3 = 0, x32_v4 = 0,
        x32_totalLength = 0, x32_buf = replicate 16 0, x32_bufLen = 0\<rparr>"

definition XxHash32_Clone :: "XxHash32 \<Rightarrow> XxHash32" where
  "XxHash32_Clone h =
     \<lparr>x32_seed = x32_seed h, x32_v1 = x32_v1 h, x32_v2 = x32_v2 h, x32_v3 = x32_v3 h, x32_v4 = x32_v4 h,
      x32_totalLength = x32_totalLength h,
      x32_buf = take (x32_bufLen h) (x32_buf h) @ replicate (16 - x32_bufLen h) 0,
      x32_bufLen = x32_bufLen h\<rparr>"

definition XxHash32_Reset :: "XxHash32 \<Rightarrow> XxHash32" where
  "XxHash32_Reset h = XxHash32_initState (h\<lparr>x32_totalLength := 0, x32_bufLen := 0\<rparr>)"

text \<open>\<^verbatim>\<open>while (p + 16 <= end)\<close>; the second component is what lies between \<^verbatim>\<open>p\<close> and \<^verbatim>\<open>end\<close>.\<close>

function XxHash32_consume :: "XxHash32 \<Rightarrow> bytecs list \<Rightarrow> XxHash32 \<times> bytecs list" where
  "XxHash32_consume h p =
     (if 16 \<le> length p then XxHash32_consume (XxHash32_processBlock h p) (drop 16 p) else (h, p))"
  by pat_completeness auto
termination
  by (relation "measure (\<lambda>(h, p). length p)") auto

declare XxHash32_consume.simps [simp del]

definition XxHash32_store_tail :: "XxHash32 \<times> bytecs list \<Rightarrow> XxHash32" where
  "XxHash32_store_tail hp =
     (case hp of (h, p) \<Rightarrow>
        let h' = h\<lparr>x32_bufLen := length p\<rparr>
        in if length p > 0 then h'\<lparr>x32_buf := p @ drop (length p) (x32_buf h')\<rparr> else h')"

text \<open>How many bytes top up a partly filled buffer, and the copy that does it.\<close>

definition XxHash32_copy :: "nat \<Rightarrow> nat \<Rightarrow> nat" where
  "XxHash32_copy bufLen len = (let need = 16 - bufLen in if len < need then len else need)"

definition XxHash32_fill :: "XxHash32 \<Rightarrow> bytecs list \<Rightarrow> nat \<Rightarrow> XxHash32" where
  "XxHash32_fill h p copy =
     h\<lparr>x32_buf := take (x32_bufLen h) (x32_buf h) @ take copy p @ drop (x32_bufLen h + copy) (x32_buf h),
       x32_bufLen := x32_bufLen h + copy\<rparr>"

definition XxHash32_absorb :: "XxHash32 \<Rightarrow> bytecs list \<Rightarrow> XxHash32" where
  "XxHash32_absorb h p =
     (if x32_bufLen h > 0 then
        let copy = XxHash32_copy (x32_bufLen h) (length p);
            h = XxHash32_fill h p copy
        in if x32_bufLen h < 16 then h
           else XxHash32_store_tail (XxHash32_consume
                  ((XxHash32_processBlock h (x32_buf h))\<lparr>x32_bufLen := 0\<rparr>) (drop copy p))
      else XxHash32_store_tail (XxHash32_consume h p))"

definition XxHash32_Append :: "XxHash32 \<Rightarrow> buffer \<Rightarrow> intcs \<Rightarrow> XxHash32 res" where
  "XxHash32_Append h source len =
     bind_res (ValidateSource source len)
       (\<lambda>_. if len = 0 then Inr h
            else Inr (XxHash32_absorb (h\<lparr>x32_totalLength := x32_totalLength h + of_int len\<rparr>)
                        (source_bytes source len)))"

text \<open>The two loops over the buffered tail; the list is what \<^verbatim>\<open>remaining\<close> counts.\<close>

fun XxHash32_bytes :: "uintcs \<Rightarrow> bytecs list \<Rightarrow> uintcs" where
  "XxHash32_bytes h32 [] = h32"
| "XxHash32_bytes h32 (x # p) =
     XxHash32_bytes (rotl32 (h32 + ucast x * XxHash32_Prime5) 11 * XxHash32_Prime1) p"

function XxHash32_words :: "uintcs \<Rightarrow> bytecs list \<Rightarrow> uintcs \<times> bytecs list" where
  "XxHash32_words h32 p =
     (if 4 \<le> length p then
        XxHash32_words (rotl32 (h32 + ReadUInt32LittleEndian p * XxHash32_Prime3) 17 * XxHash32_Prime4) (drop 4 p)
      else (h32, p))"
  by pat_completeness auto
termination
  by (relation "measure (\<lambda>(h, p). length p)") auto

declare XxHash32_words.simps [simp del]

definition XxHash32_avalanche :: "uintcs \<Rightarrow> uintcs" where
  "XxHash32_avalanche h0 =
     (let h1 = (h0 XOR drop_bit 15 h0) * XxHash32_Prime2;
          h2 = (h1 XOR drop_bit 13 h1) * XxHash32_Prime3
      in h2 XOR drop_bit 16 h2)"

definition XxHash32_GetCurrentHashAsUInt32 :: "XxHash32 \<Rightarrow> uintcs" where
  "XxHash32_GetCurrentHashAsUInt32 h =
     (let h32 = (if x32_totalLength h \<ge> 16
                 then rotl32 (x32_v1 h) 1 + rotl32 (x32_v2 h) 7 + rotl32 (x32_v3 h) 12 + rotl32 (x32_v4 h) 18
                 else x32_seed h + XxHash32_Prime5);
          h32 = h32 + ucast (x32_totalLength h)
      in XxHash32_avalanche
           (case XxHash32_words h32 (take (x32_bufLen h) (x32_buf h)) of (h32, p) \<Rightarrow> XxHash32_bytes h32 p))"

definition XxHash32_GetCurrentHashCore :: "XxHash32 \<Rightarrow> bytecs list" where
  "XxHash32_GetCurrentHashCore h =
     (let h32 = XxHash32_GetCurrentHashAsUInt32 h
      in [ucast (drop_bit 24 h32), ucast (drop_bit 16 h32), ucast (drop_bit 8 h32), ucast h32])"

definition XxHash32_vtable :: "XxHash32 NonCryptographicHashAlgorithm" where
  "XxHash32_vtable =
     \<lparr>hashLengthInBytes = 4, vAppend = XxHash32_Append, vReset = XxHash32_Reset,
      vGetCurrentHashCore = XxHash32_GetCurrentHashCore,
      vGetHashAndResetCore = GetHashAndResetCore_default XxHash32_GetCurrentHashCore XxHash32_Reset\<rparr>"

definition XxHash32_Hash :: "buffer \<Rightarrow> intcs \<Rightarrow> intcs \<Rightarrow> bytecs list res" where
  "XxHash32_Hash source len seed =
     bind_res (XxHash32_Append (XxHash32_ctor seed) source len)
       (\<lambda>h. Inr (XxHash32_GetCurrentHashCore h))"

definition XxHash32_HashInto ::
  "buffer \<Rightarrow> intcs \<Rightarrow> buffer \<Rightarrow> intcs \<Rightarrow> intcs \<Rightarrow> (intcs \<times> buffer) res" where
  "XxHash32_HashInto source len destination destinationLength seed =
     bind_res (ValidateDestination destination destinationLength 4)
       (\<lambda>_. bind_res (XxHash32_Append (XxHash32_ctor seed) source len)
          (\<lambda>h. Inr (4, write_front destination (XxHash32_GetCurrentHashCore h))))"

definition XxHash32_TryHash ::
  "buffer \<Rightarrow> intcs \<Rightarrow> buffer \<Rightarrow> intcs \<Rightarrow> intcs \<Rightarrow> (bool \<times> intcs \<times> buffer) res" where
  "XxHash32_TryHash source len destination destinationLength seed =
     bind_res (TryValidateDestination destination destinationLength 4)
       (\<lambda>ok. if \<not> ok then Inr (False, 0, destination)
             else bind_res (XxHash32_Append (XxHash32_ctor seed) source len)
               (\<lambda>h. Inr (True, 4, write_front destination (XxHash32_GetCurrentHashCore h))))"

definition XxHash32_HashToUInt32 :: "buffer \<Rightarrow> intcs \<Rightarrow> intcs \<Rightarrow> uintcs res" where
  "XxHash32_HashToUInt32 source len seed =
     bind_res (XxHash32_Append (XxHash32_ctor seed) source len)
       (\<lambda>h. Inr (XxHash32_GetCurrentHashAsUInt32 h))"

section \<open>Specification: xxHash32 of a whole message\<close>

type_synonym xx32_lanes = "uintcs \<times> uintcs \<times> uintcs \<times> uintcs"

definition xx32_lane :: "nat \<Rightarrow> bytecs list \<Rightarrow> uintcs" where
  "xx32_lane i bs = of_nat (le_value (take 4 (drop (4 * i) bs)))"

definition xx32_round :: "uintcs \<Rightarrow> uintcs \<Rightarrow> uintcs" where
  "xx32_round acc input = word_rotl 13 (acc + input * 0x85EBCA77) * 0x9E3779B1"

definition xx32_stripe :: "xx32_lanes \<Rightarrow> bytecs list \<Rightarrow> xx32_lanes" where
  "xx32_stripe l bs =
     (case l of (a, b, c, d) \<Rightarrow>
        (xx32_round a (xx32_lane 0 bs), xx32_round b (xx32_lane 1 bs),
         xx32_round c (xx32_lane 2 bs), xx32_round d (xx32_lane 3 bs)))"

definition xx32_init :: "uintcs \<Rightarrow> xx32_lanes" where
  "xx32_init seed = (seed + 0x9E3779B1 + 0x85EBCA77, seed + 0x85EBCA77, seed, seed - 0x9E3779B1)"

fun xx32_tail :: "uintcs \<Rightarrow> bytecs list \<Rightarrow> uintcs" where
  "xx32_tail h (a # b # c # d # r) =
     xx32_tail (word_rotl 17 (h + of_nat (le_value [a, b, c, d]) * 0xC2B2AE3D) * 0x27D4EB2F) r"
| "xx32_tail h r = foldl (\<lambda>h x. word_rotl 11 (h + ucast x * 0x165667B1) * 0x9E3779B1) h r"

definition xx32_spec :: "uintcs \<Rightarrow> bytecs list \<Rightarrow> uintcs" where
  "xx32_spec seed bs =
     (case run_blocks 16 xx32_stripe (xx32_init seed) bs of
        ((a, b, c, d), t) \<Rightarrow>
          let acc = (if length bs < 16 then seed + 0x165667B1
                     else word_rotl 1 a + word_rotl 7 b + word_rotl 12 c + word_rotl 18 d);
              h0 = xx32_tail (acc + of_nat (length bs)) t;
              h1 = (h0 XOR drop_bit 15 h0) * 0x85EBCA77;
              h2 = (h1 XOR drop_bit 13 h1) * 0xC2B2AE3D
          in h2 XOR drop_bit 16 h2)"

definition xx32_digest :: "uintcs \<Rightarrow> bytecs list \<Rightarrow> bytecs list" where
  "xx32_digest seed bs = WriteUInt32BigEndian (xx32_spec seed bs)"

text \<open>The states an object with this seed is in once it has absorbed \<open>bs\<close>.\<close>

definition xx32_rep :: "uintcs \<Rightarrow> bytecs list \<Rightarrow> XxHash32 \<Rightarrow> bool" where
  "xx32_rep seed bs h \<longleftrightarrow>
     x32_seed h = seed \<and> x32_totalLength h = of_nat (length bs) \<and>
     length (x32_buf h) = 16 \<and> x32_bufLen h < 16 \<and>
     run_blocks 16 xx32_stripe (xx32_init seed) bs =
       ((x32_v1 h, x32_v2 h, x32_v3 h, x32_v4 h), take (x32_bufLen h) (x32_buf h))"

definition xx32_lanes_of :: "XxHash32 \<Rightarrow> xx32_lanes" where
  "xx32_lanes_of h = (x32_v1 h, x32_v2 h, x32_v3 h, x32_v4 h)"

section \<open>Blocks\<close>

lemmas XxHash32_primes = XxHash32_Prime1_def XxHash32_Prime2_def XxHash32_Prime3_def
  XxHash32_Prime4_def XxHash32_Prime5_def

lemma rotl32_eq: "0 < n \<Longrightarrow> n < 32 \<Longrightarrow> rotl32 v n = word_rotl n v"
  using rotl_shifts [of n v] by (simp add: rotl32_def)

lemma XxHash32_round_eq: "XxHash32_round = xx32_round"
  by (simp add: fun_eq_iff XxHash32_round_def xx32_round_def rotl32_eq XxHash32_primes)

lemma ReadUInt32_lane:
  assumes "4 * i + 4 \<le> length p"
  shows "ReadUInt32LittleEndian (drop (4 * i) p) = xx32_lane i p"
proof -
  have "4 \<le> length (drop (4 * i) p)" using assms by simp
  then show ?thesis by (simp add: xx32_lane_def flip: ReadUInt32LittleEndian_value)
qed

lemma xx32_lane_take: "i < 4 \<Longrightarrow> xx32_lane i (take 16 p) = xx32_lane i p"
  by (auto simp: xx32_lane_def drop_take min_def)

lemma XxHash32_processBlock_stripe:
  assumes "16 \<le> length p"
  shows "xx32_lanes_of (XxHash32_processBlock h p) = xx32_stripe (xx32_lanes_of h) (take 16 p)"
  using assms ReadUInt32_lane [of 0 p] ReadUInt32_lane [of 1 p] ReadUInt32_lane [of 2 p] ReadUInt32_lane [of 3 p]
  by (simp add: xx32_lanes_of_def XxHash32_processBlock_def xx32_stripe_def XxHash32_round_eq xx32_lane_take)

lemma XxHash32_processBlock_frame [simp]:
  "x32_seed (XxHash32_processBlock h p) = x32_seed h"
  "x32_totalLength (XxHash32_processBlock h p) = x32_totalLength h"
  "x32_buf (XxHash32_processBlock h p) = x32_buf h"
  "x32_bufLen (XxHash32_processBlock h p) = x32_bufLen h"
  by (simp_all add: XxHash32_processBlock_def)

lemma XxHash32_consume_run:
  "case XxHash32_consume h p of (h', t) \<Rightarrow>
     run_blocks 16 xx32_stripe (xx32_lanes_of h) p = (xx32_lanes_of h', t) \<and>
     x32_seed h' = x32_seed h \<and> x32_totalLength h' = x32_totalLength h \<and> x32_buf h' = x32_buf h"
proof (induction h p rule: XxHash32_consume.induct)
  case (1 h p)
  show ?case
  proof (cases "16 \<le> length p")
    case True
    have "run_blocks 16 xx32_stripe (xx32_lanes_of h) p
        = run_blocks 16 xx32_stripe (xx32_lanes_of (XxHash32_processBlock h p)) (drop 16 p)"
      using True by (subst run_blocks.simps) (simp add: XxHash32_processBlock_stripe)
    with "1.IH" [OF True] True show ?thesis
      by (subst XxHash32_consume.simps) simp
  next
    case False
    then show ?thesis by (subst XxHash32_consume.simps) simp
  qed
qed

text \<open>The last part of \<^verbatim>\<open>Append\<close>: all whole blocks, then the tail into the buffer.\<close>

lemma XxHash32_finish_rep:
  assumes "run_blocks 16 xx32_stripe (xx32_init seed) bs = run_blocks 16 xx32_stripe (xx32_lanes_of h) p"
    and "x32_seed h = seed" and "x32_totalLength h = of_nat (length bs)" and "length (x32_buf h) = 16"
  shows "xx32_rep seed bs (XxHash32_store_tail (XxHash32_consume h p))"
proof -
  obtain h' t where c: "XxHash32_consume h p = (h', t)" by fastforce
  have r: "run_blocks 16 xx32_stripe (xx32_lanes_of h) p = (xx32_lanes_of h', t)"
    and f: "x32_seed h' = x32_seed h" "x32_totalLength h' = x32_totalLength h" "x32_buf h' = x32_buf h"
    using XxHash32_consume_run [of h p] c by auto
  have "length t < 16"
    using run_blocks_tail [of 16 xx32_stripe "xx32_lanes_of h" p] r by simp
  with assms r f c show ?thesis
    by (auto simp: xx32_rep_def XxHash32_store_tail_def xx32_lanes_of_def Let_def)
qed

section \<open>The class implements the specification\<close>

text \<open>
  One append with the running length already advanced: \<open>h\<close> has the lanes and the buffer after \<open>bs\<close>
  and is told of \<open>p\<close>.
\<close>

lemma XxHash32_absorb_rep:
  assumes r: "x32_seed h = seed" "x32_totalLength h = of_nat (length (bs @ p))" "length (x32_buf h) = 16"
    "x32_bufLen h < 16" "run_blocks 16 xx32_stripe (xx32_init seed) bs =
       (xx32_lanes_of h, take (x32_bufLen h) (x32_buf h))"
  shows "xx32_rep seed (bs @ p) (XxHash32_absorb h p)"
proof -
  define t where "t = take (x32_bufLen h) (x32_buf h)"
  have run: "run_blocks 16 xx32_stripe (xx32_init seed) (bs @ p)
      = run_blocks 16 xx32_stripe (xx32_lanes_of h) (t @ p)"
    using r(5) by (simp add: run_blocks_append [of _ _ _ bs] t_def)
  define copy where "copy = XxHash32_copy (x32_bufLen h) (length p)"
  define h1 where "h1 = XxHash32_fill h p copy"
  define h2 where "h2 = (XxHash32_processBlock h1 (x32_buf h1))\<lparr>x32_bufLen := 0\<rparr>"
  have cp: "copy \<le> length p" "x32_bufLen h + copy \<le> 16" "x32_bufLen h + copy < 16 \<Longrightarrow> copy = length p"
    using r(4) by (auto simp: copy_def XxHash32_copy_def Let_def)
  have lt: "length t = x32_bufLen h" using r by (simp add: t_def)
  have h1: "x32_buf h1 = t @ take copy p @ drop (x32_bufLen h + copy) (x32_buf h)"
    "length (x32_buf h1) = 16" "x32_bufLen h1 = x32_bufLen h + copy" "xx32_lanes_of h1 = xx32_lanes_of h"
    "x32_seed h1 = x32_seed h" "x32_totalLength h1 = x32_totalLength h"
    using cp lt r by (simp_all add: h1_def XxHash32_fill_def t_def xx32_lanes_of_def)
  consider (empty) "x32_bufLen h = 0" | (part) "0 < x32_bufLen h" "x32_bufLen h + copy < 16"
    | (full) "0 < x32_bufLen h" "x32_bufLen h + copy = 16" using cp(2) by linarith
  then show ?thesis
  proof cases
    case empty
    then show ?thesis
      using r run by (simp add: XxHash32_absorb_def XxHash32_finish_rep t_def)
  next
    case part
    then have "XxHash32_absorb h p = h1"
      using h1(3) by (simp add: XxHash32_absorb_def Let_def flip: copy_def h1_def)
    then show ?thesis
      using part h1 r lt cp(3) [OF part(2)] run by (simp add: xx32_rep_def flip: xx32_lanes_of_def)
  next
    case full
    have b: "x32_buf h1 = t @ take copy p" using h1(1) full(2) r(3) by simp
    have a: "XxHash32_absorb h p = XxHash32_store_tail (XxHash32_consume h2 (drop copy p))"
      using full h1(3) by (simp add: XxHash32_absorb_def Let_def flip: copy_def h1_def h2_def)
    have "t @ p = x32_buf h1 @ drop copy p" by (simp add: b)
    with run have "run_blocks 16 xx32_stripe (xx32_init seed) (bs @ p)
        = run_blocks 16 xx32_stripe (xx32_stripe (xx32_lanes_of h) (x32_buf h1)) (drop copy p)"
      using h1(2) by simp
    moreover have "xx32_stripe (xx32_lanes_of h) (x32_buf h1) = xx32_lanes_of h2"
      using XxHash32_processBlock_stripe [of "x32_buf h1" h1] h1(2,4) by (simp add: h2_def xx32_lanes_of_def)
    ultimately show ?thesis
      unfolding a by (intro XxHash32_finish_rep) (simp_all add: h2_def h1(2,5,6) r)
  qed
qed

lemma XxHash32_Append_rep:
  assumes rep: "xx32_rep seed bs h" and ok: "ValidateSource source len = Inr ()"
    and fits: "source_fits source len"
  shows "\<exists>h'. XxHash32_Append h source len = Inr h' \<and> xx32_rep seed (bs @ source_bytes source len) h'"
proof (cases "len = 0")
  case True
  then show ?thesis using rep ok by (simp add: XxHash32_Append_def)
next
  case False
  then have "0 < len" using ok by (auto simp: ValidateSource_cases split: if_splits)
  then have "of_nat (length bs) + of_int len = (of_nat (length (bs @ source_bytes source len)) :: ulongcs)"
    using source_bytes_length [OF fits] by simp
  with rep have "xx32_rep seed (bs @ source_bytes source len)
      (XxHash32_absorb (h\<lparr>x32_totalLength := x32_totalLength h + of_int len\<rparr>) (source_bytes source len))"
    by (intro XxHash32_absorb_rep) (simp_all add: xx32_rep_def xx32_lanes_of_def)
  then show ?thesis using False ok by (simp add: XxHash32_Append_def)
qed

section \<open>Finalisation\<close>

lemma XxHash32_bytes_foldl:
  "XxHash32_bytes h p = foldl (\<lambda>h x. word_rotl 11 (h + ucast x * 0x165667B1) * 0x9E3779B1) h p"
  by (induction h p rule: XxHash32_bytes.induct) (simp_all add: rotl32_eq XxHash32_primes)

lemma XxHash32_tail_eq:
  "(case XxHash32_words h p of (h', r) \<Rightarrow> XxHash32_bytes h' r) = xx32_tail h p"
proof (induction h p rule: xx32_tail.induct)
  case (1 h a b c d r)
  have "ReadUInt32LittleEndian (a # b # c # d # r) = of_nat (le_value (take 4 (a # b # c # d # r)))"
    using ReadUInt32LittleEndian_value [of "a # b # c # d # r", symmetric] by simp
  then have "XxHash32_words h (a # b # c # d # r) =
      XxHash32_words (word_rotl 17 (h + of_nat (le_value [a, b, c, d]) * 0xC2B2AE3D) * 0x27D4EB2F) r"
    by (subst XxHash32_words.simps) (simp add: rotl32_eq XxHash32_primes)
  with "1.IH" show ?case by simp
qed (subst XxHash32_words.simps, simp add: XxHash32_bytes_foldl)+

lemma XxHash32_hash_spec:
  assumes "xx32_rep seed bs h" and len: "length bs < 2 ^ 64"
  shows "XxHash32_GetCurrentHashAsUInt32 h = xx32_spec seed bs"
proof -
  have r: "x32_seed h = seed" "x32_totalLength h = of_nat (length bs)"
    "run_blocks 16 xx32_stripe (xx32_init seed) bs =
       ((x32_v1 h, x32_v2 h, x32_v3 h, x32_v4 h), take (x32_bufLen h) (x32_buf h))"
    using assms(1) by (auto simp: xx32_rep_def)
  have ge: "(16 \<le> (of_nat (length bs) :: ulongcs)) = (\<not> length bs < 16)"
    using of_nat_word_ge [of "length bs" 16, where ?'a = 64] len by auto
  have cast: "ucast (of_nat (length bs) :: ulongcs) = (of_nat (length bs) :: uintcs)"
  proof -
    have "ucast (of_nat (length bs) :: ulongcs) = (of_nat (unat (of_nat (length bs) :: ulongcs)) :: uintcs)"
      by (simp only: of_nat_unat)
    then show ?thesis using len by (simp add: unsigned_of_nat take_bit_nat_eq_self)
  qed
  show ?thesis
    unfolding XxHash32_GetCurrentHashAsUInt32_def xx32_spec_def Let_def XxHash32_tail_eq XxHash32_avalanche_def
    by (simp add: r ge cast rotl32_eq XxHash32_primes)
qed

interpretation xxhash32: hash_algorithm XxHash32_vtable xx32_rep xx32_digest
proof
  fix source len e s
  assume "ValidateSource source len = Inl e"
  then show "vAppend XxHash32_vtable s source len = Inl e"
    by (simp add: XxHash32_vtable_def XxHash32_Append_def)
next
  fix c bs s source len
  assume "xx32_rep c bs s" and "ValidateSource source len = Inr ()" and "source_fits source len"
  then show "\<exists>s'. vAppend XxHash32_vtable s source len = Inr s' \<and> xx32_rep c (bs @ source_bytes source len) s'"
    by (simp add: XxHash32_vtable_def XxHash32_Append_rep)
next
  fix c bs s
  assume "xx32_rep c bs s"
  then show "xx32_rep c [] (vReset XxHash32_vtable s)"
    by (simp add: XxHash32_vtable_def XxHash32_Reset_def xx32_rep_def XxHash32_initState_def xx32_init_def
        XxHash32_primes)
next
  fix c bs s
  assume "xx32_rep c bs s" and "length bs < 2 ^ 64"
  then show "vGetCurrentHashCore XxHash32_vtable s = xx32_digest c bs"
    by (simp add: XxHash32_vtable_def XxHash32_GetCurrentHashCore_def XxHash32_hash_spec xx32_digest_def
        WriteUInt32BigEndian_def Let_def)
qed (simp_all add: XxHash32_vtable_def XxHash32_GetCurrentHashCore_def GetHashAndResetCore_default_def Let_def)

lemma xx32_rep_ctor: "xx32_rep (word_of_int seed) [] (XxHash32_ctor seed)"
  by (simp add: xx32_rep_def XxHash32_ctor_def XxHash32_initState_def xx32_init_def XxHash32_primes)

lemma xx32_rep_Clone: "xx32_rep c bs h \<Longrightarrow> xx32_rep c bs (XxHash32_Clone h)"
  by (simp add: xx32_rep_def XxHash32_Clone_def)

section \<open>Properties\<close>

text \<open>
  Streaming xxHash32: for every seed and every way of cutting a message into chunks, the object
  fed chunk by chunk (whose partial blocks go through the 16-byte buffer) returns the xxHash32 of
  the concatenation, and so do the one-shot functions.
\<close>

theorem xxhash32_streaming:
  assumes "length (concat chunks) < 2 ^ 64"
  shows "(\<exists>h. AppendAll XxHash32_vtable (XxHash32_ctor seed) chunks = Inr h \<and>
            GetCurrentHash XxHash32_vtable h = WriteUInt32BigEndian (xx32_spec (word_of_int seed) (concat chunks))) \<and>
         XxHash32_HashToUInt32 (Some (concat chunks)) (int (length (concat chunks))) seed =
            Inr (xx32_spec (word_of_int seed) (concat chunks))"
proof
  show "\<exists>h. AppendAll XxHash32_vtable (XxHash32_ctor seed) chunks = Inr h \<and>
      GetCurrentHash XxHash32_vtable h = WriteUInt32BigEndian (xx32_spec (word_of_int seed) (concat chunks))"
    using xxhash32.append_all_hash [OF xx32_rep_ctor assms] by (simp add: xx32_digest_def)
  obtain h where "XxHash32_Append (XxHash32_ctor seed) (Some (concat chunks)) (int (length (concat chunks))) = Inr h"
    "xx32_rep (word_of_int seed) (concat chunks) h"
    using XxHash32_Append_rep [OF xx32_rep_ctor [of seed], of "Some (concat chunks)" "int (length (concat chunks))"]
    by (auto simp: ValidateSource_cases)
  then show "XxHash32_HashToUInt32 (Some (concat chunks)) (int (length (concat chunks))) seed =
            Inr (xx32_spec (word_of_int seed) (concat chunks))"
    using assms by (simp add: XxHash32_HashToUInt32_def XxHash32_hash_spec)
qed

text \<open>The published vector for the 39 bytes of ``Nobody inspects the spammish repetition''.\<close>

text \<open>
  \<^verbatim>\<open>Clone\<close> of an xxHash32 object, which copies only the used part of the buffer, cannot be told
  from the original: fed with any further chunks both return the same hash, that of the bytes
  absorbed before the clone followed by the chunks.
\<close>

lemma xxhash32_clone:
  assumes "AppendAll XxHash32_vtable (XxHash32_ctor seed) before = Inr h"
    and "length (concat before @ concat after) < 2 ^ 64"
  shows "\<exists>h1 h2. AppendAll XxHash32_vtable h after = Inr h1 \<and>
           AppendAll XxHash32_vtable (XxHash32_Clone h) after = Inr h2 \<and>
           GetCurrentHash XxHash32_vtable h1 = GetCurrentHash XxHash32_vtable h2 \<and>
           GetCurrentHash XxHash32_vtable h2 =
             WriteUInt32BigEndian (xx32_spec (word_of_int seed) (concat before @ concat after))"
proof -
  have r: "xx32_rep (word_of_int seed) (concat before) h"
    using xxhash32.append_all_rep [OF xx32_rep_ctor [of seed], of before] assms(1) by auto
  from xxhash32.append_all_rep [OF r, of after] xxhash32.append_all_rep [OF xx32_rep_Clone [OF r], of after]
  show ?thesis
    using assms(2) by (auto simp: GetCurrentHash_def xxhash32.core_digest xx32_digest_def)
qed

end
