(* ===== verification/Hash_XxHash64.thy ===== *)
theory Hash_XxHash64
  imports Block_Buffer
begin

unbundle bit_operations_syntax

text \<open>
  \<^verbatim>\<open>XxHash64.cpp\<close>: four lanes over 32-byte blocks, a partial-block buffer and the running length.
  The reference is xxHash64 of the whole message; an object fed in pieces returns it.
\<close>

section \<open>Model\<close>

definition XxHash64_Prime1 :: ulongcs where "XxHash64_Prime1 = 0x9E3779B185EBCA87"
definition XxHash64_Prime2 :: ulongcs where "XxHash64_Prime2 = 0xC2B2AE3D27D4EB4F"
definition XxHash64_Prime3 :: ulongcs where "XxHash64_Prime3 = 0x165667B19E3779F9"
definition XxHash64_Prime4 :: ulongcs where "XxHash64_Prime4 = 0x85EBCA77C2B2AE63"
definition XxHash64_Prime5 :: ulongcs where "XxHash64_Prime5 = 0x27D4EB2F165667C5"

record XxHash64 =
  x64_seed :: ulongcs
  x64_v1 :: ulongcs
  x64_v2 :: ulongcs
  x64_v3 :: ulongcs
  x64_v4 :: ulongcs
  x64_totalLength :: ulongcs
  x64_buf :: "bytecs list"
  x64_bufLen :: nat

definition rotl64 :: "ulongcs \<Rightarrow> nat \<Rightarrow> ulongcs" where
  "rotl64 v n = push_bit n v OR drop_bit (64 - n) v"

definition XxHash64_round :: "ulongcs \<Rightarrow> ulongcs \<Rightarrow> ulongcs" where
  "XxHash64_round acc input = rotl64 (acc + input * XxHash64_Prime2) 31 * XxHash64_Prime1"

definition mergeAccumulator :: "ulongcs \<Rightarrow> ulongcs \<Rightarrow> ulongcs" where
  "mergeAccumulator h64 acc = (h64 XOR XxHash64_round 0 acc) * XxHash64_Prime1 + XxHash64_Prime4"

definition XxHash64_initState :: "XxHash64 \<Rightarrow> XxHash64" where
  "XxHash64_initState h =
     h\<lparr>x64_v1 := x64_seed h + XxHash64_Prime1 + XxHash64_Prime2,
       x64_v2 := x64_seed h + XxHash64_Prime2,
       x64_v3 := x64_seed h,
       x64_v4 := x64_seed h - XxHash64_Prime1\<rparr>"

text \<open>\<^verbatim>\<open>block + k\<close> is \<open>drop k block\<close>.\<close>

definition XxHash64_processBlock :: "XxHash64 \<Rightarrow> bytecs list \<Rightarrow> XxHash64" where
  "XxHash64_processBlock h block =
     h\<lparr>x64_v1 := XxHash64_round (x64_v1 h) (ReadUInt64LittleEndian block),
       x64_v2 := XxHash64_round (x64_v2 h) (ReadUInt64LittleEndian (drop 8 block)),
       x64_v3 := XxHash64_round (x64_v3 h) (ReadUInt64LittleEndian (drop 16 block)),
       x64_v4 := XxHash64_round (x64_v4 h) (ReadUInt64LittleEndian (drop 24 block))\<rparr>"

text \<open>The seed is cast from \<^verbatim>\<open>intcs\<close>; the fields the constructor does not set have initialisers.\<close>

definition XxHash64_ctor :: "intcs \<Rightarrow> XxHash64" where
  "XxHash64_ctor seed =
     XxHash64_initState
       \<lparr>x64_seed = word_of_int seed, x64_v1 = 0, x64_v2 = 0, x64_v3 = 0, x64_v4 = 0,
        x64_totalLength = 0, x64_buf = replicate 32 0, x64_bufLen = 0\<rparr>"

definition XxHash64_Clone :: "XxHash64 \<Rightarrow> XxHash64" where
  "XxHash64_Clone h =
     \<lparr>x64_seed = x64_seed h, x64_v1 = x64_v1 h, x64_v2 = x64_v2 h, x64_v3 = x64_v3 h, x64_v4 = x64_v4 h,
      x64_totalLength = x64_totalLength h,
      x64_buf = take (x64_bufLen h) (x64_buf h) @ replicate (32 - x64_bufLen h) 0,
      x64_bufLen = x64_bufLen h\<rparr>"

definition XxHash64_Reset :: "XxHash64 \<Rightarrow> XxHash64" where
  "XxHash64_Reset h = XxHash64_initState (h\<lparr>x64_totalLength := 0, x64_bufLen := 0\<rparr>)"

text \<open>\<^verbatim>\<open>while (p + 32 <= end)\<close>; the second component is what lies between \<^verbatim>\<open>p\<close> and \<^verbatim>\<open>end\<close>.\<close>

function XxHash64_consume :: "XxHash64 \<Rightarrow> bytecs list \<Rightarrow> XxHash64 \<times> bytecs list" where
  "XxHash64_consume h p =
     (if 32 \<le> length p then XxHash64_consume (XxHash64_processBlock h p) (drop 32 p) else (h, p))"
  by pat_completeness auto
termination
  by (relation "measure (\<lambda>(h, p). length p)") auto

declare XxHash64_consume.simps [simp del]

definition XxHash64_store_tail :: "XxHash64 \<times> bytecs list \<Rightarrow> XxHash64" where
  "XxHash64_store_tail hp =
     (case hp of (h, p) \<Rightarrow>
        let h' = h\<lparr>x64_bufLen := length p\<rparr>
        in if length p > 0 then h'\<lparr>x64_buf := p @ drop (length p) (x64_buf h')\<rparr> else h')"

text \<open>How many bytes top up a partly filled buffer, and the copy that does it.\<close>

definition XxHash64_copy :: "nat \<Rightarrow> nat \<Rightarrow> nat" where
  "XxHash64_copy bufLen len = (let need = 32 - bufLen in if len < need then len else need)"

definition XxHash64_fill :: "XxHash64 \<Rightarrow> bytecs list \<Rightarrow> nat \<Rightarrow> XxHash64" where
  "XxHash64_fill h p copy =
     h\<lparr>x64_buf := take (x64_bufLen h) (x64_buf h) @ take copy p @ drop (x64_bufLen h + copy) (x64_buf h),
       x64_bufLen := x64_bufLen h + copy\<rparr>"

definition XxHash64_absorb :: "XxHash64 \<Rightarrow> bytecs list \<Rightarrow> XxHash64" where
  "XxHash64_absorb h p =
     (if x64_bufLen h > 0 then
        let copy = XxHash64_copy (x64_bufLen h) (length p);
            h = XxHash64_fill h p copy
        in if x64_bufLen h < 32 then h
           else XxHash64_store_tail (XxHash64_consume
                  ((XxHash64_processBlock h (x64_buf h))\<lparr>x64_bufLen := 0\<rparr>) (drop copy p))
      else XxHash64_store_tail (XxHash64_consume h p))"

definition XxHash64_Append :: "XxHash64 \<Rightarrow> buffer \<Rightarrow> intcs \<Rightarrow> XxHash64 res" where
  "XxHash64_Append h source len =
     bind_res (ValidateSource source len)
       (\<lambda>_. if len = 0 then Inr h
            else Inr (XxHash64_absorb (h\<lparr>x64_totalLength := x64_totalLength h + of_int len\<rparr>)
                        (source_bytes source len)))"

text \<open>
  The steps over the buffered tail: words of eight bytes, at most one of four, single bytes. The
  list is what \<^verbatim>\<open>remaining\<close> counts.
\<close>

fun XxHash64_bytes :: "ulongcs \<Rightarrow> bytecs list \<Rightarrow> ulongcs" where
  "XxHash64_bytes h64 [] = h64"
| "XxHash64_bytes h64 (x # p) =
     XxHash64_bytes (rotl64 (h64 XOR ucast x * XxHash64_Prime5) 11 * XxHash64_Prime1) p"

definition XxHash64_half :: "ulongcs \<times> bytecs list \<Rightarrow> ulongcs \<times> bytecs list" where
  "XxHash64_half hp =
     (case hp of (h64, p) \<Rightarrow>
        if 4 \<le> length p then
          (rotl64 (h64 XOR ucast (ReadUInt32LittleEndian p) * XxHash64_Prime1) 23 * XxHash64_Prime2
             + XxHash64_Prime3, drop 4 p)
        else (h64, p))"

function XxHash64_words :: "ulongcs \<Rightarrow> bytecs list \<Rightarrow> ulongcs \<times> bytecs list" where
  "XxHash64_words h64 p =
     (if 8 \<le> length p then
        XxHash64_words (rotl64 (h64 XOR XxHash64_round 0 (ReadUInt64LittleEndian p)) 27 * XxHash64_Prime1
          + XxHash64_Prime4) (drop 8 p)
      else (h64, p))"
  by pat_completeness auto
termination
  by (relation "measure (\<lambda>(h, p). length p)") auto

declare XxHash64_words.simps [simp del]

definition XxHash64_avalanche :: "ulongcs \<Rightarrow> ulongcs" where
  "XxHash64_avalanche h0 =
     (let h1 = (h0 XOR drop_bit 33 h0) * XxHash64_Prime2;
          h2 = (h1 XOR drop_bit 29 h1) * XxHash64_Prime3
      in h2 XOR drop_bit 32 h2)"

definition XxHash64_GetCurrentHashAsUInt64 :: "XxHash64 \<Rightarrow> ulongcs" where
  "XxHash64_GetCurrentHashAsUInt64 h =
     (let h64 = (if x64_totalLength h \<ge> 32
                 then mergeAccumulator (mergeAccumulator (mergeAccumulator (mergeAccumulator
                        (rotl64 (x64_v1 h) 1 + rotl64 (x64_v2 h) 7 + rotl64 (x64_v3 h) 12 + rotl64 (x64_v4 h) 18)
                        (x64_v1 h)) (x64_v2 h)) (x64_v3 h)) (x64_v4 h)
                 else x64_seed h + XxHash64_Prime5);
          h64 = h64 + x64_totalLength h
      in XxHash64_avalanche
           (case XxHash64_half (XxHash64_words h64 (take (x64_bufLen h) (x64_buf h))) of
              (h64, p) \<Rightarrow> XxHash64_bytes h64 p))"

definition XxHash64_GetCurrentHashCore :: "XxHash64 \<Rightarrow> bytecs list" where
  "XxHash64_GetCurrentHashCore h =
     (let h64 = XxHash64_GetCurrentHashAsUInt64 h in map (\<lambda>i. ucast (drop_bit (56 - 8 * i) h64)) [0..<8])"

definition XxHash64_vtable :: "XxHash64 NonCryptographicHashAlgorithm" where
  "XxHash64_vtable =
     \<lparr>hashLengthInBytes = 8, vAppend = XxHash64_Append, vReset = XxHash64_Reset,
      vGetCurrentHashCore = XxHash64_GetCurrentHashCore,
      vGetHashAndResetCore = GetHashAndResetCore_default XxHash64_GetCurrentHashCore XxHash64_Reset\<rparr>"

definition XxHash64_Hash :: "buffer \<Rightarrow> intcs \<Rightarrow> intcs \<Rightarrow> bytecs list res" where
  "XxHash64_Hash source len seed =
     bind_res (XxHash64_Append (XxHash64_ctor seed) source len)
       (\<lambda>h. Inr (XxHash64_GetCurrentHashCore h))"

definition XxHash64_HashInto ::
  "buffer \<Rightarrow> intcs \<Rightarrow> buffer \<Rightarrow> intcs \<Rightarrow> intcs \<Rightarrow> (intcs \<times> buffer) res" where
  "XxHash64_HashInto source len destination destinationLength seed =
     bind_res (ValidateDestination destination destinationLength 8)
       (\<lambda>_. bind_res (XxHash64_Append (XxHash64_ctor seed) source len)
          (\<lambda>h. Inr (8, write_front destination (XxHash64_GetCurrentHashCore h))))"

definition XxHash64_TryHash ::
  "buffer \<Rightarrow> intcs \<Rightarrow> buffer \<Rightarrow> intcs \<Rightarrow> intcs \<Rightarrow> (bool \<times> intcs \<times> buffer) res" where
  "XxHash64_TryHash source len destination destinationLength seed =
     bind_res (TryValidateDestination destination destinationLength 8)
       (\<lambda>ok. if \<not> ok then Inr (False, 0, destination)
             else bind_res (XxHash64_Append (XxHash64_ctor seed) source len)
               (\<lambda>h. Inr (True, 8, write_front destination (XxHash64_GetCurrentHashCore h))))"

definition XxHash64_HashToUInt64 :: "buffer \<Rightarrow> intcs \<Rightarrow> intcs \<Rightarrow> ulongcs res" where
  "XxHash64_HashToUInt64 source len seed =
     bind_res (XxHash64_Append (XxHash64_ctor seed) source len)
       (\<lambda>h. Inr (XxHash64_GetCurrentHashAsUInt64 h))"

section \<open>Specification: xxHash64 of a whole message\<close>

type_synonym xx64_lanes = "ulongcs \<times> ulongcs \<times> ulongcs \<times> ulongcs"

definition xx64_lane :: "nat \<Rightarrow> bytecs list \<Rightarrow> ulongcs" where
  "xx64_lane i bs = of_nat (le_value (take 8 (drop (8 * i) bs)))"

definition xx64_round :: "ulongcs \<Rightarrow> ulongcs \<Rightarrow> ulongcs" where
  "xx64_round acc input = word_rotl 31 (acc + input * 0xC2B2AE3D27D4EB4F) * 0x9E3779B185EBCA87"

definition xx64_merge :: "ulongcs \<Rightarrow> ulongcs \<Rightarrow> ulongcs" where
  "xx64_merge acc v = (acc XOR xx64_round 0 v) * 0x9E3779B185EBCA87 + 0x85EBCA77C2B2AE63"

definition xx64_stripe :: "xx64_lanes \<Rightarrow> bytecs list \<Rightarrow> xx64_lanes" where
  "xx64_stripe l bs =
     (case l of (a, b, c, d) \<Rightarrow>
        (xx64_round a (xx64_lane 0 bs), xx64_round b (xx64_lane 1 bs),
         xx64_round c (xx64_lane 2 bs), xx64_round d (xx64_lane 3 bs)))"

definition xx64_init :: "ulongcs \<Rightarrow> xx64_lanes" where
  "xx64_init seed =
     (seed + 0x9E3779B185EBCA87 + 0xC2B2AE3D27D4EB4F, seed + 0xC2B2AE3D27D4EB4F, seed, seed - 0x9E3779B185EBCA87)"

definition xx64_tail_bytes :: "ulongcs \<Rightarrow> bytecs list \<Rightarrow> ulongcs" where
  "xx64_tail_bytes h r =
     foldl (\<lambda>h x. word_rotl 11 (h XOR ucast x * 0x27D4EB2F165667C5) * 0x9E3779B185EBCA87) h r"

fun xx64_tail :: "ulongcs \<Rightarrow> bytecs list \<Rightarrow> ulongcs" where
  "xx64_tail h (a # b # c # d # e # f # g # i # r) =
     xx64_tail (word_rotl 27 (h XOR xx64_round 0 (of_nat (le_value [a, b, c, d, e, f, g, i])))
       * 0x9E3779B185EBCA87 + 0x85EBCA77C2B2AE63) r"
| "xx64_tail h r =
     (if length r < 4 then xx64_tail_bytes h r
      else xx64_tail_bytes (word_rotl 23 (h XOR of_nat (le_value (take 4 r)) * 0x9E3779B185EBCA87)
             * 0xC2B2AE3D27D4EB4F + 0x165667B19E3779F9) (drop 4 r))"

definition xx64_spec :: "ulongcs \<Rightarrow> bytecs list \<Rightarrow> ulongcs" where
  "xx64_spec seed bs =
     (case run_blocks 32 xx64_stripe (xx64_init seed) bs of
        ((a, b, c, d), t) \<Rightarrow>
          let acc = (if length bs < 32 then seed + 0x27D4EB2F165667C5
                     else foldl xx64_merge (word_rotl 1 a + word_rotl 7 b + word_rotl 12 c + word_rotl 18 d)
                            [a, b, c, d]);
              h0 = xx64_tail (acc + of_nat (length bs)) t;
              h1 = (h0 XOR drop_bit 33 h0) * 0xC2B2AE3D27D4EB4F;
              h2 = (h1 XOR drop_bit 29 h1) * 0x165667B19E3779F9
          in h2 XOR drop_bit 32 h2)"

definition WriteUInt64BigEndian_bytes :: "ulongcs \<Rightarrow> bytecs list" where
  "WriteUInt64BigEndian_bytes v = rev (WriteUInt64LittleEndian v)"

definition xx64_digest :: "ulongcs \<Rightarrow> bytecs list \<Rightarrow> bytecs list" where
  "xx64_digest seed bs = WriteUInt64BigEndian_bytes (xx64_spec seed bs)"

text \<open>The states an object with this seed is in once it has absorbed \<open>bs\<close>.\<close>

definition xx64_rep :: "ulongcs \<Rightarrow> bytecs list \<Rightarrow> XxHash64 \<Rightarrow> bool" where
  "xx64_rep seed bs h \<longleftrightarrow>
     x64_seed h = seed \<and> x64_totalLength h = of_nat (length bs) \<and>
     length (x64_buf h) = 32 \<and> x64_bufLen h < 32 \<and>
     run_blocks 32 xx64_stripe (xx64_init seed) bs =
       ((x64_v1 h, x64_v2 h, x64_v3 h, x64_v4 h), take (x64_bufLen h) (x64_buf h))"

definition xx64_lanes_of :: "XxHash64 \<Rightarrow> xx64_lanes" where
  "xx64_lanes_of h = (x64_v1 h, x64_v2 h, x64_v3 h, x64_v4 h)"

section \<open>Blocks\<close>

lemmas XxHash64_primes = XxHash64_Prime1_def XxHash64_Prime2_def XxHash64_Prime3_def
  XxHash64_Prime4_def XxHash64_Prime5_def

lemma rotl64_eq: "0 < n \<Longrightarrow> n < 64 \<Longrightarrow> rotl64 v n = word_rotl n v"
  using rotl_shifts [of n v] by (simp add: rotl64_def)

lemma XxHash64_round_eq: "XxHash64_round = xx64_round"
  by (simp add: fun_eq_iff XxHash64_round_def xx64_round_def rotl64_eq XxHash64_primes)

lemma ReadUInt64_lane:
  assumes "8 * i + 8 \<le> length p"
  shows "ReadUInt64LittleEndian (drop (8 * i) p) = xx64_lane i p"
proof -
  have "8 \<le> length (drop (8 * i) p)" using assms by simp
  then show ?thesis by (simp add: xx64_lane_def flip: ReadUInt64LittleEndian_value)
qed

lemma xx64_lane_take: "i < 4 \<Longrightarrow> xx64_lane i (take 32 p) = xx64_lane i p"
  by (auto simp: xx64_lane_def drop_take min_def)

lemma XxHash64_processBlock_stripe:
  assumes "32 \<le> length p"
  shows "xx64_lanes_of (XxHash64_processBlock h p) = xx64_stripe (xx64_lanes_of h) (take 32 p)"
  using assms ReadUInt64_lane [of 0 p] ReadUInt64_lane [of 1 p] ReadUInt64_lane [of 2 p] ReadUInt64_lane [of 3 p]
  by (simp add: xx64_lanes_of_def XxHash64_processBlock_def xx64_stripe_def XxHash64_round_eq xx64_lane_take)

lemma XxHash64_processBlock_frame [simp]:
  "x64_seed (XxHash64_processBlock h p) = x64_seed h"
  "x64_totalLength (XxHash64_processBlock h p) = x64_totalLength h"
  "x64_buf (XxHash64_processBlock h p) = x64_buf h"
  "x64_bufLen (XxHash64_processBlock h p) = x64_bufLen h"
  by (simp_all add: XxHash64_processBlock_def)

lemma XxHash64_consume_run:
  "case XxHash64_consume h p of (h', t) \<Rightarrow>
     run_blocks 32 xx64_stripe (xx64_lanes_of h) p = (xx64_lanes_of h', t) \<and>
     x64_seed h' = x64_seed h \<and> x64_totalLength h' = x64_totalLength h \<and> x64_buf h' = x64_buf h"
proof (induction h p rule: XxHash64_consume.induct)
  case (1 h p)
  show ?case
  proof (cases "32 \<le> length p")
    case True
    have "run_blocks 32 xx64_stripe (xx64_lanes_of h) p
        = run_blocks 32 xx64_stripe (xx64_lanes_of (XxHash64_processBlock h p)) (drop 32 p)"
      using True by (subst run_blocks.simps) (simp add: XxHash64_processBlock_stripe)
    with "1.IH" [OF True] True show ?thesis
      by (subst XxHash64_consume.simps) simp
  next
    case False
    then show ?thesis by (subst XxHash64_consume.simps) simp
  qed
qed

text \<open>The last part of \<^verbatim>\<open>Append\<close>: all whole blocks, then the tail into the buffer.\<close>

lemma XxHash64_finish_rep:
  assumes "run_blocks 32 xx64_stripe (xx64_init seed) bs = run_blocks 32 xx64_stripe (xx64_lanes_of h) p"
    and "x64_seed h = seed" and "x64_totalLength h = of_nat (length bs)" and "length (x64_buf h) = 32"
  shows "xx64_rep seed bs (XxHash64_store_tail (XxHash64_consume h p))"
proof -
  obtain h' t where c: "XxHash64_consume h p = (h', t)" by fastforce
  have r: "run_blocks 32 xx64_stripe (xx64_lanes_of h) p = (xx64_lanes_of h', t)"
    and f: "x64_seed h' = x64_seed h" "x64_totalLength h' = x64_totalLength h" "x64_buf h' = x64_buf h"
    using XxHash64_consume_run [of h p] c by auto
  have "length t < 32"
    using run_blocks_tail [of 32 xx64_stripe "xx64_lanes_of h" p] r by simp
  with assms r f c show ?thesis
    by (auto simp: xx64_rep_def XxHash64_store_tail_def xx64_lanes_of_def Let_def)
qed

section \<open>The class implements the specification\<close>

text \<open>
  One append with the running length already advanced: \<open>h\<close> has the lanes and the buffer after \<open>bs\<close>
  and is told of \<open>p\<close>.
\<close>

lemma XxHash64_absorb_rep:
  assumes r: "x64_seed h = seed" "x64_totalLength h = of_nat (length (bs @ p))" "length (x64_buf h) = 32"
    "x64_bufLen h < 32" "run_blocks 32 xx64_stripe (xx64_init seed) bs =
       (xx64_lanes_of h, take (x64_bufLen h) (x64_buf h))"
  shows "xx64_rep seed (bs @ p) (XxHash64_absorb h p)"
proof -
  define t where "t = take (x64_bufLen h) (x64_buf h)"
  have run: "run_blocks 32 xx64_stripe (xx64_init seed) (bs @ p)
      = run_blocks 32 xx64_stripe (xx64_lanes_of h) (t @ p)"
    using r(5) by (simp add: run_blocks_append [of _ _ _ bs] t_def)
  define copy where "copy = XxHash64_copy (x64_bufLen h) (length p)"
  define h1 where "h1 = XxHash64_fill h p copy"
  define h2 where "h2 = (XxHash64_processBlock h1 (x64_buf h1))\<lparr>x64_bufLen := 0\<rparr>"
  have cp: "copy \<le> length p" "x64_bufLen h + copy \<le> 32" "x64_bufLen h + copy < 32 \<Longrightarrow> copy = length p"
    using r(4) by (auto simp: copy_def XxHash64_copy_def Let_def)
  have lt: "length t = x64_bufLen h" using r by (simp add: t_def)
  have h1: "x64_buf h1 = t @ take copy p @ drop (x64_bufLen h + copy) (x64_buf h)"
    "length (x64_buf h1) = 32" "x64_bufLen h1 = x64_bufLen h + copy" "xx64_lanes_of h1 = xx64_lanes_of h"
    "x64_seed h1 = x64_seed h" "x64_totalLength h1 = x64_totalLength h"
    using cp lt r by (simp_all add: h1_def XxHash64_fill_def t_def xx64_lanes_of_def)
  consider (empty) "x64_bufLen h = 0" | (part) "0 < x64_bufLen h" "x64_bufLen h + copy < 32"
    | (full) "0 < x64_bufLen h" "x64_bufLen h + copy = 32" using cp(2) by linarith
  then show ?thesis
  proof cases
    case empty
    then show ?thesis
      using r run by (simp add: XxHash64_absorb_def XxHash64_finish_rep t_def)
  next
    case part
    then have "XxHash64_absorb h p = h1"
      using h1(3) by (simp add: XxHash64_absorb_def Let_def flip: copy_def h1_def)
    then show ?thesis
      using part h1 r lt cp(3) [OF part(2)] run by (simp add: xx64_rep_def flip: xx64_lanes_of_def)
  next
    case full
    have b: "x64_buf h1 = t @ take copy p" using h1(1) full(2) r(3) by simp
    have a: "XxHash64_absorb h p = XxHash64_store_tail (XxHash64_consume h2 (drop copy p))"
      using full h1(3) by (simp add: XxHash64_absorb_def Let_def flip: copy_def h1_def h2_def)
    have "t @ p = x64_buf h1 @ drop copy p" by (simp add: b)
    with run have "run_blocks 32 xx64_stripe (xx64_init seed) (bs @ p)
        = run_blocks 32 xx64_stripe (xx64_stripe (xx64_lanes_of h) (x64_buf h1)) (drop copy p)"
      using h1(2) by simp
    moreover have "xx64_stripe (xx64_lanes_of h) (x64_buf h1) = xx64_lanes_of h2"
      using XxHash64_processBlock_stripe [of "x64_buf h1" h1] h1(2,4) by (simp add: h2_def xx64_lanes_of_def)
    ultimately show ?thesis
      unfolding a by (intro XxHash64_finish_rep) (simp_all add: h2_def h1(2,5,6) r)
  qed
qed

lemma XxHash64_Append_rep:
  assumes rep: "xx64_rep seed bs h" and ok: "ValidateSource source len = Inr ()"
    and fits: "source_fits source len"
  shows "\<exists>h'. XxHash64_Append h source len = Inr h' \<and> xx64_rep seed (bs @ source_bytes source len) h'"
proof (cases "len = 0")
  case True
  then show ?thesis using rep ok by (simp add: XxHash64_Append_def)
next
  case False
  then have "0 < len" using ok by (auto simp: ValidateSource_cases split: if_splits)
  then have "of_nat (length bs) + of_int len = (of_nat (length (bs @ source_bytes source len)) :: ulongcs)"
    using source_bytes_length [OF fits] by simp
  with rep have "xx64_rep seed (bs @ source_bytes source len)
      (XxHash64_absorb (h\<lparr>x64_totalLength := x64_totalLength h + of_int len\<rparr>) (source_bytes source len))"
    by (intro XxHash64_absorb_rep) (simp_all add: xx64_rep_def xx64_lanes_of_def)
  then show ?thesis using False ok by (simp add: XxHash64_Append_def)
qed

section \<open>Finalisation\<close>

lemma XxHash64_bytes_foldl: "XxHash64_bytes h p = xx64_tail_bytes h p"
  by (induction h p rule: XxHash64_bytes.induct) (simp_all add: xx64_tail_bytes_def rotl64_eq XxHash64_primes)

lemma XxHash64_half_eq:
  assumes "length p < 8"
  shows "(case XxHash64_half (h, p) of (h', r) \<Rightarrow> XxHash64_bytes h' r) =
     (if length p < 4 then xx64_tail_bytes h p
      else xx64_tail_bytes (word_rotl 23 (h XOR of_nat (le_value (take 4 p)) * 0x9E3779B185EBCA87)
             * 0xC2B2AE3D27D4EB4F + 0x165667B19E3779F9) (drop 4 p))"
proof (cases "length p < 4")
  case True
  then show ?thesis by (simp add: XxHash64_half_def XxHash64_bytes_foldl)
next
  case False
  then have "(ucast (ReadUInt32LittleEndian p) :: ulongcs) = of_nat (le_value (take 4 p))"
    using ReadUInt32LittleEndian_value [of p, symmetric] by simp
  with False show ?thesis
    by (simp add: XxHash64_half_def XxHash64_bytes_foldl rotl64_eq XxHash64_primes)
qed

lemma XxHash64_tail_eq:
  "(case XxHash64_half (XxHash64_words h p) of (h', r) \<Rightarrow> XxHash64_bytes h' r) = xx64_tail h p"
proof (induction h p rule: xx64_tail.induct)
  case (1 h a b c d e f g i r)
  let ?p = "a # b # c # d # e # f # g # i # r"
  have "ReadUInt64LittleEndian ?p = of_nat (le_value (take 8 ?p))"
    using ReadUInt64LittleEndian_value [of ?p, symmetric] by simp
  then have "XxHash64_words h ?p =
      XxHash64_words (word_rotl 27 (h XOR xx64_round 0 (of_nat (le_value [a, b, c, d, e, f, g, i])))
       * 0x9E3779B185EBCA87 + 0x85EBCA77C2B2AE63) r"
    by (subst XxHash64_words.simps) (simp add: rotl64_eq XxHash64_round_eq XxHash64_primes)
  with "1.IH" show ?case by simp
qed (subst XxHash64_words.simps, simp add: XxHash64_half_eq del: le_value.simps)+

lemma XxHash64_hash_spec:
  assumes "xx64_rep seed bs h" and len: "length bs < 2 ^ 64"
  shows "XxHash64_GetCurrentHashAsUInt64 h = xx64_spec seed bs"
proof -
  have r: "x64_seed h = seed" "x64_totalLength h = of_nat (length bs)"
    "run_blocks 32 xx64_stripe (xx64_init seed) bs =
       ((x64_v1 h, x64_v2 h, x64_v3 h, x64_v4 h), take (x64_bufLen h) (x64_buf h))"
    using assms(1) by (auto simp: xx64_rep_def)
  have ge: "(32 \<le> (of_nat (length bs) :: ulongcs)) = (\<not> length bs < 32)"
    using of_nat_word_ge [of "length bs" 32, where ?'a = 64] len by auto
  show ?thesis
    unfolding XxHash64_GetCurrentHashAsUInt64_def xx64_spec_def Let_def XxHash64_tail_eq XxHash64_avalanche_def
    by (simp add: r ge rotl64_eq XxHash64_primes mergeAccumulator_def xx64_merge_def XxHash64_round_eq)
qed

lemma XxHash64_bytes_rev:
  "map (\<lambda>i. ucast (drop_bit (56 - 8 * i) v)) [0..<8] = WriteUInt64BigEndian_bytes v"
  by (simp add: WriteUInt64BigEndian_bytes_def WriteUInt64LittleEndian_def upt_rec)

interpretation xxhash64: hash_algorithm XxHash64_vtable xx64_rep xx64_digest
proof
  fix source len e s
  assume "ValidateSource source len = Inl e"
  then show "vAppend XxHash64_vtable s source len = Inl e"
    by (simp add: XxHash64_vtable_def XxHash64_Append_def)
next
  fix c bs s source len
  assume "xx64_rep c bs s" and "ValidateSource source len = Inr ()" and "source_fits source len"
  then show "\<exists>s'. vAppend XxHash64_vtable s source len = Inr s' \<and> xx64_rep c (bs @ source_bytes source len) s'"
    by (simp add: XxHash64_vtable_def XxHash64_Append_rep)
next
  fix c bs s
  assume "xx64_rep c bs s"
  then show "xx64_rep c [] (vReset XxHash64_vtable s)"
    by (simp add: XxHash64_vtable_def XxHash64_Reset_def xx64_rep_def XxHash64_initState_def xx64_init_def
        XxHash64_primes)
next
  fix c bs s
  assume "xx64_rep c bs s" and "length bs < 2 ^ 64"
  then show "vGetCurrentHashCore XxHash64_vtable s = xx64_digest c bs"
    by (simp add: XxHash64_vtable_def XxHash64_GetCurrentHashCore_def XxHash64_hash_spec xx64_digest_def
        XxHash64_bytes_rev Let_def)
qed (simp_all add: XxHash64_vtable_def XxHash64_GetCurrentHashCore_def GetHashAndResetCore_default_def Let_def)

lemma xx64_rep_ctor: "xx64_rep (word_of_int seed) [] (XxHash64_ctor seed)"
  by (simp add: xx64_rep_def XxHash64_ctor_def XxHash64_initState_def xx64_init_def XxHash64_primes)

lemma xx64_rep_Clone: "xx64_rep c bs h \<Longrightarrow> xx64_rep c bs (XxHash64_Clone h)"
  by (simp add: xx64_rep_def XxHash64_Clone_def)

section \<open>Properties\<close>

text \<open>
  C27. Streaming xxHash64: for every seed and every way of cutting a message into chunks, the object
  fed chunk by chunk (whose partial blocks go through the 32-byte buffer) returns the xxHash64 of
  the concatenation, and so do the one-shot functions.
\<close>

theorem xxhash64_streaming:
  assumes "length (concat chunks) < 2 ^ 64"
  shows "(\<exists>h. AppendAll XxHash64_vtable (XxHash64_ctor seed) chunks = Inr h \<and>
            GetCurrentHash XxHash64_vtable h = WriteUInt64BigEndian_bytes (xx64_spec (word_of_int seed) (concat chunks))) \<and>
         XxHash64_HashToUInt64 (Some (concat chunks)) (int (length (concat chunks))) seed =
            Inr (xx64_spec (word_of_int seed) (concat chunks))"
proof
  show "\<exists>h. AppendAll XxHash64_vtable (XxHash64_ctor seed) chunks = Inr h \<and>
      GetCurrentHash XxHash64_vtable h = WriteUInt64BigEndian_bytes (xx64_spec (word_of_int seed) (concat chunks))"
    using xxhash64.append_all_hash [OF xx64_rep_ctor assms] by (simp add: xx64_digest_def)
  obtain h where "XxHash64_Append (XxHash64_ctor seed) (Some (concat chunks)) (int (length (concat chunks))) = Inr h"
    "xx64_rep (word_of_int seed) (concat chunks) h"
    using XxHash64_Append_rep [OF xx64_rep_ctor [of seed], of "Some (concat chunks)" "int (length (concat chunks))"]
    by (auto simp: ValidateSource_cases)
  then show "XxHash64_HashToUInt64 (Some (concat chunks)) (int (length (concat chunks))) seed =
            Inr (xx64_spec (word_of_int seed) (concat chunks))"
    using assms by (simp add: XxHash64_HashToUInt64_def XxHash64_hash_spec)
qed

text \<open>The published vector for the 39 bytes of ``Nobody inspects the spammish repetition''.\<close>

theorem xxhash64_streaming_witness:
  "XxHash64_HashToUInt64 (Some [78, 111, 98, 111, 100, 121, 32, 105, 110, 115, 112, 101, 99, 116, 115, 32,
     116, 104, 101, 32, 115, 112, 97, 109, 109, 105, 115, 104, 32, 114, 101, 112, 101, 116, 105, 116, 105, 111, 110])
     39 0 = Inr 0xFBCEA83C8A378BF1"
proof -
  let ?m = "[78, 111, 98, 111, 100, 121, 32, 105, 110, 115, 112, 101, 99, 116, 115, 32,
     116, 104, 101, 32, 115, 112, 97, 109, 109, 105, 115, 104, 32, 114, 101, 112, 101, 116, 105, 116, 105, 111, 110] :: bytecs list"
  let ?a = "0x37245127a4067e4b" let ?b = "0x1b302b0a818f92cf" let ?c = "0xcd62d843d0580fca" let ?d = "0x1c16e43ef2142a4a"
  note eval = xx64_round_def rotl64_eq [symmetric] rotl64_def
  have stripe: "xx64_stripe (xx64_init 0) (take 32 ?m) = (?a, ?b, ?c, ?d)"
    by (simp add: xx64_stripe_def xx64_init_def xx64_lane_def eval)
  have m1: "xx64_merge (word_rotl 1 ?a + word_rotl 7 ?b + word_rotl 12 ?c + word_rotl 18 ?d) ?a = 0x30d40ddd00aea144"
    by (simp add: xx64_merge_def eval)
  have m2: "xx64_merge 0x30d40ddd00aea144 ?b = 0xe5a1f095bf498698"
    by (simp add: xx64_merge_def eval)
  have m3: "xx64_merge 0xe5a1f095bf498698 ?c = 0xf9cee721e748096d"
    by (simp add: xx64_merge_def eval)
  have m4: "xx64_merge 0xf9cee721e748096d ?d = 0x84f22c421a11a8b5"
    by (simp add: xx64_merge_def eval)
  have tail: "xx64_tail 9579768019787294940 [101, 116, 105, 116, 105, 111, 110] = 0x1d0a47483b37cc24"
    by (simp add: xx64_tail_bytes_def eval)
  have "run_blocks 32 xx64_stripe (xx64_init 0) ?m
      = run_blocks 32 xx64_stripe (xx64_stripe (xx64_init 0) (take 32 ?m)) (drop 32 ?m)"
    by (subst run_blocks.simps) simp
  then have "run_blocks 32 xx64_stripe (xx64_init 0) ?m = ((?a, ?b, ?c, ?d), [101, 116, 105, 116, 105, 111, 110])"
    by (simp only: stripe) simp
  then have "xx64_spec 0 ?m = 0xFBCEA83C8A378BF1"
    by (simp add: xx64_spec_def Let_def m1 [simplified] m2 m3 m4 tail del: xx64_tail.simps)
  then show ?thesis
    using xxhash64_streaming [of "[?m]" 0] by simp
qed

text \<open>
  \<^verbatim>\<open>Clone\<close> of an xxHash64 object, which copies only the used part of the buffer, cannot be told
  from the original: fed with any further chunks both return the same hash, that of the bytes
  absorbed before the clone followed by the chunks.
\<close>

lemma xxhash64_clone:
  assumes "AppendAll XxHash64_vtable (XxHash64_ctor seed) before = Inr h"
    and "length (concat before @ concat after) < 2 ^ 64"
  shows "\<exists>h1 h2. AppendAll XxHash64_vtable h after = Inr h1 \<and>
           AppendAll XxHash64_vtable (XxHash64_Clone h) after = Inr h2 \<and>
           GetCurrentHash XxHash64_vtable h1 = GetCurrentHash XxHash64_vtable h2 \<and>
           GetCurrentHash XxHash64_vtable h2 =
             WriteUInt64BigEndian_bytes (xx64_spec (word_of_int seed) (concat before @ concat after))"
proof -
  have r: "xx64_rep (word_of_int seed) (concat before) h"
    using xxhash64.append_all_rep [OF xx64_rep_ctor [of seed], of before] assms(1) by auto
  from xxhash64.append_all_rep [OF r, of after] xxhash64.append_all_rep [OF xx64_rep_Clone [OF r], of after]
  show ?thesis
    using assms(2) by (auto simp: GetCurrentHash_def xxhash64.core_digest xx64_digest_def)
qed

end
