(* ===== verification/Coll_Enumeration.thy ===== *)
theory Coll_Enumeration
  imports SR_Prelude
begin

text \<open>
  The machinery behind every fail-fast enumerator: \<^verbatim>\<open>MutationCounter.hpp\<close> (a 64-bit counter that
  wraps), \<^verbatim>\<open>EnumeratorState\<close> and \<^verbatim>\<open>requireUnmodified\<close> of \<^verbatim>\<open>IEnumerator.hpp\<close>, and two contracts: what
  a cursor over an unmodified collection delivers, and what mutations do to outstanding cursors.
\<close>

section \<open>Model\<close>

text \<open>\<^verbatim>\<open>MutationCounter\<close> and \<^verbatim>\<open>MutationVersion\<close>: unsigned 64-bit, so the increment wraps.\<close>

type_synonym MutationVersion = ulongcs

definition counter_advance :: "MutationVersion \<Rightarrow> MutationVersion" where
  "counter_advance v = v + 1"

text \<open>Assignment advances the destination's counter and ignores the source's.\<close>

definition counter_assign :: "MutationVersion \<Rightarrow> MutationVersion \<Rightarrow> MutationVersion" where
  "counter_assign v other = v + 1"

datatype Position = BeforeFirst | OnCurrent | AfterLast

definition isAfterLast :: "Position \<Rightarrow> bool" where
  "isAfterLast p \<longleftrightarrow> p = AfterLast"

definition requireCurrent :: "Position \<Rightarrow> unit res" where
  "requireCurrent p =
     (case p of
        BeforeFirst \<Rightarrow> Inl (InvalidOperationException ''Enumeration has not started. Call MoveNext.'')
      | AfterLast \<Rightarrow> Inl (InvalidOperationException ''Enumeration already finished.'')
      | OnCurrent \<Rightarrow> Inr ())"

definition CollectionModified :: exn where
  "CollectionModified =
     InvalidOperationException ''Collection was modified; enumeration operation may not execute.''"

definition requireUnmodified :: "bool \<Rightarrow> unit res" where
  "requireUnmodified unmodified = (if \<not> unmodified then Inl CollectionModified else Inr ())"

text \<open>The fields of the enumerator classes, apart from the pointer to their collection.\<close>

record enumerator =
  en_version :: MutationVersion
  en_index :: intcs
  en_state :: Position

section \<open>Driving an enumerator\<close>

text \<open>
  \<^verbatim>\<open>while (e.MoveNext()) out.push_back(e.Current());\<close> with a bound on the number of rounds: \<open>None\<close>
  means the bound was reached.
\<close>

fun drive ::
  "nat \<Rightarrow> ('e \<Rightarrow> (bool \<times> 'e) res) \<Rightarrow> ('e \<Rightarrow> 'a res) \<Rightarrow> 'e \<Rightarrow> 'a list res option"
where
  "drive 0 move cur e = None"
| "drive (Suc n) move cur e =
     (case move e of
        Inl x \<Rightarrow> Some (Inl x)
      | Inr (False, e') \<Rightarrow> Some (Inr [])
      | Inr (True, e') \<Rightarrow>
          (case cur e' of
             Inl x \<Rightarrow> Some (Inl x)
           | Inr a \<Rightarrow> map_option (\<lambda>r. bind_res r (\<lambda>xs. Inr (a # xs))) (drive n move cur e')))"

section \<open>Contract of a cursor\<close>

text \<open>
  \<open>at c e k\<close>: the enumerator \<open>e\<close>, created over the collection \<open>c\<close>, has delivered \<open>k\<close> elements and
  has not run off the end; \<open>finished c e\<close>: it has. \<open>snap\<close> is the version the enumerator was created
  with, and \<open>ok c\<close> the invariant of the collection.
\<close>

locale cursor =
  fixes ok :: "'c \<Rightarrow> bool"
    and elems :: "'c \<Rightarrow> 'a list"
    and ver :: "'c \<Rightarrow> MutationVersion"
    and snap :: "'e \<Rightarrow> MutationVersion"
    and start :: "'c \<Rightarrow> 'e"
    and move :: "'c \<Rightarrow> 'e \<Rightarrow> (bool \<times> 'e) res"
    and cur :: "'c \<Rightarrow> 'e \<Rightarrow> 'a res"
    and at :: "'c \<Rightarrow> 'e \<Rightarrow> nat \<Rightarrow> bool"
    and finished :: "'c \<Rightarrow> 'e \<Rightarrow> bool"
  assumes start_version: "snap (start c) = ver c"
    and start_at: "ok c \<Longrightarrow> at c (start c) 0"
    and move_modified: "snap e \<noteq> ver c \<Longrightarrow> move c e = Inl CollectionModified"
    and move_more: "at c e k \<Longrightarrow> k < length (elems c) \<Longrightarrow>
          \<exists>e'. move c e = Inr (True, e') \<and> at c e' (Suc k) \<and> cur c e' = Inr (elems c ! k)"
    and move_end: "at c e k \<Longrightarrow> k = length (elems c) \<Longrightarrow> \<exists>e'. move c e = Inr (False, e') \<and> finished c e'"
    and move_finished: "finished c e \<Longrightarrow> \<exists>e'. move c e = Inr (False, e') \<and> finished c e'"
    and cur_finished: "finished c e \<Longrightarrow> \<exists>m. cur c e = Inl (InvalidOperationException m)"
    and cur_start: "\<exists>m. cur c (start c) = Inl (InvalidOperationException m)"
begin

lemma drive_from:
  "at c e k \<Longrightarrow> k \<le> length (elems c) \<Longrightarrow> length (elems c) - k < n \<Longrightarrow>
   drive n (move c) (cur c) e = Some (Inr (drop k (elems c)))"
proof (induction n arbitrary: e k)
  case 0
  then show ?case by simp
next
  case (Suc n)
  show ?case
  proof (cases "k < length (elems c)")
    case True
    from move_more [OF Suc.prems(1) True] obtain e' where e':
      "move c e = Inr (True, e')" "at c e' (Suc k)" "cur c e' = Inr (elems c ! k)"
      by blast
    with Suc.IH [OF e'(2)] Suc.prems True show ?thesis
      by (simp add: Cons_nth_drop_Suc)
  next
    case False
    with Suc.prems have "k = length (elems c)" by simp
    with move_end [OF Suc.prems(1) this] show ?thesis by auto
  qed
qed

text \<open>A fresh enumerator delivers every element once, in order, and stops.\<close>

lemma drive_all:
  "ok c \<Longrightarrow> length (elems c) < n \<Longrightarrow> drive n (move c) (cur c) (start c) = Some (Inr (elems c))"
  using drive_from [OF start_at, of c n] by simp

end

section \<open>Contract of mutation\<close>

text \<open>
  \<open>bumps op c\<close> is how often the operation advances the counter of \<open>c\<close>: an operation that does not
  advance it leaves the elements alone, so an outstanding cursor may stay valid.
\<close>

primrec total_bumps :: "('op \<Rightarrow> 'c \<Rightarrow> 'c) \<Rightarrow> ('op \<Rightarrow> 'c \<Rightarrow> nat) \<Rightarrow> 'op list \<Rightarrow> 'c \<Rightarrow> nat" where
  "total_bumps step bumps [] c = 0"
| "total_bumps step bumps (op # ops) c = bumps op c + total_bumps step bumps ops (step op c)"

locale versioned =
  fixes elems :: "'c \<Rightarrow> 'a list"
    and ver :: "'c \<Rightarrow> MutationVersion"
    and step :: "'op \<Rightarrow> 'c \<Rightarrow> 'c"
    and bumps :: "'op \<Rightarrow> 'c \<Rightarrow> nat"
  assumes step_version: "ver (step op c) = ver c + of_nat (bumps op c)"
    and step_silent: "bumps op c = 0 \<Longrightarrow> elems (step op c) = elems c"
begin

lemma run_version: "ver (fold step ops c) = ver c + of_nat (total_bumps step bumps ops c)"
  by (induction ops arbitrary: c) (simp_all add: step_version ac_simps)

lemma run_silent: "total_bumps step bumps ops c = 0 \<Longrightarrow> elems (fold step ops c) = elems c"
  by (induction ops arbitrary: c) (simp_all add: step_silent)

text \<open>
  Within fewer than \<open>2\<^sup>6\<^sup>4\<close> effective mutations the counter tells a modified collection from an
  unmodified one: equal snapshots mean no effective mutation, and so the same elements.
\<close>

lemma version_detects:
  assumes "total_bumps step bumps ops c < 2 ^ 64"
  shows "ver (fold step ops c) = ver c \<longleftrightarrow> total_bumps step bumps ops c = 0"
proof
  assume "ver (fold step ops c) = ver c"
  then have "(of_nat (total_bumps step bumps ops c) :: ulongcs) = 0" by (simp add: run_version)
  then have "unat (of_nat (total_bumps step bumps ops c) :: ulongcs) = 0" by simp
  with assms show "total_bumps step bumps ops c = 0"
    by (simp add: unsigned_of_nat take_bit_nat_eq_self)
qed (simp add: run_version)

lemma unchanged_version_unchanged_elems:
  assumes "total_bumps step bumps ops c < 2 ^ 64" and "ver (fold step ops c) = ver c"
  shows "elems (fold step ops c) = elems c"
  using assms version_detects run_silent by blast

end

end
