(* ===== verification/Coll_List.thy ===== *)
theory Coll_List
  imports Coll_Enumeration
begin

text \<open>
  \<^verbatim>\<open>List.hpp\<close>: the array list with its tracked mutators, searches, range operations and fail-fast
  enumerator. \<open>eq\<close> stands for \<^verbatim>\<open>equalValues\<close> and \<open>lt\<close> for \<^verbatim>\<open>DefaultLess\<close> of the element type, which
  the class takes from its template argument.
\<close>

section \<open>Model\<close>

record 'a GList =
  gl_items :: "'a list"
  gl_version :: MutationVersion

definition List_size :: "'a GList \<Rightarrow> intcs" where
  "List_size l = int (length (gl_items l))"

definition List_ctor :: "'a GList" where
  "List_ctor = \<lparr>gl_items = [], gl_version = 0\<rparr>"

definition List_ctor_vector :: "'a list \<Rightarrow> 'a GList" where
  "List_ctor_vector source = \<lparr>gl_items = source, gl_version = 0\<rparr>"

text \<open>The common shape of a mutator: new contents and one advance of the counter.\<close>

definition List_mutate :: "'a GList \<Rightarrow> 'a list \<Rightarrow> 'a GList" where
  "List_mutate l xs = \<lparr>gl_items = xs, gl_version = counter_advance (gl_version l)\<rparr>"

definition requireIndexInRange :: "'a GList \<Rightarrow> intcs \<Rightarrow> unit res" where
  "requireIndexInRange l index =
     (if index < 0 \<or> index \<ge> List_size l then Inl (ArgumentOutOfRangeException ''index'') else Inr ())"

definition requireValidRange :: "'a GList \<Rightarrow> intcs \<Rightarrow> intcs \<Rightarrow> unit res" where
  "requireValidRange l index count =
     (if index < 0 then Inl (ArgumentOutOfRangeException ''index'')
      else if count < 0 then Inl (ArgumentOutOfRangeException ''count'')
      else if List_size l - index < count then Inl (ArgumentException '''')
      else Inr ())"

text \<open>The two search loops, over \<^verbatim>\<open>[i, hi)\<close> upward and \<^verbatim>\<open>[lo, i]\<close> downward; \<open>- 1\<close> when nothing matches.\<close>

function scan_up :: "('a \<Rightarrow> bool) \<Rightarrow> 'a list \<Rightarrow> intcs \<Rightarrow> intcs \<Rightarrow> intcs" where
  "scan_up P xs i hi = (if i < hi then if P (xs ! nat i) then i else scan_up P xs (i + 1) hi else - 1)"
  by pat_completeness auto
termination
  by (relation "measure (\<lambda>(P, xs, i, hi). nat (hi - i))") auto

function scan_down :: "('a \<Rightarrow> bool) \<Rightarrow> 'a list \<Rightarrow> intcs \<Rightarrow> intcs \<Rightarrow> intcs" where
  "scan_down P xs i lo = (if i \<ge> lo then if P (xs ! nat i) then i else scan_down P xs (i - 1) lo else - 1)"
  by pat_completeness auto
termination
  by (relation "measure (\<lambda>(P, xs, i, lo). nat (i + 1 - lo))") auto

declare scan_up.simps [simp del] scan_down.simps [simp del]

definition List_Add :: "'a GList \<Rightarrow> 'a \<Rightarrow> 'a GList" where
  "List_Add l item = List_mutate l (gl_items l @ [item])"

definition List_Clear :: "'a GList \<Rightarrow> 'a GList" where
  "List_Clear l = List_mutate l []"

text \<open>\<^verbatim>\<open>findValue\<close> over the whole vector, as an index; the size when there is no match.\<close>

definition List_findValue :: "('a \<Rightarrow> 'a \<Rightarrow> bool) \<Rightarrow> 'a GList \<Rightarrow> 'a \<Rightarrow> nat" where
  "List_findValue eq l item = length (takeWhile (\<lambda>x. \<not> eq x item) (gl_items l))"

definition List_Contains :: "('a \<Rightarrow> 'a \<Rightarrow> bool) \<Rightarrow> 'a GList \<Rightarrow> 'a \<Rightarrow> bool" where
  "List_Contains eq l item \<longleftrightarrow> List_findValue eq l item \<noteq> length (gl_items l)"

definition List_Remove :: "('a \<Rightarrow> 'a \<Rightarrow> bool) \<Rightarrow> 'a GList \<Rightarrow> 'a \<Rightarrow> bool \<times> 'a GList" where
  "List_Remove eq l item =
     (let it = List_findValue eq l item
      in if it = length (gl_items l) then (False, l)
         else (True, List_mutate l (take it (gl_items l) @ drop (Suc it) (gl_items l))))"

definition List_getItem :: "'a GList \<Rightarrow> intcs \<Rightarrow> 'a res" where
  "List_getItem l index = bind_res (requireIndexInRange l index) (\<lambda>_. Inr (gl_items l ! nat index))"

text \<open>\<^verbatim>\<open>setItem\<close>, and the tracked assignment through the proxy of \<^verbatim>\<open>operator[]\<close>, which it is made of.\<close>

definition List_setItem :: "'a GList \<Rightarrow> intcs \<Rightarrow> 'a \<Rightarrow> 'a GList res" where
  "List_setItem l index val =
     bind_res (requireIndexInRange l index)
       (\<lambda>_. Inr (List_mutate l ((gl_items l)[nat index := val])))"

definition List_IndexOf :: "('a \<Rightarrow> 'a \<Rightarrow> bool) \<Rightarrow> 'a GList \<Rightarrow> 'a \<Rightarrow> intcs" where
  "List_IndexOf eq l item =
     (let it = List_findValue eq l item in if it = length (gl_items l) then - 1 else int it)"

text \<open>\<^verbatim>\<open>CopyTo\<close>: into a raw array with a stated length, and into a vector. Both return the destination.\<close>

definition List_CopyTo :: "'a GList \<Rightarrow> 'a list option \<Rightarrow> intcs \<Rightarrow> intcs \<Rightarrow> 'a list res" where
  "List_CopyTo l array arrayLength arrayIndex =
     (case array of
        None \<Rightarrow> Inl (ArgumentNullException ''array'')
      | Some d \<Rightarrow>
          if arrayIndex < 0 then Inl (ArgumentOutOfRangeException ''arrayIndex'')
          else if arrayLength - arrayIndex < List_size l then Inl (ArgumentException '''')
          else Inr (take (nat arrayIndex) d @ gl_items l @ drop (nat arrayIndex + length (gl_items l)) d))"

definition List_CopyTo_vector :: "'a GList \<Rightarrow> 'a list \<Rightarrow> intcs \<Rightarrow> 'a list res" where
  "List_CopyTo_vector l d arrayIndex =
     (if arrayIndex < 0 then Inl (ArgumentOutOfRangeException ''arrayIndex'')
      else if int (length d) - arrayIndex < List_size l then Inl (ArgumentException '''')
      else Inr (take (nat arrayIndex) d @ gl_items l @ drop (nat arrayIndex + length (gl_items l)) d))"

definition List_Insert :: "'a GList \<Rightarrow> intcs \<Rightarrow> 'a \<Rightarrow> 'a GList res" where
  "List_Insert l index item =
     (if index < 0 \<or> index > List_size l then Inl (ArgumentOutOfRangeException ''index'')
      else Inr (List_mutate l (take (nat index) (gl_items l) @ item # drop (nat index) (gl_items l))))"

definition List_RemoveAt :: "'a GList \<Rightarrow> intcs \<Rightarrow> 'a GList res" where
  "List_RemoveAt l index =
     bind_res (requireIndexInRange l index)
       (\<lambda>_. Inr (List_mutate l (take (nat index) (gl_items l) @ drop (Suc (nat index)) (gl_items l))))"

definition List_AddRange :: "'a GList \<Rightarrow> 'a list \<Rightarrow> 'a GList" where
  "List_AddRange l collection =
     (if collection \<noteq> [] then List_mutate l (gl_items l @ collection) else l)"

definition List_AddRange_list :: "'a GList \<Rightarrow> 'a GList \<Rightarrow> 'a GList" where
  "List_AddRange_list l other = List_AddRange l (gl_items other)"

definition List_InsertRange :: "'a GList \<Rightarrow> intcs \<Rightarrow> 'a list \<Rightarrow> 'a GList res" where
  "List_InsertRange l index collection =
     (if index < 0 \<or> index > List_size l then Inl (ArgumentOutOfRangeException ''index'')
      else Inr (if collection \<noteq> []
                then List_mutate l (take (nat index) (gl_items l) @ collection @ drop (nat index) (gl_items l))
                else l))"

definition List_GetRange :: "'a GList \<Rightarrow> intcs \<Rightarrow> intcs \<Rightarrow> 'a GList res" where
  "List_GetRange l index count =
     bind_res (requireValidRange l index count)
       (\<lambda>_. Inr (List_ctor_vector (take (nat count) (drop (nat index) (gl_items l)))))"

definition List_ToArray :: "'a GList \<Rightarrow> 'a list" where
  "List_ToArray l = gl_items l"

text \<open>\<^verbatim>\<open>Sort\<close>: \<open>srt\<close> is the \<^verbatim>\<open>std::sort\<close> (or \<^verbatim>\<open>defaultSort\<close>) of the element type under the ordering in use.\<close>

definition List_Sort :: "('a list \<Rightarrow> 'a list) \<Rightarrow> 'a GList \<Rightarrow> 'a GList" where
  "List_Sort srt l = List_mutate l (srt (gl_items l))"

definition List_Reverse :: "'a GList \<Rightarrow> 'a GList" where
  "List_Reverse l = List_mutate l (rev (gl_items l))"

text \<open>\<^verbatim>\<open>Find\<close> and \<^verbatim>\<open>FindLast\<close> fall back on \<^verbatim>\<open>T{}\<close>, the argument \<open>dflt\<close>.\<close>

definition List_Find :: "'a \<Rightarrow> 'a GList \<Rightarrow> ('a \<Rightarrow> bool) \<Rightarrow> 'a" where
  "List_Find dflt l predicate = (case List.find predicate (gl_items l) of Some x \<Rightarrow> x | None \<Rightarrow> dflt)"

definition List_FindAll :: "'a GList \<Rightarrow> ('a \<Rightarrow> bool) \<Rightarrow> 'a GList" where
  "List_FindAll l predicate =
     foldl (\<lambda>result item. if predicate item then List_Add result item else result) List_ctor (gl_items l)"

definition List_FindIndex :: "'a GList \<Rightarrow> ('a \<Rightarrow> bool) \<Rightarrow> intcs" where
  "List_FindIndex l predicate = scan_up predicate (gl_items l) 0 (List_size l)"

definition List_FindLastIndex :: "'a GList \<Rightarrow> ('a \<Rightarrow> bool) \<Rightarrow> intcs" where
  "List_FindLastIndex l predicate = scan_down predicate (gl_items l) (List_size l - 1) 0"

definition List_FindLast :: "'a \<Rightarrow> 'a GList \<Rightarrow> ('a \<Rightarrow> bool) \<Rightarrow> 'a" where
  "List_FindLast dflt l predicate =
     (let i = scan_down predicate (gl_items l) (List_size l - 1) 0
      in if i = - 1 then dflt else gl_items l ! nat i)"

definition List_RemoveAll :: "'a GList \<Rightarrow> ('a \<Rightarrow> bool) \<Rightarrow> intcs \<times> 'a GList" where
  "List_RemoveAll l predicate =
     (let kept = filter (\<lambda>x. \<not> predicate x) (gl_items l);
          count = List_size l - int (length kept)
      in (count, if count > 0 then List_mutate l kept else l\<lparr>gl_items := kept\<rparr>))"

definition List_Exists :: "'a GList \<Rightarrow> ('a \<Rightarrow> bool) \<Rightarrow> bool" where
  "List_Exists l predicate = list_ex predicate (gl_items l)"

definition List_TrueForAll :: "'a GList \<Rightarrow> ('a \<Rightarrow> bool) \<Rightarrow> bool" where
  "List_TrueForAll l predicate = list_all predicate (gl_items l)"

text \<open>\<^verbatim>\<open>std::lower_bound\<close>: halving of \<open>[first, first + len)\<close>.\<close>

function lower_bound :: "('a \<Rightarrow> 'a \<Rightarrow> bool) \<Rightarrow> 'a list \<Rightarrow> 'a \<Rightarrow> nat \<Rightarrow> nat \<Rightarrow> nat" where
  "lower_bound lt xs item first len =
     (if len > 0 then
        let half = len div 2; mid = first + half
        in if lt (xs ! mid) item then lower_bound lt xs item (mid + 1) (len - half - 1)
           else lower_bound lt xs item first half
      else first)"
  by pat_completeness auto
termination
  by (relation "measure (\<lambda>(lt, xs, item, first, len). len)") auto

declare lower_bound.simps [simp del]

text \<open>\<^verbatim>\<open>~n\<close> on a signed integer is \<open>- n - 1\<close>.\<close>

definition List_BinarySearch :: "('a \<Rightarrow> 'a \<Rightarrow> bool) \<Rightarrow> ('a \<Rightarrow> 'a \<Rightarrow> bool) \<Rightarrow> 'a GList \<Rightarrow> 'a \<Rightarrow> intcs" where
  "List_BinarySearch lt eq l item =
     (let it = lower_bound lt (gl_items l) item 0 (length (gl_items l))
      in if it \<noteq> length (gl_items l) \<and> eq (gl_items l ! it) item then int it else - int it - 1)"

definition List_IndexOf_from :: "('a \<Rightarrow> 'a \<Rightarrow> bool) \<Rightarrow> 'a GList \<Rightarrow> 'a \<Rightarrow> intcs \<Rightarrow> intcs res" where
  "List_IndexOf_from eq l item startIndex =
     (if startIndex < 0 \<or> startIndex > List_size l then Inl (ArgumentOutOfRangeException ''startIndex'')
      else Inr (scan_up (\<lambda>x. eq x item) (gl_items l) startIndex (List_size l)))"

definition List_IndexOf_range :: "('a \<Rightarrow> 'a \<Rightarrow> bool) \<Rightarrow> 'a GList \<Rightarrow> 'a \<Rightarrow> intcs \<Rightarrow> intcs \<Rightarrow> intcs res" where
  "List_IndexOf_range eq l item startIndex count =
     (if startIndex < 0 \<or> startIndex > List_size l then Inl (ArgumentOutOfRangeException ''startIndex'')
      else if count < 0 \<or> startIndex > List_size l - count then Inl (ArgumentOutOfRangeException ''count'')
      else Inr (scan_up (\<lambda>x. eq x item) (gl_items l) startIndex (startIndex + count)))"

definition List_LastIndexOf :: "('a \<Rightarrow> 'a \<Rightarrow> bool) \<Rightarrow> 'a GList \<Rightarrow> 'a \<Rightarrow> intcs" where
  "List_LastIndexOf eq l item = scan_down (\<lambda>x. eq x item) (gl_items l) (List_size l - 1) 0"

definition List_LastIndexOf_from :: "('a \<Rightarrow> 'a \<Rightarrow> bool) \<Rightarrow> 'a GList \<Rightarrow> 'a \<Rightarrow> intcs \<Rightarrow> intcs res" where
  "List_LastIndexOf_from eq l item startIndex =
     (if startIndex < 0 \<or> startIndex \<ge> List_size l then Inl (ArgumentOutOfRangeException ''startIndex'')
      else Inr (scan_down (\<lambda>x. eq x item) (gl_items l) startIndex 0))"

definition List_LastIndexOf_range :: "('a \<Rightarrow> 'a \<Rightarrow> bool) \<Rightarrow> 'a GList \<Rightarrow> 'a \<Rightarrow> intcs \<Rightarrow> intcs \<Rightarrow> intcs res" where
  "List_LastIndexOf_range eq l item startIndex count =
     (if List_size l \<noteq> 0 \<and> startIndex < 0 then Inl (ArgumentOutOfRangeException ''startIndex'')
      else if List_size l \<noteq> 0 \<and> count < 0 then Inl (ArgumentOutOfRangeException ''count'')
      else if List_size l = 0 then Inr (- 1)
      else if startIndex \<ge> List_size l then Inl (ArgumentOutOfRangeException ''startIndex'')
      else if count > startIndex + 1 then Inl (ArgumentOutOfRangeException ''count'')
      else Inr (scan_down (\<lambda>x. eq x item) (gl_items l) startIndex (startIndex - count + 1)))"

definition List_ConvertAll :: "'a GList \<Rightarrow> ('a \<Rightarrow> 'b) \<Rightarrow> 'b GList" where
  "List_ConvertAll l converter = foldl (\<lambda>result item. List_Add result (converter item)) List_ctor (gl_items l)"

definition List_RemoveRange :: "'a GList \<Rightarrow> intcs \<Rightarrow> intcs \<Rightarrow> 'a GList res" where
  "List_RemoveRange l index count =
     bind_res (requireValidRange l index count)
       (\<lambda>_. Inr (if count > 0
                 then List_mutate l (take (nat index) (gl_items l) @ drop (nat index + nat count) (gl_items l))
                 else l))"

definition List_Reverse_range :: "'a GList \<Rightarrow> intcs \<Rightarrow> intcs \<Rightarrow> 'a GList res" where
  "List_Reverse_range l index count =
     bind_res (requireValidRange l index count)
       (\<lambda>_. Inr (List_mutate l (take (nat index) (gl_items l) @
              rev (take (nat count) (drop (nat index) (gl_items l))) @
              drop (nat index + nat count) (gl_items l))))"

text \<open>The enumerator class: construction, \<^verbatim>\<open>MoveNext\<close>, \<^verbatim>\<open>Reset\<close> and \<^verbatim>\<open>Current\<close>.\<close>

definition List_GetEnumerator :: "'a GList \<Rightarrow> enumerator" where
  "List_GetEnumerator l = \<lparr>en_version = gl_version l, en_index = - 1, en_state = BeforeFirst\<rparr>"

definition List_MoveNext :: "'a GList \<Rightarrow> enumerator \<Rightarrow> (bool \<times> enumerator) res" where
  "List_MoveNext l e =
     bind_res (requireUnmodified (en_version e = gl_version l))
       (\<lambda>_. if isAfterLast (en_state e) then Inr (False, e)
            else if en_index e + 1 < List_size l
            then Inr (True, e\<lparr>en_index := en_index e + 1, en_state := OnCurrent\<rparr>)
            else Inr (False, e\<lparr>en_index := List_size l, en_state := AfterLast\<rparr>))"

definition List_EnumReset :: "'a GList \<Rightarrow> enumerator \<Rightarrow> enumerator res" where
  "List_EnumReset l e =
     bind_res (requireUnmodified (en_version e = gl_version l))
       (\<lambda>_. Inr (e\<lparr>en_index := - 1, en_state := BeforeFirst\<rparr>))"

definition List_Current :: "'a GList \<Rightarrow> enumerator \<Rightarrow> 'a res" where
  "List_Current l e = bind_res (requireCurrent (en_state e)) (\<lambda>_. Inr (gl_items l ! nat (en_index e)))"

section \<open>Sequences of mutators\<close>

text \<open>
  Every mutating member as data, so that arbitrary interleavings with enumerators can be stated. A
  call that throws leaves the list as it was.
\<close>

datatype 'a list_op =
    OpAdd 'a | OpClear | OpRemove 'a | OpSetItem intcs 'a | OpInsert intcs 'a | OpRemoveAt intcs
  | OpAddRange "'a list" | OpInsertRange intcs "'a list" | OpSort | OpReverse
  | OpRemoveAll "'a \<Rightarrow> bool" | OpRemoveRange intcs intcs | OpReverseRange intcs intcs

definition keep_on_error :: "'c \<Rightarrow> 'c res \<Rightarrow> 'c" where
  "keep_on_error c r = (case r of Inl _ \<Rightarrow> c | Inr c' \<Rightarrow> c')"

fun list_step :: "('a \<Rightarrow> 'a \<Rightarrow> bool) \<Rightarrow> ('a list \<Rightarrow> 'a list) \<Rightarrow> 'a list_op \<Rightarrow> 'a GList \<Rightarrow> 'a GList" where
  "list_step eq srt (OpAdd x) l = List_Add l x"
| "list_step eq srt OpClear l = List_Clear l"
| "list_step eq srt (OpRemove x) l = snd (List_Remove eq l x)"
| "list_step eq srt (OpSetItem i x) l = keep_on_error l (List_setItem l i x)"
| "list_step eq srt (OpInsert i x) l = keep_on_error l (List_Insert l i x)"
| "list_step eq srt (OpRemoveAt i) l = keep_on_error l (List_RemoveAt l i)"
| "list_step eq srt (OpAddRange xs) l = List_AddRange l xs"
| "list_step eq srt (OpInsertRange i xs) l = keep_on_error l (List_InsertRange l i xs)"
| "list_step eq srt OpSort l = List_Sort srt l"
| "list_step eq srt OpReverse l = List_Reverse l"
| "list_step eq srt (OpRemoveAll P) l = snd (List_RemoveAll l P)"
| "list_step eq srt (OpRemoveRange i n) l = keep_on_error l (List_RemoveRange l i n)"
| "list_step eq srt (OpReverseRange i n) l = keep_on_error l (List_Reverse_range l i n)"

text \<open>Which calls are effective mutations: they advance the counter once, the others not at all.\<close>

fun list_bumps :: "('a \<Rightarrow> 'a \<Rightarrow> bool) \<Rightarrow> 'a list_op \<Rightarrow> 'a GList \<Rightarrow> nat" where
  "list_bumps eq (OpRemove x) l = (if \<exists>y\<in>set (gl_items l). eq y x then 1 else 0)"
| "list_bumps eq (OpSetItem i x) l = (if 0 \<le> i \<and> i < List_size l then 1 else 0)"
| "list_bumps eq (OpInsert i x) l = (if 0 \<le> i \<and> i \<le> List_size l then 1 else 0)"
| "list_bumps eq (OpRemoveAt i) l = (if 0 \<le> i \<and> i < List_size l then 1 else 0)"
| "list_bumps eq (OpAddRange xs) l = (if xs = [] then 0 else 1)"
| "list_bumps eq (OpInsertRange i xs) l = (if 0 \<le> i \<and> i \<le> List_size l \<and> xs \<noteq> [] then 1 else 0)"
| "list_bumps eq (OpRemoveAll P) l = (if \<exists>y\<in>set (gl_items l). P y then 1 else 0)"
| "list_bumps eq (OpRemoveRange i n) l = (if 0 \<le> i \<and> 0 < n \<and> i + n \<le> List_size l then 1 else 0)"
| "list_bumps eq (OpReverseRange i n) l = (if 0 \<le> i \<and> 0 \<le> n \<and> i + n \<le> List_size l then 1 else 0)"
| "list_bumps eq _ l = 1"

section \<open>Shared facts\<close>

lemma List_mutate_simps [simp]:
  "gl_items (List_mutate l xs) = xs" "gl_version (List_mutate l xs) = gl_version l + 1"
  by (simp_all add: List_mutate_def counter_advance_def)

lemma keep_on_error_simps [simp]:
  "keep_on_error c (Inl e) = c" "keep_on_error c (Inr c') = c'"
  by (simp_all add: keep_on_error_def)

lemma requireIndexInRange_ok: "requireIndexInRange l i = Inr () \<longleftrightarrow> 0 \<le> i \<and> i < List_size l"
  by (auto simp: requireIndexInRange_def)

lemma requireValidRange_ok:
  "requireValidRange l i n = Inr () \<longleftrightarrow> 0 \<le> i \<and> 0 \<le> n \<and> i + n \<le> List_size l"
  by (auto simp: requireValidRange_def)

lemma findValue_le: "List_findValue eq l x \<le> length (gl_items l)"
  by (simp add: List_findValue_def length_takeWhile_le)

lemma findValue_found:
  "List_findValue eq l x = length (gl_items l) \<longleftrightarrow> \<not> (\<exists>y\<in>set (gl_items l). eq y x)"
proof -
  have "takeWhile (\<lambda>y. \<not> eq y x) xs = xs" if "length (takeWhile (\<lambda>y. \<not> eq y x) xs) = length xs" for xs
    using that by (metis length_append add_cancel_left_right length_0_conv append_Nil2 takeWhile_dropWhile_id)
  then show ?thesis
    unfolding List_findValue_def by (metis takeWhile_eq_all_conv)
qed

lemma filter_length_eq:
  "length (filter P xs) = length xs \<longleftrightarrow> (\<forall>x\<in>set xs. P x)"
  by (metis filter_id_conv length_filter_less filter_True less_irrefl)

text \<open>
  What a forward (backward) search of the index range \<open>[lo, hi)\<close> must return: the first (last)
  matching index, \<open>- 1\<close> when no element of the range matches.
\<close>

definition first_match :: "('a \<Rightarrow> bool) \<Rightarrow> 'a list \<Rightarrow> intcs \<Rightarrow> intcs \<Rightarrow> intcs \<Rightarrow> bool" where
  "first_match P xs lo hi r \<longleftrightarrow>
     (r = - 1 \<and> (\<forall>k. lo \<le> k \<and> k < hi \<longrightarrow> \<not> P (xs ! nat k))) \<or>
     (lo \<le> r \<and> r < hi \<and> P (xs ! nat r) \<and> (\<forall>k. lo \<le> k \<and> k < r \<longrightarrow> \<not> P (xs ! nat k)))"

definition last_match :: "('a \<Rightarrow> bool) \<Rightarrow> 'a list \<Rightarrow> intcs \<Rightarrow> intcs \<Rightarrow> intcs \<Rightarrow> bool" where
  "last_match P xs lo hi r \<longleftrightarrow>
     (r = - 1 \<and> (\<forall>k. lo \<le> k \<and> k < hi \<longrightarrow> \<not> P (xs ! nat k))) \<or>
     (lo \<le> r \<and> r < hi \<and> P (xs ! nat r) \<and> (\<forall>k. r < k \<and> k < hi \<longrightarrow> \<not> P (xs ! nat k)))"

lemma scan_up_first: "first_match P xs i hi (scan_up P xs i hi)"
proof (induction P xs i hi rule: scan_up.induct)
  case (1 P xs i hi)
  consider "hi \<le> i" | "i < hi" "P (xs ! nat i)" | "i < hi" "\<not> P (xs ! nat i)" by linarith
  then show ?case
  proof cases
    case 3
    have split: "i \<le> k \<longleftrightarrow> k = i \<or> i + 1 \<le> k" for k by auto
    show ?thesis
      using "1.IH" [OF 3] 3 by (subst scan_up.simps) (auto simp: first_match_def split)
  qed (auto simp: scan_up.simps first_match_def)
qed

lemma scan_down_last: "last_match P xs lo (i + 1) (scan_down P xs i lo)"
proof (induction P xs i lo rule: scan_down.induct)
  case (1 P xs i lo)
  consider "i < lo" | "lo \<le> i" "P (xs ! nat i)" | "lo \<le> i" "\<not> P (xs ! nat i)" by linarith
  then show ?case
  proof cases
    case 3
    have split: "k < i + 1 \<longleftrightarrow> k = i \<or> k < i - 1 + 1" for k by auto
    show ?thesis
      using "1.IH" [OF 3] 3 unfolding last_match_def split by (subst (1 2 3 4 5 6) scan_down.simps) auto
  qed (auto simp: scan_down.simps last_match_def)
qed

lemma scan_down_until: "hi = i + 1 \<Longrightarrow> last_match P xs lo hi (scan_down P xs i lo)"
  using scan_down_last [of P xs lo i] by simp

section \<open>Mutation and enumeration\<close>

lemmas list_op_defs = List_Add_def List_Clear_def List_Remove_def List_setItem_def List_Insert_def
  List_RemoveAt_def List_AddRange_def List_InsertRange_def List_Sort_def List_Reverse_def
  List_RemoveAll_def List_RemoveRange_def List_Reverse_range_def requireIndexInRange_def
  requireValidRange_def findValue_found Let_def

lemma RemoveAll_count:
  "List_size l - int (length (filter (\<lambda>x. \<not> P x) (gl_items l))) > 0 \<longleftrightarrow> (\<exists>x\<in>set (gl_items l). P x)"
  using filter_length_eq [of "\<lambda>x. \<not> P x" "gl_items l"] length_filter_le [of "\<lambda>x. \<not> P x" "gl_items l"]
  by (auto simp: List_size_def intro!: le_neq_implies_less)

text \<open>Each mutator either returns the list untouched or replaces the contents with one advance.\<close>

lemma list_step_cases:
  "list_step eq srt op l = l \<and> list_bumps eq op l = 0 \<or>
   (\<exists>xs. list_step eq srt op l = List_mutate l xs \<and> list_bumps eq op l = 1)"
proof (cases op)
  case (OpRemoveAll P)
  show ?thesis
  proof (cases "\<exists>x\<in>set (gl_items l). P x")
    case True
    then show ?thesis using OpRemoveAll RemoveAll_count [of l P] by (auto simp: List_RemoveAll_def Let_def)
  next
    case False
    then have "filter (\<lambda>x. \<not> P x) (gl_items l) = gl_items l" by (simp add: filter_id_conv)
    then show ?thesis using OpRemoveAll False by (auto simp: List_RemoveAll_def Let_def List_size_def)
  qed
qed (auto simp: list_op_defs)

interpretation glist: versioned gl_items gl_version "list_step eq srt" "list_bumps eq" for eq srt
proof
  fix op :: "'a list_op" and l
  show "gl_version (list_step eq srt op l) = gl_version l + of_nat (list_bumps eq op l)"
    using list_step_cases [of eq srt op l] by auto
  show "list_bumps eq op l = 0 \<Longrightarrow> gl_items (list_step eq srt op l) = gl_items l"
    using list_step_cases [of eq srt op l] by auto
qed

definition list_at :: "'a GList \<Rightarrow> enumerator \<Rightarrow> nat \<Rightarrow> bool" where
  "list_at l e k \<longleftrightarrow> en_version e = gl_version l \<and> en_index e = int k - 1 \<and>
     en_state e = (if k = 0 then BeforeFirst else OnCurrent)"

definition list_finished :: "'a GList \<Rightarrow> enumerator \<Rightarrow> bool" where
  "list_finished l e \<longleftrightarrow> en_version e = gl_version l \<and> en_state e = AfterLast"

lemmas enumeration_defs = requireUnmodified_def requireCurrent_def isAfterLast_def

interpretation glist_cursor: cursor "\<lambda>_. True" gl_items gl_version en_version List_GetEnumerator List_MoveNext List_Current
  list_at list_finished
proof
  fix l :: "'a GList" and e k
  assume "list_at l e k" and "k < length (gl_items l)"
  then show "\<exists>e'. List_MoveNext l e = Inr (True, e') \<and> list_at l e' (Suc k) \<and>
      List_Current l e' = Inr (gl_items l ! k)"
    by (auto simp: list_at_def List_MoveNext_def List_Current_def List_size_def enumeration_defs)
next
  fix l :: "'a GList" and e k
  assume "list_at l e k" and "k = length (gl_items l)"
  then show "\<exists>e'. List_MoveNext l e = Inr (False, e') \<and> list_finished l e'"
    by (auto simp: list_at_def list_finished_def List_MoveNext_def List_size_def enumeration_defs)
qed (auto simp: list_at_def list_finished_def List_MoveNext_def List_Current_def List_GetEnumerator_def
      enumeration_defs)

section \<open>Binary search\<close>

text \<open>\<open>lower_bound\<close> on a partitioned range returns the partition point.\<close>

definition partitioned_by :: "('a \<Rightarrow> bool) \<Rightarrow> 'a list \<Rightarrow> bool" where
  "partitioned_by P xs \<longleftrightarrow> (\<forall>j<length xs. \<forall>i<j. P (xs ! j) \<longrightarrow> P (xs ! i))"

definition partition_point :: "('a \<Rightarrow> bool) \<Rightarrow> 'a list \<Rightarrow> nat \<Rightarrow> bool" where
  "partition_point P xs r \<longleftrightarrow> r \<le> length xs \<and> (\<forall>i<r. P (xs ! i)) \<and> (\<forall>i<length xs. r \<le> i \<longrightarrow> \<not> P (xs ! i))"

lemma lower_bound_partition:
  assumes "first + len \<le> length xs"
    and "\<forall>i<first. lt (xs ! i) item"
    and "\<forall>i<length xs. first + len \<le> i \<longrightarrow> \<not> lt (xs ! i) item"
    and "partitioned_by (\<lambda>x. lt x item) xs"
  shows "partition_point (\<lambda>x. lt x item) xs (lower_bound lt xs item first len)"
  using assms
proof (induction lt xs item first len rule: lower_bound.induct)
  case (1 lt xs item first len)
  define mid where "mid = first + len div 2"
  consider (stop) "len = 0" | (right) "0 < len" "lt (xs ! mid) item" | (left) "0 < len" "\<not> lt (xs ! mid) item"
    by auto
  then show ?case
  proof cases
    case stop
    then show ?thesis using "1.prems" by (simp add: lower_bound.simps partition_point_def)
  next
    case right
    have mid: "mid < length xs" using right "1.prems"(1) by (simp add: mid_def)
    have "\<forall>i<mid + 1. lt (xs ! i) item"
      using right(2) "1.prems"(4) mid by (auto simp: less_Suc_eq partitioned_by_def)
    moreover have "mid + 1 + (len - len div 2 - 1) = first + len" using right(1) by (simp add: mid_def)
    ultimately have "partition_point (\<lambda>x. lt x item) xs (lower_bound lt xs item (mid + 1) (len - len div 2 - 1))"
      using "1.IH"(1) [OF right(1) refl mid_def right(2)] "1.prems" by simp
    then show ?thesis
      using right by (simp add: lower_bound.simps [of lt xs item first len] Let_def mid_def)
  next
    case left
    have mid: "mid < length xs" using left "1.prems"(1) by (simp add: mid_def)
    have "\<forall>i<length xs. mid \<le> i \<longrightarrow> \<not> lt (xs ! i) item"
      using left(2) "1.prems"(4) mid by (auto simp: partitioned_by_def le_less)
    then have "partition_point (\<lambda>x. lt x item) xs (lower_bound lt xs item first (len div 2))"
      using "1.IH"(2) [OF left(1) refl mid_def left(2)] "1.prems" mid by (simp add: mid_def)
    then show ?thesis
      using left by (simp add: lower_bound.simps [of lt xs item first len] Let_def mid_def)
  qed
qed

lemma lower_bound_sorted:
  fixes xs :: "'a::linorder list"
  assumes "sorted xs"
  shows "partition_point (\<lambda>x. x < item) xs (lower_bound (<) xs item 0 (length xs))"
proof (rule lower_bound_partition)
  show "partitioned_by (\<lambda>x. x < item) xs"
    unfolding partitioned_by_def
    using assms by (meson le_less_trans less_imp_le_nat sorted_nth_mono)
qed auto

section \<open>Properties\<close>

text \<open>
  C29. Fail-fast enumeration of \<^verbatim>\<open>List\<close>. Take an enumerator over a list and run any sequence of the
  thirteen mutators, successful or throwing, with fewer than \<open>2\<^sup>6\<^sup>4\<close> effective mutations. If one of
  them was effective, \<^verbatim>\<open>MoveNext\<close> and \<^verbatim>\<open>Reset\<close> throw; if none was, the elements are the same and
  \<^verbatim>\<open>MoveNext\<close> goes on as before.
\<close>

theorem list_fail_fast:
  assumes "en_version e = gl_version l"
    and "total_bumps (list_step eq srt) (list_bumps eq) ops l < 2 ^ 64"
  shows "let l' = fold (list_step eq srt) ops l
         in if total_bumps (list_step eq srt) (list_bumps eq) ops l > 0
            then List_MoveNext l' e = Inl CollectionModified \<and> List_EnumReset l' e = Inl CollectionModified
            else gl_items l' = gl_items l \<and> List_MoveNext l' e = List_MoveNext l e"
proof (cases "total_bumps (list_step eq srt) (list_bumps eq) ops l > 0")
  case True
  then have "en_version e \<noteq> gl_version (fold (list_step eq srt) ops l)"
    using glist.version_detects [OF assms(2)] assms(1) by auto
  with True show ?thesis
    by (simp add: glist_cursor.move_modified List_EnumReset_def requireUnmodified_def)
next
  case False
  then have "gl_version (fold (list_step eq srt) ops l) = gl_version l"
    "gl_items (fold (list_step eq srt) ops l) = gl_items l"
    using glist.version_detects [OF assms(2)] glist.run_silent by auto
  with False show ?thesis
    by (simp add: List_MoveNext_def List_size_def)
qed

theorem list_fail_fast_witness:
  "List_MoveNext (List_Add (List_ctor_vector [1, 2 :: int]) 3) (List_GetEnumerator (List_ctor_vector [1, 2 :: int]))
     = Inl CollectionModified"
  using list_fail_fast [of "List_GetEnumerator (List_ctor_vector [1, 2 :: int])" "List_ctor_vector [1, 2 :: int]"
      "(=)" sort "[OpRemove 7, OpAdd 3]"]
  by (simp add: List_GetEnumerator_def List_ctor_vector_def List_Remove_def List_findValue_def Let_def)

text \<open>
  Driving a fresh enumerator of an unmodified \<^verbatim>\<open>List\<close> with \<^verbatim>\<open>MoveNext\<close>/\<^verbatim>\<open>Current\<close> delivers the
  elements in index order, each once, and then ends.
\<close>

lemma list_enumeration:
  "drive (Suc (length (gl_items l))) (List_MoveNext l) (List_Current l) (List_GetEnumerator l)
     = Some (Inr (gl_items l))"
  by (rule glist_cursor.drive_all) simp_all

text \<open>
  \<^verbatim>\<open>BinarySearch\<close> on a sorted list returns the first index holding the item if there is one, and
  otherwise the complement of an insertion point at which \<^verbatim>\<open>Insert\<close> succeeds and keeps the list
  sorted.
\<close>

theorem list_binary_search:
  fixes l :: "'a::linorder GList"
  assumes "sorted (gl_items l)"
  shows "let r = List_BinarySearch (<) (=) l item
         in if item \<in> set (gl_items l)
            then 0 \<le> r \<and> r < List_size l \<and> first_match (\<lambda>x. x = item) (gl_items l) 0 (List_size l) r
            else r < 0 \<and> (\<exists>l'. List_Insert l (- r - 1) item = Inr l' \<and> sorted (gl_items l'))"
proof -
  define p where "p = lower_bound (<) (gl_items l) item 0 (length (gl_items l))"
  let ?xs = "gl_items l"
  have p: "p \<le> length ?xs" "\<forall>i<p. ?xs ! i < item" "\<forall>i<length ?xs. p \<le> i \<longrightarrow> item \<le> ?xs ! i"
    using lower_bound_sorted [OF assms, of item] by (auto simp: partition_point_def p_def)
  have r: "List_BinarySearch (<) (=) l item = (if p \<noteq> length ?xs \<and> ?xs ! p = item then int p else - int p - 1)"
    by (simp add: List_BinarySearch_def p_def Let_def)
  show ?thesis
  proof (cases "item \<in> set ?xs")
    case True
    then obtain i where i: "i < length ?xs" "?xs ! i = item" by (auto simp: in_set_conv_nth)
    then have "p \<le> i" using p(2) by (metis less_irrefl linorder_not_le)
    then have lt: "p < length ?xs" using i(1) by simp
    moreover have "?xs ! p \<le> ?xs ! i" using assms \<open>p \<le> i\<close> i(1) by (rule sorted_nth_mono)
    then have "?xs ! p = item" using p(3) lt i(2) by (simp add: antisym)
    moreover have "?xs ! nat k \<noteq> item" if "0 \<le> k" "k < int p" for k
      using p(2) that by (metis less_irrefl nat_less_iff)
    ultimately show ?thesis
      using True r by (simp add: first_match_def List_size_def Let_def)
  next
    case False
    then have "r' < 0 \<and> - r' - 1 = int p" if "r' = List_BinarySearch (<) (=) l item" for r'
      using r that p(1) by (auto dest: nth_mem)
    moreover have "sorted (take p ?xs @ item # drop p ?xs)"
      using assms p
      by (auto simp: sorted_append in_set_conv_nth less_imp_le intro: sorted_wrt_take sorted_wrt_drop)
        (rule sorted_nth_mono, auto)
    ultimately show ?thesis
      using False p(1) by (simp add: Let_def List_Insert_def List_size_def)
  qed
qed

text \<open>
  The ranged searches. \<^verbatim>\<open>IndexOf(item, startIndex, count)\<close> accepts exactly the ranges inside the
  list and then returns the first match in \<open>[startIndex, startIndex + count)\<close> or \<open>- 1\<close>; on a
  non-empty list \<^verbatim>\<open>LastIndexOf(item, startIndex, count)\<close> accepts exactly the backward ranges inside it
  and returns the last match in \<open>(startIndex - count, startIndex]\<close> or \<open>- 1\<close>. Other arguments throw
  \<^verbatim>\<open>ArgumentOutOfRangeException\<close>.
\<close>

theorem list_ranged_search:
  "(if 0 \<le> s \<and> 0 \<le> n \<and> s + n \<le> List_size l
    then \<exists>r. List_IndexOf_range eq l item s n = Inr r \<and> first_match (\<lambda>x. eq x item) (gl_items l) s (s + n) r
    else \<exists>p. List_IndexOf_range eq l item s n = Inl (ArgumentOutOfRangeException p)) \<and>
   (if gl_items l = [] then List_LastIndexOf_range eq l item s n = Inr (- 1)
    else if 0 \<le> s \<and> 0 \<le> n \<and> s < List_size l \<and> n \<le> s + 1
    then \<exists>r. List_LastIndexOf_range eq l item s n = Inr r \<and>
             last_match (\<lambda>x. eq x item) (gl_items l) (s - n + 1) (s + 1) r
    else \<exists>p. List_LastIndexOf_range eq l item s n = Inl (ArgumentOutOfRangeException p))"
  by (auto simp: List_IndexOf_range_def List_LastIndexOf_range_def scan_up_first List_size_def
      intro!: scan_down_until)

text \<open>
  \<^verbatim>\<open>InsertRange\<close>, \<^verbatim>\<open>GetRange\<close> and \<^verbatim>\<open>RemoveRange\<close> fit together: after inserting a block, reading the
  range gives the block back, removing the range restores the list, and reversing the range twice
  is the identity on the contents.
\<close>

theorem list_range_roundtrip:
  assumes "List_InsertRange l i xs = Inr l'"
  shows "(\<exists>g. List_GetRange l' i (int (length xs)) = Inr g \<and> gl_items g = xs) \<and>
         (\<exists>m. List_RemoveRange l' i (int (length xs)) = Inr m \<and> gl_items m = gl_items l) \<and>
         (\<exists>a b. List_Reverse_range l' i (int (length xs)) = Inr a \<and>
            List_Reverse_range a i (int (length xs)) = Inr b \<and> gl_items b = gl_items l')"
proof -
  from assms have i: "0 \<le> i" "i \<le> List_size l"
    and items: "gl_items l' = take (nat i) (gl_items l) @ xs @ drop (nat i) (gl_items l)"
    by (auto simp: List_InsertRange_def split: if_splits)
  from i have n: "length (take (nat i) (gl_items l)) = nat i" by (simp add: List_size_def)
  have ok: "requireValidRange m i (int (length xs)) = Inr ()" if "length (gl_items m) = length (gl_items l')" for m :: "'a GList"
    using i that by (simp add: requireValidRange_ok List_size_def items)
  show ?thesis
    using n i ok by (auto simp: List_GetRange_def List_RemoveRange_def List_Reverse_range_def List_ctor_vector_def items)
qed

text \<open>
  \<^verbatim>\<open>Remove\<close> takes out exactly the first element equal to the item and says whether there was one;
  \<^verbatim>\<open>RemoveAll\<close> keeps exactly the elements that do not match, in order, and returns their number.
\<close>

lemma list_removal:
  "(case List_Remove eq l item of (found, l') \<Rightarrow>
      found = List_Contains eq l item \<and>
      (if found
       then \<exists>us x vs. gl_items l = us @ x # vs \<and> eq x item \<and> \<not> list_ex (\<lambda>u. eq u item) us \<and>
              gl_items l' = us @ vs \<and> List_IndexOf eq l item = int (length us)
       else l' = l \<and> List_IndexOf eq l item = - 1 \<and> \<not> list_ex (\<lambda>x. eq x item) (gl_items l))) \<and>
   gl_items (snd (List_RemoveAll l P)) = filter (\<lambda>x. \<not> P x) (gl_items l) \<and>
   fst (List_RemoveAll l P) = int (length (filter P (gl_items l)))"
proof -
  let ?xs = "gl_items l" let ?us = "takeWhile (\<lambda>x. \<not> eq x item) (gl_items l)"
  have count: "fst (List_RemoveAll l P) = int (length (filter P ?xs))"
    using sum_length_filter_compl [of P ?xs] by (simp add: List_RemoveAll_def Let_def List_size_def)
  have keep: "gl_items (snd (List_RemoveAll l P)) = filter (\<lambda>x. \<not> P x) ?xs"
    by (auto simp: List_RemoveAll_def Let_def)
  show ?thesis
  proof (cases "\<exists>x\<in>set ?xs. eq x item")
    case False
    then have "List_findValue eq l item = length ?xs" by (simp add: findValue_found)
    with False count keep show ?thesis
      by (simp add: List_Remove_def List_Contains_def List_IndexOf_def Let_def list_ex_iff)
  next
    case True
    then obtain x vs where d: "dropWhile (\<lambda>x. \<not> eq x item) ?xs = x # vs" "eq x item"
      by (metis dropWhile_eq_Nil_conv hd_dropWhile list.exhaust_sel)
    then have split: "?xs = ?us @ x # vs" by (metis takeWhile_dropWhile_id)
    have f: "List_findValue eq l item = length ?us" by (simp add: List_findValue_def)
    have "take (length ?us) ?xs = ?us" "drop (Suc (length ?us)) ?xs = vs"
      by (subst split, simp)+
    moreover have "\<forall>u\<in>set ?us. \<not> eq u item" by (auto dest: set_takeWhileD)
    moreover have "length ?us \<noteq> length ?xs" using True findValue_found f by metis
    ultimately have "case List_Remove eq l item of (found, l') \<Rightarrow> found = List_Contains eq l item \<and> found \<and>
        ?xs = ?us @ x # vs \<and> eq x item \<and> (\<forall>u\<in>set ?us. \<not> eq u item) \<and> gl_items l' = ?us @ vs \<and>
        List_IndexOf eq l item = int (length ?us)"
      using d(2) split by (simp add: List_Remove_def List_Contains_def List_IndexOf_def Let_def f)
    with count keep show ?thesis
      by (auto simp: case_prod_beta list_ex_iff)
  qed
qed

end
