(* ===== verification/Coll_Queues.thy ===== *)
theory Coll_Queues
  imports Coll_List
begin

text \<open>
  \<^verbatim>\<open>Queue.hpp\<close> and \<^verbatim>\<open>Stack.hpp\<close>, and the contract they share: a container from which elements are taken in a
  fixed order.
\<close>

section \<open>Model: Queue\<close>

record 'a Queue =
  q_items :: "'a list"
  q_version :: MutationVersion

definition Queue_ctor :: "'a Queue" where
  "Queue_ctor = \<lparr>q_items = [], q_version = 0\<rparr>"

definition Queue_Count :: "'a Queue \<Rightarrow> intcs" where
  "Queue_Count q = int (length (q_items q))"

definition Queue_Enqueue :: "'a Queue \<Rightarrow> 'a \<Rightarrow> 'a Queue" where
  "Queue_Enqueue q item = \<lparr>q_items = q_items q @ [item], q_version = counter_advance (q_version q)\<rparr>"

definition Queue_Dequeue :: "'a Queue \<Rightarrow> ('a \<times> 'a Queue) res" where
  "Queue_Dequeue q =
     (case q_items q of
        [] \<Rightarrow> Inl (InvalidOperationException ''Queue empty.'')
      | x # xs \<Rightarrow> Inr (x, \<lparr>q_items = xs, q_version = counter_advance (q_version q)\<rparr>))"

definition Queue_Peek :: "'a Queue \<Rightarrow> 'a res" where
  "Queue_Peek q =
     (case q_items q of [] \<Rightarrow> Inl (InvalidOperationException ''Queue empty.'') | x # xs \<Rightarrow> Inr x)"

text \<open>The \<^verbatim>\<open>Try\<close> forms: the out-parameter keeps its old value \<open>result\<close> when they return false.\<close>

definition Queue_TryDequeue :: "'a Queue \<Rightarrow> 'a \<Rightarrow> bool \<times> 'a \<times> 'a Queue" where
  "Queue_TryDequeue q result =
     (case q_items q of
        [] \<Rightarrow> (False, result, q)
      | x # xs \<Rightarrow> (True, x, \<lparr>q_items = xs, q_version = counter_advance (q_version q)\<rparr>))"

definition Queue_TryPeek :: "'a Queue \<Rightarrow> 'a \<Rightarrow> bool \<times> 'a" where
  "Queue_TryPeek q result = (case q_items q of [] \<Rightarrow> (False, result) | x # xs \<Rightarrow> (True, x))"

definition Queue_Contains :: "('a \<Rightarrow> 'a \<Rightarrow> bool) \<Rightarrow> 'a Queue \<Rightarrow> 'a \<Rightarrow> bool" where
  "Queue_Contains eq q item = list_ex (\<lambda>x. eq x item) (q_items q)"

definition Queue_Clear :: "'a Queue \<Rightarrow> 'a Queue" where
  "Queue_Clear q = \<lparr>q_items = [], q_version = counter_advance (q_version q)\<rparr>"

definition Queue_ToArray :: "'a Queue \<Rightarrow> 'a list" where
  "Queue_ToArray q = q_items q"

definition Queue_GetEnumerator :: "'a Queue \<Rightarrow> enumerator" where
  "Queue_GetEnumerator q = \<lparr>en_version = q_version q, en_index = - 1, en_state = BeforeFirst\<rparr>"

definition Queue_MoveNext :: "'a Queue \<Rightarrow> enumerator \<Rightarrow> (bool \<times> enumerator) res" where
  "Queue_MoveNext q e =
     bind_res (requireUnmodified (en_version e = q_version q))
       (\<lambda>_. if isAfterLast (en_state e) then Inr (False, e)
            else if en_index e + 1 < Queue_Count q
            then Inr (True, e\<lparr>en_index := en_index e + 1, en_state := OnCurrent\<rparr>)
            else Inr (False, e\<lparr>en_index := Queue_Count q, en_state := AfterLast\<rparr>))"

definition Queue_EnumReset :: "'a Queue \<Rightarrow> enumerator \<Rightarrow> enumerator res" where
  "Queue_EnumReset q e =
     bind_res (requireUnmodified (en_version e = q_version q))
       (\<lambda>_. Inr (e\<lparr>en_index := - 1, en_state := BeforeFirst\<rparr>))"

definition Queue_Current :: "'a Queue \<Rightarrow> enumerator \<Rightarrow> 'a res" where
  "Queue_Current q e = bind_res (requireCurrent (en_state e)) (\<lambda>_. Inr (q_items q ! nat (en_index e)))"

section \<open>Model: Stack\<close>

text \<open>The deque in push order: the top is the last element.\<close>

record 'a Stack =
  st_items :: "'a list"
  st_version :: MutationVersion

definition Stack_ctor :: "'a Stack" where
  "Stack_ctor = \<lparr>st_items = [], st_version = 0\<rparr>"

definition Stack_Count :: "'a Stack \<Rightarrow> intcs" where
  "Stack_Count s = int (length (st_items s))"

definition Stack_Push :: "'a Stack \<Rightarrow> 'a \<Rightarrow> 'a Stack" where
  "Stack_Push s item = \<lparr>st_items = st_items s @ [item], st_version = counter_advance (st_version s)\<rparr>"

definition Stack_Pop :: "'a Stack \<Rightarrow> ('a \<times> 'a Stack) res" where
  "Stack_Pop s =
     (if st_items s = [] then Inl (InvalidOperationException ''Stack empty.'')
      else Inr (last (st_items s),
                \<lparr>st_items = butlast (st_items s), st_version = counter_advance (st_version s)\<rparr>))"

definition Stack_Peek :: "'a Stack \<Rightarrow> 'a res" where
  "Stack_Peek s =
     (if st_items s = [] then Inl (InvalidOperationException ''Stack empty.'') else Inr (last (st_items s)))"

definition Stack_TryPop :: "'a Stack \<Rightarrow> 'a \<Rightarrow> bool \<times> 'a \<times> 'a Stack" where
  "Stack_TryPop s result =
     (if st_items s = [] then (False, result, s)
      else (True, last (st_items s),
            \<lparr>st_items = butlast (st_items s), st_version = counter_advance (st_version s)\<rparr>))"

definition Stack_TryPeek :: "'a Stack \<Rightarrow> 'a \<Rightarrow> bool \<times> 'a" where
  "Stack_TryPeek s result = (if st_items s = [] then (False, result) else (True, last (st_items s)))"

definition Stack_Contains :: "('a \<Rightarrow> 'a \<Rightarrow> bool) \<Rightarrow> 'a Stack \<Rightarrow> 'a \<Rightarrow> bool" where
  "Stack_Contains eq s item = list_ex (\<lambda>x. eq x item) (st_items s)"

definition Stack_Clear :: "'a Stack \<Rightarrow> 'a Stack" where
  "Stack_Clear s = \<lparr>st_items = [], st_version = counter_advance (st_version s)\<rparr>"

definition Stack_ToArray :: "'a Stack \<Rightarrow> 'a list" where
  "Stack_ToArray s = rev (st_items s)"

text \<open>The enumerator walks down: its index starts at the size and is decremented.\<close>

definition Stack_GetEnumerator :: "'a Stack \<Rightarrow> enumerator" where
  "Stack_GetEnumerator s = \<lparr>en_version = st_version s, en_index = Stack_Count s, en_state = BeforeFirst\<rparr>"

definition Stack_MoveNext :: "'a Stack \<Rightarrow> enumerator \<Rightarrow> (bool \<times> enumerator) res" where
  "Stack_MoveNext s e =
     bind_res (requireUnmodified (en_version e = st_version s))
       (\<lambda>_. if isAfterLast (en_state e) then Inr (False, e)
            else if en_index e > 0
            then Inr (True, e\<lparr>en_index := en_index e - 1, en_state := OnCurrent\<rparr>)
            else Inr (False, e\<lparr>en_index := - 1, en_state := AfterLast\<rparr>))"

definition Stack_EnumReset :: "'a Stack \<Rightarrow> enumerator \<Rightarrow> enumerator res" where
  "Stack_EnumReset s e =
     bind_res (requireUnmodified (en_version e = st_version s))
       (\<lambda>_. Inr (e\<lparr>en_index := Stack_Count s, en_state := BeforeFirst\<rparr>))"

definition Stack_Current :: "'a Stack \<Rightarrow> enumerator \<Rightarrow> 'a res" where
  "Stack_Current s e = bind_res (requireCurrent (en_state e)) (\<lambda>_. Inr (st_items s ! nat (en_index e)))"

section \<open>The contract of taking elements\<close>

fun drain :: "nat \<Rightarrow> ('c \<Rightarrow> ('a \<times> 'c) res) \<Rightarrow> 'c \<Rightarrow> ('a list \<times> 'c) res" where
  "drain 0 tk c = Inr ([], c)"
| "drain (Suc n) tk c =
     bind_res (tk c) (\<lambda>(a, c'). bind_res (drain n tk c') (\<lambda>(as, c''). Inr (a # as, c'')))"

text \<open>\<open>order c\<close>: the elements of \<open>c\<close> in the order in which they will be taken.\<close>

locale dispenser =
  fixes order :: "'c \<Rightarrow> 'a list"
    and tk :: "'c \<Rightarrow> ('a \<times> 'c) res"
  assumes tk_empty: "order c = [] \<Longrightarrow> \<exists>m. tk c = Inl (InvalidOperationException m)"
    and tk_Cons: "order c = a # as \<Longrightarrow> \<exists>c'. tk c = Inr (a, c') \<and> order c' = as"
begin

lemma drain_order:
  "n \<le> length (order c) \<Longrightarrow> \<exists>c'. drain n tk c = Inr (take n (order c), c') \<and> order c' = drop n (order c)"
proof (induction n arbitrary: c)
  case 0
  then show ?case by simp
next
  case (Suc n)
  then obtain a as where o: "order c = a # as" by (cases "order c") auto
  from tk_Cons [OF o] obtain c' where c': "tk c = Inr (a, c')" "order c' = as" by blast
  from Suc.IH [of c'] Suc.prems o c' show ?case by auto
qed

lemma drain_all:
  "\<exists>c' m. drain (length (order c)) tk c = Inr (order c, c') \<and> tk c' = Inl (InvalidOperationException m)"
  using drain_order [of "length (order c)" c] tk_empty by fastforce

end

interpretation queue: dispenser q_items Queue_Dequeue
  by unfold_locales (simp_all add: Queue_Dequeue_def)

definition stack_order :: "'a Stack \<Rightarrow> 'a list" where
  "stack_order s = rev (st_items s)"

interpretation stack: dispenser stack_order Stack_Pop
proof
  fix s :: "'a Stack" and a as
  assume "stack_order s = a # as"
  then have "st_items s = rev as @ [a]" by (metis rev.simps(2) rev_rev_ident stack_order_def)
  then show "\<exists>s'. Stack_Pop s = Inr (a, s') \<and> stack_order s' = as"
    by (simp add: Stack_Pop_def stack_order_def)
qed (simp add: Stack_Pop_def stack_order_def)

section \<open>Cursors\<close>

definition queue_at :: "'a Queue \<Rightarrow> enumerator \<Rightarrow> nat \<Rightarrow> bool" where
  "queue_at q e k \<longleftrightarrow> en_version e = q_version q \<and> en_index e = int k - 1 \<and>
     en_state e = (if k = 0 then BeforeFirst else OnCurrent)"

definition queue_finished :: "'a Queue \<Rightarrow> enumerator \<Rightarrow> bool" where
  "queue_finished q e \<longleftrightarrow> en_version e = q_version q \<and> en_state e = AfterLast"

interpretation queue_cursor: cursor "\<lambda>_. True" q_items q_version en_version Queue_GetEnumerator Queue_MoveNext Queue_Current
  queue_at queue_finished
proof
  fix q :: "'a Queue" and e k
  assume "queue_at q e k" and "k < length (q_items q)"
  then show "\<exists>e'. Queue_MoveNext q e = Inr (True, e') \<and> queue_at q e' (Suc k) \<and>
      Queue_Current q e' = Inr (q_items q ! k)"
    by (auto simp: queue_at_def Queue_MoveNext_def Queue_Current_def Queue_Count_def enumeration_defs)
next
  fix q :: "'a Queue" and e k
  assume "queue_at q e k" and "k = length (q_items q)"
  then show "\<exists>e'. Queue_MoveNext q e = Inr (False, e') \<and> queue_finished q e'"
    by (auto simp: queue_at_def queue_finished_def Queue_MoveNext_def Queue_Count_def enumeration_defs)
qed (auto simp: queue_at_def queue_finished_def Queue_MoveNext_def Queue_Current_def Queue_GetEnumerator_def
      enumeration_defs)

definition stack_at :: "'a Stack \<Rightarrow> enumerator \<Rightarrow> nat \<Rightarrow> bool" where
  "stack_at s e k \<longleftrightarrow> en_version e = st_version s \<and> en_index e = Stack_Count s - int k \<and>
     en_state e = (if k = 0 then BeforeFirst else OnCurrent)"

definition stack_finished :: "'a Stack \<Rightarrow> enumerator \<Rightarrow> bool" where
  "stack_finished s e \<longleftrightarrow> en_version e = st_version s \<and> en_state e = AfterLast"

interpretation stack_cursor: cursor "\<lambda>_. True" stack_order st_version en_version Stack_GetEnumerator Stack_MoveNext Stack_Current
  stack_at stack_finished
proof
  fix s :: "'a Stack" and e k
  assume "stack_at s e k" and k: "k < length (stack_order s)"
  moreover from k have "nat (int (length (st_items s)) - int k - 1) = length (st_items s) - Suc k"
    by (simp add: stack_order_def)
  ultimately show "\<exists>e'. Stack_MoveNext s e = Inr (True, e') \<and> stack_at s e' (Suc k) \<and>
      Stack_Current s e' = Inr (stack_order s ! k)"
    by (auto simp: stack_at_def Stack_MoveNext_def Stack_Current_def Stack_Count_def stack_order_def rev_nth
        enumeration_defs)
next
  fix s :: "'a Stack" and e k
  assume "stack_at s e k" and "k = length (stack_order s)"
  then show "\<exists>e'. Stack_MoveNext s e = Inr (False, e') \<and> stack_finished s e'"
    by (auto simp: stack_at_def stack_finished_def Stack_MoveNext_def Stack_Count_def stack_order_def
        enumeration_defs)
qed (auto simp: stack_at_def stack_finished_def Stack_MoveNext_def Stack_Current_def Stack_GetEnumerator_def
      enumeration_defs)

section \<open>Properties\<close>

lemma foldl_Enqueue: "q_items (foldl Queue_Enqueue q xs) = q_items q @ xs"
  by (induction xs arbitrary: q) (simp_all add: Queue_Enqueue_def)

lemma foldl_Push: "stack_order (foldl Stack_Push s xs) = rev xs @ stack_order s"
  by (induction xs arbitrary: s) (simp_all add: Stack_Push_def stack_order_def)

text \<open>
  A queue is first-in first-out: after enqueuing \<open>xs\<close>, dequeuing to exhaustion returns the old
  contents followed by \<open>xs\<close> and the next \<^verbatim>\<open>Dequeue\<close> throws; \<^verbatim>\<open>ToArray\<close> and the enumerator show that
  same order.
\<close>

theorem queue_fifo:
  "let q' = foldl Queue_Enqueue q xs; n = length (Queue_ToArray q) + length xs
   in (\<exists>r m. drain n Queue_Dequeue q' = Inr (Queue_ToArray q @ xs, r) \<and>
         Queue_Dequeue r = Inl (InvalidOperationException m)) \<and>
      Queue_ToArray q' = Queue_ToArray q @ xs \<and>
      drive (Suc n) (Queue_MoveNext q') (Queue_Current q') (Queue_GetEnumerator q')
        = Some (Inr (Queue_ToArray q @ xs))"
  using queue.drain_all [of "foldl Queue_Enqueue q xs"]
    queue_cursor.drive_all [of "foldl Queue_Enqueue q xs" "Suc (length (q_items q) + length xs)"]
  by (simp add: Let_def Queue_ToArray_def foldl_Enqueue)

text \<open>
  A stack is last-in first-out: after pushing \<open>xs\<close>, popping to exhaustion returns \<open>xs\<close> backwards
  and then the old contents from the top, and the next \<^verbatim>\<open>Pop\<close> throws; \<^verbatim>\<open>ToArray\<close> and the
  (downward-counting) enumerator show that same order.
\<close>

theorem stack_lifo:
  "let s' = foldl Stack_Push s xs; n = length xs + length (Stack_ToArray s)
   in (\<exists>r m. drain n Stack_Pop s' = Inr (rev xs @ Stack_ToArray s, r) \<and>
         Stack_Pop r = Inl (InvalidOperationException m)) \<and>
      Stack_ToArray s' = rev xs @ Stack_ToArray s \<and>
      drive (Suc n) (Stack_MoveNext s') (Stack_Current s') (Stack_GetEnumerator s')
        = Some (Inr (rev xs @ Stack_ToArray s))"
  using stack.drain_all [of "foldl Stack_Push s xs"]
    stack_cursor.drive_all [of "foldl Stack_Push s xs" "Suc (length xs + length (stack_order s))"]
  by (simp add: Let_def Stack_ToArray_def foldl_Push flip: stack_order_def)

end
