(* ===== verification/Coll_PriorityQueue.thy ===== *)
theory Coll_PriorityQueue
  imports Coll_Queues "HOL-Library.Multiset"
begin

text \<open>
  \<^verbatim>\<open>PriorityQueue.hpp\<close> with the comparison of \<^verbatim>\<open>ComparisonPolicy.hpp\<close>. The heap algorithms of the C++ standard library
  are parameters under the contract the standard gives them; a binary heap is the instance.
\<close>

section \<open>Model: ComparisonPolicy.hpp\<close>

text \<open>
  The three branches of \<^verbatim>\<open>compareValues\<close>, selected by the type: floating-point types, optional floating-point
  types, and all others with their operator \<open>lt\<close>.
\<close>

definition compareFloating :: "('p \<Rightarrow> 'p \<Rightarrow> bool) \<Rightarrow> ('p \<Rightarrow> 'p \<Rightarrow> bool) \<Rightarrow> ('p \<Rightarrow> bool) \<Rightarrow> 'p \<Rightarrow> 'p \<Rightarrow> int" where
  "compareFloating lt eq isnan a b =
     (if lt a b then - 1
      else if lt b a then 1
      else if eq a b then 0
      else if isnan a then (if isnan b then 0 else - 1)
      else 1)"

definition compareNullable :: "('p \<Rightarrow> 'p \<Rightarrow> int) \<Rightarrow> 'p option \<Rightarrow> 'p option \<Rightarrow> int" where
  "compareNullable compareValues a b =
     (if (a \<noteq> None) \<noteq> (b \<noteq> None) then (if a \<noteq> None then 1 else - 1)
      else if a = None then 0
      else compareValues (the a) (the b))"

definition compareBuiltin :: "('p \<Rightarrow> 'p \<Rightarrow> bool) \<Rightarrow> 'p \<Rightarrow> 'p \<Rightarrow> int" where
  "compareBuiltin lt a b = (if lt a b then - 1 else if lt b a then 1 else 0)"

text \<open>
  The built-in operators on an IEEE 754 binary format with \<open>e\<close> exponent and \<open>f\<close> fraction bits, on bit patterns:
  \<^verbatim>\<open>float\<close> is 8 and 23, \<^verbatim>\<open>double\<close> is 11 and 52. \<^verbatim>\<open><\<close> and \<^verbatim>\<open>==\<close> are false for a NaN, and the two zeros are equal.
\<close>

definition float_isnan :: "nat \<Rightarrow> nat \<Rightarrow> nat \<Rightarrow> bool" where
  "float_isnan e f a \<longleftrightarrow> (2 ^ e - 1) * 2 ^ f < a mod 2 ^ (e + f)"

definition float_value :: "nat \<Rightarrow> nat \<Rightarrow> nat \<Rightarrow> int" where
  "float_value e f a =
     (if odd (a div 2 ^ (e + f)) then - int (a mod 2 ^ (e + f)) else int (a mod 2 ^ (e + f)))"

definition float_less :: "nat \<Rightarrow> nat \<Rightarrow> nat \<Rightarrow> nat \<Rightarrow> bool" where
  "float_less e f a b \<longleftrightarrow> \<not> float_isnan e f a \<and> \<not> float_isnan e f b \<and> float_value e f a < float_value e f b"

definition float_equal :: "nat \<Rightarrow> nat \<Rightarrow> nat \<Rightarrow> nat \<Rightarrow> bool" where
  "float_equal e f a b \<longleftrightarrow> \<not> float_isnan e f a \<and> \<not> float_isnan e f b \<and> float_value e f a = float_value e f b"

definition compareFloat :: "nat \<Rightarrow> nat \<Rightarrow> nat \<Rightarrow> nat \<Rightarrow> int" where
  "compareFloat e f = compareFloating (float_less e f) (float_equal e f) (float_isnan e f)"

section \<open>Model: PriorityQueue\<close>

text \<open>
  An \<^verbatim>\<open>Entry\<close> is the pair of element and priority. \<^verbatim>\<open>std::priority_queue\<close> keeps the entries in a vector, here
  \<open>pq_heap\<close>, and orders them by \<^verbatim>\<open>std::greater<Entry>\<close>, which is \<^verbatim>\<open>Entry::operator>\<close>: \<^verbatim>\<open>push\<close> appends and calls
  \<^verbatim>\<open>std::push_heap\<close>, \<^verbatim>\<open>pop\<close> calls \<^verbatim>\<open>std::pop_heap\<close> and removes the last entry, \<^verbatim>\<open>top\<close> is the first. The two
  algorithms are parameters; \<open>cmp\<close> is the \<^verbatim>\<open>compareValues\<close> of the priority type.
\<close>

record ('e, 'p) PriorityQueue =
  pq_heap :: "('e \<times> 'p) list"
  pq_count :: intcs

definition Entry_greater :: "('p \<Rightarrow> 'p \<Rightarrow> int) \<Rightarrow> 'e \<times> 'p \<Rightarrow> 'e \<times> 'p \<Rightarrow> bool" where
  "Entry_greater cmp x y \<longleftrightarrow> cmp (snd x) (snd y) > 0"

type_synonym 'x heap_algorithm = "('x \<Rightarrow> 'x \<Rightarrow> bool) \<Rightarrow> 'x list \<Rightarrow> 'x list"

definition heap_push :: "('e \<times> 'p) heap_algorithm \<Rightarrow> ('p \<Rightarrow> 'p \<Rightarrow> int) \<Rightarrow> 'e \<times> 'p \<Rightarrow> ('e \<times> 'p) list \<Rightarrow> ('e \<times> 'p) list" where
  "heap_push push_heap cmp entry h = push_heap (Entry_greater cmp) (h @ [entry])"

definition heap_pop :: "('e \<times> 'p) heap_algorithm \<Rightarrow> ('p \<Rightarrow> 'p \<Rightarrow> int) \<Rightarrow> ('e \<times> 'p) list \<Rightarrow> ('e \<times> 'p) list" where
  "heap_pop pop_heap cmp h = butlast (pop_heap (Entry_greater cmp) h)"

definition PriorityQueue_ctor :: "('e, 'p) PriorityQueue" where
  "PriorityQueue_ctor = \<lparr>pq_heap = [], pq_count = 0\<rparr>"

definition PriorityQueue_Enqueue ::
  "('e \<times> 'p) heap_algorithm \<Rightarrow> ('p \<Rightarrow> 'p \<Rightarrow> int) \<Rightarrow> ('e, 'p) PriorityQueue \<Rightarrow> 'e \<Rightarrow> 'p \<Rightarrow> ('e, 'p) PriorityQueue" where
  "PriorityQueue_Enqueue push_heap cmp q element priority =
     \<lparr>pq_heap = heap_push push_heap cmp (element, priority) (pq_heap q), pq_count = pq_count q + 1\<rparr>"

definition PriorityQueue_Dequeue ::
  "('e \<times> 'p) heap_algorithm \<Rightarrow> ('p \<Rightarrow> 'p \<Rightarrow> int) \<Rightarrow> ('e, 'p) PriorityQueue \<Rightarrow> ('e \<times> ('e, 'p) PriorityQueue) res" where
  "PriorityQueue_Dequeue pop_heap cmp q =
     (if pq_heap q = [] then Inl (InvalidOperationException ''Queue empty.'')
      else Inr (fst (hd (pq_heap q)), \<lparr>pq_heap = heap_pop pop_heap cmp (pq_heap q), pq_count = pq_count q - 1\<rparr>))"

definition PriorityQueue_Peek :: "('e, 'p) PriorityQueue \<Rightarrow> 'e res" where
  "PriorityQueue_Peek q =
     (if pq_heap q = [] then Inl (InvalidOperationException ''Queue empty.'') else Inr (fst (hd (pq_heap q))))"

definition PriorityQueue_TryDequeue ::
  "('e \<times> 'p) heap_algorithm \<Rightarrow> ('p \<Rightarrow> 'p \<Rightarrow> int) \<Rightarrow> ('e, 'p) PriorityQueue \<Rightarrow> 'e \<times> 'p \<Rightarrow>
   bool \<times> ('e \<times> 'p) \<times> ('e, 'p) PriorityQueue" where
  "PriorityQueue_TryDequeue pop_heap cmp q out =
     (if pq_heap q = [] then (False, out, q)
      else (True, hd (pq_heap q), \<lparr>pq_heap = heap_pop pop_heap cmp (pq_heap q), pq_count = pq_count q - 1\<rparr>))"

definition PriorityQueue_TryPeek :: "('e, 'p) PriorityQueue \<Rightarrow> 'e \<times> 'p \<Rightarrow> bool \<times> ('e \<times> 'p)" where
  "PriorityQueue_TryPeek q out = (if pq_heap q = [] then (False, out) else (True, hd (pq_heap q)))"

definition PriorityQueue_EnqueueRange ::
  "('e \<times> 'p) heap_algorithm \<Rightarrow> ('p \<Rightarrow> 'p \<Rightarrow> int) \<Rightarrow> ('e, 'p) PriorityQueue \<Rightarrow> ('e \<times> 'p) list \<Rightarrow> ('e, 'p) PriorityQueue" where
  "PriorityQueue_EnqueueRange push_heap cmp q items =
     foldl (\<lambda>q p. PriorityQueue_Enqueue push_heap cmp q (fst p) (snd p)) q items"

text \<open>\<^verbatim>\<open>Clear\<close> pops until the heap is empty; \<open>None\<close> would be a loop that does not end.\<close>

partial_function (option) clear_loop ::
  "('e \<times> 'p) heap_algorithm \<Rightarrow> ('p \<Rightarrow> 'p \<Rightarrow> int) \<Rightarrow> ('e \<times> 'p) list \<Rightarrow> ('e \<times> 'p) list option" where
  "clear_loop pop_heap cmp h = (if h = [] then Some [] else clear_loop pop_heap cmp (heap_pop pop_heap cmp h))"

definition PriorityQueue_Clear ::
  "('e \<times> 'p) heap_algorithm \<Rightarrow> ('p \<Rightarrow> 'p \<Rightarrow> int) \<Rightarrow> ('e, 'p) PriorityQueue \<Rightarrow> ('e, 'p) PriorityQueue option" where
  "PriorityQueue_Clear pop_heap cmp q =
     (case clear_loop pop_heap cmp (pq_heap q) of None \<Rightarrow> None | Some h \<Rightarrow> Some \<lparr>pq_heap = h, pq_count = 0\<rparr>)"

section \<open>The heap algorithms of the standard\<close>

text \<open>
  A heap and, for a strict weak order, the effect of \<^verbatim>\<open>push_heap\<close> and \<^verbatim>\<open>pop_heap\<close> as the C++ standard defines them
  (\<^verbatim>\<open>[alg.sorting]\<close>, \<^verbatim>\<open>[alg.heap.operations]\<close>).
\<close>

definition is_heap :: "('x \<Rightarrow> 'x \<Rightarrow> bool) \<Rightarrow> 'x list \<Rightarrow> bool" where
  "is_heap gt xs \<longleftrightarrow> (\<forall>i. 0 < i \<and> i < length xs \<longrightarrow> \<not> gt (xs ! ((i - 1) div 2)) (xs ! i))"

definition heap_algorithms :: "'x heap_algorithm \<Rightarrow> 'x heap_algorithm \<Rightarrow> bool" where
  "heap_algorithms push_heap pop_heap \<longleftrightarrow>
     (\<forall>gt xs. strict_weak_order gt \<longrightarrow> xs \<noteq> [] \<longrightarrow>
        (is_heap gt (butlast xs) \<longrightarrow> is_heap gt (push_heap gt xs) \<and> mset (push_heap gt xs) = mset xs) \<and>
        (is_heap gt xs \<longrightarrow>
           last (pop_heap gt xs) = hd xs \<and> is_heap gt (butlast (pop_heap gt xs)) \<and>
           mset (pop_heap gt xs) = mset xs))"

text \<open>The root of a heap: nothing in it goes before.\<close>

lemma heap_root:
  assumes "strict_weak_order gt" and "is_heap gt xs" and "i < length xs"
  shows "\<not> gt (xs ! 0) (xs ! i)"
  using assms(3)
proof (induction i rule: less_induct)
  case (less i)
  show ?case
  proof (cases "i = 0")
    case True
    then show ?thesis using strict_weak_asym [OF assms(1)] by blast
  next
    case False
    let ?p = "(i - 1) div 2"
    have "\<not> gt (xs ! 0) (xs ! ?p)" using False less by simp
    moreover have "\<not> gt (xs ! ?p) (xs ! i)" using assms(2) False less.prems by (simp add: is_heap_def)
    ultimately show ?thesis using strict_weak_neg_trans [OF assms(1)] by blast
  qed
qed

locale std_heap =
  fixes gt :: "'x \<Rightarrow> 'x \<Rightarrow> bool"
    and push_heap pop_heap :: "'x heap_algorithm"
  assumes order: "strict_weak_order gt"
    and push_ok: "xs \<noteq> [] \<Longrightarrow> is_heap gt (butlast xs) \<Longrightarrow>
      is_heap gt (push_heap gt xs) \<and> mset (push_heap gt xs) = mset xs"
    and pop_ok: "xs \<noteq> [] \<Longrightarrow> is_heap gt xs \<Longrightarrow>
      last (pop_heap gt xs) = hd xs \<and> is_heap gt (butlast (pop_heap gt xs)) \<and> mset (pop_heap gt xs) = mset xs"
begin

lemma top_first:
  assumes "is_heap gt xs" and "x \<in> set xs"
  shows "\<not> gt (hd xs) x"
proof -
  obtain i where "i < length xs" "x = xs ! i" using assms(2) by (auto simp: in_set_conv_nth)
  moreover have "hd xs = xs ! 0" using assms(2) by (intro hd_conv_nth) auto
  ultimately show ?thesis using heap_root [OF order assms(1)] by simp
qed

lemma push_back:
  "is_heap gt xs \<Longrightarrow> is_heap gt (push_heap gt (xs @ [x])) \<and> mset (push_heap gt (xs @ [x])) = add_mset x (mset xs)"
  using push_ok [of "xs @ [x]"] by simp

lemma pop_front:
  assumes "is_heap gt xs" and "xs \<noteq> []"
  shows "is_heap gt (butlast (pop_heap gt xs))"
    and "mset xs = add_mset (hd xs) (mset (butlast (pop_heap gt xs)))"
    and "length xs = Suc (length (butlast (pop_heap gt xs)))"
proof -
  note p = pop_ok [OF assms(2,1)]
  have "pop_heap gt xs \<noteq> []" using p assms(2) by (metis mset_zero_iff)
  then have "pop_heap gt xs = butlast (pop_heap gt xs) @ [hd xs]" using p by (metis append_butlast_last_id)
  then have "mset (pop_heap gt xs) = mset (butlast (pop_heap gt xs) @ [hd xs])" by (rule arg_cong)
  with p show m: "mset xs = add_mset (hd xs) (mset (butlast (pop_heap gt xs)))" by simp
  show "is_heap gt (butlast (pop_heap gt xs))" using p by blast
  show "length xs = Suc (length (butlast (pop_heap gt xs)))"
    using arg_cong [OF m, of size] by simp
qed

end

lemma heap_algorithms_std: "heap_algorithms push pop \<Longrightarrow> strict_weak_order gt \<Longrightarrow> std_heap gt push pop"
  by unfold_locales (auto simp: heap_algorithms_def)

section \<open>A binary heap\<close>

text \<open>The two algorithms on a vector, by swapping an entry with its parent or with the better of its children.\<close>

function sift_up :: "('x \<Rightarrow> 'x \<Rightarrow> bool) \<Rightarrow> 'x list \<Rightarrow> nat \<Rightarrow> 'x list" where
  "sift_up gt xs i =
     (let p = (i - 1) div 2
      in if 0 < i \<and> gt (xs ! p) (xs ! i) then sift_up gt (xs[p := xs ! i, i := xs ! p]) p else xs)"
  by pat_completeness auto
termination by (relation "measure (\<lambda>(gt, xs, i). i)") auto

function sift_down :: "('x \<Rightarrow> 'x \<Rightarrow> bool) \<Rightarrow> 'x list \<Rightarrow> nat \<Rightarrow> 'x list" where
  "sift_down gt xs i =
     (let l = 2 * i + 1; c = (if l + 1 < length xs \<and> gt (xs ! l) (xs ! (l + 1)) then l + 1 else l)
      in if l < length xs \<and> gt (xs ! i) (xs ! c) then sift_down gt (xs[i := xs ! c, c := xs ! i]) c else xs)"
  by pat_completeness auto
termination by (relation "measure (\<lambda>(gt, xs, i). length xs - i)") (auto simp: Let_def split: if_splits)

declare sift_up.simps [simp del] sift_down.simps [simp del]

definition binary_push_heap :: "'x heap_algorithm" where
  "binary_push_heap gt xs = sift_up gt xs (length xs - 1)"

definition binary_pop_heap :: "'x heap_algorithm" where
  "binary_pop_heap gt xs = sift_down gt (butlast (xs[0 := last xs])) 0 @ [hd xs]"

text \<open>A heap except between entry \<open>i\<close> and its parent, and except between \<open>i\<close> and its children.\<close>

abbreviation heap_edge :: "('x \<Rightarrow> 'x \<Rightarrow> bool) \<Rightarrow> 'x list \<Rightarrow> nat \<Rightarrow> nat \<Rightarrow> bool" where
  "heap_edge gt xs p j \<equiv> \<not> gt (xs ! p) (xs ! j)"

definition heap_but_up :: "('x \<Rightarrow> 'x \<Rightarrow> bool) \<Rightarrow> 'x list \<Rightarrow> nat \<Rightarrow> bool" where
  "heap_but_up gt xs i \<longleftrightarrow>
     (\<forall>j. 0 < j \<and> j < length xs \<and> j \<noteq> i \<longrightarrow> heap_edge gt xs ((j - 1) div 2) j) \<and>
     (\<forall>j. 0 < i \<and> 0 < j \<and> j < length xs \<and> (j - 1) div 2 = i \<longrightarrow> heap_edge gt xs ((i - 1) div 2) j)"

definition heap_but_down :: "('x \<Rightarrow> 'x \<Rightarrow> bool) \<Rightarrow> 'x list \<Rightarrow> nat \<Rightarrow> bool" where
  "heap_but_down gt xs i \<longleftrightarrow>
     (\<forall>j. 0 < j \<and> j < length xs \<and> (j - 1) div 2 \<noteq> i \<longrightarrow> heap_edge gt xs ((j - 1) div 2) j) \<and>
     (\<forall>j. 0 < i \<and> 0 < j \<and> j < length xs \<and> (j - 1) div 2 = i \<longrightarrow> heap_edge gt xs ((i - 1) div 2) j)"

lemma parent_less: "0 < j \<Longrightarrow> (j - 1) div 2 < (j :: nat)"
  by linarith

lemma swap_nth:
  assumes "i < length xs" and "p < length xs" and "k < length xs"
  shows "xs[p := xs ! i, i := xs ! p] ! k = (if k = i then xs ! p else if k = p then xs ! i else xs ! k)"
  using assms by (simp add: nth_list_update)

lemma sift_up_step:
  assumes o: "strict_weak_order gt" and h: "heap_but_up gt xs i" and i: "0 < i" "i < length xs"
    and g: "gt (xs ! ((i - 1) div 2)) (xs ! i)"
  shows "heap_but_up gt (xs[(i - 1) div 2 := xs ! i, i := xs ! ((i - 1) div 2)]) ((i - 1) div 2)"
proof -
  let ?p = "(i - 1) div 2"
  let ?ys = "xs[?p := xs ! i, i := xs ! ?p]"
  have p: "?p < i" using i by linarith
  note sw = swap_nth [OF i(2) less_trans [OF p i(2)]]
  have "heap_edge gt ?ys ((j - 1) div 2) j" if j: "0 < j" "j < length xs" "j \<noteq> ?p" for j
  proof -
    have jp: "(j - 1) div 2 < length xs" using j by linarith
    consider "j = i" | "j \<noteq> i" "(j - 1) div 2 = ?p" | "(j - 1) div 2 = i" | "j \<noteq> i" "(j - 1) div 2 \<noteq> ?p" "(j - 1) div 2 \<noteq> i" by blast
    then show ?thesis
    proof cases
      case 1
      then show ?thesis using sw [OF jp] sw [OF j(2)] p strict_weak_asym [OF o g] by simp
    next
      case 2
      then have "heap_edge gt xs ?p j" using h j unfolding heap_but_up_def by metis
      then have "heap_edge gt xs i j" using strict_weak_trans [OF o g] by blast
      then show ?thesis using 2 sw [OF jp] sw [OF j(2)] j(3) p by simp
    next
      case 3
      then have "heap_edge gt xs ?p j" using h i j unfolding heap_but_up_def by blast
      then show ?thesis using 3 sw [OF jp] sw [OF j(2)] j p by simp
    next
      case 4
      then have "heap_edge gt xs ((j - 1) div 2) j" using h j unfolding heap_but_up_def by blast
      then show ?thesis using 4 sw [OF jp] sw [OF j(2)] j(3) by simp
    qed
  qed
  moreover have "heap_edge gt ?ys ((?p - 1) div 2) j" if j: "0 < ?p" "0 < j" "j < length xs" "(j - 1) div 2 = ?p" for j
  proof -
    have pp: "(?p - 1) div 2 < ?p" using j(1) by linarith
    then have ppl: "(?p - 1) div 2 < length xs" using p i(2) by linarith
    have e: "heap_edge gt xs ((?p - 1) div 2) ?p"
      using h j(1) p i(2) unfolding heap_but_up_def by (metis less_trans nat_neq_iff)
    show ?thesis
    proof (cases "j = i")
      case True
      then show ?thesis using sw [OF ppl] sw [OF j(3)] e pp p by simp
    next
      case False
      then have "heap_edge gt xs ?p j" using h j unfolding heap_but_up_def by metis
      then have "heap_edge gt xs ((?p - 1) div 2) j" using e strict_weak_neg_trans [OF o] by blast
      moreover have "j \<noteq> ?p" using j(2,4) by linarith
      ultimately show ?thesis using False sw [OF ppl] sw [OF j(3)] pp p by simp
    qed
  qed
  ultimately show ?thesis unfolding heap_but_up_def length_list_update by blast
qed

lemma sift_up_heap:
  "strict_weak_order gt \<Longrightarrow> heap_but_up gt xs i \<Longrightarrow> i < length xs \<Longrightarrow>
   is_heap gt (sift_up gt xs i) \<and> mset (sift_up gt xs i) = mset xs"
proof (induction gt xs i rule: sift_up.induct)
  case (1 gt xs i)
  let ?p = "(i - 1) div 2"
  show ?case
  proof (cases "0 < i \<and> gt (xs ! ?p) (xs ! i)")
    case True
    let ?ys = "xs[?p := xs ! i, i := xs ! ?p]"
    have p: "?p < length xs" using "1.prems"(3) by linarith
    have "heap_but_up gt ?ys ?p" using sift_up_step [OF "1.prems"(1,2)] True "1.prems"(3) by blast
    then have "is_heap gt (sift_up gt ?ys ?p) \<and> mset (sift_up gt ?ys ?p) = mset ?ys"
      using "1.IH" [OF refl True "1.prems"(1)] p by simp
    moreover have "mset ?ys = mset xs" using mset_swap [OF "1.prems"(3) p] by (simp add: list_update_swap)
    moreover have "sift_up gt xs i = sift_up gt ?ys ?p" by (subst sift_up.simps) (use True in \<open>simp add: Let_def\<close>)
    ultimately show ?thesis by simp
  next
    case False
    have "is_heap gt xs"
      unfolding is_heap_def
    proof (intro allI impI)
      fix j assume "0 < j \<and> j < length xs"
      then show "heap_edge gt xs ((j - 1) div 2) j"
        using "1.prems"(2) False unfolding heap_but_up_def by (cases "j = i") auto
    qed
    moreover have "sift_up gt xs i = xs" by (subst sift_up.simps) (use False in \<open>auto simp: Let_def\<close>)
    ultimately show ?thesis by simp
  qed
qed

lemma sift_down_step:
  assumes o: "strict_weak_order gt" and h: "heap_but_down gt xs i"
    and c: "(c - 1) div 2 = i" "0 < c" "c < length xs" and g: "gt (xs ! i) (xs ! c)"
    and best: "\<And>j. 0 < j \<Longrightarrow> j < length xs \<Longrightarrow> (j - 1) div 2 = i \<Longrightarrow> heap_edge gt xs c j"
  shows "heap_but_down gt (xs[i := xs ! c, c := xs ! i]) c"
proof -
  let ?ys = "xs[i := xs ! c, c := xs ! i]"
  have i: "i < c" "i < length xs" using c by linarith+
  note sw = swap_nth [OF c(3) i(2)]
  have "heap_edge gt ?ys ((j - 1) div 2) j" if j: "0 < j" "j < length xs" "(j - 1) div 2 \<noteq> c" for j
  proof -
    have jp: "(j - 1) div 2 < length xs" using j by linarith
    consider "j = c" | "j \<noteq> c" "(j - 1) div 2 = i" | "j = i" | "j \<noteq> c" "j \<noteq> i" "(j - 1) div 2 \<noteq> i" by blast
    then show ?thesis
    proof cases
      case 1
      then show ?thesis using sw [OF jp] sw [OF j(2)] c i strict_weak_asym [OF o g] by simp
    next
      case 2
      then have "heap_edge gt xs c j" using best j by blast
      moreover have "j \<noteq> i" using 2 j(1) by linarith
      ultimately show ?thesis using 2 sw [OF jp] sw [OF j(2)] i by simp
    next
      case 3
      then have "heap_edge gt xs ((i - 1) div 2) c" using h j c unfolding heap_but_down_def by blast
      moreover have "(i - 1) div 2 < i" using 3 j(1) by linarith
      ultimately show ?thesis using 3 sw [OF jp] sw [OF j(2)] i by simp
    next
      case 4
      then have "heap_edge gt xs ((j - 1) div 2) j" using h j unfolding heap_but_down_def by blast
      moreover have "?ys ! ((j - 1) div 2) = xs ! ((j - 1) div 2)" "?ys ! j = xs ! j"
        using sw [OF jp] sw [OF j(2)] 4 j(3) by (simp_all only: if_False)
      ultimately show ?thesis by (simp only: not_False_eq_True)
    qed
  qed
  moreover have "heap_edge gt ?ys ((c - 1) div 2) j" if j: "0 < j" "j < length xs" "(j - 1) div 2 = c" for j
  proof -
    have "(j - 1) div 2 \<noteq> i" using j(3) i by simp
    then have "heap_edge gt xs c j" using h j unfolding heap_but_down_def by metis
    moreover have "j \<noteq> i" "j \<noteq> c" using j i by linarith+
    ultimately show ?thesis unfolding c(1) using sw [OF i(2)] sw [OF j(2)] i by simp
  qed
  ultimately show ?thesis unfolding heap_but_down_def length_list_update by blast
qed

lemma sift_down_heap:
  "strict_weak_order gt \<Longrightarrow> heap_but_down gt xs i \<Longrightarrow> i < length xs \<Longrightarrow>
   is_heap gt (sift_down gt xs i) \<and> mset (sift_down gt xs i) = mset xs"
proof (induction gt xs i rule: sift_down.induct)
  case (1 gt xs i)
  let ?l = "2 * i + 1"
  define c where "c = (if ?l + 1 < length xs \<and> gt (xs ! ?l) (xs ! (?l + 1)) then ?l + 1 else ?l)"
  have children: "0 < j \<and> (j - 1) div 2 = i \<longleftrightarrow> j = ?l \<or> j = ?l + 1" for j by linarith
  have best: "heap_edge gt xs c j" if "0 < j" "j < length xs" "(j - 1) div 2 = i" for j
  proof (cases "?l + 1 < length xs \<and> gt (xs ! ?l) (xs ! (?l + 1))")
    case True
    then have "c = ?l + 1" by (simp add: c_def)
    then show ?thesis using True children [of j] that(1,3) strict_weak_asym [OF "1.prems"(1)] by metis
  next
    case False
    then have "c = ?l" unfolding c_def by (rule if_not_P)
    then show ?thesis using False children [of j] that strict_weak_asym [OF "1.prems"(1)] by metis
  qed
  have c: "0 < c" "(c - 1) div 2 = i" using children [of c] by (auto simp: c_def)
  show ?case
  proof (cases "?l < length xs \<and> gt (xs ! i) (xs ! c)")
    case True
    let ?ys = "xs[i := xs ! c, c := xs ! i]"
    have cl: "c < length xs" using True by (simp add: c_def)
    have "heap_but_down gt ?ys c"
      using sift_down_step [OF "1.prems"(1,2) c(2,1) cl _ best] True by blast
    then have "is_heap gt (sift_down gt ?ys c) \<and> mset (sift_down gt ?ys c) = mset ?ys"
      using "1.IH" [OF refl c_def True "1.prems"(1)] cl by simp
    moreover have "mset ?ys = mset xs" using mset_swap [OF cl "1.prems"(3)] by simp
    moreover have "sift_down gt xs i = sift_down gt ?ys c"
      by (subst sift_down.simps) (simp only: Let_def c_def [symmetric] True if_True simp_thms)
    ultimately show ?thesis by simp
  next
    case False
    have "is_heap gt xs"
      unfolding is_heap_def
    proof (intro allI impI)
      fix j assume j: "0 < j \<and> j < length xs"
      show "heap_edge gt xs ((j - 1) div 2) j"
      proof (cases "(j - 1) div 2 = i")
        case True
        then have "?l < length xs" using j children [of j] by linarith
        then show ?thesis using False best [of j] True j strict_weak_neg_trans [OF "1.prems"(1)] by blast
      next
        case False
        then show ?thesis using "1.prems"(2) j unfolding heap_but_down_def by blast
      qed
    qed
    moreover have "sift_down gt xs i = xs"
      by (subst sift_down.simps) (simp only: Let_def c_def [symmetric] False if_False)
    ultimately show ?thesis by simp
  qed
qed

lemma binary_heap_algorithms: "heap_algorithms binary_push_heap binary_pop_heap"
  unfolding heap_algorithms_def
proof (intro allI impI conjI)
  fix gt :: "'x \<Rightarrow> 'x \<Rightarrow> bool" and xs :: "'x list"
  assume o: "strict_weak_order gt" and ne: "xs \<noteq> []"
  {
    assume h: "is_heap gt (butlast xs)"
    have "heap_but_up gt xs (length xs - 1)"
      unfolding heap_but_up_def
    proof (intro conjI allI impI)
      fix j assume j: "0 < j \<and> j < length xs \<and> j \<noteq> length xs - 1"
      then have l: "(j - 1) div 2 < length xs - 1" "j < length xs - 1" by linarith+
      with j h have "heap_edge gt (butlast xs) ((j - 1) div 2) j" by (simp add: is_heap_def)
      moreover note l
      ultimately show "heap_edge gt xs ((j - 1) div 2) j" by (simp add: nth_butlast)
    next
      fix j assume "0 < length xs - 1 \<and> 0 < j \<and> j < length xs \<and> (j - 1) div 2 = length xs - 1"
      then have False by linarith
      then show "heap_edge gt xs ((length xs - 1 - 1) div 2) j" ..
    qed
    then show "is_heap gt (binary_push_heap gt xs)" "mset (binary_push_heap gt xs) = mset xs"
      using sift_up_heap [OF o] ne by (simp_all add: binary_push_heap_def)
  }
  {
    assume h: "is_heap gt xs"
    let ?ys = "butlast (xs[0 := last xs])"
    have m: "add_mset (hd xs) (mset ?ys) = mset xs"
    proof (cases xs rule: rev_cases)
      case (snoc ys z)
      then show ?thesis by (cases ys) (simp_all add: butlast_append)
    qed (use ne in simp)
    have s: "is_heap gt (sift_down gt ?ys 0) \<and> mset (sift_down gt ?ys 0) = mset ?ys"
    proof (cases "?ys = []")
      case True
      have "sift_down gt [] 0 = []" by (subst sift_down.simps) (simp add: Let_def)
      then show ?thesis by (simp only: True) (simp add: is_heap_def)
    next
      case False
      have "heap_but_down gt ?ys 0"
        unfolding heap_but_down_def
      proof (intro conjI allI impI)
        fix j assume j: "0 < j \<and> j < length ?ys \<and> (j - 1) div 2 \<noteq> 0"
        then have "0 < j \<and> j < length xs" by (simp add: less_diff_conv)
        then have "heap_edge gt xs ((j - 1) div 2) j" using h unfolding is_heap_def by blast
        moreover have "(j - 1) div 2 < length ?ys" using j by linarith
        ultimately show "heap_edge gt ?ys ((j - 1) div 2) j" using j by (simp add: nth_butlast nth_list_update)
      qed simp
      then show ?thesis using sift_down_heap [OF o] False by blast
    qed
    show "last (binary_pop_heap gt xs) = hd xs" by (simp add: binary_pop_heap_def)
    show "is_heap gt (butlast (binary_pop_heap gt xs))" using s by (simp add: binary_pop_heap_def)
    show "mset (binary_pop_heap gt xs) = mset xs" using s m by (simp add: binary_pop_heap_def)
  }
qed

section \<open>Comparisons\<close>

text \<open>\<open>cmp\<close> is positive exactly where \<open>le\<close>, which is total and transitive, does not hold.\<close>

definition ranks :: "('p \<Rightarrow> 'p \<Rightarrow> int) \<Rightarrow> ('p \<Rightarrow> 'p \<Rightarrow> bool) \<Rightarrow> bool" where
  "ranks cmp le \<longleftrightarrow> (\<forall>a b. cmp a b > 0 \<longleftrightarrow> \<not> le a b) \<and> (\<forall>a b. le a b \<or> le b a) \<and> (\<forall>a b c. le a b \<longrightarrow> le b c \<longrightarrow> le a c)"

lemma ranks_order:
  assumes "ranks cmp le"
  shows "strict_weak_order (Entry_greater cmp)"
proof -
  have gt: "Entry_greater cmp x y \<longleftrightarrow> \<not> le (snd x) (snd y)" for x y
    using assms by (simp add: ranks_def Entry_greater_def)
  have total: "le a b \<or> le b a" and trans: "le a b \<Longrightarrow> le b c \<Longrightarrow> le a c" for a b c
    using assms unfolding ranks_def by blast+
  show ?thesis unfolding strict_weak_order_def gt using total trans by blast
qed

lemma ranks_Builtin:
  assumes "strict_weak_order lt"
  shows "ranks (compareBuiltin lt) (\<lambda>a b. \<not> lt b a)"
proof -
  have "compareBuiltin lt a b > 0 \<longleftrightarrow> \<not> \<not> lt b a" for a b
    using strict_weak_asym [OF assms, of a b] by (auto simp: compareBuiltin_def)
  moreover have "\<not> lt b a \<or> \<not> lt a b" and "\<not> lt b a \<Longrightarrow> \<not> lt c b \<Longrightarrow> \<not> lt c a" for a b c
    using strict_weak_asym [OF assms] strict_weak_neg_trans [OF assms] by blast+
  ultimately show ?thesis unfolding ranks_def by blast
qed

text \<open>The order of the floating-point priorities: a NaN before everything, all others by value.\<close>

definition float_le :: "nat \<Rightarrow> nat \<Rightarrow> nat \<Rightarrow> nat \<Rightarrow> bool" where
  "float_le e f a b \<longleftrightarrow> float_isnan e f a \<or> \<not> float_isnan e f b \<and> float_value e f a \<le> float_value e f b"

lemma ranks_Float: "ranks (compareFloat e f) (float_le e f)"
  by (auto simp: ranks_def compareFloat_def compareFloating_def float_le_def float_less_def float_equal_def)

definition nullable_le :: "('p \<Rightarrow> 'p \<Rightarrow> bool) \<Rightarrow> 'p option \<Rightarrow> 'p option \<Rightarrow> bool" where
  "nullable_le le a b \<longleftrightarrow> a = None \<or> b \<noteq> None \<and> le (the a) (the b)"

lemma ranks_Nullable: "ranks cmp le \<Longrightarrow> ranks (compareNullable cmp) (nullable_le le)"
  by (auto simp: ranks_def compareNullable_def nullable_le_def)

section \<open>The queue\<close>

text \<open>\<^verbatim>\<open>TryDequeue\<close> as a taking operation; \<open>out\<close> is the old value of the out-parameters.\<close>

definition pq_take ::
  "('e \<times> 'p) heap_algorithm \<Rightarrow> ('p \<Rightarrow> 'p \<Rightarrow> int) \<Rightarrow> 'e \<times> 'p \<Rightarrow> ('e, 'p) PriorityQueue \<Rightarrow>
   (('e \<times> 'p) \<times> ('e, 'p) PriorityQueue) res" where
  "pq_take pop_heap cmp out q =
     (case PriorityQueue_TryDequeue pop_heap cmp q out of
        (ok, x, q') \<Rightarrow> if ok then Inr (x, q') else Inl (InvalidOperationException ''Queue empty.''))"

text \<open>The queues that calls on a new one lead to, with the entries they should hold.\<close>

inductive pq_history ::
  "('e \<times> 'p) heap_algorithm \<Rightarrow> ('e \<times> 'p) heap_algorithm \<Rightarrow> ('p \<Rightarrow> 'p \<Rightarrow> int) \<Rightarrow>
   ('e, 'p) PriorityQueue \<Rightarrow> ('e \<times> 'p) multiset \<Rightarrow> bool"
  for push_heap pop_heap cmp where
  created: "pq_history push_heap pop_heap cmp PriorityQueue_ctor {#}"
| enqueued: "pq_history push_heap pop_heap cmp q B \<Longrightarrow>
    pq_history push_heap pop_heap cmp (PriorityQueue_EnqueueRange push_heap cmp q items) (B + mset items)"
| dequeued: "pq_history push_heap pop_heap cmp q B \<Longrightarrow> PriorityQueue_TryDequeue pop_heap cmp q out = (True, x, q') \<Longrightarrow>
    pq_history push_heap pop_heap cmp q' (B - {#x#})"
| cleared: "pq_history push_heap pop_heap cmp q B \<Longrightarrow> PriorityQueue_Clear pop_heap cmp q = Some q' \<Longrightarrow>
    pq_history push_heap pop_heap cmp q' {#}"

definition pq_ok :: "('p \<Rightarrow> 'p \<Rightarrow> int) \<Rightarrow> ('e, 'p) PriorityQueue \<Rightarrow> bool" where
  "pq_ok cmp q \<longleftrightarrow> is_heap (Entry_greater cmp) (pq_heap q) \<and> pq_count q = int (length (pq_heap q))"

locale priority_queue =
  fixes cmp :: "'p \<Rightarrow> 'p \<Rightarrow> int"
    and le :: "'p \<Rightarrow> 'p \<Rightarrow> bool"
    and push_heap pop_heap :: "('e \<times> 'p) heap_algorithm"
  assumes cmp_le: "ranks cmp le"
    and algorithms: "heap_algorithms push_heap pop_heap"

sublocale priority_queue \<subseteq> heap: std_heap "Entry_greater cmp" push_heap pop_heap
  by (rule heap_algorithms_std [OF algorithms ranks_order [OF cmp_le]])

context priority_queue
begin

lemma ok_ctor: "pq_ok cmp PriorityQueue_ctor" "pq_heap (PriorityQueue_ctor :: ('e, 'p) PriorityQueue) = []"
  by (simp_all add: pq_ok_def PriorityQueue_ctor_def is_heap_def)

lemma ok_Enqueue:
  assumes "pq_ok cmp q"
  shows "pq_ok cmp (PriorityQueue_Enqueue push_heap cmp q a p)"
    and "mset (pq_heap (PriorityQueue_Enqueue push_heap cmp q a p)) = add_mset (a, p) (mset (pq_heap q))"
proof -
  have h: "is_heap (Entry_greater cmp) (heap_push push_heap cmp (a, p) (pq_heap q)) \<and>
      mset (heap_push push_heap cmp (a, p) (pq_heap q)) = add_mset (a, p) (mset (pq_heap q))"
    using assms heap.push_back by (simp add: pq_ok_def heap_push_def)
  then have "length (heap_push push_heap cmp (a, p) (pq_heap q)) = Suc (length (pq_heap q))"
    by (metis size_add_mset size_mset)
  with h assms show "pq_ok cmp (PriorityQueue_Enqueue push_heap cmp q a p)"
    "mset (pq_heap (PriorityQueue_Enqueue push_heap cmp q a p)) = add_mset (a, p) (mset (pq_heap q))"
    by (simp_all add: pq_ok_def PriorityQueue_Enqueue_def)
qed

lemma ok_EnqueueRange:
  "pq_ok cmp q \<Longrightarrow> pq_ok cmp (PriorityQueue_EnqueueRange push_heap cmp q items) \<and>
   mset (pq_heap (PriorityQueue_EnqueueRange push_heap cmp q items)) = mset (pq_heap q) + mset items"
  by (induction items arbitrary: q) (simp_all add: PriorityQueue_EnqueueRange_def ok_Enqueue)

lemma ok_pop:
  assumes "pq_ok cmp q" and "pq_heap q \<noteq> []"
  defines "q' \<equiv> \<lparr>pq_heap = heap_pop pop_heap cmp (pq_heap q), pq_count = pq_count q - 1\<rparr>"
  shows "pq_ok cmp q'" and "mset (pq_heap q) = add_mset (hd (pq_heap q)) (mset (pq_heap q'))"
    and "\<forall>x\<in>set (pq_heap q). le (snd (hd (pq_heap q))) (snd x)"
proof -
  have h: "is_heap (Entry_greater cmp) (pq_heap q)" using assms(1) by (simp add: pq_ok_def)
  note p = heap.pop_front [OF h assms(2), folded heap_pop_def]
  show "pq_ok cmp q'" using p assms(1) by (simp add: pq_ok_def q'_def)
  show "mset (pq_heap q) = add_mset (hd (pq_heap q)) (mset (pq_heap q'))" using p(2) by (simp add: q'_def)
  show "\<forall>x\<in>set (pq_heap q). le (snd (hd (pq_heap q))) (snd x)"
    using heap.top_first [OF h] cmp_le by (simp add: Entry_greater_def ranks_def)
qed

lemma clear_returns: "pq_ok cmp q \<Longrightarrow> clear_loop pop_heap cmp (pq_heap q) = Some []"
proof (induction "length (pq_heap q)" arbitrary: q)
  case 0
  then show ?case by (simp add: clear_loop.simps [of _ _ "[]"])
next
  case (Suc n)
  then have ne: "pq_heap q \<noteq> []" by auto
  note p = ok_pop [OF Suc.prems ne]
  have "n = length (heap_pop pop_heap cmp (pq_heap q))" using arg_cong [OF p(2), of size] Suc.hyps(2) by simp
  from Suc.hyps(1) [OF _ p(1)] this ne show ?case by (simp add: clear_loop.simps [of _ _ "pq_heap q"])
qed

lemma ok_Clear: "pq_ok cmp q \<Longrightarrow> PriorityQueue_Clear pop_heap cmp q = Some PriorityQueue_ctor"
  by (simp add: PriorityQueue_Clear_def clear_returns PriorityQueue_ctor_def)

lemma history_ok: "pq_history push_heap pop_heap cmp q B \<Longrightarrow> pq_ok cmp q \<and> mset (pq_heap q) = B"
proof (induction rule: pq_history.induct)
  case (dequeued q B out x q')
  then have "pq_heap q \<noteq> []" "x = hd (pq_heap q)"
    "q' = \<lparr>pq_heap = heap_pop pop_heap cmp (pq_heap q), pq_count = pq_count q - 1\<rparr>"
    by (auto simp: PriorityQueue_TryDequeue_def split: if_splits)
  with ok_pop [of q] dequeued.IH show ?case by auto
qed (auto simp: ok_ctor ok_EnqueueRange ok_Clear)

lemma drain_sorted:
  "pq_ok cmp q \<Longrightarrow> \<exists>es. drain (length (pq_heap q)) (pq_take pop_heap cmp out) q = Inr (es, PriorityQueue_ctor) \<and>
     sorted_wrt le (map snd es) \<and> mset es = mset (pq_heap q)"
proof (induction "length (pq_heap q)" arbitrary: q)
  case 0
  then show ?case by (cases q) (simp add: pq_ok_def PriorityQueue_ctor_def)
next
  case (Suc n)
  define q1 where "q1 = \<lparr>pq_heap = heap_pop pop_heap cmp (pq_heap q), pq_count = pq_count q - 1\<rparr>"
  have ne: "pq_heap q \<noteq> []" using Suc.hyps(2) by auto
  note p = ok_pop [OF Suc.prems ne, folded q1_def]
  have n: "n = length (pq_heap q1)" using arg_cong [OF p(2), of size] Suc.hyps(2) by simp
  from Suc.hyps(1) [OF n p(1)] obtain es where es:
    "drain n (pq_take pop_heap cmp out) q1 = Inr (es, PriorityQueue_ctor)" "sorted_wrt le (map snd es)"
    "mset es = mset (pq_heap q1)" using n by auto
  have tk: "pq_take pop_heap cmp out q = Inr (hd (pq_heap q), q1)"
    using ne by (simp add: pq_take_def PriorityQueue_TryDequeue_def q1_def)
  have "set es \<subseteq> set (pq_heap q)" using es(3) p(2) by (metis set_mset_mset set_mset_add_mset_insert subset_insertI)
  then have "\<forall>y\<in>set (map snd es). le (snd (hd (pq_heap q))) y" using p(3) by auto
  then show ?case using tk es p(2) Suc.hyps(2) [symmetric] by simp
qed

end

interpretation double_queue: priority_queue "compareFloat 11 52" "float_le 11 52" binary_push_heap binary_pop_heap
  by unfold_locales (rule ranks_Float binary_heap_algorithms)+

section \<open>Properties\<close>

text \<open>
  What a queue with the comparison \<open>cmp\<close> owes to a caller who knows the order \<open>le\<close> of the priorities, after any
  calls that should leave the entries \<open>B\<close> in it: the count, a first entry that no other precedes on all
  four ways to get at it, the entries in order when it is emptied by \<^verbatim>\<open>TryDequeue\<close>, and a \<^verbatim>\<open>Clear\<close> that returns.
\<close>

definition priority_order ::
  "('e \<times> 'p) heap_algorithm \<Rightarrow> ('e \<times> 'p) heap_algorithm \<Rightarrow> ('p \<Rightarrow> 'p \<Rightarrow> int) \<Rightarrow> ('p \<Rightarrow> 'p \<Rightarrow> bool) \<Rightarrow> bool" where
  "priority_order push_heap pop_heap cmp le \<longleftrightarrow>
     (\<forall>q B out. pq_history push_heap pop_heap cmp q B \<longrightarrow>
        pq_count q = int (size B) \<and>
        (if B = {#}
         then PriorityQueue_TryDequeue pop_heap cmp q out = (False, out, q) \<and> PriorityQueue_TryPeek q out = (False, out) \<and>
           PriorityQueue_Dequeue pop_heap cmp q = Inl (InvalidOperationException ''Queue empty.'') \<and>
           PriorityQueue_Peek q = Inl (InvalidOperationException ''Queue empty.'')
         else \<exists>x q'. x \<in># B \<and> (\<forall>y. y \<in># B \<longrightarrow> le (snd x) (snd y)) \<and>
           PriorityQueue_TryDequeue pop_heap cmp q out = (True, x, q') \<and> PriorityQueue_TryPeek q out = (True, x) \<and>
           PriorityQueue_Dequeue pop_heap cmp q = Inr (fst x, q') \<and> PriorityQueue_Peek q = Inr (fst x)) \<and>
        (\<exists>es q'. drain (size B) (pq_take pop_heap cmp out) q = Inr (es, q') \<and> sorted_wrt le (map snd es) \<and>
           mset es = B \<and> PriorityQueue_TryDequeue pop_heap cmp q' out = (False, out, q')) \<and>
        PriorityQueue_Clear pop_heap cmp q = Some PriorityQueue_ctor)"

lemma priority_queue_priority_order:
  assumes "priority_queue cmp le push_heap pop_heap"
  shows "priority_order push_heap pop_heap cmp le"
  unfolding priority_order_def
proof (intro allI impI conjI)
  note pq = pq_ok_def priority_queue.ok_pop(3) [OF assms]
  fix q B out
  assume "pq_history push_heap pop_heap cmp q B"
  then have q: "pq_ok cmp q" "mset (pq_heap q) = B" using priority_queue.history_ok [OF assms] by blast+
  then show "pq_count q = int (size B)" using pq(1) [of cmp q] by auto
  show "if B = {#}
         then PriorityQueue_TryDequeue pop_heap cmp q out = (False, out, q) \<and> PriorityQueue_TryPeek q out = (False, out) \<and>
           PriorityQueue_Dequeue pop_heap cmp q = Inl (InvalidOperationException ''Queue empty.'') \<and>
           PriorityQueue_Peek q = Inl (InvalidOperationException ''Queue empty.'')
         else \<exists>x q'. x \<in># B \<and> (\<forall>y. y \<in># B \<longrightarrow> le (snd x) (snd y)) \<and>
           PriorityQueue_TryDequeue pop_heap cmp q out = (True, x, q') \<and> PriorityQueue_TryPeek q out = (True, x) \<and>
           PriorityQueue_Dequeue pop_heap cmp q = Inr (fst x, q') \<and> PriorityQueue_Peek q = Inr (fst x)"
  proof (cases "pq_heap q = []")
    case True
    then show ?thesis using q(2)
      by (auto simp: PriorityQueue_TryDequeue_def PriorityQueue_TryPeek_def PriorityQueue_Dequeue_def PriorityQueue_Peek_def)
  next
    case False
    then have "hd (pq_heap q) \<in># B" "B \<noteq> {#}" using q(2) by auto
    moreover have "\<forall>y. y \<in># B \<longrightarrow> le (snd (hd (pq_heap q))) (snd y)"
      using pq(2) [OF q(1) False] unfolding q(2) [symmetric] set_mset_mset by blast
    ultimately have b: "hd (pq_heap q) \<in># B \<and> (\<forall>y. y \<in># B \<longrightarrow> le (snd (hd (pq_heap q))) (snd y))" "B \<noteq> {#}"
      by blast+
    show ?thesis unfolding if_not_P [OF b(2)]
      by (rule exI [of _ "hd (pq_heap q)"])
        (use b(1) False in \<open>simp add: PriorityQueue_TryDequeue_def PriorityQueue_TryPeek_def PriorityQueue_Dequeue_def
          PriorityQueue_Peek_def\<close>)
  qed
  have "PriorityQueue_TryDequeue pop_heap cmp PriorityQueue_ctor out = (False, out, PriorityQueue_ctor)"
    by (simp add: PriorityQueue_TryDequeue_def PriorityQueue_ctor_def)
  moreover have "size B = length (pq_heap q)" using q(2) by auto
  ultimately show "\<exists>es q'. drain (size B) (pq_take pop_heap cmp out) q = Inr (es, q') \<and> sorted_wrt le (map snd es) \<and>
           mset es = B \<and> PriorityQueue_TryDequeue pop_heap cmp q' out = (False, out, q')"
    using priority_queue.drain_sorted [OF assms q(1), of out] q(2) by metis
  show "PriorityQueue_Clear pop_heap cmp q = Some PriorityQueue_ctor"
    by (rule priority_queue.ok_Clear [OF assms q(1)])
qed

text \<open>
  C30. A priority queue dispenses by priority, with any heap algorithms of the C++ standard library: after any calls it
  holds the entries put in and not taken out, every way to look at or take its first entry gives one of
  them that no other precedes, and \<^verbatim>\<open>TryDequeue\<close> to exhaustion returns them in ascending order of priority. For a type
  with a strict weak \<^verbatim>\<open>operator<\<close> the order is that operator; a floating-point NaN comes before every number and is
  equal to any other NaN; an empty optional comes before every present value.
\<close>

theorem priority_queue_order:
  fixes lt :: "'p \<Rightarrow> 'p \<Rightarrow> bool"
  assumes "heap_algorithms push_heap1 pop_heap1" and "heap_algorithms push_heap2 pop_heap2"
    and "heap_algorithms push_heap3 pop_heap3" and "strict_weak_order lt"
  shows "priority_order push_heap1 pop_heap1 (compareBuiltin lt) (\<lambda>p p'. \<not> lt p' p) \<and>
    priority_order push_heap2 pop_heap2 (compareFloat e f) (float_le e f) \<and>
    priority_order push_heap3 pop_heap3 (compareNullable (compareFloat e f)) (nullable_le (float_le e f))"
  using assms
  by (intro conjI priority_queue_priority_order priority_queue.intro ranks_Builtin ranks_Nullable ranks_Float)

theorem priority_queue_order_witness:
  "let push = PriorityQueue_EnqueueRange binary_push_heap (compareBuiltin (<)) in
   \<exists>es q'. drain 3 (pq_take binary_pop_heap (compareBuiltin (<)) (0, 0)) (push PriorityQueue_ctor [(10, 3), (20, 1), (30, 2)])
     = Inr (es, q') \<and> sorted_wrt (\<lambda>p p'. \<not> p' < p) (map snd es) \<and> mset es = {#(10 :: int, 3 :: int), (20, 1), (30, 2)#}"
proof -
  have "strict_weak_order ((<) :: int \<Rightarrow> int \<Rightarrow> bool)" by (auto simp: strict_weak_order_def)
  from priority_queue_order [OF binary_heap_algorithms binary_heap_algorithms binary_heap_algorithms this, of 0 0]
  have o: "priority_order (binary_push_heap :: (int \<times> int) heap_algorithm) binary_pop_heap (compareBuiltin (<)) (\<lambda>p p'. \<not> p' < p)"
    by blast
  have "pq_history binary_push_heap binary_pop_heap (compareBuiltin (<))
      (PriorityQueue_EnqueueRange binary_push_heap (compareBuiltin (<)) PriorityQueue_ctor [(10, 3), (20, 1), (30, 2)])
      ({#} + mset [(10 :: int, 3 :: int), (20, 1), (30, 2)])"
    by (rule pq_history.enqueued [OF pq_history.created])
  with o show ?thesis unfolding priority_order_def Let_def by (fastforce simp: numeral_3_eq_3)
qed

end
