(* ===== verification/Coll_LinkedList.thy ===== *)
theory Coll_LinkedList
  imports Coll_Enumeration
begin

text \<open>
  \<^verbatim>\<open>LinkedList.hpp\<close> on an explicit heap. A node is an address, \<^verbatim>\<open>shared_ptr\<close> and \<^verbatim>\<open>weak_ptr\<close> links are
  optional addresses (\<open>None\<close> is the null pointer), and several lists share the heap, so that a node
  handle can outlive its list or be passed to a foreign one. A backward link is a \<^verbatim>\<open>weak_ptr\<close>; the
  invariant below shows that it is set only while its target is in the same list and so alive,
  where \<^verbatim>\<open>lock()\<close> returns the target. Loops over the links are partial functions: \<open>None\<close> means that
  they do not return.
\<close>

section \<open>Model: heap\<close>

type_synonym handle = "nat option"

record 'a LinkedListNodeData =
  nd_item :: 'a
  nd_owner :: "nat option"
  nd_next :: handle
  nd_prev :: handle

record LinkedList =
  ll_head :: handle
  ll_tail :: handle
  ll_count :: intcs
  ll_version :: MutationVersion

text \<open>\<open>w_fresh\<close> is the next address \<^verbatim>\<open>make_shared\<close> returns; list objects are named by numbers.\<close>

record 'a world =
  w_node :: "nat \<Rightarrow> 'a LinkedListNodeData"
  w_fresh :: nat
  w_list :: "nat \<Rightarrow> LinkedList"

definition upd_node :: "nat \<Rightarrow> ('a LinkedListNodeData \<Rightarrow> 'a LinkedListNodeData) \<Rightarrow> 'a world \<Rightarrow> 'a world" where
  "upd_node a f w = w\<lparr>w_node := (w_node w)(a := f (w_node w a))\<rparr>"

definition upd_list :: "nat \<Rightarrow> (LinkedList \<Rightarrow> LinkedList) \<Rightarrow> 'a world \<Rightarrow> 'a world" where
  "upd_list l f w = w\<lparr>w_list := (w_list w)(l := f (w_list w l))\<rparr>"

definition LinkedListNodeData_ctor :: "'a \<Rightarrow> 'a LinkedListNodeData" where
  "LinkedListNodeData_ctor v = \<lparr>nd_item = v, nd_owner = None, nd_next = None, nd_prev = None\<rparr>"

definition make_shared :: "'a \<Rightarrow> 'a world \<Rightarrow> nat \<times> 'a world" where
  "make_shared v w =
     (w_fresh w, w\<lparr>w_node := (w_node w)(w_fresh w := LinkedListNodeData_ctor v), w_fresh := Suc (w_fresh w)\<rparr>)"

section \<open>Model: node handles\<close>

definition LinkedListNode_new :: "'a \<Rightarrow> 'a world \<Rightarrow> handle \<times> 'a world" where
  "LinkedListNode_new v w = (case make_shared v w of (a, w') \<Rightarrow> (Some a, w'))"

definition requireNode :: "handle \<Rightarrow> nat res" where
  "requireNode h = (case h of None \<Rightarrow> Inl NullReferenceException | Some a \<Rightarrow> Inr a)"

definition Node_getValue :: "handle \<Rightarrow> 'a world \<Rightarrow> 'a res" where
  "Node_getValue h w = bind_res (requireNode h) (\<lambda>a. Inr (nd_item (w_node w a)))"

definition Node_setValue :: "handle \<Rightarrow> 'a \<Rightarrow> 'a world \<Rightarrow> 'a world res" where
  "Node_setValue h v w = bind_res (requireNode h) (\<lambda>a. Inr (upd_node a (\<lambda>d. d\<lparr>nd_item := v\<rparr>) w))"

definition Node_getList :: "handle \<Rightarrow> 'a world \<Rightarrow> nat option" where
  "Node_getList h w = (case h of None \<Rightarrow> None | Some a \<Rightarrow> nd_owner (w_node w a))"

definition Node_getNext :: "handle \<Rightarrow> 'a world \<Rightarrow> handle" where
  "Node_getNext h w = (case h of None \<Rightarrow> None | Some a \<Rightarrow> nd_next (w_node w a))"

definition Node_getPrevious :: "handle \<Rightarrow> 'a world \<Rightarrow> handle" where
  "Node_getPrevious h w = (case h of None \<Rightarrow> None | Some a \<Rightarrow> nd_prev (w_node w a))"

definition Node_eq_value :: "('a \<Rightarrow> 'a \<Rightarrow> bool) \<Rightarrow> handle \<Rightarrow> 'a \<Rightarrow> 'a world \<Rightarrow> bool" where
  "Node_eq_value eq h other w = (case h of None \<Rightarrow> False | Some a \<Rightarrow> eq (nd_item (w_node w a)) other)"

section \<open>Model: chain surgery\<close>

text \<open>\<open>equalValues\<close> of the element type is the argument \<open>eq\<close>; a list is the \<^verbatim>\<open>this\<close> pointer \<open>l\<close>.\<close>

partial_function (option) detach_loop :: "handle \<Rightarrow> 'a world \<Rightarrow> 'a world option" where
  "detach_loop current w =
     (case current of
        None \<Rightarrow> Some w
      | Some a \<Rightarrow> detach_loop (nd_next (w_node w a))
          (upd_node a (\<lambda>d. d\<lparr>nd_owner := None, nd_next := None, nd_prev := None\<rparr>) w))"

definition detachAll :: "nat \<Rightarrow> 'a world \<Rightarrow> 'a world option" where
  "detachAll l w =
     (let current = ll_head (w_list w l)
      in detach_loop current (upd_list l (\<lambda>L. L\<lparr>ll_head := None, ll_tail := None, ll_count := 0\<rparr>) w))"

definition insertLast :: "nat \<Rightarrow> nat \<Rightarrow> 'a world \<Rightarrow> 'a world" where
  "insertLast l node w =
     (let last = ll_tail (w_list w l);
          w1 = (case last of
                  None \<Rightarrow> upd_list l (\<lambda>L. L\<lparr>ll_head := Some node\<rparr>) w
                | Some p \<Rightarrow> upd_node p (\<lambda>d. d\<lparr>nd_next := Some node\<rparr>)
                              (upd_node node (\<lambda>d. d\<lparr>nd_prev := Some p\<rparr>) w));
          w2 = upd_list l (\<lambda>L. L\<lparr>ll_tail := Some node\<rparr>) w1;
          w3 = upd_node node (\<lambda>d. d\<lparr>nd_owner := Some l\<rparr>) w2
      in upd_list l (\<lambda>L. L\<lparr>ll_count := ll_count L + 1, ll_version := counter_advance (ll_version L)\<rparr>) w3)"

definition insertBefore :: "nat \<Rightarrow> nat \<Rightarrow> nat \<Rightarrow> 'a world \<Rightarrow> 'a world" where
  "insertBefore l position node w =
     (let previous = nd_prev (w_node w position);
          w1 = upd_node node (\<lambda>d. d\<lparr>nd_next := Some position\<rparr>) w;
          w2 = upd_node node (\<lambda>d. d\<lparr>nd_prev := previous\<rparr>) w1;
          w3 = upd_node position (\<lambda>d. d\<lparr>nd_prev := Some node\<rparr>) w2;
          w4 = (case previous of
                  Some p \<Rightarrow> upd_node p (\<lambda>d. d\<lparr>nd_next := Some node\<rparr>) w3
                | None \<Rightarrow> upd_list l (\<lambda>L. L\<lparr>ll_head := Some node\<rparr>) w3);
          w5 = upd_node node (\<lambda>d. d\<lparr>nd_owner := Some l\<rparr>) w4
      in upd_list l (\<lambda>L. L\<lparr>ll_count := ll_count L + 1, ll_version := counter_advance (ll_version L)\<rparr>) w5)"

definition insertAfter :: "nat \<Rightarrow> nat \<Rightarrow> nat \<Rightarrow> 'a world \<Rightarrow> 'a world" where
  "insertAfter l position node w =
     (case nd_next (w_node w position) of
        Some q \<Rightarrow> insertBefore l q node w
      | None \<Rightarrow> insertLast l node w)"

definition unlink :: "nat \<Rightarrow> nat \<Rightarrow> 'a world \<Rightarrow> 'a world" where
  "unlink l node w =
     (let previous = nd_prev (w_node w node);
          nxt = nd_next (w_node w node);
          w1 = (case previous of
                  Some p \<Rightarrow> upd_node p (\<lambda>d. d\<lparr>nd_next := nxt\<rparr>) w
                | None \<Rightarrow> upd_list l (\<lambda>L. L\<lparr>ll_head := nxt\<rparr>) w);
          w2 = (case nxt of
                  Some q \<Rightarrow> upd_node q (\<lambda>d. d\<lparr>nd_prev := previous\<rparr>) w1
                | None \<Rightarrow> upd_list l (\<lambda>L. L\<lparr>ll_tail := previous\<rparr>) w1);
          w3 = upd_node node (\<lambda>d. d\<lparr>nd_owner := None, nd_next := None, nd_prev := None\<rparr>) w2
      in upd_list l (\<lambda>L. L\<lparr>ll_count := ll_count L - 1, ll_version := counter_advance (ll_version L)\<rparr>) w3)"

text \<open>The loop reads \<^verbatim>\<open>current->next\<close> after the insertion, in the heap the insertion left.\<close>

partial_function (option) copyNodesFrom_loop :: "nat \<Rightarrow> handle \<Rightarrow> 'a world \<Rightarrow> 'a world option" where
  "copyNodesFrom_loop l current w =
     (case current of
        None \<Rightarrow> Some w
      | Some a \<Rightarrow>
          (case make_shared (nd_item (w_node w a)) w of
             (n, w1) \<Rightarrow> let w2 = insertLast l n w1 in copyNodesFrom_loop l (nd_next (w_node w2 a)) w2))"

definition copyNodesFrom :: "nat \<Rightarrow> nat \<Rightarrow> 'a world \<Rightarrow> 'a world option" where
  "copyNodesFrom l other w = copyNodesFrom_loop l (ll_head (w_list w other)) w"

partial_function (option) adopt_loop :: "nat \<Rightarrow> handle \<Rightarrow> 'a world \<Rightarrow> 'a world option" where
  "adopt_loop l current w =
     (case current of
        None \<Rightarrow> Some w
      | Some a \<Rightarrow>
          let w1 = upd_node a (\<lambda>d. d\<lparr>nd_owner := Some l\<rparr>) w
          in adopt_loop l (nd_next (w_node w1 a)) w1)"

definition adoptNodesFrom :: "nat \<Rightarrow> nat \<Rightarrow> 'a world \<Rightarrow> 'a world option" where
  "adoptNodesFrom l other w =
     (let O1 = w_list w other;
          w1 = upd_list other (\<lambda>L. L\<lparr>ll_head := None\<rparr>)
                 (upd_list l (\<lambda>L. L\<lparr>ll_head := ll_head O1, ll_tail := ll_tail O1, ll_count := ll_count O1\<rparr>) w)
      in map_option
           (upd_list other (\<lambda>L. L\<lparr>ll_head := None, ll_tail := None, ll_count := 0,
                                    ll_version := counter_advance (ll_version L)\<rparr>))
           (adopt_loop l (ll_head (w_list w1 l)) w1))"

section \<open>Model: validation and lifetime\<close>

definition ForeignNode :: exn where
  "ForeignNode = InvalidOperationException ''The LinkedList node does not belong to current LinkedList.''"

definition AttachedNode :: exn where
  "AttachedNode = InvalidOperationException ''The LinkedList node already belongs to a LinkedList.''"

definition EmptyList :: exn where
  "EmptyList = InvalidOperationException ''The LinkedList is empty.''"

definition validateNode :: "nat \<Rightarrow> handle \<Rightarrow> 'a world \<Rightarrow> nat res" where
  "validateNode l h w =
     (case h of
        None \<Rightarrow> Inl (ArgumentNullException ''node'')
      | Some a \<Rightarrow> if nd_owner (w_node w a) \<noteq> Some l then Inl ForeignNode else Inr a)"

definition validateNewNode :: "handle \<Rightarrow> 'a world \<Rightarrow> nat res" where
  "validateNewNode h w =
     (case h of
        None \<Rightarrow> Inl (ArgumentNullException ''node'')
      | Some a \<Rightarrow> if nd_owner (w_node w a) \<noteq> None then Inl AttachedNode else Inr a)"

definition LinkedList_empty :: LinkedList where
  "LinkedList_empty = \<lparr>ll_head = None, ll_tail = None, ll_count = 0, ll_version = 0\<rparr>"

definition LinkedList_ctor :: "nat \<Rightarrow> 'a world \<Rightarrow> 'a world" where
  "LinkedList_ctor l w = upd_list l (\<lambda>_. LinkedList_empty) w"

definition LinkedList_dtor :: "nat \<Rightarrow> 'a world \<Rightarrow> 'a world option" where
  "LinkedList_dtor l w = detachAll l w"

definition LinkedList_copy_ctor :: "nat \<Rightarrow> nat \<Rightarrow> 'a world \<Rightarrow> 'a world option" where
  "LinkedList_copy_ctor l other w = copyNodesFrom l other (LinkedList_ctor l w)"

definition LinkedList_move_ctor :: "nat \<Rightarrow> nat \<Rightarrow> 'a world \<Rightarrow> 'a world option" where
  "LinkedList_move_ctor l other w = adoptNodesFrom l other (LinkedList_ctor l w)"

definition bump :: "nat \<Rightarrow> 'a world \<Rightarrow> 'a world" where
  "bump l = upd_list l (\<lambda>L. L\<lparr>ll_version := counter_advance (ll_version L)\<rparr>)"

definition LinkedList_copy_assign :: "nat \<Rightarrow> nat \<Rightarrow> 'a world \<Rightarrow> 'a world option" where
  "LinkedList_copy_assign l other w =
     (if l \<noteq> other
      then Option.bind (detachAll l w) (\<lambda>w1. copyNodesFrom l other (bump l w1))
      else Some w)"

definition LinkedList_move_assign :: "nat \<Rightarrow> nat \<Rightarrow> 'a world \<Rightarrow> 'a world option" where
  "LinkedList_move_assign l other w =
     (if l \<noteq> other
      then Option.bind (detachAll l w) (\<lambda>w1. adoptNodesFrom l other (bump l w1))
      else Some w)"

section \<open>Model: list operations\<close>

definition LL_Count :: "nat \<Rightarrow> 'a world \<Rightarrow> intcs" where
  "LL_Count l w = ll_count (w_list w l)"

definition LL_First :: "nat \<Rightarrow> 'a world \<Rightarrow> handle" where
  "LL_First l w = ll_head (w_list w l)"

definition LL_Last :: "nat \<Rightarrow> 'a world \<Rightarrow> handle" where
  "LL_Last l w = ll_tail (w_list w l)"

definition insertFirst :: "nat \<Rightarrow> nat \<Rightarrow> 'a world \<Rightarrow> 'a world" where
  "insertFirst l node w =
     (case ll_head (w_list w l) of Some h \<Rightarrow> insertBefore l h node w | None \<Rightarrow> insertLast l node w)"

definition LL_AddFirst :: "nat \<Rightarrow> 'a \<Rightarrow> 'a world \<Rightarrow> handle \<times> 'a world" where
  "LL_AddFirst l v w = (case make_shared v w of (n, w1) \<Rightarrow> (Some n, insertFirst l n w1))"

definition LL_AddFirst_node :: "nat \<Rightarrow> handle \<Rightarrow> 'a world \<Rightarrow> 'a world res" where
  "LL_AddFirst_node l h w = bind_res (validateNewNode h w) (\<lambda>n. Inr (insertFirst l n w))"

definition LL_AddLast :: "nat \<Rightarrow> 'a \<Rightarrow> 'a world \<Rightarrow> handle \<times> 'a world" where
  "LL_AddLast l v w = (case make_shared v w of (n, w1) \<Rightarrow> (Some n, insertLast l n w1))"

definition LL_AddLast_node :: "nat \<Rightarrow> handle \<Rightarrow> 'a world \<Rightarrow> 'a world res" where
  "LL_AddLast_node l h w = bind_res (validateNewNode h w) (\<lambda>n. Inr (insertLast l n w))"

definition LL_AddBefore :: "nat \<Rightarrow> handle \<Rightarrow> 'a \<Rightarrow> 'a world \<Rightarrow> (handle \<times> 'a world) res" where
  "LL_AddBefore l h v w =
     bind_res (validateNode l h w)
       (\<lambda>p. case make_shared v w of (n, w1) \<Rightarrow> Inr (Some n, insertBefore l p n w1))"

definition LL_AddBefore_node :: "nat \<Rightarrow> handle \<Rightarrow> handle \<Rightarrow> 'a world \<Rightarrow> 'a world res" where
  "LL_AddBefore_node l h new w =
     bind_res (validateNode l h w) (\<lambda>p. bind_res (validateNewNode new w) (\<lambda>n. Inr (insertBefore l p n w)))"

definition LL_AddAfter :: "nat \<Rightarrow> handle \<Rightarrow> 'a \<Rightarrow> 'a world \<Rightarrow> (handle \<times> 'a world) res" where
  "LL_AddAfter l h v w =
     bind_res (validateNode l h w)
       (\<lambda>p. case make_shared v w of (n, w1) \<Rightarrow> Inr (Some n, insertAfter l p n w1))"

definition LL_AddAfter_node :: "nat \<Rightarrow> handle \<Rightarrow> handle \<Rightarrow> 'a world \<Rightarrow> 'a world res" where
  "LL_AddAfter_node l h new w =
     bind_res (validateNode l h w) (\<lambda>p. bind_res (validateNewNode new w) (\<lambda>n. Inr (insertAfter l p n w)))"

definition LL_RemoveFirst :: "nat \<Rightarrow> 'a world \<Rightarrow> 'a world res" where
  "LL_RemoveFirst l w =
     (case ll_head (w_list w l) of None \<Rightarrow> Inl EmptyList | Some a \<Rightarrow> Inr (unlink l a w))"

definition LL_RemoveLast :: "nat \<Rightarrow> 'a world \<Rightarrow> 'a world res" where
  "LL_RemoveLast l w =
     (case ll_tail (w_list w l) of None \<Rightarrow> Inl EmptyList | Some a \<Rightarrow> Inr (unlink l a w))"

partial_function (option) find_loop :: "('a \<Rightarrow> bool) \<Rightarrow> 'a world \<Rightarrow> handle \<Rightarrow> handle option" where
  "find_loop P w current =
     (case current of
        None \<Rightarrow> Some None
      | Some a \<Rightarrow> if P (nd_item (w_node w a)) then Some (Some a)
                  else find_loop P w (nd_next (w_node w a)))"

partial_function (option) find_last_loop :: "('a \<Rightarrow> bool) \<Rightarrow> 'a world \<Rightarrow> handle \<Rightarrow> handle option" where
  "find_last_loop P w current =
     (case current of
        None \<Rightarrow> Some None
      | Some a \<Rightarrow> if P (nd_item (w_node w a)) then Some (Some a)
                  else find_last_loop P w (nd_prev (w_node w a)))"

definition LL_Find :: "('a \<Rightarrow> 'a \<Rightarrow> bool) \<Rightarrow> nat \<Rightarrow> 'a \<Rightarrow> 'a world \<Rightarrow> handle option" where
  "LL_Find eq l v w = find_loop (\<lambda>x. eq x v) w (ll_head (w_list w l))"

definition LL_FindLast :: "('a \<Rightarrow> 'a \<Rightarrow> bool) \<Rightarrow> nat \<Rightarrow> 'a \<Rightarrow> 'a world \<Rightarrow> handle option" where
  "LL_FindLast eq l v w = find_last_loop (\<lambda>x. eq x v) w (ll_tail (w_list w l))"

definition LL_Contains :: "('a \<Rightarrow> 'a \<Rightarrow> bool) \<Rightarrow> nat \<Rightarrow> 'a \<Rightarrow> 'a world \<Rightarrow> bool option" where
  "LL_Contains eq l v w = map_option (\<lambda>r. r \<noteq> None) (find_loop (\<lambda>x. eq x v) w (ll_head (w_list w l)))"

definition LL_Remove :: "('a \<Rightarrow> 'a \<Rightarrow> bool) \<Rightarrow> nat \<Rightarrow> 'a \<Rightarrow> 'a world \<Rightarrow> (bool \<times> 'a world) option" where
  "LL_Remove eq l v w =
     map_option (\<lambda>r. case r of Some a \<Rightarrow> (True, unlink l a w) | None \<Rightarrow> (False, w))
       (find_loop (\<lambda>x. eq x v) w (ll_head (w_list w l)))"

definition LL_Remove_node :: "nat \<Rightarrow> handle \<Rightarrow> 'a world \<Rightarrow> 'a world res" where
  "LL_Remove_node l h w = bind_res (validateNode l h w) (\<lambda>a. Inr (unlink l a w))"

definition LL_Clear :: "nat \<Rightarrow> 'a world \<Rightarrow> 'a world option" where
  "LL_Clear l w = map_option (bump l) (detachAll l w)"

partial_function (option) copyTo_loop :: "'a world \<Rightarrow> handle \<Rightarrow> 'a list \<Rightarrow> nat \<Rightarrow> 'a list option" where
  "copyTo_loop w current dest index =
     (case current of
        None \<Rightarrow> Some dest
      | Some a \<Rightarrow> copyTo_loop w (nd_next (w_node w a)) (dest[index := nd_item (w_node w a)]) (Suc index))"

definition LL_CopyTo :: "nat \<Rightarrow> 'a list \<Rightarrow> intcs \<Rightarrow> 'a world \<Rightarrow> 'a list res option" where
  "LL_CopyTo l dest index w =
     (if index < 0 then Some (Inl (ArgumentOutOfRangeException ''index''))
      else if int (length dest) < index then Some (Inl (ArgumentOutOfRangeException ''index''))
      else if int (length dest) - index < ll_count (w_list w l) then Some (Inl (ArgumentException ''''))
      else map_option Inr (copyTo_loop w (ll_head (w_list w l)) dest (nat index)))"

section \<open>Model: enumerator and iterator\<close>

record ll_enumerator =
  le_version :: MutationVersion
  le_cur :: handle
  le_started :: bool
  le_state :: Position

definition LL_GetEnumerator :: "nat \<Rightarrow> 'a world \<Rightarrow> ll_enumerator" where
  "LL_GetEnumerator l w =
     \<lparr>le_version = ll_version (w_list w l), le_cur = ll_head (w_list w l), le_started = False, le_state = BeforeFirst\<rparr>"

definition LL_MoveNext :: "nat \<Rightarrow> 'a world \<Rightarrow> ll_enumerator \<Rightarrow> (bool \<times> ll_enumerator) res" where
  "LL_MoveNext l w e =
     bind_res (requireUnmodified (le_version e = ll_version (w_list w l)))
       (\<lambda>_. if isAfterLast (le_state e) then Inr (False, e)
            else
              let cur = (if \<not> le_started e then le_cur e
                         else case le_cur e of None \<Rightarrow> None | Some a \<Rightarrow> nd_next (w_node w a))
              in if cur \<noteq> None then Inr (True, e\<lparr>le_cur := cur, le_started := True, le_state := OnCurrent\<rparr>)
                 else Inr (False, e\<lparr>le_cur := cur, le_started := True, le_state := AfterLast\<rparr>))"

definition LL_EnumReset :: "nat \<Rightarrow> 'a world \<Rightarrow> ll_enumerator \<Rightarrow> ll_enumerator res" where
  "LL_EnumReset l w e =
     bind_res (requireUnmodified (le_version e = ll_version (w_list w l)))
       (\<lambda>_. Inr (e\<lparr>le_cur := ll_head (w_list w l), le_started := False, le_state := BeforeFirst\<rparr>))"

text \<open>A null \<^verbatim>\<open>cur_\<close> in state \<open>OnCurrent\<close> would be a null dereference; no enumerator gets there.\<close>

definition LL_Current :: "'a world \<Rightarrow> ll_enumerator \<Rightarrow> 'a res" where
  "LL_Current w e =
     bind_res (requireCurrent (le_state e)) (\<lambda>_. Inr (nd_item (w_node w (the (le_cur e)))))"

record ll_iterator =
  it_node :: handle
  it_list :: nat

definition LL_begin :: "nat \<Rightarrow> 'a world \<Rightarrow> ll_iterator" where
  "LL_begin l w = \<lparr>it_node = ll_head (w_list w l), it_list = l\<rparr>"

definition LL_end :: "nat \<Rightarrow> ll_iterator" where
  "LL_end l = \<lparr>it_node = None, it_list = l\<rparr>"

text \<open>Dereferencing or advancing an iterator without a node is undefined behaviour: \<open>None\<close>.\<close>

definition iter_deref :: "'a world \<Rightarrow> ll_iterator \<Rightarrow> 'a option" where
  "iter_deref w i = map_option (\<lambda>a. nd_item (w_node w a)) (it_node i)"

definition iter_inc :: "'a world \<Rightarrow> ll_iterator \<Rightarrow> ll_iterator option" where
  "iter_inc w i = map_option (\<lambda>a. i\<lparr>it_node := nd_next (w_node w a)\<rparr>) (it_node i)"

definition iter_dec :: "'a world \<Rightarrow> ll_iterator \<Rightarrow> ll_iterator" where
  "iter_dec w i =
     i\<lparr>it_node := (case it_node i of Some a \<Rightarrow> nd_prev (w_node w a) | None \<Rightarrow> ll_tail (w_list w (it_list i)))\<rparr>"

section \<open>Chains\<close>

text \<open>
  \<open>lseg N p xs q\<close>: the nodes \<open>xs\<close> form a doubly linked segment of the heap \<open>N\<close> whose first node
  links back to \<open>p\<close> and whose last node links on to \<open>q\<close>.
\<close>

definition first_or :: "nat list \<Rightarrow> handle \<Rightarrow> handle" where
  "first_or xs q = (case xs of [] \<Rightarrow> q | a # _ \<Rightarrow> Some a)"

definition last_or :: "handle \<Rightarrow> nat list \<Rightarrow> handle" where
  "last_or p xs = (if xs = [] then p else Some (last xs))"

lemma first_or_simps [simp]: "first_or [] q = q" "first_or (a # xs) q = Some a"
  by (simp_all add: first_or_def)

lemma last_or_simps [simp]:
  "last_or p [] = p" "last_or p (a # xs) = last_or (Some a) xs" "last_or p (xs @ [a]) = Some a"
  by (simp_all add: last_or_def)

lemma first_or_append [simp]: "first_or (xs @ ys) q = first_or xs (first_or ys q)"
  by (cases xs) simp_all

lemma last_or_append [simp]: "last_or p (xs @ ys) = last_or (last_or p xs) ys"
  by (simp add: last_or_def)

lemma first_or_None [simp]: "first_or xs None = None \<longleftrightarrow> xs = []"
  by (cases xs) simp_all

lemma last_or_None [simp]: "last_or None xs = None \<longleftrightarrow> xs = []"
  by (simp add: last_or_def)

lemma first_or_any: "xs \<noteq> [] \<Longrightarrow> first_or xs q = first_or xs q'"
  by (cases xs) simp_all

lemma last_or_SomeD: "last_or None xs = Some a \<Longrightarrow> a \<in> set xs"
  by (auto simp: last_or_def split: if_splits)

lemma first_or_SomeD: "first_or xs None = Some a \<Longrightarrow> a \<in> set xs"
  by (cases xs) auto

primrec lseg :: "(nat \<Rightarrow> 'a LinkedListNodeData) \<Rightarrow> handle \<Rightarrow> nat list \<Rightarrow> handle \<Rightarrow> bool" where
  "lseg N p [] q \<longleftrightarrow> True"
| "lseg N p (a # xs) q \<longleftrightarrow> nd_prev (N a) = p \<and> nd_next (N a) = first_or xs q \<and> lseg N (Some a) xs q"

lemma lseg_append [simp]:
  "lseg N p (xs @ ys) q \<longleftrightarrow> lseg N p xs (first_or ys q) \<and> lseg N (last_or p xs) ys q"
  by (induction xs arbitrary: p) auto

lemma lseg_frame:
  assumes "lseg N p xs q"
    and "\<And>a. a \<in> set xs \<Longrightarrow> nd_prev (M a) = nd_prev (N a) \<and> nd_next (M a) = nd_next (N a)"
  shows "lseg M p xs q"
  using assms by (induction xs arbitrary: p) simp_all

text \<open>Only the first node knows \<open>p\<close> and only the last node knows \<open>q\<close>.\<close>

lemma lseg_relink_last:
  assumes "lseg N p xs q" and "distinct xs" and "xs \<noteq> []"
    and "nd_next (M (last xs)) = q'" and "nd_prev (M (last xs)) = nd_prev (N (last xs))"
    and "\<And>a. a \<in> set xs \<Longrightarrow> a \<noteq> last xs \<Longrightarrow>
           nd_prev (M a) = nd_prev (N a) \<and> nd_next (M a) = nd_next (N a)"
  shows "lseg M p xs q'"
proof -
  obtain ys a where xs: "xs = ys @ [a]" using assms(3) by (cases xs rule: rev_cases) auto
  have "lseg M p ys (Some a)"
  proof (rule lseg_frame [of N])
    show "lseg N p ys (Some a)" using assms(1) xs by simp
    show "nd_prev (M b) = nd_prev (N b) \<and> nd_next (M b) = nd_next (N b)" if "b \<in> set ys" for b
      using assms(6) [of b] assms(2) xs that by fastforce
  qed
  with assms(1,4,5) xs show ?thesis by simp
qed

lemma lseg_relink_first:
  assumes "lseg N p xs q" and "distinct xs" and "xs \<noteq> []"
    and "nd_prev (M (hd xs)) = p'" and "nd_next (M (hd xs)) = nd_next (N (hd xs))"
    and "\<And>a. a \<in> set xs \<Longrightarrow> a \<noteq> hd xs \<Longrightarrow>
           nd_prev (M a) = nd_prev (N a) \<and> nd_next (M a) = nd_next (N a)"
  shows "lseg M p' xs q"
proof -
  obtain ys a where xs: "xs = a # ys" using assms(3) by (cases xs) auto
  have "lseg M (Some a) ys q"
  proof (rule lseg_frame [of N])
    show "lseg N (Some a) ys q" using assms(1) xs by simp
    show "nd_prev (M b) = nd_prev (N b) \<and> nd_next (M b) = nd_next (N b)" if "b \<in> set ys" for b
      using assms(6) [of b] assms(2) xs that by fastforce
  qed
  with assms(1,4,5) xs show ?thesis by simp
qed

section \<open>Invariant\<close>

text \<open>
  \<open>chain w l xs\<close>: the list object \<open>l\<close> holds exactly the nodes \<open>xs\<close> in this order. \<open>ll_inv w ns\<close>: every
  list object \<open>l\<close> holds \<open>ns l\<close>, a node belongs to at most the list it names as its owner, and a
  node without owner has no links.
\<close>

definition chain :: "'a world \<Rightarrow> nat \<Rightarrow> nat list \<Rightarrow> bool" where
  "chain w l xs \<longleftrightarrow>
     ll_head (w_list w l) = first_or xs None \<and> ll_tail (w_list w l) = last_or None xs \<and>
     ll_count (w_list w l) = int (length xs) \<and> distinct xs \<and> lseg (w_node w) None xs None"

definition ll_inv :: "'a world \<Rightarrow> (nat \<Rightarrow> nat list) \<Rightarrow> bool" where
  "ll_inv w ns \<longleftrightarrow>
     (\<forall>l. chain w l (ns l)) \<and>
     (\<forall>a l. nd_owner (w_node w a) = Some l \<longleftrightarrow> a \<in> set (ns l)) \<and>
     (\<forall>a. nd_owner (w_node w a) = None \<longrightarrow> nd_next (w_node w a) = None \<and> nd_prev (w_node w a) = None) \<and>
     (\<forall>a l. a \<in> set (ns l) \<longrightarrow> a < w_fresh w)"

lemma ll_invD:
  assumes "ll_inv w ns"
  shows "chain w l (ns l)" "nd_owner (w_node w a) = Some l \<longleftrightarrow> a \<in> set (ns l)"
    "nd_owner (w_node w a) = None \<Longrightarrow> nd_next (w_node w a) = None"
    "nd_owner (w_node w a) = None \<Longrightarrow> nd_prev (w_node w a) = None"
    "a \<in> set (ns l) \<Longrightarrow> a < w_fresh w"
  using assms by (auto simp: ll_inv_def)

text \<open>A node is in at most one list.\<close>

lemma ll_inv_unique: "ll_inv w ns \<Longrightarrow> a \<in> set (ns l) \<Longrightarrow> a \<in> set (ns k) \<Longrightarrow> l = k"
  by (metis ll_invD(2) option.inject)

text \<open>A list object keeps its chain when the heap changes elsewhere.\<close>

lemma chain_frame:
  assumes "chain w l xs" and "w_list w' l = w_list w l"
    and "\<And>a. a \<in> set xs \<Longrightarrow> nd_prev (w_node w' a) = nd_prev (w_node w a) \<and> nd_next (w_node w' a) = nd_next (w_node w a)"
  shows "chain w' l xs"
  using assms by (auto simp: chain_def intro: lseg_frame [of "w_node w"])

text \<open>
  To re-establish the invariant after an operation on list \<open>l\<close>: its new chain, which other nodes
  changed, and the ownership of the changed nodes.
\<close>

lemma ll_inv_update:
  assumes "ll_inv w ns" and "chain w' l xs"
    and "\<And>k. k \<noteq> l \<Longrightarrow> w_list w' k = w_list w k"
    and "\<And>a k. k \<noteq> l \<Longrightarrow> a \<in> set (ns k) \<Longrightarrow> w_node w' a = w_node w a"
    and "\<And>a. a \<in> set xs \<Longrightarrow> nd_owner (w_node w' a) = Some l \<and> a < w_fresh w'"
    and "\<And>a. a \<notin> set xs \<Longrightarrow> a \<in> set (ns l) \<Longrightarrow>
           nd_owner (w_node w' a) = None \<and> nd_next (w_node w' a) = None \<and> nd_prev (w_node w' a) = None"
    and "\<And>a. a \<notin> set xs \<Longrightarrow> a \<notin> set (ns l) \<Longrightarrow>
           nd_owner (w_node w' a) = nd_owner (w_node w a) \<and> nd_next (w_node w' a) = nd_next (w_node w a) \<and>
           nd_prev (w_node w' a) = nd_prev (w_node w a)"
    and "w_fresh w \<le> w_fresh w'"
  shows "ll_inv w' (ns(l := xs))"
proof -
  have owner: "nd_owner (w_node w' a) = Some k \<longleftrightarrow> a \<in> set ((ns(l := xs)) k)" for a k
  proof (cases "a \<in> set xs")
    case True
    then show ?thesis using assms(4,5) ll_invD(2) [OF assms(1)]
      by (metis fun_upd_apply option.inject)
  next
    case False
    then show ?thesis
      using assms(6) [of a] assms(7) [of a] ll_invD(2) [OF assms(1), of a k] ll_inv_unique [OF assms(1), of a k l]
        ll_invD(2) [OF assms(1), of a l]
      by (cases "a \<in> set (ns l)"; cases "k = l") auto
  qed
  have links: "nd_next (w_node w' a) = None \<and> nd_prev (w_node w' a) = None"
    if "nd_owner (w_node w' a) = None" for a
    using that assms(5-7) ll_invD(3,4) [OF assms(1)] by (metis option.distinct(1))
  have "chain w' k ((ns(l := xs)) k)" for k
    using assms(2) chain_frame [OF ll_invD(1) [OF assms(1), of k] assms(3)] assms(4)
    by (cases "k = l") simp_all
  moreover have "a < w_fresh w'" if "a \<in> set ((ns(l := xs)) k)" for a k
    using that assms(5,8) ll_invD(5) [OF assms(1)] by (fastforce split: if_splits)
  ultimately show ?thesis using owner links by (auto simp: ll_inv_def)
qed

section \<open>Surgery keeps the invariant\<close>

lemmas upd_simps = upd_node_def upd_list_def Let_def

lemma ll_inv_split:
  assumes "ll_inv w ns" and "a \<in> set (ns l)"
  obtains xs ys where "ns l = xs @ a # ys" "distinct (xs @ a # ys)"
    "lseg (w_node w) None xs (Some a)" "nd_prev (w_node w a) = last_or None xs"
    "nd_next (w_node w a) = first_or ys None" "lseg (w_node w) (Some a) ys None"
proof -
  from split_list [OF assms(2)] obtain xs ys where ns: "ns l = xs @ a # ys" by blast
  with ll_invD(1) [OF assms(1), of l] show thesis by (intro that) (auto simp: chain_def)
qed

text \<open>What the surgery leaves alone, and the version it advances.\<close>

lemma insertLast_frame [simp]:
  "w_fresh (insertLast l n w) = w_fresh w"
  "nd_item (w_node (insertLast l n w) a) = nd_item (w_node w a)"
  "ll_version (w_list (insertLast l n w) k) = (if k = l then ll_version (w_list w k) + 1 else ll_version (w_list w k))"
  by (simp_all add: insertLast_def upd_simps counter_advance_def split: option.split)

lemma insertBefore_frame [simp]:
  "w_fresh (insertBefore l p n w) = w_fresh w"
  "nd_item (w_node (insertBefore l p n w) a) = nd_item (w_node w a)"
  "ll_version (w_list (insertBefore l p n w) k) = (if k = l then ll_version (w_list w k) + 1 else ll_version (w_list w k))"
  by (simp_all add: insertBefore_def upd_simps counter_advance_def split: option.split)

lemma insertAfter_frame [simp]:
  "w_fresh (insertAfter l p n w) = w_fresh w"
  "nd_item (w_node (insertAfter l p n w) a) = nd_item (w_node w a)"
  "ll_version (w_list (insertAfter l p n w) k) = (if k = l then ll_version (w_list w k) + 1 else ll_version (w_list w k))"
  by (simp_all add: insertAfter_def split: option.split)

lemma insertFirst_frame [simp]:
  "w_fresh (insertFirst l n w) = w_fresh w"
  "nd_item (w_node (insertFirst l n w) a) = nd_item (w_node w a)"
  "ll_version (w_list (insertFirst l n w) k) = (if k = l then ll_version (w_list w k) + 1 else ll_version (w_list w k))"
  by (simp_all add: insertFirst_def split: option.split)

lemma unlink_frame [simp]:
  "w_fresh (unlink l a w) = w_fresh w"
  "nd_item (w_node (unlink l a w) b) = nd_item (w_node w b)"
  "ll_version (w_list (unlink l a w) k) = (if k = l then ll_version (w_list w k) + 1 else ll_version (w_list w k))"
  by (simp_all add: unlink_def upd_simps counter_advance_def split: option.split)

text \<open>The list object after each kind of surgery, and the nodes it touches.\<close>

lemma insertLast_list:
  "w_list (insertLast l n w) =
     (w_list w)(l := (w_list w l)\<lparr>ll_head := (if ll_tail (w_list w l) = None then Some n else ll_head (w_list w l)),
        ll_tail := Some n, ll_count := ll_count (w_list w l) + 1, ll_version := ll_version (w_list w l) + 1\<rparr>)"
  by (cases "w_list w l") (simp add: insertLast_def upd_simps counter_advance_def split: option.split)

lemma insertLast_node:
  assumes "ll_tail (w_list w l) \<noteq> Some n"
  shows "w_node (insertLast l n w) a =
     (if a = n then (w_node w n)\<lparr>nd_owner := Some l,
                       nd_prev := (case ll_tail (w_list w l) of None \<Rightarrow> nd_prev (w_node w n) | Some p \<Rightarrow> Some p)\<rparr>
      else if ll_tail (w_list w l) = Some a then (w_node w a)\<lparr>nd_next := Some n\<rparr>
      else w_node w a)"
  using assms by (auto simp: insertLast_def upd_simps split: option.split)

lemma insertLast_inv:
  assumes "ll_inv w ns" and "nd_owner (w_node w n) = None" and "n < w_fresh w"
  shows "ll_inv (insertLast l n w) (ns(l := ns l @ [n]))"
proof -
  have chn: "ll_head (w_list w l) = first_or (ns l) None" "ll_tail (w_list w l) = last_or None (ns l)"
    "ll_count (w_list w l) = int (length (ns l))" "distinct (ns l)" "lseg (w_node w) None (ns l) None"
    using ll_invD(1) [OF assms(1), of l] by (simp_all add: chain_def)
  have new: "n \<notin> set (ns k)" for k using ll_invD(2) [OF assms(1), of n k] assms(2) by simp
  from new [of l] have tail: "ll_tail (w_list w l) \<noteq> Some n" using chn(2) by (auto simp: last_or_def split: if_splits)
  note node = insertLast_node [OF tail]
  have seg: "lseg (w_node (insertLast l n w)) None (ns l) (Some n)"
  proof (cases "ns l = []")
    case False
    with chn(2) new [of l] show ?thesis
      by (intro lseg_relink_last [OF chn(5,4)]) (auto simp: node last_or_def)
  qed simp
  show ?thesis
  proof (rule ll_inv_update [OF assms(1)])
    show "chain (insertLast l n w) l (ns l @ [n])"
      using seg chn new [of l] ll_invD(3,4) [OF assms(1,2)]
      by (auto simp: chain_def insertLast_list node last_or_def first_or_def split: list.split)
  qed (use new chn(2) assms(3) ll_invD [OF assms(1)] ll_inv_unique [OF assms(1)] in
       \<open>auto simp: insertLast_list node last_or_def split: if_splits\<close>)
qed

lemma insertBefore_node:
  assumes "n \<noteq> p" and "nd_prev (w_node w p) \<noteq> Some n" and "nd_prev (w_node w p) \<noteq> Some p"
  shows "w_node (insertBefore l p n w) a =
     (if a = n then (w_node w n)\<lparr>nd_owner := Some l, nd_next := Some p, nd_prev := nd_prev (w_node w p)\<rparr>
      else if a = p then (w_node w p)\<lparr>nd_prev := Some n\<rparr>
      else if nd_prev (w_node w p) = Some a then (w_node w a)\<lparr>nd_next := Some n\<rparr>
      else w_node w a)"
  using assms by (auto simp: insertBefore_def upd_simps split: option.split)

lemma insertBefore_list:
  "w_list (insertBefore l p n w) =
     (w_list w)(l := (w_list w l)\<lparr>ll_head := (if nd_prev (w_node w p) = None then Some n else ll_head (w_list w l)),
        ll_count := ll_count (w_list w l) + 1, ll_version := ll_version (w_list w l) + 1\<rparr>)"
  by (cases "w_list w l") (simp add: insertBefore_def upd_simps counter_advance_def split: option.split)

lemma insertBefore_inv:
  assumes "ll_inv w ns" and "ns l = xs @ p # ys" and "nd_owner (w_node w n) = None" and "n < w_fresh w"
  shows "ll_inv (insertBefore l p n w) (ns(l := xs @ n # p # ys))"
proof -
  have chn: "ll_head (w_list w l) = first_or (xs @ p # ys) None" "ll_tail (w_list w l) = last_or None (xs @ p # ys)"
    "ll_count (w_list w l) = int (length (xs @ p # ys))" "distinct (xs @ p # ys)"
    "lseg (w_node w) None (xs @ p # ys) None"
    using ll_invD(1) [OF assms(1), of l] unfolding chain_def assms(2) by blast+
  have new: "n \<notin> set (ns k)" for k using ll_invD(2) [OF assms(1), of n k] assms(3) by simp
  from new [of l] assms(2) have n: "n \<noteq> p" "n \<notin> set xs" "n \<notin> set ys" by auto
  have prev: "nd_prev (w_node w p) = last_or None xs" using chn(5) by simp
  then have prevs: "nd_prev (w_node w p) \<noteq> Some n" "nd_prev (w_node w p) \<noteq> Some p"
    using n chn(4) by (auto simp: last_or_def split: if_splits)
  note node = insertBefore_node [OF n(1) prevs]
  have seg1: "lseg (w_node (insertBefore l p n w)) None xs (Some n)"
  proof (cases "xs = []")
    case False
    then have l: "nd_prev (w_node w p) = Some (last xs)" "last xs \<in> set xs" using prev by (simp_all add: last_or_def)
    with n chn(4) have node': "w_node (insertBefore l p n w) a =
        (if a = last xs then (w_node w a)\<lparr>nd_next := Some n\<rparr> else w_node w a)" if "a \<in> set xs" for a
      using that by (auto simp: node)
    show ?thesis
      by (rule lseg_relink_last [of "w_node w" None xs "Some p"]) (use chn(4,5) False l(2) in \<open>simp_all add: node'\<close>)
  qed simp
  have seg2: "lseg (w_node (insertBefore l p n w)) (Some p) ys None"
  proof (rule lseg_frame [of "w_node w"])
    show "lseg (w_node w) (Some p) ys None" using chn(5) by simp
    show "nd_prev (w_node (insertBefore l p n w) a) = nd_prev (w_node w a) \<and>
          nd_next (w_node (insertBefore l p n w) a) = nd_next (w_node w a)" if "a \<in> set ys" for a
      using that n chn(4) prev last_or_SomeD [of xs a] by (auto simp: node)
  qed
  show ?thesis
  proof (rule ll_inv_update [OF assms(1)])
    show "chain (insertBefore l p n w) l (xs @ n # p # ys)"
      using seg1 seg2 chn n prev first_or_any [of xs "Some p" "Some n"]
      by (auto simp: chain_def insertBefore_list node)
    show "nd_owner (w_node (insertBefore l p n w) a) = Some l \<and> a < w_fresh (insertBefore l p n w)"
      if "a \<in> set (xs @ n # p # ys)" for a
      using that n ll_invD(2,5) [OF assms(1), of a l] assms(2,4) by (auto simp: node)
    show "w_node (insertBefore l p n w) a = w_node w a" if "k \<noteq> l" "a \<in> set (ns k)" for a k
      using that ll_inv_unique [OF assms(1) that(2), of l] new [of k] last_or_SomeD [of xs a] assms(2) prev
      by (auto simp: node)
  qed (use last_or_SomeD [of xs] assms(2) prev in \<open>auto simp: insertBefore_list node\<close>)
qed

lemma insertAfter_inv:
  assumes "ll_inv w ns" and "ns l = xs @ p # ys" and "nd_owner (w_node w n) = None" and "n < w_fresh w"
  shows "ll_inv (insertAfter l p n w) (ns(l := xs @ p # n # ys))"
proof -
  have nxt: "nd_next (w_node w p) = first_or ys None"
    using ll_invD(1) [OF assms(1), of l] assms(2) by (simp add: chain_def)
  show ?thesis
  proof (cases ys)
    case Nil
    with nxt insertLast_inv [OF assms(1,3,4), of l] assms(2) show ?thesis by (simp add: insertAfter_def)
  next
    case (Cons q zs)
    with nxt insertBefore_inv [OF assms(1) _ assms(3,4), of l "xs @ [p]" q zs] assms(2) show ?thesis
      by (simp add: insertAfter_def)
  qed
qed

lemma insertFirst_inv:
  assumes "ll_inv w ns" and "nd_owner (w_node w n) = None" and "n < w_fresh w"
  shows "ll_inv (insertFirst l n w) (ns(l := n # ns l))"
proof -
  have hd: "ll_head (w_list w l) = first_or (ns l) None"
    using ll_invD(1) [OF assms(1), of l] by (simp add: chain_def)
  show ?thesis
  proof (cases "ns l")
    case Nil
    with hd insertLast_inv [OF assms, of l] show ?thesis by (simp add: insertFirst_def)
  next
    case (Cons q zs)
    with hd insertBefore_inv [OF assms(1) _ assms(2,3), of l "[]" q zs] show ?thesis
      by (simp add: insertFirst_def)
  qed
qed

lemma unlink_list:
  "w_list (unlink l n w) =
     (w_list w)(l := (w_list w l)\<lparr>
        ll_head := (if nd_prev (w_node w n) = None then nd_next (w_node w n) else ll_head (w_list w l)),
        ll_tail := (if nd_next (w_node w n) = None then nd_prev (w_node w n) else ll_tail (w_list w l)),
        ll_count := ll_count (w_list w l) - 1, ll_version := ll_version (w_list w l) + 1\<rparr>)"
  by (cases "w_list w l") (simp add: unlink_def upd_simps counter_advance_def split: option.split)

lemma unlink_node:
  assumes "nd_prev (w_node w n) \<noteq> Some n" and "nd_next (w_node w n) \<noteq> Some n"
    and "nd_prev (w_node w n) = None \<or> nd_prev (w_node w n) \<noteq> nd_next (w_node w n)"
  shows "w_node (unlink l n w) a =
     (if a = n then (w_node w n)\<lparr>nd_owner := None, nd_next := None, nd_prev := None\<rparr>
      else if nd_prev (w_node w n) = Some a then (w_node w a)\<lparr>nd_next := nd_next (w_node w n)\<rparr>
      else if nd_next (w_node w n) = Some a then (w_node w a)\<lparr>nd_prev := nd_prev (w_node w n)\<rparr>
      else w_node w a)"
  using assms by (auto simp: unlink_def upd_simps split: option.split)

lemma unlink_inv:
  assumes "ll_inv w ns" and "ns l = xs @ n # ys"
  shows "ll_inv (unlink l n w) (ns(l := xs @ ys))"
proof -
  have chn: "ll_head (w_list w l) = first_or (xs @ n # ys) None" "ll_tail (w_list w l) = last_or None (xs @ n # ys)"
    "ll_count (w_list w l) = int (length (xs @ n # ys))" "distinct (xs @ n # ys)"
    "lseg (w_node w) None (xs @ n # ys) None"
    using ll_invD(1) [OF assms(1), of l] unfolding chain_def assms(2) by blast+
  have prev: "nd_prev (w_node w n) = last_or None xs" and nxt: "nd_next (w_node w n) = first_or ys None"
    using chn(5) by simp_all
  have dis: "a \<in> set xs \<Longrightarrow> a \<noteq> n \<and> a \<notin> set ys" "a \<in> set ys \<Longrightarrow> a \<noteq> n" for a using chn(4) by auto
  have "w_node (unlink l n w) a =
     (if a = n then (w_node w n)\<lparr>nd_owner := None, nd_next := None, nd_prev := None\<rparr>
      else if nd_prev (w_node w n) = Some a then (w_node w a)\<lparr>nd_next := nd_next (w_node w n)\<rparr>
      else if nd_next (w_node w n) = Some a then (w_node w a)\<lparr>nd_prev := nd_prev (w_node w n)\<rparr>
      else w_node w a)" for a
    by (rule unlink_node) (use prev nxt dis last_or_SomeD first_or_SomeD in \<open>metis option.exhaust\<close>)+
  note node = this [unfolded prev nxt]
  have seg1: "lseg (w_node (unlink l n w)) None xs (first_or ys None)"
  proof (cases "xs = []")
    case False
    then have l: "last_or None xs = Some (last xs)" "last xs \<in> set xs" by (simp_all add: last_or_def)
    have node': "w_node (unlink l n w) a =
        (if a = last xs then (w_node w a)\<lparr>nd_next := first_or ys None\<rparr> else w_node w a)" if "a \<in> set xs" for a
      using that dis first_or_SomeD [of ys a] by (auto simp: node l(1))
    show ?thesis
      by (rule lseg_relink_last [of "w_node w" None xs "Some n"]) (use chn(4,5) False l(2) in \<open>simp_all add: node'\<close>)
  qed simp
  have seg2: "lseg (w_node (unlink l n w)) (last_or None xs) ys None"
  proof (cases "ys = []")
    case False
    then have f: "first_or ys None = Some (hd ys)" "hd ys \<in> set ys" by (cases ys; simp)+
    have node': "w_node (unlink l n w) a =
        (if a = hd ys then (w_node w a)\<lparr>nd_prev := last_or None xs\<rparr> else w_node w a)" if "a \<in> set ys" for a
      using that dis last_or_SomeD [of xs a] by (auto simp: node f(1))
    show ?thesis
      by (rule lseg_relink_first [of "w_node w" "Some n" ys None]) (use chn(4,5) False f(2) in \<open>simp_all add: node'\<close>)
  qed simp
  show ?thesis
  proof (rule ll_inv_update [OF assms(1)])
    show "chain (unlink l n w) l (xs @ ys)"
      using seg1 seg2 chn prev nxt
      by (auto simp: chain_def unlink_list first_or_def last_or_def split: list.split)
    show "nd_owner (w_node (unlink l n w) a) = Some l \<and> a < w_fresh (unlink l n w)" if "a \<in> set (xs @ ys)" for a
      using that dis ll_invD(2,5) [OF assms(1), of a l] assms(2) by (auto simp: node)
    show "w_node (unlink l n w) a = w_node w a" if "k \<noteq> l" "a \<in> set (ns k)" for a k
      using that ll_inv_unique [OF assms(1) that(2), of l] last_or_SomeD [of xs a] first_or_SomeD [of ys a] assms(2)
      by (auto simp: node)
  qed (use last_or_SomeD [of xs] first_or_SomeD [of ys] assms(2) in \<open>auto simp: unlink_list node\<close>)
qed

section \<open>Loops return\<close>

definition detach_nodes :: "nat list \<Rightarrow> 'a world \<Rightarrow> 'a world" where
  "detach_nodes xs w =
     w\<lparr>w_node := (\<lambda>a. if a \<in> set xs then (w_node w a)\<lparr>nd_owner := None, nd_next := None, nd_prev := None\<rparr> else w_node w a)\<rparr>"

lemma detach_loop_returns:
  "lseg (w_node w) p xs None \<Longrightarrow> distinct xs \<Longrightarrow> detach_loop (first_or xs None) w = Some (detach_nodes xs w)"
proof (induction xs arbitrary: w p)
  case Nil
  then show ?case by (simp add: detach_loop.simps detach_nodes_def)
next
  case (Cons a xs)
  define w1 where "w1 = upd_node a (\<lambda>d. d\<lparr>nd_owner := None, nd_next := None, nd_prev := None\<rparr>) w"
  have "lseg (w_node w1) (Some a) xs None"
    by (rule lseg_frame [of "w_node w"]) (use Cons.prems in \<open>auto simp: w1_def upd_simps\<close>)
  then have "detach_loop (first_or xs None) w1 = Some (detach_nodes xs w1)"
    using Cons.IH Cons.prems by simp
  moreover have "detach_nodes xs w1 = detach_nodes (a # xs) w"
    using Cons.prems(2) by (auto simp: w1_def detach_nodes_def upd_simps fun_eq_iff)
  ultimately show ?case using Cons.prems(1) by (subst detach_loop.simps) (simp add: w1_def)
qed

definition own_nodes :: "nat \<Rightarrow> nat list \<Rightarrow> 'a world \<Rightarrow> 'a world" where
  "own_nodes l xs w =
     w\<lparr>w_node := (\<lambda>a. if a \<in> set xs then (w_node w a)\<lparr>nd_owner := Some l\<rparr> else w_node w a)\<rparr>"

lemma adopt_loop_returns:
  "lseg (w_node w) p xs None \<Longrightarrow> adopt_loop l (first_or xs None) w = Some (own_nodes l xs w)"
proof (induction xs arbitrary: w p)
  case Nil
  then show ?case by (simp add: adopt_loop.simps own_nodes_def)
next
  case (Cons a xs)
  define w1 where "w1 = upd_node a (\<lambda>d. d\<lparr>nd_owner := Some l\<rparr>) w"
  have "lseg (w_node w1) (Some a) xs None"
    by (rule lseg_frame [of "w_node w"]) (use Cons.prems in \<open>auto simp: w1_def upd_simps\<close>)
  then have "adopt_loop l (first_or xs None) w1 = Some (own_nodes l xs w1)" using Cons.IH by simp
  moreover have "own_nodes l xs w1 = own_nodes l (a # xs) w"
    by (auto simp: w1_def own_nodes_def upd_simps fun_eq_iff)
  moreover have "nd_next (w_node w1 a) = first_or xs None" using Cons.prems by (simp add: w1_def upd_simps)
  ultimately show ?case by (subst adopt_loop.simps) (simp add: Let_def w1_def [symmetric])
qed

lemma find_loop_returns:
  "lseg (w_node w) p xs None \<Longrightarrow>
   find_loop P w (first_or xs None) = Some (find (\<lambda>a. P (nd_item (w_node w a))) xs)"
  by (induction xs arbitrary: p) (auto simp: find_loop.simps)

lemma find_last_loop_returns:
  "lseg (w_node w) None xs q \<Longrightarrow>
   find_last_loop P w (last_or None xs) = Some (find (\<lambda>a. P (nd_item (w_node w a))) (rev xs))"
  by (induction xs arbitrary: q rule: rev_induct) (auto simp: find_last_loop.simps)

lemma copyTo_loop_returns:
  "lseg (w_node w) p xs None \<Longrightarrow> i + length xs \<le> length dest \<Longrightarrow>
   copyTo_loop w (first_or xs None) dest i =
     Some (take i dest @ map (\<lambda>a. nd_item (w_node w a)) xs @ drop (i + length xs) dest)"
proof (induction xs arbitrary: p dest i)
  case Nil
  then show ?case by (simp add: copyTo_loop.simps)
next
  case (Cons a xs)
  let ?d = "dest[i := nd_item (w_node w a)]"
  have "copyTo_loop w (first_or xs None) ?d (Suc i) =
      Some (take (Suc i) ?d @ map (\<lambda>a. nd_item (w_node w a)) xs @ drop (Suc i + length xs) ?d)"
    using Cons by (intro Cons.IH [of "Some a"]) simp_all
  with Cons.prems show ?case
    by (subst copyTo_loop.simps) (simp add: take_Suc_conv_app_nth)
qed

lemma make_shared_inv:
  assumes "ll_inv w ns" and "make_shared v w = (n, w')"
  shows "ll_inv w' ns" and "n = w_fresh w" and "w_fresh w' = Suc (w_fresh w)"
    and "nd_owner (w_node w' n) = None" and "n < w_fresh w'"
    and "nd_item (w_node w' a) = (if a = n then v else nd_item (w_node w a))"
    and "w_list w' = w_list w" and "a \<noteq> n \<Longrightarrow> w_node w' a = w_node w a"
proof -
  have fresh: "w_fresh w \<notin> set (ns l)" for l using ll_invD(5) [OF assms(1)] by blast
  have "chain w' l (ns l)" for l
    using assms(2) fresh [of l]
    by (intro chain_frame [OF ll_invD(1) [OF assms(1), of l]]) (auto simp: make_shared_def)
  then show "ll_inv w' ns"
    using assms fresh unfolding ll_inv_def by (auto simp: make_shared_def LinkedListNodeData_ctor_def less_Suc_eq split: if_splits)
qed (use assms(2) in \<open>auto simp: make_shared_def LinkedListNodeData_ctor_def\<close>)

lemma copyNodesFrom_loop_returns:
  assumes "ll_inv w ns" and "ns k = done @ xs" and "l \<noteq> k"
  shows "\<exists>w'. copyNodesFrom_loop l (first_or xs None) w = Some w' \<and>
     ll_inv w' (ns(l := ns l @ [w_fresh w..<w_fresh w + length xs])) \<and>
     w_fresh w' = w_fresh w + length xs \<and>
     (\<forall>a. nd_item (w_node w' a) =
        (if w_fresh w \<le> a \<and> a < w_fresh w + length xs then nd_item (w_node w (xs ! (a - w_fresh w)))
         else nd_item (w_node w a))) \<and>
     (\<forall>j. ll_version (w_list w' j) =
        (if j = l then ll_version (w_list w j) + of_nat (length xs) else ll_version (w_list w j)))"
  using assms(1,2)
proof (induction xs arbitrary: w ns "done")
  case Nil
  then show ?case by (auto simp: copyNodesFrom_loop.simps fun_upd_idem)
next
  case (Cons a xs)
  obtain n w1 where n: "make_shared (nd_item (w_node w a)) w = (n, w1)" by fastforce
  note shared = make_shared_inv [OF Cons.prems(1) n]
  define w2 where "w2 = insertLast l n w1"
  define ns' where "ns' = ns(l := ns l @ [n])"
  have inv: "ll_inv w2 ns'" unfolding w2_def ns'_def by (rule insertLast_inv [OF shared(1,4,5)])
  have k: "ns' k = (done @ [a]) @ xs" using assms(3) Cons.prems(2) by (simp add: ns'_def)
  then have "nd_next (w_node w2 a) = first_or xs None"
    using ll_invD(1) [OF inv, of k] by (simp add: chain_def)
  then have step: "copyNodesFrom_loop l (first_or (a # xs) None) w = copyNodesFrom_loop l (first_or xs None) w2"
    by (subst copyNodesFrom_loop.simps) (simp add: n w2_def [symmetric])
  have fresh: "w_fresh w2 = Suc (w_fresh w)" by (simp add: w2_def shared(3))
  have items: "nd_item (w_node w2 b) = (if b = w_fresh w then nd_item (w_node w a) else nd_item (w_node w b))" for b
    by (simp add: w2_def shared(2,6))
  have old: "b < w_fresh w" if "b \<in> set (a # xs)" for b
    using ll_invD(5) [OF Cons.prems(1), of b k] Cons.prems(2) that by auto
  have kept: "nd_item (w_node w2 (xs ! i)) = nd_item (w_node w (xs ! i))" if "i < length xs" for i
    using old [of "xs ! i"] that by (simp add: items)
  have vers: "ll_version (w_list w2 j) = (if j = l then ll_version (w_list w j) + 1 else ll_version (w_list w j))" for j
    by (simp add: w2_def shared(7))
  obtain w' where w': "copyNodesFrom_loop l (first_or xs None) w2 = Some w'"
    "ll_inv w' (ns'(l := ns' l @ [w_fresh w2..<w_fresh w2 + length xs]))"
    "w_fresh w' = w_fresh w2 + length xs"
    "\<And>b. nd_item (w_node w' b) =
        (if w_fresh w2 \<le> b \<and> b < w_fresh w2 + length xs then nd_item (w_node w2 (xs ! (b - w_fresh w2)))
         else nd_item (w_node w2 b))"
    "\<And>j. ll_version (w_list w' j) =
        (if j = l then ll_version (w_list w2 j) + of_nat (length xs) else ll_version (w_list w2 j))"
    using Cons.IH [OF inv k] by blast
  have lists: "ns'(l := ns' l @ [w_fresh w2..<w_fresh w2 + length xs]) =
      ns(l := ns l @ [w_fresh w..<w_fresh w + length (a # xs)])"
    by (simp add: ns'_def fresh shared(2) upt_conv_Cons del: upt_Suc)
  have item': "nd_item (w_node w' b) =
      (if w_fresh w \<le> b \<and> b < w_fresh w + length (a # xs) then nd_item (w_node w ((a # xs) ! (b - w_fresh w)))
       else nd_item (w_node w b))" for b
    using kept [of "b - Suc (w_fresh w)"] by (cases "b = w_fresh w") (auto simp: w'(4) fresh items nth_Cons' less_diff_conv2)
  show ?case unfolding step
  proof (intro exI [of _ w'] conjI allI)
    show "ll_inv w' (ns(l := ns l @ [w_fresh w..<w_fresh w + length (a # xs)]))" using w'(2) by (simp only: lists)
  qed (use w'(1,3,5) item' fresh vers in simp_all)
qed

end
