(* ===== verification/Coll_LinkedList_Spec.thy ===== *)
theory Coll_LinkedList_Spec
  imports Coll_LinkedList
begin

text \<open>
  What \<^verbatim>\<open>LinkedList.hpp\<close> promises, on sequences of node identities instead of links, and that the
  heap model implements it: every client call returns, answers as specified and keeps the heap in
  step with the sequences. Then the fail-fast enumerator and the STL iterators.
\<close>

section \<open>Clients\<close>

text \<open>The calls a client can make on the lists and node handles it has, and what it gets back.\<close>

datatype 'a ll_out =
    LDone | LNode handle | LBool bool | LValue 'a | LCount intcs | LOwner "nat option" | LVector "'a list"

datatype 'a ll_call =
    NewNode 'a | GetValue handle | SetValue handle 'a | GetList handle | GetNext handle | GetPrevious handle
  | EqualsValue handle 'a
  | Count nat | First nat | Last nat
  | AddFirst nat 'a | AddFirstNode nat handle | AddLast nat 'a | AddLastNode nat handle
  | AddBefore nat handle 'a | AddBeforeNode nat handle handle
  | AddAfter nat handle 'a | AddAfterNode nat handle handle
  | RemoveFirst nat | RemoveLast nat | RemoveValue nat 'a | RemoveNode nat handle | ClearList nat
  | Contains nat 'a | Find nat 'a | FindLast nat 'a | CopyTo nat "'a list" intcs
  | CopyAssign nat nat | MoveAssign nat nat

definition ret :: "'b \<Rightarrow> 's \<Rightarrow> 'b res \<times> 's" where
  "ret x s = (Inr x, s)"

definition caught :: "'s \<Rightarrow> 'b res \<Rightarrow> ('b \<Rightarrow> 'c res \<times> 's) \<Rightarrow> 'c res \<times> 's" where
  "caught s r f = (case r of Inl e \<Rightarrow> (Inl e, s) | Inr x \<Rightarrow> f x)"

primrec ll_exec :: "('a \<Rightarrow> 'a \<Rightarrow> bool) \<Rightarrow> 'a ll_call \<Rightarrow> 'a world \<Rightarrow> ('a ll_out res \<times> 'a world) option" where
  "ll_exec eq (NewNode v) w = (case LinkedListNode_new v w of (h, w') \<Rightarrow> Some (ret (LNode h) w'))"
| "ll_exec eq (GetValue h) w = Some (caught w (Node_getValue h w) (\<lambda>v. ret (LValue v) w))"
| "ll_exec eq (SetValue h v) w = Some (caught w (Node_setValue h v w) (ret LDone))"
| "ll_exec eq (GetList h) w = Some (ret (LOwner (Node_getList h w)) w)"
| "ll_exec eq (GetNext h) w = Some (ret (LNode (Node_getNext h w)) w)"
| "ll_exec eq (GetPrevious h) w = Some (ret (LNode (Node_getPrevious h w)) w)"
| "ll_exec eq (EqualsValue h v) w = Some (ret (LBool (Node_eq_value eq h v w)) w)"
| "ll_exec eq (Count l) w = Some (ret (LCount (LL_Count l w)) w)"
| "ll_exec eq (First l) w = Some (ret (LNode (LL_First l w)) w)"
| "ll_exec eq (Last l) w = Some (ret (LNode (LL_Last l w)) w)"
| "ll_exec eq (AddFirst l v) w = (case LL_AddFirst l v w of (h, w') \<Rightarrow> Some (ret (LNode h) w'))"
| "ll_exec eq (AddFirstNode l h) w = Some (caught w (LL_AddFirst_node l h w) (ret LDone))"
| "ll_exec eq (AddLast l v) w = (case LL_AddLast l v w of (h, w') \<Rightarrow> Some (ret (LNode h) w'))"
| "ll_exec eq (AddLastNode l h) w = Some (caught w (LL_AddLast_node l h w) (ret LDone))"
| "ll_exec eq (AddBefore l p v) w = Some (caught w (LL_AddBefore l p v w) (\<lambda>(h, w'). ret (LNode h) w'))"
| "ll_exec eq (AddBeforeNode l p h) w = Some (caught w (LL_AddBefore_node l p h w) (ret LDone))"
| "ll_exec eq (AddAfter l p v) w = Some (caught w (LL_AddAfter l p v w) (\<lambda>(h, w'). ret (LNode h) w'))"
| "ll_exec eq (AddAfterNode l p h) w = Some (caught w (LL_AddAfter_node l p h w) (ret LDone))"
| "ll_exec eq (RemoveFirst l) w = Some (caught w (LL_RemoveFirst l w) (ret LDone))"
| "ll_exec eq (RemoveLast l) w = Some (caught w (LL_RemoveLast l w) (ret LDone))"
| "ll_exec eq (RemoveValue l v) w = map_option (\<lambda>(b, w'). ret (LBool b) w') (LL_Remove eq l v w)"
| "ll_exec eq (RemoveNode l h) w = Some (caught w (LL_Remove_node l h w) (ret LDone))"
| "ll_exec eq (ClearList l) w = map_option (ret LDone) (LL_Clear l w)"
| "ll_exec eq (Contains l v) w = map_option (\<lambda>b. ret (LBool b) w) (LL_Contains eq l v w)"
| "ll_exec eq (Find l v) w = map_option (\<lambda>h. ret (LNode h) w) (LL_Find eq l v w)"
| "ll_exec eq (FindLast l v) w = map_option (\<lambda>h. ret (LNode h) w) (LL_FindLast eq l v w)"
| "ll_exec eq (CopyTo l dest i) w = map_option (\<lambda>r. caught w r (\<lambda>d. ret (LVector d) w)) (LL_CopyTo l dest i w)"
| "ll_exec eq (CopyAssign l k) w = map_option (ret LDone) (LinkedList_copy_assign l k w)"
| "ll_exec eq (MoveAssign l k) w = map_option (ret LDone) (LinkedList_move_assign l k w)"

section \<open>Specification\<close>

text \<open>
  The abstract state knows for every list the sequence of its nodes and its version, and for every
  node its value. There are no links: neighbours and owners are read off the sequences.
\<close>

record 'a ll_state =
  sp_list :: "nat \<Rightarrow> nat list"
  sp_item :: "nat \<Rightarrow> 'a"
  sp_fresh :: nat
  sp_version :: "nat \<Rightarrow> MutationVersion"

definition sp_set :: "nat \<Rightarrow> nat list \<Rightarrow> 'a ll_state \<Rightarrow> 'a ll_state" where
  "sp_set l xs s = s\<lparr>sp_list := (sp_list s)(l := xs), sp_version := (sp_version s)(l := sp_version s l + 1)\<rparr>"

definition sp_alloc :: "'a \<Rightarrow> 'a ll_state \<Rightarrow> 'a ll_state" where
  "sp_alloc v s = s\<lparr>sp_item := (sp_item s)(sp_fresh s := v), sp_fresh := Suc (sp_fresh s)\<rparr>"

primrec put_before :: "nat \<Rightarrow> nat \<Rightarrow> nat list \<Rightarrow> nat list" where
  "put_before p n [] = []"
| "put_before p n (a # xs) = (if a = p then n # a # xs else a # put_before p n xs)"

primrec put_after :: "nat \<Rightarrow> nat \<Rightarrow> nat list \<Rightarrow> nat list" where
  "put_after p n [] = []"
| "put_after p n (a # xs) = (if a = p then a # n # xs else a # put_after p n xs)"

text \<open>The node following \<open>a\<close> in a sequence.\<close>

primrec succ_of :: "nat \<Rightarrow> nat list \<Rightarrow> handle" where
  "succ_of a [] = None"
| "succ_of a (b # xs) = (if b = a then first_or xs None else succ_of a xs)"

definition sp_owner :: "'a ll_state \<Rightarrow> nat \<Rightarrow> nat option" where
  "sp_owner s a = (if \<exists>l. a \<in> set (sp_list s l) then Some (THE l. a \<in> set (sp_list s l)) else None)"

definition sp_next :: "'a ll_state \<Rightarrow> nat \<Rightarrow> handle" where
  "sp_next s a = (case sp_owner s a of None \<Rightarrow> None | Some l \<Rightarrow> succ_of a (sp_list s l))"

definition sp_prev :: "'a ll_state \<Rightarrow> nat \<Rightarrow> handle" where
  "sp_prev s a = (case sp_owner s a of None \<Rightarrow> None | Some l \<Rightarrow> succ_of a (rev (sp_list s l)))"

definition sp_member :: "nat \<Rightarrow> handle \<Rightarrow> 'a ll_state \<Rightarrow> nat res" where
  "sp_member l h s =
     (case h of
        None \<Rightarrow> Inl (ArgumentNullException ''node'')
      | Some a \<Rightarrow> if a \<in> set (sp_list s l) then Inr a else Inl ForeignNode)"

definition sp_unattached :: "handle \<Rightarrow> 'a ll_state \<Rightarrow> nat res" where
  "sp_unattached h s =
     (case h of
        None \<Rightarrow> Inl (ArgumentNullException ''node'')
      | Some a \<Rightarrow> if \<exists>l. a \<in> set (sp_list s l) then Inl AttachedNode else Inr a)"

text \<open>\<open>sp_put l f s n\<close> attaches \<open>n\<close> at the place \<open>f\<close> gives it; \<open>sp_take l s a\<close> detaches \<open>a\<close>.\<close>

definition sp_put :: "nat \<Rightarrow> (nat \<Rightarrow> nat list \<Rightarrow> nat list) \<Rightarrow> 'a ll_state \<Rightarrow> nat \<Rightarrow> 'a ll_out res \<times> 'a ll_state" where
  "sp_put l f s n = ret LDone (sp_set l (f n (sp_list s l)) s)"

definition sp_put_new :: "nat \<Rightarrow> (nat \<Rightarrow> nat list \<Rightarrow> nat list) \<Rightarrow> 'a \<Rightarrow> 'a ll_state \<Rightarrow> 'a ll_out res \<times> 'a ll_state" where
  "sp_put_new l f v s =
     ret (LNode (Some (sp_fresh s))) (sp_set l (f (sp_fresh s) (sp_list s l)) (sp_alloc v s))"

definition sp_take :: "nat \<Rightarrow> 'a ll_state \<Rightarrow> nat \<Rightarrow> 'a ll_state" where
  "sp_take l s a = sp_set l (remove1 a (sp_list s l)) s"

definition sp_find :: "('a \<Rightarrow> 'a \<Rightarrow> bool) \<Rightarrow> 'a \<Rightarrow> 'a ll_state \<Rightarrow> nat list \<Rightarrow> handle" where
  "sp_find eq v s xs = find (\<lambda>a. eq (sp_item s a) v) xs"

definition sp_copy :: "nat \<Rightarrow> nat \<Rightarrow> 'a ll_state \<Rightarrow> 'a ll_state" where
  "sp_copy l k s =
     s\<lparr>sp_list := (sp_list s)(l := [sp_fresh s..<sp_fresh s + length (sp_list s k)]),
       sp_item := (\<lambda>a. if sp_fresh s \<le> a \<and> a < sp_fresh s + length (sp_list s k)
                       then sp_item s (sp_list s k ! (a - sp_fresh s)) else sp_item s a),
       sp_fresh := sp_fresh s + length (sp_list s k),
       sp_version := (sp_version s)(l := sp_version s l + of_nat (length (sp_list s k)))\<rparr>"

definition sp_copyTo :: "nat \<Rightarrow> 'a list \<Rightarrow> intcs \<Rightarrow> 'a ll_state \<Rightarrow> 'a list res" where
  "sp_copyTo l dest i s =
     (let n = length (sp_list s l) in
      if i < 0 \<or> int (length dest) < i then Inl (ArgumentOutOfRangeException ''index'')
      else if int (length dest) < i + int n then Inl (ArgumentException '''')
      else Inr (take (nat i) dest @ map (sp_item s) (sp_list s l) @ drop (nat i + n) dest))"

primrec ll_spec :: "('a \<Rightarrow> 'a \<Rightarrow> bool) \<Rightarrow> 'a ll_call \<Rightarrow> 'a ll_state \<Rightarrow> 'a ll_out res \<times> 'a ll_state" where
  "ll_spec eq (NewNode v) s = ret (LNode (Some (sp_fresh s))) (sp_alloc v s)"
| "ll_spec eq (GetValue h) s = caught s (requireNode h) (\<lambda>a. ret (LValue (sp_item s a)) s)"
| "ll_spec eq (SetValue h v) s = caught s (requireNode h) (\<lambda>a. ret LDone (s\<lparr>sp_item := (sp_item s)(a := v)\<rparr>))"
| "ll_spec eq (GetList h) s = ret (LOwner (Option.bind h (sp_owner s))) s"
| "ll_spec eq (GetNext h) s = ret (LNode (Option.bind h (sp_next s))) s"
| "ll_spec eq (GetPrevious h) s = ret (LNode (Option.bind h (sp_prev s))) s"
| "ll_spec eq (EqualsValue h v) s = ret (LBool (case h of None \<Rightarrow> False | Some a \<Rightarrow> eq (sp_item s a) v)) s"
| "ll_spec eq (Count l) s = ret (LCount (int (length (sp_list s l)))) s"
| "ll_spec eq (First l) s = ret (LNode (first_or (sp_list s l) None)) s"
| "ll_spec eq (Last l) s = ret (LNode (last_or None (sp_list s l))) s"
| "ll_spec eq (AddFirst l v) s = sp_put_new l (#) v s"
| "ll_spec eq (AddFirstNode l h) s = caught s (sp_unattached h s) (sp_put l (#) s)"
| "ll_spec eq (AddLast l v) s = sp_put_new l (\<lambda>n xs. xs @ [n]) v s"
| "ll_spec eq (AddLastNode l h) s = caught s (sp_unattached h s) (sp_put l (\<lambda>n xs. xs @ [n]) s)"
| "ll_spec eq (AddBefore l p v) s = caught s (sp_member l p s) (\<lambda>a. sp_put_new l (put_before a) v s)"
| "ll_spec eq (AddBeforeNode l p h) s =
     caught s (sp_member l p s) (\<lambda>a. caught s (sp_unattached h s) (sp_put l (put_before a) s))"
| "ll_spec eq (AddAfter l p v) s = caught s (sp_member l p s) (\<lambda>a. sp_put_new l (put_after a) v s)"
| "ll_spec eq (AddAfterNode l p h) s =
     caught s (sp_member l p s) (\<lambda>a. caught s (sp_unattached h s) (sp_put l (put_after a) s))"
| "ll_spec eq (RemoveFirst l) s =
     (if sp_list s l = [] then (Inl EmptyList, s) else ret LDone (sp_take l s (hd (sp_list s l))))"
| "ll_spec eq (RemoveLast l) s =
     (if sp_list s l = [] then (Inl EmptyList, s) else ret LDone (sp_take l s (last (sp_list s l))))"
| "ll_spec eq (RemoveValue l v) s =
     (case sp_find eq v s (sp_list s l) of
        None \<Rightarrow> ret (LBool False) s
      | Some a \<Rightarrow> ret (LBool True) (sp_take l s a))"
| "ll_spec eq (RemoveNode l h) s = caught s (sp_member l h s) (\<lambda>a. ret LDone (sp_take l s a))"
| "ll_spec eq (ClearList l) s = ret LDone (sp_set l [] s)"
| "ll_spec eq (Contains l v) s = ret (LBool (list_ex (\<lambda>a. eq (sp_item s a) v) (sp_list s l))) s"
| "ll_spec eq (Find l v) s = ret (LNode (sp_find eq v s (sp_list s l))) s"
| "ll_spec eq (FindLast l v) s = ret (LNode (sp_find eq v s (rev (sp_list s l)))) s"
| "ll_spec eq (CopyTo l dest i) s = caught s (sp_copyTo l dest i s) (\<lambda>d. ret (LVector d) s)"
| "ll_spec eq (CopyAssign l k) s = ret LDone (if l = k then s else sp_copy l k (sp_set l [] s))"
| "ll_spec eq (MoveAssign l k) s = ret LDone (if l = k then s else sp_set k [] (sp_set l (sp_list s k) s))"

text \<open>Handles a client can have: null, or to a node that was created.\<close>

definition known :: "nat \<Rightarrow> handle \<Rightarrow> bool" where
  "known fresh h \<longleftrightarrow> (case h of None \<Rightarrow> True | Some a \<Rightarrow> a < fresh)"

primrec handles :: "'a ll_call \<Rightarrow> handle list" where
  "handles (NewNode v) = []" | "handles (GetValue h) = [h]" | "handles (SetValue h v) = [h]"
| "handles (GetList h) = [h]" | "handles (GetNext h) = [h]" | "handles (GetPrevious h) = [h]"
| "handles (EqualsValue h v) = [h]"
| "handles (Count l) = []" | "handles (First l) = []" | "handles (Last l) = []"
| "handles (AddFirst l v) = []" | "handles (AddFirstNode l h) = [h]"
| "handles (AddLast l v) = []" | "handles (AddLastNode l h) = [h]"
| "handles (AddBefore l p v) = [p]" | "handles (AddBeforeNode l p h) = [p, h]"
| "handles (AddAfter l p v) = [p]" | "handles (AddAfterNode l p h) = [p, h]"
| "handles (RemoveFirst l) = []" | "handles (RemoveLast l) = []" | "handles (RemoveValue l v) = []"
| "handles (RemoveNode l h) = [h]" | "handles (ClearList l) = []"
| "handles (Contains l v) = []" | "handles (Find l v) = []" | "handles (FindLast l v) = []"
| "handles (CopyTo l dest i) = []" | "handles (CopyAssign l k) = []" | "handles (MoveAssign l k) = []"

definition ll_sim :: "'a world \<Rightarrow> 'a ll_state \<Rightarrow> bool" where
  "ll_sim w s \<longleftrightarrow>
     ll_inv w (sp_list s) \<and> (\<forall>a. nd_item (w_node w a) = sp_item s a) \<and> w_fresh w = sp_fresh s \<and>
     (\<forall>l. ll_version (w_list w l) = sp_version s l)"

section \<open>Simulation\<close>

lemma put_before_split: "p \<notin> set xs \<Longrightarrow> put_before p n (xs @ p # ys) = xs @ n # p # ys"
  by (induction xs) auto

lemma put_after_split: "p \<notin> set xs \<Longrightarrow> put_after p n (xs @ p # ys) = xs @ p # n # ys"
  by (induction xs) auto

lemma succ_of_split: "p \<notin> set xs \<Longrightarrow> succ_of p (xs @ p # ys) = first_or ys None"
  by (induction xs) auto

lemma first_or_rev: "first_or (rev xs) None = last_or None xs"
  by (cases xs rule: rev_cases) simp_all

lemma ll_simD:
  assumes "ll_sim w s"
  shows "ll_inv w (sp_list s)" "nd_item (w_node w a) = sp_item s a" "w_fresh w = sp_fresh s"
    "ll_version (w_list w l) = sp_version s l"
  using assms by (simp_all add: ll_sim_def)

lemma ll_simI:
  "ll_inv w (sp_list s) \<Longrightarrow> (\<And>a. nd_item (w_node w a) = sp_item s a) \<Longrightarrow> w_fresh w = sp_fresh s \<Longrightarrow>
   (\<And>l. ll_version (w_list w l) = sp_version s l) \<Longrightarrow> ll_sim w s"
  by (simp add: ll_sim_def)

lemma sim_list:
  assumes "ll_sim w s"
  shows "ll_head (w_list w l) = first_or (sp_list s l) None" "ll_tail (w_list w l) = last_or None (sp_list s l)"
    "ll_count (w_list w l) = int (length (sp_list s l))" "distinct (sp_list s l)"
    "lseg (w_node w) None (sp_list s l) None"
  using ll_invD(1) [OF ll_simD(1) [OF assms], of l] by (simp_all add: chain_def)

lemma sim_owner:
  assumes "ll_sim w s"
  shows "nd_owner (w_node w a) = sp_owner s a"
proof (cases "nd_owner (w_node w a)")
  case None
  with ll_invD(2) [OF ll_simD(1) [OF assms], of a] show ?thesis by (auto simp: sp_owner_def)
next
  case (Some l)
  then have "a \<in> set (sp_list s k) \<longleftrightarrow> k = l" for k
    using ll_invD(2) [OF ll_simD(1) [OF assms], of a k] by auto
  with Some show ?thesis by (simp add: sp_owner_def)
qed

lemma sim_links:
  assumes "ll_sim w s"
  shows "nd_next (w_node w a) = sp_next s a" and "nd_prev (w_node w a) = sp_prev s a"
proof -
  note inv = ll_simD(1) [OF assms]
  have "nd_next (w_node w a) = sp_next s a \<and> nd_prev (w_node w a) = sp_prev s a"
  proof (cases "nd_owner (w_node w a)")
    case None
    with ll_invD(3,4) [OF inv None] sim_owner [OF assms, of a] show ?thesis by (simp add: sp_next_def sp_prev_def)
  next
    case (Some l)
    then have "a \<in> set (sp_list s l)" using ll_invD(2) [OF inv] by blast
    from ll_inv_split [OF inv this] obtain xs ys where sp: "sp_list s l = xs @ a # ys" "distinct (xs @ a # ys)"
      "nd_prev (w_node w a) = last_or None xs" "nd_next (w_node w a) = first_or ys None" by metis
    with Some sim_owner [OF assms, of a] show ?thesis
      by (simp add: sp_next_def sp_prev_def succ_of_split first_or_rev)
  qed
  then show "nd_next (w_node w a) = sp_next s a" "nd_prev (w_node w a) = sp_prev s a" by simp_all
qed

lemma sim_validate:
  assumes "ll_sim w s"
  shows "validateNode l h w = sp_member l h s" and "validateNewNode h w = sp_unattached h s"
proof -
  note owner = ll_invD(2) [OF ll_simD(1) [OF assms]]
  show "validateNode l h w = sp_member l h s"
    by (auto simp: validateNode_def sp_member_def owner split: option.split)
  have "nd_owner (w_node w a) \<noteq> None \<longleftrightarrow> (\<exists>l. a \<in> set (sp_list s l))" for a
    using owner [of a] by auto
  then show "validateNewNode h w = sp_unattached h s"
    by (simp add: validateNewNode_def sp_unattached_def split: option.split)
qed

lemma sp_unattachedD: "sp_unattached h s = Inr n \<Longrightarrow> h = Some n \<and> (\<forall>l. n \<notin> set (sp_list s l))"
  by (auto simp: sp_unattached_def split: option.splits if_splits)

lemma sp_memberD: "sp_member l h s = Inr p \<Longrightarrow> h = Some p \<and> p \<in> set (sp_list s l)"
  by (auto simp: sp_member_def split: option.splits if_splits)

lemma sim_set:
  assumes "ll_sim w s" and "ll_inv w' ((sp_list s)(l := xs))"
    and "w_fresh w' = w_fresh w" and "\<And>a. nd_item (w_node w' a) = nd_item (w_node w a)"
    and "\<And>k. ll_version (w_list w' k) = (if k = l then ll_version (w_list w k) + 1 else ll_version (w_list w k))"
  shows "ll_sim w' (sp_set l xs s)"
  using assms by (intro ll_simI) (simp_all add: sp_set_def ll_simD [OF assms(1)])

lemma sim_insert:
  assumes "ll_sim w s" and "\<forall>l. n \<notin> set (sp_list s l)" and "n < sp_fresh s"
  shows "ll_sim (insertFirst l n w) (sp_set l (n # sp_list s l) s)"
    and "ll_sim (insertLast l n w) (sp_set l (sp_list s l @ [n]) s)"
    and "p \<in> set (sp_list s l) \<Longrightarrow> ll_sim (insertBefore l p n w) (sp_set l (put_before p n (sp_list s l)) s)"
    and "p \<in> set (sp_list s l) \<Longrightarrow> ll_sim (insertAfter l p n w) (sp_set l (put_after p n (sp_list s l)) s)"
proof -
  note inv = ll_simD(1) [OF assms(1)]
  have owner: "nd_owner (w_node w n) = None" using ll_invD(2) [OF inv, of n] assms(2) by (cases "nd_owner (w_node w n)") auto
  have fresh: "n < w_fresh w" using assms(3) ll_simD(3) [OF assms(1)] by simp
  show "ll_sim (insertFirst l n w) (sp_set l (n # sp_list s l) s)"
    by (rule sim_set [OF assms(1) insertFirst_inv [OF inv owner fresh]]) simp_all
  show "ll_sim (insertLast l n w) (sp_set l (sp_list s l @ [n]) s)"
    by (rule sim_set [OF assms(1) insertLast_inv [OF inv owner fresh]]) simp_all
  assume "p \<in> set (sp_list s l)"
  from ll_inv_split [OF inv this] obtain xs ys where sp: "sp_list s l = xs @ p # ys" "distinct (xs @ p # ys)" by metis
  show "ll_sim (insertBefore l p n w) (sp_set l (put_before p n (sp_list s l)) s)"
    using sim_set [OF assms(1) insertBefore_inv [OF inv sp(1) owner fresh]] sp by (simp add: put_before_split)
  show "ll_sim (insertAfter l p n w) (sp_set l (put_after p n (sp_list s l)) s)"
    using sim_set [OF assms(1) insertAfter_inv [OF inv sp(1) owner fresh]] sp by (simp add: put_after_split)
qed

lemma sim_unlink:
  assumes "ll_sim w s" and "a \<in> set (sp_list s l)"
  shows "ll_sim (unlink l a w) (sp_take l s a)"
proof -
  note inv = ll_simD(1) [OF assms(1)]
  from ll_inv_split [OF inv assms(2)] obtain xs ys where sp: "sp_list s l = xs @ a # ys" "distinct (xs @ a # ys)" by metis
  then have "remove1 a (sp_list s l) = xs @ ys" by (simp add: remove1_append)
  then show ?thesis using sim_set [OF assms(1) unlink_inv [OF inv sp(1)]] by (simp add: sp_take_def)
qed

lemma sim_alloc:
  assumes "ll_sim w s" and "make_shared v w = (n, w')"
  shows "ll_sim w' (sp_alloc v s)" and "n = sp_fresh s" and "\<forall>l. n \<notin> set (sp_list (sp_alloc v s) l)"
    and "n < sp_fresh (sp_alloc v s)" and "sp_list (sp_alloc v s) = sp_list s"
proof -
  note shared = make_shared_inv [OF ll_simD(1) [OF assms(1)] assms(2)]
  show "ll_sim w' (sp_alloc v s)"
    using shared by (intro ll_simI) (simp_all add: sp_alloc_def ll_simD [OF assms(1)])
  show n: "n = sp_fresh s" using shared(2) by (simp add: ll_simD [OF assms(1)])
  show "\<forall>l. n \<notin> set (sp_list (sp_alloc v s) l)" "n < sp_fresh (sp_alloc v s)"
    using ll_invD(5) [OF ll_simD(1) [OF assms(1)]] n ll_simD(3) [OF assms(1)] by (auto simp: sp_alloc_def)
qed (simp add: sp_alloc_def)

lemma sim_detachAll:
  assumes "ll_sim w s"
  shows "\<exists>w'. detachAll l w = Some w' \<and> ll_sim w' (s\<lparr>sp_list := (sp_list s)(l := [])\<rparr>)"
proof -
  let ?w = "upd_list l (\<lambda>L. L\<lparr>ll_head := None, ll_tail := None, ll_count := 0\<rparr>) w"
  let ?w' = "detach_nodes (sp_list s l) ?w"
  note inv = ll_simD(1) [OF assms] and lst = sim_list [OF assms, of l]
  have "lseg (w_node ?w) None (sp_list s l) None" using lst(5) by (simp add: upd_simps)
  then have ret: "detachAll l w = Some ?w'"
    using detach_loop_returns [OF _ lst(4)] lst(1) by (simp add: detachAll_def)
  have "ll_inv ?w' ((sp_list s)(l := []))"
  proof (rule ll_inv_update [OF inv])
    show "w_node ?w' a = w_node w a" if "k \<noteq> l" "a \<in> set (sp_list s k)" for a k
      using that ll_inv_unique [OF inv, of a k l] by (auto simp: detach_nodes_def upd_simps)
  qed (simp_all add: chain_def detach_nodes_def upd_simps)
  then have "ll_sim ?w' (s\<lparr>sp_list := (sp_list s)(l := [])\<rparr>)"
    by (intro ll_simI) (simp_all add: detach_nodes_def upd_simps ll_simD [OF assms])
  with ret show ?thesis by blast
qed

lemma sim_bump:
  assumes "ll_sim w s"
  shows "ll_sim (bump l w) (s\<lparr>sp_version := (sp_version s)(l := sp_version s l + 1)\<rparr>)"
proof -
  note inv = ll_simD(1) [OF assms]
  have "chain (bump l w) k (sp_list s k)" for k
    using ll_invD(1) [OF inv, of k] by (auto simp: chain_def bump_def upd_simps)
  then have "ll_inv (bump l w) (sp_list s)"
    using inv by (simp add: ll_inv_def bump_def upd_simps)
  then show ?thesis
    by (intro ll_simI) (simp_all add: bump_def upd_simps counter_advance_def ll_simD [OF assms])
qed

lemma sim_copyNodesFrom:
  assumes "ll_sim w s" and "l \<noteq> k" and "sp_list s l = []"
  shows "\<exists>w'. copyNodesFrom l k w = Some w' \<and> ll_sim w' (sp_copy l k s)"
proof -
  from copyNodesFrom_loop_returns [OF ll_simD(1) [OF assms(1)], of k "[]", OF _ assms(2)] obtain w' where w':
    "copyNodesFrom_loop l (first_or (sp_list s k) None) w = Some w'"
    "ll_inv w' ((sp_list s)(l := sp_list s l @ [w_fresh w..<w_fresh w + length (sp_list s k)]))"
    "w_fresh w' = w_fresh w + length (sp_list s k)"
    "\<And>a. nd_item (w_node w' a) =
        (if w_fresh w \<le> a \<and> a < w_fresh w + length (sp_list s k) then nd_item (w_node w (sp_list s k ! (a - w_fresh w)))
         else nd_item (w_node w a))"
    "\<And>j. ll_version (w_list w' j) =
        (if j = l then ll_version (w_list w j) + of_nat (length (sp_list s k)) else ll_version (w_list w j))"
    by auto
  have "copyNodesFrom l k w = Some w'" using w'(1) sim_list(1) [OF assms(1)] by (simp add: copyNodesFrom_def)
  moreover have "ll_sim w' (sp_copy l k s)"
    using w'(2-5) assms(3) by (intro ll_simI) (simp_all add: sp_copy_def ll_simD [OF assms(1)])
  ultimately show ?thesis by blast
qed

lemma adoptNodesFrom_inv:
  assumes "ll_inv w ns" and "l \<noteq> k" and "ns l = []"
  shows "\<exists>w'. adoptNodesFrom l k w = Some w' \<and> ll_inv w' (ns(l := ns k, k := [])) \<and> w_fresh w' = w_fresh w \<and>
     (\<forall>a. nd_item (w_node w' a) = nd_item (w_node w a)) \<and>
     (\<forall>j. ll_version (w_list w' j) = (if j = k then ll_version (w_list w j) + 1 else ll_version (w_list w j)))"
proof -
  let ?K = "w_list w k"
  define w1 where "w1 = upd_list k (\<lambda>L. L\<lparr>ll_head := None\<rparr>)
    (upd_list l (\<lambda>L. L\<lparr>ll_head := ll_head ?K, ll_tail := ll_tail ?K, ll_count := ll_count ?K\<rparr>) w)"
  define w2 where "w2 = own_nodes l (ns k) w1"
  define w3 where "w3 = upd_list k (\<lambda>L. L\<lparr>ll_head := None, ll_tail := None, ll_count := 0,
    ll_version := counter_advance (ll_version L)\<rparr>) w2"
  note chk = ll_invD(1) [OF assms(1), of k, unfolded chain_def]
  have "ll_head (w_list w1 l) = first_or (ns k) None" using chk assms(2) by (simp add: w1_def upd_simps)
  moreover have "lseg (w_node w1) None (ns k) None" using chk by (simp add: w1_def upd_simps)
  ultimately have "adopt_loop l (ll_head (w_list w1 l)) w1 = Some w2" by (simp add: adopt_loop_returns w2_def)
  then have ret: "adoptNodesFrom l k w = Some w3" by (simp add: adoptNodesFrom_def w1_def w3_def Let_def)
  have node: "w_node w3 a = (if a \<in> set (ns k) then (w_node w a)\<lparr>nd_owner := Some l\<rparr> else w_node w a)" for a
    by (simp add: w3_def w2_def w1_def upd_simps own_nodes_def)
  have links: "nd_prev (w_node w3 a) = nd_prev (w_node w a) \<and> nd_next (w_node w3 a) = nd_next (w_node w a)" for a
    by (simp add: node)
  have "chain w3 j ((ns(l := ns k, k := [])) j)" for j
  proof -
    consider "j = l" | "j = k" | "j \<noteq> l" "j \<noteq> k" by blast
    then show ?thesis
    proof cases
      case 1
      with assms(2) chk lseg_frame [of "w_node w" None "ns k" None "w_node w3"] links show ?thesis
        by (simp add: chain_def) (simp add: w3_def w2_def w1_def upd_simps own_nodes_def)
    next
      case 2
      then show ?thesis by (simp add: chain_def w3_def w2_def w1_def upd_simps own_nodes_def)
    next
      case 3
      with ll_invD(1) [OF assms(1), of j] links show ?thesis
        by (simp add: chain_frame [of w] w3_def w2_def w1_def upd_simps own_nodes_def)
    qed
  qed
  moreover have "nd_owner (w_node w3 a) = Some j \<longleftrightarrow> a \<in> set ((ns(l := ns k, k := [])) j)" for a j
    using ll_invD(2) [OF assms(1), of a j] ll_inv_unique [OF assms(1), of a j k] assms(2,3) by (auto simp: node)
  moreover have "w_fresh w3 = w_fresh w" by (simp add: w3_def w2_def w1_def upd_simps own_nodes_def)
  ultimately have "ll_inv w3 (ns(l := ns k, k := []))"
    using assms ll_invD(3-5) [OF assms(1)] unfolding ll_inv_def by (auto simp: node)
  then show ?thesis using ret
    by (simp add: node) (simp add: w3_def w2_def w1_def upd_simps own_nodes_def counter_advance_def)
qed

lemma sim_adoptNodesFrom:
  assumes "ll_sim w s" and "l \<noteq> k" and "sp_list s l = []"
  shows "\<exists>w'. adoptNodesFrom l k w = Some w' \<and>
    ll_sim w' (sp_set k [] (s\<lparr>sp_list := (sp_list s)(l := sp_list s k)\<rparr>))"
proof -
  from adoptNodesFrom_inv [OF ll_simD(1) [OF assms(1)] assms(2,3)] obtain w' where
    w': "adoptNodesFrom l k w = Some w'" "ll_inv w' ((sp_list s)(l := sp_list s k, k := []))"
    "w_fresh w' = w_fresh w" "\<And>a. nd_item (w_node w' a) = nd_item (w_node w a)"
    "\<And>j. ll_version (w_list w' j) = (if j = k then ll_version (w_list w j) + 1 else ll_version (w_list w j))"
    by auto
  then have "ll_sim w' (sp_set k [] (s\<lparr>sp_list := (sp_list s)(l := sp_list s k)\<rparr>))"
    by (intro ll_simI) (simp_all add: sp_set_def ll_simD [OF assms(1)])
  with w'(1) show ?thesis by blast
qed

section \<open>Every call implements its specification\<close>

text \<open>\<open>answers\<close>: a call returns, with the specified result and a heap in step with the specification.\<close>

definition answers :: "('b res \<times> 'a world) option \<Rightarrow> 'b res \<times> 'a ll_state \<Rightarrow> bool" where
  "answers r q \<longleftrightarrow> (\<exists>x w'. r = Some (x, w') \<and> x = fst q \<and> ll_sim w' (snd q))"

lemma answers_ret [simp]: "answers (Some (ret x w)) (ret y s) \<longleftrightarrow> x = y \<and> ll_sim w s"
  by (auto simp: answers_def ret_def)

lemma answers_raise [simp]: "answers (Some (Inl e, w)) (Inl e', s) \<longleftrightarrow> e = e' \<and> ll_sim w s"
  by (auto simp: answers_def)

lemma caught_simps [simp]: "caught s (Inl e) f = (Inl e, s)" "caught s (Inr x) f = f x"
  by (simp_all add: caught_def)

lemma sim_insert_new:
  assumes "ll_sim w s" and "make_shared v w = (n, w')"
  shows "ll_sim (insertFirst l n w') (sp_set l (n # sp_list s l) (sp_alloc v s))"
    and "ll_sim (insertLast l n w') (sp_set l (sp_list s l @ [n]) (sp_alloc v s))"
    and "p \<in> set (sp_list s l) \<Longrightarrow> ll_sim (insertBefore l p n w') (sp_set l (put_before p n (sp_list s l)) (sp_alloc v s))"
    and "p \<in> set (sp_list s l) \<Longrightarrow> ll_sim (insertAfter l p n w') (sp_set l (put_after p n (sp_list s l)) (sp_alloc v s))"
  using sim_insert [OF sim_alloc(1,3,4) [OF assms]] by (simp_all add: sim_alloc(5) [OF assms])

lemma exec_add_value:
  assumes "ll_sim w s"
  shows "answers (ll_exec eq (AddFirst l v) w) (ll_spec eq (AddFirst l v) s)"
    and "answers (ll_exec eq (AddLast l v) w) (ll_spec eq (AddLast l v) s)"
    and "answers (ll_exec eq (AddBefore l p v) w) (ll_spec eq (AddBefore l p v) s)"
    and "answers (ll_exec eq (AddAfter l p v) w) (ll_spec eq (AddAfter l p v) s)"
proof -
  obtain n w' where n: "make_shared v w = (n, w')" by fastforce
  note sims = sim_insert_new [OF assms n] and fresh = sim_alloc(2) [OF assms n, symmetric]
  show "answers (ll_exec eq (AddFirst l v) w) (ll_spec eq (AddFirst l v) s)"
    "answers (ll_exec eq (AddLast l v) w) (ll_spec eq (AddLast l v) s)"
    using sims(1,2) [of l] by (simp_all add: LL_AddFirst_def LL_AddLast_def n sp_put_new_def fresh)
  show "answers (ll_exec eq (AddBefore l p v) w) (ll_spec eq (AddBefore l p v) s)"
    "answers (ll_exec eq (AddAfter l p v) w) (ll_spec eq (AddAfter l p v) s)"
    using sims(3,4) sp_memberD [of l p s] assms
    by (cases "sp_member l p s"; simp add: LL_AddBefore_def LL_AddAfter_def sim_validate [OF assms] n sp_put_new_def fresh)+
qed

lemma exec_add_node:
  assumes "ll_sim w s" and "known (sp_fresh s) h"
  shows "answers (ll_exec eq (AddFirstNode l h) w) (ll_spec eq (AddFirstNode l h) s)"
    and "answers (ll_exec eq (AddLastNode l h) w) (ll_spec eq (AddLastNode l h) s)"
    and "answers (ll_exec eq (AddBeforeNode l p h) w) (ll_spec eq (AddBeforeNode l p h) s)"
    and "answers (ll_exec eq (AddAfterNode l p h) w) (ll_spec eq (AddAfterNode l p h) s)"
proof -
  note val = sim_validate [OF assms(1)]
  have sims: "ll_sim (insertFirst l n w) (sp_set l (n # sp_list s l) s)"
    "ll_sim (insertLast l n w) (sp_set l (sp_list s l @ [n]) s)"
    "q \<in> set (sp_list s l) \<Longrightarrow> ll_sim (insertBefore l q n w) (sp_set l (put_before q n (sp_list s l)) s)"
    "q \<in> set (sp_list s l) \<Longrightarrow> ll_sim (insertAfter l q n w) (sp_set l (put_after q n (sp_list s l)) s)"
    if "sp_unattached h s = Inr n" for n q
    using sim_insert [OF assms(1), of n] sp_unattachedD [OF that] assms(2) by (simp_all add: known_def)
  show "answers (ll_exec eq (AddFirstNode l h) w) (ll_spec eq (AddFirstNode l h) s)"
    "answers (ll_exec eq (AddLastNode l h) w) (ll_spec eq (AddLastNode l h) s)"
    using sims(1,2) assms(1)
    by (cases "sp_unattached h s"; simp add: LL_AddFirst_node_def LL_AddLast_node_def val sp_put_def)+
  show "answers (ll_exec eq (AddBeforeNode l p h) w) (ll_spec eq (AddBeforeNode l p h) s)"
    "answers (ll_exec eq (AddAfterNode l p h) w) (ll_spec eq (AddAfterNode l p h) s)"
    using sims(3,4) sp_memberD [of l p s] assms(1)
    by (cases "sp_member l p s"; cases "sp_unattached h s";
        simp add: LL_AddBefore_node_def LL_AddAfter_node_def val sp_put_def)+
qed

lemma exec_find:
  assumes "ll_sim w s"
  shows "find_loop (\<lambda>x. eq x v) w (ll_head (w_list w l)) = Some (sp_find eq v s (sp_list s l))"
    and "find_last_loop (\<lambda>x. eq x v) w (ll_tail (w_list w l)) = Some (sp_find eq v s (rev (sp_list s l)))"
  using find_loop_returns [OF sim_list(5) [OF assms, of l]] find_last_loop_returns [OF sim_list(5) [OF assms, of l]]
  by (simp_all add: sim_list(1,2) [OF assms] sp_find_def ll_simD(2) [OF assms])

lemma exec_remove:
  assumes "ll_sim w s"
  shows "answers (ll_exec eq (RemoveFirst l) w) (ll_spec eq (RemoveFirst l) s)"
    and "answers (ll_exec eq (RemoveLast l) w) (ll_spec eq (RemoveLast l) s)"
    and "answers (ll_exec eq (RemoveNode l h) w) (ll_spec eq (RemoveNode l h) s)"
    and "answers (ll_exec eq (RemoveValue l v) w) (ll_spec eq (RemoveValue l v) s)"
proof -
  note un = sim_unlink [OF assms, of _ l]
  show "answers (ll_exec eq (RemoveFirst l) w) (ll_spec eq (RemoveFirst l) s)"
    using assms un by (cases "sp_list s l") (simp_all add: LL_RemoveFirst_def sim_list(1) [OF assms])
  show "answers (ll_exec eq (RemoveLast l) w) (ll_spec eq (RemoveLast l) s)"
    using assms un [OF last_in_set]
    by (cases "sp_list s l = []") (simp_all add: LL_RemoveLast_def sim_list(2) [OF assms] last_or_def)
  show "answers (ll_exec eq (RemoveNode l h) w) (ll_spec eq (RemoveNode l h) s)"
    using assms un sp_memberD [of l h s]
    by (cases "sp_member l h s") (simp_all add: LL_Remove_node_def sim_validate [OF assms])
  have "a \<in> set (sp_list s l)" if "sp_find eq v s (sp_list s l) = Some a" for a
    using that by (auto simp: sp_find_def find_Some_iff in_set_conv_nth)
  then show "answers (ll_exec eq (RemoveValue l v) w) (ll_spec eq (RemoveValue l v) s)"
    using assms un
    by (cases "sp_find eq v s (sp_list s l)") (simp_all add: LL_Remove_def exec_find [OF assms])
qed

lemma sp_find_some: "(\<exists>a. sp_find eq v s xs = Some a) \<longleftrightarrow> list_ex (\<lambda>a. eq (sp_item s a) v) xs"
  by (induction xs) (auto simp: sp_find_def)

lemma exec_query:
  assumes "ll_sim w s"
  shows "answers (ll_exec eq (GetValue h) w) (ll_spec eq (GetValue h) s)"
    and "answers (ll_exec eq (GetList h) w) (ll_spec eq (GetList h) s)"
    and "answers (ll_exec eq (GetNext h) w) (ll_spec eq (GetNext h) s)"
    and "answers (ll_exec eq (GetPrevious h) w) (ll_spec eq (GetPrevious h) s)"
    and "answers (ll_exec eq (EqualsValue h v) w) (ll_spec eq (EqualsValue h v) s)"
    and "answers (ll_exec eq (Count l) w) (ll_spec eq (Count l) s)"
    and "answers (ll_exec eq (First l) w) (ll_spec eq (First l) s)"
    and "answers (ll_exec eq (Last l) w) (ll_spec eq (Last l) s)"
  by (cases h; simp add: Node_getValue_def Node_getList_def Node_getNext_def Node_getPrevious_def Node_eq_value_def
      requireNode_def LL_Count_def LL_First_def LL_Last_def assms sim_list(1-3) [OF assms]
      sim_owner [OF assms] sim_links [OF assms] ll_simD(2) [OF assms])+

lemma exec_search:
  assumes "ll_sim w s"
  shows "answers (ll_exec eq (Contains l v) w) (ll_spec eq (Contains l v) s)"
    and "answers (ll_exec eq (Find l v) w) (ll_spec eq (Find l v) s)"
    and "answers (ll_exec eq (FindLast l v) w) (ll_spec eq (FindLast l v) s)"
  by (simp_all add: LL_Contains_def LL_Find_def LL_FindLast_def exec_find [OF assms] sp_find_some assms)

lemma exec_node:
  assumes "ll_sim w s"
  shows "answers (ll_exec eq (NewNode v) w) (ll_spec eq (NewNode v) s)"
    and "answers (ll_exec eq (SetValue h v) w) (ll_spec eq (SetValue h v) s)"
proof -
  obtain n w' where n: "make_shared v w = (n, w')" by fastforce
  show "answers (ll_exec eq (NewNode v) w) (ll_spec eq (NewNode v) s)"
    using sim_alloc(1,2) [OF assms n] by (simp add: LinkedListNode_new_def n)
  have "ll_sim (upd_node a (\<lambda>d. d\<lparr>nd_item := v\<rparr>) w) (s\<lparr>sp_item := (sp_item s)(a := v)\<rparr>)" for a
  proof -
    have "chain (upd_node a (\<lambda>d. d\<lparr>nd_item := v\<rparr>) w) l (sp_list s l)" for l
      by (rule chain_frame [OF ll_invD(1) [OF ll_simD(1) [OF assms]]]) (simp_all add: upd_simps)
    then have "ll_inv (upd_node a (\<lambda>d. d\<lparr>nd_item := v\<rparr>) w) (sp_list s)"
      using ll_simD(1) [OF assms] unfolding ll_inv_def by (simp add: upd_simps)
    then show ?thesis by (intro ll_simI) (simp_all add: upd_simps ll_simD [OF assms])
  qed
  then show "answers (ll_exec eq (SetValue h v) w) (ll_spec eq (SetValue h v) s)"
    using assms by (cases h) (simp_all add: Node_setValue_def requireNode_def)
qed

lemma exec_whole:
  assumes "ll_sim w s"
  shows "answers (ll_exec eq (ClearList l) w) (ll_spec eq (ClearList l) s)"
    and "answers (ll_exec eq (CopyTo l dest i) w) (ll_spec eq (CopyTo l dest i) s)"
    and "answers (ll_exec eq (CopyAssign l k) w) (ll_spec eq (CopyAssign l k) s)"
    and "answers (ll_exec eq (MoveAssign l k) w) (ll_spec eq (MoveAssign l k) s)"
proof -
  let ?s1 = "s\<lparr>sp_list := (sp_list s)(l := [])\<rparr>"
  obtain w1 where w1: "detachAll l w = Some w1" "ll_sim w1 ?s1" using sim_detachAll [OF assms] by blast
  let ?s2 = "?s1\<lparr>sp_version := (sp_version s)(l := sp_version s l + 1)\<rparr>"
  have w2: "ll_sim (bump l w1) ?s2" using sim_bump [OF w1(2), of l] by simp
  have s2: "?s2 = sp_set l [] s" by (simp add: sp_set_def)
  show "answers (ll_exec eq (ClearList l) w) (ll_spec eq (ClearList l) s)"
    using w2 by (simp add: LL_Clear_def w1(1) s2)
  show "answers (ll_exec eq (CopyTo l dest i) w) (ll_spec eq (CopyTo l dest i) s)"
    using assms copyTo_loop_returns [OF sim_list(5) [OF assms, of l], of "nat i" dest]
    by (simp add: LL_CopyTo_def sp_copyTo_def Let_def sim_list(1,3) [OF assms] ll_simD(2) [OF assms])
  show "answers (ll_exec eq (CopyAssign l k) w) (ll_spec eq (CopyAssign l k) s)"
  proof (cases "l = k")
    case False
    with sim_copyNodesFrom [OF w2 False] w1(1) show ?thesis
      by (auto simp: LinkedList_copy_assign_def sp_set_def)
  qed (simp add: LinkedList_copy_assign_def assms)
  show "answers (ll_exec eq (MoveAssign l k) w) (ll_spec eq (MoveAssign l k) s)"
  proof (cases "l = k")
    case False
    have "?s2\<lparr>sp_list := (sp_list ?s2)(l := sp_list ?s2 k)\<rparr> = sp_set l (sp_list s k) s"
      using False by (simp add: sp_set_def)
    with sim_adoptNodesFrom [OF w2 False] False w1(1) show ?thesis
      by (auto simp: LinkedList_move_assign_def)
  qed (simp add: LinkedList_move_assign_def assms)
qed

lemma exec_answers:
  assumes "ll_sim w s" and "list_all (known (sp_fresh s)) (handles c)"
  shows "answers (ll_exec eq c w) (ll_spec eq c s)"
  by (cases c) (use assms(2) in \<open>simp_all only: handles.simps list.pred_inject exec_query [OF assms(1)] exec_search [OF assms(1)] exec_node [OF assms(1)]
    exec_whole [OF assms(1)] exec_remove [OF assms(1)] exec_add_value [OF assms(1)] exec_add_node [OF assms(1)] simp_thms\<close>)

section \<open>Whole programs\<close>

text \<open>A program also constructs and destroys list objects.\<close>

datatype 'a ll_event =
    Call "'a ll_call" | Construct nat | CopyConstruct nat nat | MoveConstruct nat nat | Destroy nat

primrec ll_do :: "('a \<Rightarrow> 'a \<Rightarrow> bool) \<Rightarrow> 'a ll_event \<Rightarrow> 'a world \<Rightarrow> ('a ll_out res \<times> 'a world) option" where
  "ll_do eq (Call c) w = ll_exec eq c w"
| "ll_do eq (Construct l) w = Some (ret LDone (LinkedList_ctor l w))"
| "ll_do eq (CopyConstruct l k) w = map_option (ret LDone) (LinkedList_copy_ctor l k w)"
| "ll_do eq (MoveConstruct l k) w = map_option (ret LDone) (LinkedList_move_ctor l k w)"
| "ll_do eq (Destroy l) w = map_option (ret LDone) (LinkedList_dtor l w)"

definition sp_construct :: "nat \<Rightarrow> 'a ll_state \<Rightarrow> 'a ll_state" where
  "sp_construct l s = s\<lparr>sp_version := (sp_version s)(l := 0)\<rparr>"

primrec sp_do :: "('a \<Rightarrow> 'a \<Rightarrow> bool) \<Rightarrow> 'a ll_event \<Rightarrow> 'a ll_state \<Rightarrow> 'a ll_out res \<times> 'a ll_state" where
  "sp_do eq (Call c) s = ll_spec eq c s"
| "sp_do eq (Construct l) s = ret LDone (sp_construct l s)"
| "sp_do eq (CopyConstruct l k) s = ret LDone (sp_copy l k (sp_construct l s))"
| "sp_do eq (MoveConstruct l k) s =
     ret LDone (sp_set k [] ((sp_construct l s)\<lparr>sp_list := (sp_list s)(l := sp_list s k)\<rparr>))"
| "sp_do eq (Destroy l) s = ret LDone (s\<lparr>sp_list := (sp_list s)(l := [])\<rparr>)"

text \<open>
  What the language asks of a program: handles were obtained from the library, and an object is
  constructed in storage that holds no live list, one without nodes.
\<close>

primrec admissible :: "'a ll_event \<Rightarrow> 'a ll_state \<Rightarrow> bool" where
  "admissible (Call c) s \<longleftrightarrow> list_all (known (sp_fresh s)) (handles c)"
| "admissible (Construct l) s \<longleftrightarrow> sp_list s l = []"
| "admissible (CopyConstruct l k) s \<longleftrightarrow> sp_list s l = [] \<and> l \<noteq> k"
| "admissible (MoveConstruct l k) s \<longleftrightarrow> sp_list s l = [] \<and> l \<noteq> k"
| "admissible (Destroy l) s \<longleftrightarrow> True"

primrec ll_run :: "('a \<Rightarrow> 'a \<Rightarrow> bool) \<Rightarrow> 'a ll_event list \<Rightarrow> 'a world \<Rightarrow> ('a ll_out res list \<times> 'a world) option" where
  "ll_run eq [] w = Some ([], w)"
| "ll_run eq (ev # evs) w =
     Option.bind (ll_do eq ev w) (\<lambda>(r, w'). map_option (\<lambda>(rs, w''). (r # rs, w'')) (ll_run eq evs w'))"

primrec sp_run :: "('a \<Rightarrow> 'a \<Rightarrow> bool) \<Rightarrow> 'a ll_event list \<Rightarrow> 'a ll_state \<Rightarrow> 'a ll_out res list \<times> 'a ll_state" where
  "sp_run eq [] s = ([], s)"
| "sp_run eq (ev # evs) s =
     (case sp_do eq ev s of (r, s') \<Rightarrow> case sp_run eq evs s' of (rs, s'') \<Rightarrow> (r # rs, s''))"

primrec admissible_run :: "('a \<Rightarrow> 'a \<Rightarrow> bool) \<Rightarrow> 'a ll_event list \<Rightarrow> 'a ll_state \<Rightarrow> bool" where
  "admissible_run eq [] s \<longleftrightarrow> True"
| "admissible_run eq (ev # evs) s \<longleftrightarrow> admissible ev s \<and> (case sp_do eq ev s of (r, s') \<Rightarrow> admissible_run eq evs s')"

definition ll_init :: "'a \<Rightarrow> 'a world" where
  "ll_init d = \<lparr>w_node = (\<lambda>_. LinkedListNodeData_ctor d), w_fresh = 0, w_list = (\<lambda>_. LinkedList_empty)\<rparr>"

definition sp_init :: "'a \<Rightarrow> 'a ll_state" where
  "sp_init d = \<lparr>sp_list = (\<lambda>_. []), sp_item = (\<lambda>_. d), sp_fresh = 0, sp_version = (\<lambda>_. 0)\<rparr>"

lemma init_sim: "ll_sim (ll_init d) (sp_init d)"
  by (simp add: ll_sim_def ll_inv_def chain_def ll_init_def sp_init_def LinkedListNodeData_ctor_def LinkedList_empty_def)

lemma sim_construct:
  assumes "ll_sim w s" and "sp_list s l = []"
  shows "ll_sim (LinkedList_ctor l w) (sp_construct l s)"
proof -
  have "ll_inv (LinkedList_ctor l w) ((sp_list s)(l := []))"
    by (rule ll_inv_update [OF ll_simD(1) [OF assms(1)]])
      (simp_all add: chain_def LinkedList_ctor_def upd_simps LinkedList_empty_def assms(2))
  then have "ll_inv (LinkedList_ctor l w) (sp_list s)" using assms(2) by (simp add: fun_upd_idem)
  then show ?thesis
    by (intro ll_simI) (simp_all add: sp_construct_def LinkedList_ctor_def upd_simps LinkedList_empty_def ll_simD [OF assms(1)])
qed

lemma sp_construct_list [simp]: "sp_list (sp_construct l s) = sp_list s"
  by (simp add: sp_construct_def)

lemma do_answers:
  assumes "ll_sim w s" and "admissible ev s"
  shows "answers (ll_do eq ev w) (sp_do eq ev s)"
proof (cases ev)
  case (Call c)
  with assms exec_answers show ?thesis by simp
next
  case (Construct l)
  with assms sim_construct show ?thesis by simp
next
  case (CopyConstruct l k)
  with assms(2) sim_copyNodesFrom [OF sim_construct [OF assms(1), of l], of l k] show ?thesis
    by (auto simp: LinkedList_copy_ctor_def)
next
  case (MoveConstruct l k)
  with assms(2) sim_adoptNodesFrom [OF sim_construct [OF assms(1), of l], of l k] show ?thesis
    by (auto simp: LinkedList_move_ctor_def)
next
  case (Destroy l)
  with sim_detachAll [OF assms(1), of l] show ?thesis by (auto simp: LinkedList_dtor_def)
qed

lemma run_answers:
  "ll_sim w s \<Longrightarrow> admissible_run eq evs s \<Longrightarrow>
   \<exists>w'. ll_run eq evs w = Some (fst (sp_run eq evs s), w') \<and> ll_sim w' (snd (sp_run eq evs s))"
proof (induction evs arbitrary: w s)
  case (Cons ev evs)
  from do_answers [OF Cons.prems(1), of ev eq] Cons.prems(2) obtain w1 where
    w1: "ll_do eq ev w = Some (fst (sp_do eq ev s), w1)" "ll_sim w1 (snd (sp_do eq ev s))"
    by (auto simp: answers_def)
  from Cons.IH [OF w1(2)] Cons.prems(2) show ?case by (auto simp: w1(1) split: prod.splits)
qed simp

section \<open>Enumerators and mutation\<close>

primrec target :: "'a ll_call \<Rightarrow> nat option" where
  "target (NewNode v) = None" | "target (GetValue h) = None" | "target (SetValue h v) = None"
| "target (GetList h) = None" | "target (GetNext h) = None" | "target (GetPrevious h) = None"
| "target (EqualsValue h v) = None"
| "target (Count l) = None" | "target (First l) = None" | "target (Last l) = None"
| "target (AddFirst l v) = Some l" | "target (AddFirstNode l h) = Some l"
| "target (AddLast l v) = Some l" | "target (AddLastNode l h) = Some l"
| "target (AddBefore l p v) = Some l" | "target (AddBeforeNode l p h) = Some l"
| "target (AddAfter l p v) = Some l" | "target (AddAfterNode l p h) = Some l"
| "target (RemoveFirst l) = Some l" | "target (RemoveLast l) = Some l" | "target (RemoveValue l v) = Some l"
| "target (RemoveNode l h) = Some l" | "target (ClearList l) = Some l"
| "target (Contains l v) = None" | "target (Find l v) = None" | "target (FindLast l v) = None"
| "target (CopyTo l dest i) = None" | "target (CopyAssign l k) = None" | "target (MoveAssign l k) = None"

text \<open>A call that adds or removes nodes advances the counter of its list, one that throws or finds nothing does not.\<close>

definition ll_bumps :: "('a \<Rightarrow> 'a \<Rightarrow> bool) \<Rightarrow> nat \<Rightarrow> 'a ll_call \<Rightarrow> 'a ll_state \<Rightarrow> nat" where
  "ll_bumps eq l c s =
     (case c of
        CopyAssign a b \<Rightarrow> if a \<noteq> b \<and> a = l then Suc (length (sp_list s b)) else 0
      | MoveAssign a b \<Rightarrow> if a \<noteq> b \<and> (a = l \<or> b = l) then 1 else 0
      | _ \<Rightarrow> if target c = Some l \<and> (case fst (ll_spec eq c s) of Inl _ \<Rightarrow> False | Inr x \<Rightarrow> x \<noteq> LBool False) then 1 else 0)"

definition ll_step :: "('a \<Rightarrow> 'a \<Rightarrow> bool) \<Rightarrow> 'a ll_call \<Rightarrow> 'a ll_state \<Rightarrow> 'a ll_state" where
  "ll_step eq c s = snd (ll_spec eq c s)"

lemmas step_defs = ll_bumps_def ll_step_def ret_def sp_set_def sp_alloc_def sp_put_def sp_put_new_def sp_take_def

lemma step_bumps:
  "sp_version (ll_step eq c s) l = sp_version s l + of_nat (ll_bumps eq l c s) \<and>
   (ll_bumps eq l c s = 0 \<longrightarrow> sp_list (ll_step eq c s) l = sp_list s l)"
proof (cases c)
  case (AddFirstNode k h)
  then show ?thesis by (cases "sp_unattached h s") (simp_all add: step_defs)
next
  case (AddLastNode k h)
  then show ?thesis by (cases "sp_unattached h s") (simp_all add: step_defs)
next
  case (AddBefore k p v)
  then show ?thesis by (cases "sp_member k p s") (simp_all add: step_defs)
next
  case (AddBeforeNode k p h)
  then show ?thesis by (cases "sp_member k p s"; cases "sp_unattached h s") (simp_all add: step_defs)
next
  case (AddAfter k p v)
  then show ?thesis by (cases "sp_member k p s") (simp_all add: step_defs)
next
  case (AddAfterNode k p h)
  then show ?thesis by (cases "sp_member k p s"; cases "sp_unattached h s") (simp_all add: step_defs)
next
  case (RemoveNode k h)
  then show ?thesis by (cases "sp_member k h s") (simp_all add: step_defs)
next
  case (RemoveValue k v)
  then show ?thesis by (cases "sp_find eq v s (sp_list s k)") (simp_all add: step_defs)
next
  case (GetValue h)
  then show ?thesis by (cases h) (simp_all add: step_defs requireNode_def)
next
  case (SetValue h v)
  then show ?thesis by (cases h) (simp_all add: step_defs requireNode_def)
next
  case (CopyTo k dest i)
  then show ?thesis by (cases "sp_copyTo k dest i s") (simp_all add: step_defs)
next
  case (CopyAssign a b)
  then show ?thesis by (simp add: step_defs sp_copy_def)
next
  case (MoveAssign a b)
  then show ?thesis by (auto simp: step_defs)
qed (simp_all add: step_defs)

interpretation linked: versioned "\<lambda>s. sp_list s l" "\<lambda>s. sp_version s l" "ll_step eq" "ll_bumps eq l" for eq l
  by unfold_locales (use step_bumps in auto)

text \<open>The collection an enumerator walks: heap, abstract state and list.\<close>

definition ll_at :: "'a world \<times> 'a ll_state \<times> nat \<Rightarrow> ll_enumerator \<Rightarrow> nat \<Rightarrow> bool" where
  "ll_at = (\<lambda>(w, s, l) e k. ll_sim w s \<and> k \<le> length (sp_list s l) \<and> le_version e = ll_version (w_list w l) \<and>
     (if k = 0 then \<not> le_started e \<and> le_state e = BeforeFirst \<and> le_cur e = first_or (sp_list s l) None
      else le_started e \<and> le_state e = OnCurrent \<and> le_cur e = Some (sp_list s l ! (k - 1))))"

definition ll_finished :: "'a world \<times> 'a ll_state \<times> nat \<Rightarrow> ll_enumerator \<Rightarrow> bool" where
  "ll_finished = (\<lambda>(w, s, l) e. le_version e = ll_version (w_list w l) \<and> le_state e = AfterLast)"

lemma sim_nth_next:
  assumes "ll_sim w s" and "k < length (sp_list s l)"
  shows "nd_next (w_node w (sp_list s l ! k)) = first_or (drop (Suc k) (sp_list s l)) None"
proof -
  have "sp_list s l = take k (sp_list s l) @ sp_list s l ! k # drop (Suc k) (sp_list s l)"
    using assms(2) by (rule id_take_nth_drop)
  then show ?thesis using sim_list(5) [OF assms(1), of l] by (metis lseg.simps(2) lseg_append)
qed

interpretation linked_cursor: cursor
  "\<lambda>(w, s, l). ll_sim w s" "\<lambda>(w, s, l). map (sp_item s) (sp_list s l)" "\<lambda>(w, s, l). ll_version (w_list w l)"
  le_version "\<lambda>(w, s, l). LL_GetEnumerator l w" "\<lambda>(w, s, l). LL_MoveNext l w" "\<lambda>(w, s, l). LL_Current w"
  ll_at ll_finished
proof (unfold_locales, goal_cases)
  case (4 c e k)
  then obtain w s l where c: "c = (w, s, l)" by (cases c)
  with 4 have at: "ll_at (w, s, l) e k" and k: "k < length (sp_list s l)" by simp_all
  then have sim: "ll_sim w s" by (simp add: ll_at_def)
  let ?e = "e\<lparr>le_cur := Some (sp_list s l ! k), le_started := True, le_state := OnCurrent\<rparr>"
  have "LL_MoveNext l w e = Inr (True, ?e)"
  proof (cases k)
    case 0
    then have "first_or (sp_list s l) None = Some (sp_list s l ! k)" using k by (cases "sp_list s l") simp_all
    with at 0 show ?thesis by (simp add: ll_at_def LL_MoveNext_def requireUnmodified_def isAfterLast_def Let_def)
  next
    case (Suc j)
    then have "nd_next (w_node w (sp_list s l ! j)) = Some (sp_list s l ! k)"
      using sim_nth_next [OF sim, of j l] k Cons_nth_drop_Suc [of k "sp_list s l"] by (metis Suc_lessD first_or_simps(2))
    with at Suc show ?thesis by (simp add: ll_at_def LL_MoveNext_def requireUnmodified_def isAfterLast_def Let_def)
  qed
  moreover have "ll_at (w, s, l) ?e (Suc k)" using at k by (simp add: ll_at_def)
  ultimately show ?case using c k ll_simD(2) [OF sim] by (simp add: LL_Current_def requireCurrent_def)
next
  case (5 c e k)
  then obtain w s l where c: "c = (w, s, l)" by (cases c)
  with 5 have at: "ll_at (w, s, l) e k" and k: "k = length (sp_list s l)" by simp_all
  then have sim: "ll_sim w s" by (simp add: ll_at_def)
  have "\<exists>e'. LL_MoveNext l w e = Inr (False, e') \<and> ll_finished (w, s, l) e'"
  proof (cases k)
    case 0
    with at k show ?thesis
      by (simp add: ll_at_def ll_finished_def LL_MoveNext_def requireUnmodified_def isAfterLast_def Let_def)
  next
    case (Suc j)
    then have "nd_next (w_node w (sp_list s l ! j)) = None" using sim_nth_next [OF sim, of j l] k by simp
    with at Suc show ?thesis
      by (simp add: ll_at_def ll_finished_def LL_MoveNext_def requireUnmodified_def isAfterLast_def Let_def)
  qed
  with c show ?case by simp
qed (auto simp: ll_at_def ll_finished_def LL_GetEnumerator_def LL_MoveNext_def LL_Current_def requireUnmodified_def
    requireCurrent_def isAfterLast_def sim_list)

lemma sp_run_calls: "snd (sp_run eq (map Call cs) s) = fold (ll_step eq) cs s"
  by (induction cs arbitrary: s) (simp_all add: ll_step_def split: prod.split, metis snd_conv)

section \<open>Iterators\<close>

text \<open>\<^verbatim>\<open>++\<close> visits the nodes in order and ends at \<^verbatim>\<open>end()\<close>; \<^verbatim>\<open>--\<close> undoes it, from \<^verbatim>\<open>end()\<close> too.\<close>

lemma iter_inc_dec:
  assumes "ll_sim w s" and "k < length (sp_list s l)"
  shows "\<exists>j. iter_inc w \<lparr>it_node = Some (sp_list s l ! k), it_list = l\<rparr> = Some j \<and>
     j = (if Suc k < length (sp_list s l) then \<lparr>it_node = Some (sp_list s l ! Suc k), it_list = l\<rparr> else LL_end l) \<and>
     iter_dec w j = \<lparr>it_node = Some (sp_list s l ! k), it_list = l\<rparr>"
proof (cases "Suc k < length (sp_list s l)")
  case True
  have "sp_list s l = take (Suc k) (sp_list s l) @ sp_list s l ! Suc k # drop (Suc (Suc k)) (sp_list s l)"
    using True by (rule id_take_nth_drop)
  then have "nd_prev (w_node w (sp_list s l ! Suc k)) = last_or None (take (Suc k) (sp_list s l))"
    using sim_list(5) [OF assms(1), of l] by (metis lseg.simps(2) lseg_append)
  then have "nd_prev (w_node w (sp_list s l ! Suc k)) = Some (sp_list s l ! k)"
    using assms(2) by (simp add: take_Suc_conv_app_nth)
  moreover have "nd_next (w_node w (sp_list s l ! k)) = Some (sp_list s l ! Suc k)"
    unfolding sim_nth_next [OF assms] Cons_nth_drop_Suc [OF True, symmetric] by simp
  ultimately show ?thesis using True by (simp add: iter_inc_def iter_dec_def)
next
  case False
  then have "sp_list s l \<noteq> []" "length (sp_list s l) - 1 = k" using assms(2) by auto
  then have "last (sp_list s l) = sp_list s l ! k" "sp_list s l \<noteq> []" by (simp_all add: last_conv_nth)
  with False assms(2) sim_nth_next [OF assms] show ?thesis
    by (simp add: iter_inc_def iter_dec_def LL_end_def sim_list(2) [OF assms(1)] last_or_def)
qed

section \<open>Properties\<close>

text \<open>
  C9. A program that constructs, copies, moves, assigns and destroys any number of linked lists and
  calls any of their operations and those of node handles, in any order, handles to removed nodes
  and to nodes of other lists included: every call returns, none of the link-chasing loops runs
  forever, and results, exceptions, contents, owners, neighbours and versions are those of the
  specification on sequences of nodes.
\<close>

theorem linked_list_refinement:
  assumes "admissible_run eq evs (sp_init d)"
  shows "\<exists>w. ll_run eq evs (ll_init d) = Some (fst (sp_run eq evs (sp_init d)), w) \<and>
     ll_sim w (snd (sp_run eq evs (sp_init d)))"
  using run_answers [OF init_sim assms] .

definition sample_program :: "int ll_event list" where
  "sample_program =
     [Construct 0, Construct 1, Call (AddLast 0 5), Call (AddFirst 0 4), Call (AddAfter 0 (Some 1) 7),
      Call (AddLastNode 1 (Some 2)), Call (RemoveNode 0 (Some 2)), Call (AddLastNode 1 (Some 2)),
      Call (RemoveNode 0 (Some 2)), Call (RemoveValue 0 5), Call (GetValue (Some 0)), MoveConstruct 2 0,
      Call (Count 0), Call (First 2)]"

theorem linked_list_refinement_witness:
  "\<exists>w. ll_run (=) sample_program (ll_init 0) =
     Some ([Inr LDone, Inr LDone, Inr (LNode (Some 0)), Inr (LNode (Some 1)), Inr (LNode (Some 2)),
            Inl AttachedNode, Inr LDone, Inr LDone,
            Inl ForeignNode, Inr (LBool True), Inr (LValue 5), Inr LDone,
            Inr (LCount 0), Inr (LNode (Some 1))], w)"
proof -
  have adm: "admissible_run (=) sample_program (sp_init (0 :: int))"
    and out: "fst (sp_run (=) sample_program (sp_init (0 :: int))) =
      [Inr LDone, Inr LDone, Inr (LNode (Some 0)), Inr (LNode (Some 1)), Inr (LNode (Some 2)),
       Inl AttachedNode, Inr LDone, Inr LDone,
       Inl ForeignNode, Inr (LBool True), Inr (LValue 5), Inr LDone, Inr (LCount 0), Inr (LNode (Some 1))]"
    by (simp_all add: sample_program_def sp_init_def sp_construct_def step_defs known_def sp_unattached_def
        sp_member_def sp_find_def requireNode_def)
  show ?thesis using linked_list_refinement [OF adm] out by auto
qed

text \<open>
  C10. Fail-fast enumeration of \<^verbatim>\<open>LinkedList\<close>. An enumerator has delivered the first \<open>k\<close> values when any
  calls are made, on its list and on others, that advance the version of its list fewer than
  \<open>2\<^sup>6\<^sup>4\<close> times. If one of them did, \<^verbatim>\<open>MoveNext\<close> and \<^verbatim>\<open>Reset\<close> throw; if none did, the enumeration goes on
  over exactly the remaining nodes, with the values they have by then, and ends.
\<close>

theorem linked_list_fail_fast:
  assumes "ll_at (w, s, l) e k" and "admissible_run eq (map Call cs) s"
    and "total_bumps (ll_step eq) (ll_bumps eq l) cs s < 2 ^ 64"
    and "length (sp_list s l) < n"
  shows "\<exists>rs w'. ll_run eq (map Call cs) w = Some (rs, w') \<and>
     (if total_bumps (ll_step eq) (ll_bumps eq l) cs s > 0
      then LL_MoveNext l w' e = Inl CollectionModified \<and> LL_EnumReset l w' e = Inl CollectionModified
      else drive n (LL_MoveNext l w') (LL_Current w') e =
             Some (Inr (map (\<lambda>a. nd_item (w_node w' a)) (drop k (sp_list s l)))))"
proof -
  have sim: "ll_sim w s" and ver: "le_version e = sp_version s l" and k: "k \<le> length (sp_list s l)"
    using assms(1) ll_simD(4) [of w s l] by (auto simp: ll_at_def)
  let ?s = "fold (ll_step eq) cs s"
  obtain rs w' where run: "ll_run eq (map Call cs) w = Some (rs, w')" and sim': "ll_sim w' ?s"
    using run_answers [OF sim assms(2)] by (auto simp: sp_run_calls)
  note ver' = ll_simD(4) [OF sim', of l]
  show ?thesis
  proof (cases "total_bumps (ll_step eq) (ll_bumps eq l) cs s > 0")
    case True
    then have "le_version e \<noteq> ll_version (w_list w' l)"
      using linked.version_detects [OF assms(3)] ver ver' by auto
    with True run linked_cursor.move_modified [of e "(w', ?s, l)"] show ?thesis
      by (simp add: LL_EnumReset_def requireUnmodified_def)
  next
    case False
    then have same: "sp_list ?s l = sp_list s l" "sp_version ?s l = sp_version s l"
      using linked.run_silent [of eq l cs s] linked.version_detects [OF assms(3)] by auto
    then have "ll_at (w', ?s, l) e k"
      using assms(1) sim' ver ver' by (simp add: ll_at_def)
    from linked_cursor.drive_from [OF this, of n] k assms(4) same have
      "drive n (LL_MoveNext l w') (LL_Current w') e = Some (Inr (drop k (map (sp_item ?s) (sp_list s l))))" by simp
    with False run show ?thesis by (simp add: ll_simD(2) [OF sim'] drop_map)
  qed
qed

theorem linked_list_fail_fast_witness:
  "let w = snd (LL_AddLast 0 5 (ll_init (0 :: int)))
   in \<exists>rs w'. ll_run (=) [Call (SetValue (Some 0) 6), Call (AddFirst 0 4)] w = Some (rs, w') \<and>
        LL_MoveNext 0 w' (LL_GetEnumerator 0 w) = Inl CollectionModified"
proof -
  define w where "w = snd (LL_AddLast 0 5 (ll_init (0 :: int)))"
  define s where "s = snd (ll_spec (=) (AddLast 0 5) (sp_init (0 :: int)))"
  have "ll_sim w s"
    using exec_add_value(2) [OF init_sim, of "(=)" 0 "5 :: int" 0]
    by (auto simp: answers_def w_def s_def ret_def split: prod.splits)
  then have at: "ll_at (w, s, 0) (LL_GetEnumerator 0 w) 0"
    by (simp add: ll_at_def LL_GetEnumerator_def sim_list)
  have bumps: "total_bumps (ll_step (=)) (ll_bumps (=) 0) [SetValue (Some 0) 6, AddFirst 0 4] s = 1"
    and adm: "admissible_run (=) (map Call [SetValue (Some 0) 6, AddFirst 0 4]) s" and len: "length (sp_list s 0) < 2"
    by (simp_all add: s_def sp_init_def step_defs requireNode_def known_def)
  have "\<exists>rs w'. ll_run (=) (map Call [SetValue (Some 0) 6, AddFirst 0 4]) w = Some (rs, w') \<and>
      LL_MoveNext 0 w' (LL_GetEnumerator 0 w) = Inl CollectionModified"
    using linked_list_fail_fast [OF at adm _ len] unfolding bumps by fastforce
  then show ?thesis by (simp only: w_def [symmetric] Let_def list.map)
qed

end
