(* ===== verification/Time_TimeSpan.thy ===== *)
theory Time_TimeSpan
  imports SR_Prelude
begin

unbundle bit_operations_syntax

text \<open>
  \<^verbatim>\<open>TimeSpan.cpp\<close>: 64-bit tick counts. Construction from components, checked arithmetic (whose
  overflow tests work on wrapped results), the component properties, \<^verbatim>\<open>ToString\<close> and the parser.
  A \<^verbatim>\<open>TimeSpan\<close> is its tick count, an integer within \<open>longcs_range\<close>; a computation that wraps is
  written on \<open>ulongcs\<close>.
\<close>

section \<open>Model\<close>

type_synonym longcs = int

definition longcs_range :: "longcs \<Rightarrow> bool" where
  "longcs_range t \<longleftrightarrow> LONGCS_MIN \<le> t \<and> t \<le> LONGCS_MAX"

definition intcs_range :: "intcs \<Rightarrow> bool" where
  "intcs_range i \<longleftrightarrow> INTCS_MIN \<le> i \<and> i \<le> INTCS_MAX"

definition TicksPerMicrosecond :: longcs where "TicksPerMicrosecond = 10"
definition TicksPerMillisecond :: longcs where "TicksPerMillisecond = TicksPerMicrosecond * 1000"
definition TicksPerSecond :: longcs where "TicksPerSecond = TicksPerMillisecond * 1000"
definition TicksPerMinute :: longcs where "TicksPerMinute = TicksPerSecond * 60"
definition TicksPerHour :: longcs where "TicksPerHour = TicksPerMinute * 60"
definition TicksPerDay :: longcs where "TicksPerDay = TicksPerHour * 24"

definition MaxSeconds :: longcs where "MaxSeconds = LONGCS_MAX sdiv TicksPerSecond"
definition MinSeconds :: longcs where "MinSeconds = LONGCS_MIN sdiv TicksPerSecond"
definition MaxMicroSeconds :: longcs where "MaxMicroSeconds = LONGCS_MAX sdiv TicksPerMicrosecond"
definition MinMicroSeconds :: longcs where "MinMicroSeconds = LONGCS_MIN sdiv TicksPerMicrosecond"

text \<open>The component sum in \<^verbatim>\<open>uint64_t\<close>, read back as a signed value.\<close>

definition TimeToTicks6 ::
  "intcs \<Rightarrow> intcs \<Rightarrow> intcs \<Rightarrow> intcs \<Rightarrow> intcs \<Rightarrow> intcs \<Rightarrow> longcs res" where
  "TimeToTicks6 days hours minutes seconds milliseconds microseconds =
     (let totalMicroseconds =
            ((of_int days * 86400 + of_int hours * 3600 + of_int minutes * 60 + of_int seconds)
              * 1000 + of_int milliseconds) * 1000 + of_int microseconds :: ulongcs;
          result = sint totalMicroseconds
      in if result > MaxMicroSeconds \<or> result < MinMicroSeconds
         then Inl (ArgumentOutOfRangeException '''') else Inr result)"

definition TimeToTicks3 :: "intcs \<Rightarrow> intcs \<Rightarrow> intcs \<Rightarrow> longcs res" where
  "TimeToTicks3 hour minute second =
     (let totalSeconds = hour * 3600 + minute * 60 + second
      in if totalSeconds > MaxSeconds \<or> totalSeconds < MinSeconds
         then Inl (ArgumentOutOfRangeException '''') else Inr (totalSeconds * TicksPerSecond))"

definition TimeSpan_ctor3 :: "intcs \<Rightarrow> intcs \<Rightarrow> intcs \<Rightarrow> longcs res" where
  "TimeSpan_ctor3 hours minutes seconds = TimeToTicks3 hours minutes seconds"

definition TimeSpan_ctor6 ::
  "intcs \<Rightarrow> intcs \<Rightarrow> intcs \<Rightarrow> intcs \<Rightarrow> intcs \<Rightarrow> intcs \<Rightarrow> longcs res" where
  "TimeSpan_ctor6 days hours minutes seconds milliseconds microseconds =
     bind_res (TimeToTicks6 days hours minutes seconds milliseconds microseconds)
       (\<lambda>us. Inr (us * TicksPerMicrosecond))"

text \<open>The component properties divide with truncation toward zero.\<close>

definition getDaysProperty :: "longcs \<Rightarrow> intcs" where
  "getDaysProperty t = t sdiv TicksPerDay"

definition getHoursProperty :: "longcs \<Rightarrow> intcs" where
  "getHoursProperty t = (t sdiv TicksPerHour) smod 24"

definition getMinutesProperty :: "longcs \<Rightarrow> intcs" where
  "getMinutesProperty t = (t sdiv TicksPerMinute) smod 60"

definition getSecondsProperty :: "longcs \<Rightarrow> intcs" where
  "getSecondsProperty t = (t sdiv TicksPerSecond) smod 60"

definition getMillisecondsProperty :: "longcs \<Rightarrow> intcs" where
  "getMillisecondsProperty t = (t sdiv TicksPerMillisecond) smod 1000"

definition getMicrosecondsProperty :: "longcs \<Rightarrow> intcs" where
  "getMicrosecondsProperty t = (t sdiv TicksPerMicrosecond) smod 1000"

definition getNanosecondsProperty :: "longcs \<Rightarrow> intcs" where
  "getNanosecondsProperty t = (t smod TicksPerMicrosecond) * 100"

definition TimeSpan_Add :: "longcs \<Rightarrow> longcs \<Rightarrow> longcs res" where
  "TimeSpan_Add t ts =
     (if (ts > 0 \<and> t > LONGCS_MAX - ts) \<or> (ts < 0 \<and> t < LONGCS_MIN - ts)
      then Inl OverflowException else Inr (t + ts))"

definition TimeSpan_Compare :: "longcs \<Rightarrow> longcs \<Rightarrow> intcs" where
  "TimeSpan_Compare t1 t2 = (if t1 > t2 then 1 else if t1 < t2 then - 1 else 0)"

definition TimeSpan_Duration :: "longcs \<Rightarrow> longcs res" where
  "TimeSpan_Duration t =
     (if t = LONGCS_MIN then Inl OverflowException else Inr (if t \<ge> 0 then t else - t))"

definition TimeSpan_Negate :: "longcs \<Rightarrow> longcs res" where
  "TimeSpan_Negate t = (if t = LONGCS_MIN then Inl OverflowException else Inr (- t))"

text \<open>\<^verbatim>\<open>Subtract\<close>: the wrapped difference, then a comparison of sign bits (\<^verbatim>\<open>>> 63\<close> is arithmetic).\<close>

definition TimeSpan_Subtract :: "longcs \<Rightarrow> longcs \<Rightarrow> longcs res" where
  "TimeSpan_Subtract t ts =
     (let result = sint (of_int t - of_int ts :: ulongcs);
          overflow = (drop_bit 63 t \<noteq> drop_bit 63 ts \<and> drop_bit 63 t \<noteq> drop_bit 63 result)
      in if overflow then Inl OverflowException else Inr result)"

definition TimeSpan_GetHashCode :: "longcs \<Rightarrow> intcs" where
  "TimeSpan_GetHashCode t =
     (let w = (of_int t :: ulongcs) in sint (ucast w XOR ucast (drop_bit 32 w) :: uintcs))"

text \<open>Decimal output: \<^verbatim>\<open>oss << n\<close>, and with \<^verbatim>\<open>setw(w)\<close>, \<^verbatim>\<open>setfill('0')\<close>.\<close>

definition digit_char :: "nat \<Rightarrow> char" where
  "digit_char d = ''0123456789'' ! d"

fun dec :: "nat \<Rightarrow> string" where
  "dec n = (if n < 10 then [digit_char n] else dec (n div 10) @ [digit_char (n mod 10)])"

declare dec.simps [simp del]

definition pad :: "nat \<Rightarrow> nat \<Rightarrow> string" where
  "pad w n = replicate (w - length (dec n)) (CHR ''0'') @ dec n"

text \<open>\<^verbatim>\<open>ToString()\<close>; the magnitude is an unsigned 64-bit value, here a \<open>nat\<close>.\<close>

definition TimeSpan_ToString :: "longcs \<Rightarrow> string" where
  "TimeSpan_ToString ticks =
     (let negative = ticks < 0;
          m0 = nat (if negative then - (ticks + 1) + 1 else ticks);
          days = m0 div nat TicksPerDay; m1 = m0 mod nat TicksPerDay;
          hours = m1 div nat TicksPerHour; m2 = m1 mod nat TicksPerHour;
          minutes = m2 div nat TicksPerMinute; m3 = m2 mod nat TicksPerMinute;
          seconds = m3 div nat TicksPerSecond; m4 = m3 mod nat TicksPerSecond
      in (if negative then ''-'' else '''') @
         (if days \<noteq> 0 then dec days @ ''.'' @ pad 2 hours else dec hours) @
         '':'' @ pad 2 minutes @ '':'' @ pad 2 seconds @ ''.'' @ pad 7 m4)"

text \<open>Characters and trimming, \<^verbatim>\<open>DateTimeTextScanner.hpp\<close>.\<close>

definition isDateTimeTextWhitespace :: "char \<Rightarrow> bool" where
  "isDateTimeTextWhitespace c \<longleftrightarrow> c \<in> {CHR 0x20, CHR 0x09, CHR 0x0A, CHR 0x0D, CHR 0x0C, CHR 0x0B}"

definition trimDateTimeText :: "string \<Rightarrow> string" where
  "trimDateTimeText text =
     rev (dropWhile isDateTimeTextWhitespace (rev (dropWhile isDateTimeTextWhitespace text)))"

definition is_digit :: "char \<Rightarrow> bool" where
  "is_digit c \<longleftrightarrow> c \<in> set ''0123456789''"

definition digit_value :: "char \<Rightarrow> nat" where
  "digit_value c = of_char c - 48"

definition decimal_value :: "string \<Rightarrow> nat" where
  "decimal_value ds = foldl (\<lambda>v c. v * 10 + digit_value c) 0 ds"

fun hasOverlongDigitRun :: "nat \<Rightarrow> string \<Rightarrow> bool" where
  "hasOverlongDigitRun run [] = False"
| "hasOverlongDigitRun run (ch # s) =
     (if is_digit ch then if Suc run > 18 then True else hasOverlongDigitRun (Suc run) s
      else hasOverlongDigitRun 0 s)"

text \<open>
  \<^verbatim>\<open>sscanf\<close>: one \<^verbatim>\<open>%lld\<close> skips white space, takes an optional sign and at least one digit; the
  conversions of a format are separated by literal characters. \<open>None\<close> stands for fewer conversions
  than the format has.
\<close>

definition scan_lld :: "string \<Rightarrow> (int \<times> string) option" where
  "scan_lld s =
     (let s1 = dropWhile isDateTimeTextWhitespace s;
          neg = (s1 \<noteq> [] \<and> hd s1 = CHR ''-'');
          s2 = (if s1 \<noteq> [] \<and> (hd s1 = CHR ''-'' \<or> hd s1 = CHR ''+'') then tl s1 else s1);
          ds = takeWhile is_digit s2
      in if ds = [] then None
         else Some (if neg then - int (decimal_value ds) else int (decimal_value ds), dropWhile is_digit s2))"

fun scan_fields :: "char list \<Rightarrow> string \<Rightarrow> int list option" where
  "scan_fields [] s = map_option (\<lambda>(v, r). [v]) (scan_lld s)"
| "scan_fields (c # cs) s =
     (case scan_lld s of
        None \<Rightarrow> None
      | Some (v, r) \<Rightarrow>
          (case r of
             [] \<Rightarrow> None
           | x # r' \<Rightarrow> if x = c then map_option (\<lambda>vs. v # vs) (scan_fields cs r') else None))"

text \<open>The second pass: past the second colon, then past the digits of the seconds.\<close>

fun after_colons :: "nat \<Rightarrow> string \<Rightarrow> string" where
  "after_colons 0 s = s"
| "after_colons (Suc n) [] = []"
| "after_colons (Suc n) (c # s) = after_colons (if c = CHR '':'' then n else Suc n) s"

text \<open>The optional fraction: its value in ticks and what follows it.\<close>

definition parse_fraction :: "string \<Rightarrow> nat \<times> string" where
  "parse_fraction s =
     (if s \<noteq> [] \<and> hd s = CHR ''.'' then
        let fd = take 7 (takeWhile is_digit (tl s))
        in (decimal_value fd * 10 ^ (7 - length fd), drop (length fd) (tl s))
      else (0, s))"

datatype TimeSpanParseOutcome = ParseOk longcs | ParseBadFormat | ParseOverflow

definition parse_range :: "bool \<Rightarrow> ulongcs \<Rightarrow> TimeSpanParseOutcome" where
  "parse_range negative magnitude =
     (if negative then
        if magnitude > of_int LONGCS_MAX + 1 then ParseOverflow else ParseOk (sint (0 - magnitude))
      else if magnitude > of_int LONGCS_MAX then ParseOverflow else ParseOk (sint magnitude))"

definition parse_body :: "bool \<Rightarrow> string \<Rightarrow> TimeSpanParseOutcome" where
  "parse_body negative p =
     (let hasDot = (CHR ''.'' \<in> set (takeWhile (\<lambda>c. c \<noteq> CHR '':'') p))
      in case (if hasDot then scan_fields [CHR ''.'', CHR '':'', CHR '':''] p
               else map_option (\<lambda>vs. 0 # vs) (scan_fields [CHR '':'', CHR '':''] p)) of
           Some [days, hours, minutes, seconds] \<Rightarrow>
             if hours < 0 \<or> hours > 23 \<or> minutes < 0 \<or> minutes > 59 \<or> seconds < 0 \<or> seconds > 59
             then ParseBadFormat
             else if days < 0 then ParseBadFormat
             else if days > 10675199 then ParseOverflow
             else (case parse_fraction (dropWhile is_digit (after_colons 2 p)) of
                     (subsecTicks, rest) \<Rightarrow>
                       if rest \<noteq> [] then ParseBadFormat
                       else parse_range negative
                              (of_int days * of_int TicksPerDay + of_int hours * of_int TicksPerHour +
                               of_int minutes * of_int TicksPerMinute + of_int seconds * of_int TicksPerSecond +
                               of_nat subsecTicks))
         | _ \<Rightarrow> ParseBadFormat)"

text \<open>
  \<^verbatim>\<open>parseTimeSpanCore\<close>. The scan works on the C string, which ends at the first NUL character.
\<close>

definition parseTimeSpanCore :: "string \<Rightarrow> TimeSpanParseOutcome" where
  "parseTimeSpanCore s =
     (if s = [] then ParseBadFormat
      else let input = (if isDateTimeTextWhitespace (hd s) \<or> isDateTimeTextWhitespace (last s)
                        then trimDateTimeText s else s)
           in if input = [] then ParseBadFormat
              else if hasOverlongDigitRun 0 input then ParseOverflow
              else let p = takeWhile (\<lambda>c. c \<noteq> CHR 0x00) input;
                       negative = (p \<noteq> [] \<and> hd p = CHR ''-'')
                   in parse_body negative (if negative then tl p else p))"

definition TimeSpan_TryParse :: "string \<Rightarrow> longcs \<Rightarrow> bool \<times> longcs" where
  "TimeSpan_TryParse s result =
     (case parseTimeSpanCore s of ParseOk t \<Rightarrow> (True, t) | _ \<Rightarrow> (False, result))"

definition TimeSpan_Parse :: "string \<Rightarrow> longcs res" where
  "TimeSpan_Parse s =
     (case parseTimeSpanCore s of
        ParseOk t \<Rightarrow> Inr t
      | ParseOverflow \<Rightarrow> Inl OverflowException
      | ParseBadFormat \<Rightarrow> Inl FormatException)"

lemmas tick_units = TicksPerMicrosecond_def TicksPerMillisecond_def TicksPerSecond_def TicksPerMinute_def
  TicksPerHour_def TicksPerDay_def

section \<open>Wrap-around\<close>

lemma sint_of_int_ulong: "sint (of_int x :: ulongcs) = (x + 2 ^ 63) mod 2 ^ 64 - 2 ^ 63"
  by (simp add: signed_of_int signed_take_bit_eq_take_bit_shift take_bit_eq_mod)

lemma sint_of_int_range: "longcs_range x \<Longrightarrow> sint (of_int x :: ulongcs) = x"
  by (simp add: sint_of_int_ulong longcs_range_def LONGCS_MIN_def LONGCS_MAX_def)

lemma sint_of_int_above: "LONGCS_MAX < x \<Longrightarrow> x < 2 ^ 64 \<Longrightarrow> sint (of_int x :: ulongcs) = x - 2 ^ 64"
  using minus_mod_self2 [of "x + 2 ^ 63" "2 ^ 64"]
  by (simp add: sint_of_int_ulong LONGCS_MAX_def)

lemma sint_of_int_below: "x < LONGCS_MIN \<Longrightarrow> - (2 ^ 64) \<le> x \<Longrightarrow> sint (of_int x :: ulongcs) = x + 2 ^ 64"
  using mod_add_self2 [of "x + 2 ^ 63" "2 ^ 64"]
  by (simp add: sint_of_int_ulong LONGCS_MIN_def)

lemma sign_bit: "longcs_range x \<Longrightarrow> drop_bit 63 x = (if x < 0 then - 1 else 0)"
  by (auto simp: drop_bit_eq_div longcs_range_def LONGCS_MIN_def LONGCS_MAX_def intro!: div_pos_pos_trivial)

section \<open>Checked arithmetic is exact\<close>

lemma TimeSpan_Add_exact:
  assumes "longcs_range a" and "longcs_range b"
  shows "TimeSpan_Add a b = (if longcs_range (a + b) then Inr (a + b) else Inl OverflowException)"
  using assms by (auto simp: TimeSpan_Add_def longcs_range_def LONGCS_MIN_def LONGCS_MAX_def)

lemma TimeSpan_Subtract_exact:
  assumes "longcs_range a" and "longcs_range b"
  shows "TimeSpan_Subtract a b = (if longcs_range (a - b) then Inr (a - b) else Inl OverflowException)"
proof -
  have w: "(of_int a - of_int b :: ulongcs) = of_int (a - b)" by simp
  note bounds = assms [unfolded longcs_range_def LONGCS_MIN_def LONGCS_MAX_def]
  consider (ok) "longcs_range (a - b)" | (above) "LONGCS_MAX < a - b" | (below) "a - b < LONGCS_MIN"
    unfolding longcs_range_def by linarith
  then show ?thesis
  proof cases
    case ok
    then have "drop_bit 63 a = drop_bit 63 b \<or> drop_bit 63 a = drop_bit 63 (a - b)"
      using assms by (auto simp: sign_bit)
    with ok show ?thesis
      by (simp add: TimeSpan_Subtract_def Let_def w sint_of_int_range del: of_int_diff)
  next
    case above
    then have r: "sint (of_int (a - b) :: ulongcs) = a - b - 2 ^ 64"
      using bounds by (intro sint_of_int_above) auto
    moreover have "longcs_range (a - b - 2 ^ 64)" "a - b - 2 ^ 64 < 0" "0 \<le> a" "b < 0"
      using above bounds by (auto simp: longcs_range_def LONGCS_MIN_def LONGCS_MAX_def)
    ultimately show ?thesis
      using above assms by (simp add: TimeSpan_Subtract_def Let_def w sign_bit longcs_range_def del: of_int_diff)
  next
    case below
    then have r: "sint (of_int (a - b) :: ulongcs) = a - b + 2 ^ 64"
      using bounds by (intro sint_of_int_below) auto
    moreover have "longcs_range (a - b + 2 ^ 64)" "0 \<le> a - b + 2 ^ 64" "a < 0" "0 \<le> b"
      using below bounds by (auto simp: longcs_range_def LONGCS_MIN_def LONGCS_MAX_def)
    ultimately show ?thesis
      using below assms by (simp add: TimeSpan_Subtract_def Let_def w sign_bit longcs_range_def del: of_int_diff)
  qed
qed

lemma TimeSpan_Negate_exact:
  "longcs_range a \<Longrightarrow>
   TimeSpan_Negate a = (if longcs_range (- a) then Inr (- a) else Inl OverflowException)"
  by (auto simp: TimeSpan_Negate_def longcs_range_def LONGCS_MIN_def LONGCS_MAX_def)

section \<open>Components\<close>

lemma sdiv_cases:
  "0 < a \<Longrightarrow> (t :: int) sdiv a = (if 0 \<le> t then t div a else - (- t div a))"
  by (auto simp: signed_divide_int_def sgn_if)

lemma sdiv_sdiv:
  assumes "0 < a" and "0 < b"
  shows "(t :: int) sdiv (a * b) = t sdiv a sdiv b"
proof (cases "0 \<le> t")
  case True
  then have "0 \<le> t div a" using assms(1) by (simp add: pos_imp_zdiv_nonneg_iff)
  with True assms show ?thesis by (simp add: sdiv_cases zdiv_zmult2_eq)
next
  case False
  then have "0 \<le> - t div a" using assms(1) by (simp add: pos_imp_zdiv_nonneg_iff)
  with False assms show ?thesis
    by (cases "- t div a = 0") (auto simp: sdiv_cases zdiv_zmult2_eq)
qed

text \<open>Each unit splits into the next larger one and the property that holds the remainder.\<close>

lemma component_chain:
  "t = (t sdiv TicksPerMicrosecond) * 10 + t smod TicksPerMicrosecond"
  "t sdiv TicksPerMicrosecond = (t sdiv TicksPerMillisecond) * 1000 + getMicrosecondsProperty t"
  "t sdiv TicksPerMillisecond = (t sdiv TicksPerSecond) * 1000 + getMillisecondsProperty t"
  "t sdiv TicksPerSecond = (t sdiv TicksPerMinute) * 60 + getSecondsProperty t"
  "t sdiv TicksPerMinute = (t sdiv TicksPerHour) * 60 + getMinutesProperty t"
  "t sdiv TicksPerHour = getDaysProperty t * 24 + getHoursProperty t"
proof -
  have c: "t sdiv a = (t sdiv (a * b)) * b + (t sdiv a) smod b" if "0 < a" "0 < b" for a b :: int
    using that by (simp add: sdiv_sdiv sdiv_mult_smod_eq)
  show "t = (t sdiv TicksPerMicrosecond) * 10 + t smod TicksPerMicrosecond"
    using sdiv_mult_smod_eq [of t 10] by (simp add: tick_units)
  show "t sdiv TicksPerMicrosecond = (t sdiv TicksPerMillisecond) * 1000 + getMicrosecondsProperty t"
    using c [of 10 1000] by (simp add: tick_units getMicrosecondsProperty_def)
  show "t sdiv TicksPerMillisecond = (t sdiv TicksPerSecond) * 1000 + getMillisecondsProperty t"
    using c [of 10000 1000] by (simp add: tick_units getMillisecondsProperty_def)
  show "t sdiv TicksPerSecond = (t sdiv TicksPerMinute) * 60 + getSecondsProperty t"
    using c [of 10000000 60] by (simp add: tick_units getSecondsProperty_def)
  show "t sdiv TicksPerMinute = (t sdiv TicksPerHour) * 60 + getMinutesProperty t"
    using c [of 600000000 60] by (simp add: tick_units getMinutesProperty_def)
  show "t sdiv TicksPerHour = getDaysProperty t * 24 + getHoursProperty t"
    using c [of 36000000000 24] by (simp add: tick_units getHoursProperty_def getDaysProperty_def)
qed

lemma components_sum:
  "t * 100 = (getDaysProperty t * TicksPerDay + getHoursProperty t * TicksPerHour +
      getMinutesProperty t * TicksPerMinute + getSecondsProperty t * TicksPerSecond +
      getMillisecondsProperty t * TicksPerMillisecond + getMicrosecondsProperty t * TicksPerMicrosecond) * 100 +
      getNanosecondsProperty t"
  using component_chain [of t]
  by (simp add: getNanosecondsProperty_def TicksPerDay_def TicksPerHour_def TicksPerMinute_def TicksPerSecond_def
      TicksPerMillisecond_def TicksPerMicrosecond_def)

lemma smod_bounds:
  assumes "0 < b"
  shows "\<bar>(x :: int) smod b\<bar> < b" and "0 \<le> x \<Longrightarrow> 0 \<le> x smod b" and "x \<le> 0 \<Longrightarrow> x smod b \<le> 0"
  using assms smod_int_range [of b x] smod_int_compares [of x b] by auto

section \<open>Construction from components\<close>

lemma TimeToTicks6_exact:
  fixes d h m s ms us :: int
  defines "tot \<equiv> ((d * 86400 + h * 3600 + m * 60 + s) * 1000 + ms) * 1000 + us"
  assumes "longcs_range tot"
  shows "TimeToTicks6 d h m s ms us =
    (if MinMicroSeconds \<le> tot \<and> tot \<le> MaxMicroSeconds then Inr tot else Inl (ArgumentOutOfRangeException ''''))"
proof -
  have "((of_int d * 86400 + of_int h * 3600 + of_int m * 60 + of_int s) * 1000 + of_int ms) * 1000 + of_int us
      = (of_int tot :: ulongcs)"
    by (simp add: tot_def)
  then show ?thesis
    using sint_of_int_range [OF assms(2)] by (auto simp: TimeToTicks6_def Let_def)
qed

section \<open>Decimal text\<close>

definition digits :: "string \<Rightarrow> bool" where
  "digits ds \<longleftrightarrow> ds \<noteq> [] \<and> (\<forall>c\<in>set ds. is_digit c)"

lemma digit_char_facts:
  assumes "d < 10"
  shows "is_digit (digit_char d)" and "digit_value (digit_char d) = d"
proof -
  have "d \<in> {0, 1, 2, 3, 4, 5, 6, 7, 8, 9}" using assms by auto
  then show "is_digit (digit_char d)" "digit_value (digit_char d) = d"
    by (auto simp: is_digit_def digit_char_def digit_value_def)
qed

lemma decimal_value_append1: "decimal_value (xs @ [c]) = decimal_value xs * 10 + digit_value c"
  by (simp add: decimal_value_def)

lemma dec_facts: "digits (dec n) \<and> decimal_value (dec n) = n"
proof (induction n rule: dec.induct)
  case (1 n)
  show ?case
  proof (cases "n < 10")
    case True
    then show ?thesis
      by (subst (1 2) dec.simps) (simp add: digits_def digit_char_facts decimal_value_def)
  next
    case False
    have "n mod 10 < 10" by simp
    with 1 False show ?thesis
      by (subst (1 2) dec.simps) (auto simp: digits_def digit_char_facts decimal_value_append1)
  qed
qed

lemma dec_length: "0 < k \<Longrightarrow> n < 10 ^ k \<Longrightarrow> length (dec n) \<le> k"
proof (induction n arbitrary: k rule: dec.induct)
  case (1 n)
  show ?case
  proof (cases "n < 10")
    case True
    then show ?thesis using "1.prems" by (subst dec.simps) simp
  next
    case False
    then have "1 < k" using "1.prems" by (cases "k = 1") auto
    moreover from this have "n div 10 < 10 ^ (k - 1)"
      using "1.prems" by (cases k) (auto simp: less_mult_imp_div_less mult.commute)
    ultimately have "length (dec (n div 10)) \<le> k - 1" using "1.IH" [OF False, of "k - 1"] by simp
    with \<open>1 < k\<close> False show ?thesis by (subst dec.simps) auto
  qed
qed

lemma decimal_value_zeros: "decimal_value (replicate k (CHR ''0'') @ ds) = decimal_value ds"
  by (induction k) (simp_all add: decimal_value_def digit_value_def)

lemma is_digit_0: "is_digit (CHR ''0'')"
  by (simp add: is_digit_def)

lemma pad_facts: "digits (pad w n)" "decimal_value (pad w n) = n"
  using dec_facts [of n] is_digit_0 by (auto simp: pad_def digits_def decimal_value_zeros)

lemma pad_length: "0 < w \<Longrightarrow> n < 10 ^ w \<Longrightarrow> length (pad w n) = w"
  using dec_length [of w n] by (simp add: pad_def)

lemma digit_not_special:
  "is_digit c \<Longrightarrow> \<not> isDateTimeTextWhitespace c \<and> c \<noteq> CHR ''-'' \<and> c \<noteq> CHR ''+'' \<and> c \<noteq> CHR '':'' \<and> c \<noteq> CHR ''.'' \<and> c \<noteq> CHR 0x00"
  by (auto simp: is_digit_def isDateTimeTextWhitespace_def)

lemma separators_not_digit [simp]: "\<not> is_digit (CHR '':'')" "\<not> is_digit (CHR ''.'')" "\<not> is_digit (CHR ''-'')"
  by (simp_all add: is_digit_def)

text \<open>One conversion of \<^verbatim>\<open>sscanf\<close> on a run of digits that ends in a non-digit.\<close>

lemma takeWhile_digits:
  assumes "\<forall>c\<in>set ds. is_digit c" and "r = [] \<or> \<not> is_digit (hd r)"
  shows "takeWhile is_digit (ds @ r) = ds" and "dropWhile is_digit (ds @ r) = r"
  using assms by (induction ds) (cases r, auto)+

lemma scan_lld_digits:
  assumes "digits ds" and "r = [] \<or> \<not> is_digit (hd r)"
  shows "scan_lld (ds @ r) = Some (int (decimal_value ds), r)"
proof -
  obtain d ds' where ds: "ds = d # ds'" "is_digit d" using assms(1) by (cases ds) (auto simp: digits_def)
  then have "dropWhile isDateTimeTextWhitespace (ds @ r) = ds @ r" "hd (ds @ r) = d"
    using digit_not_special by auto
  then show ?thesis
    using takeWhile_digits [of ds r] assms ds digit_not_special [OF ds(2)]
    by (auto simp: scan_lld_def digits_def Let_def)
qed

lemma overlong_digits:
  assumes "\<forall>c\<in>set ds. is_digit c" and "run + length ds \<le> 18" and "\<not> is_digit c"
  shows "hasOverlongDigitRun run (ds @ c # r) = hasOverlongDigitRun 0 r"
    and "\<not> hasOverlongDigitRun run ds"
  using assms by (induction ds arbitrary: run) auto

lemma after_colons_skip: "\<forall>c\<in>set xs. c \<noteq> CHR '':'' \<Longrightarrow> after_colons (Suc n) (xs @ r) = after_colons (Suc n) r"
  by (induction xs) auto

section \<open>Parsing what was printed\<close>

text \<open>The text after the sign, from its five fields; \<open>hs\<close> is the hours field, padded or not.\<close>

definition body_text :: "nat \<Rightarrow> string \<Rightarrow> nat \<Rightarrow> nat \<Rightarrow> nat \<Rightarrow> string" where
  "body_text days hs minutes seconds f =
     (if days \<noteq> 0 then dec days @ ''.'' @ hs else hs) @
     '':'' @ pad 2 minutes @ '':'' @ pad 2 seconds @ ''.'' @ pad 7 f"

lemma takeWhile_colon:
  assumes "\<forall>c\<in>set xs. c \<noteq> CHR '':''"
  shows "takeWhile (\<lambda>c. c \<noteq> CHR '':'') (xs @ CHR '':'' # r) = xs"
  using assms by (simp add: takeWhile_tail)

lemma digits_no_colon: "digits ds \<Longrightarrow> \<forall>c\<in>set ds. c \<noteq> CHR '':''"
  using digit_not_special by (auto simp: digits_def)

lemma body_fraction:
  assumes "digits hs" and "minutes < 60" and "seconds < 60" and "f < 10000000"
  shows "parse_fraction (dropWhile is_digit (after_colons 2 (body_text days hs minutes seconds f))) = (f, [])"
proof -
  define pre where "pre = (if days \<noteq> 0 then dec days @ ''.'' @ hs else hs)"
  have pre: "\<forall>c\<in>set pre. c \<noteq> CHR '':''"
    using digits_no_colon [OF assms(1)] digits_no_colon [of "dec days"] dec_facts [of days] by (auto simp: pre_def)
  have m: "\<forall>c\<in>set (pad 2 minutes). c \<noteq> CHR '':''" using digits_no_colon [OF pad_facts(1)] .
  have "after_colons 2 (body_text days hs minutes seconds f) = pad 2 seconds @ ''.'' @ pad 7 f"
    using after_colons_skip [OF pre, of 1 "'':'' @ pad 2 minutes @ '':'' @ pad 2 seconds @ ''.'' @ pad 7 f"]
      after_colons_skip [OF m, of 0 "'':'' @ pad 2 seconds @ ''.'' @ pad 7 f"]
    by (simp add: body_text_def pre_def numeral_2_eq_2)
  moreover have "dropWhile is_digit (pad 2 seconds @ ''.'' @ pad 7 f) = ''.'' @ pad 7 f"
    using pad_facts(1) [of 2 seconds] by (intro takeWhile_digits(2)) (auto simp: digits_def)
  moreover have "length (pad 7 f) = 7" using assms(4) by (simp add: pad_length)
  moreover have tw: "takeWhile is_digit (pad 7 f) = pad 7 f"
    using pad_facts(1) [of 7 f] by (simp add: digits_def takeWhile_eq_all_conv)
  ultimately show ?thesis
    by (simp add: parse_fraction_def pad_facts(2) tw)
qed

lemma body_fields:
  assumes "digits hs" and "decimal_value hs = hours"
  shows "scan_fields [CHR '':'', CHR '':''] (hs @ '':'' @ pad 2 minutes @ '':'' @ pad 2 seconds @ ''.'' @ r)
       = Some [int hours, int minutes, int seconds]"
  using assms pad_facts(1) by (simp add: scan_lld_digits pad_facts(2))

lemma body_scan:
  assumes "digits hs" and "decimal_value hs = hours"
  shows "(if CHR ''.'' \<in> set (takeWhile (\<lambda>c. c \<noteq> CHR '':'') (body_text days hs minutes seconds f))
          then scan_fields [CHR ''.'', CHR '':'', CHR '':''] (body_text days hs minutes seconds f)
          else map_option (\<lambda>vs. 0 # vs) (scan_fields [CHR '':'', CHR '':''] (body_text days hs minutes seconds f)))
       = Some [int days, int hours, int minutes, int seconds]"
proof (cases "days = 0")
  case True
  have "takeWhile (\<lambda>c. c \<noteq> CHR '':'') (body_text days hs minutes seconds f) = hs"
    using True digits_no_colon [OF assms(1)] takeWhile_colon by (simp add: body_text_def)
  moreover have "CHR ''.'' \<notin> set hs" using assms(1) digit_not_special by (auto simp: digits_def)
  ultimately show ?thesis
    using True body_fields [OF assms] by (simp add: body_text_def)
next
  case False
  have dd: "digits (dec days)" "decimal_value (dec days) = days" using dec_facts by auto
  let ?pre = "dec days @ ''.'' @ hs"
  have "\<forall>c\<in>set ?pre. c \<noteq> CHR '':''"
    using digits_no_colon [OF assms(1)] digits_no_colon [OF dd(1)] by auto
  from takeWhile_colon [OF this]
  have "takeWhile (\<lambda>c. c \<noteq> CHR '':'') (body_text days hs minutes seconds f) = ?pre"
    using False by (simp add: body_text_def)
  moreover have "scan_lld (dec days @ CHR ''.'' # r) = Some (int days, CHR ''.'' # r)" for r
    using dd by (simp add: scan_lld_digits)
  ultimately show ?thesis
    using False body_fields [OF assms] by (simp add: body_text_def)
qed

text \<open>The magnitude the parser accumulates in 64 bits, and the range test.\<close>

lemma parse_range_exact:
  assumes "m \<le> 2 ^ 63" and "\<not> negative \<Longrightarrow> m < 2 ^ 63"
  shows "parse_range negative (of_nat m) = ParseOk (if negative then - int m else int m)"
proof -
  have u: "unat (of_nat m :: ulongcs) = m"
    using assms(1) by (simp add: unsigned_of_nat take_bit_nat_eq_self)
  have neg: "sint (0 - of_nat m :: ulongcs) = - int m"
    using sint_of_int_range [of "- int m"] assms(1) by (simp add: longcs_range_def LONGCS_MIN_def LONGCS_MAX_def)
  have "\<not> (of_nat m :: ulongcs) > of_int LONGCS_MAX + 1"
    using assms(1) by (simp add: word_less_nat_alt u LONGCS_MAX_def)
  moreover have "\<not> (of_nat m :: ulongcs) > of_int LONGCS_MAX \<and> sint (of_nat m :: ulongcs) = int m" if "\<not> negative"
    using assms(2) [OF that] sint_of_int_range [of "int m"]
    by (simp add: word_less_nat_alt u longcs_range_def LONGCS_MIN_def LONGCS_MAX_def)
  ultimately show ?thesis using neg by (simp add: parse_range_def)
qed

definition hours_text :: "nat \<Rightarrow> nat \<Rightarrow> string" where
  "hours_text days hours = (if days \<noteq> 0 then pad 2 hours else dec hours)"

lemma hours_text_facts:
  "digits (hours_text days hours)" "decimal_value (hours_text days hours) = hours"
  using dec_facts pad_facts by (simp_all add: hours_text_def)

lemma parse_body_text:
  assumes "days \<le> 10675199" and "hours < 24" and "minutes < 60" and "seconds < 60" and "f < 10000000"
    and m: "m = days * 864000000000 + hours * 36000000000 + minutes * 600000000 + seconds * 10000000 + f"
    and range: "m \<le> 2 ^ 63" "\<not> negative \<Longrightarrow> m < 2 ^ 63"
  shows "parse_body negative (body_text days (hours_text days hours) minutes seconds f) =
    ParseOk (if negative then - int m else int m)"
proof -
  have mag: "(of_int (int days) * of_int TicksPerDay + of_int (int hours) * of_int TicksPerHour +
      of_int (int minutes) * of_int TicksPerMinute + of_int (int seconds) * of_int TicksPerSecond + of_nat f :: ulongcs)
      = of_nat m"
    by (simp add: m tick_units)
  have "parse_range negative (of_int (int days) * of_int TicksPerDay + of_int (int hours) * of_int TicksPerHour +
      of_int (int minutes) * of_int TicksPerMinute + of_int (int seconds) * of_int TicksPerSecond + of_nat f) =
      ParseOk (if negative then - int m else int m)"
    unfolding mag using range by (intro parse_range_exact)
  then show ?thesis
    unfolding parse_body_def Let_def body_scan [OF hours_text_facts] body_fraction [OF hours_text_facts(1) assms(3-5)]
    using assms(1-5) by simp
qed

lemma body_text_chars:
  assumes "days \<le> 10675199" and "hours < 24" and "minutes < 60" and "seconds < 60" and "f < 10000000"
  shows "\<not> hasOverlongDigitRun 0 (body_text days (hours_text days hours) minutes seconds f)"
    and "CHR 0x00 \<notin> set (body_text days (hours_text days hours) minutes seconds f)"
    and "body_text days (hours_text days hours) minutes seconds f \<noteq> []"
    and "is_digit (hd (body_text days (hours_text days hours) minutes seconds f))"
    and "is_digit (last (body_text days (hours_text days hours) minutes seconds f))"
proof -
  define hs where "hs = hours_text days hours"
  have len: "length (dec days) \<le> 8" "length hs \<le> 2" "length (pad 2 minutes) = 2"
    "length (pad 2 seconds) = 2" "length (pad 7 f) = 7"
    using assms dec_length [of 8 days] dec_length [of 2 hours]
    by (simp_all add: hs_def hours_text_def pad_length)
  note ds = dec_facts [of days, THEN conjunct1] hours_text_facts(1) [of days hours, folded hs_def]
    pad_facts(1) [of 2 minutes] pad_facts(1) [of 2 seconds] pad_facts(1) [of 7 f]
  note ds' = ds [unfolded digits_def]
  show "\<not> hasOverlongDigitRun 0 (body_text days (hours_text days hours) minutes seconds f)"
    using ds' len overlong_digits(2) [of "pad 7 f" 0 "CHR ''.''"]
    by (simp add: body_text_def overlong_digits(1) flip: hs_def)
  have nul: "CHR 0x00 \<notin> set d" if "digits d" for d
    using that digit_not_special by (auto simp: digits_def)
  show "CHR 0x00 \<notin> set (body_text days (hours_text days hours) minutes seconds f)"
    using ds nul by (simp add: body_text_def flip: hs_def)
  show "body_text days (hours_text days hours) minutes seconds f \<noteq> []"
    by (simp add: body_text_def)
  show "is_digit (hd (body_text days (hours_text days hours) minutes seconds f))"
    using ds' by (simp add: body_text_def flip: hs_def)
  show "is_digit (last (body_text days (hours_text days hours) minutes seconds f))"
    using ds' by (simp add: body_text_def flip: hs_def)
qed

lemma parse_text:
  assumes "days \<le> 10675199" and "hours < 24" and "minutes < 60" and "seconds < 60" and "f < 10000000"
    and "m = days * 864000000000 + hours * 36000000000 + minutes * 600000000 + seconds * 10000000 + f"
    and "m \<le> 2 ^ 63" "\<not> negative \<Longrightarrow> m < 2 ^ 63"
  shows "parseTimeSpanCore ((if negative then ''-'' else '''') @ body_text days (hours_text days hours) minutes seconds f)
    = ParseOk (if negative then - int m else int m)"
proof -
  let ?b = "body_text days (hours_text days hours) minutes seconds f"
  note c = body_text_chars [OF assms(1-5)]
  have nul: "takeWhile (\<lambda>c. c \<noteq> CHR 0x00) ?b = ?b"
    using c(2) by (intro takeWhile_eq_all_conv [THEN iffD2]) blast
  have ws: "\<not> isDateTimeTextWhitespace (hd ?b)" "\<not> isDateTimeTextWhitespace (last ?b)" "hd ?b \<noteq> CHR ''-''"
    using digit_not_special c(4,5) by blast+
  have dash: "\<not> isDateTimeTextWhitespace (CHR ''-'')" by (simp add: isDateTimeTextWhitespace_def)
  have "parse_body negative ?b = ParseOk (if negative then - int m else int m)"
    by (rule parse_body_text) (use assms in auto)
  then show ?thesis
    using c(1,3) ws dash
    by (cases negative) (simp_all add: parseTimeSpanCore_def Let_def nul)
qed

lemma TimeSpan_ToString_text:
  fixes t :: longcs
  defines "m \<equiv> nat \<bar>t\<bar>"
  shows "TimeSpan_ToString t = (if t < 0 then ''-'' else '''') @
    body_text (m div 864000000000) (hours_text (m div 864000000000) (m mod 864000000000 div 36000000000))
      (m mod 864000000000 mod 36000000000 div 600000000)
      (m mod 864000000000 mod 36000000000 mod 600000000 div 10000000)
      (m mod 864000000000 mod 36000000000 mod 600000000 mod 10000000)"
proof -
  have "nat (if t < 0 then - (t + 1) + 1 else t) = m" by (auto simp: m_def)
  then show ?thesis
    by (simp add: TimeSpan_ToString_def Let_def tick_units body_text_def hours_text_def)
qed

lemma mixed_radix:
  fixes m :: nat
  shows "m = m div 864000000000 * 864000000000 + m mod 864000000000 div 36000000000 * 36000000000 +
    m mod 864000000000 mod 36000000000 div 600000000 * 600000000 +
    m mod 864000000000 mod 36000000000 mod 600000000 div 10000000 * 10000000 +
    m mod 864000000000 mod 36000000000 mod 600000000 mod 10000000"
  by (simp add: add.assoc)

section \<open>Properties\<close>

text \<open>
  C31. \<^verbatim>\<open>TimeSpan\<close> arithmetic is exact: \<^verbatim>\<open>Add\<close>, \<^verbatim>\<open>Subtract\<close> (which subtracts with wrap-around and then
  compares sign bits), \<^verbatim>\<open>Negate\<close> and \<^verbatim>\<open>Duration\<close> return the mathematical result whenever it fits 64
  bits and throw \<^verbatim>\<open>OverflowException\<close> exactly when it does not.
\<close>

theorem timespan_arithmetic_exact:
  assumes "longcs_range a" and "longcs_range b"
  shows "TimeSpan_Add a b = (if longcs_range (a + b) then Inr (a + b) else Inl OverflowException) \<and>
         TimeSpan_Subtract a b = (if longcs_range (a - b) then Inr (a - b) else Inl OverflowException) \<and>
         TimeSpan_Negate a = (if longcs_range (- a) then Inr (- a) else Inl OverflowException) \<and>
         TimeSpan_Duration a = (if longcs_range \<bar>a\<bar> then Inr \<bar>a\<bar> else Inl OverflowException)"
  using TimeSpan_Add_exact [OF assms] TimeSpan_Subtract_exact [OF assms] TimeSpan_Negate_exact [OF assms(1)] assms(1)
  by (auto simp: TimeSpan_Duration_def longcs_range_def LONGCS_MIN_def LONGCS_MAX_def)

theorem timespan_arithmetic_exact_witness:
  "TimeSpan_Subtract (- 9223372036854775808) 1 = Inl OverflowException \<and>
   TimeSpan_Subtract 5 7 = Inr (- 2)"
  using timespan_arithmetic_exact [of "- 9223372036854775808" 1] timespan_arithmetic_exact [of 5 7]
  by (simp add: longcs_range_def LONGCS_MIN_def LONGCS_MAX_def)

text \<open>
  C32. Text round trip: for every 64-bit tick count, \<^verbatim>\<open>MinValue\<close> included, \<^verbatim>\<open>Parse(ToString())\<close> gives
  the time span back.
\<close>

theorem timespan_text_roundtrip:
  assumes "longcs_range t"
  shows "TimeSpan_Parse (TimeSpan_ToString t) = Inr t"
proof -
  define m where "m = nat \<bar>t\<bar>"
  have r: "m \<le> 2 ^ 63" "\<not> t < 0 \<Longrightarrow> m < 2 ^ 63"
    using assms by (auto simp: m_def longcs_range_def LONGCS_MIN_def LONGCS_MAX_def)
  have bounds: "m div 864000000000 \<le> 10675199" "m mod 864000000000 div 36000000000 < 24"
    "m mod 864000000000 mod 36000000000 div 600000000 < 60"
    "m mod 864000000000 mod 36000000000 mod 600000000 div 10000000 < 60"
    "m mod 864000000000 mod 36000000000 mod 600000000 mod 10000000 < 10000000"
    using r(1) div_le_mono [of m "2 ^ 63" 864000000000] by (simp_all add: less_mult_imp_div_less)
  have "parseTimeSpanCore (TimeSpan_ToString t) = ParseOk (if t < 0 then - int m else int m)"
    unfolding TimeSpan_ToString_text m_def [symmetric]
    using r by (intro parse_text [OF bounds mixed_radix])
  then show ?thesis by (simp add: TimeSpan_Parse_def m_def)
qed

theorem timespan_text_roundtrip_witness:
  "TimeSpan_Parse (TimeSpan_ToString (- 9223372036854775808)) = Inr (- 9223372036854775808)"
  by (rule timespan_text_roundtrip) (simp add: longcs_range_def LONGCS_MIN_def LONGCS_MAX_def)

text \<open>
  The component properties decompose the tick count: their weighted sum is the time span (in
  nanoseconds), each stays below its unit, and they all carry the sign of the time span.
\<close>

theorem timespan_components:
  "t * 100 = (getDaysProperty t * TicksPerDay + getHoursProperty t * TicksPerHour +
      getMinutesProperty t * TicksPerMinute + getSecondsProperty t * TicksPerSecond +
      getMillisecondsProperty t * TicksPerMillisecond + getMicrosecondsProperty t * TicksPerMicrosecond) * 100 +
      getNanosecondsProperty t \<and>
   \<bar>getHoursProperty t\<bar> < 24 \<and> \<bar>getMinutesProperty t\<bar> < 60 \<and> \<bar>getSecondsProperty t\<bar> < 60 \<and>
   \<bar>getMillisecondsProperty t\<bar> < 1000 \<and> \<bar>getMicrosecondsProperty t\<bar> < 1000 \<and>
   (if 0 \<le> t
    then 0 \<le> getDaysProperty t \<and> 0 \<le> getHoursProperty t \<and> 0 \<le> getMinutesProperty t \<and> 0 \<le> getSecondsProperty t
    else getDaysProperty t \<le> 0 \<and> getHoursProperty t \<le> 0 \<and> getMinutesProperty t \<le> 0 \<and> getSecondsProperty t \<le> 0)"
proof -
  have sgn: "0 \<le> t \<Longrightarrow> 0 \<le> t sdiv k" "t \<le> 0 \<Longrightarrow> t sdiv k \<le> 0" if "0 < k" for k
    using that by (auto simp: sdiv_cases pos_imp_zdiv_nonneg_iff)
  have units: "0 < TicksPerDay" "0 < TicksPerHour" "0 < TicksPerMinute" "0 < TicksPerSecond"
    by (simp_all add: tick_units)
  show ?thesis
    unfolding components_sum [of t]
    using sgn units
    by (auto simp: getDaysProperty_def getHoursProperty_def getMinutesProperty_def getSecondsProperty_def
        getMillisecondsProperty_def getMicrosecondsProperty_def smod_bounds)
qed

text \<open>
  Construction from components is exact as long as the total number of microseconds fits 64
  bits: the constructor returns the tick count when it is representable and throws otherwise.
\<close>

theorem timespan_from_components:
  fixes d h m s ms us :: int
  defines "tot \<equiv> ((d * 86400 + h * 3600 + m * 60 + s) * 1000 + ms) * 1000 + us"
  assumes "longcs_range tot"
  shows "TimeSpan_ctor6 d h m s ms us =
    (if longcs_range (tot * 10) then Inr (tot * 10) else Inl (ArgumentOutOfRangeException ''''))"
  using TimeToTicks6_exact [of d h m s ms us] assms
  by (auto simp: TimeSpan_ctor6_def tot_def longcs_range_def MinMicroSeconds_def MaxMicroSeconds_def
      TicksPerMicrosecond_def LONGCS_MIN_def LONGCS_MAX_def sdiv_cases)

text \<open>
  Beyond that bound the wrapped sum can land back in range: 213503982 days, 8 hours and a little
  more than a minute are \<open>2\<^sup>6\<^sup>4\<close> microseconds, for which the constructor returns a zero time span
  although the total is far outside the range it documents.
\<close>

lemma timespan_ctor_wraps: "TimeSpan_ctor6 213503982 8 1 49 551 616 = Inr 0"
  by (simp add: TimeSpan_ctor6_def TimeToTicks6_def MinMicroSeconds_def MaxMicroSeconds_def TicksPerMicrosecond_def
      LONGCS_MIN_def LONGCS_MAX_def sdiv_cases)

text \<open>
  \<^verbatim>\<open>sscanf\<close> lets signs and white space through in front of a field: both strings below parse,
  although white space next to a separator is documented as rejected.
\<close>

lemma timespan_parse_lenient:
  "TimeSpan_Parse ''1: 2:03'' = Inr 37230000000" "TimeSpan_Parse ''+1:+2:03'' = Inr 37230000000"
  by code_simp+

end
