(* ===== verification/Time_DateTime.thy ===== *)
theory Time_DateTime
  imports Time_TimeSpan
begin

unbundle bit_operations_syntax

text \<open>
  \<^verbatim>\<open>DateTime.cpp\<close>: the packed 64-bit representation (62 bits of ticks, 2 bits of kind), the proleptic
  Gregorian calendar in both directions, and arithmetic with its range checks.
\<close>

section \<open>Model\<close>

text \<open>The only field, \<^verbatim>\<open>dateData_\<close>.\<close>

type_synonym DateTime = ulongcs

definition MaxTicks :: longcs where "MaxTicks = 3155378975999999999"
definition MaxDays :: longcs where "MaxDays = MaxTicks div TicksPerDay"
definition MaxHours :: longcs where "MaxHours = MaxTicks div TicksPerHour"
definition TicksMask :: ulongcs where "TicksMask = 0x3FFFFFFFFFFFFFFF"
definition FlagsMask :: ulongcs where "FlagsMask = 0xC000000000000000"

definition dt_ticks :: "DateTime \<Rightarrow> longcs" where
  "dt_ticks dt = sint (dt AND TicksMask)"

record tm =
  tm_year :: int
  tm_mon :: int
  tm_mday :: int
  tm_yday :: int
  tm_wday :: int
  tm_hour :: int
  tm_min :: int
  tm_sec :: int

definition daysToMonth365 :: "int list" where
  "daysToMonth365 = [0, 31, 59, 90, 120, 151, 181, 212, 243, 273, 304, 334, 365]"

definition daysToMonth366 :: "int list" where
  "daysToMonth366 = [0, 31, 60, 91, 121, 152, 182, 213, 244, 274, 305, 335, 366]"

text \<open>\<^verbatim>\<open>while (remainingDays >= daysToMonth[month]) ++month;\<close> within the table.\<close>

function find_month :: "int list \<Rightarrow> int \<Rightarrow> nat \<Rightarrow> nat" where
  "find_month daysToMonth remainingDays month =
     (if month < length daysToMonth \<and> remainingDays \<ge> daysToMonth ! month
      then find_month daysToMonth remainingDays (Suc month) else month)"
  by pat_completeness auto
termination
  by (relation "measure (\<lambda>(d, r, m). length d - m)") auto

declare find_month.simps [simp del]

text \<open>The year part of \<^verbatim>\<open>toTm\<close>: year, day within the year (from 0), leap flag.\<close>

definition year_of_days :: "int \<Rightarrow> int \<times> int \<times> bool" where
  "year_of_days days =
     (let years400 = days div 146097;
          r1 = days - years400 * 146097;
          q100 = r1 div 36524;
          years100 = (if q100 = 4 then 3 else q100);
          r2 = r1 - years100 * 36524;
          years4 = r2 div 1461;
          r3 = r2 - years4 * 1461;
          q1 = r3 div 365;
          years1 = (if q1 = 4 then 3 else q1)
      in (years400 * 400 + years100 * 100 + years4 * 4 + years1 + 1,
          r3 - years1 * 365,
          years1 = 3 \<and> (years4 \<noteq> 24 \<or> years100 = 3)))"

definition toTm :: "DateTime \<Rightarrow> tm" where
  "toTm dt =
     (let rawTicks = dt_ticks dt;
          absoluteDays = rawTicks div TicksPerDay
      in case year_of_days absoluteDays of
           (year, remainingDays, leap) \<Rightarrow>
             let daysToMonth = (if leap then daysToMonth366 else daysToMonth365);
                 month = find_month daysToMonth remainingDays (nat (remainingDays div 32 + 1));
                 timeTicks = rawTicks mod TicksPerDay
             in \<lparr>tm_year = year - 1900, tm_mon = int month - 1,
                 tm_mday = remainingDays - daysToMonth ! (month - 1) + 1,
                 tm_yday = remainingDays, tm_wday = (absoluteDays + 1) mod 7,
                 tm_hour = timeTicks div TicksPerHour,
                 tm_min = timeTicks mod TicksPerHour div TicksPerMinute,
                 tm_sec = timeTicks mod TicksPerHour mod TicksPerMinute div TicksPerSecond\<rparr>)"

definition leap_year :: "int \<Rightarrow> bool" where
  "leap_year year \<longleftrightarrow> year mod 4 = 0 \<and> (year mod 100 \<noteq> 0 \<or> year mod 400 = 0)"

text \<open>
  \<^verbatim>\<open>dateToTicks\<close>. The unsigned comparisons of the source reject negative components as well; \<open>y\<close> is
  not negative, so its divisions need no truncation rule.
\<close>

definition dateToTicks :: "int \<Rightarrow> int \<Rightarrow> int \<Rightarrow> int \<Rightarrow> int \<Rightarrow> int \<Rightarrow> int \<Rightarrow> longcs res" where
  "dateToTicks year month day hour minute second millisecond =
     (if year < 1 \<or> year > 9999 \<or> month < 1 \<or> month > 12 \<or> day < 1
      then Inl (ArgumentOutOfRangeException ''year'')
      else let d = (if leap_year year then daysToMonth366 else daysToMonth365)
           in if day > d ! nat month - d ! nat (month - 1) then Inl (ArgumentOutOfRangeException ''day'')
              else if hour < 0 \<or> hour \<ge> 24 \<or> minute < 0 \<or> minute \<ge> 60 \<or> second < 0 \<or> second \<ge> 60
              then Inl (ArgumentOutOfRangeException '''')
              else if millisecond < 0 \<or> millisecond \<ge> 1000 then Inl (ArgumentOutOfRangeException ''millisecond'')
              else let y = year - 1;
                       days = y * 365 + y div 4 - y div 100 + y div 400 + d ! nat (month - 1) + day - 1
                   in Inr (days * TicksPerDay + hour * TicksPerHour + minute * TicksPerMinute +
                           second * TicksPerSecond + millisecond * TicksPerMillisecond))"

definition DateTime_ctor_ticks :: "longcs \<Rightarrow> DateTime res" where
  "DateTime_ctor_ticks ticks =
     (if ticks < 0 \<or> ticks > MaxTicks then Inl (ArgumentOutOfRangeException ''ticks'') else Inr (of_int ticks))"

text \<open>A \<^verbatim>\<open>DateTimeKind\<close> is its unsigned value: 0 unspecified, 1 UTC, 2 local; others are invalid.\<close>

definition throwIfInvalidKind :: "nat \<Rightarrow> unit res" where
  "throwIfInvalidKind kind = (if kind > 2 then Inl (ArgumentException ''kind'') else Inr ())"

definition DateTime_ctor_kind :: "longcs \<Rightarrow> nat \<Rightarrow> DateTime res" where
  "DateTime_ctor_kind ticks kind =
     (if ticks < 0 \<or> ticks > MaxTicks then Inl (ArgumentOutOfRangeException ''ticks'')
      else bind_res (throwIfInvalidKind kind) (\<lambda>_. Inr (of_int ticks OR push_bit 62 (of_nat kind))))"

definition getKindProperty :: "DateTime \<Rightarrow> nat" where
  "getKindProperty dt = (let kind = unat (drop_bit 62 dt) in unat ((of_nat kind AND NOT (drop_bit 1 (of_nat kind))) :: uintcs))"

definition SpecifyKind :: "DateTime \<Rightarrow> nat \<Rightarrow> DateTime res" where
  "SpecifyKind dt kind = bind_res (throwIfInvalidKind kind) (\<lambda>_. DateTime_ctor_kind (dt_ticks dt) kind)"

definition DateTime_ctor_date :: "int \<Rightarrow> int \<Rightarrow> int \<Rightarrow> DateTime res" where
  "DateTime_ctor_date year month day = bind_res (dateToTicks year month day 0 0 0 0) (\<lambda>t. Inr (of_int t))"

definition DateTime_ctor_time :: "int \<Rightarrow> int \<Rightarrow> int \<Rightarrow> int \<Rightarrow> int \<Rightarrow> int \<Rightarrow> int \<Rightarrow> DateTime res" where
  "DateTime_ctor_time year month day hour minute second millisecond =
     bind_res (dateToTicks year month day hour minute second millisecond) (\<lambda>t. Inr (of_int t))"

definition withTicksPreservingKind :: "DateTime \<Rightarrow> longcs \<Rightarrow> DateTime res" where
  "withTicksPreservingKind dt replacementTicks =
     bind_res (DateTime_ctor_ticks replacementTicks) (\<lambda>result. Inr (result OR (dt AND FlagsMask)))"

definition getYearProperty :: "DateTime \<Rightarrow> int" where "getYearProperty dt = tm_year (toTm dt) + 1900"
definition getMonthProperty :: "DateTime \<Rightarrow> int" where "getMonthProperty dt = tm_mon (toTm dt) + 1"
definition getDayProperty :: "DateTime \<Rightarrow> int" where "getDayProperty dt = tm_mday (toTm dt)"
definition getHourProperty :: "DateTime \<Rightarrow> int" where "getHourProperty dt = tm_hour (toTm dt)"
definition getMinuteProperty :: "DateTime \<Rightarrow> int" where "getMinuteProperty dt = tm_min (toTm dt)"
definition getSecondProperty :: "DateTime \<Rightarrow> int" where "getSecondProperty dt = tm_sec (toTm dt)"
definition getMillisecondProperty :: "DateTime \<Rightarrow> int" where
  "getMillisecondProperty dt = dt_ticks dt mod TicksPerSecond div TicksPerMillisecond"
definition getDayOfWeekProperty :: "DateTime \<Rightarrow> int" where "getDayOfWeekProperty dt = tm_wday (toTm dt)"
definition getDayOfYearProperty :: "DateTime \<Rightarrow> int" where "getDayOfYearProperty dt = tm_yday (toTm dt) + 1"

definition DateTime_AddTicks :: "DateTime \<Rightarrow> longcs \<Rightarrow> DateTime res" where
  "DateTime_AddTicks dt val =
     (let newTicks = (of_int (dt_ticks dt) + of_int val :: ulongcs)
      in if newTicks > of_int MaxTicks then Inl (ArgumentOutOfRangeException ''value'')
         else withTicksPreservingKind dt (sint newTicks))"

definition DateTime_Add :: "DateTime \<Rightarrow> longcs \<Rightarrow> DateTime res" where
  "DateTime_Add dt timeSpan = DateTime_AddTicks dt timeSpan"

definition DateTime_AddDays :: "DateTime \<Rightarrow> int \<Rightarrow> DateTime res" where
  "DateTime_AddDays dt days =
     (if days < - MaxDays \<or> days > MaxDays then Inl (ArgumentOutOfRangeException ''value'')
      else DateTime_AddTicks dt (days * TicksPerDay))"

definition DateTime_AddHours :: "DateTime \<Rightarrow> int \<Rightarrow> DateTime res" where
  "DateTime_AddHours dt hours =
     (if hours < - MaxHours \<or> hours > MaxHours then Inl (ArgumentOutOfRangeException ''value'')
      else DateTime_AddTicks dt (hours * TicksPerHour))"

definition DateTime_AddMinutes :: "DateTime \<Rightarrow> int \<Rightarrow> DateTime res" where
  "DateTime_AddMinutes dt minutes = DateTime_AddTicks dt (minutes * TicksPerMinute)"

definition DateTime_AddSeconds :: "DateTime \<Rightarrow> int \<Rightarrow> DateTime res" where
  "DateTime_AddSeconds dt seconds = DateTime_AddTicks dt (seconds * TicksPerSecond)"

definition DateTime_AddMilliseconds :: "DateTime \<Rightarrow> int \<Rightarrow> DateTime res" where
  "DateTime_AddMilliseconds dt milliseconds = DateTime_AddTicks dt (milliseconds * TicksPerMillisecond)"

definition DateTime_Subtract_span :: "DateTime \<Rightarrow> longcs \<Rightarrow> DateTime res" where
  "DateTime_Subtract_span dt timeSpan =
     (let diff = (of_int (dt_ticks dt) - of_int timeSpan :: ulongcs)
      in if diff > of_int MaxTicks then Inl (ArgumentOutOfRangeException ''value'')
         else withTicksPreservingKind dt (sint diff))"

definition DateTime_Subtract :: "DateTime \<Rightarrow> DateTime \<Rightarrow> longcs" where
  "DateTime_Subtract dt other = dt_ticks dt - dt_ticks other"

definition IsLeapYear :: "int \<Rightarrow> bool res" where
  "IsLeapYear year =
     (if year < 1 \<or> year > 9999 then Inl (ArgumentOutOfRangeException ''year'') else Inr (leap_year year))"

definition DaysInMonth :: "int \<Rightarrow> int \<Rightarrow> int res" where
  "DaysInMonth year month =
     (if month < 1 \<or> month > 12 then Inl (ArgumentOutOfRangeException ''month'')
      else bind_res (IsLeapYear year)
        (\<lambda>leap. Inr ((if leap then [31, 29, 31, 30, 31, 30, 31, 31, 30, 31, 30, 31]
                      else [31, 28, 31, 30, 31, 30, 31, 31, 30, 31, 30, 31]) ! nat (month - 1))))"

definition DateTime_AddMonths :: "DateTime \<Rightarrow> int \<Rightarrow> DateTime res" where
  "DateTime_AddMonths dt months =
     (if months < - 120000 \<or> months > 120000 then Inl (ArgumentOutOfRangeException ''months'')
      else let year = getYearProperty dt; month = getMonthProperty dt; day = getDayProperty dt;
               m0 = month + months;
               q = (if m0 > 0 then (m0 - 1) sdiv 12 else m0 sdiv 12 - 1);
               y = year + q;
               m = m0 - q * 12
           in if y < 1 \<or> y > 9999 then Inl (ArgumentOutOfRangeException ''months'')
              else bind_res (DaysInMonth y m)
                (\<lambda>dim. bind_res (dateToTicks y m (min day dim) 0 0 0 0)
                   (\<lambda>t. withTicksPreservingKind dt (t + dt_ticks dt mod TicksPerDay))))"

definition DateTime_AddYears :: "DateTime \<Rightarrow> int \<Rightarrow> DateTime res" where
  "DateTime_AddYears dt val =
     (if val < - 10000 \<or> val > 10000 then Inl (ArgumentOutOfRangeException ''value'')
      else DateTime_AddMonths dt (val * 12))"

definition getTimeOfDayProperty :: "DateTime \<Rightarrow> longcs" where
  "getTimeOfDayProperty dt = dt_ticks dt mod TicksPerDay"

text \<open>
  Conversion between local and universal time. The time zone is an argument: its two virtual
  functions, from a date-time to the offset in ticks.
\<close>

definition ToLocalTime :: "(DateTime \<Rightarrow> longcs) \<Rightarrow> DateTime \<Rightarrow> DateTime res" where
  "ToLocalTime getUtcOffsetFromUniversalTime dt =
     (if getKindProperty dt = 2 then Inr dt
      else let offset = getUtcOffsetFromUniversalTime dt; currentTicks = dt_ticks dt
           in if offset > MaxTicks - currentTicks then DateTime_ctor_kind MaxTicks 2
              else if offset < - currentTicks then DateTime_ctor_kind 0 2
              else DateTime_ctor_kind (currentTicks + offset) 2)"

definition ToUniversalTime :: "(DateTime \<Rightarrow> longcs) \<Rightarrow> DateTime \<Rightarrow> DateTime res" where
  "ToUniversalTime getUtcOffset dt =
     (if getKindProperty dt = 1 then Inr dt
      else let offset = getUtcOffset dt; currentTicks = dt_ticks dt
           in if offset > currentTicks then DateTime_ctor_kind 0 1
              else if offset < currentTicks - MaxTicks then DateTime_ctor_kind MaxTicks 1
              else DateTime_ctor_kind (currentTicks - offset) 1)"

text \<open>\<^verbatim>\<open>"%04d-%02d-%02d %02d:%02d:%02d"\<close>; the components are not negative.\<close>

definition DateTime_ToString :: "DateTime \<Rightarrow> string" where
  "DateTime_ToString dt =
     (let t = toTm dt
      in pad 4 (nat (tm_year t + 1900)) @ ''-'' @ pad 2 (nat (tm_mon t + 1)) @ ''-'' @ pad 2 (nat (tm_mday t)) @ '' '' @
         pad 2 (nat (tm_hour t)) @ '':'' @ pad 2 (nat (tm_min t)) @ '':'' @ pad 2 (nat (tm_sec t)))"

section \<open>The representation\<close>

definition dt_valid :: "DateTime \<Rightarrow> bool" where
  "dt_valid dt \<longleftrightarrow> dt_ticks dt \<le> MaxTicks"

definition dt_flags :: "DateTime \<Rightarrow> ulongcs" where
  "dt_flags dt = drop_bit 62 dt"

lemma TicksMask_take: "(dt :: ulongcs) AND TicksMask = take_bit 62 dt"
  by (simp add: TicksMask_def take_bit_eq_mask mask_numeral)

lemma FlagsMask_push: "(dt :: ulongcs) AND FlagsMask = push_bit 62 (drop_bit 62 dt)"
proof -
  have f: "FlagsMask = push_bit 62 (mask 2)" by (simp add: FlagsMask_def mask_numeral)
  show ?thesis
    by (rule bit_word_eqI) (auto simp: f bit_simps)
qed

lemma dt_ticks_uint: "dt_ticks dt = uint (take_bit 62 dt)"
proof -
  have "\<not> bit (take_bit 62 dt) 63" by (simp add: bit_simps)
  then have "sint (take_bit 62 dt) = uint (take_bit 62 dt)"
    by (simp add: sint_uint signed_take_bit_eq_if_positive unsigned_take_bit_eq bit_take_bit_iff)
  then show ?thesis by (simp add: dt_ticks_def TicksMask_take)
qed

lemma dt_ticks_bounds: "0 \<le> dt_ticks dt" "dt_ticks dt < 2 ^ 62"
  using take_bit_int_less_exp [of 62 "uint dt"] by (simp_all add: dt_ticks_uint unsigned_take_bit_eq)

lemma pack_ticks:
  assumes "0 \<le> t" and "t < 2 ^ 62"
  shows "dt_ticks (of_int t OR push_bit 62 k) = t"
    and "drop_bit 62 (of_int t OR push_bit 62 k :: DateTime) = take_bit 2 k"
proof -
  have t: "take_bit 62 (of_int t :: DateTime) = of_int t"
    using assms by (simp add: take_bit_of_int take_bit_int_eq_self flip: of_int_take_bit)
  then have b: "bit (of_int t :: DateTime) n \<Longrightarrow> n < 62" for n
    by (metis bit_take_bit_iff)
  have "take_bit 62 (of_int t OR push_bit 62 k :: DateTime) = of_int t"
    by (rule bit_word_eqI) (use b in \<open>auto simp: bit_simps\<close>)
  then show "dt_ticks (of_int t OR push_bit 62 k) = t"
    using assms by (simp add: dt_ticks_uint unsigned_of_int take_bit_int_eq_self)
  show "drop_bit 62 (of_int t OR push_bit 62 k :: DateTime) = take_bit 2 k"
    by (rule bit_word_eqI) (use b in \<open>force simp: bit_simps\<close>)
qed

lemma MaxTicks_lt: "MaxTicks < 2 ^ 62"
  by (simp add: MaxTicks_def)

lemma withTicks_exact:
  "withTicksPreservingKind dt t =
     (if 0 \<le> t \<and> t \<le> MaxTicks then Inr (of_int t OR push_bit 62 (dt_flags dt))
      else Inl (ArgumentOutOfRangeException ''ticks''))"
  by (auto simp: withTicksPreservingKind_def DateTime_ctor_ticks_def FlagsMask_push dt_flags_def)

lemma withTicks_result:
  assumes "0 \<le> t" and "t \<le> MaxTicks"
  shows "\<exists>r. withTicksPreservingKind dt t = Inr r \<and> dt_ticks r = t \<and> dt_flags r = dt_flags dt"
proof -
  have "take_bit 2 (dt_flags dt) = dt_flags dt"
    by (rule bit_word_eqI) (auto simp: dt_flags_def bit_simps dest: bit_imp_le_length)
  with assms MaxTicks_lt pack_ticks [of t "dt_flags dt"] show ?thesis
    by (simp add: withTicks_exact) (simp add: dt_flags_def)
qed

section \<open>The calendar\<close>

text \<open>Days before year \<open>y + 1\<close>, and the day number of a date.\<close>

definition days_before :: "int \<Rightarrow> int" where
  "days_before y = y * 365 + y div 4 - y div 100 + y div 400"

definition month_table :: "int \<Rightarrow> int list" where
  "month_table year = (if leap_year year then daysToMonth366 else daysToMonth365)"

definition year_length :: "int \<Rightarrow> int" where
  "year_length year = (if leap_year year then 366 else 365)"

definition valid_date :: "int \<Rightarrow> int \<Rightarrow> int \<Rightarrow> bool" where
  "valid_date year month day \<longleftrightarrow> 1 \<le> year \<and> year \<le> 9999 \<and> 1 \<le> month \<and> month \<le> 12 \<and> 1 \<le> day \<and>
     day \<le> month_table year ! nat month - month_table year ! nat (month - 1)"

definition day_number :: "int \<Rightarrow> int \<Rightarrow> int \<Rightarrow> int" where
  "day_number year month day = days_before (year - 1) + month_table year ! nat (month - 1) + day - 1"

text \<open>The cycle decomposition of the year: 400, 100, 4 and single years.\<close>

lemma mod_zero_at_top:
  assumes "1 \<le> t" and "t \<le> (k :: int)"
  shows "(t + k * z) mod k = 0 \<longleftrightarrow> t = k"
  using assms by (cases "t = k") auto

lemma cycle_divs:
  fixes a b c d :: int
  assumes "0 \<le> b" "b \<le> 3" "0 \<le> c" "c \<le> 24" "0 \<le> d" "d \<le> 3"
  defines "y \<equiv> a * 400 + b * 100 + c * 4 + d"
  shows "y div 4 = a * 100 + b * 25 + c" and "y div 100 = a * 4 + b" and "y div 400 = a"
    and "(y + 1) mod 4 = 0 \<longleftrightarrow> d = 3"
    and "(y + 1) mod 100 = 0 \<longleftrightarrow> d = 3 \<and> c = 24"
    and "(y + 1) mod 400 = 0 \<longleftrightarrow> d = 3 \<and> c = 24 \<and> b = 3"
proof -
  show "y div 4 = a * 100 + b * 25 + c"
    by (rule int_div_pos_eq [where r = d]) (use assms in auto)
  show "y div 100 = a * 4 + b"
    by (rule int_div_pos_eq [where r = "c * 4 + d"]) (use assms in auto)
  show "y div 400 = a"
    by (rule int_div_pos_eq [where r = "b * 100 + c * 4 + d"]) (use assms in auto)
  have e: "y + 1 = (d + 1) + 4 * (a * 100 + b * 25 + c)" "y + 1 = (c * 4 + d + 1) + 100 * (a * 4 + b)"
    "y + 1 = (b * 100 + c * 4 + d + 1) + 400 * a"
    by (simp_all add: y_def)
  have "(y + 1) mod 4 = 0 \<longleftrightarrow> d + 1 = 4"
    unfolding e(1) by (rule mod_zero_at_top) (use assms in auto)
  then show "(y + 1) mod 4 = 0 \<longleftrightarrow> d = 3" by linarith
  have "(y + 1) mod 100 = 0 \<longleftrightarrow> c * 4 + d + 1 = 100"
    unfolding e(2) by (rule mod_zero_at_top) (use assms in auto)
  moreover have "c * 4 + d + 1 = 100 \<longleftrightarrow> d = 3 \<and> c = 24" using assms(3-6) by linarith
  ultimately show "(y + 1) mod 100 = 0 \<longleftrightarrow> d = 3 \<and> c = 24" by (rule trans)
  have "(y + 1) mod 400 = 0 \<longleftrightarrow> b * 100 + c * 4 + d + 1 = 400"
    unfolding e(3) by (rule mod_zero_at_top) (use assms in auto)
  moreover have "b * 100 + c * 4 + d + 1 = 400 \<longleftrightarrow> d = 3 \<and> c = 24 \<and> b = 3" using assms(1-6) by linarith
  ultimately show "(y + 1) mod 400 = 0 \<longleftrightarrow> d = 3 \<and> c = 24 \<and> b = 3" by (rule trans)
qed

text \<open>A quotient that is held at 3 when the remainder runs over by one.\<close>

lemma capped_div:
  fixes x k :: int
  assumes "0 < k" and "0 \<le> x" and "x \<le> 4 * k"
  defines "q \<equiv> (if x div k = 4 then 3 else x div k)"
  shows "0 \<le> q" "q \<le> 3" "0 \<le> x - q * k" "x - q * k \<le> k" "x - q * k = k \<Longrightarrow> q = 3 \<and> x = 4 * k"
proof -
  have x: "x = x div k * k + x mod k" "0 \<le> x mod k" "x mod k < k" using assms(1) by simp_all
  have "0 \<le> x div k" using assms(1,2) by (simp add: pos_imp_zdiv_nonneg_iff)
  moreover have "x div k \<le> 4" using assms(1,3) zdiv_mono1 [of x "4 * k" k] by simp
  ultimately consider "x div k = 4" | "0 \<le> x div k" "x div k \<le> 3" by linarith
  then have "0 \<le> q \<and> q \<le> 3 \<and> 0 \<le> x - q * k \<and> x - q * k \<le> k \<and> (x - q * k = k \<longrightarrow> q = 3 \<and> x = 4 * k)"
  proof cases
    case 1
    then have "x = 4 * k" using x assms(3) by simp
    then show ?thesis using 1 assms(1) by (simp add: q_def)
  next
    case 2
    then have q: "q = x div k" by (simp add: q_def)
    have "x - q * k = x mod k" by (simp only: q minus_div_mult_eq_mod)
    with 2 x(2,3) show ?thesis by (simp add: q)
  qed
  then show "0 \<le> q" "q \<le> 3" "0 \<le> x - q * k" "x - q * k \<le> k" "x - q * k = k \<Longrightarrow> q = 3 \<and> x = 4 * k"
    by auto
qed

lemma year_of_days_correct:
  assumes "0 \<le> n" and "year_of_days n = (year, r, leap)"
  shows "n = days_before (year - 1) + r" and "0 \<le> r" and "leap = leap_year year"
    and "r < year_length year" and "1 \<le> year"
proof -
  define a where "a = n div 146097"
  define r1 where "r1 = n - a * 146097"
  define b where "b = (if r1 div 36524 = 4 then 3 else r1 div 36524)"
  define r2 where "r2 = r1 - b * 36524"
  define c where "c = r2 div 1461"
  define r3 where "r3 = r2 - c * 1461"
  define d where "d = (if r3 div 365 = 4 then 3 else r3 div 365)"
  have "year_of_days n = (a * 400 + b * 100 + c * 4 + d + 1, r3 - d * 365, d = 3 \<and> (c \<noteq> 24 \<or> b = 3))"
    by (simp only: year_of_days_def Let_def a_def r1_def b_def r2_def c_def r3_def d_def)
  then have y: "year = a * 400 + b * 100 + c * 4 + d + 1" "r = r3 - d * 365" "leap = (d = 3 \<and> (c \<noteq> 24 \<or> b = 3))"
    using assms(2) by simp_all
  have a: "0 \<le> a" "0 \<le> r1" "r1 \<le> 146096"
    using assms(1) pos_mod_bound [of 146097 n] by (simp_all add: a_def r1_def minus_div_mult_eq_mod pos_imp_zdiv_nonneg_iff)
  have b: "0 \<le> b" "b \<le> 3" "0 \<le> r2" "r2 \<le> 36524" "b \<noteq> 3 \<Longrightarrow> r2 < 36524"
    using capped_div [of 36524 r1] a(2,3) unfolding b_def [symmetric] r2_def by force+
  have r3: "r3 = r2 mod 1461" by (simp add: r3_def c_def minus_div_mult_eq_mod)
  have c: "0 \<le> c" "c \<le> 24" "0 \<le> r3" "r3 \<le> 1460"
    using b(3) zdiv_mono1 [OF b(4), of 1461] pos_mod_bound [of 1461 r2]
    by (simp_all add: c_def r3 pos_imp_zdiv_nonneg_iff)
  have c24: "r3 < 1460" if "c = 24" "b \<noteq> 3" using b(5) that by (simp add: r3_def)
  have d: "0 \<le> d" "d \<le> 3" "0 \<le> r3 - d * 365" "r3 - d * 365 \<le> 365" "r3 - d * 365 = 365 \<Longrightarrow> d = 3 \<and> r3 = 1460"
    using capped_div [of 365 r3] c(3,4) unfolding d_def [symmetric] by force+
  note divs = cycle_divs [OF b(1,2) c(1,2) d(1,2), of a]
  have "days_before (year - 1) = a * 146097 + b * 36524 + c * 1461 + d * 365"
    using divs(1-3) by (simp add: y(1) days_before_def)
  then show "n = days_before (year - 1) + r"
    by (simp add: y(2) r3_def r2_def r1_def)
  show "0 \<le> r" using d(3) y(2) by simp
  show lp: "leap = leap_year year"
    using divs(4-6) by (auto simp: y leap_year_def)
  show "r < year_length year"
    using d(4,5) c24 lp y(2,3) by (fastforce simp: year_length_def)
  show "1 \<le> year" using a(1) b(1) c(1) d(1) by (simp add: y(1))
qed

text \<open>Months: the table search returns the one month that holds the day.\<close>

lemma find_month_correct:
  assumes "1 \<le> m" and "m < length d" and "d ! (m - 1) \<le> r" and "r < last d"
  shows "m \<le> find_month d r m \<and> find_month d r m < length d \<and>
    d ! (find_month d r m - 1) \<le> r \<and> r < d ! find_month d r m"
  using assms
proof (induction d r m rule: find_month.induct)
  case (1 d r m)
  show ?case
  proof (cases "d ! m \<le> r")
    case True
    then have "Suc m < length d"
      using 1(3,5) by (metis One_nat_def Suc_lessI diff_Suc_1 last_conv_nth length_0_conv less_nat_zero_code linorder_not_le)
    then show ?thesis using 1 True by (simp add: find_month.simps [of d r m])
  next
    case False
    then show ?thesis using 1 by (simp add: find_month.simps [of d r m])
  qed
qed

lemma month_table_length [simp]: "length (month_table y) = 13"
  by (simp add: month_table_def daysToMonth365_def daysToMonth366_def)

lemma month_table_last [simp]: "last (month_table y) = year_length y"
  by (simp add: month_table_def year_length_def daysToMonth365_def daysToMonth366_def)

lemma month_table_ends [simp]: "month_table y ! 0 = 0" "month_table y ! 12 = year_length y"
  by (simp_all add: month_table_def year_length_def daysToMonth365_def daysToMonth366_def)

lemma month_table_sorted: "sorted (month_table y)"
  by (simp add: month_table_def daysToMonth365_def daysToMonth366_def)

lemma month_table_start:
  assumes "k \<le> 11"
  shows "month_table y ! k \<le> 32 * int k"
proof -
  have "\<forall>k < 12. month_table y ! k \<le> 32 * int k"
    by (simp add: all_less_upt upt_rec month_table_def daysToMonth365_def daysToMonth366_def)
  with assms show ?thesis by simp
qed

lemma year_length_bound: "year_length y \<le> 366"
  by (simp add: year_length_def)

lemma find_month_year:
  assumes "0 \<le> r" and "r < year_length y"
  defines "m \<equiv> find_month (month_table y) r (nat (r div 32 + 1))"
  shows "1 \<le> m" "m \<le> 12" "month_table y ! (m - 1) \<le> r" "r < month_table y ! m"
proof -
  have k: "0 \<le> r div 32" "r div 32 \<le> 11"
    using assms(1,2) year_length_bound [of y] zdiv_mono1 [of r 365 32] by (simp_all add: pos_imp_zdiv_nonneg_iff)
  then have "month_table y ! nat (r div 32) \<le> 32 * int (nat (r div 32))"
    by (intro month_table_start) simp
  also have "\<dots> \<le> r" using k by simp
  finally have s: "month_table y ! (nat (r div 32 + 1) - 1) \<le> r" using k by (simp add: nat_add_distrib)
  have "nat (r div 32 + 1) \<ge> 1" using k by simp
  moreover have "nat (r div 32 + 1) < length (month_table y)" using k by simp
  ultimately have c: "nat (r div 32 + 1) \<le> m \<and> m < 13 \<and> month_table y ! (m - 1) \<le> r \<and> r < month_table y ! m"
    using find_month_correct [of "nat (r div 32 + 1)" "month_table y" r] s assms(2) by (simp add: m_def)
  moreover have "1 \<le> nat (r div 32 + 1)" using k by simp
  ultimately show "1 \<le> m" "m \<le> 12" "month_table y ! (m - 1) \<le> r" "r < month_table y ! m" by linarith+
qed

lemma month_unique:
  assumes "1 \<le> m" "m \<le> 12" "month_table y ! (m - 1) \<le> r" "r < month_table y ! m"
    and "1 \<le> k" "k \<le> 12" "month_table y ! (k - 1) \<le> r" "r < month_table y ! k"
  shows "m = k"
proof (rule ccontr)
  assume "m \<noteq> k"
  then consider "m \<le> k - 1" | "k \<le> m - 1" by linarith
  then show False
  proof cases
    case 1
    then have "month_table y ! m \<le> month_table y ! (k - 1)"
      using month_table_sorted [of y] assms by (intro sorted_nth_mono) auto
    with assms show False by linarith
  next
    case 2
    then have "month_table y ! k \<le> month_table y ! (m - 1)"
      using month_table_sorted [of y] assms by (intro sorted_nth_mono) auto
    with assms show False by linarith
  qed
qed

text \<open>Years: the day numbers of consecutive years are adjacent.\<close>

lemma div_pred:
  fixes y k :: int
  assumes "1 < k"
  shows "(y - 1) div k = y div k - (if y mod k = 0 then 1 else 0)"
proof (cases "y mod k = 0")
  case True
  then have "y = y div k * k" using div_mult_mod_eq [of y k] by linarith
  then have "(y - 1) div k = y div k - 1"
    using assms by (intro int_div_pos_eq [where r = "k - 1"]) (simp_all add: algebra_simps)
  with True show ?thesis by simp
next
  case False
  moreover have "0 \<le> y mod k" "y mod k < k" using assms by simp_all
  ultimately have "(y - 1) div k = y div k"
    using div_mult_mod_eq [of y k] by (intro int_div_pos_eq [where r = "y mod k - 1"]) (simp_all add: algebra_simps)
  with False show ?thesis by simp
qed

lemma days_before_step: "days_before y = days_before (y - 1) + year_length y"
proof -
  have "y mod 100 = 0 \<Longrightarrow> y mod 4 = 0" "y mod 400 = 0 \<Longrightarrow> y mod 100 = 0"
    by (auto simp: mod_eq_0_iff_dvd intro: dvd_trans [of _ 100] dvd_trans [of _ 400])
  then show ?thesis
    by (auto simp: days_before_def year_length_def leap_year_def div_pred)
qed

lemma days_before_mono:
  assumes "y \<le> z"
  shows "days_before y \<le> days_before z"
  using assms
proof (induction z rule: int_ge_induct)
  case (step z)
  then show ?case using days_before_step [of "z + 1"] by (simp add: year_length_def split: if_splits)
qed simp

lemma year_unique:
  assumes "days_before (y - 1) + r = days_before (z - 1) + s"
    and "0 \<le> r" "r < year_length y" "0 \<le> s" "s < year_length z"
  shows "y = z" "r = s"
proof -
  have "\<not> y \<le> z - 1" using days_before_mono [of y "z - 1"] days_before_step [of y] assms by linarith
  moreover have "\<not> z \<le> y - 1" using days_before_mono [of z "y - 1"] days_before_step [of z] assms by linarith
  ultimately show "y = z" by linarith
  then show "r = s" using assms(1) by simp
qed

text \<open>A date-time and its calendar components.\<close>

lemma toTm_date:
  assumes "year_of_days (dt_ticks dt div TicksPerDay) = (year, r, leap)" and "leap = leap_year year"
  shows "getYearProperty dt = year"
    and "getMonthProperty dt = int (find_month (month_table year) r (nat (r div 32 + 1)))"
    and "getDayProperty dt = r - month_table year ! (find_month (month_table year) r (nat (r div 32 + 1)) - 1) + 1"
    and "getDayOfYearProperty dt = r + 1"
  using assms
  by (simp_all add: getYearProperty_def getMonthProperty_def getDayProperty_def getDayOfYearProperty_def
      toTm_def Let_def month_table_def)

lemma getters_of_day:
  assumes "0 \<le> dt_ticks dt div TicksPerDay"
  shows "day_number (getYearProperty dt) (getMonthProperty dt) (getDayProperty dt) = dt_ticks dt div TicksPerDay"
    and "1 \<le> getYearProperty dt" and "1 \<le> getMonthProperty dt" and "getMonthProperty dt \<le> 12"
    and "1 \<le> getDayProperty dt"
    and "getDayProperty dt \<le> month_table (getYearProperty dt) ! nat (getMonthProperty dt) -
           month_table (getYearProperty dt) ! nat (getMonthProperty dt - 1)"
    and "days_before (getYearProperty dt - 1) + (getDayOfYearProperty dt - 1) = dt_ticks dt div TicksPerDay"
    and "1 \<le> getDayOfYearProperty dt" and "getDayOfYearProperty dt \<le> year_length (getYearProperty dt)"
proof -
  obtain year r leap where e: "year_of_days (dt_ticks dt div TicksPerDay) = (year, r, leap)"
    by (cases "year_of_days (dt_ticks dt div TicksPerDay)") auto
  note y = year_of_days_correct [OF assms e]
  note t = toTm_date [OF e y(3)]
  note m = find_month_year [OF y(2,4)]
  have n: "nat (int (find_month (month_table year) r (nat (r div 32 + 1))) - 1) =
      find_month (month_table year) r (nat (r div 32 + 1)) - 1" using m(1) by linarith
  show "day_number (getYearProperty dt) (getMonthProperty dt) (getDayProperty dt) = dt_ticks dt div TicksPerDay"
    unfolding t day_number_def n using y(1) by simp
  show "1 \<le> getYearProperty dt" using t(1) y(5) by simp
  show "1 \<le> getMonthProperty dt" using t(2) m(1) by linarith
  show "getMonthProperty dt \<le> 12" using t(2) m(2) by linarith
  show "1 \<le> getDayProperty dt" using t(3) m(3) by linarith
  show "getDayProperty dt \<le> month_table (getYearProperty dt) ! nat (getMonthProperty dt) -
      month_table (getYearProperty dt) ! nat (getMonthProperty dt - 1)"
    unfolding t n using m(4) by simp
  show "days_before (getYearProperty dt - 1) + (getDayOfYearProperty dt - 1) = dt_ticks dt div TicksPerDay"
    unfolding t using y(1) by simp
  show "1 \<le> getDayOfYearProperty dt" "getDayOfYearProperty dt \<le> year_length (getYearProperty dt)"
    unfolding t using y(2,4) by simp_all
qed

lemma ticks_day_nonneg [simp]: "0 \<le> dt_ticks dt div TicksPerDay"
  using dt_ticks_bounds(1) [of dt] by (simp add: tick_units pos_imp_zdiv_nonneg_iff)

lemma days_before_end: "days_before 9999 = 3652059"
  by (simp add: days_before_def)

lemma month_table_mono:
  assumes "i \<le> j" and "j \<le> 12"
  shows "month_table y ! i \<le> month_table y ! j"
  using assms month_table_sorted [of y] by (intro sorted_nth_mono) auto

lemma valid_date_yday:
  assumes "valid_date y m d"
  defines "r \<equiv> month_table y ! nat (m - 1) + d - 1"
  shows "0 \<le> r" "r < year_length y" "month_table y ! (nat m - 1) \<le> r" "r < month_table y ! nat m"
proof -
  have n: "nat (m - 1) = nat m - 1" using assms by (simp add: valid_date_def)
  show s: "month_table y ! (nat m - 1) \<le> r" "r < month_table y ! nat m"
    using assms by (simp_all add: valid_date_def n)
  have b: "nat m - 1 \<le> 12" "nat m \<le> 12" using assms(1) by (auto simp: valid_date_def)
  show "0 \<le> r" using s(1) month_table_mono [OF _ b(1), of 0 y] by simp
  show "r < year_length y" using s(2) month_table_mono [OF b(2), of y] by simp
qed

lemma day_number_inject:
  assumes "valid_date y m d" "valid_date y' m' d'" and "day_number y m d = day_number y' m' d'"
  shows "y = y' \<and> m = m' \<and> d = d'"
proof -
  note v = valid_date_yday [OF assms(1)] and v' = valid_date_yday [OF assms(2)]
  note u = year_unique [OF _ v(1,2) v'(1,2)]
  have e: "y = y'" "month_table y ! nat (m - 1) + d - 1 = month_table y' ! nat (m' - 1) + d' - 1"
    using u assms(3) by (simp_all add: day_number_def)
  have b: "1 \<le> nat m" "nat m \<le> 12" "1 \<le> nat m'" "nat m' \<le> 12" using assms(1,2) by (auto simp: valid_date_def)
  have "nat m = nat m'"
    by (rule month_unique [OF b(1,2) v(3,4) b(3,4)]) (use v'(3,4) e in simp_all)
  with b have "m = m'" by linarith
  with e show ?thesis by simp
qed

definition valid_time :: "int \<Rightarrow> int \<Rightarrow> int \<Rightarrow> int \<Rightarrow> bool" where
  "valid_time hour minute second millisecond \<longleftrightarrow> 0 \<le> hour \<and> hour < 24 \<and> 0 \<le> minute \<and> minute < 60 \<and>
     0 \<le> second \<and> second < 60 \<and> 0 \<le> millisecond \<and> millisecond < 1000"

definition time_ticks :: "int \<Rightarrow> int \<Rightarrow> int \<Rightarrow> int \<Rightarrow> int" where
  "time_ticks hour minute second millisecond = hour * TicksPerHour + minute * TicksPerMinute +
     second * TicksPerSecond + millisecond * TicksPerMillisecond"

lemma dateToTicks_ok:
  "valid_date y m d \<Longrightarrow> valid_time h mi s ms \<Longrightarrow>
     dateToTicks y m d h mi s ms = Inr (day_number y m d * TicksPerDay + time_ticks h mi s ms)"
  by (simp add: dateToTicks_def valid_date_def valid_time_def day_number_def days_before_def month_table_def
      time_ticks_def Let_def)

lemma dateToTicks_error:
  "\<not> (valid_date y m d \<and> valid_time h mi s ms) \<Longrightarrow>
     \<exists>p. dateToTicks y m d h mi s ms = Inl (ArgumentOutOfRangeException p)"
  by (auto simp: dateToTicks_def valid_date_def valid_time_def month_table_def Let_def)

lemma valid_date_day_number:
  assumes "valid_date y m d"
  shows "0 \<le> day_number y m d" "day_number y m d \<le> 3652058"
proof -
  note v = valid_date_yday [OF assms]
  have y: "1 \<le> y" "y \<le> 9999" using assms by (simp_all add: valid_date_def)
  have "days_before 0 \<le> days_before (y - 1)" "days_before y \<le> days_before 9999"
    using y by (simp_all add: days_before_mono)
  then show "0 \<le> day_number y m d" "day_number y m d \<le> 3652058"
    using v(1,2) days_before_step [of y] by (simp_all add: day_number_def days_before_end) (simp add: days_before_def)
qed

lemma valid_time_ticks:
  assumes "valid_time h mi s ms"
  shows "0 \<le> time_ticks h mi s ms" "time_ticks h mi s ms \<le> TicksPerDay - TicksPerMillisecond"
  using assms by (simp_all add: valid_time_def time_ticks_def tick_units)

lemma valid_ticks_range:
  assumes "valid_date y m d" and "0 \<le> t" and "t < TicksPerDay"
  shows "0 \<le> day_number y m d * TicksPerDay + t" "day_number y m d * TicksPerDay + t \<le> MaxTicks"
    and "(day_number y m d * TicksPerDay + t) div TicksPerDay = day_number y m d"
    and "(day_number y m d * TicksPerDay + t) mod TicksPerDay = t"
proof -
  note d = valid_date_day_number [OF assms(1)]
  show "0 \<le> day_number y m d * TicksPerDay + t" "day_number y m d * TicksPerDay + t \<le> MaxTicks"
    using d assms(2,3) by (simp_all add: tick_units MaxTicks_def)
  show "(day_number y m d * TicksPerDay + t) div TicksPerDay = day_number y m d"
    using assms(2,3) by (intro int_div_pos_eq) auto
  then show "(day_number y m d * TicksPerDay + t) mod TicksPerDay = t"
    by (simp add: minus_div_mult_eq_mod [symmetric])
qed

lemma getters_valid_date:
  assumes "dt_valid dt"
  shows "valid_date (getYearProperty dt) (getMonthProperty dt) (getDayProperty dt)"
proof -
  note g = getters_of_day [OF ticks_day_nonneg, of dt]
  have "dt_ticks dt div TicksPerDay \<le> MaxTicks div TicksPerDay"
    using assms by (intro zdiv_mono1) (simp_all add: dt_valid_def tick_units)
  then have "days_before (getYearProperty dt - 1) < days_before 9999"
    using g(7,8) by (simp add: days_before_end MaxTicks_def tick_units)
  then have "getYearProperty dt \<le> 9999"
    using days_before_mono [of 9999 "getYearProperty dt - 1"] by linarith
  with g show ?thesis by (simp add: valid_date_def)
qed

lemma getters_from_day:
  assumes "dt_valid dt" and "valid_date y m d" and "dt_ticks dt div TicksPerDay = day_number y m d"
  shows "getYearProperty dt = y" "getMonthProperty dt = m" "getDayProperty dt = d"
  using day_number_inject [OF getters_valid_date [OF assms(1)] assms(2)] getters_of_day(1) [OF ticks_day_nonneg, of dt] assms(3)
  by simp_all

lemma getters_time:
  assumes "dt_ticks dt mod TicksPerDay = time_ticks h mi s ms + x" and "valid_time h mi s ms"
    and "0 \<le> x" and "x < TicksPerMillisecond"
  shows "getHourProperty dt = h" "getMinuteProperty dt = mi" "getSecondProperty dt = s" "getMillisecondProperty dt = ms"
proof -
  let ?t = "time_ticks h mi s ms + x"
  have h: "?t div TicksPerHour = h" "?t mod TicksPerHour = mi * TicksPerMinute + s * TicksPerSecond + ms * TicksPerMillisecond + x"
    using assms(2-4) unfolding time_ticks_def valid_time_def
    by (intro int_div_pos_eq [where r = "mi * TicksPerMinute + s * TicksPerSecond + ms * TicksPerMillisecond + x"]
        int_mod_pos_eq [where q = h], simp_all add: tick_units)+
  have m: "(?t mod TicksPerHour) div TicksPerMinute = mi" "(?t mod TicksPerHour) mod TicksPerMinute = s * TicksPerSecond + ms * TicksPerMillisecond + x"
    using assms(2-4) unfolding h(2) valid_time_def
    by (intro int_div_pos_eq [where r = "s * TicksPerSecond + ms * TicksPerMillisecond + x"]
        int_mod_pos_eq [where q = mi], simp_all add: tick_units)+
  have s: "(?t mod TicksPerHour mod TicksPerMinute) div TicksPerSecond = s"
    using assms(2-4) unfolding m(2) valid_time_def
    by (intro int_div_pos_eq [where r = "ms * TicksPerMillisecond + x"]) (simp_all add: tick_units)
  have "dt_ticks dt mod TicksPerSecond = dt_ticks dt mod TicksPerDay mod TicksPerSecond"
    by (rule mod_mod_cancel [symmetric]) (simp add: tick_units)
  also have "\<dots> = ms * TicksPerMillisecond + x"
    using assms(2-4) unfolding assms(1) time_ticks_def valid_time_def
    by (intro int_mod_pos_eq [where q = "h * 3600 + mi * 60 + s"]) (simp_all add: tick_units)
  finally have ms: "dt_ticks dt mod TicksPerSecond div TicksPerMillisecond = ms"
    using assms(3,4) by (simp only:) (intro int_div_pos_eq [where r = x], simp_all add: tick_units)
  show "getHourProperty dt = h" "getMinuteProperty dt = mi" "getSecondProperty dt = s" "getMillisecondProperty dt = ms"
    using h(1) m(1) s ms assms(1)
    by (simp_all add: getHourProperty_def getMinuteProperty_def getSecondProperty_def getMillisecondProperty_def
        toTm_def Let_def split: prod.splits)
qed

section \<open>Dates in and out\<close>

lemma valid_date_DaysInMonth:
  "valid_date y m d \<longleftrightarrow> (case DaysInMonth y m of Inl e \<Rightarrow> False | Inr n \<Rightarrow> 1 \<le> d \<and> d \<le> n)"
proof (cases "1 \<le> y \<and> y \<le> 9999 \<and> 1 \<le> m \<and> m \<le> 12")
  case True
  have "\<forall>k < 12. month_table y ! Suc k - month_table y ! k =
      (if leap_year y then [31, 29, 31, 30, 31, 30, 31, 31, 30, 31, 30, 31]
       else [31, 28, 31, 30, 31, 30, 31, 31, 30, 31, 30, 31]) ! k"
    by (simp add: all_less_upt upt_rec month_table_def daysToMonth365_def daysToMonth366_def)
  moreover have "nat (m - 1) < 12" "nat m = Suc (nat (m - 1))" using True by linarith+
  ultimately have "month_table y ! nat m - month_table y ! nat (m - 1) =
      (if leap_year y then [31, 29, 31, 30, 31, 30, 31, 31, 30, 31, 30, 31]
       else [31, 28, 31, 30, 31, 30, 31, 31, 30, 31, 30, 31]) ! nat (m - 1)" by metis
  with True show ?thesis by (simp add: valid_date_def DaysInMonth_def IsLeapYear_def bind_res_def)
next
  case False
  then show ?thesis by (auto simp: valid_date_def DaysInMonth_def IsLeapYear_def bind_res_def)
qed

lemma of_int_ticks:
  assumes "0 \<le> t" and "t \<le> MaxTicks"
  shows "dt_ticks (of_int t) = t" "dt_flags (of_int t) = 0"
  using pack_ticks [of t 0] assms MaxTicks_lt by (simp_all add: dt_flags_def)

lemma from_components:
  "(case DateTime_ctor_time y m d h mi s ms of
      Inr dt \<Rightarrow> (\<exists>n. DaysInMonth y m = Inr n \<and> 1 \<le> d \<and> d \<le> n) \<and> valid_time h mi s ms \<and>
        dt_valid dt \<and> getKindProperty dt = 0 \<and>
        getYearProperty dt = y \<and> getMonthProperty dt = m \<and> getDayProperty dt = d \<and>
        getHourProperty dt = h \<and> getMinuteProperty dt = mi \<and> getSecondProperty dt = s \<and>
        getMillisecondProperty dt = ms
    | Inl e \<Rightarrow> (\<exists>p. e = ArgumentOutOfRangeException p) \<and>
        \<not> ((\<exists>n. DaysInMonth y m = Inr n \<and> 1 \<le> d \<and> d \<le> n) \<and> valid_time h mi s ms))"
proof -
  have v: "(\<exists>n. DaysInMonth y m = Inr n \<and> 1 \<le> d \<and> d \<le> n) \<longleftrightarrow> valid_date y m d"
    by (auto simp: valid_date_DaysInMonth split: sum.splits)
  show ?thesis
  proof (cases "valid_date y m d \<and> valid_time h mi s ms")
    case True
    let ?t = "day_number y m d * TicksPerDay + time_ticks h mi s ms"
    note tod = valid_time_ticks [OF conjunct2 [OF True]]
    note r = valid_ticks_range [OF conjunct1 [OF True] tod(1)]
    have lt: "time_ticks h mi s ms < TicksPerDay" using tod(2) by (simp add: tick_units)
    note i = of_int_ticks [OF r(1,2) [OF lt]]
    have dv: "dt_valid (of_int ?t)" using i(1) r(2) [OF lt] by (simp add: dt_valid_def)
    have c: "DateTime_ctor_time y m d h mi s ms = Inr (of_int ?t)"
      using True by (simp add: DateTime_ctor_time_def dateToTicks_ok bind_res_def)
    have k: "getKindProperty (of_int ?t) = 0"
      using i(2) by (simp add: getKindProperty_def dt_flags_def)
    have "getYearProperty (of_int ?t) = y" "getMonthProperty (of_int ?t) = m" "getDayProperty (of_int ?t) = d"
      using getters_from_day [OF dv conjunct1 [OF True]] i(1) r(3) [OF lt] by simp_all
    moreover have "getHourProperty (of_int ?t) = h" "getMinuteProperty (of_int ?t) = mi"
      "getSecondProperty (of_int ?t) = s" "getMillisecondProperty (of_int ?t) = ms"
      using getters_time [of "of_int ?t" h mi s ms 0] i(1) r(4) [OF lt] True by (simp_all add: tick_units)
    ultimately show ?thesis unfolding v c using True dv k by simp
  next
    case False
    then show ?thesis unfolding v using dateToTicks_error [OF False]
      by (auto simp: DateTime_ctor_time_def bind_res_def)
  qed
qed

text \<open>
  C33. Building a date-time from calendar components succeeds exactly for an existing date
  of the years 1 to 9999 (the day within the month's length as \<^verbatim>\<open>DaysInMonth\<close> gives it) and a time of day
  below 24:00:00.000. The result then returns the very components, has a valid tick count and
  unspecified kind. In every other case the constructor raises \<^verbatim>\<open>ArgumentOutOfRangeException\<close>.
\<close>

theorem datetime_from_components:
  "(case DateTime_ctor_time y m d h mi s ms of
      Inr dt \<Rightarrow> (\<exists>n. DaysInMonth y m = Inr n \<and> 1 \<le> d \<and> d \<le> n) \<and> valid_time h mi s ms \<and>
        dt_valid dt \<and> getKindProperty dt = 0 \<and>
        getYearProperty dt = y \<and> getMonthProperty dt = m \<and> getDayProperty dt = d \<and>
        getHourProperty dt = h \<and> getMinuteProperty dt = mi \<and> getSecondProperty dt = s \<and>
        getMillisecondProperty dt = ms
    | Inl e \<Rightarrow> (\<exists>p. e = ArgumentOutOfRangeException p) \<and>
        \<not> ((\<exists>n. DaysInMonth y m = Inr n \<and> 1 \<le> d \<and> d \<le> n) \<and> valid_time h mi s ms))"
  by (rule from_components)

text \<open>Every valid date-time has valid time components that make up its time of day.\<close>

lemma getters_valid_time:
  shows "valid_time (getHourProperty dt) (getMinuteProperty dt) (getSecondProperty dt) (getMillisecondProperty dt)"
    and "dt_ticks dt mod TicksPerDay = time_ticks (getHourProperty dt) (getMinuteProperty dt) (getSecondProperty dt)
      (getMillisecondProperty dt) + dt_ticks dt mod TicksPerMillisecond"
proof -
  define t where "t = dt_ticks dt mod TicksPerDay"
  have t: "0 \<le> t" "t < TicksPerDay" by (simp_all add: t_def tick_units)
  have sec: "dt_ticks dt mod TicksPerSecond = t mod TicksPerHour mod TicksPerMinute mod TicksPerSecond"
    "dt_ticks dt mod TicksPerMillisecond = dt_ticks dt mod TicksPerSecond mod TicksPerMillisecond"
    by (simp_all add: t_def tick_units mod_mod_cancel)
  have g: "getHourProperty dt = t div TicksPerHour" "getMinuteProperty dt = t mod TicksPerHour div TicksPerMinute"
    "getSecondProperty dt = t mod TicksPerHour mod TicksPerMinute div TicksPerSecond"
    by (simp_all add: t_def getHourProperty_def getMinuteProperty_def getSecondProperty_def toTm_def Let_def split: prod.splits)
  show "dt_ticks dt mod TicksPerDay = time_ticks (getHourProperty dt) (getMinuteProperty dt) (getSecondProperty dt)
      (getMillisecondProperty dt) + dt_ticks dt mod TicksPerMillisecond"
    unfolding g time_ticks_def getMillisecondProperty_def sec t_def [symmetric]
    by (simp only: add.assoc div_mult_mod_eq)
  have "t div TicksPerHour < 24" using zdiv_mono1 [of t "TicksPerDay - 1" TicksPerHour] t(2) by (simp add: tick_units)
  moreover have "x mod TicksPerHour div TicksPerMinute < 60" for x
    using zdiv_mono1 [of "x mod TicksPerHour" "TicksPerHour - 1" TicksPerMinute] pos_mod_bound [of TicksPerHour x]
    by (simp add: tick_units)
  moreover have "x mod TicksPerMinute div TicksPerSecond < 60" for x
    using zdiv_mono1 [of "x mod TicksPerMinute" "TicksPerMinute - 1" TicksPerSecond] pos_mod_bound [of TicksPerMinute x]
    by (simp add: tick_units)
  moreover have "x mod TicksPerSecond div TicksPerMillisecond < 1000" for x
    using zdiv_mono1 [of "x mod TicksPerSecond" "TicksPerSecond - 1" TicksPerMillisecond] pos_mod_bound [of TicksPerSecond x]
    by (simp add: tick_units)
  ultimately show "valid_time (getHourProperty dt) (getMinuteProperty dt) (getSecondProperty dt) (getMillisecondProperty dt)"
    unfolding g valid_time_def getMillisecondProperty_def using t(1)
    by (simp add: pos_imp_zdiv_nonneg_iff tick_units)
qed

lemma rebuild_parts:
  assumes "dt_valid dt"
  shows "\<exists>dt'. DateTime_ctor_time (getYearProperty dt) (getMonthProperty dt) (getDayProperty dt)
      (getHourProperty dt) (getMinuteProperty dt) (getSecondProperty dt) (getMillisecondProperty dt) = Inr dt' \<and>
    dt_ticks dt' = dt_ticks dt - dt_ticks dt mod TicksPerMillisecond"
    and "\<exists>jan1. DateTime_ctor_date (getYearProperty dt) 1 1 = Inr jan1 \<and>
      DateTime_Subtract dt jan1 div TicksPerDay + 1 = getDayOfYearProperty dt"
    and "getDayOfWeekProperty dt = (DateTime_Subtract dt 0 div TicksPerDay + 1) mod 7"
proof -
  note v = getters_valid_date [OF assms] and t = getters_valid_time [of dt]
  note tod = valid_time_ticks [OF t(1)]
  have lt: "time_ticks (getHourProperty dt) (getMinuteProperty dt) (getSecondProperty dt) (getMillisecondProperty dt) < TicksPerDay"
    using tod(2) by (simp add: tick_units)
  note i = of_int_ticks(1) [OF valid_ticks_range(1,2) [OF v tod(1) lt]]
  show "\<exists>dt'. DateTime_ctor_time (getYearProperty dt) (getMonthProperty dt) (getDayProperty dt)
      (getHourProperty dt) (getMinuteProperty dt) (getSecondProperty dt) (getMillisecondProperty dt) = Inr dt' \<and>
    dt_ticks dt' = dt_ticks dt - dt_ticks dt mod TicksPerMillisecond"
    using i t(2) div_mult_mod_eq [of "dt_ticks dt" TicksPerDay] getters_of_day(1) [OF ticks_day_nonneg, of dt]
    by (simp add: DateTime_ctor_time_def dateToTicks_ok [OF v t(1)] bind_res_def)
  have j: "valid_date (getYearProperty dt) 1 1"
    using v by (simp add: valid_date_def month_table_def daysToMonth365_def daysToMonth366_def)
  have z: "valid_time 0 0 0 0" "time_ticks 0 0 0 0 = 0" by (simp_all add: valid_time_def time_ticks_def)
  have "dt_ticks (of_int (day_number (getYearProperty dt) 1 1 * TicksPerDay)) = day_number (getYearProperty dt) 1 1 * TicksPerDay"
    using of_int_ticks(1) [OF valid_ticks_range(1,2) [OF j, of 0]] by (simp add: tick_units)
  then have "DateTime_ctor_date (getYearProperty dt) 1 1 = Inr (of_int (day_number (getYearProperty dt) 1 1 * TicksPerDay)) \<and>
      DateTime_Subtract dt (of_int (day_number (getYearProperty dt) 1 1 * TicksPerDay)) div TicksPerDay + 1 = getDayOfYearProperty dt"
    using getters_of_day(7) [OF ticks_day_nonneg, of dt]
    by (simp add: DateTime_ctor_date_def dateToTicks_ok [OF j z(1)] z(2) bind_res_def DateTime_Subtract_def
        day_number_def tick_units diff_divide_distrib div_diff)
  then show "\<exists>jan1. DateTime_ctor_date (getYearProperty dt) 1 1 = Inr jan1 \<and>
      DateTime_Subtract dt jan1 div TicksPerDay + 1 = getDayOfYearProperty dt" by blast
  show "getDayOfWeekProperty dt = (DateTime_Subtract dt 0 div TicksPerDay + 1) mod 7"
    by (simp add: getDayOfWeekProperty_def toTm_def Let_def DateTime_Subtract_def dt_ticks_uint split: prod.splits)
qed

text \<open>
  The components read from a valid date-time denote it: rebuilding from them gives the
  same tick count less the part below a millisecond, and the week day and the day of the year
  agree with the calendar: they count from Monday 1 January of the year 1.
\<close>

theorem datetime_rebuild:
  assumes "dt_valid dt"
  shows "(\<exists>dt'. DateTime_ctor_time (getYearProperty dt) (getMonthProperty dt) (getDayProperty dt)
      (getHourProperty dt) (getMinuteProperty dt) (getSecondProperty dt) (getMillisecondProperty dt) = Inr dt' \<and>
      dt_ticks dt' = dt_ticks dt - dt_ticks dt mod TicksPerMillisecond) \<and>
    (\<exists>jan1. DateTime_ctor_date (getYearProperty dt) 1 1 = Inr jan1 \<and>
      DateTime_Subtract dt jan1 div TicksPerDay + 1 = getDayOfYearProperty dt) \<and>
    getDayOfWeekProperty dt = (DateTime_Subtract dt 0 div TicksPerDay + 1) mod 7"
  using rebuild_parts [OF assms] by blast

section \<open>Arithmetic\<close>

text \<open>The exact outcome of moving a date-time to a tick count.\<close>

definition moved :: "DateTime \<Rightarrow> int \<Rightarrow> DateTime res \<Rightarrow> bool" where
  "moved dt t result \<longleftrightarrow>
     (case result of
        Inr r \<Rightarrow> dt_ticks r = t \<and> dt_valid r \<and> getKindProperty r = getKindProperty dt
      | Inl e \<Rightarrow> e = ArgumentOutOfRangeException ''value'' \<and> \<not> (0 \<le> t \<and> t \<le> MaxTicks))"

lemma wrapped_ticks:
  assumes "- (2 ^ 63) \<le> t" and "t < 2 ^ 64"
  shows "(of_int t :: ulongcs) > of_int MaxTicks \<longleftrightarrow> \<not> (0 \<le> t \<and> t \<le> MaxTicks)"
    and "0 \<le> t \<Longrightarrow> t \<le> MaxTicks \<Longrightarrow> sint (of_int t :: ulongcs) = t"
proof -
  have m: "uint (of_int MaxTicks :: ulongcs) = MaxTicks"
    by (simp add: unsigned_of_int take_bit_int_eq_self MaxTicks_def)
  show "(of_int t :: ulongcs) > of_int MaxTicks \<longleftrightarrow> \<not> (0 \<le> t \<and> t \<le> MaxTicks)"
  proof (cases "0 \<le> t")
    case True
    then have "uint (of_int t :: ulongcs) = t" using assms by (simp add: unsigned_of_int take_bit_int_eq_self)
    with True show ?thesis by (auto simp: word_less_def m)
  next
    case False
    then have "t mod 18446744073709551616 = t + 18446744073709551616"
      using assms by (intro int_mod_pos_eq [where q = "- 1"]) simp_all
    then have "uint (of_int t :: ulongcs) = t + 2 ^ 64" by (simp add: unsigned_of_int take_bit_eq_mod)
    with False assms show ?thesis by (simp add: word_less_def m MaxTicks_def)
  qed
  show "0 \<le> t \<Longrightarrow> t \<le> MaxTicks \<Longrightarrow> sint (of_int t :: ulongcs) = t"
    by (simp add: signed_of_int signed_take_bit_int_eq_self MaxTicks_def)
qed

lemma moved_withTicks:
  assumes "0 \<le> t" and "t \<le> MaxTicks"
  shows "moved dt t (withTicksPreservingKind dt t)"
  using withTicks_result [OF assms, of dt] assms
  by (auto simp: moved_def dt_valid_def getKindProperty_def dt_flags_def)

lemma moved_wrapped:
  assumes "- (2 ^ 63) \<le> t" and "t < 2 ^ 64"
  shows "moved dt t (if (of_int t :: ulongcs) > of_int MaxTicks then Inl (ArgumentOutOfRangeException ''value'')
     else withTicksPreservingKind dt (sint (of_int t :: ulongcs)))"
  using wrapped_ticks [OF assms] moved_withTicks [of t dt] by (simp add: moved_def)

lemma moved_AddTicks:
  assumes "dt_valid dt" and "longcs_range v"
  shows "moved dt (dt_ticks dt + v) (DateTime_AddTicks dt v)"
  unfolding DateTime_AddTicks_def Let_def of_int_add [symmetric]
  by (rule moved_wrapped)
    (use assms dt_ticks_bounds(1) [of dt] in
      \<open>simp_all add: dt_valid_def longcs_range_def LONGCS_MIN_def LONGCS_MAX_def MaxTicks_def\<close>)

lemma moved_Subtract:
  assumes "dt_valid dt" and "longcs_range v"
  shows "moved dt (dt_ticks dt - v) (DateTime_Subtract_span dt v)"
  unfolding DateTime_Subtract_span_def Let_def of_int_diff [symmetric]
  by (rule moved_wrapped)
    (use assms dt_ticks_bounds(1) [of dt] in
      \<open>simp_all add: dt_valid_def longcs_range_def LONGCS_MIN_def LONGCS_MAX_def MaxTicks_def\<close>)

definition int_range :: "int \<Rightarrow> bool" where
  "int_range n \<longleftrightarrow> - (2 ^ 31) \<le> n \<and> n < 2 ^ 31"

lemma moved_units:
  assumes "dt_valid dt" and "int_range n"
  shows "moved dt (dt_ticks dt + n * TicksPerDay) (DateTime_AddDays dt n)"
    and "moved dt (dt_ticks dt + n * TicksPerHour) (DateTime_AddHours dt n)"
    and "moved dt (dt_ticks dt + n * TicksPerMinute) (DateTime_AddMinutes dt n)"
    and "moved dt (dt_ticks dt + n * TicksPerSecond) (DateTime_AddSeconds dt n)"
    and "moved dt (dt_ticks dt + n * TicksPerMillisecond) (DateTime_AddMilliseconds dt n)"
proof -
  have b: "0 \<le> dt_ticks dt" "dt_ticks dt \<le> MaxTicks" using assms(1) dt_ticks_bounds(1) [of dt] by (simp_all add: dt_valid_def)
  show "moved dt (dt_ticks dt + n * TicksPerDay) (DateTime_AddDays dt n)"
  proof (cases "n < - MaxDays \<or> n > MaxDays")
    case True
    then show ?thesis using b by (auto simp: moved_def DateTime_AddDays_def MaxDays_def MaxTicks_def tick_units)
  next
    case False
    then have "longcs_range (n * TicksPerDay)"
      by (simp add: longcs_range_def LONGCS_MIN_def LONGCS_MAX_def MaxDays_def MaxTicks_def tick_units)
    with False show ?thesis using moved_AddTicks [OF assms(1)] by (simp add: DateTime_AddDays_def)
  qed
  show "moved dt (dt_ticks dt + n * TicksPerHour) (DateTime_AddHours dt n)"
  proof (cases "n < - MaxHours \<or> n > MaxHours")
    case True
    then show ?thesis using b by (auto simp: moved_def DateTime_AddHours_def MaxHours_def MaxTicks_def tick_units)
  next
    case False
    then have "longcs_range (n * TicksPerHour)"
      by (simp add: longcs_range_def LONGCS_MIN_def LONGCS_MAX_def MaxHours_def MaxTicks_def tick_units)
    with False show ?thesis using moved_AddTicks [OF assms(1)] by (simp add: DateTime_AddHours_def)
  qed
  show "moved dt (dt_ticks dt + n * TicksPerMinute) (DateTime_AddMinutes dt n)"
    "moved dt (dt_ticks dt + n * TicksPerSecond) (DateTime_AddSeconds dt n)"
    "moved dt (dt_ticks dt + n * TicksPerMillisecond) (DateTime_AddMilliseconds dt n)"
    unfolding DateTime_AddMinutes_def DateTime_AddSeconds_def DateTime_AddMilliseconds_def
    using assms(2) by (intro moved_AddTicks [OF assms(1)];
      simp add: longcs_range_def LONGCS_MIN_def LONGCS_MAX_def int_range_def tick_units)+
qed

text \<open>
  C34. Adding ticks, days, hours, minutes, seconds or milliseconds to a valid date-time and
  subtracting a time span are exact: the new tick count is the mathematical sum or difference and the
  kind is kept, or \<^verbatim>\<open>ArgumentOutOfRangeException\<close> is raised, exactly when that sum leaves
  the range from 1 January 1 to the last tick of 9999. The 64-bit wrap-around of the unsigned
  addition never lets an out-of-range sum through.
\<close>

theorem datetime_arithmetic_exact:
  assumes "dt_valid dt" and "longcs_range v" and "int_range n"
  shows "moved dt (dt_ticks dt + v) (DateTime_AddTicks dt v) \<and>
    moved dt (dt_ticks dt - v) (DateTime_Subtract_span dt v) \<and>
    moved dt (dt_ticks dt + n * TicksPerDay) (DateTime_AddDays dt n) \<and>
    moved dt (dt_ticks dt + n * TicksPerHour) (DateTime_AddHours dt n) \<and>
    moved dt (dt_ticks dt + n * TicksPerMinute) (DateTime_AddMinutes dt n) \<and>
    moved dt (dt_ticks dt + n * TicksPerSecond) (DateTime_AddSeconds dt n) \<and>
    moved dt (dt_ticks dt + n * TicksPerMillisecond) (DateTime_AddMilliseconds dt n)"
  using moved_AddTicks moved_Subtract moved_units assms by simp

theorem datetime_arithmetic_exact_witness:
  "dt_valid 0 \<and> moved 0 (dt_ticks 0 + LONGCS_MIN) (DateTime_AddTicks 0 LONGCS_MIN)"
proof -
  have "dt_valid 0" "longcs_range LONGCS_MIN" "int_range 0"
    by (simp_all add: dt_valid_def dt_ticks_uint MaxTicks_def longcs_range_def LONGCS_MIN_def LONGCS_MAX_def int_range_def)
  with datetime_arithmetic_exact [of 0 LONGCS_MIN 0] show ?thesis by simp
qed

text \<open>Months: the source's truncating quotient is the floor of the month count from the year's start.\<close>

lemma month_quotient:
  fixes m0 :: int
  defines "q \<equiv> (if m0 > 0 then (m0 - 1) sdiv 12 else m0 sdiv 12 - 1)"
  shows "q = (m0 - 1) div 12" and "m0 - q * 12 = (m0 - 1) mod 12 + 1"
proof -
  show q: "q = (m0 - 1) div 12"
  proof (cases "m0 > 0")
    case True
    then show ?thesis by (simp add: q_def signed_divide_int_def sgn_if)
  next
    case False
    then have "m0 sdiv 12 = - ((- m0) div 12)" by (simp add: signed_divide_int_def sgn_if)
    moreover have "(m0 - 1) div 12 = - ((- m0) div 12) - 1"
      by (simp add: div_pred zdiv_zminus1_eq_if)
    ultimately show ?thesis using False by (simp add: q_def)
  qed
  show "m0 - q * 12 = (m0 - 1) mod 12 + 1"
    using minus_div_mult_eq_mod [of "m0 - 1" 12] by (simp add: q)
qed

lemma DaysInMonth_ok:
  assumes "\<not> (y < 1 \<or> y > 9999)" and "1 \<le> m" and "m \<le> 12"
  obtains n where "DaysInMonth y m = Inr n" and "28 \<le> n"
proof -
  have "\<forall>k < 12. (28 :: int) \<le> (if b then [31, 29, 31, 30, 31, 30, 31, 31, 30, 31, 30, 31]
      else [31, 28, 31, 30, 31, 30, 31, 31, 30, 31, 30, 31]) ! k" for b :: bool
    by (simp add: all_less_upt upt_rec)
  then have "(28 :: int) \<le> (if leap_year y then [31, 29, 31, 30, 31, 30, 31, 31, 30, 31, 30, 31]
      else [31, 28, 31, 30, 31, 30, 31, 31, 30, 31, 30, 31]) ! nat (m - 1)"
    using assms(2,3) by (auto simp: nat_less_iff)
  then show thesis using assms that by (simp add: DaysInMonth_def IsLeapYear_def bind_res_def)
qed

text \<open>
  C35. Adding \<open>months\<close> (within the documented bound of 120000) to a valid date-time moves it to the
  month whose number \<open>12 * year + month\<close> is \<open>months\<close> larger; the day is the old day or the last day
  of that month if that is smaller, and time of day and kind are kept. It fails exactly when the
  year leaves 1 to 9999.
\<close>

theorem datetime_add_months:
  assumes "dt_valid dt" and "\<bar>months\<bar> \<le> 120000"
  shows "case DateTime_AddMonths dt months of
      Inr r \<Rightarrow> dt_valid r \<and> getKindProperty r = getKindProperty dt \<and>
        12 * getYearProperty r + getMonthProperty r = 12 * getYearProperty dt + getMonthProperty dt + months \<and>
        (\<exists>n. DaysInMonth (getYearProperty r) (getMonthProperty r) = Inr n \<and> getDayProperty r = min (getDayProperty dt) n) \<and>
        getTimeOfDayProperty r = getTimeOfDayProperty dt
    | Inl e \<Rightarrow> e = ArgumentOutOfRangeException ''months'' \<and>
        \<not> (12 < 12 * getYearProperty dt + getMonthProperty dt + months \<and>
           12 * getYearProperty dt + getMonthProperty dt + months \<le> 12 * 10000)"
proof -
  let ?m0 = "getMonthProperty dt + months"
  define q where "q = (?m0 - 1) div 12"
  define y where "y = getYearProperty dt + q"
  define m where "m = ?m0 - q * 12"
  have m: "1 \<le> m" "m \<le> 12" "12 * y + m = 12 * getYearProperty dt + ?m0"
    using month_quotient(2) [of ?m0] pos_mod_bound [of 12 "?m0 - 1"] pos_mod_sign [of 12 "?m0 - 1"]
    unfolding month_quotient(1) [of ?m0] q_def [symmetric] m_def y_def by (linarith, linarith, simp)
  have add: "DateTime_AddMonths dt months =
      (if y < 1 \<or> y > 9999 then Inl (ArgumentOutOfRangeException ''months'')
       else bind_res (DaysInMonth y m)
         (\<lambda>dim. bind_res (dateToTicks y m (min (getDayProperty dt) dim) 0 0 0 0)
            (\<lambda>t. withTicksPreservingKind dt (t + dt_ticks dt mod TicksPerDay))))"
  proof -
    have "\<not> (months < - 120000 \<or> months > 120000)" using assms(2) by linarith
    then show ?thesis
      unfolding DateTime_AddMonths_def Let_def month_quotient(1) q_def [symmetric] y_def m_def by (simp only: if_False)
  qed
  show ?thesis
  proof (cases "y < 1 \<or> y > 9999")
    case True
    then show ?thesis using m add by auto
  next
    case False
    then obtain n where n: "DaysInMonth y m = Inr n" "28 \<le> n"
      using m(1,2) by (rule DaysInMonth_ok)
    define d where "d = min (getDayProperty dt) n"
    have "1 \<le> getDayProperty dt" by (rule getters_of_day(5) [OF ticks_day_nonneg])
    then have v: "valid_date y m d" using n by (simp add: valid_date_DaysInMonth d_def)
    have z: "valid_time 0 0 0 0" "time_ticks 0 0 0 0 = 0" by (simp_all add: valid_time_def time_ticks_def)
    have t: "0 \<le> dt_ticks dt mod TicksPerDay" "dt_ticks dt mod TicksPerDay < TicksPerDay" by (simp_all add: tick_units)
    note r = valid_ticks_range [OF v t]
    obtain res where res: "withTicksPreservingKind dt (day_number y m d * TicksPerDay + dt_ticks dt mod TicksPerDay) = Inr res"
      "dt_ticks res = day_number y m d * TicksPerDay + dt_ticks dt mod TicksPerDay" "dt_flags res = dt_flags dt"
      using withTicks_result [OF r(1,2)] by blast
    have "DateTime_AddMonths dt months = Inr res"
      using add False n(1) res(1) dateToTicks_ok [OF v z(1)] z(2) by (simp add: bind_res_def d_def)
    moreover have dv: "dt_valid res" using r(2) res(2) by (simp add: dt_valid_def)
    moreover have "getKindProperty res = getKindProperty dt" using res(3) by (simp add: getKindProperty_def dt_flags_def)
    moreover have "getYearProperty res = y" "getMonthProperty res = m" "getDayProperty res = d"
      using getters_from_day [OF dv v] res(2) r(3) by simp_all
    ultimately show ?thesis using m(3) n(1) res(2) r(4) by (simp add: d_def getTimeOfDayProperty_def)
  qed
qed

theorem datetime_add_months_witness:
  "\<exists>dt r. DateTime_ctor_date 2024 1 31 = Inr dt \<and> DateTime_AddMonths dt 1 = Inr r \<and>
    getMonthProperty r = 2 \<and> getDayProperty r = 29"
proof -
  have c: "DateTime_ctor_date 2024 1 31 = DateTime_ctor_time 2024 1 31 0 0 0 0"
    by (simp add: DateTime_ctor_date_def DateTime_ctor_time_def)
  have d: "DaysInMonth 2024 1 = Inr 31" "DaysInMonth 2024 2 = Inr 29"
    by (simp_all add: DaysInMonth_def IsLeapYear_def leap_year_def bind_res_def)
  have "valid_time 0 0 0 0" by (simp add: valid_time_def)
  then obtain dt where dt: "DateTime_ctor_date 2024 1 31 = Inr dt" "dt_valid dt" "getYearProperty dt = 2024"
      "getMonthProperty dt = 1" "getDayProperty dt = 31"
    using from_components [of 2024 1 31 0 0 0 0] d(1) by (auto simp: c split: sum.splits)
  from datetime_add_months [OF dt(2), of 1] dt(3-5) obtain r where r: "DateTime_AddMonths dt 1 = Inr r"
      "12 * getYearProperty r + getMonthProperty r = 24290"
      "\<exists>n. DaysInMonth (getYearProperty r) (getMonthProperty r) = Inr n \<and> getDayProperty r = min 31 n" "dt_valid r"
    by (auto split: sum.splits)
  have "1 \<le> getMonthProperty r \<and> getMonthProperty r \<le> 12" using getters_of_day(3,4) [OF ticks_day_nonneg] by simp
  then have "getYearProperty r = 2024" using r(2) by linarith
  moreover from this have "getMonthProperty r = 2" using r(2) by linarith
  ultimately show ?thesis using r d(2) dt(1) by auto
qed

section \<open>Kinds and time zones\<close>

lemma kind_of_flags:
  assumes "unat (dt_flags dt) \<le> 2"
  shows "getKindProperty dt = unat (dt_flags dt)"
proof -
  consider "unat (dt_flags dt) = 0" | "unat (dt_flags dt) = 1" | "unat (dt_flags dt) = 2" using assms by linarith
  then show ?thesis by cases (simp_all add: getKindProperty_def dt_flags_def Let_def)
qed

lemma ctor_kind_ok:
  assumes "0 \<le> t" "t \<le> MaxTicks" "k \<le> 2"
  shows "\<exists>r. DateTime_ctor_kind t k = Inr r \<and> dt_ticks r = t \<and> dt_valid r \<and> getKindProperty r = k"
proof -
  consider "k = 0" | "k = 1" | "k = 2" using assms(3) by linarith
  then have f: "unat (take_bit 2 (of_nat k :: ulongcs)) = k" by cases simp_all
  let ?r = "of_int t OR push_bit 62 (of_nat k) :: DateTime"
  have p: "dt_ticks ?r = t" "dt_flags ?r = take_bit 2 (of_nat k)"
    using pack_ticks [of t "of_nat k"] assms(1,2) MaxTicks_lt by (simp_all add: dt_flags_def)
  then have "getKindProperty ?r = k" using kind_of_flags [of ?r] f assms(3) by simp
  with p(1) assms show ?thesis
    by (intro exI [of _ ?r]) (simp add: DateTime_ctor_kind_def throwIfInvalidKind_def bind_res_def dt_valid_def)
qed

text \<open>
  \<^verbatim>\<open>SpecifyKind\<close> changes the kind and nothing else: for the three kinds it returns the same
  tick count with exactly that kind, so the components of the date are unchanged; every other value
  is an \<^verbatim>\<open>ArgumentException\<close>.
\<close>

lemma datetime_specify_kind:
  assumes "dt_valid dt"
  shows "case SpecifyKind dt kind of
      Inr r \<Rightarrow> kind \<le> 2 \<and> getKindProperty r = kind \<and> dt_ticks r = dt_ticks dt \<and> dt_valid r
    | Inl e \<Rightarrow> kind > 2 \<and> e = ArgumentException ''kind''"
proof (cases "kind \<le> 2")
  case True
  then show ?thesis using ctor_kind_ok [OF dt_ticks_bounds(1) _ True, of dt] assms
    by (auto simp: SpecifyKind_def throwIfInvalidKind_def bind_res_def dt_valid_def)
next
  case False
  then show ?thesis by (simp add: SpecifyKind_def throwIfInvalidKind_def bind_res_def)
qed

text \<open>
  For a time zone with one fixed offset, converting a universal time to local time and
  back returns the original ticks with kind universal, whenever the local time is representable; a local time that
  is not representable saturates at the nearest end of the range instead of failing.
\<close>

theorem datetime_zone_roundtrip:
  assumes "dt_valid dt" and "getKindProperty dt = 1"
  shows "\<exists>l. ToLocalTime (\<lambda>_. off) dt = Inr l \<and> getKindProperty l = 2 \<and> dt_valid l \<and>
    dt_ticks l = max 0 (min MaxTicks (dt_ticks dt + off)) \<and>
    (if 0 \<le> dt_ticks dt + off \<and> dt_ticks dt + off \<le> MaxTicks
     then \<exists>u. ToUniversalTime (\<lambda>_. off) l = Inr u \<and> dt_ticks u = dt_ticks dt \<and> getKindProperty u = 1
     else True)"
proof -
  let ?t = "max 0 (min MaxTicks (dt_ticks dt + off))"
  have b: "0 \<le> dt_ticks dt" "dt_ticks dt \<le> MaxTicks" "0 \<le> MaxTicks"
    using assms(1) dt_ticks_bounds(1) [of dt] by (simp_all add: dt_valid_def MaxTicks_def)
  then have "0 \<le> ?t" "?t \<le> MaxTicks" by auto
  from ctor_kind_ok [OF this, of 2] obtain l where l: "DateTime_ctor_kind ?t 2 = Inr l" "dt_ticks l = ?t"
    "dt_valid l" "getKindProperty l = 2" by auto
  have "ToLocalTime (\<lambda>_. off) dt = DateTime_ctor_kind ?t 2"
  proof -
    consider "off > MaxTicks - dt_ticks dt" | "off < - dt_ticks dt" | "0 \<le> dt_ticks dt + off" "dt_ticks dt + off \<le> MaxTicks"
      by linarith
    then show ?thesis using assms(2) b by cases (auto simp: ToLocalTime_def Let_def)
  qed
  moreover have "\<exists>u. ToUniversalTime (\<lambda>_. off) l = Inr u \<and> dt_ticks u = dt_ticks dt \<and> getKindProperty u = 1"
    if r: "0 \<le> dt_ticks dt + off \<and> dt_ticks dt + off \<le> MaxTicks"
  proof -
    have "ToUniversalTime (\<lambda>_. off) l = DateTime_ctor_kind (dt_ticks dt) 1"
      using l r b by (simp add: ToUniversalTime_def Let_def)
    then show ?thesis using ctor_kind_ok [OF b(1,2), of 1] by auto
  qed
  ultimately show ?thesis using l by auto
qed

end
