(* ===== verification/Buf_Base64.thy ===== *)
theory Buf_Base64
  imports SR_Prelude
begin

unbundle bit_operations_syntax

text \<open>
  \<^verbatim>\<open>System/Buffers/Text/Base64.hpp\<close>: the encoder, the decoder with its block protocol and its cursor rules,
  the validator, and the two in-place operations, whose source and destination are one buffer.
\<close>

section \<open>Model\<close>

datatype OperationStatus = Done | DestinationTooSmall | NeedMoreData | InvalidData

definition kMaximumEncodeLength :: intcs where "kMaximumEncodeLength = 1610612733"

definition kEncTable :: "bytecs list" where
  "kEncTable = map of_char ''ABCDEFGHIJKLMNOPQRSTUVWXYZabcdefghijklmnopqrstuvwxyz0123456789+/''"

text \<open>\<open>- 2\<close> is padding, \<open>- 1\<close> is invalid.\<close>

definition kDecTable :: "int list" where
  "kDecTable =
    [- 1, - 1, - 1, - 1, - 1, - 1, - 1, - 1, - 1, - 1, - 1, - 1, - 1, - 1, - 1, - 1,
     - 1, - 1, - 1, - 1, - 1, - 1, - 1, - 1, - 1, - 1, - 1, - 1, - 1, - 1, - 1, - 1,
     - 1, - 1, - 1, - 1, - 1, - 1, - 1, - 1, - 1, - 1, - 1, 62, - 1, - 1, - 1, 63,
     52, 53, 54, 55, 56, 57, 58, 59, 60, 61, - 1, - 1, - 1, - 2, - 1, - 1,
     - 1, 0, 1, 2, 3, 4, 5, 6, 7, 8, 9, 10, 11, 12, 13, 14,
     15, 16, 17, 18, 19, 20, 21, 22, 23, 24, 25, - 1, - 1, - 1, - 1, - 1,
     - 1, 26, 27, 28, 29, 30, 31, 32, 33, 34, 35, 36, 37, 38, 39, 40,
     41, 42, 43, 44, 45, 46, 47, 48, 49, 50, 51, - 1, - 1, - 1, - 1, - 1,
     - 1, - 1, - 1, - 1, - 1, - 1, - 1, - 1, - 1, - 1, - 1, - 1, - 1, - 1, - 1, - 1,
     - 1, - 1, - 1, - 1, - 1, - 1, - 1, - 1, - 1, - 1, - 1, - 1, - 1, - 1, - 1, - 1,
     - 1, - 1, - 1, - 1, - 1, - 1, - 1, - 1, - 1, - 1, - 1, - 1, - 1, - 1, - 1, - 1,
     - 1, - 1, - 1, - 1, - 1, - 1, - 1, - 1, - 1, - 1, - 1, - 1, - 1, - 1, - 1, - 1,
     - 1, - 1, - 1, - 1, - 1, - 1, - 1, - 1, - 1, - 1, - 1, - 1, - 1, - 1, - 1, - 1,
     - 1, - 1, - 1, - 1, - 1, - 1, - 1, - 1, - 1, - 1, - 1, - 1, - 1, - 1, - 1, - 1,
     - 1, - 1, - 1, - 1, - 1, - 1, - 1, - 1, - 1, - 1, - 1, - 1, - 1, - 1, - 1, - 1,
     - 1, - 1, - 1, - 1, - 1, - 1, - 1, - 1, - 1, - 1, - 1, - 1, - 1, - 1, - 1, - 1]"

definition pad_char :: bytecs where "pad_char = 61"

definition isWhitespace :: "bytecs \<Rightarrow> bool" where
  "isWhitespace c \<longleftrightarrow> c = 32 \<or> c = 9 \<or> c = 13 \<or> c = 10"

text \<open>Stores to consecutive elements of a buffer.\<close>

definition write_at :: "'a list \<Rightarrow> nat \<Rightarrow> 'a list \<Rightarrow> 'a list" where
  "write_at dst k xs = take k dst @ xs @ drop (k + length xs) dst"

subsection \<open>Decoding\<close>

text \<open>
  The local variables of \<^verbatim>\<open>decodeCore\<close>. \<open>dc_vals\<close> holds the first \<^verbatim>\<open>valCount\<close> entries of \<^verbatim>\<open>vals\<close>.
\<close>

record decoder =
  dc_dst :: "bytecs list"
  dc_si :: nat
  dc_di :: nat
  dc_vals :: "int list"
  dc_pad :: nat
  dc_fail :: nat
  dc_consumed :: nat
  dc_written :: nat

definition decoder_start :: "bytecs list \<Rightarrow> decoder" where
  "decoder_start dst = \<lparr>dc_dst = dst, dc_si = 0, dc_di = 0, dc_vals = [], dc_pad = 0, dc_fail = 0,
     dc_consumed = 0, dc_written = 0\<rparr>"

definition decoder_fail :: "OperationStatus \<Rightarrow> decoder \<Rightarrow> OperationStatus \<times> decoder" where
  "decoder_fail status s = (status, s\<lparr>dc_consumed := dc_fail s\<rparr>)"

text \<open>One table value enters the pending quantum.\<close>

definition decode_symbol :: "bool \<Rightarrow> int \<Rightarrow> decoder \<Rightarrow> OperationStatus + decoder" where
  "decode_symbol isFinalBlock v s =
     (if v = - 1 then Inl InvalidData
      else if v = - 2 then
        if \<not> isFinalBlock then Inl InvalidData
        else if length (dc_vals s) < 2 then Inl InvalidData
        else Inr (s\<lparr>dc_pad := Suc (dc_pad s), dc_vals := dc_vals s @ [0]\<rparr>)
      else if dc_pad s > 0 then Inl InvalidData
      else Inr (s\<lparr>dc_vals := dc_vals s @ [v]\<rparr>))"

definition quantum_word :: "int list \<Rightarrow> uintcs" where
  "quantum_word vals = push_bit 18 (of_int (vals ! 0)) OR push_bit 12 (of_int (vals ! 1)) OR
     push_bit 6 (of_int (vals ! 2)) OR of_int (vals ! 3)"

text \<open>
  The \<open>n\<close> bytes of a completed quantum are stored. With padding the source leaves the padded sextets out of
  the disjunction; they are \<open>0\<close> in \<^verbatim>\<open>vals\<close>.
\<close>

definition decode_store :: "nat \<Rightarrow> decoder \<Rightarrow> OperationStatus + decoder" where
  "decode_store n s =
     (if length (dc_dst s) - dc_di s < n then Inl DestinationTooSmall
      else let val = quantum_word (dc_vals s)
           in Inr (s\<lparr>dc_dst := write_at (dc_dst s) (dc_di s)
                        (take n [ucast (drop_bit 16 val), ucast (drop_bit 8 val), ucast val]),
                     dc_di := dc_di s + n, dc_consumed := dc_si s, dc_written := dc_di s + n\<rparr>))"

definition decode_quantum :: "decoder \<Rightarrow> OperationStatus + decoder" where
  "decode_quantum s =
     (if dc_pad s = 0 then decode_store 3 s
      else if dc_pad s = 1 then
        if dc_vals s ! 2 AND 3 \<noteq> 0 then Inl InvalidData else decode_store 2 s
      else if dc_vals s ! 1 AND 15 \<noteq> 0 then Inl InvalidData else decode_store 1 s)"

lemma decode_symbol_si: "decode_symbol f v s = Inr s' \<Longrightarrow> dc_si s' = dc_si s"
  by (auto simp: decode_symbol_def split: if_splits)

lemma decode_quantum_si: "decode_quantum s = Inr s' \<Longrightarrow> dc_si s' = dc_si s"
  by (auto simp: decode_quantum_def decode_store_def Let_def split: if_splits)

text \<open>
  The loop. \<open>rd dst i\<close> reads element \<open>i\<close> of the source: the source itself, or the destination buffer
  when decoding in place.
\<close>

function decode_loop ::
  "(bytecs list \<Rightarrow> nat \<Rightarrow> bytecs) \<Rightarrow> nat \<Rightarrow> bool \<Rightarrow> decoder \<Rightarrow> OperationStatus \<times> decoder" where
  "decode_loop rd srcLen isFinalBlock s =
     (if dc_si s < srcLen then
        let ch = rd (dc_dst s) (dc_si s)
        in if isWhitespace ch then decode_loop rd srcLen isFinalBlock (s\<lparr>dc_si := Suc (dc_si s)\<rparr>)
           else let s1 = s\<lparr>dc_fail := (if dc_vals s = [] then dc_si s else dc_fail s), dc_si := Suc (dc_si s)\<rparr>
           in case decode_symbol isFinalBlock (kDecTable ! unat ch) s1 of
                Inl status \<Rightarrow> decoder_fail status s1
              | Inr s2 \<Rightarrow>
                  if length (dc_vals s2) = 4 then
                    case decode_quantum s2 of
                      Inl status \<Rightarrow> decoder_fail status s2
                    | Inr s3 \<Rightarrow>
                        if dc_pad s3 > 0 then
                          if list_all (\<lambda>r. isWhitespace (rd (dc_dst s3) r)) [dc_si s3..<srcLen]
                          then (Done, s3\<lparr>dc_consumed := srcLen\<rparr>) else (InvalidData, s3)
                        else decode_loop rd srcLen isFinalBlock (s3\<lparr>dc_vals := [], dc_pad := 0\<rparr>)
                  else decode_loop rd srcLen isFinalBlock s2
      else if dc_vals s \<noteq> [] then
        if isFinalBlock then decoder_fail InvalidData s else (NeedMoreData, s)
      else (Done, s\<lparr>dc_consumed := dc_si s, dc_written := dc_di s\<rparr>))"
  by pat_completeness auto
termination
  by (relation "measure (\<lambda>(rd, n, f, s). n - dc_si s)")
    (auto dest!: decode_symbol_si decode_quantum_si)

declare decode_loop.simps [simp del]

definition decodeCore :: "bytecs list \<Rightarrow> bytecs list \<Rightarrow> bool \<Rightarrow> OperationStatus \<times> decoder" where
  "decodeCore src dst isFinalBlock = decode_loop (\<lambda>_ i. src ! i) (length src) isFinalBlock (decoder_start dst)"

text \<open>\<^verbatim>\<open>validateCore\<close>: the same grammar, counting the decoded bytes only.\<close>

function validate_loop :: "bytecs list \<Rightarrow> nat \<Rightarrow> nat \<Rightarrow> int list \<Rightarrow> nat \<Rightarrow> bool \<times> nat" where
  "validate_loop src si di vals padCount =
     (if si < length src then
        let ch = src ! si
        in if isWhitespace ch then validate_loop src (Suc si) di vals padCount
           else let v = kDecTable ! unat ch
           in if v = - 1 then (False, 0)
              else if v = - 2 \<and> length vals < 2 then (False, 0)
              else if v \<noteq> - 2 \<and> padCount > 0 then (False, 0)
              else let pads = (if v = - 2 then Suc padCount else padCount);
                       vals' = vals @ [if v = - 2 then 0 else v]
                   in if length vals' = 4 then
                        if pads = 1 \<and> vals' ! 2 AND 3 \<noteq> 0 then (False, 0)
                        else if pads = 2 \<and> vals' ! 1 AND 15 \<noteq> 0 then (False, 0)
                        else let di' = di + (if pads = 0 then 3 else if pads = 1 then 2 else 1)
                             in if pads > 0 then
                                  if list_all (\<lambda>r. isWhitespace (src ! r)) [Suc si..<length src] then (True, di') else (False, 0)
                                else validate_loop src (Suc si) di' [] 0
                      else validate_loop src (Suc si) di vals' pads
      else if vals \<noteq> [] then (False, 0) else (True, di))"
  by pat_completeness auto
termination
  by (relation "measure (\<lambda>(src, si, di, vals, p). length src - si)") auto

declare validate_loop.simps [simp del]

definition validateCore :: "bytecs list \<Rightarrow> bool \<times> nat" where
  "validateCore src = validate_loop src 0 0 [] 0"

subsection \<open>Encoding\<close>

definition enc_char :: "uintcs \<Rightarrow> nat \<Rightarrow> bytecs" where
  "enc_char b k = kEncTable ! unat (drop_bit k b AND 0x3F)"

definition group_word :: "bytecs list \<Rightarrow> uintcs" where
  "group_word src = push_bit 16 (ucast (src ! 0)) OR push_bit 8 (ucast (src ! 1)) OR ucast (src ! 2)"

definition encode_group :: "bytecs list \<Rightarrow> bytecs list" where
  "encode_group src = (let b = group_word src in [enc_char b 18, enc_char b 12, enc_char b 6, enc_char b 0])"

text \<open>The last one or two bytes.\<close>

definition encode_rest :: "bytecs list \<Rightarrow> nat \<Rightarrow> bytecs list" where
  "encode_rest src remainder =
     (if remainder = 1 then let b = push_bit 16 (ucast (src ! 0)) in [enc_char b 18, enc_char b 12, pad_char, pad_char]
      else let b = push_bit 16 (ucast (src ! 0)) OR push_bit 8 (ucast (src ! 1))
           in [enc_char b 18, enc_char b 12, enc_char b 6, pad_char])"

text \<open>The loop over the full groups: \<open>src\<close> is what is left of the source; \<open>written\<close> the position in \<open>dst\<close>.\<close>

fun encode_groups ::
  "nat \<Rightarrow> bytecs list \<Rightarrow> bytecs list \<Rightarrow> nat \<Rightarrow> nat \<Rightarrow> OperationStatus option \<times> bytecs list \<times> bytecs list \<times> nat \<times> nat" where
  "encode_groups 0 src dst consumed written = (None, src, dst, consumed, written)"
| "encode_groups (Suc g) src dst consumed written =
     (if length dst - written < 4 then (Some DestinationTooSmall, src, dst, consumed, written)
      else encode_groups g (drop 3 src) (write_at dst written (encode_group src)) (consumed + 3) (written + 4))"

text \<open>Status, destination, bytes consumed and bytes written.\<close>

definition encodeCore :: "bytecs list \<Rightarrow> bytecs list \<Rightarrow> bool \<Rightarrow> OperationStatus \<times> bytecs list \<times> nat \<times> nat" where
  "encodeCore src dst isFinalBlock =
     (let fullGroups = length src div 3; remainder = length src mod 3
      in case encode_groups fullGroups src dst 0 0 of
           (Some status, _, dst', consumed, written) \<Rightarrow> (status, dst', consumed, written)
         | (None, src', dst', consumed, written) \<Rightarrow>
             if \<not> isFinalBlock \<and> remainder > 0 then (NeedMoreData, dst', consumed, written)
             else if isFinalBlock \<and> remainder > 0 then
               if length dst' - written < 4 then (DestinationTooSmall, dst', consumed, written)
               else (Done, write_at dst' written (encode_rest src' remainder), consumed + remainder, written + 4)
             else (Done, dst', consumed, written))"

subsection \<open>The public operations\<close>

definition GetMaxDecodedFromUtf8Length :: "intcs \<Rightarrow> intcs res" where
  "GetMaxDecodedFromUtf8Length base64Length =
     (if base64Length < 0 then Inl (ArgumentOutOfRangeException ''base64Length'') else Inr ((base64Length div 4) * 3))"

definition GetMaxEncodedToUtf8Length :: "intcs \<Rightarrow> intcs res" where
  "GetMaxEncodedToUtf8Length bytesLength =
     (if bytesLength < 0 \<or> bytesLength > kMaximumEncodeLength then Inl (ArgumentOutOfRangeException ''bytesLength'')
      else Inr (((bytesLength + 2) div 3) * 4))"

definition EncodeToUtf8 :: "bytecs list \<Rightarrow> bytecs list \<Rightarrow> bool \<Rightarrow> OperationStatus \<times> bytecs list \<times> nat \<times> nat" where
  "EncodeToUtf8 bytes utf8 isFinalBlock = encodeCore bytes utf8 isFinalBlock"

definition EncodeToUtf8_into :: "bytecs list \<Rightarrow> bytecs list \<Rightarrow> (nat \<times> bytecs list) res" where
  "EncodeToUtf8_into source destination =
     (case EncodeToUtf8 source destination True of
        (status, dst, consumed, written) \<Rightarrow>
          if status = Done then Inr (written, dst) else Inl (ArgumentException ''destination''))"

definition EncodeToUtf8_vector :: "bytecs list \<Rightarrow> bytecs list res" where
  "EncodeToUtf8_vector source =
     bind_res (GetMaxEncodedToUtf8Length (int (length source)))
       (\<lambda>len. case EncodeToUtf8 source (replicate (nat len) 0) True of (status, dst, consumed, written) \<Rightarrow> Inr dst)"

definition TryEncodeToUtf8 :: "bytecs list \<Rightarrow> bytecs list \<Rightarrow> bool \<times> nat \<times> bytecs list" where
  "TryEncodeToUtf8 source destination =
     (case EncodeToUtf8 source destination True of (status, dst, consumed, written) \<Rightarrow> (status = Done, written, dst))"

fun inplace_groups :: "nat \<Rightarrow> bytecs list \<Rightarrow> bytecs list" where
  "inplace_groups 0 buf = buf"
| "inplace_groups (Suc i) buf = inplace_groups i (write_at buf (i * 4) (encode_group (drop (i * 3) buf)))"

definition EncodeToUtf8InPlace :: "bytecs list \<Rightarrow> intcs \<Rightarrow> (OperationStatus \<times> bytecs list \<times> nat) res" where
  "EncodeToUtf8InPlace buf dataLength =
     (if length buf = 0 then Inr (Done, buf, 0)
      else bind_res (GetMaxEncodedToUtf8Length dataLength)
        (\<lambda>encodedLen.
           if encodedLen > int (length buf) then Inr (DestinationTooSmall, buf, 0)
           else let fullGroups = nat dataLength div 3; remainder = nat dataLength mod 3;
                    buf1 = (if remainder = 0 then buf
                            else write_at buf (fullGroups * 4) (encode_rest (drop (fullGroups * 3) buf) remainder))
                in Inr (Done, inplace_groups fullGroups buf1, nat encodedLen)))"

definition TryEncodeToUtf8InPlace :: "bytecs list \<Rightarrow> intcs \<Rightarrow> (bool \<times> bytecs list \<times> nat) res" where
  "TryEncodeToUtf8InPlace buf dataLength =
     bind_res (EncodeToUtf8InPlace buf dataLength) (\<lambda>(status, buf', written). Inr (status = Done, buf', written))"

definition DecodeFromUtf8 :: "bytecs list \<Rightarrow> bytecs list \<Rightarrow> bool \<Rightarrow> OperationStatus \<times> decoder" where
  "DecodeFromUtf8 utf8 bytes isFinalBlock = decodeCore utf8 bytes isFinalBlock"

definition DecodeFromUtf8_into :: "bytecs list \<Rightarrow> bytecs list \<Rightarrow> (nat \<times> bytecs list) res" where
  "DecodeFromUtf8_into source destination =
     (case DecodeFromUtf8 source destination True of
        (status, s) \<Rightarrow>
          if status = Done then Inr (dc_written s, dc_dst s)
          else if status = DestinationTooSmall then Inl (ArgumentException ''destination'')
          else Inl FormatException)"

definition DecodeFromUtf8_vector :: "bytecs list \<Rightarrow> bytecs list res" where
  "DecodeFromUtf8_vector source =
     bind_res (GetMaxDecodedFromUtf8Length (int (length source)))
       (\<lambda>upperBound. case DecodeFromUtf8 source (replicate (nat upperBound) 0) True of
          (status, s) \<Rightarrow> if status \<noteq> Done then Inl FormatException else Inr (take (dc_written s) (dc_dst s)))"

definition TryDecodeFromUtf8 :: "bytecs list \<Rightarrow> bytecs list \<Rightarrow> (bool \<times> nat \<times> bytecs list) res" where
  "TryDecodeFromUtf8 source destination =
     (case DecodeFromUtf8 source destination True of
        (status, s) \<Rightarrow>
          if status = InvalidData then Inl FormatException else Inr (status = Done, dc_written s, dc_dst s))"

definition DecodeFromUtf8InPlace :: "bytecs list \<Rightarrow> OperationStatus \<times> decoder" where
  "DecodeFromUtf8InPlace buf = decode_loop (\<lambda>dst i. dst ! i) (length buf) True (decoder_start buf)"

definition IsValid :: "bytecs list \<Rightarrow> bool \<times> nat" where
  "IsValid base64Text = validateCore base64Text"

subsection \<open>The \<^verbatim>\<open>char\<close> overloads\<close>

text \<open>
  The cores are templates over the text element; a \<^verbatim>\<open>char\<close> is read and written through
  \<^verbatim>\<open>static_cast\<close> from and to a byte, so a text of \<^verbatim>\<open>char\<close> is the list of these bytes.
\<close>

definition GetMaxDecodedLength :: "intcs \<Rightarrow> intcs res" where
  "GetMaxDecodedLength base64Length = GetMaxDecodedFromUtf8Length base64Length"

definition GetEncodedLength :: "intcs \<Rightarrow> intcs res" where
  "GetEncodedLength bytesLength = GetMaxEncodedToUtf8Length bytesLength"

definition EncodeToChars :: "bytecs list \<Rightarrow> bytecs list \<Rightarrow> bool \<Rightarrow> OperationStatus \<times> bytecs list \<times> nat \<times> nat" where
  "EncodeToChars source destination isFinalBlock = encodeCore source destination isFinalBlock"

definition EncodeToChars_into :: "bytecs list \<Rightarrow> bytecs list \<Rightarrow> (nat \<times> bytecs list) res" where
  "EncodeToChars_into source destination =
     (case EncodeToChars source destination True of
        (status, dst, consumed, written) \<Rightarrow>
          if status = Done then Inr (written, dst) else Inl (ArgumentException ''destination''))"

definition TryEncodeToChars :: "bytecs list \<Rightarrow> bytecs list \<Rightarrow> bool \<times> nat \<times> bytecs list" where
  "TryEncodeToChars source destination =
     (case EncodeToChars source destination True of (status, dst, consumed, written) \<Rightarrow> (status = Done, written, dst))"

definition EncodeToString :: "bytecs list \<Rightarrow> bytecs list res" where
  "EncodeToString source =
     bind_res (GetEncodedLength (int (length source)))
       (\<lambda>len. case EncodeToChars source (replicate (nat len) 0) True of (status, dst, consumed, written) \<Rightarrow> Inr dst)"

definition DecodeFromChars :: "bytecs list \<Rightarrow> bytecs list \<Rightarrow> bool \<Rightarrow> OperationStatus \<times> decoder" where
  "DecodeFromChars source destination isFinalBlock = decodeCore source destination isFinalBlock"

definition DecodeFromChars_into :: "bytecs list \<Rightarrow> bytecs list \<Rightarrow> (nat \<times> bytecs list) res" where
  "DecodeFromChars_into source destination =
     (case DecodeFromChars source destination True of
        (status, s) \<Rightarrow>
          if status = Done then Inr (dc_written s, dc_dst s)
          else if status = DestinationTooSmall then Inl (ArgumentException ''destination'')
          else Inl FormatException)"

definition TryDecodeFromChars :: "bytecs list \<Rightarrow> bytecs list \<Rightarrow> (bool \<times> nat \<times> bytecs list) res" where
  "TryDecodeFromChars source destination =
     (case DecodeFromChars source destination True of
        (status, s) \<Rightarrow>
          if status = InvalidData then Inl FormatException else Inr (status = Done, dc_written s, dc_dst s))"

definition DecodeFromChars_vector :: "bytecs list \<Rightarrow> bytecs list res" where
  "DecodeFromChars_vector source =
     bind_res (GetMaxDecodedLength (int (length source)))
       (\<lambda>upperBound. case DecodeFromChars source (replicate (nat upperBound) 0) True of
          (status, s) \<Rightarrow> if status \<noteq> Done then Inl FormatException else Inr (take (dc_written s) (dc_dst s)))"

end
