(* ===== verification/Buf_Base64_Encode.thy ===== *)
theory Buf_Base64_Encode
  imports Buf_Base64
begin

unbundle bit_operations_syntax

text \<open>
  Base64 encoding against RFC 4648: the specification, the arithmetic of three bytes and four digits,
  every outcome of the encoder, and encoding in place.
\<close>

section \<open>Specification\<close>

text \<open>
  Base64 of RFC 4648: three bytes are four digits of base 64. The digits are the ASCII codes of \<^verbatim>\<open>A\<close> to \<^verbatim>\<open>Z\<close>, \<^verbatim>\<open>a\<close> to \<^verbatim>\<open>z\<close>,
  \<^verbatim>\<open>0\<close> to \<^verbatim>\<open>9\<close>, \<^verbatim>\<open>+\<close> and \<^verbatim>\<open>/\<close> (table 1 of the RFC), and 61 is the padding \<^verbatim>\<open>=\<close>.
\<close>

definition b64_digit :: "nat \<Rightarrow> bytecs" where
  "b64_digit n =
     of_nat (if n < 26 then 65 + n else if n < 52 then 97 + (n - 26) else if n < 62 then 48 + (n - 52)
             else if n = 62 then 43 else 47)"

fun base64 :: "bytecs list \<Rightarrow> bytecs list" where
  "base64 [] = []"
| "base64 [a] = [b64_digit (unat a div 4), b64_digit (unat a mod 4 * 16), 61, 61]"
| "base64 [a, b] =
     [b64_digit (unat a div 4), b64_digit (unat a mod 4 * 16 + unat b div 16), b64_digit (unat b mod 16 * 4), 61]"
| "base64 (a # b # c # r) =
     b64_digit (unat a div 4) # b64_digit (unat a mod 4 * 16 + unat b div 16) #
     b64_digit (unat b mod 16 * 4 + unat c div 64) # b64_digit (unat c mod 64) # base64 r"

text \<open>The symbols of a text: what is left without tabs, line feeds, carriage returns and spaces.\<close>

definition symbols :: "bytecs list \<Rightarrow> bytecs list" where
  "symbols = filter (\<lambda>c. c \<notin> {9, 10, 13, 32})"

text \<open>The tables and constants of the code are those of the specification.\<close>

lemma kEncTable_digit: "n < 64 \<Longrightarrow> kEncTable ! n = b64_digit n"
proof -
  assume n: "n < 64"
  have e: "kEncTable = map b64_digit [0..<64]" by (simp add: kEncTable_def b64_digit_def upt_rec)
  have "map b64_digit [0..<64] ! n = b64_digit (0 + n)"
    by (rule nth_map_upt) (simp only: n diff_zero)
  then show "kEncTable ! n = b64_digit n" by (simp only: e add_0)
qed

lemma base64_pad:
  "base64 [a] = [b64_digit (unat a div 4), b64_digit (unat a mod 4 * 16), pad_char, pad_char]"
  "base64 [a, b] =
     [b64_digit (unat a div 4), b64_digit (unat a mod 4 * 16 + unat b div 16), b64_digit (unat b mod 16 * 4), pad_char]"
  by (simp_all add: pad_char_def)

declare base64.simps(2,3) [simp del] base64_pad [simp]

lemma symbols_eq: "symbols = filter (\<lambda>c. \<not> isWhitespace c)"
proof -
  have "(\<lambda>c. c \<notin> {9, 10, 13, 32}) = (\<lambda>c. \<not> isWhitespace c)" by (auto simp: isWhitespace_def fun_eq_iff)
  then show ?thesis by (simp only: symbols_def)
qed

section \<open>Words and digits\<close>

lemma group_word_unat:
  "unat (group_word (a # b # c # r)) = unat a * 65536 + unat b * 256 + unat c"
proof -
  have l: "unat a < 256" "unat b < 256" "unat c < 256" by (simp_all add: unat_byte_less)
  have l2: "unat b < 16777216" using l(2) by linarith
  have l3: "unat b * 256 + unat c < 65536" "unat a < 65536" using l by linarith+
  have bc: "unat (push_bit 8 (ucast b) OR ucast c :: uintcs) = unat b * 256 + unat c"
    using l2 l(3) unat_shift_or [of "ucast c" 8 "ucast b"] by (simp add: unat_ucast_byte)
  have "unat (push_bit 16 (ucast a) OR (push_bit 8 (ucast b) OR ucast c) :: uintcs) =
      unat (ucast a :: uintcs) * 2 ^ 16 + unat (push_bit 8 (ucast b) OR ucast c :: uintcs)"
    by (rule unat_shift_or) (use l3 in \<open>simp_all add: bc unat_ucast_byte\<close>)
  then show ?thesis
    by (simp only: bc unat_ucast_byte) (simp add: group_word_def or.assoc)
qed

lemma enc_char_digit: "enc_char w k = b64_digit (unat w div 2 ^ k mod 64)"
proof -
  have "unat (drop_bit k w AND 0x3F) = unat (take_bit 6 (drop_bit k w))"
    by (simp add: take_bit_eq_mask mask_numeral)
  also have "\<dots> = unat w div 2 ^ k mod 64"
    using unsigned_less [of w, where ?'a = nat]
    by (simp only: unsigned_take_bit_eq unsigned_drop_bit_eq) (simp add: take_bit_eq_mod drop_bit_eq_div)
  finally show ?thesis using kEncTable_digit by (simp add: enc_char_def)
qed

lemma add_mult_mod:
  fixes r k q :: nat
  assumes "m = q * k + r" and "r < k"
  shows "m div k = q" "m mod k = r"
  using assms by simp_all

lemma three_bytes_digits:
  fixes a b c :: nat
  assumes "a < 256" "b < 256" "c < 256"
  defines "n \<equiv> a * 65536 + b * 256 + c"
  shows "n div 262144 mod 64 = a div 4" "n div 4096 mod 64 = a mod 4 * 16 + b div 16"
    "n div 64 mod 64 = b mod 16 * 4 + c div 64" "n mod 64 = c mod 64"
proof -
  define p where "p = a div 4" define p' where "p' = a mod 4"
  define q where "q = b div 16" define q' where "q' = b mod 16"
  define t where "t = c div 64" define t' where "t' = c mod 64"
  have a: "a = p * 4 + p'" "p' < 4" "p < 64" using assms(1) by (simp_all add: p_def p'_def less_mult_imp_div_less)
  have b: "b = q * 16 + q'" "q' < 16" "q < 16" using assms(2) by (simp_all add: q_def q'_def less_mult_imp_div_less)
  have c: "c = t * 64 + t'" "t' < 64" "t < 4" using assms(3) by (simp_all add: t_def t'_def less_mult_imp_div_less)
  have n: "n = p * 262144 + (p' * 65536 + b * 256 + c)" "n = (a * 16 + q) * 4096 + (q' * 256 + c)"
    "n = (a * 1024 + b * 4 + t) * 64 + t'" unfolding n_def a(1) b(1) c(1) by (simp_all add: algebra_simps)
  have "n div 262144 = p" by (rule add_mult_mod(1) [OF n(1)]) (use a(2) assms(2,3) in linarith)
  then show "n div 262144 mod 64 = a div 4" using a(3) by (simp add: p_def)
  have "n div 4096 = a * 16 + q" by (rule add_mult_mod(1) [OF n(2)]) (use b(2) assms(3) in linarith)
  moreover have "(a * 16 + q) mod 64 = p' * 16 + q"
    by (rule add_mult_mod(2) [where q = p]) (use a b(3) in linarith)+
  ultimately show "n div 4096 mod 64 = a mod 4 * 16 + b div 16" by (simp add: p'_def q_def)
  have "n div 64 = a * 1024 + b * 4 + t" by (rule add_mult_mod(1) [OF n(3) c(2)])
  moreover have "(a * 1024 + b * 4 + t) mod 64 = q' * 4 + t"
  proof (rule add_mult_mod(2) [where q = "a * 16 + q"])
    show "a * 1024 + b * 4 + t = (a * 16 + q) * 64 + (q' * 4 + t)" unfolding b(1) by (simp add: algebra_simps)
    show "q' * 4 + t < 64" using b(2) c(3) by linarith
  qed
  ultimately show "n div 64 mod 64 = b mod 16 * 4 + c div 64" by (simp add: q'_def t_def)
  show "n mod 64 = c mod 64" using add_mult_mod(2) [OF n(3) c(2)] by (simp add: t'_def)
qed

lemma encode_group_digits:
  "encode_group (a # b # c # r) =
     [b64_digit (unat a div 4), b64_digit (unat a mod 4 * 16 + unat b div 16),
      b64_digit (unat b mod 16 * 4 + unat c div 64), b64_digit (unat c mod 64)]"
  using three_bytes_digits [of "unat a" "unat b" "unat c"]
  by (simp add: encode_group_def Let_def enc_char_digit group_word_unat unat_byte_less)

lemma encode_rest_digits:
  "encode_rest (a # r) 1 = base64 [a]"
  "encode_rest (a # b # r) 2 = base64 [a, b]"
proof -
  have e: "group_word [a, 0, 0] = push_bit 16 (ucast a)" "group_word [a, b, 0] = push_bit 16 (ucast a) OR push_bit 8 (ucast b)"
    by (simp_all add: group_word_def)
  show "encode_rest (a # r) 1 = base64 [a]"
    using three_bytes_digits [of "unat a" 0 0]
    by (simp add: encode_rest_def Let_def enc_char_digit group_word_unat unat_byte_less flip: e)
  show "encode_rest (a # b # r) 2 = base64 [a, b]"
    using three_bytes_digits [of "unat a" "unat b" 0]
    by (simp add: encode_rest_def Let_def enc_char_digit group_word_unat unat_byte_less flip: e(2))
qed

section \<open>The encoder\<close>

lemma write_at_length: "k + length xs \<le> length dst \<Longrightarrow> length (write_at dst k xs) = length dst"
  by (simp add: write_at_def)

lemma write_at_Nil: "write_at dst k [] = dst"
  by (simp add: write_at_def)

lemma write_at_write_at:
  "k + length xs \<le> length dst \<Longrightarrow> write_at (write_at dst k xs) (k + length xs) ys = write_at dst k (xs @ ys)"
  by (simp add: write_at_def ac_simps)

lemma write_at_take: "j \<le> k \<Longrightarrow> k \<le> length dst \<Longrightarrow> take j (write_at dst k xs) = take j dst"
  by (simp add: write_at_def min_absorb1)

lemma write_at_drop: "k \<le> length dst \<Longrightarrow> drop (k + length xs) (write_at dst k xs) = drop (k + length xs) dst"
  by (simp add: write_at_def)

lemma encode_group_length [simp]: "length (encode_group src) = 4"
  by (simp add: encode_group_def Let_def)

lemma list_3:
  assumes "3 \<le> length xs"
  obtains a b c r where "xs = a # b # c # r"
proof (cases xs)
  case (Cons a ys)
  then obtain b zs where "ys = b # zs" using assms by (cases ys) auto
  with Cons that assms show thesis by (cases zs) auto
qed (use assms in simp)

lemma base64_group: "3 \<le> length src \<Longrightarrow> base64 src = encode_group src @ base64 (drop 3 src)"
  by (erule list_3) (simp add: encode_group_digits)

lemma base64_take_group:
  "3 \<le> length src \<Longrightarrow> base64 (take (k + 3) src) = encode_group src @ base64 (take k (drop 3 src))"
  by (erule list_3) (simp add: encode_group_digits numeral_3_eq_3)

lemma base64_length: "length (base64 src) = (length src + 2) div 3 * 4"
proof (induction src rule: base64.induct)
  case (4 a b c r)
  have "(length r + 2 + 3) div 3 = (length r + 2) div 3 + 1" by (rule div_add_self2) simp
  with 4 show ?case by (simp add: ac_simps)
qed auto

lemma base64_append:
  assumes "length xs = 3 * k"
  shows "base64 (xs @ ys) = base64 xs @ base64 ys"
  using assms
proof (induction k arbitrary: xs)
  case (Suc k)
  then obtain a b c r where xs: "xs = a # b # c # r" using list_3 [of xs] by (metis le_add1 mult_Suc_right)
  with Suc show ?case by simp
qed simp

lemma encode_groups_progress:
  assumes "3 * g \<le> length src" and "w \<le> length dst"
  shows "\<exists>k \<le> g. encode_groups g src dst c w =
      (if k = g then None else Some DestinationTooSmall, drop (3 * k) src, write_at dst w (base64 (take (3 * k) src)), c + 3 * k, w + 4 * k) \<and>
    w + 4 * k \<le> length dst \<and> (k < g \<longrightarrow> length dst < w + 4 * k + 4)"
  using assms
proof (induction g arbitrary: src dst c w)
  case (Suc g)
  show ?case
  proof (cases "length dst - w < 4")
    case True
    then show ?thesis by (intro exI [of _ 0]) (use Suc.prems in \<open>simp add: write_at_Nil\<close>)
  next
    case False
    let ?d = "write_at dst w (encode_group src)"
    have l: "length ?d = length dst" using False by (intro write_at_length) simp
    have "3 * g \<le> length (drop 3 src)" "w + 4 \<le> length ?d" using Suc.prems False l by simp_all
    from Suc.IH [OF this, of "c + 3"] obtain k where k: "k \<le> g"
      "encode_groups g (drop 3 src) ?d (c + 3) (w + 4) =
        (if k = g then None else Some DestinationTooSmall, drop (3 * k) (drop 3 src),
         write_at ?d (w + 4) (base64 (take (3 * k) (drop 3 src))), c + 3 + 3 * k, w + 4 + 4 * k)"
      "w + 4 + 4 * k \<le> length dst" "k < g \<longrightarrow> length dst < w + 4 + 4 * k + 4" unfolding l by auto
    have "write_at ?d (w + 4) (base64 (take (3 * k) (drop 3 src))) = write_at dst w (base64 (take (3 * k + 3) src))"
      using write_at_write_at [of w "encode_group src" dst] base64_take_group [of src "3 * k"] Suc.prems False by simp
    then show ?thesis using k False by (intro exI [of _ "Suc k"]) (simp add: add.commute)
  qed
qed (simp add: write_at_Nil)

lemma encode_rest_base64:
  assumes "length src = 3 * g + m" and "m = 1 \<or> m = 2"
  shows "base64 (take (3 * g) src) @ encode_rest (drop (3 * g) src) m = base64 src"
proof -
  have l: "length (drop (3 * g) src) = m" using assms(1) by simp
  have "encode_rest (drop (3 * g) src) m = base64 (drop (3 * g) src)"
  proof (cases "drop (3 * g) src" rule: base64.cases)
    case 1
    then show ?thesis using l assms(2) by auto
  next
    case (2 a)
    then show ?thesis using l encode_rest_digits(1) [of a "[]"] by simp
  next
    case (3 a b)
    then have "m = 2" using l by simp
    then show ?thesis using 3 encode_rest_digits(2) [of a b "[]"] by simp
  next
    case (4 a b c r)
    then have "3 \<le> m" using l by simp
    then show ?thesis using assms(2) by auto
  qed
  then show ?thesis
    using base64_append [of "take (3 * g) src" g "drop (3 * g) src"] assms(1) by simp
qed

text \<open>What every outcome of the encoder means.\<close>

definition encode_outcome ::
  "bytecs list \<Rightarrow> bytecs list \<Rightarrow> bool \<Rightarrow> OperationStatus \<times> bytecs list \<times> nat \<times> nat \<Rightarrow> bool" where
  "encode_outcome src dst isFinalBlock r \<longleftrightarrow>
     (case r of (status, dst', consumed, written) \<Rightarrow>
        consumed \<le> length src \<and> dst' = base64 (take consumed src) @ drop written dst \<and>
        written = length (base64 (take consumed src)) \<and> written \<le> length dst \<and>
        (case status of
           Done \<Rightarrow> consumed = length src
         | NeedMoreData \<Rightarrow> \<not> isFinalBlock \<and> 0 < length src mod 3 \<and> consumed = length src - length src mod 3
         | DestinationTooSmall \<Rightarrow> consumed < length src \<and> consumed mod 3 = 0 \<and> length dst - written < 4
         | InvalidData \<Rightarrow> False))"

lemma base64_length_group: "m \<le> length src \<Longrightarrow> length (base64 (take (3 * k) src)) = 4 * k" if "m = 3 * k" for m
  using that by (simp add: base64_length min_absorb2)

lemma encodeCore_outcome: "encode_outcome src dst isFinalBlock (encodeCore src dst isFinalBlock)"
proof -
  let ?g = "length src div 3" and ?m = "length src mod 3"
  have len: "length src = 3 * ?g + ?m" by simp
  obtain k where k: "k \<le> ?g" "encode_groups ?g src dst 0 0 =
      (if k = ?g then None else Some DestinationTooSmall, drop (3 * k) src, write_at dst 0 (base64 (take (3 * k) src)), 3 * k, 4 * k)"
    "4 * k \<le> length dst" "k < ?g \<longrightarrow> length dst < 4 * k + 4"
    using encode_groups_progress [of ?g src 0 dst 0] by auto
  have l3: "3 * k \<le> length src" using k(1) len by linarith
  have lb: "length (base64 (take (3 * k) src)) = 4 * k" using base64_length_group [OF refl l3] .
  have w: "write_at dst 0 (base64 (take (3 * k) src)) = base64 (take (3 * k) src) @ drop (4 * k) dst"
    by (simp add: write_at_def lb)
  show ?thesis
  proof (cases "k = ?g")
    case False
    then have "k < ?g" using k(1) by simp
    moreover from this have "3 * k < length src" "length dst - 4 * k < 4" using k(4) by linarith+
    ultimately show ?thesis using k(2,3) lb w False
      by (simp add: encodeCore_def Let_def encode_outcome_def)
  next
    case True
    then have e3: "3 * ?g = length src - ?m" "0 < ?m \<Longrightarrow> 3 * ?g < length src" using len by linarith+
    consider "?m = 0" | "0 < ?m" "\<not> isFinalBlock" | "0 < ?m" "isFinalBlock" "length dst - 4 * k < 4"
      | "0 < ?m" "isFinalBlock" "4 * k + 4 \<le> length dst" by linarith
    then show ?thesis
    proof cases
      case 4
      then have m: "?m = 1 \<or> ?m = 2" by linarith
      have r: "base64 (take (3 * k) src) @ encode_rest (drop (3 * k) src) ?m = base64 src"
        using encode_rest_base64 [OF len m] True by simp
      have lr: "length (encode_rest (drop (3 * k) src) ?m) = 4" by (simp add: encode_rest_def Let_def)
      have "write_at (write_at dst 0 (base64 (take (3 * k) src))) (4 * k) (encode_rest (drop (3 * k) src) ?m) = base64 src @ drop (4 * k + 4) dst"
        unfolding r [symmetric] by (simp add: write_at_def lb lr add.commute)
      moreover have "length (base64 src) = 4 * k + 4" using r lb lr by (metis length_append)
      moreover have "length (write_at dst 0 (base64 (take (3 * k) src))) = length dst"
        using lb k(3) by (intro write_at_length) simp
      ultimately show ?thesis using 4 k True lr len
        by (simp add: encodeCore_def Let_def encode_outcome_def)
    qed (use k True w lb len l3 e3 in \<open>simp_all add: encodeCore_def Let_def encode_outcome_def\<close>)
  qed
qed

lemma encode_exact:
  "encodeCore src dst True =
     (if length (base64 src) \<le> length dst
      then (Done, base64 src @ drop (length (base64 src)) dst, length src, length (base64 src))
      else encodeCore src dst True) \<and>
   (fst (encodeCore src dst True) = Done \<longleftrightarrow> length (base64 src) \<le> length dst)"
proof -
  obtain st d c w where e: "encodeCore src dst True = (st, d, c, w)" by (cases "encodeCore src dst True") auto
  have o: "encode_outcome src dst True (st, d, c, w)" using encodeCore_outcome [of src dst True] e by simp
  show ?thesis
  proof (cases st)
    case Done
    with o e show ?thesis by (auto simp: encode_outcome_def)
  next
    case DestinationTooSmall
    with o have c: "c < length src" "c mod 3 = 0" "w = length (base64 (take c src))" "length dst - w < 4" "w \<le> length dst"
      by (auto simp: encode_outcome_def)
    then have "c = 3 * (c div 3)" by presburger
    then have "length (base64 src) = length (base64 (take c src)) + length (base64 (drop c src))"
      using c(1) base64_append [of "take c src" "c div 3" "drop c src"] by simp
    moreover have "4 \<le> length (base64 (drop c src))" using c(1) by (simp add: base64_length)
    ultimately have "\<not> length (base64 src) \<le> length dst" using c by linarith
    with DestinationTooSmall e show ?thesis by simp
  qed (use o in \<open>auto simp: encode_outcome_def\<close>)
qed

lemma inplace_groups_base64:
  assumes "i * 4 \<le> length buf"
  shows "inplace_groups i buf = base64 (take (3 * i) buf) @ drop (i * 4) buf"
  using assms
proof (induction i arbitrary: buf)
  case (Suc i)
  let ?b = "write_at buf (i * 4) (encode_group (drop (i * 3) buf))"
  have l: "length ?b = length buf" using Suc.prems by (intro write_at_length) simp
  have t: "take (3 * i) ?b = take (3 * i) buf" using Suc.prems by (intro write_at_take) simp_all
  have d: "drop (i * 4) ?b = encode_group (drop (i * 3) buf) @ drop (Suc i * 4) buf"
    using Suc.prems by (simp add: write_at_def add.commute)
  have "take (3 * Suc i) buf = take (3 * i) buf @ take 3 (drop (3 * i) buf)"
    by (metis add.commute mult_Suc_right take_add)
  moreover have "base64 (take 3 (drop (3 * i) buf)) = encode_group (drop (3 * i) buf)"
    using base64_take_group [of "drop (3 * i) buf" 0] Suc.prems by simp
  ultimately have "base64 (take (3 * Suc i) buf) = base64 (take (3 * i) buf) @ encode_group (drop (3 * i) buf)"
    using base64_append [of "take (3 * i) buf" i "take 3 (drop (3 * i) buf)"] Suc.prems by simp
  then show ?case using Suc.IH [of ?b] l t d Suc.prems by (simp add: mult.commute)
qed simp

lemma encode_vector:
  "EncodeToUtf8_vector src =
     (if int (length src) \<le> kMaximumEncodeLength then Inr (base64 src)
      else Inl (ArgumentOutOfRangeException ''bytesLength''))"
proof -
  have "nat ((int (length src) + 2) div 3 * 4) = length (base64 src)"
    by (simp add: base64_length nat_mult_distrib nat_div_distrib nat_add_distrib)
  then show ?thesis using encode_exact [of src "replicate (length (base64 src)) 0"]
    by (auto simp: EncodeToUtf8_vector_def GetMaxEncodedToUtf8Length_def EncodeToUtf8_def)
qed

text \<open>
  C36. The encoder is RFC 4648 Base64, in every block mode and for every destination: what has been
  written is the encoding of what has been consumed and the rest of the destination is untouched.
  \<^verbatim>\<open>Done\<close> consumed everything; \<^verbatim>\<open>NeedMoreData\<close> arises only for a block that is not final and leaves
  the one or two bytes of an incomplete group; \<^verbatim>\<open>DestinationTooSmall\<close> stops on a group boundary with no room for another
  quantum. The allocating overload returns the whole encoding, or throws for a source of more than 1610612733
  bytes, which is the limit \<^verbatim>\<open>GetMaxEncodedToUtf8Length\<close> documents (the comment on \<^verbatim>\<open>kMaximumEncodeLength\<close> takes the
  number for that of the encoded bytes).
\<close>

theorem base64_encode:
  "encode_outcome src dst isFinalBlock (EncodeToUtf8 src dst isFinalBlock) \<and>
   EncodeToUtf8_vector src =
     (if length src \<le> 1610612733 then Inr (base64 src) else Inl (ArgumentOutOfRangeException ''bytesLength''))"
  using encodeCore_outcome encode_vector by (simp add: EncodeToUtf8_def kMaximumEncodeLength_def)

text \<open>
  Encoding in place, from the last group to the first in the buffer that holds the data, never
  overwrites a byte before it is read: the buffer then starts with the encoding of the data and its
  remainder is unchanged. A buffer that is too small is left alone.
\<close>

theorem base64_encode_in_place:
  assumes "buf \<noteq> []" and "n \<le> length buf" and "int n \<le> kMaximumEncodeLength"
  shows "EncodeToUtf8InPlace buf (int n) =
    (let enc = base64 (take n buf)
     in if length enc \<le> length buf then Inr (Done, enc @ drop (length enc) buf, length enc)
        else Inr (DestinationTooSmall, buf, 0))"
proof -
  let ?g = "n div 3" and ?m = "n mod 3"
  let ?enc = "base64 (take n buf)"
  have lt: "length (take n buf) = n" using assms(2) by simp
  have e: "GetMaxEncodedToUtf8Length (int n) = Inr (int (length ?enc))"
    using assms(3) by (simp add: GetMaxEncodedToUtf8Length_def base64_length min_absorb2 [OF assms(2)] zdiv_int add.commute)
  show ?thesis
  proof (cases "length ?enc \<le> length buf")
    case False
    then show ?thesis using assms(1) e by (simp add: EncodeToUtf8InPlace_def Let_def)
  next
    case True
    define buf1 where "buf1 = (if ?m = 0 then buf else write_at buf (?g * 4) (encode_rest (drop (?g * 3) buf) ?m))"
    have le: "length ?enc = (n + 2) div 3 * 4" by (simp only: base64_length lt)
    have fits: "?g * 4 + (if ?m = 0 then 0 else 4) \<le> length buf"
    proof -
      have "?g + (if ?m = 0 then 0 else 1) \<le> (n + 2) div 3" by (cases "?m = 0") (presburger, presburger)
      with True le show ?thesis by (auto split: if_splits)
    qed
    have t1: "take (3 * ?g) buf1 = take (3 * ?g) buf"
      using fits by (auto simp: buf1_def intro: write_at_take)
    have lr: "?m \<noteq> 0 \<Longrightarrow> length (encode_rest (drop (?g * 3) buf) ?m) = 4" by (simp add: encode_rest_def Let_def)
    have "inplace_groups ?g buf1 = base64 (take (3 * ?g) buf) @ drop (?g * 4) buf1"
    proof -
      have "length buf1 = length buf" using fits lr by (cases "?m = 0") (simp_all add: buf1_def write_at_length)
      then have "?g * 4 \<le> length buf1" using fits by linarith
      from inplace_groups_base64 [OF this] t1 show ?thesis by simp
    qed
    also have "\<dots> = ?enc @ drop (length ?enc) buf"
    proof (cases "?m = 0")
      case m0: True
      then obtain q where q: "n = 3 * q" by (auto elim: dvdE dest: mod_0_imp_dvd)
      then have "length ?enc = q * 4" using le by simp
      moreover have "buf1 = buf" using m0 by (simp add: buf1_def)
      ultimately show ?thesis using q by simp
    next
      case False
      then have m: "?m = 1 \<or> ?m = 2" by linarith
      have en: "base64 (take (3 * ?g) (take n buf)) @ encode_rest (drop (3 * ?g) (take n buf)) ?m = ?enc"
        by (rule encode_rest_base64 [OF _ m]) (simp only: lt mult_div_mod_eq)
      have "encode_rest (drop (3 * ?g) (take n buf)) ?m = encode_rest (drop (?g * 3) buf) ?m"
      proof -
        have "3 * ?g < n" "?m = 2 \<Longrightarrow> Suc (3 * ?g) < n" using m mult_div_mod_eq [of 3 n] by linarith+
        then show ?thesis using m assms(2) by (auto simp: encode_rest_def Let_def mult.commute)
      qed
      then have en': "?enc = base64 (take (3 * ?g) buf) @ encode_rest (drop (?g * 3) buf) ?m"
        using en by (simp add: min_absorb1)
      moreover have "length (base64 (take (3 * ?g) buf)) = ?g * 4"
        using assms(2) by (simp add: base64_length min_absorb2)
      ultimately show ?thesis using False fits lr by (simp add: buf1_def write_at_def)
    qed
    finally have "inplace_groups ?g buf1 = ?enc @ drop (length ?enc) buf" .
    then show ?thesis using assms(1) e True
      by (simp add: EncodeToUtf8InPlace_def Let_def buf1_def [symmetric])
  qed
qed

end
