(* ===== verification/Buf_Base64_Decode.thy ===== *)
theory Buf_Base64_Decode
  imports Buf_Base64_Encode
begin

unbundle bit_operations_syntax

text \<open>
  Base64 decoding: the two tables are inverse, a complete canonical quantum is the encoding of its
  bytes, and with that the decoder, the validator and decoding in place.
\<close>

section \<open>Tables\<close>

definition sym_val :: "bytecs \<Rightarrow> int" where
  "sym_val c = kDecTable ! unat c"

text \<open>The ranges of the alphabet, as functions.\<close>

definition enc_ascii :: "nat \<Rightarrow> nat" where
  "enc_ascii k = (if k < 26 then k + 65 else if k < 52 then k + 71 else if k < 62 then k - 4 else if k = 62 then 43 else 47)"

definition dec_ascii :: "nat \<Rightarrow> int" where
  "dec_ascii n = (if n = 43 then 62 else if n = 47 then 63 else if 48 \<le> n \<and> n \<le> 57 then int n + 4
     else if n = 61 then - 2 else if 65 \<le> n \<and> n \<le> 90 then int n - 65 else if 97 \<le> n \<and> n \<le> 122 then int n - 71
     else - 1)"

lemma b64_digit_ascii: "b64_digit k = of_nat (enc_ascii k)"
  by (simp add: b64_digit_def enc_ascii_def)

lemma kDecTable_ascii: "kDecTable = map dec_ascii [0..<256]"
  by (simp add: kDecTable_def dec_ascii_def upt_rec)

lemma enc_ascii_bound: "enc_ascii k < 256"
  by (cases "k < 26"; cases "k < 52"; cases "k < 62") (simp_all add: enc_ascii_def)

lemma unat_digit: "k < 64 \<Longrightarrow> unat (b64_digit k) = enc_ascii k"
  using enc_ascii_bound [of k] by (simp add: b64_digit_ascii unat_of_nat)

lemma sym_val_ascii: "sym_val c = dec_ascii (unat c)"
  using unat_byte_less [of c] by (simp add: sym_val_def kDecTable_ascii)

lemma isWhitespace_ascii: "isWhitespace c \<longleftrightarrow> unat c = 32 \<or> unat c = 9 \<or> unat c = 13 \<or> unat c = 10"
  by (auto simp: isWhitespace_def word_unat_eq_iff)

lemma symbol_digit:
  assumes "d < 64"
  shows "sym_val (b64_digit d) = int d" "\<not> isWhitespace (b64_digit d)" "b64_digit d \<noteq> pad_char"
  using assms by (auto simp: sym_val_ascii isWhitespace_ascii unat_digit enc_ascii_def dec_ascii_def pad_char_def word_unat_eq_iff)

lemma symbol_pad: "sym_val pad_char = - 2" "\<not> isWhitespace pad_char"
  by (simp_all add: sym_val_ascii pad_char_def dec_ascii_def isWhitespace_ascii)

lemma dec_ascii_cases:
  "dec_ascii n = - 1 \<or> n = 61 \<or> (\<exists>d < 64. n = enc_ascii d)"
proof -
  have r: "d < 64 \<Longrightarrow> n = enc_ascii d \<Longrightarrow> ?thesis" for d by blast
  consider "n = 43" | "n = 47" | "48 \<le> n" "n \<le> 57" | "n = 61" | "65 \<le> n" "n \<le> 90" | "97 \<le> n" "n \<le> 122"
    | "n \<noteq> 43" "n \<noteq> 47" "\<not> (48 \<le> n \<and> n \<le> 57)" "n \<noteq> 61" "\<not> (65 \<le> n \<and> n \<le> 90)" "\<not> (97 \<le> n \<and> n \<le> 122)" by blast
  then show ?thesis
  proof cases
    case 1
    show ?thesis by (rule r [of 62]) (simp_all add: 1 enc_ascii_def)
  next
    case 2
    show ?thesis by (rule r [of 63]) (simp_all add: 2 enc_ascii_def)
  next
    case 3
    then show ?thesis by (intro r [of "n + 4"]) (auto simp: enc_ascii_def)
  next
    case 5
    then show ?thesis by (intro r [of "n - 65"]) (auto simp: enc_ascii_def)
  next
    case 6
    then show ?thesis by (intro r [of "n - 71"]) (auto simp: enc_ascii_def)
  qed (auto simp: dec_ascii_def)
qed

lemma symbol_cases:
  obtains (digit) d where "d < 64" "c = b64_digit d" | (pad) "c = pad_char" | (bad) "sym_val c = - 1"
proof -
  consider "dec_ascii (unat c) = - 1" | "unat c = 61" | d where "d < 64" "unat c = enc_ascii d"
    using dec_ascii_cases [of "unat c"] by blast
  then show thesis
  proof cases
    case 2
    then have "c = pad_char" unfolding word_unat_eq_iff by (simp add: pad_char_def)
    then show thesis by (rule pad)
  next
    case (3 d)
    then have "c = b64_digit d" unfolding word_unat_eq_iff by (simp add: unat_digit)
    with 3(1) show thesis by (rule digit)
  qed (simp add: bad sym_val_ascii)
qed

lemma b64_digit_inject:
  assumes "d < 64" "e < 64" "b64_digit d = b64_digit e"
  shows "d = e"
proof -
  have "int d = sym_val (b64_digit d)" by (rule symbol_digit(1) [OF assms(1), symmetric])
  also have "\<dots> = int e" unfolding assms(3) by (rule symbol_digit(1) [OF assms(2)])
  finally show ?thesis by simp
qed

section \<open>Quanta\<close>

text \<open>
  A quantum under construction: the digits \<open>ds\<close> and \<open>k\<close> padding symbols so far.
\<close>

definition quantum_text :: "nat list \<Rightarrow> nat \<Rightarrow> bytecs list" where
  "quantum_text ds k = map b64_digit ds @ replicate k pad_char"

definition quantum_ok :: "nat list \<Rightarrow> nat \<Rightarrow> bool" where
  "quantum_ok ds k \<longleftrightarrow> list_all (\<lambda>d. d < 64) ds \<and> (0 < k \<longrightarrow> 2 \<le> length ds) \<and> length ds + k \<le> 4"

definition quantum_vals :: "nat list \<Rightarrow> nat \<Rightarrow> int list" where
  "quantum_vals ds k = map int ds @ replicate k 0"

definition canonical :: "nat list \<Rightarrow> nat \<Rightarrow> bool" where
  "canonical ds k \<longleftrightarrow> (k = 1 \<longrightarrow> ds ! 2 mod 4 = 0) \<and> (k = 2 \<longrightarrow> ds ! 1 mod 16 = 0)"

definition quantum_bytes :: "nat list \<Rightarrow> nat \<Rightarrow> bytecs list" where
  "quantum_bytes ds k =
     (let val = quantum_word (quantum_vals ds k)
      in take (3 - k) [ucast (drop_bit 16 val), ucast (drop_bit 8 val), ucast val])"

lemma quantum_word_unat:
  assumes "d0 < 64" "d1 < 64" "d2 < 64" "d3 < 64"
  shows "unat (quantum_word [int d0, int d1, int d2, int d3]) = d0 * 262144 + d1 * 4096 + d2 * 64 + d3"
proof -
  have u: "unat (of_nat d :: uintcs) = d" if "d < 64" for d
    using that by (simp add: unat_of_nat)
  have s2: "unat (push_bit 6 (of_nat d2) OR of_nat d3 :: uintcs) = d2 * 64 + d3"
    using unat_shift_or [of "of_nat d3 :: uintcs" 6 "of_nat d2"] assms by (simp add: u)
  have s1: "unat (push_bit 12 (of_nat d1) OR (push_bit 6 (of_nat d2) OR of_nat d3) :: uintcs) = d1 * 4096 + (d2 * 64 + d3)"
    using unat_shift_or [of "push_bit 6 (of_nat d2) OR of_nat d3 :: uintcs" 12 "of_nat d1"] assms by (simp add: u s2)
  have "unat (push_bit 18 (of_nat d0) OR (push_bit 12 (of_nat d1) OR (push_bit 6 (of_nat d2) OR of_nat d3)) :: uintcs) =
      d0 * 262144 + (d1 * 4096 + (d2 * 64 + d3))"
    using unat_shift_or [of "push_bit 12 (of_nat d1) OR (push_bit 6 (of_nat d2) OR of_nat d3) :: uintcs" 18 "of_nat d0"] assms
    by (simp add: u s1)
  then show ?thesis by (simp add: quantum_word_def or.assoc)
qed

lemma four_digits_bytes:
  fixes d0 d1 d2 d3 :: nat
  assumes "d0 < 64" "d1 < 64" "d2 < 64" "d3 < 64"
  defines "n \<equiv> d0 * 262144 + d1 * 4096 + d2 * 64 + d3"
  shows "n div 65536 mod 256 = d0 * 4 + d1 div 16" "n div 256 mod 256 = d1 mod 16 * 16 + d2 div 4"
    "n mod 256 = d2 mod 4 * 64 + d3"
proof -
  define p where "p = d1 div 16" define p' where "p' = d1 mod 16"
  define q where "q = d2 div 4" define q' where "q' = d2 mod 4"
  have d1: "d1 = p * 16 + p'" "p' < 16" "p < 4" using assms(2) by (simp_all add: p_def p'_def less_mult_imp_div_less)
  have d2: "d2 = q * 4 + q'" "q' < 4" "q < 16" using assms(3) by (simp_all add: q_def q'_def less_mult_imp_div_less)
  have n: "n = (d0 * 4 + p) * 65536 + (p' * 4096 + d2 * 64 + d3)" "n = (d0 * 1024 + d1 * 16 + q) * 256 + (q' * 64 + d3)"
    unfolding n_def d1(1) d2(1) by (simp_all add: algebra_simps)
  have "n div 65536 = d0 * 4 + p" by (rule add_mult_mod(1) [OF n(1)]) (use d1(2) assms(3,4) in linarith)
  moreover have "d0 * 4 + p < 256" using assms(1) d1(3) by linarith
  ultimately show "n div 65536 mod 256 = d0 * 4 + d1 div 16" by (simp add: p_def)
  have l: "q' * 64 + d3 < 256" using d2(2) assms(4) by linarith
  have "n div 256 = d0 * 1024 + d1 * 16 + q" by (rule add_mult_mod(1) [OF n(2) l])
  moreover have "(d0 * 1024 + d1 * 16 + q) mod 256 = p' * 16 + q"
  proof (rule add_mult_mod(2) [where q = "d0 * 4 + p"])
    show "d0 * 1024 + d1 * 16 + q = (d0 * 4 + p) * 256 + (p' * 16 + q)" unfolding d1(1) by (simp add: algebra_simps)
    show "p' * 16 + q < 256" using d1(2) d2(3) by linarith
  qed
  ultimately show "n div 256 mod 256 = d1 mod 16 * 16 + d2 div 4" by (simp add: p'_def q_def)
  show "n mod 256 = d2 mod 4 * 64 + d3" using add_mult_mod(2) [OF n(2) l] by (simp add: q'_def)
qed

lemma quantum_word_bytes:
  assumes "d0 < 64" "d1 < 64" "d2 < 64" "d3 < 64"
  defines "w \<equiv> quantum_word [int d0, int d1, int d2, int d3]"
  shows "unat (ucast (drop_bit 16 w) :: bytecs) = d0 * 4 + d1 div 16"
    "unat (ucast (drop_bit 8 w) :: bytecs) = d1 mod 16 * 16 + d2 div 4"
    "unat (ucast w :: bytecs) = d2 mod 4 * 64 + d3"
proof -
  have d: "unat (drop_bit k w) = unat w div 2 ^ k" for k
    using unsigned_less [of w, where ?'a = nat]
    by (simp only: unsigned_drop_bit_eq) (simp add: drop_bit_eq_div take_bit_nat_eq_self)
  show "unat (ucast (drop_bit 16 w) :: bytecs) = d0 * 4 + d1 div 16"
    "unat (ucast (drop_bit 8 w) :: bytecs) = d1 mod 16 * 16 + d2 div 4"
    "unat (ucast w :: bytecs) = d2 mod 4 * 64 + d3"
    using four_digits_bytes [OF assms(1-4)] unfolding ucast_byte_of d quantum_word_unat [OF assms(1-4), folded w_def]
    by simp_all
qed

lemma div_mod_small:
  fixes a b k :: nat
  assumes "b < k"
  shows "(a * k + b) div k = a" "(a * k + b) mod k = b"
  using assms by simp_all

lemma quantum_bytes_cases:
  assumes "quantum_ok ds k" and "length ds + k = 4"
  obtains (three) d0 d1 d2 d3 a b c where "ds = [d0, d1, d2, d3]" "k = 0" "d0 < 64" "d1 < 64" "d2 < 64" "d3 < 64"
      "quantum_bytes ds k = [a, b, c]" "unat a = d0 * 4 + d1 div 16" "unat b = d1 mod 16 * 16 + d2 div 4"
      "unat c = d2 mod 4 * 64 + d3"
    | (two) d0 d1 d2 a b where "ds = [d0, d1, d2]" "k = 1" "d0 < 64" "d1 < 64" "d2 < 64"
      "quantum_bytes ds k = [a, b]" "unat a = d0 * 4 + d1 div 16" "unat b = d1 mod 16 * 16 + d2 div 4"
    | (one) d0 d1 a where "ds = [d0, d1]" "k = 2" "d0 < 64" "d1 < 64"
      "quantum_bytes ds k = [a]" "unat a = d0 * 4 + d1 div 16"
proof -
  have l: "k = 0 \<or> k = 1 \<or> k = 2" using assms by (auto simp: quantum_ok_def)
  obtain d0 d1 r where ds: "ds = d0 # d1 # r" using assms l by (cases ds; cases "tl ds") (auto simp: quantum_ok_def)
  have d01: "d0 < 64" "d1 < 64" using assms(1) ds by (auto simp: quantum_ok_def)
  from l consider "k = 0" | "k = 1" | "k = 2" by blast
  then show thesis
  proof cases
    case 1
    then obtain d2 d3 where r: "r = [d2, d3]" using assms(2) ds by (cases r; cases "tl r") auto
    then have "d2 < 64" "d3 < 64" using assms(1) ds by (auto simp: quantum_ok_def)
    then show thesis
      using three [OF _ 1 d01, of d2 d3] quantum_word_bytes [OF d01, of d2 d3] 1 ds r
      by (simp add: quantum_bytes_def quantum_vals_def Let_def)
  next
    case 2
    then obtain d2 where r: "r = [d2]" using assms(2) ds by (cases r) auto
    then have "d2 < 64" using assms(1) ds by (auto simp: quantum_ok_def)
    then show thesis
      using two [OF _ 2 d01, of d2] quantum_word_bytes [OF d01, of d2 0] 2 ds r
      by (simp add: quantum_bytes_def quantum_vals_def Let_def)
  next
    case 3
    then have "r = []" using assms(2) ds by simp
    then show thesis
      using one [OF _ 3 d01] quantum_word_bytes [OF d01, of 0 0] 3 ds
      by (simp add: quantum_bytes_def quantum_vals_def Let_def numeral_2_eq_2)
  qed
qed

lemma quantum_bytes_length:
  "quantum_ok ds k \<Longrightarrow> length ds + k = 4 \<Longrightarrow> length (quantum_bytes ds k) = 3 - k \<and> k \<le> 2"
  by (erule (1) quantum_bytes_cases) simp_all

text \<open>A complete canonical quantum is the encoding of its bytes.\<close>

lemma base64_quantum_bytes:
  assumes "quantum_ok ds k" and "length ds + k = 4" and "canonical ds k"
  shows "base64 (quantum_bytes ds k) = quantum_text ds k"
  using assms(1,2)
proof (cases rule: quantum_bytes_cases)
  case (three d0 d1 d2 d3 a b c)
  have "d1 div 16 < 4" "d2 div 4 < 16" "d1 mod 16 < 16" "d2 mod 4 < 4" using three(4,5) by (simp_all add: less_mult_imp_div_less)
  then show ?thesis using three div_mod_small [of "d1 div 16" 4 d0] div_mod_small [of "d2 div 4" 16 "d1 mod 16"] div_mod_small [of d3 64 "d2 mod 4"]
    by (simp add: quantum_text_def)
next
  case (two d0 d1 d2 a b)
  have "d1 div 16 < 4" "d2 div 4 < 16" "d1 mod 16 < 16" using two(4,5) by (simp_all add: less_mult_imp_div_less)
  moreover have "d2 div 4 * 4 = d2" using assms(3) two(1,2) by (auto simp: canonical_def)
  ultimately show ?thesis using two div_mod_small [of "d1 div 16" 4 d0] div_mod_small [of "d2 div 4" 16 "d1 mod 16"]
    by (simp add: quantum_text_def)
next
  case (one d0 d1 a)
  have "d1 div 16 < 4" using one(4) by (simp add: less_mult_imp_div_less)
  moreover have "d1 div 16 * 16 = d1" using assms(3) one(1,2) by (auto simp: canonical_def)
  ultimately show ?thesis using one div_mod_small [of "d1 div 16" 4 d0]
    by (simp add: quantum_text_def numeral_2_eq_2)
qed

text \<open>An encoding starts with a complete canonical quantum.\<close>

lemma digit_bounds: "unat (a :: bytecs) div 4 < 64" "unat a mod 4 * 16 + unat (b :: bytecs) div 16 < 64"
  "unat b mod 16 * 4 + unat (c :: bytecs) div 64 < 64" "unat a mod 4 * 16 < 64" "unat b mod 16 * 4 < 64"
proof -
  have "unat b div 16 < 16" "unat c div 64 < 4" "unat a div 4 < 64"
    using unat_byte_less [of a] unat_byte_less [of b] unat_byte_less [of c] by (simp_all add: less_mult_imp_div_less)
  moreover have "unat a mod 4 < 4" "unat b mod 16 < 16" by simp_all
  ultimately show "unat a div 4 < 64" "unat a mod 4 * 16 + unat b div 16 < 64" "unat b mod 16 * 4 + unat c div 64 < 64"
    "unat a mod 4 * 16 < 64" "unat b mod 16 * 4 < 64" by linarith+
qed

lemma base64_first_quantum:
  assumes "bs \<noteq> []"
  obtains es j r where "quantum_ok es j" "length es + j = 4" "canonical es j" "bs = quantum_bytes es j @ r"
    "base64 bs = quantum_text es j @ base64 r" "0 < j \<longrightarrow> r = []"
proof -
  have small: "x mod 4 * 16 + y div 16 = d \<Longrightarrow> y < 256 \<Longrightarrow> d div 16 = x mod 4 \<and> d mod 16 = y div 16" for x y d :: nat
    using div_mod_small [of "y div 16" 16 "x mod 4"] by (auto simp: less_mult_imp_div_less)
  have small': "x mod 16 * 4 + y div 64 = d \<Longrightarrow> y < 256 \<Longrightarrow> d div 4 = x mod 16 \<and> d mod 4 = y div 64" for x y d :: nat
    using div_mod_small [of "y div 64" 4 "x mod 16"] by (auto simp: less_mult_imp_div_less)
  have byte: "unat x < 256" for x :: bytecs by (rule unat_byte_less)
  show thesis
  proof (cases bs rule: base64.cases)
    case 1
    with assms show thesis by simp
  next
    case (2 a)
    let ?es = "[unat a div 4, unat a mod 4 * 16]"
    have ok: "quantum_ok ?es 2" using digit_bounds(1,4) [of a] by (simp add: quantum_ok_def)
    have "quantum_bytes ?es 2 = [a]" using ok
      by (cases rule: quantum_bytes_cases) (auto simp: word_unat_eq_iff)
    then show thesis using that [OF ok, of "[]"] 2 by (simp add: canonical_def quantum_text_def numeral_2_eq_2)
  next
    case (3 a b)
    let ?es = "[unat a div 4, unat a mod 4 * 16 + unat b div 16, unat b mod 16 * 4]"
    have ok: "quantum_ok ?es 1" using digit_bounds(1) [of a] digit_bounds(2) [of a b] digit_bounds(5) [of b] by (simp add: quantum_ok_def)
    have "quantum_bytes ?es 1 = [a, b]" using ok
      by (cases rule: quantum_bytes_cases) (use small [OF refl byte, of "unat a" b] in \<open>auto simp: word_unat_eq_iff\<close>)
    then show thesis using that [OF ok, of "[]"] 3 by (simp add: canonical_def quantum_text_def)
  next
    case (4 a b c r)
    define d1 where "d1 = unat a mod 4 * 16 + unat b div 16"
    define d2 where "d2 = unat b mod 16 * 4 + unat c div 64"
    let ?es = "[unat a div 4, d1, d2, unat c mod 64]"
    have lt: "unat a div 4 < 64" "d1 < 64" "d2 < 64" "unat c mod 64 < 64"
      using digit_bounds(1) [of a] digit_bounds(2) [of a b] digit_bounds(3) [of b c] by (simp_all add: d1_def d2_def)
    have ok: "quantum_ok ?es 0" using lt by (simp add: quantum_ok_def)
    have s: "d1 div 16 = unat a mod 4 \<and> d1 mod 16 = unat b div 16" "d2 div 4 = unat b mod 16 \<and> d2 mod 4 = unat c div 64"
      using small [OF d1_def [symmetric] byte] small' [OF d2_def [symmetric] byte] by simp_all
    have "quantum_bytes ?es 0 = [a, b, c]"
      using quantum_word_bytes [OF lt] s by (simp add: quantum_bytes_def quantum_vals_def Let_def word_unat_eq_iff)
    then show thesis using that [OF ok, of r] 4 by (simp add: canonical_def quantum_text_def d1_def d2_def)
  qed
qed


section \<open>The decoder\<close>

lemma symbols_drop:
  assumes "i < length src"
  shows "symbols (drop i src) = (if isWhitespace (src ! i) then symbols (drop (Suc i) src) else src ! i # symbols (drop (Suc i) src))"
  by (simp add: symbols_eq flip: Cons_nth_drop_Suc [OF assms])

lemma symbols_Nil_iff: "symbols xs = [] \<longleftrightarrow> list_all isWhitespace xs"
  by (auto simp: symbols_eq list_all_iff filter_empty_conv)

lemma trailing_whitespace:
  "list_all (\<lambda>r. isWhitespace (src ! r)) [i..<length src] \<longleftrightarrow> symbols (drop i src) = []"
proof -
  have "list_all (\<lambda>r. isWhitespace (src ! r)) [i..<length src] \<longleftrightarrow> (\<forall>r. i \<le> r \<and> r < length src \<longrightarrow> isWhitespace (src ! r))"
    by (auto simp: list_all_iff)
  also have "\<dots> \<longleftrightarrow> (\<forall>j < length src - i. isWhitespace (src ! (i + j)))"
    by (metis add.commute le_add1 le_add_diff_inverse less_diff_conv)
  finally show ?thesis by (simp add: symbols_Nil_iff list_all_length)
qed

text \<open>The outcome of a decode that finds the encoding of \<open>bs\<close> ahead.\<close>

definition decodes :: "decoder \<Rightarrow> nat \<Rightarrow> bytecs list \<Rightarrow> OperationStatus \<times> decoder \<Rightarrow> bool" where
  "decodes s srcLen bs r \<longleftrightarrow>
     (if dc_di s + length bs \<le> length (dc_dst s)
      then fst r = Done \<and> dc_dst (snd r) = write_at (dc_dst s) (dc_di s) bs \<and>
        dc_written (snd r) = dc_di s + length bs \<and> dc_consumed (snd r) = srcLen
      else fst r = DestinationTooSmall)"

definition decode_src :: "bytecs list \<Rightarrow> decoder \<Rightarrow> OperationStatus \<times> decoder" where
  "decode_src src s = decode_loop (\<lambda>_ i. src ! i) (length src) True s"

lemma decode_src_end:
  assumes "length src \<le> dc_si s"
  shows "decode_src src s =
    (if dc_vals s \<noteq> [] then decoder_fail InvalidData s else (Done, s\<lparr>dc_consumed := dc_si s, dc_written := dc_di s\<rparr>))"
  using assms by (simp add: decode_src_def decode_loop.simps [of _ _ _ s])

lemma decode_src_space:
  assumes "dc_si s < length src" and "isWhitespace (src ! dc_si s)"
  shows "decode_src src s = decode_src src (s\<lparr>dc_si := Suc (dc_si s)\<rparr>)"
  using assms by (simp add: decode_src_def decode_loop.simps [of _ _ _ s])

definition decode_enter :: "bytecs list \<Rightarrow> decoder \<Rightarrow> decoder" where
  "decode_enter src s =
     s\<lparr>dc_fail := (if dc_vals s = [] then dc_si s else dc_fail s), dc_si := Suc (dc_si s)\<rparr>"

lemma decode_src_symbol:
  assumes "dc_si s < length src" and "\<not> isWhitespace (src ! dc_si s)"
  shows "decode_src src s =
    (case decode_symbol True (sym_val (src ! dc_si s)) (decode_enter src s) of
       Inl status \<Rightarrow> decoder_fail status (decode_enter src s)
     | Inr s2 \<Rightarrow>
         if length (dc_vals s2) = 4 then
           case decode_quantum s2 of
             Inl status \<Rightarrow> decoder_fail status s2
           | Inr s3 \<Rightarrow>
               if dc_pad s3 > 0 then
                 if symbols (drop (dc_si s3) src) = []
                 then (Done, s3\<lparr>dc_consumed := length src\<rparr>) else (InvalidData, s3)
               else decode_src src (s3\<lparr>dc_vals := [], dc_pad := 0\<rparr>)
         else decode_src src s2)"
  unfolding decode_src_def decode_enter_def sym_val_def trailing_whitespace [symmetric]
  by (subst decode_loop.simps) (simp only: assms Let_def if_True if_False)

lemma int_and_low: "int x AND 3 = int (x mod 4)" "int x AND 15 = int (x mod 16)"
  using take_bit_eq_mask [of 2 "int x"] take_bit_eq_mask [of 4 "int x"]
  by (simp_all add: mask_numeral take_bit_eq_mod zmod_int)

lemma decode_quantum_complete:
  assumes "quantum_ok es j" and "length es + j = 4" and "canonical es j"
    and "dc_vals s = quantum_vals es j" and "dc_pad s = j" and "dc_di s \<le> length (dc_dst s)"
  shows "decode_quantum s =
    (if dc_di s + length (quantum_bytes es j) \<le> length (dc_dst s)
     then Inr (s\<lparr>dc_dst := write_at (dc_dst s) (dc_di s) (quantum_bytes es j),
                dc_di := dc_di s + length (quantum_bytes es j), dc_consumed := dc_si s,
                dc_written := dc_di s + length (quantum_bytes es j)\<rparr>)
     else Inl DestinationTooSmall)"
proof -
  have l: "length (quantum_bytes es j) = 3 - j" "j \<le> 2" using quantum_bytes_length [OF assms(1,2)] by simp_all
  have store: "decode_store (3 - j) s =
      (if dc_di s + length (quantum_bytes es j) \<le> length (dc_dst s)
       then Inr (s\<lparr>dc_dst := write_at (dc_dst s) (dc_di s) (quantum_bytes es j),
                  dc_di := dc_di s + length (quantum_bytes es j), dc_consumed := dc_si s,
                  dc_written := dc_di s + length (quantum_bytes es j)\<rparr>)
       else Inl DestinationTooSmall)"
    using assms(4,6) l(1) by (auto simp: decode_store_def quantum_bytes_def Let_def)
  have v: "j = 1 \<Longrightarrow> quantum_vals es j ! 2 = int (es ! 2)" "j = 2 \<Longrightarrow> quantum_vals es j ! 1 = int (es ! 1)"
    using assms(2) by (simp_all add: quantum_vals_def nth_append)
  from l(2) consider "j = 0" | "j = 1" | "j = 2" by linarith
  then show ?thesis
    using store v assms(3-5) by cases (simp_all add: decode_quantum_def canonical_def int_and_low)
qed

lemma decode_src_blank:
  assumes "symbols (drop (dc_si s) src) = []" and "dc_vals s = []" and "dc_si s \<le> length src"
    and "dc_di s \<le> length (dc_dst s)"
  shows "decodes s (length src) [] (decode_src src s)"
  using assms
proof (induction "length src - dc_si s" arbitrary: s rule: less_induct)
  case less
  show ?case
  proof (cases "dc_si s < length src")
    case True
    then have w: "isWhitespace (src ! dc_si s)" "symbols (drop (Suc (dc_si s)) src) = []"
      using symbols_drop [OF True] less.prems(1) by (simp_all split: if_splits)
    show ?thesis unfolding decode_src_space [OF True w(1)]
      using less.hyps [of "s\<lparr>dc_si := Suc (dc_si s)\<rparr>"] less.prems w True by (simp add: decodes_def)
  next
    case False
    then have "dc_si s = length src" using less.prems(3) by simp
    then show ?thesis using less.prems(2,4) decode_src_end [of src s] by (simp add: decodes_def write_at_Nil)
  qed
qed

text \<open>
  Completeness. \<open>i\<close> symbols of the quantum \<open>es\<close>, \<open>j\<close> have been read; the rest of it and the encoding of
  \<open>r\<close> lie ahead, with white space anywhere.
\<close>

lemma decode_symbol_next:
  assumes "quantum_ok es j" and "length es + j = 4" and "i < 4"
    and "dc_vals s = take i (quantum_vals es j)" and "dc_pad s = i - length es"
  shows "decode_symbol True (sym_val (quantum_text es j ! i)) s =
    Inr (s\<lparr>dc_vals := take (Suc i) (quantum_vals es j), dc_pad := Suc i - length es\<rparr>)"
proof (cases "i < length es")
  case True
  then have d: "es ! i < 64" "quantum_text es j ! i = b64_digit (es ! i)" "quantum_vals es j ! i = int (es ! i)"
    using assms(1) by (auto simp: quantum_ok_def quantum_text_def quantum_vals_def nth_append list_all_length)
  have "take (Suc i) (quantum_vals es j) = take i (quantum_vals es j) @ [int (es ! i)]"
    using True d(3) by (simp add: take_Suc_conv_app_nth quantum_vals_def)
  then show ?thesis using True assms(4,5) by (simp add: decode_symbol_def d symbol_digit(1) [OF d(1)])
next
  case False
  then have i: "i < length (quantum_vals es j)" "quantum_vals es j ! i = 0" "quantum_text es j ! i = pad_char" "2 \<le> i"
    using assms(1-3) by (auto simp: quantum_text_def quantum_vals_def nth_append quantum_ok_def)
  have "take (Suc i) (quantum_vals es j) = take i (quantum_vals es j) @ [0]"
    using i(1,2) by (simp add: take_Suc_conv_app_nth)
  then show ?thesis using False i assms(4,5) by (simp add: decode_symbol_def symbol_pad Suc_diff_le)
qed

lemma decode_complete_step:
  assumes "quantum_ok es j" "length es + j = 4" "canonical es j" "0 < j \<longrightarrow> r = []" "i < 4"
    and "dc_vals s = take i (quantum_vals es j)" "dc_pad s = i - length es" "dc_di s \<le> length (dc_dst s)"
    and "symbols (drop (dc_si s) src) = drop i (quantum_text es j) @ base64 r"
  shows "decodes s (length src) (quantum_bytes es j @ r) (decode_src src s)"
  using assms
proof (induction "length src - dc_si s" arbitrary: s es j i r rule: less_induct)
  case less
  have lq: "length (quantum_text es j) = 4" "length (quantum_vals es j) = 4"
    using less.prems(2) by (simp_all add: quantum_text_def quantum_vals_def)
  have "drop i (quantum_text es j) \<noteq> []" using lq less.prems(5) by simp
  then have "symbols (drop (dc_si s) src) \<noteq> []" using less.prems(9) by simp
  then have lt: "dc_si s < length src" by (metis drop_all filter.simps(1) not_le symbols_eq)
  show ?case
  proof (cases "isWhitespace (src ! dc_si s)")
    case True
    have "decodes (s\<lparr>dc_si := Suc (dc_si s)\<rparr>) (length src) (quantum_bytes es j @ r) (decode_src src (s\<lparr>dc_si := Suc (dc_si s)\<rparr>))"
      by (rule less.hyps [where i = i]) (use less.prems lt True symbols_drop [OF lt] in simp_all)
    then show ?thesis by (simp add: decode_src_space [OF lt True] decodes_def)
  next
    case False
    let ?s1 = "decode_enter src s"
    let ?s2 = "?s1\<lparr>dc_vals := take (Suc i) (quantum_vals es j), dc_pad := Suc i - length es\<rparr>"
    have sym: "src ! dc_si s = quantum_text es j ! i"
      and rest: "symbols (drop (Suc (dc_si s)) src) = drop (Suc i) (quantum_text es j) @ base64 r"
      using less.prems(5,9) symbols_drop [OF lt] False lq by (simp_all flip: Cons_nth_drop_Suc)
    have e: "decode_symbol True (sym_val (src ! dc_si s)) ?s1 = Inr ?s2"
      unfolding sym by (rule decode_symbol_next) (use less.prems in \<open>simp_all add: decode_enter_def\<close>)
    note step = decode_src_symbol [OF lt False, unfolded e sum.case]
    show ?thesis
    proof (cases "Suc i < 4")
      case True
      have "decodes ?s2 (length src) (quantum_bytes es j @ r) (decode_src src ?s2)"
        by (rule less.hyps [where i = "Suc i"]) (use less.prems lt True rest in \<open>simp_all add: decode_enter_def\<close>)
      then show ?thesis using True lq by (simp add: step decodes_def decode_enter_def)
    next
      case last: False
      then have i: "Suc i = 4" using less.prems(5) by simp
      have sj: "4 - length es = j" using less.prems(2) by simp
      note dq = decode_quantum_complete [OF less.prems(1-3), of ?s2]
      show ?thesis
      proof (cases "dc_di s + length (quantum_bytes es j) \<le> length (dc_dst s)")
        case False
        then show ?thesis using dq less.prems(8) lq i sj
          by (simp add: step decodes_def decoder_fail_def decode_enter_def)
      next
        case room: True
        let ?b = "quantum_bytes es j"
        define s3 where "s3 = ?s2\<lparr>dc_dst := write_at (dc_dst s) (dc_di s) ?b, dc_di := dc_di s + length ?b,
          dc_consumed := Suc (dc_si s), dc_written := dc_di s + length ?b\<rparr>"
        have q3: "decode_quantum ?s2 = Inr s3"
          using dq less.prems(8) room lq i sj by (simp add: s3_def decode_enter_def)
        have f3: "dc_pad s3 = j" "dc_si s3 = Suc (dc_si s)" "dc_dst s3 = write_at (dc_dst s) (dc_di s) ?b"
          "dc_di s3 = dc_di s + length ?b" "dc_written s3 = dc_di s + length ?b"
          using i sj by (simp_all add: s3_def decode_enter_def)
        have r3: "symbols (drop (dc_si s3) src) = base64 r" using rest i lq f3(2) by simp
        show ?thesis
        proof (cases "0 < j")
          case True
          then have "r = []" using less.prems(4) by simp
          then show ?thesis using True q3 f3 r3 room lq i by (simp add: step decodes_def)
        next
          case False
          then have j: "j = 0" by simp
          let ?s4 = "s3\<lparr>dc_vals := [], dc_pad := 0\<rparr>"
          have d: "decode_src src s = decode_src src ?s4" using j q3 f3(1) lq i by (simp add: step)
          have w4: "length (dc_dst ?s4) = length (dc_dst s)" using room f3(3) by (simp add: write_at_length)
          have "decodes ?s4 (length src) r (decode_src src ?s4)"
          proof (cases "r = []")
            case True
            then show ?thesis using decode_src_blank [of ?s4 src] r3 f3 w4 room lt by simp
          next
            case False
            then obtain es' j' r' where r': "quantum_ok es' j'" "length es' + j' = 4" "canonical es' j'"
              "r = quantum_bytes es' j' @ r'" "base64 r = quantum_text es' j' @ base64 r'" "0 < j' \<longrightarrow> r' = []"
              by (rule base64_first_quantum)
            show ?thesis unfolding r'(4)
              by (rule less.hyps [where i = 0]) (use r' f3 r3 w4 room lt in simp_all)
          qed
          then show ?thesis using d w4 f3 room write_at_write_at [of "dc_di s" ?b "dc_dst s" r]
            by (simp add: decodes_def add.assoc)
        qed
      qed
    qed
  qed
qed

lemma decode_complete:
  assumes "symbols src = base64 bs"
  shows "decodes (decoder_start dst) (length src) bs (decodeCore src dst True)"
proof (cases "bs = []")
  case True
  then show ?thesis using decode_src_blank [of "decoder_start dst" src] assms
    by (simp add: decodeCore_def decode_src_def decoder_start_def)
next
  case False
  then obtain es j r where r: "quantum_ok es j" "length es + j = 4" "canonical es j"
    "bs = quantum_bytes es j @ r" "base64 bs = quantum_text es j @ base64 r" "0 < j \<longrightarrow> r = []"
    by (rule base64_first_quantum)
  show ?thesis unfolding r(4) decodeCore_def decode_src_def [symmetric]
    by (rule decode_complete_step [where i = 0]) (use r assms in \<open>simp_all add: decoder_start_def\<close>)
qed

text \<open>Soundness: only an encoding decodes.\<close>

lemma decode_symbol_accepts:
  assumes "quantum_ok ds k" "length ds + k < 4" "dc_vals s = quantum_vals ds k" "dc_pad s = k"
  shows "(\<exists>ds' k'. quantum_ok ds' k' \<and> length ds' + k' = Suc (length ds + k) \<and>
      quantum_text ds' k' = quantum_text ds k @ [c] \<and>
      decode_symbol True (sym_val c) (decode_enter src s) =
        Inr ((decode_enter src s)\<lparr>dc_vals := quantum_vals ds' k', dc_pad := k'\<rparr>)) \<or>
    decode_symbol True (sym_val c) (decode_enter src s) = Inl InvalidData"
proof (cases c rule: symbol_cases)
  case (digit d)
  show ?thesis
  proof (cases "k = 0")
    case True
    then show ?thesis using assms digit
      by (intro disjI1 exI [of _ "ds @ [d]"] exI [of _ 0])
        (auto simp: quantum_ok_def quantum_text_def quantum_vals_def decode_symbol_def symbol_digit decode_enter_def)
  next
    case False
    then show ?thesis using assms digit by (simp add: decode_symbol_def symbol_digit decode_enter_def)
  qed
next
  case pad
  show ?thesis
  proof (cases "length ds + k < 2")
    case True
    then show ?thesis using assms pad by (simp add: decode_symbol_def symbol_pad decode_enter_def quantum_vals_def)
  next
    case False
    then have "2 \<le> length ds" using assms(1) by (cases "k = 0") (simp_all add: quantum_ok_def)
    then show ?thesis using assms pad False
      by (intro disjI1 exI [of _ ds] exI [of _ "Suc k"])
        (auto simp: quantum_ok_def quantum_text_def quantum_vals_def decode_symbol_def symbol_pad decode_enter_def
          replicate_append_same)
  qed
next
  case bad
  then show ?thesis by (simp add: decode_symbol_def)
qed

lemma decode_quantum_not_Done: "decode_quantum s \<noteq> Inl Done"
  by (auto simp: decode_quantum_def decode_store_def Let_def)

lemma decode_quantum_canonical:
  assumes "quantum_ok ds k" "length ds + k = 4" "dc_vals s = quantum_vals ds k" "dc_pad s = k"
    and "dc_di s \<le> length (dc_dst s)" and "decode_quantum s = Inr s3"
  shows "canonical ds k \<and> dc_di s3 \<le> length (dc_dst s3) \<and> dc_si s3 = dc_si s \<and> dc_pad s3 = k"
proof -
  have c: "canonical ds k"
  proof (rule ccontr)
    assume "\<not> canonical ds k"
    then consider "k = 1" "ds ! 2 mod 4 \<noteq> 0" | "k = 2" "ds ! 1 mod 16 \<noteq> 0" by (auto simp: canonical_def)
    then show False
    proof cases
      case 1
      then have "dc_vals s ! 2 = int (ds ! 2)" using assms(2,3) by (simp add: quantum_vals_def nth_append)
      then show False using 1 assms(4,6) by (simp add: decode_quantum_def int_and_low)
    next
      case 2
      then have "dc_vals s ! 1 = int (ds ! 1)" using assms(2,3) by (simp add: quantum_vals_def nth_append)
      then show False using 2 assms(4,6) by (simp add: decode_quantum_def int_and_low)
    qed
  qed
  with assms decode_quantum_complete [OF assms(1,2) c assms(3-5)] show ?thesis
    by (auto simp: write_at_length split: if_splits)
qed

lemma decode_sound_step:
  assumes "quantum_ok ds k" "length ds + k < 4"
    and "dc_vals s = quantum_vals ds k" "dc_pad s = k" "dc_di s \<le> length (dc_dst s)"
    and "fst (decode_src src s) = Done"
  shows "\<exists>bs. quantum_text ds k @ symbols (drop (dc_si s) src) = base64 bs"
  using assms
proof (induction "length src - dc_si s" arbitrary: s ds k rule: less_induct)
  case less
  show ?case
  proof (cases "dc_si s < length src")
    case False
    then have "dc_vals s = []" "drop (dc_si s) src = []"
      using less.prems(6) decode_src_end [of src s] by (auto simp: decoder_fail_def split: if_splits)
    then show ?thesis using less.prems(3) by (intro exI [of _ "[]"]) (simp add: quantum_vals_def quantum_text_def symbols_eq)
  next
    case lt: True
    show ?thesis
    proof (cases "isWhitespace (src ! dc_si s)")
      case True
      have "\<exists>bs. quantum_text ds k @ symbols (drop (dc_si (s\<lparr>dc_si := Suc (dc_si s)\<rparr>)) src) = base64 bs"
        by (rule less.hyps) (use less.prems lt True decode_src_space [OF lt True] in simp_all)
      then show ?thesis using symbols_drop [OF lt] True by simp
    next
      case False
      note step = decode_src_symbol [OF lt False]
      have sd: "symbols (drop (dc_si s) src) = src ! dc_si s # symbols (drop (Suc (dc_si s)) src)"
        using symbols_drop [OF lt] False by simp
      have no: "decode_symbol True (sym_val (src ! dc_si s)) (decode_enter src s) \<noteq> Inl InvalidData"
        using step less.prems(6) by (auto simp: decoder_fail_def)
      obtain ds' k' where q: "quantum_ok ds' k'" "length ds' + k' = Suc (length ds + k)"
        "quantum_text ds' k' = quantum_text ds k @ [src ! dc_si s]"
        "decode_symbol True (sym_val (src ! dc_si s)) (decode_enter src s) =
           Inr ((decode_enter src s)\<lparr>dc_vals := quantum_vals ds' k', dc_pad := k'\<rparr>)"
        using decode_symbol_accepts [OF less.prems(1-4), of "src ! dc_si s" src] no by blast
      let ?s2 = "(decode_enter src s)\<lparr>dc_vals := quantum_vals ds' k', dc_pad := k'\<rparr>"
      have l2: "length (dc_vals ?s2) = length ds' + k'" by (simp add: quantum_vals_def)
      note step2 = step [unfolded q(4) sum.case l2]
      show ?thesis
      proof (cases "length ds' + k' = 4")
        case False
        have "\<exists>bs. quantum_text ds' k' @ symbols (drop (dc_si ?s2) src) = base64 bs"
          by (rule less.hyps) (use less.prems q False lt step2 in \<open>simp_all add: decode_enter_def\<close>)
        then show ?thesis using q(3) sd by (simp add: decode_enter_def)
      next
        case full: True
        then obtain s3 where s3: "decode_quantum ?s2 = Inr s3"
          using step2 less.prems(6) decode_quantum_not_Done by (cases "decode_quantum ?s2") (auto simp: decoder_fail_def)
        have c: "canonical ds' k'" and di3: "dc_di s3 \<le> length (dc_dst s3)" "dc_si s3 = Suc (dc_si s)" "dc_pad s3 = k'"
          using decode_quantum_canonical [OF q(1) full, of ?s2 s3] s3 less.prems(5) by (simp_all add: decode_enter_def)
        note b = base64_quantum_bytes [OF q(1) full c]
        show ?thesis
        proof (cases "0 < k'")
          case True
          then have "symbols (drop (Suc (dc_si s)) src) = []"
            using step2 full s3 di3 less.prems(6) by (simp split: if_splits)
          then show ?thesis using sd q(3) b by (intro exI [of _ "quantum_bytes ds' k'"]) simp
        next
          case False
          let ?s4 = "s3\<lparr>dc_vals := [], dc_pad := 0\<rparr>"
          have "\<exists>bs. quantum_text [] 0 @ symbols (drop (dc_si ?s4) src) = base64 bs"
            by (rule less.hyps) (use less.prems(6) False lt step2 full s3 di3 in \<open>simp_all add: quantum_ok_def quantum_vals_def\<close>)
          then obtain r where r: "symbols (drop (Suc (dc_si s)) src) = base64 r" using di3 by (auto simp: quantum_text_def)
          have "length (quantum_bytes ds' k') = 3 * 1" using quantum_bytes_length [OF q(1) full] False by simp
          then have "base64 (quantum_bytes ds' k' @ r) = quantum_text ds' k' @ base64 r" using base64_append b by metis
          then show ?thesis using sd q(3) r by (intro exI [of _ "quantum_bytes ds' k' @ r"]) simp
        qed
      qed
    qed
  qed
qed

lemma decode_sound:
  assumes "fst (decodeCore src dst True) = Done"
  shows "\<exists>bs. symbols src = base64 bs"
proof -
  have "\<exists>bs. quantum_text [] 0 @ symbols (drop (dc_si (decoder_start dst)) src) = base64 bs"
    by (rule decode_sound_step)
      (use assms in \<open>simp_all add: decodeCore_def decode_src_def decoder_start_def quantum_ok_def quantum_vals_def\<close>)
  then show ?thesis by (simp add: decoder_start_def quantum_text_def)
qed

lemma symbols_base64: "symbols (base64 xs) = base64 xs"
proof (induction xs rule: base64.induct)
  case (4 a b c r)
  then show ?case using digit_bounds(1) [of a] digit_bounds(2) [of a b] digit_bounds(3) [of b c]
    by (simp add: symbols_eq symbol_digit)
qed (use digit_bounds in \<open>simp_all add: symbols_eq symbol_digit symbol_pad\<close>)

lemma base64_inject:
  assumes "base64 xs = base64 ys"
  shows "xs = ys"
proof -
  obtain dst :: "bytecs list" where l: "length xs \<le> length dst" "length ys \<le> length dst"
    using that [of "replicate (length xs + length ys) 0"] by simp
  have d: "decodes (decoder_start dst) (length (base64 xs)) xs (decodeCore (base64 xs) dst True)"
    "decodes (decoder_start dst) (length (base64 xs)) ys (decodeCore (base64 xs) dst True)"
    using decode_complete [of "base64 xs" xs] decode_complete [of "base64 xs" ys] assms symbols_base64 by simp_all
  then have "length xs = length ys" "write_at dst 0 xs = write_at dst 0 ys"
    using l by (simp_all add: decodes_def decoder_start_def)
  then show ?thesis by (simp add: write_at_def)
qed

section \<open>The validator\<close>

text \<open>The validator follows the decoder as long as the destination has room for the rest.\<close>

lemma validate_symbol:
  assumes "si < length src" "\<not> isWhitespace (src ! si)"
  shows "validate_loop src si di vals p =
    (let v = sym_val (src ! si); pads = (if v = - 2 then Suc p else p); vals' = vals @ [if v = - 2 then 0 else v]
     in if v = - 1 \<or> v = - 2 \<and> length vals < 2 \<or> v \<noteq> - 2 \<and> p > 0 then (False, 0)
        else if length vals' = 4 then
          if pads = 1 \<and> vals' ! 2 AND 3 \<noteq> 0 \<or> pads = 2 \<and> vals' ! 1 AND 15 \<noteq> 0 then (False, 0)
          else let di' = di + (if pads = 0 then 3 else if pads = 1 then 2 else 1)
               in if pads > 0 then if symbols (drop (Suc si) src) = [] then (True, di') else (False, 0)
                  else validate_loop src (Suc si) di' [] 0
        else validate_loop src (Suc si) di vals' pads)"
  unfolding trailing_whitespace [symmetric] sym_val_def
  by (subst validate_loop.simps) (use assms in \<open>simp add: Let_def\<close>)

lemma decode_symbol_eq:
  "decode_symbol True v s =
     (if v = - 1 \<or> v = - 2 \<and> length (dc_vals s) < 2 \<or> v \<noteq> - 2 \<and> dc_pad s > 0 then Inl InvalidData
      else Inr (s\<lparr>dc_vals := dc_vals s @ [if v = - 2 then 0 else v], dc_pad := (if v = - 2 then Suc (dc_pad s) else dc_pad s)\<rparr>))"
  by (auto simp: decode_symbol_def)

lemma decode_quantum_eq:
  assumes "dc_pad s = pads" "dc_vals s = vals" "pads \<le> 2"
    and "decode_store (if pads = 0 then 3 else if pads = 1 then 2 else 1) s = Inr s3"
  shows "decode_quantum s =
     (if pads = 1 \<and> vals ! 2 AND 3 \<noteq> 0 \<or> pads = 2 \<and> vals ! 1 AND 15 \<noteq> 0 then Inl InvalidData else Inr s3)"
  using assms by (auto simp: decode_quantum_def split: if_splits)

lemma decode_store_room:
  assumes "dc_di s + n \<le> length (dc_dst s)" and "n \<le> 3"
  shows "\<exists>s3. decode_store n s = Inr s3 \<and> dc_si s3 = dc_si s \<and> dc_di s3 = dc_di s + n \<and> dc_written s3 = dc_di s + n \<and>
    dc_pad s3 = dc_pad s \<and> length (dc_dst s3) = length (dc_dst s)"
  using assms by (simp add: decode_store_def Let_def write_at_length)

lemma validate_simulates:
  assumes "dc_si s = si" "dc_di s = di" "dc_vals s = vals" "dc_pad s = p" "length vals < 4" "p \<le> length vals - 2"
    and "di + 3 * (length vals + (length src - si)) \<le> length (dc_dst s)"
  shows "validate_loop src si di vals p =
    (case decode_src src s of (st, s') \<Rightarrow> if st = Done then (True, dc_written s') else (False, 0))"
  using assms
proof (induction "length src - si" arbitrary: s si di vals p rule: less_induct)
  case less
  show ?case
  proof (cases "si < length src")
    case False
    then show ?thesis using less.prems decode_src_end [of src s]
      by (simp add: validate_loop.simps [of src si] decoder_fail_def)
  next
    case lt: True
    then have lt': "dc_si s < length src" using less.prems(1) by simp
    show ?thesis
    proof (cases "isWhitespace (src ! si)")
      case True
      have "validate_loop src (Suc si) di vals p =
          (case decode_src src (s\<lparr>dc_si := Suc (dc_si s)\<rparr>) of (st, s') \<Rightarrow> if st = Done then (True, dc_written s') else (False, 0))"
        by (rule less.hyps) (use less.prems lt in simp_all)
      then show ?thesis using True lt less.prems(1) decode_src_space [OF lt'] by (simp add: validate_loop.simps [of src si])
    next
      case False
      let ?v = "sym_val (src ! si)"
      define pads where "pads = (if ?v = - 2 then Suc p else p)"
      define vals2 where "vals2 = vals @ [if ?v = - 2 then 0 else ?v]"
      let ?s2 = "(decode_enter src s)\<lparr>dc_vals := vals2, dc_pad := pads\<rparr>"
      note vs = validate_symbol [OF lt False, of di vals p, unfolded Let_def, folded pads_def vals2_def]
      have nws: "\<not> isWhitespace (src ! dc_si s)" using False less.prems(1) by simp
      note ds = decode_src_symbol [OF lt' nws, unfolded less.prems(1)]
      have en: "dc_vals (decode_enter src s) = vals" "dc_pad (decode_enter src s) = p" "dc_si (decode_enter src s) = Suc si"
        "dc_di (decode_enter src s) = di" "dc_dst (decode_enter src s) = dc_dst s"
        using less.prems by (simp_all add: decode_enter_def)
      show ?thesis
      proof (cases "?v = - 1 \<or> ?v = - 2 \<and> length vals < 2 \<or> ?v \<noteq> - 2 \<and> p > 0")
        case True
        then show ?thesis using vs ds by (simp add: decode_symbol_eq en decoder_fail_def less.prems(1))
      next
        case ok: False
        then have sy: "decode_symbol True ?v (decode_enter src s) = Inr ?s2" by (simp add: decode_symbol_eq en pads_def vals2_def)
        have pl: "pads \<le> length vals2 - 2" "length vals2 = Suc (length vals)" using ok less.prems(6) by (auto simp: pads_def vals2_def split: if_splits)
        note ds2 = ds [unfolded sy sum.case]
        show ?thesis
        proof (cases "length vals2 = 4")
          case False
          have "validate_loop src (Suc si) di vals2 pads =
              (case decode_src src ?s2 of (st, s') \<Rightarrow> if st = Done then (True, dc_written s') else (False, 0))"
            by (rule less.hyps) (use less.prems lt False en pl in simp_all)
          then show ?thesis using vs ds2 ok False by simp
        next
          case full: True
          let ?bad = "pads = 1 \<and> vals2 ! 2 AND 3 \<noteq> 0 \<or> pads = 2 \<and> vals2 ! 1 AND 15 \<noteq> 0"
          let ?n = "if pads = 0 then 3 else if pads = 1 then 2 else 1 :: nat"
          have lv: "length vals = 3" using full pl(2) by simp
          have room: "di + ?n \<le> length (dc_dst s)" using less.prems(7) lv by (simp split: if_splits)
          have p2: "pads \<le> 2" using pl full by simp
          obtain s3 where s3: "decode_store ?n ?s2 = Inr s3" "dc_si s3 = Suc si" "dc_di s3 = di + ?n" "dc_written s3 = di + ?n"
            "dc_pad s3 = pads" "length (dc_dst s3) = length (dc_dst s)"
            using decode_store_room [of ?s2 ?n] room en by (auto split: if_splits)
          have dq: "decode_quantum ?s2 = (if ?bad then Inl InvalidData else Inr s3)"
            by (rule decode_quantum_eq [OF _ _ p2 s3(1)]) simp_all
          show ?thesis
          proof (cases "?bad \<or> 0 < pads")
            case True
            then show ?thesis using vs ds2 ok full dq s3 by (auto simp: decoder_fail_def split: if_splits)
          next
            case False
            let ?s4 = "s3\<lparr>dc_vals := [], dc_pad := 0\<rparr>"
            have "validate_loop src (Suc si) (di + ?n) [] 0 =
                (case decode_src src ?s4 of (st, s') \<Rightarrow> if st = Done then (True, dc_written s') else (False, 0))"
              by (rule less.hyps) (use less.prems(7) lt lv s3 room in \<open>simp_all split: if_splits\<close>)
            moreover have "decode_src src s = decode_src src ?s4" using ds2 full dq False s3(5) by simp
            ultimately show ?thesis using vs ok full False by (simp split: if_splits)
          qed
        qed
      qed
    qed
  qed
qed

section \<open>Decoding in place\<close>

text \<open>
  The write position stays behind the read position by the number of pending symbols, so what is still
  to be read is still the source.
\<close>

lemma write_at_nth_beyond:
  "k + length xs \<le> i \<Longrightarrow> k + length xs \<le> length dst \<Longrightarrow> write_at dst k xs ! i = dst ! i"
  by (auto simp: write_at_def nth_append)

lemma decode_symbol_frame:
  "decode_symbol f v s = Inr s' \<Longrightarrow> dc_dst s' = dc_dst s \<and> dc_di s' = dc_di s \<and> dc_si s' = dc_si s \<and>
     length (dc_vals s') = Suc (length (dc_vals s))"
  by (auto simp: decode_symbol_def split: if_splits)

lemma decode_quantum_frame:
  assumes "decode_quantum s = Inr s'" and "dc_di s \<le> length (dc_dst s)"
  shows "dc_di s' \<le> dc_di s + 3 \<and> dc_si s' = dc_si s \<and> dc_di s' \<le> length (dc_dst s') \<and>
    length (dc_dst s') = length (dc_dst s) \<and> (\<forall>i \<ge> dc_di s + 3. dc_dst s' ! i = dc_dst s ! i)"
proof -
  have "decode_store 3 s = Inr s' \<or> decode_store 2 s = Inr s' \<or> decode_store 1 s = Inr s'"
    using assms(1) by (auto simp: decode_quantum_def split: if_splits)
  then obtain n where n: "n \<le> 3" "decode_store n s = Inr s'"
    using that [of 3] that [of 2] that [of 1] by auto
  then show ?thesis using assms(2)
    by (auto simp: decode_store_def Let_def write_at_length write_at_nth_beyond split: if_splits)
qed

lemma decode_in_place_loop:
  assumes "\<forall>i. dc_si s \<le> i \<and> i < n \<longrightarrow> dc_dst s ! i = src ! i"
    and "dc_di s + length (dc_vals s) \<le> dc_si s" and "dc_di s \<le> length (dc_dst s)"
  shows "decode_loop (\<lambda>dst i. dst ! i) n f s = decode_loop (\<lambda>_ i. src ! i) n f s"
  using assms
proof (induction "n - dc_si s" arbitrary: s rule: less_induct)
  case less
  show ?case
  proof (cases "dc_si s < n")
    case False
    then show ?thesis by (simp add: decode_loop.simps [of _ _ _ s])
  next
    case lt: True
    then have r: "dc_dst s ! dc_si s = src ! dc_si s" using less.prems(1) by simp
    show ?thesis
    proof (cases "isWhitespace (src ! dc_si s)")
      case True
      have "decode_loop (\<lambda>dst i. dst ! i) n f (s\<lparr>dc_si := Suc (dc_si s)\<rparr>) =
          decode_loop (\<lambda>_ i. src ! i) n f (s\<lparr>dc_si := Suc (dc_si s)\<rparr>)"
        by (rule less.hyps) (use less.prems lt in auto)
      then show ?thesis using True lt r by (simp add: decode_loop.simps [of _ _ _ s])
    next
      case False
      let ?s1 = "s\<lparr>dc_fail := (if dc_vals s = [] then dc_si s else dc_fail s), dc_si := Suc (dc_si s)\<rparr>"
      have unf: "decode_loop rd n f s =
          (case decode_symbol f (kDecTable ! unat (src ! dc_si s)) ?s1 of
             Inl status \<Rightarrow> decoder_fail status ?s1
           | Inr s2 \<Rightarrow>
               if length (dc_vals s2) = 4 then
                 case decode_quantum s2 of
                   Inl status \<Rightarrow> decoder_fail status s2
                 | Inr s3 \<Rightarrow>
                     if dc_pad s3 > 0 then
                       if list_all (\<lambda>r. isWhitespace (rd (dc_dst s3) r)) [dc_si s3..<n]
                       then (Done, s3\<lparr>dc_consumed := n\<rparr>) else (InvalidData, s3)
                     else decode_loop rd n f (s3\<lparr>dc_vals := [], dc_pad := 0\<rparr>)
               else decode_loop rd n f s2)" if "rd (dc_dst s) (dc_si s) = src ! dc_si s" for rd
        using that by (subst decode_loop.simps) (simp only: lt False Let_def if_True if_False)
      show ?thesis unfolding unf [of "\<lambda>dst i. dst ! i", OF r] unf [of "\<lambda>_ i. src ! i", OF refl]
      proof (cases "decode_symbol f (kDecTable ! unat (src ! dc_si s)) ?s1")
        case (Inr s2)
        have fr: "dc_dst s2 = dc_dst s" "dc_di s2 = dc_di s" "dc_si s2 = Suc (dc_si s)" "length (dc_vals s2) = Suc (length (dc_vals s))"
          using decode_symbol_frame [OF Inr] by simp_all
        have IH2: "decode_loop (\<lambda>dst i. dst ! i) n f s2 = decode_loop (\<lambda>_ i. src ! i) n f s2"
          by (rule less.hyps) (use less.prems lt fr in auto)
        have IH3: "decode_loop (\<lambda>dst i. dst ! i) n f (s3\<lparr>dc_vals := [], dc_pad := 0\<rparr>) =
            decode_loop (\<lambda>_ i. src ! i) n f (s3\<lparr>dc_vals := [], dc_pad := 0\<rparr>) \<and>
            (list_all (\<lambda>i. isWhitespace (dc_dst s3 ! i)) [dc_si s3..<n] = list_all (\<lambda>i. isWhitespace (src ! i)) [dc_si s3..<n])"
          if full: "length (dc_vals s2) = 4" and q: "decode_quantum s2 = Inr s3" for s3
        proof -
          note q3 = decode_quantum_frame [OF q]
          have same: "dc_dst s3 ! i = src ! i" if "dc_si s3 \<le> i" "i < n" for i
            using q3 that fr full less.prems by auto
          have "decode_loop (\<lambda>dst i. dst ! i) n f (s3\<lparr>dc_vals := [], dc_pad := 0\<rparr>) =
              decode_loop (\<lambda>_ i. src ! i) n f (s3\<lparr>dc_vals := [], dc_pad := 0\<rparr>)"
            by (rule less.hyps) (use less.prems lt fr full q3 same in auto)
          moreover have "list_all (\<lambda>i. isWhitespace (dc_dst s3 ! i)) [dc_si s3..<n] = list_all (\<lambda>i. isWhitespace (src ! i)) [dc_si s3..<n]"
            by (rule list.pred_cong) (use same in auto)
          ultimately show ?thesis by blast
        qed
        show "(case decode_symbol f (kDecTable ! unat (src ! dc_si s)) ?s1 of
             Inl status \<Rightarrow> decoder_fail status ?s1
           | Inr s2 \<Rightarrow>
               if length (dc_vals s2) = 4 then
                 case decode_quantum s2 of
                   Inl status \<Rightarrow> decoder_fail status s2
                 | Inr s3 \<Rightarrow>
                     if dc_pad s3 > 0 then
                       if list_all (\<lambda>r. isWhitespace (dc_dst s3 ! r)) [dc_si s3..<n]
                       then (Done, s3\<lparr>dc_consumed := n\<rparr>) else (InvalidData, s3)
                     else decode_loop (\<lambda>dst i. dst ! i) n f (s3\<lparr>dc_vals := [], dc_pad := 0\<rparr>)
               else decode_loop (\<lambda>dst i. dst ! i) n f s2) =
          (case decode_symbol f (kDecTable ! unat (src ! dc_si s)) ?s1 of
             Inl status \<Rightarrow> decoder_fail status ?s1
           | Inr s2 \<Rightarrow>
               if length (dc_vals s2) = 4 then
                 case decode_quantum s2 of
                   Inl status \<Rightarrow> decoder_fail status s2
                 | Inr s3 \<Rightarrow>
                     if dc_pad s3 > 0 then
                       if list_all (\<lambda>r. isWhitespace (src ! r)) [dc_si s3..<n]
                       then (Done, s3\<lparr>dc_consumed := n\<rparr>) else (InvalidData, s3)
                     else decode_loop (\<lambda>_ i. src ! i) n f (s3\<lparr>dc_vals := [], dc_pad := 0\<rparr>)
               else decode_loop (\<lambda>_ i. src ! i) n f s2)"
          unfolding Inr sum.case using IH2 IH3 by (cases "decode_quantum s2") simp_all
      qed simp
    qed
  qed
qed

section \<open>Properties\<close>

lemma room_for_text:
  assumes "symbols src = base64 bs"
  shows "length bs \<le> length src div 4 * 3"
proof -
  have "(length bs + 2) div 3 * 4 \<le> length src"
    using assms length_filter_le [of "\<lambda>c. \<not> isWhitespace c" src] by (metis base64_length symbols_eq)
  then have "(length bs + 2) div 3 \<le> length src div 4" by (simp add: less_eq_div_iff_mult_less_eq)
  moreover have "length bs \<le> (length bs + 2) div 3 * 3" by presburger
  ultimately show ?thesis by (meson le_trans mult_le_mono1)
qed

lemma decode_status:
  "fst (decodeCore src dst True) = Done \<longleftrightarrow> (\<exists>bs. symbols src = base64 bs \<and> length bs \<le> length dst)"
  using decode_sound [of src dst] decode_complete [of src _ dst]
  by (fastforce simp: decodes_def decoder_start_def split: if_splits)

lemma decode_vector:
  "case DecodeFromUtf8_vector src of
      Inr out \<Rightarrow> symbols src = base64 out
    | Inl e \<Rightarrow> e = FormatException \<and> (\<nexists>out. symbols src = base64 out)"
proof -
  let ?dst = "replicate (length src div 4 * 3) (0 :: bytecs)"
  have n: "nat (int (length src) div 4 * 3) = length src div 4 * 3" by (simp add: nat_mult_distrib nat_div_distrib)
  show ?thesis
  proof (cases "\<exists>bs. symbols src = base64 bs")
    case True
    then obtain bs where bs: "symbols src = base64 bs" by blast
    have "decodes (decoder_start ?dst) (length src) bs (decodeCore src ?dst True)" by (rule decode_complete [OF bs])
    then show ?thesis using room_for_text [OF bs] bs n
      by (cases "decodeCore src ?dst True")
        (simp add: DecodeFromUtf8_vector_def GetMaxDecodedFromUtf8Length_def DecodeFromUtf8_def decodes_def
          decoder_start_def write_at_def)
  next
    case False
    then have "fst (decodeCore src ?dst True) \<noteq> Done" using decode_status by blast
    then show ?thesis using False n
      by (cases "decodeCore src ?dst True")
        (simp add: DecodeFromUtf8_vector_def GetMaxDecodedFromUtf8Length_def DecodeFromUtf8_def)
  qed
qed

text \<open>
  Round trip: decoding the encoding of any bytes returns them, also when white space has been
  inserted anywhere in the text; the encoding itself contains none.
\<close>

theorem base64_roundtrip:
  assumes "int (length bs) \<le> kMaximumEncodeLength"
  shows "\<exists>text. EncodeToUtf8_vector bs = Inr text \<and> symbols text = text \<and>
    DecodeFromUtf8_vector text = Inr bs \<and>
    (\<forall>spaced. symbols spaced = text \<longrightarrow> DecodeFromUtf8_vector spaced = Inr bs)"
proof -
  have e: "EncodeToUtf8_vector bs = Inr (base64 bs)" using encode_vector [of bs] assms by simp
  have v: "DecodeFromUtf8_vector spaced = Inr bs" if "symbols spaced = base64 bs" for spaced
    using decode_vector [of spaced] that base64_inject by (auto split: sum.splits)
  show ?thesis using e v symbols_base64 [of bs] by auto
qed

text \<open>
  C38. The validator agrees with the decoder: \<^verbatim>\<open>IsValid\<close> accepts a text exactly if decoding it as a final
  block succeeds in some destination, and the length it reports is the number of bytes, so a destination of exactly
  this length suffices.
\<close>

theorem base64_validator_agrees:
  "case IsValid src of
     (True, n) \<Rightarrow> fst (DecodeFromUtf8 src (replicate n 0) True) = Done \<and>
       dc_written (snd (DecodeFromUtf8 src (replicate n 0) True)) = n
   | (False, n) \<Rightarrow> n = 0 \<and> (\<nexists>dst. fst (DecodeFromUtf8 src dst True) = Done)"
proof -
  define dst :: "bytecs list" where "dst = replicate (3 * length src) 0"
  have v: "IsValid src = (case decodeCore src dst True of (st, s') \<Rightarrow> if st = Done then (True, dc_written s') else (False, 0))"
    unfolding IsValid_def validateCore_def decodeCore_def decode_src_def [symmetric]
    by (rule validate_simulates) (simp_all add: decoder_start_def dst_def)
  show ?thesis
  proof (cases "\<exists>bs. symbols src = base64 bs")
    case True
    then obtain bs where bs: "symbols src = base64 bs" by blast
    have r: "length bs \<le> length dst" using room_for_text [OF bs] by (simp add: dst_def)
    have "decodes (decoder_start dst) (length src) bs (decodeCore src dst True)"
      "decodes (decoder_start (replicate (length bs) 0)) (length src) bs (decodeCore src (replicate (length bs) 0) True)"
      by (rule decode_complete [OF bs])+
    then show ?thesis using v r by (auto simp: decodes_def decoder_start_def DecodeFromUtf8_def split: prod.splits)
  next
    case False
    then have no: "fst (decodeCore src d True) \<noteq> Done" for d using decode_sound by blast
    then show ?thesis using v no [of dst] by (cases "decodeCore src dst True") (simp add: DecodeFromUtf8_def)
  qed
qed

text \<open>
  Decoding in place is decoding: although source and destination are one buffer, the status, the
  bytes consumed and written and the buffer afterwards are those of decoding a copy of the text into
  the buffer.
\<close>

theorem base64_decode_in_place:
  "DecodeFromUtf8InPlace buf = DecodeFromUtf8 buf buf True"
  unfolding DecodeFromUtf8InPlace_def DecodeFromUtf8_def decodeCore_def
  by (rule decode_in_place_loop) (simp_all add: decoder_start_def)

end
