(* ===== verification/Buf_Base64_Outcome.thy ===== *)
theory Buf_Base64_Outcome
  imports Buf_Base64_Decode
begin

text \<open>
  Every outcome of the Base64 decoder, for final and other blocks: what has been decoded, where the cursors
  stand and why it stopped.
\<close>

section \<open>Specification\<close>

definition is_base64_digit :: "bytecs \<Rightarrow> bool" where
  "is_base64_digit c \<longleftrightarrow> c \<in> b64_digit ` {..<64}"

text \<open>The first symbol at or behind the position \<open>q\<close>.\<close>

definition next_symbol :: "bytecs list \<Rightarrow> nat \<Rightarrow> nat" where
  "next_symbol src q = q + length (takeWhile (\<lambda>c. c \<in> {9, 10, 13, 32}) (drop q src))"

text \<open>
  The four symbols ahead cannot be decoded: in a final block they are not the encoding of one to three
  bytes, in another block one of them is no digit.
\<close>

definition bad_quantum :: "bool \<Rightarrow> bytecs list \<Rightarrow> bool" where
  "bad_quantum isFinalBlock syms \<longleftrightarrow>
     (if isFinalBlock then \<nexists>xs. length xs \<le> 3 \<and> base64 xs = syms else \<not> list_all is_base64_digit syms)"

text \<open>The position \<open>q\<close> is just behind a symbol, or at the start.\<close>

definition ends_quantum :: "bytecs list \<Rightarrow> bytecs list \<Rightarrow> nat \<Rightarrow> bool" where
  "ends_quantum src bs q \<longleftrightarrow> (if bs = [] then q = 0 else 0 < q \<and> src ! (q - 1) \<notin> {9, 10, 13, 32})"

text \<open>
  The text up to \<open>q\<close>, where a quantum ends, encodes \<open>bs\<close>; these bytes and no others have been written. The
  status says what follows there.
\<close>

definition decode_outcome :: "bytecs list \<Rightarrow> bytecs list \<Rightarrow> bool \<Rightarrow> OperationStatus \<times> decoder \<Rightarrow> bool" where
  "decode_outcome src dst isFinalBlock r \<longleftrightarrow>
     (\<exists>bs q. q \<le> length src \<and> symbols (take q src) = base64 bs \<and>
        ends_quantum src bs q \<and>
        (isFinalBlock \<or> 3 dvd length bs) \<and> length bs \<le> length dst \<and>
        dc_dst (snd r) = bs @ drop (length bs) dst \<and> dc_written (snd r) = length bs \<and>
        (let ahead = symbols (drop q src); consumed = dc_consumed (snd r)
         in case fst r of
              Done \<Rightarrow> ahead = [] \<and> consumed = length src
            | NeedMoreData \<Rightarrow>
                \<not> isFinalBlock \<and> ahead \<noteq> [] \<and> length ahead < 4 \<and> list_all is_base64_digit ahead \<and> consumed = q
            | DestinationTooSmall \<Rightarrow>
                3 dvd length bs \<and> consumed = next_symbol src q \<and>
                (\<exists>xs. xs \<noteq> [] \<and> length xs \<le> 3 \<and> (isFinalBlock \<or> length xs = 3) \<and> base64 xs = take 4 ahead \<and>
                   length dst < length bs + length xs)
            | InvalidData \<Rightarrow>
                ahead \<noteq> [] \<and>
                (if 3 dvd length bs then bad_quantum isFinalBlock (take 4 ahead) \<and> consumed = next_symbol src q
                 else consumed = q)))"

section \<open>The loop for either kind of block\<close>

definition decode_at :: "bool \<Rightarrow> bytecs list \<Rightarrow> decoder \<Rightarrow> OperationStatus \<times> decoder" where
  "decode_at f src s = decode_loop (\<lambda>_ i. src ! i) (length src) f s"

lemma decode_at_end:
  "length src \<le> dc_si s \<Longrightarrow> decode_at f src s =
    (if dc_vals s \<noteq> [] then if f then decoder_fail InvalidData s else (NeedMoreData, s)
     else (Done, s\<lparr>dc_consumed := dc_si s, dc_written := dc_di s\<rparr>))"
  by (simp add: decode_at_def decode_loop.simps [of _ _ _ s])

lemma decode_at_space:
  "dc_si s < length src \<Longrightarrow> isWhitespace (src ! dc_si s) \<Longrightarrow>
   decode_at f src s = decode_at f src (s\<lparr>dc_si := Suc (dc_si s)\<rparr>)"
  by (simp add: decode_at_def decode_loop.simps [of _ _ _ s])

lemma decode_at_symbol:
  assumes "dc_si s < length src" and "\<not> isWhitespace (src ! dc_si s)"
  shows "decode_at f src s =
    (case decode_symbol f (sym_val (src ! dc_si s)) (decode_enter src s) of
       Inl status \<Rightarrow> decoder_fail status (decode_enter src s)
     | Inr s2 \<Rightarrow>
         if length (dc_vals s2) = 4 then
           case decode_quantum s2 of
             Inl status \<Rightarrow> decoder_fail status s2
           | Inr s3 \<Rightarrow>
               if dc_pad s3 > 0 then
                 if symbols (drop (dc_si s3) src) = []
                 then (Done, s3\<lparr>dc_consumed := length src\<rparr>) else (InvalidData, s3)
               else decode_at f src (s3\<lparr>dc_vals := [], dc_pad := 0\<rparr>)
         else decode_at f src s2)"
  unfolding decode_at_def decode_enter_def sym_val_def trailing_whitespace [symmetric]
  by (subst decode_loop.simps) (simp only: assms Let_def if_True if_False)

section \<open>Quanta and their texts\<close>

text \<open>The values and the padding of a quantum are those of its text.\<close>

lemma quantum_of_text:
  assumes "quantum_ok ds k"
  shows "quantum_vals ds k = map (\<lambda>c. if c = pad_char then 0 else sym_val c) (quantum_text ds k)"
    and "k = length (filter (\<lambda>c. c = pad_char) (quantum_text ds k))"
proof -
  have d: "\<forall>d\<in>set ds. d < 64" using assms by (simp add: quantum_ok_def list_all_iff)
  then show "quantum_vals ds k = map (\<lambda>c. if c = pad_char then 0 else sym_val c) (quantum_text ds k)"
    by (auto simp: quantum_vals_def quantum_text_def symbol_digit)
  have "filter (\<lambda>c. c = pad_char) (map b64_digit ds) = []"
    using d symbol_digit(3) by (auto simp: filter_empty_conv)
  then show "k = length (filter (\<lambda>c. c = pad_char) (quantum_text ds k))" by (simp add: quantum_text_def)
qed

lemma quantum_text_inject:
  assumes "quantum_ok ds k" "quantum_ok es j" "quantum_text ds k = quantum_text es j"
  shows "ds = es \<and> k = j"
proof -
  have k: "k = j" using quantum_of_text(2) [OF assms(1)] quantum_of_text(2) [OF assms(2)] assms(3) by simp
  have "quantum_vals ds k = quantum_vals es j"
    using quantum_of_text(1) [OF assms(1)] quantum_of_text(1) [OF assms(2)] assms(3) by simp
  with k show ?thesis by (simp add: quantum_vals_def)
qed

text \<open>One to three bytes are one quantum.\<close>

lemma base64_one_quantum:
  assumes "length xs \<le> 3" and "xs \<noteq> []"
  obtains es j where "quantum_ok es j" "length es + j = 4" "canonical es j" "base64 xs = quantum_text es j"
proof -
  obtain es j r where q: "quantum_ok es j" "length es + j = 4" "canonical es j" "xs = quantum_bytes es j @ r"
    "base64 xs = quantum_text es j @ base64 r" "0 < j \<longrightarrow> r = []"
    by (rule base64_first_quantum [OF assms(2)])
  have "r = []"
  proof (cases "0 < j")
    case False
    then have "length (quantum_bytes es j) = 3" using quantum_bytes_length [OF q(1,2)] by simp
    then show ?thesis using assms(1) q(4) by simp
  qed (use q(6) in simp)
  then show thesis using that q by simp
qed

text \<open>A symbol that the decoder rejects in a final block does not continue an encoding.\<close>

lemma rejected_symbol:
  assumes ok: "quantum_ok ds k" "length ds + k < 4"
    and s: "dc_vals s = quantum_vals ds k" "dc_pad s = k"
    and r: "decode_symbol True (sym_val c) s = Inl InvalidData"
  shows "bad_quantum True (quantum_text ds k @ c # rest)"
  unfolding bad_quantum_def if_True
proof
  assume "\<exists>xs. length xs \<le> 3 \<and> base64 xs = quantum_text ds k @ c # rest"
  then obtain xs where xs: "length xs \<le> 3" "base64 xs = quantum_text ds k @ c # rest" by blast
  then have "xs \<noteq> []" by auto
  then obtain es j where es: "quantum_ok es j" "length es + j = 4" "base64 xs = quantum_text es j"
    using base64_one_quantum [OF xs(1)] by metis
  let ?i = "length ds + k"
  have lt: "length (quantum_text ds k) = ?i" by (simp add: quantum_text_def)
  have ij: "?i - length es \<le> j" using es(2) ok(2) by linarith
  have t: "quantum_text es j = quantum_text ds k @ c # rest" using es(3) xs(2) by simp
  have ti: "take ?i (quantum_text es j) = quantum_text ds k" "quantum_text es j ! ?i = c"
    by (simp_all add: t lt nth_append)
  have "k = length (filter (\<lambda>c. c = pad_char) (take ?i (quantum_text es j)))"
    using quantum_of_text(2) [OF ok(1)] ti(1) by simp
  also have "filter (\<lambda>c. c = pad_char) (map b64_digit (take ?i es)) = []"
    using es(1) symbol_digit(3) by (auto simp: filter_empty_conv quantum_ok_def list_all_iff dest: in_set_takeD)
  then have "length (filter (\<lambda>c. c = pad_char) (take ?i (quantum_text es j))) = ?i - length es"
    using ij by (simp add: quantum_text_def take_map min_absorb1)
  finally have k: "k = ?i - length es" .
  have "take ?i (quantum_vals es j) = quantum_vals ds k"
    unfolding quantum_of_text(1) [OF es(1)] quantum_of_text(1) [OF ok(1)] ti(1) [symmetric] by (simp only: take_map)
  then have "decode_symbol True (sym_val c) s \<noteq> Inl InvalidData"
    using decode_symbol_next [OF es(1,2) ok(2), of s] s k ti(2) by simp
  with r show False by simp
qed

lemma noncanonical_quantum:
  assumes ok: "quantum_ok ds k" "length ds + k = 4" and c: "\<not> canonical ds k"
  shows "bad_quantum True (quantum_text ds k)"
  unfolding bad_quantum_def if_True
proof
  assume "\<exists>xs. length xs \<le> 3 \<and> base64 xs = quantum_text ds k"
  then obtain xs where xs: "length xs \<le> 3" "base64 xs = quantum_text ds k" by blast
  then have "xs \<noteq> []" using ok(2) by (auto simp: quantum_text_def)
  then obtain es j where es: "quantum_ok es j" "canonical es j" "base64 xs = quantum_text es j"
    using base64_one_quantum [OF xs(1)] by metis
  then show False using quantum_text_inject [OF ok(1) es(1)] xs(2) c by simp
qed

lemma decode_quantum_noncanonical:
  assumes "length ds + k = 4" "dc_vals s = quantum_vals ds k" "dc_pad s = k" "\<not> canonical ds k"
  shows "decode_quantum s = Inl InvalidData"
proof -
  from assms(4) consider "k = 1" "ds ! 2 mod 4 \<noteq> 0" | "k = 2" "ds ! 1 mod 16 \<noteq> 0" by (auto simp: canonical_def)
  then show ?thesis
  proof cases
    case 1
    then have "dc_vals s ! 2 = int (ds ! 2)" using assms(1,2) by (simp add: quantum_vals_def nth_append)
    then show ?thesis using 1 assms(3) by (simp add: decode_quantum_def int_and_low)
  next
    case 2
    then have "dc_vals s ! 1 = int (ds ! 1)" using assms(1,2) by (simp add: quantum_vals_def nth_append)
    then show ?thesis using 2 assms(3) by (simp add: decode_quantum_def int_and_low)
  qed
qed

lemma digit_is_digit: "d < 64 \<Longrightarrow> is_base64_digit (b64_digit d)"
  by (auto simp: is_base64_digit_def)

lemma pad_not_digit: "\<not> is_base64_digit pad_char"
  using symbol_digit(3) by (fastforce simp: is_base64_digit_def)

lemma bad_not_digit: "sym_val c = - 1 \<Longrightarrow> \<not> is_base64_digit c"
  using symbol_digit(1) by (fastforce simp: is_base64_digit_def)

text \<open>A symbol continues the quantum, or none that begins like this can be decoded.\<close>

lemma decode_symbol_outcome:
  assumes ok: "quantum_ok ds k" "length ds + k < 4" "f \<or> k = 0"
    and s: "dc_vals s = quantum_vals ds k" "dc_pad s = k"
  shows "(\<exists>ds' k'. quantum_ok ds' k' \<and> length ds' + k' = Suc (length ds + k) \<and> (f \<or> k' = 0) \<and>
      quantum_text ds' k' = quantum_text ds k @ [c] \<and>
      decode_symbol f (sym_val c) (decode_enter src s) =
        Inr ((decode_enter src s)\<lparr>dc_vals := quantum_vals ds' k', dc_pad := k'\<rparr>)) \<or>
    decode_symbol f (sym_val c) (decode_enter src s) = Inl InvalidData \<and>
      (\<forall>rest. bad_quantum f (quantum_text ds k @ c # rest))"
proof (cases f)
  case True
  have e: "dc_vals (decode_enter src s) = quantum_vals ds k" "dc_pad (decode_enter src s) = k"
    using s by (simp_all add: decode_enter_def)
  have f: "f = True" using True by simp
  show ?thesis unfolding f
    using decode_symbol_accepts [OF ok(1,2) s, of c src] rejected_symbol [OF ok(1,2) e, of c] by blast
next
  case False
  then have k: "k = 0" using ok(3) by simp
  show ?thesis
  proof (cases c rule: symbol_cases)
    case (digit d)
    then show ?thesis using ok s k
      by (intro disjI1 exI [of _ "ds @ [d]"] exI [of _ 0])
        (auto simp: quantum_ok_def quantum_text_def quantum_vals_def decode_symbol_def symbol_digit decode_enter_def)
  next
    case pad
    then show ?thesis using False pad_not_digit by (simp add: decode_symbol_def symbol_pad bad_quantum_def)
  next
    case bad
    then show ?thesis using False bad_not_digit by (simp add: decode_symbol_def bad_quantum_def)
  qed
qed

section \<open>The invariant of the loop\<close>

lemma symbols_append: "symbols (xs @ ys) = symbols xs @ symbols ys"
  by (simp add: symbols_def)

lemma symbols_take_drop: "symbols (take n xs) @ symbols (drop n xs) = symbols xs"
  by (simp flip: symbols_append)

text \<open>
  \<open>bs\<close> has been decoded from the text up to \<open>q\<close>, and \<open>ds\<close> with \<open>k\<close> padding symbols is the pending quantum.
\<close>

definition decoding :: "bool \<Rightarrow> bytecs list \<Rightarrow> bytecs list \<Rightarrow> bytecs list \<Rightarrow> nat \<Rightarrow> nat list \<Rightarrow> nat \<Rightarrow> decoder \<Rightarrow> bool" where
  "decoding f src dst bs q ds k s \<longleftrightarrow>
     q \<le> dc_si s \<and> dc_si s \<le> length src \<and> symbols (take q src) = base64 bs \<and>
     ends_quantum src bs q \<and> 3 dvd length bs \<and> length bs \<le> length dst \<and>
     dc_dst s = bs @ drop (length bs) dst \<and> dc_di s = length bs \<and> dc_written s = length bs \<and> dc_consumed s = q \<and>
     quantum_ok ds k \<and> length ds + k < 4 \<and> (f \<or> k = 0) \<and> dc_vals s = quantum_vals ds k \<and> dc_pad s = k \<and>
     symbols (drop q src) = quantum_text ds k @ symbols (drop (dc_si s) src) \<and>
     (dc_vals s \<noteq> [] \<longrightarrow> dc_fail s = next_symbol src q)"

lemma first_symbol:
  assumes "q \<le> i" "i < length src" "\<not> isWhitespace (src ! i)" "symbols (drop q src) = symbols (drop i src)"
  shows "next_symbol src q = i"
proof -
  let ?m = "take (i - q) (drop q src)"
  have d: "drop q src = ?m @ drop i src" using assms(1) by (metis append_take_drop_id drop_drop le_add_diff_inverse2)
  have "symbols ?m = []" using arg_cong [OF d, of symbols] assms(4) by (simp add: symbols_append)
  then have "\<forall>c\<in>set ?m. c \<in> {9, 10, 13, 32}" unfolding symbols_def filter_empty_conv by blast
  moreover have "src ! i \<notin> {9, 10, 13, 32}" using assms(3) by (auto simp: isWhitespace_def)
  ultimately have "takeWhile (\<lambda>c. c \<in> {9, 10, 13, 32}) (?m @ src ! i # drop (Suc i) src) = ?m"
    by (simp only: takeWhile_append2 takeWhile.simps if_False append_Nil2)
  then have "takeWhile (\<lambda>c. c \<in> {9, 10, 13, 32}) (drop q src) = ?m"
    using d assms(2) by (simp add: Cons_nth_drop_Suc)
  then show ?thesis using assms(1,2) by (simp add: next_symbol_def)
qed

lemma decoding_space:
  "decoding f src dst bs q ds k s \<Longrightarrow> dc_si s < length src \<Longrightarrow> isWhitespace (src ! dc_si s) \<Longrightarrow>
   decoding f src dst bs q ds k (s\<lparr>dc_si := Suc (dc_si s)\<rparr>)"
  using symbols_drop [of "dc_si s" src] by (simp add: decoding_def)

lemma decoding_enter:
  assumes "decoding f src dst bs q ds k s" "dc_si s < length src" "\<not> isWhitespace (src ! dc_si s)"
  shows "dc_fail (decode_enter src s) = next_symbol src q"
    and "symbols (drop q src) = quantum_text ds k @ src ! dc_si s # symbols (drop (Suc (dc_si s)) src)"
proof -
  show "symbols (drop q src) = quantum_text ds k @ src ! dc_si s # symbols (drop (Suc (dc_si s)) src)"
    using assms symbols_drop [OF assms(2)] by (simp add: decoding_def)
  show "dc_fail (decode_enter src s) = next_symbol src q"
  proof (cases "dc_vals s = []")
    case True
    then have "quantum_text ds k = []" using assms(1) by (simp add: decoding_def quantum_vals_def quantum_text_def)
    then have "next_symbol src q = dc_si s" using assms by (intro first_symbol) (simp_all add: decoding_def)
    with True show ?thesis by (simp add: decode_enter_def)
  qed (use assms(1) in \<open>simp add: decoding_def decode_enter_def\<close>)
qed

lemma decoding_symbol:
  assumes "decoding f src dst bs q ds k s" "dc_si s < length src" "\<not> isWhitespace (src ! dc_si s)"
    and "quantum_ok ds' k'" "length ds' + k' < 4" "f \<or> k' = 0" "quantum_text ds' k' = quantum_text ds k @ [src ! dc_si s]"
  shows "decoding f src dst bs q ds' k' ((decode_enter src s)\<lparr>dc_vals := quantum_vals ds' k', dc_pad := k'\<rparr>)"
  using assms(1,2,4-7) decoding_enter [OF assms(1-3)]
  by (simp add: decoding_def) (simp add: decode_enter_def)

lemma outcome_fail:
  assumes "decoding f src dst bs q ds k s" and "symbols (drop q src) \<noteq> []"
    and "bad_quantum f (take 4 (symbols (drop q src)))"
    and "dc_dst t = dc_dst s" "dc_written t = dc_written s" "dc_fail t = next_symbol src q"
  shows "decode_outcome src dst f (decoder_fail InvalidData t)"
  unfolding decode_outcome_def
  by (rule exI [of _ bs], rule exI [of _ q]) (use assms in \<open>simp add: decoding_def decoder_fail_def\<close>)

lemma decoding_end:
  assumes "decoding f src dst bs q ds k s" "dc_si s = length src"
  shows "decode_outcome src dst f (decode_at f src s)"
proof (cases "dc_vals s = []")
  case True
  then show ?thesis unfolding decode_outcome_def decode_at_end [OF eq_refl [OF assms(2) [symmetric]]]
    by (intro exI [of _ bs] exI [of _ q])
      (use assms in \<open>simp add: decoding_def quantum_vals_def quantum_text_def symbols_def\<close>)
next
  case False
  then have a: "symbols (drop q src) = quantum_text ds k" "quantum_text ds k \<noteq> []" "length (quantum_text ds k) < 4"
    using assms by (simp_all add: decoding_def symbols_def quantum_text_def quantum_vals_def)
  show ?thesis
  proof (cases f)
    case True
    have "bad_quantum f (take 4 (symbols (drop q src)))"
      unfolding bad_quantum_def if_P [OF True]
    proof
      assume "\<exists>xs. length xs \<le> 3 \<and> base64 xs = take 4 (symbols (drop q src))"
      then obtain xs where "base64 xs = quantum_text ds k" using a by auto
      then have "length (quantum_text ds k) = (length xs + 2) div 3 * 4" using base64_length by metis
      then show False using a(2,3) by (cases "(length xs + 2) div 3") auto
    qed
    then show ?thesis
      using outcome_fail [OF assms(1) _ _ refl refl] a assms True False
      by (simp add: decode_at_end decoding_def)
  next
    case nf: False
    have "list_all is_base64_digit (quantum_text ds k)"
      using assms(1) nf by (auto simp: decoding_def quantum_text_def quantum_ok_def list_all_iff digit_is_digit)
    then show ?thesis unfolding decode_outcome_def decode_at_end [OF eq_refl [OF assms(2) [symmetric]]]
      by (intro exI [of _ bs] exI [of _ q]) (use assms a nf False in \<open>simp add: decoding_def\<close>)
  qed
qed

text \<open>A completed quantum is decoded, or does not fit, or is not canonical.\<close>

lemma decoding_commit:
  assumes d: "decoding f src dst bs q ds k s" and i: "dc_si s < length src" "\<not> isWhitespace (src ! dc_si s)"
    and c: "quantum_ok es j" "length es + j = 4" "canonical es j" "quantum_text es j = quantum_text ds k @ [src ! dc_si s]"
  defines "bs' \<equiv> bs @ quantum_bytes es j"
  assumes room: "length bs' \<le> length dst"
  shows "symbols (take (Suc (dc_si s)) src) = base64 bs'" and "ends_quantum src bs' (Suc (dc_si s))"
    and "write_at (dc_dst s) (dc_di s) (quantum_bytes es j) = bs' @ drop (length bs') dst"
proof -
  have b: "3 dvd length bs" "symbols (take q src) = base64 bs" "dc_dst s = bs @ drop (length bs) dst" "dc_di s = length bs"
    using d by (simp_all add: decoding_def)
  obtain m where m: "length bs = 3 * m" using b(1) by (auto elim: dvdE)
  have e: "base64 bs' = base64 bs @ quantum_text es j"
    using base64_append [OF m, of "quantum_bytes es j"] base64_quantum_bytes [OF c(1-3)] by (simp add: bs'_def)
  have "symbols (take (Suc (dc_si s)) src) @ symbols (drop (Suc (dc_si s)) src) =
      symbols (take q src) @ symbols (drop q src)"
    by (simp only: symbols_take_drop)
  also have "\<dots> = base64 bs' @ symbols (drop (Suc (dc_si s)) src)"
    using decoding_enter(2) [OF d i] b(2) c(4) e by simp
  finally show "symbols (take (Suc (dc_si s)) src) = base64 bs'" by simp
  have "bs' \<noteq> []" using quantum_bytes_length [OF c(1,2)] by (auto simp: bs'_def)
  then show "ends_quantum src bs' (Suc (dc_si s))" using i(2) by (auto simp: ends_quantum_def isWhitespace_def)
  show "write_at (dc_dst s) (dc_di s) (quantum_bytes es j) = bs' @ drop (length bs') dst"
    using room by (simp add: write_at_def b bs'_def add.commute)
qed

lemma decoding_full:
  assumes d: "decoding f src dst bs q ds k s" and lt: "dc_si s < length src" and ns: "\<not> isWhitespace (src ! dc_si s)"
    and q: "quantum_ok es j" "f \<or> j = 0" "quantum_text es j = quantum_text ds k @ [src ! dc_si s]"
    and full: "length es + j = 4"
    and r: "decode_symbol f (sym_val (src ! dc_si s)) (decode_enter src s) =
      Inr ((decode_enter src s)\<lparr>dc_vals := quantum_vals es j, dc_pad := j\<rparr>)"
    and IH: "\<And>bs' s'. decoding f src dst bs' (Suc (dc_si s)) [] 0 s' \<Longrightarrow> dc_si s' = Suc (dc_si s) \<Longrightarrow>
      decode_outcome src dst f (decode_at f src s')"
  shows "decode_outcome src dst f (decode_at f src s)"
proof -
  let ?s2 = "(decode_enter src s)\<lparr>dc_vals := quantum_vals es j, dc_pad := j\<rparr>"
  have l2: "length (dc_vals ?s2) = length es + j" by (simp add: quantum_vals_def)
  note step = decode_at_symbol [OF lt ns, of f, unfolded r sum.case l2]
  note en = decoding_enter [OF d lt ns]
  have ne: "symbols (drop q src) \<noteq> []" using en(2) by simp
  have ed: "dc_dst (decode_enter src s) = dc_dst s" "dc_written (decode_enter src s) = dc_written s"
    "dc_di (decode_enter src s) = length bs" "dc_si (decode_enter src s) = Suc (dc_si s)"
    using d by (simp_all add: decode_enter_def decoding_def)
  have "length (quantum_text es j) = 4" using full by (simp add: quantum_text_def)
  then have at: "take 4 (symbols (drop q src)) = quantum_text es j" using en(2) q(3) by simp
  show ?thesis
  proof (cases "canonical es j")
    case False
    then have f: "f" using q(2) by (auto simp: canonical_def)
    have "decode_quantum ?s2 = Inl InvalidData"
      by (rule decode_quantum_noncanonical [OF full _ _ False]) simp_all
    then have "decode_at f src s = decoder_fail InvalidData ?s2" using step full by simp
    moreover have "bad_quantum f (take 4 (symbols (drop q src)))"
      unfolding at using noncanonical_quantum [OF q(1) full False] f by simp
    ultimately show ?thesis using outcome_fail [OF d ne, of ?s2] ed en(1) by simp
  next
    case c: True
    let ?b = "quantum_bytes es j"
    have lb: "length ?b = 3 - j" "j \<le> 2" using quantum_bytes_length [OF q(1) full] by simp_all
    have dl: "dc_di ?s2 \<le> length (dc_dst ?s2)" "length (dc_dst ?s2) = length dst"
      using d ed by (simp_all add: decoding_def)
    note dq = decode_quantum_complete [OF q(1) full c _ _ dl(1), simplified, unfolded ed]
    show ?thesis
    proof (cases "length bs + length ?b \<le> length dst")
      case False
      then have "decode_at f src s = decoder_fail DestinationTooSmall ?s2"
        using step full dq dl(2) ed by simp
      moreover have "base64 ?b = take 4 (symbols (drop q src))"
        unfolding at by (rule base64_quantum_bytes [OF q(1) full c])
      ultimately show ?thesis unfolding decode_outcome_def
        using d ed en(1) False lb q(2)
        by (intro exI [of _ bs] exI [of _ q]) (auto simp: decoding_def decoder_fail_def intro!: exI [of _ ?b])
    next
      case room: True
      define bs' where "bs' = bs @ ?b"
      have rb: "length bs' \<le> length dst" using room by (simp add: bs'_def)
      note co = decoding_commit [OF d lt ns q(1) full c q(3), folded bs'_def, OF rb]
      define s3 where "s3 = ?s2\<lparr>dc_dst := bs' @ drop (length bs') dst, dc_di := length bs',
        dc_consumed := Suc (dc_si s), dc_written := length bs'\<rparr>"
      have w: "write_at (dc_dst s) (length bs) ?b = bs' @ drop (length bs') dst"
        using co(3) d by (simp add: decoding_def)
      have s3: "decode_quantum ?s2 = Inr s3"
        using dq room dl(2) ed w by (simp add: s3_def bs'_def)
      have f3: "dc_pad s3 = j" "dc_si s3 = Suc (dc_si s)" by (simp_all add: s3_def ed)
      note step3 = step [unfolded if_P [OF full] s3 sum.case f3]
      show ?thesis
      proof (cases "j = 0")
        case True
        let ?s4 = "s3\<lparr>dc_vals := [], dc_pad := 0\<rparr>"
        have "3 dvd length bs'" using d lb True by (simp add: bs'_def decoding_def)
        then have "decoding f src dst bs' (Suc (dc_si s)) [] 0 ?s4"
          using co(1,2) rb lt ed
          by (simp add: decoding_def s3_def quantum_ok_def quantum_vals_def quantum_text_def)
        then have "decode_outcome src dst f (decode_at f src ?s4)"
          by (rule IH) (use f3 in simp)
        with True step3 show ?thesis by simp
      next
        case False
        then have f: f using q(2) by simp
        have "3 dvd length bs" using d by (simp add: decoding_def)
        moreover have "length ?b = 1 \<or> length ?b = 2" using lb False by auto
        ultimately have "\<not> 3 dvd length bs + length ?b" by presburger
        then have "\<not> 3 dvd length bs'" by (simp add: bs'_def)
        then show ?thesis unfolding decode_outcome_def step3
          using co(1,2) rb lt f False
          by (intro exI [of _ bs'] exI [of _ "Suc (dc_si s)"]) (simp add: s3_def)
      qed
    qed
  qed
qed

lemma decoding_outcome:
  "decoding f src dst bs q ds k s \<Longrightarrow> decode_outcome src dst f (decode_at f src s)"
proof (induction "length src - dc_si s" arbitrary: s bs q ds k rule: less_induct)
  case less
  note d = less.prems
  show ?case
  proof (cases "dc_si s < length src")
    case False
    then show ?thesis using decoding_end [OF d] d by (simp add: decoding_def)
  next
    case lt: True
    show ?thesis
    proof (cases "isWhitespace (src ! dc_si s)")
      case True
      show ?thesis unfolding decode_at_space [OF lt True]
        by (rule less.hyps [OF _ decoding_space [OF d lt True]]) (use lt in simp)
    next
      case ns: False
      note en = decoding_enter [OF d lt ns]
      have ne: "symbols (drop q src) \<noteq> []" using en(2) by simp
      have ed: "dc_dst (decode_enter src s) = dc_dst s" "dc_written (decode_enter src s) = dc_written s"
        "dc_di (decode_enter src s) = length bs" "dc_si (decode_enter src s) = Suc (dc_si s)"
        using d by (simp_all add: decode_enter_def decoding_def)
      have ok: "quantum_ok ds k" "length ds + k < 4" "f \<or> k = 0" "dc_vals s = quantum_vals ds k" "dc_pad s = k"
        using d by (simp_all add: decoding_def)
      let ?rest = "symbols (drop (Suc (dc_si s)) src)"
      have ah: "take 4 (symbols (drop q src)) =
          quantum_text ds k @ src ! dc_si s # take (3 - (length ds + k)) ?rest"
        using ok(2) by (simp add: en(2) quantum_text_def take_Cons' Suc_diff_le)
      consider (reject) "decode_symbol f (sym_val (src ! dc_si s)) (decode_enter src s) = Inl InvalidData"
          "\<forall>rest. bad_quantum f (quantum_text ds k @ src ! dc_si s # rest)"
        | (accept) es j where "quantum_ok es j" "length es + j = Suc (length ds + k)" "f \<or> j = 0"
          "quantum_text es j = quantum_text ds k @ [src ! dc_si s]"
          "decode_symbol f (sym_val (src ! dc_si s)) (decode_enter src s) =
            Inr ((decode_enter src s)\<lparr>dc_vals := quantum_vals es j, dc_pad := j\<rparr>)"
        using decode_symbol_outcome [OF ok, of "src ! dc_si s" src] by blast
      then show ?thesis
      proof cases
        case reject
        show ?thesis unfolding decode_at_symbol [OF lt ns] reject(1) sum.case
          by (rule outcome_fail [OF d ne _ ed(1,2) en(1)]) (simp only: ah reject(2))
      next
        case (accept es j)
        note q = accept(1-4) and r = accept(5)
        let ?s2 = "(decode_enter src s)\<lparr>dc_vals := quantum_vals es j, dc_pad := j\<rparr>"
        have l2: "length (dc_vals ?s2) = length es + j" by (simp add: quantum_vals_def)
        note step = decode_at_symbol [OF lt ns, of f, unfolded r sum.case l2]
        show ?thesis
        proof (cases "length es + j = 4")
          case False
          then have "decoding f src dst bs q es j ?s2" using q ok(2) by (intro decoding_symbol [OF d lt ns]) simp_all
          then have "decode_outcome src dst f (decode_at f src ?s2)" by (rule less.hyps [rotated]) (use lt ed in simp)
          with False step show ?thesis by simp
        next
          case full: True
          show ?thesis
            by (rule decoding_full [OF d lt ns q(1,3,4) full r]) (rule less.hyps, use lt in simp_all)
        qed
      qed
    qed
  qed
qed

lemma decodeCore_outcome: "decode_outcome src dst f (decodeCore src dst f)"
proof -
  have "decoding f src dst [] 0 [] 0 (decoder_start dst)"
    by (simp add: decoding_def decoder_start_def quantum_ok_def quantum_vals_def quantum_text_def ends_quantum_def symbols_def)
  then show ?thesis unfolding decodeCore_def decode_at_def [symmetric] by (rule decoding_outcome)
qed

section \<open>Properties\<close>

text \<open>
  C37. The decoder, for every text, destination and kind of block. It decodes quantum by quantum: the text up to
  some position is the RFC 4648 encoding, with white space anywhere, of the bytes that stand at the front of
  the destination, the rest of the destination is untouched, and \<^verbatim>\<open>written\<close> counts these bytes. \<^verbatim>\<open>Done\<close>: nothing but white space
  follows, and everything is consumed. \<^verbatim>\<open>NeedMoreData\<close>: the block is not final and one to three digits follow;
  the cursor stays where the last quantum ended. \<^verbatim>\<open>DestinationTooSmall\<close>: the next four symbols encode bytes that do not fit.
  \<^verbatim>\<open>InvalidData\<close>: the next symbols are no quantum (too few, a stray symbol, misplaced or early padding, trailing bits
  that are not zero, in a block that is not final any padding), or something follows a padded quantum; in
  these cases the cursor is at the first symbol of the quantum that failed, behind a padded quantum in the last.
  For a final block \<^verbatim>\<open>Done\<close> comes exactly if the whole text encodes bytes that fit. The allocating overload
  returns the bytes or throws \<^verbatim>\<open>FormatException\<close>.
\<close>

theorem base64_decode:
  "decode_outcome src dst isFinalBlock (DecodeFromUtf8 src dst isFinalBlock) \<and>
   (fst (DecodeFromUtf8 src dst True) = Done \<longleftrightarrow> (\<exists>bs. symbols src = base64 bs \<and> length bs \<le> length dst)) \<and>
   (case DecodeFromUtf8_vector src of
      Inr out \<Rightarrow> symbols src = base64 out
    | Inl e \<Rightarrow> e = FormatException \<and> (\<nexists>out. symbols src = base64 out))"
  using decodeCore_outcome decode_status decode_vector by (simp add: DecodeFromUtf8_def)

text \<open>
  Padding in a block that is not final, and white space before a quantum that fails: the cursor behind the
  first quantum, on the \<^verbatim>\<open>Q\<close> of the second and behind a padded quantum.
\<close>

lemma decode_cursors:
  "let r = DecodeFromUtf8 [81, 81, 61, 61] [0, 0, 0] False in (fst r, dc_consumed (snd r), dc_written (snd r)) = (InvalidData, 0, 0)"
  "let r = DecodeFromUtf8 [81, 85, 74, 68, 32, 81, 33] [0, 0, 0] True in (fst r, dc_consumed (snd r), dc_written (snd r)) = (InvalidData, 5, 3)"
  "let r = DecodeFromUtf8 [81, 81, 61, 61, 81] [0, 0, 0] True in (fst r, dc_consumed (snd r), dc_written (snd r)) = (InvalidData, 4, 1)"
  "let r = DecodeFromUtf8 [81, 85, 74, 68, 32, 81] [0, 0, 0] False in (fst r, dc_consumed (snd r), dc_written (snd r)) = (NeedMoreData, 4, 3)"
  by code_simp+

end
