(* ===== verification/Buf_Binary.thy ===== *)
theory Buf_Binary
  imports SR_Prelude
begin

unbundle bit_operations_syntax

text \<open>
  \<^verbatim>\<open>System/Buffers/Binary/BinaryPrimitives.hpp\<close>: reading and writing 16, 32, 64 and 128 bit values, signed and
  unsigned, and floating-point patterns, in either byte order. The byte order of the host is the argument \<open>be\<close> of
  every operation (big-endian or not): the source selects it at compile time, and the results
  must not depend on it.
\<close>

section \<open>Model\<close>

text \<open>
  \<^verbatim>\<open>std::memcpy\<close> between an object of \<open>n\<close> bytes and a byte span. A \<^verbatim>\<open>float\<close> or \<^verbatim>\<open>double\<close> is its bit pattern, which is all
  this class touches; a signed value is an \<open>int\<close>, its object representation two's complement.
\<close>

definition le_bytes :: "nat \<Rightarrow> nat \<Rightarrow> bytecs list" where
  "le_bytes n v = map (\<lambda>i. of_nat (v div 256 ^ i mod 256)) [0..<n]"

definition memcpy_from :: "bool \<Rightarrow> nat \<Rightarrow> bytecs list \<Rightarrow> 'a::len word" where
  "memcpy_from be n source = of_nat (le_value (if be then rev (take n source) else take n source))"

definition memcpy_to :: "bool \<Rightarrow> nat \<Rightarrow> bytecs list \<Rightarrow> 'a::len word \<Rightarrow> bytecs list" where
  "memcpy_to be n destination v =
     (if be then rev (le_bytes n (unat v)) else le_bytes n (unat v)) @ drop n destination"

definition BP_checkSize :: "intcs \<Rightarrow> intcs \<Rightarrow> string \<Rightarrow> unit res" where
  "BP_checkSize len needed paramName =
     (if len < needed then Inl (ArgumentOutOfRangeException paramName) else Inr ())"

definition BP_bswap16 :: "16 word \<Rightarrow> 16 word" where
  "BP_bswap16 v = drop_bit 8 v OR push_bit 8 v"

definition BP_bswap32 :: "uintcs \<Rightarrow> uintcs" where
  "BP_bswap32 v =
     drop_bit 24 (v AND 0xFF000000) OR drop_bit 8 (v AND 0x00FF0000) OR
     push_bit 8 (v AND 0x0000FF00) OR push_bit 24 (v AND 0x000000FF)"

definition BP_bswap64 :: "ulongcs \<Rightarrow> ulongcs" where
  "BP_bswap64 v =
     push_bit 32 (ucast (BP_bswap32 (ucast v))) OR ucast (BP_bswap32 (ucast (drop_bit 32 v)))"

text \<open>
  Conversion to and from the host order. The two sets of conditional definitions of the source are one
  definition here, with the host order as the condition.
\<close>

definition BP_leToHost16s :: "bool \<Rightarrow> int \<Rightarrow> int" where
  "BP_leToHost16s be v =
     (if be then sint (BP_bswap16 (of_int v)) else v)"

definition BP_leToHost16u :: "bool \<Rightarrow> 16 word \<Rightarrow> 16 word" where
  "BP_leToHost16u be v = (if be then BP_bswap16 v else v)"

definition BP_leToHost32s :: "bool \<Rightarrow> int \<Rightarrow> int" where
  "BP_leToHost32s be v =
     (if be then sint (BP_bswap32 (of_int v)) else v)"

definition BP_leToHost32u :: "bool \<Rightarrow> uintcs \<Rightarrow> uintcs" where
  "BP_leToHost32u be v = (if be then BP_bswap32 v else v)"

definition BP_leToHost64s :: "bool \<Rightarrow> int \<Rightarrow> int" where
  "BP_leToHost64s be v =
     (if be then sint (BP_bswap64 (of_int v)) else v)"

definition BP_leToHost64u :: "bool \<Rightarrow> ulongcs \<Rightarrow> ulongcs" where
  "BP_leToHost64u be v = (if be then BP_bswap64 v else v)"

definition BP_beToHost16s :: "bool \<Rightarrow> int \<Rightarrow> int" where
  "BP_beToHost16s be v =
     (if \<not> be then sint (BP_bswap16 (of_int v)) else v)"

definition BP_beToHost16u :: "bool \<Rightarrow> 16 word \<Rightarrow> 16 word" where
  "BP_beToHost16u be v = (if \<not> be then BP_bswap16 v else v)"

definition BP_beToHost32s :: "bool \<Rightarrow> int \<Rightarrow> int" where
  "BP_beToHost32s be v =
     (if \<not> be then sint (BP_bswap32 (of_int v)) else v)"

definition BP_beToHost32u :: "bool \<Rightarrow> uintcs \<Rightarrow> uintcs" where
  "BP_beToHost32u be v = (if \<not> be then BP_bswap32 v else v)"

definition BP_beToHost64s :: "bool \<Rightarrow> int \<Rightarrow> int" where
  "BP_beToHost64s be v =
     (if \<not> be then sint (BP_bswap64 (of_int v)) else v)"

definition BP_beToHost64u :: "bool \<Rightarrow> ulongcs \<Rightarrow> ulongcs" where
  "BP_beToHost64u be v = (if \<not> be then BP_bswap64 v else v)"

definition BP_fromLE16 :: "bool \<Rightarrow> int \<Rightarrow> int" where
  "BP_fromLE16 be v = BP_leToHost16s be v"

definition BP_fromLE16u :: "bool \<Rightarrow> 16 word \<Rightarrow> 16 word" where
  "BP_fromLE16u be v = BP_leToHost16u be v"

definition BP_fromLE32 :: "bool \<Rightarrow> int \<Rightarrow> int" where
  "BP_fromLE32 be v = BP_leToHost32s be v"

definition BP_fromLE32u :: "bool \<Rightarrow> uintcs \<Rightarrow> uintcs" where
  "BP_fromLE32u be v = BP_leToHost32u be v"

definition BP_fromLE64 :: "bool \<Rightarrow> int \<Rightarrow> int" where
  "BP_fromLE64 be v = BP_leToHost64s be v"

definition BP_fromLE64u :: "bool \<Rightarrow> ulongcs \<Rightarrow> ulongcs" where
  "BP_fromLE64u be v = BP_leToHost64u be v"

definition BP_fromBE16 :: "bool \<Rightarrow> int \<Rightarrow> int" where
  "BP_fromBE16 be v = BP_beToHost16s be v"

definition BP_fromBE16u :: "bool \<Rightarrow> 16 word \<Rightarrow> 16 word" where
  "BP_fromBE16u be v = BP_beToHost16u be v"

definition BP_fromBE32 :: "bool \<Rightarrow> int \<Rightarrow> int" where
  "BP_fromBE32 be v = BP_beToHost32s be v"

definition BP_fromBE32u :: "bool \<Rightarrow> uintcs \<Rightarrow> uintcs" where
  "BP_fromBE32u be v = BP_beToHost32u be v"

definition BP_fromBE64 :: "bool \<Rightarrow> int \<Rightarrow> int" where
  "BP_fromBE64 be v = BP_beToHost64s be v"

definition BP_fromBE64u :: "bool \<Rightarrow> ulongcs \<Rightarrow> ulongcs" where
  "BP_fromBE64u be v = BP_beToHost64u be v"

definition BP_toLE16 :: "bool \<Rightarrow> int \<Rightarrow> int" where
  "BP_toLE16 be v = BP_leToHost16s be v"

definition BP_toLE16u :: "bool \<Rightarrow> 16 word \<Rightarrow> 16 word" where
  "BP_toLE16u be v = BP_leToHost16u be v"

definition BP_toLE32 :: "bool \<Rightarrow> int \<Rightarrow> int" where
  "BP_toLE32 be v = BP_leToHost32s be v"

definition BP_toLE32u :: "bool \<Rightarrow> uintcs \<Rightarrow> uintcs" where
  "BP_toLE32u be v = BP_leToHost32u be v"

definition BP_toLE64 :: "bool \<Rightarrow> int \<Rightarrow> int" where
  "BP_toLE64 be v = BP_leToHost64s be v"

definition BP_toLE64u :: "bool \<Rightarrow> ulongcs \<Rightarrow> ulongcs" where
  "BP_toLE64u be v = BP_leToHost64u be v"

definition BP_toBE16 :: "bool \<Rightarrow> int \<Rightarrow> int" where
  "BP_toBE16 be v = BP_beToHost16s be v"

definition BP_toBE16u :: "bool \<Rightarrow> 16 word \<Rightarrow> 16 word" where
  "BP_toBE16u be v = BP_beToHost16u be v"

definition BP_toBE32 :: "bool \<Rightarrow> int \<Rightarrow> int" where
  "BP_toBE32 be v = BP_beToHost32s be v"

definition BP_toBE32u :: "bool \<Rightarrow> uintcs \<Rightarrow> uintcs" where
  "BP_toBE32u be v = BP_beToHost32u be v"

definition BP_toBE64 :: "bool \<Rightarrow> int \<Rightarrow> int" where
  "BP_toBE64 be v = BP_beToHost64s be v"

definition BP_toBE64u :: "bool \<Rightarrow> ulongcs \<Rightarrow> ulongcs" where
  "BP_toBE64u be v = BP_beToHost64u be v"

definition BP_ReadUInt16LittleEndian :: "bool \<Rightarrow> bytecs list \<Rightarrow> 16 word res" where
  "BP_ReadUInt16LittleEndian be source =
     bind_res (BP_checkSize (int (length source)) 2 ''source'')
       (\<lambda>_. Inr (BP_fromLE16u be (memcpy_from be 2 source :: 16 word)))"

definition BP_TryReadUInt16LittleEndian :: "bool \<Rightarrow> bytecs list \<Rightarrow> bool \<times> 16 word" where
  "BP_TryReadUInt16LittleEndian be source =
     (if int (length source) < 2 then (False, 0)
      else (True, BP_fromLE16u be (memcpy_from be 2 source :: 16 word)))"

definition BP_WriteUInt16LittleEndian :: "bool \<Rightarrow> bytecs list \<Rightarrow> 16 word \<Rightarrow> bytecs list res" where
  "BP_WriteUInt16LittleEndian be destination val =
     bind_res (BP_checkSize (int (length destination)) 2 ''destination'')
       (\<lambda>_. Inr (memcpy_to be 2 destination (BP_toLE16u be val)))"

definition BP_TryWriteUInt16LittleEndian :: "bool \<Rightarrow> bytecs list \<Rightarrow> 16 word \<Rightarrow> bool \<times> bytecs list" where
  "BP_TryWriteUInt16LittleEndian be destination val =
     (if int (length destination) < 2 then (False, destination)
      else (True, memcpy_to be 2 destination (BP_toLE16u be val)))"

definition BP_ReadInt16LittleEndian :: "bool \<Rightarrow> bytecs list \<Rightarrow> int res" where
  "BP_ReadInt16LittleEndian be source =
     bind_res (BP_checkSize (int (length source)) 2 ''source'')
       (\<lambda>_. Inr (BP_fromLE16 be (sint (memcpy_from be 2 source :: 16 word))))"

definition BP_TryReadInt16LittleEndian :: "bool \<Rightarrow> bytecs list \<Rightarrow> bool \<times> int" where
  "BP_TryReadInt16LittleEndian be source =
     (if int (length source) < 2 then (False, 0)
      else (True, BP_fromLE16 be (sint (memcpy_from be 2 source :: 16 word))))"

definition BP_WriteInt16LittleEndian :: "bool \<Rightarrow> bytecs list \<Rightarrow> int \<Rightarrow> bytecs list res" where
  "BP_WriteInt16LittleEndian be destination val =
     bind_res (BP_checkSize (int (length destination)) 2 ''destination'')
       (\<lambda>_. Inr (memcpy_to be 2 destination (of_int (BP_toLE16 be val) :: 16 word)))"

definition BP_TryWriteInt16LittleEndian :: "bool \<Rightarrow> bytecs list \<Rightarrow> int \<Rightarrow> bool \<times> bytecs list" where
  "BP_TryWriteInt16LittleEndian be destination val =
     (if int (length destination) < 2 then (False, destination)
      else (True, memcpy_to be 2 destination (of_int (BP_toLE16 be val) :: 16 word)))"

definition BP_ReadUInt32LittleEndian :: "bool \<Rightarrow> bytecs list \<Rightarrow> uintcs res" where
  "BP_ReadUInt32LittleEndian be source =
     bind_res (BP_checkSize (int (length source)) 4 ''source'')
       (\<lambda>_. Inr (BP_fromLE32u be (memcpy_from be 4 source :: uintcs)))"

definition BP_TryReadUInt32LittleEndian :: "bool \<Rightarrow> bytecs list \<Rightarrow> bool \<times> uintcs" where
  "BP_TryReadUInt32LittleEndian be source =
     (if int (length source) < 4 then (False, 0)
      else (True, BP_fromLE32u be (memcpy_from be 4 source :: uintcs)))"

definition BP_WriteUInt32LittleEndian :: "bool \<Rightarrow> bytecs list \<Rightarrow> uintcs \<Rightarrow> bytecs list res" where
  "BP_WriteUInt32LittleEndian be destination val =
     bind_res (BP_checkSize (int (length destination)) 4 ''destination'')
       (\<lambda>_. Inr (memcpy_to be 4 destination (BP_toLE32u be val)))"

definition BP_TryWriteUInt32LittleEndian :: "bool \<Rightarrow> bytecs list \<Rightarrow> uintcs \<Rightarrow> bool \<times> bytecs list" where
  "BP_TryWriteUInt32LittleEndian be destination val =
     (if int (length destination) < 4 then (False, destination)
      else (True, memcpy_to be 4 destination (BP_toLE32u be val)))"

definition BP_ReadInt32LittleEndian :: "bool \<Rightarrow> bytecs list \<Rightarrow> int res" where
  "BP_ReadInt32LittleEndian be source =
     bind_res (BP_checkSize (int (length source)) 4 ''source'')
       (\<lambda>_. Inr (BP_fromLE32 be (sint (memcpy_from be 4 source :: uintcs))))"

definition BP_TryReadInt32LittleEndian :: "bool \<Rightarrow> bytecs list \<Rightarrow> bool \<times> int" where
  "BP_TryReadInt32LittleEndian be source =
     (if int (length source) < 4 then (False, 0)
      else (True, BP_fromLE32 be (sint (memcpy_from be 4 source :: uintcs))))"

definition BP_WriteInt32LittleEndian :: "bool \<Rightarrow> bytecs list \<Rightarrow> int \<Rightarrow> bytecs list res" where
  "BP_WriteInt32LittleEndian be destination val =
     bind_res (BP_checkSize (int (length destination)) 4 ''destination'')
       (\<lambda>_. Inr (memcpy_to be 4 destination (of_int (BP_toLE32 be val) :: uintcs)))"

definition BP_TryWriteInt32LittleEndian :: "bool \<Rightarrow> bytecs list \<Rightarrow> int \<Rightarrow> bool \<times> bytecs list" where
  "BP_TryWriteInt32LittleEndian be destination val =
     (if int (length destination) < 4 then (False, destination)
      else (True, memcpy_to be 4 destination (of_int (BP_toLE32 be val) :: uintcs)))"

definition BP_ReadUInt64LittleEndian :: "bool \<Rightarrow> bytecs list \<Rightarrow> ulongcs res" where
  "BP_ReadUInt64LittleEndian be source =
     bind_res (BP_checkSize (int (length source)) 8 ''source'')
       (\<lambda>_. Inr (BP_fromLE64u be (memcpy_from be 8 source :: ulongcs)))"

definition BP_TryReadUInt64LittleEndian :: "bool \<Rightarrow> bytecs list \<Rightarrow> bool \<times> ulongcs" where
  "BP_TryReadUInt64LittleEndian be source =
     (if int (length source) < 8 then (False, 0)
      else (True, BP_fromLE64u be (memcpy_from be 8 source :: ulongcs)))"

definition BP_WriteUInt64LittleEndian :: "bool \<Rightarrow> bytecs list \<Rightarrow> ulongcs \<Rightarrow> bytecs list res" where
  "BP_WriteUInt64LittleEndian be destination val =
     bind_res (BP_checkSize (int (length destination)) 8 ''destination'')
       (\<lambda>_. Inr (memcpy_to be 8 destination (BP_toLE64u be val)))"

definition BP_TryWriteUInt64LittleEndian :: "bool \<Rightarrow> bytecs list \<Rightarrow> ulongcs \<Rightarrow> bool \<times> bytecs list" where
  "BP_TryWriteUInt64LittleEndian be destination val =
     (if int (length destination) < 8 then (False, destination)
      else (True, memcpy_to be 8 destination (BP_toLE64u be val)))"

definition BP_ReadInt64LittleEndian :: "bool \<Rightarrow> bytecs list \<Rightarrow> int res" where
  "BP_ReadInt64LittleEndian be source =
     bind_res (BP_checkSize (int (length source)) 8 ''source'')
       (\<lambda>_. Inr (BP_fromLE64 be (sint (memcpy_from be 8 source :: ulongcs))))"

definition BP_TryReadInt64LittleEndian :: "bool \<Rightarrow> bytecs list \<Rightarrow> bool \<times> int" where
  "BP_TryReadInt64LittleEndian be source =
     (if int (length source) < 8 then (False, 0)
      else (True, BP_fromLE64 be (sint (memcpy_from be 8 source :: ulongcs))))"

definition BP_WriteInt64LittleEndian :: "bool \<Rightarrow> bytecs list \<Rightarrow> int \<Rightarrow> bytecs list res" where
  "BP_WriteInt64LittleEndian be destination val =
     bind_res (BP_checkSize (int (length destination)) 8 ''destination'')
       (\<lambda>_. Inr (memcpy_to be 8 destination (of_int (BP_toLE64 be val) :: ulongcs)))"

definition BP_TryWriteInt64LittleEndian :: "bool \<Rightarrow> bytecs list \<Rightarrow> int \<Rightarrow> bool \<times> bytecs list" where
  "BP_TryWriteInt64LittleEndian be destination val =
     (if int (length destination) < 8 then (False, destination)
      else (True, memcpy_to be 8 destination (of_int (BP_toLE64 be val) :: ulongcs)))"

definition BP_ReadSingleLittleEndian :: "bool \<Rightarrow> bytecs list \<Rightarrow> uintcs res" where
  "BP_ReadSingleLittleEndian be source = BP_ReadUInt32LittleEndian be source"

definition BP_TryReadSingleLittleEndian :: "bool \<Rightarrow> bytecs list \<Rightarrow> bool \<times> uintcs" where
  "BP_TryReadSingleLittleEndian be source =
     (case BP_TryReadUInt32LittleEndian be source of (ok, bits) \<Rightarrow> if \<not> ok then (False, 0) else (True, bits))"

definition BP_WriteSingleLittleEndian :: "bool \<Rightarrow> bytecs list \<Rightarrow> uintcs \<Rightarrow> bytecs list res" where
  "BP_WriteSingleLittleEndian be destination bits = BP_WriteUInt32LittleEndian be destination bits"

definition BP_TryWriteSingleLittleEndian :: "bool \<Rightarrow> bytecs list \<Rightarrow> uintcs \<Rightarrow> bool \<times> bytecs list" where
  "BP_TryWriteSingleLittleEndian be destination bits = BP_TryWriteUInt32LittleEndian be destination bits"

definition BP_ReadDoubleLittleEndian :: "bool \<Rightarrow> bytecs list \<Rightarrow> ulongcs res" where
  "BP_ReadDoubleLittleEndian be source = BP_ReadUInt64LittleEndian be source"

definition BP_TryReadDoubleLittleEndian :: "bool \<Rightarrow> bytecs list \<Rightarrow> bool \<times> ulongcs" where
  "BP_TryReadDoubleLittleEndian be source =
     (case BP_TryReadUInt64LittleEndian be source of (ok, bits) \<Rightarrow> if \<not> ok then (False, 0) else (True, bits))"

definition BP_WriteDoubleLittleEndian :: "bool \<Rightarrow> bytecs list \<Rightarrow> ulongcs \<Rightarrow> bytecs list res" where
  "BP_WriteDoubleLittleEndian be destination bits = BP_WriteUInt64LittleEndian be destination bits"

definition BP_TryWriteDoubleLittleEndian :: "bool \<Rightarrow> bytecs list \<Rightarrow> ulongcs \<Rightarrow> bool \<times> bytecs list" where
  "BP_TryWriteDoubleLittleEndian be destination bits = BP_TryWriteUInt64LittleEndian be destination bits"

definition BP_ReadUInt16BigEndian :: "bool \<Rightarrow> bytecs list \<Rightarrow> 16 word res" where
  "BP_ReadUInt16BigEndian be source =
     bind_res (BP_checkSize (int (length source)) 2 ''source'')
       (\<lambda>_. Inr (BP_fromBE16u be (memcpy_from be 2 source :: 16 word)))"

definition BP_TryReadUInt16BigEndian :: "bool \<Rightarrow> bytecs list \<Rightarrow> bool \<times> 16 word" where
  "BP_TryReadUInt16BigEndian be source =
     (if int (length source) < 2 then (False, 0)
      else (True, BP_fromBE16u be (memcpy_from be 2 source :: 16 word)))"

definition BP_WriteUInt16BigEndian :: "bool \<Rightarrow> bytecs list \<Rightarrow> 16 word \<Rightarrow> bytecs list res" where
  "BP_WriteUInt16BigEndian be destination val =
     bind_res (BP_checkSize (int (length destination)) 2 ''destination'')
       (\<lambda>_. Inr (memcpy_to be 2 destination (BP_toBE16u be val)))"

definition BP_TryWriteUInt16BigEndian :: "bool \<Rightarrow> bytecs list \<Rightarrow> 16 word \<Rightarrow> bool \<times> bytecs list" where
  "BP_TryWriteUInt16BigEndian be destination val =
     (if int (length destination) < 2 then (False, destination)
      else (True, memcpy_to be 2 destination (BP_toBE16u be val)))"

definition BP_ReadInt16BigEndian :: "bool \<Rightarrow> bytecs list \<Rightarrow> int res" where
  "BP_ReadInt16BigEndian be source =
     bind_res (BP_checkSize (int (length source)) 2 ''source'')
       (\<lambda>_. Inr (BP_fromBE16 be (sint (memcpy_from be 2 source :: 16 word))))"

definition BP_TryReadInt16BigEndian :: "bool \<Rightarrow> bytecs list \<Rightarrow> bool \<times> int" where
  "BP_TryReadInt16BigEndian be source =
     (if int (length source) < 2 then (False, 0)
      else (True, BP_fromBE16 be (sint (memcpy_from be 2 source :: 16 word))))"

definition BP_WriteInt16BigEndian :: "bool \<Rightarrow> bytecs list \<Rightarrow> int \<Rightarrow> bytecs list res" where
  "BP_WriteInt16BigEndian be destination val =
     bind_res (BP_checkSize (int (length destination)) 2 ''destination'')
       (\<lambda>_. Inr (memcpy_to be 2 destination (of_int (BP_toBE16 be val) :: 16 word)))"

definition BP_TryWriteInt16BigEndian :: "bool \<Rightarrow> bytecs list \<Rightarrow> int \<Rightarrow> bool \<times> bytecs list" where
  "BP_TryWriteInt16BigEndian be destination val =
     (if int (length destination) < 2 then (False, destination)
      else (True, memcpy_to be 2 destination (of_int (BP_toBE16 be val) :: 16 word)))"

definition BP_ReadUInt32BigEndian :: "bool \<Rightarrow> bytecs list \<Rightarrow> uintcs res" where
  "BP_ReadUInt32BigEndian be source =
     bind_res (BP_checkSize (int (length source)) 4 ''source'')
       (\<lambda>_. Inr (BP_fromBE32u be (memcpy_from be 4 source :: uintcs)))"

definition BP_TryReadUInt32BigEndian :: "bool \<Rightarrow> bytecs list \<Rightarrow> bool \<times> uintcs" where
  "BP_TryReadUInt32BigEndian be source =
     (if int (length source) < 4 then (False, 0)
      else (True, BP_fromBE32u be (memcpy_from be 4 source :: uintcs)))"

definition BP_WriteUInt32BigEndian :: "bool \<Rightarrow> bytecs list \<Rightarrow> uintcs \<Rightarrow> bytecs list res" where
  "BP_WriteUInt32BigEndian be destination val =
     bind_res (BP_checkSize (int (length destination)) 4 ''destination'')
       (\<lambda>_. Inr (memcpy_to be 4 destination (BP_toBE32u be val)))"

definition BP_TryWriteUInt32BigEndian :: "bool \<Rightarrow> bytecs list \<Rightarrow> uintcs \<Rightarrow> bool \<times> bytecs list" where
  "BP_TryWriteUInt32BigEndian be destination val =
     (if int (length destination) < 4 then (False, destination)
      else (True, memcpy_to be 4 destination (BP_toBE32u be val)))"

definition BP_ReadInt32BigEndian :: "bool \<Rightarrow> bytecs list \<Rightarrow> int res" where
  "BP_ReadInt32BigEndian be source =
     bind_res (BP_checkSize (int (length source)) 4 ''source'')
       (\<lambda>_. Inr (BP_fromBE32 be (sint (memcpy_from be 4 source :: uintcs))))"

definition BP_TryReadInt32BigEndian :: "bool \<Rightarrow> bytecs list \<Rightarrow> bool \<times> int" where
  "BP_TryReadInt32BigEndian be source =
     (if int (length source) < 4 then (False, 0)
      else (True, BP_fromBE32 be (sint (memcpy_from be 4 source :: uintcs))))"

definition BP_WriteInt32BigEndian :: "bool \<Rightarrow> bytecs list \<Rightarrow> int \<Rightarrow> bytecs list res" where
  "BP_WriteInt32BigEndian be destination val =
     bind_res (BP_checkSize (int (length destination)) 4 ''destination'')
       (\<lambda>_. Inr (memcpy_to be 4 destination (of_int (BP_toBE32 be val) :: uintcs)))"

definition BP_TryWriteInt32BigEndian :: "bool \<Rightarrow> bytecs list \<Rightarrow> int \<Rightarrow> bool \<times> bytecs list" where
  "BP_TryWriteInt32BigEndian be destination val =
     (if int (length destination) < 4 then (False, destination)
      else (True, memcpy_to be 4 destination (of_int (BP_toBE32 be val) :: uintcs)))"

definition BP_ReadUInt64BigEndian :: "bool \<Rightarrow> bytecs list \<Rightarrow> ulongcs res" where
  "BP_ReadUInt64BigEndian be source =
     bind_res (BP_checkSize (int (length source)) 8 ''source'')
       (\<lambda>_. Inr (BP_fromBE64u be (memcpy_from be 8 source :: ulongcs)))"

definition BP_TryReadUInt64BigEndian :: "bool \<Rightarrow> bytecs list \<Rightarrow> bool \<times> ulongcs" where
  "BP_TryReadUInt64BigEndian be source =
     (if int (length source) < 8 then (False, 0)
      else (True, BP_fromBE64u be (memcpy_from be 8 source :: ulongcs)))"

definition BP_WriteUInt64BigEndian :: "bool \<Rightarrow> bytecs list \<Rightarrow> ulongcs \<Rightarrow> bytecs list res" where
  "BP_WriteUInt64BigEndian be destination val =
     bind_res (BP_checkSize (int (length destination)) 8 ''destination'')
       (\<lambda>_. Inr (memcpy_to be 8 destination (BP_toBE64u be val)))"

definition BP_TryWriteUInt64BigEndian :: "bool \<Rightarrow> bytecs list \<Rightarrow> ulongcs \<Rightarrow> bool \<times> bytecs list" where
  "BP_TryWriteUInt64BigEndian be destination val =
     (if int (length destination) < 8 then (False, destination)
      else (True, memcpy_to be 8 destination (BP_toBE64u be val)))"

definition BP_ReadInt64BigEndian :: "bool \<Rightarrow> bytecs list \<Rightarrow> int res" where
  "BP_ReadInt64BigEndian be source =
     bind_res (BP_checkSize (int (length source)) 8 ''source'')
       (\<lambda>_. Inr (BP_fromBE64 be (sint (memcpy_from be 8 source :: ulongcs))))"

definition BP_TryReadInt64BigEndian :: "bool \<Rightarrow> bytecs list \<Rightarrow> bool \<times> int" where
  "BP_TryReadInt64BigEndian be source =
     (if int (length source) < 8 then (False, 0)
      else (True, BP_fromBE64 be (sint (memcpy_from be 8 source :: ulongcs))))"

definition BP_WriteInt64BigEndian :: "bool \<Rightarrow> bytecs list \<Rightarrow> int \<Rightarrow> bytecs list res" where
  "BP_WriteInt64BigEndian be destination val =
     bind_res (BP_checkSize (int (length destination)) 8 ''destination'')
       (\<lambda>_. Inr (memcpy_to be 8 destination (of_int (BP_toBE64 be val) :: ulongcs)))"

definition BP_TryWriteInt64BigEndian :: "bool \<Rightarrow> bytecs list \<Rightarrow> int \<Rightarrow> bool \<times> bytecs list" where
  "BP_TryWriteInt64BigEndian be destination val =
     (if int (length destination) < 8 then (False, destination)
      else (True, memcpy_to be 8 destination (of_int (BP_toBE64 be val) :: ulongcs)))"

definition BP_ReadSingleBigEndian :: "bool \<Rightarrow> bytecs list \<Rightarrow> uintcs res" where
  "BP_ReadSingleBigEndian be source = BP_ReadUInt32BigEndian be source"

definition BP_TryReadSingleBigEndian :: "bool \<Rightarrow> bytecs list \<Rightarrow> bool \<times> uintcs" where
  "BP_TryReadSingleBigEndian be source =
     (case BP_TryReadUInt32BigEndian be source of (ok, bits) \<Rightarrow> if \<not> ok then (False, 0) else (True, bits))"

definition BP_WriteSingleBigEndian :: "bool \<Rightarrow> bytecs list \<Rightarrow> uintcs \<Rightarrow> bytecs list res" where
  "BP_WriteSingleBigEndian be destination bits = BP_WriteUInt32BigEndian be destination bits"

definition BP_TryWriteSingleBigEndian :: "bool \<Rightarrow> bytecs list \<Rightarrow> uintcs \<Rightarrow> bool \<times> bytecs list" where
  "BP_TryWriteSingleBigEndian be destination bits = BP_TryWriteUInt32BigEndian be destination bits"

definition BP_ReadDoubleBigEndian :: "bool \<Rightarrow> bytecs list \<Rightarrow> ulongcs res" where
  "BP_ReadDoubleBigEndian be source = BP_ReadUInt64BigEndian be source"

definition BP_TryReadDoubleBigEndian :: "bool \<Rightarrow> bytecs list \<Rightarrow> bool \<times> ulongcs" where
  "BP_TryReadDoubleBigEndian be source =
     (case BP_TryReadUInt64BigEndian be source of (ok, bits) \<Rightarrow> if \<not> ok then (False, 0) else (True, bits))"

definition BP_WriteDoubleBigEndian :: "bool \<Rightarrow> bytecs list \<Rightarrow> ulongcs \<Rightarrow> bytecs list res" where
  "BP_WriteDoubleBigEndian be destination bits = BP_WriteUInt64BigEndian be destination bits"

definition BP_TryWriteDoubleBigEndian :: "bool \<Rightarrow> bytecs list \<Rightarrow> ulongcs \<Rightarrow> bool \<times> bytecs list" where
  "BP_TryWriteDoubleBigEndian be destination bits = BP_TryWriteUInt64BigEndian be destination bits"

text \<open>
  128 bit values are two 64 bit halves. \<open>int128\<close> is the constructor of \<^verbatim>\<open>System::Int128\<close> and \<^verbatim>\<open>System::UInt128\<close> from
  them, on the bit pattern; \<open>Slice(0, 8)\<close> and \<open>Slice(8, 8)\<close> are the two halves of the span.
\<close>

definition int128 :: "ulongcs \<Rightarrow> ulongcs \<Rightarrow> 128 word" where
  "int128 upper lower = push_bit 64 (ucast upper) OR ucast lower"

definition getLowerProperty :: "128 word \<Rightarrow> ulongcs" where
  "getLowerProperty v = ucast v"

definition getUpperProperty :: "128 word \<Rightarrow> ulongcs" where
  "getUpperProperty v = ucast (drop_bit 64 v)"

definition slice :: "'a list \<Rightarrow> nat \<Rightarrow> nat \<Rightarrow> 'a list" where
  "slice xs start len = take len (drop start xs)"

definition BP_ReadUInt128LittleEndian :: "bool \<Rightarrow> bytecs list \<Rightarrow> 128 word res" where
  "BP_ReadUInt128LittleEndian be source =
     bind_res (BP_checkSize (int (length source)) 16 ''source'')
       (\<lambda>_. bind_res (BP_ReadUInt64LittleEndian be (slice source 0 8))
         (\<lambda>lower. bind_res (BP_ReadUInt64LittleEndian be (slice source 8 8))
           (\<lambda>upper. Inr (int128 upper lower))))"

definition BP_TryReadUInt128LittleEndian :: "bool \<Rightarrow> bytecs list \<Rightarrow> (bool \<times> 128 word) res" where
  "BP_TryReadUInt128LittleEndian be source =
     (if int (length source) < 16 then Inr (False, 0)
      else bind_res (BP_ReadUInt128LittleEndian be source) (\<lambda>v. Inr (True, v)))"

definition BP_WriteUInt128LittleEndian :: "bool \<Rightarrow> bytecs list \<Rightarrow> 128 word \<Rightarrow> bytecs list res" where
  "BP_WriteUInt128LittleEndian be destination val =
     bind_res (BP_checkSize (int (length destination)) 16 ''destination'')
       (\<lambda>_. bind_res (BP_WriteUInt64LittleEndian be (slice destination 0 8) (getLowerProperty val))
         (\<lambda>first. bind_res (BP_WriteUInt64LittleEndian be (slice destination 8 8) (getUpperProperty val))
           (\<lambda>second. Inr (first @ second @ drop 16 destination))))"

definition BP_TryWriteUInt128LittleEndian :: "bool \<Rightarrow> bytecs list \<Rightarrow> 128 word \<Rightarrow> (bool \<times> bytecs list) res" where
  "BP_TryWriteUInt128LittleEndian be destination val =
     (if int (length destination) < 16 then Inr (False, destination)
      else bind_res (BP_WriteUInt128LittleEndian be destination val) (\<lambda>dst. Inr (True, dst)))"

definition BP_ReadInt128LittleEndian :: "bool \<Rightarrow> bytecs list \<Rightarrow> int res" where
  "BP_ReadInt128LittleEndian be source =
     bind_res (BP_checkSize (int (length source)) 16 ''source'')
       (\<lambda>_. bind_res (BP_ReadUInt64LittleEndian be (slice source 0 8))
         (\<lambda>lower. bind_res (BP_ReadUInt64LittleEndian be (slice source 8 8))
           (\<lambda>upper. Inr (sint (int128 upper lower)))))"

definition BP_TryReadInt128LittleEndian :: "bool \<Rightarrow> bytecs list \<Rightarrow> (bool \<times> int) res" where
  "BP_TryReadInt128LittleEndian be source =
     (if int (length source) < 16 then Inr (False, 0)
      else bind_res (BP_ReadInt128LittleEndian be source) (\<lambda>v. Inr (True, v)))"

definition BP_WriteInt128LittleEndian :: "bool \<Rightarrow> bytecs list \<Rightarrow> int \<Rightarrow> bytecs list res" where
  "BP_WriteInt128LittleEndian be destination val =
     bind_res (BP_checkSize (int (length destination)) 16 ''destination'')
       (\<lambda>_. bind_res (BP_WriteUInt64LittleEndian be (slice destination 0 8) (getLowerProperty (of_int val)))
         (\<lambda>first. bind_res (BP_WriteUInt64LittleEndian be (slice destination 8 8) (getUpperProperty (of_int val)))
           (\<lambda>second. Inr (first @ second @ drop 16 destination))))"

definition BP_TryWriteInt128LittleEndian :: "bool \<Rightarrow> bytecs list \<Rightarrow> int \<Rightarrow> (bool \<times> bytecs list) res" where
  "BP_TryWriteInt128LittleEndian be destination val =
     (if int (length destination) < 16 then Inr (False, destination)
      else bind_res (BP_WriteInt128LittleEndian be destination val) (\<lambda>dst. Inr (True, dst)))"

definition BP_ReadUInt128BigEndian :: "bool \<Rightarrow> bytecs list \<Rightarrow> 128 word res" where
  "BP_ReadUInt128BigEndian be source =
     bind_res (BP_checkSize (int (length source)) 16 ''source'')
       (\<lambda>_. bind_res (BP_ReadUInt64BigEndian be (slice source 0 8))
         (\<lambda>upper. bind_res (BP_ReadUInt64BigEndian be (slice source 8 8))
           (\<lambda>lower. Inr (int128 upper lower))))"

definition BP_TryReadUInt128BigEndian :: "bool \<Rightarrow> bytecs list \<Rightarrow> (bool \<times> 128 word) res" where
  "BP_TryReadUInt128BigEndian be source =
     (if int (length source) < 16 then Inr (False, 0)
      else bind_res (BP_ReadUInt128BigEndian be source) (\<lambda>v. Inr (True, v)))"

definition BP_WriteUInt128BigEndian :: "bool \<Rightarrow> bytecs list \<Rightarrow> 128 word \<Rightarrow> bytecs list res" where
  "BP_WriteUInt128BigEndian be destination val =
     bind_res (BP_checkSize (int (length destination)) 16 ''destination'')
       (\<lambda>_. bind_res (BP_WriteUInt64BigEndian be (slice destination 0 8) (getUpperProperty val))
         (\<lambda>first. bind_res (BP_WriteUInt64BigEndian be (slice destination 8 8) (getLowerProperty val))
           (\<lambda>second. Inr (first @ second @ drop 16 destination))))"

definition BP_TryWriteUInt128BigEndian :: "bool \<Rightarrow> bytecs list \<Rightarrow> 128 word \<Rightarrow> (bool \<times> bytecs list) res" where
  "BP_TryWriteUInt128BigEndian be destination val =
     (if int (length destination) < 16 then Inr (False, destination)
      else bind_res (BP_WriteUInt128BigEndian be destination val) (\<lambda>dst. Inr (True, dst)))"

definition BP_ReadInt128BigEndian :: "bool \<Rightarrow> bytecs list \<Rightarrow> int res" where
  "BP_ReadInt128BigEndian be source =
     bind_res (BP_checkSize (int (length source)) 16 ''source'')
       (\<lambda>_. bind_res (BP_ReadUInt64BigEndian be (slice source 0 8))
         (\<lambda>upper. bind_res (BP_ReadUInt64BigEndian be (slice source 8 8))
           (\<lambda>lower. Inr (sint (int128 upper lower)))))"

definition BP_TryReadInt128BigEndian :: "bool \<Rightarrow> bytecs list \<Rightarrow> (bool \<times> int) res" where
  "BP_TryReadInt128BigEndian be source =
     (if int (length source) < 16 then Inr (False, 0)
      else bind_res (BP_ReadInt128BigEndian be source) (\<lambda>v. Inr (True, v)))"

definition BP_WriteInt128BigEndian :: "bool \<Rightarrow> bytecs list \<Rightarrow> int \<Rightarrow> bytecs list res" where
  "BP_WriteInt128BigEndian be destination val =
     bind_res (BP_checkSize (int (length destination)) 16 ''destination'')
       (\<lambda>_. bind_res (BP_WriteUInt64BigEndian be (slice destination 0 8) (getUpperProperty (of_int val)))
         (\<lambda>first. bind_res (BP_WriteUInt64BigEndian be (slice destination 8 8) (getLowerProperty (of_int val)))
           (\<lambda>second. Inr (first @ second @ drop 16 destination))))"

definition BP_TryWriteInt128BigEndian :: "bool \<Rightarrow> bytecs list \<Rightarrow> int \<Rightarrow> (bool \<times> bytecs list) res" where
  "BP_TryWriteInt128BigEndian be destination val =
     (if int (length destination) < 16 then Inr (False, destination)
      else bind_res (BP_WriteInt128BigEndian be destination val) (\<lambda>dst. Inr (True, dst)))"

definition BP_ReverseEndianness_Int16 :: "int \<Rightarrow> int" where
  "BP_ReverseEndianness_Int16 val = sint (BP_bswap16 (of_int val))"

definition BP_ReverseEndianness_UInt16 :: "16 word \<Rightarrow> 16 word" where
  "BP_ReverseEndianness_UInt16 val = BP_bswap16 val"

definition BP_ReverseEndianness_Int32 :: "int \<Rightarrow> int" where
  "BP_ReverseEndianness_Int32 val = sint (BP_bswap32 (of_int val))"

definition BP_ReverseEndianness_UInt32 :: "uintcs \<Rightarrow> uintcs" where
  "BP_ReverseEndianness_UInt32 val = BP_bswap32 val"

definition BP_ReverseEndianness_Int64 :: "int \<Rightarrow> int" where
  "BP_ReverseEndianness_Int64 val = sint (BP_bswap64 (of_int val))"

definition BP_ReverseEndianness_UInt64 :: "ulongcs \<Rightarrow> ulongcs" where
  "BP_ReverseEndianness_UInt64 val = BP_bswap64 val"

definition BP_ReverseEndianness_Int128 :: "int \<Rightarrow> int" where
  "BP_ReverseEndianness_Int128 val =
     sint (int128 (BP_bswap64 (getLowerProperty (of_int val))) (BP_bswap64 (getUpperProperty (of_int val))))"

definition BP_ReverseEndianness_UInt128 :: "128 word \<Rightarrow> 128 word" where
  "BP_ReverseEndianness_UInt128 val =
     int128 (BP_bswap64 (getLowerProperty val)) (BP_bswap64 (getUpperProperty val))"

section \<open>Bytes and values\<close>

lemma le_bytes_length [simp]: "length (le_bytes n v) = n"
  by (simp add: le_bytes_def)

lemma le_bytes_Suc: "le_bytes (Suc n) v = of_nat (v mod 256) # le_bytes n (v div 256)"
  by (simp add: le_bytes_def upt_conv_Cons map_Suc_upt [symmetric] div_mult2_eq del: upt_Suc)

lemma le_value_lt: "le_value bs < 256 ^ length bs"
proof (induction bs)
  case (Cons b bs)
  moreover have "unat b < 256" by (rule unat_byte_less)
  ultimately show ?case unfolding le_value.simps length_Cons power_Suc by linarith
qed simp

lemma le_value_le_bytes: "le_value (le_bytes n v) = v mod 256 ^ n"
proof (induction n arbitrary: v)
  case (Suc n)
  have "unat (of_nat (v mod 256) :: bytecs) = v mod 256" by (simp add: unat_of_nat)
  then show ?case using Suc by (simp add: le_bytes_Suc mod_mult2_eq)
qed (simp add: le_bytes_def)

lemma le_bytes_le_value: "le_bytes (length bs) (le_value bs) = bs"
proof (induction bs)
  case (Cons b bs)
  have "(unat b + 256 * le_value bs) mod 256 = unat b" "(unat b + 256 * le_value bs) div 256 = le_value bs"
    using unat_byte_less [of b] by simp_all
  then show ?case using Cons by (simp add: le_bytes_Suc)
qed (simp add: le_bytes_def)

lemma le_value_inject: "length xs = length ys \<Longrightarrow> le_value xs = le_value ys \<Longrightarrow> xs = ys"
  by (metis le_bytes_le_value)

lemma le_bytes_word: "le_bytes n (unat w) = map (\<lambda>i. ucast (drop_bit (8 * i) w)) [0..<n]"
  for w :: "'a::len word"
proof -
  have "(of_nat (unat w div 256 ^ i mod 256) :: bytecs) = ucast (drop_bit (8 * i) w)" for i
  proof -
    have "unat (ucast (drop_bit (8 * i) w) :: bytecs) = unat (drop_bit (8 * i) w) mod 256"
      by (simp only: unsigned_ucast_eq) (simp add: take_bit_eq_mod)
    also have "unat (drop_bit (8 * i) w) = unat w div 2 ^ (8 * i)"
      using unsigned_less [of w, where ?'a = nat]
      by (simp only: unsigned_drop_bit_eq) (simp add: drop_bit_eq_div take_bit_nat_eq_self)
    finally have "unat (ucast (drop_bit (8 * i) w) :: bytecs) = unat w div 256 ^ i mod 256"
      by (simp add: power_mult)
    then show ?thesis unfolding word_unat_eq_iff by (simp add: unat_of_nat)
  qed
  then show ?thesis by (simp add: le_bytes_def)
qed

lemma byte_eqI: "(\<forall>n < 8. bit a n = bit b n) \<Longrightarrow> a = (b :: bytecs)"
  by (rule bit_word_eqI) simp

lemma bswap16_bytes: "le_bytes 2 (unat (BP_bswap16 w)) = rev (le_bytes 2 (unat w))"
proof -
  have "ucast (drop_bit 8 (BP_bswap16 w)) = (ucast w :: bytecs)" "ucast (BP_bswap16 w) = (ucast (drop_bit 8 w) :: bytecs)"
    by (rule byte_eqI, simp add: BP_bswap16_def all_less_upt upt_rec bit_simps)+
  then show ?thesis by (simp add: le_bytes_word upt_rec)
qed

lemma bswap32_bytes: "le_bytes 4 (unat (BP_bswap32 w)) = rev (le_bytes 4 (unat w))"
proof -
  have "ucast (BP_bswap32 w) = (ucast (drop_bit 24 w) :: bytecs)" "ucast (drop_bit 8 (BP_bswap32 w)) = (ucast (drop_bit 16 w) :: bytecs)"
    "ucast (drop_bit 16 (BP_bswap32 w)) = (ucast (drop_bit 8 w) :: bytecs)" "ucast (drop_bit 24 (BP_bswap32 w)) = (ucast w :: bytecs)"
    by (rule byte_eqI, simp add: BP_bswap32_def all_less_upt upt_rec bit_simps)+
  then show ?thesis by (simp add: le_bytes_word upt_rec)
qed

lemma bswap64_bytes: "le_bytes 8 (unat (BP_bswap64 w)) = rev (le_bytes 8 (unat w))"
proof -
  let ?lo = "ucast w :: uintcs" and ?hi = "ucast (drop_bit 32 w) :: uintcs"
  have split: "le_bytes 8 (unat v) = le_bytes 4 (unat (ucast v :: uintcs)) @ le_bytes 4 (unat (ucast (drop_bit 32 v) :: uintcs))"
    for v :: ulongcs
  proof -
    have lo: "(ucast (drop_bit k v) :: bytecs) = ucast (drop_bit k (ucast v :: uintcs))" if "k \<le> 24" for k
      using that by (intro bit_word_eqI) (auto simp: bit_simps)
    have hi: "(ucast (drop_bit (32 + k) v) :: bytecs) = ucast (drop_bit k (ucast (drop_bit 32 v) :: uintcs))" if "k \<le> 24" for k
      using that by (intro bit_word_eqI) (auto simp: bit_simps ac_simps)
    show ?thesis
      using lo [of 0] lo [of 8] lo [of 16] lo [of 24] hi [of 0] hi [of 8] hi [of 16] hi [of 24]
      by (simp add: le_bytes_word upt_rec)
  qed
  have "(ucast (BP_bswap64 w) :: uintcs) = BP_bswap32 ?hi" "(ucast (drop_bit 32 (BP_bswap64 w)) :: uintcs) = BP_bswap32 ?lo"
    unfolding BP_bswap64_def by (intro bit_word_eqI; auto simp: bit_simps dest: bit_imp_le_length)+
  then show ?thesis by (simp add: split bswap32_bytes)
qed

section \<open>Host independence\<close>

text \<open>The bytes of an \<open>n\<close>-byte value in the byte order asked for.\<close>

definition ordered :: "bool \<Rightarrow> 'a list \<Rightarrow> 'a list" where
  "ordered big bs = (if big then rev bs else bs)"

lemma ordered_simps [simp]: "length (ordered big bs) = length bs" "ordered big (ordered big bs) = bs"
  "ordered False bs = bs" "ordered True bs = rev bs"
  by (simp_all add: ordered_def)

lemma unat_of_value: "length bs = n \<Longrightarrow> LENGTH('a::len) = 8 * n \<Longrightarrow> unat (of_nat (le_value bs) :: 'a word) = le_value bs"
  using le_value_lt [of bs] by (simp add: unsigned_of_nat take_bit_nat_eq_self power_mult)

lemma swapped_load:
  fixes swap :: "'a::len word \<Rightarrow> 'a word"
  assumes "\<And>w. le_bytes n (unat (swap w)) = rev (le_bytes n (unat w))"
    and "LENGTH('a) = 8 * n" and "length bs = n"
  shows "swap (of_nat (le_value bs)) = of_nat (le_value (rev bs))"
proof -
  have "le_bytes n (unat (swap (of_nat (le_value bs)))) = rev bs"
    using assms le_bytes_le_value [of bs] by (simp add: unat_of_value)
  then have "le_value (rev bs) = unat (swap (of_nat (le_value bs))) mod 256 ^ n"
    by (metis le_value_le_bytes)
  also have "\<dots> = unat (swap (of_nat (le_value bs)))"
  proof (rule mod_less)
    have "unat (swap (of_nat (le_value bs))) < 2 ^ (8 * n)" using unsigned_less [of "swap (of_nat (le_value bs))", where ?'a = nat] assms(2) by metis
    then show "unat (swap (of_nat (le_value bs))) < 256 ^ n" by (simp add: power_mult)
  qed
  finally show ?thesis unfolding word_unat_eq_iff using assms(2,3) by (simp add: unat_of_value)
qed

lemma swapped_store:
  assumes "\<And>w :: 'a::len word. le_bytes n (unat (swap w)) = rev (le_bytes n (unat w))"
  shows "rev (le_bytes n (unat (swap (w :: 'a word)))) = le_bytes n (unat w)"
  using assms by simp

lemmas host_order_defs = BP_leToHost16u_def BP_leToHost32u_def BP_leToHost64u_def BP_beToHost16u_def BP_beToHost32u_def
  BP_beToHost64u_def BP_leToHost16s_def BP_leToHost32s_def BP_leToHost64s_def BP_beToHost16s_def BP_beToHost32s_def
  BP_beToHost64s_def

lemmas order_alias_defs = BP_fromLE16_def BP_fromLE16u_def BP_fromLE32_def BP_fromLE32u_def BP_fromLE64_def BP_fromLE64u_def
  BP_fromBE16_def BP_fromBE16u_def BP_fromBE32_def BP_fromBE32u_def BP_fromBE64_def BP_fromBE64u_def
  BP_toLE16_def BP_toLE16u_def BP_toLE32_def BP_toLE32u_def BP_toLE64_def BP_toLE64u_def
  BP_toBE16_def BP_toBE16u_def BP_toBE32_def BP_toBE32u_def BP_toBE64_def BP_toBE64u_def

lemma load_orders:
  assumes "n \<le> length src"
  shows "n = 2 \<Longrightarrow> BP_leToHost16u be (memcpy_from be n src) = of_nat (le_value (ordered False (take n src)))"
    "n = 2 \<Longrightarrow> BP_beToHost16u be (memcpy_from be n src) = of_nat (le_value (ordered True (take n src)))"
    "n = 4 \<Longrightarrow> BP_leToHost32u be (memcpy_from be n src) = of_nat (le_value (ordered False (take n src)))"
    "n = 4 \<Longrightarrow> BP_beToHost32u be (memcpy_from be n src) = of_nat (le_value (ordered True (take n src)))"
    "n = 8 \<Longrightarrow> BP_leToHost64u be (memcpy_from be n src) = of_nat (le_value (ordered False (take n src)))"
    "n = 8 \<Longrightarrow> BP_beToHost64u be (memcpy_from be n src) = of_nat (le_value (ordered True (take n src)))"
  using assms swapped_load [OF bswap16_bytes] swapped_load [OF bswap32_bytes] swapped_load [OF bswap64_bytes]
  by (simp_all add: host_order_defs memcpy_from_def)

lemma store_orders:
  "memcpy_to be 2 dst (BP_leToHost16u be w2) = ordered False (le_bytes 2 (unat w2)) @ drop 2 dst"
  "memcpy_to be 2 dst (BP_beToHost16u be w2) = ordered True (le_bytes 2 (unat w2)) @ drop 2 dst"
  "memcpy_to be 4 dst (BP_leToHost32u be w4) = ordered False (le_bytes 4 (unat w4)) @ drop 4 dst"
  "memcpy_to be 4 dst (BP_beToHost32u be w4) = ordered True (le_bytes 4 (unat w4)) @ drop 4 dst"
  "memcpy_to be 8 dst (BP_leToHost64u be w8) = ordered False (le_bytes 8 (unat w8)) @ drop 8 dst"
  "memcpy_to be 8 dst (BP_beToHost64u be w8) = ordered True (le_bytes 8 (unat w8)) @ drop 8 dst"
  using bswap16_bytes [of w2] bswap32_bytes [of w4] bswap64_bytes [of w8]
  by (simp_all add: host_order_defs memcpy_to_def)

text \<open>The signed conversions are the unsigned ones on the bit pattern.\<close>

lemma signed_loads:
  "BP_leToHost16s be (sint (w2 :: 16 word)) = sint (BP_leToHost16u be w2)" "BP_beToHost16s be (sint w2) = sint (BP_beToHost16u be w2)"
  "BP_leToHost32s be (sint (w4 :: uintcs)) = sint (BP_leToHost32u be w4)" "BP_beToHost32s be (sint w4) = sint (BP_beToHost32u be w4)"
  "BP_leToHost64s be (sint (w8 :: ulongcs)) = sint (BP_leToHost64u be w8)" "BP_beToHost64s be (sint w8) = sint (BP_beToHost64u be w8)"
  by (simp_all add: host_order_defs)

lemma signed_stores:
  "(of_int (BP_leToHost16s be v) :: 16 word) = BP_leToHost16u be (of_int v)" "(of_int (BP_beToHost16s be v) :: 16 word) = BP_beToHost16u be (of_int v)"
  "(of_int (BP_leToHost32s be v) :: uintcs) = BP_leToHost32u be (of_int v)" "(of_int (BP_beToHost32s be v) :: uintcs) = BP_beToHost32u be (of_int v)"
  "(of_int (BP_leToHost64s be v) :: ulongcs) = BP_leToHost64u be (of_int v)" "(of_int (BP_beToHost64s be v) :: ulongcs) = BP_beToHost64u be (of_int v)"
  by (simp_all add: host_order_defs)

section \<open>The codec contract\<close>

text \<open>
  What the four operations of one type and byte order promise: reading and writing \<open>n\<close> bytes in the
  order \<open>big\<close>, an exception (or \<open>False\<close>, and nothing written) if the span is too short, and bytes after the first \<open>n\<close> ignored
  and left alone. \<open>of_bits\<close> and \<open>to_bits\<close> relate a value and its bit pattern as a number.
\<close>

definition codec_laws ::
  "nat \<Rightarrow> bool \<Rightarrow> (nat \<Rightarrow> 'v) \<Rightarrow> ('v \<Rightarrow> nat) \<Rightarrow> 'v \<Rightarrow> (bytecs list \<Rightarrow> 'v res) \<Rightarrow> (bytecs list \<Rightarrow> (bool \<times> 'v) res) \<Rightarrow>
   (bytecs list \<Rightarrow> 'v \<Rightarrow> bytecs list res) \<Rightarrow> (bytecs list \<Rightarrow> 'v \<Rightarrow> (bool \<times> bytecs list) res) \<Rightarrow> bool" where
  "codec_laws n big of_bits to_bits zero rd tryrd wr trywr \<longleftrightarrow>
     (\<forall>span v. if length span < n
       then rd span = Inl (ArgumentOutOfRangeException ''source'') \<and> tryrd span = Inr (False, zero) \<and>
         wr span v = Inl (ArgumentOutOfRangeException ''destination'') \<and> trywr span v = Inr (False, span)
       else rd span = Inr (of_bits (le_value (ordered big (take n span)))) \<and>
         tryrd span = Inr (True, of_bits (le_value (ordered big (take n span)))) \<and>
         wr span v = Inr (ordered big (le_bytes n (to_bits v)) @ drop n span) \<and>
         trywr span v = Inr (True, ordered big (le_bytes n (to_bits v)) @ drop n span))"

definition codec_inverse ::
  "nat \<Rightarrow> ('v \<Rightarrow> bool) \<Rightarrow> (bytecs list \<Rightarrow> 'v res) \<Rightarrow> (bytecs list \<Rightarrow> 'v \<Rightarrow> bytecs list res) \<Rightarrow> bool" where
  "codec_inverse n in_range rd wr \<longleftrightarrow>
     (\<forall>span v rest. in_range v \<and> n \<le> length span \<longrightarrow>
        (\<exists>span'. wr span v = Inr span' \<and> length span' = length span \<and> drop n span' = drop n span \<and> rd (span' @ rest) = Inr v)) \<and>
     (\<forall>span v. rd span = Inr v \<longrightarrow> wr span v = Inr span)"

locale endian_codec =
  fixes n :: nat and big :: bool and of_bits :: "nat \<Rightarrow> 'v" and to_bits :: "'v \<Rightarrow> nat" and zero :: 'v
    and rd :: "bytecs list \<Rightarrow> 'v res" and tryrd :: "bytecs list \<Rightarrow> (bool \<times> 'v) res"
    and wr :: "bytecs list \<Rightarrow> 'v \<Rightarrow> bytecs list res" and trywr :: "bytecs list \<Rightarrow> 'v \<Rightarrow> (bool \<times> bytecs list) res"
  assumes laws: "codec_laws n big of_bits to_bits zero rd tryrd wr trywr"
    and to_of: "k < 256 ^ n \<Longrightarrow> to_bits (of_bits k) = k"
    and to_bits_lt: "to_bits v < 256 ^ n"
begin

lemma read_ok: "n \<le> length span \<Longrightarrow> rd span = Inr (of_bits (le_value (ordered big (take n span))))"
  using laws by (simp add: codec_laws_def linorder_not_less [symmetric])

lemma write_ok: "n \<le> length span \<Longrightarrow> wr span v = Inr (ordered big (le_bytes n (to_bits v)) @ drop n span)"
  using laws by (simp add: codec_laws_def linorder_not_less [symmetric])

lemma read_back:
  assumes "of_bits (to_bits v) = v" and "n \<le> length span"
  shows "\<exists>span'. wr span v = Inr span' \<and> length span' = length span \<and> drop n span' = drop n span \<and> rd (span' @ rest) = Inr v"
  using assms read_ok [of "ordered big (le_bytes n (to_bits v)) @ drop n span @ rest"] to_bits_lt [of v]
  by (simp add: write_ok le_value_le_bytes)

lemma write_back:
  assumes "rd span = Inr v"
  shows "wr span v = Inr span"
proof -
  have l: "n \<le> length span" using assms laws by (auto simp: codec_laws_def linorder_not_less [symmetric])
  let ?b = "ordered big (take n span)"
  have "le_value ?b < 256 ^ n" using le_value_lt [of ?b] l by simp
  then have "to_bits v = le_value ?b" using assms read_ok [OF l] to_of by auto
  moreover have "le_bytes n (le_value ?b) = ?b" using le_bytes_le_value [of ?b] l by simp
  ultimately show ?thesis using write_ok [OF l] by simp
qed

lemma inverse: "(\<And>v. in_range v \<Longrightarrow> of_bits (to_bits v) = v) \<Longrightarrow> codec_inverse n in_range rd wr"
  unfolding codec_inverse_def using read_back write_back by blast

end

definition signed_range :: "nat \<Rightarrow> int \<Rightarrow> bool" where
  "signed_range w v \<longleftrightarrow> - (2 ^ (w - 1)) \<le> v \<and> v < 2 ^ (w - 1)"

lemma laws_UInt16LittleEndian: "codec_laws 2 False of_nat unat 0 (BP_ReadUInt16LittleEndian be) (\<lambda>s. Inr (BP_TryReadUInt16LittleEndian be s)) (BP_WriteUInt16LittleEndian be) (\<lambda>s v. Inr (BP_TryWriteUInt16LittleEndian be s v))"
  by (auto simp: codec_laws_def BP_ReadUInt16LittleEndian_def BP_TryReadUInt16LittleEndian_def BP_WriteUInt16LittleEndian_def BP_TryWriteUInt16LittleEndian_def
      BP_checkSize_def order_alias_defs store_orders load_orders [OF _ refl])

lemma laws_Int16LittleEndian: "codec_laws 2 False (\<lambda>k. sint (of_nat k :: 16 word)) (\<lambda>v. unat (of_int v :: 16 word)) 0 (BP_ReadInt16LittleEndian be) (\<lambda>s. Inr (BP_TryReadInt16LittleEndian be s)) (BP_WriteInt16LittleEndian be) (\<lambda>s v. Inr (BP_TryWriteInt16LittleEndian be s v))"
  by (auto simp: codec_laws_def BP_ReadInt16LittleEndian_def BP_TryReadInt16LittleEndian_def BP_WriteInt16LittleEndian_def BP_TryWriteInt16LittleEndian_def
      BP_checkSize_def order_alias_defs signed_loads signed_stores store_orders load_orders [OF _ refl])

lemma laws_UInt32LittleEndian: "codec_laws 4 False of_nat unat 0 (BP_ReadUInt32LittleEndian be) (\<lambda>s. Inr (BP_TryReadUInt32LittleEndian be s)) (BP_WriteUInt32LittleEndian be) (\<lambda>s v. Inr (BP_TryWriteUInt32LittleEndian be s v))"
  by (auto simp: codec_laws_def BP_ReadUInt32LittleEndian_def BP_TryReadUInt32LittleEndian_def BP_WriteUInt32LittleEndian_def BP_TryWriteUInt32LittleEndian_def
      BP_checkSize_def order_alias_defs store_orders load_orders [OF _ refl])

lemma laws_Int32LittleEndian: "codec_laws 4 False (\<lambda>k. sint (of_nat k :: uintcs)) (\<lambda>v. unat (of_int v :: uintcs)) 0 (BP_ReadInt32LittleEndian be) (\<lambda>s. Inr (BP_TryReadInt32LittleEndian be s)) (BP_WriteInt32LittleEndian be) (\<lambda>s v. Inr (BP_TryWriteInt32LittleEndian be s v))"
  by (auto simp: codec_laws_def BP_ReadInt32LittleEndian_def BP_TryReadInt32LittleEndian_def BP_WriteInt32LittleEndian_def BP_TryWriteInt32LittleEndian_def
      BP_checkSize_def order_alias_defs signed_loads signed_stores store_orders load_orders [OF _ refl])

lemma laws_UInt64LittleEndian: "codec_laws 8 False of_nat unat 0 (BP_ReadUInt64LittleEndian be) (\<lambda>s. Inr (BP_TryReadUInt64LittleEndian be s)) (BP_WriteUInt64LittleEndian be) (\<lambda>s v. Inr (BP_TryWriteUInt64LittleEndian be s v))"
  by (auto simp: codec_laws_def BP_ReadUInt64LittleEndian_def BP_TryReadUInt64LittleEndian_def BP_WriteUInt64LittleEndian_def BP_TryWriteUInt64LittleEndian_def
      BP_checkSize_def order_alias_defs store_orders load_orders [OF _ refl])

lemma laws_Int64LittleEndian: "codec_laws 8 False (\<lambda>k. sint (of_nat k :: ulongcs)) (\<lambda>v. unat (of_int v :: ulongcs)) 0 (BP_ReadInt64LittleEndian be) (\<lambda>s. Inr (BP_TryReadInt64LittleEndian be s)) (BP_WriteInt64LittleEndian be) (\<lambda>s v. Inr (BP_TryWriteInt64LittleEndian be s v))"
  by (auto simp: codec_laws_def BP_ReadInt64LittleEndian_def BP_TryReadInt64LittleEndian_def BP_WriteInt64LittleEndian_def BP_TryWriteInt64LittleEndian_def
      BP_checkSize_def order_alias_defs signed_loads signed_stores store_orders load_orders [OF _ refl])

lemma laws_SingleLittleEndian: "codec_laws 4 False of_nat unat 0 (BP_ReadSingleLittleEndian be) (\<lambda>s. Inr (BP_TryReadSingleLittleEndian be s)) (BP_WriteSingleLittleEndian be) (\<lambda>s v. Inr (BP_TryWriteSingleLittleEndian be s v))"
proof -
  have "BP_TryReadSingleLittleEndian be s = BP_TryReadUInt32LittleEndian be s" for s
    by (simp add: BP_TryReadSingleLittleEndian_def BP_TryReadUInt32LittleEndian_def)
  then show ?thesis using laws_UInt32LittleEndian [of be]
    by (simp only: codec_laws_def BP_ReadSingleLittleEndian_def BP_WriteSingleLittleEndian_def BP_TryWriteSingleLittleEndian_def)
qed

lemma laws_DoubleLittleEndian: "codec_laws 8 False of_nat unat 0 (BP_ReadDoubleLittleEndian be) (\<lambda>s. Inr (BP_TryReadDoubleLittleEndian be s)) (BP_WriteDoubleLittleEndian be) (\<lambda>s v. Inr (BP_TryWriteDoubleLittleEndian be s v))"
proof -
  have "BP_TryReadDoubleLittleEndian be s = BP_TryReadUInt64LittleEndian be s" for s
    by (simp add: BP_TryReadDoubleLittleEndian_def BP_TryReadUInt64LittleEndian_def)
  then show ?thesis using laws_UInt64LittleEndian [of be]
    by (simp only: codec_laws_def BP_ReadDoubleLittleEndian_def BP_WriteDoubleLittleEndian_def BP_TryWriteDoubleLittleEndian_def)
qed

lemma laws_UInt16BigEndian: "codec_laws 2 True of_nat unat 0 (BP_ReadUInt16BigEndian be) (\<lambda>s. Inr (BP_TryReadUInt16BigEndian be s)) (BP_WriteUInt16BigEndian be) (\<lambda>s v. Inr (BP_TryWriteUInt16BigEndian be s v))"
  by (auto simp: codec_laws_def BP_ReadUInt16BigEndian_def BP_TryReadUInt16BigEndian_def BP_WriteUInt16BigEndian_def BP_TryWriteUInt16BigEndian_def
      BP_checkSize_def order_alias_defs store_orders load_orders [OF _ refl])

lemma laws_Int16BigEndian: "codec_laws 2 True (\<lambda>k. sint (of_nat k :: 16 word)) (\<lambda>v. unat (of_int v :: 16 word)) 0 (BP_ReadInt16BigEndian be) (\<lambda>s. Inr (BP_TryReadInt16BigEndian be s)) (BP_WriteInt16BigEndian be) (\<lambda>s v. Inr (BP_TryWriteInt16BigEndian be s v))"
  by (auto simp: codec_laws_def BP_ReadInt16BigEndian_def BP_TryReadInt16BigEndian_def BP_WriteInt16BigEndian_def BP_TryWriteInt16BigEndian_def
      BP_checkSize_def order_alias_defs signed_loads signed_stores store_orders load_orders [OF _ refl])

lemma laws_UInt32BigEndian: "codec_laws 4 True of_nat unat 0 (BP_ReadUInt32BigEndian be) (\<lambda>s. Inr (BP_TryReadUInt32BigEndian be s)) (BP_WriteUInt32BigEndian be) (\<lambda>s v. Inr (BP_TryWriteUInt32BigEndian be s v))"
  by (auto simp: codec_laws_def BP_ReadUInt32BigEndian_def BP_TryReadUInt32BigEndian_def BP_WriteUInt32BigEndian_def BP_TryWriteUInt32BigEndian_def
      BP_checkSize_def order_alias_defs store_orders load_orders [OF _ refl])

lemma laws_Int32BigEndian: "codec_laws 4 True (\<lambda>k. sint (of_nat k :: uintcs)) (\<lambda>v. unat (of_int v :: uintcs)) 0 (BP_ReadInt32BigEndian be) (\<lambda>s. Inr (BP_TryReadInt32BigEndian be s)) (BP_WriteInt32BigEndian be) (\<lambda>s v. Inr (BP_TryWriteInt32BigEndian be s v))"
  by (auto simp: codec_laws_def BP_ReadInt32BigEndian_def BP_TryReadInt32BigEndian_def BP_WriteInt32BigEndian_def BP_TryWriteInt32BigEndian_def
      BP_checkSize_def order_alias_defs signed_loads signed_stores store_orders load_orders [OF _ refl])

lemma laws_UInt64BigEndian: "codec_laws 8 True of_nat unat 0 (BP_ReadUInt64BigEndian be) (\<lambda>s. Inr (BP_TryReadUInt64BigEndian be s)) (BP_WriteUInt64BigEndian be) (\<lambda>s v. Inr (BP_TryWriteUInt64BigEndian be s v))"
  by (auto simp: codec_laws_def BP_ReadUInt64BigEndian_def BP_TryReadUInt64BigEndian_def BP_WriteUInt64BigEndian_def BP_TryWriteUInt64BigEndian_def
      BP_checkSize_def order_alias_defs store_orders load_orders [OF _ refl])

lemma laws_Int64BigEndian: "codec_laws 8 True (\<lambda>k. sint (of_nat k :: ulongcs)) (\<lambda>v. unat (of_int v :: ulongcs)) 0 (BP_ReadInt64BigEndian be) (\<lambda>s. Inr (BP_TryReadInt64BigEndian be s)) (BP_WriteInt64BigEndian be) (\<lambda>s v. Inr (BP_TryWriteInt64BigEndian be s v))"
  by (auto simp: codec_laws_def BP_ReadInt64BigEndian_def BP_TryReadInt64BigEndian_def BP_WriteInt64BigEndian_def BP_TryWriteInt64BigEndian_def
      BP_checkSize_def order_alias_defs signed_loads signed_stores store_orders load_orders [OF _ refl])

lemma laws_SingleBigEndian: "codec_laws 4 True of_nat unat 0 (BP_ReadSingleBigEndian be) (\<lambda>s. Inr (BP_TryReadSingleBigEndian be s)) (BP_WriteSingleBigEndian be) (\<lambda>s v. Inr (BP_TryWriteSingleBigEndian be s v))"
proof -
  have "BP_TryReadSingleBigEndian be s = BP_TryReadUInt32BigEndian be s" for s
    by (simp add: BP_TryReadSingleBigEndian_def BP_TryReadUInt32BigEndian_def)
  then show ?thesis using laws_UInt32BigEndian [of be]
    by (simp only: codec_laws_def BP_ReadSingleBigEndian_def BP_WriteSingleBigEndian_def BP_TryWriteSingleBigEndian_def)
qed

lemma laws_DoubleBigEndian: "codec_laws 8 True of_nat unat 0 (BP_ReadDoubleBigEndian be) (\<lambda>s. Inr (BP_TryReadDoubleBigEndian be s)) (BP_WriteDoubleBigEndian be) (\<lambda>s v. Inr (BP_TryWriteDoubleBigEndian be s v))"
proof -
  have "BP_TryReadDoubleBigEndian be s = BP_TryReadUInt64BigEndian be s" for s
    by (simp add: BP_TryReadDoubleBigEndian_def BP_TryReadUInt64BigEndian_def)
  then show ?thesis using laws_UInt64BigEndian [of be]
    by (simp only: codec_laws_def BP_ReadDoubleBigEndian_def BP_WriteDoubleBigEndian_def BP_TryWriteDoubleBigEndian_def)
qed


lemma unat_bits_lt: "LENGTH('a::len) = 8 * n \<Longrightarrow> unat (v :: 'a word) < 256 ^ n"
  using unsigned_less [of v, where ?'a = nat] by (simp only: power_mult) simp

lemma nat_disjoint_or:
  assumes "n < 2 ^ k"
  shows "push_bit k m OR n = m * 2 ^ k + (n :: nat)"
proof -
  have "push_bit k m AND n = 0"
  proof (rule bit_eqI)
    fix j
    have "take_bit k n = n" using assms by (simp add: take_bit_nat_eq_self)
    then have "bit n j \<Longrightarrow> j < k" by (metis bit_take_bit_iff)
    then show "bit (push_bit k m AND n) j \<longleftrightarrow> bit 0 j" by (auto simp: bit_simps)
  qed
  then show ?thesis by (simp add: disjunctive_add_eq_or [symmetric] push_bit_eq_mult)
qed

lemma unsigned_codec:
  assumes "codec_laws n big (of_nat :: nat \<Rightarrow> 'a::len word) unat 0 rd tryrd wr trywr" and "LENGTH('a) = 8 * n"
  shows "endian_codec n big (of_nat :: nat \<Rightarrow> 'a word) unat 0 rd tryrd wr trywr"
proof
  show "unat (of_nat k :: 'a word) = k" if "k < 256 ^ n" for k
    using that assms(2) by (simp add: unsigned_of_nat take_bit_nat_eq_self power_mult)
qed (use assms unat_bits_lt in auto)

lemma signed_codec:
  assumes "codec_laws n big (\<lambda>k. sint (of_nat k :: 'a::len word)) (\<lambda>v. unat (of_int v :: 'a word)) 0 rd tryrd wr trywr"
    and "LENGTH('a) = 8 * n"
  shows "endian_codec n big (\<lambda>k. sint (of_nat k :: 'a word)) (\<lambda>v. unat (of_int v :: 'a word)) 0 rd tryrd wr trywr"
proof
  show "unat (of_int (sint (of_nat k :: 'a word)) :: 'a word) = k" if "k < 256 ^ n" for k
    using that assms(2) by (simp add: unsigned_of_nat take_bit_nat_eq_self power_mult)
qed (use assms unat_bits_lt in auto)

interpretation u16le: endian_codec 2 False "of_nat" "unat" 0 "(BP_ReadUInt16LittleEndian be)" "(\<lambda>s. Inr (BP_TryReadUInt16LittleEndian be s))" "(BP_WriteUInt16LittleEndian be)" "(\<lambda>s v. Inr (BP_TryWriteUInt16LittleEndian be s v))" for be
  by (rule unsigned_codec [OF laws_UInt16LittleEndian]) simp

interpretation i16le: endian_codec 2 False "(\<lambda>k. sint (of_nat k :: 16 word))" "(\<lambda>v. unat (of_int v :: 16 word))" 0 "(BP_ReadInt16LittleEndian be)" "(\<lambda>s. Inr (BP_TryReadInt16LittleEndian be s))" "(BP_WriteInt16LittleEndian be)" "(\<lambda>s v. Inr (BP_TryWriteInt16LittleEndian be s v))" for be
  by (rule signed_codec [OF laws_Int16LittleEndian]) simp

interpretation u32le: endian_codec 4 False "of_nat" "unat" 0 "(BP_ReadUInt32LittleEndian be)" "(\<lambda>s. Inr (BP_TryReadUInt32LittleEndian be s))" "(BP_WriteUInt32LittleEndian be)" "(\<lambda>s v. Inr (BP_TryWriteUInt32LittleEndian be s v))" for be
  by (rule unsigned_codec [OF laws_UInt32LittleEndian]) simp

interpretation i32le: endian_codec 4 False "(\<lambda>k. sint (of_nat k :: uintcs))" "(\<lambda>v. unat (of_int v :: uintcs))" 0 "(BP_ReadInt32LittleEndian be)" "(\<lambda>s. Inr (BP_TryReadInt32LittleEndian be s))" "(BP_WriteInt32LittleEndian be)" "(\<lambda>s v. Inr (BP_TryWriteInt32LittleEndian be s v))" for be
  by (rule signed_codec [OF laws_Int32LittleEndian]) simp

interpretation u64le: endian_codec 8 False "of_nat" "unat" 0 "(BP_ReadUInt64LittleEndian be)" "(\<lambda>s. Inr (BP_TryReadUInt64LittleEndian be s))" "(BP_WriteUInt64LittleEndian be)" "(\<lambda>s v. Inr (BP_TryWriteUInt64LittleEndian be s v))" for be
  by (rule unsigned_codec [OF laws_UInt64LittleEndian]) simp

interpretation i64le: endian_codec 8 False "(\<lambda>k. sint (of_nat k :: ulongcs))" "(\<lambda>v. unat (of_int v :: ulongcs))" 0 "(BP_ReadInt64LittleEndian be)" "(\<lambda>s. Inr (BP_TryReadInt64LittleEndian be s))" "(BP_WriteInt64LittleEndian be)" "(\<lambda>s v. Inr (BP_TryWriteInt64LittleEndian be s v))" for be
  by (rule signed_codec [OF laws_Int64LittleEndian]) simp

interpretation f32le: endian_codec 4 False "of_nat" "unat" 0 "(BP_ReadSingleLittleEndian be)" "(\<lambda>s. Inr (BP_TryReadSingleLittleEndian be s))" "(BP_WriteSingleLittleEndian be)" "(\<lambda>s v. Inr (BP_TryWriteSingleLittleEndian be s v))" for be
  by (rule unsigned_codec [OF laws_SingleLittleEndian]) simp

interpretation f64le: endian_codec 8 False "of_nat" "unat" 0 "(BP_ReadDoubleLittleEndian be)" "(\<lambda>s. Inr (BP_TryReadDoubleLittleEndian be s))" "(BP_WriteDoubleLittleEndian be)" "(\<lambda>s v. Inr (BP_TryWriteDoubleLittleEndian be s v))" for be
  by (rule unsigned_codec [OF laws_DoubleLittleEndian]) simp

interpretation u16be: endian_codec 2 True "of_nat" "unat" 0 "(BP_ReadUInt16BigEndian be)" "(\<lambda>s. Inr (BP_TryReadUInt16BigEndian be s))" "(BP_WriteUInt16BigEndian be)" "(\<lambda>s v. Inr (BP_TryWriteUInt16BigEndian be s v))" for be
  by (rule unsigned_codec [OF laws_UInt16BigEndian]) simp

interpretation i16be: endian_codec 2 True "(\<lambda>k. sint (of_nat k :: 16 word))" "(\<lambda>v. unat (of_int v :: 16 word))" 0 "(BP_ReadInt16BigEndian be)" "(\<lambda>s. Inr (BP_TryReadInt16BigEndian be s))" "(BP_WriteInt16BigEndian be)" "(\<lambda>s v. Inr (BP_TryWriteInt16BigEndian be s v))" for be
  by (rule signed_codec [OF laws_Int16BigEndian]) simp

interpretation u32be: endian_codec 4 True "of_nat" "unat" 0 "(BP_ReadUInt32BigEndian be)" "(\<lambda>s. Inr (BP_TryReadUInt32BigEndian be s))" "(BP_WriteUInt32BigEndian be)" "(\<lambda>s v. Inr (BP_TryWriteUInt32BigEndian be s v))" for be
  by (rule unsigned_codec [OF laws_UInt32BigEndian]) simp

interpretation i32be: endian_codec 4 True "(\<lambda>k. sint (of_nat k :: uintcs))" "(\<lambda>v. unat (of_int v :: uintcs))" 0 "(BP_ReadInt32BigEndian be)" "(\<lambda>s. Inr (BP_TryReadInt32BigEndian be s))" "(BP_WriteInt32BigEndian be)" "(\<lambda>s v. Inr (BP_TryWriteInt32BigEndian be s v))" for be
  by (rule signed_codec [OF laws_Int32BigEndian]) simp

interpretation u64be: endian_codec 8 True "of_nat" "unat" 0 "(BP_ReadUInt64BigEndian be)" "(\<lambda>s. Inr (BP_TryReadUInt64BigEndian be s))" "(BP_WriteUInt64BigEndian be)" "(\<lambda>s v. Inr (BP_TryWriteUInt64BigEndian be s v))" for be
  by (rule unsigned_codec [OF laws_UInt64BigEndian]) simp

interpretation i64be: endian_codec 8 True "(\<lambda>k. sint (of_nat k :: ulongcs))" "(\<lambda>v. unat (of_int v :: ulongcs))" 0 "(BP_ReadInt64BigEndian be)" "(\<lambda>s. Inr (BP_TryReadInt64BigEndian be s))" "(BP_WriteInt64BigEndian be)" "(\<lambda>s v. Inr (BP_TryWriteInt64BigEndian be s v))" for be
  by (rule signed_codec [OF laws_Int64BigEndian]) simp

interpretation f32be: endian_codec 4 True "of_nat" "unat" 0 "(BP_ReadSingleBigEndian be)" "(\<lambda>s. Inr (BP_TryReadSingleBigEndian be s))" "(BP_WriteSingleBigEndian be)" "(\<lambda>s v. Inr (BP_TryWriteSingleBigEndian be s v))" for be
  by (rule unsigned_codec [OF laws_SingleBigEndian]) simp

interpretation f64be: endian_codec 8 True "of_nat" "unat" 0 "(BP_ReadDoubleBigEndian be)" "(\<lambda>s. Inr (BP_TryReadDoubleBigEndian be s))" "(BP_WriteDoubleBigEndian be)" "(\<lambda>s v. Inr (BP_TryWriteDoubleBigEndian be s v))" for be
  by (rule unsigned_codec [OF laws_DoubleBigEndian]) simp

text \<open>128 bit values, from the contract of the 64 bit halves.\<close>

lemma value_halves:
  assumes "16 \<le> length src"
  shows "int128 (of_nat (le_value (take 8 (drop 8 src)))) (of_nat (le_value (take 8 src))) = of_nat (le_value (take 16 src))"
    and "int128 (of_nat (le_value (rev (take 8 src)))) (of_nat (le_value (rev (take 8 (drop 8 src))))) = of_nat (le_value (rev (take 16 src)))"
proof -
  have cat: "int128 (of_nat (le_value ys)) (of_nat (le_value xs)) = of_nat (le_value (xs @ ys))"
    if "length xs = 8" "length ys = 8" for xs ys
  proof -
    have b: "le_value xs < 2 ^ 64" "le_value ys < 2 ^ 64" using le_value_lt [of xs] le_value_lt [of ys] that by simp_all
    have u: "unat (ucast (of_nat k :: ulongcs) :: 128 word) = k" if "k < 2 ^ 64" for k
      using that by (simp add: unsigned_ucast_eq unsigned_of_nat take_bit_nat_eq_self)
    have "unat (push_bit 64 (ucast (of_nat (le_value ys) :: ulongcs) :: 128 word)) = push_bit 64 (le_value ys)"
      using b(2) by (simp only: unsigned_push_bit_eq u) (simp add: push_bit_eq_mult take_bit_nat_eq_self)
    then have "unat (int128 (of_nat (le_value ys)) (of_nat (le_value xs))) = push_bit 64 (le_value ys) OR le_value xs"
      using b(1) by (simp only: int128_def unsigned_or_eq u)
    also have "\<dots> = le_value (xs @ ys)"
      using nat_disjoint_or [OF b(1)] that by (simp add: le_value_append mult.commute)
    finally show ?thesis unfolding word_unat_eq_iff using that by (simp add: unat_of_value [of _ 16])
  qed
  have t: "take 16 src = take 8 src @ take 8 (drop 8 src)" using take_add [of 8 8 src] by simp
  show "int128 (of_nat (le_value (take 8 (drop 8 src)))) (of_nat (le_value (take 8 src))) = of_nat (le_value (take 16 src))"
    unfolding t using assms by (intro cat) simp_all
  show "int128 (of_nat (le_value (rev (take 8 src)))) (of_nat (le_value (rev (take 8 (drop 8 src))))) = of_nat (le_value (rev (take 16 src)))"
    unfolding t rev_append using assms by (intro cat) simp_all
qed

lemma bytes_halves: "le_bytes 16 (unat v) = le_bytes 8 (unat (getLowerProperty v)) @ le_bytes 8 (unat (getUpperProperty v))"
proof -
  have lo: "(ucast (drop_bit k v) :: bytecs) = ucast (drop_bit k (getLowerProperty v))" if "k \<le> 56" for k
    using that by (intro bit_word_eqI) (auto simp: bit_simps getLowerProperty_def)
  have hi: "(ucast (drop_bit (64 + k) v) :: bytecs) = ucast (drop_bit k (getUpperProperty v))" if "k \<le> 56" for k
    using that by (intro bit_word_eqI) (auto simp: bit_simps getUpperProperty_def ac_simps)
  show ?thesis
    using lo [of 0] lo [of 8] lo [of 16] lo [of 24] lo [of 32] lo [of 40] lo [of 48] lo [of 56]
      hi [of 0] hi [of 8] hi [of 16] hi [of 24] hi [of 32] hi [of 40] hi [of 48] hi [of 56]
    by (simp add: le_bytes_word upt_rec)
qed

lemma laws_UInt128LittleEndian: "codec_laws 16 False of_nat unat 0 (BP_ReadUInt128LittleEndian be) (BP_TryReadUInt128LittleEndian be) (BP_WriteUInt128LittleEndian be) (BP_TryWriteUInt128LittleEndian be)"
proof -
  show ?thesis
    by (auto simp: codec_laws_def BP_ReadUInt128LittleEndian_def BP_TryReadUInt128LittleEndian_def BP_WriteUInt128LittleEndian_def BP_TryWriteUInt128LittleEndian_def
        BP_checkSize_def slice_def u64le.read_ok u64le.write_ok value_halves bytes_halves)
qed

lemma laws_Int128LittleEndian: "codec_laws 16 False (\<lambda>k. sint (of_nat k :: 128 word)) (\<lambda>v. unat (of_int v :: 128 word)) 0 (BP_ReadInt128LittleEndian be) (BP_TryReadInt128LittleEndian be) (BP_WriteInt128LittleEndian be) (BP_TryWriteInt128LittleEndian be)"
proof -
  show ?thesis
    by (auto simp: codec_laws_def BP_ReadInt128LittleEndian_def BP_TryReadInt128LittleEndian_def BP_WriteInt128LittleEndian_def BP_TryWriteInt128LittleEndian_def
        BP_checkSize_def slice_def u64le.read_ok u64le.write_ok value_halves bytes_halves)
qed

lemma laws_UInt128BigEndian: "codec_laws 16 True of_nat unat 0 (BP_ReadUInt128BigEndian be) (BP_TryReadUInt128BigEndian be) (BP_WriteUInt128BigEndian be) (BP_TryWriteUInt128BigEndian be)"
proof -
  show ?thesis
    by (auto simp: codec_laws_def BP_ReadUInt128BigEndian_def BP_TryReadUInt128BigEndian_def BP_WriteUInt128BigEndian_def BP_TryWriteUInt128BigEndian_def
        BP_checkSize_def slice_def u64be.read_ok u64be.write_ok value_halves bytes_halves)
qed

lemma laws_Int128BigEndian: "codec_laws 16 True (\<lambda>k. sint (of_nat k :: 128 word)) (\<lambda>v. unat (of_int v :: 128 word)) 0 (BP_ReadInt128BigEndian be) (BP_TryReadInt128BigEndian be) (BP_WriteInt128BigEndian be) (BP_TryWriteInt128BigEndian be)"
proof -
  show ?thesis
    by (auto simp: codec_laws_def BP_ReadInt128BigEndian_def BP_TryReadInt128BigEndian_def BP_WriteInt128BigEndian_def BP_TryWriteInt128BigEndian_def
        BP_checkSize_def slice_def u64be.read_ok u64be.write_ok value_halves bytes_halves)
qed

interpretation u128le: endian_codec 16 False "of_nat" "unat" 0 "(BP_ReadUInt128LittleEndian be)" "(BP_TryReadUInt128LittleEndian be)" "(BP_WriteUInt128LittleEndian be)" "(BP_TryWriteUInt128LittleEndian be)" for be
  by (rule unsigned_codec [OF laws_UInt128LittleEndian]) simp

interpretation i128le: endian_codec 16 False "(\<lambda>k. sint (of_nat k :: 128 word))" "(\<lambda>v. unat (of_int v :: 128 word))" 0 "(BP_ReadInt128LittleEndian be)" "(BP_TryReadInt128LittleEndian be)" "(BP_WriteInt128LittleEndian be)" "(BP_TryWriteInt128LittleEndian be)" for be
  by (rule signed_codec [OF laws_Int128LittleEndian]) simp

interpretation u128be: endian_codec 16 True "of_nat" "unat" 0 "(BP_ReadUInt128BigEndian be)" "(BP_TryReadUInt128BigEndian be)" "(BP_WriteUInt128BigEndian be)" "(BP_TryWriteUInt128BigEndian be)" for be
  by (rule unsigned_codec [OF laws_UInt128BigEndian]) simp

interpretation i128be: endian_codec 16 True "(\<lambda>k. sint (of_nat k :: 128 word))" "(\<lambda>v. unat (of_int v :: 128 word))" 0 "(BP_ReadInt128BigEndian be)" "(BP_TryReadInt128BigEndian be)" "(BP_WriteInt128BigEndian be)" "(BP_TryWriteInt128BigEndian be)" for be
  by (rule signed_codec [OF laws_Int128BigEndian]) simp

lemma halves_int128: "getLowerProperty (int128 hi lo) = lo" "getUpperProperty (int128 hi lo) = hi"
  by (rule bit_word_eqI; auto simp: bit_simps getLowerProperty_def getUpperProperty_def int128_def dest: bit_imp_le_length)+

section \<open>Properties\<close>

text \<open>C39. The byte-order codecs, on a host of either byte order \<open>be\<close>: every reader takes the value of the first
  \<open>n\<close> bytes in the byte order of its name and ignores the rest; every writer replaces exactly the first \<open>n\<close> bytes;
  on a span shorter than \<open>n\<close> the plain forms throw and the \<open>Try\<close> forms return false, a zero value or the span unchanged.
  Half of the codecs swap bytes on each host, and the 128 bit ones are built from two 64 bit halves.\<close>

theorem binary_codecs:
  "codec_laws 2 False of_nat unat 0 (BP_ReadUInt16LittleEndian be) (\<lambda>s. Inr (BP_TryReadUInt16LittleEndian be s)) (BP_WriteUInt16LittleEndian be) (\<lambda>s v. Inr (BP_TryWriteUInt16LittleEndian be s v))
   \<and> codec_laws 2 False (\<lambda>k. sint (of_nat k :: 16 word)) (\<lambda>v. unat (of_int v :: 16 word)) 0 (BP_ReadInt16LittleEndian be) (\<lambda>s. Inr (BP_TryReadInt16LittleEndian be s)) (BP_WriteInt16LittleEndian be) (\<lambda>s v. Inr (BP_TryWriteInt16LittleEndian be s v))
   \<and> codec_laws 4 False of_nat unat 0 (BP_ReadUInt32LittleEndian be) (\<lambda>s. Inr (BP_TryReadUInt32LittleEndian be s)) (BP_WriteUInt32LittleEndian be) (\<lambda>s v. Inr (BP_TryWriteUInt32LittleEndian be s v))
   \<and> codec_laws 4 False (\<lambda>k. sint (of_nat k :: uintcs)) (\<lambda>v. unat (of_int v :: uintcs)) 0 (BP_ReadInt32LittleEndian be) (\<lambda>s. Inr (BP_TryReadInt32LittleEndian be s)) (BP_WriteInt32LittleEndian be) (\<lambda>s v. Inr (BP_TryWriteInt32LittleEndian be s v))
   \<and> codec_laws 8 False of_nat unat 0 (BP_ReadUInt64LittleEndian be) (\<lambda>s. Inr (BP_TryReadUInt64LittleEndian be s)) (BP_WriteUInt64LittleEndian be) (\<lambda>s v. Inr (BP_TryWriteUInt64LittleEndian be s v))
   \<and> codec_laws 8 False (\<lambda>k. sint (of_nat k :: ulongcs)) (\<lambda>v. unat (of_int v :: ulongcs)) 0 (BP_ReadInt64LittleEndian be) (\<lambda>s. Inr (BP_TryReadInt64LittleEndian be s)) (BP_WriteInt64LittleEndian be) (\<lambda>s v. Inr (BP_TryWriteInt64LittleEndian be s v))
   \<and> codec_laws 4 False of_nat unat 0 (BP_ReadSingleLittleEndian be) (\<lambda>s. Inr (BP_TryReadSingleLittleEndian be s)) (BP_WriteSingleLittleEndian be) (\<lambda>s v. Inr (BP_TryWriteSingleLittleEndian be s v))
   \<and> codec_laws 8 False of_nat unat 0 (BP_ReadDoubleLittleEndian be) (\<lambda>s. Inr (BP_TryReadDoubleLittleEndian be s)) (BP_WriteDoubleLittleEndian be) (\<lambda>s v. Inr (BP_TryWriteDoubleLittleEndian be s v))
   \<and> codec_laws 2 True of_nat unat 0 (BP_ReadUInt16BigEndian be) (\<lambda>s. Inr (BP_TryReadUInt16BigEndian be s)) (BP_WriteUInt16BigEndian be) (\<lambda>s v. Inr (BP_TryWriteUInt16BigEndian be s v))
   \<and> codec_laws 2 True (\<lambda>k. sint (of_nat k :: 16 word)) (\<lambda>v. unat (of_int v :: 16 word)) 0 (BP_ReadInt16BigEndian be) (\<lambda>s. Inr (BP_TryReadInt16BigEndian be s)) (BP_WriteInt16BigEndian be) (\<lambda>s v. Inr (BP_TryWriteInt16BigEndian be s v))
   \<and> codec_laws 4 True of_nat unat 0 (BP_ReadUInt32BigEndian be) (\<lambda>s. Inr (BP_TryReadUInt32BigEndian be s)) (BP_WriteUInt32BigEndian be) (\<lambda>s v. Inr (BP_TryWriteUInt32BigEndian be s v))
   \<and> codec_laws 4 True (\<lambda>k. sint (of_nat k :: uintcs)) (\<lambda>v. unat (of_int v :: uintcs)) 0 (BP_ReadInt32BigEndian be) (\<lambda>s. Inr (BP_TryReadInt32BigEndian be s)) (BP_WriteInt32BigEndian be) (\<lambda>s v. Inr (BP_TryWriteInt32BigEndian be s v))
   \<and> codec_laws 8 True of_nat unat 0 (BP_ReadUInt64BigEndian be) (\<lambda>s. Inr (BP_TryReadUInt64BigEndian be s)) (BP_WriteUInt64BigEndian be) (\<lambda>s v. Inr (BP_TryWriteUInt64BigEndian be s v))
   \<and> codec_laws 8 True (\<lambda>k. sint (of_nat k :: ulongcs)) (\<lambda>v. unat (of_int v :: ulongcs)) 0 (BP_ReadInt64BigEndian be) (\<lambda>s. Inr (BP_TryReadInt64BigEndian be s)) (BP_WriteInt64BigEndian be) (\<lambda>s v. Inr (BP_TryWriteInt64BigEndian be s v))
   \<and> codec_laws 4 True of_nat unat 0 (BP_ReadSingleBigEndian be) (\<lambda>s. Inr (BP_TryReadSingleBigEndian be s)) (BP_WriteSingleBigEndian be) (\<lambda>s v. Inr (BP_TryWriteSingleBigEndian be s v))
   \<and> codec_laws 8 True of_nat unat 0 (BP_ReadDoubleBigEndian be) (\<lambda>s. Inr (BP_TryReadDoubleBigEndian be s)) (BP_WriteDoubleBigEndian be) (\<lambda>s v. Inr (BP_TryWriteDoubleBigEndian be s v))
   \<and> codec_laws 16 False of_nat unat 0 (BP_ReadUInt128LittleEndian be) (BP_TryReadUInt128LittleEndian be) (BP_WriteUInt128LittleEndian be) (BP_TryWriteUInt128LittleEndian be)
   \<and> codec_laws 16 False (\<lambda>k. sint (of_nat k :: 128 word)) (\<lambda>v. unat (of_int v :: 128 word)) 0 (BP_ReadInt128LittleEndian be) (BP_TryReadInt128LittleEndian be) (BP_WriteInt128LittleEndian be) (BP_TryWriteInt128LittleEndian be)
   \<and> codec_laws 16 True of_nat unat 0 (BP_ReadUInt128BigEndian be) (BP_TryReadUInt128BigEndian be) (BP_WriteUInt128BigEndian be) (BP_TryWriteUInt128BigEndian be)
   \<and> codec_laws 16 True (\<lambda>k. sint (of_nat k :: 128 word)) (\<lambda>v. unat (of_int v :: 128 word)) 0 (BP_ReadInt128BigEndian be) (BP_TryReadInt128BigEndian be) (BP_WriteInt128BigEndian be) (BP_TryWriteInt128BigEndian be)"
  by (intro conjI laws_UInt16LittleEndian laws_Int16LittleEndian laws_UInt32LittleEndian laws_Int32LittleEndian laws_UInt64LittleEndian laws_Int64LittleEndian
      laws_SingleLittleEndian laws_DoubleLittleEndian laws_UInt16BigEndian laws_Int16BigEndian laws_UInt32BigEndian laws_Int32BigEndian
      laws_UInt64BigEndian laws_Int64BigEndian laws_SingleBigEndian laws_DoubleBigEndian laws_UInt128LittleEndian laws_Int128LittleEndian laws_UInt128BigEndian laws_Int128BigEndian)

text \<open>Round trips of the codecs: a value written at the start of a long enough span is read back, whatever follows, with the
  other bytes of the span untouched (a signed value when it is in the range of its type); and writing back a value that was read
  leaves the span as it was.\<close>

theorem binary_roundtrip:
  "codec_inverse 2 (\<lambda>_. True) (BP_ReadUInt16LittleEndian be) (BP_WriteUInt16LittleEndian be)
   \<and> codec_inverse 2 (signed_range 16) (BP_ReadInt16LittleEndian be) (BP_WriteInt16LittleEndian be)
   \<and> codec_inverse 4 (\<lambda>_. True) (BP_ReadUInt32LittleEndian be) (BP_WriteUInt32LittleEndian be)
   \<and> codec_inverse 4 (signed_range 32) (BP_ReadInt32LittleEndian be) (BP_WriteInt32LittleEndian be)
   \<and> codec_inverse 8 (\<lambda>_. True) (BP_ReadUInt64LittleEndian be) (BP_WriteUInt64LittleEndian be)
   \<and> codec_inverse 8 (signed_range 64) (BP_ReadInt64LittleEndian be) (BP_WriteInt64LittleEndian be)
   \<and> codec_inverse 4 (\<lambda>_. True) (BP_ReadSingleLittleEndian be) (BP_WriteSingleLittleEndian be)
   \<and> codec_inverse 8 (\<lambda>_. True) (BP_ReadDoubleLittleEndian be) (BP_WriteDoubleLittleEndian be)
   \<and> codec_inverse 2 (\<lambda>_. True) (BP_ReadUInt16BigEndian be) (BP_WriteUInt16BigEndian be)
   \<and> codec_inverse 2 (signed_range 16) (BP_ReadInt16BigEndian be) (BP_WriteInt16BigEndian be)
   \<and> codec_inverse 4 (\<lambda>_. True) (BP_ReadUInt32BigEndian be) (BP_WriteUInt32BigEndian be)
   \<and> codec_inverse 4 (signed_range 32) (BP_ReadInt32BigEndian be) (BP_WriteInt32BigEndian be)
   \<and> codec_inverse 8 (\<lambda>_. True) (BP_ReadUInt64BigEndian be) (BP_WriteUInt64BigEndian be)
   \<and> codec_inverse 8 (signed_range 64) (BP_ReadInt64BigEndian be) (BP_WriteInt64BigEndian be)
   \<and> codec_inverse 4 (\<lambda>_. True) (BP_ReadSingleBigEndian be) (BP_WriteSingleBigEndian be)
   \<and> codec_inverse 8 (\<lambda>_. True) (BP_ReadDoubleBigEndian be) (BP_WriteDoubleBigEndian be)
   \<and> codec_inverse 16 (\<lambda>_. True) (BP_ReadUInt128LittleEndian be) (BP_WriteUInt128LittleEndian be)
   \<and> codec_inverse 16 (signed_range 128) (BP_ReadInt128LittleEndian be) (BP_WriteInt128LittleEndian be)
   \<and> codec_inverse 16 (\<lambda>_. True) (BP_ReadUInt128BigEndian be) (BP_WriteUInt128BigEndian be)
   \<and> codec_inverse 16 (signed_range 128) (BP_ReadInt128BigEndian be) (BP_WriteInt128BigEndian be)"
  by (intro conjI) (rule u16le.inverse i16le.inverse u32le.inverse i32le.inverse u64le.inverse i64le.inverse f32le.inverse f64le.inverse u16be.inverse i16be.inverse u32be.inverse i32be.inverse u64be.inverse i64be.inverse f32be.inverse f64be.inverse u128le.inverse i128le.inverse u128be.inverse i128be.inverse; simp add: signed_range_def signed_of_int signed_take_bit_int_eq_self)+

text \<open>Byte swapping: \<open>ReverseEndianness\<close> reverses the bytes of its operand for every width, signed or not; the 128 bit
  form swaps the halves and the bytes of each.\<close>

lemma binary_reverse:
  "le_bytes 2 (unat (BP_ReverseEndianness_UInt16 v2)) = rev (le_bytes 2 (unat v2))
   \<and> le_bytes 4 (unat (BP_ReverseEndianness_UInt32 v4)) = rev (le_bytes 4 (unat v4))
   \<and> le_bytes 8 (unat (BP_ReverseEndianness_UInt64 v8)) = rev (le_bytes 8 (unat v8))
   \<and> le_bytes 16 (unat (BP_ReverseEndianness_UInt128 v16)) = rev (le_bytes 16 (unat v16))
   \<and> BP_ReverseEndianness_Int16 (sint v2) = sint (BP_ReverseEndianness_UInt16 v2)
   \<and> BP_ReverseEndianness_Int32 (sint v4) = sint (BP_ReverseEndianness_UInt32 v4)
   \<and> BP_ReverseEndianness_Int64 (sint v8) = sint (BP_ReverseEndianness_UInt64 v8)
   \<and> BP_ReverseEndianness_Int128 (sint v16) = sint (BP_ReverseEndianness_UInt128 v16)"
  by (simp add: BP_ReverseEndianness_Int16_def BP_ReverseEndianness_Int32_def BP_ReverseEndianness_Int64_def
      BP_ReverseEndianness_UInt16_def BP_ReverseEndianness_UInt32_def BP_ReverseEndianness_UInt64_def
      bswap16_bytes bswap32_bytes bswap64_bytes bytes_halves halves_int128
      BP_ReverseEndianness_Int128_def BP_ReverseEndianness_UInt128_def)

end
