(* ===== verification/Text_Utf8.thy ===== *)
theory Text_Utf8
  imports SR_Prelude
begin

unbundle bit_operations_syntax

text \<open>
  UTF-8 and Unicode scalar values: \<^verbatim>\<open>System/detail/Utf8Scalar.hpp\<close> (the shared decoder in its reporting and
  substituting forms, and the encoder), \<^verbatim>\<open>System/detail/Utf8Text.hpp\<close> (the second decoder and the white
  space table) and the scalar part of \<^verbatim>\<open>System/Text/Rune.hpp\<close>. Both decoders are shown to implement
  the UTF-8 of RFC 3629.
\<close>

section \<open>Model: Utf8Scalar.hpp\<close>

definition isContinuation :: "bytecs \<Rightarrow> bool" where
  "isContinuation b \<longleftrightarrow> b AND 0xC0 = 0x80"

definition isSurrogate :: "uintcs \<Rightarrow> bool" where
  "isSurrogate v \<longleftrightarrow> 0xD800 \<le> v \<and> v \<le> 0xDFFF"

text \<open>
  The reporting form. \<open>Inl length\<close>: it returned false, with that number of bytes to skip;
  \<open>Inr (codePoint, length)\<close>: it returned true.
\<close>

definition TryDecodeUtf8Scalar :: "bytecs list \<Rightarrow> nat \<Rightarrow> nat \<Rightarrow> nat + uintcs \<times> nat" where
  "TryDecodeUtf8Scalar s sz i =
     (let c0 = s ! i;
          finish = (\<lambda>cp len. if cp > 0x10FFFF \<or> isSurrogate cp then Inl len else Inr (cp, len))
      in if c0 < 0x80 then finish (ucast c0) 1
         else if c0 AND 0xE0 = 0xC0 \<and> i + 1 < sz \<and> isContinuation (s ! (i + 1))
         then let cp = push_bit 6 (ucast (c0 AND 0x1F)) OR ucast (s ! (i + 1) AND 0x3F)
              in if cp < 0x80 then Inl 1 else finish cp 2
         else if c0 AND 0xF0 = 0xE0 \<and> i + 2 < sz \<and> isContinuation (s ! (i + 1)) \<and> isContinuation (s ! (i + 2))
         then let cp = push_bit 12 (ucast (c0 AND 0x0F)) OR push_bit 6 (ucast (s ! (i + 1) AND 0x3F)) OR
                       ucast (s ! (i + 2) AND 0x3F)
              in if cp < 0x800 then Inl 1 else finish cp 3
         else if c0 AND 0xF8 = 0xF0 \<and> i + 3 < sz \<and> isContinuation (s ! (i + 1)) \<and> isContinuation (s ! (i + 2)) \<and>
                 isContinuation (s ! (i + 3))
         then let cp = push_bit 18 (ucast (c0 AND 0x07)) OR push_bit 12 (ucast (s ! (i + 1) AND 0x3F)) OR
                       push_bit 6 (ucast (s ! (i + 2) AND 0x3F)) OR ucast (s ! (i + 3) AND 0x3F)
              in if cp < 0x10000 then Inl 1 else finish cp 4
         else Inl 1)"

text \<open>The substituting form.\<close>

definition DecodeUtf8Scalar :: "bytecs list \<Rightarrow> nat \<Rightarrow> uintcs \<times> nat" where
  "DecodeUtf8Scalar s i =
     (case TryDecodeUtf8Scalar s (length s) i of Inl len \<Rightarrow> (0xFFFD, 1) | Inr r \<Rightarrow> r)"

definition AppendUtf8Scalar :: "bytecs list \<Rightarrow> uintcs \<Rightarrow> bytecs list" where
  "AppendUtf8Scalar out cp =
     (if cp < 0x80 then out @ [ucast cp]
      else if cp < 0x800 then out @ [ucast (0xC0 OR drop_bit 6 cp), ucast (0x80 OR cp AND 0x3F)]
      else if cp < 0x10000
      then out @ [ucast (0xE0 OR drop_bit 12 cp), ucast (0x80 OR drop_bit 6 cp AND 0x3F), ucast (0x80 OR cp AND 0x3F)]
      else out @ [ucast (0xF0 OR drop_bit 18 cp), ucast (0x80 OR drop_bit 12 cp AND 0x3F),
                  ucast (0x80 OR drop_bit 6 cp AND 0x3F), ucast (0x80 OR cp AND 0x3F)])"

section \<open>Model: Utf8Text.hpp\<close>

record Utf8Decoded =
  ud_scalar :: uintcs
  ud_length :: nat
  ud_valid :: bool

abbreviation invalid1 :: Utf8Decoded where
  "invalid1 \<equiv> \<lparr>ud_scalar = 0, ud_length = 1, ud_valid = False\<rparr>"

text \<open>The loop over the continuation bytes: \<open>None\<close> at the first byte that is none.\<close>

primrec continuation_loop :: "bytecs list \<Rightarrow> uintcs \<Rightarrow> uintcs option" where
  "continuation_loop [] scalar = Some scalar"
| "continuation_loop (b # bs) scalar =
     (if b AND 0xC0 \<noteq> 0x80 then None else continuation_loop bs (push_bit 6 scalar OR ucast (b AND 0x3F)))"

text \<open>\<open>data\<close> are the available bytes; no bytes and the null pointer give the same result.\<close>

definition DecodeUtf8 :: "bytecs list \<Rightarrow> Utf8Decoded" where
  "DecodeUtf8 data =
     (case data of
        [] \<Rightarrow> \<lparr>ud_scalar = 0, ud_length = 0, ud_valid = False\<rparr>
      | b0 # _ \<Rightarrow>
          if b0 < 0x80 then \<lparr>ud_scalar = ucast b0, ud_length = 1, ud_valid = True\<rparr>
          else if b0 < 0xC2 then invalid1
          else
            let finish = (\<lambda>len scalar minimum.
                  if length data < len then invalid1
                  else case continuation_loop (take (len - 1) (drop 1 data)) scalar of
                         None \<Rightarrow> invalid1
                       | Some sc \<Rightarrow>
                           if sc < minimum \<or> isSurrogate sc \<or> sc > 0x10FFFF then invalid1
                           else \<lparr>ud_scalar = sc, ud_length = len, ud_valid = True\<rparr>)
            in if b0 < 0xE0 then finish 2 (ucast (b0 AND 0x1F)) 0x80
               else if b0 < 0xF0 then finish 3 (ucast (b0 AND 0x0F)) 0x800
               else if b0 < 0xF5 then finish 4 (ucast (b0 AND 0x07)) 0x10000
               else invalid1)"

definition IsUnicodeWhiteSpace :: "uintcs \<Rightarrow> bool" where
  "IsUnicodeWhiteSpace c \<longleftrightarrow>
     0x9 \<le> c \<and> c \<le> 0xD \<or> c = 0x20 \<or> c = 0x85 \<or> c = 0xA0 \<or> c = 0x1680 \<or> 0x2000 \<le> c \<and> c \<le> 0x200A \<or>
     c = 0x2028 \<or> c = 0x2029 \<or> c = 0x202F \<or> c = 0x205F \<or> c = 0x3000"

definition IsUtf8WhiteSpace :: "bytecs list \<Rightarrow> bool \<times> nat" where
  "IsUtf8WhiteSpace data =
     (let d = DecodeUtf8 data
      in (ud_valid d \<and> IsUnicodeWhiteSpace (ud_scalar d), if ud_length d = 0 then 1 else ud_length d))"

section \<open>Model: Rune\<close>

text \<open>A \<^verbatim>\<open>Rune\<close> is its \<^verbatim>\<open>value_\<close>.\<close>

type_synonym Rune = uintcs

definition Rune_IsValid :: "uintcs \<Rightarrow> bool" where
  "Rune_IsValid v \<longleftrightarrow> v \<le> 0x10FFFF \<and> \<not> isSurrogate v"

definition Rune_ctor :: "uintcs \<Rightarrow> Rune res" where
  "Rune_ctor v = (if \<not> Rune_IsValid v then Inl (ArgumentOutOfRangeException ''value'') else Inr v)"

definition Rune_Utf16SequenceLength :: "Rune \<Rightarrow> intcs" where
  "Rune_Utf16SequenceLength r = (if r \<ge> 0x10000 then 2 else 1)"

definition Rune_Utf8SequenceLength :: "Rune \<Rightarrow> intcs" where
  "Rune_Utf8SequenceLength r = (if r < 0x80 then 1 else if r < 0x800 then 2 else if r < 0x10000 then 3 else 4)"

text \<open>\<open>(false, bytesConsumed)\<close> is \<open>Inr (None, n)\<close>; the construction of the result could throw.\<close>

definition Rune_TryGetRuneAt :: "bytecs list \<Rightarrow> nat \<Rightarrow> (Rune option \<times> nat) res" where
  "Rune_TryGetRuneAt value index =
     (if index \<ge> length value then Inr (None, 0)
      else case TryDecodeUtf8Scalar value (length value) index of
             Inl len \<Rightarrow> Inr (None, len)
           | Inr (cp, len) \<Rightarrow> bind_res (Rune_ctor cp) (\<lambda>r. Inr (Some r, len)))"

definition Rune_whitespace_table :: "uintcs list" where
  "Rune_whitespace_table =
     [0x9, 0xA, 0xB, 0xC, 0xD, 0x20, 0x85, 0xA0, 0x1680, 0x2000, 0x2001, 0x2002, 0x2003, 0x2004, 0x2005, 0x2006,
      0x2007, 0x2008, 0x2009, 0x200A, 0x2028, 0x2029, 0x202F, 0x205F, 0x3000]"

definition Rune_IsWhiteSpace :: "Rune \<Rightarrow> bool" where
  "Rune_IsWhiteSpace r = list_ex (\<lambda>w. r = w) Rune_whitespace_table"

definition Rune_ToString :: "Rune \<Rightarrow> bytecs list" where
  "Rune_ToString r = AppendUtf8Scalar [] r"

section \<open>Reference: RFC 3629\<close>

definition is_scalar :: "nat \<Rightarrow> bool" where
  "is_scalar n \<longleftrightarrow> n \<le> 0x10FFFF \<and> \<not> (0xD800 \<le> n \<and> n \<le> 0xDFFF)"

definition utf8 :: "nat \<Rightarrow> bytecs list" where
  "utf8 n =
     (if n < 0x80 then [of_nat n]
      else if n < 0x800 then [of_nat (0xC0 + n div 64), of_nat (0x80 + n mod 64)]
      else if n < 0x10000 then [of_nat (0xE0 + n div 4096), of_nat (0x80 + n div 64 mod 64), of_nat (0x80 + n mod 64)]
      else [of_nat (0xF0 + n div 262144), of_nat (0x80 + n div 4096 mod 64), of_nat (0x80 + n div 64 mod 64),
            of_nat (0x80 + n mod 64)])"

text \<open>The text at the head of \<open>bs\<close> is the scalar value \<open>n\<close>.\<close>

definition starts_with :: "bytecs list \<Rightarrow> nat \<Rightarrow> bool" where
  "starts_with bs n \<longleftrightarrow> is_scalar n \<and> take (length (utf8 n)) bs = utf8 n"

section \<open>Bits of a byte\<close>

lemma nat_and_high:
  fixes n :: nat
  assumes "n < 2 ^ (k + j)"
  shows "n AND push_bit k (mask j) = n div 2 ^ k * 2 ^ k"
proof -
  have "n AND push_bit k (mask j) = push_bit k (drop_bit k n AND mask j)"
    by (rule bit_eqI) (auto simp: bit_simps)
  also have "drop_bit k n AND mask j = drop_bit k n"
    using assms less_mult_imp_div_less [of n "2 ^ j" "2 ^ k"]
    by (simp add: take_bit_eq_mask [symmetric] drop_bit_eq_div take_bit_nat_eq_self power_add mult.commute)
  finally show ?thesis by (simp add: push_bit_eq_mult drop_bit_eq_div)
qed

lemma byte_and_high:
  fixes b :: bytecs
  shows "b AND 0xC0 = 0x80 \<longleftrightarrow> unat b div 64 = 2" "b AND 0xE0 = 0xC0 \<longleftrightarrow> unat b div 32 = 6"
    "b AND 0xF0 = 0xE0 \<longleftrightarrow> unat b div 16 = 14" "b AND 0xF8 = 0xF0 \<longleftrightarrow> unat b div 8 = 30"
proof -
  have 1: "unat (b AND 0xC0) = unat b div 64 * 64" "unat (b AND 0xE0) = unat b div 32 * 32"
    "unat (b AND 0xF0) = unat b div 16 * 16" "unat (b AND 0xF8) = unat b div 8 * 8"
    using nat_and_high [of "unat b" 6 2] nat_and_high [of "unat b" 5 3] nat_and_high [of "unat b" 4 4]
      nat_and_high [of "unat b" 3 5]
    by (simp_all add: unsigned_and_eq mask_eq_exp_minus_1 push_bit_eq_mult)
  show "b AND 0xC0 = 0x80 \<longleftrightarrow> unat b div 64 = 2" "b AND 0xE0 = 0xC0 \<longleftrightarrow> unat b div 32 = 6"
    "b AND 0xF0 = 0xE0 \<longleftrightarrow> unat b div 16 = 14" "b AND 0xF8 = 0xF0 \<longleftrightarrow> unat b div 8 = 30"
    by (simp_all only: word_unat_eq_iff 1) simp_all
qed

lemma byte_and_low:
  fixes b :: bytecs
  shows "unat (b AND 0x3F) = unat b mod 64" "unat (b AND 0x1F) = unat b mod 32" "unat (b AND 0xF) = unat b mod 16"
    "unat (b AND 7) = unat b mod 8"
proof -
  have "unat b AND mask k = unat b mod 2 ^ k" for k by (simp add: take_bit_eq_mask [symmetric] take_bit_eq_mod)
  from this [of 6] this [of 5] this [of 4] this [of 3] show
    "unat (b AND 0x3F) = unat b mod 64" "unat (b AND 0x1F) = unat b mod 32" "unat (b AND 0xF) = unat b mod 16"
    "unat (b AND 7) = unat b mod 8"
    by (simp_all add: unsigned_and_eq mask_eq_exp_minus_1)
qed

lemma isContinuation_unat: "isContinuation b \<longleftrightarrow> unat b div 64 = 2"
  by (simp add: isContinuation_def byte_and_high)

lemma isSurrogate_unat: "isSurrogate v \<longleftrightarrow> 0xD800 \<le> unat v \<and> unat v \<le> 0xDFFF"
  by (simp add: isSurrogate_def word_le_nat_alt)

lemma not_scalar: "v > 0x10FFFF \<or> isSurrogate v \<longleftrightarrow> \<not> is_scalar (unat v)" for v :: uintcs
  by (auto simp: isSurrogate_unat is_scalar_def word_less_nat_alt)

lemma unat_of_nat_byte: "n < 256 \<Longrightarrow> unat (of_nat n :: bytecs) = n"
  by (simp add: unat_of_nat)

text \<open>One more continuation byte.\<close>

lemma unat_shift6:
  fixes v :: uintcs and b :: bytecs
  assumes "unat v < 2 ^ 26"
  shows "unat (push_bit 6 v OR ucast (b AND 0x3F)) = unat v * 64 + unat b mod 64"
  using unat_shift_or [of "ucast (b AND 0x3F)" 6 v] assms by (simp add: unat_ucast_byte byte_and_low)

section \<open>The reference decoder\<close>

text \<open>Number of continuation bytes, payload and smallest value of a lead byte.\<close>

definition lead :: "nat \<Rightarrow> (nat \<times> nat \<times> nat) option" where
  "lead c =
     (if c < 0x80 then Some (0, c, 0)
      else if c div 32 = 6 then Some (1, c mod 32, 0x80)
      else if c div 16 = 14 then Some (2, c mod 16, 0x800)
      else if c div 8 = 30 then Some (3, c mod 8, 0x10000)
      else None)"

lemma field: "x < d \<Longrightarrow> (q * d + x) div d = q" "x < d \<Longrightarrow> (q * d + x) mod d = x" for d :: nat
  by simp_all

lemma field64: "x < 64 \<Longrightarrow> (q * 64 + x) div 64 = q" "x < 64 \<Longrightarrow> (q * 64 + x) mod 64 = x" for x :: nat
  by simp_all

lemma div_64: "n div 4096 = n div 64 div 64" "n div 262144 = n div 64 div 64 div 64" for n :: nat
  by (simp_all add: div_mult2_eq [symmetric])

lemma split_64:
  "n div 64 * 64 + n mod 64 = n" "(n div 64 div 64 * 64 + n div 64 mod 64) * 64 + n mod 64 = n"
  "((n div 64 div 64 div 64 * 64 + n div 64 div 64 mod 64) * 64 + n div 64 mod 64) * 64 + n mod 64 = n" for n :: nat
  by simp_all

lemma bound3:
  fixes x y z :: nat
  assumes "x < 16" and "y < 64" and "z < 64"
  shows "(x * 64 + y) * 64 + z < 0x10000"
proof -
  have step: "u * 64 + v < k * 64" if "u < k" "v < 64" for u v k :: nat
    using that mult_le_mono1 [of "Suc u" k 64] by simp
  from step [OF step [OF assms(1,2)] assms(3)] show ?thesis by simp
qed

lemma cont_byte: "x < 64 \<Longrightarrow> (0x80 + x) div 64 = 2" "x < 64 \<Longrightarrow> (0x80 + x) mod 64 = x" for x :: nat
  using field [of x 64 2] by simp_all

lemma lead_values:
  "x < 32 \<Longrightarrow> lead (0xC0 + x) = Some (1, x, 0x80)" "x < 16 \<Longrightarrow> lead (0xE0 + x) = Some (2, x, 0x800)"
  "x < 8 \<Longrightarrow> lead (0xF0 + x) = Some (3, x, 0x10000)"
proof -
  assume "x < 32"
  then show "lead (0xC0 + x) = Some (1, x, 0x80)" using field [of x 32 6] by (simp add: lead_def)
next
  assume "x < 16"
  then show "lead (0xE0 + x) = Some (2, x, 0x800)"
    using field [of x 32 7] field [of x 16 14] by (simp add: lead_def)
next
  assume "x < 8"
  then show "lead (0xF0 + x) = Some (3, x, 0x10000)"
    using field [of "16 + x" 32 7] field [of x 16 15] field [of x 8 30] by (simp add: lead_def)
qed

fun conts :: "bytecs list \<Rightarrow> nat \<Rightarrow> nat \<Rightarrow> nat option" where
  "conts bs 0 v = Some v"
| "conts [] (Suc k) v = None"
| "conts (b # bs) (Suc k) v = (if unat b div 64 = 2 then conts bs k (v * 64 + unat b mod 64) else None)"

definition rfc :: "bytecs list \<Rightarrow> (nat \<times> nat) option" where
  "rfc bs =
     (case bs of
        [] \<Rightarrow> None
      | b # r \<Rightarrow>
          (case lead (unat b) of
             None \<Rightarrow> None
           | Some (k, v, m) \<Rightarrow>
               (case conts r k v of
                  None \<Rightarrow> None
                | Some n \<Rightarrow> if m \<le> n \<and> is_scalar n then Some (n, Suc k) else None)))"

lemma conts_1: "conts (b # bs) 1 v = (if unat b div 64 = 2 then Some (v * 64 + unat b mod 64) else None)"
  by (simp only: One_nat_def conts.simps)

lemma conts_2:
  "conts (a # b # bs) 2 v =
     (if unat a div 64 = 2 \<and> unat b div 64 = 2 then Some ((v * 64 + unat a mod 64) * 64 + unat b mod 64) else None)"
  by (simp only: Suc_1 [symmetric] conts.simps conts_1 [unfolded One_nat_def] One_nat_def) simp

lemma conts_3:
  "conts (a # b # c # bs) 3 v =
     (if unat a div 64 = 2 \<and> unat b div 64 = 2 \<and> unat c div 64 = 2
      then Some (((v * 64 + unat a mod 64) * 64 + unat b mod 64) * 64 + unat c mod 64) else None)"
  proof -
  have "(3 :: nat) = Suc 2" by simp
  then show ?thesis by (simp only: conts.simps conts_2) simp
qed

lemma conts_long: "conts bs k v = Some n \<Longrightarrow> k \<le> length bs"
  by (induction bs k v rule: conts.induct) (auto split: if_splits)

lemma length_ge:
  "1 \<le> length r \<Longrightarrow> \<exists>a r'. r = a # r'" "2 \<le> length r \<Longrightarrow> \<exists>a b r'. r = a # b # r'"
  "3 \<le> length r \<Longrightarrow> \<exists>a b c r'. r = a # b # c # r'"
  by (auto simp: Suc_le_length_iff numeral_eq_Suc)

lemma rfc_sound:
  assumes "rfc bs = Some (n, len)"
  shows "starts_with bs n \<and> len = length (utf8 n)"
proof -
  from assms obtain b r k v m where bs: "bs = b # r" and l: "lead (unat b) = Some (k, v, m)"
    and c: "conts r k v = Some n" and n: "m \<le> n" "is_scalar n" "len = Suc k"
    by (auto simp: rfc_def split: list.splits option.splits prod.splits if_splits)
  consider "k = 0" "unat b < 0x80" "v = unat b" "m = 0"
    | "k = 1" "unat b div 32 = 6" "v = unat b mod 32" "m = 0x80"
    | "k = 2" "unat b div 16 = 14" "v = unat b mod 16" "m = 0x800"
    | "k = 3" "unat b div 8 = 30" "v = unat b mod 8" "m = 0x10000"
    using l by (auto simp: lead_def split: if_splits)
  then show ?thesis
  proof cases
    case 1
    with c n show ?thesis by (auto simp: bs starts_with_def utf8_def)
  next
    case 2
    from conts_long [OF c] 2(1) obtain b1 r1 where "r = b1 # r1" using length_ge(1) by blast
    with c 2 have r: "r = b1 # r1" "unat b1 div 64 = 2" "n = unat b mod 32 * 64 + unat b1 mod 64"
      by (simp_all add: conts_1 del: One_nat_def split: if_splits)
    have b: "unat b = 0xC0 + unat b mod 32" "unat b1 = 0x80 + unat b1 mod 64"
      using div_mult_mod_eq [of "unat b" 32] div_mult_mod_eq [of "unat b1" 64] 2(2) r(2) by simp_all
    have "n div 64 = unat b mod 32" "n mod 64 = unat b1 mod 64" unfolding r(3) by (rule field64, simp)+
    moreover have "unat b mod 32 < 32" "unat b1 mod 64 < 64" by simp_all
    ultimately have "0xC0 + n div 64 = unat b" "0x80 + n mod 64 = unat b1" "n < 0x800" using b r(3) by linarith+
    with n(1,2,3) 2(1,4) show ?thesis by (simp add: bs r(1) starts_with_def utf8_def del: of_nat_add)
  next
    case 3
    from conts_long [OF c] 3(1) obtain b1 b2 r1 where "r = b1 # b2 # r1" using length_ge(2) by blast
    with c 3 have r: "r = b1 # b2 # r1" "unat b1 div 64 = 2" "unat b2 div 64 = 2"
      "n = (unat b mod 16 * 64 + unat b1 mod 64) * 64 + unat b2 mod 64"
      by (simp_all add: conts_2 del: One_nat_def split: if_splits)
    have "0xE0 + n div 4096 = unat b" "0x80 + n div 64 mod 64 = unat b1" "0x80 + n mod 64 = unat b2" "n < 0x10000"
    proof -
      have b: "unat b = 0xE0 + unat b mod 16" "unat b1 = 0x80 + unat b1 mod 64" "unat b2 = 0x80 + unat b2 mod 64"
        using div_mult_mod_eq [of "unat b" 16] div_mult_mod_eq [of "unat b1" 64] div_mult_mod_eq [of "unat b2" 64] 3(2) r(2,3)
        by simp_all
      have d: "n div 64 = unat b mod 16 * 64 + unat b1 mod 64" "n mod 64 = unat b2 mod 64"
        unfolding r(4) by (rule field64, simp)+
      have "n div 64 div 64 = unat b mod 16" "n div 64 mod 64 = unat b1 mod 64" unfolding d(1) by (rule field64, simp)+
      then show "0xE0 + n div 4096 = unat b" "0x80 + n div 64 mod 64 = unat b1" "0x80 + n mod 64 = unat b2"
        using b d(2) by (simp_all only: div_64)
      show "n < 0x10000" unfolding r(4) by (rule bound3) simp_all
    qed
    with n(1,2,3) 3(1,4) show ?thesis by (simp add: bs r(1) starts_with_def utf8_def del: of_nat_add)
  next
    case 4
    from conts_long [OF c] 4(1) obtain b1 b2 b3 r1 where "r = b1 # b2 # b3 # r1" using length_ge(3) by blast
    with c 4 have r: "r = b1 # b2 # b3 # r1" "unat b1 div 64 = 2" "unat b2 div 64 = 2" "unat b3 div 64 = 2"
      "n = ((unat b mod 8 * 64 + unat b1 mod 64) * 64 + unat b2 mod 64) * 64 + unat b3 mod 64"
      by (simp_all add: conts_3 del: One_nat_def split: if_splits)
    have "0xF0 + n div 262144 = unat b" "0x80 + n div 4096 mod 64 = unat b1" "0x80 + n div 64 mod 64 = unat b2"
      "0x80 + n mod 64 = unat b3"
    proof -
      have b: "unat b = 0xF0 + unat b mod 8" "unat b1 = 0x80 + unat b1 mod 64" "unat b2 = 0x80 + unat b2 mod 64"
        "unat b3 = 0x80 + unat b3 mod 64"
        using div_mult_mod_eq [of "unat b" 8] div_mult_mod_eq [of "unat b1" 64] div_mult_mod_eq [of "unat b2" 64]
          div_mult_mod_eq [of "unat b3" 64] 4(2) r(2-4)
        by simp_all
      have d: "n div 64 = (unat b mod 8 * 64 + unat b1 mod 64) * 64 + unat b2 mod 64" "n mod 64 = unat b3 mod 64"
        unfolding r(5) by (rule field64, simp)+
      have e: "n div 64 div 64 = unat b mod 8 * 64 + unat b1 mod 64" "n div 64 mod 64 = unat b2 mod 64"
        unfolding d(1) by (rule field64, simp)+
      have "n div 64 div 64 div 64 = unat b mod 8" "n div 64 div 64 mod 64 = unat b1 mod 64"
        unfolding e(1) by (rule field64, simp)+
      then show "0xF0 + n div 262144 = unat b" "0x80 + n div 4096 mod 64 = unat b1" "0x80 + n div 64 mod 64 = unat b2"
        "0x80 + n mod 64 = unat b3"
        using b d(2) e(2) by (simp_all only: div_64)
    qed
    with n(1,2,3) 4(1,4) show ?thesis by (simp add: bs r(1) starts_with_def utf8_def del: of_nat_add)
  qed
qed

lemma rfc_complete:
  assumes "starts_with bs n"
  shows "rfc bs = Some (n, length (utf8 n))"
proof -
  have n: "is_scalar n" "n < 0x110000" using assms by (auto simp: starts_with_def is_scalar_def)
  obtain r where bs: "bs = utf8 n @ r" using assms unfolding starts_with_def by (metis append_take_drop_id)
  note u = unat_of_nat_byte
  consider "n < 0x80" | "0x80 \<le> n" "n < 0x800" | "0x800 \<le> n" "n < 0x10000" | "0x10000 \<le> n" by linarith
  then show ?thesis
  proof cases
    case 1
    then have "lead n = Some (0, n, 0)" by (simp add: lead_def)
    with 1 n show ?thesis by (simp add: bs utf8_def rfc_def u)
  next
    case 2
    then have "lead (0xC0 + n div 64) = Some (1, n div 64, 0x80)" by (intro lead_values) simp
    with 2 n show ?thesis by (simp add: bs utf8_def rfc_def u conts_1 cont_byte split_64 del: One_nat_def of_nat_add)
  next
    case 3
    then have "lead (0xE0 + n div 4096) = Some (2, n div 4096, 0x800)" by (intro lead_values) simp
    with 3 n show ?thesis by (simp add: bs utf8_def rfc_def u conts_2 cont_byte split_64 div_64 del: of_nat_add)
  next
    case 4
    then have "lead (0xF0 + n div 262144) = Some (3, n div 262144, 0x10000)" using n(2) by (intro lead_values) simp
    with 4 n show ?thesis by (simp add: bs utf8_def rfc_def u conts_3 cont_byte split_64 div_64 del: of_nat_add)
  qed
qed

lemma rfc_iff: "rfc bs = Some (n, len) \<longleftrightarrow> starts_with bs n \<and> len = length (utf8 n)"
  using rfc_sound rfc_complete by blast

section \<open>The two decoders\<close>

lemma conts_nth:
  "conts r 1 v = (if 1 \<le> length r \<and> unat (r ! 0) div 64 = 2 then Some (v * 64 + unat (r ! 0) mod 64) else None)"
  "conts r 2 v =
     (if 2 \<le> length r \<and> unat (r ! 0) div 64 = 2 \<and> unat (r ! 1) div 64 = 2
      then Some ((v * 64 + unat (r ! 0) mod 64) * 64 + unat (r ! 1) mod 64) else None)"
  "conts r 3 v =
     (if 3 \<le> length r \<and> unat (r ! 0) div 64 = 2 \<and> unat (r ! 1) div 64 = 2 \<and> unat (r ! 2) div 64 = 2
      then Some (((v * 64 + unat (r ! 0) mod 64) * 64 + unat (r ! 1) mod 64) * 64 + unat (r ! 2) mod 64) else None)"
proof -
  have short: "conts r k v = None" if "\<not> k \<le> length r" for k using that conts_long [of r k v] by (cases "conts r k v") auto
  show "conts r 1 v = (if 1 \<le> length r \<and> unat (r ! 0) div 64 = 2 then Some (v * 64 + unat (r ! 0) mod 64) else None)"
    by (cases r) simp_all
  show "conts r 2 v =
     (if 2 \<le> length r \<and> unat (r ! 0) div 64 = 2 \<and> unat (r ! 1) div 64 = 2
      then Some ((v * 64 + unat (r ! 0) mod 64) * 64 + unat (r ! 1) mod 64) else None)"
  proof (cases "2 \<le> length r")
    case True
    then obtain a b r' where "r = a # b # r'" using length_ge(2) by blast
    then show ?thesis by (simp add: conts_2)
  qed (simp add: short)
  show "conts r 3 v =
     (if 3 \<le> length r \<and> unat (r ! 0) div 64 = 2 \<and> unat (r ! 1) div 64 = 2 \<and> unat (r ! 2) div 64 = 2
      then Some (((v * 64 + unat (r ! 0) mod 64) * 64 + unat (r ! 1) mod 64) * 64 + unat (r ! 2) mod 64) else None)"
  proof (cases "3 \<le> length r")
    case True
    then obtain a b c r' where "r = a # b # c # r'" using length_ge(3) by blast
    then show ?thesis by (simp add: conts_3)
  qed (simp add: short)
qed

lemma unat_fields2:
  fixes b0 b1 :: bytecs
  shows "unat (push_bit 6 (ucast (b0 AND 0x1F)) OR ucast (b1 AND 0x3F) :: uintcs) = unat b0 mod 32 * 64 + unat b1 mod 64"
proof -
  have "unat b0 mod 32 < 32" by simp
  then show ?thesis using unat_shift6 [of "ucast (b0 AND 0x1F)" b1] by (simp add: unat_ucast_byte byte_and_low)
qed

lemma unat_fields3:
  fixes b0 b1 b2 :: bytecs
  shows "unat (push_bit 12 (ucast (b0 AND 0x0F)) OR push_bit 6 (ucast (b1 AND 0x3F)) OR ucast (b2 AND 0x3F) :: uintcs) =
    (unat b0 mod 16 * 64 + unat b1 mod 64) * 64 + unat b2 mod 64"
proof -
  have b: "unat b0 mod 16 < 16" "unat b1 mod 64 < 64" "unat b2 mod 64 < 64" by simp_all
  have i: "unat (push_bit 6 (ucast (b1 AND 0x3F)) OR ucast (b2 AND 0x3F) :: uintcs) = unat b1 mod 64 * 64 + unat b2 mod 64"
    using unat_shift6 [of "ucast (b1 AND 0x3F)" b2] b by (simp add: unat_ucast_byte byte_and_low)
  have "unat b1 mod 64 * 64 + unat b2 mod 64 < 4096" using b by linarith
  with unat_shift_or [of "push_bit 6 (ucast (b1 AND 0x3F)) OR ucast (b2 AND 0x3F)" 12 "ucast (b0 AND 0xF)"] b show ?thesis
    by (simp add: i unat_ucast_byte byte_and_low)
qed

lemma unat_fields4:
  fixes b0 b1 b2 b3 :: bytecs
  shows "unat (push_bit 18 (ucast (b0 AND 0x07)) OR push_bit 12 (ucast (b1 AND 0x3F)) OR push_bit 6 (ucast (b2 AND 0x3F)) OR
      ucast (b3 AND 0x3F) :: uintcs) =
    ((unat b0 mod 8 * 64 + unat b1 mod 64) * 64 + unat b2 mod 64) * 64 + unat b3 mod 64"
proof -
  have b: "unat b0 mod 8 < 8" "unat b1 mod 64 < 64" "unat b2 mod 64 < 64" "unat b3 mod 64 < 64" by simp_all
  let ?i = "push_bit 6 (ucast (b2 AND 0x3F)) OR ucast (b3 AND 0x3F) :: uintcs"
  let ?j = "push_bit 12 (ucast (b1 AND 0x3F)) OR ?i"
  have i: "unat ?i = unat b2 mod 64 * 64 + unat b3 mod 64"
    using unat_shift6 [of "ucast (b2 AND 0x3F)" b3] b by (simp add: unat_ucast_byte byte_and_low)
  have il: "unat b2 mod 64 * 64 + unat b3 mod 64 < 4096" using b by linarith
  have j: "unat ?j = unat b1 mod 64 * 4096 + (unat b2 mod 64 * 64 + unat b3 mod 64)"
    using unat_shift_or [of ?i 12 "ucast (b1 AND 0x3F)"] b il by (simp add: i unat_ucast_byte byte_and_low)
  have "unat b1 mod 64 * 4096 + (unat b2 mod 64 * 64 + unat b3 mod 64) < 262144" using b il by linarith
  with unat_shift_or [of ?j 18 "ucast (b0 AND 7)"] b show ?thesis
    by (simp add: j unat_ucast_byte byte_and_low)
qed

lemma rfc_lead:
  "rfc (b # r) =
     (if unat b < 0x80 then Some (unat b, 1)
      else if unat b div 32 = 6 then
        if 1 \<le> length r \<and> isContinuation (r ! 0)
        then let n = unat b mod 32 * 64 + unat (r ! 0) mod 64 in if 0x80 \<le> n \<and> is_scalar n then Some (n, 2) else None
        else None
      else if unat b div 16 = 14 then
        if 2 \<le> length r \<and> isContinuation (r ! 0) \<and> isContinuation (r ! 1)
        then let n = (unat b mod 16 * 64 + unat (r ! 0) mod 64) * 64 + unat (r ! 1) mod 64
             in if 0x800 \<le> n \<and> is_scalar n then Some (n, 3) else None
        else None
      else if unat b div 8 = 30 then
        if 3 \<le> length r \<and> isContinuation (r ! 0) \<and> isContinuation (r ! 1) \<and> isContinuation (r ! 2)
        then let n = ((unat b mod 8 * 64 + unat (r ! 0) mod 64) * 64 + unat (r ! 1) mod 64) * 64 + unat (r ! 2) mod 64
             in if 0x10000 \<le> n \<and> is_scalar n then Some (n, 4) else None
        else None
      else None)"
proof -
  consider (a) "unat b < 0x80" | (b) "\<not> unat b < 0x80" "unat b div 32 = 6"
    | (c) "\<not> unat b < 0x80" "unat b div 32 \<noteq> 6" "unat b div 16 = 14"
    | (d) "\<not> unat b < 0x80" "unat b div 32 \<noteq> 6" "unat b div 16 \<noteq> 14" "unat b div 8 = 30"
    | (e) "\<not> unat b < 0x80" "unat b div 32 \<noteq> 6" "unat b div 16 \<noteq> 14" "unat b div 8 \<noteq> 30" by blast
  then show ?thesis
  proof cases
    case a
    then have "lead (unat b) = Some (0, unat b, 0)" "is_scalar (unat b)" by (simp_all add: lead_def is_scalar_def)
    with a show ?thesis by (simp add: rfc_def)
  next
    case b
    then have "lead (unat b) = Some (1, unat b mod 32, 0x80)" by (simp add: lead_def)
    with b show ?thesis by (simp add: rfc_def conts_nth(1) isContinuation_unat Let_def del: One_nat_def)
  next
    case c
    then have "lead (unat b) = Some (2, unat b mod 16, 0x800)" by (simp add: lead_def)
    with c show ?thesis by (simp add: rfc_def conts_nth(2) isContinuation_unat Let_def del: One_nat_def)
  next
    case d
    then have "lead (unat b) = Some (3, unat b mod 8, 0x10000)" by (simp add: lead_def)
    with d show ?thesis by (simp add: rfc_def conts_nth(3) isContinuation_unat Let_def del: One_nat_def)
  next
    case e
    then have "lead (unat b) = None" by (simp add: lead_def)
    with e show ?thesis by (simp add: rfc_def)
  qed
qed

text \<open>The checks on the assembled value are those of the reference.\<close>

lemma verdict:
  fixes cp m :: uintcs
  shows "(case (if cp < m then Inl a else if cp > 0x10FFFF \<or> isSurrogate cp then Inl b else Inr (cp, len)) of
            Inl _ \<Rightarrow> None | Inr (cp, len) \<Rightarrow> Some (unat cp, len)) =
         (if unat m \<le> unat cp \<and> is_scalar (unat cp) then Some (unat cp, len) else None)"
  using not_scalar [of cp] by (auto simp: word_less_nat_alt)

lemma TryDecodeUtf8Scalar_rfc:
  assumes "i < sz" and "sz \<le> length s"
  shows "rfc (drop i (take sz s)) =
    (case TryDecodeUtf8Scalar s sz i of Inl _ \<Rightarrow> None | Inr (cp, len) \<Rightarrow> Some (unat cp, len))"
proof -
  let ?b = "s ! i" and ?r = "drop (Suc i) (take sz s)"
  have bs: "drop i (take sz s) = ?b # ?r"
    using assms Cons_nth_drop_Suc [of i "take sz s"] by simp
  have len: "length ?r = sz - Suc i" using assms by simp
  have r: "i + 1 < sz \<Longrightarrow> ?r ! 0 = s ! (i + 1)" "i + 2 < sz \<Longrightarrow> ?r ! 1 = s ! (i + 2)"
    "i + 3 < sz \<Longrightarrow> ?r ! 2 = s ! (i + 3)" using assms by (simp_all add: numeral_3_eq_3)
  have lt: "x < y \<longleftrightarrow> unat x < unat y" for x y :: uintcs by (rule word_less_nat_alt)
  have lt8: "x < y \<longleftrightarrow> unat x < unat y" for x y :: bytecs by (rule word_less_nat_alt)
  show ?thesis
  proof (cases "unat ?b < 0x80")
    case True
    then have "is_scalar (unat ?b)" by (simp add: is_scalar_def)
    then have "\<not> (0x10FFFF < (ucast ?b :: uintcs) \<or> isSurrogate (ucast ?b))"
      by (simp only: not_scalar unat_ucast_byte simp_thms)
    with True show ?thesis
      by (simp only: bs rfc_lead TryDecodeUtf8Scalar_def Let_def lt8 if_True if_False sum.case prod.case unat_ucast_byte) (simp add: unat_ucast_byte)
  next
    case ge: False
    then have ge': "\<not> ?b < 0x80" by (simp add: lt8)
    consider (two) "unat ?b div 32 = 6" | (three) "unat ?b div 32 \<noteq> 6" "unat ?b div 16 = 14"
      | (four) "unat ?b div 32 \<noteq> 6" "unat ?b div 16 \<noteq> 14" "unat ?b div 8 = 30"
      | (none) "unat ?b div 32 \<noteq> 6" "unat ?b div 16 \<noteq> 14" "unat ?b div 8 \<noteq> 30" by blast
    then show ?thesis
    proof cases
      case two
      then have no: "unat ?b div 16 \<noteq> 14" "unat ?b div 8 \<noteq> 30" by linarith+
      let ?cp = "push_bit 6 (ucast (?b AND 0x1F)) OR ucast (s ! (i + 1) AND 0x3F) :: uintcs"
      show ?thesis
      proof (cases "i + 1 < sz \<and> isContinuation (s ! (i + 1))")
        case True
        then have T: "TryDecodeUtf8Scalar s sz i =
            (if ?cp < 0x80 then Inl 1 else if ?cp > 0x10FFFF \<or> isSurrogate ?cp then Inl 2 else Inr (?cp, 2))"
          using two no ge' by (simp add: TryDecodeUtf8Scalar_def Let_def byte_and_high)
        have "1 \<le> length ?r" using True unfolding len by linarith
        moreover have "?r ! 0 = s ! (i + 1)" using True r by simp_all
        ultimately show ?thesis using True two no ge unfolding bs T verdict unat_fields2 rfc_lead Let_def
          by (simp only: if_True if_False simp_thms) simp
      next
        case False
        then have "TryDecodeUtf8Scalar s sz i = Inl 1"
          using two no ge' by (auto simp: TryDecodeUtf8Scalar_def byte_and_high)
        moreover have "\<not> (1 \<le> length ?r \<and> isContinuation (?r ! 0))" using False len r by auto
        then have "rfc (?b # ?r) = None" using two no ge unfolding rfc_lead by (simp only: if_False if_True simp_thms)
        ultimately show ?thesis by (simp add: bs)
      qed
    next
      case three
      then have no: "unat ?b div 8 \<noteq> 30" by linarith
      let ?cp = "push_bit 12 (ucast (?b AND 0x0F)) OR push_bit 6 (ucast (s ! (i + 1) AND 0x3F)) OR ucast (s ! (i + 2) AND 0x3F) :: uintcs"
      show ?thesis
      proof (cases "i + 2 < sz \<and> isContinuation (s ! (i + 1)) \<and> isContinuation (s ! (i + 2))")
        case True
        then have T: "TryDecodeUtf8Scalar s sz i =
            (if ?cp < 0x800 then Inl 1 else if ?cp > 0x10FFFF \<or> isSurrogate ?cp then Inl 3 else Inr (?cp, 3))"
          using three no ge' by (simp add: TryDecodeUtf8Scalar_def Let_def byte_and_high)
        have "2 \<le> length ?r" using True unfolding len by linarith
        moreover have "?r ! 0 = s ! (i + 1)" "?r ! 1 = s ! (i + 2)" using True r by simp_all
        ultimately show ?thesis using True three no ge unfolding bs T verdict unat_fields3 rfc_lead Let_def
          by (simp only: if_True if_False simp_thms) simp
      next
        case False
        then have "TryDecodeUtf8Scalar s sz i = Inl 1"
          using three no ge' by (auto simp: TryDecodeUtf8Scalar_def byte_and_high)
        moreover have "\<not> (2 \<le> length ?r \<and> isContinuation (?r ! 0) \<and> isContinuation (?r ! 1))" using False len r by auto
        then have "rfc (?b # ?r) = None" using three no ge unfolding rfc_lead by (simp only: if_False if_True simp_thms)
        ultimately show ?thesis by (simp add: bs)
      qed
    next
      case four
      let ?cp = "push_bit 18 (ucast (?b AND 0x07)) OR push_bit 12 (ucast (s ! (i + 1) AND 0x3F)) OR push_bit 6 (ucast (s ! (i + 2) AND 0x3F)) OR ucast (s ! (i + 3) AND 0x3F) :: uintcs"
      show ?thesis
      proof (cases "i + 3 < sz \<and> isContinuation (s ! (i + 1)) \<and> isContinuation (s ! (i + 2)) \<and> isContinuation (s ! (i + 3))")
        case True
        then have T: "TryDecodeUtf8Scalar s sz i =
            (if ?cp < 0x10000 then Inl 1 else if ?cp > 0x10FFFF \<or> isSurrogate ?cp then Inl 4 else Inr (?cp, 4))"
          using four ge' by (simp add: TryDecodeUtf8Scalar_def Let_def byte_and_high)
        have "3 \<le> length ?r" using True unfolding len by linarith
        moreover have "?r ! 0 = s ! (i + 1)" "?r ! 1 = s ! (i + 2)" "?r ! 2 = s ! (i + 3)" using True r by simp_all
        ultimately show ?thesis using True four ge unfolding bs T verdict unat_fields4 rfc_lead Let_def
          by (simp only: if_True if_False simp_thms) simp
      next
        case False
        then have "TryDecodeUtf8Scalar s sz i = Inl 1"
          using four ge' by (auto simp: TryDecodeUtf8Scalar_def byte_and_high)
        moreover have "\<not> (3 \<le> length ?r \<and> isContinuation (?r ! 0) \<and> isContinuation (?r ! 1) \<and> isContinuation (?r ! 2))" using False len r by auto
        then have "rfc (?b # ?r) = None" using four ge unfolding rfc_lead by (simp only: if_False if_True simp_thms)
        ultimately show ?thesis by (simp add: bs)
      qed
    next
      case none
      then show ?thesis using ge ge'
        by (simp add: bs rfc_lead TryDecodeUtf8Scalar_def Let_def byte_and_high)
    qed
  qed
qed

lemma conts_take: "k \<le> length r \<Longrightarrow> conts (take k r) k v = conts r k v"
  by (induction r k v rule: conts.induct) auto

lemma continuation_loop_conts:
  "unat sc < 32 * 64 ^ j \<Longrightarrow> j + length bs \<le> 3 \<Longrightarrow>
   conts bs (length bs) (unat sc) = map_option unat (continuation_loop bs sc)"
proof (induction bs arbitrary: sc j)
  case (Cons b bs)
  show ?case
  proof (cases "unat b div 64 = 2")
    case True
    have "(64 :: nat) ^ j \<le> 64 ^ 2" using Cons.prems(2) by (intro power_increasing) simp_all
    with Cons.prems(1) have "unat sc < 2 ^ 26" by simp
    then have v: "unat (push_bit 6 sc OR ucast (b AND 0x3F)) = unat sc * 64 + unat b mod 64" by (rule unat_shift6)
    have "unat sc * 64 + unat b mod 64 < Suc (unat sc) * 64" by simp
    also have "\<dots> \<le> 32 * 64 ^ j * 64" using Cons.prems(1) by (intro mult_le_mono1) simp
    finally have "unat (push_bit 6 sc OR ucast (b AND 0x3F)) < 32 * 64 ^ Suc j" by (simp add: v)
    from Cons.IH [OF this] Cons.prems(2) True show ?thesis by (simp add: v byte_and_high)
  qed (simp add: byte_and_high)
qed simp

lemma DecodeUtf8_finish:
  assumes "lead (unat b) = Some (k, unat sc, unat m)" and "unat sc < 32" and "k \<le> 3"
  shows "rfc (b # r) =
    (if length r < k then None
     else case continuation_loop (take k r) sc of
            None \<Rightarrow> None
          | Some n \<Rightarrow> if n < m \<or> isSurrogate n \<or> n > 0x10FFFF then None else Some (unat n, Suc k))"
proof (cases "length r < k")
  case True
  then have "conts r k (unat sc) = None" using conts_long [of r k "unat sc"] by (cases "conts r k (unat sc)") auto
  with True assms(1) show ?thesis by (simp add: rfc_def)
next
  case False
  then have "conts r k (unat sc) = map_option unat (continuation_loop (take k r) sc)"
    using continuation_loop_conts [of sc 0 "take k r"] assms(2,3) conts_take [of k r "unat sc"] by simp
  moreover have "n < m \<or> isSurrogate n \<or> n > 0x10FFFF \<longleftrightarrow> \<not> (unat m \<le> unat n \<and> is_scalar (unat n))" for n
    using not_scalar [of n] by (auto simp: word_less_nat_alt)
  ultimately show ?thesis using False assms(1)
    by (cases "continuation_loop (take k r) sc") (simp_all add: rfc_def)
qed

text \<open>The second decoder accepts the same sequences and answers length one for everything else.\<close>

lemma DecodeUtf8_rfc:
  "case rfc bs of
     None \<Rightarrow> \<not> ud_valid (DecodeUtf8 bs) \<and> ud_length (DecodeUtf8 bs) = (if bs = [] then 0 else 1)
   | Some (n, len) \<Rightarrow> ud_valid (DecodeUtf8 bs) \<and> unat (ud_scalar (DecodeUtf8 bs)) = n \<and> ud_length (DecodeUtf8 bs) = len"
proof (cases bs)
  case Nil
  then show ?thesis by (simp add: rfc_def DecodeUtf8_def)
next
  case (Cons b r)
  let ?c = "unat b"
  have lt8: "x < y \<longleftrightarrow> unat x < unat y" for x y :: bytecs by (rule word_less_nat_alt)
  consider (ascii) "?c < 0x80" | (stray) "0x80 \<le> ?c" "?c < 0xC0" | (overlong) "0xC0 \<le> ?c" "?c < 0xC2"
    | (two) "0xC2 \<le> ?c" "?c < 0xE0" | (three) "0xE0 \<le> ?c" "?c < 0xF0" | (four) "0xF0 \<le> ?c" "?c < 0xF5"
    | (beyond) "0xF5 \<le> ?c" "?c < 0xF8" | (high) "0xF8 \<le> ?c" by linarith
  then show ?thesis
  proof cases
    case ascii
    then show ?thesis by (simp add: Cons rfc_lead DecodeUtf8_def lt8 unat_ucast_byte)
  next
    case stray
    then have "?c div 32 \<noteq> 6" "?c div 16 \<noteq> 14" "?c div 8 \<noteq> 30" by linarith+
    with stray show ?thesis by (simp add: Cons rfc_lead DecodeUtf8_def lt8)
  next
    case overlong
    then have "?c = 192 \<or> ?c = 193" by linarith
    then have "?c div 32 = 6" "?c mod 32 \<le> 1" by auto
    then have "\<not> 0x80 \<le> ?c mod 32 * 64 + unat (r ! 0) mod 64" by linarith
    with overlong \<open>?c div 32 = 6\<close> show ?thesis by (simp add: Cons rfc_lead DecodeUtf8_def lt8 Let_def)
  next
    case two
    then have "?c div 32 = 6" by linarith
    then have l: "lead ?c = Some (1, unat (ucast (b AND 0x1F) :: uintcs), unat (0x80 :: uintcs))"
      using two by (simp add: lead_def unat_ucast_byte byte_and_low)
    have "unat (ucast (b AND 0x1F) :: uintcs) < 32" by (simp add: unat_ucast_byte byte_and_low)
    from DecodeUtf8_finish [OF l this, of r] two show ?thesis
      by (auto simp: Cons DecodeUtf8_def lt8 Let_def unsigned_less split: option.split)
  next
    case three
    then have "?c div 32 = 7" "?c div 16 = 14" by linarith+
    then have l: "lead ?c = Some (2, unat (ucast (b AND 0x0F) :: uintcs), unat (0x800 :: uintcs))"
      using three by (simp add: lead_def unat_ucast_byte byte_and_low)
    have "unat (ucast (b AND 0x0F) :: uintcs) < 32" by (simp add: unat_ucast_byte byte_and_low)
    from DecodeUtf8_finish [OF l this, of r] three show ?thesis
      by (auto simp: Cons DecodeUtf8_def lt8 Let_def unsigned_less split: option.split)
  next
    case four
    then have "?c div 32 = 7" "?c div 16 = 15" "?c div 8 = 30" by linarith+
    then have l: "lead ?c = Some (3, unat (ucast (b AND 0x07) :: uintcs), unat (0x10000 :: uintcs))"
      using four by (simp add: lead_def unat_ucast_byte byte_and_low)
    have "unat (ucast (b AND 0x07) :: uintcs) < 32" by (simp add: unat_ucast_byte byte_and_low)
    from DecodeUtf8_finish [OF l this, of r] four show ?thesis
      by (auto simp: Cons DecodeUtf8_def lt8 Let_def unsigned_less split: option.split)
  next
    case beyond
    then have "?c = 245 \<or> ?c = 246 \<or> ?c = 247" by linarith
    then have "?c div 32 = 7" "?c div 16 = 15" "?c div 8 = 30" "5 \<le> ?c mod 8" by auto
    then have "\<not> is_scalar (((?c mod 8 * 64 + x) * 64 + y) * 64 + z)" for x y z by (simp add: is_scalar_def)
    with beyond \<open>?c div 32 = 7\<close> \<open>?c div 16 = 15\<close> show ?thesis by (simp add: Cons rfc_lead DecodeUtf8_def lt8 Let_def)
  next
    case high
    then have "?c div 32 = 7" "?c div 16 = 15" "?c div 8 = 31" using unat_byte_bound [of b] by linarith+
    with high show ?thesis by (simp add: Cons rfc_lead DecodeUtf8_def lt8)
  qed
qed

section \<open>The encoder\<close>

lemma unat_low6: "unat (w AND 0x3F :: uintcs) = unat w mod 64"
proof -
  have "unat w AND mask 6 = unat w mod 2 ^ 6" by (simp only: take_bit_eq_mask [symmetric] take_bit_eq_mod)
  then show ?thesis by (simp add: unsigned_and_eq mask_eq_exp_minus_1)
qed

lemma unat_drop_bit: "unat (drop_bit k w :: uintcs) = unat w div 2 ^ k"
  by (simp only: unat_drop_bit_eq) (simp only: drop_bit_eq_div)

lemma tag_byte:
  fixes x :: uintcs
  shows "unat x < 64 \<Longrightarrow> (ucast (0x80 OR x) :: bytecs) = of_nat (0x80 + unat x)"
    "unat x < 32 \<Longrightarrow> (ucast (0xC0 OR x) :: bytecs) = of_nat (0xC0 + unat x)"
    "unat x < 16 \<Longrightarrow> (ucast (0xE0 OR x) :: bytecs) = of_nat (0xE0 + unat x)"
    "unat x < 8 \<Longrightarrow> (ucast (0xF0 OR x) :: bytecs) = of_nat (0xF0 + unat x)"
proof -
  have *: "(ucast (push_bit k t OR x) :: bytecs) = of_nat (unat t * 2 ^ k + unat x)"
    if "unat x < 2 ^ k" "unat t * 2 ^ k < 256" "k \<le> 6" for k and t :: uintcs
  proof -
    have "(2 :: nat) ^ k \<le> 2 ^ 6" using that(3) by (intro power_increasing) simp_all
    with that have "unat t * 2 ^ k + unat x < 2 ^ 32" "unat t * 2 ^ k < 2 ^ 32" by simp_all
    with unat_shift_or [OF that(1), of t] show ?thesis
      by (simp add: word_unat_eq_iff ucast_byte_of unat_of_nat del: of_nat_add of_nat_mult)
  qed
  show "unat x < 64 \<Longrightarrow> (ucast (0x80 OR x) :: bytecs) = of_nat (0x80 + unat x)" using * [of 6 2] by (simp del: of_nat_add)
  show "unat x < 32 \<Longrightarrow> (ucast (0xC0 OR x) :: bytecs) = of_nat (0xC0 + unat x)" using * [of 5 6] by (simp del: of_nat_add)
  show "unat x < 16 \<Longrightarrow> (ucast (0xE0 OR x) :: bytecs) = of_nat (0xE0 + unat x)" using * [of 4 14] by (simp del: of_nat_add)
  show "unat x < 8 \<Longrightarrow> (ucast (0xF0 OR x) :: bytecs) = of_nat (0xF0 + unat x)" using * [of 3 30] by (simp del: of_nat_add)
qed

lemma AppendUtf8Scalar_utf8:
  assumes "unat cp < 0x200000"
  shows "AppendUtf8Scalar out cp = out @ utf8 (unat cp)"
proof -
  let ?n = "unat cp"
  have low: "(ucast (0x80 OR w AND 0x3F) :: bytecs) = of_nat (0x80 + unat w mod 64)" for w :: uintcs
    using tag_byte(1) [of "w AND 0x3F"] by (simp add: unat_low6 del: of_nat_add)
  have lt: "x < y \<longleftrightarrow> unat x < unat y" for x y :: uintcs by (rule word_less_nat_alt)
  consider (1) "?n < 0x80" | (2) "\<not> ?n < 0x80" "?n < 0x800" | (3) "\<not> ?n < 0x80" "\<not> ?n < 0x800" "?n < 0x10000"
    | (4) "\<not> ?n < 0x80" "\<not> ?n < 0x800" "\<not> ?n < 0x10000" by blast
  then show ?thesis
  proof cases
    case 1
    then have "(ucast cp :: bytecs) = of_nat ?n" by (simp add: word_unat_eq_iff ucast_byte_of unat_of_nat)
    with 1 show ?thesis by (simp add: AppendUtf8Scalar_def utf8_def lt)
  next
    case 2
    then have "unat (drop_bit 6 cp) < 32" by (simp add: unat_drop_bit)
    from tag_byte(2) [OF this] 2 show ?thesis
      by (simp add: AppendUtf8Scalar_def utf8_def lt low unat_drop_bit del: of_nat_add)
  next
    case 3
    then have "unat (drop_bit 12 cp) < 16" by (simp add: unat_drop_bit)
    from tag_byte(3) [OF this] 3 show ?thesis
      by (simp add: AppendUtf8Scalar_def utf8_def lt low unat_drop_bit del: of_nat_add)
  next
    case 4
    then have "unat (drop_bit 18 cp) < 8" using assms by (simp add: unat_drop_bit)
    from tag_byte(4) [OF this] 4 show ?thesis
      by (simp add: AppendUtf8Scalar_def utf8_def lt low unat_drop_bit del: of_nat_add)
  qed
qed

lemma utf8_nonempty [simp]: "utf8 n \<noteq> []"
  by (simp add: utf8_def)

lemma length_utf8_pos [simp]: "0 < length (utf8 n)"
  by simp

lemma starts_with_append: "is_scalar n \<Longrightarrow> starts_with (utf8 n @ r) n"
  by (simp add: starts_with_def)

lemma rfc_utf8 [simp]: "is_scalar n \<Longrightarrow> rfc (utf8 n @ r) = Some (n, length (utf8 n))"
  by (simp add: rfc_iff starts_with_append)

lemma starts_with_unique: "starts_with bs n \<Longrightarrow> starts_with bs m \<Longrightarrow> n = m"
  using rfc_complete [of bs n] rfc_complete [of bs m] by simp

lemma TryDecode_fail_length:
  assumes "TryDecodeUtf8Scalar s sz i = Inl len" and "i < sz"
  shows "1 \<le> len \<and> i + len \<le> sz"
  using assms by (auto simp: TryDecodeUtf8Scalar_def Let_def split: if_splits)

section \<open>Properties\<close>

text \<open>
  C25. Both UTF-8 decoders, on any bytes \<open>b # r\<close> at any position of a buffer: they decode the scalar
  value \<open>n\<close> exactly if its RFC 3629 encoding stands there, and then consume exactly that encoding;
  otherwise (stray, truncated, overlong, surrogate or too large sequences) they fail, skip at least
  one byte and never past the end. So they agree with each other and never decode one text as two
  different values.
\<close>

theorem utf8_decoders:
  "(case TryDecodeUtf8Scalar (pre @ b # r @ post) (length pre + Suc (length r)) (length pre) of
      Inl len \<Rightarrow> (\<forall>n. \<not> starts_with (b # r) n) \<and> 1 \<le> len \<and> len \<le> Suc (length r) \<and>
        \<not> ud_valid (DecodeUtf8 (b # r)) \<and> ud_length (DecodeUtf8 (b # r)) = 1
    | Inr (cp, len) \<Rightarrow> starts_with (b # r) (unat cp) \<and> len = length (utf8 (unat cp)) \<and>
        DecodeUtf8 (b # r) = \<lparr>ud_scalar = cp, ud_length = len, ud_valid = True\<rparr>)"
proof -
  let ?s = "pre @ b # r @ post" and ?sz = "length pre + Suc (length r)" and ?i = "length pre"
  have rfc: "rfc (b # r) =
      (case TryDecodeUtf8Scalar ?s ?sz ?i of Inl _ \<Rightarrow> None | Inr (cp, len) \<Rightarrow> Some (unat cp, len))"
    using TryDecodeUtf8Scalar_rfc [of ?i ?sz ?s] by simp
  show ?thesis
  proof (cases "TryDecodeUtf8Scalar ?s ?sz ?i")
    case (Inl len)
    then have "rfc (b # r) = None" using rfc by simp
    then have "\<forall>n. \<not> starts_with (b # r) n" using rfc_complete by fastforce
    with \<open>rfc (b # r) = None\<close> Inl DecodeUtf8_rfc [of "b # r"] TryDecode_fail_length [OF Inl] show ?thesis by simp
  next
    case (Inr p)
    then obtain cp len where p: "TryDecodeUtf8Scalar ?s ?sz ?i = Inr (cp, len)" by (cases p) auto
    then have r: "rfc (b # r) = Some (unat cp, len)" using rfc by simp
    then have "starts_with (b # r) (unat cp) \<and> len = length (utf8 (unat cp))" by (simp add: rfc_iff)
    moreover have "DecodeUtf8 (b # r) = \<lparr>ud_scalar = cp, ud_length = len, ud_valid = True\<rparr>"
      using DecodeUtf8_rfc [of "b # r"] r by (cases "DecodeUtf8 (b # r)") (simp add: word_unat_eq_iff)
    ultimately show ?thesis using p by simp
  qed
qed

text \<open>
  Encoding a rune and reading it back: for every scalar value the encoder appends the RFC 3629
  encoding, whose length is what the length property says, and the decoder reads the rune back from
  any position of any text. A value that is no scalar cannot be made a rune.
\<close>

theorem rune_roundtrip:
  "if is_scalar (unat v)
   then Rune_ctor v = Inr v \<and> Rune_ToString v = utf8 (unat v) \<and>
     Rune_Utf8SequenceLength v = int (length (utf8 (unat v))) \<and>
     Rune_TryGetRuneAt (AppendUtf8Scalar pre v @ post) (length pre) = Inr (Some v, length (utf8 (unat v)))
   else Rune_ctor v = Inl (ArgumentOutOfRangeException ''value'')"
proof (cases "is_scalar (unat v)")
  case True
  have valid: "Rune_IsValid v" using not_scalar [of v] True by (auto simp: Rune_IsValid_def)
  have app: "AppendUtf8Scalar out v = out @ utf8 (unat v)" for out
    using True by (intro AppendUtf8Scalar_utf8) (simp add: is_scalar_def)
  have len: "Rune_Utf8SequenceLength v = int (length (utf8 (unat v)))"
    by (simp add: Rune_Utf8SequenceLength_def utf8_def word_less_nat_alt)
  let ?s = "pre @ utf8 (unat v) @ post"
  have "drop (length pre) (take (length ?s) ?s) = utf8 (unat v) @ post" by simp
  with TryDecodeUtf8Scalar_rfc [of "length pre" "length ?s" ?s] True have
    "(case TryDecodeUtf8Scalar ?s (length ?s) (length pre) of Inl _ \<Rightarrow> None | Inr (cp, len) \<Rightarrow> Some (unat cp, len)) =
      Some (unat v, length (utf8 (unat v)))" by (simp add: add_gr_0)
  then have "TryDecodeUtf8Scalar ?s (length ?s) (length pre) = Inr (v, length (utf8 (unat v)))"
    by (auto split: sum.splits simp: word_unat_eq_iff)
  then show ?thesis using True valid len
    by (simp add: Rune_ctor_def Rune_ToString_def app Rune_TryGetRuneAt_def)
next
  case False
  then have "\<not> Rune_IsValid v" using not_scalar [of v] by (auto simp: Rune_IsValid_def)
  then show ?thesis using False by (simp add: Rune_ctor_def)
qed

text \<open>The two white space tables are the same set.\<close>

lemma whitespace_tables_agree: "Rune_IsWhiteSpace r = IsUnicodeWhiteSpace r"
proof -
  have "unat r \<in> set [9..<14] \<or> unat r \<in> set [0x2000..<0x200B] \<or> r = 0x20 \<or> r = 0x85 \<or> r = 0xA0 \<or> r = 0x1680 \<or>
      r = 0x2028 \<or> r = 0x2029 \<or> r = 0x202F \<or> r = 0x205F \<or> r = 0x3000 \<longleftrightarrow> IsUnicodeWhiteSpace r"
    by (simp only: set_upt atLeastLessThan_iff IsUnicodeWhiteSpace_def word_le_nat_alt) auto
  then show ?thesis
    by (simp add: Rune_IsWhiteSpace_def Rune_whitespace_table_def upt_rec word_unat_eq_iff) blast
qed

end
