(* ===== verification/Text_Transcoding.thy ===== *)
theory Text_Transcoding
  imports Text_Utf8 Buf_Base64
begin

unbundle bit_operations_syntax

text \<open>
  \<^verbatim>\<open>System/Text/Unicode/Utf8.hpp\<close>: validation of UTF-8 and transcoding between UTF-8 and UTF-16 into a
  buffer of given size, with replacement of ill-formed input or \<^verbatim>\<open>InvalidData\<close>, and with
  \<^verbatim>\<open>NeedMoreData\<close> for a block that is not the last. Both directions are instances of one contract.
\<close>

section \<open>Model\<close>

type_synonym char16 = "16 word"

text \<open>\<^verbatim>\<open>static_cast<intcs>\<close> of a \<^verbatim>\<open>size_t\<close>: the low 32 bits, read as a signed number.\<close>

definition to_intcs :: "nat \<Rightarrow> intcs" where
  "to_intcs n = sint (of_nat n :: 32 word)"

text \<open>\<^verbatim>\<open>destination[di++] = x\<close> for each element in turn.\<close>

primrec poke :: "'b list \<Rightarrow> nat \<Rightarrow> 'b list \<Rightarrow> 'b list" where
  "poke dest di [] = dest"
| "poke dest di (x # xs) = poke (dest[di := x]) (Suc di) xs"

text \<open>The loop of \<^verbatim>\<open>IndexOfInvalidSubsequence\<close>; \<open>rest\<close> is the text from index \<open>i\<close> on.\<close>

function invalid_loop :: "bytecs list \<Rightarrow> nat \<Rightarrow> intcs" where
  "invalid_loop rest i =
     (case rest of
        [] \<Rightarrow> - 1
      | b0 # tail \<Rightarrow>
          if b0 < 0x80 then invalid_loop tail (Suc i)
          else
            let scan = (\<lambda>len cp minCp.
                  if length rest < len then int i
                  else case continuation_loop (take (len - 1) tail) cp of
                         None \<Rightarrow> int i
                       | Some cp' \<Rightarrow>
                           if cp' < minCp \<or> cp' > 0x10FFFF \<or> isSurrogate cp' then int i
                           else invalid_loop (drop (len - 1) tail) (i + len))
            in if b0 AND 0xE0 = 0xC0 then scan 2 (ucast (b0 AND 0x1F)) 0x80
               else if b0 AND 0xF0 = 0xE0 then scan 3 (ucast (b0 AND 0x0F)) 0x800
               else if b0 AND 0xF8 = 0xF0 then scan 4 (ucast (b0 AND 0x07)) 0x10000
               else int i)"
  by pat_completeness auto
termination by (relation "measure (\<lambda>(rest, i). length rest)") auto

definition IndexOfInvalidSubsequence :: "bytecs list \<Rightarrow> intcs" where
  "IndexOfInvalidSubsequence value = invalid_loop value 0"

definition Utf8_IsValid :: "bytecs list \<Rightarrow> bool" where
  "Utf8_IsValid value \<longleftrightarrow> IndexOfInvalidSubsequence value < 0"

text \<open>
  The classification at the top of the loop of \<^verbatim>\<open>FromUtf16\<close>: \<open>None\<close> is \<^verbatim>\<open>NeedMoreData\<close>, \<open>Some (None, n)\<close>
  an ill-formed unit, \<open>Some (Some cp, n)\<close> a code point of \<open>n\<close> units.
\<close>

definition utf16_unit :: "bool \<Rightarrow> char16 list \<Rightarrow> (uintcs option \<times> nat) option" where
  "utf16_unit isFinalBlock source =
     (let c = source ! 0
      in if 0xD800 \<le> c \<and> c \<le> 0xDBFF then
           if 1 < length source then
             let c2 = source ! 1
             in if 0xDC00 \<le> c2 \<and> c2 \<le> 0xDFFF
                then Some (Some (0x10000 + push_bit 10 (ucast c - 0xD800) + (ucast c2 - 0xDC00)), 2)
                else Some (None, 1)
           else if \<not> isFinalBlock then None
           else Some (None, 1)
         else if 0xDC00 \<le> c \<and> c \<le> 0xDFFF then Some (None, 1)
         else Some (Some (ucast c), 1))"

definition needed_bytes :: "uintcs \<Rightarrow> nat" where
  "needed_bytes cp = (if cp < 0x80 then 1 else if cp < 0x800 then 2 else if cp < 0x10000 then 3 else 4)"

definition utf8_bytes :: "uintcs \<Rightarrow> bytecs list" where
  "utf8_bytes cp =
     (case needed_bytes cp of
        Suc 0 \<Rightarrow> [ucast cp]
      | Suc (Suc 0) \<Rightarrow> [ucast (0xC0 OR drop_bit 6 cp), ucast (0x80 OR cp AND 0x3F)]
      | Suc (Suc (Suc 0)) \<Rightarrow>
          [ucast (0xE0 OR drop_bit 12 cp), ucast (0x80 OR drop_bit 6 cp AND 0x3F), ucast (0x80 OR cp AND 0x3F)]
      | _ \<Rightarrow> [ucast (0xF0 OR drop_bit 18 cp), ucast (0x80 OR drop_bit 12 cp AND 0x3F),
              ucast (0x80 OR drop_bit 6 cp AND 0x3F), ucast (0x80 OR cp AND 0x3F)])"

text \<open>The loop; \<open>rest\<close> is the source from index \<open>si\<close> on. The result is the status, the two
  indices and the destination; \<^verbatim>\<open>charsRead\<close> and \<^verbatim>\<open>bytesWritten\<close> are set from the indices where the function returns.\<close>

function FromUtf16_loop ::
  "bool \<Rightarrow> bool \<Rightarrow> char16 list \<Rightarrow> nat \<Rightarrow> nat \<Rightarrow> bytecs list \<Rightarrow> OperationStatus \<times> nat \<times> nat \<times> bytecs list"
where
  "FromUtf16_loop replaceInvalidSequences isFinalBlock rest si di destination =
     (if rest = [] then (Done, si, di, destination)
      else case utf16_unit isFinalBlock rest of
             None \<Rightarrow> (NeedMoreData, si, di, destination)
           | Some (unit, consumed) \<Rightarrow>
               if unit = None \<and> \<not> replaceInvalidSequences then (InvalidData, si, di, destination)
               else
                 let cp = (case unit of None \<Rightarrow> 0xFFFD | Some v \<Rightarrow> v);
                     needed = needed_bytes cp
                 in if length destination < di + needed then (DestinationTooSmall, si, di, destination)
                    else FromUtf16_loop replaceInvalidSequences isFinalBlock (drop consumed rest) (si + consumed)
                           (di + needed) (poke destination di (utf8_bytes cp)))"
  by pat_completeness auto
termination
  by (relation "measure (\<lambda>(rp, fin, rest, si, di, dest). length rest)")
    (auto simp: utf16_unit_def Let_def split: if_splits)

definition FromUtf16 ::
  "char16 list \<Rightarrow> bytecs list \<Rightarrow> bool \<Rightarrow> bool \<Rightarrow> OperationStatus \<times> intcs \<times> intcs \<times> bytecs list"
where
  "FromUtf16 source destination replaceInvalidSequences isFinalBlock =
     (case FromUtf16_loop replaceInvalidSequences isFinalBlock source 0 0 destination of
        (status, si, di, dest) \<Rightarrow> (status, to_intcs si, to_intcs di, dest))"

text \<open>The scan of the continuation bytes of \<^verbatim>\<open>ToUtf16\<close>: how many bytes \<open>k\<close> were good when it stopped.\<close>

datatype scan_result = ScanNeedMore | ScanBad nat | ScanOk uintcs

fun utf8_scan :: "bool \<Rightarrow> bytecs list \<Rightarrow> nat \<Rightarrow> nat \<Rightarrow> uintcs \<Rightarrow> scan_result" where
  "utf8_scan isFinalBlock rest 0 k cp = ScanOk cp"
| "utf8_scan isFinalBlock [] (Suc m) k cp = (if \<not> isFinalBlock then ScanNeedMore else ScanBad k)"
| "utf8_scan isFinalBlock (b # rest) (Suc m) k cp =
     (if b AND 0xC0 \<noteq> 0x80 then ScanBad k
      else utf8_scan isFinalBlock rest m (Suc k) (push_bit 6 cp OR ucast (b AND 0x3F)))"

definition utf8_unit :: "bool \<Rightarrow> bytecs list \<Rightarrow> (uintcs option \<times> nat) option" where
  "utf8_unit isFinalBlock source =
     (let b0 = source ! 0;
          finish = (\<lambda>len cp minCp.
            case utf8_scan isFinalBlock (drop 1 source) (len - 1) 1 cp of
              ScanNeedMore \<Rightarrow> None
            | ScanBad k \<Rightarrow> Some (None, k)
            | ScanOk cp' \<Rightarrow> if cp' < minCp \<or> cp' > 0x10FFFF \<or> isSurrogate cp' then Some (None, len) else Some (Some cp', len))
      in if b0 < 0x80 then Some (Some (ucast b0), 1)
         else if b0 AND 0xE0 = 0xC0 then finish 2 (ucast (b0 AND 0x1F)) 0x80
         else if b0 AND 0xF0 = 0xE0 then finish 3 (ucast (b0 AND 0x0F)) 0x800
         else if b0 AND 0xF8 = 0xF0 then finish 4 (ucast (b0 AND 0x07)) 0x10000
         else Some (None, 1))"

definition needed_chars :: "uintcs \<Rightarrow> nat" where
  "needed_chars cp = (if cp < 0x10000 then 1 else 2)"

definition utf16_chars :: "uintcs \<Rightarrow> char16 list" where
  "utf16_chars cp =
     (if needed_chars cp = 1 then [ucast cp]
      else let v = cp - 0x10000
           in [ucast (0xD800 + drop_bit 10 v), ucast (0xDC00 + (v AND 0x3FF))])"

text \<open>Every classification consumes at least one byte.\<close>

lemma utf8_scan_bad: "utf8_scan fin rest m k cp = ScanBad j \<Longrightarrow> k \<le> j \<and> j < k + m"
  by (induction fin rest m k cp rule: utf8_scan.induct) (auto split: if_splits)

lemma utf8_unit_consumes: "utf8_unit fin src = Some (u, n) \<Longrightarrow> 1 \<le> n"
  by (auto simp: utf8_unit_def Let_def split: if_splits scan_result.splits dest!: utf8_scan_bad)

function ToUtf16_loop ::
  "bool \<Rightarrow> bool \<Rightarrow> bytecs list \<Rightarrow> nat \<Rightarrow> nat \<Rightarrow> char16 list \<Rightarrow> OperationStatus \<times> nat \<times> nat \<times> char16 list"
where
  "ToUtf16_loop replaceInvalidSequences isFinalBlock rest si di destination =
     (if rest = [] then (Done, si, di, destination)
      else case utf8_unit isFinalBlock rest of
             None \<Rightarrow> (NeedMoreData, si, di, destination)
           | Some (unit, len) \<Rightarrow>
               if unit = None \<and> \<not> replaceInvalidSequences then (InvalidData, si, di, destination)
               else
                 let cp = (case unit of None \<Rightarrow> 0xFFFD | Some v \<Rightarrow> v);
                     needed = needed_chars cp
                 in if length destination < di + needed then (DestinationTooSmall, si, di, destination)
                    else ToUtf16_loop replaceInvalidSequences isFinalBlock (drop len rest) (si + len)
                           (di + needed) (poke destination di (utf16_chars cp)))"
  by pat_completeness auto
termination
  by (relation "measure (\<lambda>(rp, fin, rest, si, di, dest). length rest)") (auto dest!: utf8_unit_consumes)

definition ToUtf16 ::
  "bytecs list \<Rightarrow> char16 list \<Rightarrow> bool \<Rightarrow> bool \<Rightarrow> OperationStatus \<times> intcs \<times> intcs \<times> char16 list"
where
  "ToUtf16 source destination replaceInvalidSequences isFinalBlock =
     (case ToUtf16_loop replaceInvalidSequences isFinalBlock source 0 0 destination of
        (status, si, di, dest) \<Rightarrow> (status, to_intcs si, to_intcs di, dest))"

declare FromUtf16_loop.simps [simp del] ToUtf16_loop.simps [simp del] invalid_loop.simps [simp del]

section \<open>Contract of a transcoder\<close>

text \<open>
  The unit at the head of a text, in terms of the encoding \<open>enc\<close> of scalar values: a code point where its
  encoding stands; otherwise an ill-formed unit, of length \<open>ill\<close>, except that a text that is \<open>trunc\<close> off inside
  a unit waits for more unless the block is the last.
\<close>

definition encoded :: "(nat \<Rightarrow> 'a list) \<Rightarrow> 'a list \<Rightarrow> nat \<Rightarrow> bool" where
  "encoded enc src n \<longleftrightarrow> is_scalar n \<and> take (length (enc n)) src = enc n"

definition head_unit ::
  "(nat \<Rightarrow> 'a list) \<Rightarrow> ('a list \<Rightarrow> nat) \<Rightarrow> ('a list \<Rightarrow> bool) \<Rightarrow> bool \<Rightarrow> 'a list \<Rightarrow> (uintcs option \<times> nat) option \<Rightarrow> bool"
where
  "head_unit enc ill trunc fin src u \<longleftrightarrow>
     (case u of
        Some (Some v, n) \<Rightarrow> encoded enc src (unat v) \<and> n = length (enc (unat v))
      | Some (None, n) \<Rightarrow> (\<forall>k. \<not> encoded enc src k) \<and> (fin \<or> \<not> trunc src) \<and> n = ill src
      | None \<Rightarrow> (\<forall>k. \<not> encoded enc src k) \<and> \<not> fin \<and> trunc src)"

text \<open>
  \<open>parses head src its rest\<close>: reading \<open>src\<close> unit by unit with the relation \<open>head\<close> gives the units
  \<open>its\<close>, each a code point or ill-formed, with its length, and leaves \<open>rest\<close>. \<open>transcoded\<close> says what
  a call may answer: the units read, their code points with U+FFFD for an ill-formed one, written to
  the front of the destination and nothing else touched; and the status: everything read, or why the
  next unit was not.
\<close>

primrec parses ::
  "('a list \<Rightarrow> (uintcs option \<times> nat) option \<Rightarrow> bool) \<Rightarrow> 'a list \<Rightarrow> (uintcs option \<times> nat) list \<Rightarrow> 'a list \<Rightarrow> bool"
where
  "parses head src [] rest \<longleftrightarrow> src = rest"
| "parses head src (it # its) rest \<longleftrightarrow> src \<noteq> [] \<and> head src (Some it) \<and> parses head (drop (snd it) src) its rest"

definition code_point :: "uintcs option \<Rightarrow> nat" where
  "code_point u = (case u of None \<Rightarrow> 0xFFFD | Some v \<Rightarrow> unat v)"

definition emitted :: "(nat \<Rightarrow> 'b list) \<Rightarrow> (uintcs option \<times> nat) list \<Rightarrow> 'b list" where
  "emitted emit its = concat (map (\<lambda>it. emit (code_point (fst it))) its)"

definition stopped ::
  "('a list \<Rightarrow> (uintcs option \<times> nat) option \<Rightarrow> bool) \<Rightarrow> (nat \<Rightarrow> 'b list) \<Rightarrow> bool \<Rightarrow> OperationStatus \<Rightarrow> nat \<Rightarrow> 'a list \<Rightarrow> bool"
where
  "stopped head emit rp status room rest \<longleftrightarrow>
     (case status of
        Done \<Rightarrow> rest = []
      | NeedMoreData \<Rightarrow> rest \<noteq> [] \<and> head rest None
      | InvalidData \<Rightarrow> rest \<noteq> [] \<and> \<not> rp \<and> (\<exists>n. head rest (Some (None, n)))
      | DestinationTooSmall \<Rightarrow>
          rest \<noteq> [] \<and> (\<exists>u n. head rest (Some (u, n)) \<and> (rp \<or> u \<noteq> None) \<and> room < length (emit (code_point u))))"

definition transcoded ::
  "('a list \<Rightarrow> (uintcs option \<times> nat) option \<Rightarrow> bool) \<Rightarrow> (nat \<Rightarrow> 'b list) \<Rightarrow> bool \<Rightarrow> 'a list \<Rightarrow> 'b list \<Rightarrow>
   OperationStatus \<times> intcs \<times> intcs \<times> 'b list \<Rightarrow> bool"
where
  "transcoded head emit rp src dest result \<longleftrightarrow>
     (\<exists>its nread nwritten. parses head src its (drop nread src) \<and> nread = sum_list (map snd its) \<and> nread \<le> length src \<and>
        nwritten = length (emitted emit its) \<and> nwritten \<le> length dest \<and> (rp \<or> list_all (\<lambda>it. fst it \<noteq> None) its) \<and>
        (case result of
           (status, read, written, dest') \<Rightarrow>
             read = to_intcs nread \<and> written = to_intcs nwritten \<and> dest' = emitted emit its @ drop nwritten dest \<and>
             stopped head emit rp status (length dest - nwritten) (drop nread src)))"

lemma poke_take_drop: "di + length xs \<le> length dest \<Longrightarrow> poke dest di xs = take di dest @ xs @ drop (di + length xs) dest"
proof (induction xs arbitrary: di dest)
  case (Cons x xs)
  from Cons.prems have "poke (dest[di := x]) (Suc di) xs =
      take (Suc di) (dest[di := x]) @ xs @ drop (Suc di + length xs) (dest[di := x])"
    by (intro Cons.IH) simp
  with Cons.prems show ?case by (simp add: take_Suc_conv_app_nth)
qed simp

lemma splice:
  assumes "di + length xs \<le> length dest"
  shows "take (di + length xs) (take di dest @ xs @ drop (di + length xs) dest) = take di dest @ xs"
    and "drop (di + length xs + m) (take di dest @ xs @ drop (di + length xs) dest) = drop (di + length xs + m) dest"
proof -
  have "length (take di dest) = di" using assms by simp
  then show "take (di + length xs) (take di dest @ xs @ drop (di + length xs) dest) = take di dest @ xs"
    "drop (di + length xs + m) (take di dest @ xs @ drop (di + length xs) dest) = drop (di + length xs + m) dest"
    by (simp_all add: add.commute add.left_commute)
qed

locale transcoder =
  fixes unit_at :: "bool \<Rightarrow> 'a list \<Rightarrow> (uintcs option \<times> nat) option"
    and enc :: "nat \<Rightarrow> 'a list"
    and ill :: "'a list \<Rightarrow> nat"
    and trunc :: "'a list \<Rightarrow> bool"
    and needed :: "uintcs \<Rightarrow> nat"
    and units :: "uintcs \<Rightarrow> 'b list"
    and emit :: "nat \<Rightarrow> 'b list"
    and loop :: "bool \<Rightarrow> bool \<Rightarrow> 'a list \<Rightarrow> nat \<Rightarrow> nat \<Rightarrow> 'b list \<Rightarrow> OperationStatus \<times> nat \<times> nat \<times> 'b list"
  assumes loop_eq: "loop rp fin rest si di dest =
     (if rest = [] then (Done, si, di, dest)
      else case unit_at fin rest of
             None \<Rightarrow> (NeedMoreData, si, di, dest)
           | Some (u, n) \<Rightarrow>
               if u = None \<and> \<not> rp then (InvalidData, si, di, dest)
               else
                 let cp = (case u of None \<Rightarrow> 0xFFFD | Some v \<Rightarrow> v)
                 in if length dest < di + needed cp then (DestinationTooSmall, si, di, dest)
                    else loop rp fin (drop n rest) (si + n) (di + needed cp) (poke dest di (units cp)))"
    and unit_consumes: "src \<noteq> [] \<Longrightarrow> unit_at fin src = Some (u, n) \<Longrightarrow> 1 \<le> n \<and> n \<le> length src"
    and unit_scalar: "src \<noteq> [] \<Longrightarrow> unit_at fin src = Some (Some cp, n) \<Longrightarrow> is_scalar (unat cp) \<and> take n src = enc (unat cp)"
    and unit_enc: "is_scalar k \<Longrightarrow> unit_at fin (enc k @ r) = Some (Some (of_nat k), length (enc k))"
    and unit_ill: "src \<noteq> [] \<Longrightarrow> unit_at fin src = Some (None, n) \<Longrightarrow> n = ill src \<and> (fin \<or> \<not> trunc src)"
    and unit_more: "src \<noteq> [] \<Longrightarrow> unit_at fin src = None \<Longrightarrow> \<not> fin \<and> trunc src"
    and units_emit: "is_scalar (unat cp) \<Longrightarrow> units cp = emit (unat cp) \<and> needed cp = length (emit (unat cp))"
    and enc_nonempty: "enc k \<noteq> []"
begin

lemma replacement: "is_scalar (unat (0xFFFD :: uintcs))"
  by (simp add: is_scalar_def)

lemma unit_emit:
  assumes "src \<noteq> []" and "unit_at fin src = Some (u, n)"
  shows "let cp = (case u of None \<Rightarrow> 0xFFFD | Some v \<Rightarrow> v)
         in units cp = emit (code_point u) \<and> needed cp = length (emit (code_point u))"
  using units_emit [OF replacement] units_emit unit_scalar assms
  by (cases u) (auto simp: code_point_def Let_def)

text \<open>The classifier finds a code point exactly where its encoding stands.\<close>

lemma unit_iff:
  assumes "src \<noteq> []"
  shows "unit_at fin src = Some (Some cp, n) \<longleftrightarrow>
    is_scalar (unat cp) \<and> n = length (enc (unat cp)) \<and> take n src = enc (unat cp)"
proof
  assume *: "unit_at fin src = Some (Some cp, n)"
  then have "is_scalar (unat cp)" "take n src = enc (unat cp)" using unit_scalar [OF assms] by simp_all
  moreover from this have "length (enc (unat cp)) = n" using unit_consumes [OF assms *] by (metis length_take min_absorb2)
  ultimately show "is_scalar (unat cp) \<and> n = length (enc (unat cp)) \<and> take n src = enc (unat cp)" by simp
next
  assume *: "is_scalar (unat cp) \<and> n = length (enc (unat cp)) \<and> take n src = enc (unat cp)"
  then have "src = enc (unat cp) @ drop n src" by (metis append_take_drop_id)
  with * unit_enc [of "unat cp" fin "drop n src"] show "unit_at fin src = Some (Some cp, n)" by simp
qed

lemma unit_head:
  assumes "src \<noteq> []"
  shows "head_unit enc ill trunc fin src (unit_at fin src)"
proof -
  have "\<not> encoded enc src k" if "\<And>v n. unit_at fin src \<noteq> Some (Some v, n)" for k
  proof
    assume k: "encoded enc src k"
    then have "src = enc k @ drop (length (enc k)) src" by (metis append_take_drop_id encoded_def)
    with unit_enc [of k fin] k that show False by (metis encoded_def)
  qed
  moreover have "encoded enc src (unat v) \<and> n = length (enc (unat v))" if "unit_at fin src = Some (Some v, n)" for v n
    using that unit_iff [OF assms] by (auto simp: encoded_def)
  ultimately show ?thesis using unit_ill [OF assms, of fin] unit_more [OF assms, of fin]
    by (auto simp: head_unit_def split: option.split)
qed

lemma loop_transcodes:
  assumes "di \<le> length dest"
  shows "\<exists>its st. loop rp fin src si di dest =
       (st, si + sum_list (map snd its), di + length (emitted emit its),
        take di dest @ emitted emit its @ drop (di + length (emitted emit its)) dest) \<and>
     parses (head_unit enc ill trunc fin) src its (drop (sum_list (map snd its)) src) \<and> sum_list (map snd its) \<le> length src \<and>
     di + length (emitted emit its) \<le> length dest \<and> (rp \<or> list_all (\<lambda>it. fst it \<noteq> None) its) \<and>
     stopped (head_unit enc ill trunc fin) emit rp st (length dest - di - length (emitted emit its)) (drop (sum_list (map snd its)) src)"
  using assms
proof (induction "length src" arbitrary: src si di dest rule: less_induct)
  case less
  show ?case
  proof (cases "src = []")
    case True
    then show ?thesis
      by (intro exI [of _ "[]"] exI [of _ Done]) (simp add: loop_eq [of rp fin "[]"] emitted_def stopped_def less.prems)
  next
    case ne: False
    show ?thesis
    proof (cases "unit_at fin src")
      case None
      then have "head_unit enc ill trunc fin src None" using unit_head [OF ne, of fin] by simp
      moreover have "loop rp fin src si di dest = (NeedMoreData, si, di, dest)"
        using None ne by (simp add: loop_eq [of rp fin src])
      ultimately show ?thesis using None ne
        by (intro exI [of _ "[]"] exI [of _ NeedMoreData]) (simp add: emitted_def stopped_def less.prems)
    next
      case (Some p)
      obtain u n where un: "unit_at fin src = Some (u, n)" using Some by (cases p) auto
      have hd: "head_unit enc ill trunc fin src (Some (u, n))" using unit_head [OF ne, of fin] un by simp
      let ?cp = "(case u of None \<Rightarrow> 0xFFFD | Some v \<Rightarrow> v)"
      have em: "units ?cp = emit (code_point u)" "needed ?cp = length (emit (code_point u))"
        using unit_emit [OF ne un] by (simp_all add: Let_def)
      have n: "1 \<le> n" "n \<le> length src" using unit_consumes [OF ne un] by simp_all
      consider (bad) "u = None" "\<not> rp" | (full) "u \<noteq> None \<or> rp" "length dest < di + length (emit (code_point u))"
        | (go) "u \<noteq> None \<or> rp" "di + length (emit (code_point u)) \<le> length dest" by linarith
      then show ?thesis
      proof cases
        case bad
        have "loop rp fin src si di dest = (InvalidData, si, di, dest)"
          by (subst loop_eq) (simp add: un ne bad)
        with hd ne bad show ?thesis
          by (intro exI [of _ "[]"] exI [of _ InvalidData]) (auto simp: emitted_def stopped_def less.prems)
      next
        case full
        then have "loop rp fin src si di dest = (DestinationTooSmall, si, di, dest)"
          using un ne em by (auto simp: loop_eq [of rp fin src] Let_def)
        moreover have "length dest - di < length (emit (code_point u))" using full(2) less.prems by linarith
        ultimately show ?thesis using full(1) hd ne
          by (intro exI [of _ "[]"] exI [of _ DestinationTooSmall])
            (auto simp: emitted_def stopped_def less.prems)
      next
        case go
        let ?di = "di + length (emit (code_point u))"
        let ?dest = "take di dest @ emit (code_point u) @ drop ?di dest"
        have poke: "poke dest di (units ?cp) = ?dest" using go(2) em by (simp add: poke_take_drop)
        have loop: "loop rp fin src si di dest = loop rp fin (drop n src) (si + n) ?di ?dest"
          using go un ne em poke by (auto simp: loop_eq [of rp fin src] Let_def)
        have len: "length ?dest = length dest" using go(2) by simp
        have "length (drop n src) < length src" using n ne by simp
        from less.hyps [OF this, of ?di ?dest "si + n"] go(2) obtain its st where
          IH: "loop rp fin (drop n src) (si + n) ?di ?dest =
             (st, si + n + sum_list (map snd its), ?di + length (emitted emit its),
              take ?di ?dest @ emitted emit its @ drop (?di + length (emitted emit its)) ?dest)"
            "parses (head_unit enc ill trunc fin) (drop n src) its (drop (sum_list (map snd its)) (drop n src))"
            "sum_list (map snd its) \<le> length src - n"
            "?di + length (emitted emit its) \<le> length dest" "rp \<or> list_all (\<lambda>it. fst it \<noteq> None) its"
            "stopped (head_unit enc ill trunc fin) emit rp st (length dest - ?di - length (emitted emit its)) (drop (sum_list (map snd its)) (drop n src))"
          by (auto simp: len)
        have "take ?di ?dest = take di dest @ emit (code_point u)"
          "drop (?di + length (emitted emit its)) ?dest = drop (?di + length (emitted emit its)) dest"
          using splice [OF go(2)] by simp_all
        then show ?thesis using IH hd ne n go(1)
          by (intro exI [of _ "(u, n) # its"] exI [of _ st])
            (auto simp: loop emitted_def add.assoc add.commute [of n] add.left_commute)
      qed
    qed
  qed
qed

lemma loop_transcoded:
  "transcoded (head_unit enc ill trunc fin) emit rp src dest
     (case loop rp fin src 0 0 dest of (status, si, di, dest') \<Rightarrow> (status, to_intcs si, to_intcs di, dest'))"
proof -
  obtain its st where l: "loop rp fin src 0 0 dest =
      (st, sum_list (map snd its), length (emitted emit its), emitted emit its @ drop (length (emitted emit its)) dest)"
    "parses (head_unit enc ill trunc fin) src its (drop (sum_list (map snd its)) src)" "sum_list (map snd its) \<le> length src"
    "length (emitted emit its) \<le> length dest" "rp \<or> list_all (\<lambda>it. fst it \<noteq> None) its"
    "stopped (head_unit enc ill trunc fin) emit rp st (length dest - length (emitted emit its)) (drop (sum_list (map snd its)) src)"
    using loop_transcodes [of 0 dest rp fin src 0] by auto
  show ?thesis unfolding transcoded_def
    by (rule exI [of _ its], rule exI [of _ "sum_list (map snd its)"], rule exI [of _ "length (emitted emit its)"])
      (use l in simp)
qed

text \<open>Well-formed text that fits is transcoded completely.\<close>

lemma loop_well_formed:
  "list_all is_scalar ks \<Longrightarrow> di + length (concat (map emit ks)) \<le> length dest \<Longrightarrow>
   loop rp fin (concat (map enc ks)) si di dest =
     (Done, si + length (concat (map enc ks)), di + length (concat (map emit ks)),
      take di dest @ concat (map emit ks) @ drop (di + length (concat (map emit ks))) dest)"
proof (induction ks arbitrary: si di dest)
  case Nil
  then show ?case by (simp add: loop_eq [of rp fin "[]"])
next
  case (Cons k ks)
  have k: "is_scalar k" and u: "unat (of_nat k :: uintcs) = k" using Cons.prems(1) by (auto simp: is_scalar_def unat_of_nat)
  have em: "units (of_nat k) = emit k" "needed (of_nat k) = length (emit k)"
    using units_emit [of "of_nat k"] k by (simp_all add: u)
  let ?dest = "take di dest @ emit k @ drop (di + length (emit k)) dest"
  have "loop rp fin (concat (map enc (k # ks))) si di dest =
      loop rp fin (concat (map enc ks)) (si + length (enc k)) (di + length (emit k)) ?dest"
    using Cons.prems(2) unit_enc [OF k, of fin "concat (map enc ks)"] em
    by (subst loop_eq) (simp add: enc_nonempty Let_def poke_take_drop)
  also have "\<dots> = (Done, si + length (enc k) + length (concat (map enc ks)),
      di + length (emit k) + length (concat (map emit ks)),
      take (di + length (emit k)) ?dest @ concat (map emit ks) @
        drop (di + length (emit k) + length (concat (map emit ks))) ?dest)"
    by (rule Cons.IH) (use Cons.prems in simp_all)
  moreover have "take (di + length (emit k)) ?dest = take di dest @ emit k"
    "drop (di + length (emit k) + length (concat (map emit ks))) ?dest =
       drop (di + length (concat (map emit (k # ks)))) dest"
    using splice [of di "emit k" dest] Cons.prems(2) by (simp_all add: add.assoc)
  ultimately show ?case by (simp add: add.assoc)
qed

end

section \<open>UTF-16\<close>

definition utf16 :: "nat \<Rightarrow> char16 list" where
  "utf16 n =
     (if n < 0x10000 then [of_nat n]
      else [of_nat (0xD800 + (n - 0x10000) div 1024), of_nat (0xDC00 + (n - 0x10000) mod 1024)])"

text \<open>An ill-formed unit of UTF-16 is one surrogate; the text is cut off behind a leading one.\<close>

definition utf16_ill :: "char16 list \<Rightarrow> nat" where
  "utf16_ill src = 1"

definition utf16_cut :: "char16 list \<Rightarrow> bool" where
  "utf16_cut src \<longleftrightarrow> length src = 1 \<and> unat (src ! 0) \<in> {0xD800..0xDBFF}"

lemma utf16_nonempty [simp]: "utf16 n \<noteq> []"
  by (simp add: utf16_def)

lemma unat_char16_less: "unat (c :: char16) < 0x10000"
  using unsigned_less [of c, where ?'a = nat] by simp

lemma unat_ucast_char16: "unat (ucast (c :: char16) :: uintcs) = unat c"
  using unat_char16_less [of c] by (simp add: unsigned_ucast_eq take_bit_nat_eq_self)

lemma unat_sub_small: "unat b \<le> unat a \<Longrightarrow> unat (a - b) = unat a - unat b" for a b :: uintcs
  by (simp add: unat_sub word_le_nat_alt)

lemma surrogate_pair:
  assumes "0xD800 \<le> unat c" and "unat c \<le> 0xDBFF" and "0xDC00 \<le> unat c2" and "unat c2 \<le> 0xDFFF"
  shows "unat (0x10000 + push_bit 10 (ucast (c :: char16) - 0xD800) + (ucast (c2 :: char16) - 0xDC00) :: uintcs) =
    0x10000 + (unat c - 0xD800) * 1024 + (unat c2 - 0xDC00)"
proof -
  have h: "unat (ucast c - 0xD800 :: uintcs) = unat c - 0xD800" and l: "unat (ucast c2 - 0xDC00 :: uintcs) = unat c2 - 0xDC00"
    using assms unat_sub_small [of "0xD800" "ucast c"] unat_sub_small [of "0xDC00" "ucast c2"]
    by (simp_all add: unat_ucast_char16)
  have b: "unat c - 0xD800 < 1024" "unat c2 - 0xDC00 < 1024" using assms by linarith+
  have p: "unat (push_bit 10 (ucast c - 0xD800) :: uintcs) = (unat c - 0xD800) * 1024"
    using unat_shift [of "ucast c - 0xD800" 10] b by (simp add: h)
  have "unat (0x10000 + p + q) = 0x10000 + unat p + unat q" if "unat p < 0x200000" "unat q < 1024" for p q :: uintcs
    using that by (simp add: unat_word_ariths)
  from this [of "push_bit 10 (ucast c - 0xD800)" "ucast c2 - 0xDC00"] show ?thesis
    using b by (simp only: l p)
qed

lemma utf16_pair:
  assumes "0xD800 \<le> unat c" and "unat c \<le> 0xDBFF" and "0xDC00 \<le> unat c2" and "unat c2 \<le> 0xDFFF"
  defines "n \<equiv> 0x10000 + (unat (c :: char16) - 0xD800) * 1024 + (unat (c2 :: char16) - 0xDC00)"
  shows "utf16 n = [c, c2]" and "is_scalar n"
proof -
  have d: "(n - 0x10000) div 1024 = unat c - 0xD800" "(n - 0x10000) mod 1024 = unat c2 - 0xDC00"
    using assms(3,4) field [of "unat c2 - 0xDC00" 1024 "unat c - 0xD800"] by (simp_all add: n_def)
  have "(of_nat (0xD800 + (unat c - 0xD800)) :: char16) = c" "(of_nat (0xDC00 + (unat c2 - 0xDC00)) :: char16) = c2"
    using assms(1,3) by simp_all
  then show "utf16 n = [c, c2]" unfolding utf16_def d by (simp add: n_def)
  have "(unat c - 0xD800) * 1024 \<le> 1023 * 1024" using assms(2) by (intro mult_le_mono1) linarith
  then show "is_scalar n" using assms(3,4) by (simp add: is_scalar_def n_def)
qed

lemma le16: "x \<le> y \<longleftrightarrow> unat x \<le> unat y" for x y :: char16
  by (rule word_le_nat_alt)

lemma utf16_unit_scalar:
  assumes "src \<noteq> []" and "utf16_unit fin src = Some (Some cp, n)"
  shows "is_scalar (unat cp) \<and> take n src = utf16 (unat cp)"
proof -
  obtain c r where src: "src = c # r" using assms(1) by (cases src) auto
  consider (pair) c2 r' where "r = c2 # r'" "0xD800 \<le> unat c" "unat c \<le> 0xDBFF" "0xDC00 \<le> unat c2" "unat c2 \<le> 0xDFFF"
      "cp = 0x10000 + push_bit 10 (ucast c - 0xD800) + (ucast c2 - 0xDC00)" "n = 2"
    | (single) "\<not> (0xD800 \<le> unat c \<and> unat c \<le> 0xDFFF)" "cp = ucast c" "n = 1"
    using assms(2) by (cases r) (auto simp: src utf16_unit_def Let_def le16 split: if_splits)
  then show ?thesis
  proof cases
    case pair
    with surrogate_pair [of c c2] utf16_pair [of c c2] show ?thesis by (simp add: src)
  next
    case single
    then show ?thesis using unat_char16_less [of c]
      by (auto simp: src unat_ucast_char16 utf16_def is_scalar_def)
  qed
qed

lemma utf16_unit_enc:
  assumes "is_scalar k"
  shows "utf16_unit fin (utf16 k @ r) = Some (Some (of_nat k), length (utf16 k))"
proof (cases "k < 0x10000")
  case True
  then have "unat (of_nat k :: char16) = k" by (simp add: unat_of_nat)
  moreover from this have "(ucast (of_nat k :: char16) :: uintcs) = of_nat k"
    using True by (simp add: word_unat_eq_iff unat_ucast_char16 unat_of_nat)
  ultimately show ?thesis using True assms
    by (auto simp: utf16_unit_def Let_def utf16_def le16 is_scalar_def)
next
  case False
  define h where "h = 0xD800 + (k - 0x10000) div 1024"
  define l where "l = 0xDC00 + (k - 0x10000) mod 1024"
  have "(k - 0x10000) div 1024 < 1024" "(k - 0x10000) mod 1024 < 1024" using assms by (auto simp: is_scalar_def)
  then have b: "0xD800 \<le> h" "h \<le> 0xDBFF" "0xDC00 \<le> l" "l \<le> 0xDFFF" by (simp_all add: h_def l_def)
  then have u: "unat (of_nat h :: char16) = h" "unat (of_nat l :: char16) = l" by (simp_all add: unat_of_nat)
  have uk: "unat (of_nat k :: uintcs) = k" using assms by (simp add: unat_of_nat is_scalar_def)
  have k: "0x10000 + (h - 0xD800) * 1024 + (l - 0xDC00) = k"
    using False div_mult_mod_eq [of "k - 0x10000" 1024] by (simp add: h_def l_def)
  have "0x10000 + push_bit 10 (ucast (of_nat h :: char16) - 0xD800) + (ucast (of_nat l :: char16) - 0xDC00) = (of_nat k :: uintcs)"
    using surrogate_pair [of "of_nat h" "of_nat l", unfolded u, OF b] unfolding word_unat_eq_iff uk k .
  moreover have "utf16 k = [of_nat h, of_nat l]" using False by (simp add: utf16_def h_def l_def)
  ultimately show ?thesis using b by (simp add: utf16_unit_def Let_def le16 u)
qed

lemma utf8_bytes_utf8:
  assumes "is_scalar (unat cp)"
  shows "utf8_bytes cp = utf8 (unat cp)" and "needed_bytes cp = length (utf8 (unat cp))"
proof -
  have "utf8_bytes cp = AppendUtf8Scalar [] cp"
    by (simp add: utf8_bytes_def needed_bytes_def AppendUtf8Scalar_def numeral_2_eq_2 numeral_3_eq_3 eval_nat_numeral)
  then show "utf8_bytes cp = utf8 (unat cp)"
    using AppendUtf8Scalar_utf8 [of cp "[]"] assms by (simp add: is_scalar_def)
  show "needed_bytes cp = length (utf8 (unat cp))"
    by (simp add: needed_bytes_def utf8_def word_less_nat_alt)
qed

interpretation from16: transcoder utf16_unit utf16 utf16_ill utf16_cut needed_bytes utf8_bytes utf8 FromUtf16_loop
proof (unfold_locales, goal_cases)
  case (1 rp fin rest si di dest)
  show ?case by (subst FromUtf16_loop.simps) (simp add: Let_def split: option.split)
next
  case (2 src fin u n)
  then show ?case by (cases src; cases "tl src") (auto simp: utf16_unit_def Let_def split: if_splits)
next
  case (3 src fin cp n)
  then show ?case by (rule utf16_unit_scalar)
next
  case (4 k fin r)
  then show ?case by (rule utf16_unit_enc)
next
  case (5 src fin n)
  then show ?case
    by (cases src; cases "tl src") (auto simp: utf16_unit_def Let_def utf16_ill_def utf16_cut_def le16 split: if_splits)
next
  case (6 src fin)
  then show ?case
    by (cases src; cases "tl src") (auto simp: utf16_unit_def Let_def utf16_cut_def le16 split: if_splits)
next
  case (7 cp)
  then show ?case by (simp add: utf8_bytes_utf8)
next
  case (8 k)
  show ?case by simp
qed

section \<open>UTF-8\<close>

text \<open>
  How many bytes the lead byte promises (none for a byte that leads nothing), and how many continuation
  bytes follow the first byte. An ill-formed unit is the first byte with the continuation bytes that belong to
  it, and no other byte; the text is cut off if it ends before the promised length with nothing but
  continuation bytes.
\<close>

definition utf8_promised :: "bytecs \<Rightarrow> nat" where
  "utf8_promised b =
     (if unat b < 0x80 then 1 else if unat b < 0xC0 then 0 else if unat b < 0xE0 then 2
      else if unat b < 0xF0 then 3 else if unat b < 0xF8 then 4 else 0)"

definition utf8_trail :: "bytecs list \<Rightarrow> nat" where
  "utf8_trail src = length (takeWhile (\<lambda>b. unat b \<in> {0x80..0xBF}) (tl src))"

definition utf8_ill :: "bytecs list \<Rightarrow> nat" where
  "utf8_ill src = max 1 (min (utf8_promised (hd src)) (Suc (utf8_trail src)))"

definition utf8_cut :: "bytecs list \<Rightarrow> bool" where
  "utf8_cut src \<longleftrightarrow> length src < utf8_promised (hd src) \<and> Suc (utf8_trail src) = length src"

lemma utf8_scan_trail:
  "let t = length (takeWhile (\<lambda>b. unat b \<in> {0x80..0xBF}) rest)
   in if m \<le> t then \<exists>c. utf8_scan fin rest m k cp = ScanOk c
      else utf8_scan fin rest m k cp = (if t = length rest \<and> \<not> fin then ScanNeedMore else ScanBad (k + t))"
proof (induction fin rest m k cp rule: utf8_scan.induct)
  case (3 fin b rest m k cp)
  have "b AND 0xC0 = 0x80 \<longleftrightarrow> unat b \<in> {0x80..0xBF}" unfolding byte_and_high(1) atLeastAtMost_iff by linarith
  with 3 show ?case by (auto simp: Let_def split: if_splits)
qed (simp_all add: Let_def)

lemma utf8_promised_lead: "utf8_promised b = (case lead (unat b) of None \<Rightarrow> 0 | Some (k, _) \<Rightarrow> Suc k)"
proof -
  have "unat b div 32 = 6 \<longleftrightarrow> 0xC0 \<le> unat b \<and> unat b < 0xE0" "unat b div 16 = 14 \<longleftrightarrow> 0xE0 \<le> unat b \<and> unat b < 0xF0"
    "unat b div 8 = 30 \<longleftrightarrow> 0xF0 \<le> unat b \<and> unat b < 0xF8" by linarith+
  then show ?thesis by (simp add: utf8_promised_def lead_def)
qed

lemma utf8_scan_conts:
  "unat cp < 32 * 64 ^ j \<Longrightarrow> j + m \<le> 3 \<Longrightarrow>
   conts r m (unat cp) = (case utf8_scan fin r m k cp of ScanOk c \<Rightarrow> Some (unat c) | _ \<Rightarrow> None)"
proof (induction fin r m k cp arbitrary: j rule: utf8_scan.induct)
  case (3 fin b rest m k cp)
  show ?case
  proof (cases "unat b div 64 = 2")
    case True
    have "(64 :: nat) ^ j \<le> 64 ^ 2" using "3.prems"(2) by (intro power_increasing) simp_all
    with "3.prems"(1) have "unat cp < 2 ^ 26" by simp
    then have v: "unat (push_bit 6 cp OR ucast (b AND 0x3F)) = unat cp * 64 + unat b mod 64" by (rule unat_shift6)
    have "unat cp * 64 + unat b mod 64 < Suc (unat cp) * 64" by simp
    also have "\<dots> \<le> 32 * 64 ^ j * 64" using "3.prems"(1) by (intro mult_le_mono1) simp
    finally have "unat (push_bit 6 cp OR ucast (b AND 0x3F)) < 32 * 64 ^ Suc j" by (simp add: v)
    from "3.IH" [OF _ this] "3.prems"(2) True show ?thesis by (simp add: v byte_and_high)
  qed (simp add: byte_and_high)
qed simp_all

lemma utf8_unit_finish:
  assumes "lead (unat b) = Some (k, unat sc, unat m)" and "unat sc < 32" and "k \<le> 3"
  shows "rfc (b # r) =
    (case utf8_scan fin r k 1 sc of
       ScanOk c \<Rightarrow> if c < m \<or> c > 0x10FFFF \<or> isSurrogate c then None else Some (unat c, Suc k)
     | _ \<Rightarrow> None)"
proof -
  have "c < m \<or> c > 0x10FFFF \<or> isSurrogate c \<longleftrightarrow> \<not> (unat m \<le> unat c \<and> is_scalar (unat c))" for c
    using not_scalar [of c] by (auto simp: word_less_nat_alt)
  with utf8_scan_conts [of sc 0 k r fin 1] assms show ?thesis
    by (cases "utf8_scan fin r k 1 sc") (simp_all add: rfc_def)
qed

lemma lead_cases:
  fixes b :: bytecs
  assumes "\<not> b < 0x80"
  shows "b AND 0xE0 = 0xC0 \<Longrightarrow> lead (unat b) = Some (1, unat (ucast (b AND 0x1F) :: uintcs), unat (0x80 :: uintcs))"
    "b AND 0xE0 \<noteq> 0xC0 \<Longrightarrow> b AND 0xF0 = 0xE0 \<Longrightarrow>
       lead (unat b) = Some (2, unat (ucast (b AND 0x0F) :: uintcs), unat (0x800 :: uintcs))"
    "b AND 0xE0 \<noteq> 0xC0 \<Longrightarrow> b AND 0xF0 \<noteq> 0xE0 \<Longrightarrow> b AND 0xF8 = 0xF0 \<Longrightarrow>
       lead (unat b) = Some (3, unat (ucast (b AND 0x07) :: uintcs), unat (0x10000 :: uintcs))"
    "b AND 0xE0 \<noteq> 0xC0 \<Longrightarrow> b AND 0xF0 \<noteq> 0xE0 \<Longrightarrow> b AND 0xF8 \<noteq> 0xF0 \<Longrightarrow> lead (unat b) = None"
proof -
  have ge: "\<not> unat b < 0x80" using assms by (simp add: word_less_nat_alt)
  show "b AND 0xE0 = 0xC0 \<Longrightarrow> lead (unat b) = Some (1, unat (ucast (b AND 0x1F) :: uintcs), unat (0x80 :: uintcs))"
    "b AND 0xE0 \<noteq> 0xC0 \<Longrightarrow> b AND 0xF0 = 0xE0 \<Longrightarrow>
       lead (unat b) = Some (2, unat (ucast (b AND 0x0F) :: uintcs), unat (0x800 :: uintcs))"
    "b AND 0xE0 \<noteq> 0xC0 \<Longrightarrow> b AND 0xF0 \<noteq> 0xE0 \<Longrightarrow> b AND 0xF8 = 0xF0 \<Longrightarrow>
       lead (unat b) = Some (3, unat (ucast (b AND 0x07) :: uintcs), unat (0x10000 :: uintcs))"
    "b AND 0xE0 \<noteq> 0xC0 \<Longrightarrow> b AND 0xF0 \<noteq> 0xE0 \<Longrightarrow> b AND 0xF8 \<noteq> 0xF0 \<Longrightarrow> lead (unat b) = None"
    using ge by (simp_all add: lead_def byte_and_high unat_ucast_byte byte_and_low)
qed

lemma low_payload: "unat (ucast (b AND 0x1F :: bytecs) :: uintcs) < 32" "unat (ucast (b AND 0x0F :: bytecs) :: uintcs) < 32"
  "unat (ucast (b AND 0x07 :: bytecs) :: uintcs) < 32"
proof -
  have "unat b mod 16 < 16" "unat b mod 8 < 8" by simp_all
  then show "unat (ucast (b AND 0x1F :: bytecs) :: uintcs) < 32" "unat (ucast (b AND 0x0F :: bytecs) :: uintcs) < 32"
    "unat (ucast (b AND 0x07 :: bytecs) :: uintcs) < 32"
    by (simp_all add: unat_ucast_byte byte_and_low)
qed

lemma ascii_rfc: "b < 0x80 \<Longrightarrow> rfc (b # r) = Some (unat b, 1)"
  by (simp add: rfc_lead word_less_nat_alt)

lemma utf8_unit_rfc:
  assumes "src \<noteq> []"
  shows "rfc src = (case utf8_unit fin src of Some (Some cp, n) \<Rightarrow> Some (unat cp, n) | _ \<Rightarrow> None)"
proof -
  obtain b r where src: "src = b # r" using assms by (cases src) auto
  note l = lead_cases [of b]
  consider (a) "b < 0x80" | (2) "\<not> b < 0x80" "b AND 0xE0 = 0xC0" | (3) "\<not> b < 0x80" "b AND 0xE0 \<noteq> 0xC0" "b AND 0xF0 = 0xE0"
    | (4) "\<not> b < 0x80" "b AND 0xE0 \<noteq> 0xC0" "b AND 0xF0 \<noteq> 0xE0" "b AND 0xF8 = 0xF0"
    | (n) "\<not> b < 0x80" "b AND 0xE0 \<noteq> 0xC0" "b AND 0xF0 \<noteq> 0xE0" "b AND 0xF8 \<noteq> 0xF0" by blast
  then show ?thesis
  proof cases
    case a
    then show ?thesis by (simp add: src ascii_rfc utf8_unit_def Let_def unat_ucast_byte)
  next
    case 2
    from utf8_unit_finish [OF l(1) [OF 2] low_payload(1), of r fin] 2 show ?thesis
      by (simp add: src utf8_unit_def Let_def split: scan_result.split)
  next
    case 3
    from utf8_unit_finish [OF l(2) [OF 3] low_payload(2), of r fin] 3 show ?thesis
      by (simp add: src utf8_unit_def Let_def split: scan_result.split)
  next
    case 4
    from utf8_unit_finish [OF l(3) [OF 4] low_payload(3), of r fin] 4 show ?thesis
      by (simp add: src utf8_unit_def Let_def split: scan_result.split)
  next
    case n
    then show ?thesis using l(4) [OF n] by (simp add: src utf8_unit_def Let_def rfc_def)
  qed
qed

lemma utf8_scan_length:
  "utf8_scan fin r m k cp = ScanBad j \<Longrightarrow> j \<le> k + length r" "utf8_scan fin r m k cp = ScanOk c \<Longrightarrow> m \<le> length r"
  by (induction fin r m k cp rule: utf8_scan.induct) (auto split: if_splits)

lemma utf8_unit_bounded: "utf8_unit fin (b # r) = Some (u, n) \<Longrightarrow> n \<le> Suc (length r)"
  by (auto simp: utf8_unit_def Let_def split: if_splits scan_result.splits dest!: utf8_scan_length)

lemma utf16_chars_utf16:
  assumes "is_scalar (unat cp)"
  shows "utf16_chars cp = utf16 (unat cp)" and "needed_chars cp = length (utf16 (unat cp))"
proof -
  show len: "needed_chars cp = length (utf16 (unat cp))" by (simp add: needed_chars_def utf16_def word_less_nat_alt)
  show "utf16_chars cp = utf16 (unat cp)"
  proof (cases "unat cp < 0x10000")
    case True
    with len show ?thesis by (simp add: utf16_chars_def utf16_def)
  next
    case False
    let ?v = "cp - 0x10000"
    have v: "unat ?v = unat cp - 0x10000" using False unat_sub_small [of "0x10000" cp] by simp
    then have lt: "unat ?v < 0x100000" using assms unfolding is_scalar_def by linarith
    have h: "unat (drop_bit 10 ?v) = unat ?v div 1024" by (simp only: unat_drop_bit) simp
    have l: "unat (?v AND 0x3FF) = unat ?v mod 1024"
      using take_bit_eq_mask [of 10 "unat ?v"] by (simp add: unsigned_and_eq mask_eq_exp_minus_1 take_bit_eq_mod)
    have "(ucast (t + x) :: char16) = of_nat (unat t + unat x)" if "unat t + unat x < 0x10000" for t x :: uintcs
      using that unat_add_small [of t x] by (simp add: word_unat_eq_iff unsigned_ucast_eq take_bit_nat_eq_self unat_of_nat del: of_nat_add)
    from this [of "0xD800" "drop_bit 10 ?v"] this [of "0xDC00" "?v AND 0x3FF"] lt have
      "(ucast (0xD800 + drop_bit 10 ?v) :: char16) = of_nat (0xD800 + unat ?v div 1024)"
      "(ucast (0xDC00 + (?v AND 0x3FF)) :: char16) = of_nat (0xDC00 + unat ?v mod 1024)"
      by (simp_all add: h l del: of_nat_add)
    with False len show ?thesis by (simp add: utf16_chars_def utf16_def Let_def v del: of_nat_add)
  qed
qed

lemma utf8_finish_ill:
  assumes "utf8_promised b = Suc m" and r_def: "r = (case utf8_scan fin rest m 1 sc of
      ScanNeedMore \<Rightarrow> None
    | ScanBad k \<Rightarrow> Some (None, k)
    | ScanOk cp \<Rightarrow> if bad cp then Some (None, Suc m) else Some (Some cp, Suc m))"
  shows "r = Some (None, n) \<Longrightarrow> n = utf8_ill (b # rest) \<and> (fin \<or> \<not> utf8_cut (b # rest))"
    and "r = None \<Longrightarrow> \<not> fin \<and> utf8_cut (b # rest)"
proof -
  let ?t = "length (takeWhile (\<lambda>b. unat b \<in> {0x80..0xBF}) rest)"
  have t: "?t \<le> length rest" by (rule length_takeWhile_le)
  have sc: "if m \<le> ?t then \<exists>c. utf8_scan fin rest m 1 sc = ScanOk c
      else utf8_scan fin rest m 1 sc = (if ?t = length rest \<and> \<not> fin then ScanNeedMore else ScanBad (1 + ?t))"
    using utf8_scan_trail [of rest m fin 1 sc] by (simp only: Let_def)
  have ill: "utf8_ill (b # rest) = min (Suc m) (Suc ?t)" "utf8_cut (b # rest) \<longleftrightarrow> length rest < m \<and> ?t = length rest"
    using assms(1) by (auto simp: utf8_ill_def utf8_cut_def utf8_trail_def)
  show "r = Some (None, n) \<Longrightarrow> n = utf8_ill (b # rest) \<and> (fin \<or> \<not> utf8_cut (b # rest))"
    unfolding ill using sc t by (cases "m \<le> ?t") (auto simp: r_def split: if_splits)
  show "r = None \<Longrightarrow> \<not> fin \<and> utf8_cut (b # rest)"
    unfolding ill using sc t by (cases "m \<le> ?t") (auto simp: r_def split: if_splits)
qed

lemma utf8_unit_shape:
  obtains (ascii) "b < 0x80" "utf8_unit fin (b # rest) = Some (Some (ucast b), 1)"
  | (none) "utf8_promised b = 0" "utf8_unit fin (b # rest) = Some (None, 1)"
  | (scan) m sc bad where "utf8_promised b = Suc m"
    "utf8_unit fin (b # rest) = (case utf8_scan fin rest m 1 sc of
        ScanNeedMore \<Rightarrow> None
      | ScanBad k \<Rightarrow> Some (None, k)
      | ScanOk cp \<Rightarrow> if bad cp then Some (None, Suc m) else Some (Some cp, Suc m))"
proof -
  note l = lead_cases [of b] and p = utf8_promised_lead [of b]
  consider (a) "b < 0x80" | (2) "\<not> b < 0x80" "b AND 0xE0 = 0xC0" | (3) "\<not> b < 0x80" "b AND 0xE0 \<noteq> 0xC0" "b AND 0xF0 = 0xE0"
    | (4) "\<not> b < 0x80" "b AND 0xE0 \<noteq> 0xC0" "b AND 0xF0 \<noteq> 0xE0" "b AND 0xF8 = 0xF0"
    | (n) "\<not> b < 0x80" "b AND 0xE0 \<noteq> 0xC0" "b AND 0xF0 \<noteq> 0xE0" "b AND 0xF8 \<noteq> 0xF0" by blast
  then show thesis
  proof cases
    case a
    then show ?thesis by (intro ascii) (simp_all add: utf8_unit_def)
  next
    case 2
    then show ?thesis
      by (intro scan [where m = 1 and sc = "ucast (b AND 0x1F)" and bad = "\<lambda>cp. cp < 0x80 \<or> cp > 0x10FFFF \<or> isSurrogate cp"])
        (use l p in \<open>simp_all add: utf8_unit_def split: scan_result.split\<close>)
  next
    case 3
    then show ?thesis
      by (intro scan [where m = 2 and sc = "ucast (b AND 0x0F)" and bad = "\<lambda>cp. cp < 0x800 \<or> cp > 0x10FFFF \<or> isSurrogate cp"])
        (use l p in \<open>simp_all add: utf8_unit_def split: scan_result.split\<close>)
  next
    case 4
    then show ?thesis
      by (intro scan [where m = 3 and sc = "ucast (b AND 0x07)" and bad = "\<lambda>cp. cp < 0x10000 \<or> cp > 0x10FFFF \<or> isSurrogate cp"])
        (use l p in \<open>simp_all add: utf8_unit_def split: scan_result.split\<close>)
  next
    case n
    then show ?thesis by (intro none) (use l p in \<open>simp_all add: utf8_unit_def\<close>)
  qed
qed

lemma utf8_unit_ill:
  "utf8_unit fin (b # rest) = Some (None, n) \<Longrightarrow> n = utf8_ill (b # rest) \<and> (fin \<or> \<not> utf8_cut (b # rest))"
  "utf8_unit fin (b # rest) = None \<Longrightarrow> \<not> fin \<and> utf8_cut (b # rest)"
proof -
  show "utf8_unit fin (b # rest) = Some (None, n) \<Longrightarrow> n = utf8_ill (b # rest) \<and> (fin \<or> \<not> utf8_cut (b # rest))"
  proof (cases rule: utf8_unit_shape [of b fin rest])
    case (scan m sc bad)
    from utf8_finish_ill(1) [OF this] show "utf8_unit fin (b # rest) = Some (None, n) \<Longrightarrow> n = utf8_ill (b # rest) \<and> (fin \<or> \<not> utf8_cut (b # rest))" .
  qed (auto simp: utf8_ill_def utf8_cut_def)
  show "utf8_unit fin (b # rest) = None \<Longrightarrow> \<not> fin \<and> utf8_cut (b # rest)"
  proof (cases rule: utf8_unit_shape [of b fin rest])
    case (scan m sc bad)
    from utf8_finish_ill(2) [OF this] show "utf8_unit fin (b # rest) = None \<Longrightarrow> \<not> fin \<and> utf8_cut (b # rest)" .
  qed (auto simp: utf8_ill_def utf8_cut_def)
qed

interpretation to16: transcoder utf8_unit utf8 utf8_ill utf8_cut needed_chars utf16_chars utf16 ToUtf16_loop
proof (unfold_locales, goal_cases)
  case (1 rp fin rest si di dest)
  show ?case by (subst ToUtf16_loop.simps) (simp add: Let_def split: option.split)
next
  case (2 src fin u n)
  then show ?case using utf8_unit_consumes utf8_unit_bounded by (cases src) auto
next
  case (3 src fin cp n)
  then have "rfc src = Some (unat cp, n)" using utf8_unit_rfc [of src fin] by simp
  then show ?case by (auto simp: rfc_iff starts_with_def)
next
  case (4 k fin r)
  then have "rfc (utf8 k @ r) = Some (k, length (utf8 k))" by simp
  then show ?case using utf8_unit_rfc [of "utf8 k @ r" fin]
    by (auto split: option.splits simp: word_unat_eq_iff)
next
  case (5 src fin n)
  then show ?case using utf8_unit_ill(1) by (cases src) auto
next
  case (6 src fin)
  then show ?case using utf8_unit_ill(2) by (cases src) auto
next
  case (7 cp)
  then show ?case by (simp add: utf16_chars_utf16)
next
  case (8 k)
  show ?case by simp
qed

section \<open>Validation\<close>

definition utf8_text :: "bytecs list \<Rightarrow> bool" where
  "utf8_text bs \<longleftrightarrow> (\<exists>ks. list_all is_scalar ks \<and> bs = concat (map utf8 ks))"

lemma utf8_text_Nil [simp]: "utf8_text []"
  unfolding utf8_text_def by (rule exI [of _ "[]"]) simp

lemma utf8_text_step:
  assumes "rfc bs = Some (k, len)"
  shows "utf8_text bs \<longleftrightarrow> utf8_text (drop len bs)" and "utf8_text (take (len + i) bs) \<longleftrightarrow> utf8_text (take i (drop len bs))"
proof -
  have sw: "is_scalar k" "take len bs = utf8 k" "len = length (utf8 k)" using assms by (auto simp: rfc_iff starts_with_def)
  have step: "utf8_text (utf8 k @ r) \<longleftrightarrow> utf8_text r" for r
  proof
    assume "utf8_text (utf8 k @ r)"
    then obtain ks where ks: "list_all is_scalar ks" "utf8 k @ r = concat (map utf8 ks)" by (auto simp: utf8_text_def)
    then obtain j js where js: "ks = j # js" by (cases ks) auto
    have "starts_with (utf8 k @ r) k" using sw(1) by (rule starts_with_append)
    moreover have "starts_with (utf8 k @ r) j"
      using ks js starts_with_append [of j "concat (map utf8 js)"] by simp
    ultimately have "k = j" by (rule starts_with_unique)
    with ks js show "utf8_text r" by (auto simp: utf8_text_def)
  next
    assume "utf8_text r"
    then obtain ks where "list_all is_scalar ks" "r = concat (map utf8 ks)" by (auto simp: utf8_text_def)
    with sw(1) show "utf8_text (utf8 k @ r)" unfolding utf8_text_def by (intro exI [of _ "k # ks"]) simp
  qed
  have "bs = utf8 k @ drop len bs" using sw(2) by (metis append_take_drop_id)
  then show "utf8_text bs \<longleftrightarrow> utf8_text (drop len bs)" using step by metis
  have "take (len + i) bs = utf8 k @ take i (drop len bs)" using sw(2) by (simp add: take_add)
  then show "utf8_text (take (len + i) bs) \<longleftrightarrow> utf8_text (take i (drop len bs))" using step by simp
qed

lemma utf8_text_stuck: "rfc bs = None \<Longrightarrow> utf8_text bs \<Longrightarrow> bs = []"
proof -
  assume "rfc bs = None" "utf8_text bs"
  then obtain ks where "list_all is_scalar ks" "bs = concat (map utf8 ks)" "rfc bs = None" by (auto simp: utf8_text_def)
  then show "bs = []" by (cases ks) auto
qed

lemma invalid_loop_rfc:
  "invalid_loop bs i =
     (if bs = [] then - 1
      else case rfc bs of None \<Rightarrow> int i | Some (k, len) \<Rightarrow> invalid_loop (drop len bs) (i + len))"
proof (cases bs)
  case Nil
  then show ?thesis by (simp add: invalid_loop.simps)
next
  case (Cons b r)
  note l = lead_cases [of b]
  consider (a) "b < 0x80" | (2) "\<not> b < 0x80" "b AND 0xE0 = 0xC0" | (3) "\<not> b < 0x80" "b AND 0xE0 \<noteq> 0xC0" "b AND 0xF0 = 0xE0"
    | (4) "\<not> b < 0x80" "b AND 0xE0 \<noteq> 0xC0" "b AND 0xF0 \<noteq> 0xE0" "b AND 0xF8 = 0xF0"
    | (n) "\<not> b < 0x80" "b AND 0xE0 \<noteq> 0xC0" "b AND 0xF0 \<noteq> 0xE0" "b AND 0xF8 \<noteq> 0xF0" by blast
  then show ?thesis
  proof cases
    case a
    then show ?thesis by (simp add: Cons ascii_rfc invalid_loop.simps [of "b # r"])
  next
    case 2
    from DecodeUtf8_finish [OF l(1) [OF 2] low_payload(1), of r] 2 show ?thesis
      by (auto simp: Cons Let_def invalid_loop.simps [of "b # r"] split: option.split)
  next
    case 3
    from DecodeUtf8_finish [OF l(2) [OF 3] low_payload(2), of r] 3 show ?thesis
      by (auto simp: Cons Let_def invalid_loop.simps [of "b # r"] numeral_2_eq_2 numeral_3_eq_3 split: option.split)
  next
    case 4
    from DecodeUtf8_finish [OF l(3) [OF 4] low_payload(3), of r] 4 show ?thesis
      by (auto simp: Cons Let_def invalid_loop.simps [of "b # r"] eval_nat_numeral split: option.split)
  next
    case n
    then show ?thesis using l(4) [OF n] by (simp add: Cons Let_def rfc_def invalid_loop.simps [of "b # r"])
  qed
qed

lemma invalid_loop_spec:
  "if utf8_text bs then invalid_loop bs i = - 1
   else \<exists>j. invalid_loop bs i = int (i + j) \<and> j < length bs \<and> utf8_text (take j bs) \<and> rfc (drop j bs) = None"
proof (induction "length bs" arbitrary: bs i rule: less_induct)
  case less
  show ?case
  proof (cases "rfc bs")
    case None
    then show ?thesis using utf8_text_stuck [OF None]
      by (cases "bs = []") (auto simp: invalid_loop_rfc [of bs i] invalid_loop.simps [of "[]" i])
  next
    case (Some p)
    then obtain k len where p: "rfc bs = Some (k, len)" by (cases p) auto
    then have len: "0 < len" "len \<le> length bs" "bs \<noteq> []"
      using rfc_sound [OF p] by (auto simp: starts_with_def dest: arg_cong [where f = length])
    then have "length (drop len bs) < length bs" by simp
    note IH = less.hyps [OF this, of "i + len"] and tx = utf8_text_step [OF p]
    have loop: "invalid_loop bs i = invalid_loop (drop len bs) (i + len)"
      using len p by (simp add: invalid_loop_rfc [of bs i])
    show ?thesis
    proof (cases "utf8_text bs")
      case True
      with IH tx(1) loop show ?thesis by simp
    next
      case False
      then obtain j where "invalid_loop (drop len bs) (i + len) = int (i + len + j)" "j < length bs - len"
        "utf8_text (take j (drop len bs))" "rfc (drop j (drop len bs)) = None"
        using IH tx(1) by auto
      with False tx(2) loop show ?thesis by (auto intro!: exI [of _ "len + j"] simp: add.commute)
    qed
  qed
qed

section \<open>Properties\<close>

text \<open>
  C24. Validation of UTF-8. \<^verbatim>\<open>IsValid\<close> accepts exactly the concatenations of encoded scalar values, and
  \<^verbatim>\<open>IndexOfInvalidSubsequence\<close> returns \<open>- 1\<close> for them; for any other bytes it returns the position up to
  which the bytes are such a text and at which no scalar value is encoded.
\<close>

theorem utf8_validation:
  "(Utf8_IsValid bs \<longleftrightarrow> utf8_text bs) \<and>
   (if utf8_text bs then IndexOfInvalidSubsequence bs = - 1
    else \<exists>i. IndexOfInvalidSubsequence bs = int i \<and> i < length bs \<and> utf8_text (take i bs) \<and>
           (\<forall>n. \<not> starts_with (drop i bs) n))"
proof (cases "utf8_text bs")
  case True
  then show ?thesis using invalid_loop_spec [of bs 0] by (simp add: Utf8_IsValid_def IndexOfInvalidSubsequence_def)
next
  case False
  then obtain j where j: "invalid_loop bs 0 = int j" "j < length bs" "utf8_text (take j bs)" "rfc (drop j bs) = None"
    using invalid_loop_spec [of bs 0] by auto
  then have "\<forall>n. \<not> starts_with (drop j bs) n" using rfc_complete by fastforce
  with False j show ?thesis by (auto simp: Utf8_IsValid_def IndexOfInvalidSubsequence_def)
qed

text \<open>
  C23. Transcoding in both directions, for every source, destination size and both flags. The call
  reads the source unit by unit: where the encoding of a scalar value stands, that scalar value; otherwise
  an ill-formed unit, which is one surrogate of UTF-16, and in UTF-8 a byte that leads nothing or a lead byte
  with the continuation bytes that follow it up to the length it promises, never a byte that could start a
  unit of its own. It writes the other encoding of each unit read, U+FFFD for an ill-formed one, to the front of the
  destination, changes nothing behind it and never overruns it; the counts are those of the units read
  and written, cast to 32 bits. It stops early only with \<^verbatim>\<open>NeedMoreData\<close>, where a block that is not the last ends
  inside a unit, with \<^verbatim>\<open>InvalidData\<close> at an ill-formed unit that is not to be replaced, or with \<^verbatim>\<open>DestinationTooSmall\<close>.
  (An overlong, surrogate or too large sequence of the promised length counts as one ill-formed unit, where the
  comment in the source announces maximal subparts.)
\<close>

theorem utf_transcoding:
  "transcoded (head_unit utf16 utf16_ill utf16_cut fin) utf8 rp chars bytes (FromUtf16 chars bytes rp fin) \<and>
   transcoded (head_unit utf8 utf8_ill utf8_cut fin) utf16 rp bytes' chars' (ToUtf16 bytes' chars' rp fin)"
  unfolding FromUtf16_def ToUtf16_def by (intro conjI from16.loop_transcoded to16.loop_transcoded)

text \<open>
  Round trip. The UTF-16 of any scalar values is transcoded to their UTF-8 and back, whatever the
  flags, into any destinations large enough; all of it is read and the destination behind it is
  untouched.
\<close>

theorem utf_roundtrip:
  assumes "list_all is_scalar ks"
    and "length (concat (map utf8 ks)) \<le> length bytes" and "length (concat (map utf16 ks)) \<le> length chars"
  shows "FromUtf16 (concat (map utf16 ks)) bytes rp fin =
      (Done, to_intcs (length (concat (map utf16 ks))), to_intcs (length (concat (map utf8 ks))),
       concat (map utf8 ks) @ drop (length (concat (map utf8 ks))) bytes) \<and>
    ToUtf16 (concat (map utf8 ks)) chars rp fin =
      (Done, to_intcs (length (concat (map utf8 ks))), to_intcs (length (concat (map utf16 ks))),
       concat (map utf16 ks) @ drop (length (concat (map utf16 ks))) chars)"
  using from16.loop_well_formed [OF assms(1), of 0 bytes rp fin 0] to16.loop_well_formed [OF assms(1), of 0 chars rp fin 0]
    assms(2,3)
  by (simp_all add: FromUtf16_def ToUtf16_def)

text \<open>
  A structurally complete sequence that encodes no scalar value is replaced as a whole, where the
  Unicode recommendation for maximal subparts gives one replacement character per byte here.
\<close>

lemma overlong_replaced_as_a_whole:
  "ToUtf16 [0xE0, 0x80, 0x80] [0, 0, 0] True True = (Done, 3, 1, [0xFFFD, 0, 0])"
  by code_simp

text \<open>ASCII behind a lead byte is not swallowed.\<close>

lemma ascii_behind_lead_byte:
  "ToUtf16 [0xF0, 0x41, 0x42] [0, 0, 0] True True = (Done, 3, 3, [0xFFFD, 0x41, 0x42])"
  by code_simp

end
