(* ===== verification/Text_Encodings.thy ===== *)
theory Text_Encodings
  imports Text_Transcoding
begin

unbundle bit_operations_syntax

text \<open>
  The encodings of \<^verbatim>\<open>System/Text\<close>: the fallback objects (\<^verbatim>\<open>EncoderFallback.hpp\<close>, \<^verbatim>\<open>DecoderFallback.hpp\<close>,
  \<^verbatim>\<open>detail/FallbackDispatch.hpp\<close>), the shared argument check (\<^verbatim>\<open>detail/RawDecodeRange.hpp\<close>), the base
  class with its read-only factory instances (\<^verbatim>\<open>Encoding.hpp\<close>, \<^verbatim>\<open>Encoding.cpp\<close>), and \<^verbatim>\<open>GetBytes\<close> and
  \<^verbatim>\<open>GetString\<close> of \<^verbatim>\<open>UTF8Encoding\<close>, \<^verbatim>\<open>ASCIIEncoding\<close>, \<^verbatim>\<open>Latin1Encoding\<close>, \<^verbatim>\<open>UnicodeEncoding\<close> and
  \<^verbatim>\<open>UTF32Encoding\<close>. A \<^verbatim>\<open>std::string\<close> is its list of bytes.
\<close>

section \<open>Model: fallbacks\<close>

text \<open>The shipped fallback objects. The message of an exception is determined by its fields.\<close>

datatype DecoderFallback = DecoderReplacementFallback "bytecs list" | DecoderExceptionFallback

datatype EncoderFallback = EncoderReplacementFallback "bytecs list" | EncoderExceptionFallback

record FallbackBuffer =
  fb_string :: "bytecs list"
  fb_position :: nat

definition FallbackBuffer_GetNextChar :: "FallbackBuffer \<Rightarrow> bytecs \<times> FallbackBuffer" where
  "FallbackBuffer_GetNextChar b =
     (if fb_position b \<ge> length (fb_string b) then (0, b)
      else (fb_string b ! fb_position b, b\<lparr>fb_position := Suc (fb_position b)\<rparr>))"

definition FallbackBuffer_MovePrevious :: "FallbackBuffer \<Rightarrow> bool \<times> FallbackBuffer" where
  "FallbackBuffer_MovePrevious b =
     (if fb_position b = 0 then (False, b) else (True, b\<lparr>fb_position := fb_position b - 1\<rparr>))"

definition FallbackBuffer_Remaining :: "FallbackBuffer \<Rightarrow> intcs" where
  "FallbackBuffer_Remaining b = int (length (fb_string b)) - int (fb_position b)"

definition FallbackBuffer_Reset :: "FallbackBuffer \<Rightarrow> FallbackBuffer" where
  "FallbackBuffer_Reset b = b\<lparr>fb_string := [], fb_position := 0\<rparr>"

text \<open>The buffer of an exception fallback holds no string.\<close>

definition DecoderFallback_CreateFallbackBuffer :: "DecoderFallback \<Rightarrow> FallbackBuffer" where
  "DecoderFallback_CreateFallbackBuffer f =
     (case f of DecoderReplacementFallback r \<Rightarrow> \<lparr>fb_string = r, fb_position = 0\<rparr>
              | DecoderExceptionFallback \<Rightarrow> \<lparr>fb_string = [], fb_position = 0\<rparr>)"

definition EncoderFallback_CreateFallbackBuffer :: "EncoderFallback \<Rightarrow> FallbackBuffer" where
  "EncoderFallback_CreateFallbackBuffer f =
     (case f of EncoderReplacementFallback r \<Rightarrow> \<lparr>fb_string = r, fb_position = 0\<rparr>
              | EncoderExceptionFallback \<Rightarrow> \<lparr>fb_string = [], fb_position = 0\<rparr>)"

definition DecoderFallback_Fallback ::
  "DecoderFallback \<Rightarrow> FallbackBuffer \<Rightarrow> bytecs list \<Rightarrow> intcs \<Rightarrow> (bool \<times> FallbackBuffer) res"
where
  "DecoderFallback_Fallback f b bytesUnknown index =
     (case f of DecoderReplacementFallback r \<Rightarrow> Inr (fb_string b \<noteq> [], b\<lparr>fb_position := 0\<rparr>)
              | DecoderExceptionFallback \<Rightarrow> Inl (DecoderFallbackException bytesUnknown index))"

definition EncoderFallback_Fallback ::
  "EncoderFallback \<Rightarrow> FallbackBuffer \<Rightarrow> uintcs \<Rightarrow> intcs \<Rightarrow> (bool \<times> FallbackBuffer) res"
where
  "EncoderFallback_Fallback f b charUnknown index =
     (case f of EncoderReplacementFallback r \<Rightarrow> Inr (fb_string b \<noteq> [], b\<lparr>fb_position := 0\<rparr>)
              | EncoderExceptionFallback \<Rightarrow> Inl (EncoderFallbackException charUnknown index))"

definition DecoderFallback_GetFallbackString :: "DecoderFallback \<Rightarrow> buffer \<Rightarrow> intcs \<Rightarrow> bytecs list res" where
  "DecoderFallback_GetFallbackString f bytesUnknown byteCount =
     (case f of
        DecoderReplacementFallback r \<Rightarrow> Inr r
      | DecoderExceptionFallback \<Rightarrow>
          if byteCount < 0 then Inl (ArgumentOutOfRangeException ''byteCount'')
          else if byteCount > 0 \<and> bytesUnknown = None then Inl (ArgumentNullException ''bytesUnknown'')
          else bind_res
                 (DecoderFallback_Fallback f (DecoderFallback_CreateFallbackBuffer f)
                   (take (nat byteCount) (case bytesUnknown of None \<Rightarrow> [] | Some d \<Rightarrow> d)) 0)
                 (\<lambda>_. Inr []))"

definition EncoderFallback_GetFallbackBytes :: "EncoderFallback \<Rightarrow> uintcs \<Rightarrow> bytecs list res" where
  "EncoderFallback_GetFallbackBytes f unknownChar =
     (case f of
        EncoderReplacementFallback r \<Rightarrow> Inr r
      | EncoderExceptionFallback \<Rightarrow>
          bind_res (EncoderFallback_Fallback f (EncoderFallback_CreateFallbackBuffer f) unknownChar 0) (\<lambda>_. Inr []))"

text \<open>The loop that empties a fallback buffer into the output.\<close>

function fallback_drain :: "FallbackBuffer \<Rightarrow> bytecs list \<Rightarrow> bytecs list" where
  "fallback_drain b result =
     (if FallbackBuffer_Remaining b > 0
      then let (c, b') = FallbackBuffer_GetNextChar b in fallback_drain b' (result @ [c])
      else result)"
  by pat_completeness auto
termination
  by (relation "measure (\<lambda>(b, r). nat (FallbackBuffer_Remaining b))")
    (auto simp: FallbackBuffer_Remaining_def FallbackBuffer_GetNextChar_def split: if_splits)

section \<open>Model: Encoding\<close>

record Encoding =
  enc_decoderFallback :: DecoderFallback
  enc_encoderFallback :: EncoderFallback
  enc_isReadOnly :: bool

definition Encoding_base :: Encoding where
  "Encoding_base =
     \<lparr>enc_decoderFallback = DecoderReplacementFallback [0x3F], enc_encoderFallback = EncoderReplacementFallback [0x3F],
      enc_isReadOnly = False\<rparr>"

definition throwIfReadOnly :: "'a Encoding_scheme \<Rightarrow> unit res" where
  "throwIfReadOnly e =
     (if enc_isReadOnly e then Inl (InvalidOperationException ''Instance is read-only.'') else Inr ())"

definition markReadOnly :: "'a Encoding_scheme \<Rightarrow> 'a Encoding_scheme" where
  "markReadOnly e = e\<lparr>enc_isReadOnly := True\<rparr>"

text \<open>The argument of a setter is a shared pointer: \<open>None\<close> is null.\<close>

definition setDecoderFallbackProperty :: "'a Encoding_scheme \<Rightarrow> DecoderFallback option \<Rightarrow> 'a Encoding_scheme res" where
  "setDecoderFallbackProperty e value =
     bind_res (throwIfReadOnly e)
       (\<lambda>_. case value of None \<Rightarrow> Inl (ArgumentNullException ''value'') | Some f \<Rightarrow> Inr (e\<lparr>enc_decoderFallback := f\<rparr>))"

definition setEncoderFallbackProperty :: "'a Encoding_scheme \<Rightarrow> EncoderFallback option \<Rightarrow> 'a Encoding_scheme res" where
  "setEncoderFallbackProperty e value =
     bind_res (throwIfReadOnly e)
       (\<lambda>_. case value of None \<Rightarrow> Inl (ArgumentNullException ''value'') | Some f \<Rightarrow> Inr (e\<lparr>enc_encoderFallback := f\<rparr>))"

definition AppendDecoderFallback :: "bytecs list \<Rightarrow> 'a Encoding_scheme \<Rightarrow> bytecs list \<Rightarrow> nat \<Rightarrow> bytecs list res" where
  "AppendDecoderFallback out owner bytes count =
     bind_res (DecoderFallback_GetFallbackString (enc_decoderFallback owner) (Some bytes) (int count)) (\<lambda>r. Inr (out @ r))"

definition AppendEncoderFallback :: "bytecs list \<Rightarrow> 'a Encoding_scheme \<Rightarrow> uintcs \<Rightarrow> bytecs list res" where
  "AppendEncoderFallback out owner scalar =
     bind_res (EncoderFallback_GetFallbackBytes (enc_encoderFallback owner) scalar) (\<lambda>r. Inr (out @ r))"

text \<open>The check of a raw range; the sum is computed in 64 unsigned bits and cannot wrap.\<close>

definition validateRawDecodeRange :: "buffer \<Rightarrow> intcs \<Rightarrow> intcs \<Rightarrow> bool res" where
  "validateRawDecodeRange data index count =
     (if index < 0 then Inl (ArgumentOutOfRangeException ''index'')
      else if count < 0 then Inl (ArgumentOutOfRangeException ''count'')
      else if count = 0 then Inr False
      else if data = None then Inl (ArgumentNullException ''data'')
      else Inr True)"

definition checkedRawDecodeRange :: "buffer \<Rightarrow> intcs \<Rightarrow> intcs \<Rightarrow> (nat \<times> nat) res" where
  "checkedRawDecodeRange data index count =
     bind_res (validateRawDecodeRange data index count)
       (\<lambda>any. Inr (if \<not> any then (0, 0) else (nat index, nat index + nat count)))"

text \<open>The bytes behind a pointer; every read of the code below follows a check that it is not null.\<close>

definition pointee :: "buffer \<Rightarrow> bytecs list" where
  "pointee data = (case data of None \<Rightarrow> [] | Some d \<Rightarrow> d)"

definition Encoding_GetBytes :: "bytecs list \<Rightarrow> bytecs list" where
  "Encoding_GetBytes str = str"

definition Encoding_GetString :: "buffer \<Rightarrow> intcs \<Rightarrow> intcs \<Rightarrow> bytecs list res" where
  "Encoding_GetString data index count =
     bind_res (checkedRawDecodeRange data index count)
       (\<lambda>(begin, end). Inr (if \<not> begin < end then [] else take (end - begin) (drop begin (pointee data))))"

section \<open>Model: UTF8Encoding\<close>

definition replacement_utf8 :: "bytecs list" where
  "replacement_utf8 = [0xEF, 0xBF, 0xBD]"

definition set_default_fallbacks :: "'a Encoding_scheme \<Rightarrow> 'a Encoding_scheme" where
  "set_default_fallbacks e =
     e\<lparr>enc_encoderFallback := EncoderReplacementFallback replacement_utf8,
       enc_decoderFallback := DecoderReplacementFallback replacement_utf8\<rparr>"

definition UTF8Encoding_ctor :: Encoding where
  "UTF8Encoding_ctor = set_default_fallbacks Encoding_base"

definition wellFormedUtf8Length :: "bytecs list \<Rightarrow> nat \<Rightarrow> nat \<Rightarrow> nat" where
  "wellFormedUtf8Length data i end = (case TryDecodeUtf8Scalar data end i of Inl _ \<Rightarrow> 0 | Inr (cp, len) \<Rightarrow> len)"

text \<open>The offending byte reaches the encoder fallback as a (signed) \<^verbatim>\<open>char\<close> widened to \<^verbatim>\<open>char32_t\<close>.\<close>

function UTF8Encoding_GetBytes_loop :: "EncoderFallback \<Rightarrow> bytecs list \<Rightarrow> nat \<Rightarrow> bytecs list \<Rightarrow> bytecs list res" where
  "UTF8Encoding_GetBytes_loop fallback data i result =
     (if i < length data then
        let len = wellFormedUtf8Length data i (length data)
        in if len > 0 then UTF8Encoding_GetBytes_loop fallback data (i + len) (result @ take len (drop i data))
           else case EncoderFallback_Fallback fallback (EncoderFallback_CreateFallbackBuffer fallback) (scast (data ! i)) (int i) of
                  Inl e \<Rightarrow> Inl e
                | Inr (queued, b) \<Rightarrow>
                    UTF8Encoding_GetBytes_loop fallback data (Suc i) (if queued then fallback_drain b result else result)
      else Inr result)"
  by pat_completeness auto
termination by (relation "measure (\<lambda>(f, data, i, r). length data - i)") auto

definition UTF8Encoding_GetBytes :: "'a Encoding_scheme \<Rightarrow> bytecs list \<Rightarrow> bytecs list res" where
  "UTF8Encoding_GetBytes e str = UTF8Encoding_GetBytes_loop (enc_encoderFallback e) str 0 []"

function UTF8Encoding_GetString_loop ::
  "DecoderFallback \<Rightarrow> bytecs list \<Rightarrow> nat \<Rightarrow> nat \<Rightarrow> bytecs list \<Rightarrow> bytecs list res"
where
  "UTF8Encoding_GetString_loop fallback data end i result =
     (if i < end then
        let len = wellFormedUtf8Length data i end
        in if len > 0 then UTF8Encoding_GetString_loop fallback data end (i + len) (result @ take len (drop i data))
           else case DecoderFallback_Fallback fallback (DecoderFallback_CreateFallbackBuffer fallback) [data ! i] (int i) of
                  Inl e \<Rightarrow> Inl e
                | Inr (queued, b) \<Rightarrow>
                    UTF8Encoding_GetString_loop fallback data end (Suc i) (if queued then fallback_drain b result else result)
      else Inr result)"
  by pat_completeness auto
termination by (relation "measure (\<lambda>(f, data, end, i, r). end - i)") auto

definition UTF8Encoding_GetString :: "'a Encoding_scheme \<Rightarrow> buffer \<Rightarrow> intcs \<Rightarrow> intcs \<Rightarrow> bytecs list res" where
  "UTF8Encoding_GetString e data index count =
     bind_res (checkedRawDecodeRange data index count)
       (\<lambda>(begin, end).
          if \<not> begin < end then Inr []
          else UTF8Encoding_GetString_loop (enc_decoderFallback e) (pointee data) end begin [])"

section \<open>Model: ASCIIEncoding and Latin1Encoding\<close>

text \<open>Every decoding step of the shared decoder advances.\<close>

lemma DecodeUtf8Scalar_advances: "DecodeUtf8Scalar s i = (cp, len) \<Longrightarrow> 1 \<le> len"
  by (auto simp: DecodeUtf8Scalar_def TryDecodeUtf8Scalar_def Let_def split: if_splits sum.splits)

function ASCIIEncoding_GetBytes_loop :: "'a Encoding_scheme \<Rightarrow> bytecs list \<Rightarrow> nat \<Rightarrow> bytecs list \<Rightarrow> bytecs list res" where
  "ASCIIEncoding_GetBytes_loop e str i result =
     (if i < length str then
        case DecodeUtf8Scalar str i of
          (cp, len) \<Rightarrow>
            if cp \<le> 127 then ASCIIEncoding_GetBytes_loop e str (i + len) (result @ [ucast cp])
            else case AppendEncoderFallback result e cp of
                   Inl x \<Rightarrow> Inl x
                 | Inr result' \<Rightarrow> ASCIIEncoding_GetBytes_loop e str (i + len) result'
      else Inr result)"
  by pat_completeness auto
termination
  by (relation "measure (\<lambda>(e, str, i, r). length str - i)") (auto dest!: DecodeUtf8Scalar_advances [OF sym])

definition ASCIIEncoding_GetBytes :: "'a Encoding_scheme \<Rightarrow> bytecs list \<Rightarrow> bytecs list res" where
  "ASCIIEncoding_GetBytes e str = ASCIIEncoding_GetBytes_loop e str 0 []"

function ASCIIEncoding_GetString_loop ::
  "'a Encoding_scheme \<Rightarrow> bytecs list \<Rightarrow> nat \<Rightarrow> nat \<Rightarrow> bytecs list \<Rightarrow> bytecs list res"
where
  "ASCIIEncoding_GetString_loop e data end i result =
     (if i < end then
        let b = data ! i
        in if b \<le> 127 then ASCIIEncoding_GetString_loop e data end (Suc i) (result @ [b])
           else case AppendDecoderFallback result e (drop i data) 1 of
                  Inl x \<Rightarrow> Inl x
                | Inr result' \<Rightarrow> ASCIIEncoding_GetString_loop e data end (Suc i) result'
      else Inr result)"
  by pat_completeness auto
termination by (relation "measure (\<lambda>(e, data, end, i, r). end - i)") auto

definition ASCIIEncoding_GetString :: "'a Encoding_scheme \<Rightarrow> buffer \<Rightarrow> intcs \<Rightarrow> intcs \<Rightarrow> bytecs list res" where
  "ASCIIEncoding_GetString e data index count =
     bind_res (checkedRawDecodeRange data index count)
       (\<lambda>(begin, end).
          if \<not> begin < end then Inr [] else ASCIIEncoding_GetString_loop e (pointee data) end begin [])"

function Latin1Encoding_GetBytes_loop :: "'a Encoding_scheme \<Rightarrow> bytecs list \<Rightarrow> nat \<Rightarrow> bytecs list \<Rightarrow> bytecs list res" where
  "Latin1Encoding_GetBytes_loop e s i result =
     (if i < length s then
        case DecodeUtf8Scalar s i of
          (cp, len) \<Rightarrow>
            if cp \<le> 0xFF then Latin1Encoding_GetBytes_loop e s (i + len) (result @ [ucast cp])
            else case AppendEncoderFallback result e cp of
                   Inl x \<Rightarrow> Inl x
                 | Inr result' \<Rightarrow> Latin1Encoding_GetBytes_loop e s (i + len) result'
      else Inr result)"
  by pat_completeness auto
termination
  by (relation "measure (\<lambda>(e, s, i, r). length s - i)") (auto dest!: DecodeUtf8Scalar_advances [OF sym])

definition Latin1Encoding_GetBytes :: "'a Encoding_scheme \<Rightarrow> bytecs list \<Rightarrow> bytecs list res" where
  "Latin1Encoding_GetBytes e s = Latin1Encoding_GetBytes_loop e s 0 []"

function Latin1Encoding_GetString_loop :: "bytecs list \<Rightarrow> nat \<Rightarrow> nat \<Rightarrow> bytecs list \<Rightarrow> bytecs list" where
  "Latin1Encoding_GetString_loop data end i result =
     (if i < end then Latin1Encoding_GetString_loop data end (Suc i) (AppendUtf8Scalar result (ucast (data ! i)))
      else result)"
  by pat_completeness auto
termination by (relation "measure (\<lambda>(data, end, i, r). end - i)") auto

definition Latin1Encoding_GetString :: "buffer \<Rightarrow> intcs \<Rightarrow> intcs \<Rightarrow> bytecs list res" where
  "Latin1Encoding_GetString data index count =
     bind_res (checkedRawDecodeRange data index count)
       (\<lambda>(begin, end). Inr (Latin1Encoding_GetString_loop (pointee data) end begin []))"

section \<open>Model: UnicodeEncoding\<close>

record UnicodeEncoding = Encoding +
  ue_bigEndian :: bool
  ue_byteOrderMark :: bool

definition UnicodeEncoding_ctor :: "bool \<Rightarrow> bool \<Rightarrow> UnicodeEncoding" where
  "UnicodeEncoding_ctor bigEndian byteOrderMark =
     set_default_fallbacks
       (Encoding.extend Encoding_base (UnicodeEncoding.fields bigEndian byteOrderMark))"

definition UnicodeEncoding_GetPreamble :: "UnicodeEncoding \<Rightarrow> bytecs list" where
  "UnicodeEncoding_GetPreamble e =
     (if \<not> ue_byteOrderMark e then [] else if ue_bigEndian e then [0xFE, 0xFF] else [0xFF, 0xFE])"

text \<open>\<^verbatim>\<open>writeUnit\<close>: two indexed writes into the buffer of fixed size.\<close>

definition Unicode_writeUnit :: "bool \<Rightarrow> char16 \<Rightarrow> bytecs list \<times> nat \<Rightarrow> bytecs list \<times> nat" where
  "Unicode_writeUnit bigEndian unit st =
     (case st of
        (out, pos) \<Rightarrow>
          (poke out pos
             (if bigEndian then [ucast (drop_bit 8 unit AND 0xFF), ucast (unit AND 0xFF)]
              else [ucast (unit AND 0xFF), ucast (drop_bit 8 unit AND 0xFF)]), pos + 2))"

definition Unicode_writeScalar :: "bool \<Rightarrow> uintcs \<Rightarrow> bytecs list \<times> nat \<Rightarrow> bytecs list \<times> nat" where
  "Unicode_writeScalar bigEndian cp st =
     (if cp < 0x10000 then Unicode_writeUnit bigEndian (ucast cp) st
      else let v = cp - 0x10000
           in Unicode_writeUnit bigEndian (ucast (0xDC00 + (v AND 0x3FF)))
                (Unicode_writeUnit bigEndian (ucast (0xD800 + drop_bit 10 v)) st))"

function UnicodeEncoding_GetBytes_loop :: "bool \<Rightarrow> bytecs list \<Rightarrow> nat \<Rightarrow> bytecs list \<times> nat \<Rightarrow> bytecs list \<times> nat" where
  "UnicodeEncoding_GetBytes_loop bigEndian s i st =
     (if i < length s then
        case DecodeUtf8Scalar s i of
          (cp, len) \<Rightarrow> UnicodeEncoding_GetBytes_loop bigEndian s (i + len) (Unicode_writeScalar bigEndian cp st)
      else st)"
  by pat_completeness auto
termination
  by (relation "measure (\<lambda>(e, s, i, r). length s - i)") (auto dest!: DecodeUtf8Scalar_advances [OF sym])

definition UnicodeEncoding_GetBytes :: "UnicodeEncoding \<Rightarrow> bytecs list \<Rightarrow> bytecs list" where
  "UnicodeEncoding_GetBytes e s =
     (case UnicodeEncoding_GetBytes_loop (ue_bigEndian e) s 0 (replicate (length s * 2 + 2) 0, 0) of
        (out, pos) \<Rightarrow> take pos out)"

definition Unicode_readUnit :: "bool \<Rightarrow> bytecs list \<Rightarrow> nat \<Rightarrow> char16" where
  "Unicode_readUnit bigEndian data i =
     (let b0 = data ! i; b1 = data ! (i + 1)
      in if bigEndian then push_bit 8 (ucast b0) OR ucast b1 else push_bit 8 (ucast b1) OR ucast b0)"

text \<open>
  The body of the loop of \<^verbatim>\<open>GetString\<close>: the code point at \<open>i\<close>, or none where the unit is undecodable,
  and the index behind it.
\<close>

definition Unicode_readScalar :: "bool \<Rightarrow> bytecs list \<Rightarrow> nat \<Rightarrow> nat \<Rightarrow> uintcs option \<times> nat" where
  "Unicode_readScalar bigEndian data end i =
     (let unit = Unicode_readUnit bigEndian data i
      in if 0xD800 \<le> unit \<and> unit \<le> 0xDBFF then
           if i + 3 < end then
             let low = Unicode_readUnit bigEndian data (i + 2)
             in if 0xDC00 \<le> low \<and> low \<le> 0xDFFF
                then (Some (0x10000 + (push_bit 10 (ucast (unit - 0xD800)) OR ucast (low - 0xDC00))), i + 4)
                else (None, i + 2)
           else (None, i + 2)
         else if 0xDC00 \<le> unit \<and> unit \<le> 0xDFFF then (None, i + 2)
         else (Some (ucast unit), i + 2))"

lemma Unicode_readScalar_advances: "Unicode_readScalar be data end i = (cp, j) \<Longrightarrow> i < j"
  by (auto simp: Unicode_readScalar_def Let_def split: if_splits)

function UnicodeEncoding_GetString_loop ::
  "UnicodeEncoding \<Rightarrow> bytecs list \<Rightarrow> nat \<Rightarrow> nat \<Rightarrow> bytecs list \<Rightarrow> bytecs list res"
where
  "UnicodeEncoding_GetString_loop e data end i out =
     (if i + 1 < end then
        case Unicode_readScalar (ue_bigEndian e) data end i of
          (None, j) \<Rightarrow>
            (case AppendDecoderFallback out e (drop i data) 2 of
               Inl x \<Rightarrow> Inl x
             | Inr out' \<Rightarrow> UnicodeEncoding_GetString_loop e data end j out')
        | (Some cp, j) \<Rightarrow> UnicodeEncoding_GetString_loop e data end j (AppendUtf8Scalar out cp)
      else if i < end then AppendDecoderFallback out e (drop i data) (end - i)
      else Inr out)"
  by pat_completeness auto
termination
  by (relation "measure (\<lambda>(e, data, end, i, out). end - i)") (auto dest!: Unicode_readScalar_advances [OF sym])

definition UnicodeEncoding_GetString :: "UnicodeEncoding \<Rightarrow> buffer \<Rightarrow> intcs \<Rightarrow> intcs \<Rightarrow> bytecs list res" where
  "UnicodeEncoding_GetString e data index count =
     bind_res (checkedRawDecodeRange data index count)
       (\<lambda>(begin, end).
          let i = (if end - begin \<ge> 2 \<and> Unicode_readUnit (ue_bigEndian e) (pointee data) begin = 0xFEFF
                   then begin + 2 else begin)
          in UnicodeEncoding_GetString_loop e (pointee data) end i [])"

section \<open>Model: UTF32Encoding\<close>

definition UTF32_writeUnit :: "bool \<Rightarrow> uintcs \<Rightarrow> bytecs list \<times> nat \<Rightarrow> bytecs list \<times> nat" where
  "UTF32_writeUnit bigEndian cp st =
     (case st of
        (out, pos) \<Rightarrow>
          (poke out pos
             (if \<not> bigEndian
              then [ucast (cp AND 0xFF), ucast (drop_bit 8 cp AND 0xFF), ucast (drop_bit 16 cp AND 0xFF), ucast (drop_bit 24 cp AND 0xFF)]
              else [ucast (drop_bit 24 cp AND 0xFF), ucast (drop_bit 16 cp AND 0xFF), ucast (drop_bit 8 cp AND 0xFF), ucast (cp AND 0xFF)]),
           pos + 4))"

function UTF32Encoding_GetBytes_loop :: "bool \<Rightarrow> bytecs list \<Rightarrow> nat \<Rightarrow> bytecs list \<times> nat \<Rightarrow> bytecs list \<times> nat" where
  "UTF32Encoding_GetBytes_loop bigEndian s i st =
     (if i < length s then
        case DecodeUtf8Scalar s i of
          (cp, len) \<Rightarrow> UTF32Encoding_GetBytes_loop bigEndian s (i + len) (UTF32_writeUnit bigEndian cp st)
      else st)"
  by pat_completeness auto
termination
  by (relation "measure (\<lambda>(e, s, i, r). length s - i)") (auto dest!: DecodeUtf8Scalar_advances [OF sym])

text \<open>\<^verbatim>\<open>UTF32Encoding\<close> has the same two fields as \<^verbatim>\<open>UnicodeEncoding\<close>.\<close>

type_synonym UTF32Encoding = UnicodeEncoding

definition UTF32Encoding_ctor :: "bool \<Rightarrow> bool \<Rightarrow> UTF32Encoding" where
  "UTF32Encoding_ctor bigEndian byteOrderMark =
     set_default_fallbacks
       (Encoding.extend Encoding_base (UnicodeEncoding.fields bigEndian byteOrderMark))"

definition UTF32Encoding_GetPreamble :: "UTF32Encoding \<Rightarrow> bytecs list" where
  "UTF32Encoding_GetPreamble e =
     (if \<not> ue_byteOrderMark e then []
      else if ue_bigEndian e then [0x00, 0x00, 0xFE, 0xFF] else [0xFF, 0xFE, 0x00, 0x00])"

definition UTF32Encoding_GetBytes :: "UTF32Encoding \<Rightarrow> bytecs list \<Rightarrow> bytecs list" where
  "UTF32Encoding_GetBytes e s =
     (case UTF32Encoding_GetBytes_loop (ue_bigEndian e) s 0 (replicate (length s * 4 + 4) 0, 0) of
        (out, pos) \<Rightarrow> take pos out)"

definition UTF32_readUnit :: "bool \<Rightarrow> bytecs list \<Rightarrow> nat \<Rightarrow> uintcs" where
  "UTF32_readUnit bigEndian data i =
     (let b0 = ucast (data ! i); b1 = ucast (data ! (i + 1)); b2 = ucast (data ! (i + 2)); b3 = ucast (data ! (i + 3))
      in if \<not> bigEndian then b0 OR push_bit 8 b1 OR push_bit 16 b2 OR push_bit 24 b3
         else push_bit 24 b0 OR push_bit 16 b1 OR push_bit 8 b2 OR b3)"

function UTF32Encoding_GetString_loop ::
  "UTF32Encoding \<Rightarrow> bytecs list \<Rightarrow> nat \<Rightarrow> nat \<Rightarrow> bytecs list \<Rightarrow> bytecs list res"
where
  "UTF32Encoding_GetString_loop e data end i result =
     (if i + 3 < end then
        let cp = UTF32_readUnit (ue_bigEndian e) data i
        in if cp > 0x10FFFF \<or> isSurrogate cp then
             case AppendDecoderFallback result e (drop i data) 4 of
               Inl x \<Rightarrow> Inl x
             | Inr result' \<Rightarrow> UTF32Encoding_GetString_loop e data end (i + 4) result'
           else UTF32Encoding_GetString_loop e data end (i + 4) (AppendUtf8Scalar result cp)
      else if i < end then AppendDecoderFallback result e (drop i data) (end - i)
      else Inr result)"
  by pat_completeness auto
termination by (relation "measure (\<lambda>(e, data, end, i, out). end - i)") auto

definition UTF32Encoding_GetString :: "UTF32Encoding \<Rightarrow> buffer \<Rightarrow> intcs \<Rightarrow> intcs \<Rightarrow> bytecs list res" where
  "UTF32Encoding_GetString e data index count =
     bind_res (checkedRawDecodeRange data index count)
       (\<lambda>(begin, end).
          let start = (if end - begin \<ge> 4 \<and> UTF32_readUnit (ue_bigEndian e) (pointee data) begin = 0x0000FEFF
                       then begin + 4 else begin)
          in UTF32Encoding_GetString_loop e (pointee data) end start [])"

section \<open>Model: factory instances\<close>

definition Encoding_UTF8 :: Encoding where
  "Encoding_UTF8 = markReadOnly UTF8Encoding_ctor"

definition Encoding_ASCII :: Encoding where
  "Encoding_ASCII = markReadOnly Encoding_base"

definition Encoding_Latin1 :: Encoding where
  "Encoding_Latin1 = markReadOnly Encoding_base"

definition Encoding_Unicode :: UnicodeEncoding where
  "Encoding_Unicode = markReadOnly (UnicodeEncoding_ctor False False)"

definition Encoding_BigEndianUnicode :: UnicodeEncoding where
  "Encoding_BigEndianUnicode = markReadOnly (UnicodeEncoding_ctor True True)"

definition Encoding_UTF32 :: UTF32Encoding where
  "Encoding_UTF32 = markReadOnly (UTF32Encoding_ctor False True)"

declare fallback_drain.simps [simp del] UTF8Encoding_GetBytes_loop.simps [simp del] UTF8Encoding_GetString_loop.simps [simp del]
  ASCIIEncoding_GetBytes_loop.simps [simp del] ASCIIEncoding_GetString_loop.simps [simp del]
  Latin1Encoding_GetBytes_loop.simps [simp del] Latin1Encoding_GetString_loop.simps [simp del]
  UnicodeEncoding_GetBytes_loop.simps [simp del] UnicodeEncoding_GetString_loop.simps [simp del]
  UTF32Encoding_GetBytes_loop.simps [simp del] UTF32Encoding_GetString_loop.simps [simp del]

end
