(* ===== verification/Text_Encodings_Spec.thy ===== *)
theory Text_Encodings_Spec
  imports Text_Encodings Buf_Binary
begin

unbundle bit_operations_syntax

text \<open>
  Correctness of the encodings of \<^verbatim>\<open>Text_Encodings\<close>: what each \<^verbatim>\<open>GetBytes\<close> writes, that every \<^verbatim>\<open>GetString\<close>
  inverts it, what both make of ill-formed input under either kind of fallback, and how the factory
  instances guard their fallbacks.
\<close>

section \<open>Fallback buffers\<close>

lemma fallback_drain_drop:
  "fallback_drain b result = result @ drop (fb_position b) (fb_string b)"
proof (induction b result rule: fallback_drain.induct)
  case (1 b result)
  show ?case
  proof (cases "FallbackBuffer_Remaining b > 0")
    case True
    then have lt: "fb_position b < length (fb_string b)" by (simp add: FallbackBuffer_Remaining_def)
    then have next_char: "FallbackBuffer_GetNextChar b =
        (fb_string b ! fb_position b, b\<lparr>fb_position := Suc (fb_position b)\<rparr>)"
      by (simp add: FallbackBuffer_GetNextChar_def)
    from 1 [OF True next_char [symmetric] refl] True lt show ?thesis
      by (subst fallback_drain.simps) (simp add: next_char Cons_nth_drop_Suc [symmetric])
  next
    case False
    then show ?thesis by (subst fallback_drain.simps) (simp add: FallbackBuffer_Remaining_def)
  qed
qed

lemma decoder_queue:
  "(case DecoderFallback_Fallback f (DecoderFallback_CreateFallbackBuffer f) bs i of
      Inl e \<Rightarrow> Inl e
    | Inr (queued, b) \<Rightarrow> k (if queued then fallback_drain b result else result)) =
   (case f of DecoderReplacementFallback r \<Rightarrow> k (result @ r) | DecoderExceptionFallback \<Rightarrow> Inl (DecoderFallbackException bs i))"
  by (cases f) (simp_all add: DecoderFallback_Fallback_def DecoderFallback_CreateFallbackBuffer_def fallback_drain_drop)

lemma encoder_queue:
  "(case EncoderFallback_Fallback f (EncoderFallback_CreateFallbackBuffer f) c i of
      Inl e \<Rightarrow> Inl e
    | Inr (queued, b) \<Rightarrow> k (if queued then fallback_drain b result else result)) =
   (case f of EncoderReplacementFallback r \<Rightarrow> k (result @ r) | EncoderExceptionFallback \<Rightarrow> Inl (EncoderFallbackException c i))"
  by (cases f) (simp_all add: EncoderFallback_Fallback_def EncoderFallback_CreateFallbackBuffer_def fallback_drain_drop)

lemma AppendDecoderFallback_cases:
  "AppendDecoderFallback out e bs n =
     (case enc_decoderFallback e of
        DecoderReplacementFallback r \<Rightarrow> Inr (out @ r)
      | DecoderExceptionFallback \<Rightarrow> Inl (DecoderFallbackException (take n bs) 0))"
  by (simp add: AppendDecoderFallback_def DecoderFallback_GetFallbackString_def DecoderFallback_Fallback_def
      split: DecoderFallback.split)

lemma AppendEncoderFallback_cases:
  "AppendEncoderFallback out e cp =
     (case enc_encoderFallback e of
        EncoderReplacementFallback r \<Rightarrow> Inr (out @ r)
      | EncoderExceptionFallback \<Rightarrow> Inl (EncoderFallbackException cp 0))"
  by (simp add: AppendEncoderFallback_def EncoderFallback_GetFallbackBytes_def EncoderFallback_Fallback_def
      split: EncoderFallback.split)

section \<open>Texts\<close>

text \<open>The UTF-8 text of scalar values, and the code points the substituting decoder reads from any bytes.\<close>

abbreviation text_of :: "nat list \<Rightarrow> bytecs list" where
  "text_of ks \<equiv> concat (map utf8 ks)"

lemma rfc_length: "rfc bs = Some (k, len) \<Longrightarrow> 0 < len \<and> len \<le> length bs \<and> is_scalar k \<and> len = length (utf8 k)"
  using rfc_sound [of bs k len] by (auto simp: starts_with_def dest: arg_cong [where f = length])

function codes :: "bytecs list \<Rightarrow> uintcs list" where
  "codes bs =
     (if bs = [] then []
      else case rfc bs of None \<Rightarrow> 0xFFFD # codes (tl bs) | Some (k, len) \<Rightarrow> of_nat k # codes (drop len bs))"
  by pat_completeness auto
termination by (relation "measure length") (auto dest: rfc_length)

declare codes.simps [simp del]

lemma codes_Nil [simp]: "codes [] = []"
  by (simp add: codes.simps)

lemma codes_text: "list_all is_scalar ks \<Longrightarrow> codes (text_of ks) = map of_nat ks"
  by (induction ks) (simp_all add: codes.simps [of "utf8 k @ r" for k r])

lemma DecodeUtf8Scalar_rfc:
  assumes "i < length s"
  shows "DecodeUtf8Scalar s i = (case rfc (drop i s) of None \<Rightarrow> (0xFFFD, 1) | Some (k, len) \<Rightarrow> (of_nat k, len))"
  using TryDecodeUtf8Scalar_rfc [OF assms order_refl]
  by (cases "TryDecodeUtf8Scalar s (length s) i") (auto simp: DecodeUtf8Scalar_def)

lemma codes_step:
  assumes "i < length s" and "DecodeUtf8Scalar s i = (cp, len)"
  shows "codes (drop i s) = cp # codes (drop (i + len) s)"
  using assms DecodeUtf8Scalar_rfc [OF assms(1)]
  by (cases "rfc (drop i s)") (auto simp: codes.simps [of "drop i s"] drop_Suc tl_drop add.commute)

lemma codes_scalar: "cp \<in> set (codes bs) \<Longrightarrow> is_scalar (unat cp)"
proof (induction bs rule: codes.induct)
  case (1 bs)
  show ?case
  proof (cases "bs = [] \<or> rfc bs = None")
    case True
    with 1 show ?thesis by (cases "bs = []") (auto simp: codes.simps [of bs] is_scalar_def)
  next
    case False
    then obtain k len where r: "bs \<noteq> []" "rfc bs = Some (k, len)" by auto
    then have "is_scalar k" using rfc_length by blast
    then have "is_scalar (unat (of_nat k :: uintcs))" by (simp add: is_scalar_def unat_of_nat)
    with 1 r show ?thesis by (auto simp: codes.simps [of bs])
  qed
qed

section \<open>Encoders\<close>

primrec fold_res :: "('a \<Rightarrow> 's \<Rightarrow> 's res) \<Rightarrow> 'a list \<Rightarrow> 's \<Rightarrow> 's res" where
  "fold_res step [] st = Inr st"
| "fold_res step (x # xs) st = bind_res (step x st) (fold_res step xs)"

text \<open>A loop over the code points of a string, with what it does for each as \<open>step\<close>.\<close>

locale scalar_encoder =
  fixes step :: "uintcs \<Rightarrow> 's \<Rightarrow> 's res"
    and loop :: "bytecs list \<Rightarrow> nat \<Rightarrow> 's \<Rightarrow> 's res"
  assumes loop_eq: "loop s i st =
     (if i < length s then case DecodeUtf8Scalar s i of (cp, len) \<Rightarrow> bind_res (step cp st) (loop s (i + len))
      else Inr st)"
begin

lemma loop_codes: "loop s i st = fold_res step (codes (drop i s)) st"
proof (induction "length s - i" arbitrary: i st rule: less_induct)
  case less
  show ?case
  proof (cases "i < length s")
    case True
    obtain cp len where d: "DecodeUtf8Scalar s i = (cp, len)" by fastforce
    then have "length s - (i + len) < length s - i" using DecodeUtf8Scalar_advances [OF d] True by simp
    from less [OF this] show ?thesis using True d codes_step [OF True d]
      by (cases "step cp st") (simp_all add: loop_eq [of s i])
  next
    case False
    then show ?thesis by (simp add: loop_eq [of s i])
  qed
qed

end

interpretation ascii_enc: scalar_encoder
  "\<lambda>cp out. if cp \<le> 127 then Inr (out @ [ucast cp]) else AppendEncoderFallback out e cp" "ASCIIEncoding_GetBytes_loop e"
  for e
  by unfold_locales (subst ASCIIEncoding_GetBytes_loop.simps, auto split: prod.split sum.split)

interpretation latin1_enc: scalar_encoder
  "\<lambda>cp out. if cp \<le> 0xFF then Inr (out @ [ucast cp]) else AppendEncoderFallback out e cp" "Latin1Encoding_GetBytes_loop e"
  for e
  by unfold_locales (subst Latin1Encoding_GetBytes_loop.simps, auto split: prod.split sum.split)

interpretation unicode_enc: scalar_encoder
  "\<lambda>cp st. Inr (Unicode_writeScalar be cp st)" "\<lambda>s i st. Inr (UnicodeEncoding_GetBytes_loop be s i st)"
  for be
  by unfold_locales (subst UnicodeEncoding_GetBytes_loop.simps, auto split: prod.split)

interpretation utf32_enc: scalar_encoder
  "\<lambda>cp st. Inr (UTF32_writeUnit be cp st)" "\<lambda>s i st. Inr (UTF32Encoding_GetBytes_loop be s i st)"
  for be
  by unfold_locales (subst UTF32Encoding_GetBytes_loop.simps, auto split: prod.split)

lemma poke_append: "poke dest di (xs @ ys) = poke (poke dest di xs) (di + length xs) ys"
  by (induction xs arbitrary: dest di) simp_all

section \<open>Units of two and four bytes\<close>

text \<open>The bytes of a value of \<open>n\<close> bytes, in the byte order asked for.\<close>

definition unit_bytes :: "bool \<Rightarrow> nat \<Rightarrow> 'a::len word \<Rightarrow> bytecs list" where
  "unit_bytes big n w = ordered big (le_bytes n (unat w))"

definition enc16 :: "bool \<Rightarrow> nat \<Rightarrow> bytecs list" where
  "enc16 big k = concat (map (unit_bytes big 2) (utf16 k))"

definition enc32 :: "bool \<Rightarrow> nat \<Rightarrow> bytecs list" where
  "enc32 big k = unit_bytes big 4 (of_nat k :: uintcs)"

lemma length_unit_bytes [simp]: "length (unit_bytes big n w) = n"
  by (simp add: unit_bytes_def)

lemma unit_bytes_inject:
  fixes v w :: "'a::len word"
  assumes "unit_bytes big n v = unit_bytes big n w" and "LENGTH('a) \<le> 8 * n"
  shows "v = w"
proof -
  have lt: "unat u < 256 ^ n" for u :: "'a word"
  proof -
    have "unat u < 2 ^ LENGTH('a)" by (rule unsigned_less)
    also have "\<dots> \<le> 2 ^ (8 * n)" using assms(2) by (intro power_increasing) simp_all
    also have "(2 :: nat) ^ (8 * n) = 256 ^ n" by (simp add: power_mult)
    finally show ?thesis .
  qed
  from assms(1) have "le_bytes n (unat v) = le_bytes n (unat w)" by (simp add: unit_bytes_def ordered_def split: if_splits)
  then have "unat v mod 256 ^ n = unat w mod 256 ^ n" by (metis le_value_le_bytes)
  with lt [of v] lt [of w] show ?thesis by (simp add: word_unat_eq_iff)
qed

lemma no_high_bit: "8 \<le> n \<Longrightarrow> \<not> bit (b :: bytecs) n"
  using bit_imp_le_length [of b n] by auto

lemma ucast_low_byte:
  "(ucast (u AND 0xFF) :: bytecs) = ucast u" "(ucast (w AND 0xFF) :: bytecs) = ucast w" for u :: char16 and w :: uintcs
  by (rule byte_eqI, simp add: all_less_upt upt_rec bit_simps)+

lemma Unicode_writeUnit_poke:
  "Unicode_writeUnit big unit (out, pos) = (poke out pos (unit_bytes big 2 unit), pos + 2)"
  by (simp add: Unicode_writeUnit_def unit_bytes_def le_bytes_word upt_rec ucast_low_byte)

lemma UTF32_writeUnit_poke:
  "UTF32_writeUnit big cp (out, pos) = (poke out pos (unit_bytes big 4 cp), pos + 4)"
  by (simp add: UTF32_writeUnit_def unit_bytes_def le_bytes_word upt_rec ucast_low_byte)

lemma Unicode_readUnit_bytes: "unit_bytes big 2 (Unicode_readUnit big data i) = [data ! i, data ! (i + 1)]"
proof -
  have "ucast (push_bit 8 (ucast a) OR ucast b :: char16) = b" "ucast (drop_bit 8 (push_bit 8 (ucast a) OR ucast b :: char16)) = a"
    for a b :: bytecs
    by (rule byte_eqI, simp add: all_less_upt upt_rec bit_simps no_high_bit)+
  then show ?thesis by (simp add: Unicode_readUnit_def unit_bytes_def le_bytes_word upt_rec Let_def)
qed

lemma UTF32_readUnit_bytes:
  "unit_bytes big 4 (UTF32_readUnit big data i) = [data ! i, data ! (i + 1), data ! (i + 2), data ! (i + 3)]"
proof -
  have
    "ucast (ucast a OR push_bit 8 (ucast b) OR push_bit 16 (ucast c) OR push_bit 24 (ucast d) :: uintcs) = a"
    "ucast (drop_bit 8 (ucast a OR push_bit 8 (ucast b) OR push_bit 16 (ucast c) OR push_bit 24 (ucast d) :: uintcs)) = b"
    "ucast (drop_bit 16 (ucast a OR push_bit 8 (ucast b) OR push_bit 16 (ucast c) OR push_bit 24 (ucast d) :: uintcs)) = c"
    "ucast (drop_bit 24 (ucast a OR push_bit 8 (ucast b) OR push_bit 16 (ucast c) OR push_bit 24 (ucast d) :: uintcs)) = d"
    "ucast (push_bit 24 (ucast a) OR push_bit 16 (ucast b) OR push_bit 8 (ucast c) OR ucast d :: uintcs) = d"
    "ucast (drop_bit 8 (push_bit 24 (ucast a) OR push_bit 16 (ucast b) OR push_bit 8 (ucast c) OR ucast d :: uintcs)) = c"
    "ucast (drop_bit 16 (push_bit 24 (ucast a) OR push_bit 16 (ucast b) OR push_bit 8 (ucast c) OR ucast d :: uintcs)) = b"
    "ucast (drop_bit 24 (push_bit 24 (ucast a) OR push_bit 16 (ucast b) OR push_bit 8 (ucast c) OR ucast d :: uintcs)) = a"
    for a b c d :: bytecs
    by (rule byte_eqI, simp add: all_less_upt upt_rec bit_simps no_high_bit)+
  then show ?thesis by (simp add: UTF32_readUnit_def unit_bytes_def le_bytes_word upt_rec Let_def)
qed

section \<open>What the encoders write\<close>

lemma Unicode_writeScalar_poke:
  assumes "is_scalar (unat cp)" and "pos + length (enc16 big (unat cp)) \<le> length out"
  shows "Unicode_writeScalar big cp (out, pos) =
    (take pos out @ enc16 big (unat cp) @ drop (pos + length (enc16 big (unat cp))) out, pos + length (enc16 big (unat cp)))"
proof -
  have "utf16_chars cp = utf16 (unat cp)" by (rule utf16_chars_utf16 [OF assms(1)])
  then have w: "Unicode_writeScalar big cp (out, pos) = (poke out pos (enc16 big (unat cp)), pos + length (enc16 big (unat cp)))"
    by (auto simp: Unicode_writeScalar_def Unicode_writeUnit_poke utf16_chars_def needed_chars_def enc16_def Let_def
        poke_append split: if_splits dest!: sym [of _ "utf16 _"])
  then show ?thesis by (simp add: poke_take_drop assms(2))
qed

lemma fold_writes:
  assumes "\<And>cp out pos. is_scalar (unat cp) \<Longrightarrow> pos + length (enc (unat cp)) \<le> length out \<Longrightarrow>
      wr cp (out, pos) = (take pos out @ enc (unat cp) @ drop (pos + length (enc (unat cp))) out, pos + length (enc (unat cp)))"
    and "list_all (\<lambda>cp. is_scalar (unat cp)) cps"
    and "pos + length (concat (map (\<lambda>cp. enc (unat cp)) cps)) \<le> length out"
  shows "fold_res (\<lambda>cp st. Inr (wr cp st)) cps (out, pos) =
    Inr (take pos out @ concat (map (\<lambda>cp. enc (unat cp)) cps) @ drop (pos + length (concat (map (\<lambda>cp. enc (unat cp)) cps))) out,
         pos + length (concat (map (\<lambda>cp. enc (unat cp)) cps)))"
  using assms(2,3)
proof (induction cps arbitrary: out pos)
  case (Cons cp cps)
  let ?k = "unat cp"
  let ?out = "take pos out @ enc ?k @ drop (pos + length (enc ?k)) out"
  have w: "wr cp (out, pos) = (?out, pos + length (enc ?k))" using Cons.prems by (intro assms(1)) simp_all
  have "length ?out = length out" using Cons.prems by simp
  then have "fold_res (\<lambda>cp st. Inr (wr cp st)) cps (?out, pos + length (enc ?k)) =
      Inr (take (pos + length (enc ?k)) ?out @ concat (map (\<lambda>cp. enc (unat cp)) cps) @
             drop (pos + length (enc ?k) + length (concat (map (\<lambda>cp. enc (unat cp)) cps))) ?out,
           pos + length (enc ?k) + length (concat (map (\<lambda>cp. enc (unat cp)) cps)))"
    by (intro Cons.IH) (use Cons.prems in simp_all)
  moreover have "take (pos + length (enc ?k)) ?out = take pos out @ enc ?k"
    "drop (pos + length (enc ?k) + length (concat (map (\<lambda>cp. enc (unat cp)) cps))) ?out =
       drop (pos + length (concat (map (\<lambda>cp. enc (unat cp)) (cp # cps)))) out"
    using splice [of pos "enc ?k" out] Cons.prems by (simp_all add: add.assoc)
  ultimately show ?case by (simp add: w add.assoc)
qed simp

lemma codes_length:
  assumes "\<And>k. is_scalar k \<Longrightarrow> length (enc k) \<le> c * length (utf8 k)" and "length (enc 0xFFFD) \<le> c"
  shows "length (concat (map (\<lambda>cp. enc (unat cp)) (codes s))) \<le> c * length s"
proof (induction s rule: codes.induct)
  case (1 bs)
  show ?case
  proof (cases "bs = [] \<or> rfc bs = None")
    case True
    with 1 assms(2) show ?thesis
      by (cases bs) (auto simp: codes.simps [of "b # bs'" for b bs'])
  next
    case False
    then obtain k len where r: "bs \<noteq> []" "rfc bs = Some (k, len)" by auto
    have k: "is_scalar k" "len = length (utf8 k)" "len \<le> length bs" using rfc_length [OF r(2)] by simp_all
    have u: "unat (of_nat k :: uintcs) = k" using k(1) by (simp add: is_scalar_def unat_of_nat)
    have "length (concat (map (\<lambda>cp. enc (unat cp)) (codes (drop len bs)))) \<le> c * (length bs - len)"
      using 1(2) [OF r(1) r(2)] by simp
    moreover have "length (enc k) \<le> c * len" using assms(1) k by simp
    moreover have "c * len + c * (length bs - len) = c * length bs"
      using k(3) by (simp add: distrib_left [symmetric])
    ultimately show ?thesis using r by (simp add: codes.simps [of bs] u)
  qed
qed

lemma length_enc16: "length (enc16 big k) = (if k < 0x10000 then 2 else 4)"
  by (simp add: enc16_def utf16_def)

lemma length_utf8: "length (utf8 k) = (if k < 0x80 then 1 else if k < 0x800 then 2 else if k < 0x10000 then 3 else 4)"
  by (simp add: utf8_def)

lemma UnicodeEncoding_GetBytes_codes:
  "UnicodeEncoding_GetBytes e s = concat (map (\<lambda>cp. enc16 (ue_bigEndian e) (unat cp)) (codes s))"
proof -
  let ?out = "replicate (length s * 2 + 2) 0" and ?n = "length (concat (map (\<lambda>cp. enc16 (ue_bigEndian e) (unat cp)) (codes s)))"
  have "?n \<le> 2 * length s" by (rule codes_length) (simp_all add: length_enc16 length_utf8)
  then have "fold_res (\<lambda>cp st. Inr (Unicode_writeScalar (ue_bigEndian e) cp st)) (codes s) (?out, 0) =
      Inr (take 0 ?out @ concat (map (\<lambda>cp. enc16 (ue_bigEndian e) (unat cp)) (codes s)) @ drop (0 + ?n) ?out, 0 + ?n)"
    by (intro fold_writes) (auto simp: list_all_iff codes_scalar Unicode_writeScalar_poke)
  with unicode_enc.loop_codes [of "ue_bigEndian e" s 0 "(?out, 0)"] show ?thesis
    by (simp add: UnicodeEncoding_GetBytes_def)
qed

lemma UTF32Encoding_GetBytes_codes:
  "UTF32Encoding_GetBytes e s = concat (map (\<lambda>cp. enc32 (ue_bigEndian e) (unat cp)) (codes s))"
proof -
  let ?out = "replicate (length s * 4 + 4) 0" and ?n = "length (concat (map (\<lambda>cp. enc32 (ue_bigEndian e) (unat cp)) (codes s)))"
  have "?n \<le> 4 * length s" by (rule codes_length) (simp_all add: enc32_def Suc_le_eq)
  then have "fold_res (\<lambda>cp st. Inr (UTF32_writeUnit (ue_bigEndian e) cp st)) (codes s) (?out, 0) =
      Inr (take 0 ?out @ concat (map (\<lambda>cp. enc32 (ue_bigEndian e) (unat cp)) (codes s)) @ drop (0 + ?n) ?out, 0 + ?n)"
    by (intro fold_writes) (auto simp: list_all_iff codes_scalar UTF32_writeUnit_poke enc32_def poke_take_drop)
  with utf32_enc.loop_codes [of "ue_bigEndian e" s 0 "(?out, 0)"] show ?thesis
    by (simp add: UTF32Encoding_GetBytes_def)
qed

text \<open>The single-byte encodings: what fits is one byte, for the rest the fallback decides.\<close>

definition single_bytes :: "EncoderFallback \<Rightarrow> (uintcs \<Rightarrow> bool) \<Rightarrow> uintcs list \<Rightarrow> bytecs list res" where
  "single_bytes fb fits cps =
     (case fb of
        EncoderReplacementFallback r \<Rightarrow> Inr (concat (map (\<lambda>cp. if fits cp then [ucast cp] else r) cps))
      | EncoderExceptionFallback \<Rightarrow>
          (case find (\<lambda>cp. \<not> fits cp) cps of
             None \<Rightarrow> Inr (map ucast cps)
           | Some cp \<Rightarrow> Inl (EncoderFallbackException cp 0)))"

lemma fold_single_bytes:
  "fold_res (\<lambda>cp out. if fits cp then Inr (out @ [ucast cp]) else AppendEncoderFallback out e cp) cps out =
   bind_res (single_bytes (enc_encoderFallback e) fits cps) (\<lambda>r. Inr (out @ r))"
  by (induction cps arbitrary: out)
    (auto simp: single_bytes_def AppendEncoderFallback_cases split: EncoderFallback.splits option.splits)

lemma single_byte_encoders:
  "ASCIIEncoding_GetBytes e s = single_bytes (enc_encoderFallback e) (\<lambda>cp. cp \<le> 127) (codes s)"
  "Latin1Encoding_GetBytes e s = single_bytes (enc_encoderFallback e) (\<lambda>cp. cp \<le> 0xFF) (codes s)"
  by (simp_all add: ASCIIEncoding_GetBytes_def Latin1Encoding_GetBytes_def ascii_enc.loop_codes latin1_enc.loop_codes
      fold_single_bytes bind_res_def split: sum.split)

section \<open>Decoders\<close>

text \<open>
  A loop that decodes the bytes of \<open>data\<close> from \<open>i\<close> to \<open>stop\<close> item by item: a code point, appended as
  UTF-8, or an undecodable item, for which the replacement is appended or, when there is none, an
  exception thrown. \<open>enc\<close> is the encoded form of a code point of the repertoire.
\<close>

locale scalar_decoder =
  fixes item :: "bytecs list \<Rightarrow> nat \<Rightarrow> nat \<Rightarrow> uintcs option \<times> nat"
    and loop :: "bytecs list \<Rightarrow> nat \<Rightarrow> nat \<Rightarrow> bytecs list \<Rightarrow> bytecs list res"
    and enc :: "nat \<Rightarrow> bytecs list"
    and repertoire :: "nat \<Rightarrow> bool"
    and repl :: "bytecs list option"
    and failure :: "bytecs list \<Rightarrow> nat \<Rightarrow> nat \<Rightarrow> exn"
  assumes loop_eq: "stop \<le> length data \<Longrightarrow> loop data stop i out =
     (if i < stop then
        case item data stop i of
          (Some cp, j) \<Rightarrow> loop data stop j (out @ utf8 (unat cp))
        | (None, j) \<Rightarrow> (case repl of None \<Rightarrow> Inl (failure data stop i) | Some r \<Rightarrow> loop data stop j (out @ r))
      else Inr out)"
    and item_advances: "i < stop \<Longrightarrow> stop \<le> length data \<Longrightarrow> item data stop i = (u, j) \<Longrightarrow> i < j \<and> j \<le> stop"
    and item_scalar: "i < stop \<Longrightarrow> stop \<le> length data \<Longrightarrow> item data stop i = (Some cp, j) \<Longrightarrow>
       is_scalar (unat cp) \<and> repertoire (unat cp) \<and> take (j - i) (drop i data) = enc (unat cp)"
    and item_enc: "is_scalar k \<Longrightarrow> repertoire k \<Longrightarrow> drop i (take stop data) = enc k @ r \<Longrightarrow> stop \<le> length data \<Longrightarrow>
       item data stop i = (Some (of_nat k), i + length (enc k))"
    and enc_nonempty: "is_scalar k \<Longrightarrow> repertoire k \<Longrightarrow> enc k \<noteq> []"
begin

lemma loop_text:
  "list_all (\<lambda>k. is_scalar k \<and> repertoire k) ks \<Longrightarrow> stop \<le> length data \<Longrightarrow> drop i (take stop data) = concat (map enc ks) \<Longrightarrow>
   loop data stop i out = Inr (out @ text_of ks)"
proof (induction ks arbitrary: i out)
  case Nil
  then show ?case by (simp add: loop_eq)
next
  case (Cons k ks)
  have k: "is_scalar k" "repertoire k" and u: "unat (of_nat k :: uintcs) = k"
    using Cons.prems(1) by (auto simp: is_scalar_def unat_of_nat)
  have d: "drop i (take stop data) = enc k @ concat (map enc ks)" using Cons.prems(3) by simp
  have it: "item data stop i = (Some (of_nat k), i + length (enc k))" by (rule item_enc [OF k d Cons.prems(2)])
  have "i < stop" using d enc_nonempty [OF k] Cons.prems(2) by (auto intro!: not_le_imp_less)
  moreover have "drop (i + length (enc k)) (take stop data) = concat (map enc ks)"
    using arg_cong [OF d, of "drop (length (enc k))"] by (simp add: add.commute del: drop_take)
  ultimately show ?case
    using Cons.IH [of "i + length (enc k)" "out @ utf8 k"] Cons.prems(1,2) it u by (simp add: loop_eq del: drop_take)
qed

text \<open>With a well-formed replacement the result is well-formed text, whatever the input.\<close>

lemma loop_well_formed:
  assumes "repl = Some (text_of rs)" and "list_all is_scalar rs" and "stop \<le> length data"
  shows "\<exists>ks. list_all is_scalar ks \<and> loop data stop i out = Inr (out @ text_of ks)"
proof (induction "stop - i" arbitrary: i out rule: less_induct)
  case less
  show ?case
  proof (cases "i < stop")
    case False
    then show ?thesis by (intro exI [of _ "[]"]) (simp add: loop_eq [OF assms(3)])
  next
    case True
    obtain u j where it: "item data stop i = (u, j)" by fastforce
    then have "stop - j < stop - i" using item_advances [OF True assms(3)] True by fastforce
    note IH = less [OF this]
    show ?thesis
    proof (cases u)
      case None
      from IH [of "out @ text_of rs"] obtain ks where
        "list_all is_scalar ks" "loop data stop j (out @ text_of rs) = Inr ((out @ text_of rs) @ text_of ks)" by blast
      with None it True assms show ?thesis
        by (intro exI [of _ "rs @ ks"]) (simp add: loop_eq [OF assms(3), of i])
    next
      case (Some cp)
      then have cp: "is_scalar (unat cp)" using item_scalar [OF True assms(3)] it by simp
      from IH [of "out @ utf8 (unat cp)"] obtain ks where
        "list_all is_scalar ks" "loop data stop j (out @ utf8 (unat cp)) = Inr ((out @ utf8 (unat cp)) @ text_of ks)" by blast
      with Some it True cp show ?thesis
        by (intro exI [of _ "unat cp # ks"]) (simp add: loop_eq [OF assms(3), of i])
    qed
  qed
qed

text \<open>Without a replacement only the encoded forms are accepted.\<close>

lemma loop_strict:
  assumes "repl = None" and "stop \<le> length data" and "loop data stop i out = Inr t"
  shows "\<exists>ks. list_all (\<lambda>k. is_scalar k \<and> repertoire k) ks \<and> drop i (take stop data) = concat (map enc ks)"
  using assms(3)
proof (induction "stop - i" arbitrary: i out rule: less_induct)
  case less
  show ?case
  proof (cases "i < stop")
    case False
    then show ?thesis by (intro exI [of _ "[]"]) simp
  next
    case True
    obtain u j where it: "item data stop i = (u, j)" by fastforce
    then obtain cp where cp: "u = Some cp" and lp: "loop data stop j (out @ utf8 (unat cp)) = Inr t"
      using less.prems True assms(1) by (cases u) (simp_all add: loop_eq [OF assms(2), of i])
    have adv: "i < j" "j \<le> stop" using item_advances [OF True assms(2) it] by simp_all
    then have "stop - j < stop - i" using True by simp
    from less.hyps [OF this lp] obtain ks where ks: "list_all (\<lambda>k. is_scalar k \<and> repertoire k) ks"
      "drop j (take stop data) = concat (map enc ks)" by blast
    have s: "is_scalar (unat cp)" "repertoire (unat cp)" "take (j - i) (drop i data) = enc (unat cp)"
      using item_scalar [OF True assms(2)] it cp by simp_all
    have "drop i (take stop data) = take (j - i) (drop i (take stop data)) @ drop (j - i) (drop i (take stop data))"
      by (simp only: append_take_drop_id)
    also have "take (j - i) (drop i (take stop data)) = take (j - i) (drop i data)"
      using adv by (simp add: drop_take min_def)
    also have "drop (j - i) (drop i (take stop data)) = drop j (take stop data)"
      using adv by (simp only: drop_drop) simp
    finally show ?thesis using s ks by (intro exI [of _ "unat cp # ks"]) (simp del: drop_take)
  qed
qed

end

section \<open>The decoders of the encodings\<close>

definition decoder_repl :: "DecoderFallback \<Rightarrow> bytecs list option" where
  "decoder_repl f = (case f of DecoderReplacementFallback r \<Rightarrow> Some r | DecoderExceptionFallback \<Rightarrow> None)"

definition encoder_repl :: "EncoderFallback \<Rightarrow> bytecs list option" where
  "encoder_repl f = (case f of EncoderReplacementFallback r \<Rightarrow> Some r | EncoderExceptionFallback \<Rightarrow> None)"

definition item8 :: "bytecs list \<Rightarrow> nat \<Rightarrow> nat \<Rightarrow> uintcs option \<times> nat" where
  "item8 data stop i = (case TryDecodeUtf8Scalar data stop i of Inl _ \<Rightarrow> (None, Suc i) | Inr (cp, len) \<Rightarrow> (Some cp, i + len))"

definition ascii_item :: "bytecs list \<Rightarrow> nat \<Rightarrow> nat \<Rightarrow> uintcs option \<times> nat" where
  "ascii_item data stop i = (if data ! i \<le> 127 then (Some (ucast (data ! i)), Suc i) else (None, Suc i))"

definition latin1_item :: "bytecs list \<Rightarrow> nat \<Rightarrow> nat \<Rightarrow> uintcs option \<times> nat" where
  "latin1_item data stop i = (Some (ucast (data ! i)), Suc i)"

definition item16 :: "bool \<Rightarrow> bytecs list \<Rightarrow> nat \<Rightarrow> nat \<Rightarrow> uintcs option \<times> nat" where
  "item16 big data stop i = (if i + 1 < stop then Unicode_readScalar big data stop i else (None, stop))"

definition item32 :: "bool \<Rightarrow> bytecs list \<Rightarrow> nat \<Rightarrow> nat \<Rightarrow> uintcs option \<times> nat" where
  "item32 big data stop i =
     (if i + 3 < stop then
        let cp = UTF32_readUnit big data i in if cp > 0x10FFFF \<or> isSurrogate cp then (None, i + 4) else (Some cp, i + 4)
      else (None, stop))"

lemma item8_Some:
  assumes "i < stop" and "stop \<le> length data" and "item8 data stop i = (Some cp, j)"
  shows "TryDecodeUtf8Scalar data stop i = Inr (cp, j - i)" and "i < j" and "j \<le> stop" and "is_scalar (unat cp)"
    and "take (j - i) (drop i data) = utf8 (unat cp)"
proof -
  from assms(3) obtain len where t: "TryDecodeUtf8Scalar data stop i = Inr (cp, len)" and j: "j = i + len"
    by (auto simp: item8_def split: sum.splits)
  then have r: "rfc (drop i (take stop data)) = Some (unat cp, len)"
    using TryDecodeUtf8Scalar_rfc [OF assms(1,2)] by simp
  have l: "0 < len" "len \<le> stop - i" "is_scalar (unat cp)" "take len (drop i (take stop data)) = utf8 (unat cp)"
    using rfc_length [OF r] rfc_sound [OF r] assms(1,2) by (auto simp: starts_with_def)
  with t j assms(1) show "TryDecodeUtf8Scalar data stop i = Inr (cp, j - i)" "i < j" "j \<le> stop" "is_scalar (unat cp)" by simp_all
  show "take (j - i) (drop i data) = utf8 (unat cp)" using l(2,4) j by (simp add: drop_take min_def)
qed

lemma item8_None: "item8 data stop i = (None, j) \<Longrightarrow> wellFormedUtf8Length data i stop = 0 \<and> j = Suc i"
  by (auto simp: item8_def wellFormedUtf8Length_def split: sum.splits)

lemma item8_enc:
  assumes "is_scalar k" and "drop i (take stop data) = utf8 k @ r" and "stop \<le> length data"
  shows "item8 data stop i = (Some (of_nat k), i + length (utf8 k))"
proof -
  have i: "i < stop" using assms(2) by (auto intro!: not_le_imp_less)
  have "rfc (drop i (take stop data)) = Some (k, length (utf8 k))" using assms(1,2) by (simp del: drop_take)
  then show ?thesis using TryDecodeUtf8Scalar_rfc [OF i assms(3)]
    by (cases "TryDecodeUtf8Scalar data stop i") (auto simp: item8_def)
qed

lemma item8_loop:
  assumes "i < stop" and "stop \<le> length data"
  shows "(let len = wellFormedUtf8Length data i stop in if len > 0 then f (i + len) (take len (drop i data)) else g) =
    (case item8 data stop i of (Some cp, j) \<Rightarrow> f j (utf8 (unat cp)) | (None, j) \<Rightarrow> g)"
proof (cases "item8 data stop i")
  case (Pair u j)
  show ?thesis
  proof (cases u)
    case None
    with Pair item8_None [of data stop i j] show ?thesis by simp
  next
    case (Some cp)
    with Pair item8_Some [OF assms, of cp j] show ?thesis by (simp add: wellFormedUtf8Length_def)
  qed
qed

interpretation utf8_dec: scalar_decoder item8 "UTF8Encoding_GetString_loop f" utf8 "\<lambda>_. True" "decoder_repl f"
  "\<lambda>data stop i. DecoderFallbackException [data ! i] (int i)" for f
proof (unfold_locales, goal_cases)
  case (1 stop data i out)
  then show ?case
    unfolding UTF8Encoding_GetString_loop.simps [of f data stop i out] decoder_queue
    by (cases "i < stop")
      (auto simp: item8_loop [where f = "\<lambda>j t. UTF8Encoding_GetString_loop f data stop j (out @ t)"] decoder_repl_def
        dest: item8_None split: DecoderFallback.split option.split prod.split)
next
  case (2 i stop data u j)
  then show ?case using item8_None [of data stop i j] item8_Some [OF 2(1,2)] by (cases u) auto
next
  case (3 i stop data cp j)
  then show ?case using item8_Some [OF 3] by simp
next
  case (4 k i stop data r)
  then show ?case by (intro item8_enc)
qed simp

text \<open>
  \<^verbatim>\<open>UTF8Encoding::GetBytes\<close> is \<^verbatim>\<open>GetString\<close> with the corresponding decoder fallback, up to the exception it
  throws.
\<close>

definition decoder_of :: "EncoderFallback \<Rightarrow> DecoderFallback" where
  "decoder_of f = (case f of EncoderReplacementFallback r \<Rightarrow> DecoderReplacementFallback r | EncoderExceptionFallback \<Rightarrow> DecoderExceptionFallback)"

definition encoder_failure :: "exn \<Rightarrow> exn" where
  "encoder_failure x = (case x of DecoderFallbackException bs i \<Rightarrow> EncoderFallbackException (scast (hd bs)) i | _ \<Rightarrow> x)"

lemma UTF8Encoding_GetBytes_GetString:
  "UTF8Encoding_GetBytes_loop f data i out =
   map_sum encoder_failure id (UTF8Encoding_GetString_loop (decoder_of f) data (length data) i out)"
proof (induction "length data - i" arbitrary: i out rule: less_induct)
  case less
  show ?case
  proof (cases "i < length data")
    case False
    then show ?thesis
      by (simp add: UTF8Encoding_GetBytes_loop.simps [of f data i] UTF8Encoding_GetString_loop.simps [of "decoder_of f" data _ i])
  next
    case True
    then have "length data - (i + Suc n) < length data - i" for n by simp
    note IH = less [OF this]
    show ?thesis using True IH [of 0] IH [of "wellFormedUtf8Length data i (length data) - 1"]
      unfolding UTF8Encoding_GetBytes_loop.simps [of f data i out]
        UTF8Encoding_GetString_loop.simps [of "decoder_of f" data "length data" i out] encoder_queue decoder_queue
      by (cases f) (auto simp: Let_def decoder_of_def encoder_failure_def)
  qed
qed

lemma AppendUtf8Scalar_scalar: "is_scalar (unat cp) \<Longrightarrow> AppendUtf8Scalar out cp = out @ utf8 (unat cp)"
  by (rule AppendUtf8Scalar_utf8) (simp add: is_scalar_def)

lemma byte_is_scalar: "is_scalar (unat (b :: bytecs))"
  using unat_byte_bound [of b] by (simp add: is_scalar_def)

lemma head_byte: "drop i (take stop data) = b # r \<Longrightarrow> stop \<le> length data \<Longrightarrow> i < stop \<and> data ! i = b"
  by (cases "i < stop") (auto simp: drop_take Cons_nth_drop_Suc [symmetric] take_Cons' split: if_splits)

lemma ucast_ucast_byte: "ucast (ucast (b :: bytecs) :: uintcs) = b"
  by (simp add: word_unat_eq_iff ucast_byte_of unat_ucast_byte)

lemma one_byte: "i < stop \<Longrightarrow> stop \<le> length data \<Longrightarrow> take (Suc 0) (drop i data) = [data ! i]"
  by (simp add: Cons_nth_drop_Suc [symmetric])

interpretation ascii_dec: scalar_decoder ascii_item "ASCIIEncoding_GetString_loop e" "\<lambda>k. [of_nat k]" "\<lambda>k. k < 128"
  "decoder_repl (enc_decoderFallback e)" "\<lambda>data stop i. DecoderFallbackException [data ! i] 0" for e
proof (unfold_locales, goal_cases)
  case (1 stop data i out)
  have "utf8 (unat b) = [b]" if "b \<le> 127" for b :: bytecs using that by (simp add: utf8_def word_le_nat_alt)
  with 1 show ?case unfolding ASCIIEncoding_GetString_loop.simps [of e data stop i out]
    by (auto simp: ascii_item_def Let_def unat_ucast_byte AppendDecoderFallback_cases decoder_repl_def
        Cons_nth_drop_Suc [symmetric] split: DecoderFallback.split)
next
  case (3 i stop data cp j)
  then show ?case
    by (auto simp: ascii_item_def unat_ucast_byte byte_is_scalar word_le_nat_alt one_byte ucast_ucast_byte split: if_splits)
next
  case (4 k i stop data r)
  then have "data ! i = of_nat k" using head_byte [of i stop data "of_nat k" r] by simp
  with 4(2) show ?case by (auto simp: ascii_item_def word_le_nat_alt unat_of_nat word_unat_eq_iff unat_ucast_byte)
qed (auto simp: ascii_item_def split: if_splits)

interpretation latin1_dec: scalar_decoder latin1_item "\<lambda>data stop i out. Inr (Latin1Encoding_GetString_loop data stop i out)"
  "\<lambda>k. [of_nat k]" "\<lambda>k. k < 256" repl failure for repl failure
proof (unfold_locales, goal_cases)
  case (1 stop data i out)
  show ?case unfolding Latin1Encoding_GetString_loop.simps [of data stop i out]
    by (simp add: latin1_item_def AppendUtf8Scalar_scalar unat_ucast_byte byte_is_scalar)
next
  case (3 i stop data cp j)
  then show ?case by (auto simp: latin1_item_def unat_ucast_byte byte_is_scalar one_byte ucast_ucast_byte)
next
  case (4 k i stop data r)
  then have "data ! i = of_nat k" using head_byte [of i stop data "of_nat k" r] by simp
  with 4(2) show ?case by (auto simp: latin1_item_def unat_of_nat word_unat_eq_iff unat_ucast_byte)
qed (auto simp: latin1_item_def)

subsection \<open>UTF-16\<close>

lemma unat_ucast16: "unat (ucast (c :: char16) :: uintcs) = unat c"
  by (rule unat_ucast_char16)

lemma pair_or:
  assumes "0xD800 \<le> c" and "c \<le> 0xDBFF" and "0xDC00 \<le> c2" and "c2 \<le> 0xDFFF"
  shows "0x10000 + (push_bit 10 (ucast (c - 0xD800)) OR ucast (c2 - 0xDC00)) =
    (0x10000 + push_bit 10 (ucast (c :: char16) - 0xD800) + (ucast (c2 :: char16) - 0xDC00) :: uintcs)"
proof -
  have c: "0xD800 \<le> unat c" "unat c \<le> 0xDBFF" "0xDC00 \<le> unat c2" "unat c2 \<le> 0xDFFF"
    using assms by (simp_all add: word_le_nat_alt)
  have d: "unat (c - 0xD800) = unat c - 0xD800" "unat (c2 - 0xDC00) = unat c2 - 0xDC00"
    using assms by (simp_all add: unat_sub)
  let ?h = "ucast (c - 0xD800) :: uintcs" and ?l = "ucast (c2 - 0xDC00) :: uintcs"
  have h: "unat ?h = unat c - 0xD800" "unat ?l = unat c2 - 0xDC00" by (simp_all only: unat_ucast_char16 d)
  have b: "unat c - 0xD800 < 1024" "unat c2 - 0xDC00 < 1024" using c by linarith+
  have "unat (push_bit 10 ?h OR ?l) = (unat c - 0xD800) * 1024 + (unat c2 - 0xDC00)"
    using unat_shift_or [of ?l 10 ?h] h b by simp
  moreover have "unat (0x10000 + p) = 0x10000 + unat p" if "unat p < 0x200000" for p :: uintcs
    using that by (simp add: unat_word_ariths)
  ultimately have "unat (0x10000 + (push_bit 10 ?h OR ?l)) = 0x10000 + ((unat c - 0xD800) * 1024 + (unat c2 - 0xDC00))"
    using b by simp
  with surrogate_pair [OF c] show ?thesis by (simp add: word_unat_eq_iff)
qed

definition units_at :: "bool \<Rightarrow> bytecs list \<Rightarrow> nat \<Rightarrow> nat \<Rightarrow> char16 list" where
  "units_at big data stop i =
     Unicode_readUnit big data i # (if i + 3 < stop then [Unicode_readUnit big data (i + 2)] else [])"

lemma readScalar_next: "Unicode_readScalar big data stop i = (u, j) \<Longrightarrow> j = i + 2 \<or> j = i + 4 \<and> i + 3 < stop"
  by (auto simp: Unicode_readScalar_def Let_def split: if_splits)

lemma readScalar_unit:
  "utf16_unit True (units_at big data stop i) = (case Unicode_readScalar big data stop i of (u, j) \<Rightarrow> Some (u, (j - i) div 2))"
proof -
  let ?u = "Unicode_readUnit big data i" and ?v = "Unicode_readUnit big data (i + 2)"
  consider (pair) "0xD800 \<le> ?u" "?u \<le> 0xDBFF" "i + 3 < stop" "0xDC00 \<le> ?v" "?v \<le> 0xDFFF"
    | (high) "0xD800 \<le> ?u" "?u \<le> 0xDBFF" "i + 3 < stop" "\<not> (0xDC00 \<le> ?v \<and> ?v \<le> 0xDFFF)"
    | (last) "0xD800 \<le> ?u" "?u \<le> 0xDBFF" "\<not> i + 3 < stop"
    | (other) "\<not> (0xD800 \<le> ?u \<and> ?u \<le> 0xDBFF)" by blast
  then show ?thesis
  proof cases
    case pair
    with pair_or [OF pair(1,2,4,5)] show ?thesis by (simp add: Unicode_readScalar_def utf16_unit_def units_at_def Let_def)
  next
    case other
    then show ?thesis by (simp only: Unicode_readScalar_def utf16_unit_def units_at_def Let_def nth_Cons_0 if_False) simp
  next
    case high
    then show ?thesis by (simp add: Unicode_readScalar_def utf16_unit_def units_at_def Let_def) blast
  qed (simp_all add: Unicode_readScalar_def utf16_unit_def units_at_def Let_def)
qed

lemma take_pair:
  assumes "i + 1 < stop" and "stop \<le> length data"
  shows "take 2 (drop i data) = [data ! i, data ! (i + 1)]"
  using assms by (simp add: Cons_nth_drop_Suc [symmetric] numeral_2_eq_2)

lemma take_quad:
  assumes "i + 3 < stop" and "stop \<le> length data"
  shows "take 4 (drop i data) = [data ! i, data ! (i + 1), data ! (i + 2), data ! (i + 3)]"
proof -
  have "take 4 (drop i data) = take 2 (drop i data) @ take 2 (drop (i + 2) data)"
    using take_add [of 2 2 "drop i data"] by (simp add: add.commute)
  then show ?thesis using take_pair [of i stop data] take_pair [of "i + 2" stop data] assms
    by (simp add: numeral_3_eq_3)
qed

lemma units_at_bytes:
  assumes "stop \<le> length data" and "i + 1 < stop" and "n = 1 \<or> n = 2 \<and> i + 3 < stop"
  shows "concat (map (unit_bytes big 2) (take n (units_at big data stop i))) = take (2 * n) (drop i data)"
  using assms(3)
proof
  assume "n = 1"
  with take_pair [OF assms(2,1)] show ?thesis by (simp add: units_at_def Unicode_readUnit_bytes)
next
  assume "n = 2 \<and> i + 3 < stop"
  moreover from this have "take 4 (drop i data) = [data ! i, data ! (i + 1), data ! (i + 2), data ! (i + 3)]"
    using take_quad assms(1) by blast
  ultimately show ?thesis by (simp add: units_at_def Unicode_readUnit_bytes numeral_3_eq_3)
qed

lemma item16_facts:
  assumes "i < stop" and "stop \<le> length data" and "item16 big data stop i = (u, j)"
  shows "i < j" and "j \<le> stop"
    and "u = Some cp \<Longrightarrow> is_scalar (unat cp) \<and> take (j - i) (drop i data) = enc16 big (unat cp)"
proof -
  consider (odd) "\<not> i + 1 < stop" "u = None" "j = stop" | (unit) "i + 1 < stop" "Unicode_readScalar big data stop i = (u, j)"
    using assms(3) by (auto simp: item16_def split: if_splits)
  then have *: "i < j \<and> j \<le> stop \<and> (u = Some cp \<longrightarrow> is_scalar (unat cp) \<and> take (j - i) (drop i data) = enc16 big (unat cp))"
  proof cases
    case unit
    let ?n = "(j - i) div 2"
    have n: "?n = 1 \<or> ?n = 2 \<and> i + 3 < stop" "2 * ?n = j - i" "i < j" "j \<le> stop"
      using readScalar_next [OF unit(2)] unit(1) by auto
    have "utf16_unit True (units_at big data stop i) = Some (u, ?n)" using readScalar_unit [of big data stop i] unit(2) by simp
    then have "u = Some cp \<Longrightarrow> is_scalar (unat cp) \<and> take ?n (units_at big data stop i) = utf16 (unat cp)"
      using utf16_unit_scalar [of "units_at big data stop i" True cp ?n] by (simp add: units_at_def)
    with units_at_bytes [OF assms(2) unit(1) n(1), of big] n(2-4) show ?thesis by (auto simp: enc16_def)
  qed (use assms in simp)
  then show "i < j" "j \<le> stop" "u = Some cp \<Longrightarrow> is_scalar (unat cp) \<and> take (j - i) (drop i data) = enc16 big (unat cp)"
    by simp_all
qed

lemma readUnit_enc:
  assumes "take 2 (drop i data) = unit_bytes big 2 v" and "i + 1 < length data"
  shows "Unicode_readUnit big data i = v"
proof (rule unit_bytes_inject [of big 2])
  show "unit_bytes big 2 (Unicode_readUnit big data i) = unit_bytes big 2 v"
    using assms(1) take_pair [OF assms(2) order_refl] by (simp add: Unicode_readUnit_bytes)
qed simp

lemma item16_enc:
  assumes "is_scalar k" and "drop i (take stop data) = enc16 big k @ r" and "stop \<le> length data"
  shows "item16 big data stop i = (Some (of_nat k), i + length (enc16 big k))"
proof -
  have len: "length (enc16 big k) \<le> stop - i" using arg_cong [OF assms(2), of length] assms(3) by simp
  then have i: "i + 1 < stop" by (auto simp: length_enc16 split: if_splits)
  have tk: "take (length (enc16 big k)) (drop i data) = enc16 big k"
    using arg_cong [OF assms(2), of "take (length (enc16 big k))"] len by (simp add: drop_take min_def)
  have "\<exists>r. units_at big data stop i = utf16 k @ r"
  proof (cases "k < 0x10000")
    case True
    then have "take 2 (drop i data) = unit_bytes big 2 (of_nat k :: char16)" using tk by (simp add: enc16_def utf16_def)
    then have "Unicode_readUnit big data i = of_nat k" using i assms(3) by (intro readUnit_enc) simp_all
    with True show ?thesis by (simp add: units_at_def utf16_def)
  next
    case False
    then obtain a b where ab: "utf16 k = [a, b]" "enc16 big k = unit_bytes big 2 a @ unit_bytes big 2 b" by (simp add: enc16_def utf16_def)
    have i3: "i + 3 < stop" using len ab by simp
    have "take 4 (drop i data) = unit_bytes big 2 a @ unit_bytes big 2 b" using tk ab by simp
    then have "take 2 (drop i data) = unit_bytes big 2 a" "take 2 (drop (i + 2) data) = unit_bytes big 2 b"
      by (auto dest: arg_cong [where f = "take 2"] arg_cong [where f = "drop 2"] simp: drop_take add.commute min_def)
    then have "Unicode_readUnit big data i = a" "Unicode_readUnit big data (i + 2) = b"
      using i3 assms(3) by (auto intro!: readUnit_enc)
    with i3 ab show ?thesis by (simp add: units_at_def)
  qed
  then have "utf16_unit True (units_at big data stop i) = Some (Some (of_nat k), length (utf16 k))"
    using utf16_unit_enc [OF assms(1)] by auto
  then obtain j where j: "Unicode_readScalar big data stop i = (Some (of_nat k), j)" "(j - i) div 2 = length (utf16 k)"
    using readScalar_unit [of big data stop i] by (cases "Unicode_readScalar big data stop i") auto
  have "length (enc16 big k) = 2 * length (utf16 k)" by (simp add: length_enc16 utf16_def)
  with j readScalar_next [OF j(1)] i show ?thesis by (auto simp: item16_def)
qed

interpretation utf16_dec: scalar_decoder "item16 (ue_bigEndian e)" "UnicodeEncoding_GetString_loop e" "enc16 (ue_bigEndian e)"
  "\<lambda>_. True" "decoder_repl (enc_decoderFallback e)"
  "\<lambda>data stop i. DecoderFallbackException (take (min 2 (stop - i)) (drop i data)) 0" for e
proof (unfold_locales, goal_cases)
  case (1 stop data i out)
  consider (fin) "stop \<le> i" | (odd) "i < stop" "\<not> i + 1 < stop" | (unit) u j where "i < stop" "i + 1 < stop" "Unicode_readScalar (ue_bigEndian e) data stop i = (u, j)"
    by (cases "Unicode_readScalar (ue_bigEndian e) data stop i") fastforce
  then show ?case
  proof cases
    case odd
    have "\<not> stop < stop" by simp
    with odd show ?thesis
      by (subst UnicodeEncoding_GetString_loop.simps)
        (simp add: item16_def AppendDecoderFallback_cases decoder_repl_def UnicodeEncoding_GetString_loop.simps [of e data stop stop]
          split: DecoderFallback.split)
  next
    case unit
    moreover have "AppendUtf8Scalar out cp = out @ utf8 (unat cp)" if "u = Some cp" for cp
      using item16_facts(3) [OF unit(1) 1, of "ue_bigEndian e" u j cp] unit(2,3) that by (simp add: item16_def AppendUtf8Scalar_scalar)
    ultimately show ?thesis
      by (subst UnicodeEncoding_GetString_loop.simps)
        (auto simp: item16_def AppendDecoderFallback_cases decoder_repl_def min_def split: DecoderFallback.split option.split)
  qed (simp add: UnicodeEncoding_GetString_loop.simps)
next
  case (2 i stop data u j)
  then show ?case using item16_facts(1,2) [OF 2] by simp
next
  case (3 i stop data cp j)
  then show ?case using item16_facts(3) [OF 3 refl] by simp
next
  case (4 k i stop data r)
  then show ?case by (intro item16_enc)
next
  case (5 k)
  then show ?case using length_enc16 [of "ue_bigEndian e" k] by (auto split: if_splits)
qed

subsection \<open>UTF-32\<close>

lemma item32_facts:
  assumes "i < stop" and "stop \<le> length data" and "item32 big data stop i = (u, j)"
  shows "i < j" and "j \<le> stop"
    and "u = Some cp \<Longrightarrow> is_scalar (unat cp) \<and> take (j - i) (drop i data) = enc32 big (unat cp)"
proof -
  consider (short) "\<not> i + 3 < stop" "u = None" "j = stop"
    | (unit) "i + 3 < stop" "j = i + 4" "u = Some cp \<longrightarrow> cp = UTF32_readUnit big data i \<and> \<not> (cp > 0x10FFFF \<or> isSurrogate cp)"
    using assms(3) by (auto simp: item32_def Let_def split: if_splits)
  then have *: "i < j \<and> j \<le> stop \<and> (u = Some cp \<longrightarrow> is_scalar (unat cp) \<and> take (j - i) (drop i data) = enc32 big (unat cp))"
  proof cases
    case unit
    have "is_scalar (unat cp) \<and> take 4 (drop i data) = enc32 big (unat cp)" if "u = Some cp"
      using unit(3) that take_quad [OF unit(1) assms(2)] UTF32_readUnit_bytes [of big data i]
      by (auto simp: enc32_def is_scalar_def isSurrogate_unat not_less word_le_nat_alt)
    with unit show ?thesis by simp
  qed (use assms in simp)
  then show "i < j" "j \<le> stop" "u = Some cp \<Longrightarrow> is_scalar (unat cp) \<and> take (j - i) (drop i data) = enc32 big (unat cp)"
    by simp_all
qed

lemma length_enc32 [simp]: "length (enc32 big k) = 4"
  by (simp add: enc32_def)

lemma readUnit32_enc:
  assumes "take 4 (drop i data) = unit_bytes big 4 v" and "i + 3 < length data"
  shows "UTF32_readUnit big data i = v"
proof (rule unit_bytes_inject [of big 4])
  show "unit_bytes big 4 (UTF32_readUnit big data i) = unit_bytes big 4 v"
    using assms(1) take_quad [OF assms(2) order_refl] by (simp add: UTF32_readUnit_bytes)
qed simp

lemma item32_enc:
  assumes "is_scalar k" and "drop i (take stop data) = enc32 big k @ r" and "stop \<le> length data"
  shows "item32 big data stop i = (Some (of_nat k), i + length (enc32 big k))"
proof -
  have len: "4 \<le> stop - i" using arg_cong [OF assms(2), of length] assms(3) by simp
  have tk: "take 4 (drop i data) = enc32 big k"
    using arg_cong [OF assms(2), of "take 4"] len by (simp add: drop_take min_def)
  have "UTF32_readUnit big data i = of_nat k"
    using tk len assms(3) by (intro readUnit32_enc) (simp_all add: enc32_def)
  moreover have "unat (of_nat k :: uintcs) = k" using assms(1) by (simp add: is_scalar_def unat_of_nat)
  ultimately show ?thesis using len assms(1) by (simp add: item32_def is_scalar_def isSurrogate_unat word_less_nat_alt)
qed

interpretation utf32_dec: scalar_decoder "item32 (ue_bigEndian e)" "UTF32Encoding_GetString_loop e" "enc32 (ue_bigEndian e)"
  "\<lambda>_. True" "decoder_repl (enc_decoderFallback e)"
  "\<lambda>data stop i. DecoderFallbackException (take (min 4 (stop - i)) (drop i data)) 0" for e
proof (unfold_locales, goal_cases)
  case (1 stop data i out)
  consider (fin) "stop \<le> i" | (odd) "i < stop" "\<not> i + 3 < stop" | (unit) u j where "i < stop" "i + 3 < stop" "item32 (ue_bigEndian e) data stop i = (u, j)"
    by (cases "item32 (ue_bigEndian e) data stop i") fastforce
  then show ?case
  proof cases
    case odd
    have "\<not> stop < stop" by simp
    with odd show ?thesis
      by (subst UTF32Encoding_GetString_loop.simps)
        (simp add: item32_def AppendDecoderFallback_cases decoder_repl_def UTF32Encoding_GetString_loop.simps [of e data stop stop]
          split: DecoderFallback.split)
  next
    case unit
    moreover have "AppendUtf8Scalar out cp = out @ utf8 (unat cp)" if "u = Some cp" for cp
      using item32_facts(3) [OF unit(1) 1 unit(3) that] by (simp add: AppendUtf8Scalar_scalar)
    ultimately show ?thesis
      by (subst UTF32Encoding_GetString_loop.simps)
        (auto simp: item32_def Let_def AppendDecoderFallback_cases decoder_repl_def min_def split: DecoderFallback.split if_splits)
  qed (simp add: UTF32Encoding_GetString_loop.simps)
next
  case (2 i stop data u j)
  then show ?case using item32_facts(1,2) [OF 2] by simp
next
  case (3 i stop data cp j)
  then show ?case using item32_facts(3) [OF 3 refl] by simp
next
  case (4 k i stop data r)
  then show ?case by (intro item32_enc)
next
  case (5 k)
  then show ?case using length_enc32 [of "ue_bigEndian e" k] by (metis list.size(3) zero_neq_numeral)
qed

section \<open>Ranges\<close>

text \<open>The bytes a valid range selects; every \<^verbatim>\<open>GetString\<close> decodes exactly them.\<close>

definition range_ok :: "bytecs list \<Rightarrow> intcs \<Rightarrow> intcs \<Rightarrow> bool" where
  "range_ok d index count \<longleftrightarrow> 0 \<le> index \<and> 0 \<le> count \<and> index + count \<le> int (length d)"

definition selected :: "bytecs list \<Rightarrow> intcs \<Rightarrow> intcs \<Rightarrow> bytecs list" where
  "selected d index count = take (nat count) (drop (nat index) d)"

lemma checked_range:
  assumes "range_ok d index count"
  shows "\<exists>start stop. checkedRawDecodeRange (Some d) index count = Inr (start, stop) \<and> start \<le> stop \<and> stop \<le> length d \<and>
    drop start (take stop d) = selected d index count \<and> (start < stop \<longleftrightarrow> 0 < count)"
  using assms by (auto simp: range_ok_def checkedRawDecodeRange_def validateRawDecodeRange_def selected_def drop_take)

lemma selected_middle: "selected (pre @ m @ post) (int (length pre)) (int (length m)) = m"
  by (simp add: selected_def)

lemma range_ok_middle: "range_ok (pre @ m @ post) (int (length pre)) (int (length m))"
  by (simp add: range_ok_def)

text \<open>The byte order mark at the start of the UTF-16 or UTF-32 form of a text is not part of the decoded text.\<close>

definition strip_bom :: "nat list \<Rightarrow> nat list" where
  "strip_bom ks = (if ks \<noteq> [] \<and> hd ks = 0xFEFF then tl ks else ks)"

lemma bom_unit: "enc16 big 0xFEFF = unit_bytes big 2 (0xFEFF :: char16)" "enc32 big 0xFEFF = unit_bytes big 4 (0xFEFF :: uintcs)"
  by (simp_all add: enc16_def enc32_def utf16_def)

lemma bom_head16:
  assumes "list_all is_scalar ks"
  shows "take 2 (concat (map (enc16 big) ks)) = enc16 big 0xFEFF \<longleftrightarrow> ks \<noteq> [] \<and> hd ks = 0xFEFF"
proof (cases ks)
  case Nil
  then show ?thesis using length_enc16 [of big "0xFEFF"] by (auto dest: arg_cong [where f = length])
next
  case (Cons k r)
  obtain u v where u: "utf16 k = u # v" by (cases "utf16 k") auto
  have "take 2 (concat (map (enc16 big) ks)) = unit_bytes big 2 u" by (simp add: Cons enc16_def u)
  then have "take 2 (concat (map (enc16 big) ks)) = enc16 big 0xFEFF \<longleftrightarrow> u = 0xFEFF"
    using unit_bytes_inject [of big 2 u "0xFEFF"] by (auto simp: bom_unit)
  moreover have "u = 0xFEFF \<longleftrightarrow> k = 0xFEFF"
  proof (cases "k < 0x10000")
    case True
    then have "unat u = k" using u by (auto simp: utf16_def unat_of_nat)
    then show ?thesis by (auto simp: word_unat_eq_iff)
  next
    case False
    have "k \<le> 0x10FFFF" using assms by (simp add: Cons is_scalar_def)
    then have "0xD800 + (k - 0x10000) div 1024 < 0xDC00" by auto
    moreover from this have "unat u = 0xD800 + (k - 0x10000) div 1024" using u False by (auto simp: utf16_def unat_of_nat simp del: of_nat_add)
    ultimately show ?thesis using False by (auto simp: word_unat_eq_iff)
  qed
  ultimately show ?thesis by (simp add: Cons)
qed

lemma bom_head32:
  assumes "list_all is_scalar ks"
  shows "take 4 (concat (map (enc32 big) ks)) = enc32 big 0xFEFF \<longleftrightarrow> ks \<noteq> [] \<and> hd ks = 0xFEFF"
proof (cases ks)
  case Nil
  then show ?thesis using length_enc32 [of big "0xFEFF"] by (auto dest: arg_cong [where f = length])
next
  case (Cons k r)
  have "take 4 (concat (map (enc32 big) ks)) = unit_bytes big 4 (of_nat k :: uintcs)" by (simp add: Cons enc32_def)
  then have "take 4 (concat (map (enc32 big) ks)) = enc32 big 0xFEFF \<longleftrightarrow> (of_nat k :: uintcs) = 0xFEFF"
    using unit_bytes_inject [of big 4 "of_nat k :: uintcs" "0xFEFF"] by (auto simp: bom_unit)
  moreover have "unat (of_nat k :: uintcs) = k" using assms by (simp add: Cons is_scalar_def unat_of_nat)
  ultimately show ?thesis by (auto simp: Cons word_unat_eq_iff)
qed

text \<open>How the doors reach their loops.\<close>

lemma take_prefix: "n \<le> stop - i \<Longrightarrow> take n (drop i (take stop d)) = take n (drop i d)"
  by (simp add: drop_take min_def)

lemma bom_split:
  "drop start t = sel \<Longrightarrow>
   sel = (if take n sel = bom then bom else []) @ drop (if take n sel = bom then start + n else start) t"
  using append_take_drop_id [of n sel] by (auto simp: add.commute simp del: append_take_drop_id)

lemma UTF8_range:
  assumes "range_ok d index count"
  shows "\<exists>i stop. UTF8Encoding_GetString e (Some d) index count = UTF8Encoding_GetString_loop (enc_decoderFallback e) d stop i [] \<and>
    stop \<le> length d \<and> drop i (take stop d) = selected d index count"
proof -
  obtain start stop where r: "checkedRawDecodeRange (Some d) index count = Inr (start, stop)" "stop \<le> length d"
    "drop start (take stop d) = selected d index count" using checked_range [OF assms] by blast
  then show ?thesis
    by (intro exI [of _ start] exI [of _ stop])
      (simp add: UTF8Encoding_GetString_def pointee_def UTF8Encoding_GetString_loop.simps [of _ d stop start] del: drop_take)
qed

lemma ASCII_range:
  assumes "range_ok d index count"
  shows "\<exists>i stop. ASCIIEncoding_GetString e (Some d) index count = ASCIIEncoding_GetString_loop e d stop i [] \<and>
    stop \<le> length d \<and> drop i (take stop d) = selected d index count"
proof -
  obtain start stop where r: "checkedRawDecodeRange (Some d) index count = Inr (start, stop)" "stop \<le> length d"
    "drop start (take stop d) = selected d index count" using checked_range [OF assms] by blast
  then show ?thesis
    by (intro exI [of _ start] exI [of _ stop])
      (simp add: ASCIIEncoding_GetString_def pointee_def ASCIIEncoding_GetString_loop.simps [of _ d stop start] del: drop_take)
qed

lemma Latin1_range:
  assumes "range_ok d index count"
  shows "\<exists>i stop. Latin1Encoding_GetString (Some d) index count = Inr (Latin1Encoding_GetString_loop d stop i []) \<and>
    stop \<le> length d \<and> drop i (take stop d) = selected d index count"
proof -
  obtain start stop where "checkedRawDecodeRange (Some d) index count = Inr (start, stop)" "stop \<le> length d"
    "drop start (take stop d) = selected d index count" using checked_range [OF assms] by blast
  then show ?thesis
    by (intro exI [of _ start] exI [of _ stop]) (simp add: Latin1Encoding_GetString_def pointee_def del: drop_take)
qed

lemma Unicode_range:
  assumes "range_ok d index count"
  shows "\<exists>i stop. UnicodeEncoding_GetString e (Some d) index count = UnicodeEncoding_GetString_loop e d stop i [] \<and> stop \<le> length d \<and>
    selected d index count =
      (if take 2 (selected d index count) = enc16 (ue_bigEndian e) 0xFEFF then enc16 (ue_bigEndian e) 0xFEFF else []) @ drop i (take stop d)"
proof -
  obtain start stop where r: "checkedRawDecodeRange (Some d) index count = Inr (start, stop)" "stop \<le> length d" "start \<le> stop"
    "drop start (take stop d) = selected d index count" using checked_range [OF assms] by blast
  let ?bom = "enc16 (ue_bigEndian e) 0xFEFF" and ?sel = "selected d index count"
  have len: "length ?sel = stop - start" using arg_cong [OF r(4), of length] r(2) by simp
  have test: "stop - start \<ge> 2 \<and> Unicode_readUnit (ue_bigEndian e) d start = 0xFEFF \<longleftrightarrow> take 2 ?sel = ?bom"
  proof (cases "stop - start \<ge> 2")
    case True
    then have tk: "take 2 ?sel = [d ! start, d ! (start + 1)]"
      using take_prefix [OF True, of d] take_pair [of start stop d] r(2,4) by (simp del: drop_take)
    have "Unicode_readUnit (ue_bigEndian e) d start = 0xFEFF \<longleftrightarrow>
        unit_bytes (ue_bigEndian e) 2 (Unicode_readUnit (ue_bigEndian e) d start) = ?bom"
      using unit_bytes_inject [of "ue_bigEndian e" 2 "Unicode_readUnit (ue_bigEndian e) d start" "0xFEFF"] by (auto simp: bom_unit)
    with True tk show ?thesis by (simp add: Unicode_readUnit_bytes)
  next
    case False
    then show ?thesis using len by (auto dest: arg_cong [where f = length] simp: bom_unit)
  qed
  let ?i = "if take 2 ?sel = ?bom then start + 2 else start"
  have "UnicodeEncoding_GetString e (Some d) index count = UnicodeEncoding_GetString_loop e d stop ?i []"
    by (simp add: UnicodeEncoding_GetString_def pointee_def r(1) Let_def test)
  moreover have "?sel = (if take 2 ?sel = ?bom then ?bom else []) @ drop ?i (take stop d)" by (rule bom_split [OF r(4)])
  ultimately show ?thesis using r(2) by (intro exI [of _ ?i] exI [of _ stop]) simp
qed

lemma UTF32_range:
  assumes "range_ok d index count"
  shows "\<exists>i stop. UTF32Encoding_GetString e (Some d) index count = UTF32Encoding_GetString_loop e d stop i [] \<and> stop \<le> length d \<and>
    selected d index count =
      (if take 4 (selected d index count) = enc32 (ue_bigEndian e) 0xFEFF then enc32 (ue_bigEndian e) 0xFEFF else []) @ drop i (take stop d)"
proof -
  obtain start stop where r: "checkedRawDecodeRange (Some d) index count = Inr (start, stop)" "stop \<le> length d" "start \<le> stop"
    "drop start (take stop d) = selected d index count" using checked_range [OF assms] by blast
  let ?bom = "enc32 (ue_bigEndian e) 0xFEFF" and ?sel = "selected d index count"
  have len: "length ?sel = stop - start" using arg_cong [OF r(4), of length] r(2) by simp
  have test: "stop - start \<ge> 4 \<and> UTF32_readUnit (ue_bigEndian e) d start = 0xFEFF \<longleftrightarrow> take 4 ?sel = ?bom"
  proof (cases "stop - start \<ge> 4")
    case True
    then have tk: "take 4 ?sel = [d ! start, d ! (start + 1), d ! (start + 2), d ! (start + 3)]"
      using take_prefix [OF True, of d] take_quad [of start stop d] r(2,4) by (simp del: drop_take)
    have "UTF32_readUnit (ue_bigEndian e) d start = 0xFEFF \<longleftrightarrow>
        unit_bytes (ue_bigEndian e) 4 (UTF32_readUnit (ue_bigEndian e) d start) = ?bom"
      using unit_bytes_inject [of "ue_bigEndian e" 4 "UTF32_readUnit (ue_bigEndian e) d start" "0xFEFF"] by (auto simp: bom_unit)
    with True tk show ?thesis by (simp add: UTF32_readUnit_bytes)
  next
    case False
    then show ?thesis using len by (auto dest: arg_cong [where f = length] simp: bom_unit)
  qed
  let ?i = "if take 4 ?sel = ?bom then start + 4 else start"
  have "UTF32Encoding_GetString e (Some d) index count = UTF32Encoding_GetString_loop e d stop ?i []"
    by (simp add: UTF32Encoding_GetString_def pointee_def r(1) Let_def test)
  moreover have "?sel = (if take 4 ?sel = ?bom then ?bom else []) @ drop ?i (take stop d)" by (rule bom_split [OF r(4)])
  ultimately show ?thesis using r(2) by (intro exI [of _ ?i] exI [of _ stop]) simp
qed

section \<open>Properties\<close>

lemma Unicode_GetString_text:
  assumes "range_ok d index count" and "list_all is_scalar ks" and "selected d index count = concat (map (enc16 (ue_bigEndian e)) ks)"
  shows "UnicodeEncoding_GetString e (Some d) index count = Inr (text_of (strip_bom ks))"
proof -
  obtain i stop where r: "UnicodeEncoding_GetString e (Some d) index count = UnicodeEncoding_GetString_loop e d stop i []" "stop \<le> length d"
    "concat (map (enc16 (ue_bigEndian e)) ks) =
       (if ks \<noteq> [] \<and> hd ks = 0xFEFF then enc16 (ue_bigEndian e) 0xFEFF else []) @ drop i (take stop d)"
    using Unicode_range [OF assms(1), of e] bom_head16 [OF assms(2)] by (auto simp: assms(3) simp del: drop_take)
  have "drop i (take stop d) = concat (map (enc16 (ue_bigEndian e)) (strip_bom ks))"
    using r(3) by (cases ks) (auto simp: strip_bom_def simp del: drop_take split: if_splits)
  moreover have "list_all is_scalar (strip_bom ks)" using assms(2) by (cases ks) (auto simp: strip_bom_def)
  ultimately show ?thesis using r(1,2) utf16_dec.loop_text [of "strip_bom ks" stop d i e "[]"] by simp
qed

lemma UTF32_GetString_text:
  assumes "range_ok d index count" and "list_all is_scalar ks" and "selected d index count = concat (map (enc32 (ue_bigEndian e)) ks)"
  shows "UTF32Encoding_GetString e (Some d) index count = Inr (text_of (strip_bom ks))"
proof -
  obtain i stop where r: "UTF32Encoding_GetString e (Some d) index count = UTF32Encoding_GetString_loop e d stop i []" "stop \<le> length d"
    "concat (map (enc32 (ue_bigEndian e)) ks) =
       (if ks \<noteq> [] \<and> hd ks = 0xFEFF then enc32 (ue_bigEndian e) 0xFEFF else []) @ drop i (take stop d)"
    using UTF32_range [OF assms(1), of e] bom_head32 [OF assms(2)] by (auto simp: assms(3) simp del: drop_take)
  have "drop i (take stop d) = concat (map (enc32 (ue_bigEndian e)) (strip_bom ks))"
    using r(3) by (cases ks) (auto simp: strip_bom_def simp del: drop_take split: if_splits)
  moreover have "list_all is_scalar (strip_bom ks)" using assms(2) by (cases ks) (auto simp: strip_bom_def)
  ultimately show ?thesis using r(1,2) utf32_dec.loop_text [of "strip_bom ks" stop d i e "[]"] by simp
qed

lemma UTF8_GetString_text:
  assumes "range_ok d index count" and "list_all is_scalar ks" and "selected d index count = text_of ks"
  shows "UTF8Encoding_GetString e (Some d) index count = Inr (text_of ks)"
proof -
  obtain i stop where "UTF8Encoding_GetString e (Some d) index count = UTF8Encoding_GetString_loop (enc_decoderFallback e) d stop i []"
    "stop \<le> length d" "drop i (take stop d) = text_of ks" using UTF8_range [OF assms(1), of e] assms(3) by metis
  then show ?thesis using utf8_dec.loop_text [of ks stop d i "enc_decoderFallback e" "[]"] assms(2) by simp
qed

lemma UTF8_GetBytes_text: "list_all is_scalar ks \<Longrightarrow> UTF8Encoding_GetBytes e (text_of ks) = Inr (text_of ks)"
  using utf8_dec.loop_text [of ks "length (text_of ks)" "text_of ks" 0 "decoder_of (enc_encoderFallback e)" "[]"]
  by (simp add: UTF8Encoding_GetBytes_def UTF8Encoding_GetBytes_GetString)

lemma ASCII_GetString_text:
  assumes "range_ok d index count" and "list_all (\<lambda>k. k < 128) ks" and "selected d index count = map of_nat ks"
  shows "ASCIIEncoding_GetString e (Some d) index count = Inr (text_of ks)"
proof -
  obtain i stop where r: "ASCIIEncoding_GetString e (Some d) index count = ASCIIEncoding_GetString_loop e d stop i []"
    "stop \<le> length d" "drop i (take stop d) = map of_nat ks" using ASCII_range [OF assms(1), of e] assms(3) by metis
  have "list_all (\<lambda>k. is_scalar k \<and> k < 128) ks" using assms(2) by (auto simp: list_all_iff is_scalar_def)
  moreover have "concat (map (\<lambda>k. [of_nat k]) ks) = (map of_nat ks :: bytecs list)" by (induction ks) simp_all
  ultimately show ?thesis using r ascii_dec.loop_text [of ks stop d i e "[]"] by simp
qed

lemma Latin1_GetString_text:
  assumes "range_ok d index count" and "list_all (\<lambda>k. k < 256) ks" and "selected d index count = map of_nat ks"
  shows "Latin1Encoding_GetString (Some d) index count = Inr (text_of ks)"
proof -
  obtain i stop where r: "Latin1Encoding_GetString (Some d) index count = Inr (Latin1Encoding_GetString_loop d stop i [])"
    "stop \<le> length d" "drop i (take stop d) = map of_nat ks" using Latin1_range [OF assms(1)] assms(3) by metis
  have "list_all (\<lambda>k. is_scalar k \<and> k < 256) ks" using assms(2) by (auto simp: list_all_iff is_scalar_def)
  moreover have "concat (map (\<lambda>k. [of_nat k]) ks) = (map of_nat ks :: bytecs list)" by (induction ks) simp_all
  ultimately show ?thesis using r latin1_dec.loop_text [of ks stop d i "[]"] by simp
qed

lemma single_bytes_fit:
  "list_all (\<lambda>k. k < n) ks \<Longrightarrow> n \<le> 256 \<Longrightarrow> (\<And>k. k < n \<Longrightarrow> fits (of_nat k)) \<Longrightarrow>
   single_bytes f fits (map of_nat ks) = Inr (map of_nat ks)"
proof (induction ks)
  case (Cons k ks)
  then have k: "fits (of_nat k)" "ucast (of_nat k :: uintcs) = (of_nat k :: bytecs)"
    by (auto simp: word_unat_eq_iff ucast_byte_of unat_of_nat)
  have "single_bytes f fits (map of_nat ks) = Inr (map of_nat ks)" using Cons by simp
  with k show ?case by (auto simp: single_bytes_def split: EncoderFallback.splits option.splits)
qed (simp add: single_bytes_def split: EncoderFallback.split)

lemma single_bytes_text:
  assumes "list_all is_scalar ks"
  shows "list_all (\<lambda>k. k < 128) ks \<Longrightarrow> ASCIIEncoding_GetBytes e (text_of ks) = Inr (map of_nat ks)"
    and "list_all (\<lambda>k. k < 256) ks \<Longrightarrow> Latin1Encoding_GetBytes e (text_of ks) = Inr (map of_nat ks)"
  using single_bytes_fit [of 128 ks "\<lambda>cp. cp \<le> 127"] single_bytes_fit [of 256 ks "\<lambda>cp. cp \<le> 0xFF"]
  by (simp_all add: single_byte_encoders codes_text [OF assms] word_le_nat_alt unat_of_nat)

lemma map_codes_text:
  assumes "list_all is_scalar ks"
  shows "concat (map (\<lambda>cp. enc (unat cp)) (codes (text_of ks))) = concat (map enc ks)"
  using assms by (simp add: codes_text) (induction ks, auto simp: is_scalar_def unat_of_nat)

text \<open>
  C18. Round trip of every encoding, for any scalar values \<open>ks\<close>, whatever fallbacks are configured and
  wherever the encoded bytes stand in the buffer: \<^verbatim>\<open>GetString\<close> of what \<^verbatim>\<open>GetBytes\<close> returned is the text
  again. UTF-16 and UTF-32, in both byte orders, drop one leading U+FEFF; ASCII and Latin-1 are exact on
  their repertoires, where they write one byte for each scalar value.
\<close>

theorem encodings_roundtrip:
  assumes "list_all is_scalar ks"
  shows
    "UTF8Encoding_GetBytes e (text_of ks) = Inr (text_of ks) \<and>
     UTF8Encoding_GetString e (Some (pre @ text_of ks @ post)) (int (length pre)) (int (length (text_of ks))) = Inr (text_of ks) \<and>
     (let bs = UnicodeEncoding_GetBytes u (text_of ks)
      in UnicodeEncoding_GetString u (Some (pre @ bs @ post)) (int (length pre)) (int (length bs)) = Inr (text_of (strip_bom ks))) \<and>
     (let bs = UTF32Encoding_GetBytes u (text_of ks)
      in UTF32Encoding_GetString u (Some (pre @ bs @ post)) (int (length pre)) (int (length bs)) = Inr (text_of (strip_bom ks))) \<and>
     (list_all (\<lambda>k. k < 128) ks \<longrightarrow>
        ASCIIEncoding_GetBytes e (text_of ks) = Inr (map of_nat ks) \<and>
        ASCIIEncoding_GetString e (Some (pre @ map of_nat ks @ post)) (int (length pre)) (int (length ks)) = Inr (text_of ks)) \<and>
     (list_all (\<lambda>k. k < 256) ks \<longrightarrow>
        Latin1Encoding_GetBytes e (text_of ks) = Inr (map of_nat ks) \<and>
        Latin1Encoding_GetString (Some (pre @ map of_nat ks @ post)) (int (length pre)) (int (length ks)) = Inr (text_of ks))"
proof -
  have m: "range_ok (pre @ map of_nat ks @ post) (int (length pre)) (int (length ks))"
    "selected (pre @ map of_nat ks @ post) (int (length pre)) (int (length ks)) = map of_nat ks"
    using range_ok_middle [of pre "map of_nat ks" post] selected_middle [of pre "map of_nat ks" post] by simp_all
  have 1: "UTF8Encoding_GetString e (Some (pre @ text_of ks @ post)) (int (length pre)) (int (length (text_of ks))) = Inr (text_of ks)"
    by (rule UTF8_GetString_text [OF range_ok_middle assms selected_middle])
  have 2: "UnicodeEncoding_GetString u (Some (pre @ bs @ post)) (int (length pre)) (int (length bs)) = Inr (text_of (strip_bom ks))"
    if "bs = UnicodeEncoding_GetBytes u (text_of ks)" for bs
    by (rule Unicode_GetString_text [OF range_ok_middle assms])
      (simp only: selected_middle that UnicodeEncoding_GetBytes_codes map_codes_text [OF assms])
  have 3: "UTF32Encoding_GetString u (Some (pre @ bs @ post)) (int (length pre)) (int (length bs)) = Inr (text_of (strip_bom ks))"
    if "bs = UTF32Encoding_GetBytes u (text_of ks)" for bs
    by (rule UTF32_GetString_text [OF range_ok_middle assms])
      (simp only: selected_middle that UTF32Encoding_GetBytes_codes map_codes_text [OF assms])
  show ?thesis unfolding Let_def
    by (intro conjI impI UTF8_GetBytes_text [OF assms] 1 2 [OF refl] 3 [OF refl] single_bytes_text [OF assms]
        ASCII_GetString_text [OF m(1) _ m(2)] Latin1_GetString_text [OF m(1) _ m(2)]; assumption)
qed

theorem encodings_roundtrip_witness:
  "UTF8Encoding_GetString Encoding_UTF8 (Some [0x7A, 0x41, 0xF0, 0x9F, 0x98, 0x80, 0]) 1 5 = Inr [0x41, 0xF0, 0x9F, 0x98, 0x80]"
  using encodings_roundtrip [of "[0x41, 0x1F600]" Encoding_UTF8 "[0x7A]" "[0]" Encoding_Unicode]
  by (simp add: is_scalar_def utf8_def)

lemma well_formed_text: "\<exists>ks. list_all is_scalar ks \<and> r = Inr ([] @ text_of ks) \<Longrightarrow> \<exists>t. r = Inr t \<and> utf8_text t"
  by (auto simp: utf8_text_def)

text \<open>
  C19. Whatever the bytes, with a replacement fallback whose replacement is well-formed text (every
  shipped default is) no valid range makes \<^verbatim>\<open>GetString\<close> of any encoding fail, and the string it returns
  is well-formed UTF-8.
\<close>

theorem decoded_strings_well_formed:
  assumes "range_ok d index count" and "list_all is_scalar rs"
    and "enc_decoderFallback e = DecoderReplacementFallback (text_of rs)"
    and "enc_decoderFallback u = DecoderReplacementFallback (text_of rs)"
  shows
    "(\<exists>t. UTF8Encoding_GetString e (Some d) index count = Inr t \<and> utf8_text t) \<and>
     (\<exists>t. ASCIIEncoding_GetString e (Some d) index count = Inr t \<and> utf8_text t) \<and>
     (\<exists>t. Latin1Encoding_GetString (Some d) index count = Inr t \<and> utf8_text t) \<and>
     (\<exists>t. UnicodeEncoding_GetString u (Some d) index count = Inr t \<and> utf8_text t) \<and>
     (\<exists>t. UTF32Encoding_GetString u (Some d) index count = Inr t \<and> utf8_text t)"
proof (intro conjI)
  note repl = decoder_repl_def assms(3,4)
  show "\<exists>t. UTF8Encoding_GetString e (Some d) index count = Inr t \<and> utf8_text t"
    using UTF8_range [OF assms(1), of e] utf8_dec.loop_well_formed [of "enc_decoderFallback e" rs _ d _ "[]"] assms(2)
    by (auto simp: repl intro!: well_formed_text)
  show "\<exists>t. ASCIIEncoding_GetString e (Some d) index count = Inr t \<and> utf8_text t"
    using ASCII_range [OF assms(1), of e] ascii_dec.loop_well_formed [of e rs _ d _ "[]"] assms(2)
    by (auto simp: repl intro!: well_formed_text)
  show "\<exists>t. Latin1Encoding_GetString (Some d) index count = Inr t \<and> utf8_text t"
    using Latin1_range [OF assms(1)] latin1_dec.loop_well_formed [where repl = "Some []" and rs = "[]" and out = "[]" and data = d]
    by (auto intro!: well_formed_text)
  show "\<exists>t. UnicodeEncoding_GetString u (Some d) index count = Inr t \<and> utf8_text t"
    using Unicode_range [OF assms(1), of u] utf16_dec.loop_well_formed [of u rs _ d _ "[]"] assms(2)
    by (auto simp: repl intro!: well_formed_text simp del: drop_take)
  show "\<exists>t. UTF32Encoding_GetString u (Some d) index count = Inr t \<and> utf8_text t"
    using UTF32_range [OF assms(1), of u] utf32_dec.loop_well_formed [of u rs _ d _ "[]"] assms(2)
    by (auto simp: repl intro!: well_formed_text simp del: drop_take)
qed

theorem decoded_strings_well_formed_witness:
  "\<exists>t. UnicodeEncoding_GetString Encoding_Unicode (Some [0x00, 0xD8, 0x41]) 0 3 = Inr t \<and> utf8_text t"
  using decoded_strings_well_formed [of "[0x00, 0xD8, 0x41]" 0 3 "[0xFFFD]" Encoding_UTF8 Encoding_Unicode]
  by (simp add: range_ok_def is_scalar_def utf8_def Encoding_UTF8_def UTF8Encoding_ctor_def Encoding_Unicode_def UnicodeEncoding_ctor_def
      set_default_fallbacks_def markReadOnly_def replacement_utf8_def)

text \<open>Strictness of the single decoders under the exception fallback.\<close>

lemma strict_utf8:
  assumes "range_ok d index count" and "enc_decoderFallback e = DecoderExceptionFallback"
  shows "(\<exists>t. UTF8Encoding_GetString e (Some d) index count = Inr t) \<longleftrightarrow> utf8_text (selected d index count)"
proof
  obtain i stop where "UTF8Encoding_GetString e (Some d) index count = UTF8Encoding_GetString_loop (enc_decoderFallback e) d stop i []"
    "stop \<le> length d" "drop i (take stop d) = selected d index count" using UTF8_range [OF assms(1), of e] by blast
  then show "utf8_text (selected d index count)" if "\<exists>t. UTF8Encoding_GetString e (Some d) index count = Inr t"
    using that utf8_dec.loop_strict [of "enc_decoderFallback e" stop d i "[]"]
    by (auto simp: decoder_repl_def assms(2) utf8_text_def simp del: drop_take)
qed (use UTF8_GetString_text [OF assms(1)] in \<open>auto simp: utf8_text_def\<close>)

lemma flat_bytes: "concat (map (\<lambda>k. [of_nat k]) ks) = (map of_nat ks :: bytecs list)"
  by (induction ks) simp_all

lemma strict_ascii:
  assumes "range_ok d index count" and "enc_decoderFallback e = DecoderExceptionFallback"
  shows "(\<exists>t. ASCIIEncoding_GetString e (Some d) index count = Inr t) \<longleftrightarrow>
    (\<exists>ks. list_all (\<lambda>k. k < 128) ks \<and> selected d index count = map of_nat ks)"
proof
  obtain i stop where r: "ASCIIEncoding_GetString e (Some d) index count = ASCIIEncoding_GetString_loop e d stop i []"
    "stop \<le> length d" "drop i (take stop d) = selected d index count" using ASCII_range [OF assms(1), of e] by blast
  assume "\<exists>t. ASCIIEncoding_GetString e (Some d) index count = Inr t"
  with r obtain ks where "list_all (\<lambda>k. is_scalar k \<and> k < 128) ks" "selected d index count = map of_nat ks"
    using ascii_dec.loop_strict [of e stop d i "[]"] by (auto simp: decoder_repl_def assms(2) flat_bytes simp del: drop_take)
  then show "\<exists>ks. list_all (\<lambda>k. k < 128) ks \<and> selected d index count = map of_nat ks"
    by (intro exI [of _ ks]) (simp add: list_all_iff)
qed (use ASCII_GetString_text [OF assms(1)] in blast)

lemma Unicode_prefix:
  assumes "range_ok d index count"
  shows "\<exists>i stop ps. UnicodeEncoding_GetString u (Some d) index count = UnicodeEncoding_GetString_loop u d stop i [] \<and> stop \<le> length d \<and>
    selected d index count = concat (map (enc16 (ue_bigEndian u)) ps) @ drop i (take stop d) \<and> list_all is_scalar ps"
proof -
  obtain i stop where r: "UnicodeEncoding_GetString u (Some d) index count = UnicodeEncoding_GetString_loop u d stop i []" "stop \<le> length d"
    "selected d index count = (if take 2 (selected d index count) = enc16 (ue_bigEndian u) 0xFEFF
       then enc16 (ue_bigEndian u) 0xFEFF else []) @ drop i (take stop d)" using Unicode_range [OF assms, of u] by blast
  let ?ps = "if take 2 (selected d index count) = enc16 (ue_bigEndian u) 0xFEFF then [0xFEFF] else []"
  have "selected d index count = concat (map (enc16 (ue_bigEndian u)) ?ps) @ drop i (take stop d)" by (subst r(3)) simp
  with r(1,2) show ?thesis by (intro exI [of _ i] exI [of _ stop] exI [of _ ?ps]) (simp add: is_scalar_def)
qed

lemma UTF32_prefix:
  assumes "range_ok d index count"
  shows "\<exists>i stop ps. UTF32Encoding_GetString u (Some d) index count = UTF32Encoding_GetString_loop u d stop i [] \<and> stop \<le> length d \<and>
    selected d index count = concat (map (enc32 (ue_bigEndian u)) ps) @ drop i (take stop d) \<and> list_all is_scalar ps"
proof -
  obtain i stop where r: "UTF32Encoding_GetString u (Some d) index count = UTF32Encoding_GetString_loop u d stop i []" "stop \<le> length d"
    "selected d index count = (if take 4 (selected d index count) = enc32 (ue_bigEndian u) 0xFEFF
       then enc32 (ue_bigEndian u) 0xFEFF else []) @ drop i (take stop d)" using UTF32_range [OF assms, of u] by blast
  let ?ps = "if take 4 (selected d index count) = enc32 (ue_bigEndian u) 0xFEFF then [0xFEFF] else []"
  have "selected d index count = concat (map (enc32 (ue_bigEndian u)) ?ps) @ drop i (take stop d)" by (subst r(3)) simp
  with r(1,2) show ?thesis by (intro exI [of _ i] exI [of _ stop] exI [of _ ?ps]) (simp add: is_scalar_def)
qed

lemma strict_utf16:
  assumes "range_ok d index count" and "enc_decoderFallback u = DecoderExceptionFallback"
  shows "(\<exists>t. UnicodeEncoding_GetString u (Some d) index count = Inr t) \<longleftrightarrow>
    (\<exists>ks. list_all is_scalar ks \<and> selected d index count = UnicodeEncoding_GetBytes u (text_of ks))"
proof
  obtain i stop ps where r: "UnicodeEncoding_GetString u (Some d) index count = UnicodeEncoding_GetString_loop u d stop i []"
    "stop \<le> length d" "selected d index count = concat (map (enc16 (ue_bigEndian u)) ps) @ drop i (take stop d)" "list_all is_scalar ps"
    using Unicode_prefix [OF assms(1), of u] by blast
  assume "\<exists>t. UnicodeEncoding_GetString u (Some d) index count = Inr t"
  with r obtain ks where "list_all is_scalar ks" "drop i (take stop d) = concat (map (enc16 (ue_bigEndian u)) ks)"
    using utf16_dec.loop_strict [of u stop d i "[]"] by (auto simp: decoder_repl_def assms(2) simp del: drop_take)
  with r(3,4) show "\<exists>ks. list_all is_scalar ks \<and> selected d index count = UnicodeEncoding_GetBytes u (text_of ks)"
    by (intro exI [of _ "ps @ ks"]) (simp add: UnicodeEncoding_GetBytes_codes map_codes_text [of "ps @ ks", simplified] del: drop_take)
qed (use Unicode_GetString_text [OF assms(1)] in \<open>auto simp: UnicodeEncoding_GetBytes_codes map_codes_text\<close>)

lemma strict_utf32:
  assumes "range_ok d index count" and "enc_decoderFallback u = DecoderExceptionFallback"
  shows "(\<exists>t. UTF32Encoding_GetString u (Some d) index count = Inr t) \<longleftrightarrow>
    (\<exists>ks. list_all is_scalar ks \<and> selected d index count = UTF32Encoding_GetBytes u (text_of ks))"
proof
  obtain i stop ps where r: "UTF32Encoding_GetString u (Some d) index count = UTF32Encoding_GetString_loop u d stop i []"
    "stop \<le> length d" "selected d index count = concat (map (enc32 (ue_bigEndian u)) ps) @ drop i (take stop d)" "list_all is_scalar ps"
    using UTF32_prefix [OF assms(1), of u] by blast
  assume "\<exists>t. UTF32Encoding_GetString u (Some d) index count = Inr t"
  with r obtain ks where "list_all is_scalar ks" "drop i (take stop d) = concat (map (enc32 (ue_bigEndian u)) ks)"
    using utf32_dec.loop_strict [of u stop d i "[]"] by (auto simp: decoder_repl_def assms(2) simp del: drop_take)
  with r(3,4) show "\<exists>ks. list_all is_scalar ks \<and> selected d index count = UTF32Encoding_GetBytes u (text_of ks)"
    by (intro exI [of _ "ps @ ks"]) (simp add: UTF32Encoding_GetBytes_codes map_codes_text [of "ps @ ks", simplified] del: drop_take)
qed (use UTF32_GetString_text [OF assms(1)] in \<open>auto simp: UTF32Encoding_GetBytes_codes map_codes_text\<close>)

text \<open>
  C20. With the exception fallback \<^verbatim>\<open>GetString\<close> is strict: it returns exactly on the bytes \<^verbatim>\<open>GetBytes\<close> can
  produce for some text (for UTF-16 and UTF-32 a leading byte order mark included).
\<close>

theorem strict_decoding:
  assumes "range_ok d index count" and "enc_decoderFallback e = DecoderExceptionFallback" and "enc_decoderFallback u = DecoderExceptionFallback"
  shows
    "((\<exists>t. UTF8Encoding_GetString e (Some d) index count = Inr t) \<longleftrightarrow> utf8_text (selected d index count)) \<and>
     ((\<exists>t. ASCIIEncoding_GetString e (Some d) index count = Inr t) \<longleftrightarrow>
        (\<exists>ks. list_all (\<lambda>k. k < 128) ks \<and> selected d index count = map of_nat ks)) \<and>
     ((\<exists>t. UnicodeEncoding_GetString u (Some d) index count = Inr t) \<longleftrightarrow>
        (\<exists>ks. list_all is_scalar ks \<and> selected d index count = UnicodeEncoding_GetBytes u (text_of ks))) \<and>
     ((\<exists>t. UTF32Encoding_GetString u (Some d) index count = Inr t) \<longleftrightarrow>
        (\<exists>ks. list_all is_scalar ks \<and> selected d index count = UTF32Encoding_GetBytes u (text_of ks)))"
  by (intro conjI strict_utf8 strict_ascii strict_utf16 strict_utf32 assms)

theorem strict_decoding_witness:
  "\<nexists>t. UTF8Encoding_GetString (UTF8Encoding_ctor\<lparr>enc_decoderFallback := DecoderExceptionFallback\<rparr>) (Some [0x41, 0xFF]) 0 2 = Inr t"
proof -
  have "\<not> utf8_text [0x41, 0xFF]" using invalid_loop_spec [of "[0x41, 0xFF]" 0] by (auto simp: invalid_loop.simps split: if_splits)
  with strict_decoding [of "[0x41, 0xFF]" 0 2 "UTF8Encoding_ctor\<lparr>enc_decoderFallback := DecoderExceptionFallback\<rparr>"
      "Encoding_Unicode\<lparr>enc_decoderFallback := DecoderExceptionFallback\<rparr>"]
  show ?thesis by (simp add: range_ok_def selected_def)
qed

text \<open>
  What \<^verbatim>\<open>UTF8Encoding::GetBytes\<close> makes of a string: the encoding of each scalar value that stands in it; a byte at
  which none stands is replaced, or reported with its index.
\<close>

function utf8_checked :: "EncoderFallback \<Rightarrow> nat \<Rightarrow> bytecs list \<Rightarrow> bytecs list res" where
  "utf8_checked f i bs =
     (if bs = [] then Inr []
      else case rfc bs of
        Some (k, len) \<Rightarrow> map_sum id (\<lambda>t. utf8 k @ t) (utf8_checked f (i + len) (drop len bs))
      | None \<Rightarrow>
          (case f of
             EncoderReplacementFallback r \<Rightarrow> map_sum id (\<lambda>t. r @ t) (utf8_checked f (Suc i) (tl bs))
           | EncoderExceptionFallback \<Rightarrow> Inl (EncoderFallbackException (scast (hd bs)) (int i))))"
  by pat_completeness auto
termination by (relation "measure (\<lambda>(f, i, bs). length bs)") (auto dest: rfc_length)

declare utf8_checked.simps [simp del]

lemma wellFormedUtf8Length_rfc:
  assumes "i < length s"
  shows "wellFormedUtf8Length s i (length s) = (case rfc (drop i s) of None \<Rightarrow> 0 | Some (k, len) \<Rightarrow> len)"
  using TryDecodeUtf8Scalar_rfc [OF assms order_refl] by (auto simp: wellFormedUtf8Length_def split: sum.split)

lemma map_append_res: "map_sum id (\<lambda>t. out @ t) (map_sum id (\<lambda>t. r @ t) x) = map_sum id ((@) (out @ r)) x"
  by (cases x) simp_all

lemma UTF8Encoding_GetBytes_checked:
  "UTF8Encoding_GetBytes_loop f s i out = map_sum id (\<lambda>t. out @ t) (utf8_checked f i (drop i s))"
proof (induction "length s - i" arbitrary: i out rule: less_induct)
  case less
  show ?case
  proof (cases "i < length s")
    case False
    then show ?thesis by (simp add: UTF8Encoding_GetBytes_loop.simps [of f s i] utf8_checked.simps)
  next
    case True
    then have "length s - (i + Suc n) < length s - i" for n by simp
    note IH = less [OF this]
    note unfold = UTF8Encoding_GetBytes_loop.simps [of f s i out] utf8_checked.simps [of f i "drop i s"]
      wellFormedUtf8Length_rfc [OF True] encoder_queue
    show ?thesis
    proof (cases "rfc (drop i s)")
      case None
      with True IH [of 0] show ?thesis
        by (auto simp: unfold map_append_res drop_Suc tl_drop hd_drop_conv_nth split: EncoderFallback.split)
    next
      case (Some x)
      obtain k len where x: "x = (k, len)" by (cases x)
      from Some x have l: "0 < len" "take len (drop i s) = utf8 k"
        using rfc_length [of "drop i s" k len] rfc_sound [of "drop i s" k len] by (auto simp: starts_with_def)
      with True Some x IH [of "len - 1"] show ?thesis
        by (simp add: unfold map_append_res add.commute)
    qed
  qed
qed

text \<open>
  C21. What \<^verbatim>\<open>GetBytes\<close> writes, for any bytes as the string. The UTF-16 and UTF-32 encodings read the code points of
  the string, with U+FFFD for each byte at which no scalar value is encoded, and write for each its units
  in the configured byte order: all indexed writes stay inside the buffer of fixed size, since the output has
  at most two (four) bytes for each byte of input. ASCII and Latin-1 write one byte for each code point of
  their repertoire and call the encoder fallback once for any other, a supplementary one included. UTF-8 copies
  well-formed input; otherwise it copies the scalar values and hands each byte at which none stands to the fallback,
  which replaces it or throws with the index of the first.
\<close>

theorem encoded_bytes:
  "UnicodeEncoding_GetBytes u s = concat (map (\<lambda>cp. enc16 (ue_bigEndian u) (unat cp)) (codes s)) \<and>
   length (UnicodeEncoding_GetBytes u s) \<le> 2 * length s \<and>
   UTF32Encoding_GetBytes u s = concat (map (\<lambda>cp. enc32 (ue_bigEndian u) (unat cp)) (codes s)) \<and>
   length (UTF32Encoding_GetBytes u s) \<le> 4 * length s \<and>
   ASCIIEncoding_GetBytes e s = single_bytes (enc_encoderFallback e) (\<lambda>cp. cp \<le> 127) (codes s) \<and>
   Latin1Encoding_GetBytes e s = single_bytes (enc_encoderFallback e) (\<lambda>cp. cp \<le> 0xFF) (codes s) \<and>
   UTF8Encoding_GetBytes e s = utf8_checked (enc_encoderFallback e) 0 s \<and>
   (utf8_text s \<longrightarrow> UTF8Encoding_GetBytes e s = Inr s)"
proof (intro conjI)
  show "length (UnicodeEncoding_GetBytes u s) \<le> 2 * length s"
    unfolding UnicodeEncoding_GetBytes_codes by (rule codes_length) (simp_all add: length_enc16 length_utf8)
  show "length (UTF32Encoding_GetBytes u s) \<le> 4 * length s"
    unfolding UTF32Encoding_GetBytes_codes by (rule codes_length) (simp_all add: Suc_le_eq)
  show "UTF8Encoding_GetBytes e s = utf8_checked (enc_encoderFallback e) 0 s"
    by (simp add: UTF8Encoding_GetBytes_def UTF8Encoding_GetBytes_checked sum.map_ident id_def)
  show "utf8_text s \<longrightarrow> UTF8Encoding_GetBytes e s = Inr s"
    by (auto simp: utf8_text_def UTF8_GetBytes_text)
qed (rule UnicodeEncoding_GetBytes_codes UTF32Encoding_GetBytes_codes single_byte_encoders)+

theorem encoded_bytes_witness:
  "UTF8Encoding_GetBytes Encoding_UTF8 [0x41, 0xF0, 0x9F, 0x98, 0x80] = Inr [0x41, 0xF0, 0x9F, 0x98, 0x80] \<and>
   ASCIIEncoding_GetBytes Encoding_ASCII [0x41, 0xF0, 0x9F, 0x98, 0x80] = Inr [0x41, 0x3F]"
proof -
  let ?s = "[0x41, 0xF0, 0x9F, 0x98, 0x80] :: bytecs list" and ?ks = "[0x41, 0x1F600]"
  have t: "?s = text_of ?ks" and k: "list_all is_scalar ?ks" by (simp_all add: utf8_def is_scalar_def)
  then have "utf8_text ?s" unfolding utf8_text_def by blast
  then have u: "UTF8Encoding_GetBytes Encoding_UTF8 ?s = Inr ?s"
    using encoded_bytes [of Encoding_Unicode ?s Encoding_UTF8] by (elim conjE) (erule mp)
  have "ASCIIEncoding_GetBytes Encoding_ASCII ?s = single_bytes (enc_encoderFallback Encoding_ASCII) (\<lambda>cp. cp \<le> 127) (codes ?s)"
    using encoded_bytes [of Encoding_Unicode ?s Encoding_ASCII] by (elim conjE)
  also have "codes ?s = [0x41, 0x1F600]" unfolding t codes_text [OF k] by simp
  finally show ?thesis using u
    by (simp add: single_bytes_def Encoding_ASCII_def markReadOnly_def Encoding_base_def)
qed

text \<open>
  The factory instances are shared and read-only: both setters throw on them, before they look at the
  value. An instance a caller constructed rejects null and takes any other fallback.
\<close>

lemma fallback_setters:
  "enc_isReadOnly e \<Longrightarrow> setDecoderFallbackProperty e v = Inl (InvalidOperationException ''Instance is read-only.'')"
  "enc_isReadOnly e \<Longrightarrow> setEncoderFallbackProperty e w = Inl (InvalidOperationException ''Instance is read-only.'')"
  "enc_isReadOnly Encoding_UTF8" "enc_isReadOnly Encoding_ASCII" "enc_isReadOnly Encoding_Latin1" "enc_isReadOnly Encoding_Unicode"
  "enc_isReadOnly Encoding_BigEndianUnicode" "enc_isReadOnly Encoding_UTF32"
  by (simp_all add: setDecoderFallbackProperty_def setEncoderFallbackProperty_def throwIfReadOnly_def Encoding_UTF8_def
      Encoding_ASCII_def Encoding_Latin1_def Encoding_Unicode_def Encoding_BigEndianUnicode_def Encoding_UTF32_def markReadOnly_def)

text \<open>
  The two converters from UTF-8 to UTF-16 disagree on a truncated sequence: the encoding replaces each of
  its bytes, \<^verbatim>\<open>Unicode::Utf8::ToUtf16\<close> the sequence as a whole.
\<close>

lemma truncated_sequence_disagreement:
  "UnicodeEncoding_GetBytes (UnicodeEncoding_ctor False False) [0xE2, 0x82] = [0xFD, 0xFF, 0xFD, 0xFF]"
  "ToUtf16 [0xE2, 0x82] [0, 0] True True = (Done, 2, 1, [0xFFFD, 0])"
  by code_simp+

text \<open>
  An ill-formed byte reaches the encoder fallback as a negative \<^verbatim>\<open>char\<close>, so the reported scalar is not a
  code point.
\<close>

lemma encoder_exception_sign_extended:
  "UTF8Encoding_GetBytes (UTF8Encoding_ctor\<lparr>enc_encoderFallback := EncoderExceptionFallback\<rparr>) [0x41, 0x80] =
   Inl (EncoderFallbackException 0xFFFFFF80 1)"
  by code_simp

end
