(* ===== verification/Text_Utf7.thy ===== *)
theory Text_Utf7
  imports Text_Encodings_Spec
begin

unbundle bit_operations_syntax

text \<open>
  \<^verbatim>\<open>System/Text/UTF7Encoding.hpp\<close>: the encoder and decoder of RFC 2152 UTF-7, with the bit buffers that
  regroup sixteen-bit units into base-64 digits and back. \<open>rest\<close> is always the input from the current
  offset on.
\<close>

section \<open>Model\<close>

definition utf7_alphabet :: "bytecs list" where
  "utf7_alphabet =
     map of_char ''ABCDEFGHIJKLMNOPQRSTUVWXYZabcdefghijklmnopqrstuvwxyz0123456789+/''"

definition isDirect :: "bool \<Rightarrow> uintcs \<Rightarrow> bool" where
  "isDirect allowOptionals codePoint =
     (if codePoint > 0x7F \<or> codePoint = 0x2B then False
      else if 0x41 \<le> codePoint \<and> codePoint \<le> 0x5A \<or> 0x61 \<le> codePoint \<and> codePoint \<le> 0x7A \<or>
              0x30 \<le> codePoint \<and> codePoint \<le> 0x39 then True
      else if codePoint \<in> {0x27, 0x28, 0x29, 0x2C, 0x2D, 0x2E, 0x2F, 0x3A, 0x3F, 0x20, 0x09, 0x0D, 0x0A} then True
      else if \<not> allowOptionals then False
      else codePoint \<in> {0x21, 0x22, 0x23, 0x24, 0x25, 0x26, 0x2A, 0x3B, 0x3C, 0x3D, 0x3E, 0x40, 0x5B, 0x5D, 0x5E, 0x5F,
                         0x60, 0x7B, 0x7C, 0x7D})"

definition utf7_keep :: "uintcs \<Rightarrow> nat \<Rightarrow> uintcs" where
  "utf7_keep buffer bitCount = (if bitCount = 0 then 0 else buffer AND (push_bit bitCount 1 - 1))"

text \<open>\<^verbatim>\<open>while (bitCount >= 6)\<close> of \<^verbatim>\<open>appendShifted\<close>.\<close>

function utf7_emit :: "uintcs \<Rightarrow> nat \<Rightarrow> bytecs list \<Rightarrow> uintcs \<times> nat \<times> bytecs list" where
  "utf7_emit buffer bitCount output =
     (if bitCount \<ge> 6
      then utf7_emit (utf7_keep buffer (bitCount - 6)) (bitCount - 6)
             (output @ [utf7_alphabet ! unat (drop_bit (bitCount - 6) buffer AND 0x3F)])
      else (buffer, bitCount, output))"
  by pat_completeness auto
termination by (relation "measure (\<lambda>(b, n, out). n)") auto

declare utf7_emit.simps [simp del]

definition utf7_byte :: "bytecs \<Rightarrow> uintcs \<times> nat \<times> bytecs list \<Rightarrow> uintcs \<times> nat \<times> bytecs list" where
  "utf7_byte byte st = (case st of (buffer, bitCount, output) \<Rightarrow> utf7_emit (push_bit 8 buffer OR ucast byte) (bitCount + 8) output)"

definition appendShifted :: "bytecs list \<Rightarrow> char16 list \<Rightarrow> bool \<Rightarrow> bytecs list" where
  "appendShifted output codeUnits appendTerminator =
     (let (buffer, bitCount, out) =
            fold (\<lambda>codeUnit st. utf7_byte (ucast codeUnit) (utf7_byte (ucast (drop_bit 8 codeUnit)) st)) codeUnits (0, 0, output @ [0x2B]);
          out = (if bitCount \<noteq> 0 then out @ [utf7_alphabet ! unat (push_bit (6 - bitCount) buffer AND 0x3F)] else out)
      in if appendTerminator then out @ [0x2D] else out)"

definition appendCodePointAsUtf16 :: "uintcs \<Rightarrow> char16 list \<Rightarrow> char16 list" where
  "appendCodePointAsUtf16 codePoint output =
     (if codePoint < 0x10000 then output @ [ucast codePoint]
      else let adjusted = codePoint - 0x10000
           in output @ [ucast (0xD800 + drop_bit 10 adjusted), ucast (0xDC00 + (adjusted AND 0x3FF))])"

text \<open>\<open>None\<close> is \<open>- 1\<close>.\<close>

definition base64Value :: "bytecs \<Rightarrow> nat option" where
  "base64Value character =
     (if 0x41 \<le> character \<and> character \<le> 0x5A then Some (unat character - 0x41)
      else if 0x61 \<le> character \<and> character \<le> 0x7A then Some (unat character - 0x61 + 26)
      else if 0x30 \<le> character \<and> character \<le> 0x39 then Some (unat character - 0x30 + 52)
      else if character = 0x2B then Some 62
      else if character = 0x2F then Some 63
      else None)"

definition flushShifted :: "bytecs list \<Rightarrow> char16 list \<Rightarrow> bool \<Rightarrow> bytecs list \<times> char16 list" where
  "flushShifted output shifted appendTerminator =
     (if shifted \<noteq> [] then (appendShifted output shifted appendTerminator, []) else (output, shifted))"

lemma TryGetRuneAt_progress:
  "index < length value \<Longrightarrow> \<exists>r n. Rune_TryGetRuneAt value index = Inr (r, n) \<and> 0 < n"
proof -
  assume i: "index < length value"
  show ?thesis
  proof (cases "TryDecodeUtf8Scalar value (length value) index")
    case (Inl len)
    then show ?thesis using TryDecode_fail_length [OF Inl i] i by (auto simp: Rune_TryGetRuneAt_def)
  next
    case (Inr p)
    obtain cp len where p: "p = (cp, len)" by fastforce
    then have r: "rfc (drop index value) = Some (unat cp, len)" using TryDecodeUtf8Scalar_rfc [OF i order_refl] Inr by simp
    have "Rune_ctor cp = Inr cp"
      using rfc_length [OF r] by (auto simp: Rune_ctor_def Rune_IsValid_def is_scalar_def isSurrogate_unat word_le_nat_alt)
    then show ?thesis using i Inr p rfc_length [OF r] by (simp add: Rune_TryGetRuneAt_def)
  qed
qed

text \<open>The loop of \<^verbatim>\<open>GetBytes\<close>. \<^verbatim>\<open>TryGetRuneAt\<close> could only throw for a rune its decoder never returns.\<close>

function UTF7Encoding_GetBytes_loop :: "bool \<Rightarrow> bytecs list \<Rightarrow> nat \<Rightarrow> bytecs list \<Rightarrow> char16 list \<Rightarrow> bytecs list res" where
  "UTF7Encoding_GetBytes_loop allowOptionals value index output shifted =
     (if index < length value then
        case Rune_TryGetRuneAt value index of
          Inl e \<Rightarrow> Inl e
        | Inr (rune, consumed) \<Rightarrow>
            let codePoint = (case rune of Some r \<Rightarrow> r | None \<Rightarrow> 0xFFFD)
            in if consumed = 0 then Inr (fst (flushShifted output shifted True))
               else if codePoint = 0x2B then
                 let (output', shifted') = flushShifted output shifted True
                 in UTF7Encoding_GetBytes_loop allowOptionals value (index + consumed) (output' @ [0x2B, 0x2D]) shifted'
               else if isDirect allowOptionals codePoint then
                 let (output', shifted') = flushShifted output shifted (codePoint = 0x2D \<or> base64Value (ucast codePoint) \<noteq> None)
                 in UTF7Encoding_GetBytes_loop allowOptionals value (index + consumed) (output' @ [ucast codePoint]) shifted'
               else UTF7Encoding_GetBytes_loop allowOptionals value (index + consumed) output (appendCodePointAsUtf16 codePoint shifted)
      else Inr (fst (flushShifted output shifted True)))"
  by pat_completeness auto
termination by (relation "measure (\<lambda>(a, value, index, out, sh). length value - index)") auto

declare UTF7Encoding_GetBytes_loop.simps [simp del]

definition UTF7Encoding_GetBytes :: "bool \<Rightarrow> bytecs list \<Rightarrow> bytecs list res" where
  "UTF7Encoding_GetBytes allowOptionals value = UTF7Encoding_GetBytes_loop allowOptionals value 0 [] []"

definition appendReplacement :: "bytecs list \<Rightarrow> bytecs list" where
  "appendReplacement output = AppendUtf8Scalar output 0xFFFD"

text \<open>The bytes come in pairs; a trailing single byte is never passed.\<close>

definition utf16be_unit :: "bytecs \<Rightarrow> bytecs \<Rightarrow> char16" where
  "utf16be_unit b0 b1 = push_bit 8 (ucast b0) OR ucast b1"

fun appendUtf16Be :: "bytecs list \<Rightarrow> bytecs list \<Rightarrow> bytecs list" where
  "appendUtf16Be (b0 # b1 # bytes) output =
     (let unit = utf16be_unit b0 b1
      in if 0xD800 \<le> unit \<and> unit \<le> 0xDBFF then
           (case bytes of
              b2 # b3 # bytes' \<Rightarrow>
                let low = utf16be_unit b2 b3
                in if 0xDC00 \<le> low \<and> low \<le> 0xDFFF
                   then appendUtf16Be bytes' (AppendUtf8Scalar output (0x10000 + (push_bit 10 (ucast (unit - 0xD800)) OR ucast (low - 0xDC00))))
                   else appendUtf16Be bytes (appendReplacement output)
            | _ \<Rightarrow> appendUtf16Be bytes (appendReplacement output))
         else if 0xDC00 \<le> unit \<and> unit \<le> 0xDFFF then appendUtf16Be bytes (appendReplacement output)
         else appendUtf16Be bytes (AppendUtf8Scalar output (ucast unit)))"
| "appendUtf16Be _ output = output"

text \<open>\<^verbatim>\<open>while (bitCount >= 8)\<close> of the decoder.\<close>

function utf7_absorb :: "uintcs \<Rightarrow> nat \<Rightarrow> bytecs list \<Rightarrow> uintcs \<times> nat \<times> bytecs list" where
  "utf7_absorb buffer bitCount bytes =
     (if bitCount \<ge> 8
      then utf7_absorb (utf7_keep buffer (bitCount - 8)) (bitCount - 8) (bytes @ [ucast (drop_bit (bitCount - 8) buffer)])
      else (buffer, bitCount, bytes))"
  by pat_completeness auto
termination by (relation "measure (\<lambda>(b, n, out). n)") auto

declare utf7_absorb.simps [simp del]

text \<open>The digits of a shifted run: the result is the rest behind them, whether there was one, and the buffer.\<close>

fun utf7_run :: "bytecs list \<Rightarrow> bool \<Rightarrow> uintcs \<times> nat \<times> bytecs list \<Rightarrow> bytecs list \<times> bool \<times> uintcs \<times> nat \<times> bytecs list" where
  "utf7_run [] sawBase64 st = ([], sawBase64, st)"
| "utf7_run (c # rest) sawBase64 (buffer, bitCount, bytes) =
     (case base64Value c of
        None \<Rightarrow> (c # rest, sawBase64, buffer, bitCount, bytes)
      | Some v \<Rightarrow> utf7_run rest True (utf7_absorb (push_bit 6 buffer OR of_nat v) (bitCount + 6) bytes))"

lemma utf7_run_rest: "utf7_run rest saw st = (rest', r) \<Longrightarrow> length rest' \<le> length rest"
  by (induction rest saw st rule: utf7_run.induct) (auto split: option.splits)

function UTF7Encoding_GetString_loop :: "bytecs list \<Rightarrow> bytecs list \<Rightarrow> bytecs list" where
  "UTF7Encoding_GetString_loop [] output = output"
| "UTF7Encoding_GetString_loop (character # rest) output =
     (if character \<noteq> 0x2B then
        UTF7Encoding_GetString_loop rest (if character < 0x80 then output @ [character] else appendReplacement output)
      else if rest \<noteq> [] \<and> hd rest = 0x2D then UTF7Encoding_GetString_loop (tl rest) (output @ [0x2B])
      else
        case utf7_run rest False (0, 0, []) of
          (rest', sawBase64, buffer, bitCount, bytes) \<Rightarrow>
            UTF7Encoding_GetString_loop (if rest' \<noteq> [] \<and> hd rest' = 0x2D then tl rest' else rest')
              (if \<not> sawBase64 \<or> bytes = [] \<or> bitCount \<noteq> 0 \<and> buffer \<noteq> 0 \<or> odd (length bytes)
               then appendReplacement output else appendUtf16Be bytes output))"
  by pat_completeness auto
termination
  by (relation "measure (\<lambda>(rest, out). length rest)")
    (auto simp: less_Suc_eq_le dest!: utf7_run_rest [OF sym] intro: le_trans [OF diff_le_self])

definition UTF7Encoding_GetString :: "buffer \<Rightarrow> intcs \<Rightarrow> intcs \<Rightarrow> bytecs list res" where
  "UTF7Encoding_GetString data index count =
     bind_res (validateRawDecodeRange data index count)
       (\<lambda>any. if \<not> any then Inr []
              else Inr (UTF7Encoding_GetString_loop (take (nat count) (drop (nat index) (pointee data))) []))"

section \<open>Bit buffers\<close>

text \<open>The number a list of digits denotes.\<close>

definition place :: "nat \<Rightarrow> nat list \<Rightarrow> nat" where
  "place B ds = foldl (\<lambda>a d. a * B + d) 0 ds"

lemma place_snoc [simp]: "place B (ds @ [d]) = place B ds * B + d"
  by (simp add: place_def)

lemma place_Nil [simp]: "place B [] = 0"
  by (simp add: place_def)

lemma place_Cons: "place B (d # ds) = d * B ^ length ds + place B ds"
  by (induction ds rule: rev_induct) (simp_all add: place_def algebra_simps)

lemma place_inject:
  "length xs = length ys \<Longrightarrow> list_all (\<lambda>x. x < B) xs \<Longrightarrow> list_all (\<lambda>y. y < B) ys \<Longrightarrow> place B xs = place B ys \<Longrightarrow> xs = ys"
proof (induction xs arbitrary: ys rule: rev_induct)
  case (snoc x xs)
  then obtain y zs where ys: "ys = zs @ [y]" by (cases ys rule: rev_cases) auto
  have "(place B xs * B + x) mod B = (place B zs * B + y) mod B" "(place B xs * B + x) div B = (place B zs * B + y) div B"
    using snoc.prems(4) by (simp_all add: ys)
  then have "x = y" "place B xs = place B zs" using snoc.prems(2,3) by (auto simp: ys)
  with snoc show ?case by (simp add: ys)
qed simp

lemma utf7_keep_mod: "unat buffer < 2 ^ 32 \<Longrightarrow> n < 32 \<Longrightarrow> unat (utf7_keep buffer n) = unat buffer mod 2 ^ n"
proof -
  assume n: "n < 32"
  have "push_bit n 1 - 1 = (mask n :: uintcs)" by (simp add: mask_eq_exp_minus_1 push_bit_eq_mult)
  then have "buffer AND (push_bit n 1 - 1) = take_bit n buffer" by (simp add: take_bit_eq_mask)
  moreover have "unat (take_bit n buffer) = unat buffer mod 2 ^ n"
    by (simp only: unsigned_take_bit_eq) (simp add: take_bit_eq_mod)
  ultimately show ?thesis by (simp add: utf7_keep_def)
qed

text \<open>
  A buffer that takes bits in and gives digits of \<open>width\<close> bits out. \<open>regrouped\<close>: the digits in \<open>out\<close>
  behind \<open>pre\<close> and the \<open>n\<close> bits still in the buffer denote the number \<open>N\<close> of \<open>L\<close> bits.
\<close>

locale bit_buffer =
  fixes width :: nat
    and drain :: "uintcs \<Rightarrow> nat \<Rightarrow> bytecs list \<Rightarrow> uintcs \<times> nat \<times> bytecs list"
    and digit :: "uintcs \<Rightarrow> bytecs"
    and val :: "bytecs \<Rightarrow> nat"
    and ok :: "bytecs \<Rightarrow> bool"
  assumes drain_eq: "drain buf n out =
     (if n \<ge> width then drain (utf7_keep buf (n - width)) (n - width) (out @ [digit (drop_bit (n - width) buf)]) else (buf, n, out))"
    and width: "0 < width" "width \<le> 8"
    and digit_val: "unat w < 2 ^ width \<Longrightarrow> ok (digit w) \<and> val (digit w) = unat w"
begin

definition regrouped :: "bytecs list \<Rightarrow> nat \<Rightarrow> nat \<Rightarrow> uintcs \<times> nat \<times> bytecs list \<Rightarrow> bool" where
  "regrouped pre N L st \<longleftrightarrow>
     (case st of (buf, n, out) \<Rightarrow>
        n < width \<and> unat buf < 2 ^ n \<and>
        (\<exists>ds. out = pre @ ds \<and> list_all ok ds \<and> place (2 ^ width) (map val ds) * 2 ^ n + unat buf = N \<and> length ds * width + n = L))"

lemma drain_regroups:
  "n < 32 \<Longrightarrow> unat buf < 2 ^ n \<Longrightarrow> list_all ok ds \<Longrightarrow>
   place (2 ^ width) (map val ds) * 2 ^ n + unat buf = N \<Longrightarrow> length ds * width + n = L \<Longrightarrow>
   regrouped pre N L (drain buf n (pre @ ds))"
proof (induction n arbitrary: buf ds rule: less_induct)
  case (less n)
  show ?case
  proof (cases "n \<ge> width")
    case False
    then show ?thesis using less.prems by (auto simp: drain_eq [of buf n] regrouped_def)
  next
    case True
    let ?m = "n - width" and ?d = "digit (drop_bit (n - width) buf)"
    have n: "2 ^ n = (2 :: nat) ^ width * 2 ^ ?m" using True by (simp add: power_add [symmetric])
    have v: "unat (drop_bit ?m buf) = unat buf div 2 ^ ?m" by (rule unat_drop_bit)
    have "unat buf div 2 ^ ?m < 2 ^ width"
      using less.prems(2) by (intro less_mult_imp_div_less) (simp add: n)
    then have d: "ok ?d" "val ?d = unat buf div 2 ^ ?m" using digit_val [of "drop_bit ?m buf"] v by simp_all
    have k: "unat (utf7_keep buf ?m) = unat buf mod 2 ^ ?m"
      using unsigned_less [of buf, where ?'a = nat] less.prems(1) by (intro utf7_keep_mod) simp_all
    have "place (2 ^ width) (map val (ds @ [?d])) * 2 ^ ?m + unat (utf7_keep buf ?m) = N"
      using less.prems(4) div_mult_mod_eq [of "unat buf" "2 ^ ?m"] by (simp add: d(2) k n algebra_simps)
    moreover have "length (ds @ [?d]) * width + ?m = L" using less.prems(5) True by simp
    ultimately have "regrouped pre N L (drain (utf7_keep buf ?m) ?m (pre @ ds @ [?d]))"
      using less.prems True width d(1) k by (intro less.IH) simp_all
    then show ?thesis using True by (simp add: drain_eq [of buf n])
  qed
qed

lemma feed:
  assumes "regrouped pre N L (buf, n, out)" and "x < 2 ^ a" and "a \<le> 8"
  shows "regrouped pre (N * 2 ^ a + x) (L + a) (drain (push_bit a buf OR of_nat x) (n + a) out)"
proof -
  obtain ds where ds: "out = pre @ ds" "list_all ok ds" "place (2 ^ width) (map val ds) * 2 ^ n + unat buf = N"
    "length ds * width + n = L" and n: "n < width" "unat buf < 2 ^ n" using assms(1) by (auto simp: regrouped_def)
  have a: "(2 :: nat) ^ a \<le> 2 ^ 8" and w: "(2 :: nat) ^ n \<le> 2 ^ 8"
    using assms(3) n(1) width by (intro power_increasing; simp)+
  have "x < 2 ^ 8" by (rule less_le_trans [OF assms(2) a])
  then have x: "unat (of_nat x :: uintcs) = x" by (simp add: unat_of_nat)
  have "unat buf < 2 ^ 8" by (rule less_le_trans [OF n(2) w])
  then have "unat buf * 2 ^ a < 2 ^ 8 * 2 ^ 8" using a by (intro mult_less_le_imp_less) simp_all
  then have u: "unat (push_bit a buf OR of_nat x) = unat buf * 2 ^ a + x"
    using unat_shift_or [of "of_nat x" a buf] x assms(2) by simp
  have "unat buf * 2 ^ a + x < 2 ^ (n + a)"
  proof -
    have "unat buf * 2 ^ a + x < (unat buf + 1) * 2 ^ a" using assms(2) by simp
    also have "\<dots> \<le> 2 ^ n * 2 ^ a" using n(2) by (intro mult_le_mono1) simp
    finally show ?thesis by (simp add: power_add)
  qed
  then show ?thesis unfolding ds(1)
    using n width assms(3) ds(2-4) u by (intro drain_regroups) (auto simp: power_add algebra_simps)
qed

lemma start: "regrouped pre 0 0 (0, 0, pre)"
  using width by (simp add: regrouped_def)

end

lemma utf7_alphabet_value: "i < 64 \<Longrightarrow> base64Value (utf7_alphabet ! i) = Some i"
proof -
  assume "i < 64"
  moreover have "\<forall>i < 64. base64Value (utf7_alphabet ! i) = Some i" unfolding all_less_upt by code_simp
  ultimately show ?thesis by blast
qed

lemma and_63: "unat (w AND 0x3F :: uintcs) = unat w mod 64"
  by (rule unat_low6)

definition b64 :: "bytecs \<Rightarrow> nat" where
  "b64 c = the (base64Value c)"

definition b64_digit :: "bytecs \<Rightarrow> bool" where
  "b64_digit c \<longleftrightarrow> (\<exists>v < 64. base64Value c = Some v)"

interpretation emit6: bit_buffer 6 utf7_emit "\<lambda>w. utf7_alphabet ! unat (w AND 0x3F)" b64 b64_digit
proof (unfold_locales, goal_cases)
  case (1 buf n out)
  show ?case by (rule utf7_emit.simps)
next
  case (4 w)
  then show ?case by (simp add: and_63 utf7_alphabet_value b64_def b64_digit_def)
qed simp_all

interpretation absorb8: bit_buffer 8 utf7_absorb ucast unat "\<lambda>_. True"
proof (unfold_locales, goal_cases)
  case (1 buf n out)
  show ?case by (rule utf7_absorb.simps)
next
  case (4 w)
  then show ?case by (simp add: ucast_byte_of)
qed simp_all

section \<open>Shifted runs\<close>

abbreviation unit_be :: "char16 \<Rightarrow> bytecs list" where
  "unit_be u \<equiv> [ucast (drop_bit 8 u), ucast u]"

lemma fold_units:
  "fold (\<lambda>u st. utf7_byte (ucast u) (utf7_byte (ucast (drop_bit 8 u)) st)) us st = fold utf7_byte (concat (map unit_be us)) st"
  by (induction us arbitrary: st) simp_all

lemma fold_bytes:
  "emit6.regrouped pre N L st \<Longrightarrow>
   emit6.regrouped pre (N * 256 ^ length bs + place 256 (map unat bs)) (L + 8 * length bs) (fold utf7_byte bs st)"
proof (induction bs rule: rev_induct)
  case (snoc b bs)
  obtain buf n out where st: "fold utf7_byte bs st = (buf, n, out)" by (cases "fold utf7_byte bs st") auto
  have "unat b < 2 ^ 8" using unat_byte_less [of b] by simp
  from emit6.feed [OF snoc.IH [OF snoc.prems, unfolded st] this] have
    "emit6.regrouped pre (N * 256 ^ length (bs @ [b]) + place 256 (map unat (bs @ [b]))) (L + 8 * length (bs @ [b]))
       (utf7_emit (push_bit 8 buf OR ucast b) (n + 8) out)"
    by (simp add: algebra_simps)
  moreover have "fold utf7_byte (bs @ [b]) st = utf7_emit (push_bit 8 buf OR ucast b) (n + 8) out"
    by (simp add: st) (simp add: utf7_byte_def)
  ultimately show ?case by simp
qed simp

lemma last_digit:
  fixes buf :: uintcs
  assumes "unat buf < 2 ^ n" and "0 < n" and "n < 6"
  shows "b64_digit (utf7_alphabet ! unat (push_bit (6 - n) buf AND 0x3F))"
    and "b64 (utf7_alphabet ! unat (push_bit (6 - n) buf AND 0x3F)) = unat buf * 2 ^ (6 - n)"
proof -
  have lt: "unat buf * 2 ^ (6 - n) < 64"
  proof -
    have "unat buf * 2 ^ (6 - n) < 2 ^ n * 2 ^ (6 - n)" using assms(1) by simp
    also have "\<dots> = 2 ^ 6" using assms(3) by (simp add: power_add [symmetric])
    finally show ?thesis by simp
  qed
  then have "unat (push_bit (6 - n) buf AND 0x3F) = unat buf * 2 ^ (6 - n)"
    using unat_shift [of buf "6 - n"] by (simp add: and_63)
  with lt show "b64_digit (utf7_alphabet ! unat (push_bit (6 - n) buf AND 0x3F))"
    "b64 (utf7_alphabet ! unat (push_bit (6 - n) buf AND 0x3F)) = unat buf * 2 ^ (6 - n)"
    by (simp_all add: b64_def b64_digit_def utf7_alphabet_value)
qed

lemma appendShifted_digits:
  "\<exists>ds p. appendShifted output us t = output @ 0x2B # ds @ (if t then [0x2D] else []) \<and> list_all b64_digit ds \<and> p < 6 \<and>
     place 64 (map b64 ds) = place 256 (map unat (concat (map unit_be us))) * 2 ^ p \<and> length ds * 6 = 16 * length us + p"
proof -
  let ?bs = "concat (map unit_be us)"
  obtain buf n out where st: "fold utf7_byte ?bs (0, 0, output @ [0x2B]) = (buf, n, out)"
    by (cases "fold utf7_byte ?bs (0, 0, output @ [0x2B])") auto
  have len: "length ?bs = 2 * length us" by (induction us) simp_all
  have "emit6.regrouped (output @ [0x2B]) (place 256 (map unat ?bs)) (16 * length us) (buf, n, out)"
    using fold_bytes [OF emit6.start, of "output @ [0x2B]" ?bs] by (simp add: st len)
  then obtain ds where ds: "out = output @ 0x2B # ds" "list_all b64_digit ds" "n < 6" "unat buf < 2 ^ n"
    "place 64 (map b64 ds) * 2 ^ n + unat buf = place 256 (map unat ?bs)" "length ds * 6 + n = 16 * length us"
    by (auto simp: emit6.regrouped_def)
  show ?thesis
  proof (cases "n = 0")
    case True
    with ds st show ?thesis
      by (intro exI [of _ ds] exI [of _ 0]) (simp add: appendShifted_def fold_units)
  next
    case False
    let ?d = "utf7_alphabet ! unat (push_bit (6 - n) buf AND 0x3F)"
    have d: "b64_digit ?d" "b64 ?d = unat buf * 2 ^ (6 - n)" using last_digit [OF ds(4) _ ds(3)] False by simp_all
    have "(2 :: nat) ^ n * 2 ^ (6 - n) = 2 ^ 6" using ds(3) by (simp add: power_add [symmetric])
    then have "place 64 (map b64 (ds @ [?d])) = place 256 (map unat ?bs) * 2 ^ (6 - n)"
      by (simp add: d(2) ds(5) [symmetric] algebra_simps)
    with ds st d(1) False show ?thesis
      by (intro exI [of _ "ds @ [?d]"] exI [of _ "6 - n"]) (simp add: appendShifted_def fold_units)
  qed
qed

lemma utf7_run_digits:
  "list_all b64_digit ds \<Longrightarrow> rest = [] \<or> base64Value (hd rest) = None \<Longrightarrow> absorb8.regrouped [] N L st \<Longrightarrow>
   \<exists>st'. utf7_run (ds @ rest) saw st = (rest, saw \<or> ds \<noteq> [], st') \<and>
     absorb8.regrouped [] (N * 64 ^ length ds + place 64 (map b64 ds)) (L + 6 * length ds) st'"
proof (induction ds arbitrary: saw st N L)
  case Nil
  then show ?case by (cases rest; cases st) auto
next
  case (Cons d ds)
  obtain buf n out where st: "st = (buf, n, out)" by (cases st)
  obtain v where v: "v < 64" "base64Value d = Some v" "b64 d = v" using Cons.prems(1) by (auto simp: b64_digit_def b64_def)
  have "absorb8.regrouped [] (N * 2 ^ 6 + v) (L + 6) (utf7_absorb (push_bit 6 buf OR of_nat v) (n + 6) out)"
    using Cons.prems(3) v(1) by (intro absorb8.feed) (simp_all add: st)
  from Cons.IH [OF _ Cons.prems(2) this, of True] Cons.prems(1) obtain st' where
    r: "utf7_run (ds @ rest) True (utf7_absorb (push_bit 6 buf OR of_nat v) (n + 6) out) = (rest, True, st')"
      "absorb8.regrouped [] ((N * 64 + v) * 64 ^ length ds + place 64 (map b64 ds)) (L + 6 + 6 * length ds) st'"
    by auto
  have "(N * 64 + v) * 64 ^ length ds + place 64 (map b64 ds) = N * 64 ^ length (d # ds) + place 64 (map b64 (d # ds))"
    by (simp add: place_Cons v(3) algebra_simps)
  with r v show ?case by (intro exI [of _ st']) (simp add: st add.assoc)
qed

text \<open>The decoder reads back what \<^verbatim>\<open>appendShifted\<close> wrote.\<close>

lemma shifted_run:
  assumes "us \<noteq> []" and "rest = [] \<or> base64Value (hd rest) = None"
  shows "\<exists>ds n. appendShifted output us t = output @ 0x2B # ds @ (if t then [0x2D] else []) \<and> ds \<noteq> [] \<and> list_all b64_digit ds \<and>
    utf7_run (ds @ rest) False (0, 0, []) = (rest, True, 0, n, concat (map unit_be us))"
proof -
  let ?bs = "concat (map unit_be us)"
  obtain ds p where ds: "appendShifted output us t = output @ 0x2B # ds @ (if t then [0x2D] else [])" "list_all b64_digit ds" "p < 6"
    "place 64 (map b64 ds) = place 256 (map unat ?bs) * 2 ^ p" "length ds * 6 = 16 * length us + p"
    using appendShifted_digits by blast
  have ne: "ds \<noteq> []" using ds(5) assms(1) by auto
  from utf7_run_digits [OF ds(2) assms(2) absorb8.start, of False] obtain buf n bytes where
    r: "utf7_run (ds @ rest) False (0, 0, []) = (rest, True, buf, n, bytes)"
      "absorb8.regrouped [] (place 64 (map b64 ds)) (6 * length ds) (buf, n, bytes)"
    using ne by (auto simp: prod_eq_iff)
  have n: "n < 8" "unat buf < 2 ^ n" "place 256 (map unat bytes) * 2 ^ n + unat buf = place 256 (map unat ?bs) * 2 ^ p"
    "length bytes * 8 + n = 16 * length us + p" using r(2) ds(4,5) by (auto simp: absorb8.regrouped_def)
  have "length bytes = 2 * length us \<and> n = p" using n(1,4) ds(3) by presburger
  moreover have "length ?bs = 2 * length us" by (induction us) simp_all
  ultimately have len: "length bytes = length ?bs" "n = p" by simp_all
  have "unat buf = (place 256 (map unat bytes) * 2 ^ n + unat buf) mod 2 ^ n" using n(2) by simp
  also have "\<dots> = 0" unfolding n(3) by (simp add: len(2))
  finally have buf: "buf = 0" by (simp add: word_unat_eq_iff)
  then have "place 256 (map unat bytes) = place 256 (map unat ?bs)" using n(3) len(2) by simp
  then have "map unat bytes = map unat ?bs"
    using len(1) by (intro place_inject [where B = 256]) (simp_all add: list_all_iff)
  then have "bytes = ?bs" by (rule injD [OF inj_mapI, rotated]) (simp add: inj_def word_unat_eq_iff)
  with ds(1,2) ne r(1) buf show ?thesis by blast
qed

section \<open>The decoder on encoder output\<close>

abbreviation D7 :: "bytecs list \<Rightarrow> bytecs list \<Rightarrow> bytecs list" where
  "D7 \<equiv> UTF7Encoding_GetString_loop"

lemma utf16be_unit_bytes: "utf16be_unit (ucast (drop_bit 8 u)) (ucast u) = u"
proof (rule bit_word_eqI)
  fix k assume "k < LENGTH(16)"
  then have "k < 8 \<or> 8 \<le> k \<and> k < 16" by auto
  then show "bit (utf16be_unit (ucast (drop_bit 8 u)) (ucast u)) k = bit u k"
    by (auto simp: utf16be_unit_def bit_simps dest: no_high_bit)
qed

lemma appendUtf16Be_text:
  "list_all is_scalar ps \<Longrightarrow> appendUtf16Be (concat (map unit_be (concat (map utf16 ps)))) out = out @ text_of ps"
proof (induction ps arbitrary: out)
  case (Cons k ps)
  have k: "is_scalar k" and u: "unat (of_nat k :: uintcs) = k" using Cons.prems by (auto simp: is_scalar_def unat_of_nat)
  let ?r = "concat (map unit_be (concat (map utf16 ps)))"
  have un: "utf16_unit True (utf16 k @ []) = Some (Some (of_nat k), length (utf16 k))" by (rule utf16_unit_enc [OF k])
  have app: "AppendUtf8Scalar out (of_nat k) = out @ utf8 k" using AppendUtf8Scalar_scalar [of "of_nat k" out] k by (simp add: u)
  have "appendUtf16Be (concat (map unit_be (utf16 k)) @ ?r) out = appendUtf16Be ?r (out @ utf8 k)"
  proof (cases "k < 0x10000")
    case True
    let ?c = "of_nat k :: char16"
    have c: "utf16 k = [?c]" using True by (simp add: utf16_def)
    have "\<not> (0xD800 \<le> ?c \<and> ?c \<le> 0xDFFF)" "ucast ?c = (of_nat k :: uintcs)"
      using k True by (auto simp: word_le_nat_alt unat_of_nat is_scalar_def word_unat_eq_iff unat_ucast_char16)
    then have "\<not> (0xD800 \<le> ?c \<and> ?c \<le> 0xDBFF)" "\<not> (0xDC00 \<le> ?c \<and> ?c \<le> 0xDFFF)" "ucast ?c = (of_nat k :: uintcs)"
      by (auto simp: word_le_nat_alt)
    then show ?thesis by (auto simp: c utf16be_unit_bytes app Let_def)
  next
    case False
    then obtain a b where ab: "utf16 k = [a, b]" by (simp add: utf16_def)
    with un have "0xD800 \<le> a \<and> a \<le> 0xDBFF \<and> 0xDC00 \<le> b \<and> b \<le> 0xDFFF \<and>
        0x10000 + push_bit 10 (ucast a - 0xD800) + (ucast b - 0xDC00) = (of_nat k :: uintcs)"
      by (simp add: utf16_unit_def Let_def split: if_splits)
    then show ?thesis using pair_or [of a b] by (simp add: ab utf16be_unit_bytes app Let_def)
  qed
  then show ?case using Cons by simp
qed simp

lemma D7_direct: "c \<noteq> 0x2B \<Longrightarrow> c < 0x80 \<Longrightarrow> D7 (c # rest) out = D7 rest (out @ [c])"
  by simp

lemma D7_plus: "D7 (0x2B # 0x2D # rest) out = D7 rest (out @ [0x2B])"
  by simp

lemma D7_shifted:
  assumes "ps \<noteq> []" and "list_all is_scalar ps" and "rest = [] \<or> base64Value (hd rest) = None"
  shows "\<exists>ds. appendShifted output (concat (map utf16 ps)) t = output @ 0x2B # ds @ (if t then [0x2D] else []) \<and>
    D7 (0x2B # ds @ rest) out = D7 (if rest \<noteq> [] \<and> hd rest = 0x2D then tl rest else rest) (out @ text_of ps)"
proof -
  let ?us = "concat (map utf16 ps)"
  have "?us \<noteq> []" using assms(1) by (cases ps) auto
  from shifted_run [OF this assms(3)] obtain ds n where
    ds: "appendShifted output ?us t = output @ 0x2B # ds @ (if t then [0x2D] else [])" "ds \<noteq> []" "list_all b64_digit ds"
      "utf7_run (ds @ rest) False (0, 0, []) = (rest, True, 0, n, concat (map unit_be ?us))" by blast
  have "hd ds \<noteq> 0x2D" using ds(2,3) by (cases ds) (auto simp: b64_digit_def base64Value_def)
  moreover have "length (concat (map unit_be us)) = 2 * length us" for us by (induction us) simp_all
  then have "even (length (concat (map unit_be ?us)))" by (metis dvd_triv_left)
  moreover have "concat (map unit_be ?us) \<noteq> []" using \<open>?us \<noteq> []\<close> by (cases ?us) auto
  ultimately show ?thesis using ds(1,2,4) appendUtf16Be_text [OF assms(2), of out]
    by (intro exI [of _ ds]) simp
qed

section \<open>The encoder\<close>

lemma appendCodePointAsUtf16_utf16:
  "is_scalar k \<Longrightarrow> appendCodePointAsUtf16 (of_nat k) us = us @ utf16 k"
proof -
  assume k: "is_scalar k"
  then have u: "unat (of_nat k :: uintcs) = k" by (simp add: is_scalar_def unat_of_nat)
  have "appendCodePointAsUtf16 (of_nat k) us = us @ utf16_chars (of_nat k)"
    by (simp add: appendCodePointAsUtf16_def utf16_chars_def needed_chars_def Let_def)
  also have "utf16_chars (of_nat k) = utf16 k" using utf16_chars_utf16(1) [of "of_nat k"] k by (simp add: u)
  finally show ?thesis .
qed

text \<open>What the loop does for one code point, given the output and the pending code points \<open>ps\<close>.\<close>

definition utf7_step :: "bool \<Rightarrow> uintcs \<Rightarrow> bytecs list \<Rightarrow> char16 list \<Rightarrow> bytecs list \<times> char16 list" where
  "utf7_step opt cp output shifted =
     (if cp = 0x2B then (let (output', shifted') = flushShifted output shifted True in (output' @ [0x2B, 0x2D], shifted'))
      else if isDirect opt cp then
        (let (output', shifted') = flushShifted output shifted (cp = 0x2D \<or> base64Value (ucast cp) \<noteq> None)
         in (output' @ [ucast cp], shifted'))
      else (output, appendCodePointAsUtf16 cp shifted))"

lemma GetBytes7_step:
  assumes "is_scalar k"
  shows "UTF7Encoding_GetBytes_loop opt (pre @ utf8 k @ post) (length pre) output shifted =
    (case utf7_step opt (of_nat k) output shifted of
       (output', shifted') \<Rightarrow> UTF7Encoding_GetBytes_loop opt (pre @ utf8 k @ post) (length (pre @ utf8 k)) output' shifted')"
proof -
  let ?v = "pre @ utf8 k @ post" and ?i = "length pre"
  have i: "?i < length ?v" by simp
  have "rfc (drop ?i ?v) = Some (k, length (utf8 k))" using assms by simp
  then obtain cp where t: "TryDecodeUtf8Scalar ?v (length ?v) ?i = Inr (cp, length (utf8 k))" "unat cp = k"
    using TryDecodeUtf8Scalar_rfc [OF i order_refl] by (auto split: sum.splits)
  have cp: "cp = of_nat k" unfolding t(2) [symmetric] by simp
  have "Rune_ctor cp = Inr cp"
    using assms t(2) by (auto simp: Rune_ctor_def Rune_IsValid_def is_scalar_def isSurrogate_unat word_le_nat_alt)
  then have "Rune_TryGetRuneAt ?v ?i = Inr (Some (of_nat k), length (utf8 k))" using i t(1) by (simp add: Rune_TryGetRuneAt_def cp)
  then show ?thesis using i
    by (subst UTF7Encoding_GetBytes_loop.simps) (auto simp: utf7_step_def Let_def split: prod.split)
qed

lemma isDirect_ascii: "isDirect opt cp \<Longrightarrow> unat cp < 0x80 \<and> cp \<noteq> 0x2B"
  by (auto simp: isDirect_def word_less_nat_alt not_less split: if_splits)

lemma flush_decodes:
  assumes "list_all is_scalar ps" and "t \<or> rest = [] \<or> base64Value (hd rest) = None \<and> hd rest \<noteq> 0x2D"
  shows "\<exists>sh. flushShifted output (concat (map utf16 ps)) t = (output @ sh, []) \<and> D7 (sh @ rest) out = D7 rest (out @ text_of ps)"
proof (cases "ps = []")
  case True
  then show ?thesis by (simp add: flushShifted_def)
next
  case False
  then have us: "concat (map utf16 ps) \<noteq> []" by (cases ps) auto
  let ?rest = "(if t then [0x2D] else []) @ rest"
  have minus: "base64Value 0x2D = None" by code_simp
  have "?rest = [] \<or> base64Value (hd ?rest) = None" using assms(2) minus by auto
  from D7_shifted [OF False assms(1) this] obtain ds where
    ds: "appendShifted output (concat (map utf16 ps)) t = output @ 0x2B # ds @ (if t then [0x2D] else [])"
      "D7 (0x2B # ds @ ?rest) out = D7 (if ?rest \<noteq> [] \<and> hd ?rest = 0x2D then tl ?rest else ?rest) (out @ text_of ps)" by blast
  then show ?thesis using us assms(2)
    by (intro exI [of _ "0x2B # ds @ (if t then [0x2D] else [])"]) (auto simp: flushShifted_def)
qed

text \<open>Decoding what one step adds, in front of anything that follows, gives the text of the step.\<close>

lemma step_decodes:
  assumes "is_scalar k" and "list_all is_scalar ps" and "utf7_step opt (of_nat k) output (concat (map utf16 ps)) = (output', shifted')"
  shows "\<exists>sh qs. output' = output @ sh \<and> shifted' = concat (map utf16 qs) \<and> list_all is_scalar qs \<and>
    (\<forall>rest out. \<exists>js. D7 (sh @ rest) out = D7 rest (out @ text_of js) \<and> js @ qs = ps @ [k])"
proof -
  have u: "unat (of_nat k :: uintcs) = k" using assms(1) by (simp add: is_scalar_def unat_of_nat)
  consider (plus) "k = 0x2B" | (direct) "k \<noteq> 0x2B" "isDirect opt (of_nat k)" | (shift) "k \<noteq> 0x2B" "\<not> isDirect opt (of_nat k)" by blast
  then show ?thesis
  proof cases
    case plus
    obtain sh where sh: "flushShifted output (concat (map utf16 ps)) True = (output @ sh, [])"
      and d: "\<And>rest out. D7 (sh @ rest) out = D7 rest (out @ text_of ps)"
    proof -
      obtain sh where "flushShifted output (concat (map utf16 ps)) True = (output @ sh, [])"
        using flush_decodes [OF assms(2), of True "[]"] by blast
      moreover have "D7 (sh @ rest) out = D7 rest (out @ text_of ps)" for rest out
        using flush_decodes [OF assms(2), of True rest "output" out] calculation by auto
      ultimately show ?thesis using that by blast
    qed
    have "output' = output @ sh @ [0x2B, 0x2D]" "shifted' = []" using assms(3) sh plus by (auto simp: utf7_step_def)
    moreover have "D7 ((sh @ [0x2B, 0x2D]) @ rest) out = D7 rest (out @ text_of (ps @ [k]))" for rest out
      using d [of "0x2B # 0x2D # rest" out] by (simp add: plus utf8_def)
    ultimately show ?thesis by (intro exI [of _ "sh @ [0x2B, 0x2D]"] exI [of _ "[]"]) auto
  next
    case direct
    let ?c = "ucast (of_nat k :: uintcs) :: bytecs" and ?t = "(of_nat k :: uintcs) = 0x2D \<or> base64Value (ucast (of_nat k :: uintcs)) \<noteq> None"
    have k: "k < 0x80" using isDirect_ascii [OF direct(2)] u by simp
    then have c: "unat ?c = k" by (simp add: ucast_byte_of u)
    have c': "?c \<noteq> 0x2B" "?c < 0x80" "utf8 k = [?c]"
      using k c direct(1) by (auto simp: word_unat_eq_iff word_less_nat_alt utf8_def unat_of_nat)
    have flush: "\<exists>sh. flushShifted output (concat (map utf16 ps)) ?t = (output @ sh, []) \<and>
        D7 (sh @ ?c # rest) out = D7 (?c # rest) (out @ text_of ps)" for rest out
    proof (rule flush_decodes [OF assms(2)])
      have "(of_nat k :: uintcs) = 0x2D" if "?c = 0x2D" using that c u by (simp add: word_unat_eq_iff)
      then show "?t \<or> ?c # rest = [] \<or> base64Value (hd (?c # rest)) = None \<and> hd (?c # rest) \<noteq> 0x2D" by auto
    qed
    then obtain sh where sh: "flushShifted output (concat (map utf16 ps)) ?t = (output @ sh, [])" by blast
    have "D7 ((sh @ [?c]) @ rest) out = D7 rest (out @ text_of (ps @ [k]))" for rest out
      using flush [of rest out] sh c' by auto
    moreover have "output' = output @ sh @ [?c]" "shifted' = []"
    proof -
      have "(of_nat k :: uintcs) \<noteq> 0x2B" using direct(1) u by (auto simp: word_unat_eq_iff)
      then show "output' = output @ sh @ [?c]" "shifted' = []" using assms(3) sh direct(2) by (auto simp: utf7_step_def)
    qed
    ultimately show ?thesis by (intro exI [of _ "sh @ [?c]"] exI [of _ "[]"]) auto
  next
    case shift
    have "(of_nat k :: uintcs) \<noteq> 0x2B" using shift(1) u by (auto simp: word_unat_eq_iff)
    then have "output' = output" "shifted' = concat (map utf16 (ps @ [k]))"
      using assms(3) shift(2) by (auto simp: utf7_step_def appendCodePointAsUtf16_utf16 [OF assms(1)])
    then show ?thesis using assms(1,2) by (intro exI [of _ "[]"] exI [of _ "ps @ [k]"]) auto
  qed
qed

lemma GetBytes7_decodes:
  "list_all is_scalar ks \<Longrightarrow> list_all is_scalar ps \<Longrightarrow>
   \<exists>bs. UTF7Encoding_GetBytes_loop opt (pre @ text_of ks) (length pre) output (concat (map utf16 ps)) = Inr (output @ bs) \<and>
     (\<forall>out. D7 bs out = out @ text_of (ps @ ks))"
proof (induction ks arbitrary: pre "output" ps)
  case Nil
  obtain sh where "flushShifted output (concat (map utf16 ps)) True = (output @ sh, [])"
    using flush_decodes [OF Nil(2), of True "[]"] by blast
  moreover have "D7 sh out = out @ text_of ps" for out
    using flush_decodes [OF Nil(2), of True "[]" "output" out] calculation by auto
  ultimately show ?case by (intro exI [of _ sh]) (simp add: UTF7Encoding_GetBytes_loop.simps [of opt pre])
next
  case (Cons k ks)
  have k: "is_scalar k" using Cons.prems by simp
  obtain output' shifted' where st: "utf7_step opt (of_nat k) output (concat (map utf16 ps)) = (output', shifted')" by fastforce
  from step_decodes [OF k Cons.prems(2) st] obtain sh qs where sh: "output' = output @ sh" "shifted' = concat (map utf16 qs)"
    "list_all is_scalar qs" "\<forall>rest out. \<exists>js. D7 (sh @ rest) out = D7 rest (out @ text_of js) \<and> js @ qs = ps @ [k]" by blast
  from Cons.IH [OF _ sh(3), of "pre @ utf8 k" output'] Cons.prems(1) obtain bs where
    bs: "UTF7Encoding_GetBytes_loop opt (pre @ utf8 k @ text_of ks) (length (pre @ utf8 k)) output' (concat (map utf16 qs)) = Inr (output' @ bs)"
      "\<forall>out. D7 bs out = out @ text_of (qs @ ks)" by auto
  have "D7 (sh @ bs) out = out @ text_of (ps @ k # ks)" for out
  proof -
    obtain js where js: "D7 (sh @ bs) out = D7 bs (out @ text_of js)" "js @ qs = ps @ [k]" using sh(4) by blast
    have "js @ qs @ ks = ps @ k # ks" using arg_cong [OF js(2), of "\<lambda>xs. xs @ ks"] by simp
    then have "text_of js @ text_of (qs @ ks) = text_of (ps @ k # ks)" by (metis concat_append map_append)
    with js(1) bs(2) show ?thesis by simp
  qed
  moreover have "UTF7Encoding_GetBytes_loop opt (pre @ text_of (k # ks)) (length pre) output (concat (map utf16 ps)) = Inr (output @ sh @ bs)"
    using GetBytes7_step [OF k, of opt pre "text_of ks" "output"] st bs(1) sh(1,2) by simp
  ultimately show ?case by (intro exI [of _ "sh @ bs"]) simp
qed

section \<open>Any input\<close>

definition text_behind :: "bytecs list \<Rightarrow> bytecs list \<Rightarrow> bool" where
  "text_behind out t \<longleftrightarrow> (\<exists>ks. list_all is_scalar ks \<and> t = out @ text_of ks)"

lemma text_behind_refl [simp]: "text_behind out out"
  unfolding text_behind_def by (rule exI [of _ "[]"]) simp

lemma text_behind_trans: "text_behind a b \<Longrightarrow> text_behind b c \<Longrightarrow> text_behind a c"
proof -
  assume "text_behind a b" "text_behind b c"
  then obtain ks js where "list_all is_scalar ks" "b = a @ text_of ks" "list_all is_scalar js" "c = b @ text_of js"
    by (auto simp: text_behind_def)
  then show ?thesis unfolding text_behind_def by (intro exI [of _ "ks @ js"]) simp
qed

lemma text_behind_scalar: "is_scalar (unat cp) \<Longrightarrow> text_behind out (AppendUtf8Scalar out cp)"
  unfolding text_behind_def by (rule exI [of _ "[unat cp]"]) (simp add: AppendUtf8Scalar_scalar)

lemma text_behind_replacement: "text_behind out (appendReplacement out)"
  unfolding appendReplacement_def by (rule text_behind_scalar) (simp add: is_scalar_def)

lemma text_behind_pair:
  fixes c c2 :: char16
  assumes "0xD800 \<le> c" and "c \<le> 0xDBFF" and "0xDC00 \<le> c2" and "c2 \<le> 0xDFFF"
  shows "text_behind out (AppendUtf8Scalar out (0x10000 + (push_bit 10 (ucast (c - 0xD800)) OR ucast (c2 - 0xDC00))))"
proof (rule text_behind_scalar)
  have c: "0xD800 \<le> unat c" "unat c \<le> 0xDBFF" "0xDC00 \<le> unat c2" "unat c2 \<le> 0xDFFF"
    using assms by (simp_all add: word_le_nat_alt)
  show "is_scalar (unat (0x10000 + (push_bit 10 (ucast (c - 0xD800)) OR ucast (c2 - 0xDC00)) :: uintcs))"
    unfolding pair_or [OF assms] surrogate_pair [OF c] by (rule utf16_pair(2) [OF c])
qed

lemma text_behind_unit:
  assumes "\<not> (0xD800 \<le> c \<and> c \<le> 0xDBFF)" and "\<not> (0xDC00 \<le> c \<and> c \<le> 0xDFFF)"
  shows "text_behind out (AppendUtf8Scalar out (ucast (c :: char16)))"
proof (rule text_behind_scalar)
  show "is_scalar (unat (ucast c :: uintcs))"
    using assms unat_char16_less [of c] by (auto simp: unat_ucast_char16 is_scalar_def word_le_nat_alt)
qed

lemma appendUtf16Be_well_formed: "text_behind out (appendUtf16Be bytes out)"
proof (induction "length bytes" arbitrary: bytes out rule: less_induct)
  case less
  consider (stop) "\<And>out. appendUtf16Be bytes out = out" | (unit) b0 b1 rest where "bytes = b0 # b1 # rest"
    by (cases bytes rule: remdups_adj.cases) auto
  then show ?case
  proof cases
    case unit
    let ?u = "utf16be_unit b0 b1"
    have IH: "text_behind out (appendUtf16Be r out')" if "text_behind out out'" "length r \<le> length rest" for r out'
      using less [of r out'] that unit text_behind_trans by auto
    have repl: "text_behind out (appendUtf16Be rest (appendReplacement out))" by (rule IH [OF text_behind_replacement order_refl])
    consider (pair) b2 b3 r where "0xD800 \<le> ?u" "?u \<le> 0xDBFF" "rest = b2 # b3 # r" "0xDC00 \<le> utf16be_unit b2 b3" "utf16be_unit b2 b3 \<le> 0xDFFF"
      | (high) "0xD800 \<le> ?u" "?u \<le> 0xDBFF"
          "\<And>b2 b3 r. rest = b2 # b3 # r \<Longrightarrow> \<not> (0xDC00 \<le> utf16be_unit b2 b3 \<and> utf16be_unit b2 b3 \<le> 0xDFFF)"
      | (low) "\<not> (0xD800 \<le> ?u \<and> ?u \<le> 0xDBFF)" "0xDC00 \<le> ?u" "?u \<le> 0xDFFF"
      | (other) "\<not> (0xD800 \<le> ?u \<and> ?u \<le> 0xDBFF)" "\<not> (0xDC00 \<le> ?u \<and> ?u \<le> 0xDFFF)"
      by blast
    then show ?thesis
    proof cases
      case pair
      then have "appendUtf16Be bytes out =
          appendUtf16Be r (AppendUtf8Scalar out (0x10000 + (push_bit 10 (ucast (?u - 0xD800)) OR ucast (utf16be_unit b2 b3 - 0xDC00))))"
        by (simp add: unit Let_def)
      then show ?thesis using IH [OF text_behind_pair [OF pair(1,2,4,5)], of r] pair(3) by simp
    next
      case high
      then have "appendUtf16Be bytes out = appendUtf16Be rest (appendReplacement out)"
        by (cases rest rule: remdups_adj.cases) (auto simp: unit Let_def)
      with repl show ?thesis by simp
    next
      case low
      then have "appendUtf16Be bytes out = appendUtf16Be rest (appendReplacement out)" by (auto simp: unit Let_def)
      with repl show ?thesis by simp
    next
      case other
      then have "appendUtf16Be bytes out = appendUtf16Be rest (AppendUtf8Scalar out (ucast ?u))" by (simp only: unit appendUtf16Be.simps Let_def if_False)
      then show ?thesis using IH [OF text_behind_unit [OF other] order_refl] by simp
    qed
  qed simp
qed

lemma text_behind_ascii: "c < 0x80 \<Longrightarrow> text_behind out (out @ [c])"
proof -
  assume "c < 0x80"
  then have "utf8 (unat c) = [c]" by (simp add: utf8_def word_less_nat_alt)
  then show ?thesis unfolding text_behind_def by (intro exI [of _ "[unat c]"]) (simp add: byte_is_scalar)
qed

lemma D7_well_formed: "text_behind out (D7 bs out)"
proof (induction "length bs" arbitrary: bs out rule: less_induct)
  case less
  show ?case
  proof (cases bs)
    case (Cons c rest)
    have IH: "text_behind out (D7 r out')" if "text_behind out out'" "length r \<le> length rest" for r out'
      using less [of r out'] that Cons text_behind_trans by auto
    consider (char) "c \<noteq> 0x2B" | (plus) "c = 0x2B" "rest \<noteq> [] \<and> hd rest = 0x2D" | (run) "c = 0x2B" "\<not> (rest \<noteq> [] \<and> hd rest = 0x2D)" by blast
    then show ?thesis
    proof cases
      case char
      then have "D7 bs out = D7 rest (if c < 0x80 then out @ [c] else appendReplacement out)" by (simp only: Cons UTF7Encoding_GetString_loop.simps if_True simp_thms)
      then show ?thesis using IH [OF _ order_refl] text_behind_ascii text_behind_replacement by auto
    next
      case plus
      then have "D7 bs out = D7 (tl rest) (out @ [0x2B])" by (simp add: Cons)
      then show ?thesis using IH [of "out @ [0x2B]" "tl rest"] text_behind_ascii [of "0x2B" out] by simp
    next
      case run
      obtain rest' saw buf n bytes where r: "utf7_run rest False (0, 0, []) = (rest', saw, buf, n, bytes)" by (metis prod_cases5)
      let ?r = "if rest' \<noteq> [] \<and> hd rest' = 0x2D then tl rest' else rest'"
      have "\<exists>out'. text_behind out out' \<and> D7 bs out = D7 ?r out'"
        using run r text_behind_replacement appendUtf16Be_well_formed by (auto simp: Cons)
      moreover have "length ?r \<le> length rest" using utf7_run_rest [OF r] by (auto intro: le_trans [OF diff_le_self])
      ultimately show ?thesis using IH by auto
    qed
  qed simp
qed

section \<open>Properties\<close>

text \<open>
  C22. Round trip of UTF-7: for any scalar values, with or without the optional direct characters and
  wherever the bytes stand in the buffer, \<^verbatim>\<open>GetString\<close> of what \<^verbatim>\<open>GetBytes\<close> returned is the text again. The
  terminator of a shifted run is omitted only where the next character ends the run by itself. Any other
  bytes decode to well-formed UTF-8 too.
\<close>

theorem utf7_roundtrip:
  assumes "list_all is_scalar ks"
  shows "\<exists>bs. UTF7Encoding_GetBytes opt (text_of ks) = Inr bs \<and>
    UTF7Encoding_GetString (Some (pre @ bs @ post)) (int (length pre)) (int (length bs)) = Inr (text_of ks) \<and>
    (\<exists>t. UTF7Encoding_GetString (Some junk) 0 (int (length junk)) = Inr t \<and> utf8_text t)"
proof -
  have "utf8_text (D7 junk [])" using D7_well_formed [of "[]" junk] by (auto simp: text_behind_def utf8_text_def)
  then have any: "\<exists>t. UTF7Encoding_GetString (Some junk) 0 (int (length junk)) = Inr t \<and> utf8_text t"
    by (auto simp: UTF7Encoding_GetString_def validateRawDecodeRange_def pointee_def)
  obtain bs where bs: "UTF7Encoding_GetBytes opt (text_of ks) = Inr bs" "D7 bs [] = text_of ks"
    using GetBytes7_decodes [OF assms, of "[]" opt "[]" "[]"] by (auto simp: UTF7Encoding_GetBytes_def)
  with any show ?thesis
    by (intro exI [of _ bs]) (auto simp: UTF7Encoding_GetString_def validateRawDecodeRange_def pointee_def)
qed

theorem utf7_roundtrip_witness:
  "\<exists>bs. UTF7Encoding_GetBytes False [0xC3, 0xA9, 0x2B] = Inr bs \<and>
    UTF7Encoding_GetString (Some ([] @ bs @ [])) (int (length ([] :: bytecs list))) (int (length bs)) = Inr [0xC3, 0xA9, 0x2B]"
  using utf7_roundtrip [of "[0xE9, 0x2B]" False "[]" "[]" "[]"] by (simp add: is_scalar_def utf8_def) blast

end
