(* ===== verification/IO_Stream.thy ===== *)
theory IO_Stream
  imports SR_Prelude
begin

text \<open>
  Streams of \<^verbatim>\<open>System::IO\<close>: the operations a \<^verbatim>\<open>Stream\<close> pointer is used through, the defaults of the base class
  (\<^verbatim>\<open>Stream.cpp\<close>) and \<^verbatim>\<open>MemoryStream\<close> (\<^verbatim>\<open>MemoryStream.cpp\<close>, \<^verbatim>\<open>MemoryStream.hpp\<close>). The contract of a readable,
  writable and seekable stream, a byte file with a position, is the locale \<open>byte_file\<close>; it is
  interpreted for \<^verbatim>\<open>MemoryStream\<close> here and for \<^verbatim>\<open>BufferedStream\<close> over any stream of the contract in
  \<^verbatim>\<open>IO_Buffered\<close>, and the readers and writers of \<^verbatim>\<open>IO_Binary\<close> are proved against it.
\<close>

section \<open>Model: calls that change an object\<close>

text \<open>
  A call on an object in state \<open>s\<close> returns, throws, leaves the defined behaviour of C++ (a copy
  outside a buffer, a signed overflow) or never returns; the state it leaves is given in every case.
  What an interrupted call left in a buffer of its caller is not part of the result.
\<close>

datatype 'a outcome = Returns 'a | Throws exn | Undefined | Diverges

type_synonym ('s, 'a) io = "'s \<Rightarrow> 'a outcome \<times> 's"

definition io_return :: "'a \<Rightarrow> ('s, 'a) io" where
  "io_return x s = (Returns x, s)"

definition io_throw :: "exn \<Rightarrow> ('s, 'a) io" where
  "io_throw e s = (Throws e, s)"

definition io_undefined :: "('s, 'a) io" where
  "io_undefined s = (Undefined, s)"

definition io_bind :: "('s, 'a) io \<Rightarrow> ('a \<Rightarrow> ('s, 'b) io) \<Rightarrow> ('s, 'b) io" where
  "io_bind m f s =
     (case m s of
        (Returns x, s') \<Rightarrow> f x s'
      | (Throws e, s') \<Rightarrow> (Throws e, s')
      | (Undefined, s') \<Rightarrow> (Undefined, s')
      | (Diverges, s') \<Rightarrow> (Diverges, s'))"

definition io_then :: "('s, 'a) io \<Rightarrow> ('s, 'b) io \<Rightarrow> ('s, 'b) io" where
  "io_then m n = io_bind m (\<lambda>_. n)"

definition io_get :: "('s \<Rightarrow> 'a) \<Rightarrow> ('s, 'a) io" where
  "io_get f s = (Returns (f s), s)"

definition io_modify :: "('s \<Rightarrow> 's) \<Rightarrow> ('s, unit) io" where
  "io_modify f s = (Returns (), f s)"

definition io_if :: "('s \<Rightarrow> bool) \<Rightarrow> ('s, 'a) io \<Rightarrow> ('s, 'a) io \<Rightarrow> ('s, 'a) io" where
  "io_if c m n s = (if c s then m s else n s)"

text \<open>The result of a loop that may run forever.\<close>

definition io_loop :: "('s \<Rightarrow> ('a outcome \<times> 's) option) \<Rightarrow> ('s, 'a) io" where
  "io_loop f s = (case f s of None \<Rightarrow> (Diverges, s) | Some r \<Rightarrow> r)"

text \<open>\<open>int\<close> computations that overflow are undefined, and a size cast to \<^verbatim>\<open>intcs\<close> wraps.\<close>

definition intcs_add :: "intcs \<Rightarrow> intcs \<Rightarrow> ('s, intcs) io" where
  "intcs_add a b =
     (if INTCS_MIN \<le> a + b \<and> a + b \<le> INTCS_MAX then io_return (a + b) else io_undefined)"

definition intcs_sub :: "intcs \<Rightarrow> intcs \<Rightarrow> ('s, intcs) io" where
  "intcs_sub a b = intcs_add a (- b)"

definition intcs_of_size :: "nat \<Rightarrow> intcs" where
  "intcs_of_size n = sint (of_nat n :: 32 word)"

text \<open>
  \<^verbatim>\<open>std::copy\<close> and \<^verbatim>\<open>std::memcpy\<close> from a buffer and into a buffer: \<open>None\<close> is an access outside of it.
\<close>

definition copy_from :: "bytecs list \<Rightarrow> intcs \<Rightarrow> intcs \<Rightarrow> bytecs list option" where
  "copy_from buf offset n =
     (if 0 \<le> offset \<and> 0 \<le> n \<and> offset + n \<le> int (length buf) then Some (take (nat n) (drop (nat offset) buf))
      else None)"

definition copy_to :: "bytecs list \<Rightarrow> intcs \<Rightarrow> bytecs list \<Rightarrow> bytecs list option" where
  "copy_to buf offset bs =
     (if 0 \<le> offset \<and> offset + int (length bs) \<le> int (length buf)
      then Some (take (nat offset) buf @ bs @ drop (nat offset + length bs) buf)
      else None)"

definition vector_resize :: "nat \<Rightarrow> bytecs list \<Rightarrow> bytecs list" where
  "vector_resize n xs = take n xs @ replicate (n - length xs) 0"

section \<open>Model: Stream\<close>

text \<open>An enumerator of \<^verbatim>\<open>SeekOrigin\<close>, or a cast integer that is none.\<close>

datatype SeekOrigin = Begin | Current | End | OtherOrigin int

text \<open>The virtual functions. \<^verbatim>\<open>Read\<close> returns the count and the buffer after the call.\<close>

record 's Stream =
  vRead :: "buffer \<Rightarrow> intcs \<Rightarrow> intcs \<Rightarrow> ('s, intcs \<times> bytecs list) io"
  vWrite :: "buffer \<Rightarrow> intcs \<Rightarrow> intcs \<Rightarrow> ('s, unit) io"
  vWriteByte :: "bytecs \<Rightarrow> ('s, unit) io"
  vReadByte :: "('s, intcs) io"
  vFlush :: "('s, unit) io"
  vClose :: "('s, unit) io"
  vGetLength :: "('s, intcs) io"
  vGetPosition :: "('s, intcs) io"
  vSetPosition :: "intcs \<Rightarrow> ('s, unit) io"
  vSeek :: "intcs \<Rightarrow> SeekOrigin \<Rightarrow> ('s, intcs) io"
  vSetLength :: "intcs \<Rightarrow> ('s, unit) io"
  vCanRead :: "'s \<Rightarrow> bool"
  vCanWrite :: "'s \<Rightarrow> bool"
  vCanSeek :: "'s \<Rightarrow> bool"

text \<open>The defaults of the base class, on the virtual functions they call.\<close>

definition Stream_Write :: "buffer \<Rightarrow> intcs \<Rightarrow> intcs \<Rightarrow> ('s, unit) io" where
  "Stream_Write buffer offset count = io_throw (NotSupportedException ''Stream does not support writing.'')"

definition Stream_WriteByte :: "(buffer \<Rightarrow> intcs \<Rightarrow> intcs \<Rightarrow> ('s, unit) io) \<Rightarrow> bytecs \<Rightarrow> ('s, unit) io" where
  "Stream_WriteByte wr value = wr (Some [value]) 0 1"

definition Stream_getPosition :: "('s, intcs) io" where
  "Stream_getPosition = io_throw (NotSupportedException ''Stream does not support seeking.'')"

definition Stream_setPosition :: "intcs \<Rightarrow> ('s, unit) io" where
  "Stream_setPosition value = io_throw (NotSupportedException ''Stream does not support seeking.'')"

definition Stream_SetLength :: "intcs \<Rightarrow> ('s, unit) io" where
  "Stream_SetLength value = io_throw (NotSupportedException ''Stream does not support SetLength.'')"

definition Stream_Flush :: "('s, unit) io" where
  "Stream_Flush = io_return ()"

definition Stream_Seek ::
    "('s, intcs) io \<Rightarrow> ('s, intcs) io \<Rightarrow> (intcs \<Rightarrow> ('s, unit) io) \<Rightarrow> intcs \<Rightarrow> SeekOrigin \<Rightarrow> ('s, intcs) io" where
  "Stream_Seek getPosition getLength setPosition offset origin =
     io_bind
       (case origin of
          Begin \<Rightarrow> io_return offset
        | Current \<Rightarrow> io_bind getPosition (\<lambda>p. intcs_add p offset)
        | End \<Rightarrow> io_bind getLength (\<lambda>l. intcs_add l offset)
        | OtherOrigin _ \<Rightarrow> io_throw (ArgumentException ''origin''))
       (\<lambda>newPosition.
          if newPosition < 0
          then io_throw (IOException ''An attempt was made to move the position before the beginning of the stream.'')
          else io_then (setPosition newPosition) (io_return newPosition))"

definition Stream_ReadByte ::
    "(buffer \<Rightarrow> intcs \<Rightarrow> intcs \<Rightarrow> ('s, intcs \<times> bytecs list) io) \<Rightarrow> ('s, intcs) io" where
  "Stream_ReadByte rd =
     io_bind (rd (Some [0]) 0 1) (\<lambda>(bytesRead, b). io_return (if bytesRead = 0 then - 1 else uint (hd b)))"

section \<open>Model: MemoryStream\<close>

record MemoryStream =
  ms_data :: "bytecs list"
  ms_position :: intcs
  ms_writable :: bool
  ms_isOpen :: bool

definition validatedBufferCopy :: "buffer \<Rightarrow> intcs \<Rightarrow> bytecs list outcome" where
  "validatedBufferCopy buffer sz =
     (if buffer = None \<and> sz \<noteq> 0 then Throws (ArgumentNullException ''buffer'')
      else if sz < 0 then Throws (ArgumentOutOfRangeException ''size'')
      else if sz = 0 then Returns []
      else case copy_from (the buffer) 0 sz of None \<Rightarrow> Undefined | Some bs \<Rightarrow> Returns bs)"

definition MemoryStream_ctor :: MemoryStream where
  "MemoryStream_ctor = \<lparr>ms_data = [], ms_position = 0, ms_writable = True, ms_isOpen = True\<rparr>"

definition MemoryStream_ctor_buffer :: "buffer \<Rightarrow> intcs \<Rightarrow> bool \<Rightarrow> MemoryStream outcome" where
  "MemoryStream_ctor_buffer buffer sz writable =
     (case validatedBufferCopy buffer sz of
        Returns bs \<Rightarrow> Returns \<lparr>ms_data = bs, ms_position = 0, ms_writable = writable, ms_isOpen = True\<rparr>
      | Throws e \<Rightarrow> Throws e
      | Undefined \<Rightarrow> Undefined
      | Diverges \<Rightarrow> Diverges)"

definition MS_ensureNotClosed :: "(MemoryStream, unit) io" where
  "MS_ensureNotClosed =
     io_if ms_isOpen (io_return ()) (io_throw (ObjectDisposedException ''Cannot access a closed Stream.''))"

definition MS_ensureWritable :: "(MemoryStream, unit) io" where
  "MS_ensureWritable =
     io_if ms_writable (io_return ()) (io_throw (NotSupportedException ''Stream does not support writing.''))"

text \<open>The argument checks \<^verbatim>\<open>Read\<close> and \<^verbatim>\<open>Write\<close> share.\<close>

definition MS_validate :: "buffer \<Rightarrow> intcs \<Rightarrow> intcs \<Rightarrow> ('s, bytecs list) io" where
  "MS_validate buffer offset count =
     (case buffer of
        None \<Rightarrow> io_throw (ArgumentNullException ''buffer'')
      | Some buf \<Rightarrow>
          if offset < 0 then io_throw (ArgumentOutOfRangeException ''offset'')
          else if count < 0 then io_throw (ArgumentOutOfRangeException ''count'')
          else io_return buf)"

definition MS_length :: "MemoryStream \<Rightarrow> intcs" where
  "MS_length s = intcs_of_size (length (ms_data s))"

definition MS_read_copy :: "bytecs list \<Rightarrow> intcs \<Rightarrow> intcs \<Rightarrow> (MemoryStream, intcs \<times> bytecs list) io" where
  "MS_read_copy buf offset count s =
     (let toRead = min count (MS_length s - ms_position s)
      in if toRead \<le> 0 then (Returns (0, buf), s)
         else case copy_to buf offset (take (nat toRead) (drop (nat (ms_position s)) (ms_data s))) of
                None \<Rightarrow> (Undefined, s)
              | Some buf' \<Rightarrow> (Returns (toRead, buf'), s\<lparr>ms_position := ms_position s + toRead\<rparr>))"

definition MemoryStream_Read :: "buffer \<Rightarrow> intcs \<Rightarrow> intcs \<Rightarrow> (MemoryStream, intcs \<times> bytecs list) io" where
  "MemoryStream_Read buffer offset count =
     io_then MS_ensureNotClosed
       (io_bind (MS_validate buffer offset count) (\<lambda>buf. MS_read_copy buf offset count))"

definition MS_write_copy :: "bytecs list \<Rightarrow> intcs \<Rightarrow> intcs \<Rightarrow> (MemoryStream, unit) io" where
  "MS_write_copy buf offset count s =
     (if count = 0 then (Returns (), s)
      else let newLength = ms_position s + count
           in if newLength > INTCS_MAX then (Throws (IOException ''Stream was too long.''), s)
              else let d = (if newLength > MS_length s then vector_resize (nat newLength) (ms_data s) else ms_data s)
                   in case copy_from buf offset count of
                        None \<Rightarrow> (Undefined, s)
                      | Some bs \<Rightarrow>
                          case copy_to d (ms_position s) bs of
                            None \<Rightarrow> (Undefined, s)
                          | Some d' \<Rightarrow> (Returns (), s\<lparr>ms_data := d', ms_position := newLength\<rparr>))"

definition MemoryStream_Write :: "buffer \<Rightarrow> intcs \<Rightarrow> intcs \<Rightarrow> (MemoryStream, unit) io" where
  "MemoryStream_Write buffer offset count =
     io_then MS_ensureNotClosed
       (io_then MS_ensureWritable
         (io_bind (MS_validate buffer offset count) (\<lambda>buf. MS_write_copy buf offset count)))"

definition MS_put_byte :: "bytecs \<Rightarrow> (MemoryStream, unit) io" where
  "MS_put_byte value s =
     (let d = (if ms_position s \<ge> MS_length s then ms_data s @ [value]
               else (ms_data s)[nat (ms_position s) := value])
      in if ms_position s = INTCS_MAX then (Undefined, s\<lparr>ms_data := d\<rparr>)
         else (Returns (), s\<lparr>ms_data := d, ms_position := ms_position s + 1\<rparr>))"

definition MemoryStream_WriteByte :: "bytecs \<Rightarrow> (MemoryStream, unit) io" where
  "MemoryStream_WriteByte value =
     io_then MS_ensureNotClosed (io_then MS_ensureWritable (MS_put_byte value))"

definition MemoryStream_Close :: "(MemoryStream, unit) io" where
  "MemoryStream_Close = io_modify (\<lambda>s. s\<lparr>ms_isOpen := False\<rparr>)"

definition MemoryStream_Flush :: "(MemoryStream, unit) io" where
  "MemoryStream_Flush = io_return ()"

definition MemoryStream_getLength :: "(MemoryStream, intcs) io" where
  "MemoryStream_getLength = io_then MS_ensureNotClosed (io_get MS_length)"

definition MemoryStream_getPosition :: "(MemoryStream, intcs) io" where
  "MemoryStream_getPosition = io_then MS_ensureNotClosed (io_get ms_position)"

definition MemoryStream_setPosition :: "intcs \<Rightarrow> (MemoryStream, unit) io" where
  "MemoryStream_setPosition value =
     io_then MS_ensureNotClosed
       (if value < 0 then io_throw (ArgumentOutOfRangeException ''value'')
        else io_modify (\<lambda>s. s\<lparr>ms_position := value\<rparr>))"

definition MemoryStream_SetLength :: "intcs \<Rightarrow> (MemoryStream, unit) io" where
  "MemoryStream_SetLength value =
     io_then MS_ensureNotClosed
       (if value < 0 then io_throw (ArgumentOutOfRangeException ''value'')
        else io_then MS_ensureWritable
          (io_modify (\<lambda>s. s\<lparr>ms_data := vector_resize (nat value) (ms_data s),
                            ms_position := (if ms_position s > value then value else ms_position s)\<rparr>)))"

definition MemoryStream_ToArray :: "MemoryStream \<Rightarrow> bytecs list" where
  "MemoryStream_ToArray s = ms_data s"

definition MemoryStream_vtable :: "MemoryStream Stream" where
  "MemoryStream_vtable =
     \<lparr>vRead = MemoryStream_Read,
      vWrite = MemoryStream_Write,
      vWriteByte = MemoryStream_WriteByte,
      vReadByte = Stream_ReadByte MemoryStream_Read,
      vFlush = MemoryStream_Flush,
      vClose = MemoryStream_Close,
      vGetLength = MemoryStream_getLength,
      vGetPosition = MemoryStream_getPosition,
      vSetPosition = MemoryStream_setPosition,
      vSeek = Stream_Seek MemoryStream_getPosition MemoryStream_getLength MemoryStream_setPosition,
      vSetLength = MemoryStream_SetLength,
      vCanRead = ms_isOpen,
      vCanWrite = ms_writable,
      vCanSeek = ms_isOpen\<rparr>"

section \<open>Calls that return\<close>

text \<open>\<open>runs m s r Q\<close>: the call \<open>m\<close> made in state \<open>s\<close> returns \<open>r\<close> and leaves a state with \<open>Q\<close>.\<close>

definition runs :: "('s, 'a) io \<Rightarrow> 's \<Rightarrow> 'a \<Rightarrow> ('s \<Rightarrow> bool) \<Rightarrow> bool" where
  "runs m s r Q \<longleftrightarrow> (\<exists>s'. m s = (Returns r, s') \<and> Q s')"

text \<open>\<open>fails m s e Q\<close>: it throws \<open>e\<close> and leaves a state with \<open>Q\<close>.\<close>

definition fails :: "('s, 'a) io \<Rightarrow> 's \<Rightarrow> exn \<Rightarrow> ('s \<Rightarrow> bool) \<Rightarrow> bool" where
  "fails m s e Q \<longleftrightarrow> (\<exists>s'. m s = (Throws e, s') \<and> Q s')"

lemma runsI: "m s = (Returns r, s') \<Longrightarrow> Q s' \<Longrightarrow> runs m s r Q"
  by (auto simp: runs_def)

lemma runsE:
  assumes "runs m s r Q"
  obtains s' where "m s = (Returns r, s')" and "Q s'"
  using assms by (auto simp: runs_def)

lemma runs_mono: "runs m s r Q \<Longrightarrow> (\<And>s'. Q s' \<Longrightarrow> P s') \<Longrightarrow> runs m s r P"
  by (auto simp: runs_def)

lemma runs_bind:
  "runs m s r Q \<Longrightarrow> (\<And>s'. Q s' \<Longrightarrow> runs (f r) s' r' P) \<Longrightarrow> runs (io_bind m f) s r' P"
  by (fastforce simp: runs_def io_bind_def)

lemma runs_map: "runs m s x Q \<Longrightarrow> y = f x \<Longrightarrow> runs (io_bind m (\<lambda>x. io_return (f x))) s y Q"
  by (auto simp: runs_def io_bind_def io_return_def)

lemma runs_then:
  "runs m s r Q \<Longrightarrow> (\<And>s'. Q s' \<Longrightarrow> runs n s' r' P) \<Longrightarrow> runs (io_then m n) s r' P"
  unfolding io_then_def by (rule runs_bind)

lemma fails_bind:
  "fails m s e Q \<Longrightarrow> fails (io_bind m f) s e Q"
  by (auto simp: fails_def io_bind_def)

lemma fails_then: "fails m s e Q \<Longrightarrow> fails (io_then m n) s e Q"
  unfolding io_then_def by (rule fails_bind)

lemma runs_fails_bind:
  "runs m s r Q \<Longrightarrow> (\<And>s'. Q s' \<Longrightarrow> fails (f r) s' e P) \<Longrightarrow> fails (io_bind m f) s e P"
  by (fastforce simp: runs_def fails_def io_bind_def)

lemma runs_fails_then:
  "runs m s r Q \<Longrightarrow> (\<And>s'. Q s' \<Longrightarrow> fails n s' e P) \<Longrightarrow> fails (io_then m n) s e P"
  unfolding io_then_def by (rule runs_fails_bind)

lemma runs_return [simp]: "runs (io_return x) s r Q \<longleftrightarrow> x = r \<and> Q s"
  by (auto simp: runs_def io_return_def)

lemma runs_get [simp]: "runs (io_get f) s r Q \<longleftrightarrow> f s = r \<and> Q s"
  by (auto simp: runs_def io_get_def)

lemma runs_modify [simp]: "runs (io_modify f) s r Q \<longleftrightarrow> Q (f s)"
  by (auto simp: runs_def io_modify_def)

lemma runs_if [simp]: "runs (io_if c m n) s r Q \<longleftrightarrow> (if c s then runs m s r Q else runs n s r Q)"
  by (auto simp: runs_def io_if_def)

lemma fails_if [simp]: "fails (io_if c m n) s r Q \<longleftrightarrow> (if c s then fails m s r Q else fails n s r Q)"
  by (auto simp: fails_def io_if_def)

lemma fails_throw [simp]: "fails (io_throw e) s e' Q \<longleftrightarrow> e = e' \<and> Q s"
  by (auto simp: fails_def io_throw_def)

lemma runs_intcs_add:
  "runs (intcs_add a b) s r Q \<longleftrightarrow> r = a + b \<and> INTCS_MIN \<le> a + b \<and> a + b \<le> INTCS_MAX \<and> Q s"
  by (auto simp: intcs_add_def runs_def io_undefined_def io_return_def)

lemma runs_intcs_sub:
  "runs (intcs_sub a b) s r Q \<longleftrightarrow> r = a - b \<and> INTCS_MIN \<le> a - b \<and> a - b \<le> INTCS_MAX \<and> Q s"
  by (auto simp: intcs_sub_def runs_intcs_add)

section \<open>Byte files\<close>

definition put_bytes :: "bytecs list \<Rightarrow> nat \<Rightarrow> bytecs list \<Rightarrow> bytecs list" where
  "put_bytes buf p bs = take p buf @ bs @ drop (p + length bs) buf"

text \<open>Writing at a position: a gap behind the end is filled with zeros, writing nothing changes nothing.\<close>

definition overwrite :: "bytecs list \<Rightarrow> nat \<Rightarrow> bytecs list \<Rightarrow> bytecs list" where
  "overwrite c p bs = (if bs = [] then c else put_bytes (c @ replicate (p - length c) 0) p bs)"

definition get_bytes :: "bytecs list \<Rightarrow> nat \<Rightarrow> nat \<Rightarrow> bytecs list" where
  "get_bytes c p n = take n (drop p c)"

definition fits :: "bytecs list \<Rightarrow> nat \<Rightarrow> bool" where
  "fits c p \<longleftrightarrow> int (length c) \<le> INTCS_MAX \<and> int p \<le> INTCS_MAX"

definition seek_target :: "bytecs list \<Rightarrow> nat \<Rightarrow> intcs \<Rightarrow> SeekOrigin \<Rightarrow> int option" where
  "seek_target c p offset origin =
     (case origin of Begin \<Rightarrow> Some offset | Current \<Rightarrow> Some (int p + offset) | End \<Rightarrow> Some (int (length c) + offset)
      | OtherOrigin _ \<Rightarrow> None)"

lemma length_put_bytes [simp]: "p + length bs \<le> length buf \<Longrightarrow> length (put_bytes buf p bs) = length buf"
  by (simp add: put_bytes_def)

lemma put_bytes_Nil [simp]: "put_bytes buf p [] = buf"
  by (simp add: put_bytes_def)

lemma put_bytes_whole: "length bs = length buf \<Longrightarrow> put_bytes buf 0 bs = bs"
  by (simp add: put_bytes_def)

lemma length_overwrite: "length (overwrite c p bs) = (if bs = [] then length c else max (length c) (p + length bs))"
  by (auto simp: overwrite_def put_bytes_def)

lemma overwrite_Nil [simp]: "overwrite c p [] = c"
  by (simp add: overwrite_def)

lemma nth_put_bytes:
  assumes "p \<le> length buf" and "i < p + length bs + (length buf - (p + length bs))"
  shows "put_bytes buf p bs ! i = (if p \<le> i \<and> i < p + length bs then bs ! (i - p) else buf ! i)"
  using assms by (auto simp: put_bytes_def nth_append)

lemma nth_overwrite:
  assumes "i < length (overwrite c p bs)"
  shows "overwrite c p bs ! i =
    (if p \<le> i \<and> i < p + length bs then bs ! (i - p) else if i < length c then c ! i else 0)"
proof (cases "bs = []")
  case True
  then show ?thesis using assms by auto
next
  case False
  have i: "i < max (length c) (p + length bs)" using assms False by (simp add: length_overwrite)
  have "put_bytes (c @ replicate (p - length c) 0) p bs ! i =
    (if p \<le> i \<and> i < p + length bs then bs ! (i - p) else (c @ replicate (p - length c) 0) ! i)"
    using assms False by (intro nth_put_bytes) (auto simp: length_overwrite)
  then show ?thesis using False i by (auto simp: overwrite_def nth_append)
qed

lemma overwrite_overwrite:
  "overwrite (overwrite c p xs) (p + length xs) ys = overwrite c p (xs @ ys)"
proof (rule nth_equalityI)
  show len: "length (overwrite (overwrite c p xs) (p + length xs) ys) = length (overwrite c p (xs @ ys))"
    by (auto simp: length_overwrite)
  fix i assume i: "i < length (overwrite (overwrite c p xs) (p + length xs) ys)"
  show "overwrite (overwrite c p xs) (p + length xs) ys ! i = overwrite c p (xs @ ys) ! i"
    using i len by (auto simp: nth_overwrite length_overwrite nth_append split: if_splits)
qed

lemma get_overwrite_prefix: "get_bytes (overwrite c p bs) p (length bs) = bs"
  by (auto simp: get_bytes_def overwrite_def put_bytes_def)

lemma overwrite_inside: "p \<le> length c \<Longrightarrow> overwrite c p bs = take p c @ bs @ drop (p + length bs) c"
  by (simp add: overwrite_def put_bytes_def)

lemma get_bytes_length: "length (get_bytes c p n) = min n (length c - p)"
  by (simp add: get_bytes_def min.commute)

lemma get_bytes_self [simp]: "get_bytes c p (length (get_bytes c p n)) = get_bytes c p n"
  by (auto simp: get_bytes_def min_def)

lemma get_bytes_get: "i + k \<le> n \<Longrightarrow> get_bytes c (p + i) k = get_bytes (get_bytes c p n) i k"
  by (simp add: get_bytes_def drop_take min_absorb1 add.commute)

lemma get_bytes_split:
  assumes "k \<le> n" and "length (get_bytes c p k) = k"
  shows "get_bytes c p n = get_bytes c p k @ get_bytes c (p + k) (n - k)"
  using assms take_add [of k "n - k" "drop p c"] by (simp add: get_bytes_def add.commute)

lemma put_bytes_append:
  assumes "p + length xs + length ys \<le> length buf"
  shows "put_bytes (put_bytes buf p xs) (p + length xs) ys = put_bytes buf p (xs @ ys)"
  using assms by (simp add: put_bytes_def ac_simps)

locale byte_file =
  fixes vt :: "'s Stream"
    and file_at :: "bytecs list \<Rightarrow> nat \<Rightarrow> 's \<Rightarrow> bool"
  assumes file_fits: "file_at c p s \<Longrightarrow> fits c p"
    and file_can: "file_at c p s \<Longrightarrow> vCanRead vt s \<and> vCanWrite vt s \<and> vCanSeek vt s"
    and read_ok: "file_at c p s \<Longrightarrow> 0 \<le> off \<Longrightarrow> 0 \<le> n \<Longrightarrow> off + n \<le> int (length buf) \<Longrightarrow>
      off + n \<le> INTCS_MAX \<Longrightarrow>
      runs (vRead vt (Some buf) off n) s
        (int (length (get_bytes c p (nat n))), put_bytes buf (nat off) (get_bytes c p (nat n)))
        (file_at c (p + length (get_bytes c p (nat n))))"
    and write_ok: "file_at c p s \<Longrightarrow> 0 \<le> off \<Longrightarrow> 0 \<le> n \<Longrightarrow> off + n \<le> int (length buf) \<Longrightarrow> int p + n \<le> INTCS_MAX \<Longrightarrow>
      runs (vWrite vt (Some buf) off n) s () (file_at (overwrite c p (get_bytes buf (nat off) (nat n))) (p + nat n))"
    and write_byte_ok: "file_at c p s \<Longrightarrow> p \<le> length c \<Longrightarrow> int p < INTCS_MAX \<Longrightarrow>
      runs (vWriteByte vt b) s () (file_at (overwrite c p [b]) (p + 1))"
    and read_byte_ok: "file_at c p s \<Longrightarrow>
      runs (vReadByte vt) s (if p < length c then uint (c ! p) else - 1) (file_at c (if p < length c then p + 1 else p))"
    and flush_ok: "file_at c p s \<Longrightarrow> runs (vFlush vt) s () (file_at c p)"
    and get_length_ok: "file_at c p s \<Longrightarrow> runs (vGetLength vt) s (int (length c)) (file_at c p)"
    and get_position_ok: "file_at c p s \<Longrightarrow> runs (vGetPosition vt) s (int p) (file_at c p)"
    and set_position_ok: "file_at c p s \<Longrightarrow> 0 \<le> v \<Longrightarrow> v \<le> INTCS_MAX \<Longrightarrow> runs (vSetPosition vt v) s () (file_at c (nat v))"
    and seek_ok: "file_at c p s \<Longrightarrow> seek_target c p offset origin = Some t \<Longrightarrow> 0 \<le> t \<Longrightarrow> t \<le> INTCS_MAX \<Longrightarrow>
      runs (vSeek vt offset origin) s t (file_at c (nat t))"
    and seek_before: "file_at c p s \<Longrightarrow> seek_target c p offset origin = Some t \<Longrightarrow> t < 0 \<Longrightarrow>
      INTCS_MIN \<le> offset \<Longrightarrow> INTCS_MIN + int (length c) \<le> offset + int p \<Longrightarrow>
      fails (vSeek vt offset origin) s
        (IOException ''An attempt was made to move the position before the beginning of the stream.'') (file_at c p)"
    and set_length_ok: "file_at c p s \<Longrightarrow> 0 \<le> v \<Longrightarrow> v \<le> INTCS_MAX \<Longrightarrow>
      runs (vSetLength vt v) s () (file_at (vector_resize (nat v) c) (min p (nat v)))"

section \<open>MemoryStream is a byte file\<close>

definition memory_file :: "bytecs list \<Rightarrow> nat \<Rightarrow> MemoryStream \<Rightarrow> bool" where
  "memory_file c p s \<longleftrightarrow> fits c p \<and> s = \<lparr>ms_data = c, ms_position = int p, ms_writable = True, ms_isOpen = True\<rparr>"

lemma intcs_of_size_eq [simp]: "int n \<le> INTCS_MAX \<Longrightarrow> intcs_of_size n = int n"
  by (simp add: intcs_of_size_def INTCS_MAX_def sint_uint unsigned_of_nat take_bit_nat_eq_self
      signed_take_bit_int_eq_self)

lemma copy_to_put: "0 \<le> off \<Longrightarrow> off + int (length bs) \<le> int (length buf) \<Longrightarrow>
    copy_to buf off bs = Some (put_bytes buf (nat off) bs)"
  by (simp add: copy_to_def put_bytes_def)

lemma copy_from_get: "0 \<le> off \<Longrightarrow> 0 \<le> n \<Longrightarrow> off + n \<le> int (length buf) \<Longrightarrow>
    copy_from buf off n = Some (get_bytes buf (nat off) (nat n))"
  by (simp add: copy_from_def get_bytes_def)

lemma Stream_ReadByte_of_read:
  assumes "runs (rd (Some [0]) 0 1) s (int (length (get_bytes c p 1)), put_bytes [0] 0 (get_bytes c p 1))
             (file_at c (p + length (get_bytes c p 1)))"
  shows "runs (Stream_ReadByte rd) s (if p < length c then uint (c ! p) else - 1)
           (file_at c (if p < length c then p + 1 else p))"
proof (cases "p < length c")
  case True
  then have "get_bytes c p 1 = [c ! p]"
    by (simp add: get_bytes_def take_Suc_conv_app_nth hd_drop_conv_nth)
  then show ?thesis
    using assms True by (auto simp: Stream_ReadByte_def put_bytes_def intro: runs_bind)
next
  case False
  then have "get_bytes c p 1 = []" by (simp add: get_bytes_def)
  then show ?thesis using assms False by (auto simp: Stream_ReadByte_def intro: runs_bind)
qed

lemma Stream_Seek_of_laws:
  assumes gp: "runs getP s (int p) (file_at c p)" and gl: "runs getL s (int (length c)) (file_at c p)"
    and sp: "\<And>v s. file_at c p s \<Longrightarrow> 0 \<le> v \<Longrightarrow> v \<le> INTCS_MAX \<Longrightarrow> runs (setP v) s () (file_at c (nat v))"
    and s: "file_at c p s" and t: "seek_target c p offset origin = Some t" "0 \<le> t" "t \<le> INTCS_MAX"
  shows "runs (Stream_Seek getP getL setP offset origin) s t (file_at c (nat t))"
proof -
  have "runs (case origin of Begin \<Rightarrow> io_return offset | Current \<Rightarrow> io_bind getP (\<lambda>p. intcs_add p offset)
      | End \<Rightarrow> io_bind getL (\<lambda>l. intcs_add l offset) | OtherOrigin _ \<Rightarrow> io_throw (ArgumentException ''origin''))
      s t (file_at c p)"
    using gp gl s t
    by (cases origin)
       (auto simp: seek_target_def runs_intcs_add INTCS_MIN_def intro!: runs_bind [OF gp] runs_bind [OF gl])
  then show ?thesis
    unfolding Stream_Seek_def
    by (rule runs_bind) (use t sp in \<open>auto intro!: runs_then\<close>)
qed

lemma Stream_Seek_before:
  assumes gp: "runs getP s (int p) (file_at c p)" and gl: "runs getL s (int (length c)) (file_at c p)"
    and s: "file_at c p s" and t: "seek_target c p offset origin = Some t" "t < 0" and o: "INTCS_MIN \<le> offset"
  shows "fails (Stream_Seek getP getL setP offset origin) s
      (IOException ''An attempt was made to move the position before the beginning of the stream.'') (file_at c p)"
proof -
  have "runs (case origin of Begin \<Rightarrow> io_return offset | Current \<Rightarrow> io_bind getP (\<lambda>p. intcs_add p offset)
      | End \<Rightarrow> io_bind getL (\<lambda>l. intcs_add l offset) | OtherOrigin _ \<Rightarrow> io_throw (ArgumentException ''origin''))
      s t (file_at c p)"
    using gp gl s t o
    by (cases origin)
       (auto simp: seek_target_def runs_intcs_add INTCS_MAX_def intro!: runs_bind [OF gp] runs_bind [OF gl])
  then show ?thesis
    unfolding Stream_Seek_def by (rule runs_fails_bind) (use t in auto)
qed

lemmas memory_stream_defs =
  MemoryStream_vtable_def MemoryStream_Read_def MemoryStream_Write_def MemoryStream_WriteByte_def
  MemoryStream_Flush_def MemoryStream_getLength_def MemoryStream_getPosition_def MemoryStream_setPosition_def
  MemoryStream_SetLength_def MS_ensureNotClosed_def MS_ensureWritable_def MS_validate_def

lemma memory_guard: "memory_file c p s \<Longrightarrow> runs MS_ensureNotClosed s () (memory_file c p)"
  "memory_file c p s \<Longrightarrow> runs MS_ensureWritable s () (memory_file c p)"
  by (simp_all add: memory_file_def MS_ensureNotClosed_def MS_ensureWritable_def)

lemma memory_length: "memory_file c p s \<Longrightarrow> MS_length s = int (length c)"
  by (simp add: memory_file_def MS_length_def fits_def)

lemma memory_read:
  assumes s: "memory_file c p s" and "0 \<le> off" "0 \<le> n" "off + n \<le> int (length buf)"
  shows "runs (MemoryStream_Read (Some buf) off n) s
        (int (length (get_bytes c p (nat n))), put_bytes buf (nat off) (get_bytes c p (nat n)))
        (memory_file c (p + length (get_bytes c p (nat n))))"
proof -
  define k where "k = min n (int (length c) - int p)"
  have "runs (MS_read_copy buf off n) s
        (int (length (get_bytes c p (nat n))), put_bytes buf (nat off) (get_bytes c p (nat n)))
        (memory_file c (p + length (get_bytes c p (nat n))))"
  proof (cases "k \<le> 0")
    case True
    then have "get_bytes c p (nat n) = []" by (auto simp: k_def get_bytes_def min_def split: if_splits)
    then show ?thesis
      using True s memory_length [OF s] by (auto simp: MS_read_copy_def k_def memory_file_def runs_def Let_def)
  next
    case False
    have g: "take (nat k) (drop p c) = get_bytes c p (nat n)"
      by (auto simp: k_def get_bytes_def min_def nat_diff_distrib)
    have l: "int (length (get_bytes c p (nat n))) = k"
      using False assms(3) by (auto simp: k_def get_bytes_length min_def)
    have "copy_to buf off (get_bytes c p (nat n)) = Some (put_bytes buf (nat off) (get_bytes c p (nat n)))"
      using assms l by (intro copy_to_put) (auto simp: k_def)
    moreover have "fits c (p + length (get_bytes c p (nat n)))"
      using s False l by (auto simp: memory_file_def fits_def get_bytes_length)
    ultimately show ?thesis
      using False s memory_length [OF s] g l
      by (auto simp: MS_read_copy_def memory_file_def runs_def Let_def k_def [symmetric])
  qed
  then show ?thesis
    unfolding MemoryStream_Read_def
    using assms
    by (intro runs_then [OF memory_guard(1) [OF s]] runs_bind [where r = buf and Q = "memory_file c p"])
       (auto simp: MS_validate_def memory_file_def)
qed

lemma resize_put:
  assumes "bs \<noteq> []"
  shows "put_bytes (if p + length bs > length c then vector_resize (p + length bs) c else c) p bs = overwrite c p bs"
  using assms by (auto simp: put_bytes_def overwrite_def vector_resize_def)

lemma memory_write:
  assumes s: "memory_file c p s" and a: "0 \<le> off" "0 \<le> n" "off + n \<le> int (length buf)" "int p + n \<le> INTCS_MAX"
  shows "runs (MemoryStream_Write (Some buf) off n) s ()
           (memory_file (overwrite c p (get_bytes buf (nat off) (nat n))) (p + nat n))"
proof -
  define bs where "bs = get_bytes buf (nat off) (nat n)"
  have l: "length bs = nat n" using a by (simp add: bs_def get_bytes_length)
  have "runs (MS_write_copy buf off n) s () (memory_file (overwrite c p bs) (p + nat n))"
  proof (cases "n = 0")
    case True
    then show ?thesis using s l by (simp add: MS_write_copy_def runs_def)
  next
    case False
    define d where "d = (if p + length bs > length c then vector_resize (p + length bs) c else c)"
    have d: "(if int p + n > MS_length s then vector_resize (nat (int p + n)) (ms_data s) else ms_data s) = d"
      using s a l memory_length [OF s] by (auto simp: d_def memory_file_def nat_add_distrib)
    have "p + length bs \<le> length d" by (auto simp: d_def vector_resize_def)
    then have "copy_to d (int p) bs = Some (overwrite c p bs)"
      using False a(2) l resize_put [of bs c p] copy_to_put [of "int p" bs d] by (force simp: d_def)
    moreover have "fits (overwrite c p bs) (p + nat n)"
      using s a l by (auto simp: fits_def memory_file_def length_overwrite)
    ultimately show ?thesis
      using False s a d copy_from_get [OF a(1-3)]
      by (auto simp: MS_write_copy_def memory_file_def runs_def Let_def bs_def [symmetric])
  qed
  then show ?thesis
    unfolding MemoryStream_Write_def bs_def
    using assms
    by (intro runs_then [OF memory_guard(1) [OF s]] runs_then [OF memory_guard(2)]
          runs_bind [where r = buf and Q = "memory_file c p"])
       (auto simp: MS_validate_def memory_file_def)
qed

lemma memory_write_byte:
  assumes s: "memory_file c p s" and "p \<le> length c" and "int p < INTCS_MAX"
  shows "runs (MemoryStream_WriteByte b) s () (memory_file (overwrite c p [b]) (p + 1))"
proof -
  have "(if int p \<ge> MS_length s then c @ [b] else c[p := b]) = overwrite c p [b]"
    using assms memory_length [OF s]
    by (auto simp: overwrite_def put_bytes_def upd_conv_take_nth_drop)
  then have "runs (MS_put_byte b) s () (memory_file (overwrite c p [b]) (p + 1))"
    using assms by (auto simp: MS_put_byte_def memory_file_def runs_def Let_def fits_def length_overwrite)
  then show ?thesis
    unfolding MemoryStream_WriteByte_def
    using s by (intro runs_then [OF memory_guard(1) [OF s]] runs_then [OF memory_guard(2)]) (simp_all add: memory_file_def)
qed

lemma memory_get_length: "memory_file c p s \<Longrightarrow> runs MemoryStream_getLength s (int (length c)) (memory_file c p)"
  unfolding MemoryStream_getLength_def
  by (rule runs_then [OF memory_guard(1)], assumption) (simp add: memory_length)

lemma memory_get_position: "memory_file c p s \<Longrightarrow> runs MemoryStream_getPosition s (int p) (memory_file c p)"
  unfolding MemoryStream_getPosition_def
  by (rule runs_then [OF memory_guard(1)], assumption) (simp add: memory_file_def)

lemma memory_set_position:
  "memory_file c p s \<Longrightarrow> 0 \<le> v \<Longrightarrow> v \<le> INTCS_MAX \<Longrightarrow> runs (MemoryStream_setPosition v) s () (memory_file c (nat v))"
  unfolding MemoryStream_setPosition_def
  by (rule runs_then [OF memory_guard(1)], assumption) (auto simp: memory_file_def fits_def)

lemma memory_set_length:
  "memory_file c p s \<Longrightarrow> 0 \<le> v \<Longrightarrow> v \<le> INTCS_MAX \<Longrightarrow>
   runs (MemoryStream_SetLength v) s () (memory_file (vector_resize (nat v) c) (min p (nat v)))"
  unfolding MemoryStream_SetLength_def
  by (rule runs_then [OF memory_guard(1)], assumption)
     (auto simp: memory_file_def fits_def vector_resize_def min_def intro!: runs_then [OF memory_guard(2)])

interpretation memory: byte_file MemoryStream_vtable memory_file
proof
  fix c p s off n offset origin t and buf :: "bytecs list"
  assume s: "memory_file c p s"
  show "fits c p" using s by (simp add: memory_file_def)
  show "vCanRead MemoryStream_vtable s \<and> vCanWrite MemoryStream_vtable s \<and> vCanSeek MemoryStream_vtable s"
    using s by (simp add: memory_file_def MemoryStream_vtable_def)
  show "runs (vReadByte MemoryStream_vtable) s (if p < length c then uint (c ! p) else - 1)
      (memory_file c (if p < length c then p + 1 else p))"
    unfolding MemoryStream_vtable_def Stream.select_convs
    by (rule Stream_ReadByte_of_read) (use memory_read [OF s, of 0 1 "[0]"] in simp)
  show "runs (vFlush MemoryStream_vtable) s () (memory_file c p)"
    using s by (simp add: MemoryStream_vtable_def MemoryStream_Flush_def)
  show "runs (vSeek MemoryStream_vtable offset origin) s t (memory_file c (nat t))"
    if "seek_target c p offset origin = Some t" "0 \<le> t" "t \<le> INTCS_MAX"
    using Stream_Seek_of_laws [where file_at = memory_file, OF memory_get_position [OF s] memory_get_length [OF s] memory_set_position s that]
    by (simp add: MemoryStream_vtable_def)
  show "fails (vSeek MemoryStream_vtable offset origin) s
     (IOException ''An attempt was made to move the position before the beginning of the stream.'') (memory_file c p)"
    if "seek_target c p offset origin = Some t" "t < 0" "INTCS_MIN \<le> offset"
    using Stream_Seek_before [where file_at = memory_file, OF memory_get_position [OF s] memory_get_length [OF s] s that(1,2)] that(3)
    by (simp add: MemoryStream_vtable_def)
qed (simp_all add: MemoryStream_vtable_def memory_read memory_write memory_write_byte [simplified] memory_get_length
      memory_get_position memory_set_position memory_set_length)

section \<open>Programs over a stream\<close>

text \<open>One call on a stream, with the arguments a client gives, and what the client sees of it.\<close>

datatype stream_call =
    CRead intcs
  | CWrite "bytecs list"
  | CWriteByte bytecs
  | CReadByte
  | CFlush
  | CGetLength
  | CGetPosition
  | CSetPosition intcs
  | CSeek intcs SeekOrigin
  | CSetLength intcs

datatype stream_reply = RBytes "bytecs list" | RInt int | RDone | RThrow exn | RLost

definition reply :: "('a \<Rightarrow> stream_reply) \<Rightarrow> 'a outcome \<times> 's \<Rightarrow> stream_reply \<times> 's" where
  "reply f r =
     (case r of (Returns x, s) \<Rightarrow> (f x, s) | (Throws e, s) \<Rightarrow> (RThrow e, s) | (_, s) \<Rightarrow> (RLost, s))"

definition stream_do :: "'s Stream \<Rightarrow> stream_call \<Rightarrow> 's \<Rightarrow> stream_reply \<times> 's" where
  "stream_do vt call s =
     (case call of
        CRead n \<Rightarrow> reply (\<lambda>(k, buf). RBytes (take (nat k) buf)) (vRead vt (Some (replicate (nat n) 0)) 0 n s)
      | CWrite bs \<Rightarrow> reply (\<lambda>_. RDone) (vWrite vt (Some bs) 0 (int (length bs)) s)
      | CWriteByte b \<Rightarrow> reply (\<lambda>_. RDone) (vWriteByte vt b s)
      | CReadByte \<Rightarrow> reply RInt (vReadByte vt s)
      | CFlush \<Rightarrow> reply (\<lambda>_. RDone) (vFlush vt s)
      | CGetLength \<Rightarrow> reply RInt (vGetLength vt s)
      | CGetPosition \<Rightarrow> reply RInt (vGetPosition vt s)
      | CSetPosition v \<Rightarrow> reply (\<lambda>_. RDone) (vSetPosition vt v s)
      | CSeek offset origin \<Rightarrow> reply RInt (vSeek vt offset origin s)
      | CSetLength v \<Rightarrow> reply (\<lambda>_. RDone) (vSetLength vt v s))"

primrec stream_run :: "'s Stream \<Rightarrow> stream_call list \<Rightarrow> 's \<Rightarrow> stream_reply list \<times> 's" where
  "stream_run vt [] s = ([], s)"
| "stream_run vt (call # calls) s =
     (case stream_do vt call s of (r, s') \<Rightarrow> case stream_run vt calls s' of (rs, s'') \<Rightarrow> (r # rs, s''))"

text \<open>
  The specification: a list of bytes and a position. \<open>file_ok\<close> are the calls it covers: no negative
  counts, sizes or positions, no position behind the largest \<^verbatim>\<open>intcs\<close>, seeks from the three origins whose sum
  does not overflow, and single bytes not written behind the end.
\<close>

definition file_do :: "stream_call \<Rightarrow> bytecs list \<times> nat \<Rightarrow> stream_reply \<times> bytecs list \<times> nat" where
  "file_do call f =
     (case f of (c, p) \<Rightarrow>
      (case call of
         CRead n \<Rightarrow> (RBytes (get_bytes c p (nat n)), c, p + length (get_bytes c p (nat n)))
       | CWrite bs \<Rightarrow> (RDone, overwrite c p bs, p + length bs)
       | CWriteByte b \<Rightarrow> (RDone, overwrite c p [b], p + 1)
       | CReadByte \<Rightarrow> if p < length c then (RInt (uint (c ! p)), c, p + 1) else (RInt (- 1), c, p)
       | CFlush \<Rightarrow> (RDone, c, p)
       | CGetLength \<Rightarrow> (RInt (int (length c)), c, p)
       | CGetPosition \<Rightarrow> (RInt (int p), c, p)
       | CSetPosition v \<Rightarrow> (RDone, c, nat v)
       | CSeek offset origin \<Rightarrow>
           (case seek_target c p offset origin of
              None \<Rightarrow> (RThrow (ArgumentException ''origin''), c, p)
            | Some t \<Rightarrow>
                if t < 0
                then (RThrow (IOException ''An attempt was made to move the position before the beginning of the stream.''),
                      c, p)
                else (RInt t, c, nat t))
       | CSetLength v \<Rightarrow> (RDone, vector_resize (nat v) c, min p (nat v))))"

primrec file_run :: "stream_call list \<Rightarrow> bytecs list \<times> nat \<Rightarrow> stream_reply list \<times> bytecs list \<times> nat" where
  "file_run [] f = ([], f)"
| "file_run (call # calls) f =
     (case file_do call f of (r, f') \<Rightarrow> case file_run calls f' of (rs, f'') \<Rightarrow> (r # rs, f''))"

definition file_ok :: "stream_call \<Rightarrow> bytecs list \<times> nat \<Rightarrow> bool" where
  "file_ok call f =
     (case f of (c, p) \<Rightarrow>
      (case call of
         CRead n \<Rightarrow> 0 \<le> n \<and> n \<le> INTCS_MAX
       | CWrite bs \<Rightarrow> int p + int (length bs) \<le> INTCS_MAX
       | CWriteByte b \<Rightarrow> p \<le> length c \<and> int p < INTCS_MAX
       | CSetPosition v \<Rightarrow> 0 \<le> v \<and> v \<le> INTCS_MAX
       | CSeek offset origin \<Rightarrow>
           (case seek_target c p offset origin of
              None \<Rightarrow> False
            | Some t \<Rightarrow> t \<le> INTCS_MAX \<and> INTCS_MIN + int (length c) \<le> offset)
       | CSetLength v \<Rightarrow> 0 \<le> v \<and> v \<le> INTCS_MAX
       | _ \<Rightarrow> True))"

primrec program_ok :: "stream_call list \<Rightarrow> bytecs list \<times> nat \<Rightarrow> bool" where
  "program_ok [] f \<longleftrightarrow> True"
| "program_ok (call # calls) f \<longleftrightarrow> file_ok call f \<and> program_ok calls (snd (file_do call f))"

lemma reply_runs: "runs m s r Q \<Longrightarrow> \<exists>s'. reply f (m s) = (f r, s') \<and> Q s'"
  by (auto simp: runs_def reply_def)

lemma reply_fails: "fails m s e Q \<Longrightarrow> \<exists>s'. reply f (m s) = (RThrow e, s') \<and> Q s'"
  by (auto simp: fails_def reply_def)

context byte_file
begin

lemma simulates:
  assumes s: "file_at c p s" and ok: "file_ok call (c, p)" and d: "file_do call (c, p) = (r, c', p')"
  shows "\<exists>s'. stream_do vt call s = (r, s') \<and> file_at c' p' s'"
proof (cases call)
  case (CRead n)
  have "take (length g) (put_bytes (replicate (nat n) 0) 0 g) = g" for g
    by (simp add: put_bytes_def)
  then show ?thesis
    using reply_runs [OF read_ok [OF s, of 0 n "replicate (nat n) 0"], of "\<lambda>(k, buf). RBytes (take (nat k) buf)"]
      CRead ok d
    by (auto simp: stream_do_def file_do_def file_ok_def)
next
  case (CWrite bs)
  have "get_bytes bs 0 (length bs) = bs" by (simp add: get_bytes_def)
  then show ?thesis
    using reply_runs [OF write_ok [OF s, of 0 "int (length bs)" bs], of "\<lambda>_. RDone"] CWrite ok d
    by (auto simp: stream_do_def file_do_def file_ok_def)
next
  case (CWriteByte b)
  then show ?thesis
    using reply_runs [OF write_byte_ok [OF s], of "\<lambda>_. RDone"] ok d
    by (auto simp: stream_do_def file_do_def file_ok_def)
next
  case CReadByte
  then show ?thesis
    using reply_runs [OF read_byte_ok [OF s], of RInt] d
    by (auto simp: stream_do_def file_do_def split: if_splits)
next
  case CFlush
  then show ?thesis
    using reply_runs [OF flush_ok [OF s], of "\<lambda>_. RDone"] d by (auto simp: stream_do_def file_do_def)
next
  case CGetLength
  then show ?thesis
    using reply_runs [OF get_length_ok [OF s], of RInt] d by (auto simp: stream_do_def file_do_def)
next
  case CGetPosition
  then show ?thesis
    using reply_runs [OF get_position_ok [OF s], of RInt] d by (auto simp: stream_do_def file_do_def)
next
  case (CSetPosition v)
  then show ?thesis
    using reply_runs [OF set_position_ok [OF s], of v "\<lambda>_. RDone"] ok d
    by (auto simp: stream_do_def file_do_def file_ok_def)
next
  case (CSeek offset origin)
  then obtain t where t: "seek_target c p offset origin = Some t" "t \<le> INTCS_MAX"
      and o: "INTCS_MIN \<le> offset" "INTCS_MIN + int (length c) \<le> offset + int p"
    using ok by (force simp: file_ok_def split: option.splits)
  show ?thesis
  proof (cases "t < 0")
    case True
    then show ?thesis
      using reply_fails [OF seek_before [OF s t(1) _ o], of RInt] CSeek d t
      by (auto simp: stream_do_def file_do_def)
  next
    case False
    then show ?thesis
      using reply_runs [OF seek_ok [OF s t(1) _ t(2)], of RInt] CSeek d t
      by (auto simp: stream_do_def file_do_def)
  qed
next
  case (CSetLength v)
  then show ?thesis
    using reply_runs [OF set_length_ok [OF s], of v "\<lambda>_. RDone"] ok d
    by (auto simp: stream_do_def file_do_def file_ok_def)
qed

lemma run_refines:
  assumes "file_at c p s" and "program_ok calls (c, p)" and "file_run calls (c, p) = (rs, c', p')"
  shows "\<exists>s'. stream_run vt calls s = (rs, s') \<and> file_at c' p' s'"
  using assms
proof (induction calls arbitrary: c p s rs)
  case (Cons call calls)
  obtain r c1 p1 where d: "file_do call (c, p) = (r, c1, p1)" by (metis prod_cases3)
  obtain rs1 where rs1: "file_run calls (c1, p1) = (rs1, c', p')" "rs = r # rs1"
    using Cons.prems(3) d by (auto split: prod.splits)
  obtain s1 where s1: "stream_do vt call s = (r, s1)" "file_at c1 p1 s1"
    using simulates [OF Cons.prems(1) _ d] Cons.prems(2) by auto
  show ?case
    using Cons.IH [OF s1(2) _ rs1(1)] Cons.prems(2) d s1(1) rs1(2) by auto
qed simp

end

end
