(* ===== verification/IO_Buffered.thy ===== *)
theory IO_Buffered
  imports IO_Stream
begin

text \<open>
  \<^verbatim>\<open>System/IO/BufferedStream.hpp\<close> and \<^verbatim>\<open>BufferedStream.cpp\<close>: one buffer for reads and writes in front of another
  stream, given by its virtual functions. Over any stream that is a byte file, a \<^verbatim>\<open>BufferedStream\<close> is a byte
  file again; the state of the buffer is invisible.
\<close>

section \<open>Model\<close>

record 's BufferedStream =
  bs_inner :: 's
  bs_ownsStream :: bool
  bs_bufferSize :: intcs
  bs_closed :: bool
  bs_buffer :: "bytecs list"
  bs_readPos :: intcs
  bs_readLen :: intcs
  bs_writePos :: intcs

definition kDefaultBufferSize :: intcs where
  "kDefaultBufferSize = 4096"

definition BufferedStream_ctor :: "'s option \<Rightarrow> intcs \<Rightarrow> bool \<Rightarrow> 's BufferedStream res" where
  "BufferedStream_ctor stream bufferSize ownsStream =
     (case stream of
        None \<Rightarrow> Inl (ArgumentNullException ''stream'')
      | Some inner \<Rightarrow>
          if bufferSize \<le> 0 then Inl (ArgumentOutOfRangeException ''bufferSize'')
          else Inr \<lparr>bs_inner = inner, bs_ownsStream = ownsStream, bs_bufferSize = bufferSize, bs_closed = False,
                    bs_buffer = [], bs_readPos = 0, bs_readLen = 0, bs_writePos = 0\<rparr>)"

definition BufferedStream_ctor_default :: "'s option \<Rightarrow> bool \<Rightarrow> 's BufferedStream res" where
  "BufferedStream_ctor_default stream ownsStream = BufferedStream_ctor stream kDefaultBufferSize ownsStream"

text \<open>A virtual call on the inner stream.\<close>

definition inner_call :: "('s, 'a) io \<Rightarrow> ('s BufferedStream, 'a) io" where
  "inner_call m b = (case m (bs_inner b) of (r, i) \<Rightarrow> (r, b\<lparr>bs_inner := i\<rparr>))"

definition BS_ensureNotClosed :: "('s BufferedStream, unit) io" where
  "BS_ensureNotClosed =
     io_if bs_closed (io_throw (ObjectDisposedException ''Cannot access a closed stream.'')) (io_return ())"

definition ensureBufferAllocated :: "('s BufferedStream, unit) io" where
  "ensureBufferAllocated =
     io_modify (\<lambda>b. if bs_buffer b = [] then b\<lparr>bs_buffer := replicate (nat (bs_bufferSize b)) 0\<rparr> else b)"

text \<open>The statement \<^verbatim>\<open>inner_->Write(buffer_.data(), 0, writePos_); writePos_ = 0;\<close>.\<close>

definition writeOut :: "'s Stream \<Rightarrow> ('s BufferedStream, unit) io" where
  "writeOut vt b =
     io_then (inner_call (vWrite vt (Some (bs_buffer b)) 0 (bs_writePos b)))
       (io_modify (\<lambda>b. b\<lparr>bs_writePos := 0\<rparr>)) b"

definition flushWrite :: "'s Stream \<Rightarrow> ('s BufferedStream, unit) io" where
  "flushWrite vt =
     io_if (\<lambda>b. bs_writePos b > 0) (io_then (writeOut vt) (inner_call (vFlush vt))) (io_return ())"

definition forgetRead :: "('s BufferedStream, unit) io" where
  "forgetRead = io_modify (\<lambda>b. b\<lparr>bs_readPos := 0, bs_readLen := 0\<rparr>)"

definition flushRead :: "'s Stream \<Rightarrow> ('s BufferedStream, unit) io" where
  "flushRead vt b =
     (if bs_readPos b \<noteq> bs_readLen b
      then io_then (inner_call (vSeek vt (bs_readPos b - bs_readLen b) Current)) forgetRead b
      else forgetRead b)"

definition clearReadBufferBeforeWrite :: "'s Stream \<Rightarrow> ('s BufferedStream, unit) io" where
  "clearReadBufferBeforeWrite vt =
     io_if (\<lambda>b. bs_readPos b = bs_readLen b) forgetRead
       (io_if (\<lambda>b. \<not> vCanSeek vt (bs_inner b))
          (io_throw (NotSupportedException ''Cannot write to a BufferedStream while the read buffer still has unconsumed data and the underlying stream does not support seeking.''))
          (flushRead vt))"

definition readFromBuffer :: "buffer \<Rightarrow> intcs \<Rightarrow> intcs \<Rightarrow> ('s BufferedStream, intcs \<times> buffer) io" where
  "readFromBuffer dst offset count b =
     (let available = bs_readLen b - bs_readPos b
      in if available \<le> 0 then (Returns (0, dst), b)
         else let n = min available count
              in case dst of
                   None \<Rightarrow> (Undefined, b)
                 | Some buf \<Rightarrow>
                     (case copy_from (bs_buffer b) (bs_readPos b) n of
                        None \<Rightarrow> (Undefined, b)
                      | Some bs \<Rightarrow>
                          (case copy_to buf offset bs of
                             None \<Rightarrow> (Undefined, b)
                           | Some buf' \<Rightarrow> (Returns (n, Some buf'), b\<lparr>bs_readPos := bs_readPos b + n\<rparr>))))"

text \<open>The contents behind the pointer the caller passed, as \<open>vRead\<close> returns them.\<close>

definition pointee :: "buffer \<Rightarrow> bytecs list" where
  "pointee dst = (case dst of None \<Rightarrow> [] | Some buf \<Rightarrow> buf)"

text \<open>The statement \<^verbatim>\<open>readLen_ = inner_->Read(buffer_.data(), 0, bufferSize_);\<close>.\<close>

definition refill :: "'s Stream \<Rightarrow> ('s BufferedStream, unit) io" where
  "refill vt b =
     io_bind (inner_call (vRead vt (Some (bs_buffer b)) 0 (bs_bufferSize b)))
       (\<lambda>(n, buf). io_modify (\<lambda>b. b\<lparr>bs_buffer := buf, bs_readLen := n\<rparr>)) b"

text \<open>\<^verbatim>\<open>Read\<close> from the point where the buffer is exhausted, with \<open>already\<close> bytes delivered.\<close>

definition read_inner ::
    "'s Stream \<Rightarrow> buffer \<Rightarrow> intcs \<Rightarrow> intcs \<Rightarrow> intcs \<Rightarrow> ('s BufferedStream, intcs \<times> bytecs list) io" where
  "read_inner vt dst offset count already =
     io_then forgetRead
      (io_then (flushWrite vt)
        (io_if (\<lambda>b. count \<ge> bs_bufferSize b)
          (io_bind (inner_call (vRead vt dst offset count))
            (\<lambda>(n, buf). io_bind (intcs_add n already) (\<lambda>r. io_return (r, buf))))
          (io_then ensureBufferAllocated
            (io_then (refill vt)
              (io_bind (readFromBuffer dst offset count)
                (\<lambda>(n, buf). io_bind (intcs_add n already) (\<lambda>r. io_return (r, pointee buf))))))))"

definition BufferedStream_Read ::
    "'s Stream \<Rightarrow> buffer \<Rightarrow> intcs \<Rightarrow> intcs \<Rightarrow> ('s BufferedStream, intcs \<times> bytecs list) io" where
  "BufferedStream_Read vt dst offset count =
     io_then BS_ensureNotClosed
       (io_bind (readFromBuffer dst offset count)
         (\<lambda>(fromBuffer, buf).
            if fromBuffer = count then io_return (fromBuffer, pointee buf)
            else if fromBuffer > 0
            then io_bind (intcs_add offset fromBuffer)
                   (\<lambda>offset'. read_inner vt buf offset' (count - fromBuffer) fromBuffer)
            else read_inner vt buf offset count fromBuffer))"

text \<open>One round of the loop of \<^verbatim>\<open>Write\<close> that does not write through; it returns the new offset and count.\<close>

definition fillBuffer :: "buffer \<Rightarrow> intcs \<Rightarrow> intcs \<Rightarrow> ('s BufferedStream, unit) io" where
  "fillBuffer src offset n b =
     (case src of
        None \<Rightarrow> (Undefined, b)
      | Some buf \<Rightarrow>
          (case copy_from buf offset n of
             None \<Rightarrow> (Undefined, b)
           | Some bs \<Rightarrow>
               (case copy_to (bs_buffer b) (bs_writePos b) bs of
                  None \<Rightarrow> (Undefined, b)
                | Some buf' \<Rightarrow> (Returns (), b\<lparr>bs_buffer := buf', bs_writePos := bs_writePos b + n\<rparr>))))"

definition write_round :: "'s Stream \<Rightarrow> buffer \<Rightarrow> intcs \<Rightarrow> intcs \<Rightarrow> ('s BufferedStream, intcs \<times> intcs) io" where
  "write_round vt src offset count =
     io_bind (io_get (\<lambda>b. min (bs_bufferSize b - bs_writePos b) count))
       (\<lambda>n. io_then
          (if n > 0 then io_then ensureBufferAllocated (fillBuffer src offset n) else io_return ())
          (io_then
             (io_if (\<lambda>b. bs_writePos b = bs_bufferSize b) (writeOut vt) (io_return ()))
             (if n > 0 then io_return (offset + n, count - n) else io_return (offset, count))))"

partial_function (option) write_loop ::
    "'s Stream \<Rightarrow> buffer \<Rightarrow> intcs \<Rightarrow> intcs \<Rightarrow> 's BufferedStream \<Rightarrow> (unit outcome \<times> 's BufferedStream) option" where
  "write_loop vt src offset count b =
     (if count > 0
      then if bs_writePos b = 0 \<and> count \<ge> bs_bufferSize b
           then Some (inner_call (vWrite vt src offset count) b)
           else (case write_round vt src offset count b of
                   (Returns r, b') \<Rightarrow> write_loop vt src (fst r) (snd r) b'
                 | (Throws e, b') \<Rightarrow> Some (Throws e, b')
                 | (Undefined, b') \<Rightarrow> Some (Undefined, b')
                 | (Diverges, b') \<Rightarrow> Some (Diverges, b'))
      else Some (Returns (), b))"

definition BufferedStream_Write :: "'s Stream \<Rightarrow> buffer \<Rightarrow> intcs \<Rightarrow> intcs \<Rightarrow> ('s BufferedStream, unit) io" where
  "BufferedStream_Write vt src offset count =
     io_then BS_ensureNotClosed
       (io_then (io_if (\<lambda>b. bs_writePos b = 0) (clearReadBufferBeforeWrite vt) (io_return ()))
         (io_loop (write_loop vt src offset count)))"

text \<open>The statement \<^verbatim>\<open>buffer_[writePos_++] = value;\<close>, behind a guard that keeps \<open>writePos_\<close> inside.\<close>

definition storeByte :: "bytecs \<Rightarrow> ('s BufferedStream, unit) io" where
  "storeByte value b =
     (if 0 \<le> bs_writePos b \<and> bs_writePos b < int (length (bs_buffer b))
      then (Returns (), b\<lparr>bs_buffer := (bs_buffer b)[nat (bs_writePos b) := value], bs_writePos := bs_writePos b + 1\<rparr>)
      else (Undefined, b))"

definition BufferedStream_WriteByte :: "'s Stream \<Rightarrow> bytecs \<Rightarrow> ('s BufferedStream, unit) io" where
  "BufferedStream_WriteByte vt value =
     io_then BS_ensureNotClosed
       (io_then (io_if (\<lambda>b. bs_writePos b = 0) (clearReadBufferBeforeWrite vt) (io_return ()))
         (io_then ensureBufferAllocated
           (io_then (io_if (\<lambda>b. bs_writePos b \<ge> bs_bufferSize b) (writeOut vt) (io_return ()))
             (storeByte value))))"

definition innerFlush :: "'s Stream \<Rightarrow> ('s BufferedStream, unit) io" where
  "innerFlush vt = io_if (\<lambda>b. vCanWrite vt (bs_inner b)) (inner_call (vFlush vt)) (io_return ())"

definition BufferedStream_Flush :: "'s Stream \<Rightarrow> ('s BufferedStream, unit) io" where
  "BufferedStream_Flush vt =
     io_then BS_ensureNotClosed
       (io_if (\<lambda>b. bs_writePos b > 0) (flushWrite vt)
         (io_if (\<lambda>b. bs_readPos b < bs_readLen b)
           (io_then (io_if (\<lambda>b. vCanSeek vt (bs_inner b)) (flushRead vt) (io_return ())) (innerFlush vt))
           (io_then (innerFlush vt)
             (io_modify (\<lambda>b. b\<lparr>bs_writePos := 0, bs_readPos := 0, bs_readLen := 0\<rparr>)))))"

definition closeInner :: "'s Stream \<Rightarrow> ('s BufferedStream, unit) io" where
  "closeInner vt =
     io_then (io_modify (\<lambda>b. b\<lparr>bs_closed := True\<rparr>))
       (io_if bs_ownsStream (inner_call (vClose vt)) (io_return ()))"

definition BufferedStream_Close :: "'s Stream \<Rightarrow> ('s BufferedStream, unit) io" where
  "BufferedStream_Close vt b =
     (if bs_closed b then (Returns (), b)
      else case BufferedStream_Flush vt b of
             (Returns _, b') \<Rightarrow> closeInner vt b'
           | (Throws e, b') \<Rightarrow> io_then (closeInner vt) (io_throw e) b'
           | (Undefined, b') \<Rightarrow> (Undefined, b')
           | (Diverges, b') \<Rightarrow> (Diverges, b'))"

definition BufferedStream_dtor :: "'s Stream \<Rightarrow> 's BufferedStream \<Rightarrow> 's" where
  "BufferedStream_dtor vt b = bs_inner (snd (BufferedStream_Close vt b))"

definition BufferedStream_getPosition :: "'s Stream \<Rightarrow> ('s BufferedStream, intcs) io" where
  "BufferedStream_getPosition vt =
     io_then BS_ensureNotClosed
       (io_if (\<lambda>b. \<not> vCanSeek vt (bs_inner b)) (io_throw (NotSupportedException ''Stream does not support seeking.''))
         (io_bind (inner_call (vGetPosition vt))
           (\<lambda>p. io_bind (io_get (\<lambda>b. bs_readPos b - bs_readLen b + bs_writePos b)) (\<lambda>d. intcs_add p d))))"

text \<open>\<^verbatim>\<open>Seek\<close> after the move of the inner stream to \<open>newPos\<close>: keep the buffer if it still covers the position.\<close>

definition keepBuffer :: "'s Stream \<Rightarrow> intcs \<Rightarrow> intcs \<Rightarrow> ('s BufferedStream, intcs) io" where
  "keepBuffer vt oldPos newPos =
     io_bind (io_bind (io_bind (io_get bs_readPos) (intcs_sub oldPos)) (intcs_sub newPos))
       (\<lambda>candidate.
          io_then
            (io_if (\<lambda>b. 0 \<le> candidate \<and> candidate < bs_readLen b)
              (io_then (io_modify (\<lambda>b. b\<lparr>bs_readPos := candidate\<rparr>))
                (io_bind (io_get (\<lambda>b. bs_readLen b - bs_readPos b))
                  (\<lambda>d. io_then (inner_call (vSeek vt d Current)) (io_return ()))))
              forgetRead)
            (io_return newPos))"

definition BufferedStream_Seek :: "'s Stream \<Rightarrow> intcs \<Rightarrow> SeekOrigin \<Rightarrow> ('s BufferedStream, intcs) io" where
  "BufferedStream_Seek vt offset origin =
     io_then BS_ensureNotClosed
       (io_if (\<lambda>b. \<not> vCanSeek vt (bs_inner b)) (io_throw (NotSupportedException ''Stream does not support seeking.''))
         (io_if (\<lambda>b. bs_writePos b > 0)
           (io_then (flushWrite vt) (inner_call (vSeek vt offset origin)))
           (io_bind
             (io_if (\<lambda>b. bs_readLen b - bs_readPos b > 0 \<and> origin = Current)
               (io_bind (io_get (\<lambda>b. bs_readLen b - bs_readPos b)) (intcs_sub offset))
               (io_return offset))
             (\<lambda>offset'.
                io_bind (BufferedStream_getPosition vt)
                  (\<lambda>oldPos. io_bind (inner_call (vSeek vt offset' origin)) (keepBuffer vt oldPos))))))"

definition BufferedStream_SetLength :: "'s Stream \<Rightarrow> intcs \<Rightarrow> ('s BufferedStream, unit) io" where
  "BufferedStream_SetLength vt value =
     (if value < 0 then io_throw (ArgumentOutOfRangeException ''value'')
      else io_then BS_ensureNotClosed
       (io_if (\<lambda>b. \<not> vCanSeek vt (bs_inner b)) (io_throw (NotSupportedException ''Stream does not support seeking.''))
         (io_if (\<lambda>b. \<not> vCanWrite vt (bs_inner b)) (io_throw (NotSupportedException ''Stream does not support writing.''))
           (io_then (BufferedStream_Flush vt) (inner_call (vSetLength vt value))))))"

definition BufferedStream_getLength :: "'s Stream \<Rightarrow> ('s BufferedStream, intcs) io" where
  "BufferedStream_getLength vt =
     io_then BS_ensureNotClosed (io_then (flushWrite vt) (inner_call (vGetLength vt)))"

definition BufferedStream_setPosition :: "'s Stream \<Rightarrow> intcs \<Rightarrow> ('s BufferedStream, unit) io" where
  "BufferedStream_setPosition vt value =
     (if value < 0 then io_throw (ArgumentOutOfRangeException ''value'')
      else io_then (BufferedStream_Seek vt value Begin) (io_return ()))"

definition BufferedStream_vtable :: "'s Stream \<Rightarrow> 's BufferedStream Stream" where
  "BufferedStream_vtable vt =
     \<lparr>vRead = BufferedStream_Read vt,
      vWrite = BufferedStream_Write vt,
      vWriteByte = BufferedStream_WriteByte vt,
      vReadByte = Stream_ReadByte (BufferedStream_Read vt),
      vFlush = BufferedStream_Flush vt,
      vClose = BufferedStream_Close vt,
      vGetLength = BufferedStream_getLength vt,
      vGetPosition = BufferedStream_getPosition vt,
      vSetPosition = BufferedStream_setPosition vt,
      vSeek = BufferedStream_Seek vt,
      vSetLength = BufferedStream_SetLength vt,
      vCanRead = (\<lambda>b. \<not> bs_closed b \<and> vCanRead vt (bs_inner b)),
      vCanWrite = (\<lambda>b. \<not> bs_closed b \<and> vCanWrite vt (bs_inner b)),
      vCanSeek = (\<lambda>b. \<not> bs_closed b \<and> vCanSeek vt (bs_inner b))\<rparr>"

section \<open>The buffer is invisible\<close>

definition buffered_frame :: "'s BufferedStream \<Rightarrow> bool" where
  "buffered_frame b \<longleftrightarrow> \<not> bs_closed b \<and> 0 < bs_bufferSize b \<and> bs_bufferSize b \<le> INTCS_MAX \<and>
     (bs_buffer b = [] \<or> int (length (bs_buffer b)) = bs_bufferSize b)"

text \<open>
  Bytes waiting in the buffer to be written behind the position of the inner stream (possibly none), or
  bytes read ahead of the logical position, which the inner stream has already passed.
\<close>

definition buffered_pending :: "(bytecs list \<Rightarrow> nat \<Rightarrow> 's \<Rightarrow> bool) \<Rightarrow> bytecs list \<Rightarrow> nat \<Rightarrow> 's BufferedStream \<Rightarrow> bool" where
  "buffered_pending file_at c p b \<longleftrightarrow> buffered_frame b \<and> fits c p \<and> bs_readPos b = 0 \<and> bs_readLen b = 0 \<and>
     (\<exists>ci pi w. file_at ci pi (bs_inner b) \<and> bs_writePos b = int w \<and> w \<le> length (bs_buffer b) \<and>
        c = overwrite ci pi (take w (bs_buffer b)) \<and> p = pi + w)"

definition buffered_ahead :: "(bytecs list \<Rightarrow> nat \<Rightarrow> 's \<Rightarrow> bool) \<Rightarrow> bytecs list \<Rightarrow> nat \<Rightarrow> 's BufferedStream \<Rightarrow> bool" where
  "buffered_ahead file_at c p b \<longleftrightarrow> buffered_frame b \<and> bs_writePos b = 0 \<and>
     (\<exists>pi rp rl. file_at c pi (bs_inner b) \<and> bs_readPos b = int rp \<and> bs_readLen b = int rl \<and> rp \<le> rl \<and>
        rl \<le> length (bs_buffer b) \<and> rl \<le> pi \<and> get_bytes c (pi - rl) rl = take rl (bs_buffer b) \<and> p = pi - rl + rp)"

definition buffered_file :: "(bytecs list \<Rightarrow> nat \<Rightarrow> 's \<Rightarrow> bool) \<Rightarrow> bytecs list \<Rightarrow> nat \<Rightarrow> 's BufferedStream \<Rightarrow> bool" where
  "buffered_file file_at c p b \<longleftrightarrow> buffered_pending file_at c p b \<or> buffered_ahead file_at c p b"

text \<open>Nothing in the buffer.\<close>

definition buffered_empty :: "(bytecs list \<Rightarrow> nat \<Rightarrow> 's \<Rightarrow> bool) \<Rightarrow> bytecs list \<Rightarrow> nat \<Rightarrow> 's BufferedStream \<Rightarrow> bool" where
  "buffered_empty file_at c p b \<longleftrightarrow> buffered_frame b \<and> file_at c p (bs_inner b) \<and>
     bs_readPos b = 0 \<and> bs_readLen b = 0 \<and> bs_writePos b = 0"

text \<open>Everything read ahead has been delivered.\<close>

definition buffered_drained :: "(bytecs list \<Rightarrow> nat \<Rightarrow> 's \<Rightarrow> bool) \<Rightarrow> bytecs list \<Rightarrow> nat \<Rightarrow> 's BufferedStream \<Rightarrow> bool" where
  "buffered_drained file_at c p b \<longleftrightarrow>
     buffered_pending file_at c p b \<or> buffered_ahead file_at c p b \<and> bs_readPos b = bs_readLen b"

lemma buffered_pendingI:
  "buffered_frame b \<Longrightarrow> fits c p \<Longrightarrow> bs_readPos b = 0 \<Longrightarrow> bs_readLen b = 0 \<Longrightarrow> file_at ci pi (bs_inner b) \<Longrightarrow>
   bs_writePos b = int w \<Longrightarrow> w \<le> length (bs_buffer b) \<Longrightarrow> c = overwrite ci pi (take w (bs_buffer b)) \<Longrightarrow> p = pi + w \<Longrightarrow>
   buffered_pending file_at c p b"
  by (auto simp: buffered_pending_def)

lemma buffered_aheadI:
  "buffered_frame b \<Longrightarrow> bs_writePos b = 0 \<Longrightarrow> file_at c pi (bs_inner b) \<Longrightarrow> bs_readPos b = int rp \<Longrightarrow>
   bs_readLen b = int rl \<Longrightarrow> rp \<le> rl \<Longrightarrow> rl \<le> length (bs_buffer b) \<Longrightarrow> rl \<le> pi \<Longrightarrow>
   get_bytes c (pi - rl) rl = take rl (bs_buffer b) \<Longrightarrow> p = pi - rl + rp \<Longrightarrow> buffered_ahead file_at c p b"
  by (auto simp: buffered_ahead_def)

lemma runs_inner_call: "runs m (bs_inner b) r Q \<Longrightarrow> runs (inner_call m) b r (\<lambda>b'. \<exists>i. b' = b\<lparr>bs_inner := i\<rparr> \<and> Q i)"
  by (auto simp: runs_def inner_call_def split: prod.splits)

lemma fails_inner_call: "fails m (bs_inner b) e Q \<Longrightarrow> fails (inner_call m) b e (\<lambda>b'. \<exists>i. b' = b\<lparr>bs_inner := i\<rparr> \<and> Q i)"
  by (auto simp: fails_def inner_call_def split: prod.splits)

lemma runs_open: "buffered_frame b \<Longrightarrow> P b \<Longrightarrow> runs BS_ensureNotClosed b () P"
  by (simp add: BS_ensureNotClosed_def buffered_frame_def)

lemma buffered_file_frame: "buffered_file file_at c p b \<Longrightarrow> buffered_frame b"
  by (auto simp: buffered_file_def buffered_pending_def buffered_ahead_def)

lemma runs_open_file:
  "buffered_file file_at c p b \<Longrightarrow> (\<And>b'. buffered_file file_at c p b' \<Longrightarrow> runs m b' r P) \<Longrightarrow>
   runs (io_then BS_ensureNotClosed m) b r P"
  by (rule runs_then [OF runs_open [OF buffered_file_frame]]) assumption+

lemma fails_open_file:
  "buffered_file file_at c p b \<Longrightarrow> (\<And>b'. buffered_file file_at c p b' \<Longrightarrow> fails m b' r P) \<Longrightarrow>
   fails (io_then BS_ensureNotClosed m) b r P"
  by (rule runs_fails_then [OF runs_open [OF buffered_file_frame]]) assumption+

context byte_file
begin

lemma empty_pending: "buffered_empty file_at c p b \<Longrightarrow> buffered_pending file_at c p b"
  using file_fits by (auto simp: buffered_empty_def buffered_pending_def)

lemma empty_ahead: "buffered_empty file_at c p b \<Longrightarrow> buffered_ahead file_at c p b"
  by (auto simp: buffered_empty_def buffered_ahead_def get_bytes_def)

lemma pending_empty: "buffered_pending file_at c p b \<Longrightarrow> bs_writePos b = 0 \<Longrightarrow> buffered_empty file_at c p b"
  by (auto simp: buffered_empty_def buffered_pending_def)

lemma empty_file: "buffered_empty file_at c p b \<Longrightarrow> buffered_file file_at c p b"
  by (simp add: buffered_file_def empty_pending)

lemma buffered_fits:
  assumes "buffered_file file_at c p b"
  shows "fits c p"
  using assms file_fits
  by (auto simp: buffered_file_def buffered_pending_def buffered_ahead_def) (auto simp: fits_def dest!: file_fits)

lemma buffered_can:
  assumes "buffered_file file_at c p b"
  shows "vCanRead vt (bs_inner b) \<and> vCanWrite vt (bs_inner b) \<and> vCanSeek vt (bs_inner b)"
  using assms file_can by (auto simp: buffered_file_def buffered_pending_def buffered_ahead_def)

lemma writeOut_keeps:
  assumes "buffered_pending file_at c p b"
  shows "runs (writeOut vt) b () (\<lambda>b'. buffered_empty file_at c p b' \<and> bs_buffer b' = bs_buffer b \<and>
     bs_bufferSize b' = bs_bufferSize b)"
proof -
  obtain ci pi w where *: "file_at ci pi (bs_inner b)" "bs_writePos b = int w" "w \<le> length (bs_buffer b)"
      "c = overwrite ci pi (take w (bs_buffer b))" "p = pi + w" and f: "fits c p"
    using assms by (auto simp: buffered_pending_def)
  have "runs (vWrite vt (Some (bs_buffer b)) 0 (int w)) (bs_inner b) () (file_at c p)"
    using write_ok [OF *(1), of 0 "int w" "bs_buffer b"] * f by (auto simp: get_bytes_def fits_def)
  from runs_inner_call [OF this] show ?thesis
    unfolding runs_def writeOut_def [of vt b] io_then_def
    using * assms
    by (auto simp: io_bind_def io_modify_def buffered_empty_def buffered_pending_def buffered_frame_def)
qed

lemma writeOut_empties:
  "buffered_pending file_at c p b \<Longrightarrow> runs (writeOut vt) b () (buffered_empty file_at c p)"
  by (rule runs_mono [OF writeOut_keeps]) auto

lemma inner_flush: "buffered_empty file_at c p b \<Longrightarrow> runs (inner_call (vFlush vt)) b () (buffered_empty file_at c p)"
  by (rule runs_mono [OF runs_inner_call [OF flush_ok [of c p]]])
     (auto simp: buffered_empty_def buffered_frame_def)

lemma flushWrite_pending:
  assumes "buffered_pending file_at c p b"
  shows "runs (flushWrite vt) b () (buffered_empty file_at c p)"
proof (cases "bs_writePos b > 0")
  case True
  then show ?thesis
    using assms by (auto simp: flushWrite_def intro!: runs_then [OF writeOut_empties] inner_flush)
next
  case False
  then have "bs_writePos b = 0" using assms by (auto simp: buffered_pending_def)
  then show ?thesis using pending_empty [OF assms] by (simp add: flushWrite_def)
qed

lemma flushRead_ahead:
  assumes "buffered_ahead file_at c p b"
  shows "runs (flushRead vt) b () (buffered_empty file_at c p)"
proof -
  obtain pi rp rl where *: "file_at c pi (bs_inner b)" "bs_readPos b = int rp" "bs_readLen b = int rl" "rp \<le> rl"
      "rl \<le> pi" "p = pi - rl + rp"
    using assms by (auto simp: buffered_ahead_def)
  show ?thesis
  proof (cases "rp = rl")
    case True
    then show ?thesis
      using * assms
      by (auto simp: flushRead_def forgetRead_def runs_def io_modify_def buffered_empty_def buffered_ahead_def
          buffered_frame_def)
  next
    case False
    have "runs (vSeek vt (int rp - int rl) Current) (bs_inner b) (int p) (file_at c p)"
    proof -
      have "int pi + (int rp - int rl) = int p" using * by simp
      then have t: "seek_target c pi (int rp - int rl) Current = Some (int p)" by (simp add: seek_target_def)
      have "int p \<le> INTCS_MAX" using * file_fits [OF *(1)] by (auto simp: fits_def)
      from seek_ok [OF *(1) t _ this] show ?thesis by simp
    qed
    from runs_inner_call [OF this] show ?thesis
      unfolding runs_def flushRead_def [of vt b] io_then_def
      using False * assms
      by (auto simp: io_bind_def forgetRead_def io_modify_def buffered_empty_def buffered_ahead_def buffered_frame_def)
  qed
qed

lemma clearRead_ahead:
  assumes "buffered_ahead file_at c p b"
  shows "runs (clearReadBufferBeforeWrite vt) b () (buffered_empty file_at c p)"
proof -
  have "runs forgetRead b () (buffered_empty file_at c p)" if "bs_readPos b = bs_readLen b"
    using flushRead_ahead [OF assms] that by (simp add: runs_def flushRead_def)
  then show ?thesis
    using flushRead_ahead [OF assms] assms file_can
    by (auto simp: clearReadBufferBeforeWrite_def buffered_ahead_def)
qed

lemma not_writing:
  assumes "buffered_file file_at c p b" and "\<not> bs_writePos b > 0"
  shows "buffered_ahead file_at c p b"
proof -
  have "bs_writePos b = 0" using assms by (auto simp: buffered_file_def buffered_pending_def buffered_ahead_def)
  then show ?thesis using assms(1) by (auto simp: buffered_file_def intro: empty_ahead pending_empty)
qed

text \<open>Before the first byte is buffered for writing.\<close>

lemma prepare_write:
  assumes "buffered_file file_at c p b"
  shows "runs (io_if (\<lambda>b. bs_writePos b = 0) (clearReadBufferBeforeWrite vt) (io_return ())) b ()
           (buffered_pending file_at c p)"
proof (cases "bs_writePos b = 0")
  case True
  then have "buffered_ahead file_at c p b" using not_writing [OF assms] by simp
  then show ?thesis
    using True by (auto intro: runs_mono [OF clearRead_ahead] empty_pending)
next
  case False
  then show ?thesis using assms by (auto simp: buffered_file_def buffered_ahead_def)
qed

lemma readFromBuffer_ahead:
  assumes b: "buffered_ahead file_at c p b" and a: "0 \<le> off" "0 \<le> n" "off + n \<le> int (length buf)"
  defines "k \<equiv> min (nat (bs_readLen b - bs_readPos b)) (nat n)"
  shows "length (get_bytes c p k) = k"
    and "runs (readFromBuffer (Some buf) off n) b (int k, Some (put_bytes buf (nat off) (get_bytes c p k)))
           (\<lambda>b'. buffered_ahead file_at c (p + k) b' \<and> (k < nat n \<longrightarrow> bs_readPos b' = bs_readLen b'))"
proof -
  obtain pi rp rl where *: "file_at c pi (bs_inner b)" "bs_readPos b = int rp" "bs_readLen b = int rl" "rp \<le> rl"
      "rl \<le> length (bs_buffer b)" "rl \<le> pi" "get_bytes c (pi - rl) rl = take rl (bs_buffer b)" "p = pi - rl + rp"
    using b by (auto simp: buffered_ahead_def)
  have k: "k = min (rl - rp) (nat n)" using * by (simp add: k_def flip: of_nat_diff)
  have kn: "int k \<le> n" using a(2) k by linarith
  have rk: "rp + k \<le> rl" using * k by simp
  have g: "get_bytes c p k = get_bytes (bs_buffer b) rp k"
    using get_bytes_get [OF rk, of c "pi - rl"] get_bytes_get [OF rk, of "bs_buffer b" 0] *(7,8)
    by (simp add: get_bytes_def [of _ 0 rl])
  then show l: "length (get_bytes c p k) = k" using * k by (auto simp: get_bytes_length)
  show "runs (readFromBuffer (Some buf) off n) b (int k, Some (put_bytes buf (nat off) (get_bytes c p k)))
           (\<lambda>b'. buffered_ahead file_at c (p + k) b' \<and> (k < nat n \<longrightarrow> bs_readPos b' = bs_readLen b'))"
  proof (cases "rp = rl")
    case True
    then show ?thesis using k * b by (auto simp: readFromBuffer_def runs_def Let_def get_bytes_def)
  next
    case False
    have m: "min (bs_readLen b - bs_readPos b) n = int k" using * a k by auto
    have "copy_from (bs_buffer b) (bs_readPos b) (int k) = Some (get_bytes c p k)"
      using * k g by (subst copy_from_get) auto
    moreover have "copy_to buf off (get_bytes c p k) = Some (put_bytes buf (nat off) (get_bytes c p k))"
      using a l kn by (intro copy_to_put) simp_all
    moreover have "buffered_ahead file_at c (p + k) (b\<lparr>bs_readPos := bs_readPos b + int k\<rparr>)"
    proof -
      have "buffered_frame (b\<lparr>bs_readPos := bs_readPos b + int k\<rparr>)" "bs_writePos b = 0"
        using b by (auto simp: buffered_ahead_def buffered_frame_def)
      moreover have "p + k = pi - rl + (rp + k)" "bs_readPos b + int k = int (rp + k)" using * by simp_all
      ultimately show ?thesis
        using *(1,3,5-7) rk by (intro buffered_aheadI [of _ file_at c pi "rp + k" rl]) simp_all
    qed
    moreover have "\<not> bs_readLen b - bs_readPos b \<le> 0" using False *(2-4) by simp
    moreover have "k < nat n \<longrightarrow> bs_readPos b + int k = bs_readLen b" using k *(2-4) by auto
    ultimately show ?thesis
      by (intro runsI [where s' = "b\<lparr>bs_readPos := bs_readPos b + int k\<rparr>"])
         (simp only: readFromBuffer_def Let_def m if_False option.case, simp)
  qed
qed

lemma readFromBuffer_pending:
  "buffered_pending file_at c p b \<Longrightarrow> runs (readFromBuffer dst off n) b (0, dst) (buffered_pending file_at c p)"
  by (auto simp: readFromBuffer_def runs_def buffered_pending_def)

lemma allocate_empty:
  "buffered_empty file_at c p b \<Longrightarrow> runs ensureBufferAllocated b ()
     (\<lambda>b'. buffered_empty file_at c p b' \<and> int (length (bs_buffer b')) = bs_bufferSize b' \<and> bs_bufferSize b' = bs_bufferSize b)"
  by (auto simp: ensureBufferAllocated_def buffered_empty_def buffered_frame_def)

lemma refill_ahead:
  assumes b: "buffered_empty file_at c p b" and l: "int (length (bs_buffer b)) = bs_bufferSize b"
  shows "runs (refill vt) b ()
     (\<lambda>b'. buffered_ahead file_at c p b' \<and> bs_readLen b' - bs_readPos b' = int (length (get_bytes c p (nat (bs_bufferSize b)))))"
proof -
  define g where "g = get_bytes c p (nat (bs_bufferSize b))"
  have gl: "length g \<le> length (bs_buffer b)" using l by (auto simp: g_def get_bytes_length)
  have "runs (vRead vt (Some (bs_buffer b)) 0 (bs_bufferSize b)) (bs_inner b)
      (int (length g), put_bytes (bs_buffer b) 0 g) (file_at c (p + length g))"
    using read_ok [of c p "bs_inner b" 0 "bs_bufferSize b" "bs_buffer b"] b l
    by (auto simp: buffered_empty_def buffered_frame_def g_def)
  then obtain i where i: "vRead vt (Some (bs_buffer b)) 0 (bs_bufferSize b) (bs_inner b)
      = (Returns (int (length g), put_bytes (bs_buffer b) 0 g), i)" "file_at c (p + length g) i"
    by (rule runsE)
  have "get_bytes c p (length g) = g" by (simp add: g_def)
  then have "buffered_ahead file_at c p
      (b\<lparr>bs_inner := i, bs_buffer := put_bytes (bs_buffer b) 0 g, bs_readLen := int (length g)\<rparr>)"
    using b l gl i(2)
    by (intro buffered_aheadI [of _ file_at c "p + length g" 0 "length g"])
       (auto simp: buffered_empty_def buffered_frame_def put_bytes_def)
  then show ?thesis
    using i(1) b
    by (auto simp: refill_def io_bind_def inner_call_def io_modify_def runs_def g_def buffered_empty_def)
qed

lemma forgetRead_drained:
  assumes "buffered_drained file_at c p b"
  shows "runs forgetRead b () (buffered_pending file_at c p)"
proof -
  have "runs forgetRead b () (buffered_empty file_at c p)" if "buffered_ahead file_at c p b" "bs_readPos b = bs_readLen b"
    using flushRead_ahead [OF that(1)] that(2) by (simp add: runs_def flushRead_def)
  moreover have "runs forgetRead b () (buffered_pending file_at c p)" if "buffered_pending file_at c p b"
    using that by (auto simp: forgetRead_def buffered_pending_def buffered_frame_def)
  ultimately show ?thesis
    using assms by (auto simp: buffered_drained_def intro: runs_mono empty_pending)
qed

lemma read_inner_ok:
  assumes b: "buffered_drained file_at c p b" and a: "0 \<le> off" "0 \<le> n" "off + n \<le> int (length buf)"
    and al: "0 \<le> already" "already + n \<le> INTCS_MAX" "off + n \<le> INTCS_MAX"
  shows "runs (read_inner vt (Some buf) off n already) b
     (int (length (get_bytes c p (nat n))) + already, put_bytes buf (nat off) (get_bytes c p (nat n)))
     (buffered_file file_at c (p + length (get_bytes c p (nat n))))"
proof -
  define g where "g = get_bytes c p (nat n)"
  have gl: "int (length g) \<le> n" using a by (auto simp: g_def get_bytes_length)
  have add: "runs (io_bind (intcs_add (int (length g)) already) (\<lambda>r. io_return (r, x))) s (int (length g) + already, x) Q"
    if "Q s" for x :: "bytecs list" and s :: "'s BufferedStream" and Q
    using that gl al by (intro runs_bind [where r = "int (length g) + already" and Q = Q])
      (auto simp: runs_intcs_add INTCS_MIN_def)
  have direct: "runs (io_bind (inner_call (vRead vt (Some buf) off n))
      (\<lambda>(n, buf). io_bind (intcs_add n already) (\<lambda>r. io_return (r, buf)))) b'
      (int (length g) + already, put_bytes buf (nat off) g) (buffered_file file_at c (p + length g))"
    if b': "buffered_empty file_at c p b'" for b'
  proof -
    have "runs (inner_call (vRead vt (Some buf) off n)) b' (int (length g), put_bytes buf (nat off) g)
        (buffered_empty file_at c (p + length g))"
      using b' read_ok [of c p "bs_inner b'", OF _ a al(3)]
      by (intro runs_mono [OF runs_inner_call]) (auto simp: buffered_empty_def buffered_frame_def g_def)
    then show ?thesis by (rule runs_bind) (auto intro!: add empty_file)
  qed
  have via: "runs (io_bind (readFromBuffer (Some buf) off n)
      (\<lambda>(n, buf). io_bind (intcs_add n already) (\<lambda>r. io_return (r, pointee buf)))) b'
      (int (length g) + already, put_bytes buf (nat off) g) (buffered_file file_at c (p + length g))"
    if b': "buffered_ahead file_at c p b'" and
      u: "bs_readLen b' - bs_readPos b' = int (length (get_bytes c p (nat sz)))" and "n < sz" for b' sz
  proof -
    have k: "min (nat (bs_readLen b' - bs_readPos b')) (nat n) = length g"
      using that a by (auto simp: g_def get_bytes_length min_def)
    have "get_bytes c p (length g) = g" by (simp add: g_def)
    then have "runs (readFromBuffer (Some buf) off n) b' (int (length g), Some (put_bytes buf (nat off) g))
        (buffered_file file_at c (p + length g))"
      using readFromBuffer_ahead(2) [OF b' a] unfolding k
      by (auto simp: buffered_file_def elim!: runs_mono)
    then show ?thesis by (rule runs_bind) (auto simp: pointee_def intro!: add)
  qed
  have "runs (io_if (\<lambda>b. n \<ge> bs_bufferSize b)
          (io_bind (inner_call (vRead vt (Some buf) off n))
            (\<lambda>(n, buf). io_bind (intcs_add n already) (\<lambda>r. io_return (r, buf))))
          (io_then ensureBufferAllocated
            (io_then (refill vt)
              (io_bind (readFromBuffer (Some buf) off n)
                (\<lambda>(n, buf). io_bind (intcs_add n already) (\<lambda>r. io_return (r, pointee buf))))))) b'
      (int (length g) + already, put_bytes buf (nat off) g) (buffered_file file_at c (p + length g))"
    if b': "buffered_empty file_at c p b'" for b'
  proof (cases "n \<ge> bs_bufferSize b'")
    case True
    then show ?thesis using direct [OF b'] by simp
  next
    case False
    then show ?thesis
      by (auto intro!: runs_then [OF allocate_empty [OF b']] runs_then [OF refill_ahead] via)
  qed
  then show ?thesis
    unfolding read_inner_def g_def [symmetric]
    by (intro runs_then [OF forgetRead_drained [OF b]] runs_then [OF flushWrite_pending])
qed

lemma buffered_read:
  assumes b: "buffered_file file_at c p b" and a: "0 \<le> off" "0 \<le> n" "off + n \<le> int (length buf)"
    and m: "off + n \<le> INTCS_MAX"
  shows "runs (BufferedStream_Read vt (Some buf) off n) b
        (int (length (get_bytes c p (nat n))), put_bytes buf (nat off) (get_bytes c p (nat n)))
        (buffered_file file_at c (p + length (get_bytes c p (nat n))))"
proof -
  let ?g = "get_bytes c p (nat n)"
  have "runs (io_bind (readFromBuffer (Some buf) off n)
         (\<lambda>(fromBuffer, buf).
            if fromBuffer = n then io_return (fromBuffer, pointee buf)
            else if fromBuffer > 0
            then io_bind (intcs_add off fromBuffer)
                   (\<lambda>offset'. read_inner vt buf offset' (n - fromBuffer) fromBuffer)
            else read_inner vt buf off n fromBuffer)) b'
        (int (length ?g), put_bytes buf (nat off) ?g) (buffered_file file_at c (p + length ?g))"
    if "buffered_file file_at c p b'" for b'
  proof (cases "buffered_ahead file_at c p b'")
    case True
    define k where "k = min (nat (bs_readLen b' - bs_readPos b')) (nat n)"
    note r = readFromBuffer_ahead [OF True a, folded k_def]
    have kn: "k \<le> nat n" by (simp add: k_def)
    show ?thesis
    proof (rule runs_bind [OF r(2)], goal_cases)
      case (1 b1)
      have split: "?g = get_bytes c p k @ get_bytes c (p + k) (nat n - k)"
        using get_bytes_split [OF kn r(1)] .
      show ?case
      proof (cases "k = nat n")
        case True
        then show ?thesis using 1 r(1) a by (auto simp: pointee_def buffered_file_def)
      next
        case False
        then have d: "buffered_drained file_at c (p + k) b1" using 1 kn by (auto simp: buffered_drained_def)
        let ?h = "get_bytes c (p + k) (nat n - k)"
        have "length ?h \<le> nat n - k" by (simp add: get_bytes_length)
        then have app: "put_bytes (put_bytes buf (nat off) (get_bytes c p k)) (nat off + k) ?h =
            put_bytes buf (nat off) (get_bytes c p k @ ?h)"
          using put_bytes_append [of "nat off" "get_bytes c p k" ?h buf] r(1) a kn by simp
        have kn': "int k \<le> n" using kn a by linarith
        have "runs (read_inner vt (Some (put_bytes buf (nat off) (get_bytes c p k))) (off + int k) (n - int k) (int k)) b1
          (int (length ?g), put_bytes buf (nat off) ?g) (buffered_file file_at c (p + length ?g))"
          using read_inner_ok [OF d, of "off + int k" "n - int k" "put_bytes buf (nat off) (get_bytes c p k)" "int k"]
            a m kn' r(1) app
          by (simp add: split nat_diff_distrib nat_add_distrib add.assoc) (simp add: ac_simps)
        then show ?thesis
          using 1 False kn a m
          by (auto simp: runs_intcs_add INTCS_MIN_def intro!: runs_bind [where Q = "\<lambda>b. b = b1" and r = "off + int k"])
      qed
    qed
  next
    case False
    then have "buffered_pending file_at c p b'" using that by (simp add: buffered_file_def)
    then show ?thesis
      using a m read_inner_ok [of c p _ off n buf 0]
      by (intro runs_bind [OF readFromBuffer_pending])
         (auto simp: pointee_def buffered_drained_def buffered_file_def get_bytes_def)
  qed
  then show ?thesis
    unfolding BufferedStream_Read_def by (rule runs_open_file [OF b])
qed

lemma allocate_pending:
  "buffered_pending file_at c p b \<Longrightarrow> runs ensureBufferAllocated b ()
     (\<lambda>b'. buffered_pending file_at c p b' \<and> int (length (bs_buffer b')) = bs_bufferSize b' \<and>
        bs_bufferSize b' = bs_bufferSize b \<and> bs_writePos b' = bs_writePos b)"
  by (auto simp: ensureBufferAllocated_def buffered_pending_def buffered_frame_def)

lemma fillBuffer_pending:
  assumes b: "buffered_pending file_at c p b" and a: "0 \<le> off" "0 \<le> n" "off + n \<le> int (length buf)"
    and r: "bs_writePos b + n \<le> int (length (bs_buffer b))" and m: "int p + n \<le> INTCS_MAX"
  shows "runs (fillBuffer (Some buf) off n) b ()
     (buffered_pending file_at (overwrite c p (get_bytes buf (nat off) (nat n))) (p + nat n))"
proof -
  obtain ci pi w where *: "file_at ci pi (bs_inner b)" "bs_writePos b = int w" "w \<le> length (bs_buffer b)"
      "c = overwrite ci pi (take w (bs_buffer b))" "p = pi + w" and f: "fits c p" "buffered_frame b"
    using b by (auto simp: buffered_pending_def)
  define g where "g = get_bytes buf (nat off) (nat n)"
  have gl: "int (length g) = n" using a by (auto simp: g_def get_bytes_length)
  have wg: "w + length g \<le> length (bs_buffer b)" using r gl *(2) by linarith
  define d where "d = put_bytes (bs_buffer b) w g"
  have tk: "take (w + length g) d = take w (bs_buffer b) @ g" using wg by (simp add: d_def put_bytes_def)
  have ov: "overwrite c p g = overwrite ci pi (take (w + length g) d)"
    using overwrite_overwrite [of ci pi "take w (bs_buffer b)" g] * tk by (simp add: min_absorb2)
  have "copy_to (bs_buffer b) (bs_writePos b) g = Some d"
    using copy_to_put [of "int w" g "bs_buffer b"] wg *(2) by (simp add: d_def)
  moreover have "buffered_pending file_at (overwrite c p g) (p + nat n)
      (b\<lparr>bs_buffer := d, bs_writePos := bs_writePos b + n\<rparr>)"
  proof (rule buffered_pendingI [of _ _ _ file_at ci pi "w + length g"])
    show "buffered_frame (b\<lparr>bs_buffer := d, bs_writePos := bs_writePos b + n\<rparr>)"
      using f wg by (auto simp: buffered_frame_def d_def)
    show "fits (overwrite c p g) (p + nat n)"
      using f m gl by (auto simp: fits_def length_overwrite)
  qed (use b * ov gl wg in \<open>auto simp: buffered_pending_def d_def\<close>)
  ultimately show ?thesis
    using copy_from_get [OF a] by (auto simp: fillBuffer_def runs_def g_def)
qed

lemma flush_full:
  assumes "buffered_pending file_at c p b"
  shows "runs (io_if (\<lambda>b. bs_writePos b = bs_bufferSize b) (writeOut vt) (io_return ())) b ()
     (\<lambda>b'. buffered_pending file_at c p b' \<and> bs_writePos b' \<noteq> bs_bufferSize b')"
  using assms
  by (auto intro!: runs_mono [OF writeOut_empties] intro: empty_pending simp: buffered_empty_def buffered_frame_def)

lemma write_round_ok:
  assumes b: "buffered_pending file_at c p b" and a: "0 \<le> off" "0 < n" "off + n \<le> int (length buf)"
    and m: "int p + n \<le> INTCS_MAX"
  defines "k \<equiv> min (bs_bufferSize b - bs_writePos b) n"
  shows "0 \<le> k"
    and "runs (write_round vt (Some buf) off n) b (off + k, n - k)
     (\<lambda>b'. buffered_pending file_at (overwrite c p (get_bytes buf (nat off) (nat k))) (p + nat k) b' \<and>
        bs_writePos b' \<noteq> bs_bufferSize b')"
proof -
  show k0: "0 \<le> k" using b a by (auto simp: k_def buffered_pending_def buffered_frame_def)
  have kn: "k \<le> n" "k \<le> bs_bufferSize b - bs_writePos b" by (simp_all add: k_def)
  have "runs (if k > 0 then io_then ensureBufferAllocated (fillBuffer (Some buf) off k) else io_return ()) b ()
     (buffered_pending file_at (overwrite c p (get_bytes buf (nat off) (nat k))) (p + nat k))"
  proof (cases "k > 0")
    case True
    then show ?thesis
      using a m kn by (auto intro!: runs_then [OF allocate_pending [OF b]] fillBuffer_pending)
  next
    case False
    then show ?thesis using k0 b by (simp add: get_bytes_def)
  qed
  then have "runs (io_then
        (if k > 0 then io_then ensureBufferAllocated (fillBuffer (Some buf) off k) else io_return ())
        (io_then (io_if (\<lambda>b. bs_writePos b = bs_bufferSize b) (writeOut vt) (io_return ()))
           (if k > 0 then io_return (off + k, n - k) else io_return (off, n)))) b (off + k, n - k)
     (\<lambda>b'. buffered_pending file_at (overwrite c p (get_bytes buf (nat off) (nat k))) (p + nat k) b' \<and>
        bs_writePos b' \<noteq> bs_bufferSize b')"
    by (rule runs_then, intro runs_then [OF flush_full]) (use k0 in auto)
  then show "runs (write_round vt (Some buf) off n) b (off + k, n - k)
     (\<lambda>b'. buffered_pending file_at (overwrite c p (get_bytes buf (nat off) (nat k))) (p + nat k) b' \<and>
        bs_writePos b' \<noteq> bs_bufferSize b')"
    unfolding write_round_def
    by (intro runs_bind [where Q = "\<lambda>x. x = b" and r = k]) (auto simp: k_def)
qed

lemma write_loop_ok:
  assumes "buffered_pending file_at c p b" and "0 \<le> off" "0 \<le> n" "off + n \<le> int (length buf)" "int p + n \<le> INTCS_MAX"
  shows "\<exists>b'. write_loop vt (Some buf) off n b = Some (Returns (), b') \<and>
     buffered_pending file_at (overwrite c p (get_bytes buf (nat off) (nat n))) (p + nat n) b'"
  using assms
proof (induction "2 * nat n + (if bs_writePos b = bs_bufferSize b then 1 else 0)" arbitrary: c p b off n rule: less_induct)
  case less
  note b = less.prems(1)
  show ?case
  proof (cases "n = 0")
    case True
    then show ?thesis using b by (simp add: write_loop.simps get_bytes_def)
  next
    case n0: False
    show ?thesis
    proof (cases "bs_writePos b = 0 \<and> n \<ge> bs_bufferSize b")
      case True
      then have e: "buffered_empty file_at c p b" using b pending_empty by simp
      have "runs (inner_call (vWrite vt (Some buf) off n)) b ()
          (buffered_empty file_at (overwrite c p (get_bytes buf (nat off) (nat n))) (p + nat n))"
        using e write_ok [of c p "bs_inner b" off n buf] less.prems
        by (intro runs_mono [OF runs_inner_call]) (auto simp: buffered_empty_def buffered_frame_def)
      then show ?thesis
        using True n0 less.prems(3) by (subst write_loop.simps) (auto simp: runs_def intro: empty_pending)
    next
      case False
      define k where "k = min (bs_bufferSize b - bs_writePos b) n"
      have n: "0 < n" using n0 less.prems(3) by simp
      note r = write_round_ok [OF b less.prems(2) n less.prems(4,5), folded k_def]
      obtain b1 where b1: "write_round vt (Some buf) off n b = (Returns (off + k, n - k), b1)"
          and p1: "buffered_pending file_at (overwrite c p (get_bytes buf (nat off) (nat k))) (p + nat k) b1"
          and f1: "bs_writePos b1 \<noteq> bs_bufferSize b1"
        using r(2) by (auto simp: runs_def)
      have kn: "k \<le> n" by (simp add: k_def)
      have lt: "2 * nat (n - k) + (if bs_writePos b1 = bs_bufferSize b1 then 1 else 0)
          < 2 * nat n + (if bs_writePos b = bs_bufferSize b then 1 else 0)"
        using f1 r(1) kn n by (auto simp: k_def min_def split: if_splits)
      obtain b' where b': "write_loop vt (Some buf) (off + k) (n - k) b1 = Some (Returns (), b')"
          "buffered_pending file_at
             (overwrite (overwrite c p (get_bytes buf (nat off) (nat k))) (p + nat k)
                (get_bytes buf (nat (off + k)) (nat (n - k)))) (p + nat k + nat (n - k)) b'"
        using less.hyps [OF lt p1, of "off + k"] less.prems r(1) kn by auto
      have gl: "length (get_bytes buf (nat off) (nat k)) = nat k"
        using less.prems r(1) kn by (auto simp: get_bytes_length)
      have "get_bytes buf (nat off) (nat n) =
          get_bytes buf (nat off) (nat k) @ get_bytes buf (nat (off + k)) (nat (n - k))"
        using get_bytes_split [of "nat k" "nat n" buf "nat off"] gl r(1) kn less.prems(2)
        by (simp add: nat_add_distrib nat_diff_distrib)
      then have ov: "overwrite c p (get_bytes buf (nat off) (nat n)) =
          overwrite (overwrite c p (get_bytes buf (nat off) (nat k))) (p + nat k)
                (get_bytes buf (nat (off + k)) (nat (n - k)))"
        using overwrite_overwrite [of c p "get_bytes buf (nat off) (nat k)"] gl by simp
      have pn: "p + nat k + nat (n - k) = p + nat n" using r(1) kn by simp
      show ?thesis
        using b' b1 False n unfolding ov pn by (subst write_loop.simps) auto
    qed
  qed
qed

lemma buffered_write:
  assumes b: "buffered_file file_at c p b" and a: "0 \<le> off" "0 \<le> n" "off + n \<le> int (length buf)" "int p + n \<le> INTCS_MAX"
  shows "runs (BufferedStream_Write vt (Some buf) off n) b ()
     (buffered_file file_at (overwrite c p (get_bytes buf (nat off) (nat n))) (p + nat n))"
  unfolding BufferedStream_Write_def
  by (rule runs_open_file [OF b], rule runs_then [OF prepare_write], assumption)
     (use write_loop_ok [OF _ a] in \<open>fastforce simp: io_loop_def runs_def buffered_file_def\<close>)

lemma storeByte_pending:
  assumes b: "buffered_pending file_at c p b" and l: "int (length (bs_buffer b)) = bs_bufferSize b"
    and w: "bs_writePos b < bs_bufferSize b" and m: "int p < INTCS_MAX"
  shows "runs (storeByte v) b () (buffered_pending file_at (overwrite c p [v]) (p + 1))"
proof -
  have "runs (fillBuffer (Some [v]) 0 1) b () (buffered_pending file_at (overwrite c p [v]) (p + 1))"
    using fillBuffer_pending [OF b, of 0 1 "[v]"] l w m by (simp add: get_bytes_def)
  moreover have "storeByte v b = fillBuffer (Some [v]) 0 1 b"
    using b l w
    by (auto simp: storeByte_def fillBuffer_def copy_from_def copy_to_def buffered_pending_def
        upd_conv_take_nth_drop)
  ultimately show ?thesis by (simp add: runs_def)
qed

lemma buffered_write_byte:
  assumes b: "buffered_file file_at c p b" and m: "int p < INTCS_MAX"
  shows "runs (BufferedStream_WriteByte vt v) b () (buffered_file file_at (overwrite c p [v]) (p + 1))"
proof -
  have full: "runs (io_if (\<lambda>b. bs_writePos b \<ge> bs_bufferSize b) (writeOut vt) (io_return ())) b' ()
     (\<lambda>b'. buffered_pending file_at c p b' \<and> bs_writePos b' < bs_bufferSize b' \<and>
        int (length (bs_buffer b')) = bs_bufferSize b')"
    if "buffered_pending file_at c p b'" "int (length (bs_buffer b')) = bs_bufferSize b'" for b'
    using that
    by (auto intro!: runs_mono [OF writeOut_keeps] intro: empty_pending simp: buffered_empty_def buffered_frame_def)
  show ?thesis
    unfolding BufferedStream_WriteByte_def
    by (rule runs_open_file [OF b], rule runs_then [OF prepare_write], assumption,
        rule runs_then [OF allocate_pending], assumption, rule runs_then [OF full])
       (auto simp: buffered_file_def intro!: runs_mono [OF storeByte_pending [OF _ _ _ m]])
qed

lemma ahead_inner:
  assumes "buffered_ahead file_at c p b"
    and "\<And>q. file_at c q (bs_inner b) \<Longrightarrow> runs m (bs_inner b) r (file_at c q)"
  shows "runs (inner_call m) b r (\<lambda>b'. buffered_ahead file_at c p b' \<and> bs_readPos b' = bs_readPos b \<and> bs_readLen b' = bs_readLen b)"
proof -
  obtain q where q: "file_at c q (bs_inner b)" and x: "\<exists>rp rl. bs_readPos b = int rp \<and> bs_readLen b = int rl \<and> rp \<le> rl \<and>
        rl \<le> length (bs_buffer b) \<and> rl \<le> q \<and> get_bytes c (q - rl) rl = take rl (bs_buffer b) \<and> p = q - rl + rp"
    using assms(1) by (auto simp: buffered_ahead_def)
  show ?thesis
    by (rule runs_mono [OF runs_inner_call [OF assms(2) [OF q]]])
       (use assms(1) x in \<open>auto simp: buffered_ahead_def buffered_frame_def\<close>)
qed

lemma innerFlush_ahead:
  assumes "buffered_ahead file_at c p b"
  shows "runs (innerFlush vt) b ()
     (\<lambda>b'. buffered_ahead file_at c p b' \<and> bs_readPos b' = bs_readPos b \<and> bs_readLen b' = bs_readLen b)"
proof -
  have "vCanWrite vt (bs_inner b)" using assms file_can by (auto simp: buffered_ahead_def)
  then show ?thesis
    using ahead_inner [OF assms, of "vFlush vt" "()"] flush_ok by (auto simp: innerFlush_def)
qed

lemma innerFlush_empty: "buffered_empty file_at c p b \<Longrightarrow> runs (innerFlush vt) b () (buffered_empty file_at c p)"
  using inner_flush file_can by (auto simp: innerFlush_def buffered_empty_def)

lemma buffered_flush:
  assumes b: "buffered_file file_at c p b"
  shows "runs (BufferedStream_Flush vt) b () (buffered_empty file_at c p)"
  unfolding BufferedStream_Flush_def
proof (rule runs_open_file [OF b])
  fix b assume b: "buffered_file file_at c p b"
  show "runs (io_if (\<lambda>b. bs_writePos b > 0) (flushWrite vt)
         (io_if (\<lambda>b. bs_readPos b < bs_readLen b)
           (io_then (io_if (\<lambda>b. vCanSeek vt (bs_inner b)) (flushRead vt) (io_return ())) (innerFlush vt))
           (io_then (innerFlush vt)
             (io_modify (\<lambda>b. b\<lparr>bs_writePos := 0, bs_readPos := 0, bs_readLen := 0\<rparr>))))) b () (buffered_empty file_at c p)"
  proof (cases "bs_writePos b > 0")
    case True
    then have "buffered_pending file_at c p b" using b by (auto simp: buffered_file_def buffered_ahead_def)
    then show ?thesis using True by (simp add: flushWrite_pending)
  next
    case False
    have a: "buffered_ahead file_at c p b" using not_writing [OF b False] .
    show ?thesis
    proof (cases "bs_readPos b < bs_readLen b")
      case True
      then show ?thesis
        using False buffered_can [OF b] by (auto intro!: runs_then innerFlush_empty flushRead_ahead [OF a])
    next
      case F: False
      have "buffered_empty file_at c p (b'\<lparr>bs_writePos := 0, bs_readPos := 0, bs_readLen := 0\<rparr>)"
        if "buffered_ahead file_at c p b'" "bs_readPos b' \<ge> bs_readLen b'" for b'
        using that by (auto simp: buffered_ahead_def buffered_empty_def buffered_frame_def)
      then show ?thesis
        using False F by (auto intro!: runs_then [OF innerFlush_ahead [OF a]])
    qed
  qed
qed

lemma flushWrite_file:
  assumes b: "buffered_file file_at c p b"
  shows "runs (flushWrite vt) b () (\<lambda>b'. buffered_ahead file_at c p b')"
proof (cases "buffered_pending file_at c p b")
  case True
  then show ?thesis by (auto intro!: runs_mono [OF flushWrite_pending] empty_ahead)
next
  case False
  then show ?thesis using b by (auto simp: buffered_file_def flushWrite_def buffered_ahead_def)
qed

lemma buffered_get_length:
  assumes b: "buffered_file file_at c p b"
  shows "runs (BufferedStream_getLength vt) b (int (length c)) (buffered_file file_at c p)"
  unfolding BufferedStream_getLength_def
  by (rule runs_open_file [OF b], rule runs_then [OF flushWrite_file], assumption,
      rule runs_mono [OF ahead_inner [OF _ get_length_ok]])
     (auto simp: buffered_file_def)

lemma getPosition_exact:
  assumes f: "buffered_frame b" and q: "file_at c q (bs_inner b)"
    and p: "int p = int q + (bs_readPos b - bs_readLen b + bs_writePos b)" "int p \<le> INTCS_MAX"
  shows "runs (BufferedStream_getPosition vt) b (int p) (\<lambda>b'. \<exists>i. b' = b\<lparr>bs_inner := i\<rparr> \<and> file_at c q i)"
proof -
  have "runs (io_bind (inner_call (vGetPosition vt))
           (\<lambda>p. io_bind (io_get (\<lambda>b. bs_readPos b - bs_readLen b + bs_writePos b)) (\<lambda>d. intcs_add p d))) b (int p)
     (\<lambda>b'. \<exists>i. b' = b\<lparr>bs_inner := i\<rparr> \<and> file_at c q i)"
  proof (rule runs_bind [OF runs_inner_call [OF get_position_ok [OF q]]])
    fix b1 assume b1: "\<exists>i. b1 = b\<lparr>bs_inner := i\<rparr> \<and> file_at c q i"
    then show "runs (io_bind (io_get (\<lambda>b. bs_readPos b - bs_readLen b + bs_writePos b)) (\<lambda>d. intcs_add (int q) d)) b1 (int p)
        (\<lambda>b'. \<exists>i. b' = b\<lparr>bs_inner := i\<rparr> \<and> file_at c q i)"
      using p by (intro runs_bind [where Q = "\<lambda>x. x = b1" and r = "bs_readPos b - bs_readLen b + bs_writePos b"])
         (auto simp: runs_intcs_add INTCS_MIN_def)
  qed
  then show ?thesis
    using file_can [OF q] unfolding BufferedStream_getPosition_def
    by (intro runs_then [OF runs_open [OF f, of "\<lambda>x. x = b"]]) auto
qed

lemma buffered_get_position:
  assumes b: "buffered_file file_at c p b"
  shows "runs (BufferedStream_getPosition vt) b (int p) (buffered_file file_at c p)"
  using b unfolding buffered_file_def
proof
  assume "buffered_pending file_at c p b"
  then obtain ci q w where "file_at ci q (bs_inner b)" "bs_writePos b = int w" "p = q + w" "fits c p"
    "bs_readPos b = 0" "bs_readLen b = 0" "w \<le> length (bs_buffer b)" "c = overwrite ci q (take w (bs_buffer b))"
    "buffered_frame b"
    by (auto simp: buffered_pending_def)
  then show "runs (BufferedStream_getPosition vt) b (int p)
      (\<lambda>b. buffered_pending file_at c p b \<or> buffered_ahead file_at c p b)"
    by (intro runs_mono [OF getPosition_exact [of b ci q]])
       (auto simp: buffered_frame_def fits_def intro!: disjI1 buffered_pendingI)
next
  assume a: "buffered_ahead file_at c p b"
  then obtain q rp rl where *: "file_at c q (bs_inner b)" "bs_readPos b = int rp" "bs_readLen b = int rl" "rp \<le> rl"
      "rl \<le> length (bs_buffer b)" "rl \<le> q" "get_bytes c (q - rl) rl = take rl (bs_buffer b)" "p = q - rl + rp"
      "bs_writePos b = 0" "buffered_frame b"
    by (auto simp: buffered_ahead_def)
  show "runs (BufferedStream_getPosition vt) b (int p)
      (\<lambda>b. buffered_pending file_at c p b \<or> buffered_ahead file_at c p b)"
    using * file_fits [OF *(1)]
    by (intro runs_mono [OF getPosition_exact [of b c q]])
       (auto simp: buffered_frame_def fits_def intro!: disjI2 buffered_aheadI)
qed

lemma keepBuffer_ok:
  assumes b: "buffered_frame b" "bs_writePos b = 0" "bs_readPos b = int rp" "bs_readLen b = int rl" "rp \<le> rl"
      "rl \<le> length (bs_buffer b)" "get_bytes c st rl = take rl (bs_buffer b)"
    and q: "file_at c q (bs_inner b)" and m: "int (st + rl) \<le> INTCS_MAX"
  shows "runs (keepBuffer vt (int (st + rp)) (int q)) b (int q) (buffered_file file_at c q)"
proof -
  define d where "d = int q - int st"
  have "runs (io_if (\<lambda>b. 0 \<le> d \<and> d < bs_readLen b)
              (io_then (io_modify (\<lambda>b. b\<lparr>bs_readPos := d\<rparr>))
                (io_bind (io_get (\<lambda>b. bs_readLen b - bs_readPos b))
                  (\<lambda>d. io_then (inner_call (vSeek vt d Current)) (io_return ()))))
              forgetRead) b () (buffered_file file_at c q)"
  proof (cases "0 \<le> d \<and> d < int rl")
    case True
    let ?b = "b\<lparr>bs_readPos := d\<rparr>"
    have "seek_target c q (int rl - d) Current = Some (int (st + rl))" by (simp add: seek_target_def d_def)
    from seek_ok [OF q this _ m] have "runs (vSeek vt (int rl - d) Current) (bs_inner ?b) (int (st + rl)) (file_at c (st + rl))"
      by (simp del: of_nat_add)
    then have "runs (inner_call (vSeek vt (int rl - d) Current)) ?b (int (st + rl)) (buffered_ahead file_at c q)"
      by (rule runs_mono [OF runs_inner_call])
         (use b True in \<open>auto simp: buffered_frame_def d_def intro!: buffered_aheadI [of _ _ _ "st + rl" "q - st" rl]\<close>)
    then show ?thesis
      using True b
      by (auto intro!: runs_then [where Q = "\<lambda>x. x = ?b"] runs_bind [where Q = "\<lambda>x. x = ?b" and r = "int rl - d"]
          runs_then [where m = "inner_call m" for m] simp: buffered_file_def)
  next
    case False
    have "buffered_empty file_at c q (b\<lparr>bs_readPos := 0, bs_readLen := 0\<rparr>)"
      using b q by (auto simp: buffered_empty_def buffered_frame_def)
    then show ?thesis using False b by (auto simp: forgetRead_def intro: empty_file)
  qed
  moreover have "runs (io_bind (io_bind (io_get bs_readPos) (intcs_sub (int (st + rp)))) (intcs_sub (int q))) b d (\<lambda>x. x = b)"
    using b m file_fits [OF q]
    by (intro runs_bind [where Q = "\<lambda>x. x = b" and r = "int st"] runs_bind [where Q = "\<lambda>x. x = b" and r = "int rp"])
       (auto simp: runs_intcs_sub d_def INTCS_MIN_def INTCS_MAX_def fits_def)
  ultimately show ?thesis
    unfolding keepBuffer_def
    by (auto intro!: runs_bind [where r = d and Q = "\<lambda>x. x = b"] runs_then)
qed

lemma empty_inner:
  assumes "buffered_empty file_at c p b" and "runs m (bs_inner b) r (file_at c' p')"
  shows "runs (inner_call m) b r (buffered_empty file_at c' p')"
  by (rule runs_mono [OF runs_inner_call [OF assms(2)]])
     (use assms(1) in \<open>auto simp: buffered_empty_def buffered_frame_def\<close>)

lemma empty_inner_fails:
  assumes "buffered_empty file_at c p b" and "fails m (bs_inner b) e (file_at c' p')"
  shows "fails (inner_call m) b e (buffered_empty file_at c' p')"
proof -
  obtain s' where "inner_call m b = (Throws e, s')" "\<exists>i. s' = b\<lparr>bs_inner := i\<rparr> \<and> file_at c' p' i"
    using fails_inner_call [OF assms(2)] by (auto simp: fails_def)
  then show ?thesis using assms(1) by (auto simp: fails_def buffered_empty_def buffered_frame_def)
qed

text \<open>The correction of a relative offset by what has been read ahead.\<close>

lemma seek_offset:
  assumes b: "bs_readPos b = int rp" "bs_readLen b = int rl" "rp \<le> rl" "rl \<le> q"
    and o: "origin = Current \<Longrightarrow> INTCS_MIN \<le> offset - (int rl - int rp) \<and> offset \<le> INTCS_MAX"
    and t: "seek_target c (q - rl + rp) offset origin = Some t"
  shows "\<exists>offset'. seek_target c q offset' origin = Some t \<and>
    (offset' = offset \<or> origin = Current \<and> rp < rl \<and> offset' = offset - (int rl - int rp)) \<and>
    runs (io_if (\<lambda>b. bs_readLen b - bs_readPos b > 0 \<and> origin = Current)
               (io_bind (io_get (\<lambda>b. bs_readLen b - bs_readPos b)) (intcs_sub offset))
               (io_return offset)) b offset' (\<lambda>x. x = b)"
proof (cases "rl - rp > 0 \<and> origin = Current")
  case True
  have "runs (io_bind (io_get (\<lambda>b. bs_readLen b - bs_readPos b)) (intcs_sub offset)) b (offset - (int rl - int rp)) (\<lambda>x. x = b)"
    using b o True by (intro runs_bind [where Q = "\<lambda>x. x = b" and r = "int rl - int rp"]) (auto simp: runs_intcs_sub)
  then show ?thesis using True b t by (intro exI [of _ "offset - (int rl - int rp)"]) (auto simp: seek_target_def)
next
  case False
  then show ?thesis using b t by (intro exI [of _ offset]) (auto simp: seek_target_def split: SeekOrigin.splits)
qed

lemma buffered_seek:
  assumes b: "buffered_file file_at c p b" and t: "seek_target c p offset origin = Some t" "0 \<le> t" "t \<le> INTCS_MAX"
  shows "runs (BufferedStream_Seek vt offset origin) b t (buffered_file file_at c (nat t))"
  unfolding BufferedStream_Seek_def
proof (rule runs_open_file [OF b])
  fix b assume b: "buffered_file file_at c p b"
  show "runs (io_if (\<lambda>b. \<not> vCanSeek vt (bs_inner b)) (io_throw (NotSupportedException ''Stream does not support seeking.''))
         (io_if (\<lambda>b. bs_writePos b > 0)
           (io_then (flushWrite vt) (inner_call (vSeek vt offset origin)))
           (io_bind
             (io_if (\<lambda>b. bs_readLen b - bs_readPos b > 0 \<and> origin = Current)
               (io_bind (io_get (\<lambda>b. bs_readLen b - bs_readPos b)) (intcs_sub offset))
               (io_return offset))
             (\<lambda>offset'.
                io_bind (BufferedStream_getPosition vt)
                  (\<lambda>oldPos. io_bind (inner_call (vSeek vt offset' origin)) (keepBuffer vt oldPos))))))
        b t (buffered_file file_at c (nat t))"
  proof (cases "bs_writePos b > 0")
    case True
    then have "buffered_pending file_at c p b" using b by (auto simp: buffered_file_def buffered_ahead_def)
    moreover have "runs (inner_call (vSeek vt offset origin)) b' t (buffered_file file_at c (nat t))"
      if "buffered_empty file_at c p b'" for b'
      using that empty_inner [OF that seek_ok [OF _ t]]
      by (auto simp: buffered_empty_def intro: runs_mono empty_file)
    ultimately show ?thesis
      using True buffered_can [OF b] by (auto intro!: runs_then [OF flushWrite_pending])
  next
    case False
    obtain q rp rl where *: "file_at c q (bs_inner b)" "bs_readPos b = int rp" "bs_readLen b = int rl" "rp \<le> rl"
        "rl \<le> length (bs_buffer b)" "rl \<le> q" "get_bytes c (q - rl) rl = take rl (bs_buffer b)" "p = q - rl + rp"
        "bs_writePos b = 0" "buffered_frame b"
      using not_writing [OF b False] by (auto simp: buffered_ahead_def)
    note m = file_fits [OF *(1)]
    have o: "INTCS_MIN \<le> offset - (int rl - int rp) \<and> offset \<le> INTCS_MAX" if "origin = Current"
      using that t * m by (auto simp: seek_target_def fits_def INTCS_MIN_def INTCS_MAX_def)
    obtain offset' where o': "seek_target c q offset' origin = Some t"
      "runs (io_if (\<lambda>b. bs_readLen b - bs_readPos b > 0 \<and> origin = Current)
               (io_bind (io_get (\<lambda>b. bs_readLen b - bs_readPos b)) (intcs_sub offset))
               (io_return offset)) b offset' (\<lambda>x. x = b)"
      using seek_offset [OF *(2-4,6) o] t(1) *(8) by blast
    have p: "int p = int q + (bs_readPos b - bs_readLen b + bs_writePos b)" "int p \<le> INTCS_MAX"
      using * m by (auto simp: fits_def)
    have "runs (io_bind (BufferedStream_getPosition vt)
                  (\<lambda>oldPos. io_bind (inner_call (vSeek vt offset' origin)) (keepBuffer vt oldPos)))
        b t (buffered_file file_at c (nat t))"
    proof (rule runs_bind [OF getPosition_exact [OF *(10,1) p]])
      fix b1 assume "\<exists>i. b1 = b\<lparr>bs_inner := i\<rparr> \<and> file_at c q i"
      then obtain i where i: "b1 = b\<lparr>bs_inner := i\<rparr>" "file_at c q i" by blast
      have "runs (vSeek vt offset' origin) (bs_inner b1) t (file_at c (nat t))"
        using seek_ok [OF i(2) o'(1) t(2,3)] i(1) by simp
      then show "runs (io_bind (inner_call (vSeek vt offset' origin)) (keepBuffer vt (int p))) b1 t
          (buffered_file file_at c (nat t))"
      proof (rule runs_bind [OF runs_inner_call])
        fix b2 assume "\<exists>i. b2 = b1\<lparr>bs_inner := i\<rparr> \<and> file_at c (nat t) i"
        then show "runs (keepBuffer vt (int p) t) b2 t (buffered_file file_at c (nat t))"
          using keepBuffer_ok [of b2 rp rl c "q - rl" "nat t"] * m i t
          by (auto simp: buffered_frame_def fits_def)
      qed
    qed
    then show ?thesis
      using False buffered_can [OF b] runs_bind [OF o'(2)] by auto
  qed
qed

lemma buffered_seek_before:
  assumes b: "buffered_file file_at c p b" and t: "seek_target c p offset origin = Some t" "t < 0"
    and o: "INTCS_MIN \<le> offset" "INTCS_MIN + int (length c) \<le> offset + int p"
  shows "fails (BufferedStream_Seek vt offset origin) b
     (IOException ''An attempt was made to move the position before the beginning of the stream.'')
     (buffered_file file_at c p)"
  unfolding BufferedStream_Seek_def
proof (rule fails_open_file [OF b])
  fix b assume b: "buffered_file file_at c p b"
  let ?e = "IOException ''An attempt was made to move the position before the beginning of the stream.''"
  show "fails (io_if (\<lambda>b. \<not> vCanSeek vt (bs_inner b)) (io_throw (NotSupportedException ''Stream does not support seeking.''))
         (io_if (\<lambda>b. bs_writePos b > 0)
           (io_then (flushWrite vt) (inner_call (vSeek vt offset origin)))
           (io_bind
             (io_if (\<lambda>b. bs_readLen b - bs_readPos b > 0 \<and> origin = Current)
               (io_bind (io_get (\<lambda>b. bs_readLen b - bs_readPos b)) (intcs_sub offset))
               (io_return offset))
             (\<lambda>offset'.
                io_bind (BufferedStream_getPosition vt)
                  (\<lambda>oldPos. io_bind (inner_call (vSeek vt offset' origin)) (keepBuffer vt oldPos))))))
        b ?e (buffered_file file_at c p)"
  proof (cases "bs_writePos b > 0")
    case True
    then have "buffered_pending file_at c p b" using b by (auto simp: buffered_file_def buffered_ahead_def)
    moreover have "fails (inner_call (vSeek vt offset origin)) b' ?e (buffered_file file_at c p)"
      if "buffered_empty file_at c p b'" for b'
      using empty_inner_fails [OF that seek_before [OF _ t o]] that
      by (auto simp: buffered_empty_def [of _ c p b'] fails_def intro: empty_file)
    ultimately show ?thesis
      using True buffered_can [OF b] by (auto intro!: runs_fails_then [OF flushWrite_pending])
  next
    case False
    obtain q rp rl where *: "file_at c q (bs_inner b)" "bs_readPos b = int rp" "bs_readLen b = int rl" "rp \<le> rl"
        "rl \<le> length (bs_buffer b)" "rl \<le> q" "get_bytes c (q - rl) rl = take rl (bs_buffer b)" "p = q - rl + rp"
        "bs_writePos b = 0" "buffered_frame b"
      using not_writing [OF b False] by (auto simp: buffered_ahead_def)
    note m = file_fits [OF *(1)]
    have "length (get_bytes c (q - rl) rl) = rl" using *(5,7) by simp
    then have ql: "rp < rl \<longrightarrow> q \<le> length c" using *(6) by (auto simp: get_bytes_length)
    have o1: "INTCS_MIN \<le> offset - (int rl - int rp) \<and> offset \<le> INTCS_MAX" if "origin = Current"
      using that t o * m ql by (cases "rp < rl") (auto simp: seek_target_def fits_def INTCS_MAX_def)
    obtain offset' where o': "seek_target c q offset' origin = Some t"
      "offset' = offset \<or> origin = Current \<and> rp < rl \<and> offset' = offset - (int rl - int rp)"
      "runs (io_if (\<lambda>b. bs_readLen b - bs_readPos b > 0 \<and> origin = Current)
               (io_bind (io_get (\<lambda>b. bs_readLen b - bs_readPos b)) (intcs_sub offset))
               (io_return offset)) b offset' (\<lambda>x. x = b)"
      using seek_offset [OF *(2-4,6) o1] t(1) *(8) by blast
    have o2: "INTCS_MIN \<le> offset'" "INTCS_MIN + int (length c) \<le> offset' + int q"
      using o o'(2) o1 *(4,6,8) by auto
    have p: "int p = int q + (bs_readPos b - bs_readLen b + bs_writePos b)" "int p \<le> INTCS_MAX"
      using * m by (auto simp: fits_def)
    have "fails (io_bind (BufferedStream_getPosition vt)
                  (\<lambda>oldPos. io_bind (inner_call (vSeek vt offset' origin)) (keepBuffer vt oldPos)))
        b ?e (buffered_file file_at c p)"
    proof (rule runs_fails_bind [OF getPosition_exact [OF *(10,1) p]])
      fix b1 assume "\<exists>i. b1 = b\<lparr>bs_inner := i\<rparr> \<and> file_at c q i"
      then obtain i where i: "b1 = b\<lparr>bs_inner := i\<rparr>" "file_at c q i" by blast
      obtain i2 where i2: "vSeek vt offset' origin i = (Throws ?e, i2)" "file_at c q i2"
        using seek_before [OF i(2) o'(1) t(2) o2] by (auto simp: fails_def)
      have "buffered_ahead file_at c p (b\<lparr>bs_inner := i2\<rparr>)"
        using * i2(2) by (intro buffered_aheadI [of _ _ _ q rp rl]) (auto simp: buffered_frame_def)
      then have "fails (inner_call (vSeek vt offset' origin)) b1 ?e (buffered_file file_at c p)"
        using i i2(1) by (simp add: fails_def inner_call_def buffered_file_def)
      then show "fails (io_bind (inner_call (vSeek vt offset' origin)) (keepBuffer vt (int p))) b1 ?e
          (buffered_file file_at c p)"
        by (rule fails_bind)
    qed
    then show ?thesis
      using False buffered_can [OF b] runs_fails_bind [OF o'(3)] by auto
  qed
qed

lemma buffered_set_position:
  assumes "buffered_file file_at c p b" and "0 \<le> v" "v \<le> INTCS_MAX"
  shows "runs (BufferedStream_setPosition vt v) b () (buffered_file file_at c (nat v))"
  unfolding BufferedStream_setPosition_def
  using buffered_seek [OF assms(1), of v Begin v] assms(2,3) by (auto simp: seek_target_def intro!: runs_then)

lemma buffered_set_length:
  assumes b: "buffered_file file_at c p b" and v: "0 \<le> v" "v \<le> INTCS_MAX"
  shows "runs (BufferedStream_SetLength vt v) b () (buffered_file file_at (vector_resize (nat v) c) (min p (nat v)))"
proof -
  have "runs (io_then (BufferedStream_Flush vt) (inner_call (vSetLength vt v))) b' ()
      (buffered_file file_at (vector_resize (nat v) c) (min p (nat v)))" if "buffered_file file_at c p b'" for b'
    by (rule runs_then [OF buffered_flush [OF that]], rule runs_mono [OF empty_inner empty_file])
       (auto intro!: set_length_ok v simp: buffered_empty_def)
  then show ?thesis
    unfolding BufferedStream_SetLength_def
    using v by (auto intro!: runs_open_file [OF b] dest: buffered_can)
qed

text \<open>The contract of the inner stream gives the contract of the buffered one.\<close>

lemma buffered_byte_file: "byte_file (BufferedStream_vtable vt) (buffered_file file_at)"
proof
  fix c p b off n offset origin t and buf :: "bytecs list"
  assume b: "buffered_file file_at c p b"
  show "fits c p" using b by (rule buffered_fits)
  show "vCanRead (BufferedStream_vtable vt) b \<and> vCanWrite (BufferedStream_vtable vt) b \<and> vCanSeek (BufferedStream_vtable vt) b"
    using buffered_can [OF b] buffered_file_frame [OF b] by (simp add: BufferedStream_vtable_def buffered_frame_def)
  show "runs (vReadByte (BufferedStream_vtable vt)) b (if p < length c then uint (c ! p) else - 1)
      (buffered_file file_at c (if p < length c then p + 1 else p))"
    unfolding BufferedStream_vtable_def Stream.select_convs
    by (rule Stream_ReadByte_of_read) (use buffered_read [OF b, of 0 1 "[0]"] in \<open>simp add: INTCS_MAX_def\<close>)
  show "runs (vFlush (BufferedStream_vtable vt)) b () (buffered_file file_at c p)"
    using runs_mono [OF buffered_flush [OF b] empty_file] by (simp add: BufferedStream_vtable_def)
qed (simp_all add: BufferedStream_vtable_def buffered_read buffered_write buffered_write_byte [simplified]
      buffered_get_length buffered_get_position buffered_set_position buffered_seek buffered_seek_before
      buffered_set_length)

lemma buffered_close:
  assumes "buffered_file file_at c p b"
  shows "\<exists>b0. BufferedStream_Close vt b = closeInner vt b0 \<and> buffered_empty file_at c p b0"
proof -
  obtain b0 where "BufferedStream_Flush vt b = (Returns (), b0)" "buffered_empty file_at c p b0"
    using buffered_flush [OF assms] by (rule runsE)
  then show ?thesis
    using buffered_file_frame [OF assms] by (auto simp: BufferedStream_Close_def buffered_frame_def)
qed

end

interpretation buffered_memory: byte_file "BufferedStream_vtable MemoryStream_vtable" "buffered_file memory_file"
  by (rule memory.buffered_byte_file)

interpretation twice_buffered_memory:
  byte_file "BufferedStream_vtable (BufferedStream_vtable MemoryStream_vtable)" "buffered_file (buffered_file memory_file)"
  by (rule buffered_memory.buffered_byte_file)

lemma ctor_buffered:
  assumes "BufferedStream_ctor (Some i) n owns = Inr b" and "file_at c p i" and "fits c p" and "n \<le> INTCS_MAX"
  shows "buffered_file file_at c p b"
proof -
  have "buffered_pending file_at c p b"
    using assms
    by (intro buffered_pendingI [of _ c p file_at c p 0])
       (auto simp: BufferedStream_ctor_def buffered_frame_def split: if_splits)
  then show ?thesis by (simp add: buffered_file_def)
qed

lemma close_memory:
  assumes "buffered_empty memory_file c p b"
  shows "ms_data (bs_inner (snd (closeInner MemoryStream_vtable b))) = c"
  using assms
  by (auto simp: closeInner_def io_then_def io_bind_def io_modify_def io_if_def io_return_def inner_call_def
      MemoryStream_vtable_def MemoryStream_Close_def buffered_empty_def memory_file_def)

text \<open>
  C13. A buffered stream is transparent for the programs that keep to \<open>program_ok\<close>. Such a program is any sequence of
  \<^verbatim>\<open>Read\<close>, \<^verbatim>\<open>Write\<close>, \<^verbatim>\<open>WriteByte\<close>, \<^verbatim>\<open>ReadByte\<close>, \<^verbatim>\<open>Flush\<close>, \<^verbatim>\<open>Length\<close>, \<^verbatim>\<open>Position\<close>, \<^verbatim>\<open>Seek\<close> and \<^verbatim>\<open>SetLength\<close> in which, at each call, counts,
  lengths and positions are not negative, the position and the end of a write stay in the range of \<^verbatim>\<open>intcs\<close>, the origin of
  a \<^verbatim>\<open>Seek\<close> is one of the three and its sum does not overflow, and \<^verbatim>\<open>WriteByte\<close> is called with the position inside the data or
  at its end. (Outside these limits the streams do differ: a single byte behind the end in the property on \<^verbatim>\<open>WriteByte\<close>
  below, a negative count because only \<^verbatim>\<open>MemoryStream\<close> checks its arguments.) It gives on an open, writable \<^verbatim>\<open>MemoryStream\<close>, on
  a \<^verbatim>\<open>BufferedStream\<close> of any buffer size over it, and on a second \<^verbatim>\<open>BufferedStream\<close> over that, the replies of the same
  program on a list of bytes with a position, a \<^verbatim>\<open>Seek\<close> before the beginning included, which throws; no call is undefined or
  fails to return, and after \<^verbatim>\<open>Close\<close> the memory stream holds the bytes of the specification.
\<close>

theorem buffered_stream_transparent:
  assumes m: "memory_file c p m"
    and b: "BufferedStream_ctor (Some m) n owns = Inr b" "n \<le> INTCS_MAX"
    and b2: "BufferedStream_ctor (Some b) n2 owns2 = Inr b2" "n2 \<le> INTCS_MAX"
    and ok: "program_ok calls (c, p)"
    and run: "file_run calls (c, p) = (rs, c', p')"
  shows "(\<exists>m'. stream_run MemoryStream_vtable calls m = (rs, m') \<and> ms_data m' = c' \<and> ms_position m' = int p') \<and>
    (\<exists>b'. stream_run (BufferedStream_vtable MemoryStream_vtable) calls b = (rs, b') \<and>
       ms_data (BufferedStream_dtor MemoryStream_vtable b') = c') \<and>
    fst (stream_run (BufferedStream_vtable (BufferedStream_vtable MemoryStream_vtable)) calls b2) = rs"
proof (intro conjI)
  have f: "fits c p" using m by (simp add: memory_file_def)
  have bf: "buffered_file memory_file c p b" by (rule ctor_buffered [where file_at = memory_file, OF b(1) m f b(2)])
  have bf2: "buffered_file (buffered_file memory_file) c p b2" by (rule ctor_buffered [where file_at = "buffered_file memory_file", OF b2(1) bf f b2(2)])
  show "\<exists>m'. stream_run MemoryStream_vtable calls m = (rs, m') \<and> ms_data m' = c' \<and> ms_position m' = int p'"
    using memory.run_refines [OF m ok run] by (auto simp: memory_file_def)
  show "\<exists>b'. stream_run (BufferedStream_vtable MemoryStream_vtable) calls b = (rs, b') \<and>
       ms_data (BufferedStream_dtor MemoryStream_vtable b') = c'"
    using buffered_memory.run_refines [OF bf ok run] memory.buffered_close close_memory
    by (fastforce simp: BufferedStream_dtor_def)
  show "fst (stream_run (BufferedStream_vtable (BufferedStream_vtable MemoryStream_vtable)) calls b2) = rs"
    using twice_buffered_memory.run_refines [OF bf2 ok run] by auto
qed

theorem buffered_stream_transparent_witness:
  "fst (stream_run (BufferedStream_vtable MemoryStream_vtable)
     [CRead 2, CSeek 1 Current, CWrite [7, 8, 9], CWriteByte 5, CGetLength, CSeek (- 4) End, CRead 9, CSeek (- 9) Begin]
     \<lparr>bs_inner = \<lparr>ms_data = [1, 2, 3, 4], ms_position = 0, ms_writable = True, ms_isOpen = True\<rparr>, bs_ownsStream = False,
      bs_bufferSize = 2, bs_closed = False, bs_buffer = [], bs_readPos = 0, bs_readLen = 0, bs_writePos = 0\<rparr>) =
     [RBytes [1, 2], RInt 3, RDone, RDone, RInt 7, RInt 3, RBytes [7, 8, 9, 5],
      RThrow (IOException ''An attempt was made to move the position before the beginning of the stream.'')]"
proof -
  let ?calls = "[CRead 2, CSeek 1 Current, CWrite [7, 8, 9], CWriteByte 5, CGetLength, CSeek (- 4) End, CRead 9, CSeek (- 9) Begin]"
  let ?m = "\<lparr>ms_data = [1, 2, 3, 4], ms_position = 0, ms_writable = True, ms_isOpen = True\<rparr>"
  let ?b = "\<lparr>bs_inner = ?m, bs_ownsStream = False,
      bs_bufferSize = 2, bs_closed = False, bs_buffer = [], bs_readPos = 0, bs_readLen = 0, bs_writePos = 0\<rparr>"
  let ?b2 = "\<lparr>bs_inner = ?b, bs_ownsStream = False,
      bs_bufferSize = 3, bs_closed = False, bs_buffer = [], bs_readPos = 0, bs_readLen = 0, bs_writePos = 0\<rparr>"
  let ?rs = "[RBytes [1, 2], RInt 3, RDone, RDone, RInt 7, RInt 3, RBytes [7, 8, 9, 5],
      RThrow (IOException ''An attempt was made to move the position before the beginning of the stream.'')]"
  have m: "memory_file [1, 2, 3, 4] 0 ?m" by (simp add: memory_file_def fits_def INTCS_MAX_def)
  have b: "BufferedStream_ctor (Some ?m) 2 False = Inr ?b" by (simp add: BufferedStream_ctor_def)
  have b2: "BufferedStream_ctor (Some ?b) 3 False = Inr ?b2" by (simp add: BufferedStream_ctor_def)
  have ok: "program_ok ?calls ([1, 2, 3, 4], 0)"
    by (simp add: file_ok_def file_do_def get_bytes_def overwrite_def put_bytes_def seek_target_def INTCS_MAX_def
        INTCS_MIN_def)
  have run: "file_run ?calls ([1, 2, 3, 4], 0) = (?rs, [1, 2, 3, 7, 8, 9, 5], 7)"
    by (simp add: file_do_def get_bytes_def overwrite_def put_bytes_def seek_target_def)
  show ?thesis
    using buffered_stream_transparent [OF m b _ b2 _ ok run] by (auto simp: INTCS_MAX_def)
qed

text \<open>
  C40. \<^verbatim>\<open>MemoryStream::WriteByte\<close> behind the end of the data appends the byte at the end of the data and not at the
  position, unlike a \<^verbatim>\<open>Write\<close> of one byte, which fills the gap with zeros: the byte is not where the position
  was, and the position is left behind the end. Through a \<^verbatim>\<open>BufferedStream\<close> the same call stores the byte at the position.
\<close>

theorem write_byte_behind_end:
  assumes "length c < p" and "int p < INTCS_MAX"
  defines "m \<equiv> \<lparr>ms_data = c, ms_position = int p, ms_writable = True, ms_isOpen = True\<rparr>"
  shows "MemoryStream_WriteByte v m = (Returns (), m\<lparr>ms_data := c @ [v], ms_position := int p + 1\<rparr>) \<and>
    MemoryStream_Write (Some [v]) 0 1 m =
      (Returns (), m\<lparr>ms_data := c @ replicate (p - length c) 0 @ [v], ms_position := int p + 1\<rparr>) \<and>
    (\<forall>n b. BufferedStream_ctor (Some m) n False = Inr b \<longrightarrow> n \<le> INTCS_MAX \<longrightarrow>
       ms_data (BufferedStream_dtor MemoryStream_vtable (snd (BufferedStream_WriteByte MemoryStream_vtable v b))) =
         c @ replicate (p - length c) 0 @ [v])"
proof (intro conjI allI impI)
  have m: "memory_file c p m" using assms by (simp add: memory_file_def fits_def m_def)
  have ov: "overwrite c p [v] = c @ replicate (p - length c) 0 @ [v]"
    using assms(1) by (simp add: overwrite_def put_bytes_def)
  show "MemoryStream_WriteByte v m = (Returns (), m\<lparr>ms_data := c @ [v], ms_position := int p + 1\<rparr>)"
    using assms memory_length [OF m]
    by (simp add: MemoryStream_WriteByte_def MS_ensureNotClosed_def MS_ensureWritable_def MS_put_byte_def io_then_def
        io_bind_def io_if_def io_return_def)
  show "MemoryStream_Write (Some [v]) 0 1 m =
      (Returns (), m\<lparr>ms_data := c @ replicate (p - length c) 0 @ [v], ms_position := int p + 1\<rparr>)"
    using memory_write [OF m, of 0 1 "[v]"] assms ov by (auto simp: runs_def memory_file_def get_bytes_def)
  fix n b assume b: "BufferedStream_ctor (Some m) n False = Inr b" "n \<le> INTCS_MAX"
  have "buffered_file memory_file c p b"
    by (rule ctor_buffered [where file_at = memory_file, OF b(1) m _ b(2)]) (use m in \<open>simp add: memory_file_def\<close>)
  from memory.buffered_write_byte [OF this assms(2), of v] obtain b'
    where b': "BufferedStream_WriteByte MemoryStream_vtable v b = (Returns (), b')"
      "buffered_file memory_file (overwrite c p [v]) (p + 1) b'"
    by (rule runsE)
  then show "ms_data (BufferedStream_dtor MemoryStream_vtable (snd (BufferedStream_WriteByte MemoryStream_vtable v b))) =
         c @ replicate (p - length c) 0 @ [v]"
    using memory.buffered_close [OF b'(2)] close_memory ov by (fastforce simp: BufferedStream_dtor_def)
qed

theorem write_byte_behind_end_witness:
  "MemoryStream_WriteByte 9 \<lparr>ms_data = [1], ms_position = 3, ms_writable = True, ms_isOpen = True\<rparr> =
     (Returns (), \<lparr>ms_data = [1, 9], ms_position = 4, ms_writable = True, ms_isOpen = True\<rparr>)"
  using write_byte_behind_end [of "[1]" 3 9] by (simp add: INTCS_MAX_def)

end
