(* ===== verification/IO_Binary.thy ===== *)
theory IO_Binary
  imports IO_Buffered Buf_Binary
begin

unbundle bit_operations_syntax

text \<open>
  \<^verbatim>\<open>System/IO/BinaryWriter.cpp\<close> and \<^verbatim>\<open>BinaryReader.cpp\<close>: primitive values, length-prefixed strings and UTF-8 characters
  over any stream. \<^verbatim>\<open>float\<close> and \<^verbatim>\<open>double\<close> are their bit patterns, signed integers are \<open>int\<close>; \<^verbatim>\<open>ReadDecimal\<close> is left
  out, since \<^verbatim>\<open>Decimal\<close> is not modelled. The proofs use the stream only through the contract
  \<open>byte_file\<close>, so they hold for memory streams and for buffered ones.
\<close>

type_synonym charcs = "16 word"

section \<open>Model: BinaryWriter\<close>

record 's BinaryWriter =
  bw_stream :: 's
  bw_leaveOpen :: bool
  bw_disposed :: bool

definition BinaryWriter_ctor :: "'s Stream \<Rightarrow> 's option \<Rightarrow> bool \<Rightarrow> 's BinaryWriter res" where
  "BinaryWriter_ctor vt stream leaveOpen =
     (case stream of
        None \<Rightarrow> Inl (ArgumentNullException ''stream'')
      | Some s \<Rightarrow>
          if \<not> vCanWrite vt s then Inl (ArgumentException '''')
          else Inr \<lparr>bw_stream = s, bw_leaveOpen = leaveOpen, bw_disposed = False\<rparr>)"

definition bw_call :: "('s, 'a) io \<Rightarrow> ('s BinaryWriter, 'a) io" where
  "bw_call m w = (case m (bw_stream w) of (r, s) \<Rightarrow> (r, w\<lparr>bw_stream := s\<rparr>))"

text \<open>What \<^verbatim>\<open>Close\<close> and the destructor do with the stream.\<close>

definition bw_release :: "'s Stream \<Rightarrow> ('s BinaryWriter, unit) io" where
  "bw_release vt = io_if bw_leaveOpen (bw_call (vFlush vt)) (bw_call (vClose vt))"

definition BinaryWriter_dtor :: "'s Stream \<Rightarrow> ('s BinaryWriter, unit) io" where
  "BinaryWriter_dtor vt = io_if (\<lambda>w. \<not> bw_disposed w) (bw_release vt) (io_return ())"

definition BW_ThrowIfDisposed :: "('s BinaryWriter, unit) io" where
  "BW_ThrowIfDisposed = io_if bw_disposed (io_throw (ObjectDisposedException ''BinaryWriter'')) (io_return ())"

definition BW_WriteBytes :: "'s Stream \<Rightarrow> bytecs list \<Rightarrow> intcs \<Rightarrow> ('s BinaryWriter, unit) io" where
  "BW_WriteBytes vt buf count = io_then BW_ThrowIfDisposed (bw_call (vWrite vt (Some buf) 0 count))"

definition BW_Write_byte :: "'s Stream \<Rightarrow> bytecs \<Rightarrow> ('s BinaryWriter, unit) io" where
  "BW_Write_byte vt value = BW_WriteBytes vt [value] 1"

definition BW_Write_sbyte :: "'s Stream \<Rightarrow> int \<Rightarrow> ('s BinaryWriter, unit) io" where
  "BW_Write_sbyte vt value = BW_WriteBytes vt [of_int value] 1"

definition BW_Write_int16 :: "'s Stream \<Rightarrow> int \<Rightarrow> ('s BinaryWriter, unit) io" where
  "BW_Write_int16 vt value = BW_WriteBytes vt [of_int (value AND 0xFF), of_int (drop_bit 8 value AND 0xFF)] 2"

definition BW_Write_uint16 :: "'s Stream \<Rightarrow> 16 word \<Rightarrow> ('s BinaryWriter, unit) io" where
  "BW_Write_uint16 vt value = BW_Write_int16 vt (sint value)"

definition BW_Write_int32 :: "'s Stream \<Rightarrow> int \<Rightarrow> ('s BinaryWriter, unit) io" where
  "BW_Write_int32 vt value =
     BW_WriteBytes vt [of_int (value AND 0xFF), of_int (drop_bit 8 value AND 0xFF),
       of_int (drop_bit 16 value AND 0xFF), of_int (drop_bit 24 value AND 0xFF)] 4"

definition BW_Write_uint32 :: "'s Stream \<Rightarrow> uintcs \<Rightarrow> ('s BinaryWriter, unit) io" where
  "BW_Write_uint32 vt value = BW_Write_int32 vt (sint value)"

definition BW_Write_int64 :: "'s Stream \<Rightarrow> int \<Rightarrow> ('s BinaryWriter, unit) io" where
  "BW_Write_int64 vt value = BW_WriteBytes vt (map (\<lambda>i. of_int (drop_bit (i * 8) value AND 0xFF)) [0..<8]) 8"

definition BW_Write_uint64 :: "'s Stream \<Rightarrow> ulongcs \<Rightarrow> ('s BinaryWriter, unit) io" where
  "BW_Write_uint64 vt value = BW_Write_int64 vt (sint value)"

definition BW_Write_single :: "'s Stream \<Rightarrow> uintcs \<Rightarrow> ('s BinaryWriter, unit) io" where
  "BW_Write_single vt raw = BW_Write_uint32 vt raw"

definition BW_Write_double :: "'s Stream \<Rightarrow> ulongcs \<Rightarrow> ('s BinaryWriter, unit) io" where
  "BW_Write_double vt raw = BW_Write_uint64 vt raw"

definition BW_Write_bool :: "'s Stream \<Rightarrow> bool \<Rightarrow> ('s BinaryWriter, unit) io" where
  "BW_Write_bool vt value = BW_WriteBytes vt [if value then 1 else 0] 1"

text \<open>The loop of \<^verbatim>\<open>Write7BitEncodedInt\<close>.\<close>

function write7_loop :: "'s Stream \<Rightarrow> uintcs \<Rightarrow> ('s BinaryWriter, unit) io" where
  "write7_loop vt uValue =
     (if uValue > 0x7F
      then io_then (BW_Write_byte vt (ucast (uValue OR NOT 0x7F))) (write7_loop vt (drop_bit 7 uValue))
      else BW_Write_byte vt (ucast uValue))"
  by pat_completeness auto
termination
proof (relation "measure (\<lambda>(vt, u). unat u)")
  fix vt :: "'s Stream" and u :: uintcs
  assume "u > 0x7F"
  then have "unat u div 2 ^ 7 < unat u" by (simp add: word_less_nat_alt)
  then show "((vt, drop_bit 7 u), vt, u) \<in> measure (\<lambda>(vt, u). unat u)"
    by (simp add: drop_bit_eq_div unat_div)
qed simp

declare write7_loop.simps [simp del]

definition BW_Write7BitEncodedInt :: "'s Stream \<Rightarrow> int \<Rightarrow> ('s BinaryWriter, unit) io" where
  "BW_Write7BitEncodedInt vt value = write7_loop vt (of_int value)"

definition BW_Write_string :: "'s Stream \<Rightarrow> bytecs list \<Rightarrow> ('s BinaryWriter, unit) io" where
  "BW_Write_string vt value =
     io_then (BW_Write7BitEncodedInt vt (intcs_of_size (length value)))
       (BW_WriteBytes vt value (intcs_of_size (length value)))"

definition BW_Write_buffer :: "'s Stream \<Rightarrow> buffer \<Rightarrow> intcs \<Rightarrow> intcs \<Rightarrow> ('s BinaryWriter, unit) io" where
  "BW_Write_buffer vt buffer offset count = io_then BW_ThrowIfDisposed (bw_call (vWrite vt buffer offset count))"

definition BW_Flush :: "'s Stream \<Rightarrow> ('s BinaryWriter, unit) io" where
  "BW_Flush vt = io_then BW_ThrowIfDisposed (bw_call (vFlush vt))"

definition BW_Close :: "'s Stream \<Rightarrow> ('s BinaryWriter, unit) io" where
  "BW_Close vt =
     io_if (\<lambda>w. \<not> bw_disposed w)
       (io_then (bw_release vt) (io_modify (\<lambda>w. w\<lparr>bw_disposed := True\<rparr>))) (io_return ())"

section \<open>Model: BinaryReader\<close>

record 's BinaryReader =
  br_stream :: 's
  br_leaveOpen :: bool
  br_disposed :: bool
  br_hasPendingCharacter :: bool
  br_pendingCharacter :: charcs

definition BinaryReader_ctor :: "'s Stream \<Rightarrow> 's option \<Rightarrow> bool \<Rightarrow> 's BinaryReader res" where
  "BinaryReader_ctor vt stream leaveOpen =
     (case stream of
        None \<Rightarrow> Inl (ArgumentNullException ''stream'')
      | Some s \<Rightarrow>
          if \<not> vCanRead vt s then Inl (ArgumentException '''')
          else Inr \<lparr>br_stream = s, br_leaveOpen = leaveOpen, br_disposed = False, br_hasPendingCharacter = False,
                    br_pendingCharacter = 0\<rparr>)"

definition br_call :: "('s, 'a) io \<Rightarrow> ('s BinaryReader, 'a) io" where
  "br_call m r = (case m (br_stream r) of (x, s) \<Rightarrow> (x, r\<lparr>br_stream := s\<rparr>))"

definition BinaryReader_dtor :: "'s Stream \<Rightarrow> ('s BinaryReader, unit) io" where
  "BinaryReader_dtor vt = io_if (\<lambda>r. \<not> br_disposed r \<and> \<not> br_leaveOpen r) (br_call (vClose vt)) (io_return ())"

definition BR_ThrowIfDisposed :: "('s BinaryReader, unit) io" where
  "BR_ThrowIfDisposed = io_if br_disposed (io_throw (ObjectDisposedException ''BinaryReader'')) (io_return ())"

definition ThrowIfNegative :: "intcs \<Rightarrow> string \<Rightarrow> ('s, unit) io" where
  "ThrowIfNegative value paramName =
     (if value < 0 then io_throw (ArgumentOutOfRangeException paramName) else io_return ())"

text \<open>The loop of \<^verbatim>\<open>ReadBytesExact\<close>, on the buffer it fills.\<close>

partial_function (option) exact_loop ::
    "'s Stream \<Rightarrow> bytecs list \<Rightarrow> intcs \<Rightarrow> intcs \<Rightarrow> 's BinaryReader \<Rightarrow>
     (bytecs list outcome \<times> 's BinaryReader) option" where
  "exact_loop vt buf tot count r =
     (if tot < count
      then (case br_call (vRead vt (Some buf) tot (count - tot)) r of
              (Returns x, r') \<Rightarrow>
                if fst x = 0 then Some (Throws EndOfStreamException, r')
                else exact_loop vt (snd x) (tot + fst x) count r'
            | (Throws e, r') \<Rightarrow> Some (Throws e, r')
            | (Undefined, r') \<Rightarrow> Some (Undefined, r')
            | (Diverges, r') \<Rightarrow> Some (Diverges, r'))
      else Some (Returns buf, r))"

definition BR_ReadBytesExact :: "'s Stream \<Rightarrow> bytecs list \<Rightarrow> intcs \<Rightarrow> ('s BinaryReader, bytecs list) io" where
  "BR_ReadBytesExact vt buf count = io_then BR_ThrowIfDisposed (io_loop (exact_loop vt buf 0 count))"

text \<open>The continuation bytes of \<^verbatim>\<open>TryReadChar\<close>.\<close>

primrec char_continuations :: "'s Stream \<Rightarrow> nat \<Rightarrow> uintcs \<Rightarrow> ('s BinaryReader, uintcs) io" where
  "char_continuations vt 0 codepoint = io_return codepoint"
| "char_continuations vt (Suc k) codepoint =
     io_bind (br_call (vReadByte vt))
       (\<lambda>raw. if raw < 0 then io_throw EndOfStreamException
              else let continuation = (of_int raw :: bytecs)
                   in if continuation AND 0xC0 \<noteq> 0x80 then io_throw FormatException
                      else char_continuations vt k (push_bit 6 codepoint OR ucast (continuation AND 0x3F)))"

text \<open>The three variables the lead byte determines: code point, minimum and number of continuation bytes.\<close>

definition char_lead :: "bytecs \<Rightarrow> (uintcs \<times> uintcs \<times> nat) option" where
  "char_lead b0 =
     (if b0 AND 0x80 = 0 then Some (ucast b0, 0, 0)
      else if b0 \<ge> 0xC2 \<and> b0 \<le> 0xDF then Some (ucast (b0 AND 0x1F), 0x80, 1)
      else if b0 \<ge> 0xE0 \<and> b0 \<le> 0xEF then Some (ucast (b0 AND 0x0F), 0x800, 2)
      else if b0 \<ge> 0xF0 \<and> b0 \<le> 0xF4 then Some (ucast (b0 AND 0x07), 0x10000, 3)
      else None)"

definition char_result :: "uintcs \<Rightarrow> uintcs \<Rightarrow> ('s BinaryReader, charcs option) io" where
  "char_result codepoint minimum =
     (if codepoint < minimum \<or> codepoint > 0x10FFFF \<or> (codepoint \<ge> 0xD800 \<and> codepoint \<le> 0xDFFF)
      then io_throw FormatException
      else if codepoint \<le> 0xFFFF then io_return (Some (ucast codepoint))
      else let scalarOffset = codepoint - 0x10000
           in io_then
                (io_modify (\<lambda>r. r\<lparr>br_pendingCharacter := ucast (0xDC00 + (scalarOffset AND 0x3FF)),
                                  br_hasPendingCharacter := True\<rparr>))
                (io_return (Some (ucast (0xD800 + drop_bit 10 scalarOffset)))))"

text \<open>\<open>None\<close> is the result false: the stream is at its end.\<close>

definition BR_TryReadChar :: "'s Stream \<Rightarrow> ('s BinaryReader, charcs option) io" where
  "BR_TryReadChar vt =
     io_then BR_ThrowIfDisposed
       (io_if br_hasPendingCharacter
         (io_bind (io_get br_pendingCharacter)
           (\<lambda>c. io_then (io_modify (\<lambda>r. r\<lparr>br_hasPendingCharacter := False\<rparr>)) (io_return (Some c))))
         (io_bind (br_call (vReadByte vt))
           (\<lambda>rawLead.
              if rawLead < 0 then io_return None
              else case char_lead (of_int rawLead) of
                     None \<Rightarrow> io_throw FormatException
                   | Some (codepoint, minimum, n) \<Rightarrow>
                       io_bind (char_continuations vt n codepoint) (\<lambda>cp. char_result cp minimum))))"

definition BR_ReadByte :: "'s Stream \<Rightarrow> ('s BinaryReader, bytecs) io" where
  "BR_ReadByte vt = io_bind (BR_ReadBytesExact vt [0] 1) (\<lambda>b. io_return (b ! 0))"

definition BR_ReadSByte :: "'s Stream \<Rightarrow> ('s BinaryReader, int) io" where
  "BR_ReadSByte vt = io_bind (BR_ReadByte vt) (\<lambda>b. io_return (sint b))"

definition BR_ReadInt16 :: "'s Stream \<Rightarrow> ('s BinaryReader, int) io" where
  "BR_ReadInt16 vt =
     io_bind (BR_ReadBytesExact vt [0, 0] 2)
       (\<lambda>buf. io_return (sint (ucast (buf ! 0) OR push_bit 8 (ucast (buf ! 1)) :: 16 word)))"

definition BR_ReadUInt16 :: "'s Stream \<Rightarrow> ('s BinaryReader, 16 word) io" where
  "BR_ReadUInt16 vt = io_bind (BR_ReadInt16 vt) (\<lambda>v. io_return (of_int v))"

definition BR_ReadInt32 :: "'s Stream \<Rightarrow> ('s BinaryReader, int) io" where
  "BR_ReadInt32 vt =
     io_bind (BR_ReadBytesExact vt [0, 0, 0, 0] 4)
       (\<lambda>buf. io_return (sint (ucast (buf ! 0) OR push_bit 8 (ucast (buf ! 1)) OR push_bit 16 (ucast (buf ! 2)) OR
                               push_bit 24 (ucast (buf ! 3)) :: uintcs)))"

definition BR_ReadUInt32 :: "'s Stream \<Rightarrow> ('s BinaryReader, uintcs) io" where
  "BR_ReadUInt32 vt = io_bind (BR_ReadInt32 vt) (\<lambda>v. io_return (of_int v))"

definition BR_ReadInt64 :: "'s Stream \<Rightarrow> ('s BinaryReader, int) io" where
  "BR_ReadInt64 vt =
     io_bind (BR_ReadUInt32 vt)
       (\<lambda>lo. io_bind (BR_ReadUInt32 vt) (\<lambda>hi. io_return (sint (push_bit 32 (ucast hi) OR ucast lo :: ulongcs))))"

definition BR_ReadUInt64 :: "'s Stream \<Rightarrow> ('s BinaryReader, ulongcs) io" where
  "BR_ReadUInt64 vt = io_bind (BR_ReadInt64 vt) (\<lambda>v. io_return (of_int v))"

definition BR_ReadSingle :: "'s Stream \<Rightarrow> ('s BinaryReader, uintcs) io" where
  "BR_ReadSingle vt = BR_ReadUInt32 vt"

definition BR_ReadDouble :: "'s Stream \<Rightarrow> ('s BinaryReader, ulongcs) io" where
  "BR_ReadDouble vt = BR_ReadUInt64 vt"

definition BR_ReadBoolean :: "'s Stream \<Rightarrow> ('s BinaryReader, bool) io" where
  "BR_ReadBoolean vt = io_bind (BR_ReadByte vt) (\<lambda>b. io_return (b \<noteq> 0))"

definition BR_ReadChar :: "'s Stream \<Rightarrow> ('s BinaryReader, charcs) io" where
  "BR_ReadChar vt =
     io_bind (BR_TryReadChar vt) (\<lambda>c. case c of None \<Rightarrow> io_throw EndOfStreamException | Some ch \<Rightarrow> io_return ch)"

text \<open>The restoration in both branches of the \<^verbatim>\<open>try\<close> of \<^verbatim>\<open>PeekChar\<close>.\<close>

definition peek_restore :: "'s Stream \<Rightarrow> intcs \<Rightarrow> bool \<Rightarrow> charcs \<Rightarrow> ('s BinaryReader, unit) io" where
  "peek_restore vt position had pending =
     io_then (br_call (vSetPosition vt position))
       (io_modify (\<lambda>r. r\<lparr>br_hasPendingCharacter := had, br_pendingCharacter := pending\<rparr>))"

definition peek_read :: "'s Stream \<Rightarrow> intcs \<Rightarrow> ('s BinaryReader, intcs) io" where
  "peek_read vt position r =
     (case BR_ReadChar vt r of
        (Returns c, r') \<Rightarrow>
          io_then (peek_restore vt position (br_hasPendingCharacter r) (br_pendingCharacter r)) (io_return (uint c)) r'
      | (Throws e, r') \<Rightarrow>
          io_then (peek_restore vt position (br_hasPendingCharacter r) (br_pendingCharacter r)) (io_throw e) r'
      | (Undefined, r') \<Rightarrow> (Undefined, r')
      | (Diverges, r') \<Rightarrow> (Diverges, r'))"

definition BR_PeekChar :: "'s Stream \<Rightarrow> ('s BinaryReader, intcs) io" where
  "BR_PeekChar vt =
     io_then BR_ThrowIfDisposed
       (io_if (\<lambda>r. \<not> vCanSeek vt (br_stream r))
         (io_throw (NotSupportedException ''BinaryReader::PeekChar requires a seekable stream in this implementation.''))
         (io_bind (br_call (vGetPosition vt))
           (\<lambda>position.
              io_if br_hasPendingCharacter (io_get (\<lambda>r. uint (br_pendingCharacter r)))
                (io_bind (br_call (vGetLength vt))
                  (\<lambda>len. if position \<ge> len then io_return (- 1) else peek_read vt position)))))"

text \<open>The loop of \<^verbatim>\<open>ReadChars\<close> and \<^verbatim>\<open>Read\<close>, for \<open>k\<close> more characters.\<close>

primrec chars_loop :: "'s Stream \<Rightarrow> nat \<Rightarrow> charcs list \<Rightarrow> ('s BinaryReader, charcs list) io" where
  "chars_loop vt 0 result = io_return result"
| "chars_loop vt (Suc k) result =
     io_bind (BR_TryReadChar vt)
       (\<lambda>c. case c of None \<Rightarrow> io_return result | Some ch \<Rightarrow> chars_loop vt k (result @ [ch]))"

definition BR_ReadChars :: "'s Stream \<Rightarrow> intcs \<Rightarrow> ('s BinaryReader, charcs list) io" where
  "BR_ReadChars vt count =
     io_then (ThrowIfNegative count ''count'')
       (io_then BR_ThrowIfDisposed (chars_loop vt (nat count) []))"

text \<open>
  \<^verbatim>\<open>Read(charcs buffer[], ...)\<close> stores the same characters one by one; the buffer after the call is part of the
  result, and a store outside of it is undefined.
\<close>

primrec read_chars_loop :: "'s Stream \<Rightarrow> nat \<Rightarrow> nat \<Rightarrow> nat \<Rightarrow> charcs list \<Rightarrow> ('s BinaryReader, intcs \<times> charcs list) io" where
  "read_chars_loop vt 0 offset tot buf = io_return (int tot, buf)"
| "read_chars_loop vt (Suc k) offset tot buf =
     io_bind (BR_TryReadChar vt)
       (\<lambda>c. case c of
              None \<Rightarrow> io_return (int tot, buf)
            | Some ch \<Rightarrow>
                if offset + tot < length buf
                then read_chars_loop vt k offset (Suc tot) (buf[offset + tot := ch])
                else io_undefined)"

definition BR_Read_chars ::
    "'s Stream \<Rightarrow> charcs list option \<Rightarrow> intcs \<Rightarrow> intcs \<Rightarrow> ('s BinaryReader, intcs \<times> charcs list) io" where
  "BR_Read_chars vt buffer offset count =
     (case buffer of
        None \<Rightarrow> io_throw (ArgumentNullException ''buffer'')
      | Some buf \<Rightarrow>
          io_then (ThrowIfNegative offset ''offset'')
            (io_then (ThrowIfNegative count ''count'')
              (io_then BR_ThrowIfDisposed (read_chars_loop vt (nat count) (nat offset) 0 buf))))"

text \<open>The rounds of \<^verbatim>\<open>Read7BitEncodedInt\<close>: four bytes of seven bits, then one of four.\<close>

primrec read7_loop :: "'s Stream \<Rightarrow> nat \<Rightarrow> nat \<Rightarrow> uintcs \<Rightarrow> ('s BinaryReader, int) io" where
  "read7_loop vt 0 shift result =
     io_bind (BR_ReadByte vt)
       (\<lambda>b. if b > 0xF then io_throw FormatException
            else io_return (sint (result OR push_bit shift (ucast b))))"
| "read7_loop vt (Suc k) shift result =
     io_bind (BR_ReadByte vt)
       (\<lambda>b. let result' = result OR push_bit shift (ucast b AND 0x7F)
            in if b \<le> 0x7F then io_return (sint result') else read7_loop vt k (shift + 7) result')"

definition BR_Read7BitEncodedInt :: "'s Stream \<Rightarrow> ('s BinaryReader, int) io" where
  "BR_Read7BitEncodedInt vt = read7_loop vt 4 0 0"

text \<open>\<^verbatim>\<open>stream_->getLengthProperty() - stream_->getPositionProperty()\<close>.\<close>

definition br_remaining :: "'s Stream \<Rightarrow> ('s BinaryReader, intcs) io" where
  "br_remaining vt =
     io_bind (br_call (vGetLength vt)) (\<lambda>l. io_bind (br_call (vGetPosition vt)) (intcs_sub l))"

definition BR_ReadString :: "'s Stream \<Rightarrow> ('s BinaryReader, bytecs list) io" where
  "BR_ReadString vt =
     io_bind (BR_Read7BitEncodedInt vt)
       (\<lambda>len.
          if len < 0 then io_throw (IOException ''Invalid string length.'')
          else if len = 0 then io_return []
          else io_then
                 (io_if (\<lambda>r. vCanSeek vt (br_stream r))
                   (io_bind (br_remaining vt)
                     (\<lambda>remaining. if remaining \<ge> 0 \<and> len > remaining then io_throw EndOfStreamException else io_return ()))
                   (io_return ()))
                 (BR_ReadBytesExact vt (replicate (nat len) 0) len))"

definition BR_Read_buffer :: "'s Stream \<Rightarrow> buffer \<Rightarrow> intcs \<Rightarrow> intcs \<Rightarrow> ('s BinaryReader, intcs \<times> bytecs list) io" where
  "BR_Read_buffer vt buffer offset count =
     io_then BR_ThrowIfDisposed
       (io_then (ThrowIfNegative offset ''offset'')
         (io_then (ThrowIfNegative count ''count'') (br_call (vRead vt buffer offset count))))"

text \<open>The loop of \<^verbatim>\<open>ReadBytes\<close>: the buffer and the number of bytes read.\<close>

partial_function (option) bytes_loop ::
    "'s Stream \<Rightarrow> bytecs list \<Rightarrow> intcs \<Rightarrow> intcs \<Rightarrow> 's BinaryReader \<Rightarrow>
     ((bytecs list \<times> intcs) outcome \<times> 's BinaryReader) option" where
  "bytes_loop vt buf tot count r =
     (if tot < count
      then (case br_call (vRead vt (Some buf) tot (count - tot)) r of
              (Returns x, r') \<Rightarrow>
                if fst x = 0 then Some (Returns (snd x, tot), r')
                else bytes_loop vt (snd x) (tot + fst x) count r'
            | (Throws e, r') \<Rightarrow> Some (Throws e, r')
            | (Undefined, r') \<Rightarrow> Some (Undefined, r')
            | (Diverges, r') \<Rightarrow> Some (Diverges, r'))
      else Some (Returns (buf, tot), r))"

definition BR_ReadBytes :: "'s Stream \<Rightarrow> intcs \<Rightarrow> ('s BinaryReader, bytecs list) io" where
  "BR_ReadBytes vt count =
     io_then BR_ThrowIfDisposed
       (io_then (ThrowIfNegative count ''count'')
         (if count = 0 then io_return []
          else io_bind
                 (io_if (\<lambda>r. vCanSeek vt (br_stream r))
                   (io_bind (br_remaining vt)
                     (\<lambda>remaining. io_return (if remaining \<ge> 0 \<and> remaining < count then remaining else count)))
                   (io_return count))
                 (\<lambda>allocateCount.
                    io_bind (io_loop (bytes_loop vt (replicate (nat allocateCount) 0) 0 allocateCount))
                      (\<lambda>(result, tot). io_return (if tot \<noteq> count then vector_resize (nat tot) result else result)))))"

definition BR_Close :: "'s Stream \<Rightarrow> ('s BinaryReader, unit) io" where
  "BR_Close vt =
     io_if (\<lambda>r. \<not> br_disposed r)
       (io_then (io_if (\<lambda>r. \<not> br_leaveOpen r) (br_call (vClose vt)) (io_return ()))
         (io_modify (\<lambda>r. r\<lparr>br_disposed := True\<rparr>)))
       (io_return ())"

section \<open>Values on the stream\<close>

text \<open>Everything the writer can write, and its encoding: little-endian, strings with a base-128 length.\<close>

datatype binary_item =
    BByte bytecs
  | BSByte int
  | BInt16 int
  | BUInt16 "16 word"
  | BInt32 int
  | BUInt32 uintcs
  | BInt64 int
  | BUInt64 ulongcs
  | BSingle uintcs
  | BDouble ulongcs
  | BBool bool
  | B7Bit int
  | BString "bytecs list"
  | BBytes "bytecs list"

fun leb128 :: "nat \<Rightarrow> bytecs list" where
  "leb128 n = (if n < 128 then [of_nat n] else of_nat (n mod 128 + 128) # leb128 (n div 128))"

declare leb128.simps [simp del]

definition le_int :: "nat \<Rightarrow> int \<Rightarrow> bytecs list" where
  "le_int n v = le_bytes n (nat (v mod 256 ^ n))"

primrec encode :: "binary_item \<Rightarrow> bytecs list" where
  "encode (BByte b) = [b]"
| "encode (BSByte v) = le_int 1 v"
| "encode (BInt16 v) = le_int 2 v"
| "encode (BUInt16 w) = le_bytes 2 (unat w)"
| "encode (BInt32 v) = le_int 4 v"
| "encode (BUInt32 w) = le_bytes 4 (unat w)"
| "encode (BInt64 v) = le_int 8 v"
| "encode (BUInt64 w) = le_bytes 8 (unat w)"
| "encode (BSingle w) = le_bytes 4 (unat w)"
| "encode (BDouble w) = le_bytes 8 (unat w)"
| "encode (BBool b) = [if b then 1 else 0]"
| "encode (B7Bit v) = leb128 (nat (v mod 2 ^ 32))"
| "encode (BString bs) = leb128 (length bs) @ bs"
| "encode (BBytes bs) = bs"

text \<open>Signed values fit their types.\<close>

definition fits_bits :: "nat \<Rightarrow> int \<Rightarrow> bool" where
  "fits_bits k v \<longleftrightarrow> - (2 ^ (k - 1)) \<le> v \<and> v < 2 ^ (k - 1)"

primrec item_ok :: "binary_item \<Rightarrow> bool" where
  "item_ok (BByte b) \<longleftrightarrow> True"
| "item_ok (BSByte v) \<longleftrightarrow> fits_bits 8 v"
| "item_ok (BInt16 v) \<longleftrightarrow> fits_bits 16 v"
| "item_ok (BUInt16 w) \<longleftrightarrow> True"
| "item_ok (BInt32 v) \<longleftrightarrow> fits_bits 32 v"
| "item_ok (BUInt32 w) \<longleftrightarrow> True"
| "item_ok (BInt64 v) \<longleftrightarrow> fits_bits 64 v"
| "item_ok (BUInt64 w) \<longleftrightarrow> True"
| "item_ok (BSingle w) \<longleftrightarrow> True"
| "item_ok (BDouble w) \<longleftrightarrow> True"
| "item_ok (BBool b) \<longleftrightarrow> True"
| "item_ok (B7Bit v) \<longleftrightarrow> fits_bits 32 v"
| "item_ok (BString bs) \<longleftrightarrow> True"
| "item_ok (BBytes bs) \<longleftrightarrow> True"

text \<open>The call of the writer for an item, and the call of the reader for an item of the same kind.\<close>

primrec write_item :: "'s Stream \<Rightarrow> binary_item \<Rightarrow> ('s BinaryWriter, unit) io" where
  "write_item vt (BByte b) = BW_Write_byte vt b"
| "write_item vt (BSByte v) = BW_Write_sbyte vt v"
| "write_item vt (BInt16 v) = BW_Write_int16 vt v"
| "write_item vt (BUInt16 w) = BW_Write_uint16 vt w"
| "write_item vt (BInt32 v) = BW_Write_int32 vt v"
| "write_item vt (BUInt32 w) = BW_Write_uint32 vt w"
| "write_item vt (BInt64 v) = BW_Write_int64 vt v"
| "write_item vt (BUInt64 w) = BW_Write_uint64 vt w"
| "write_item vt (BSingle w) = BW_Write_single vt w"
| "write_item vt (BDouble w) = BW_Write_double vt w"
| "write_item vt (BBool b) = BW_Write_bool vt b"
| "write_item vt (B7Bit v) = BW_Write7BitEncodedInt vt v"
| "write_item vt (BString bs) = BW_Write_string vt bs"
| "write_item vt (BBytes bs) = BW_Write_buffer vt (Some bs) 0 (int (length bs))"

primrec read_item :: "'s Stream \<Rightarrow> binary_item \<Rightarrow> ('s BinaryReader, binary_item) io" where
  "read_item vt (BByte b) = io_bind (BR_ReadByte vt) (\<lambda>x. io_return (BByte x))"
| "read_item vt (BSByte v) = io_bind (BR_ReadSByte vt) (\<lambda>x. io_return (BSByte x))"
| "read_item vt (BInt16 v) = io_bind (BR_ReadInt16 vt) (\<lambda>x. io_return (BInt16 x))"
| "read_item vt (BUInt16 w) = io_bind (BR_ReadUInt16 vt) (\<lambda>x. io_return (BUInt16 x))"
| "read_item vt (BInt32 v) = io_bind (BR_ReadInt32 vt) (\<lambda>x. io_return (BInt32 x))"
| "read_item vt (BUInt32 w) = io_bind (BR_ReadUInt32 vt) (\<lambda>x. io_return (BUInt32 x))"
| "read_item vt (BInt64 v) = io_bind (BR_ReadInt64 vt) (\<lambda>x. io_return (BInt64 x))"
| "read_item vt (BUInt64 w) = io_bind (BR_ReadUInt64 vt) (\<lambda>x. io_return (BUInt64 x))"
| "read_item vt (BSingle w) = io_bind (BR_ReadSingle vt) (\<lambda>x. io_return (BSingle x))"
| "read_item vt (BDouble w) = io_bind (BR_ReadDouble vt) (\<lambda>x. io_return (BDouble x))"
| "read_item vt (BBool b) = io_bind (BR_ReadBoolean vt) (\<lambda>x. io_return (BBool x))"
| "read_item vt (B7Bit v) = io_bind (BR_Read7BitEncodedInt vt) (\<lambda>x. io_return (B7Bit x))"
| "read_item vt (BString bs) = io_bind (BR_ReadString vt) (\<lambda>x. io_return (BString x))"
| "read_item vt (BBytes bs) = io_bind (BR_ReadBytes vt (int (length bs))) (\<lambda>x. io_return (BBytes x))"

primrec write_items :: "'s Stream \<Rightarrow> binary_item list \<Rightarrow> ('s BinaryWriter, unit) io" where
  "write_items vt [] = io_return ()"
| "write_items vt (i # is) = io_then (write_item vt i) (write_items vt is)"

primrec read_items :: "'s Stream \<Rightarrow> binary_item list \<Rightarrow> ('s BinaryReader, binary_item list) io" where
  "read_items vt [] = io_return []"
| "read_items vt (i # is) =
     io_bind (read_item vt i) (\<lambda>x. io_bind (read_items vt is) (\<lambda>xs. io_return (x # xs)))"

section \<open>Bytes of a value\<close>

lemma length_le_bytes [simp]: "length (le_bytes n x) = n"
  by (simp add: le_bytes_def)

lemma length_le_int [simp]: "length (le_int n v) = n"
  by (simp add: le_int_def)

lemma le_byte: "i < n \<Longrightarrow> le_bytes n x ! i = of_nat (drop_bit (8 * i) x)"
proof -
  assume "i < n"
  then have "le_bytes n x ! i = of_nat (x div 2 ^ (8 * i) mod 2 ^ 8)"
    by (simp add: le_bytes_def power_mult)
  also have "\<dots> = (of_nat (drop_bit (8 * i) x) :: bytecs)"
    by (simp add: drop_bit_eq_div flip: take_bit_eq_mod) (simp add: take_bit_eq_mod word_of_nat_eq_iff)
  finally show ?thesis .
qed

lemma int_and_FF: "x AND 0xFF = take_bit 8 (x :: int)"
  by (simp add: take_bit_eq_mask mask_eq_exp_minus_1)

lemma le_int_byte:
  assumes "i < n"
  shows "(of_int (drop_bit (8 * i) v AND 0xFF) :: bytecs) = le_int n v ! i"
proof -
  have "(of_int (drop_bit (8 * i) v AND 0xFF) :: bytecs) = of_int (drop_bit (8 * i) (take_bit (8 * n) v))"
    using assms unfolding int_and_FF by (intro bit_word_eqI) (auto simp: bit_simps)
  also have "\<dots> = of_nat (drop_bit (8 * i) (nat (take_bit (8 * n) v)))"
  proof -
    obtain y where y: "take_bit (8 * n) v = int y" using nonneg_int_cases [OF take_bit_nonnegative] by metis
    have "drop_bit (8 * i) (int y) = int (drop_bit (8 * i) y)" by (simp add: drop_bit_of_nat)
    then show ?thesis unfolding y by simp
  qed
  finally show ?thesis using assms by (simp add: le_int_def le_byte take_bit_eq_mod power_mult)
qed

lemma le_int_list: "le_int n v = map (\<lambda>i. of_int (drop_bit (8 * i) v AND 0xFF)) [0..<n]"
  by (rule nth_equalityI) (simp_all add: le_int_byte)

lemma le_int_1: "le_int 1 v = [of_int v]"
  unfolding le_int_list int_and_FF by (simp, rule bit_word_eqI) (simp add: bit_simps)

lemma le_int_2: "le_int 2 v = [of_int (v AND 0xFF), of_int (drop_bit 8 v AND 0xFF)]"
  by (simp add: le_int_list upt_rec)

lemma le_int_4: "le_int 4 v =
  [of_int (v AND 0xFF), of_int (drop_bit 8 v AND 0xFF), of_int (drop_bit 16 v AND 0xFF), of_int (drop_bit 24 v AND 0xFF)]"
  by (simp add: le_int_list upt_rec)

lemma le_int_sint:
  fixes w :: "'a::len word"
  assumes "LENGTH('a) = 8 * n"
  shows "le_int n (sint w) = le_bytes n (unat w)"
proof -
  have "sint w mod 2 ^ LENGTH('a) = uint w"
    by (simp add: uint_sint take_bit_eq_mod)
  then show ?thesis using assms by (simp add: le_int_def power_mult nat_uint_eq)
qed

text \<open>Reassembling the bytes.\<close>

lemma join_16:
  assumes "bs = le_bytes 2 x"
  shows "(ucast (bs ! 0) OR push_bit 8 (ucast (bs ! 1)) :: 16 word) = of_nat x"
  unfolding assms by (rule bit_word_eqI) (auto simp: le_byte bit_simps)

lemma join_32:
  assumes "bs = le_bytes 4 x"
  shows "(ucast (bs ! 0) OR push_bit 8 (ucast (bs ! 1)) OR push_bit 16 (ucast (bs ! 2)) OR
          push_bit 24 (ucast (bs ! 3)) :: uintcs) = of_nat x"
proof (rule bit_word_eqI)
  fix n assume "n < LENGTH(32)"
  then consider "n < 8" | "8 \<le> n" "n < 16" | "16 \<le> n" "n < 24" | "24 \<le> n" "n < 32" by fastforce
  then show "bit (ucast (bs ! 0) OR push_bit 8 (ucast (bs ! 1)) OR push_bit 16 (ucast (bs ! 2)) OR
          push_bit 24 (ucast (bs ! 3)) :: uintcs) n \<longleftrightarrow> bit (of_nat x :: uintcs) n"
    unfolding assms by cases (auto simp: le_byte bit_simps)
qed

lemma join_64: "(push_bit 32 (ucast (of_nat (drop_bit 32 x) :: uintcs)) OR ucast (of_nat x :: uintcs) :: ulongcs) = of_nat x"
  by (rule bit_word_eqI) (auto simp: bit_simps)

lemma le_bytes_8: "le_bytes 8 x = le_bytes 4 x @ le_bytes 4 (drop_bit 32 x)"
  by (rule nth_equalityI) (auto simp: le_byte nth_append drop_bit_drop_bit diff_mult_distrib2)

lemma sint_of_le:
  assumes "fits_bits LENGTH('a) v" and "LENGTH('a::len) = 8 * n"
  shows "sint (of_nat (nat (v mod 256 ^ n)) :: 'a word) = v"
proof -
  have "(of_nat (nat (v mod 256 ^ n)) :: 'a word) = of_int (v mod 2 ^ LENGTH('a))"
    by (simp add: assms(2) power_mult of_nat_nat)
  also have "\<dots> = of_int v" by (simp add: word_of_int_eq_iff flip: take_bit_eq_mod)
  finally show ?thesis
    using assms(1) by (simp add: signed_of_int fits_bits_def signed_take_bit_int_eq_self)
qed

section \<open>Base-128 numbers\<close>

lemma leb128_nonempty [simp]: "leb128 n \<noteq> []"
  by (simp add: leb128.simps [of n])

lemma high_byte: "unat (ucast (u OR NOT 0x7F :: uintcs) :: bytecs) = unat u mod 128 + 128"
proof -
  have "(ucast (u OR NOT 0x7F :: uintcs) :: bytecs) = push_bit 7 1 OR ucast (take_bit 7 u)"
  proof (rule bit_word_eqI)
    fix n assume "n < LENGTH(8)"
    then have n: "n < 8" by simp
    have m: "(0x7F :: uintcs) = mask 7" by (simp add: mask_eq_exp_minus_1)
    have "bit (0x7F :: uintcs) n \<longleftrightarrow> n < 7" by (simp only: m bit_mask_iff) (use n in simp)
    then have "bit (ucast (u OR NOT 0x7F :: uintcs) :: bytecs) n \<longleftrightarrow> bit u n \<or> \<not> n < 7"
      using n by (simp only: bit_unsigned_iff bit_or_iff bit_not_iff possible_bit_word) simp
    moreover have "bit (push_bit 7 1 OR ucast (take_bit 7 u) :: bytecs) n \<longleftrightarrow> n = 7 \<or> n < 7 \<and> bit u n"
      using n by (simp only: bit_unsigned_iff bit_or_iff bit_push_bit_iff bit_1_iff bit_take_bit_iff possible_bit_word) auto
    ultimately show "bit (ucast (u OR NOT 0x7F :: uintcs) :: bytecs) n \<longleftrightarrow>
        bit (push_bit 7 1 OR ucast (take_bit 7 u) :: bytecs) n"
      using n by auto
  qed
  also have "unat \<dots> = push_bit 7 1 OR unat u mod 128"
    by (simp add: unsigned_or_eq unsigned_ucast_eq take_bit_eq_mod unat_mod)
  also have "\<dots> = unat u mod 128 + 128" using nat_shift_or [of "unat u mod 128" 7 1] by simp
  finally show ?thesis .
qed

lemma unat_low7: "unat (w AND 0x7F :: uintcs) = unat w mod 128"
proof -
  have "w AND 0x7F = take_bit 7 w" by (simp add: take_bit_eq_mask mask_eq_exp_minus_1)
  then show ?thesis by (simp add: unsigned_take_bit_eq take_bit_eq_mod unat_mod)
qed

text \<open>Seven more bits above the ones already read.\<close>

lemma seven_bits:
  fixes result :: uintcs and b :: bytecs
  assumes "unat result < 2 ^ shift" and "(unat b mod 128) * 2 ^ shift < 2 ^ 32"
  shows "unat (result OR push_bit shift (ucast b AND 0x7F)) = (unat b mod 128) * 2 ^ shift + unat result"
  using unat_shift_or [OF assms(1), of "ucast b AND 0x7F"] assms(2)
  by (simp add: unat_low7 unat_ucast_byte or.commute)

section \<open>Writing and reading a byte file\<close>

definition writer_at :: "(bytecs list \<Rightarrow> nat \<Rightarrow> 's \<Rightarrow> bool) \<Rightarrow> bytecs list \<Rightarrow> nat \<Rightarrow> 's BinaryWriter \<Rightarrow> bool" where
  "writer_at file_at c p w \<longleftrightarrow> \<not> bw_disposed w \<and> file_at c p (bw_stream w)"

text \<open>The reader stands at byte \<open>p\<close>, with the second half of a surrogate pair to deliver or not.\<close>

definition reader_at ::
    "(bytecs list \<Rightarrow> nat \<Rightarrow> 's \<Rightarrow> bool) \<Rightarrow> bytecs list \<Rightarrow> nat \<Rightarrow> charcs option \<Rightarrow> 's BinaryReader \<Rightarrow> bool" where
  "reader_at file_at c p pend r \<longleftrightarrow> \<not> br_disposed r \<and> file_at c p (br_stream r) \<and>
     (case pend of None \<Rightarrow> \<not> br_hasPendingCharacter r
      | Some u \<Rightarrow> br_hasPendingCharacter r \<and> br_pendingCharacter r = u)"

lemma runs_bw_call: "runs m (bw_stream w) x Q \<Longrightarrow> runs (bw_call m) w x (\<lambda>w'. \<exists>s. w' = w\<lparr>bw_stream := s\<rparr> \<and> Q s)"
  by (auto simp: runs_def bw_call_def split: prod.splits)

lemma runs_br_call: "runs m (br_stream r) x Q \<Longrightarrow> runs (br_call m) r x (\<lambda>r'. \<exists>s. r' = r\<lparr>br_stream := s\<rparr> \<and> Q s)"
  by (auto simp: runs_def br_call_def split: prod.splits)

text \<open>The bytes \<open>xs\<close> are next on the stream.\<close>

definition next_bytes :: "bytecs list \<Rightarrow> nat \<Rightarrow> bytecs list \<Rightarrow> bool" where
  "next_bytes c p xs \<longleftrightarrow> p + length xs \<le> length c \<and> get_bytes c p (length xs) = xs"

lemma next_bytes_append:
  "next_bytes c p (xs @ ys) \<longleftrightarrow> next_bytes c p xs \<and> next_bytes c (p + length xs) ys"
proof (cases "p + length xs + length ys \<le> length c")
  case True
  then have "get_bytes c p (length xs + length ys) = get_bytes c p (length xs) @ get_bytes c (p + length xs) (length ys)"
    using get_bytes_split [of "length xs" "length xs + length ys" c p] by (simp add: get_bytes_length)
  then show ?thesis using True by (auto simp: next_bytes_def get_bytes_length)
qed (auto simp: next_bytes_def)

lemma next_bytes_overwrite: "p \<le> length c \<or> bs \<noteq> [] \<Longrightarrow> next_bytes (overwrite c p bs) p bs"
  by (auto simp: next_bytes_def get_overwrite_prefix length_overwrite)

context byte_file
begin

lemma writer_open: "writer_at file_at c p w \<Longrightarrow> runs BW_ThrowIfDisposed w () (writer_at file_at c p)"
  by (simp add: BW_ThrowIfDisposed_def writer_at_def)

lemma reader_open: "reader_at file_at c p pend r \<Longrightarrow> runs BR_ThrowIfDisposed r () (reader_at file_at c p pend)"
  by (simp add: BR_ThrowIfDisposed_def reader_at_def)

lemma reader_call:
  assumes "reader_at file_at c p pend r" and "\<And>s. file_at c p s \<Longrightarrow> runs m s x (file_at c p')"
  shows "runs (br_call m) r x (reader_at file_at c p' pend)"
proof -
  have "file_at c p (br_stream r)" using assms(1) by (simp add: reader_at_def)
  from runs_br_call [OF assms(2) [OF this]] show ?thesis
    by (rule runs_mono) (use assms(1) in \<open>auto simp: reader_at_def split: option.splits\<close>)
qed

lemma write_bytes:
  assumes "writer_at file_at c p w" and "int p + int (length bs) \<le> INTCS_MAX"
  shows "runs (BW_WriteBytes vt bs (int (length bs))) w () (writer_at file_at (overwrite c p bs) (p + length bs))"
proof -
  have "runs (bw_call (vWrite vt (Some bs) 0 (int (length bs)))) w' () (writer_at file_at (overwrite c p bs) (p + length bs))"
    if "writer_at file_at c p w'" for w'
    using write_ok [of c p "bw_stream w'" 0 "int (length bs)" bs] that assms(2)
    by (intro runs_mono [OF runs_bw_call [where Q = "file_at (overwrite c p bs) (p + length bs)"]])
       (auto simp: writer_at_def get_bytes_def)
  then show ?thesis
    unfolding BW_WriteBytes_def by (rule runs_then [OF writer_open [OF assms(1)]])
qed

lemma write7:
  assumes "writer_at file_at c p w" and "int p + int (length (leb128 (unat u))) \<le> INTCS_MAX"
  shows "runs (write7_loop vt u) w () (writer_at file_at (overwrite c p (leb128 (unat u))) (p + length (leb128 (unat u))))"
  using assms
proof (induction "unat u" arbitrary: u c p w rule: less_induct)
  case less
  show ?case
  proof (cases "u > 0x7F")
    case False
    then have l: "leb128 (unat u) = [ucast u]"
      by (subst leb128.simps) (simp add: word_less_nat_alt unsigned_ucast_eq)
    show ?thesis
      using write_bytes [OF less.prems(1), of "[ucast u]"] False less.prems(2)
      by (subst write7_loop.simps) (simp add: BW_Write_byte_def l)
  next
    case True
    have big: "\<not> unat u < 128" using True by (simp add: word_less_nat_alt)
    have d: "unat (drop_bit 7 u) = unat u div 128" by (simp add: drop_bit_eq_div unat_div)
    have h: "ucast (u OR NOT 0x7F) = (of_nat (unat u mod 128 + 128) :: bytecs)"
      by (rule word_unat_eq_iff [THEN iffD2])
         (simp only: high_byte, simp add: unsigned_of_nat take_bit_nat_eq_self del: of_nat_add)
    let ?b = "ucast (u OR NOT 0x7F) :: bytecs" and ?r = "leb128 (unat (drop_bit 7 u))"
    have l: "leb128 (unat u) = ?b # ?r"
      by (subst leb128.simps) (simp only: big d h if_False)
    have "runs (BW_Write_byte vt ?b) w () (writer_at file_at (overwrite c p [?b]) (p + 1))"
      using write_bytes [OF less.prems(1), of "[?b]"] less.prems(2) by (simp add: BW_Write_byte_def l)
    then have "runs (io_then (BW_Write_byte vt ?b) (write7_loop vt (drop_bit 7 u))) w ()
        (writer_at file_at (overwrite (overwrite c p [?b]) (p + 1) ?r) (p + 1 + length ?r))"
      by (rule runs_then)
         (use less.hyps [of "drop_bit 7 u" "overwrite c p [?b]" "p + 1"] less.prems(2) big d in \<open>simp add: l\<close>)
    then show ?thesis
      using True overwrite_overwrite [of c p "[?b]" ?r] by (subst write7_loop.simps) (simp add: l)
  qed
qed

lemma exact_loop_ok:
  assumes r: "reader_at file_at c p pend r" and n: "0 < n" "int n \<le> INTCS_MAX" and e: "p + n \<le> length c"
    and b: "length buf = n"
  shows "\<exists>r'. exact_loop vt buf 0 (int n) r = Some (Returns (get_bytes c p n), r') \<and> reader_at file_at c (p + n) pend r'"
proof -
  have l: "length (get_bytes c p n) = n" using e by (simp add: get_bytes_length)
  have "runs (br_call (vRead vt (Some buf) 0 (int n))) r (int n, get_bytes c p n) (reader_at file_at c (p + n) pend)"
    using reader_call [OF r, of "vRead vt (Some buf) 0 (int n)" "(int n, get_bytes c p n)" "p + n"]
      read_ok [of c p _ 0 "int n" buf] n b l by (simp add: put_bytes_whole)
  then obtain r' where r': "br_call (vRead vt (Some buf) 0 (int n)) r = (Returns (int n, get_bytes c p n), r')"
      "reader_at file_at c (p + n) pend r'"
    by (rule runsE)
  have "exact_loop vt (get_bytes c p n) (int n) (int n) r' = Some (Returns (get_bytes c p n), r')"
    by (subst exact_loop.simps) simp
  then show ?thesis using r' n by (subst exact_loop.simps) simp
qed

lemma read_exact:
  assumes r: "reader_at file_at c p pend r" and n: "int n \<le> INTCS_MAX" and e: "p + n \<le> length c" and b: "length buf = n"
  shows "runs (BR_ReadBytesExact vt buf (int n)) r (get_bytes c p n) (reader_at file_at c (p + n) pend)"
proof -
  have "runs (io_loop (exact_loop vt buf 0 (int n))) r' (get_bytes c p n) (reader_at file_at c (p + n) pend)"
    if r': "reader_at file_at c p pend r'" for r'
  proof (cases "n = 0")
    case True
    then show ?thesis using r' b by (simp add: io_loop_def runs_def exact_loop.simps get_bytes_def)
  next
    case False
    then show ?thesis using exact_loop_ok [OF r' _ n e b] by (auto simp: io_loop_def runs_def)
  qed
  then show ?thesis unfolding BR_ReadBytesExact_def by (rule runs_then [OF reader_open [OF r]])
qed

text \<open>A value that is cut off by the end of the stream is reported.\<close>

lemma read_exact_short:
  assumes r: "reader_at file_at c p pend r" and n: "int n \<le> INTCS_MAX" and e: "length c < p + n" and b: "length buf = n"
    and n0: "0 < n"
  shows "fails (BR_ReadBytesExact vt buf (int n)) r EndOfStreamException (reader_at file_at c (max p (length c)) pend)"
proof -
  define g where "g = get_bytes c p n"
  have gl: "length g = length c - p" using e by (auto simp: g_def get_bytes_length)
  have stop: "\<exists>r1. exact_loop vt buf' (int k) (int n) r' = Some (Throws EndOfStreamException, r1) \<and> reader_at file_at c q pend r1"
    if r': "reader_at file_at c q pend r'" and q: "length c \<le> q" and k: "k < n" and b': "length buf' = n" for buf' k r' q
  proof -
    have "runs (br_call (vRead vt (Some buf') (int k) (int n - int k))) r' (0, buf') (reader_at file_at c q pend)"
      using reader_call [OF r', of "vRead vt (Some buf') (int k) (int n - int k)" "(0, buf')" q]
        read_ok [of c q _ "int k" "int n - int k" buf'] n b' k q by (simp add: get_bytes_def)
    then show ?thesis using k by (subst exact_loop.simps) (auto simp: runs_def)
  qed
  have "\<exists>r1. exact_loop vt buf 0 (int n) r' = Some (Throws EndOfStreamException, r1) \<and> reader_at file_at c (max p (length c)) pend r1"
    if r': "reader_at file_at c p pend r'" for r'
  proof (cases "length c \<le> p")
    case True
    then show ?thesis using stop [OF r' True n0 b] by (simp add: max_absorb1)
  next
    case False
    have "runs (br_call (vRead vt (Some buf) 0 (int n))) r' (int (length g), put_bytes buf 0 g) (reader_at file_at c (length c) pend)"
      using reader_call [OF r', of "vRead vt (Some buf) 0 (int n)" "(int (length g), put_bytes buf 0 g)" "length c"]
        read_ok [of c p _ 0 "int n" buf] n b gl False by (simp add: g_def)
    then obtain r1 where r1: "br_call (vRead vt (Some buf) 0 (int n)) r' = (Returns (int (length g), put_bytes buf 0 g), r1)"
        "reader_at file_at c (length c) pend r1"
      by (rule runsE)
    have "length g < n" "length (put_bytes buf 0 g) = n" using gl e b False by auto
    from stop [OF r1(2) _ this] show ?thesis
      using r1(1) n0 gl False by (subst exact_loop.simps) (auto simp: max_absorb2)
  qed
  then show ?thesis
    unfolding BR_ReadBytesExact_def
    by (intro runs_fails_then [OF reader_open [OF r]]) (fastforce simp: io_loop_def fails_def)
qed

lemma read_next:
  assumes "reader_at file_at c p pend r" and "next_bytes c p xs" and "length buf = length xs"
  shows "runs (BR_ReadBytesExact vt buf (int (length xs))) r xs (reader_at file_at c (p + length xs) pend)"
proof -
  have "fits c p" using assms(1) file_fits by (auto simp: reader_at_def)
  then show ?thesis
    using read_exact [OF assms(1), of "length xs" buf] assms(2,3) by (auto simp: next_bytes_def fits_def)
qed

lemma read_byte:
  assumes "reader_at file_at c p pend r" and "next_bytes c p [b]"
  shows "runs (BR_ReadByte vt) r b (reader_at file_at c (p + 1) pend)"
  unfolding BR_ReadByte_def
  by (rule runs_bind [OF read_next [OF assms, of "[0]", simplified]]) auto

lemma read_int16:
  assumes "reader_at file_at c p pend r" and "next_bytes c p (le_bytes 2 x)"
  shows "runs (BR_ReadInt16 vt) r (sint (of_nat x :: 16 word)) (reader_at file_at c (p + 2) pend)"
  unfolding BR_ReadInt16_def
  by (rule runs_bind [OF read_next [OF assms, of "[0, 0]", simplified]]) (auto simp: join_16 [OF refl, unfolded One_nat_def])

lemma read_int32:
  assumes "reader_at file_at c p pend r" and "next_bytes c p (le_bytes 4 x)"
  shows "runs (BR_ReadInt32 vt) r (sint (of_nat x :: uintcs)) (reader_at file_at c (p + 4) pend)"
  unfolding BR_ReadInt32_def
  by (rule runs_bind [OF read_next [OF assms, of "[0, 0, 0, 0]", simplified]]) (auto simp: join_32 [OF refl, unfolded One_nat_def])

lemma read_uint32:
  assumes "reader_at file_at c p pend r" and "next_bytes c p (le_bytes 4 x)"
  shows "runs (BR_ReadUInt32 vt) r (of_nat x) (reader_at file_at c (p + 4) pend)"
  unfolding BR_ReadUInt32_def by (rule runs_bind [OF read_int32 [OF assms]]) auto

lemma read_int64:
  assumes "reader_at file_at c p pend r" and n: "next_bytes c p (le_bytes 8 x)"
  shows "runs (BR_ReadInt64 vt) r (sint (of_nat x :: ulongcs)) (reader_at file_at c (p + 8) pend)"
proof -
  have n1: "next_bytes c p (le_bytes 4 x)" and n2: "next_bytes c (p + 4) (le_bytes 4 (drop_bit 32 x))"
    using n by (auto simp: le_bytes_8 next_bytes_append)
  show ?thesis
    unfolding BR_ReadInt64_def
    by (rule runs_bind [OF read_uint32 [OF assms(1) n1]], rule runs_bind [OF read_uint32 [OF _ n2]], assumption)
       (simp add: join_64 add.commute)
qed

lemma read7:
  assumes "reader_at file_at c p pend r" and "next_bytes c p (leb128 n)"
    and "unat result < 2 ^ shift" and "shift + 7 * k = 28" and "n * 2 ^ shift < 2 ^ 32"
  shows "runs (read7_loop vt k shift result) r (sint (of_nat (n * 2 ^ shift + unat result) :: uintcs))
    (reader_at file_at c (p + length (leb128 n)) pend)"
  using assms
proof (induction k arbitrary: p r n result shift)
  case 0
  then have s: "shift = 28" by simp
  then have n: "n < 16" using 0(5) by simp
  then have l: "leb128 n = [of_nat n]" by (simp add: leb128.simps [of n])
  have u: "unat (of_nat n :: bytecs) = n" using n by (simp add: unsigned_of_nat take_bit_nat_eq_self)
  have "unat (result OR push_bit 28 (ucast (of_nat n :: bytecs))) = n * 2 ^ 28 + unat result"
    using unat_shift_or [of result 28 "ucast (of_nat n :: bytecs)"] 0(3) s n u by (simp add: unat_ucast_byte or.commute)
  then have "result OR push_bit 28 (ucast (of_nat n :: bytecs)) = of_nat (n * 2 ^ 28 + unat result)"
    by (metis of_nat_unat ucast_id)
  moreover have "\<not> (of_nat n :: bytecs) > 0xF" using u n by (simp add: word_less_nat_alt)
  ultimately show ?case
    using 0(1,2) s l unfolding read7_loop.simps by (intro runs_bind [OF read_byte]) auto
next
  case (Suc k)
  define b :: bytecs where "b = (if n < 128 then of_nat n else of_nat (n mod 128 + 128))"
  have ub: "unat b = (if n < 128 then n else n mod 128 + 128)"
    by (simp add: b_def unsigned_of_nat take_bit_nat_eq_self del: of_nat_add)
  have m: "unat b mod 128 = n mod 128" by (simp add: ub)
  define res' where "res' = result OR push_bit shift (ucast b AND 0x7F)"
  have "(unat b mod 128) * 2 ^ shift < 2 ^ 32"
    unfolding m by (rule le_less_trans [OF mult_le_mono1 Suc.prems(5)]) simp
  from seven_bits [OF Suc.prems(3) this] have res: "unat res' = (n mod 128) * 2 ^ shift + unat result"
    unfolding m res'_def .
  have nb: "next_bytes c p [b]"
    using Suc.prems(2) next_bytes_append [of c p "[b]" "leb128 (n div 128)"]
    by (auto simp: leb128.simps [of n] b_def split: if_splits)
  show ?case
  proof (cases "n < 128")
    case True
    then have "leb128 n = [b]" by (simp add: leb128.simps [of n] b_def)
    moreover have "res' = of_nat (n * 2 ^ shift + unat result)" using res True by (metis mod_less of_nat_unat ucast_id)
    moreover have "b \<le> 0x7F" using ub True by (simp add: word_le_nat_alt)
    ultimately show ?thesis
      unfolding read7_loop.simps Let_def res'_def
      by (intro runs_bind [OF read_byte [OF Suc.prems(1) nb]]) auto
  next
    case False
    then have l: "leb128 n = b # leb128 (n div 128)" by (simp add: leb128.simps [of n] b_def)
    then have n2: "next_bytes c (p + 1) (leb128 (n div 128))"
      using Suc.prems(2) next_bytes_append [of c p "[b]" "leb128 (n div 128)"] by simp
    have "n * 2 ^ shift = (n div 128 * 128 + n mod 128) * 2 ^ shift" by simp
    also have "\<dots> = (n div 128) * 2 ^ (shift + 7) + (n mod 128) * 2 ^ shift"
      by (simp only: add_mult_distrib power_add) simp
    finally have e: "n * 2 ^ shift = (n div 128) * 2 ^ (shift + 7) + (n mod 128) * 2 ^ shift" .
    have "unat res' < (n mod 128 + 1) * 2 ^ shift" using res Suc.prems(3) by simp
    also have "\<dots> \<le> 128 * 2 ^ shift" by (intro mult_le_mono1) (simp add: Suc_leI)
    finally have small: "unat res' < 2 ^ (shift + 7)" by (simp add: power_add)
    have "runs (read7_loop vt k (shift + 7) res') r'
        (sint (of_nat ((n div 128) * 2 ^ (shift + 7) + unat res') :: uintcs))
        (reader_at file_at c (p + 1 + length (leb128 (n div 128))) pend)"
      if "reader_at file_at c (p + 1) pend r'" for r'
      by (rule Suc.IH [OF that n2 small]) (use Suc.prems(4,5) e in auto)
    moreover have "(n div 128) * 2 ^ (shift + 7) + unat res' = n * 2 ^ shift + unat result" using e res by simp
    moreover have "\<not> b \<le> 0x7F" using ub False by (simp add: word_le_nat_alt)
    ultimately show ?thesis
      unfolding read7_loop.simps Let_def res'_def
      by (intro runs_bind [OF read_byte [OF Suc.prems(1) nb]]) (simp add: l del: of_nat_add)
  qed
qed

lemma remaining:
  assumes "reader_at file_at c p pend r" and "p \<le> length c"
  shows "runs (br_remaining vt) r (int (length c) - int p) (reader_at file_at c p pend)"
proof -
  have "fits c p" using assms(1) file_fits by (auto simp: reader_at_def)
  then show ?thesis
    unfolding br_remaining_def
    by (intro runs_bind [OF reader_call [OF assms(1) get_length_ok]] runs_bind [OF reader_call [OF _ get_position_ok]])
       (use assms(2) in \<open>auto simp: runs_intcs_sub fits_def INTCS_MIN_def\<close>)
qed

lemma read_string:
  assumes r: "reader_at file_at c p pend r" and n: "next_bytes c p (leb128 (length bs) @ bs)"
  shows "runs (BR_ReadString vt) r bs (reader_at file_at c (p + length (leb128 (length bs)) + length bs) pend)"
proof -
  let ?q = "p + length (leb128 (length bs))"
  have f: "fits c p" using r file_fits by (auto simp: reader_at_def)
  have n1: "next_bytes c p (leb128 (length bs))" and n2: "next_bytes c ?q bs" using n by (auto simp: next_bytes_append)
  have e: "?q + length bs \<le> length c" and l: "int (length bs) \<le> INTCS_MAX"
    using n2 f by (auto simp: next_bytes_def fits_def)
  have v: "sint (of_nat (length bs) :: uintcs) = int (length bs)"
    using intcs_of_size_eq [OF l] by (simp add: intcs_of_size_def)
  have len: "runs (BR_Read7BitEncodedInt vt) r (int (length bs)) (reader_at file_at c ?q pend)"
    using read7 [OF r n1, of 0 0 4] l v by (simp add: BR_Read7BitEncodedInt_def INTCS_MAX_def)
  have room: "runs (io_if (\<lambda>r. vCanSeek vt (br_stream r))
      (io_bind (br_remaining vt)
         (\<lambda>remaining. if remaining \<ge> 0 \<and> int (length bs) > remaining then io_throw EndOfStreamException else io_return ()))
      (io_return ())) r' () (reader_at file_at c ?q pend)" if r': "reader_at file_at c ?q pend r'" for r'
  proof -
    have "vCanSeek vt (br_stream r')" using r' file_can by (auto simp: reader_at_def)
    then show ?thesis
      using runs_bind [OF remaining [OF r'], of _ "()" "reader_at file_at c ?q pend"] e by simp
  qed
  have data: "runs (BR_ReadBytesExact vt (replicate (nat (int (length bs))) 0) (int (length bs))) r' bs
      (reader_at file_at c (?q + length bs) pend)" if "reader_at file_at c ?q pend r'" for r'
    using read_next [OF that n2] by simp
  show ?thesis
    unfolding BR_ReadString_def
  proof (rule runs_bind [OF len])
    fix r' assume r': "reader_at file_at c ?q pend r'"
    then show "runs (if int (length bs) < 0 then io_throw (IOException ''Invalid string length.'')
          else if int (length bs) = 0 then io_return []
          else io_then (io_if (\<lambda>r. vCanSeek vt (br_stream r))
                   (io_bind (br_remaining vt)
                     (\<lambda>remaining. if remaining \<ge> 0 \<and> int (length bs) > remaining then io_throw EndOfStreamException else io_return ()))
                   (io_return ()))
                 (BR_ReadBytesExact vt (replicate (nat (int (length bs))) 0) (int (length bs)))) r' bs
        (reader_at file_at c (?q + length bs) pend)"
      using runs_then [OF room [OF r'] data] by auto
  qed
qed

text \<open>\<^verbatim>\<open>ReadBytes\<close> returns what is left when less than the count is left.\<close>

lemma bytes_loop_ok:
  assumes r: "reader_at file_at c p pend r" and n: "int n \<le> INTCS_MAX" and b: "length buf = n" and e: "n \<le> length c - p"
  shows "runs (io_loop (bytes_loop vt buf 0 (int n))) r (get_bytes c p n, int n) (reader_at file_at c (p + n) pend)"
proof (cases "n = 0")
  case True
  then show ?thesis using r b by (simp add: io_loop_def runs_def bytes_loop.simps get_bytes_def)
next
  case False
  have l: "length (get_bytes c p n) = n" using e by (simp add: get_bytes_length)
  have "runs (br_call (vRead vt (Some buf) 0 (int n))) r (int n, get_bytes c p n) (reader_at file_at c (p + n) pend)"
    using reader_call [OF r, of "vRead vt (Some buf) 0 (int n)" "(int n, get_bytes c p n)" "p + n"]
      read_ok [of c p _ 0 "int n" buf] n b l by (simp add: put_bytes_whole)
  then obtain r' where r': "br_call (vRead vt (Some buf) 0 (int n)) r = (Returns (int n, get_bytes c p n), r')"
      "reader_at file_at c (p + n) pend r'"
    by (rule runsE)
  have "bytes_loop vt (get_bytes c p n) (int n) (int n) r' = Some (Returns (get_bytes c p n, int n), r')"
    by (subst bytes_loop.simps) simp
  then have "bytes_loop vt buf 0 (int n) r = Some (Returns (get_bytes c p n, int n), r')"
    using r'(1) False by (subst bytes_loop.simps) simp
  then show ?thesis using r'(2) by (simp add: io_loop_def runs_def)
qed

lemma read_bytes:
  assumes r: "reader_at file_at c p pend r" and n: "0 \<le> n" "n \<le> INTCS_MAX" and p: "p \<le> length c"
  shows "runs (BR_ReadBytes vt n) r (get_bytes c p (nat n)) (reader_at file_at c (p + length (get_bytes c p (nat n))) pend)"
proof -
  define k where "k = min (nat n) (length c - p)"
  have g: "get_bytes c p k = get_bytes c p (nat n)" by (auto simp: k_def get_bytes_def min_def)
  have gl: "length (get_bytes c p (nat n)) = k" by (simp add: k_def get_bytes_length)
  have kn: "int k \<le> n" using n by (simp add: k_def)
  have alloc: "runs (io_if (\<lambda>r. vCanSeek vt (br_stream r))
                   (io_bind (br_remaining vt)
                     (\<lambda>remaining. io_return (if remaining \<ge> 0 \<and> remaining < n then remaining else n)))
                   (io_return n)) r' (int k) (reader_at file_at c p pend)"
    if r': "reader_at file_at c p pend r'" for r'
  proof -
    have "vCanSeek vt (br_stream r')" using r' file_can by (auto simp: reader_at_def)
    then show ?thesis
      using p n by (auto simp: k_def intro!: runs_bind [OF remaining [OF r' p]])
  qed
  have loop: "runs (io_bind (io_loop (bytes_loop vt (replicate (nat (int k)) 0) 0 (int k)))
                      (\<lambda>(result, tot). io_return (if tot \<noteq> n then vector_resize (nat tot) result else result))) r'
      (get_bytes c p (nat n)) (reader_at file_at c (p + k) pend)" if r': "reader_at file_at c p pend r'" for r'
    by (rule runs_bind [OF bytes_loop_ok [OF r', of k "replicate (nat (int k)) 0"]])
       (use kn n g gl in \<open>auto simp: k_def vector_resize_def\<close>)
  have "runs (if n = 0 then io_return []
          else io_bind
                 (io_if (\<lambda>r. vCanSeek vt (br_stream r))
                   (io_bind (br_remaining vt)
                     (\<lambda>remaining. io_return (if remaining \<ge> 0 \<and> remaining < n then remaining else n)))
                   (io_return n))
                 (\<lambda>allocateCount.
                    io_bind (io_loop (bytes_loop vt (replicate (nat allocateCount) 0) 0 allocateCount))
                      (\<lambda>(result, tot). io_return (if tot \<noteq> n then vector_resize (nat tot) result else result))))
      r' (get_bytes c p (nat n)) (reader_at file_at c (p + k) pend)" if r': "reader_at file_at c p pend r'" for r'
  proof (cases "n = 0")
    case True
    then show ?thesis using r' by (simp add: get_bytes_def k_def)
  next
    case False
    show ?thesis unfolding if_not_P [OF False] by (rule runs_bind [OF alloc [OF r']]) (rule loop)
  qed
  then show ?thesis
    unfolding BR_ReadBytes_def gl
    by (intro runs_then [OF reader_open [OF r]] runs_then [where m = "ThrowIfNegative n ''count''" and r = "()"])
       (use n in \<open>auto simp: ThrowIfNegative_def\<close>)
qed

lemma write_item_ok:
  assumes w: "writer_at file_at c p w" and room: "int p + int (length (encode i)) \<le> INTCS_MAX"
  shows "runs (write_item vt i) w () (writer_at file_at (overwrite c p (encode i)) (p + length (encode i)))"
proof -
  define P where "P = writer_at file_at (overwrite c p (encode i)) (p + length (encode i))"
  have wb: "runs (BW_WriteBytes vt bs n) w () P"
    if "bs = encode i" "n = int (length (encode i))" for bs n
    using write_bytes [OF w room] that by (simp add: P_def)
  have i16: "runs (BW_Write_int16 vt v) w () P"
    if "le_int 2 v = encode i" for v
    unfolding BW_Write_int16_def le_int_2 [symmetric] by (intro wb) (simp_all flip: that)
  have i32: "runs (BW_Write_int32 vt v) w () P"
    if "le_int 4 v = encode i" for v
    unfolding BW_Write_int32_def le_int_4 [symmetric] by (intro wb) (simp_all flip: that)
  have i64: "runs (BW_Write_int64 vt v) w () P"
    if "le_int 8 v = encode i" for v
    unfolding BW_Write_int64_def mult.commute [of _ 8] le_int_list [symmetric] by (intro wb) (simp_all flip: that)
  have "runs (write_item vt i) w () P"
  proof (cases i)
    case (B7Bit v)
    have "unat (of_int v :: uintcs) = nat (v mod 2 ^ 32)" by (simp add: unsigned_of_int take_bit_eq_mod)
    then show ?thesis using write7 [OF w, of "of_int v"] room B7Bit by (simp add: P_def BW_Write7BitEncodedInt_def)
  next
    case (BString bs)
    have l: "int (length bs) \<le> INTCS_MAX" using room BString by simp
    have u: "unat (of_int (int (length bs)) :: uintcs) = length bs"
      using l by (simp add: unsigned_of_nat take_bit_nat_eq_self INTCS_MAX_def)
    let ?q = "p + length (leb128 (length bs))"
    have "runs (write7_loop vt (of_int (int (length bs)))) w () (writer_at file_at (overwrite c p (leb128 (length bs))) ?q)"
      using write7 [OF w, of "of_int (int (length bs))"] room BString unfolding u by simp
    then have "runs (io_then (write7_loop vt (of_int (int (length bs)))) (BW_WriteBytes vt bs (int (length bs)))) w ()
        (writer_at file_at (overwrite (overwrite c p (leb128 (length bs))) ?q bs) (?q + length bs))"
      by (rule runs_then [OF _ write_bytes]) (use room BString in auto)
    then show ?thesis
      using BString l by (simp add: P_def BW_Write_string_def BW_Write7BitEncodedInt_def overwrite_overwrite add.assoc)
  next
    case (BBytes bs)
    then show ?thesis using write_bytes [OF w, of bs] room by (simp add: P_def BW_Write_buffer_def BW_WriteBytes_def)
  qed (auto simp: BW_Write_byte_def BW_Write_sbyte_def BW_Write_bool_def BW_Write_uint16_def BW_Write_uint32_def
      BW_Write_uint64_def BW_Write_single_def BW_Write_double_def le_int_1 [unfolded One_nat_def] le_int_sint
      intro!: wb i16 i32 i64)
  then show ?thesis by (simp add: P_def)
qed

lemma write_items_ok:
  assumes "writer_at file_at c p w" and "int p + int (length (concat (map encode is))) \<le> INTCS_MAX"
  shows "runs (write_items vt is) w ()
    (writer_at file_at (overwrite c p (concat (map encode is))) (p + length (concat (map encode is))))"
  using assms
proof (induction "is" arbitrary: c p w)
  case (Cons i "is")
  let ?e = "encode i" and ?r = "concat (map encode is)"
  have "runs (io_then (write_item vt i) (write_items vt is)) w ()
      (writer_at file_at (overwrite (overwrite c p ?e) (p + length ?e) ?r) (p + length ?e + length ?r))"
    by (rule runs_then [OF write_item_ok [OF Cons.prems(1)] Cons.IH]) (use Cons.prems(2) in auto)
  then show ?case by (simp add: overwrite_overwrite add.assoc)
qed simp

lemma read_item_ok:
  assumes r: "reader_at file_at c p pend r" and ok: "item_ok i" and n: "next_bytes c p (encode i)" and p: "p \<le> length c"
  shows "runs (read_item vt i) r i (reader_at file_at c (p + length (encode i)) pend)"
proof (cases i)
  case (BBytes bs)
  have "fits c p" using r file_fits by (auto simp: reader_at_def)
  then show ?thesis
    using read_bytes [OF r, of "int (length bs)"] n BBytes p
    by (auto simp: next_bytes_def fits_def intro!: runs_map)
next
  case (B7Bit v)
  have "of_nat (nat (v mod 2 ^ 32)) = (of_int v :: uintcs)"
    by (simp add: of_nat_nat word_of_int_eq_iff take_bit_eq_mod)
  moreover have "sint (of_int v :: uintcs) = v"
    using ok B7Bit by (simp add: signed_of_int fits_bits_def signed_take_bit_int_eq_self)
  ultimately show ?thesis
    using read7 [OF r, of "nat (v mod 2 ^ 32)" 0 0 4] n B7Bit
    by (auto simp: BR_Read7BitEncodedInt_def nat_less_iff intro!: runs_map)
next
  case (BString bs)
  then show ?thesis using read_string [OF r, of bs] n by (auto simp: add.assoc intro!: runs_map)
next
  case (BSByte v)
  then show ?thesis
    using n ok read_byte [OF r, of "of_int v"]
    by (auto simp: BR_ReadSByte_def le_int_1 [unfolded One_nat_def] signed_of_int fits_bits_def
        signed_take_bit_int_eq_self intro!: runs_map)
next
  case (BInt16 v)
  then show ?thesis
    using n ok read_int16 [OF r, of "nat (v mod 256 ^ 2)"] sint_of_le [where ?'a = 16, of v 2]
    by (auto simp: le_int_def intro!: runs_map)
next
  case (BUInt16 v)
  then show ?thesis
    using n read_int16 [OF r, of "unat v"] by (auto simp: BR_ReadUInt16_def intro!: runs_map)
next
  case (BInt32 v)
  then show ?thesis
    using n ok read_int32 [OF r, of "nat (v mod 256 ^ 4)"] sint_of_le [where ?'a = 32, of v 4]
    by (auto simp: le_int_def intro!: runs_map)
next
  case (BInt64 v)
  then show ?thesis
    using n ok read_int64 [OF r, of "nat (v mod 256 ^ 8)"] sint_of_le [where ?'a = 64, of v 8]
    by (auto simp: le_int_def intro!: runs_map)
next
  case (BBool b)
  then have "runs (BR_ReadBoolean vt) r b (reader_at file_at c (p + 1) pend)"
    using n runs_map [OF read_byte [OF r, of "if b then 1 else 0"], of b "\<lambda>b. b \<noteq> 0"] by (simp add: BR_ReadBoolean_def)
  then show ?thesis using BBool by (auto intro!: runs_map)
qed (use n in \<open>auto simp: BR_ReadUInt64_def BR_ReadSingle_def BR_ReadDouble_def
      read_byte [OF r, simplified] intro!: runs_map read_uint32 [OF r] read_int64 [OF r]\<close>)

lemma read_items_ok:
  assumes "reader_at file_at c p pend r" and "list_all item_ok is" and "next_bytes c p (concat (map encode is))"
  shows "runs (read_items vt is) r is (reader_at file_at c (p + length (concat (map encode is))) pend)"
  using assms
proof (induction "is" arbitrary: p r)
  case (Cons i "is")
  have n: "next_bytes c p (encode i)" "next_bytes c (p + length (encode i)) (concat (map encode is))" "p \<le> length c"
    using Cons.prems(3) by (auto simp: next_bytes_append) (auto simp: next_bytes_def)
  have "runs (io_bind (read_items vt is) (\<lambda>xs. io_return (i # xs))) r' (i # is)
      (reader_at file_at c (p + length (concat (map encode (i # is)))) pend)"
    if "reader_at file_at c (p + length (encode i)) pend r'" for r'
    using Cons.IH [OF that _ n(2)] Cons.prems(2) by (auto simp: add.assoc intro!: runs_map)
  then show ?case
    using Cons.prems n by (auto intro!: runs_bind [OF read_item_ok [OF Cons.prems(1) _ n(1,3)]])
qed simp

end

text \<open>
  Write the items, go back to \<open>position\<close>, and read items of the same kinds (\<open>Undefined\<close> if a call before the
  first read does not return).
\<close>

definition write_then_read :: "'s Stream \<Rightarrow> intcs \<Rightarrow> binary_item list \<Rightarrow> 's \<Rightarrow> binary_item list outcome" where
  "write_then_read vt position is s =
     (case BinaryWriter_ctor vt (Some s) True of
        Inl e \<Rightarrow> Throws e
      | Inr w \<Rightarrow>
          (case io_then (write_items vt is) (BW_Flush vt) w of
             (Returns _, w') \<Rightarrow>
               (case vSetPosition vt position (bw_stream w') of
                  (Returns _, s') \<Rightarrow>
                    (case BinaryReader_ctor vt (Some s') True of
                       Inl e \<Rightarrow> Throws e
                     | Inr r \<Rightarrow> fst (read_items vt is r))
                | _ \<Rightarrow> Undefined)
           | _ \<Rightarrow> Undefined))"

context byte_file
begin

lemma write_then_read_ok:
  assumes s: "file_at c p s" and ok: "list_all item_ok is" and p: "p \<le> length c"
    and room: "int p + int (length (concat (map encode is))) \<le> INTCS_MAX"
  shows "write_then_read vt (int p) is s = Returns is"
    and "\<exists>w. io_then (write_items vt is) (BW_Flush vt) \<lparr>bw_stream = s, bw_leaveOpen = True, bw_disposed = False\<rparr> =
      (Returns (), w) \<and> file_at (overwrite c p (concat (map encode is))) (p + length (concat (map encode is))) (bw_stream w)"
proof -
  let ?e = "concat (map encode is)" and ?w = "\<lparr>bw_stream = s, bw_leaveOpen = True, bw_disposed = False\<rparr>"
  have "writer_at file_at c p ?w" using s by (simp add: writer_at_def)
  then have "runs (io_then (write_items vt is) (BW_Flush vt)) ?w () (writer_at file_at (overwrite c p ?e) (p + length ?e))"
  proof (rule runs_then [OF write_items_ok [OF _ room]])
    fix w assume w: "writer_at file_at (overwrite c p ?e) (p + length ?e) w"
    then have "runs (bw_call (vFlush vt)) w' () (writer_at file_at (overwrite c p ?e) (p + length ?e))"
      if "writer_at file_at (overwrite c p ?e) (p + length ?e) w'" for w'
      using runs_bw_call [OF flush_ok] that by (fastforce simp: writer_at_def elim!: runs_mono)
    then show "runs (BW_Flush vt) w () (writer_at file_at (overwrite c p ?e) (p + length ?e))"
      unfolding BW_Flush_def by (rule runs_then [OF writer_open [OF w]])
  qed
  then obtain w where w: "io_then (write_items vt is) (BW_Flush vt) ?w = (Returns (), w)"
      "file_at (overwrite c p ?e) (p + length ?e) (bw_stream w)"
    by (auto simp: runs_def writer_at_def)
  then show "\<exists>w. io_then (write_items vt is) (BW_Flush vt) ?w = (Returns (), w) \<and>
      file_at (overwrite c p ?e) (p + length ?e) (bw_stream w)" by blast
  have "int p \<le> INTCS_MAX" using file_fits [OF s] by (simp add: fits_def)
  then obtain s' where s': "vSetPosition vt (int p) (bw_stream w) = (Returns (), s')" "file_at (overwrite c p ?e) p s'"
    using set_position_ok [OF w(2), of "int p"] by (auto simp: runs_def)
  define r where "r = \<lparr>br_stream = s', br_leaveOpen = True, br_disposed = False, br_hasPendingCharacter = False,
    br_pendingCharacter = 0\<rparr>"
  have r: "reader_at file_at (overwrite c p ?e) p None r" using s'(2) by (simp add: reader_at_def r_def)
  have "fst (read_items vt is r) = Returns is"
    using read_items_ok [OF r ok next_bytes_overwrite] p by (auto simp: runs_def)
  then show "write_then_read vt (int p) is s = Returns is"
    using w(1) s' file_can [OF s] file_can [OF s'(2)]
    by (simp add: write_then_read_def BinaryWriter_ctor_def BinaryReader_ctor_def r_def)
qed

end

text \<open>
  C14. What a \<^verbatim>\<open>BinaryWriter\<close> wrote a \<^verbatim>\<open>BinaryReader\<close> reads back. Any sequence of values (all integer widths, floating-point
  patterns, Booleans, 7-bit encoded integers, length-prefixed strings, byte blocks), written from any position
  of a memory stream or of a buffered stream of any buffer size over it, returns, and reading values of
  the same kinds from that position returns the same values. The memory stream then holds the little-endian
  and base-128 encodings of the values one after the other, and the bytes around them are unchanged.
\<close>

theorem binary_stream_roundtrip:
  assumes m: "memory_file c p m" and p: "p \<le> length c" and ok: "list_all item_ok is"
    and room: "int p + int (length (concat (map encode is))) \<le> INTCS_MAX"
    and b: "BufferedStream_ctor (Some m) n owns = Inr b" "n \<le> INTCS_MAX"
  shows "write_then_read MemoryStream_vtable (int p) is m = Returns is \<and>
    write_then_read (BufferedStream_vtable MemoryStream_vtable) (int p) is b = Returns is \<and>
    (\<exists>w. io_then (write_items MemoryStream_vtable is) (BW_Flush MemoryStream_vtable)
           \<lparr>bw_stream = m, bw_leaveOpen = True, bw_disposed = False\<rparr> = (Returns (), w) \<and>
       ms_data (bw_stream w) = take p c @ concat (map encode is) @ drop (p + length (concat (map encode is))) c)"
proof (intro conjI)
  have "fits c p" using m by (simp add: memory_file_def)
  then have bf: "buffered_file memory_file c p b"
    by (rule ctor_buffered [where file_at = memory_file, OF b(1) m _ b(2)])
  show "write_then_read MemoryStream_vtable (int p) is m = Returns is"
    by (rule memory.write_then_read_ok(1) [OF m ok p room])
  show "write_then_read (BufferedStream_vtable MemoryStream_vtable) (int p) is b = Returns is"
    by (rule buffered_memory.write_then_read_ok(1) [OF bf ok p room])
  show "\<exists>w. io_then (write_items MemoryStream_vtable is) (BW_Flush MemoryStream_vtable)
           \<lparr>bw_stream = m, bw_leaveOpen = True, bw_disposed = False\<rparr> = (Returns (), w) \<and>
       ms_data (bw_stream w) = take p c @ concat (map encode is) @ drop (p + length (concat (map encode is))) c"
    using memory.write_then_read_ok(2) [OF m ok p room] by (auto simp: memory_file_def overwrite_inside [OF p])
qed

theorem binary_stream_roundtrip_witness:
  "write_then_read (BufferedStream_vtable MemoryStream_vtable) 1 [BInt16 (- 2), BString [65, 66], B7Bit 300, BBool True]
     \<lparr>bs_inner = \<lparr>ms_data = [9, 9], ms_position = 1, ms_writable = True, ms_isOpen = True\<rparr>, bs_ownsStream = False,
      bs_bufferSize = 3, bs_closed = False, bs_buffer = [], bs_readPos = 0, bs_readLen = 0, bs_writePos = 0\<rparr> =
     Returns [BInt16 (- 2), BString [65, 66], B7Bit 300, BBool True]"
proof -
  let ?m = "\<lparr>ms_data = [9, 9], ms_position = 1, ms_writable = True, ms_isOpen = True\<rparr>"
  let ?is = "[BInt16 (- 2), BString [65, 66], B7Bit 300, BBool True]"
  have m: "memory_file [9, 9] 1 ?m" by (simp add: memory_file_def fits_def INTCS_MAX_def)
  have p: "1 \<le> length [9 :: bytecs, 9]" by simp
  have ok: "list_all item_ok ?is" by (simp add: fits_bits_def)
  have room: "int 1 + int (length (concat (map encode ?is))) \<le> INTCS_MAX"
    by (simp add: leb128.simps INTCS_MAX_def)
  have b: "BufferedStream_ctor (Some ?m) 3 False = Inr \<lparr>bs_inner = ?m, bs_ownsStream = False,
      bs_bufferSize = 3, bs_closed = False, bs_buffer = [], bs_readPos = 0, bs_readLen = 0, bs_writePos = 0\<rparr>"
    by (simp add: BufferedStream_ctor_def)
  show ?thesis
    using binary_stream_roundtrip [OF m p ok room b] by (simp add: INTCS_MAX_def)
qed

section \<open>Values cut off by the end of the stream\<close>

text \<open>The stream ends with the first \<open>k\<close> bytes of \<open>xs\<close>.\<close>

definition cut_off :: "bytecs list \<Rightarrow> nat \<Rightarrow> nat \<Rightarrow> bytecs list \<Rightarrow> bool" where
  "cut_off c p k xs \<longleftrightarrow> p \<le> length c \<and> drop p c = take k xs \<and> k < length xs"

lemma cut_off_length: "cut_off c p k xs \<Longrightarrow> length c = p + k"
  using length_drop [of p c] by (auto simp: cut_off_def)

lemma cut_off_append:
  assumes "cut_off c p k (xs @ ys)"
  shows "k < length xs \<and> cut_off c p k xs \<or>
    length xs \<le> k \<and> next_bytes c p xs \<and> cut_off c (p + length xs) (k - length xs) ys"
proof (cases "k < length xs")
  case True
  then show ?thesis using assms by (simp add: cut_off_def)
next
  case False
  have l: "length c = p + k" by (rule cut_off_length [OF assms])
  have d: "drop p c = xs @ take (k - length xs) ys" using assms False by (simp add: cut_off_def)
  then have "drop (p + length xs) c = take (k - length xs) ys"
    by (metis add.commute append_eq_conv_conj drop_drop)
  then show ?thesis using assms False l d by (auto simp: cut_off_def next_bytes_def get_bytes_def)
qed

context byte_file
begin

lemma read_exact_cut:
  assumes "reader_at file_at c p pend r" and "cut_off c p k xs" and "length buf = length xs"
    and "int (length xs) \<le> INTCS_MAX"
  shows "fails (BR_ReadBytesExact vt buf (int (length xs))) r EndOfStreamException (\<lambda>_. True)"
proof -
  have "length c < p + length xs" "0 < length xs"
    using cut_off_length [OF assms(2)] assms(2) by (auto simp: cut_off_def)
  from read_exact_short [OF assms(1,4) this(1) assms(3) this(2)] show ?thesis by (auto simp: fails_def)
qed

lemma read_byte_cut:
  assumes "reader_at file_at c p pend r" and "cut_off c p k [b]"
  shows "fails (BR_ReadByte vt) r EndOfStreamException (\<lambda>_. True)"
  unfolding BR_ReadByte_def
  using read_exact_cut [OF assms, of "[0]"] by (intro fails_bind) (simp add: INTCS_MAX_def)

lemma read_int16_cut:
  assumes "reader_at file_at c p pend r" and "cut_off c p k (le_bytes 2 x)"
  shows "fails (BR_ReadInt16 vt) r EndOfStreamException (\<lambda>_. True)"
  unfolding BR_ReadInt16_def
  using read_exact_cut [OF assms, of "[0, 0]"] by (intro fails_bind) (simp add: INTCS_MAX_def)

lemma read_int32_cut:
  assumes "reader_at file_at c p pend r" and "cut_off c p k (le_bytes 4 x)"
  shows "fails (BR_ReadInt32 vt) r EndOfStreamException (\<lambda>_. True)"
  unfolding BR_ReadInt32_def
  using read_exact_cut [OF assms, of "[0, 0, 0, 0]"] by (intro fails_bind) (simp add: INTCS_MAX_def)

lemma read_uint32_cut:
  assumes "reader_at file_at c p pend r" and "cut_off c p k (le_bytes 4 x)"
  shows "fails (BR_ReadUInt32 vt) r EndOfStreamException (\<lambda>_. True)"
  unfolding BR_ReadUInt32_def by (intro fails_bind read_int32_cut [OF assms])

lemma read_int64_cut:
  assumes r: "reader_at file_at c p pend r" and n: "cut_off c p k (le_bytes 8 x)"
  shows "fails (BR_ReadInt64 vt) r EndOfStreamException (\<lambda>_. True)"
  using cut_off_append [OF n [unfolded le_bytes_8]]
proof (elim disjE conjE)
  assume "cut_off c p k (le_bytes 4 x)"
  then show ?thesis unfolding BR_ReadInt64_def by (intro fails_bind read_uint32_cut [OF r])
next
  assume n1: "next_bytes c p (le_bytes 4 x)"
    and n2: "cut_off c (p + length (le_bytes 4 x)) (k - length (le_bytes 4 x)) (le_bytes 4 (drop_bit 32 x))"
  show ?thesis
    unfolding BR_ReadInt64_def
    by (rule runs_fails_bind [OF read_uint32 [OF r n1]], intro fails_bind read_uint32_cut [OF _ n2]) simp
qed

lemma read7_cut:
  assumes "reader_at file_at c p pend r" and "cut_off c p j (leb128 n)" and "n < 2 ^ (7 * k + 4)"
  shows "fails (read7_loop vt k shift result) r EndOfStreamException (\<lambda>_. True)"
  using assms
proof (induction k arbitrary: p r j n shift result)
  case 0
  then have "leb128 n = [of_nat n]" by (simp add: leb128.simps [of n])
  then show ?case using 0 by (auto intro!: fails_bind read_byte_cut)
next
  case (Suc k)
  define b :: bytecs where "b = (if n < 128 then of_nat n else of_nat (n mod 128 + 128))"
  have l: "leb128 n = [b] @ (if n < 128 then [] else leb128 (n div 128))"
    by (simp add: leb128.simps [of n] b_def)
  from cut_off_append [OF Suc.prems(2) [unfolded l]] show ?case
  proof (elim disjE conjE)
    assume "cut_off c p j [b]"
    then show ?thesis using Suc.prems(1) by (auto intro!: fails_bind read_byte_cut)
  next
    assume nb: "next_bytes c p [b]"
      and rest: "cut_off c (p + length [b]) (j - length [b]) (if n < 128 then [] else leb128 (n div 128))"
    have big: "\<not> n < 128" using rest by (auto simp: cut_off_def)
    have "unat b = n mod 128 + 128"
      using big by (simp add: b_def unsigned_of_nat take_bit_nat_eq_self del: of_nat_add)
    then have "\<not> b \<le> 0x7F" by (simp add: word_le_nat_alt)
    moreover have "n div 128 < 2 ^ (7 * k + 4)"
      using Suc.prems(3) by (intro less_mult_imp_div_less) (simp add: power_add)
    ultimately show ?thesis
      using rest big Suc.IH [of "p + 1" _ _ "n div 128"]
      by (auto simp: Let_def intro!: runs_fails_bind [OF read_byte [OF Suc.prems(1) nb]])
  qed
qed

lemma read_string_cut:
  assumes r: "reader_at file_at c p pend r" and n: "cut_off c p k (leb128 (length bs) @ bs)"
    and l: "int (length bs) \<le> INTCS_MAX"
  shows "fails (BR_ReadString vt) r EndOfStreamException (\<lambda>_. True)"
  using cut_off_append [OF n]
proof (elim disjE conjE)
  assume "cut_off c p k (leb128 (length bs))"
  then have "fails (BR_Read7BitEncodedInt vt) r EndOfStreamException (\<lambda>_. True)"
    unfolding BR_Read7BitEncodedInt_def using l by (intro read7_cut [OF r]) (auto simp: INTCS_MAX_def)
  then show ?thesis unfolding BR_ReadString_def by (rule fails_bind)
next
  let ?q = "p + length (leb128 (length bs))"
  assume n1: "next_bytes c p (leb128 (length bs))" and n2: "cut_off c ?q (k - length (leb128 (length bs))) bs"
  have v: "sint (of_nat (length bs) :: uintcs) = int (length bs)"
    using intcs_of_size_eq [OF l] by (simp add: intcs_of_size_def)
  have len: "runs (BR_Read7BitEncodedInt vt) r (int (length bs)) (reader_at file_at c ?q pend)"
    using read7 [OF r n1, of 0 0 4] l v by (simp add: BR_Read7BitEncodedInt_def INTCS_MAX_def)
  have short: "?q \<le> length c" "length c < ?q + length bs" "bs \<noteq> []"
    using cut_off_length [OF n2] n2 by (auto simp: cut_off_def)
  show ?thesis
    unfolding BR_ReadString_def
  proof (rule runs_fails_bind [OF len])
    fix r' assume r': "reader_at file_at c ?q pend r'"
    have "vCanSeek vt (br_stream r')" using r' file_can by (auto simp: reader_at_def)
    moreover have "fails (io_bind (br_remaining vt)
         (\<lambda>remaining. if remaining \<ge> 0 \<and> int (length bs) > remaining then io_throw EndOfStreamException else io_return ()))
         r' EndOfStreamException (\<lambda>_. True)"
      by (rule runs_fails_bind [OF remaining [OF r' short(1)]]) (use short in auto)
    ultimately show "fails (if int (length bs) < 0 then io_throw (IOException ''Invalid string length.'')
          else if int (length bs) = 0 then io_return []
          else io_then (io_if (\<lambda>r. vCanSeek vt (br_stream r))
                   (io_bind (br_remaining vt)
                     (\<lambda>remaining. if remaining \<ge> 0 \<and> int (length bs) > remaining then io_throw EndOfStreamException else io_return ()))
                   (io_return ()))
                 (BR_ReadBytesExact vt (replicate (nat (int (length bs))) 0) (int (length bs)))) r' EndOfStreamException (\<lambda>_. True)"
      using short(3) by (simp add: fails_then)
  qed
qed

lemma read_item_cut:
  assumes r: "reader_at file_at c p pend r" and n: "cut_off c p k (encode i)" and i: "\<forall>bs. i \<noteq> BBytes bs"
    and l: "int (length (encode i)) \<le> INTCS_MAX"
  shows "fails (read_item vt i) r EndOfStreamException (\<lambda>_. True)"
proof (cases i)
  case (B7Bit v)
  have v: "nat (v mod 2 ^ 32) < 2 ^ (7 * 4 + 4)" by (simp add: nat_less_iff)
  show ?thesis
    using read7_cut [OF r _ v] n B7Bit by (auto simp: BR_Read7BitEncodedInt_def intro!: fails_bind)
next
  case (BString bs)
  then show ?thesis using read_string_cut [OF r, of k bs] n l by (auto intro!: fails_bind)
next
  case (BBytes bs)
  then show ?thesis using i by blast
qed (use n read_byte_cut [OF r] read_int16_cut [OF r] read_int32_cut [OF r] read_uint32_cut [OF r] read_int64_cut [OF r] in
     \<open>auto simp: BR_ReadSByte_def BR_ReadBoolean_def BR_ReadUInt16_def BR_ReadUInt64_def BR_ReadSingle_def BR_ReadDouble_def
        le_int_1 [unfolded One_nat_def] le_int_def [of 2] le_int_def [of 4] le_int_def [of 8] intro!: fails_bind\<close>)

end

text \<open>The reader a constructor makes.\<close>

definition fresh_reader :: "'s \<Rightarrow> 's BinaryReader" where
  "fresh_reader s = \<lparr>br_stream = s, br_leaveOpen = True, br_disposed = False, br_hasPendingCharacter = False,
     br_pendingCharacter = 0\<rparr>"

lemma fresh_reader_at: "file_at c p s \<Longrightarrow> reader_at file_at c p None (fresh_reader s)"
  by (simp add: reader_at_def fresh_reader_def)

text \<open>
  C17. A truncated value is never returned. When the stream ends inside the encoding of a value (an integer,
  a floating-point pattern, a Boolean, a 7-bit encoded integer, the length or the bytes of a string), reading
  it throws \<^verbatim>\<open>EndOfStreamException\<close>, on a memory stream and through a buffer; only \<^verbatim>\<open>ReadBytes\<close> returns the bytes that are left.
\<close>

theorem truncated_value:
  assumes m: "memory_file c p m" and n: "cut_off c p k (encode i)" and l: "int (length (encode i)) \<le> INTCS_MAX"
    and b: "BufferedStream_ctor (Some m) sz owns = Inr b" "sz \<le> INTCS_MAX"
  shows "BinaryReader_ctor MemoryStream_vtable (Some m) True = Inr (fresh_reader m) \<and>
    (case i of
       BBytes bs \<Rightarrow>
         fst (read_item MemoryStream_vtable i (fresh_reader m)) = Returns (BBytes (take k bs)) \<and>
         fst (read_item (BufferedStream_vtable MemoryStream_vtable) i (fresh_reader b)) = Returns (BBytes (take k bs))
     | _ \<Rightarrow>
         fst (read_item MemoryStream_vtable i (fresh_reader m)) = Throws EndOfStreamException \<and>
         fst (read_item (BufferedStream_vtable MemoryStream_vtable) i (fresh_reader b)) = Throws EndOfStreamException)"
proof
  show "BinaryReader_ctor MemoryStream_vtable (Some m) True = Inr (fresh_reader m)"
    using memory.file_can [OF m] by (simp add: BinaryReader_ctor_def fresh_reader_def)
  have bf: "buffered_file memory_file c p b"
    by (rule ctor_buffered [where file_at = memory_file, OF b(1) m _ b(2)]) (use m in \<open>simp add: memory_file_def\<close>)
  note rm = fresh_reader_at [where file_at = memory_file, OF m]
    and rb = fresh_reader_at [where file_at = "buffered_file memory_file", OF bf]
  show "case i of
       BBytes bs \<Rightarrow>
         fst (read_item MemoryStream_vtable i (fresh_reader m)) = Returns (BBytes (take k bs)) \<and>
         fst (read_item (BufferedStream_vtable MemoryStream_vtable) i (fresh_reader b)) = Returns (BBytes (take k bs))
     | _ \<Rightarrow>
         fst (read_item MemoryStream_vtable i (fresh_reader m)) = Throws EndOfStreamException \<and>
         fst (read_item (BufferedStream_vtable MemoryStream_vtable) i (fresh_reader b)) = Throws EndOfStreamException"
  proof (cases "\<exists>bs. i = BBytes bs")
    case True
    then obtain bs where i: "i = BBytes bs" by blast
    have "get_bytes c p (length bs) = take k bs" and "p \<le> length c"
      using n by (auto simp: i cut_off_def get_bytes_def min_def)
    then have "runs (read_item MemoryStream_vtable i) (fresh_reader m) (BBytes (take k bs)) (\<lambda>_. True)"
      "runs (read_item (BufferedStream_vtable MemoryStream_vtable) i) (fresh_reader b) (BBytes (take k bs)) (\<lambda>_. True)"
      using memory.read_bytes [OF rm, of "int (length bs)"] buffered_memory.read_bytes [OF rb, of "int (length bs)"] l
      by (auto simp: i intro!: runs_map elim!: runs_mono)
    then show ?thesis by (auto simp: i runs_def)
  next
    case False
    then have "fails (read_item MemoryStream_vtable i) (fresh_reader m) EndOfStreamException (\<lambda>_. True)"
      "fails (read_item (BufferedStream_vtable MemoryStream_vtable) i) (fresh_reader b) EndOfStreamException (\<lambda>_. True)"
      using memory.read_item_cut [OF rm n _ l] buffered_memory.read_item_cut [OF rb n _ l] by auto
    then show ?thesis using False by (cases i) (auto simp: fails_def)
  qed
qed

theorem truncated_value_witness:
  "fst (read_item MemoryStream_vtable (BInt32 5)
     (fresh_reader \<lparr>ms_data = [7, 5, 0, 0], ms_position = 1, ms_writable = True, ms_isOpen = True\<rparr>)) =
   Throws EndOfStreamException"
proof -
  let ?m = "\<lparr>ms_data = [7, 5, 0, 0], ms_position = 1, ms_writable = True, ms_isOpen = True\<rparr>"
  have m: "memory_file [7, 5, 0, 0] 1 ?m" by (simp add: memory_file_def fits_def INTCS_MAX_def)
  have n: "cut_off [7, 5, 0, 0] 1 3 (encode (BInt32 5))"
    by (simp add: cut_off_def le_int_def le_bytes_def upt_rec)
  show ?thesis
    using truncated_value [OF m n _ _, of 2 False] by (simp add: INTCS_MAX_def BufferedStream_ctor_def)
qed

end
