(* ===== verification/IO_Chars.thy ===== *)
theory IO_Chars
  imports IO_Binary Text_Transcoding
begin

unbundle bit_operations_syntax

text \<open>
  The characters of \<^verbatim>\<open>BinaryReader\<close>: \<^verbatim>\<open>TryReadChar\<close> is a third UTF-8 decoder, over a stream and with the second half of a
  surrogate pair kept for the next call. It is related to the encoding of RFC 3629 and to UTF-16 as
  the two other theories on text define them.
\<close>

section \<open>The decoder\<close>

text \<open>The bytes from \<open>p\<close> on: a character, the end, or neither.\<close>

definition stream_char :: "bytecs list \<Rightarrow> (uintcs \<times> nat) option" where
  "stream_char bs =
     (case bs of
        [] \<Rightarrow> None
      | b # r \<Rightarrow>
          (case char_lead b of
             None \<Rightarrow> None
           | Some (cp, m, k) \<Rightarrow>
               if length r < k then None
               else case continuation_loop (take k r) cp of
                      None \<Rightarrow> None
                    | Some n \<Rightarrow> if n < m \<or> n > 0x10FFFF \<or> isSurrogate n then None else Some (n, Suc k)))"

lemma top_bit_clear: "b AND 0x80 = 0 \<longleftrightarrow> b < (0x80 :: bytecs)"
proof -
  have "unat (b AND 0x80) = unat b div 128 * 128"
    using nat_and_high [of "unat b" 7 1] by (simp add: unsigned_and_eq mask_eq_exp_minus_1 push_bit_eq_mult)
  then have "b AND 0x80 = 0 \<longleftrightarrow> unat b div 128 = 0" by (metis mult_eq_0_iff unat_eq_zero zero_neq_numeral)
  then show ?thesis by (simp add: word_less_nat_alt div_eq_0_iff)
qed

lemma stream_char_DecodeUtf8:
  "stream_char bs =
     (if ud_valid (DecodeUtf8 bs) then Some (ud_scalar (DecodeUtf8 bs), ud_length (DecodeUtf8 bs)) else None)"
proof (cases bs)
  case Nil
  then show ?thesis by (simp add: stream_char_def DecodeUtf8_def)
next
  case (Cons b r)
  let ?c = "unat b"
  have lt: "x < y \<longleftrightarrow> unat x < unat y" "x \<le> y \<longleftrightarrow> unat x \<le> unat y" for x y :: bytecs
    by (rule word_less_nat_alt, rule word_le_nat_alt)
  consider (ascii) "?c < 0x80" | (low) "0x80 \<le> ?c" "?c < 0xC2" | (two) "0xC2 \<le> ?c" "?c < 0xE0"
    | (three) "0xE0 \<le> ?c" "?c < 0xF0" | (four) "0xF0 \<le> ?c" "?c < 0xF5" | (high) "0xF5 \<le> ?c" by linarith
  then show ?thesis
  proof cases
    case ascii
    have "\<not> (ucast b :: uintcs) > 0x10FFFF \<and> \<not> isSurrogate (ucast b)"
      using ascii by (simp add: isSurrogate_unat word_less_nat_alt unat_ucast_byte)
    then show ?thesis
      using ascii by (simp add: Cons stream_char_def char_lead_def top_bit_clear DecodeUtf8_def lt)
  next
    case low
    then show ?thesis by (simp add: Cons stream_char_def char_lead_def top_bit_clear DecodeUtf8_def lt)
  next
    case two
    then show ?thesis
      by (auto simp: Cons stream_char_def char_lead_def top_bit_clear DecodeUtf8_def lt Let_def split: option.split)
  next
    case three
    then show ?thesis
      by (auto simp: Cons stream_char_def char_lead_def top_bit_clear DecodeUtf8_def lt Let_def split: option.split)
  next
    case four
    then show ?thesis
      by (auto simp: Cons stream_char_def char_lead_def top_bit_clear DecodeUtf8_def lt Let_def split: option.split)
  next
    case high
    then show ?thesis by (simp add: Cons stream_char_def char_lead_def top_bit_clear DecodeUtf8_def lt)
  qed
qed

lemma stream_char_rfc: "rfc bs = map_option (\<lambda>(cp, len). (unat cp, len)) (stream_char bs)"
  using DecodeUtf8_rfc [of bs] by (auto simp: stream_char_DecodeUtf8 split: option.splits prod.splits)

lemma stream_char_scalar: "stream_char bs = Some (cp, len) \<Longrightarrow> is_scalar (unat cp)"
  using not_scalar [of cp]
  by (auto simp: stream_char_def split: list.splits option.splits if_splits)

section \<open>Over a stream\<close>

definition second_half :: "uintcs \<Rightarrow> charcs option" where
  "second_half cp = (if cp \<le> 0xFFFF then None else Some (utf16_chars cp ! 1))"

abbreviation char_errors :: "exn set" where
  "char_errors \<equiv> {FormatException, EndOfStreamException}"

context byte_file
begin

lemma reader_byte:
  assumes "reader_at file_at c p pend r"
  shows "runs (br_call (vReadByte vt)) r (if p < length c then uint (c ! p) else - 1)
    (reader_at file_at c (if p < length c then p + 1 else p) pend)"
  by (rule reader_call [OF assms read_byte_ok])

lemma continuations:
  assumes "reader_at file_at c p pend r" and "p \<le> length c"
  shows "case (if length c < p + k then None else continuation_loop (take k (drop p c)) cp) of
      Some n \<Rightarrow> runs (char_continuations vt k cp) r n (reader_at file_at c (p + k) pend)
    | None \<Rightarrow> \<exists>e\<in>char_errors. \<exists>q. fails (char_continuations vt k cp) r e (reader_at file_at c q pend)"
  using assms
proof (induction k arbitrary: p r cp)
  case 0
  then show ?case by simp
next
  case (Suc k)
  show ?case
  proof (cases "p < length c")
    case False
    then have "fails (char_continuations vt (Suc k) cp) r EndOfStreamException (reader_at file_at c p pend)"
      using reader_byte [OF Suc.prems(1)] by (auto intro: runs_fails_bind)
    then show ?thesis using False by auto
  next
    case True
    define b where "b = c ! p"
    have d: "drop p c = b # drop (p + 1) c" using True by (simp add: b_def Cons_nth_drop_Suc)
    have rb: "runs (br_call (vReadByte vt)) r (uint b) (reader_at file_at c (p + 1) pend)"
      using reader_byte [OF Suc.prems(1)] True by (simp add: b_def)
    show ?thesis
    proof (cases "b AND 0xC0 = 0x80")
      case bad: False
      have "fails (char_continuations vt (Suc k) cp) r FormatException (reader_at file_at c (p + 1) pend)"
        using bad by (auto simp: Let_def intro!: runs_fails_bind [OF rb])
      moreover have "(if length c < p + Suc k then None else continuation_loop (take (Suc k) (drop p c)) cp) = None"
        using bad by (simp add: d)
      ultimately show ?thesis by auto
    next
      case good: True
      define cp' where "cp' = push_bit 6 cp OR ucast (b AND 0x3F)"
      have e: "(if length c < p + Suc k then None else continuation_loop (take (Suc k) (drop p c)) cp) =
          (if length c < p + 1 + k then None else continuation_loop (take k (drop (p + 1) c)) cp')"
        using good by (simp add: d cp'_def)
      have body: "(\<lambda>raw. if raw < 0 then io_throw EndOfStreamException
              else let continuation = (of_int raw :: bytecs)
                   in if continuation AND 0xC0 \<noteq> 0x80 then io_throw FormatException
                      else char_continuations vt k (push_bit 6 cp OR ucast (continuation AND 0x3F))) (uint b) =
           char_continuations vt k cp'"
        using good by (simp add: cp'_def)
      have IH: "case (if length c < p + 1 + k then None else continuation_loop (take k (drop (p + 1) c)) cp') of
          Some n \<Rightarrow> runs (char_continuations vt k cp') r' n (reader_at file_at c (p + 1 + k) pend)
        | None \<Rightarrow> \<exists>e\<in>char_errors. \<exists>q. fails (char_continuations vt k cp') r' e (reader_at file_at c q pend)"
        if "reader_at file_at c (p + 1) pend r'" for r'
        by (rule Suc.IH [OF that]) (use True in simp)
      obtain r' where r': "br_call (vReadByte vt) r = (Returns (uint b), r')" "reader_at file_at c (p + 1) pend r'"
        using rb by (rule runsE)
      have step: "char_continuations vt (Suc k) cp r = char_continuations vt k cp' r'"
        using r'(1) body by (simp add: io_bind_def)
      have pk: "p + Suc k = p + 1 + k" by simp
      show ?thesis
        using IH [OF r'(2)] unfolding e unfolding pk runs_def fails_def step .
    qed
  qed
qed

lemma char_result_ok:
  assumes r: "reader_at file_at c p None r" and "\<not> (cp < m \<or> cp > 0x10FFFF \<or> isSurrogate cp)"
  shows "runs (char_result cp m) r (Some (hd (utf16_chars cp))) (reader_at file_at c p (second_half cp))"
proof (cases "cp \<le> 0xFFFF")
  case True
  then have "needed_chars cp = 1" by (simp add: needed_chars_def word_less_nat_alt word_le_nat_alt)
  then show ?thesis
    using assms True by (auto simp: char_result_def isSurrogate_def utf16_chars_def second_half_def)
next
  case False
  then have "needed_chars cp \<noteq> 1" by (simp add: needed_chars_def word_less_nat_alt word_le_nat_alt)
  then show ?thesis
    using assms False
    by (auto simp: char_result_def isSurrogate_def utf16_chars_def second_half_def Let_def reader_at_def
        intro!: runs_then [where Q = "reader_at file_at c p (second_half cp)"])
qed

lemma char_result_bad:
  assumes "reader_at file_at c p pend r" and "cp < m \<or> cp > 0x10FFFF \<or> isSurrogate cp"
  shows "fails (char_result cp m) r FormatException (reader_at file_at c p pend)"
  using assms by (auto simp: char_result_def isSurrogate_def)

lemma try_read_pending:
  assumes "reader_at file_at c p (Some u) r"
  shows "runs (BR_TryReadChar vt) r (Some u) (reader_at file_at c p None)"
  unfolding BR_TryReadChar_def
  by (rule runs_then [OF reader_open [OF assms]])
     (auto simp: reader_at_def runs_def io_bind_def io_then_def io_get_def io_modify_def io_return_def io_if_def)

lemma try_read_char:
  assumes r: "reader_at file_at c p None r" and p: "p \<le> length c"
  shows "case stream_char (drop p c) of
      Some (cp, len) \<Rightarrow> runs (BR_TryReadChar vt) r (Some (hd (utf16_chars cp))) (reader_at file_at c (p + len) (second_half cp))
    | None \<Rightarrow>
        if p = length c then runs (BR_TryReadChar vt) r None (reader_at file_at c p None)
        else \<exists>e\<in>char_errors. \<exists>q. fails (BR_TryReadChar vt) r e (reader_at file_at c q None)"
proof -
  obtain r1 where r1: "BR_ThrowIfDisposed r = (Returns (), r1)" "reader_at file_at c p None r1"
    using reader_open [OF r] by (rule runsE)
  define rest where "rest = (\<lambda>rawLead.
              if rawLead < 0 then io_return None
              else case char_lead (of_int rawLead) of
                     None \<Rightarrow> io_throw FormatException
                   | Some (codepoint, minimum, n) \<Rightarrow>
                       io_bind (char_continuations vt n codepoint) (\<lambda>cp. char_result cp minimum))"
  have step: "BR_TryReadChar vt r = io_bind (br_call (vReadByte vt)) rest r1"
    using r1 by (simp add: BR_TryReadChar_def io_then_def io_bind_def [of BR_ThrowIfDisposed] io_if_def reader_at_def rest_def)
  show ?thesis
  proof (cases "p < length c")
    case False
    then have e: "p = length c" "stream_char (drop p c) = None" using p by (simp_all add: stream_char_def)
    have "runs (io_bind (br_call (vReadByte vt)) rest) r1 None (reader_at file_at c p None)"
      by (rule runs_bind [OF reader_byte [OF r1(2)]]) (use False in \<open>simp add: rest_def\<close>)
    then show ?thesis using e by (simp add: runs_def step)
  next
    case True
    define b where "b = c ! p"
    have d: "drop p c = b # drop (p + 1) c" using True by (simp add: b_def Cons_nth_drop_Suc)
    obtain r2 where r2: "br_call (vReadByte vt) r1 = (Returns (uint b), r2)" "reader_at file_at c (p + 1) None r2"
      using reader_byte [OF r1(2)] True by (auto simp: runs_def b_def)
    have step2: "BR_TryReadChar vt r = rest (uint b) r2" using r2(1) by (simp add: step io_bind_def)
    show ?thesis
    proof (cases "char_lead b")
      case None
      then have "stream_char (drop p c) = None" by (simp add: stream_char_def d)
      then show ?thesis using True None r2(2) by (auto simp: fails_def step2 rest_def io_throw_def)
    next
      case (Some x)
      obtain cp m k where x: "x = (cp, m, k)" by (cases x)
      have body: "rest (uint b) = io_bind (char_continuations vt k cp) (\<lambda>cp. char_result cp m)"
        using Some x by (simp add: rest_def)
      define o' where "o' = (if length c < p + 1 + k then None else continuation_loop (take k (drop (p + 1) c)) cp)"
      have sc: "stream_char (drop p c) =
          (case o' of None \<Rightarrow> None
           | Some n \<Rightarrow> if n < m \<or> n > 0x10FFFF \<or> isSurrogate n then None else Some (n, Suc k))"
        using True Some x by (auto simp: stream_char_def d o'_def)
      have conts: "case o' of
            Some n \<Rightarrow> runs (char_continuations vt k cp) r2 n (reader_at file_at c (p + 1 + k) None)
          | None \<Rightarrow> \<exists>e\<in>char_errors. \<exists>q. fails (char_continuations vt k cp) r2 e (reader_at file_at c q None)"
        unfolding o'_def by (rule continuations [OF r2(2)]) (use True in simp)
      have np: "p \<noteq> length c" using True by simp
      show ?thesis
      proof (cases o')
        case None
        then obtain e q where e: "e \<in> char_errors" "fails (char_continuations vt k cp) r2 e (reader_at file_at c q None)"
          using conts by auto
        from fails_bind [OF e(2)] have "fails (BR_TryReadChar vt) r e (reader_at file_at c q None)"
          by (simp add: fails_def step2 body)
        then show ?thesis using e(1) np None by (auto simp: sc)
      next
        case (Some n)
        then have n: "runs (char_continuations vt k cp) r2 n (reader_at file_at c (p + 1 + k) None)" using conts by simp
        show ?thesis
        proof (cases "n < m \<or> n > 0x10FFFF \<or> isSurrogate n")
          case True
          have "fails (io_bind (char_continuations vt k cp) (\<lambda>cp. char_result cp m)) r2 FormatException
              (reader_at file_at c (p + 1 + k) None)"
            by (rule runs_fails_bind [OF n]) (rule char_result_bad [OF _ True])
          then have "fails (BR_TryReadChar vt) r FormatException (reader_at file_at c (p + 1 + k) None)"
            by (simp add: fails_def step2 body)
          then show ?thesis using np True Some by (auto simp: sc)
        next
          case False
          have "runs (io_bind (char_continuations vt k cp) (\<lambda>cp. char_result cp m)) r2 (Some (hd (utf16_chars n)))
              (reader_at file_at c (p + 1 + k) (second_half n))"
            by (rule runs_bind [OF n]) (rule char_result_ok [OF _ False])
          then have "runs (BR_TryReadChar vt) r (Some (hd (utf16_chars n))) (reader_at file_at c (p + Suc k) (second_half n))"
            by (simp add: runs_def step2 body)
          then show ?thesis using False Some by (simp add: sc)
        qed
      qed
    qed
  qed
qed

lemma read_char:
  assumes r: "reader_at file_at c p None r" and p: "p \<le> length c"
  shows "case stream_char (drop p c) of
      Some (cp, len) \<Rightarrow> runs (BR_ReadChar vt) r (hd (utf16_chars cp)) (reader_at file_at c (p + len) (second_half cp))
    | None \<Rightarrow> \<exists>e\<in>(if p = length c then {EndOfStreamException} else char_errors). \<exists>q.
        fails (BR_ReadChar vt) r e (reader_at file_at c q None)"
proof (cases "stream_char (drop p c)")
  case (Some x)
  then show ?thesis
    using try_read_char [OF assms] by (cases x) (auto simp: BR_ReadChar_def intro: runs_bind)
next
  case None
  show ?thesis
  proof (cases "p = length c")
    case True
    then have "runs (BR_TryReadChar vt) r None (reader_at file_at c p None)"
      using try_read_char [OF assms] None by simp
    then have "fails (BR_ReadChar vt) r EndOfStreamException (reader_at file_at c p None)"
      unfolding BR_ReadChar_def by (rule runs_fails_bind) simp
    then show ?thesis using None True by auto
  next
    case False
    then obtain e q where "e \<in> char_errors" "fails (BR_TryReadChar vt) r e (reader_at file_at c q None)"
      using try_read_char [OF assms] None by auto
    moreover from this(2) have "fails (BR_ReadChar vt) r e (reader_at file_at c q None)"
      unfolding BR_ReadChar_def by (rule fails_bind)
    ultimately show ?thesis using None False by auto
  qed
qed

lemma peek_restored:
  assumes "reader_at file_at c q pend r'" and "int p \<le> INTCS_MAX"
  shows "runs (peek_restore vt (int p) False u) r' () (reader_at file_at c p None)"
proof -
  have "runs (br_call (vSetPosition vt (int p))) r' () (reader_at file_at c p pend)"
    by (rule reader_call [OF assms(1)]) (use set_position_ok [of c q _ "int p"] assms(2) in simp)
  then show ?thesis
    unfolding peek_restore_def by (rule runs_then) (auto simp: reader_at_def)
qed

lemma peek_char:
  assumes r: "reader_at file_at c p None r" and p: "p \<le> length c"
  shows "case stream_char (drop p c) of
      Some (cp, len) \<Rightarrow> runs (BR_PeekChar vt) r (uint (hd (utf16_chars cp))) (reader_at file_at c p None)
    | None \<Rightarrow>
        if p = length c then runs (BR_PeekChar vt) r (- 1) (reader_at file_at c p None)
        else \<exists>e\<in>char_errors. fails (BR_PeekChar vt) r e (reader_at file_at c p None)"
proof -
  have fp: "int p \<le> INTCS_MAX" using r file_fits by (auto simp: reader_at_def fits_def)
  obtain r1 where r1: "BR_ThrowIfDisposed r = (Returns (), r1)" "reader_at file_at c p None r1"
    using reader_open [OF r] by (rule runsE)
  obtain r2 where r2: "br_call (vGetPosition vt) r1 = (Returns (int p), r2)" "reader_at file_at c p None r2"
    using reader_call [OF r1(2) get_position_ok] by (rule runsE)
  obtain r3 where r3: "br_call (vGetLength vt) r2 = (Returns (int (length c)), r3)" "reader_at file_at c p None r3"
    using reader_call [OF r2(2) get_length_ok] by (rule runsE)
  have can: "vCanSeek vt (br_stream r1)" using r1(2) file_can by (auto simp: reader_at_def)
  have "BR_PeekChar vt r = (if p \<ge> length c then io_return (- 1) else peek_read vt (int p)) r3"
    using r1 r2 r3 can
    by (simp add: BR_PeekChar_def io_then_def io_bind_def [of BR_ThrowIfDisposed] io_bind_def [of "br_call (vGetPosition vt)"]
        io_bind_def [of "br_call (vGetLength vt)"] io_if_def reader_at_def)
  then have step: "BR_PeekChar vt r = (if p = length c then (Returns (- 1), r3) else peek_read vt (int p) r3)"
    using p by (auto simp: io_return_def)
  have np: "\<not> br_hasPendingCharacter r3" using r3(2) by (simp add: reader_at_def)
  note rc = read_char [OF r3(2) p]
  show ?thesis
  proof (cases "stream_char (drop p c)")
    case (Some x)
    obtain cp len where x: "x = (cp, len)" by (cases x)
    have pl: "p \<noteq> length c" using Some by (auto simp: stream_char_def)
    obtain r4 where r4: "BR_ReadChar vt r3 = (Returns (hd (utf16_chars cp)), r4)" "reader_at file_at c (p + len) (second_half cp) r4"
      using rc Some x by (auto simp: runs_def)
    show ?thesis
      using peek_restored [OF r4(2) fp, of "br_pendingCharacter r3"] r4(1) pl np Some x
      by (auto simp: runs_def step peek_read_def io_then_def io_bind_def io_return_def)
  next
    case None
    show ?thesis
    proof (cases "p = length c")
      case True
      then show ?thesis using None r3(2) by (simp add: runs_def step)
    next
      case False
      then obtain e q r4 where e: "e \<in> char_errors" "BR_ReadChar vt r3 = (Throws e, r4)" "reader_at file_at c q None r4"
        using rc None by (auto simp: fails_def)
      show ?thesis
        using peek_restored [OF e(3) fp, of "br_pendingCharacter r3"] e(1,2) np None False
        by (auto simp: runs_def fails_def step peek_read_def io_then_def io_bind_def io_throw_def)
    qed
  qed
qed

end

section \<open>Texts in pieces\<close>

text \<open>The UTF-16 units still to be read: the second half that is kept, and the rest of a well-formed text.\<close>

definition units_left :: "bytecs list \<Rightarrow> nat \<Rightarrow> charcs option \<Rightarrow> charcs list \<Rightarrow> bool" where
  "units_left c p pend us \<longleftrightarrow> p \<le> length c \<and>
     (\<exists>ns. list_all is_scalar ns \<and> drop p c = concat (map utf8 ns) \<and>
        us = (case pend of None \<Rightarrow> [] | Some u \<Rightarrow> [u]) @ concat (map utf16 ns))"

primrec chunks :: "intcs list \<Rightarrow> charcs list \<Rightarrow> charcs list list" where
  "chunks [] us = []"
| "chunks (k # ks) us = take (nat k) us # chunks ks (drop (nat k) us)"

primrec read_chunks :: "'s Stream \<Rightarrow> intcs list \<Rightarrow> ('s BinaryReader, charcs list list) io" where
  "read_chunks vt [] = io_return []"
| "read_chunks vt (k # ks) =
     io_bind (BR_ReadChars vt k) (\<lambda>x. io_bind (read_chunks vt ks) (\<lambda>xs. io_return (x # xs)))"

lemma stream_char_utf8:
  assumes "is_scalar n"
  shows "\<exists>cp. stream_char (utf8 n @ r) = Some (cp, length (utf8 n)) \<and> utf16_chars cp = utf16 n \<and>
    utf16 n = hd (utf16 n) # (case second_half cp of None \<Rightarrow> [] | Some u \<Rightarrow> [u])"
proof -
  obtain cp where cp: "stream_char (utf8 n @ r) = Some (cp, length (utf8 n))" "unat cp = n"
    using stream_char_rfc [of "utf8 n @ r"] rfc_utf8 [OF assms, of r]
    by (cases "stream_char (utf8 n @ r)") auto
  have u: "utf16_chars cp = utf16 n" using utf16_chars_utf16(1) [of cp] assms cp(2) by simp
  have "cp \<le> 0xFFFF \<longleftrightarrow> n < 0x10000" using cp(2) by (auto simp: word_le_nat_alt)
  then have "utf16 n = hd (utf16 n) # (case second_half cp of None \<Rightarrow> [] | Some u \<Rightarrow> [u])"
    unfolding second_half_def u by (simp add: utf16_def)
  with cp u show ?thesis by blast
qed

context byte_file
begin

lemma next_unit:
  assumes r: "reader_at file_at c p pend r" and t: "units_left c p pend us"
  shows "\<exists>p' pend'. runs (BR_TryReadChar vt) r (case us of [] \<Rightarrow> None | u # _ \<Rightarrow> Some u) (reader_at file_at c p' pend') \<and>
    units_left c p' pend' (tl us)"
proof -
  obtain ns where ns: "list_all is_scalar ns" "drop p c = concat (map utf8 ns)"
      "us = (case pend of None \<Rightarrow> [] | Some u \<Rightarrow> [u]) @ concat (map utf16 ns)" and p: "p \<le> length c"
    using t by (auto simp: units_left_def)
  show ?thesis
  proof (cases pend)
    case (Some u)
    then have "units_left c p None (tl us)" using ns p by (auto simp: units_left_def)
    then show ?thesis using try_read_pending [of c p u r] r Some ns(3) by auto
  next
    case None
    show ?thesis
    proof (cases ns)
      case Nil
      then have "p = length c" "us = []" using ns p None by auto
      then show ?thesis
        using try_read_char [of c p r] r None t by (auto simp: stream_char_def)
    next
      case (Cons n ns')
      then have sc: "is_scalar n" "list_all is_scalar ns'" using ns(1) by auto
      have d: "drop p c = utf8 n @ concat (map utf8 ns')" using ns(2) Cons by simp
      obtain cp where cp: "stream_char (drop p c) = Some (cp, length (utf8 n))" "utf16_chars cp = utf16 n"
          "utf16 n = hd (utf16 n) # (case second_half cp of None \<Rightarrow> [] | Some u \<Rightarrow> [u])"
        using stream_char_utf8 [OF sc(1)] d by metis
      have len: "length (utf8 n) \<le> length c - p" using arg_cong [OF d, of length] by simp
      have "drop (p + length (utf8 n)) c = concat (map utf8 ns')"
        using d by (metis add.commute append_eq_conv_conj drop_drop)
      moreover have us: "us = hd (utf16 n) # (case second_half cp of None \<Rightarrow> [] | Some u \<Rightarrow> [u]) @ concat (map utf16 ns')"
        using ns(3) None Cons cp(3) by simp
      ultimately have "units_left c (p + length (utf8 n)) (second_half cp) (tl us)"
        using sc(2) len p by (auto simp: units_left_def)
      then show ?thesis
        using try_read_char [of c p r] r None p cp(1,2) us by auto
    qed
  qed
qed

lemma chars_loop_text:
  assumes "reader_at file_at c p pend r" and "units_left c p pend us"
  shows "\<exists>p' pend'. runs (chars_loop vt k acc) r (acc @ take k us) (reader_at file_at c p' pend') \<and>
    units_left c p' pend' (drop k us)"
  using assms
proof (induction k arbitrary: p pend r us acc)
  case 0
  then show ?case by auto
next
  case (Suc k)
  obtain p1 pend1 where 1: "runs (BR_TryReadChar vt) r (case us of [] \<Rightarrow> None | u # _ \<Rightarrow> Some u) (reader_at file_at c p1 pend1)"
      "units_left c p1 pend1 (tl us)"
    using next_unit [OF Suc.prems] by blast
  show ?case
  proof (cases us)
    case Nil
    have "runs (chars_loop vt (Suc k) acc) r acc (reader_at file_at c p1 pend1)"
      using 1(1) Nil by (auto intro: runs_bind)
    then show ?thesis using Nil 1(2) by auto
  next
    case (Cons u us')
    obtain r1 where r1: "BR_TryReadChar vt r = (Returns (Some u), r1)" "reader_at file_at c p1 pend1 r1"
      using 1(1) Cons by (auto simp: runs_def)
    then have "chars_loop vt (Suc k) acc r = chars_loop vt k (acc @ [u]) r1" by (simp add: io_bind_def)
    then show ?thesis
      using Suc.IH [OF r1(2) 1(2), of "acc @ [u]"] Cons by (simp add: runs_def)
  qed
qed

lemma read_chars_text:
  assumes r: "reader_at file_at c p pend r" and t: "units_left c p pend us" and k: "0 \<le> k"
  shows "\<exists>p' pend'. runs (BR_ReadChars vt k) r (take (nat k) us) (reader_at file_at c p' pend') \<and>
    units_left c p' pend' (drop (nat k) us)"
proof -
  obtain r1 where r1: "BR_ThrowIfDisposed r = (Returns (), r1)" "reader_at file_at c p pend r1"
    using reader_open [OF r] by (rule runsE)
  have "BR_ReadChars vt k r = chars_loop vt (nat k) [] r1"
    using r1(1) k by (simp add: BR_ReadChars_def ThrowIfNegative_def io_then_def io_bind_def io_return_def)
  then show ?thesis using chars_loop_text [OF r1(2) t, of "nat k" "[]"] by (simp add: runs_def)
qed

lemma read_chunks_text:
  assumes "reader_at file_at c p pend r" and "units_left c p pend us" and "list_all ((\<le>) 0) ks"
  shows "fst (read_chunks vt ks r) = Returns (chunks ks us)"
  using assms
proof (induction ks arbitrary: p pend r us)
  case Nil
  then show ?case by (simp add: io_return_def)
next
  case (Cons k ks)
  then obtain p1 pend1 r1 where 1: "BR_ReadChars vt k r = (Returns (take (nat k) us), r1)"
      "reader_at file_at c p1 pend1 r1" "units_left c p1 pend1 (drop (nat k) us)"
    using read_chars_text [OF Cons.prems(1,2), of k] by (auto simp: runs_def)
  obtain r2 where "read_chunks vt ks r1 = (Returns (chunks ks (drop (nat k) us)), r2)"
    using Cons.IH [OF 1(2,3)] Cons.prems(3) by (cases "read_chunks vt ks r1") auto
  then show ?case using 1(1) by (simp add: io_bind_def io_return_def)
qed

end

section \<open>Properties\<close>

text \<open>
  C16. \<^verbatim>\<open>ReadChar\<close> and \<^verbatim>\<open>PeekChar\<close>, for any contents and position of a memory stream. Where the UTF-8 encoding of a scalar
  value stands (RFC 3629), \<^verbatim>\<open>ReadChar\<close> returns its first UTF-16 unit and moves behind the encoding, and \<^verbatim>\<open>PeekChar\<close> returns
  the same unit and moves nothing. At the end \<^verbatim>\<open>ReadChar\<close> throws \<^verbatim>\<open>EndOfStreamException\<close> and \<^verbatim>\<open>PeekChar\<close> returns -1. Everywhere else
  both throw \<^verbatim>\<open>FormatException\<close> or \<^verbatim>\<open>EndOfStreamException\<close>, and \<^verbatim>\<open>PeekChar\<close> restores the position. Through a buffer
  the results are the same.
\<close>

theorem read_and_peek_char:
  assumes m: "memory_file c p m" and p: "p \<le> length c"
    and b: "BufferedStream_ctor (Some m) sz owns = Inr b" "sz \<le> INTCS_MAX"
  shows "(case rfc (drop p c) of
      Some (n, len) \<Rightarrow>
        (\<exists>r. BR_ReadChar MemoryStream_vtable (fresh_reader m) = (Returns (hd (utf16 n)), r) \<and>
             ms_position (br_stream r) = int (p + len)) \<and>
        (\<exists>r. BR_PeekChar MemoryStream_vtable (fresh_reader m) = (Returns (uint (hd (utf16 n))), r) \<and>
             ms_position (br_stream r) = int p) \<and>
        fst (BR_ReadChar (BufferedStream_vtable MemoryStream_vtable) (fresh_reader b)) = Returns (hd (utf16 n))
    | None \<Rightarrow>
        if p = length c
        then fst (BR_ReadChar MemoryStream_vtable (fresh_reader m)) = Throws EndOfStreamException \<and>
             fst (BR_PeekChar MemoryStream_vtable (fresh_reader m)) = Returns (- 1) \<and>
             fst (BR_ReadChar (BufferedStream_vtable MemoryStream_vtable) (fresh_reader b)) = Throws EndOfStreamException
        else fst (BR_ReadChar MemoryStream_vtable (fresh_reader m)) \<in> Throws ` {FormatException, EndOfStreamException} \<and>
             (\<exists>e r. BR_PeekChar MemoryStream_vtable (fresh_reader m) = (Throws e, r) \<and> e \<in> {FormatException, EndOfStreamException} \<and>
                ms_position (br_stream r) = int p) \<and>
             fst (BR_ReadChar (BufferedStream_vtable MemoryStream_vtable) (fresh_reader b)) \<in>
               Throws ` {FormatException, EndOfStreamException})"
proof -
  have bf: "buffered_file memory_file c p b"
    by (rule ctor_buffered [where file_at = memory_file, OF b(1) m _ b(2)]) (use m in \<open>simp add: memory_file_def\<close>)
  note rm = fresh_reader_at [where file_at = memory_file, OF m]
    and rb = fresh_reader_at [where file_at = "buffered_file memory_file", OF bf]
  note laws = memory.read_char [OF rm p] memory.peek_char [OF rm p] buffered_memory.read_char [OF rb p]
  show ?thesis
  proof (cases "stream_char (drop p c)")
    case (Some x)
    obtain cp len where x: "x = (cp, len)" by (cases x)
    have "utf16_chars cp = utf16 (unat cp)"
      using utf16_chars_utf16(1) [of cp] stream_char_scalar [of "drop p c" cp len] Some x by simp
    then show ?thesis
      using laws Some x stream_char_rfc [of "drop p c"] by (auto simp: runs_def reader_at_def memory_file_def)
  next
    case None
    then show ?thesis
      using laws stream_char_rfc [of "drop p c"] by (auto simp: runs_def fails_def reader_at_def memory_file_def)
  qed
qed

theorem read_and_peek_char_witness:
  "fst (BR_ReadChar MemoryStream_vtable
     (fresh_reader \<lparr>ms_data = [65, 0xC3, 0xA9], ms_position = 1, ms_writable = True, ms_isOpen = True\<rparr>)) = Returns 0xE9"
proof -
  let ?m = "\<lparr>ms_data = [65, 0xC3, 0xA9], ms_position = 1, ms_writable = True, ms_isOpen = True\<rparr>"
  have m: "memory_file [65, 0xC3, 0xA9] 1 ?m" by (simp add: memory_file_def fits_def INTCS_MAX_def)
  have u: "utf8 0xE9 = [0xC3, 0xA9]" by (simp add: utf8_def)
  have "rfc (drop 1 [65, 0xC3, 0xA9]) = Some (0xE9, 2)"
    using rfc_utf8 [of "0xE9" "[]"] by (simp add: u is_scalar_def)
  then show ?thesis
    using read_and_peek_char [OF m, of 2 False] by (auto simp: INTCS_MAX_def BufferedStream_ctor_def utf16_def)
qed

text \<open>
  C15. A UTF-8 text is read in pieces of any sizes. From the start of the encoding of any scalar values that
  ends the stream, any sequence of \<^verbatim>\<open>ReadChars\<close> calls returns the consecutive pieces of the UTF-16 text: no unit is lost
  when a piece ends between the two halves of a surrogate pair, and pieces behind the end are shortened, on
  a memory stream and through a buffer of any size.
\<close>

theorem read_chars_in_pieces:
  assumes m: "memory_file (before @ concat (map utf8 ns)) (length before) m"
    and ns: "list_all is_scalar ns" and ks: "list_all ((\<le>) 0) ks"
    and b: "BufferedStream_ctor (Some m) sz owns = Inr b" "sz \<le> INTCS_MAX"
  shows "fst (read_chunks MemoryStream_vtable ks (fresh_reader m)) = Returns (chunks ks (concat (map utf16 ns))) \<and>
    fst (read_chunks (BufferedStream_vtable MemoryStream_vtable) ks (fresh_reader b)) =
      Returns (chunks ks (concat (map utf16 ns)))"
proof
  have t: "units_left (before @ concat (map utf8 ns)) (length before) None (concat (map utf16 ns))"
    using ns by (auto simp: units_left_def)
  have bf: "buffered_file memory_file (before @ concat (map utf8 ns)) (length before) b"
    by (rule ctor_buffered [where file_at = memory_file, OF b(1) m _ b(2)]) (use m in \<open>simp add: memory_file_def\<close>)
  show "fst (read_chunks MemoryStream_vtable ks (fresh_reader m)) = Returns (chunks ks (concat (map utf16 ns)))"
    by (rule memory.read_chunks_text [OF fresh_reader_at [where file_at = memory_file, OF m] t ks])
  show "fst (read_chunks (BufferedStream_vtable MemoryStream_vtable) ks (fresh_reader b)) =
      Returns (chunks ks (concat (map utf16 ns)))"
    by (rule buffered_memory.read_chunks_text [OF fresh_reader_at [where file_at = "buffered_file memory_file", OF bf] t ks])
qed

theorem read_chars_in_pieces_witness:
  "fst (read_chunks MemoryStream_vtable [1, 5]
     (fresh_reader \<lparr>ms_data = [9, 0xF0, 0x9F, 0x98, 0x80, 65], ms_position = 1, ms_writable = True, ms_isOpen = True\<rparr>)) =
   Returns [[0xD83D], [0xDE00, 65]]"
proof -
  let ?m = "\<lparr>ms_data = [9, 0xF0, 0x9F, 0x98, 0x80, 65], ms_position = 1, ms_writable = True, ms_isOpen = True\<rparr>"
  have m: "memory_file ([9] @ concat (map utf8 [0x1F600, 65])) (length [9 :: bytecs]) ?m"
    by (simp add: memory_file_def fits_def INTCS_MAX_def utf8_def)
  show ?thesis
    using read_chars_in_pieces [OF m, of "[1, 5]" 2 False]
    by (simp add: is_scalar_def BufferedStream_ctor_def INTCS_MAX_def utf16_def)
qed

end
