(* ===== verification/Thr_Monitor.thy ===== *)
theory Thr_Monitor
  imports SR_Prelude
begin

text \<open>
  Threads around a mutex and its condition variables, the shape shared by the classes of
  \<^verbatim>\<open>System::Threading\<close> and \<^verbatim>\<open>System::Threading::Channels\<close>. A program is a function \<open>act\<close> that performs the next
  critical section of a thread; \<open>std::condition_variable::wait\<close> is the case where the thread goes to sleep.
  The locale \<open>monitor\<close> states what a class must promise about its notifications; the result is that no
  wake-up is lost. The locale \<open>tally\<close> ties a counter of the shared state to the number of threads it counts.
\<close>

section \<open>Steps and runs\<close>

text \<open>
  \<open>m_asleep i\<close>: thread \<open>i\<close> is blocked inside \<^verbatim>\<open>wait\<close> and has not been notified since.
\<close>

record ('p, 's) monitor_state =
  m_pcs :: "nat \<Rightarrow> 'p"
  m_asleep :: "nat \<Rightarrow> bool"
  m_shared :: 's

text \<open>
  \<open>act timeout p s\<close> runs thread code at \<open>p\<close> on the shared state \<open>s\<close> until the mutex is released: the next program
  point (which includes the thread's own data), whether the thread sleeps there, the new shared state, and the condition
  variables notified with \<^verbatim>\<open>notify_all\<close>. \<open>None\<close> means that the thread has nothing to run. \<open>timeout\<close>
  says whether the time limit of a timed wait has passed; untimed waits ignore it.
\<close>

type_synonym ('p, 's, 'cv) thread_code = "bool \<Rightarrow> 'p \<Rightarrow> 's \<Rightarrow> ('p \<times> bool \<times> 's \<times> 'cv list) option"

definition notified :: "'cv list \<Rightarrow> 'cv option \<Rightarrow> bool" where
  "notified cvs w \<longleftrightarrow> (\<exists>cv \<in> set cvs. w = Some cv)"

definition wake_up :: "('p \<Rightarrow> 'cv option) \<Rightarrow> 'cv list \<Rightarrow> (nat \<Rightarrow> 'p) \<Rightarrow> (nat \<Rightarrow> bool) \<Rightarrow> nat \<Rightarrow> bool" where
  "wake_up waits_on cvs pcs asleep = (\<lambda>j. asleep j \<and> \<not> notified cvs (waits_on (pcs j)))"

text \<open>
  Runs. A sleeping thread may act without notification: spurious wake-ups and timeouts. The trace records the program points
  before and after each critical section. \<open>call\<close> says which operations a thread may call next.
\<close>

inductive mon_run ::
  "('p, 's, 'cv) thread_code \<Rightarrow> ('p \<Rightarrow> 'cv option) \<Rightarrow> ('p \<Rightarrow> 'p \<Rightarrow> bool) \<Rightarrow> ('p, 's) monitor_state \<Rightarrow>
    ('p \<times> 'p) list \<Rightarrow> ('p, 's) monitor_state \<Rightarrow> bool"
  for act :: "('p, 's, 'cv) thread_code" and waits_on :: "'p \<Rightarrow> 'cv option" and call :: "'p \<Rightarrow> 'p \<Rightarrow> bool"
    and m0 :: "('p, 's) monitor_state"
where
  start: "mon_run act waits_on call m0 [] m0"
| calls: "mon_run act waits_on call m0 tr m \<Longrightarrow> call (m_pcs m i) p \<Longrightarrow>
    mon_run act waits_on call m0 tr (m\<lparr>m_pcs := (m_pcs m)(i := p)\<rparr>)"
| acts: "mon_run act waits_on call m0 tr m \<Longrightarrow> act timeout (m_pcs m i) (m_shared m) = Some (p, sleeps, s, cvs) \<Longrightarrow>
    mon_run act waits_on call m0 (tr @ [(m_pcs m i, p)])
      \<lparr>m_pcs = (m_pcs m)(i := p),
       m_asleep = (wake_up waits_on cvs (m_pcs m) (m_asleep m))(i := sleeps),
       m_shared = s\<rparr>"

definition mon_init :: "'p \<Rightarrow> 's \<Rightarrow> ('p, 's) monitor_state" where
  "mon_init idle s = \<lparr>m_pcs = (\<lambda>_. idle), m_asleep = (\<lambda>_. False), m_shared = s\<rparr>"

lemma mon_init_simps [simp]: "m_pcs (mon_init idle s) = (\<lambda>_. idle)" "m_asleep (mon_init idle s) = (\<lambda>_. False)"
  "m_shared (mon_init idle s) = s"
  by (simp_all add: mon_init_def)

lemma mon_run_trans:
  assumes "mon_run act waits_on call m0 tr m" and "mon_run act waits_on call m tr' m'"
  shows "mon_run act waits_on call m0 (tr @ tr') m'"
  using assms(2,1) by (induction rule: mon_run.induct) (auto simp flip: append_assoc intro: mon_run.intros)

text \<open>A given schedule, executed.\<close>

datatype 'p move = Call nat 'p | Act nat bool

fun mon_exec ::
  "('p, 's, 'cv) thread_code \<Rightarrow> ('p \<Rightarrow> 'cv option) \<Rightarrow> ('p \<Rightarrow> 'p \<Rightarrow> bool) \<Rightarrow> 'p move list \<Rightarrow> ('p, 's) monitor_state \<Rightarrow>
    (('p \<times> 'p) list \<times> ('p, 's) monitor_state) option"
where
  "mon_exec act waits_on call [] m = Some ([], m)"
| "mon_exec act waits_on call (Call i p # ms) m =
     (if call (m_pcs m i) p then mon_exec act waits_on call ms (m\<lparr>m_pcs := (m_pcs m)(i := p)\<rparr>) else None)"
| "mon_exec act waits_on call (Act i timeout # ms) m =
     (case act timeout (m_pcs m i) (m_shared m) of
        None \<Rightarrow> None
      | Some (p, sleeps, s, cvs) \<Rightarrow>
          map_option (\<lambda>(tr, m'). ((m_pcs m i, p) # tr, m'))
            (mon_exec act waits_on call ms
              \<lparr>m_pcs = (m_pcs m)(i := p), m_asleep = (wake_up waits_on cvs (m_pcs m) (m_asleep m))(i := sleeps), m_shared = s\<rparr>))"

lemma mon_exec_run: "mon_exec act waits_on call ms m0 = Some (tr, m) \<Longrightarrow> mon_run act waits_on call m0 tr m"
proof (induction act waits_on call ms m0 arbitrary: tr rule: mon_exec.induct)
  case (2 act waits_on call i p ms m0)
  then show ?case
    using mon_run_trans [OF mon_run.calls [OF mon_run.start]] by (fastforce split: if_splits)
next
  case (3 act waits_on call i timeout ms m0)
  then show ?case
    using mon_run_trans [OF mon_run.acts [OF mon_run.start]] by (fastforce split: option.splits)
qed (auto intro: mon_run.start)

text \<open>An invariant of the shared state alone.\<close>

lemma mon_run_invariant:
  assumes "mon_run act waits_on call m0 tr m" and "I (m_shared m0)"
    and "\<And>timeout p s p' sleeps s' cvs. act timeout p s = Some (p', sleeps, s', cvs) \<Longrightarrow> I s \<Longrightarrow> I s'"
  shows "I (m_shared m)"
  using assms(1,2) by (induction rule: mon_run.induct) (auto dest: assms(3))

text \<open>An invariant of the trace and the shared state.\<close>

lemma mon_run_trace_invariant:
  assumes "mon_run act waits_on call m0 tr m" and "I [] (m_shared m0)"
    and "\<And>timeout p s p' sleeps s' cvs tr. act timeout p s = Some (p', sleeps, s', cvs) \<Longrightarrow> I tr s \<Longrightarrow> I (tr @ [(p, p')]) s'"
  shows "I tr (m_shared m)"
  using assms(1,2) by (induction rule: mon_run.induct) (auto dest: assms(3))

section \<open>Invariants of interfering threads\<close>

text \<open>
  \<open>I\<close> is an invariant of the shared state, \<open>V\<close> relates each thread to the shared state, \<open>R\<close> relates any two threads. A critical section keeps
  them for its own thread and for every other one.
\<close>

locale interference =
  fixes act :: "('p, 's, 'cv) thread_code" and call :: "'p \<Rightarrow> 'p \<Rightarrow> bool"
    and I :: "'s \<Rightarrow> bool" and V :: "'p \<Rightarrow> 's \<Rightarrow> bool" and R :: "'p \<Rightarrow> 'p \<Rightarrow> bool"
  assumes own: "act timeout p s = Some (p', sleeps, s', cvs) \<Longrightarrow> I s \<Longrightarrow> V p s \<Longrightarrow> I s' \<and> V p' s'"
    and others: "act timeout p s = Some (p', sleeps, s', cvs) \<Longrightarrow> I s \<Longrightarrow> V p s \<Longrightarrow> V q s \<Longrightarrow> R p q \<Longrightarrow> V q s' \<and> R p' q"
    and R_sym: "R p q \<Longrightarrow> R q p"
    and call_own: "call p p' \<Longrightarrow> V p s \<Longrightarrow> V p' s"
    and call_others: "call p p' \<Longrightarrow> R p q \<Longrightarrow> R p' q"
begin

definition in_step :: "('p, 's) monitor_state \<Rightarrow> bool" where
  "in_step m \<longleftrightarrow> I (m_shared m) \<and> (\<forall>i. V (m_pcs m i) (m_shared m)) \<and> (\<forall>i j. i \<noteq> j \<longrightarrow> R (m_pcs m i) (m_pcs m j))"

lemma in_step_run:
  assumes "mon_run act waits_on call m0 tr m" and "in_step m0"
  shows "in_step m"
  using assms
proof (induction rule: mon_run.induct)
  case (calls tr m i p)
  then show ?case using call_own [OF calls(2)] call_others [OF calls(2)] R_sym unfolding in_step_def by auto
next
  case (acts tr m timeout i p sleeps s cvs)
  let ?m = "\<lparr>m_pcs = (m_pcs m)(i := p), m_asleep = (wake_up waits_on cvs (m_pcs m) (m_asleep m))(i := sleeps), m_shared = s\<rparr>"
  have m: "in_step m" using acts by blast
  then have inv: "I (m_shared m)" "V (m_pcs m i) (m_shared m)" by (simp_all add: in_step_def)
  have "V (m_pcs m j) s \<and> R p (m_pcs m j)" if "j \<noteq> i" for j
    using others [OF acts(2) inv] m that by (simp add: in_step_def)
  then show ?case using own [OF acts(2) inv] m R_sym unfolding in_step_def by auto
qed

lemma in_step_init:
  "I s0 \<Longrightarrow> V idle s0 \<Longrightarrow> R idle idle \<Longrightarrow> mon_run act waits_on call (mon_init idle s0) tr m \<Longrightarrow> in_step m"
  by (erule in_step_run) (simp add: in_step_def)

text \<open>An invariant of the trace and the shared state on top.\<close>

lemma in_step_trace:
  assumes "mon_run act waits_on call m0 tr m" and "in_step m0" and "J [] (m_shared m0)"
    and "\<And>timeout p s p' sleeps s' cvs tr. act timeout p s = Some (p', sleeps, s', cvs) \<Longrightarrow> I s \<Longrightarrow> V p s \<Longrightarrow> J tr s \<Longrightarrow> J (tr @ [(p, p')]) s'"
  shows "J tr (m_shared m)"
  using assms(1-3)
proof (induction rule: mon_run.induct)
  case (acts tr m timeout i p sleeps s cvs)
  then have "in_step m" using in_step_run by blast
  then show ?case using assms(4) [OF acts(2)] acts by (simp add: in_step_def)
qed auto

end

section \<open>No lost wake-ups\<close>

text \<open>
  \<open>ready p s\<close> is the predicate of the \<^verbatim>\<open>wait\<close> at \<open>p\<close>; \<open>pending p cv\<close> means that a thread at \<open>p\<close> has released the mutex and
  goes on to notify \<open>cv\<close>. The promise may rely on an invariant \<open>ok\<close> of each thread and the shared state, established elsewhere.
\<close>

locale monitor =
  fixes act :: "('p, 's, 'cv) thread_code" and waits_on :: "'p \<Rightarrow> 'cv option" and call :: "'p \<Rightarrow> 'p \<Rightarrow> bool"
    and ready :: "'p \<Rightarrow> 's \<Rightarrow> bool" and pending :: "'p \<Rightarrow> 'cv \<Rightarrow> bool" and ok :: "'p \<Rightarrow> 's \<Rightarrow> bool"
  assumes sleeps_unready: "act timeout p s = Some (p', True, s', cvs) \<Longrightarrow> ok p s \<Longrightarrow> waits_on p' \<noteq> None \<and> \<not> ready p' s'"
    and enabling_notifies: "act timeout p s = Some (p', sleeps, s', cvs) \<Longrightarrow> ok p s \<Longrightarrow> waits_on q = Some cv \<Longrightarrow> ready q s' \<Longrightarrow>
      ready q s \<or> cv \<in> set cvs \<or> pending p' cv"
    and pending_notifies: "act timeout p s = Some (p', sleeps, s', cvs) \<Longrightarrow> pending p cv \<Longrightarrow> cv \<in> set cvs \<or> pending p' cv"
    and call_running: "call p p' \<Longrightarrow> waits_on p = None"
    and call_pending: "call p p' \<Longrightarrow> \<not> pending p cv"
begin

definition alert :: "('p, 's) monitor_state \<Rightarrow> bool" where
  "alert m \<longleftrightarrow> (\<forall>i. m_asleep m i \<longrightarrow> (\<exists>cv. waits_on (m_pcs m i) = Some cv \<and>
     (ready (m_pcs m i) (m_shared m) \<longrightarrow> (\<exists>j. pending (m_pcs m j) cv))))"

lemma alert_call:
  assumes "alert m" and "call (m_pcs m i) p"
  shows "alert (m\<lparr>m_pcs := (m_pcs m)(i := p)\<rparr>)"
proof -
  have i: "\<not> m_asleep m i" using assms call_running unfolding alert_def by fastforce
  have "\<exists>k. pending (((m_pcs m)(i := p)) k) cv" if "pending (m_pcs m j) cv" for j cv
    using that call_pending [OF assms(2)] by (intro exI [of _ j]) auto
  then show ?thesis using assms(1) i unfolding alert_def by auto metis
qed

lemma alert_act:
  assumes "alert m" and a: "act timeout (m_pcs m i) (m_shared m) = Some (p, sleeps, s, cvs)"
    and inv: "ok (m_pcs m i) (m_shared m)"
  shows "alert \<lparr>m_pcs = (m_pcs m)(i := p), m_asleep = (wake_up waits_on cvs (m_pcs m) (m_asleep m))(i := sleeps), m_shared = s\<rparr>"
  (is "alert ?m")
  unfolding alert_def
proof (intro allI impI)
  fix k assume k: "m_asleep ?m k"
  show "\<exists>cv. waits_on (m_pcs ?m k) = Some cv \<and> (ready (m_pcs ?m k) (m_shared ?m) \<longrightarrow> (\<exists>j. pending (m_pcs ?m j) cv))"
  proof (cases "k = i")
    case True
    then show ?thesis using k sleeps_unready [OF _ inv] a by fastforce
  next
    case False
    then have slept: "m_asleep m k" and quiet: "\<not> notified cvs (waits_on (m_pcs m k))"
      using k by (auto simp: wake_up_def)
    obtain cv where cv: "waits_on (m_pcs m k) = Some cv"
      and old: "ready (m_pcs m k) (m_shared m) \<Longrightarrow> \<exists>j. pending (m_pcs m j) cv"
      using assms(1) slept unfolding alert_def by metis
    have unnotified: "cv \<notin> set cvs" using quiet cv by (auto simp: notified_def)
    have "\<exists>j. pending (m_pcs ?m j) cv" if r: "ready (m_pcs m k) s"
    proof (cases "pending p cv")
      case True
      then show ?thesis by (intro exI [of _ i]) simp
    next
      case False
      then have "ready (m_pcs m k) (m_shared m)" using enabling_notifies [OF a inv cv r] unnotified by blast
      then obtain j where j: "pending (m_pcs m j) cv" using old by blast
      then have "j \<noteq> i" using pending_notifies [OF a] unnotified False by blast
      then show ?thesis using j by (intro exI [of _ j]) simp
    qed
    then show ?thesis using cv False by simp
  qed
qed

lemma no_lost_wakeup:
  assumes "mon_run act waits_on call m0 tr m" and "\<And>i. \<not> m_asleep m0 i"
    and "\<And>tr m i. mon_run act waits_on call m0 tr m \<Longrightarrow> ok (m_pcs m i) (m_shared m)"
  shows "alert m"
  using assms(1,2)
proof (induction rule: mon_run.induct)
  case start
  then show ?case by (simp add: alert_def)
next
  case (calls tr m i p)
  then show ?case using alert_call [OF _ calls(2)] by simp
next
  case (acts tr m timeout i p sleeps s cvs)
  then show ?case using alert_act [OF _ acts(2)] assms(3) [OF acts(1)] by simp
qed

text \<open>A thread that could go on sleeps only while another one is on its way to notify it.\<close>

lemma sleeping_unready:
  assumes "mon_run act waits_on call (mon_init idle s0) tr m" and "m_asleep m i"
    and "\<And>tr m i. mon_run act waits_on call (mon_init idle s0) tr m \<Longrightarrow> ok (m_pcs m i) (m_shared m)"
  shows "waits_on (m_pcs m i) \<noteq> None"
    and "ready (m_pcs m i) (m_shared m) \<longrightarrow> (\<exists>j cv. waits_on (m_pcs m i) = Some cv \<and> pending (m_pcs m j) cv)"
proof -
  have "alert m" using no_lost_wakeup [OF assms(1)] assms(3) by simp
  then show "waits_on (m_pcs m i) \<noteq> None"
    "ready (m_pcs m i) (m_shared m) \<longrightarrow> (\<exists>j cv. waits_on (m_pcs m i) = Some cv \<and> pending (m_pcs m j) cv)"
    using assms(2) unfolding alert_def by blast+
qed

end

section \<open>Counting threads\<close>

definition tally_of :: "('p \<Rightarrow> bool) \<Rightarrow> ('p, 's) monitor_state \<Rightarrow> nat" where
  "tally_of P m = card {i. P (m_pcs m i)}"

lemma card_update:
  assumes "finite {i. P (f i)}"
  shows "finite {j. P ((f(i := p)) j)}"
    and "int (card {j. P ((f(i := p)) j)}) = int (card {j. P (f j)}) + of_bool (P p) - of_bool (P (f i))"
proof -
  let ?A = "{j. P (f j)} - {i}"
  have u: "{j. P ((f(i := p)) j)} = (if P p then insert i ?A else ?A)" by auto
  show "finite {j. P ((f(i := p)) j)}" unfolding u using assms by simp
  define n where "n = card ?A"
  have "card {j. P (f j)} = (if P (f i) then Suc n else n)"
    unfolding n_def using assms card_Suc_Diff1 [of "{j. P (f j)}" i] by auto
  moreover have "card {j. P ((f(i := p)) j)} = (if P p then Suc n else n)"
    unfolding u n_def using assms by (simp add: card.insert_remove)
  ultimately show "int (card {j. P ((f(i := p)) j)}) = int (card {j. P (f j)}) + of_bool (P p) - of_bool (P (f i))"
    by simp
qed

text \<open>
  A counter \<open>cnt\<close> of the shared state that each critical section changes exactly as it changes whether its thread satisfies
  \<open>P\<close>.
\<close>

locale tally = interference +
  fixes cnt :: "'b \<Rightarrow> int" and P :: "'a \<Rightarrow> bool"
  assumes cnt_moves: "act timeout p s = Some (p', sleeps, s', cvs) \<Longrightarrow> I s \<Longrightarrow> V p s \<Longrightarrow> cnt s' = cnt s + of_bool (P p') - of_bool (P p)"
    and call_uncounted: "call p p' \<Longrightarrow> P p' = P p"
begin

lemma counted:
  assumes "mon_run act waits_on call m0 tr m" and "in_step m0" and "\<And>i. \<not> P (m_pcs m0 i)"
  shows "finite {i. P (m_pcs m i)} \<and> cnt (m_shared m) = cnt (m_shared m0) + int (tally_of P m)"
  using assms
proof (induction rule: mon_run.induct)
  case start
  then show ?case by (simp add: tally_of_def)
next
  case (calls tr m i p)
  then show ?case using call_uncounted [OF calls(2)] card_update [of P "m_pcs m" i p] by (simp add: tally_of_def)
next
  case (acts tr m timeout i p sleeps s cvs)
  have "in_step m" using acts in_step_run by blast
  then show ?case using acts cnt_moves [OF acts(2)] card_update [of P "m_pcs m" i p]
    by (simp add: tally_of_def in_step_def)
qed

lemma count_is_tally:
  assumes "mon_run act waits_on call (mon_init idle s0) tr m" and "I s0" and "V idle s0" and "R idle idle" and "\<not> P idle" and "cnt s0 = 0"
  shows "cnt (m_shared m) = int (tally_of P m)" and "finite {i. P (m_pcs m i)}"
  using counted [OF assms(1)] assms(2-6) by (simp_all add: in_step_def)

end

end
