(* ===== verification/Thr_Channel.thy ===== *)
theory Thr_Channel
  imports Thr_Monitor "HOL-Library.Sublist"
begin

text \<open>
  \<^verbatim>\<open>System/Threading/Channels\<close>: the FIFO channel behind \<^verbatim>\<open>CreateUnbounded\<close> and \<^verbatim>\<open>CreateBounded\<close>, with its full modes, the
  zero-capacity rendezvous channel, completion with and without an error, and the default \<^verbatim>\<open>ReadAsync\<close> and \<^verbatim>\<open>WriteAsync\<close>
  loops, under any interleaving of any number of threads. A task of the source that only waits for another task is one
  thread here. Element counts are \<open>int\<close>; the source narrows \<^verbatim>\<open>size()\<close> to 32 bits.
\<close>

section \<open>Model\<close>

subsection \<open>Options\<close>

datatype BoundedChannelFullMode = Wait | DropNewest | DropOldest | DropWrite

record BoundedChannelOptions =
  bco_capacity :: intcs
  bco_fullMode :: BoundedChannelFullMode

definition BoundedChannelOptions_ctor :: "intcs \<Rightarrow> BoundedChannelOptions res" where
  "BoundedChannelOptions_ctor capacity =
     (if capacity < 0 then Inl (ArgumentOutOfRangeException ''capacity'')
      else Inr \<lparr>bco_capacity = capacity, bco_fullMode = Wait\<rparr>)"

definition setCapacityProperty :: "intcs \<Rightarrow> BoundedChannelOptions \<Rightarrow> BoundedChannelOptions res" where
  "setCapacityProperty v o1 = (if v < 0 then Inl (ArgumentOutOfRangeException ''value'') else Inr (o1\<lparr>bco_capacity := v\<rparr>))"

text \<open>The argument is the underlying integer of the enumeration, which a cast can give any value.\<close>

definition setFullModeProperty :: "int \<Rightarrow> BoundedChannelOptions \<Rightarrow> BoundedChannelOptions res" where
  "setFullModeProperty v o1 =
     (if v = 0 then Inr (o1\<lparr>bco_fullMode := Wait\<rparr>)
      else if v = 1 then Inr (o1\<lparr>bco_fullMode := DropNewest\<rparr>)
      else if v = 2 then Inr (o1\<lparr>bco_fullMode := DropOldest\<rparr>)
      else if v = 3 then Inr (o1\<lparr>bco_fullMode := DropWrite\<rparr>)
      else Inl (ArgumentOutOfRangeException ''value''))"

subsection \<open>The channel state\<close>

text \<open>An \<^verbatim>\<open>exception_ptr\<close>: some exception of a producer, or a \<^verbatim>\<open>ChannelClosedException\<close> with its inner exception.\<close>

datatype 'e chan_exn = Producer 'e | ChannelClosedException "'e chan_exn option"

record ('a, 'e) ChannelState =
  ch_queue :: "'a list"
  ch_closed :: bool
  ch_closeError :: "'e chan_exn option"
  ch_capacity :: intcs
  ch_fullMode :: BoundedChannelFullMode
  ch_waitingReaders :: intcs

definition CreateUnbounded :: "('a, 'e) ChannelState" where
  "CreateUnbounded = \<lparr>ch_queue = [], ch_closed = False, ch_closeError = None, ch_capacity = - 1,
     ch_fullMode = Wait, ch_waitingReaders = 0\<rparr>"

definition CreateBounded :: "BoundedChannelOptions \<Rightarrow> ('a, 'e) ChannelState" where
  "CreateBounded options = CreateUnbounded\<lparr>ch_capacity := bco_capacity options, ch_fullMode := bco_fullMode options\<rparr>"

definition isRendezvous :: "('a, 'e) ChannelState \<Rightarrow> bool" where
  "isRendezvous s \<longleftrightarrow> ch_capacity s = 0"

definition hasWaitingPeer :: "('a, 'e) ChannelState \<Rightarrow> bool" where
  "hasWaitingPeer s \<longleftrightarrow> ch_waitingReaders s > int (length (ch_queue s))"

definition isFull :: "('a, 'e) ChannelState \<Rightarrow> bool" where
  "isFull s \<longleftrightarrow> ch_capacity s > 0 \<and> int (length (ch_queue s)) \<ge> ch_capacity s"

datatype channel_cv = notEmpty | notFull

text \<open>The operations under the mutex: result, new state, notified condition variables.\<close>

definition Channel_TryRead :: "('a, 'e) ChannelState \<Rightarrow> 'a option \<times> ('a, 'e) ChannelState \<times> channel_cv list" where
  "Channel_TryRead s =
     (case ch_queue s of
        [] \<Rightarrow> (None, s, [])
      | item # rest \<Rightarrow> (Some item, s\<lparr>ch_queue := rest\<rparr>, [notFull, notEmpty]))"

definition Channel_TryWrite :: "'a \<Rightarrow> ('a, 'e) ChannelState \<Rightarrow> bool \<times> ('a, 'e) ChannelState \<times> channel_cv list" where
  "Channel_TryWrite item s =
     (if ch_closed s then (False, s, [])
      else if isRendezvous s then
        if hasWaitingPeer s then (True, s\<lparr>ch_queue := ch_queue s @ [item]\<rparr>, [notEmpty])
        else (ch_fullMode s \<noteq> Wait, s, [])
      else if isFull s then
        case ch_fullMode s of
          Wait \<Rightarrow> (False, s, [])
        | DropWrite \<Rightarrow> (True, s, [])
        | DropNewest \<Rightarrow> (True, s\<lparr>ch_queue := butlast (ch_queue s) @ [item]\<rparr>, [notEmpty])
        | DropOldest \<Rightarrow> (True, s\<lparr>ch_queue := tl (ch_queue s) @ [item]\<rparr>, [notEmpty])
      else (True, s\<lparr>ch_queue := ch_queue s @ [item]\<rparr>, [notEmpty]))"

definition Channel_TryComplete ::
  "'e chan_exn option \<Rightarrow> ('a, 'e) ChannelState \<Rightarrow> bool \<times> ('a, 'e) ChannelState \<times> channel_cv list" where
  "Channel_TryComplete error s =
     (if ch_closed s then (False, s, []) else (True, s\<lparr>ch_closed := True, ch_closeError := error\<rparr>, [notEmpty, notFull]))"

text \<open>The wait predicates, and what follows each wait.\<close>

definition read_ready :: "('a, 'e) ChannelState \<Rightarrow> bool" where
  "read_ready s \<longleftrightarrow> ch_queue s \<noteq> [] \<or> ch_closed s"

definition write_ready :: "('a, 'e) ChannelState \<Rightarrow> bool" where
  "write_ready s \<longleftrightarrow> ch_closed s \<or> ch_fullMode s \<noteq> Wait \<or> (if isRendezvous s then hasWaitingPeer s else \<not> isFull s)"

definition completion_ready :: "('a, 'e) ChannelState \<Rightarrow> bool" where
  "completion_ready s \<longleftrightarrow> ch_closed s \<and> ch_queue s = []"

definition closed_result :: "('a, 'e) ChannelState \<Rightarrow> 'e chan_exn + bool" where
  "closed_result s = (case ch_closeError s of Some e \<Rightarrow> Inl e | None \<Rightarrow> Inr False)"

definition read_result :: "('a, 'e) ChannelState \<Rightarrow> 'e chan_exn + bool" where
  "read_result s = (if ch_queue s \<noteq> [] then Inr True else closed_result s)"

definition write_result :: "('a, 'e) ChannelState \<Rightarrow> 'e chan_exn + bool" where
  "write_result s = (if \<not> ch_closed s then Inr True else closed_result s)"

text \<open>The registration of a parked reader, on a rendezvous channel only.\<close>

definition register_reader :: "int \<Rightarrow> ('a, 'e) ChannelState \<Rightarrow> ('a, 'e) ChannelState" where
  "register_reader d s = (if isRendezvous s then s\<lparr>ch_waitingReaders := ch_waitingReaders s + d\<rparr> else s)"

subsection \<open>Threads\<close>

datatype ('a, 'e) outcome =
  Got "'a option" | Peeked "'a option" | Flag bool | Count int | Item 'a | Completed | Threw "'e chan_exn"

text \<open>
  Program points: the entry of each operation, and the three waits. The flag of \<open>WaitToRead\<close> says that the caller is
  \<^verbatim>\<open>ReadAsync\<close>, the item of \<open>WaitToWrite\<close> is the one of the calling \<^verbatim>\<open>WriteAsync\<close>.
\<close>

datatype ('a, 'e) chan_pc =
    Idle
  | AtTryRead | AtTryPeek | AtCount | AtTryWrite 'a | AtTryComplete "'e chan_exn option" | AtComplete "'e chan_exn option"
  | AtWaitToRead bool | InWaitToRead bool
  | AtWaitToWrite "'a option" | InWaitToWrite "'a option"
  | AtCompletion | InCompletion
  | AtReadAsync | AtWriteAsync 'a
  | Finished "('a, 'e) outcome"

definition wrap_closed :: "'e chan_exn \<Rightarrow> 'e chan_exn" where
  "wrap_closed e = (case e of ChannelClosedException inner \<Rightarrow> e | Producer p \<Rightarrow> ChannelClosedException (Some e))"

definition task_result :: "'e chan_exn + bool \<Rightarrow> ('a, 'e) chan_pc" where
  "task_result r = (case r of Inl e \<Rightarrow> Finished (Threw e) | Inr b \<Rightarrow> Finished (Flag b))"

text \<open>The body of the two loops after the wait; \<open>again\<close> is the head of the loop.\<close>

definition loop_result :: "('a, 'e) chan_pc \<Rightarrow> 'e chan_exn + bool \<Rightarrow> ('a, 'e) chan_pc" where
  "loop_result again r =
     (case r of
        Inl e \<Rightarrow> Finished (Threw (wrap_closed e))
      | Inr b \<Rightarrow> if \<not> b then Finished (Threw (ChannelClosedException None)) else again)"

definition after_read :: "bool \<Rightarrow> 'e chan_exn + bool \<Rightarrow> ('a, 'e) chan_pc" where
  "after_read async r = (if async then loop_result AtReadAsync r else task_result r)"

definition after_write :: "'a option \<Rightarrow> 'e chan_exn + bool \<Rightarrow> ('a, 'e) chan_pc" where
  "after_write w r = (case w of Some item \<Rightarrow> loop_result (AtWriteAsync item) r | None \<Rightarrow> task_result r)"

definition wait_to_read :: "bool \<Rightarrow> ('a, 'e) ChannelState \<Rightarrow> ('a, 'e) chan_pc \<times> bool \<times> ('a, 'e) ChannelState" where
  "wait_to_read async s =
     (if read_ready s then (after_read async (read_result s), False, register_reader (- 1) s)
      else (InWaitToRead async, True, s))"

definition wait_to_write :: "'a option \<Rightarrow> ('a, 'e) ChannelState \<Rightarrow> ('a, 'e) chan_pc \<times> bool \<times> ('a, 'e) ChannelState" where
  "wait_to_write w s =
     (if write_ready s then (after_write w (write_result s), False, s) else (InWaitToWrite w, True, s))"

definition await_completion :: "('a, 'e) ChannelState \<Rightarrow> ('a, 'e) chan_pc \<times> bool \<times> ('a, 'e) ChannelState" where
  "await_completion s =
     (if completion_ready s
      then (case ch_closeError s of Some e \<Rightarrow> Finished (Threw e) | None \<Rightarrow> Finished Completed, False, s)
      else (InCompletion, True, s))"

definition notifying :: "'cv list \<Rightarrow> 'p \<times> bool \<times> 's \<Rightarrow> ('p \<times> bool \<times> 's \<times> 'cv list) option" where
  "notifying cvs r = (case r of (p, sleeps, s) \<Rightarrow> Some (p, sleeps, s, cvs))"

fun channel_act :: "(('a, 'e) chan_pc, ('a, 'e) ChannelState, channel_cv) thread_code" where
  "channel_act t Idle s = None"
| "channel_act t (Finished r) s = None"
| "channel_act t AtTryRead s = (case Channel_TryRead s of (r, s', cvs) \<Rightarrow> Some (Finished (Got r), False, s', cvs))"
| "channel_act t AtTryPeek s = Some (Finished (Peeked None), False, s, [])"
| "channel_act t AtCount s = Some (Finished (Count (int (length (ch_queue s)))), False, s, [])"
| "channel_act t (AtTryWrite item) s =
     (case Channel_TryWrite item s of (ok, s', cvs) \<Rightarrow> Some (Finished (Flag ok), False, s', cvs))"
| "channel_act t (AtTryComplete error) s =
     (case Channel_TryComplete error s of (ok, s', cvs) \<Rightarrow> Some (Finished (Flag ok), False, s', cvs))"
| "channel_act t (AtComplete error) s =
     (case Channel_TryComplete error s of (ok, s', cvs) \<Rightarrow>
        Some (Finished (if ok then Completed else Threw (ChannelClosedException None)), False, s', cvs))"
| "channel_act t (AtWaitToRead async) s =
     notifying (if isRendezvous s then [notFull] else []) (wait_to_read async (register_reader 1 s))"
| "channel_act t (InWaitToRead async) s = notifying [] (wait_to_read async s)"
| "channel_act t (AtWaitToWrite w) s = notifying [] (wait_to_write w s)"
| "channel_act t (InWaitToWrite w) s = notifying [] (wait_to_write w s)"
| "channel_act t AtCompletion s = notifying [] (await_completion s)"
| "channel_act t InCompletion s = notifying [] (await_completion s)"
| "channel_act t AtReadAsync s =
     (case Channel_TryRead s of (r, s', cvs) \<Rightarrow>
        Some (case r of Some item \<Rightarrow> Finished (Item item) | None \<Rightarrow> AtWaitToRead True, False, s', cvs))"
| "channel_act t (AtWriteAsync item) s =
     (case Channel_TryWrite item s of (ok, s', cvs) \<Rightarrow>
        Some (if ok then Finished Completed else AtWaitToWrite (Some item), False, s', cvs))"

fun channel_waits :: "('a, 'e) chan_pc \<Rightarrow> channel_cv option" where
  "channel_waits (InWaitToRead async) = Some notEmpty"
| "channel_waits (InWaitToWrite w) = Some notFull"
| "channel_waits InCompletion = Some notEmpty"
| "channel_waits _ = None"

text \<open>A thread with no call in progress may call any public operation.\<close>

fun channel_entry :: "('a, 'e) chan_pc \<Rightarrow> bool" where
  "channel_entry (AtWaitToRead async) = (\<not> async)"
| "channel_entry (AtWaitToWrite w) = (w = None)"
| "channel_entry (Finished r) = False"
| "channel_entry Idle = False"
| "channel_entry (InWaitToRead async) = False"
| "channel_entry (InWaitToWrite w) = False"
| "channel_entry InCompletion = False"
| "channel_entry _ = True"

definition channel_call :: "('a, 'e) chan_pc \<Rightarrow> ('a, 'e) chan_pc \<Rightarrow> bool" where
  "channel_call p q \<longleftrightarrow> (case p of Idle \<Rightarrow> True | Finished r \<Rightarrow> True | _ \<Rightarrow> False) \<and> channel_entry q"

abbreviation channel_run where
  "channel_run \<equiv> mon_run channel_act channel_waits channel_call"

section \<open>No lost wake-ups\<close>

fun channel_ready :: "('a, 'e) chan_pc \<Rightarrow> ('a, 'e) ChannelState \<Rightarrow> bool" where
  "channel_ready (InWaitToRead async) s = read_ready s"
| "channel_ready (InWaitToWrite w) s = write_ready s"
| "channel_ready InCompletion s = completion_ready s"
| "channel_ready _ s = True"

lemmas channel_op_defs = Channel_TryRead_def Channel_TryWrite_def Channel_TryComplete_def wait_to_read_def wait_to_write_def
  await_completion_def notifying_def register_reader_def

lemmas channel_state_defs = read_ready_def write_ready_def completion_ready_def isRendezvous_def isFull_def hasWaitingPeer_def

lemma channel_sleeps:
  "channel_act t p s = Some (p', True, s', cvs) \<Longrightarrow> channel_waits p' \<noteq> None \<and> \<not> channel_ready p' s'"
  by (cases p) (auto simp: channel_op_defs split: if_splits prod.splits)

text \<open>What each critical section does to the shared state.\<close>

inductive channel_effect :: "('a, 'e) ChannelState \<Rightarrow> ('a, 'e) ChannelState \<Rightarrow> channel_cv list \<Rightarrow> bool"
  for s :: "('a, 'e) ChannelState"
where
  unchanged: "channel_effect s s cvs"
| taken: "ch_queue s = item # rest \<Longrightarrow> channel_effect s (s\<lparr>ch_queue := rest\<rparr>) [notFull, notEmpty]"
| written: "Channel_TryWrite item s = (ok, s', cvs) \<Longrightarrow> channel_effect s s' cvs"
| completed: "channel_effect s (s\<lparr>ch_closed := True, ch_closeError := error\<rparr>) [notEmpty, notFull]"
| parked: "ch_capacity s = 0 \<Longrightarrow> channel_effect s (s\<lparr>ch_waitingReaders := ch_waitingReaders s + 1\<rparr>) [notFull]"
| left: "channel_effect s (s\<lparr>ch_waitingReaders := ch_waitingReaders s - 1\<rparr>) cvs"

lemma channel_act_effect: "channel_act t p s = Some (p', sleeps, s', cvs) \<Longrightarrow> channel_effect s s' cvs"
  by (cases p) (auto simp: channel_op_defs isRendezvous_def read_ready_def intro: channel_effect.intros
      split: if_splits prod.splits list.splits)

lemma write_enables:
  assumes "Channel_TryWrite item s = (ok, s', cvs)" and "channel_waits q = Some cv" and "channel_ready q s'"
  shows "channel_ready q s \<or> cv \<in> set cvs"
  using assms
  by (cases q) (auto simp: Channel_TryWrite_def channel_state_defs split: if_splits BoundedChannelFullMode.splits)

lemma channel_enabling:
  assumes "channel_act t p s = Some (p', sleeps, s', cvs)" and "channel_waits q = Some cv" and "channel_ready q s'"
  shows "channel_ready q s \<or> cv \<in> set cvs"
  using channel_act_effect [OF assms(1)] assms(2,3)
proof (induction rule: channel_effect.cases)
  case (written item ok s'' cvs')
  then show ?thesis using write_enables by metis
next
  case (left cvs')
  then show ?thesis by (cases q) (auto simp: channel_state_defs split: if_splits)
qed (cases q; auto simp: channel_state_defs)+

interpretation chan: monitor channel_act channel_waits channel_call channel_ready "\<lambda>_ _. False" "\<lambda>_ _. True"
proof
  show "channel_call p p' \<Longrightarrow> channel_waits p = None" for p p' :: "('a, 'b) chan_pc"
    by (cases p) (auto simp: channel_call_def)
qed (use channel_sleeps channel_enabling in blast)+

text \<open>The registered readers of a rendezvous channel are the threads parked in \<^verbatim>\<open>WaitToReadAsync\<close>.\<close>

definition parked_reader :: "('a, 'e) chan_pc \<Rightarrow> bool" where
  "parked_reader p \<longleftrightarrow> (\<exists>async. p = InWaitToRead async)"

lemma parked_reader_simps [simp]: "\<not> parked_reader (Finished r)" "\<not> parked_reader AtReadAsync" "\<not> parked_reader (AtWriteAsync x)"
  "parked_reader (InWaitToRead a)" "\<not> parked_reader (InWaitToWrite w)" "\<not> parked_reader InCompletion" "\<not> parked_reader (AtWaitToRead a)"
  "\<not> parked_reader (AtWaitToWrite w)" "\<not> parked_reader Idle" "\<not> parked_reader AtTryRead" "\<not> parked_reader AtTryPeek" "\<not> parked_reader AtCount"
  "\<not> parked_reader (AtTryWrite x)" "\<not> parked_reader (AtTryComplete err)" "\<not> parked_reader (AtComplete err)" "\<not> parked_reader AtCompletion"
  by (auto simp: parked_reader_def)

lemma after_wait_unparked [simp]: "\<not> parked_reader (after_read async r)" "\<not> parked_reader (after_write w r)"
  by (auto simp: after_read_def after_write_def loop_result_def task_result_def split: sum.splits option.splits)

lemma channel_waiting_moves:
  assumes "channel_act t p s = Some (p', sleeps, s', cvs)" and "isRendezvous s"
  shows "ch_waitingReaders s' = ch_waitingReaders s + of_bool (parked_reader p') - of_bool (parked_reader p)"
  using assms by (cases p) (auto simp: channel_op_defs isRendezvous_def
      split: if_splits prod.splits list.splits option.splits BoundedChannelFullMode.splits)

lemma channel_capacity_kept:
  "channel_act t p s = Some (p', sleeps, s', cvs) \<Longrightarrow> ch_capacity s' = ch_capacity s \<and> ch_fullMode s' = ch_fullMode s"
  by (drule channel_act_effect, erule channel_effect.cases)
    (auto simp: Channel_TryWrite_def split: if_splits BoundedChannelFullMode.splits)

interpretation parked: tally channel_act channel_call isRendezvous "\<lambda>_ _. True" "\<lambda>_ _. True" ch_waitingReaders parked_reader
proof
  show "channel_call p p' \<Longrightarrow> parked_reader p' = parked_reader p" for p p' :: "('a, 'b) chan_pc"
    by (cases p; cases p') (auto simp: channel_call_def)
qed (auto simp: channel_waiting_moves isRendezvous_def dest: channel_capacity_kept)


section \<open>What is read and written\<close>

text \<open>The items handed out, and the items of the writes that reported success, over a trace.\<close>

definition read_event :: "('a, 'e) chan_pc \<times> ('a, 'e) chan_pc \<Rightarrow> 'a list" where
  "read_event e = (case snd e of Finished (Got (Some item)) \<Rightarrow> [item] | Finished (Item item) \<Rightarrow> [item] | _ \<Rightarrow> [])"

definition write_event :: "('a, 'e) chan_pc \<times> ('a, 'e) chan_pc \<Rightarrow> 'a list" where
  "write_event e =
     (case fst e of
        AtTryWrite item \<Rightarrow> if snd e = Finished (Flag True) then [item] else []
      | AtWriteAsync item \<Rightarrow> if snd e = Finished Completed then [item] else []
      | _ \<Rightarrow> [])"

definition reads_of :: "(('a, 'e) chan_pc \<times> ('a, 'e) chan_pc) list \<Rightarrow> 'a list" where
  "reads_of tr = concat (map read_event tr)"

definition writes_of :: "(('a, 'e) chan_pc \<times> ('a, 'e) chan_pc) list \<Rightarrow> 'a list" where
  "writes_of tr = concat (map write_event tr)"

lemma reads_of_simps [simp]: "reads_of [] = []" "reads_of (e # tr) = read_event e @ reads_of tr" "reads_of (tr @ tr') = reads_of tr @ reads_of tr'"
  by (simp_all add: reads_of_def)

lemma writes_of_simps [simp]: "writes_of [] = []" "writes_of (e # tr) = write_event e @ writes_of tr" "writes_of (tr @ tr') = writes_of tr @ writes_of tr'"
  by (simp_all add: writes_of_def)

lemma read_event_simps [simp]: "read_event (p, Finished (Got None)) = []" "read_event (p, Finished (Got (Some x))) = [x]"
  "read_event (p, Finished (Item x)) = [x]" "read_event (p, Finished (Flag b)) = []" "read_event (p, Finished (Peeked y)) = []"
  "read_event (p, Finished (Count n)) = []" "read_event (p, Finished Completed) = []" "read_event (p, Finished (Threw e)) = []"
  "read_event (p, AtWaitToRead a) = []" "read_event (p, AtWaitToWrite w) = []" "read_event (p, InWaitToRead a) = []"
  "read_event (p, InWaitToWrite w) = []" "read_event (p, InCompletion) = []" "read_event (p, AtReadAsync) = []"
  "read_event (p, AtWriteAsync x) = []"
  by (simp_all add: read_event_def)

lemma write_event_simps [simp]: "write_event (AtTryWrite x, q) = (if q = Finished (Flag True) then [x] else [])"
  "write_event (AtWriteAsync x, q) = (if q = Finished Completed then [x] else [])" "write_event (AtTryRead, q) = []"
  "write_event (AtTryPeek, q) = []" "write_event (AtCount, q) = []" "write_event (AtTryComplete err, q) = []"
  "write_event (AtComplete err, q) = []" "write_event (AtWaitToRead a, q) = []" "write_event (InWaitToRead a, q) = []"
  "write_event (AtWaitToWrite w, q) = []" "write_event (InWaitToWrite w, q) = []" "write_event (AtCompletion, q) = []"
  "write_event (InCompletion, q) = []" "write_event (AtReadAsync, q) = []"
  by (simp_all add: write_event_def)

lemma waits_read_nothing [simp]:
  "read_event (p, after_read async r) = []" "read_event (p, after_write w r) = []"
  by (auto simp: after_read_def after_write_def loop_result_def task_result_def split: sum.splits option.splits)

text \<open>A critical section reads the head of the queue, or writes, or does neither.\<close>

lemma channel_act_items:
  assumes "channel_act t p s = Some (p', sleeps, s', cvs)"
  shows "(\<exists>item. reads_of [(p, p')] = [item] \<and> writes_of [(p, p')] = [] \<and> ch_queue s = item # ch_queue s') \<or>
    (\<exists>item cvs'. reads_of [(p, p')] = [] \<and> writes_of [(p, p')] = [item] \<and> Channel_TryWrite item s = (True, s', cvs')) \<or>
    (reads_of [(p, p')] = [] \<and> writes_of [(p, p')] = [] \<and> ch_queue s' = ch_queue s)"
  using assms by (cases p; cases "ch_fullMode s") (auto simp: channel_op_defs
      split: if_splits prod.splits list.splits option.splits BoundedChannelFullMode.splits)

text \<open>What an accepted write does to the queue: it drops nothing unless a bounded channel is full in a drop mode.\<close>

lemma TryWrite_queue:
  assumes "Channel_TryWrite item s = (True, s', cvs)"
  shows "subseq (ch_queue s') (ch_queue s @ [item])"
    and "ch_fullMode s = Wait \<or> ch_capacity s < 0 \<Longrightarrow> ch_queue s' = ch_queue s @ [item]"
    and "0 < ch_capacity s \<Longrightarrow> int (length (ch_queue s)) \<le> ch_capacity s \<Longrightarrow> int (length (ch_queue s')) \<le> ch_capacity s"
proof -
  have "subseq (butlast q) q" for q :: "'a list" by (cases q rule: rev_cases) (auto intro: prefix_imp_subseq)
  moreover have "subseq (tl q) q" for q :: "'a list" by (cases q) auto
  ultimately have drops: "subseq (butlast q) q" "subseq (tl q) q" for q :: "'a list" by blast+
  show "subseq (ch_queue s') (ch_queue s @ [item])"
    using assms drops by (auto simp: Channel_TryWrite_def split: if_splits BoundedChannelFullMode.splits)
  show "ch_fullMode s = Wait \<or> ch_capacity s < 0 \<Longrightarrow> ch_queue s' = ch_queue s @ [item]"
    using assms by (auto simp: Channel_TryWrite_def isRendezvous_def isFull_def split: if_splits)
  show "0 < ch_capacity s \<Longrightarrow> int (length (ch_queue s)) \<le> ch_capacity s \<Longrightarrow> int (length (ch_queue s')) \<le> ch_capacity s"
    using assms by (auto simp: Channel_TryWrite_def isRendezvous_def isFull_def split: if_splits BoundedChannelFullMode.splits)
qed

definition channel_log :: "(('a, 'e) chan_pc \<times> ('a, 'e) chan_pc) list \<Rightarrow> ('a, 'e) ChannelState \<Rightarrow> bool" where
  "channel_log tr s \<longleftrightarrow> subseq (reads_of tr @ ch_queue s) (writes_of tr) \<and>
     (ch_fullMode s = Wait \<or> ch_capacity s < 0 \<longrightarrow> reads_of tr @ ch_queue s = writes_of tr) \<and>
     (0 < ch_capacity s \<longrightarrow> int (length (ch_queue s)) \<le> ch_capacity s)"

lemma channel_log_act:
  assumes a: "channel_act t p s = Some (p', sleeps, s', cvs)" and "channel_log tr s"
  shows "channel_log (tr @ [(p, p')]) s'"
  using channel_act_items [OF a]
proof (elim disjE exE conjE)
  fix item cvs' assume w: "reads_of [(p, p')] = []" "writes_of [(p, p')] = [item]" "Channel_TryWrite item s = (True, s', cvs')"
  have "subseq (reads_of tr @ ch_queue s') (reads_of tr @ ch_queue s @ [item])"
    using TryWrite_queue(1) [OF w(3)] by (intro list_emb_append_mono) simp_all
  also have "subseq \<dots> (writes_of tr @ [item])"
    using assms(2) by (simp add: channel_log_def flip: append_assoc)
  finally show ?thesis using assms(2) TryWrite_queue [OF w(3)] channel_capacity_kept [OF a] w
    by (auto simp: channel_log_def)
qed (use assms(2) channel_capacity_kept [OF a] in \<open>auto simp: channel_log_def\<close>)

section \<open>Closing\<close>

text \<open>Once closed, a channel only hands out what it holds.\<close>

definition channel_drains ::
  "('a, 'e) ChannelState \<Rightarrow> (('a, 'e) chan_pc \<times> ('a, 'e) chan_pc) list \<Rightarrow> ('a, 'e) ChannelState \<Rightarrow> bool" where
  "channel_drains s0 tr s \<longleftrightarrow> ch_closed s \<and> ch_closeError s = ch_closeError s0 \<and> writes_of tr = [] \<and>
     reads_of tr @ ch_queue s = ch_queue s0"

lemma channel_closed_act:
  assumes "channel_act t p s = Some (p', sleeps, s', cvs)" and "ch_closed s"
  shows "ch_closed s' \<and> ch_closeError s' = ch_closeError s \<and> writes_of [(p, p')] = []"
  using assms by (cases p) (auto simp: channel_op_defs split: if_splits prod.splits list.splits option.splits)

lemma channel_drains_act:
  assumes a: "channel_act t p s = Some (p', sleeps, s', cvs)" and "channel_drains s0 tr s"
  shows "channel_drains s0 (tr @ [(p, p')]) s'"
  using channel_act_items [OF a] channel_closed_act [OF a] assms(2) by (auto simp: channel_drains_def)

text \<open>How the waits of a closed and drained channel end.\<close>

fun closed_outcome :: "'e chan_exn option \<Rightarrow> ('a, 'e) chan_pc \<Rightarrow> ('a, 'e) outcome" where
  "closed_outcome None (InWaitToRead False) = Flag False"
| "closed_outcome None (InWaitToRead True) = Threw (ChannelClosedException None)"
| "closed_outcome None (InWaitToWrite None) = Flag False"
| "closed_outcome None (InWaitToWrite (Some item)) = Threw (ChannelClosedException None)"
| "closed_outcome None InCompletion = Completed"
| "closed_outcome (Some e) (InWaitToRead True) = Threw (wrap_closed e)"
| "closed_outcome (Some e) (InWaitToWrite (Some item)) = Threw (wrap_closed e)"
| "closed_outcome (Some e) p = Threw e"

lemma channel_closed_wait:
  assumes "ch_closed s" and "ch_queue s = []" and "channel_waits p \<noteq> None"
  shows "\<exists>s'. channel_act t p s = Some (Finished (closed_outcome (ch_closeError s) p), False, s', [])"
proof (cases p)
  case (InWaitToRead async)
  then show ?thesis using assms
    by (cases async; cases "ch_closeError s") (simp_all add: channel_op_defs read_ready_def read_result_def closed_result_def
        after_read_def loop_result_def task_result_def)
next
  case (InWaitToWrite w)
  then show ?thesis using assms
    by (cases w; cases "ch_closeError s") (simp_all add: channel_op_defs write_ready_def write_result_def closed_result_def
        after_write_def loop_result_def task_result_def)
next
  case InCompletion
  then show ?thesis using assms
    by (cases "ch_closeError s") (simp_all add: channel_op_defs completion_ready_def)
qed (use assms in auto)

section \<open>Properties\<close>

text \<open>C1. No wake-up is lost on a channel: in every state that any threads can bring a new channel to, a thread that
  sleeps in a wait has a false wait predicate, so a reader never sleeps while an item is there, a writer never while there is
  room (or, with capacity zero, a reader waiting), a completion waiter never once the channel is closed and drained. A reader and a
  writer never sleep at the same time, so neither waits for the other. On a zero-capacity channel the count of
  waiting readers is the number of threads parked in \<^verbatim>\<open>WaitToReadAsync\<close>.\<close>

theorem channel_no_lost_wakeup:
  assumes "channel_run (mon_init Idle (CreateBounded options)) tr m"
  shows "(m_asleep m i \<longrightarrow> \<not> channel_ready (m_pcs m i) (m_shared m)) \<and>
    \<not> (m_asleep m i \<and> m_pcs m i = InWaitToRead async \<and> m_asleep m j \<and> m_pcs m j = InWaitToWrite w) \<and>
    (bco_capacity options = 0 \<longrightarrow> ch_waitingReaders (m_shared m) = int (tally_of parked_reader m))"
proof -
  have asleep: "\<not> channel_ready (m_pcs m k) (m_shared m)" if "m_asleep m k" for k
    using chan.sleeping_unready(2) [OF assms that] by blast
  have capacity: "ch_capacity (m_shared m) = bco_capacity options"
    using mon_run_invariant [OF assms, of "\<lambda>s. ch_capacity s = bco_capacity options"] channel_capacity_kept
    by (fastforce simp: CreateBounded_def)
  have parked: "ch_waitingReaders (m_shared m) = int (tally_of parked_reader m)" "finite {k. parked_reader (m_pcs m k)}"
    if "bco_capacity options = 0"
    using parked.count_is_tally [OF assms] that by (simp_all add: CreateBounded_def CreateUnbounded_def isRendezvous_def)
  have "\<not> m_asleep m j" if r: "m_asleep m i" "m_pcs m i = InWaitToRead async" and w: "m_pcs m j = InWaitToWrite w"
  proof
    assume "m_asleep m j"
    then have "\<not> read_ready (m_shared m)" "\<not> write_ready (m_shared m)"
      using asleep [of i] asleep [of j] r w by auto
    then have "ch_queue (m_shared m) = []" "ch_capacity (m_shared m) = 0" "ch_waitingReaders (m_shared m) \<le> 0"
      by (auto simp: channel_state_defs split: if_splits)
    moreover have "i \<in> {k. parked_reader (m_pcs m k)}" using r by simp
    ultimately show False using parked capacity card_gt_0_iff unfolding tally_of_def by fastforce
  qed
  then show ?thesis using asleep parked by blast
qed

text \<open>C2. A channel is a bounded first-in first-out buffer. The items read so far followed by the items in the queue are, in
  order, among the items whose write reported success; they are all of them when the channel is unbounded or in wait mode, so that
  nothing is lost, duplicated or reordered. A channel with a positive capacity never holds more items than that.\<close>

theorem channel_fifo:
  assumes "channel_run (mon_init Idle (CreateBounded options)) tr m"
  shows "subseq (reads_of tr @ ch_queue (m_shared m)) (writes_of tr) \<and>
    (bco_fullMode options = Wait \<longrightarrow> reads_of tr @ ch_queue (m_shared m) = writes_of tr) \<and>
    (0 < bco_capacity options \<longrightarrow> int (length (ch_queue (m_shared m))) \<le> bco_capacity options)"
proof -
  have "channel_log tr (m_shared m)"
    using assms by (rule mon_run_trace_invariant) (simp add: channel_log_def CreateBounded_def CreateUnbounded_def, rule channel_log_act)
  moreover have "ch_capacity (m_shared m) = bco_capacity options \<and> ch_fullMode (m_shared m) = bco_fullMode options"
    using mon_run_invariant [OF assms, of "\<lambda>s. ch_capacity s = bco_capacity options \<and> ch_fullMode s = bco_fullMode options"]
      channel_capacity_kept by (fastforce simp: CreateBounded_def)
  ultimately show ?thesis by (simp add: channel_log_def)
qed

text \<open>C5. Completion. From a state in which a channel was closed, whatever the threads do: it stays closed with the same error, no
  write succeeds, and exactly the items it held are read, in their order. Once they are gone no thread sleeps, and the next step of every
  thread in a wait ends its call: with the producer's own error for the waits and for completion, with a \<^verbatim>\<open>ChannelClosedException\<close> around
  that error for \<^verbatim>\<open>ReadAsync\<close> and \<^verbatim>\<open>WriteAsync\<close>, and without an error with false, or success for completion.\<close>

theorem channel_close:
  assumes "channel_run (mon_init Idle (CreateBounded options)) tr0 m0" and "ch_closed (m_shared m0)"
    and "channel_run m0 tr m"
  shows "ch_closed (m_shared m) \<and> ch_closeError (m_shared m) = ch_closeError (m_shared m0) \<and> writes_of tr = [] \<and>
    reads_of tr @ ch_queue (m_shared m) = ch_queue (m_shared m0) \<and>
    (ch_queue (m_shared m) = [] \<longrightarrow> \<not> m_asleep m i \<and> (channel_waits (m_pcs m i) \<noteq> None \<longrightarrow>
      (\<exists>s. channel_act timeout (m_pcs m i) (m_shared m) =
         Some (Finished (closed_outcome (ch_closeError (m_shared m0)) (m_pcs m i)), False, s, []))))"
proof -
  have d: "channel_drains (m_shared m0) tr (m_shared m)"
    using assms(3) by (rule mon_run_trace_invariant) (simp add: channel_drains_def assms(2), rule channel_drains_act)
  have "channel_run (mon_init Idle (CreateBounded options)) (tr0 @ tr) m"
    using assms(1,3) by (rule mon_run_trans)
  note asleep = chan.sleeping_unready [OF this _ TrueI]
  have "\<not> m_asleep m i" if "ch_queue (m_shared m) = []"
    using asleep [of i] d that by (cases "m_pcs m i") (auto simp: channel_state_defs channel_drains_def)
  then show ?thesis using d channel_closed_wait [of "m_shared m" "m_pcs m i" timeout] by (auto simp: channel_drains_def)
qed


abbreviation channel_exec where
  "channel_exec \<equiv> mon_exec channel_act channel_waits channel_call"

lemma channel_no_lost_wakeup_witness:
  "case channel_exec [Call 0 (AtWaitToRead False), Act 0 False, Call 1 (AtTryWrite (7 :: nat)), Call 2 AtCompletion, Act 2 False]
      (mon_init Idle (CreateBounded \<lparr>bco_capacity = 0, bco_fullMode = Wait\<rparr>) :: ((nat, unit) chan_pc, (nat, unit) ChannelState) monitor_state) of
    Some (tr, m) \<Rightarrow> m_asleep m 0 \<and> m_asleep m 2 \<and> \<not> channel_ready (m_pcs m 0) (m_shared m) \<and>
      ch_waitingReaders (m_shared m) = int (tally_of parked_reader m)
  | None \<Rightarrow> False"
  (is "case ?x of Some (tr, m) \<Rightarrow> ?P m | None \<Rightarrow> False")
proof -
  obtain tr m where x: "?x = Some (tr, m)" and a: "m_asleep m 0" "m_asleep m 2"
    by (simp add: CreateBounded_def CreateUnbounded_def channel_call_def notifying_def wait_to_read_def register_reader_def
        read_ready_def isRendezvous_def await_completion_def completion_ready_def wake_up_def notified_def)
  show ?thesis using x a channel_no_lost_wakeup [OF mon_exec_run [OF x], of 0] by simp
qed


lemmas channel_eval = CreateBounded_def CreateUnbounded_def channel_call_def notifying_def wait_to_read_def register_reader_def
  read_ready_def isRendezvous_def isFull_def wake_up_def notified_def Channel_TryRead_def Channel_TryWrite_def Channel_TryComplete_def

text \<open>Three writes to a channel of capacity two that drops its oldest item, and one read.\<close>

lemma channel_fifo_witness:
  "case channel_exec [Call 0 (AtTryWrite (7 :: nat)), Act 0 False, Call 0 (AtTryWrite 8), Act 0 False, Call 0 (AtWriteAsync 9), Act 0 False,
        Call 1 AtReadAsync, Act 1 False]
      (mon_init Idle (CreateBounded \<lparr>bco_capacity = 2, bco_fullMode = DropOldest\<rparr>) :: ((nat, unit) chan_pc, (nat, unit) ChannelState) monitor_state) of
    Some (tr, m) \<Rightarrow> writes_of tr = [7, 8, 9] \<and> reads_of tr = [8] \<and> ch_queue (m_shared m) = [9] \<and>
      subseq (reads_of tr @ ch_queue (m_shared m)) (writes_of tr) \<and> int (length (ch_queue (m_shared m))) \<le> 2
  | None \<Rightarrow> False"
  (is "case ?x of Some (tr, m) \<Rightarrow> ?P tr m | None \<Rightarrow> False")
proof -
  obtain tr m where x: "?x = Some (tr, m)" and "writes_of tr = [7, 8, 9]" "reads_of tr = [8]" "ch_queue (m_shared m) = [9]"
    by (simp add: channel_eval)
  then show ?thesis using channel_fifo [OF mon_exec_run [OF x]] by simp
qed

text \<open>A reader parked in \<^verbatim>\<open>ReadAsync\<close>; an item is written, the channel is completed with an error, and another reader takes the item.\<close>

lemma channel_close_witness:
  "case channel_exec [Call 1 AtReadAsync, Act 1 False, Act 1 False, Call 0 (AtTryWrite (7 :: nat)), Act 0 False,
        Call 0 (AtTryComplete (Some (Producer ()))), Act 0 False]
      (mon_init Idle (CreateBounded \<lparr>bco_capacity = 2, bco_fullMode = Wait\<rparr>)) of
    Some (tr0, m0) \<Rightarrow>
      (case channel_exec [Call 2 AtTryRead, Act 2 False] m0 of
         Some (tr, m) \<Rightarrow> ch_closed (m_shared m0) \<and> m_pcs m 1 = InWaitToRead True \<and> reads_of tr = [7] \<and> \<not> m_asleep m 1 \<and>
           (\<exists>s. channel_act False (m_pcs m 1) (m_shared m) =
             Some (Finished (Threw (ChannelClosedException (Some (Producer ())))), False, s, []))
       | None \<Rightarrow> False)
  | None \<Rightarrow> False"
  (is "case ?x of Some (tr0, m0) \<Rightarrow> _ m0 | None \<Rightarrow> False")
proof -
  obtain tr0 m0 tr m where x: "?x = Some (tr0, m0)" and y: "channel_exec [Call 2 AtTryRead, Act 2 False] m0 = Some (tr, m)"
    and c: "ch_closed (m_shared m0)" "ch_closeError (m_shared m0) = Some (Producer ())" "m_pcs m 1 = InWaitToRead True"
      "reads_of tr = [7]" "ch_queue (m_shared m) = []"
    by (simp add: channel_eval)
  then show ?thesis
    using channel_close [OF mon_exec_run [OF x] c(1) mon_exec_run [OF y], of 1 False] by (simp add: wrap_closed_def)
qed

end
