(* ===== verification/Thr_Prioritized.thy ===== *)
theory Thr_Prioritized
  imports Thr_Channel "HOL-Library.Multiset"
begin

text \<open>
  The prioritized channel behind \<^verbatim>\<open>CreateUnboundedPrioritized\<close>. It has its own state and its own reader and writer, under the same
  program points as the FIFO channel. \<open>lt\<close> is the comparer of the options, or \<^verbatim>\<open>operator<\<close>.
\<close>

section \<open>Model\<close>

text \<open>
  \<^verbatim>\<open>std::multiset\<close> in iteration order. An insertion goes behind the elements that are not greater; \<^verbatim>\<open>begin()\<close> is the head.
\<close>

record ('a, 'e) PrioritizedChannelState =
  pr_items :: "'a list"
  pr_closed :: bool
  pr_closeError :: "'e chan_exn option"

definition CreateUnboundedPrioritized :: "('a, 'e) PrioritizedChannelState" where
  "CreateUnboundedPrioritized = \<lparr>pr_items = [], pr_closed = False, pr_closeError = None\<rparr>"

fun multiset_insert :: "('a \<Rightarrow> 'a \<Rightarrow> bool) \<Rightarrow> 'a \<Rightarrow> 'a list \<Rightarrow> 'a list" where
  "multiset_insert lt x [] = [x]"
| "multiset_insert lt x (y # ys) = (if lt x y then x # y # ys else y # multiset_insert lt x ys)"

definition Prioritized_TryRead ::
  "('a, 'e) PrioritizedChannelState \<Rightarrow> 'a option \<times> ('a, 'e) PrioritizedChannelState \<times> channel_cv list" where
  "Prioritized_TryRead s =
     (case pr_items s of [] \<Rightarrow> (None, s, []) | item # rest \<Rightarrow> (Some item, s\<lparr>pr_items := rest\<rparr>, [notEmpty]))"

definition Prioritized_TryPeek :: "('a, 'e) PrioritizedChannelState \<Rightarrow> 'a option" where
  "Prioritized_TryPeek s = (case pr_items s of [] \<Rightarrow> None | item # rest \<Rightarrow> Some item)"

definition Prioritized_TryWrite ::
  "('a \<Rightarrow> 'a \<Rightarrow> bool) \<Rightarrow> 'a \<Rightarrow> ('a, 'e) PrioritizedChannelState \<Rightarrow> bool \<times> ('a, 'e) PrioritizedChannelState \<times> channel_cv list" where
  "Prioritized_TryWrite lt item s =
     (if pr_closed s then (False, s, []) else (True, s\<lparr>pr_items := multiset_insert lt item (pr_items s)\<rparr>, [notEmpty]))"

definition Prioritized_TryComplete ::
  "'e chan_exn option \<Rightarrow> ('a, 'e) PrioritizedChannelState \<Rightarrow> bool \<times> ('a, 'e) PrioritizedChannelState \<times> channel_cv list" where
  "Prioritized_TryComplete error s =
     (if pr_closed s then (False, s, []) else (True, s\<lparr>pr_closed := True, pr_closeError := error\<rparr>, [notEmpty]))"

definition prio_closed_result :: "('a, 'e) PrioritizedChannelState \<Rightarrow> 'e chan_exn + bool" where
  "prio_closed_result s = (case pr_closeError s of Some e \<Rightarrow> Inl e | None \<Rightarrow> Inr False)"

definition prio_wait_to_read ::
  "bool \<Rightarrow> ('a, 'e) PrioritizedChannelState \<Rightarrow> ('a, 'e) chan_pc \<times> bool \<times> ('a, 'e) PrioritizedChannelState" where
  "prio_wait_to_read async s =
     (if pr_items s \<noteq> [] \<or> pr_closed s
      then (after_read async (if pr_items s \<noteq> [] then Inr True else prio_closed_result s), False, s)
      else (InWaitToRead async, True, s))"

definition prio_wait_to_write ::
  "'a option \<Rightarrow> ('a, 'e) PrioritizedChannelState \<Rightarrow> ('a, 'e) chan_pc \<times> bool \<times> ('a, 'e) PrioritizedChannelState" where
  "prio_wait_to_write w s = (after_write w (if \<not> pr_closed s then Inr True else prio_closed_result s), False, s)"

definition prio_await_completion ::
  "('a, 'e) PrioritizedChannelState \<Rightarrow> ('a, 'e) chan_pc \<times> bool \<times> ('a, 'e) PrioritizedChannelState" where
  "prio_await_completion s =
     (if pr_closed s \<and> pr_items s = []
      then (case pr_closeError s of Some e \<Rightarrow> Finished (Threw e) | None \<Rightarrow> Finished Completed, False, s)
      else (InCompletion, True, s))"

fun prio_act ::
  "('a \<Rightarrow> 'a \<Rightarrow> bool) \<Rightarrow> (('a, 'e) chan_pc, ('a, 'e) PrioritizedChannelState, channel_cv) thread_code" where
  "prio_act lt t Idle s = None"
| "prio_act lt t (Finished r) s = None"
| "prio_act lt t AtTryRead s = (case Prioritized_TryRead s of (r, s', cvs) \<Rightarrow> Some (Finished (Got r), False, s', cvs))"
| "prio_act lt t AtTryPeek s = Some (Finished (Peeked (Prioritized_TryPeek s)), False, s, [])"
| "prio_act lt t AtCount s = Some (Finished (Count (int (length (pr_items s)))), False, s, [])"
| "prio_act lt t (AtTryWrite item) s =
     (case Prioritized_TryWrite lt item s of (ok, s', cvs) \<Rightarrow> Some (Finished (Flag ok), False, s', cvs))"
| "prio_act lt t (AtTryComplete error) s =
     (case Prioritized_TryComplete error s of (ok, s', cvs) \<Rightarrow> Some (Finished (Flag ok), False, s', cvs))"
| "prio_act lt t (AtComplete error) s =
     (case Prioritized_TryComplete error s of (ok, s', cvs) \<Rightarrow>
        Some (Finished (if ok then Completed else Threw (ChannelClosedException None)), False, s', cvs))"
| "prio_act lt t (AtWaitToRead async) s = notifying [] (prio_wait_to_read async s)"
| "prio_act lt t (InWaitToRead async) s = notifying [] (prio_wait_to_read async s)"
| "prio_act lt t (AtWaitToWrite w) s = notifying [] (prio_wait_to_write w s)"
| "prio_act lt t (InWaitToWrite w) s = None"
| "prio_act lt t AtCompletion s = notifying [] (prio_await_completion s)"
| "prio_act lt t InCompletion s = notifying [] (prio_await_completion s)"
| "prio_act lt t AtReadAsync s =
     (case Prioritized_TryRead s of (r, s', cvs) \<Rightarrow>
        Some (case r of Some item \<Rightarrow> Finished (Item item) | None \<Rightarrow> AtWaitToRead True, False, s', cvs))"
| "prio_act lt t (AtWriteAsync item) s =
     (case Prioritized_TryWrite lt item s of (ok, s', cvs) \<Rightarrow>
        Some (if ok then Finished Completed else AtWaitToWrite (Some item), False, s', cvs))"

section \<open>No lost wake-ups\<close>

fun prio_ready :: "('a, 'e) chan_pc \<Rightarrow> ('a, 'e) PrioritizedChannelState \<Rightarrow> bool" where
  "prio_ready (InWaitToRead async) s \<longleftrightarrow> pr_items s \<noteq> [] \<or> pr_closed s"
| "prio_ready InCompletion s \<longleftrightarrow> pr_closed s \<and> pr_items s = []"
| "prio_ready _ s \<longleftrightarrow> True"

lemmas prio_defs = Prioritized_TryRead_def Prioritized_TryWrite_def Prioritized_TryComplete_def prio_wait_to_read_def
  prio_wait_to_write_def prio_await_completion_def notifying_def

lemma multiset_insert_not_Nil [simp]: "multiset_insert lt x ys \<noteq> []"
  by (cases ys) auto

lemma prio_effect:
  assumes "prio_act lt t p s = Some (p', sleeps, s', cvs)"
  shows "s' = s \<or> notEmpty \<in> set cvs"
  using assms by (cases p) (auto simp: prio_defs split: if_splits prod.splits list.splits option.splits)

interpretation prio: monitor "prio_act lt" channel_waits channel_call prio_ready "\<lambda>_ _. False" "\<lambda>_ _. True" for lt
proof
  fix t and p p' q :: "('a, 'b) chan_pc" and s s' :: "('a, 'b) PrioritizedChannelState" and sleeps cvs cv
  show "prio_act lt t p s = Some (p', True, s', cvs) \<Longrightarrow> channel_waits p' \<noteq> None \<and> \<not> prio_ready p' s'"
    by (cases p) (auto simp: prio_defs split: if_splits prod.splits)
  show "channel_call p p' \<Longrightarrow> channel_waits p = None"
    by (cases p) (auto simp: channel_call_def)
  show "prio_act lt t p s = Some (p', sleeps, s', cvs) \<Longrightarrow> channel_waits q = Some cv \<Longrightarrow> prio_ready q s' \<Longrightarrow>
      prio_ready q s \<or> cv \<in> set cvs \<or> False"
    by (drule prio_effect, cases q) auto
qed auto

section \<open>Order\<close>

text \<open>A comparer must be a strict weak order: the requirement of \<^verbatim>\<open>std::multiset\<close>.\<close>

definition in_order :: "('a \<Rightarrow> 'a \<Rightarrow> bool) \<Rightarrow> 'a list \<Rightarrow> bool" where
  "in_order lt = sorted_wrt (\<lambda>x y. \<not> lt y x)"

lemma set_multiset_insert [simp]: "set (multiset_insert lt x ys) = insert x (set ys)"
  by (induction ys) auto

lemma mset_multiset_insert [simp]: "mset (multiset_insert lt x ys) = add_mset x (mset ys)"
  by (induction ys) auto

lemma swo_le: "strict_weak_order lt \<Longrightarrow> lt x y \<Longrightarrow> \<not> lt z y \<Longrightarrow> lt x z \<and> \<not> lt z x"
  unfolding strict_weak_order_def by blast

lemma in_order_insert: "strict_weak_order lt \<Longrightarrow> in_order lt ys \<Longrightarrow> in_order lt (multiset_insert lt x ys)"
proof (induction ys)
  case (Cons y ys)
  have "\<not> lt y x \<and> (\<forall>z \<in> set ys. \<not> lt z x)" if l: "lt x y"
    using swo_le [OF Cons.prems(1) l] strict_weak_asym [OF Cons.prems(1) l] Cons.prems(2) l
    by (auto simp: in_order_def)
  then show ?case using Cons by (auto simp: in_order_def)
qed (simp add: in_order_def)

text \<open>Equivalent elements keep the order of their insertion.\<close>

lemma insert_stable:
  assumes "strict_weak_order lt" and "in_order lt ys"
  shows "filter (\<lambda>y. \<not> lt x y \<and> \<not> lt y x) (multiset_insert lt x ys) = filter (\<lambda>y. \<not> lt x y \<and> \<not> lt y x) ys @ [x]"
  using assms(2)
proof (induction ys)
  case (Cons y ys)
  show ?case
  proof (cases "lt x y")
    case True
    then have "lt x z" if "z \<in> set ys" for z
      using that swo_le [OF assms(1) True] Cons.prems by (auto simp: in_order_def)
    then show ?thesis using True assms(1) by (auto simp: strict_weak_order_def filter_empty_conv)
  qed (use Cons assms(1) in \<open>auto simp: in_order_def strict_weak_order_def\<close>)
qed (use assms(1) in \<open>auto simp: strict_weak_order_def\<close>)

definition prio_log :: "('a \<Rightarrow> 'a \<Rightarrow> bool) \<Rightarrow> (('a, 'e) chan_pc \<times> ('a, 'e) chan_pc) list \<Rightarrow> ('a, 'e) PrioritizedChannelState \<Rightarrow> bool" where
  "prio_log lt tr s \<longleftrightarrow> in_order lt (pr_items s) \<and> mset (reads_of tr) + mset (pr_items s) = mset (writes_of tr)"

lemma prio_log_act:
  assumes "prio_act lt t p s = Some (p', sleeps, s', cvs)" and "prio_log lt tr s" and "strict_weak_order lt"
  shows "prio_log lt (tr @ [(p, p')]) s'"
  using assms in_order_insert [OF assms(3)]
  by (cases p) (auto simp: prio_log_def prio_defs in_order_def split: if_splits prod.splits list.splits option.splits)

section \<open>Properties\<close>

text \<open>C7. A prioritized channel with a strict weak order as its comparer, under any interleaving: the items read and the items held are
  together exactly the items written; the head, which the next read returns, is never greater than another held item; an item
  is queued behind the held items equivalent to it; and no thread sleeps in a wait whose condition holds.\<close>

theorem prioritized_channel:
  assumes "strict_weak_order lt" and run: "mon_run (prio_act lt) channel_waits channel_call (mon_init Idle CreateUnboundedPrioritized) tr m"
  shows "mset (reads_of tr) + mset (pr_items (m_shared m)) = mset (writes_of tr) \<and>
    (\<forall>item rest. pr_items (m_shared m) = item # rest \<longrightarrow>
      prio_act lt timeout AtTryRead (m_shared m) = Some (Finished (Got (Some item)), False, (m_shared m)\<lparr>pr_items := rest\<rparr>, [notEmpty]) \<and>
      (\<forall>other \<in> set rest. \<not> lt other item)) \<and>
    (\<forall>item. \<not> pr_closed (m_shared m) \<longrightarrow> (\<exists>s. prio_act lt timeout (AtTryWrite item) (m_shared m) = Some (Finished (Flag True), False, s, [notEmpty]) \<and>
      filter (\<lambda>y. \<not> lt item y \<and> \<not> lt y item) (pr_items s) = filter (\<lambda>y. \<not> lt item y \<and> \<not> lt y item) (pr_items (m_shared m)) @ [item])) \<and>
    (m_asleep m i \<longrightarrow> \<not> prio_ready (m_pcs m i) (m_shared m))"
proof -
  have log: "prio_log lt tr (m_shared m)"
    using run by (rule mon_run_trace_invariant)
      (simp add: prio_log_def in_order_def CreateUnboundedPrioritized_def, rule prio_log_act [OF _ _ assms(1)])
  moreover have "\<not> prio_ready (m_pcs m i) (m_shared m)" if "m_asleep m i"
    using prio.sleeping_unready(2) [OF run that] by blast
  ultimately show ?thesis using insert_stable [OF assms(1), of "pr_items (m_shared m)"]
    by (intro conjI allI impI) (simp_all add: prio_log_def in_order_def Prioritized_TryRead_def Prioritized_TryWrite_def)
qed

text \<open>Two writers and a reader that sleeps until the first item arrives.\<close>

lemma prioritized_channel_witness:
  "case mon_exec (prio_act (\<lambda>x y. x < (y :: nat))) channel_waits channel_call
      [Call 2 AtReadAsync, Act 2 False, Act 2 False, Call 0 (AtTryWrite 5), Act 0 False, Call 1 (AtTryWrite 3), Act 1 False, Act 2 False, Act 2 False]
      (mon_init Idle (CreateUnboundedPrioritized :: (nat, unit) PrioritizedChannelState)) of
    Some (tr, m) \<Rightarrow> reads_of tr = [3] \<and> pr_items (m_shared m) = [5] \<and>
      mset (reads_of tr) + mset (pr_items (m_shared m)) = mset (writes_of tr)
  | None \<Rightarrow> False"
  (is "case ?x of Some (tr, m) \<Rightarrow> ?P tr m | None \<Rightarrow> False")
proof -
  have swo: "strict_weak_order (\<lambda>x y. x < (y :: nat))" by (auto simp: strict_weak_order_def)
  obtain tr m where x: "?x = Some (tr, m)" and r: "reads_of tr = [3]" "pr_items (m_shared m) = [5]"
    by (simp add: CreateUnboundedPrioritized_def channel_call_def prio_defs wake_up_def notified_def after_read_def loop_result_def)
  have "mset (reads_of tr) + mset (pr_items (m_shared m)) = mset (writes_of tr)"
    using prioritized_channel [OF swo mon_exec_run [OF x]] by (rule conjunct1)
  then show ?thesis unfolding x using r by (simp add: add_mset_commute)
qed

end
