(* ===== verification/Thr_Semaphore.thy ===== *)
theory Thr_Semaphore
  imports Thr_Monitor
begin

text \<open>
  \<^verbatim>\<open>System/Threading/SemaphoreSlim.hpp\<close> under any interleaving. The disposal check of an operation runs before
  the mutex is taken and is a step of its own. The 32-bit arithmetic of \<^verbatim>\<open>Release\<close> is written with its wrap-around.
\<close>

section \<open>Model\<close>

definition wrap32 :: "int \<Rightarrow> int" where
  "wrap32 x = sint (of_int x :: 32 word)"

record SemaphoreSlim =
  sem_count :: intcs
  sem_maxCount :: intcs
  sem_disposed :: bool

definition SemaphoreSlim_ctor :: "intcs \<Rightarrow> intcs \<Rightarrow> SemaphoreSlim res" where
  "SemaphoreSlim_ctor initialCount maxCount =
     (if maxCount < 1 then Inl (ArgumentOutOfRangeException ''maxCount'')
      else if initialCount < 0 \<or> initialCount > maxCount then Inl (ArgumentOutOfRangeException ''initialCount'')
      else Inr \<lparr>sem_count = initialCount, sem_maxCount = maxCount, sem_disposed = False\<rparr>)"

definition ValidateTimeout :: "intcs \<Rightarrow> unit res" where
  "ValidateTimeout millisecondsTimeout =
     (if millisecondsTimeout < - 1 then Inl (ArgumentOutOfRangeException ''millisecondsTimeout'') else Inr ())"

datatype sem_outcome = SemEntered bool | SemReleased intcs | SemCount intcs | SemDisposed | SemThrew exn

text \<open>
  \<open>AtSemWait None\<close> is \<^verbatim>\<open>Wait()\<close>, \<open>AtSemWait (Some ms)\<close> is \<^verbatim>\<open>Wait(ms)\<close>; \<open>LockSemWait\<close> is the point where the mutex is
  taken, \<open>InSemWait\<close> the wait. The flag there says that a time limit applies.
\<close>

datatype sem_pc =
    SemIdle
  | AtSemWait "intcs option" | LockSemWait bool | InSemWait bool
  | AtRelease intcs | LockRelease intcs
  | AtCurrentCount | AtSemDispose
  | SemFinished sem_outcome

definition sem_disposed_check :: "SemaphoreSlim \<Rightarrow> sem_pc \<Rightarrow> sem_pc" where
  "sem_disposed_check s p = (if sem_disposed s then SemFinished (SemThrew (ObjectDisposedException ''SemaphoreSlim'')) else p)"

definition sem_wait :: "bool \<Rightarrow> bool \<Rightarrow> SemaphoreSlim \<Rightarrow> (sem_pc \<times> bool \<times> SemaphoreSlim \<times> unit list) option" where
  "sem_wait timeout timed s =
     (if sem_count s > 0 then Some (SemFinished (SemEntered True), False, s\<lparr>sem_count := sem_count s - 1\<rparr>, [])
      else if timed \<and> timeout then Some (SemFinished (SemEntered False), False, s, [])
      else Some (InSemWait timed, True, s, []))"

fun sem_act :: "(sem_pc, SemaphoreSlim, unit) thread_code" where
  "sem_act t SemIdle s = None"
| "sem_act t (SemFinished r) s = None"
| "sem_act t (AtSemWait None) s = Some (sem_disposed_check s (LockSemWait False), False, s, [])"
| "sem_act t (AtSemWait (Some milliseconds)) s =
     Some (case ValidateTimeout milliseconds of
             Inl e \<Rightarrow> SemFinished (SemThrew e)
           | Inr _ \<Rightarrow> sem_disposed_check s (LockSemWait (milliseconds \<noteq> - 1)), False, s, [])"
| "sem_act t (LockSemWait timed) s = sem_wait t timed s"
| "sem_act t (InSemWait timed) s = sem_wait t timed s"
| "sem_act t (AtRelease releaseCount) s =
     Some (sem_disposed_check s
            (if releaseCount < 1 then SemFinished (SemThrew (ArgumentOutOfRangeException ''releaseCount''))
             else LockRelease releaseCount), False, s, [])"
| "sem_act t (LockRelease releaseCount) s =
     (if wrap32 (sem_maxCount s - sem_count s) < releaseCount
      then Some (SemFinished (SemThrew SemaphoreFullException), False, s, [])
      else Some (SemFinished (SemReleased (sem_count s)), False,
                 s\<lparr>sem_count := wrap32 (sem_count s + releaseCount)\<rparr>, [()]))"
| "sem_act t AtCurrentCount s = Some (SemFinished (SemCount (sem_count s)), False, s, [])"
| "sem_act t AtSemDispose s = Some (SemFinished SemDisposed, False, s\<lparr>sem_disposed := True\<rparr>, [])"

fun sem_waits :: "sem_pc \<Rightarrow> unit option" where
  "sem_waits (InSemWait timed) = Some ()"
| "sem_waits _ = None"

text \<open>Arguments are 32-bit integers.\<close>

fun sem_entry :: "sem_pc \<Rightarrow> bool" where
  "sem_entry (AtSemWait ms) = True"
| "sem_entry (AtRelease releaseCount) = (INTCS_MIN \<le> releaseCount \<and> releaseCount \<le> INTCS_MAX)"
| "sem_entry AtCurrentCount = True"
| "sem_entry AtSemDispose = True"
| "sem_entry _ = False"

definition sem_call :: "sem_pc \<Rightarrow> sem_pc \<Rightarrow> bool" where
  "sem_call p q \<longleftrightarrow> (case p of SemIdle \<Rightarrow> True | SemFinished r \<Rightarrow> True | _ \<Rightarrow> False) \<and> sem_entry q"

abbreviation sem_run where
  "sem_run \<equiv> mon_run sem_act sem_waits sem_call"

section \<open>Lemmas\<close>

fun sem_ready :: "sem_pc \<Rightarrow> SemaphoreSlim \<Rightarrow> bool" where
  "sem_ready (InSemWait timed) s = (sem_count s > 0)"
| "sem_ready _ s = True"

text \<open>The promised range, and that the pending release counts are 32-bit integers.\<close>

definition sem_range :: "SemaphoreSlim \<Rightarrow> bool" where
  "sem_range s \<longleftrightarrow> 0 \<le> sem_count s \<and> sem_count s \<le> sem_maxCount s \<and> sem_maxCount s \<le> INTCS_MAX"

lemma wrap32_id: "INTCS_MIN \<le> x \<Longrightarrow> x \<le> INTCS_MAX \<Longrightarrow> wrap32 x = x"
  by (simp add: wrap32_def INTCS_MIN_def INTCS_MAX_def signed_of_int signed_take_bit_int_eq_self)

lemma sem_range_wrap:
  assumes "sem_range s"
  shows "wrap32 (sem_maxCount s - sem_count s) = sem_maxCount s - sem_count s"
    and "0 \<le> r \<Longrightarrow> r \<le> sem_maxCount s - sem_count s \<Longrightarrow> wrap32 (sem_count s + r) = sem_count s + r"
  using assms by (auto intro!: wrap32_id simp: sem_range_def INTCS_MIN_def INTCS_MAX_def)

text \<open>Threads that are past the argument checks hold a positive release count.\<close>

fun sem_pc_ok :: "sem_pc \<Rightarrow> bool" where
  "sem_pc_ok (LockRelease releaseCount) = (1 \<le> releaseCount)"
| "sem_pc_ok _ = True"

lemma sem_act_ok: "sem_act t p s = Some (p', sleeps, s', cvs) \<Longrightarrow> sem_pc_ok p'"
  by (cases "(t, p, s)" rule: sem_act.cases)
    (auto simp: sem_disposed_check_def sem_wait_def ValidateTimeout_def split: if_splits)

lemma sem_call_ok: "sem_call p p' \<Longrightarrow> sem_pc_ok p'"
  by (cases p') (auto simp: sem_call_def)

lemma sem_act_range:
  assumes "sem_act t p s = Some (p', sleeps, s', cvs)" and "sem_range s" and "sem_pc_ok p"
  shows "sem_range s' \<and> sem_maxCount s' = sem_maxCount s"
  using assms(1,3) sem_range_wrap [OF assms(2)] assms(2)
  by (cases "(t, p, s)" rule: sem_act.cases) (auto simp: sem_wait_def sem_range_def split: if_splits)

text \<open>The thread part of the invariant does not mention the shared state.\<close>

interpretation sem_threads: interference sem_act sem_call sem_range "\<lambda>p _. sem_pc_ok p" "\<lambda>_ _. True"
proof
  fix t p s p' sleeps s' cvs
  show "sem_act t p s = Some (p', sleeps, s', cvs) \<Longrightarrow> sem_range s \<Longrightarrow> sem_pc_ok p \<Longrightarrow> sem_range s' \<and> sem_pc_ok p'"
    by (metis sem_act_range sem_act_ok)
qed (auto intro: sem_call_ok)

interpretation sem: monitor sem_act sem_waits sem_call sem_ready "\<lambda>_ _. False" "\<lambda>_ _. True"
proof
  fix t p s p' sleeps s' cvs q and cv :: unit
  show "sem_act t p s = Some (p', True, s', cvs) \<Longrightarrow> sem_waits p' \<noteq> None \<and> \<not> sem_ready p' s'"
    by (cases "(t, p, s)" rule: sem_act.cases) (auto simp: sem_wait_def split: if_splits)
  show "sem_act t p s = Some (p', sleeps, s', cvs) \<Longrightarrow> sem_waits q = Some cv \<Longrightarrow> sem_ready q s' \<Longrightarrow>
      sem_ready q s \<or> cv \<in> set cvs \<or> False"
    by (cases "(t, p, s)" rule: sem_act.cases; cases q) (auto simp: sem_wait_def split: if_splits)
  show "sem_call p p' \<Longrightarrow> sem_waits p = None" by (cases p) (auto simp: sem_call_def)
qed auto

text \<open>The entries and the released units of a trace.\<close>

fun entered :: "(sem_pc \<times> sem_pc) list \<Rightarrow> int" where
  "entered [] = 0"
| "entered ((p, p') # tr) = of_bool (p' = SemFinished (SemEntered True)) + entered tr"

fun released :: "(sem_pc \<times> sem_pc) list \<Rightarrow> int" where
  "released [] = 0"
| "released ((LockRelease releaseCount, SemFinished (SemReleased prev)) # tr) = releaseCount + released tr"
| "released (e # tr) = released tr"

lemma entered_append [simp]: "entered (tr @ tr') = entered tr + entered tr'"
  by (induction tr rule: entered.induct) auto

lemma released_append [simp]: "released (tr @ tr') = released tr + released tr'"
  by (induction tr rule: released.induct) auto

definition sem_log :: "SemaphoreSlim \<Rightarrow> (sem_pc \<times> sem_pc) list \<Rightarrow> SemaphoreSlim \<Rightarrow> bool" where
  "sem_log s0 tr s \<longleftrightarrow> sem_range s \<and> sem_maxCount s = sem_maxCount s0 \<and> sem_count s = sem_count s0 + released tr - entered tr"

lemma sem_log_act:
  assumes "sem_act t p s = Some (p', sleeps, s', cvs)" and "sem_log s0 tr s" and "sem_pc_ok p"
  shows "sem_log s0 (tr @ [(p, p')]) s'"
proof -
  have "sem_count s' = sem_count s + released [(p, p')] - entered [(p, p')]"
    using assms(1,3) sem_range_wrap [of s] assms(2)
    by (cases "(t, p, s)" rule: sem_act.cases)
      (auto simp: sem_log_def sem_wait_def sem_disposed_check_def ValidateTimeout_def split: if_splits)
  then show ?thesis using sem_act_range [OF assms(1) _ assms(3)] assms(2) by (simp add: sem_log_def)
qed

section \<open>Properties\<close>

text \<open>C6. A semaphore that was constructed at all keeps its count between zero and its maximum whatever the threads do, and the count is the initial one plus
  the units released minus the entries, so that there are never more entries than units. A release that reports the semaphore full is one that would exceed the maximum, and
  the 32-bit subtraction and addition never overflow. A thread sleeps in \<^verbatim>\<open>Wait\<close> only while the count is zero.\<close>

theorem semaphore_count:
  assumes "SemaphoreSlim_ctor initialCount maxCount = Inr s0" and "maxCount \<le> INTCS_MAX"
    and run: "sem_run (mon_init SemIdle s0) tr m"
  shows "0 \<le> sem_count (m_shared m) \<and> sem_count (m_shared m) \<le> maxCount \<and>
    sem_count (m_shared m) = initialCount + released tr - entered tr \<and>
    (m_asleep m i \<longrightarrow> sem_count (m_shared m) = 0) \<and>
    (1 \<le> r \<longrightarrow> sem_act timeout (LockRelease r) (m_shared m) =
      (if sem_count (m_shared m) + r > maxCount then Some (SemFinished (SemThrew SemaphoreFullException), False, m_shared m, [])
       else Some (SemFinished (SemReleased (sem_count (m_shared m))), False,
         (m_shared m)\<lparr>sem_count := sem_count (m_shared m) + r\<rparr>, [()])))"
proof -
  have s0: "sem_range s0" "sem_count s0 = initialCount" "sem_maxCount s0 = maxCount"
    using assms(1,2) by (auto simp: SemaphoreSlim_ctor_def sem_range_def split: if_splits)
  have log: "sem_log s0 tr (m_shared m)"
    using run
  proof (rule sem_threads.in_step_trace)
    show "sem_threads.in_step (mon_init SemIdle s0)" by (simp add: sem_threads.in_step_def s0)
    show "sem_log s0 [] (m_shared (mon_init SemIdle s0))" by (simp add: sem_log_def s0)
  qed (rule sem_log_act)
  then have r: "sem_range (m_shared m)" by (simp add: sem_log_def)
  have zero: "sem_count (m_shared m) = 0" if a: "m_asleep m i"
  proof -
    have "sem_waits (m_pcs m i) \<noteq> None" "\<not> sem_ready (m_pcs m i) (m_shared m)"
      using sem.sleeping_unready [OF run a TrueI] by simp_all
    then show ?thesis using r by (cases "m_pcs m i") (auto simp: sem_range_def)
  qed
  show ?thesis using log zero s0 sem_range_wrap [OF r] by (auto simp: sem_log_def sem_range_def)
qed

lemma semaphore_count_witness:
  "\<exists>s0. SemaphoreSlim_ctor 0 3 = Inr s0 \<and>
    (case mon_exec sem_act sem_waits sem_call
        [Call 0 (AtSemWait None), Act 0 False, Act 0 False, Call 1 (AtSemWait None), Act 1 False, Act 1 False,
         Call 2 (AtRelease 3), Act 2 False, Act 2 False, Act 0 False, Call 2 (AtSemWait (Some 10)), Act 2 False, Act 2 False] (mon_init SemIdle s0) of
       Some (tr, m) \<Rightarrow> released tr = 3 \<and> entered tr = 2 \<and> sem_count (m_shared m) = 1 \<and> sem_count (m_shared m) \<le> 3
     | None \<Rightarrow> False)"
proof -
  let ?s0 = "\<lparr>sem_count = 0, sem_maxCount = 3, sem_disposed = False\<rparr>"
  have c: "SemaphoreSlim_ctor 0 3 = Inr ?s0" by (simp add: SemaphoreSlim_ctor_def)
  obtain tr m where x: "mon_exec sem_act sem_waits sem_call
        [Call 0 (AtSemWait None), Act 0 False, Act 0 False, Call 1 (AtSemWait None), Act 1 False, Act 1 False,
         Call 2 (AtRelease 3), Act 2 False, Act 2 False, Act 0 False, Call 2 (AtSemWait (Some 10)), Act 2 False, Act 2 False]
        (mon_init SemIdle ?s0) = Some (tr, m)"
    and t: "released tr = 3" "entered tr = 2"
    by (simp add: sem_call_def sem_disposed_check_def sem_wait_def ValidateTimeout_def wake_up_def notified_def wrap32_def INTCS_MIN_def
        INTCS_MAX_def)
  show ?thesis using semaphore_count [OF c _ mon_exec_run [OF x]] c x t by (auto simp: INTCS_MAX_def)
qed

end
