(* ===== verification/Thr_Events.thy ===== *)
theory Thr_Events
  imports Thr_Semaphore
begin

text \<open>
  \<^verbatim>\<open>System/Threading/CountdownEvent.hpp\<close> and \<^verbatim>\<open>System/Threading/ManualResetEventSlim.hpp\<close> under any interleaving.
  \<^verbatim>\<open>CountdownEvent::Reset\<close> notifies after it has released the mutex, \<^verbatim>\<open>ManualResetEventSlim::Set\<close> never takes it.
\<close>

section \<open>CountdownEvent\<close>

subsection \<open>Model\<close>

record CountdownEvent =
  cd_initialCount :: intcs
  cd_currentCount :: intcs
  cd_disposed :: bool

definition CountdownEvent_ctor :: "intcs \<Rightarrow> CountdownEvent res" where
  "CountdownEvent_ctor initialCount =
     (if initialCount < 0 then Inl (ArgumentOutOfRangeException ''initialCount'')
      else Inr \<lparr>cd_initialCount = initialCount, cd_currentCount = initialCount, cd_disposed = False\<rparr>)"

datatype cd_outcome = CdDone | CdFlag bool | CdNumber intcs | CdThrew exn

datatype cd_pc =
    CdIdle
  | AtSignal intcs | LockSignal intcs
  | AtAddCount intcs | LockAddCount intcs
  | AtResetInitial | AtReset intcs | LockReset intcs | NotifyReset
  | AtCdWait "intcs option" | LockCdWait bool bool | InCdWait bool bool
  | AtCdCurrent | AtCdInitial | AtCdIsSet | AtCdDispose
  | CdFinished cd_outcome

definition cd_disposed_check :: "CountdownEvent \<Rightarrow> cd_pc \<Rightarrow> cd_pc" where
  "cd_disposed_check s p = (if cd_disposed s then CdFinished (CdThrew (ObjectDisposedException ''CountdownEvent'')) else p)"

text \<open>\<open>timed\<close>: a time limit applies; \<open>returns\<close>: the overload returns a flag.\<close>

definition cd_wait :: "bool \<Rightarrow> bool \<Rightarrow> bool \<Rightarrow> CountdownEvent \<Rightarrow> (cd_pc \<times> bool \<times> CountdownEvent \<times> unit list) option" where
  "cd_wait timeout timed returns s =
     (if cd_currentCount s = 0 then Some (CdFinished (if returns then CdFlag True else CdDone), False, s, [])
      else if timed \<and> timeout then Some (CdFinished (CdFlag False), False, s, [])
      else Some (InCdWait timed returns, True, s, []))"

definition signal_message :: string where
  "signal_message = ''Invalid attempt made to decrement the event's count below zero.''"

definition signaled_message :: string where
  "signaled_message = ''The event is already signaled and cannot be incremented.''"

definition overflow_message :: string where
  "overflow_message = ''The increment operation would cause the CurrentCount to overflow.''"

fun cd_act :: "(cd_pc, CountdownEvent, unit) thread_code" where
  "cd_act t CdIdle s = None"
| "cd_act t (CdFinished r) s = None"
| "cd_act t (AtSignal signalCount) s =
     Some (if signalCount \<le> 0 then CdFinished (CdThrew (ArgumentOutOfRangeException ''signalCount''))
           else cd_disposed_check s (LockSignal signalCount), False, s, [])"
| "cd_act t (LockSignal signalCount) s =
     (if cd_currentCount s = 0 \<or> cd_currentCount s < signalCount
      then Some (CdFinished (CdThrew (InvalidOperationException signal_message)), False, s, [])
      else let s' = s\<lparr>cd_currentCount := cd_currentCount s - signalCount\<rparr>; set = (cd_currentCount s' = 0)
           in Some (CdFinished (CdFlag set), False, s', if set then [()] else []))"
| "cd_act t (AtAddCount signalCount) s =
     Some (if signalCount \<le> 0 then CdFinished (CdThrew (ArgumentOutOfRangeException ''signalCount''))
           else cd_disposed_check s (LockAddCount signalCount), False, s, [])"
| "cd_act t (LockAddCount signalCount) s =
     (if cd_currentCount s = 0 then Some (CdFinished (CdThrew (InvalidOperationException signaled_message)), False, s, [])
      else if cd_currentCount s > INTCS_MAX - signalCount
      then Some (CdFinished (CdThrew (InvalidOperationException overflow_message)), False, s, [])
      else Some (CdFinished CdDone, False, s\<lparr>cd_currentCount := wrap32 (cd_currentCount s + signalCount)\<rparr>, []))"
| "cd_act t AtResetInitial s = Some (AtReset (cd_initialCount s), False, s, [])"
| "cd_act t (AtReset count) s =
     Some (cd_disposed_check s
            (if count < 0 then CdFinished (CdThrew (ArgumentOutOfRangeException ''count'')) else LockReset count), False, s, [])"
| "cd_act t (LockReset count) s = Some (NotifyReset, False, s\<lparr>cd_initialCount := count, cd_currentCount := count\<rparr>, [])"
| "cd_act t NotifyReset s = Some (CdFinished CdDone, False, s, [()])"
| "cd_act t (AtCdWait None) s = Some (cd_disposed_check s (LockCdWait False False), False, s, [])"
| "cd_act t (AtCdWait (Some millisecondsTimeout)) s =
     Some (case ValidateTimeout millisecondsTimeout of
             Inl e \<Rightarrow> CdFinished (CdThrew e)
           | Inr _ \<Rightarrow> cd_disposed_check s (LockCdWait (millisecondsTimeout \<noteq> - 1) True), False, s, [])"
| "cd_act t (LockCdWait timed returns) s = cd_wait t timed returns s"
| "cd_act t (InCdWait timed returns) s = cd_wait t timed returns s"
| "cd_act t AtCdCurrent s = Some (CdFinished (CdNumber (cd_currentCount s)), False, s, [])"
| "cd_act t AtCdInitial s = Some (CdFinished (CdNumber (cd_initialCount s)), False, s, [])"
| "cd_act t AtCdIsSet s = Some (CdFinished (CdFlag (cd_currentCount s = 0)), False, s, [])"
| "cd_act t AtCdDispose s = Some (CdFinished CdDone, False, s\<lparr>cd_disposed := True\<rparr>, [])"

fun cd_waits :: "cd_pc \<Rightarrow> unit option" where
  "cd_waits (InCdWait timed returns) = Some ()"
| "cd_waits _ = None"

fun cd_entry :: "cd_pc \<Rightarrow> bool" where
  "cd_entry (AtSignal n) = (n \<le> INTCS_MAX)"
| "cd_entry (AtAddCount n) = (n \<le> INTCS_MAX)"
| "cd_entry (AtReset n) = (n \<le> INTCS_MAX)"
| "cd_entry p = (p \<in> {AtResetInitial, AtCdCurrent, AtCdInitial, AtCdIsSet, AtCdDispose} \<or> (\<exists>ms. p = AtCdWait ms))"

definition cd_call :: "cd_pc \<Rightarrow> cd_pc \<Rightarrow> bool" where
  "cd_call p q \<longleftrightarrow> (case p of CdIdle \<Rightarrow> True | CdFinished r \<Rightarrow> True | _ \<Rightarrow> False) \<and> cd_entry q"

abbreviation cd_run where
  "cd_run \<equiv> mon_run cd_act cd_waits cd_call"

subsection \<open>Lemmas\<close>

fun cd_ready :: "cd_pc \<Rightarrow> CountdownEvent \<Rightarrow> bool" where
  "cd_ready (InCdWait timed returns) s = (cd_currentCount s = 0)"
| "cd_ready _ s = True"

definition cd_notifying :: "cd_pc \<Rightarrow> unit \<Rightarrow> bool" where
  "cd_notifying p cv \<longleftrightarrow> p = NotifyReset"

definition cd_range :: "CountdownEvent \<Rightarrow> bool" where
  "cd_range s \<longleftrightarrow> 0 \<le> cd_currentCount s \<and> cd_currentCount s \<le> INTCS_MAX \<and> 0 \<le> cd_initialCount s \<and> cd_initialCount s \<le> INTCS_MAX"

text \<open>A thread past its argument checks holds an argument that passed them.\<close>

fun cd_pc_ok :: "cd_pc \<Rightarrow> bool" where
  "cd_pc_ok (AtSignal n) = (n \<le> INTCS_MAX)"
| "cd_pc_ok (LockSignal n) = (1 \<le> n)"
| "cd_pc_ok (AtAddCount n) = (n \<le> INTCS_MAX)"
| "cd_pc_ok (LockAddCount n) = (1 \<le> n)"
| "cd_pc_ok (AtReset n) = (n \<le> INTCS_MAX)"
| "cd_pc_ok (LockReset n) = (0 \<le> n \<and> n \<le> INTCS_MAX)"
| "cd_pc_ok _ = True"

lemma cd_added: "cd_range s \<Longrightarrow> 1 \<le> n \<Longrightarrow> cd_currentCount s \<le> INTCS_MAX - n \<Longrightarrow> wrap32 (cd_currentCount s + n) = cd_currentCount s + n"
  by (rule wrap32_id) (auto simp: cd_range_def INTCS_MIN_def)

lemma cd_act_invariant:
  assumes "cd_act t p s = Some (p', sleeps, s', cvs)" and "cd_range s" and "cd_pc_ok p"
  shows "cd_range s' \<and> cd_pc_ok p'"
  using assms cd_added [OF assms(2)]
  by (cases "(t, p, s)" rule: cd_act.cases)
    (auto simp: cd_range_def cd_disposed_check_def cd_wait_def ValidateTimeout_def Let_def split: if_splits)

lemma cd_enabling:
  assumes "cd_act t p s = Some (p', sleeps, s', cvs)" and "cd_range s" and "cd_pc_ok p" and "cd_waits q = Some cv" and "cd_ready q s'"
  shows "cd_ready q s \<or> cv \<in> set cvs \<or> cd_notifying p' cv"
proof (cases q)
  case (InCdWait timed returns)
  then show ?thesis using assms(1-3,5) cd_added [OF assms(2)]
    by (cases "(t, p, s)" rule: cd_act.cases)
      (auto simp: cd_range_def cd_notifying_def cd_wait_def Let_def split: if_splits)
qed (use assms(4) in auto)

interpretation cd_threads: interference cd_act cd_call cd_range "\<lambda>p _. cd_pc_ok p" "\<lambda>_ _. True"
proof
  show "cd_call p p' \<Longrightarrow> cd_pc_ok p \<Longrightarrow> cd_pc_ok p'" for p p' by (cases p') (auto simp: cd_call_def)
qed (use cd_act_invariant in blast)+

interpretation cd: monitor cd_act cd_waits cd_call cd_ready cd_notifying "\<lambda>p s. cd_range s \<and> cd_pc_ok p"
proof
  fix t p s p' sleeps s' cvs and cv :: unit
  show "cd_act t p s = Some (p', True, s', cvs) \<Longrightarrow> cd_waits p' \<noteq> None \<and> \<not> cd_ready p' s'"
    by (cases "(t, p, s)" rule: cd_act.cases) (auto simp: cd_wait_def Let_def split: if_splits)
  show "cd_act t p s = Some (p', sleeps, s', cvs) \<Longrightarrow> cd_notifying p cv \<Longrightarrow> cv \<in> set cvs \<or> cd_notifying p' cv"
    by (auto simp: cd_notifying_def)
  show "cd_call p p' \<Longrightarrow> cd_waits p = None" by (cases p) (auto simp: cd_call_def)
  show "cd_call p p' \<Longrightarrow> \<not> cd_notifying p cv" by (cases p) (auto simp: cd_call_def cd_notifying_def)
qed (use cd_enabling cd_act_invariant in blast)+

text \<open>The count as the operations of a trace determine it.\<close>

definition cd_change :: "int \<Rightarrow> cd_pc \<times> cd_pc \<Rightarrow> int" where
  "cd_change c e =
     (case e of (p, p') \<Rightarrow>
        (case p of
           LockSignal n \<Rightarrow> if p' \<in> {CdFinished (CdFlag True), CdFinished (CdFlag False)} then c - n else c
         | LockAddCount n \<Rightarrow> if p' = CdFinished CdDone then c + n else c
         | LockReset n \<Rightarrow> n
         | _ \<Rightarrow> c))"

definition cd_replay :: "int \<Rightarrow> (cd_pc \<times> cd_pc) list \<Rightarrow> int" where
  "cd_replay c tr = foldl cd_change c tr"

lemma cd_replay_append [simp]: "cd_replay c (tr @ tr') = cd_replay (cd_replay c tr) tr'"
  by (simp add: cd_replay_def)

lemma cd_replay_act:
  assumes "cd_act t p s = Some (p', sleeps, s', cvs)" and "cd_range s" and "cd_pc_ok p"
  shows "cd_currentCount s' = cd_replay (cd_currentCount s) [(p, p')]"
  using assms cd_added [OF assms(2)]
  by (cases "(t, p, s)" rule: cd_act.cases)
    (auto simp: cd_replay_def cd_change_def cd_wait_def Let_def split: if_splits)

section \<open>ManualResetEventSlim\<close>

subsection \<open>Model\<close>

text \<open>
  \<^verbatim>\<open>Set\<close> stores the flag and notifies without the mutex, so it can run between the evaluation of a waiter's predicate and
  the moment the waiter sleeps. The mutex is therefore part of the state (\<open>mre_locked\<close>) and each of these is a
  step; a thread that needs the mutex while it is held has nothing to run.
\<close>

record ManualResetEventSlim =
  mre_set :: bool
  mre_disposed :: bool
  mre_locked :: bool

definition ManualResetEventSlim_ctor :: "bool \<Rightarrow> ManualResetEventSlim" where
  "ManualResetEventSlim_ctor initialState = \<lparr>mre_set = initialState, mre_disposed = False, mre_locked = False\<rparr>"

datatype mre_outcome = MreDone | MreFlag bool | MreThrew exn

datatype mre_pc =
    MreIdle
  | AtMreSet | NotifySet
  | AtMreReset | StoreReset
  | AtMreWait "intcs option" | LoadMre bool bool | LockMre bool bool | CheckMre bool bool bool | SleepMre bool bool | InMreWait bool bool
  | AtMreIsSet | AtMreDispose
  | MreFinished mre_outcome

definition mre_disposed_check :: "ManualResetEventSlim \<Rightarrow> mre_pc \<Rightarrow> mre_pc" where
  "mre_disposed_check s p =
     (if mre_disposed s then MreFinished (MreThrew (ObjectDisposedException ''ManualResetEventSlim'')) else p)"

definition mre_return :: "bool \<Rightarrow> bool \<Rightarrow> mre_pc" where
  "mre_return returns ok = MreFinished (if returns then MreFlag ok else MreDone)"

text \<open>\<open>timed\<close> and \<open>returns\<close> as for \<^verbatim>\<open>CountdownEvent\<close>; the third flag of \<open>CheckMre\<close> says that the time limit has passed.\<close>

fun mre_act :: "(mre_pc, ManualResetEventSlim, unit) thread_code" where
  "mre_act t MreIdle s = None"
| "mre_act t (MreFinished r) s = None"
| "mre_act t AtMreSet s = Some (NotifySet, False, s\<lparr>mre_set := True\<rparr>, [])"
| "mre_act t NotifySet s = Some (MreFinished MreDone, False, s, [()])"
| "mre_act t AtMreReset s = Some (mre_disposed_check s StoreReset, False, s, [])"
| "mre_act t StoreReset s = Some (MreFinished MreDone, False, s\<lparr>mre_set := False\<rparr>, [])"
| "mre_act t (AtMreWait None) s = Some (mre_disposed_check s (LoadMre False False), False, s, [])"
| "mre_act t (AtMreWait (Some millisecondsTimeout)) s =
     Some (case ValidateTimeout millisecondsTimeout of
             Inl e \<Rightarrow> MreFinished (MreThrew e)
           | Inr _ \<Rightarrow> mre_disposed_check s (LoadMre (millisecondsTimeout \<noteq> - 1) True), False, s, [])"
| "mre_act t (LoadMre timed returns) s = Some (if mre_set s then mre_return returns True else LockMre timed returns, False, s, [])"
| "mre_act t (LockMre timed returns) s =
     (if mre_locked s then None else Some (CheckMre timed returns False, False, s\<lparr>mre_locked := True\<rparr>, []))"
| "mre_act t (CheckMre timed returns expired) s =
     (if mre_set s then Some (mre_return returns True, False, s\<lparr>mre_locked := False\<rparr>, [])
      else if expired then Some (mre_return returns False, False, s\<lparr>mre_locked := False\<rparr>, [])
      else Some (SleepMre timed returns, False, s, []))"
| "mre_act t (SleepMre timed returns) s = Some (InMreWait timed returns, True, s\<lparr>mre_locked := False\<rparr>, [])"
| "mre_act t (InMreWait timed returns) s =
     (if mre_locked s then None else Some (CheckMre timed returns (timed \<and> t), False, s\<lparr>mre_locked := True\<rparr>, []))"
| "mre_act t AtMreIsSet s = Some (MreFinished (MreFlag (mre_set s)), False, s, [])"
| "mre_act t AtMreDispose s = Some (MreFinished MreDone, False, s\<lparr>mre_disposed := True\<rparr>, [])"

fun mre_waits :: "mre_pc \<Rightarrow> unit option" where
  "mre_waits (InMreWait timed returns) = Some ()"
| "mre_waits _ = None"

definition mre_call :: "mre_pc \<Rightarrow> mre_pc \<Rightarrow> bool" where
  "mre_call p q \<longleftrightarrow> (case p of MreIdle \<Rightarrow> True | MreFinished r \<Rightarrow> True | _ \<Rightarrow> False) \<and>
     (case q of AtMreSet \<Rightarrow> True | AtMreReset \<Rightarrow> True | AtMreWait ms \<Rightarrow> True | AtMreIsSet \<Rightarrow> True | AtMreDispose \<Rightarrow> True | _ \<Rightarrow> False)"

abbreviation mre_run where
  "mre_run \<equiv> mon_run mre_act mre_waits mre_call"

section \<open>Properties\<close>

text \<open>C8. A countdown event keeps its count within the non-negative 32-bit range, and the count is what the successful signals, additions and resets
  make it, in their order. A thread sleeps in \<^verbatim>\<open>Wait\<close> with the count at zero only while some thread is between the two
  halves of \<^verbatim>\<open>Reset\<close> and about to notify it.\<close>

theorem countdown_event:
  assumes "CountdownEvent_ctor initialCount = Inr s0" and "initialCount \<le> INTCS_MAX" and run: "cd_run (mon_init CdIdle s0) tr m"
  shows "0 \<le> cd_currentCount (m_shared m) \<and> cd_currentCount (m_shared m) \<le> INTCS_MAX \<and>
    cd_currentCount (m_shared m) = cd_replay initialCount tr \<and>
    (m_asleep m i \<and> cd_currentCount (m_shared m) = 0 \<longrightarrow> (\<exists>j. m_pcs m j = NotifyReset))"
proof -
  have s0: "cd_range s0" "cd_currentCount s0 = initialCount"
    using assms(1,2) by (auto simp: CountdownEvent_ctor_def cd_range_def split: if_splits)
  have "cd_range (m_shared m) \<and> cd_currentCount (m_shared m) = cd_replay initialCount tr"
    using run by (rule cd_threads.in_step_trace [where J = "\<lambda>tr s. cd_range s \<and> cd_currentCount s = cd_replay initialCount tr"])
      (simp_all add: cd_threads.in_step_def s0 cd_replay_def [of _ "[]"], metis cd_replay_act cd_act_invariant)
  moreover have ok: "cd_range (m_shared m) \<and> cd_pc_ok (m_pcs m i)" if "cd_run (mon_init CdIdle s0) tr m" for tr m i
    using cd_threads.in_step_init [OF s0(1) _ _ that] by (simp add: cd_threads.in_step_def)
  then have asleep: "cd_waits (m_pcs m i) \<noteq> None" "cd_ready (m_pcs m i) (m_shared m) \<Longrightarrow> \<exists>j. m_pcs m j = NotifyReset" if "m_asleep m i"
    using cd.sleeping_unready [OF run that] unfolding cd_notifying_def by blast+
  moreover have "\<exists>j. m_pcs m j = NotifyReset" if "m_asleep m i" "cd_currentCount (m_shared m) = 0"
    using asleep that by (cases "m_pcs m i") auto
  ultimately show ?thesis by (auto simp: cd_range_def)
qed

lemma countdown_event_witness:
  "case mon_exec cd_act cd_waits cd_call
      [Call 0 (AtCdWait None), Act 0 False, Act 0 False, Call 1 (AtSignal 1), Act 1 False, Act 1 False, Call 1 (AtReset 0), Act 1 False, Act 1 False]
      (mon_init CdIdle \<lparr>cd_initialCount = 2, cd_currentCount = 2, cd_disposed = False\<rparr>) of
    Some (tr, m) \<Rightarrow> m_asleep m 0 \<and> cd_currentCount (m_shared m) = 0 \<and> (\<exists>j. m_pcs m j = NotifyReset)
  | None \<Rightarrow> False"
  (is "case ?x of Some (tr, m) \<Rightarrow> ?P m | None \<Rightarrow> False")
proof -
  have c: "CountdownEvent_ctor 2 = Inr \<lparr>cd_initialCount = 2, cd_currentCount = 2, cd_disposed = False\<rparr>"
    by (simp add: CountdownEvent_ctor_def)
  obtain tr m where x: "?x = Some (tr, m)" and a: "m_asleep m 0" "cd_currentCount (m_shared m) = 0"
    by (simp add: cd_call_def cd_disposed_check_def cd_wait_def wake_up_def notified_def INTCS_MAX_def)
  show ?thesis unfolding x using countdown_event [OF c _ mon_exec_run [OF x], of 0] a by (simp add: INTCS_MAX_def)
qed

text \<open>C12. \<^verbatim>\<open>ManualResetEventSlim\<close> can lose a wake-up. From a new, unset event there is an interleaving of one \<^verbatim>\<open>Wait()\<close> and one \<^verbatim>\<open>Set()\<close> after
  which \<^verbatim>\<open>Set\<close> has returned, the event is set, nobody holds the mutex, and the waiter sleeps without having been
  notified; every other thread is idle, so nothing will wake it: the store and the notification of \<^verbatim>\<open>Set\<close> fall between the
  evaluation of the waiter's predicate and its sleep.\<close>

theorem manual_reset_event_lost_wakeup:
  "\<exists>tr m. mre_run (mon_init MreIdle (ManualResetEventSlim_ctor False)) tr m \<and> m_asleep m 0 \<and> mre_set (m_shared m) \<and> \<not> mre_locked (m_shared m) \<and>
    m_pcs m = (\<lambda>_. MreIdle)(0 := InMreWait False False, 1 := MreFinished MreDone)"
proof -
  obtain tr m where x: "mon_exec mre_act mre_waits mre_call
      [Call 0 (AtMreWait None), Act 0 False, Act 0 False, Act 0 False, Act 0 False,
       Call 1 AtMreSet, Act 1 False, Act 1 False, Act 0 False]
      (mon_init MreIdle (ManualResetEventSlim_ctor False)) = Some (tr, m)"
    and "m_asleep m 0 \<and> mre_set (m_shared m) \<and> \<not> mre_locked (m_shared m) \<and>
      m_pcs m = (\<lambda>_. MreIdle)(0 := InMreWait False False, 1 := MreFinished MreDone)"
    by (simp add: mre_call_def mre_disposed_check_def ManualResetEventSlim_ctor_def wake_up_def notified_def fun_eq_iff)
  then show ?thesis using mon_exec_run [OF x] by blast
qed

end
