(* ===== verification/Thr_RWLock.thy ===== *)
theory Thr_RWLock
  imports Thr_Semaphore
begin

text \<open>
  \<^verbatim>\<open>System/Threading/ReaderWriterLockSlim.hpp\<close> under any interleaving: read, write and upgradeable locks, both recursion
  policies, timeouts, writer preference and disposal. The per-thread \<^verbatim>\<open>ThreadCounts\<close> are part of each thread. The exit
  operations notify after they have released the mutex.
\<close>

section \<open>Model\<close>

record ThreadCounts =
  tc_reader :: intcs
  tc_writer :: intcs
  tc_upgrade :: intcs
  tc_counted :: bool

text \<open>\<open>tc_counted\<close> is \<^verbatim>\<open>readerCountsTowardGlobal\<close>.\<close>

definition no_counts :: ThreadCounts where
  "no_counts = \<lparr>tc_reader = 0, tc_writer = 0, tc_upgrade = 0, tc_counted = False\<rparr>"

record ReaderWriterLockSlim =
  rw_readers :: intcs
  rw_waitingWriters :: intcs
  rw_waitingReaders :: intcs
  rw_waitingUpgraders :: intcs
  rw_writerActive :: bool
  rw_upgradeableActive :: bool
  rw_disposed :: bool
  rw_reentrant :: bool

text \<open>Any policy but \<^verbatim>\<open>SupportsRecursion\<close> (value 1) is \<^verbatim>\<open>NoRecursion\<close>.\<close>

definition ReaderWriterLockSlim_ctor :: "int \<Rightarrow> ReaderWriterLockSlim" where
  "ReaderWriterLockSlim_ctor recursionPolicy =
     \<lparr>rw_readers = 0, rw_waitingWriters = 0, rw_waitingReaders = 0, rw_waitingUpgraders = 0, rw_writerActive = False,
      rw_upgradeableActive = False, rw_disposed = False, rw_reentrant = (recursionPolicy = 1)\<rparr>"

datatype rw_outcome = RwFlag bool | RwDone | RwThrew exn

text \<open>
  Locations. The flags of the waits: a time limit applies; for the write lock also whether the upgradeable lock is being upgraded.
\<close>

datatype rw_loc =
    RwIdle
  | AtEnterRead intcs | LockEnterRead bool | InEnterRead bool
  | AtEnterWrite intcs | LockEnterWrite bool bool | InEnterWrite bool bool
  | AtEnterUpgrade intcs | LockEnterUpgrade bool | InEnterUpgrade bool
  | AtExitRead | AtExitWrite | AtExitUpgrade | NotifyExit
  | AtRwDispose | CheckDispose
  | AtIsReadHeld | AtIsWriteHeld | AtIsUpgradeHeld
  | RwFinished rw_outcome

type_synonym rw_thread = "ThreadCounts \<times> rw_loc"

text \<open>The exceptions.\<close>

definition recursive_read_exn :: exn where
  "recursive_read_exn = LockRecursionException ''Recursive read lock acquisitions not allowed in this mode.''"

definition read_after_write_exn :: exn where
  "read_after_write_exn = LockRecursionException ''A read lock may not be acquired with the write lock held in this mode.''"

definition recursive_write_exn :: exn where
  "recursive_write_exn = LockRecursionException ''Recursive write lock acquisitions not allowed in this mode.''"

definition recursive_upgrade_exn :: exn where
  "recursive_upgrade_exn = LockRecursionException ''Recursive upgradeable lock acquisitions not allowed in this mode.''"

definition upgrade_after_read_exn :: exn where
  "upgrade_after_read_exn = LockRecursionException ''Upgradeable lock may not be acquired with read lock held.''"

definition write_after_read_exn :: exn where
  "write_after_read_exn = LockRecursionException (
     ''Write lock may not be acquired with read lock held. This pattern is prone to deadlocks. '' @
     ''Please ensure that read locks are released before taking a write lock. '' @
     ''If an upgrade is necessary, use an upgrade lock in place of the read lock.'')"

definition upgrade_after_write_exn :: exn where
  "upgrade_after_write_exn = LockRecursionException (
     ''Upgradeable lock may not be acquired with write lock held in this mode. '' @
     ''Acquiring Upgradeable lock gives the ability to read along with an option to upgrade to a writer.'')"

definition exit_exn :: "string \<Rightarrow> exn" where
  "exit_exn what = SynchronizationLockException (''The '' @ what @ '' lock is being released without being held.'')"

definition exit_read_exn :: exn where "exit_read_exn = exit_exn ''read''"
definition exit_write_exn :: exn where "exit_write_exn = exit_exn ''write''"
definition exit_upgrade_exn :: exn where "exit_upgrade_exn = exit_exn ''upgradeable''"

definition dispose_exn :: exn where
  "dispose_exn = SynchronizationLockException (
     ''The lock is being disposed while still being used. It either is being held '' @
     ''by a thread and/or has active waiters waiting to acquire the lock.'')"

definition rw_disposed_exn :: exn where "rw_disposed_exn = ObjectDisposedException ''ReaderWriterLockSlim''"
definition rw_timeout_exn :: exn where "rw_timeout_exn = ArgumentOutOfRangeException ''millisecondsTimeout''"

definition rw_throws :: "ThreadCounts \<Rightarrow> exn \<Rightarrow> rw_thread" where
  "rw_throws c e = (c, RwFinished (RwThrew e))"

text \<open>The checks before an acquisition, in their order; \<open>k\<close> goes on.\<close>

definition rw_guard :: "intcs \<Rightarrow> ThreadCounts \<Rightarrow> ReaderWriterLockSlim \<Rightarrow> rw_thread \<Rightarrow> rw_thread" where
  "rw_guard millisecondsTimeout c s k =
     (if rw_disposed s then rw_throws c rw_disposed_exn
      else if millisecondsTimeout < - 1 then rw_throws c rw_timeout_exn
      else k)"

definition enter_read :: "intcs \<Rightarrow> ThreadCounts \<Rightarrow> ReaderWriterLockSlim \<Rightarrow> rw_thread" where
  "enter_read ms c s =
     (if tc_reader c > 0 then
        if \<not> rw_reentrant s
        then rw_throws c recursive_read_exn
        else (c\<lparr>tc_reader := tc_reader c + 1\<rparr>, RwFinished (RwFlag True))
      else if \<not> rw_reentrant s \<and> tc_writer c > 0
      then rw_throws c read_after_write_exn
      else if tc_writer c > 0 \<or> tc_upgrade c > 0
      then (c\<lparr>tc_reader := 1, tc_counted := False\<rparr>, RwFinished (RwFlag True))
      else (c, LockEnterRead (ms \<noteq> - 1)))"

definition enter_write :: "intcs \<Rightarrow> ThreadCounts \<Rightarrow> ReaderWriterLockSlim \<Rightarrow> rw_thread" where
  "enter_write ms c s =
     (if tc_writer c > 0 then
        if \<not> rw_reentrant s
        then rw_throws c recursive_write_exn
        else (c\<lparr>tc_writer := tc_writer c + 1\<rparr>, RwFinished (RwFlag True))
      else let upgradingToWrite = (tc_upgrade c > 0)
           in if \<not> upgradingToWrite \<and> tc_reader c > 0 then rw_throws c write_after_read_exn
              else (c, LockEnterWrite (ms \<noteq> - 1) upgradingToWrite))"

text \<open>The second component is the new value of \<^verbatim>\<open>upgradeableActive_\<close>.\<close>

definition enter_upgrade :: "intcs \<Rightarrow> ThreadCounts \<Rightarrow> ReaderWriterLockSlim \<Rightarrow> rw_thread \<times> bool" where
  "enter_upgrade ms c s =
     (if tc_upgrade c > 0 then
        (if \<not> rw_reentrant s
         then rw_throws c recursive_upgrade_exn
         else (c\<lparr>tc_upgrade := tc_upgrade c + 1\<rparr>, RwFinished (RwFlag True)), rw_upgradeableActive s)
      else if tc_writer c > 0 then
        if \<not> rw_reentrant s then (rw_throws c upgrade_after_write_exn, rw_upgradeableActive s)
        else ((c\<lparr>tc_upgrade := tc_upgrade c + 1\<rparr>, RwFinished (RwFlag True)), True)
      else if tc_reader c > 0
      then (rw_throws c upgrade_after_read_exn, rw_upgradeableActive s)
      else ((c, LockEnterUpgrade (ms \<noteq> - 1)), rw_upgradeableActive s))"

text \<open>The waits, entered with their waiter already counted, and what follows them: the guard's destructor runs last.\<close>

definition read_wait :: "bool \<Rightarrow> bool \<Rightarrow> ThreadCounts \<Rightarrow> ReaderWriterLockSlim \<Rightarrow> (rw_thread \<times> bool \<times> ReaderWriterLockSlim \<times> unit list) option" where
  "read_wait timeout timed c s =
     (let left = s\<lparr>rw_waitingReaders := rw_waitingReaders s - 1\<rparr>
      in if \<not> rw_writerActive s \<and> rw_waitingWriters s = 0
         then Some ((c\<lparr>tc_reader := 1, tc_counted := True\<rparr>, RwFinished (RwFlag True)), False, left\<lparr>rw_readers := rw_readers s + 1\<rparr>, [])
         else if timed \<and> timeout then Some ((c, RwFinished (RwFlag False)), False, left, [])
         else Some ((c, InEnterRead timed), True, s, []))"

definition write_wait :: "bool \<Rightarrow> bool \<Rightarrow> bool \<Rightarrow> ThreadCounts \<Rightarrow> ReaderWriterLockSlim \<Rightarrow> (rw_thread \<times> bool \<times> ReaderWriterLockSlim \<times> unit list) option" where
  "write_wait timeout timed upgrading c s =
     (let left = s\<lparr>rw_waitingWriters := rw_waitingWriters s - 1\<rparr>;
          cvs = (if rw_waitingWriters s - 1 = 0 then [()] else [])
      in if (if upgrading then rw_readers s = 0 else \<not> rw_writerActive s \<and> rw_readers s = 0 \<and> \<not> rw_upgradeableActive s)
         then Some ((c\<lparr>tc_writer := tc_writer c + 1\<rparr>, RwFinished (RwFlag True)), False, left\<lparr>rw_writerActive := True\<rparr>, cvs)
         else if timed \<and> timeout then Some ((c, RwFinished (RwFlag False)), False, left, cvs)
         else Some ((c, InEnterWrite timed upgrading), True, s, []))"

definition upgrade_wait :: "bool \<Rightarrow> bool \<Rightarrow> ThreadCounts \<Rightarrow> ReaderWriterLockSlim \<Rightarrow> (rw_thread \<times> bool \<times> ReaderWriterLockSlim \<times> unit list) option" where
  "upgrade_wait timeout timed c s =
     (let left = s\<lparr>rw_waitingUpgraders := rw_waitingUpgraders s - 1\<rparr>
      in if \<not> rw_writerActive s \<and> \<not> rw_upgradeableActive s
         then Some ((c\<lparr>tc_upgrade := tc_upgrade c + 1\<rparr>, RwFinished (RwFlag True)), False, left\<lparr>rw_upgradeableActive := True\<rparr>, [])
         else if timed \<and> timeout then Some ((c, RwFinished (RwFlag False)), False, left, [])
         else Some ((c, InEnterUpgrade timed), True, s, []))"

text \<open>The exits: the notification after the mutex is released is the location \<open>NotifyExit\<close>.\<close>

definition exit_read :: "ThreadCounts \<Rightarrow> ReaderWriterLockSlim \<Rightarrow> rw_thread \<times> ReaderWriterLockSlim" where
  "exit_read c s =
     (if tc_reader c < 1 then (rw_throws c exit_read_exn, s)
      else let c1 = c\<lparr>tc_reader := tc_reader c - 1\<rparr>
           in if tc_reader c1 = 0 \<and> tc_counted c1 then ((c1\<lparr>tc_counted := False\<rparr>, NotifyExit), s\<lparr>rw_readers := rw_readers s - 1\<rparr>)
              else ((c1, RwFinished RwDone), s))"

definition exit_write :: "ThreadCounts \<Rightarrow> ReaderWriterLockSlim \<Rightarrow> rw_thread \<times> ReaderWriterLockSlim" where
  "exit_write c s =
     (if tc_writer c < 1 then (rw_throws c exit_write_exn, s)
      else let c1 = c\<lparr>tc_writer := tc_writer c - 1\<rparr>
           in if tc_writer c1 = 0 then ((c1, NotifyExit), s\<lparr>rw_writerActive := False\<rparr>)
              else ((c1, RwFinished RwDone), s))"

definition exit_upgrade :: "ThreadCounts \<Rightarrow> ReaderWriterLockSlim \<Rightarrow> rw_thread \<times> ReaderWriterLockSlim" where
  "exit_upgrade c s =
     (if tc_upgrade c < 1 then (rw_throws c exit_upgrade_exn, s)
      else let c1 = c\<lparr>tc_upgrade := tc_upgrade c - 1\<rparr>
           in if tc_upgrade c1 = 0 then ((c1, NotifyExit), s\<lparr>rw_upgradeableActive := False\<rparr>)
              else ((c1, RwFinished RwDone), s))"

text \<open>\<^verbatim>\<open>Dispose\<close>: the waiters are checked under the mutex, then the calling thread's own counts.\<close>

definition dispose_waiters :: "ThreadCounts \<Rightarrow> ReaderWriterLockSlim \<Rightarrow> rw_thread" where
  "dispose_waiters c s =
     (if rw_waitingReaders s > 0 \<or> rw_waitingUpgraders s > 0 \<or> rw_waitingWriters s > 0 then rw_throws c dispose_exn
      else (c, CheckDispose))"

definition dispose_held :: "ThreadCounts \<Rightarrow> ReaderWriterLockSlim \<Rightarrow> rw_thread \<times> ReaderWriterLockSlim" where
  "dispose_held c s =
     (if tc_reader c > 0 \<or> tc_writer c > 0 \<or> tc_upgrade c > 0 then (rw_throws c dispose_exn, s)
      else ((c, RwFinished RwDone), s\<lparr>rw_disposed := True\<rparr>))"

fun rw_act :: "(rw_thread, ReaderWriterLockSlim, unit) thread_code" where
  "rw_act t (c, RwIdle) s = None"
| "rw_act t (c, RwFinished r) s = None"
| "rw_act t (c, AtEnterRead ms) s = Some (rw_guard ms c s (enter_read ms c s), False, s, [])"
| "rw_act t (c, LockEnterRead timed) s = read_wait t timed c (s\<lparr>rw_waitingReaders := rw_waitingReaders s + 1\<rparr>)"
| "rw_act t (c, InEnterRead timed) s = read_wait t timed c s"
| "rw_act t (c, AtEnterWrite ms) s = Some (rw_guard ms c s (enter_write ms c s), False, s, [])"
| "rw_act t (c, LockEnterWrite timed upgrading) s = write_wait t timed upgrading c (s\<lparr>rw_waitingWriters := rw_waitingWriters s + 1\<rparr>)"
| "rw_act t (c, InEnterWrite timed upgrading) s = write_wait t timed upgrading c s"
| "rw_act t (c, AtEnterUpgrade ms) s =
     (if rw_disposed s \<or> ms < - 1 then Some (rw_guard ms c s (c, RwIdle), False, s, [])
      else case enter_upgrade ms c s of (p, active) \<Rightarrow> Some (p, False, s\<lparr>rw_upgradeableActive := active\<rparr>, []))"
| "rw_act t (c, LockEnterUpgrade timed) s = upgrade_wait t timed c (s\<lparr>rw_waitingUpgraders := rw_waitingUpgraders s + 1\<rparr>)"
| "rw_act t (c, InEnterUpgrade timed) s = upgrade_wait t timed c s"
| "rw_act t (c, AtExitRead) s = (case exit_read c s of (p, s') \<Rightarrow> Some (p, False, s', []))"
| "rw_act t (c, AtExitWrite) s = (case exit_write c s of (p, s') \<Rightarrow> Some (p, False, s', []))"
| "rw_act t (c, AtExitUpgrade) s = (case exit_upgrade c s of (p, s') \<Rightarrow> Some (p, False, s', []))"
| "rw_act t (c, NotifyExit) s = Some ((c, RwFinished RwDone), False, s, [()])"
| "rw_act t (c, AtRwDispose) s = Some (dispose_waiters c s, False, s, [])"
| "rw_act t (c, CheckDispose) s = (case dispose_held c s of (p, s') \<Rightarrow> Some (p, False, s', []))"
| "rw_act t (c, AtIsReadHeld) s = Some ((c, RwFinished (RwFlag (tc_reader c > 0))), False, s, [])"
| "rw_act t (c, AtIsWriteHeld) s = Some ((c, RwFinished (RwFlag (tc_writer c > 0))), False, s, [])"
| "rw_act t (c, AtIsUpgradeHeld) s = Some ((c, RwFinished (RwFlag (tc_upgrade c > 0))), False, s, [])"

fun rw_waits :: "rw_thread \<Rightarrow> unit option" where
  "rw_waits (c, InEnterRead timed) = Some ()"
| "rw_waits (c, InEnterWrite timed upgrading) = Some ()"
| "rw_waits (c, InEnterUpgrade timed) = Some ()"
| "rw_waits _ = None"

definition rw_public :: "rw_loc \<Rightarrow> bool" where
  "rw_public q \<longleftrightarrow> (case q of AtEnterRead ms \<Rightarrow> True | AtEnterWrite ms \<Rightarrow> True | AtEnterUpgrade ms \<Rightarrow> True | AtExitRead \<Rightarrow> True
     | AtExitWrite \<Rightarrow> True | AtExitUpgrade \<Rightarrow> True | AtRwDispose \<Rightarrow> True | AtIsReadHeld \<Rightarrow> True | AtIsWriteHeld \<Rightarrow> True
     | AtIsUpgradeHeld \<Rightarrow> True | _ \<Rightarrow> False)"

definition rw_call :: "rw_thread \<Rightarrow> rw_thread \<Rightarrow> bool" where
  "rw_call p q \<longleftrightarrow> (case snd p of RwIdle \<Rightarrow> True | RwFinished r \<Rightarrow> True | _ \<Rightarrow> False) \<and> fst q = fst p \<and> rw_public (snd q)"

abbreviation rw_run where
  "rw_run \<equiv> mon_run rw_act rw_waits rw_call"

section \<open>Lemmas\<close>

abbreviation holds_write :: "rw_thread \<Rightarrow> bool" where "holds_write p \<equiv> tc_writer (fst p) > 0"
abbreviation holds_upgrade :: "rw_thread \<Rightarrow> bool" where "holds_upgrade p \<equiv> tc_upgrade (fst p) > 0"
abbreviation holds_read :: "rw_thread \<Rightarrow> bool" where "holds_read p \<equiv> tc_reader (fst p) > 0"
abbreviation counted_read :: "rw_thread \<Rightarrow> bool" where "counted_read p \<equiv> tc_counted (fst p)"

definition writer_waits :: "rw_thread \<Rightarrow> bool" where
  "writer_waits p \<longleftrightarrow> (case snd p of InEnterWrite timed upgrading \<Rightarrow> True | _ \<Rightarrow> False)"

text \<open>What the checks before a wait establish about the thread's own counts.\<close>

fun rw_loc_ok :: "ThreadCounts \<Rightarrow> rw_loc \<Rightarrow> bool" where
  "rw_loc_ok c (LockEnterRead timed) = (tc_reader c = 0 \<and> tc_writer c = 0 \<and> tc_upgrade c = 0)"
| "rw_loc_ok c (InEnterRead timed) = (tc_reader c = 0 \<and> tc_writer c = 0 \<and> tc_upgrade c = 0)"
| "rw_loc_ok c (LockEnterWrite timed upgrading) = (tc_writer c = 0 \<and> (upgrading \<longleftrightarrow> tc_upgrade c > 0) \<and> \<not> tc_counted c)"
| "rw_loc_ok c (InEnterWrite timed upgrading) = (tc_writer c = 0 \<and> (upgrading \<longleftrightarrow> tc_upgrade c > 0) \<and> \<not> tc_counted c)"
| "rw_loc_ok c (LockEnterUpgrade timed) = (tc_reader c = 0 \<and> tc_writer c = 0 \<and> tc_upgrade c = 0)"
| "rw_loc_ok c (InEnterUpgrade timed) = (tc_reader c = 0 \<and> tc_writer c = 0 \<and> tc_upgrade c = 0)"
| "rw_loc_ok c _ = True"

definition counts_ok :: "ThreadCounts \<Rightarrow> bool" where
  "counts_ok c \<longleftrightarrow> 0 \<le> tc_reader c \<and> 0 \<le> tc_writer c \<and> 0 \<le> tc_upgrade c \<and> (tc_counted c \<longrightarrow> 1 \<le> tc_reader c \<and> tc_writer c = 0 \<and> tc_upgrade c = 0)"

text \<open>A thread and the shared flags: what it holds is marked, and while it holds one of the write and the upgradeable lock no other thread holds the other.\<close>

definition rw_view :: "rw_thread \<Rightarrow> ReaderWriterLockSlim \<Rightarrow> bool" where
  "rw_view p s \<longleftrightarrow> counts_ok (fst p) \<and> rw_loc_ok (fst p) (snd p) \<and> (holds_write p \<longrightarrow> rw_writerActive s) \<and>
     (holds_upgrade p \<longrightarrow> rw_upgradeableActive s) \<and> (holds_upgrade p \<and> \<not> holds_write p \<longrightarrow> \<not> rw_writerActive s) \<and>
     (holds_write p \<and> \<not> holds_upgrade p \<longrightarrow> \<not> rw_upgradeableActive s)"

definition rw_compatible :: "rw_thread \<Rightarrow> rw_thread \<Rightarrow> bool" where
  "rw_compatible p q \<longleftrightarrow> \<not> (holds_write p \<and> (holds_write q \<or> holds_upgrade q)) \<and> \<not> (holds_upgrade p \<and> (holds_write q \<or> holds_upgrade q))"

lemmas rw_defs = rw_guard_def rw_throws_def enter_read_def enter_write_def enter_upgrade_def read_wait_def write_wait_def upgrade_wait_def
  exit_read_def exit_write_def exit_upgrade_def dispose_waiters_def dispose_held_def Let_def

lemma rw_view_entry:
  assumes "rw_view (c, loc) s"
  shows "rw_view (enter_read ms c s) s" "rw_view (enter_write ms c s) s"
proof -
  have c: "counts_ok c" "tc_writer c > 0 \<Longrightarrow> rw_writerActive s" "tc_upgrade c > 0 \<Longrightarrow> rw_upgradeableActive s"
    "tc_upgrade c > 0 \<Longrightarrow> tc_writer c \<le> 0 \<Longrightarrow> \<not> rw_writerActive s" "tc_writer c > 0 \<Longrightarrow> tc_upgrade c \<le> 0 \<Longrightarrow> \<not> rw_upgradeableActive s"
    using assms by (simp_all add: rw_view_def)
  show "rw_view (enter_read ms c s) s"
    using c by (cases "tc_reader c > 0"; cases "tc_writer c > 0"; cases "tc_upgrade c > 0"; cases "rw_reentrant s")
      (simp_all add: rw_view_def counts_ok_def enter_read_def rw_throws_def)
  show "rw_view (enter_write ms c s) s"
    using c by (cases "tc_reader c > 0"; cases "tc_writer c > 0"; cases "tc_upgrade c > 0"; cases "rw_reentrant s")
      (simp_all add: rw_view_def counts_ok_def enter_write_def rw_throws_def)
qed

lemma rw_guard_cases: "rw_guard ms c s k = k \<or> (\<exists>e. rw_guard ms c s k = (c, RwFinished (RwThrew e)))"
  by (auto simp: rw_guard_def rw_throws_def)

lemma rw_view_finished: "rw_view (c, loc) s \<Longrightarrow> rw_view (c, RwFinished r) s"
  by (simp add: rw_view_def)

lemma rw_view_guard: "rw_view (c, loc) s \<Longrightarrow> rw_view k s \<Longrightarrow> rw_view (rw_guard ms c s k) s"
  using rw_guard_cases [of ms c s k] rw_view_finished by auto

lemma rw_own:
  assumes "rw_act t p s = Some (p', sleeps, s', cvs)" and "rw_view p s"
  shows "rw_view p' s'"
  using assms
proof (cases "(t, p, s)" rule: rw_act.cases)
  case (3 t c ms s)
  then show ?thesis using assms by (auto intro: rw_view_guard rw_view_entry)
next
  case (6 t c ms s)
  then show ?thesis using assms by (auto intro: rw_view_guard rw_view_entry)
qed (clarsimp simp: rw_defs rw_view_def counts_ok_def split: if_splits)+

text \<open>The entry checks change no lock of the thread from free to held, except a read lock under a held write or upgradeable lock.\<close>

lemma entry_holds:
  "tc_writer (fst (rw_guard ms c s (enter_read ms c s))) = tc_writer c" "tc_upgrade (fst (rw_guard ms c s (enter_read ms c s))) = tc_upgrade c"
  "holds_write (rw_guard ms c s (enter_write ms c s)) = (tc_writer c > 0)" "tc_upgrade (fst (rw_guard ms c s (enter_write ms c s))) = tc_upgrade c"
  by (auto simp: rw_guard_def rw_throws_def enter_read_def enter_write_def Let_def)

lemma rw_others:
  assumes "rw_act t p s = Some (p', sleeps, s', cvs)" and "rw_view p s" and "rw_view q s" and "rw_compatible p q"
  shows "rw_view q s' \<and> rw_compatible p' q"
  using assms
proof (cases "(t, p, s)" rule: rw_act.cases)
  case (3 t c ms s)
  then show ?thesis using assms by (auto simp: rw_compatible_def entry_holds)
next
  case (6 t c ms s)
  then show ?thesis using assms by (auto simp: rw_compatible_def entry_holds)
qed (clarsimp simp: rw_defs rw_view_def rw_compatible_def counts_ok_def split: if_splits)+

interpretation rw_threads: interference rw_act rw_call "\<lambda>_. True" rw_view rw_compatible
proof
  show "rw_compatible p q \<Longrightarrow> rw_compatible q p" for p q by (auto simp: rw_compatible_def)
  show "rw_call p p' \<Longrightarrow> rw_view p s \<Longrightarrow> rw_view p' s" for p p' s
    by (cases "snd p'") (auto simp: rw_call_def rw_public_def rw_view_def)
  show "rw_call p p' \<Longrightarrow> rw_compatible p q \<Longrightarrow> rw_compatible p' q" for p p' q
    by (auto simp: rw_call_def rw_compatible_def)
qed (use rw_own rw_others in auto)

lemma entry_counted: "rw_view (c, loc) s \<Longrightarrow> counted_read (rw_guard ms c s (enter_read ms c s)) = tc_counted c"
  "counted_read (rw_guard ms c s (enter_write ms c s)) = tc_counted c"
  by (auto simp: rw_guard_def rw_throws_def enter_read_def enter_write_def Let_def rw_view_def counts_ok_def)

lemma entry_not_waiting: "\<not> writer_waits (rw_guard ms c s (enter_read ms c s))" "\<not> writer_waits (rw_guard ms c s (enter_write ms c s))"
  by (auto simp: rw_guard_def rw_throws_def enter_read_def enter_write_def Let_def writer_waits_def)

lemma rw_readers_move:
  assumes "rw_act t p s = Some (p', sleeps, s', cvs)" and "rw_view p s"
  shows "rw_readers s' = rw_readers s + of_bool (counted_read p') - of_bool (counted_read p)"
  using assms
proof (cases "(t, p, s)" rule: rw_act.cases)
  case (3 t c ms s)
  then show ?thesis using assms by (auto simp: entry_counted)
next
  case (6 t c ms s)
  then show ?thesis using assms by (auto simp: entry_counted)
qed (clarsimp simp: rw_defs rw_view_def counts_ok_def split: if_splits)+

lemma rw_writer_moves:
  assumes "rw_act t p s = Some (p', sleeps, s', cvs)" and "rw_view p s"
  shows "of_bool (rw_writerActive s') = (of_bool (rw_writerActive s) + of_bool (holds_write p') - of_bool (holds_write p) :: int)"
  using assms
proof (cases "(t, p, s)" rule: rw_act.cases)
  case (3 t c ms s)
  then show ?thesis using assms by (auto simp: entry_holds)
next
  case (6 t c ms s)
  then show ?thesis using assms by (auto simp: entry_holds)
qed (clarsimp simp: rw_defs rw_view_def counts_ok_def split: if_splits)+

lemma rw_upgrade_moves:
  assumes "rw_act t p s = Some (p', sleeps, s', cvs)" and "rw_view p s"
  shows "of_bool (rw_upgradeableActive s') = (of_bool (rw_upgradeableActive s) + of_bool (holds_upgrade p') - of_bool (holds_upgrade p) :: int)"
  using assms
proof (cases "(t, p, s)" rule: rw_act.cases)
  case (3 t c ms s)
  then show ?thesis using assms by (auto simp: entry_holds)
next
  case (6 t c ms s)
  then show ?thesis using assms by (auto simp: entry_holds)
qed (clarsimp simp: rw_defs rw_view_def counts_ok_def split: if_splits)+

lemma rw_waiting_moves:
  assumes "rw_act t p s = Some (p', sleeps, s', cvs)" and "rw_view p s"
  shows "rw_waitingWriters s' = rw_waitingWriters s + of_bool (writer_waits p') - of_bool (writer_waits p)"
  using assms
proof (cases "(t, p, s)" rule: rw_act.cases)
  case (3 t c ms s)
  then show ?thesis using assms by (auto simp: entry_not_waiting) (auto simp: writer_waits_def)
next
  case (6 t c ms s)
  then show ?thesis using assms by (auto simp: entry_not_waiting) (auto simp: writer_waits_def)
qed (clarsimp simp: rw_defs writer_waits_def split: if_splits)+

lemma rw_call_keeps: "rw_call p p' \<Longrightarrow> fst p' = fst p \<and> writer_waits p' = writer_waits p"
  by (cases "snd p"; cases "snd p'") (auto simp: rw_call_def rw_public_def writer_waits_def)

interpretation rw_reading: tally rw_act rw_call "\<lambda>_. True" rw_view rw_compatible rw_readers counted_read
  by unfold_locales (auto simp: rw_readers_move dest: rw_call_keeps)

interpretation rw_writing: tally rw_act rw_call "\<lambda>_. True" rw_view rw_compatible "\<lambda>s. of_bool (rw_writerActive s)" holds_write
  by unfold_locales (auto simp: rw_writer_moves dest: rw_call_keeps)

interpretation rw_upgrading: tally rw_act rw_call "\<lambda>_. True" rw_view rw_compatible "\<lambda>s. of_bool (rw_upgradeableActive s)" holds_upgrade
  by unfold_locales (auto simp: rw_upgrade_moves dest: rw_call_keeps)

interpretation rw_queueing: tally rw_act rw_call "\<lambda>_. True" rw_view rw_compatible rw_waitingWriters writer_waits
  by unfold_locales (auto simp: rw_waiting_moves dest: rw_call_keeps)

abbreviation rw_start :: "int \<Rightarrow> (rw_thread, ReaderWriterLockSlim) monitor_state" where
  "rw_start recursionPolicy \<equiv> mon_init (no_counts, RwIdle) (ReaderWriterLockSlim_ctor recursionPolicy)"

lemma rw_start_ok: "rw_view (no_counts, RwIdle) (ReaderWriterLockSlim_ctor policy)" "rw_compatible (no_counts, RwIdle) (no_counts, RwIdle)"
  by (simp_all add: rw_view_def rw_compatible_def counts_ok_def no_counts_def ReaderWriterLockSlim_ctor_def)

lemma rw_tallies:
  assumes "rw_run (rw_start policy) tr m"
  shows "rw_readers (m_shared m) = int (tally_of counted_read m)" "finite {i. counted_read (m_pcs m i)}"
    "of_bool (rw_writerActive (m_shared m)) = int (tally_of holds_write m)"
    "rw_waitingWriters (m_shared m) = int (tally_of writer_waits m)" "finite {i. writer_waits (m_pcs m i)}"
    "of_bool (rw_upgradeableActive (m_shared m)) = int (tally_of holds_upgrade m)" "finite {i. holds_write (m_pcs m i)}"
  using rw_reading.count_is_tally [OF assms TrueI rw_start_ok] rw_writing.count_is_tally [OF assms TrueI rw_start_ok]
    rw_queueing.count_is_tally [OF assms TrueI rw_start_ok] rw_upgrading.count_is_tally [OF assms TrueI rw_start_ok]
  by (simp_all add: no_counts_def ReaderWriterLockSlim_ctor_def writer_waits_def)

text \<open>A thread that satisfies \<open>P\<close> makes the tally positive.\<close>

lemma tally_pos: "finite {i. P (m_pcs m i)} \<Longrightarrow> P (m_pcs m i) \<Longrightarrow> 1 \<le> tally_of P m"
  unfolding tally_of_def by (metis One_nat_def Suc_leI card_gt_0_iff empty_iff mem_Collect_eq)

text \<open>No reader is counted while a writer is active.\<close>

lemma rw_no_readers_act:
  assumes "rw_act t p s = Some (p', sleeps, s', cvs)" and "rw_view p s" and "counted_read p \<Longrightarrow> 1 \<le> rw_readers s"
    and "rw_writerActive s \<Longrightarrow> rw_readers s = 0"
  shows "rw_writerActive s' \<Longrightarrow> rw_readers s' = 0"
  using assms by (cases "(t, p, s)" rule: rw_act.cases)
    (clarsimp simp: rw_defs split: if_splits; fail)+

lemma rw_no_readers: "rw_run (rw_start policy) tr m \<Longrightarrow> rw_writerActive (m_shared m) \<Longrightarrow> rw_readers (m_shared m) = 0"
proof (induction rule: mon_run.induct)
  case start
  then show ?case by (simp add: ReaderWriterLockSlim_ctor_def)
next
  case (acts tr m timeout i p sleeps s cvs)
  have "counted_read (m_pcs m i) \<Longrightarrow> 1 \<le> rw_readers (m_shared m)"
    using rw_tallies(1,2) [OF acts(1)] tally_pos [of counted_read m i] by simp
  moreover have "rw_view (m_pcs m i) (m_shared m)"
    using rw_threads.in_step_init [OF TrueI rw_start_ok acts(1)] by (simp add: rw_threads.in_step_def)
  ultimately show ?case using rw_no_readers_act [OF acts(2)] acts by auto
qed simp

section \<open>No lost wake-ups\<close>

fun rw_ready :: "rw_thread \<Rightarrow> ReaderWriterLockSlim \<Rightarrow> bool" where
  "rw_ready (c, InEnterRead timed) s = (\<not> rw_writerActive s \<and> rw_waitingWriters s = 0)"
| "rw_ready (c, InEnterWrite timed upgrading) s =
     (if upgrading then rw_readers s = 0 else \<not> rw_writerActive s \<and> rw_readers s = 0 \<and> \<not> rw_upgradeableActive s)"
| "rw_ready (c, InEnterUpgrade timed) s = (\<not> rw_writerActive s \<and> \<not> rw_upgradeableActive s)"
| "rw_ready _ s = True"

definition rw_notifying :: "rw_thread \<Rightarrow> unit \<Rightarrow> bool" where
  "rw_notifying p cv \<longleftrightarrow> snd p = NotifyExit"

definition rw_ok :: "rw_thread \<Rightarrow> ReaderWriterLockSlim \<Rightarrow> bool" where
  "rw_ok p s \<longleftrightarrow> rw_view p s \<and> 0 \<le> rw_readers s \<and> 0 \<le> rw_waitingWriters s \<and> (writer_waits p \<longrightarrow> 1 \<le> rw_waitingWriters s)"

text \<open>How a critical section can enable a wait: it notifies, or it is the first half of an exit.\<close>

lemma rw_enabling:
  assumes "rw_act t p s = Some (p', sleeps, s', cvs)" and "rw_ok p s"
  shows "(rw_writerActive s \<longrightarrow> rw_writerActive s') \<and> (rw_upgradeableActive s \<longrightarrow> rw_upgradeableActive s') \<and>
      (rw_readers s' = 0 \<longrightarrow> rw_readers s = 0) \<and> (rw_waitingWriters s' = 0 \<longrightarrow> rw_waitingWriters s = 0) \<or>
    () \<in> set cvs \<or> rw_notifying p' ()"
  using assms by (cases "(t, p, s)" rule: rw_act.cases)
    (clarsimp simp: rw_defs rw_notifying_def rw_ok_def writer_waits_def split: if_splits; fail)+

interpretation rw: monitor rw_act rw_waits rw_call rw_ready rw_notifying rw_ok
proof
  fix t p s p' sleeps s' cvs q and cv :: unit
  show "rw_act t p s = Some (p', True, s', cvs) \<Longrightarrow> rw_ok p s \<Longrightarrow> rw_waits p' \<noteq> None \<and> \<not> rw_ready p' s'"
    by (cases "(t, p, s)" rule: rw_act.cases) (clarsimp simp: rw_defs split: if_splits; fail)+
  show "rw_act t p s = Some (p', sleeps, s', cvs) \<Longrightarrow> rw_ok p s \<Longrightarrow> rw_waits q = Some cv \<Longrightarrow> rw_ready q s' \<Longrightarrow>
      rw_ready q s \<or> cv \<in> set cvs \<or> rw_notifying p' cv"
    using rw_enabling [of t p s p' sleeps s' cvs] by (cases q rule: rw_waits.cases) (auto split: if_splits)
  show "rw_act t p s = Some (p', sleeps, s', cvs) \<Longrightarrow> rw_notifying p cv \<Longrightarrow> cv \<in> set cvs \<or> rw_notifying p' cv"
    by (cases p) (auto simp: rw_notifying_def)
  show "rw_call p p' \<Longrightarrow> rw_waits p = None" by (cases p rule: rw_waits.cases) (auto simp: rw_call_def)
  show "rw_call p p' \<Longrightarrow> \<not> rw_notifying p cv" by (cases p) (auto simp: rw_call_def rw_notifying_def)
qed

lemma rw_run_ok:
  assumes "rw_run (rw_start policy) tr m"
  shows "rw_ok (m_pcs m i) (m_shared m)"
proof -
  have "rw_view (m_pcs m i) (m_shared m)"
    using rw_threads.in_step_init [OF TrueI rw_start_ok assms] by (simp add: rw_threads.in_step_def)
  then show ?thesis using rw_tallies [OF assms] tally_pos [of writer_waits m i] by (simp add: rw_ok_def)
qed

text \<open>Some thread stands behind every flag and counter.\<close>

lemma tally_some: "tally_of P m \<noteq> 0 \<Longrightarrow> \<exists>k. P (m_pcs m k)"
  unfolding tally_of_def by (metis (mono_tags, lifting) card.empty Collect_empty_eq)

lemma rw_behind:
  assumes "rw_run (rw_start policy) tr m"
  shows "rw_writerActive (m_shared m) \<Longrightarrow> \<exists>k. holds_write (m_pcs m k)"
    and "rw_upgradeableActive (m_shared m) \<Longrightarrow> \<exists>k. holds_upgrade (m_pcs m k)"
    and "rw_readers (m_shared m) \<noteq> 0 \<Longrightarrow> \<exists>k. counted_read (m_pcs m k)"
    and "rw_waitingWriters (m_shared m) \<noteq> 0 \<Longrightarrow> \<exists>k. writer_waits (m_pcs m k)"
  using rw_tallies [OF assms] tally_some [of holds_write m] tally_some [of holds_upgrade m] tally_some [of counted_read m]
    tally_some [of writer_waits m] by (simp_all split: if_splits)


lemma rw_asleep:
  assumes "rw_run (rw_start policy) tr m" and "m_asleep m i"
  shows "rw_waits (m_pcs m i) \<noteq> None" and "rw_ready (m_pcs m i) (m_shared m) \<Longrightarrow> \<exists>j. snd (m_pcs m j) = NotifyExit"
  using rw.sleeping_unready [OF assms] rw_run_ok unfolding rw_notifying_def by blast+

text \<open>Threads that hold the write lock or a counted read lock never sleep; one that holds the upgradeable lock sleeps only to upgrade it.\<close>

lemma rw_holder_awake:
  assumes "rw_run (rw_start policy) tr m" and "m_asleep m k"
  shows "\<not> holds_write (m_pcs m k)" and "\<not> counted_read (m_pcs m k)"
    and "holds_upgrade (m_pcs m k) \<Longrightarrow> \<exists>timed. snd (m_pcs m k) = InEnterWrite timed True"
proof -
  obtain c loc where p: "m_pcs m k = (c, loc)" by fastforce
  then have "rw_waits (c, loc) \<noteq> None" "rw_loc_ok c loc" "counts_ok c"
    using rw_asleep(1) [OF assms] rw_run_ok [OF assms(1), of k] by (simp_all add: rw_ok_def rw_view_def)
  then show "\<not> holds_write (m_pcs m k)" "\<not> counted_read (m_pcs m k)"
    "holds_upgrade (m_pcs m k) \<Longrightarrow> \<exists>timed. snd (m_pcs m k) = InEnterWrite timed True"
    using p by (cases loc; simp add: counts_ok_def)+
qed

lemma rw_notifier_awake: "rw_run (rw_start policy) tr m \<Longrightarrow> snd (m_pcs m j) = NotifyExit \<Longrightarrow> \<not> m_asleep m j"
  using rw_asleep(1) [of policy tr m j] by (cases "m_pcs m j") auto

definition rw_busy :: "rw_thread \<Rightarrow> bool" where
  "rw_busy p \<longleftrightarrow> holds_write p \<or> holds_upgrade p \<or> counted_read p \<or> writer_waits p \<or> snd p = NotifyExit"

lemma rw_writer_asleep:
  assumes run: "rw_run (rw_start policy) tr m" and i: "m_asleep m i" "snd (m_pcs m i) = InEnterWrite timed upgrading"
  shows "\<exists>k. \<not> m_asleep m k \<and> rw_busy (m_pcs m k)"
proof (rule ccontr)
  assume none: "\<nexists>k. \<not> m_asleep m k \<and> rw_busy (m_pcs m k)"
  have w: "\<not> rw_writerActive (m_shared m)" and r: "rw_readers (m_shared m) = 0"
    using rw_behind(1,3) [OF run] rw_holder_awake(1,2) [OF run] none unfolding rw_busy_def by blast+
  have n: "snd (m_pcs m j) \<noteq> NotifyExit" for j
    using none rw_notifier_awake [OF run] unfolding rw_busy_def by blast
  have "\<not> rw_ready (m_pcs m i) (m_shared m)"
    using rw_asleep(2) [OF run i(1)] n by blast
  then have "rw_upgradeableActive (m_shared m)"
    using i w r by (cases "m_pcs m i") (auto split: if_splits)
  then obtain k where k: "holds_upgrade (m_pcs m k)" using rw_behind(2) [OF run] by blast
  then have a: "m_asleep m k" using none unfolding rw_busy_def by blast
  then obtain timed where "snd (m_pcs m k) = InEnterWrite timed True" using rw_holder_awake(3) [OF run a k] by blast
  then have "rw_ready (m_pcs m k) (m_shared m)" using r by (cases "m_pcs m k") auto
  then show False using rw_asleep(2) [OF run a] n by blast
qed

section \<open>Properties\<close>

text \<open>C3. Mutual exclusion of the reader-writer lock, for both policies: while a thread holds the write lock, no other thread holds the write lock, the
  upgradeable lock or a read lock that was acquired on its own (not inside a write or upgradeable lock); at most one thread
  holds the upgradeable lock. The counters tell the truth: the reader count is the number of threads with such a read lock, the
  writer flag is set exactly while some thread holds the write lock, the upgradeable flag likewise.\<close>

theorem rwlock_exclusion:
  assumes "rw_run (rw_start policy) tr m" and "i \<noteq> j"
  shows "(holds_write (m_pcs m i) \<longrightarrow> \<not> holds_write (m_pcs m j) \<and> \<not> holds_upgrade (m_pcs m j) \<and> \<not> counted_read (m_pcs m j)) \<and>
    (holds_upgrade (m_pcs m i) \<longrightarrow> \<not> holds_upgrade (m_pcs m j)) \<and>
    rw_readers (m_shared m) = int (tally_of counted_read m) \<and>
    (rw_writerActive (m_shared m) \<longleftrightarrow> (\<exists>k. holds_write (m_pcs m k))) \<and>
    (rw_upgradeableActive (m_shared m) \<longleftrightarrow> (\<exists>k. holds_upgrade (m_pcs m k)))"
proof -
  have "rw_compatible (m_pcs m i) (m_pcs m j)" and view: "\<And>k. rw_view (m_pcs m k) (m_shared m)"
    using rw_threads.in_step_init [OF TrueI rw_start_ok assms(1)] assms(2) by (simp_all add: rw_threads.in_step_def)
  moreover have "\<not> counted_read (m_pcs m j)" if "holds_write (m_pcs m i)"
    using rw_no_readers [OF assms(1)] view [of i] that tally_pos [of counted_read m j] rw_tallies(1,2) [OF assms(1)]
    by (auto simp: rw_view_def)
  moreover have "rw_writerActive (m_shared m)" if "holds_write (m_pcs m k)" for k using view [of k] that by (simp add: rw_view_def)
  moreover have "rw_upgradeableActive (m_shared m)" if "holds_upgrade (m_pcs m k)" for k using view [of k] that by (simp add: rw_view_def)
  ultimately show ?thesis
    using rw_behind [OF assms(1)] rw_tallies(1) [OF assms(1)] unfolding rw_compatible_def by blast
qed

text \<open>C4. The reader-writer lock never deadlocks on its own: whenever a thread sleeps in an acquisition, some thread that is not asleep
  holds the lock, is a writer whose turn it is to look again, or is about to notify. In particular an upgrade never waits for itself, and
  a reader held back for a waiting writer never waits for one that waits for it.\<close>

theorem rwlock_no_deadlock:
  assumes run: "rw_run (rw_start policy) tr m" and "m_asleep m i"
  shows "\<exists>k. \<not> m_asleep m k \<and> rw_busy (m_pcs m k)"
proof (rule ccontr)
  assume none: "\<nexists>k. \<not> m_asleep m k \<and> rw_busy (m_pcs m k)"
  have no_writer: "\<not> writer_waits (m_pcs m k)" for k
  proof
    assume w: "writer_waits (m_pcs m k)"
    then have "m_asleep m k" using none unfolding rw_busy_def by blast
    then show False using w none rw_writer_asleep [OF run] unfolding writer_waits_def by (cases "snd (m_pcs m k)") simp_all
  qed
  have "\<not> holds_write (m_pcs m k)" "\<not> holds_upgrade (m_pcs m k)" for k
    using none rw_holder_awake(1,3) [OF run, of k] rw_writer_asleep [OF run, of k] unfolding rw_busy_def by blast+
  then have "\<not> rw_writerActive (m_shared m)" "\<not> rw_upgradeableActive (m_shared m)" "rw_waitingWriters (m_shared m) = 0"
    using rw_behind [OF run] no_writer by blast+
  then have "rw_ready (m_pcs m i) (m_shared m)"
    using rw_asleep(1) [OF run assms(2)] no_writer [of i]
    by (cases "m_pcs m i" rule: rw_waits.cases) (auto simp: writer_waits_def)
  then obtain j where "snd (m_pcs m j) = NotifyExit" using rw_asleep(2) [OF run assms(2)] by blast
  then show False using none rw_notifier_awake [OF run] unfolding rw_busy_def by blast
qed

text \<open>C11. A read lock taken inside the upgradeable lock outlives it unprotected. With the default policy, a thread that enters the upgradeable lock,
  enters the read lock and leaves the upgradeable lock (a downgrade) still holds the read lock, but another thread
  then acquires the write lock without waiting: a reader and a writer at the same time.\<close>

theorem rwlock_downgrade_unprotected:
  "\<exists>tr m. rw_run (rw_start 0) tr m \<and> holds_read (m_pcs m 0) \<and> holds_write (m_pcs m 1) \<and> rw_readers (m_shared m) = 0 \<and>
    rw_act False (fst (m_pcs m 0), AtIsReadHeld) (m_shared m) = Some ((fst (m_pcs m 0), RwFinished (RwFlag True)), False, m_shared m, []) \<and>
    rw_act False (fst (m_pcs m 1), AtIsWriteHeld) (m_shared m) = Some ((fst (m_pcs m 1), RwFinished (RwFlag True)), False, m_shared m, [])"
proof -
  let ?c = "no_counts\<lparr>tc_upgrade := 1\<rparr>"
  let ?c' = "?c\<lparr>tc_reader := 1\<rparr>"
  obtain tr m where x: "mon_exec rw_act rw_waits rw_call
      [Call 0 (no_counts, AtEnterUpgrade (- 1)), Act 0 False, Act 0 False, Call 0 (?c, AtEnterRead (- 1)), Act 0 False,
       Call 0 (?c', AtExitUpgrade), Act 0 False, Act 0 False, Call 1 (no_counts, AtEnterWrite (- 1)), Act 1 False, Act 1 False]
      (rw_start 0) = Some (tr, m)"
    and "holds_read (m_pcs m 0)" "holds_write (m_pcs m 1)" "rw_readers (m_shared m) = 0"
    by (simp add: rw_call_def rw_public_def rw_defs no_counts_def ReaderWriterLockSlim_ctor_def wake_up_def notified_def)
  then show ?thesis using mon_exec_run [OF x] by (intro exI [of _ tr] exI [of _ m]) simp
qed

text \<open>A writer inside, a reader and an upgrader asleep.\<close>

lemma rw_witness_run:
  "\<exists>tr m. rw_run (rw_start 0) tr m \<and> holds_write (m_pcs m 0) \<and> m_asleep m 1 \<and> m_asleep m 2"
proof -
  obtain tr m where x: "mon_exec rw_act rw_waits rw_call
      [Call 0 (no_counts, AtEnterWrite (- 1)), Act 0 False, Act 0 False, Call 1 (no_counts, AtEnterRead (- 1)), Act 1 False, Act 1 False,
       Call 2 (no_counts, AtEnterUpgrade 5), Act 2 False, Act 2 False] (rw_start 0) = Some (tr, m)"
    and "holds_write (m_pcs m 0)" "m_asleep m 1" "m_asleep m 2"
    by (simp add: rw_call_def rw_public_def rw_defs no_counts_def ReaderWriterLockSlim_ctor_def wake_up_def notified_def)
  then show ?thesis using mon_exec_run [OF x] by blast
qed

lemma rwlock_exclusion_witness:
  "\<exists>tr m. rw_run (rw_start 0) tr m \<and> (0 :: nat) \<noteq> 1 \<and> holds_write (m_pcs m 0) \<and> \<not> counted_read (m_pcs m 1) \<and> rw_writerActive (m_shared m)"
  using rw_witness_run rwlock_exclusion [of 0 _ _ 0 1] by (metis zero_neq_one)

lemma rwlock_no_deadlock_witness:
  "\<exists>tr m. rw_run (rw_start 0) tr m \<and> m_asleep m 1 \<and> (\<exists>k. \<not> m_asleep m k \<and> rw_busy (m_pcs m k))"
  using rw_witness_run rwlock_no_deadlock [of 0] by blast

end
