(* ===== verification/Spec2Isabelle.thy ===== *)
theory Spec2Isabelle
  imports Hash_Adler32 Hash_Crc32 Hash_Crc64 Hash_XxHash32 Hash_XxHash64 Coll_PriorityQueue Coll_LinkedList_Spec Time_DateTime
    Buf_Base64_Outcome Buf_Binary Text_Utf7 IO_Chars Thr_Prioritized Thr_Events Thr_RWLock
begin

text \<open>
  Sharp Runtime is a C++ implementation of the .NET base class library, split into modules under
  \<^verbatim>\<open>src/modules\<close>. This library models the parts of it that carry state machines, codecs, arithmetic and
  container logic, and proves what makes them correct. Programs are shallowly embedded: a class is a
  record, an enumeration a datatype, an operation a function from the state (and the arguments) to the
  new state and the result; an operation that can throw returns \<open>exn + 'a\<close>; machine integers are words,
  or \<open>int\<close> and \<open>nat\<close> where the source works with lengths and indices. All definitions compute.

  \<^bold>\<open>Reading guide.\<close> \<^verbatim>\<open>SR_Prelude\<close> holds the integer aliases of \<^verbatim>\<open>SharpRuntimeHelper.hpp\<close>, the exceptions, the
  result type and the shared facts on words. Every other theory names at its top the source files it
  models; the sections called Model translate the code in the order of the file, what follows are
  specifications, lemmas and, at the end, the properties. Where several operations share a contract it is a
  locale, interpreted on the definitions of the model.

  \<^bold>\<open>Hashing\<close> (\<^verbatim>\<open>modules/io-hashing\<close>). \<^verbatim>\<open>Hashing_Base\<close> models \<^verbatim>\<open>NonCryptographicHashAlgorithm\<close>, the argument checks
  and the byte order helpers, with the locale of a streaming hash: a representation relation between the state
  of the object and the bytes appended so far. \<^verbatim>\<open>Hash_Adler32\<close>, \<^verbatim>\<open>Hash_Crc32\<close>, \<^verbatim>\<open>Hash_Crc64\<close> (with the algebra of
  \<^verbatim>\<open>Crc_Core\<close>), \<^verbatim>\<open>Hash_XxHash32\<close> and \<^verbatim>\<open>Hash_XxHash64\<close> (with \<^verbatim>\<open>Block_Buffer\<close>) model the algorithms and show that any
  division of a message into \<^verbatim>\<open>Append\<close> calls, and the one-shot functions, give the reference value of the whole
  message: the sums of RFC 1950 without any intermediate wrap-around, the bitwise shift register for every
  polynomial and bit order, the lanes of xxHash.

  \<^bold>\<open>Collections\<close> (\<^verbatim>\<open>modules/collections\<close>). \<^verbatim>\<open>Coll_Enumeration\<close> models the mutation counter and the enumerator state
  machine behind every fail-fast enumerator, with the locale of a cursor over a versioned snapshot. \<^verbatim>\<open>Coll_List\<close>
  is \<^verbatim>\<open>List.hpp\<close>, \<^verbatim>\<open>Coll_Queues\<close> is \<^verbatim>\<open>Queue.hpp\<close> and \<^verbatim>\<open>Stack.hpp\<close> under the locale of a container that is
  drained in an order. \<^verbatim>\<open>Coll_PriorityQueue\<close> is \<^verbatim>\<open>PriorityQueue.hpp\<close> with the comparison of \<^verbatim>\<open>ComparisonPolicy.hpp\<close>; \<^verbatim>\<open>std::push_heap\<close> and
  \<^verbatim>\<open>std::pop_heap\<close> are parameters under the contract of the C++ standard (the locale \<open>std_heap\<close>), with a binary heap as
  the instance, and floating-point priorities are bit patterns of IEEE 754. \<^verbatim>\<open>Coll_LinkedList\<close> is \<^verbatim>\<open>LinkedList.hpp\<close> on an explicit heap of nodes with previous, next and owner
  links; its loops follow links and are \<^verbatim>\<open>partial_function\<close>s, whose termination on every reachable heap is part
  of \<^verbatim>\<open>Coll_LinkedList_Spec\<close>, where any program of calls over any number of lists is simulated by one over sequences.

  \<^bold>\<open>Time\<close> (\<^verbatim>\<open>modules/core\<close>). \<^verbatim>\<open>Time_TimeSpan\<close> and \<^verbatim>\<open>Time_DateTime\<close> model the tick arithmetic with its overflow checks, the
  calendar in both directions, parsing and printing of time spans, and the kind bits. The zone of the machine
  is a parameter, a fixed offset in the one property that needs it.

  \<^bold>\<open>Buffers\<close> (\<^verbatim>\<open>modules/buffers\<close>). \<^verbatim>\<open>Buf_Base64\<close> models \<^verbatim>\<open>Base64.hpp\<close>; \<^verbatim>\<open>Buf_Base64_Encode\<close>, \<^verbatim>\<open>Buf_Base64_Decode\<close> (the
  validator and final blocks) and \<^verbatim>\<open>Buf_Base64_Outcome\<close> (status, cursors and output for either kind of block) relate it to
  RFC 4648, with the alphabet given by the ranges of ASCII, for every input and destination size. \<^verbatim>\<open>Buf_Binary\<close> models \<^verbatim>\<open>BinaryPrimitives.hpp\<close> on hosts of either
  byte order, with the locale of a codec interpreted for all twenty value types and orders.

  \<^bold>\<open>Text\<close> (\<^verbatim>\<open>modules/text\<close>). \<^verbatim>\<open>Text_Utf8\<close> models the two UTF-8 decoders of the runtime, the encoder and \<^verbatim>\<open>Rune\<close> against
  RFC 3629. \<^verbatim>\<open>Text_Transcoding\<close> models \<^verbatim>\<open>Unicode/Utf8.hpp\<close> under the locale of a transcoder, interpreted in both
  directions against the encodings of scalar values and a description of the ill-formed units. \<^verbatim>\<open>Text_Encodings\<close> models the fallback objects, the base class and the UTF-8, ASCII, Latin-1, UTF-16 and
  UTF-32 encodings; \<^verbatim>\<open>Text_Encodings_Spec\<close> proves them with one locale for the encoding loops and one for the decoding
  loops. \<^verbatim>\<open>Text_Utf7\<close> models and proves UTF-7 with the locale of a bit buffer, interpreted for six and eight bits.

  \<^bold>\<open>Input and output\<close> (\<^verbatim>\<open>modules/io\<close>). \<^verbatim>\<open>IO_Stream\<close> models the virtual functions of \<^verbatim>\<open>Stream\<close> as a record of operations,
  \<^verbatim>\<open>MemoryStream\<close>, and programs of calls. An operation returns, throws, is undefined in C++ (an index outside a
  buffer, a signed overflow) or does not return, so a property that says what it returns excludes the rest. The
  locale \<open>byte_file\<close> is the contract of a seekable stream, a list of bytes with a position; it is interpreted on
  \<^verbatim>\<open>MemoryStream\<close> for the calls the predicate \<open>file_ok\<close> admits, and \<^verbatim>\<open>IO_Buffered\<close> proves it for a \<^verbatim>\<open>BufferedStream\<close> over any stream that satisfies it. \<^verbatim>\<open>IO_Binary\<close> is
  \<^verbatim>\<open>BinaryWriter\<close> and \<^verbatim>\<open>BinaryReader\<close> over any such stream, \<^verbatim>\<open>IO_Chars\<close> their characters against RFC 3629.

  \<^bold>\<open>Threads\<close> (\<^verbatim>\<open>modules/threading\<close>, \<^verbatim>\<open>modules/threading-channels\<close>). \<^verbatim>\<open>Thr_Monitor\<close> is the model of a class protected by one mutex and
  condition variables: a step relation over any number of threads, in which a thread runs one critical
  section, sleeps on a condition variable, or is woken by a notification (or spuriously); invariants are proved by
  rule induction, and the locale collects what a wait loop has to satisfy so that no wake-up is lost. \<^verbatim>\<open>Thr_Channel\<close>
  and \<^verbatim>\<open>Thr_Prioritized\<close> are the channels, \<^verbatim>\<open>Thr_Semaphore\<close> is \<^verbatim>\<open>SemaphoreSlim\<close>, \<^verbatim>\<open>Thr_Events\<close> is \<^verbatim>\<open>CountdownEvent\<close> and \<^verbatim>\<open>ManualResetEventSlim\<close>
  and \<^verbatim>\<open>Thr_RWLock\<close> is \<^verbatim>\<open>ReaderWriterLockSlim\<close>.

  \<^bold>\<open>Bounds and assumptions.\<close> Sizes of containers and buffers are assumed to fit the index types they are cast to
  (31 bits for counts that the code returns as \<^verbatim>\<open>intcs\<close>; the transcoders' counts are cast as in the code); where the code itself guards or wraps a computation it is
  written at its width. Reading outside a buffer behind a raw pointer is undefined in C++; properties of such
  functions assume that the range lies inside the buffer, which the code cannot check. \<^verbatim>\<open>char\<close> is signed. Time
  limits of waits may expire at any moment in the step relations, so the properties hold for all of them. A user
  supplied comparer, equality or clock is a parameter, with the laws the code relies on as hypotheses of the
  properties that need them.

  \<^bold>\<open>Not modelled.\<close> Code that consists of calls to the operating system or to libraries (files, console, sockets,
  processes, TLS, timers, threads themselves), large generated tables (Unicode categories, cultures, time zone
  data) and the modules built on them: \<^verbatim>\<open>io\<close> apart from the streams above (and \<^verbatim>\<open>ReadDecimal\<close>), \<^verbatim>\<open>net\<close> and its parts, \<^verbatim>\<open>console\<close>, \<^verbatim>\<open>diagnostics\<close>, \<^verbatim>\<open>globalization\<close>,
  \<^verbatim>\<open>security\<close> and its parts, \<^verbatim>\<open>time-zone\<close>, \<^verbatim>\<open>timers\<close>, \<^verbatim>\<open>storage\<close>. Floating point other than the comparison of two numbers (\<^verbatim>\<open>Double\<close>, \<^verbatim>\<open>Single\<close>, \<^verbatim>\<open>Math\<close>, \<^verbatim>\<open>numerics\<close>) would need a
  model of IEEE 754. The remaining collections, \<^verbatim>\<open>String\<close>, \<^verbatim>\<open>Uri\<close>, JSON, XML, regular expressions and tasks are pure enough to be
  modelled and are the natural continuation. Formatting and parsing of dates by pattern, culture data and all
  exception messages are left out of the classes that are modelled.
\<close>

end
